(* ===== verification/Prelude.thy ===== *)
theory Prelude
  imports Main "HOL-Library.Word" "HOL-Library.Monad_Syntax"
begin

text \<open>
  Shared vocabulary of the development.

  \<^item> The machine integers of the simulator: \<open>uint8_t\<close> ... \<open>uint64_t\<close> are words of that width, so
    that \<open>+\<close>, \<open>-\<close> and \<open>*\<close> wrap as they do in the code.
  \<^item> Failure: every \<open>assert\<close>, \<open>panic\<close> and out-of-range array access of the source ends the
    simulator process. An operation that can reach one returns an \<open>option\<close>, and \<open>None\<close> is that
    outcome. A theorem that an operation returns \<open>Some\<close> therefore shows that none of its
    assertions can fire and that it never indexes outside an array.
  \<^item> Arrays (\<open>gm_calloc\<close>ed blocks indexed by a line id) are lists, read by \<open>aget\<close> and written by
    \<open>aset\<close>, which check the index.
  \<^item> The collection \<open>arr_simps\<close> holds the facts about array accesses that the component proofs
    use; \<open>step_simps\<close> collects the operations' characteristic equations.
\<close>

unbundle bit_operations_syntax

named_theorems arr_simps "array reads and writes"
named_theorems step_simps "characteristic equations of operations"

type_synonym u8 = "8 word"
type_synonym u16 = "16 word"
type_synonym u32 = "32 word"
type_synonym u64 = "64 word"

section \<open>Assertions and arrays\<close>

definition assert_that :: "bool \<Rightarrow> unit option" where
  "assert_that b = (if b then Some () else None)"

definition aget :: "'a list \<Rightarrow> nat \<Rightarrow> 'a option" where
  "aget xs i = (if i < length xs then Some (xs ! i) else None)"

definition aset :: "'a list \<Rightarrow> nat \<Rightarrow> 'a \<Rightarrow> 'a list option" where
  "aset xs i v = (if i < length xs then Some (xs[i := v]) else None)"

lemma assert_that_simps [simp]:
  "assert_that True = Some ()" "assert_that False = None"
  by (simp_all add: assert_that_def)

lemma assert_that_eq_Some [simp]: "assert_that b = Some u \<longleftrightarrow> b"
  by (simp add: assert_that_def)

lemma assert_that_eq_None [simp]: "assert_that b = None \<longleftrightarrow> \<not> b"
  by (simp add: assert_that_def)

lemma assert_that_bind [simp]: "b \<Longrightarrow> assert_that b \<bind> f = f ()"
  by simp

lemma aget_in_range [simp, arr_simps]: "i < length xs \<Longrightarrow> aget xs i = Some (xs ! i)"
  by (simp add: aget_def)

lemma aset_in_range [simp, arr_simps]: "i < length xs \<Longrightarrow> aset xs i v = Some (xs[i := v])"
  by (simp add: aset_def)

lemma aget_eq_Some [arr_simps]: "aget xs i = Some v \<longleftrightarrow> i < length xs \<and> v = xs ! i"
  by (auto simp: aget_def)

lemma aset_eq_Some [arr_simps]: "aset xs i v = Some ys \<longleftrightarrow> i < length xs \<and> ys = xs[i := v]"
  by (auto simp: aset_def)

lemma aget_eq_None [arr_simps]: "aget xs i = None \<longleftrightarrow> length xs \<le> i"
  by (auto simp: aget_def)

lemma aset_length: "aset xs i v = Some ys \<Longrightarrow> length ys = length xs"
  by (auto simp: aset_eq_Some)

lemma aget_aset: "aset xs i v = Some ys \<Longrightarrow> aget ys j = (if j = i then Some v else aget xs j)"
  by (auto simp: aset_eq_Some aget_def)

lemma option_eqI: "(\<And>i. u = Some i \<longleftrightarrow> v = Some i) \<Longrightarrow> u = v"
  by (metis not_None_eq)

text \<open>A decrement that fails where an unsigned counter of the code would wrap around.\<close>

definition dec :: "nat \<Rightarrow> nat option" where
  "dec n = (if n = 0 then None else Some (n - 1))"

lemma dec_pos [simp]: "n > 0 \<Longrightarrow> dec n = Some (n - 1)"
  by (simp add: dec_def)

section \<open>Lists updated in place\<close>

lemma list_all_nth_iff: "list_all P xs \<longleftrightarrow> (\<forall>i < length xs. P (xs ! i))"
  by (simp add: list_all_length)

lemma map_eq_nthI:
  assumes "length ys = length xs" "\<And>i. i < length xs \<Longrightarrow> ys ! i = f (xs ! i)"
  shows "ys = map f xs"
  using assms by (simp add: list_eq_iff_nth_eq)

lemma sum_list_update_nat:
  fixes xs :: "nat list"
  assumes "i < length xs"
  shows "sum_list (xs[i := v]) + xs ! i = sum_list xs + v"
  using assms
proof (induction xs arbitrary: i)
  case Nil
  then show ?case by simp
next
  case (Cons x xs)
  then show ?case by (cases i) (auto simp: algebra_simps)
qed

lemma count_filter_update:
  assumes "i < length xs"
  shows "length (filter P (xs[i := v])) + of_bool (P (xs ! i)) =
         length (filter P xs) + of_bool (P v)"
  using assms
proof (induction xs arbitrary: i)
  case Nil
  then show ?case by simp
next
  case (Cons x xs)
  then show ?case by (cases i) auto
qed

section \<open>Words\<close>

lemma unat_and_nat: "unat (a AND b) = unat a AND unat b" for a b :: "'a::len word"
  by (simp add: unsigned_and_eq)

lemma unat_minus_one_word: "w \<noteq> 0 \<Longrightarrow> unat (w - 1) = unat w - 1" for w :: "'a::len word"
  by (simp add: unat_minus_one)

lemma unat_inc: "Suc (unat w) < 2 ^ LENGTH('a) \<Longrightarrow> unat (w + 1) = Suc (unat w)"
  for w :: "'a::len word"
  by (simp add: unat_word_ariths)

lemma unat_of_nat_small: "n < 2 ^ LENGTH('a) \<Longrightarrow> unat (of_nat n :: 'a::len word) = n"
  by (simp add: unat_of_nat)

lemma unat_ucast_32_64 [simp]: "unat (ucast (w :: u32) :: u64) = unat w"
proof -
  have "unat w < 2 ^ 64" using unsigned_less [where 'a = nat, of w] by simp
  then show ?thesis by (simp add: unsigned_ucast_eq take_bit_nat_eq_self)
qed

lemma ucast_32_64_lt: "(ucast (w :: u32) :: u64) < -1"
proof -
  have "unat (ucast w :: u64) < 2 ^ 64 - 1" using unsigned_less [where 'a = nat, of w] by simp
  moreover have "unat (-1 :: u64) = 2 ^ 64 - 1"
    by (simp add: unsigned_minus_1_eq_mask mask_eq_exp_minus_1)
  ultimately show ?thesis by (simp only: word_less_nat_alt)
qed

lemma unat_trunc32: "unat w < 2 ^ 32 \<Longrightarrow> unat (ucast (ucast w :: u32) :: u64) = unat w" for w :: u64
  by (simp only: unat_ucast_32_64) (simp add: unsigned_ucast_eq take_bit_nat_eq_self)

text \<open>A mask \<open>2\<^sup>k - 1\<close> selects the remainder modulo \<open>2\<^sup>k\<close>.\<close>

lemma and_pred_power_eq_mod: "(n::nat) AND (2 ^ k - 1) = n mod 2 ^ k"
  by (metis mask_eq_exp_minus_1 take_bit_eq_mask take_bit_eq_mod)

end
