(* ===== verification/BitHacks.thy ===== *)
theory BitHacks
  imports Prelude
begin

text \<open>
  The bit manipulation helpers of \<^verbatim>\<open>src/bithacks.h\<close>: \<open>MAX\<close>/\<open>MIN\<close> (here \<open>zMAX\<close>/\<open>zMIN\<close>), the integer logarithm
  \<open>ilog2\<close>, the power-of-two test \<open>isPow2\<close> that guards every array geometry, and the variadic
  \<open>maxN\<close>/\<open>minN\<close>. The compiler builtins \<open>__builtin_clz\<close> and \<open>__builtin_ctzl\<close> are the functions \<open>clz\<close> and
  \<open>ctz\<close> on words.
\<close>

section \<open>Definitions\<close>

definition zMAX :: "'a::linorder \<Rightarrow> 'a \<Rightarrow> 'a" where
  "zMAX x y = (if x > y then x else y)"

definition zMIN :: "'a::linorder \<Rightarrow> 'a \<Rightarrow> 'a" where
  "zMIN x y = (if x < y then x else y)"

text \<open>Leading zeros among the \<open>n\<close> low bits, from the top; trailing zeros from the bottom.\<close>

primrec clz_from :: "nat \<Rightarrow> 'a::len word \<Rightarrow> nat" where
  "clz_from 0 w = 0"
| "clz_from (Suc n) w = (if bit w n then 0 else Suc (clz_from n w))"

definition clz :: "'a::len word \<Rightarrow> nat" where
  "clz w = clz_from LENGTH('a) w"

primrec ctz_from :: "nat \<Rightarrow> nat \<Rightarrow> 'a::len word \<Rightarrow> nat" where
  "ctz_from 0 i w = i"
| "ctz_from (Suc n) i w = (if bit w i then i else ctz_from n (Suc i) w)"

definition ctz :: "'a::len word \<Rightarrow> nat" where
  "ctz w = ctz_from LENGTH('a) 0 w"

definition ilog2_32 :: "u32 \<Rightarrow> nat" where
  "ilog2_32 val = (if val \<noteq> 0 then 31 - clz val else 0)"

definition ilog2_64 :: "u64 \<Rightarrow> nat" where
  "ilog2_64 val = (if val \<noteq> 0 then 63 - clz val else 0)"

definition isPow2 :: "'a::len word \<Rightarrow> bool" where
  "isPow2 val \<longleftrightarrow> val \<noteq> 0 \<and> val AND (val - 1) = 0"

fun maxN :: "'a::linorder \<Rightarrow> 'a list \<Rightarrow> 'a" where
  "maxN a [] = a"
| "maxN a (b # c) = maxN (if a > b then a else b) c"

fun minN :: "'a::linorder \<Rightarrow> 'a list \<Rightarrow> 'a" where
  "minN a [] = a"
| "minN a (b # c) = minN (if a < b then a else b) c"

section \<open>Maxima and minima\<close>

lemma zMAX_max [simp]: "zMAX x y = max x y"
  by (auto simp: zMAX_def)

lemma zMIN_min [simp]: "zMIN x y = min x y"
  by (auto simp: zMIN_def)

lemma maxN_fold: "maxN a xs = fold max xs a"
  by (induction a xs rule: maxN.induct) (auto simp: max_def intro: arg_cong [of _ _ "fold max _"])

lemma minN_fold: "minN a xs = fold min xs a"
  by (induction a xs rule: minN.induct) (auto simp: min_def intro: arg_cong [of _ _ "fold min _"])

lemma maxN_Max: "maxN a xs = Max (set (a # xs))"
  by (simp only: maxN_fold Max.set_eq_fold)

lemma minN_Min: "minN a xs = Min (set (a # xs))"
  by (simp only: minN_fold Min.set_eq_fold)

section \<open>The integer logarithm\<close>

lemma clz_from_le: "clz_from n w \<le> n"
  by (induction n) auto

lemma clz_from_bit: "clz_from n w < n \<Longrightarrow> bit w (n - 1 - clz_from n w)"
  by (induction n) (auto split: if_splits)

lemma clz_from_top: "n - clz_from n w \<le> i \<Longrightarrow> i < n \<Longrightarrow> \<not> bit w i"
  by (induction n) (auto split: if_splits simp: less_Suc_eq)

lemma clz_less:
  fixes w :: "'a::len word"
  assumes "w \<noteq> 0"
  shows "clz w < LENGTH('a)"
proof (rule ccontr)
  assume "\<not> clz w < LENGTH('a)"
  then have "\<not> bit w i" if "i < LENGTH('a)" for i
    using that clz_from_top [of "LENGTH('a)" w i] clz_from_le [of "LENGTH('a)" w]
    by (simp add: clz_def)
  then have "w = 0"
    by (intro bit_word_eqI) simp
  with assms show False ..
qed

text \<open>The position of the highest set bit brackets the value between two powers of two.\<close>

lemma highest_bit_bounds:
  fixes w :: "'a::len word"
  assumes "w \<noteq> 0"
  shows "2 ^ (LENGTH('a) - 1 - clz w) \<le> unat w" "unat w < 2 ^ (LENGTH('a) - clz w)"
proof -
  let ?n = "LENGTH('a) - clz w"
  have less: "clz w < LENGTH('a)" using assms by (rule clz_less)
  have "bit w (?n - 1)"
    using clz_from_bit [of "LENGTH('a)" w] less by (simp add: clz_def diff_commute)
  then have "bit (unat w) (?n - 1)"
    by (simp add: bit_unsigned_iff)
  then have "odd (unat w div 2 ^ (?n - 1))"
    by (simp add: bit_iff_odd)
  then have "1 \<le> unat w div 2 ^ (?n - 1)"
    by (cases "unat w div 2 ^ (?n - 1)") auto
  then show "2 ^ (LENGTH('a) - 1 - clz w) \<le> unat w"
    using less by (simp add: Suc_le_eq div_greater_zero_iff diff_commute)
  have "take_bit ?n w = w"
  proof (rule bit_word_eqI)
    fix i
    assume i: "i < LENGTH('a)"
    show "bit (take_bit ?n w) i = bit w i"
      using clz_from_top [of "LENGTH('a)" w i] i
      by (cases "i < ?n") (auto simp: bit_take_bit_iff clz_def)
  qed
  then have "take_bit ?n (unat w) = unat w"
    by (metis unsigned_take_bit_eq)
  then show "unat w < 2 ^ ?n"
    by (metis take_bit_nat_less_exp)
qed

section \<open>Powers of two\<close>

lemma nat_and_pred_zero_iff: "m AND (m - 1) = 0 \<longleftrightarrow> m = 0 \<or> (\<exists>k. m = 2 ^ k)" for m :: nat
proof (induction m rule: less_induct)
  case (less m)
  show ?case
  proof (cases "m = 0")
    case False
    show ?thesis
    proof (cases "even m")
      case True
      then obtain k where m: "m = 2 * k" by blast
      with False have k: "0 < k" "k < m" by auto
      have "m AND (m - 1) = 2 * (k AND (k - 1))"
      proof -
        have "(m - 1) div 2 = k - 1" using m k by arith
        then show ?thesis using m by (subst and_rec) simp
      qed
      moreover have "(\<exists>j. m = 2 ^ j) \<longleftrightarrow> (\<exists>j. k = 2 ^ j)"
      proof
        assume "\<exists>j. m = 2 ^ j"
        then obtain j where "m = 2 ^ j" ..
        with m k show "\<exists>j. k = 2 ^ j" by (cases j) auto
      next
        assume "\<exists>j. k = 2 ^ j"
        with m show "\<exists>j. m = 2 ^ j" by (metis power_Suc)
      qed
      ultimately show ?thesis
        using less.IH [OF k(2)] k False by simp
    next
      case odd: False
      then obtain k where m: "m = 2 * k + 1" by (metis oddE)
      have "m AND (m - 1) = 2 * k"
        using m by (subst and_rec) simp
      moreover have "(\<exists>j. m = 2 ^ j) \<longleftrightarrow> k = 0"
      proof
        assume "\<exists>j. m = 2 ^ j"
        then obtain j where "m = 2 ^ j" ..
        with odd have "j = 0" by (cases j) auto
        with m \<open>m = 2 ^ j\<close> show "k = 0" by simp
      next
        assume "k = 0"
        with m show "\<exists>j. m = 2 ^ j" by (intro exI [of _ 0]) simp
      qed
      ultimately show ?thesis using m by simp
    qed
  qed simp
qed

lemma isPow2_iff: "isPow2 w \<longleftrightarrow> (\<exists>k. unat w = 2 ^ k)" for w :: "'a::len word"
proof (cases "w = 0")
  case True
  then show ?thesis by (simp add: isPow2_def)
next
  case False
  have "w AND (w - 1) = 0 \<longleftrightarrow> unat w AND (unat w - 1) = 0"
    using False by (metis unat_and_nat unat_minus_one_word unat_eq_zero)
  then show ?thesis
    using False nat_and_pred_zero_iff [of "unat w"] by (simp add: isPow2_def unat_eq_zero)
qed

text \<open>
  What the arrays use it for: masking a hash with \<open>numSets - 1\<close> is reduction modulo \<open>numSets\<close>.
\<close>

lemma isPow2_mask_mod:
  fixes h n :: "'a::len word"
  assumes "isPow2 n"
  shows "unat (h AND (n - 1)) = unat h mod unat n"
proof -
  from assms obtain k where "unat n = 2 ^ k" by (auto simp: isPow2_iff)
  moreover have "n \<noteq> 0" using assms by (simp add: isPow2_def)
  ultimately show ?thesis
    using and_pred_power_eq_mod [of "unat h" k] by (simp add: unat_and_nat unat_minus_one_word)
qed

section \<open>Trailing zeros\<close>

lemma ctz_from_le: "ctz_from n i w \<le> i + n"
  by (induction n arbitrary: i) (auto, metis add_Suc_right add_Suc)

lemma ctz_from_ge: "i \<le> ctz_from n i w"
  by (induction n arbitrary: i) (auto intro: Suc_leD)

lemma ctz_from_bit: "ctz_from n i w < i + n \<Longrightarrow> bit w (ctz_from n i w)"
  by (induction n arbitrary: i) auto

lemma ctz_from_below: "i \<le> j \<Longrightarrow> j < ctz_from n i w \<Longrightarrow> \<not> bit w j"
proof (induction n arbitrary: i)
  case (Suc n)
  show ?case
  proof (cases "i = j")
    case False
    with Suc.prems have "Suc i \<le> j" "j < ctz_from n (Suc i) w" by (auto split: if_splits)
    then show ?thesis by (rule Suc.IH)
  qed (use Suc.prems in \<open>auto split: if_splits\<close>)
qed simp

lemma ctz_props:
  fixes w :: "'a::len word"
  assumes "w \<noteq> 0"
  shows "ctz w < LENGTH('a)" "bit w (ctz w)" "j < ctz w \<Longrightarrow> \<not> bit w j"
proof -
  show below: "\<not> bit w j" if "j < ctz w" for j
    using ctz_from_below [of 0 j "LENGTH('a)" w] that by (simp add: ctz_def)
  show less: "ctz w < LENGTH('a)"
  proof (rule ccontr)
    assume "\<not> ctz w < LENGTH('a)"
    then have "w = 0" by (intro bit_word_eqI) (simp add: below)
    with assms show False ..
  qed
  then show "bit w (ctz w)"
    using ctz_from_bit [of "LENGTH('a)" 0 w] by (simp add: ctz_def)
qed

lemma ctz_eqI:
  fixes w :: "'a::len word"
  assumes "bit w i" "\<And>j. j < i \<Longrightarrow> \<not> bit w j"
  shows "ctz w = i"
proof -
  have "w \<noteq> 0" using assms(1) by auto
  note p = ctz_props [OF this]
  show ?thesis using p(2) p(3) [of i] assms by (meson linorder_neqE_nat)
qed

end
