(* ===== verification/MemHier.thy ===== *)
theory MemHier
  imports BitHacks
begin

text \<open>
  The types and request structures of the memory hierarchy (\<^verbatim>\<open>src/memory_hierarchy.h\<close>,
  \<^verbatim>\<open>src/memory_hierarchy.cpp\<close>).

  A request carries a pointer to the requester's coherence state (\<open>MESIState* state\<close>). The pointee
  is either a slot of a cache's bottom controller array or a local variable of a core
  (\<open>dummyState\<close> in \<open>FilterCache::replace\<close>), so a pointer is a value of \<open>state_ptr\<close>; dereferencing it
  is a matter of the system state and lives with the coherence controllers. Locks are named by
  \<open>lock_id\<close>: the \<open>ccLock\<close> of a bottom or top controller, or the filter lock of a core's cache.
\<close>

section \<open>Definitions\<close>

type_synonym Address = u64

datatype AccessType = GETS | GETX | PUTS | PUTX

datatype InvType = INV | INVX | FWD

datatype MESIState = I | S | E | M

definition AccessTypeName :: "AccessType \<Rightarrow> string" where
  "AccessTypeName t = (case t of GETS \<Rightarrow> ''GETS'' | GETX \<Rightarrow> ''GETX'' | PUTS \<Rightarrow> ''PUTS'' | PUTX \<Rightarrow> ''PUTX'')"

text \<open>The table \<open>invTypeNames\<close> has two entries; the assertion rejects the third enumerator.\<close>

definition InvTypeName :: "InvType \<Rightarrow> string option" where
  "InvTypeName t =
     (let names = [''INV'', ''INVX'']; idx = (case t of INV \<Rightarrow> 0 | INVX \<Rightarrow> 1 | FWD \<Rightarrow> 2)
      in do { assert_that (idx < length names); aget names idx })"

definition MESIStateName :: "MESIState \<Rightarrow> string" where
  "MESIStateName s = (case s of I \<Rightarrow> ''I'' | S \<Rightarrow> ''S'' | E \<Rightarrow> ''E'' | M \<Rightarrow> ''M'')"

definition IsGet :: "AccessType \<Rightarrow> bool" where
  "IsGet t \<longleftrightarrow> t = GETS \<or> t = GETX"

definition IsPut :: "AccessType \<Rightarrow> bool" where
  "IsPut t \<longleftrightarrow> t = PUTS \<or> t = PUTX"

datatype lock_id = BccLock nat | TccLock nat | FilterLock nat

datatype state_ptr = BccSlot nat nat | LocalState MESIState

record mem_req =
  mr_lineAddr :: Address
  mr_type :: AccessType
  mr_childId :: nat
  mr_state :: state_ptr
  mr_cycle :: u64
  mr_childLock :: "lock_id option"
  mr_initialState :: MESIState
  mr_srcId :: u32
  mr_flags :: u32

definition IFETCH :: u32 where "IFETCH = push_bit 1 1"
definition NOEXCL :: u32 where "NOEXCL = push_bit 2 1"
definition NONINCLWB :: u32 where "NONINCLWB = push_bit 3 1"
definition PUTX_KEEPEXCL :: u32 where "PUTX_KEEPEXCL = push_bit 4 1"
definition PREFETCH :: u32 where "PREFETCH = push_bit 5 1"

definition mr_set :: "u32 \<Rightarrow> mem_req \<Rightarrow> mem_req" where
  "mr_set f r = r\<lparr>mr_flags := mr_flags r OR f\<rparr>"

definition has_flag :: "u32 \<Rightarrow> u32 \<Rightarrow> bool" where
  "has_flag flags f \<longleftrightarrow> flags AND f \<noteq> 0"

definition mr_is :: "u32 \<Rightarrow> mem_req \<Rightarrow> bool" where
  "mr_is f r \<longleftrightarrow> has_flag (mr_flags r) f"

record inv_req =
  ir_lineAddr :: Address
  ir_type :: InvType
  ir_writeback :: bool
  ir_cycle :: u64
  ir_srcId :: u32

section \<open>Flags\<close>

lemmas flag_defs = IFETCH_def NOEXCL_def NONINCLWB_def PUTX_KEEPEXCL_def PREFETCH_def

text \<open>The five request flags are single, pairwise different bits.\<close>

lemma flag_bits [simp]: "bit (2 ^ k :: u32) n \<longleftrightarrow> n = k \<and> k < 32"
  by (auto simp: bit_exp_iff)

lemma has_flag_bit: "k < 32 \<Longrightarrow> has_flag flags (2 ^ k) \<longleftrightarrow> bit flags k"
  using bit_eq_iff [of "flags AND 2 ^ k" 0] by (auto simp: has_flag_def bit_and_iff)

lemma mr_set_is: "k < 32 \<Longrightarrow> mr_is (2 ^ k) (mr_set (2 ^ k) r)"
  by (simp add: mr_is_def mr_set_def has_flag_bit bit_or_iff)

lemma mr_set_other:
  "k < 32 \<Longrightarrow> j < 32 \<Longrightarrow> k \<noteq> j \<Longrightarrow>
    mr_is (2 ^ j) (mr_set (2 ^ k) r) = mr_is (2 ^ j) r"
  by (simp add: mr_is_def mr_set_def has_flag_bit bit_or_iff)

lemma InvTypeName_FWD: "InvTypeName FWD = None"
  by (simp add: InvTypeName_def)

lemma AccessTypeName_inj: "AccessTypeName a = AccessTypeName b \<longleftrightarrow> a = b"
  by (cases a; cases b) (simp_all add: AccessTypeName_def)

lemma MESIStateName_inj: "MESIStateName a = MESIStateName b \<longleftrightarrow> a = b"
  by (cases a; cases b) (simp_all add: MESIStateName_def)

end
