(* ===== verification/MTRandom.thy ===== *)
theory MTRandom
  imports Prelude
begin

text \<open>
  The Mersenne Twister generator of \<^verbatim>\<open>src/mtrand.h\<close> (class \<open>MTRand\<close>): seeding from one word or
  from an array, the reload of the state vector, tempering (\<open>randInt\<close>), draws from an interval, and
  saving and loading the state. All words are \<open>uint64_t\<close> although the algorithm is a 32-bit one; the
  invariant \<open>mt_inv\<close> says that every state word stays below \<open>2\<^sup>3\<^sup>2\<close>, which is what the interface
  comment (\<open>integer in [0,2^32-1]\<close>) relies on. The floating point variants are not modelled.
\<close>

section \<open>Definitions\<close>

definition MT_N :: nat where "MT_N = 624"
definition MT_M :: nat where "MT_M = 397"

record mtrand =
  mt_state :: "u64 list"
  mt_pNext :: nat
  mt_left :: nat

definition hiBit :: "u64 \<Rightarrow> u64" where "hiBit u = u AND 0x80000000"
definition loBit :: "u64 \<Rightarrow> u64" where "loBit u = u AND 0x00000001"
definition loBits :: "u64 \<Rightarrow> u64" where "loBits u = u AND 0x7fffffff"
definition mixBits :: "u64 \<Rightarrow> u64 \<Rightarrow> u64" where "mixBits u v = hiBit u OR loBits v"
definition magic :: "u64 \<Rightarrow> u64" where "magic u = (if loBit u \<noteq> 0 then 0x9908b0df else 0)"

definition twist :: "u64 \<Rightarrow> u64 \<Rightarrow> u64 \<Rightarrow> u64" where
  "twist m s0 s1 = m XOR drop_bit 1 (mixBits s0 s1) XOR magic s1"

text \<open>
  \<open>initialize\<close>: \<open>r\<close> trails \<open>s\<close> by one, so element \<open>i\<close> is computed from element \<open>i - 1\<close>.
\<close>

fun initialize_loop :: "nat \<Rightarrow> nat \<Rightarrow> u64 \<Rightarrow> u64 list" where
  "initialize_loop 0 i r = []"
| "initialize_loop (Suc n) i r =
     (let s = (1812433253 * (r XOR drop_bit 30 r) + of_nat i) AND 0xffffffff
      in s # initialize_loop n (Suc i) s)"

definition mt_initialize :: "u64 \<Rightarrow> u64 list" where
  "mt_initialize seed =
     (let s0 = seed AND 0xffffffff in s0 # initialize_loop (MT_N - 1) 1 s0)"

text \<open>\<open>reload\<close>: the three in-place passes over the state vector.\<close>

definition twist_at :: "nat \<Rightarrow> nat \<Rightarrow> u64 list \<Rightarrow> nat \<Rightarrow> u64 list" where
  "twist_at m nxt st p = st[p := twist (st ! m) (st ! p) (st ! nxt)]"

definition mt_reload_state :: "u64 list \<Rightarrow> u64 list" where
  "mt_reload_state st =
     (let st = foldl (\<lambda>st p. twist_at (p + MT_M) (p + 1) st p) st [0..<MT_N - MT_M];
          st = foldl (\<lambda>st p. twist_at (p + MT_M - MT_N) (p + 1) st p) st [MT_N - MT_M..<MT_N - 1]
      in twist_at (MT_M - 1) 0 st (MT_N - 1))"

definition mt_reload :: "mtrand \<Rightarrow> mtrand" where
  "mt_reload r = r\<lparr>mt_state := mt_reload_state (mt_state r), mt_left := MT_N, mt_pNext := 0\<rparr>"

definition mt_seed :: "u64 \<Rightarrow> mtrand" where
  "mt_seed oneSeed = mt_reload \<lparr>mt_state = mt_initialize oneSeed, mt_pNext = 0, mt_left = 0\<rparr>"

text \<open>Seeding from an array: the two mixing loops, with their cursors \<open>i\<close> and \<open>j\<close>.\<close>

definition seed_step1 :: "u64 list \<Rightarrow> u64 list \<times> nat \<times> nat \<Rightarrow> u64 list \<times> nat \<times> nat" where
  "seed_step1 bigSeed = (\<lambda>(st, i, j).
     let v = st ! i XOR ((st ! (i - 1) XOR drop_bit 30 (st ! (i - 1))) * 1664525);
         v = (v + ((bigSeed ! j) AND 0xffffffff) + of_nat j) AND 0xffffffff;
         st = st[i := v]; i = Suc i; j = Suc j;
         (st, i) = (if MT_N \<le> i then (st[0 := st ! (MT_N - 1)], 1) else (st, i))
     in (st, i, if length bigSeed \<le> j then 0 else j))"

definition seed_step2 :: "u64 list \<times> nat \<Rightarrow> u64 list \<times> nat" where
  "seed_step2 = (\<lambda>(st, i).
     let v = st ! i XOR ((st ! (i - 1) XOR drop_bit 30 (st ! (i - 1))) * 1566083941);
         v = (v - of_nat i) AND 0xffffffff;
         st = st[i := v]; i = Suc i
     in if MT_N \<le> i then (st[0 := st ! (MT_N - 1)], 1) else (st, i))"

text \<open>An empty seed array would be read out of bounds.\<close>

definition mt_seed_array :: "u64 list \<Rightarrow> mtrand option" where
  "mt_seed_array bigSeed =
     (if bigSeed = [] then None
      else
        (let k = (if MT_N > length bigSeed then MT_N else length bigSeed);
             (st, i, j) = (seed_step1 bigSeed ^^ k) (mt_initialize 19650218, 1, 0);
             (st, i) = (seed_step2 ^^ (MT_N - 1)) (st, i)
         in Some (mt_reload \<lparr>mt_state = st[0 := 0x80000000], mt_pNext = 0, mt_left = 0\<rparr>)))"

definition mt_temper :: "u64 \<Rightarrow> u64" where
  "mt_temper s1 =
     (let s1 = s1 XOR drop_bit 11 s1;
          s1 = s1 XOR (push_bit 7 s1 AND 0x9d2c5680);
          s1 = s1 XOR (push_bit 15 s1 AND 0xefc60000)
      in s1 XOR drop_bit 18 s1)"

definition mt_randInt :: "mtrand \<Rightarrow> (mtrand \<times> u64) option" where
  "mt_randInt r = do {
     let r = (if mt_left r = 0 then mt_reload r else r);
     let r = r\<lparr>mt_left := mt_left r - 1\<rparr>;
     s1 \<leftarrow> aget (mt_state r) (mt_pNext r);
     Some (r\<lparr>mt_pNext := Suc (mt_pNext r)\<rparr>, mt_temper s1) }"

definition used_bits :: "u64 \<Rightarrow> u64" where
  "used_bits n =
     (let used = n;
          used = used OR drop_bit 1 used;
          used = used OR drop_bit 2 used;
          used = used OR drop_bit 4 used;
          used = used OR drop_bit 8 used
      in used OR drop_bit 16 used)"

text \<open>The rejection loop has no a priori bound: \<open>fuel\<close> is the number of draws allowed.\<close>

fun mt_randInt_upto :: "nat \<Rightarrow> u64 \<Rightarrow> mtrand \<Rightarrow> (mtrand \<times> u64) option" where
  "mt_randInt_upto 0 n r = None"
| "mt_randInt_upto (Suc fuel) n r = do {
     (r, v) \<leftarrow> mt_randInt r;
     let i = v AND used_bits n;
     if i > n then mt_randInt_upto fuel n r else Some (r, i) }"

definition mt_save :: "mtrand \<Rightarrow> u64 list" where
  "mt_save r = mt_state r @ [of_nat (mt_left r)]"

text \<open>\<open>pNext = &state[N-left]\<close> leaves the array when the stored \<open>left\<close> is larger than \<open>N\<close>.\<close>

definition mt_load :: "u64 list \<Rightarrow> mtrand option" where
  "mt_load a =
     (if length a = MT_N + 1 \<and> unat (a ! MT_N) \<le> MT_N
      then Some \<lparr>mt_state = take MT_N a, mt_pNext = MT_N - unat (a ! MT_N), mt_left = unat (a ! MT_N)\<rparr>
      else None)"

definition mt_copy :: "mtrand \<Rightarrow> mtrand" where
  "mt_copy o' = \<lparr>mt_state = mt_state o', mt_pNext = MT_N - mt_left o', mt_left = mt_left o'\<rparr>"

text \<open>
  \<open>hash(t, c)\<close>: the bytes of the two times in little-endian order, each run through the multiplier
  \<open>UCHAR_MAX + 2\<close>; the static counter \<open>differ\<close> is passed and returned.
\<close>

definition le_bytes :: "u64 \<Rightarrow> u64 list" where
  "le_bytes t = map (\<lambda>i. drop_bit (8 * i) t AND 0xff) [0..<8]"

definition mt_time_hash :: "u64 \<Rightarrow> u64 \<Rightarrow> u64 \<Rightarrow> u64 \<times> u64" where
  "mt_time_hash differ t c =
     (let h1 = foldl (\<lambda>h b. h * 257 + b) 0 (le_bytes t);
          h2 = foldl (\<lambda>h b. h * 257 + b) 0 (le_bytes c)
      in (differ + 1, (h1 + differ) XOR h2))"

text \<open>
  \<open>seed()\<close>: \<open>urandom\<close> is what reading \<open>N\<close> words from \<^verbatim>\<open>/dev/urandom\<close> delivers, if it succeeds; \<open>t\<close> and
  \<open>c\<close> are the times used otherwise.
\<close>

definition mt_seed_auto :: "u64 list option \<Rightarrow> u64 \<Rightarrow> u64 \<Rightarrow> u64 \<Rightarrow> (u64 \<times> mtrand) option" where
  "mt_seed_auto urandom differ t c =
     (case urandom of
        Some bigSeed \<Rightarrow> map_option (Pair differ) (mt_seed_array bigSeed)
      | None \<Rightarrow> (let (differ, h) = mt_time_hash differ t c in Some (differ, mt_seed h)))"

definition is32 :: "u64 \<Rightarrow> bool" where "is32 w \<longleftrightarrow> w < 2 ^ 32"

definition mt_inv :: "mtrand \<Rightarrow> bool" where
  "mt_inv r \<longleftrightarrow> length (mt_state r) = MT_N \<and> list_all is32 (mt_state r) \<and>
     mt_left r \<le> MT_N \<and> mt_pNext r = MT_N - mt_left r"

section \<open>Every state word is a 32-bit value\<close>

text \<open>A word is below \<open>2\<^sup>3\<^sup>2\<close> iff its upper 32 bits are clear.\<close>

lemma is32_iff_take_bit: "is32 w \<longleftrightarrow> take_bit 32 w = w"
proof -
  have "is32 w \<longleftrightarrow> unat w < 2 ^ 32"
    by (simp add: is32_def word_less_nat_alt)
  also have "\<dots> \<longleftrightarrow> take_bit 32 (unat w) = unat w"
    by (simp add: take_bit_nat_eq_self_iff)
  also have "\<dots> \<longleftrightarrow> unat (take_bit 32 w) = unat w"
    by (simp only: unsigned_take_bit_eq)
  also have "\<dots> \<longleftrightarrow> take_bit 32 w = w"
    using unsigned_word_eqI by auto
  finally show ?thesis .
qed

lemma is32_iff_bits: "is32 w \<longleftrightarrow> (\<forall>n. 32 \<le> n \<longrightarrow> \<not> bit w n)"
proof -
  have "take_bit 32 w = w \<longleftrightarrow> (\<forall>n. bit (take_bit 32 w) n = bit w n)"
    using bit_eqI by auto
  also have "\<dots> \<longleftrightarrow> (\<forall>n. 32 \<le> n \<longrightarrow> \<not> bit w n)"
    by (simp only: bit_take_bit_iff) (metis linorder_not_less)
  finally show ?thesis by (simp only: is32_iff_take_bit)
qed

lemma is32_const:
  "is32 0x80000000" "is32 0x7fffffff" "is32 0xffffffff"
  "is32 0x9908b0df" "is32 0x9d2c5680" "is32 0xefc60000"  "is32 0"
  by (simp_all add: is32_def)

lemma is32_and: "is32 b \<Longrightarrow> is32 (a AND b)"
  by (auto simp: is32_iff_bits bit_and_iff)

lemma is32_or: "is32 a \<Longrightarrow> is32 b \<Longrightarrow> is32 (a OR b)"
  by (auto simp: is32_iff_bits bit_or_iff)

lemma is32_xor: "is32 a \<Longrightarrow> is32 b \<Longrightarrow> is32 (a XOR b)"
  by (auto simp: is32_iff_bits bit_xor_iff)

lemma is32_drop_bit: "is32 a \<Longrightarrow> is32 (drop_bit k a)"
  by (auto simp: is32_iff_bits bit_drop_bit_eq)

lemma is32_if: "is32 a \<Longrightarrow> is32 b \<Longrightarrow> is32 (if c then a else b)"
  by simp

lemmas is32_intros = is32_and is32_or is32_xor is32_drop_bit is32_if is32_const

lemma twist_lt32: "is32 m \<Longrightarrow> is32 (twist m s0 s1)"
  unfolding twist_def mixBits_def hiBit_def loBits_def magic_def
  by (intro is32_intros)

lemma initialize_loop_lt32: "list_all is32 (initialize_loop n i r)"
  by (induction n arbitrary: i r) (auto simp: Let_def intro: is32_intros)

lemma initialize_loop_length: "length (initialize_loop n i r) = n"
  by (induction n arbitrary: i r) (auto simp: Let_def)

lemma mt_initialize_ok:
  "length (mt_initialize seed) = MT_N" "list_all is32 (mt_initialize seed)"
  by (auto simp: mt_initialize_def Let_def initialize_loop_length initialize_loop_lt32 MT_N_def
      intro: is32_intros)

text \<open>One in-place twist, and hence any pass of them, keeps length and width.\<close>

lemma twist_at_ok:
  assumes "length st = MT_N" "list_all is32 st" "m < MT_N"
  shows "length (twist_at m nxt st p) = MT_N" "list_all is32 (twist_at m nxt st p)"
proof -
  show "length (twist_at m nxt st p) = MT_N" using assms by (simp add: twist_at_def)
  have "is32 (st ! m)" using assms by (simp add: list_all_length)
  then have "is32 (twist (st ! m) (st ! p) (st ! nxt))" by (rule twist_lt32)
  then show "list_all is32 (twist_at m nxt st p)"
    using assms(2) set_update_subset_insert [of st p]
    by (auto simp: twist_at_def list_all_iff dest!: subsetD)
qed

lemma foldl_twist_ok:
  assumes "length st = MT_N" "list_all is32 st" "\<And>p. p \<in> set ps \<Longrightarrow> m p < MT_N"
  shows "length (foldl (\<lambda>st p. twist_at (m p) (nx p) st p) st ps) = MT_N \<and>
         list_all is32 (foldl (\<lambda>st p. twist_at (m p) (nx p) st p) st ps)"
  using assms
proof (induction ps arbitrary: st)
  case (Cons p ps)
  have "m p < MT_N" using Cons.prems(3) by simp
  note ok = twist_at_ok [OF Cons.prems(1,2) this, of "nx p" p]
  have "\<And>q. q \<in> set ps \<Longrightarrow> m q < MT_N" using Cons.prems(3) by simp
  with Cons.IH [OF ok] show ?case by simp
qed simp

lemma mt_reload_state_ok:
  assumes "length st = MT_N" "list_all is32 st"
  shows "length (mt_reload_state st) = MT_N \<and> list_all is32 (mt_reload_state st)"
proof -
  define st1 where "st1 = foldl (\<lambda>st p. twist_at (p + MT_M) (p + 1) st p) st [0..<MT_N - MT_M]"
  define st2 where
    "st2 = foldl (\<lambda>st p. twist_at (p + MT_M - MT_N) (p + 1) st p) st1 [MT_N - MT_M..<MT_N - 1]"
  have 1: "length st1 = MT_N \<and> list_all is32 st1"
    unfolding st1_def by (rule foldl_twist_ok) (use assms in \<open>auto simp: MT_N_def MT_M_def\<close>)
  then have 2: "length st2 = MT_N \<and> list_all is32 st2"
    unfolding st2_def by (intro foldl_twist_ok) (auto simp: MT_N_def MT_M_def)
  have "MT_M - 1 < MT_N" by (simp add: MT_N_def MT_M_def)
  with 2 have "length (twist_at (MT_M - 1) 0 st2 (MT_N - 1)) = MT_N \<and>
      list_all is32 (twist_at (MT_M - 1) 0 st2 (MT_N - 1))"
    using twist_at_ok by blast
  then show ?thesis by (simp add: mt_reload_state_def st1_def st2_def Let_def)
qed

lemma mt_reload_inv:
  "length (mt_state r) = MT_N \<Longrightarrow> list_all is32 (mt_state r) \<Longrightarrow> mt_inv (mt_reload r)"
  using mt_reload_state_ok by (simp add: mt_inv_def mt_reload_def)

lemma mt_seed_inv: "mt_inv (mt_seed seed)"
  unfolding mt_seed_def by (rule mt_reload_inv) (simp_all add: mt_initialize_ok)

text \<open>The mixing loops of the array seed keep the vector well formed and their cursor in range.\<close>

definition seeding :: "u64 list \<Rightarrow> nat \<Rightarrow> bool" where
  "seeding st i \<longleftrightarrow> length st = MT_N \<and> list_all is32 st \<and> 1 \<le> i \<and> i < MT_N"

lemma seeding_update:
  assumes "seeding st i" "is32 v"
  shows "(case (if MT_N \<le> Suc i then ((st[i := v])[0 := st[i := v] ! (MT_N - 1)], 1) else (st[i := v], Suc i))
          of (st', i') \<Rightarrow> seeding st' i')"
proof -
  have len: "length st = MT_N" and all: "list_all is32 (st[i := v])"
    using assms set_update_subset_insert [of st i v] by (auto simp: seeding_def list_all_iff)
  then have "is32 (st[i := v] ! (MT_N - 1))"
    by (simp add: list_all_length MT_N_def)
  then have "list_all is32 ((st[i := v])[0 := st[i := v] ! (MT_N - 1)])"
    using all set_update_subset_insert [of "st[i := v]" 0 "st[i := v] ! (MT_N - 1)"]
    by (auto simp: list_all_iff dest!: subsetD)
  with assms(1) len all show ?thesis by (auto simp: seeding_def MT_N_def)
qed

lemma seed_step1_seeding:
  assumes "seeding st i"
  shows "(case seed_step1 b (st, i, j) of (st', i', j') \<Rightarrow> seeding st' i')"
  using seeding_update [OF assms is32_and [OF is32_const(3)]]
  unfolding seed_step1_def Let_def by (auto split: if_splits prod.splits)

lemma seed_step2_seeding:
  assumes "seeding st i"
  shows "(case seed_step2 (st, i) of (st', i') \<Rightarrow> seeding st' i')"
  using seeding_update [OF assms is32_and [OF is32_const(3)]]
  unfolding seed_step2_def Let_def by (auto split: if_splits prod.splits)

lemma seed_steps1_seeding:
  "seeding st i \<Longrightarrow> (case (seed_step1 b ^^ k) (st, i, j) of (st', i', j') \<Rightarrow> seeding st' i')"
proof (induction k)
  case (Suc k)
  then show ?case
    using seed_step1_seeding by (cases "(seed_step1 b ^^ k) (st, i, j)") auto
qed simp

lemma seed_steps2_seeding:
  "seeding st i \<Longrightarrow> (case (seed_step2 ^^ k) (st, i) of (st', i') \<Rightarrow> seeding st' i')"
proof (induction k)
  case (Suc k)
  then show ?case
    using seed_step2_seeding by (cases "(seed_step2 ^^ k) (st, i)") auto
qed simp

lemma mt_seed_array_inv:
  assumes "b \<noteq> []"
  shows "\<exists>r. mt_seed_array b = Some r \<and> mt_inv r"
proof -
  let ?k = "if MT_N > length b then MT_N else length b"
  obtain st1 i1 j1 where 1: "(seed_step1 b ^^ ?k) (mt_initialize 19650218, 1, 0) = (st1, i1, j1)"
    by (cases "(seed_step1 b ^^ ?k) (mt_initialize 19650218, 1, 0)")
  obtain st2 i2 where 2: "(seed_step2 ^^ (MT_N - 1)) (st1, i1) = (st2, i2)"
    by (cases "(seed_step2 ^^ (MT_N - 1)) (st1, i1)")
  have "seeding (mt_initialize 19650218) 1"
    by (simp add: seeding_def mt_initialize_ok) (simp add: MT_N_def)
  then have "seeding st1 i1"
    using seed_steps1_seeding [of "mt_initialize 19650218" 1 ?k b 0] 1 by simp
  then have s2: "seeding st2 i2"
    using seed_steps2_seeding [of st1 i1 "MT_N - 1"] 2 by simp
  let ?r = "\<lparr>mt_state = st2[0 := 0x80000000], mt_pNext = 0, mt_left = 0\<rparr>"
  have "list_all is32 (st2[0 := 0x80000000])"
    using s2 is32_const(1) set_update_subset_insert [of st2 0 "0x80000000"]
    by (auto simp: seeding_def list_all_iff dest!: subsetD)
  then have "mt_inv (mt_reload ?r)"
    using s2 by (intro mt_reload_inv) (auto simp: seeding_def)
  then show ?thesis
    using assms 1 2 by (simp add: mt_seed_array_def)
qed

section \<open>Draws\<close>

lemma mt_temper_lt32: "is32 w \<Longrightarrow> is32 (mt_temper w)"
  unfolding mt_temper_def Let_def by (intro is32_intros)

lemma mt_randInt_ok:
  assumes "mt_inv r"
  shows "\<exists>r' v. mt_randInt r = Some (r', v) \<and> is32 v \<and> mt_inv r'"
proof -
  let ?r = "if mt_left r = 0 then mt_reload r else r"
  have inv: "mt_inv ?r" "0 < mt_left ?r"
    using assms mt_reload_inv [of r] by (auto simp: mt_inv_def mt_reload_def MT_N_def)
  then have i: "mt_pNext ?r < length (mt_state ?r)"
    by (auto simp: mt_inv_def MT_N_def)
  then have "is32 (mt_state ?r ! mt_pNext ?r)"
    using inv(1) by (simp add: mt_inv_def list_all_length)
  then have "is32 (mt_temper (mt_state ?r ! mt_pNext ?r))" by (rule mt_temper_lt32)
  moreover have "mt_inv (?r\<lparr>mt_left := mt_left ?r - 1, mt_pNext := Suc (mt_pNext ?r)\<rparr>)"
    using inv by (auto simp: mt_inv_def)
  ultimately show ?thesis
    using i by (simp add: mt_randInt_def Let_def)
qed

lemma and_le_right: "(a AND b :: 'a::len word) \<le> b"
  by (rule word_and_le1)

lemma mt_randInt_upto_bound: "mt_randInt_upto fuel n r = Some (r', v) \<Longrightarrow> v \<le> n"
  by (induction fuel arbitrary: r)
    (auto simp: Let_def bind_eq_Some_conv not_less split: if_splits)

text \<open>If \<open>n + 1\<close> is a power of two the mask is \<open>n\<close> itself and the first draw is accepted.\<close>

lemma used_bits_mask:
  assumes "k \<le> 32"
  shows "used_bits (mask k) = mask k"
proof -
  have smear: "(mask k :: u64) OR drop_bit j (mask k) = mask k" for j
    using assms by (intro bit_eqI) (auto simp: bit_or_iff bit_drop_bit_eq bit_mask_iff)
  show ?thesis by (simp only: used_bits_def Let_def smear)
qed

lemma mt_randInt_upto_mask:
  assumes "mt_inv r" "k \<le> 32"
  shows "\<exists>r' v. mt_randInt_upto (Suc fuel) (mask k) r = Some (r', v) \<and> v \<le> mask k \<and> mt_inv r'"
proof -
  obtain r' v where r: "mt_randInt r = Some (r', v)" "mt_inv r'"
    using mt_randInt_ok [OF assms(1)] by blast
  have "\<not> mask k < v AND mask k" using and_le_right [of v "mask k"] by (simp only: not_less)
  with r show ?thesis
    using used_bits_mask [OF assms(2)] and_le_right [of v "mask k"] by simp
qed

section \<open>Saving, loading, copying\<close>

lemma mt_load_save:
  assumes "mt_inv r"
  shows "mt_load (mt_save r) = Some r"
proof -
  have len: "length (mt_state r) = MT_N" and le: "mt_left r \<le> MT_N"
    using assms by (simp_all add: mt_inv_def)
  have "unat (of_nat (mt_left r) :: u64) = mt_left r"
    using le by (simp add: unat_of_nat MT_N_def)
  then show ?thesis
    using assms len le by (auto simp: mt_load_def mt_save_def nth_append mt_inv_def)
qed

lemma mt_copy_id: "mt_inv r \<Longrightarrow> mt_copy r = r"
  by (auto simp: mt_copy_def mt_inv_def)

lemma mt_seed_auto_inv:
  assumes "case urandom of Some b \<Rightarrow> length b = MT_N | None \<Rightarrow> True"
  shows "\<exists>d r. mt_seed_auto urandom differ t c = Some (d, r) \<and> mt_inv r"
proof (cases urandom)
  case (Some b)
  then have "b \<noteq> []" using assms by (auto simp: MT_N_def)
  from mt_seed_array_inv [OF this] Some show ?thesis by (auto simp: mt_seed_auto_def)
qed (auto simp: mt_seed_auto_def mt_seed_inv split: prod.split)

section \<open>Properties\<close>

fun mt_draws :: "nat \<Rightarrow> mtrand \<Rightarrow> mtrand option" where
  "mt_draws 0 r = Some r"
| "mt_draws (Suc n) r = do { (r, v) \<leftarrow> mt_randInt r; mt_draws n r }"

lemma mt_draws_inv: "mt_inv r \<Longrightarrow> \<exists>r'. mt_draws n r = Some r' \<and> mt_inv r'"
proof (induction n arbitrary: r)
  case (Suc n)
  obtain r' v where "mt_randInt r = Some (r', v)" "mt_inv r'" using mt_randInt_ok [OF Suc.prems] by blast
  then show ?case using Suc.IH by simp
qed simp

text \<open>
  Every generator seeded with a number produces 32-bit values for ever: after any number of draws the
  next one succeeds, never leaves the state array and stays below \<open>2\<^sup>3\<^sup>2\<close>.
\<close>

theorem mt_draws_32_bit:
  "\<exists>r r' v. mt_draws n (mt_seed seed) = Some r \<and> mt_randInt r = Some (r', v) \<and> is32 v"
  using mt_draws_inv [OF mt_seed_inv] mt_randInt_ok by blast

text \<open>C30. Saving a generator and loading the saved array restores it exactly.\<close>

theorem mt_save_load_roundtrip:
  assumes "mt_inv r"
  shows "mt_load (mt_save r) = Some r"
  using assms by (rule mt_load_save)

theorem mt_save_load_roundtrip_witness: "mt_load (mt_save (mt_seed 5)) = Some (mt_seed 5)"
  by (rule mt_save_load_roundtrip [OF mt_seed_inv])

end
