(* ===== verification/HashFam.thy ===== *)
theory HashFam
  imports MTRandom
begin

text \<open>
  The hash families of \<^verbatim>\<open>src/hash.h\<close> and \<^verbatim>\<open>src/hash.cpp\<close>: the H3 family (a random bit matrix,
  evaluated by an 8-way unrolled loop and folded to the output width) and the identity family. The
  SHA-1 family calls PolarSSL and is compiled out by default, where its constructor and its hash only
  panic.

  Shown here: the hash stays inside the matrix the constructor allocates; it is linear over
  exclusive or, the defining property of an H3 family; and the reference loop quoted in the comment
  above \<open>H3HashFamily::hash\<close> is not the function the unrolled loop computes.
\<close>

section \<open>Definitions\<close>

record h3_family =
  h3_numFuncs :: nat
  h3_resShift :: nat
  h3_hMatrix :: "u64 list"

text \<open>One matrix word: 64 draws, each shifting in a bit that is set when the draw is even.\<close>

fun h3_row :: "nat \<Rightarrow> u64 \<Rightarrow> mtrand \<Rightarrow> (u64 \<times> mtrand) option" where
  "h3_row 0 val rnd = Some (val, rnd)"
| "h3_row (Suc kk) val rnd = do {
     (rnd, v) \<leftarrow> mt_randInt rnd;
     let val = push_bit 1 val;
     h3_row kk (if v mod 2 = 0 then val + 1 else val) rnd }"

fun h3_rows :: "nat \<Rightarrow> mtrand \<Rightarrow> u64 list option" where
  "h3_rows 0 rnd = Some []"
| "h3_rows (Suc n) rnd = do {
     (val, rnd) \<leftarrow> h3_row 64 0 rnd;
     vals \<leftarrow> h3_rows n rnd;
     Some (val # vals) }"

definition h3_shift :: "nat \<Rightarrow> nat option" where
  "h3_shift outputBits =
     (if outputBits \<le> 8 then Some 3 else if outputBits \<le> 16 then Some 2
      else if outputBits \<le> 32 then Some 1 else if outputBits \<le> 64 then Some 0 else None)"

definition H3HashFamily :: "nat \<Rightarrow> nat \<Rightarrow> u64 \<Rightarrow> h3_family option" where
  "H3HashFamily numFunctions outputBits randSeed = do {
     resShift \<leftarrow> h3_shift outputBits;
     let words = drop_bit resShift 64;
     rows \<leftarrow> h3_rows (words * numFunctions) (mt_seed randSeed);
     Some \<lparr>h3_numFuncs = numFunctions, h3_resShift = resShift, h3_hMatrix = rows\<rparr> }"

text \<open>\<open>(x << k) | (x >> (64 - k))\<close>\<close>

definition rot :: "nat \<Rightarrow> u64 \<Rightarrow> u64" where
  "rot k x = push_bit k x OR drop_bit (64 - k) x"

text \<open>One iteration of the unrolled loop at \<open>base\<close>.\<close>

definition h3_block :: "u64 list \<Rightarrow> u64 \<Rightarrow> nat \<Rightarrow> u64 \<Rightarrow> u64 option" where
  "h3_block hMatrix val base res = do {
     h0 \<leftarrow> aget hMatrix base;       let res0 = val AND h0;
     h1 \<leftarrow> aget hMatrix (base + 1); let res1 = val AND h1;
     h2 \<leftarrow> aget hMatrix (base + 2); let res2 = val AND h2;
     h3 \<leftarrow> aget hMatrix (base + 3); let res3 = val AND h3;
     h4 \<leftarrow> aget hMatrix (base + 4); let res4 = val AND h4;
     h5 \<leftarrow> aget hMatrix (base + 5); let res5 = val AND h5;
     h6 \<leftarrow> aget hMatrix (base + 6); let res6 = val AND h6;
     h7 \<leftarrow> aget hMatrix (base + 7); let res7 = val AND h7;
     let res = res XOR (res0 XOR rot 1 res1 XOR rot 2 res2 XOR rot 3 res3);
     let res = res XOR (rot 4 res4 XOR rot 5 res5 XOR rot 6 res6 XOR rot 7 res7);
     Some (push_bit 8 res OR drop_bit 56 res) }"

fun h3_loop :: "nat \<Rightarrow> u64 list \<Rightarrow> u64 \<Rightarrow> nat \<Rightarrow> u64 \<Rightarrow> u64 option" where
  "h3_loop 0 hMatrix val base res = Some res"
| "h3_loop (Suc n) hMatrix val base res = do {
     res \<leftarrow> h3_block hMatrix val base res;
     h3_loop n hMatrix val (base + 8) res }"

definition h3_fold :: "nat \<Rightarrow> u64 \<Rightarrow> u64" where
  "h3_fold resShift res =
     (let f32 = (\<lambda>r. drop_bit 32 r XOR r); f16 = (\<lambda>r. drop_bit 16 r XOR r); f8 = (\<lambda>r. drop_bit 8 r XOR r)
      in if resShift = 1 then f32 res
         else if resShift = 2 then f16 (f32 res)
         else if resShift = 3 then f8 (f16 (f32 res))
         else res)"

text \<open>The loop runs \<open>maxBits / 8\<close> times, \<open>x = 0, 8, ...\<close>.\<close>

definition h3_hash :: "h3_family \<Rightarrow> nat \<Rightarrow> u64 \<Rightarrow> u64 option" where
  "h3_hash h fid val = do {
     assert_that (fid < h3_numFuncs h);
     let maxBits = drop_bit (h3_resShift h) (64::nat);
     res \<leftarrow> h3_loop (maxBits div 8) (h3_hMatrix h) val (push_bit (6 - h3_resShift h) fid) 0;
     Some (h3_fold (h3_resShift h) res) }"

text \<open>The reference loop of the comment (64-bit hash).\<close>

fun h3_reference_loop :: "nat \<Rightarrow> u64 list \<Rightarrow> u64 \<Rightarrow> nat \<Rightarrow> u64 \<Rightarrow> u64 option" where
  "h3_reference_loop 0 hMatrix val base res = Some res"
| "h3_reference_loop (Suc n) hMatrix val base res = do {
     h \<leftarrow> aget hMatrix base;
     let res = res XOR (val AND h);
     h3_reference_loop n hMatrix val (base + 1) (push_bit 1 res OR drop_bit 63 res) }"

definition h3_reference :: "h3_family \<Rightarrow> nat \<Rightarrow> u64 \<Rightarrow> u64 option" where
  "h3_reference h fid val = h3_reference_loop 64 (h3_hMatrix h) val (fid * 64) 0"

definition id_hash :: "nat \<Rightarrow> u64 \<Rightarrow> u64" where
  "id_hash fid val = val"

text \<open>
  The SHA-1 family, built with PolarSSL. The digest of the 128-byte buffer, five 32-bit words, is the
  library's \<open>sha1\<close>, an argument here. Pass \<open>i\<close> hashes the buffer mixed with the words of the passes
  before it; the words of all passes are memoized for one value.
\<close>

type_synonym sha1_fn = "u64 list \<Rightarrow> u32 list"

record sha1_family =
  sf_numFuncs :: nat
  sf_numPasses :: nat
  sf_memoizedVal :: u64
  sf_memoizedHashes :: "u32 list"

definition SHA1HashFamily :: "nat \<Rightarrow> sha1_family" where
  "SHA1HashFamily numFunctions =
     (let numPasses = numFunctions div 5 + 1
      in \<lparr>sf_numFuncs = numFunctions, sf_numPasses = numPasses, sf_memoizedVal = 0,
          sf_memoizedHashes = replicate (numPasses * 5) 0\<rparr>)"

text \<open>The words of \<open>n\<close> further passes; \<open>prev\<close> holds the words of the pass before, if any.\<close>

fun sha1_passes :: "sha1_fn \<Rightarrow> nat \<Rightarrow> u32 list \<Rightarrow> u64 list \<Rightarrow> u32 list" where
  "sha1_passes sha1 0 prev buffer = []"
| "sha1_passes sha1 (Suc n) prev buffer =
     (let buffer = map (\<lambda>j. if j < length prev then buffer ! j XOR ucast (prev ! j) else buffer ! j) [0..<16];
          ws = sha1 buffer
      in ws @ sha1_passes sha1 n ws buffer)"

definition sha1_hash :: "sha1_fn \<Rightarrow> sha1_family \<Rightarrow> nat \<Rightarrow> u64 \<Rightarrow> (sha1_family \<times> u64) option" where
  "sha1_hash sha1 f fid val = do {
     assert_that (fid < sf_numFuncs f);
     if val = sf_memoizedVal f then do {
       h \<leftarrow> aget (sf_memoizedHashes f) fid;
       Some (f, ucast h) }
     else do {
       let hashes = sha1_passes sha1 (sf_numPasses f) [] (replicate 16 val);
       h \<leftarrow> aget hashes fid;
       Some (f\<lparr>sf_memoizedHashes := hashes, sf_memoizedVal := val\<rparr>, ucast h) } }"

text \<open>Built without PolarSSL, both SHA-1 entry points panic.\<close>

definition SHA1HashFamily_nossl :: "nat \<Rightarrow> unit option" where
  "SHA1HashFamily_nossl numFunctions = None"

definition sha1_hash_nossl :: "nat \<Rightarrow> u64 \<Rightarrow> u64 option" where
  "sha1_hash_nossl fid val = None"

definition h3_wf :: "h3_family \<Rightarrow> bool" where
  "h3_wf h \<longleftrightarrow> h3_resShift h \<le> 3 \<and>
     length (h3_hMatrix h) = drop_bit (h3_resShift h) 64 * h3_numFuncs h"

section \<open>The constructor\<close>

lemma h3_row_ok: "mt_inv rnd \<Longrightarrow> \<exists>val' rnd'. h3_row kk val rnd = Some (val', rnd') \<and> mt_inv rnd'"
proof (induction kk arbitrary: val rnd)
  case (Suc kk)
  obtain rnd' v where r: "mt_randInt rnd = Some (rnd', v)" "mt_inv rnd'"
    using mt_randInt_ok [OF Suc.prems] by blast
  then show ?case using Suc.IH [OF r(2)] by (simp add: Let_def)
qed simp

lemma h3_rows_ok: "mt_inv rnd \<Longrightarrow> \<exists>rows. h3_rows n rnd = Some rows \<and> length rows = n"
proof (induction n arbitrary: rnd)
  case (Suc n)
  obtain val rnd' where r: "h3_row 64 0 rnd = Some (val, rnd')" "mt_inv rnd'"
    using h3_row_ok [OF Suc.prems] by blast
  then show ?case using Suc.IH [OF r(2)] by auto
qed simp

lemma H3HashFamily_wf:
  assumes "outputBits \<le> 64"
  shows "\<exists>h. H3HashFamily n outputBits seed = Some h \<and> h3_wf h \<and> h3_numFuncs h = n"
proof -
  have "\<exists>sh. h3_shift outputBits = Some sh \<and> sh \<le> 3"
    using assms by (simp add: h3_shift_def)
  then obtain sh where sh: "h3_shift outputBits = Some sh" "sh \<le> 3" by blast
  obtain rows where "h3_rows (drop_bit sh 64 * n) (mt_seed seed) = Some rows"
    "length rows = drop_bit sh 64 * n"
    using h3_rows_ok [OF mt_seed_inv] by blast
  with sh show ?thesis by (simp add: H3HashFamily_def h3_wf_def Let_def)
qed

section \<open>Linearity\<close>

lemma rot_xor: "rot k (a XOR b) = rot k a XOR rot k b" if "k < 64"
  using that
  by (intro bit_word_eqI) (auto simp: rot_def bit_simps dest: bit_imp_le_length)

lemma rot8_eq: "push_bit 8 x OR drop_bit 56 x = rot 8 x"
  by (simp add: rot_def)

lemma and_xor_right: "(a XOR b) AND c = (a AND c) XOR (b AND c)" for a b c :: u64
  by (rule bit_word_eqI) (auto simp: bit_simps)

lemma h3_block_in_range:
  assumes "base + 7 < length m"
  shows "h3_block m v base r =
    Some (rot 8 (r XOR ((v AND m ! base) XOR rot 1 (v AND m ! (base + 1)) XOR
      rot 2 (v AND m ! (base + 2)) XOR rot 3 (v AND m ! (base + 3))) XOR
      (rot 4 (v AND m ! (base + 4)) XOR rot 5 (v AND m ! (base + 5)) XOR
      rot 6 (v AND m ! (base + 6)) XOR rot 7 (v AND m ! (base + 7)))))"
  using assms by (simp add: h3_block_def Let_def rot8_eq ac_simps)

lemma h3_block_xor:
  assumes "base + 7 < length m" "h3_block m a base r = Some x" "h3_block m b base s = Some y"
  shows "h3_block m (a XOR b) base (r XOR s) = Some (x XOR y)"
  using assms(2,3)
  by (auto simp: h3_block_in_range [OF assms(1)] and_xor_right rot_xor ac_simps)

lemma h3_loop_total: "base + 8 * n \<le> length m \<Longrightarrow> \<exists>x. h3_loop n m v base r = Some x"
proof (induction n arbitrary: base r)
  case (Suc n)
  then have "base + 7 < length m" by simp
  then obtain r' where "h3_block m v base r = Some r'" by (simp add: h3_block_in_range)
  with Suc show ?case by simp
qed simp

lemma h3_loop_xor:
  assumes "base + 8 * n \<le> length m" "h3_loop n m a base r = Some x" "h3_loop n m b base s = Some y"
  shows "h3_loop n m (a XOR b) base (r XOR s) = Some (x XOR y)"
  using assms
proof (induction n arbitrary: base r s)
  case (Suc n)
  then have b: "base + 7 < length m" by simp
  from Suc.prems obtain r' s' where
    rs: "h3_block m a base r = Some r'" "h3_block m b base s = Some s'"
    and rest: "h3_loop n m a (base + 8) r' = Some x" "h3_loop n m b (base + 8) s' = Some y"
    by (auto simp: bind_eq_Some_conv)
  have "h3_loop n m (a XOR b) (base + 8) (r' XOR s') = Some (x XOR y)"
    using Suc.prems(1) by (intro Suc.IH rest) simp
  with h3_block_xor [OF b rs] show ?case by simp
qed simp

lemma drop_xor: "drop_bit k (a XOR b) = drop_bit k a XOR drop_bit k b" for a b :: u64
  by (rule bit_word_eqI) (auto simp: bit_simps)

lemma h3_fold_xor: "h3_fold sh (a XOR b) = h3_fold sh a XOR h3_fold sh b"
  by (simp add: h3_fold_def Let_def drop_xor ac_simps)

text \<open>The rows of function \<open>id\<close> lie inside the matrix.\<close>

lemma h3_rows_in_matrix:
  assumes "h3_wf h" "fid < h3_numFuncs h"
  shows "push_bit (6 - h3_resShift h) fid + 8 * (drop_bit (h3_resShift h) 64 div 8)
    \<le> length (h3_hMatrix h)"
proof -
  have "h3_resShift h \<in> {0, 1, 2, 3}" using assms(1) by (auto simp: h3_wf_def)
  with assms show ?thesis
    by (auto simp: h3_wf_def push_bit_eq_mult drop_bit_eq_div)
qed

lemma h3_hash_total:
  assumes "h3_wf h" "fid < h3_numFuncs h"
  shows "\<exists>x. h3_hash h fid v = Some x"
  using h3_loop_total [OF h3_rows_in_matrix [OF assms], of v 0] assms(2)
  by (auto simp: h3_hash_def Let_def)

lemma h3_hash_xor:
  assumes wf: "h3_wf h" and fid: "fid < h3_numFuncs h"
    and a: "h3_hash h fid a = Some x" and b: "h3_hash h fid b = Some y"
  shows "h3_hash h fid (a XOR b) = Some (x XOR y)"
proof -
  let ?n = "drop_bit (h3_resShift h) (64::nat) div 8" and ?base = "push_bit (6 - h3_resShift h) fid"
  let ?loop = "\<lambda>v. h3_loop ?n (h3_hMatrix h) v ?base 0"
  obtain x' y' where l: "?loop a = Some x'" "?loop b = Some y'"
    using a b by (auto simp: h3_hash_def Let_def bind_eq_Some_conv)
  have "?loop (a XOR b) = Some (x' XOR y')"
    using h3_loop_xor [OF h3_rows_in_matrix [OF wf fid] l] by simp
  with a b l fid show ?thesis
    by (simp add: h3_hash_def Let_def h3_fold_xor)
qed

section \<open>SHA-1 family\<close>

text \<open>The memo is the freshly cleared one, or holds the words of the memoized value.\<close>

definition sf_inv :: "sha1_fn \<Rightarrow> sha1_family \<Rightarrow> bool" where
  "sf_inv sha1 f \<longleftrightarrow> sf_numPasses f = sf_numFuncs f div 5 + 1 \<and>
     (sf_memoizedVal f = 0 \<and> sf_memoizedHashes f = replicate (sf_numPasses f * 5) 0 \<or>
      sf_memoizedHashes f = sha1_passes sha1 (sf_numPasses f) [] (replicate 16 (sf_memoizedVal f)))"

lemma sha1_passes_length:
  "(\<And>b. length (sha1 b) = 5) \<Longrightarrow> length (sha1_passes sha1 n prev buffer) = n * 5"
  by (induction n arbitrary: prev buffer) (simp_all add: Let_def)

lemma SHA1HashFamily_inv: "sf_inv sha1 (SHA1HashFamily n)"
  by (simp add: sf_inv_def SHA1HashFamily_def Let_def)

lemma sha1_index_in_range: "fid < n \<Longrightarrow> fid < (n div 5 + 1) * (5::nat)"
  by presburger

lemma sha1_hash_nonzero:
  assumes len: "\<And>b. length (sha1 b) = 5" and "sf_inv sha1 f" "fid < sf_numFuncs f" "val \<noteq> 0"
  shows "\<exists>f'. sha1_hash sha1 f fid val =
      Some (f', ucast (sha1_passes sha1 (sf_numFuncs f div 5 + 1) [] (replicate 16 val) ! fid)) \<and>
    sf_inv sha1 f' \<and> sf_numFuncs f' = sf_numFuncs f"
proof -
  have "fid < (sf_numFuncs f div 5 + 1) * 5" by (rule sha1_index_in_range [OF assms(3)])
  then have "aget (sha1_passes sha1 (sf_numFuncs f div 5 + 1) [] (replicate 16 val)) fid =
      Some (sha1_passes sha1 (sf_numFuncs f div 5 + 1) [] (replicate 16 val) ! fid)"
    by (simp only: sha1_passes_length [OF len] aget_in_range)
  with assms(2-4) show ?thesis
    by (cases "val = sf_memoizedVal f") (auto simp: sha1_hash_def sf_inv_def Let_def)
qed

section \<open>Properties\<close>

text \<open>
  An H3 family built for any number of functions and output bits can be applied with every one of its
  functions to every address without leaving its matrix.
\<close>

theorem h3_family_total:
  assumes "outputBits \<le> 64" "fid < n"
  shows "\<exists>h x. H3HashFamily n outputBits seed = Some h \<and> h3_hash h fid v = Some x"
proof -
  obtain h where h: "H3HashFamily n outputBits seed = Some h" "h3_wf h" "h3_numFuncs h = n"
    using H3HashFamily_wf [OF assms(1)] by blast
  with h3_hash_total [OF h(2)] assms(2) show ?thesis by blast
qed

theorem h3_family_total_witness:
  "\<exists>h x. H3HashFamily 4 64 123 = Some h \<and> h3_hash h 3 42 = Some x"
  by (rule h3_family_total) simp_all

text \<open>Every H3 function is linear over exclusive or, the defining property of the family.\<close>

theorem h3_linear:
  assumes "h3_wf h" "fid < h3_numFuncs h" "h3_hash h fid a = Some x" "h3_hash h fid b = Some y"
  shows "h3_hash h fid (a XOR b) = Some (x XOR y)"
  using assms by (rule h3_hash_xor)

definition h3_one_row :: h3_family where
  "h3_one_row = \<lparr>h3_numFuncs = 1, h3_resShift = 0, h3_hMatrix = (replicate 64 0)[1 := 1]\<rparr>"

lemma h3_one_row_wf: "h3_wf h3_one_row"
  by (simp add: h3_wf_def h3_one_row_def)

theorem h3_linear_witness:
  "\<exists>x y. h3_hash h3_one_row 0 5 = Some x \<and> h3_hash h3_one_row 0 3 = Some y \<and>
    h3_hash h3_one_row 0 (5 XOR 3) = Some (x XOR y)"
proof -
  have f: "0 < h3_numFuncs h3_one_row" by (simp add: h3_one_row_def)
  obtain x y where "h3_hash h3_one_row 0 5 = Some x" "h3_hash h3_one_row 0 3 = Some y"
    using h3_hash_total [OF h3_one_row_wf f] by metis
  then show ?thesis using h3_linear [OF h3_one_row_wf f] by blast
qed

text \<open>
  The unrolled loop is not the loop its comment gives: on the matrix whose only set entry is bit 0 of
  row 1, hashing 1 gives 2, while the commented loop gives \<open>2\<^sup>6\<^sup>3\<close>.
\<close>

theorem h3_unrolled_not_reference:
  "h3_hash h3_one_row 0 1 = Some 2 \<and> h3_reference h3_one_row 0 1 = Some (2 ^ 63)"
  by code_simp

text \<open>
  After any hashing history, the SHA-1 family maps a nonzero value to a word that depends on the
  function number and the value only: memoization is transparent for nonzero values.
\<close>

theorem sha1_memo_transparent:
  assumes "\<And>b. length (sha1 b) = 5" "sf_inv sha1 f" "fid < sf_numFuncs f" "val \<noteq> 0"
  shows "\<exists>f'. sha1_hash sha1 f fid val =
      Some (f', ucast (sha1_passes sha1 (sf_numFuncs f div 5 + 1) [] (replicate 16 val) ! fid)) \<and>
    sf_inv sha1 f' \<and> sf_numFuncs f' = sf_numFuncs f"
  using assms by (rule sha1_hash_nonzero)

definition toy_sha1 :: sha1_fn where
  "toy_sha1 b = map (\<lambda>i. ucast (b ! i) + 1) [0..<5]"

theorem sha1_memo_transparent_witness:
  "\<exists>f'. sha1_hash toy_sha1 (SHA1HashFamily 2) 1 7 =
      Some (f', ucast (sha1_passes toy_sha1 (sf_numFuncs (SHA1HashFamily 2) div 5 + 1) [] (replicate 16 7) ! 1)) \<and>
    sf_inv toy_sha1 f' \<and> sf_numFuncs f' = sf_numFuncs (SHA1HashFamily 2)"
  by (rule sha1_memo_transparent)
     (simp_all add: toy_sha1_def SHA1HashFamily_inv, simp add: SHA1HashFamily_def)

text \<open>
  The value 0 collides with the cleared memo: whatever the digest, a fresh family hashes 0 to 0
  without computing it.
\<close>

theorem sha1_zero_hits_empty_memo:
  assumes "fid < n"
  shows "sha1_hash sha1 (SHA1HashFamily n) fid 0 = Some (SHA1HashFamily n, 0)"
  using sha1_index_in_range [OF assms] assms by (simp add: sha1_hash_def SHA1HashFamily_def Let_def)

theorem sha1_zero_hits_empty_memo_witness:
  "sha1_hash toy_sha1 (SHA1HashFamily 4) 3 0 = Some (SHA1HashFamily 4, 0)"
  by (rule sha1_zero_hits_empty_memo) simp

end
