(* ===== verification/ReplPolicies.thy ===== *)
theory ReplPolicies
  imports MemHier MTRandom
begin

text \<open>
  The replacement policies of \<^verbatim>\<open>src/repl_policies.h\<close>: LRU (plain and sharer-aware), tree LRU, 2-bit
  NRU, random, LFU, and the profiling extension \<open>ProfViolReplPolicy\<close> over LRU.

  A policy object is a record. The virtual methods the cache arrays call, \<open>update\<close>, \<open>replaced\<close> and
  \<open>rankCands\<close>, are the fields of a method table \<open>repl_vt\<close>, one constant per class. The candidates of
  a replacement are the list of line ids their iterator enumerates. The coherence controller a policy
  consults is the view \<open>cc_view\<close> (sharers and validity per line).
\<close>

section \<open>Definitions\<close>

record cc_view =
  ccv_numSharers :: "nat \<Rightarrow> u32"
  ccv_isValid :: "nat \<Rightarrow> bool"

record 'rp repl_vt =
  vt_update :: "'rp \<Rightarrow> nat \<Rightarrow> mem_req \<Rightarrow> 'rp option"
  vt_replaced :: "'rp \<Rightarrow> nat \<Rightarrow> 'rp option"
  vt_rankCands :: "'rp \<Rightarrow> cc_view \<Rightarrow> mem_req \<Rightarrow> nat list \<Rightarrow> ('rp \<times> nat) option"

text \<open>\<open>LegacyReplPolicy::rank\<close>: record every candidate, then ask for the best one.\<close>

fun record_all :: "('rp \<Rightarrow> nat \<Rightarrow> 'rp option) \<Rightarrow> 'rp \<Rightarrow> nat list \<Rightarrow> 'rp option" where
  "record_all recordCandidate p [] = Some p"
| "record_all recordCandidate p (c # cs) = do {
     p \<leftarrow> recordCandidate p c;
     record_all recordCandidate p cs }"

definition legacy_rank ::
  "('rp \<Rightarrow> mem_req \<Rightarrow> 'rp) \<Rightarrow> ('rp \<Rightarrow> nat \<Rightarrow> 'rp option) \<Rightarrow> ('rp \<Rightarrow> ('rp \<times> nat) option) \<Rightarrow>
    'rp \<Rightarrow> mem_req \<Rightarrow> nat list \<Rightarrow> ('rp \<times> nat) option" where
  "legacy_rank startReplacement recordCandidate getBestCandidate p req cands = do {
     p \<leftarrow> record_all recordCandidate (startReplacement p req) cands;
     getBestCandidate p }"

subsection \<open>LRU\<close>

record lru =
  lru_timestamp :: u64
  lru_array :: "u64 list"

definition lru_new :: "nat \<Rightarrow> lru" where
  "lru_new numLines = \<lparr>lru_timestamp = 1, lru_array = replicate numLines 0\<rparr>"

definition lru_update :: "lru \<Rightarrow> nat \<Rightarrow> mem_req \<Rightarrow> lru option" where
  "lru_update p i req = do {
     a \<leftarrow> aset (lru_array p) i (lru_timestamp p);
     Some (p\<lparr>lru_array := a, lru_timestamp := lru_timestamp p + 1\<rparr>) }"

definition lru_replaced :: "lru \<Rightarrow> nat \<Rightarrow> lru option" where
  "lru_replaced p i = do { a \<leftarrow> aset (lru_array p) i 0; Some (p\<lparr>lru_array := a\<rparr>) }"

definition lru_score :: "bool \<Rightarrow> lru \<Rightarrow> cc_view \<Rightarrow> nat \<Rightarrow> u64 option" where
  "lru_score sharersAware p cc i = do {
     t \<leftarrow> aget (lru_array p) i;
     Some ((if sharersAware then ucast (ccv_numSharers cc i) else 0) * lru_timestamp p +
           t * of_bool (ccv_isValid cc i)) }"

text \<open>The score is stored in a \<open>uint32_t\<close> before it is compared.\<close>

fun lru_rank_loop :: "bool \<Rightarrow> lru \<Rightarrow> cc_view \<Rightarrow> nat list \<Rightarrow> nat \<Rightarrow> u64 \<Rightarrow> nat option" where
  "lru_rank_loop sharersAware p cc [] bestCand bestScore = Some bestCand"
| "lru_rank_loop sharersAware p cc (c # cs) bestCand bestScore = do {
     sc \<leftarrow> lru_score sharersAware p cc c;
     let s = (ucast (ucast sc :: u32) :: u64);
     lru_rank_loop sharersAware p cc cs (if s < bestScore then c else bestCand) (zMIN s bestScore) }"

definition lru_rank :: "bool \<Rightarrow> lru \<Rightarrow> cc_view \<Rightarrow> mem_req \<Rightarrow> nat list \<Rightarrow> (lru \<times> nat) option" where
  "lru_rank sharersAware p cc req cands = do {
     c \<leftarrow> lru_rank_loop sharersAware p cc cands (unat (-1 :: u32)) (-1);
     Some (p, c) }"

definition LRUReplPolicy :: "bool \<Rightarrow> lru repl_vt" where
  "LRUReplPolicy sharersAware =
     \<lparr>vt_update = lru_update, vt_replaced = lru_replaced, vt_rankCands = lru_rank sharersAware\<rparr>"

subsection \<open>Tree LRU\<close>

record tree_lru =
  tlru_base :: lru
  tlru_candArray :: "nat list"
  tlru_numCands :: nat
  tlru_candIdx :: nat

definition tlru_new :: "nat \<Rightarrow> u32 \<Rightarrow> tree_lru option" where
  "tlru_new numLines numCands = do {
     assert_that (numCands AND (numCands - 1) = 0);
     Some \<lparr>tlru_base = lru_new numLines, tlru_candArray = replicate (unat numCands) 0,
           tlru_numCands = unat numCands, tlru_candIdx = 0\<rparr> }"

definition tlru_recordCandidate :: "tree_lru \<Rightarrow> nat \<Rightarrow> tree_lru option" where
  "tlru_recordCandidate p i = do {
     a \<leftarrow> aset (tlru_candArray p) (tlru_candIdx p) i;
     Some (p\<lparr>tlru_candArray := a, tlru_candIdx := Suc (tlru_candIdx p)\<rparr>) }"

text \<open>The latest timestamp among the candidates at positions \<open>i, ..., j - 1\<close>.\<close>

definition tlru_maxTime :: "u64 list \<Rightarrow> nat list \<Rightarrow> nat \<Rightarrow> nat \<Rightarrow> u64" where
  "tlru_maxTime arr cands i j = foldl (\<lambda>t k. zMAX t (arr ! (cands ! k))) 0 [i..<j]"

function tlru_walk :: "u64 list \<Rightarrow> nat list \<Rightarrow> nat \<Rightarrow> nat \<Rightarrow> nat" where
  "tlru_walk arr cands start end' =
     (if end' - start > 1 then
        let pivot = start + (end' - start) div 2;
            t1 = tlru_maxTime arr cands start pivot;
            t2 = tlru_maxTime arr cands pivot end'
        in if t1 > t2 then tlru_walk arr cands pivot end' else tlru_walk arr cands start pivot
      else start)"
  by pat_completeness auto
termination
  by (relation "measure (\<lambda>(arr, cands, start, end'). end' - start)") auto

definition tlru_getBestCandidate :: "tree_lru \<Rightarrow> (tree_lru \<times> nat) option" where
  "tlru_getBestCandidate p = do {
     assert_that (tlru_candIdx p = tlru_numCands p);
     c \<leftarrow> aget (tlru_candArray p)
          (tlru_walk (lru_array (tlru_base p)) (tlru_candArray p) 0 (tlru_numCands p));
     Some (p, c) }"

definition tlru_update :: "tree_lru \<Rightarrow> nat \<Rightarrow> mem_req \<Rightarrow> tree_lru option" where
  "tlru_update p i req = do { b \<leftarrow> lru_update (tlru_base p) i req; Some (p\<lparr>tlru_base := b\<rparr>) }"

definition tlru_replaced :: "tree_lru \<Rightarrow> nat \<Rightarrow> tree_lru option" where
  "tlru_replaced p i = do {
     a \<leftarrow> aset (lru_array (tlru_base p)) i 0;
     Some (p\<lparr>tlru_candIdx := 0, tlru_base := (tlru_base p)\<lparr>lru_array := a\<rparr>\<rparr>) }"

text \<open>
  The class inherits the two \<open>rankCands\<close> bindings of \<open>LRUReplPolicy<true>\<close>, whose \<open>rank\<close> is a
  non-virtual template of the base: ranking never reaches the tree walk.
\<close>

definition TreeLRUReplPolicy :: "tree_lru repl_vt" where
  "TreeLRUReplPolicy =
     \<lparr>vt_update = tlru_update, vt_replaced = tlru_replaced,
      vt_rankCands = (\<lambda>p cc req cands. do {
        (b, c) \<leftarrow> lru_rank True (tlru_base p) cc req cands;
        Some (p\<lparr>tlru_base := b\<rparr>, c) })\<rparr>"

subsection \<open>NRU\<close>

record nru =
  nru_array :: "u32 list"
  nru_candArray :: "nat list"
  nru_numLines :: nat
  nru_youngLines :: u32
  nru_candVal :: u32
  nru_candIdx :: nat

definition nru_new :: "nat \<Rightarrow> nat \<Rightarrow> nru" where
  "nru_new numLines numCands =
     \<lparr>nru_array = replicate numLines 0, nru_candArray = replicate numCands 0, nru_numLines = numLines,
      nru_youngLines = 0, nru_candVal = push_bit 20 1, nru_candIdx = 0\<rparr>"

definition nru_update :: "nru \<Rightarrow> nat \<Rightarrow> mem_req \<Rightarrow> nru option" where
  "nru_update p i req = do {
     v \<leftarrow> aget (nru_array p) i;
     let young = nru_youngLines p + (1 - drop_bit 1 v);
     a \<leftarrow> aset (nru_array p) i (v OR 2);
     Some (if unat young \<ge> nru_numLines p div 2
           then p\<lparr>nru_array := map (drop_bit 1) a, nru_youngLines := 0\<rparr>
           else p\<lparr>nru_array := a, nru_youngLines := young\<rparr>) }"

definition nru_recordCandidate :: "nru \<Rightarrow> nat \<Rightarrow> nru option" where
  "nru_recordCandidate p i = do {
     iVal \<leftarrow> aget (nru_array p) i;
     if iVal < nru_candVal p then do {
       a \<leftarrow> aset (nru_candArray p) 0 i;
       Some (p\<lparr>nru_candVal := iVal, nru_candArray := a, nru_candIdx := 1\<rparr>) }
     else if iVal = nru_candVal p then do {
       a \<leftarrow> aset (nru_candArray p) (nru_candIdx p) i;
       Some (p\<lparr>nru_candArray := a, nru_candIdx := Suc (nru_candIdx p)\<rparr>) }
     else Some p }"

definition nru_getBestCandidate :: "nru \<Rightarrow> (nru \<times> nat) option" where
  "nru_getBestCandidate p = do {
     assert_that (nru_candIdx p > 0);
     c \<leftarrow> aget (nru_candArray p) (unat (nru_youngLines p) mod nru_candIdx p);
     Some (p, c) }"

definition nru_replaced :: "nru \<Rightarrow> nat \<Rightarrow> nru option" where
  "nru_replaced p i = do {
     a \<leftarrow> aset (nru_array p) i 0;
     Some (p\<lparr>nru_candVal := push_bit 20 1, nru_candIdx := 0, nru_array := a\<rparr>) }"

definition nru_rank :: "nru \<Rightarrow> cc_view \<Rightarrow> mem_req \<Rightarrow> nat list \<Rightarrow> (nru \<times> nat) option" where
  "nru_rank p cc req cands =
     legacy_rank (\<lambda>p req. p) nru_recordCandidate nru_getBestCandidate p req cands"

definition NRUReplPolicy :: "nru repl_vt" where
  "NRUReplPolicy =
     \<lparr>vt_update = nru_update, vt_replaced = nru_replaced, vt_rankCands = nru_rank\<rparr>"

subsection \<open>Random\<close>

record rand_repl =
  rr_candArray :: "nat list"
  rr_numCands :: nat
  rr_rnd :: mtrand
  rr_candIdx :: nat

text \<open>The seed is an offset plus the address of the object, an argument here.\<close>

definition rand_new :: "nat \<Rightarrow> u64 \<Rightarrow> rand_repl" where
  "rand_new numCands this =
     \<lparr>rr_candArray = replicate numCands 0, rr_numCands = numCands, rr_rnd = mt_seed (0x23A5F + this),
      rr_candIdx = 0\<rparr>"

definition rand_update :: "rand_repl \<Rightarrow> nat \<Rightarrow> mem_req \<Rightarrow> rand_repl option" where
  "rand_update p i req = Some p"

definition rand_recordCandidate :: "rand_repl \<Rightarrow> nat \<Rightarrow> rand_repl option" where
  "rand_recordCandidate p i = do {
     a \<leftarrow> aset (rr_candArray p) (rr_candIdx p) i;
     Some (p\<lparr>rr_candArray := a, rr_candIdx := Suc (rr_candIdx p)\<rparr>) }"

text \<open>\<open>draws\<close> bounds the rejection loop of \<open>randInt(n)\<close>.\<close>

definition rand_getBestCandidate :: "nat \<Rightarrow> rand_repl \<Rightarrow> (rand_repl \<times> nat) option" where
  "rand_getBestCandidate draws p = do {
     assert_that (rr_candIdx p = rr_numCands p);
     (rnd, idx) \<leftarrow> mt_randInt_upto draws (of_nat (rr_numCands p) - 1) (rr_rnd p);
     c \<leftarrow> aget (rr_candArray p) (unat idx);
     Some (p\<lparr>rr_rnd := rnd\<rparr>, c) }"

definition rand_replaced :: "rand_repl \<Rightarrow> nat \<Rightarrow> rand_repl option" where
  "rand_replaced p i = Some (p\<lparr>rr_candIdx := 0\<rparr>)"

definition rand_rank :: "nat \<Rightarrow> rand_repl \<Rightarrow> cc_view \<Rightarrow> mem_req \<Rightarrow> nat list \<Rightarrow> (rand_repl \<times> nat) option" where
  "rand_rank draws p cc req cands =
     legacy_rank (\<lambda>p req. p) rand_recordCandidate (rand_getBestCandidate draws) p req cands"

definition RandReplPolicy :: "nat \<Rightarrow> rand_repl repl_vt" where
  "RandReplPolicy draws =
     \<lparr>vt_update = rand_update, vt_replaced = rand_replaced, vt_rankCands = rand_rank draws\<rparr>"

subsection \<open>LFU\<close>

record lfu_info =
  lfu_ts :: u64
  lfu_acc :: u64

record lfu_rank_info =
  rk_lfuInfo :: lfu_info
  rk_sharers :: u32
  rk_valid :: bool

record lfu =
  lfu_timestamp :: u64
  lfu_bestCandidate :: "nat option"
  lfu_array :: "lfu_info list"
  lfu_bestRank :: lfu_rank_info

definition lfu_rank_reset :: lfu_rank_info where
  "lfu_rank_reset = \<lparr>rk_lfuInfo = \<lparr>lfu_ts = 0, lfu_acc = 0\<rparr>, rk_sharers = 0, rk_valid = False\<rparr>"

definition lfu_lessThan :: "lfu_rank_info \<Rightarrow> lfu_rank_info \<Rightarrow> u64 \<Rightarrow> bool" where
  "lfu_lessThan r other curTs =
     (if \<not> rk_valid r \<and> rk_valid other then True
      else if rk_valid r = rk_valid other then
        (if rk_sharers r = 0 \<and> rk_sharers other > 0 then True
         else if rk_sharers r > 0 \<and> rk_sharers other = 0 then False
         else if lfu_acc (rk_lfuInfo r) = 0 then True
         else if lfu_acc (rk_lfuInfo other) = 0 then False
         else
           let ownInvFreq = (curTs - lfu_ts (rk_lfuInfo r)) div lfu_acc (rk_lfuInfo r);
               otherInvFreq = (curTs - lfu_ts (rk_lfuInfo other)) div lfu_acc (rk_lfuInfo other)
           in ownInvFreq > otherInvFreq)
      else False)"

definition lfu_new :: "nat \<Rightarrow> lfu" where
  "lfu_new numLines =
     \<lparr>lfu_timestamp = 1, lfu_bestCandidate = None,
      lfu_array = replicate numLines \<lparr>lfu_ts = 0, lfu_acc = 0\<rparr>, lfu_bestRank = lfu_rank_reset\<rparr>"

text \<open>The division is by \<open>acc + 1\<close>, which is 0 after \<open>2\<^sup>6\<^sup>4 - 1\<close> accesses to a line.\<close>

definition lfu_update :: "lfu \<Rightarrow> nat \<Rightarrow> mem_req \<Rightarrow> lfu option" where
  "lfu_update p i req = do {
     e \<leftarrow> aget (lfu_array p) i;
     assert_that (lfu_acc e + 1 \<noteq> 0);
     let ts = (lfu_acc e * lfu_ts e + lfu_timestamp p) div (lfu_acc e + 1);
     a \<leftarrow> aset (lfu_array p) i \<lparr>lfu_ts = ts, lfu_acc = lfu_acc e + 1\<rparr>;
     Some (p\<lparr>lfu_array := a, lfu_timestamp := lfu_timestamp p + 1000\<rparr>) }"

definition lfu_recordCandidate :: "cc_view \<Rightarrow> lfu \<Rightarrow> nat \<Rightarrow> lfu option" where
  "lfu_recordCandidate cc p i = do {
     e \<leftarrow> aget (lfu_array p) i;
     let candRank = \<lparr>rk_lfuInfo = e, rk_sharers = ccv_numSharers cc i, rk_valid = ccv_isValid cc i\<rparr>;
     Some (if lfu_bestCandidate p = None \<or> lfu_lessThan candRank (lfu_bestRank p) (lfu_timestamp p)
           then p\<lparr>lfu_bestRank := candRank, lfu_bestCandidate := Some i\<rparr> else p) }"

definition lfu_getBestCandidate :: "lfu \<Rightarrow> (lfu \<times> nat) option" where
  "lfu_getBestCandidate p = do { c \<leftarrow> lfu_bestCandidate p; Some (p, c) }"

definition lfu_replaced :: "lfu \<Rightarrow> nat \<Rightarrow> lfu option" where
  "lfu_replaced p i = do {
     e \<leftarrow> aget (lfu_array p) i;
     a \<leftarrow> aset (lfu_array p) i (e\<lparr>lfu_acc := 0\<rparr>);
     Some (p\<lparr>lfu_bestCandidate := None, lfu_bestRank := lfu_rank_reset, lfu_array := a\<rparr>) }"

definition lfu_rank :: "lfu \<Rightarrow> cc_view \<Rightarrow> mem_req \<Rightarrow> nat list \<Rightarrow> (lfu \<times> nat) option" where
  "lfu_rank p cc req cands =
     legacy_rank (\<lambda>p req. p) (lfu_recordCandidate cc) lfu_getBestCandidate p req cands"

definition LFUReplPolicy :: "lfu repl_vt" where
  "LFUReplPolicy =
     \<lparr>vt_update = lfu_update, vt_replaced = lfu_replaced, vt_rankCands = lfu_rank\<rparr>"

subsection \<open>Profiling of ordering violations\<close>

record acc_times =
  at_read :: u64
  at_write :: u64

record prof_viol =
  pv_base :: lru
  pv_accTimes :: "acc_times list"
  pv_replCycle :: u64
  profRAW :: u64
  profWAR :: u64
  profRAR :: u64
  profWAW :: u64
  profNoViolAcc :: u64
  profAAE :: u64
  profNoViolEv :: u64

definition pv_init :: "nat \<Rightarrow> prof_viol" where
  "pv_init numLines =
     \<lparr>pv_base = lru_new numLines, pv_accTimes = replicate numLines \<lparr>at_read = 0, at_write = 0\<rparr>,
      pv_replCycle = 0, profRAW = 0, profWAR = 0, profRAR = 0, profWAW = 0, profNoViolAcc = 0,
      profAAE = 0, profNoViolEv = 0\<rparr>"

text \<open>Which access was overtaken: \<open>None\<close> when there is no violation, else whether it was a read.\<close>

definition pv_readViol :: "u64 \<Rightarrow> acc_times \<Rightarrow> bool option option" where
  "pv_readViol cycle t =
     (if cycle < zMAX (at_read t) (at_write t) then
        (if cycle < zMIN (at_read t) (at_write t) then Some (Some (at_read t < at_write t))
         else if cycle < at_read t then Some (Some True)
         else do { assert_that (cycle < at_write t); Some (Some False) })
      else Some None)"

definition pv_update :: "prof_viol \<Rightarrow> nat \<Rightarrow> mem_req \<Rightarrow> prof_viol option" where
  "pv_update p i req = do {
     b \<leftarrow> lru_update (pv_base p) i req;
     let p = p\<lparr>pv_base := b\<rparr>;
     let isRead = (mr_type req = GETS);
     assert_that (isRead \<or> mr_type req = GETX);
     t \<leftarrow> aget (pv_accTimes p) i;
     viol \<leftarrow> pv_readViol (mr_cycle req) t;
     let p = (case viol of
         None \<Rightarrow> p\<lparr>profNoViolAcc := profNoViolAcc p + 1\<rparr>
       | Some True \<Rightarrow> if isRead then p\<lparr>profRAR := profRAR p + 1\<rparr> else p\<lparr>profWAR := profWAR p + 1\<rparr>
       | Some False \<Rightarrow> if isRead then p\<lparr>profRAW := profRAW p + 1\<rparr> else p\<lparr>profWAW := profWAW p + 1\<rparr>);
     a \<leftarrow> aset (pv_accTimes p) i
          (if isRead then t\<lparr>at_read := zMAX (at_read t) (mr_cycle req)\<rparr>
           else t\<lparr>at_write := zMAX (at_write t) (mr_cycle req)\<rparr>);
     b \<leftarrow> lru_update (pv_base p) i req;
     Some (p\<lparr>pv_accTimes := a, pv_base := b\<rparr>) }"

definition pv_replaced :: "prof_viol \<Rightarrow> nat \<Rightarrow> prof_viol option" where
  "pv_replaced p i = do {
     b \<leftarrow> lru_replaced (pv_base p) i;
     t \<leftarrow> aget (pv_accTimes p) i;
     a \<leftarrow> aset (pv_accTimes p) i \<lparr>at_read = 0, at_write = 0\<rparr>;
     let p = p\<lparr>pv_base := b, pv_accTimes := a\<rparr>;
     Some (if pv_replCycle p < zMAX (at_read t) (at_write t)
           then p\<lparr>profAAE := profAAE p + 1\<rparr> else p\<lparr>profNoViolEv := profNoViolEv p + 1\<rparr>) }"

text \<open>\<open>rankCands\<close> is inherited from LRU, which has no \<open>startReplacement\<close>: \<open>replCycle\<close> is never set.\<close>

definition ProfViolReplPolicy :: "bool \<Rightarrow> prof_viol repl_vt" where
  "ProfViolReplPolicy sharersAware =
     \<lparr>vt_update = pv_update, vt_replaced = pv_replaced,
      vt_rankCands = (\<lambda>p cc req cands. do {
        (b, c) \<leftarrow> lru_rank sharersAware (pv_base p) cc req cands;
        Some (p\<lparr>pv_base := b\<rparr>, c) })\<rparr>"

section \<open>The contract of a replacement policy\<close>

text \<open>
  What the cache arrays rely on. \<open>lines\<close> is the number of lines the policy tracks, \<open>ready\<close> holds
  between replacements (the legacy policies accumulate candidates from \<open>rank\<close> until \<open>replaced\<close>), and
  \<open>fits\<close> says which candidate lists the policy was dimensioned for.
\<close>

locale repl_policy =
  fixes vt :: "'rp repl_vt"
    and inv_rp :: "'rp \<Rightarrow> bool"
    and ready :: "'rp \<Rightarrow> bool"
    and lines :: "'rp \<Rightarrow> nat"
    and fits :: "'rp \<Rightarrow> nat list \<Rightarrow> bool"
  assumes update_ok: "inv_rp p \<Longrightarrow> i < lines p \<Longrightarrow> IsGet (mr_type req) \<Longrightarrow>
      \<exists>p'. vt_update vt p i req = Some p' \<and> inv_rp p' \<and> lines p' = lines p \<and>
        (ready p \<longrightarrow> ready p') \<and> fits p' = fits p"
    and replaced_ok: "inv_rp p \<Longrightarrow> i < lines p \<Longrightarrow>
      \<exists>p'. vt_replaced vt p i = Some p' \<and> inv_rp p' \<and> lines p' = lines p \<and> ready p' \<and> fits p' = fits p"
    and rank_ok: "inv_rp p \<Longrightarrow> ready p \<Longrightarrow> fits p cands \<Longrightarrow> cands \<noteq> [] \<Longrightarrow>
      \<forall>c \<in> set cands. c < lines p \<Longrightarrow>
      \<exists>p' c. vt_rankCands vt p cc req cands = Some (p', c) \<and> c \<in> set cands \<and>
        inv_rp p' \<and> lines p' = lines p \<and> fits p' = fits p"
begin

text \<open>The calls an array makes for one insertion: rank, then \<open>replaced\<close>, then \<open>update\<close>.\<close>

lemma replacement_cycle:
  assumes "inv_rp p" "ready p" "fits p cands" "cands \<noteq> []" "\<forall>c \<in> set cands. c < lines p"
    "IsGet (mr_type req)"
  shows "\<exists>p1 c p2 p3. vt_rankCands vt p cc req cands = Some (p1, c) \<and> c \<in> set cands \<and>
    vt_replaced vt p1 c = Some p2 \<and> vt_update vt p2 c req = Some p3 \<and>
    inv_rp p3 \<and> ready p3 \<and> lines p3 = lines p \<and> fits p3 = fits p"
proof -
  obtain p1 c where 1: "vt_rankCands vt p cc req cands = Some (p1, c)" "c \<in> set cands"
    "inv_rp p1" "lines p1 = lines p" "fits p1 = fits p"
    using rank_ok [OF assms(1-5)] by blast
  then have c: "c < lines p1" using assms(5) by simp
  obtain p2 where 2: "vt_replaced vt p1 c = Some p2" "inv_rp p2" "lines p2 = lines p1" "ready p2"
    "fits p2 = fits p1"
    using replaced_ok [OF 1(3) c] by blast
  obtain p3 where 3: "vt_update vt p2 c req = Some p3" "inv_rp p3" "lines p3 = lines p2" "ready p3"
    "fits p3 = fits p2"
    using update_ok [OF 2(2) _ assms(6), of c] 2(3,4) c by auto
  show ?thesis using 1 2 3 by auto
qed

end

section \<open>LRU\<close>

abbreviation trunc32 :: "u64 \<Rightarrow> u64" where
  "trunc32 w \<equiv> ucast (ucast w :: u32)"

lemma unat_trunc32_mod: "unat (trunc32 w) = unat w mod 2 ^ 32"
  by (simp only: unat_ucast_32_64) (simp add: unsigned_ucast_eq take_bit_eq_mod)

text \<open>The total function behind the score of a line that exists.\<close>

definition lru_score_of :: "bool \<Rightarrow> lru \<Rightarrow> cc_view \<Rightarrow> nat \<Rightarrow> u64" where
  "lru_score_of sa p cc i =
     (if sa then ucast (ccv_numSharers cc i) else 0) * lru_timestamp p +
     lru_array p ! i * of_bool (ccv_isValid cc i)"

lemma lru_score_eq: "i < length (lru_array p) \<Longrightarrow> lru_score sa p cc i = Some (lru_score_of sa p cc i)"
  by (simp add: lru_score_def lru_score_of_def)

lemma lru_rank_loop_spec:
  assumes "\<forall>c \<in> set cands. c < length (lru_array p)"
  shows "\<exists>v. lru_rank_loop sa p cc cands b bs = Some v \<and>
    ((v = b \<and> (\<forall>c \<in> set cands. bs \<le> trunc32 (lru_score_of sa p cc c))) \<or>
     (v \<in> set cands \<and> trunc32 (lru_score_of sa p cc v) < bs \<and>
      (\<forall>c \<in> set cands. trunc32 (lru_score_of sa p cc v) \<le> trunc32 (lru_score_of sa p cc c))))"
  using assms
proof (induction cands arbitrary: b bs)
  case (Cons c cs)
  let ?s = "trunc32 (lru_score_of sa p cc c)"
  have sc: "lru_score sa p cc c = Some (lru_score_of sa p cc c)"
    using Cons.prems by (simp add: lru_score_eq)
  have "\<forall>d \<in> set cs. d < length (lru_array p)" using Cons.prems by simp
  note IH = Cons.IH [OF this, of "if ?s < bs then c else b" "min ?s bs"]
  then show ?case by (auto simp: sc Let_def min_def split: if_splits)
qed simp

lemma lru_rank_spec:
  assumes "cands \<noteq> []" "\<forall>c \<in> set cands. c < length (lru_array p)"
  shows "\<exists>v. lru_rank sa p cc req cands = Some (p, v) \<and> v \<in> set cands \<and>
    (\<forall>c \<in> set cands. trunc32 (lru_score_of sa p cc v) \<le> trunc32 (lru_score_of sa p cc c))"
proof -
  obtain v where v: "lru_rank_loop sa p cc cands (unat (-1 :: u32)) (-1) = Some v"
    and spec: "(\<forall>c \<in> set cands. -1 \<le> trunc32 (lru_score_of sa p cc c)) \<or>
      (v \<in> set cands \<and> (\<forall>c \<in> set cands. trunc32 (lru_score_of sa p cc v) \<le> trunc32 (lru_score_of sa p cc c)))"
    using lru_rank_loop_spec [OF assms(2), of sa cc "unat (-1 :: u32)" "-1"] by blast
  obtain c0 where c0: "c0 \<in> set cands" using assms(1) by (cases cands) auto
  have "\<not> -1 \<le> trunc32 (lru_score_of sa p cc c0)"
    using ucast_32_64_lt by (simp only: not_le)
  with spec c0 v show ?thesis by (auto simp: lru_rank_def)
qed

interpretation lru_rp: repl_policy "LRUReplPolicy sa" "\<lambda>_. True" "\<lambda>_. True"
  "\<lambda>p. length (lru_array p)" "\<lambda>_ _. True" for sa
proof (unfold_locales, goal_cases)
  case (1 p i req)
  then show ?case by (simp add: LRUReplPolicy_def lru_update_def)
next
  case (2 p i)
  then show ?case by (simp add: LRUReplPolicy_def lru_replaced_def)
next
  case (3 p cands cc req)
  then show ?case using lru_rank_spec by (fastforce simp: LRUReplPolicy_def)
qed

text \<open>Timestamps: every entry is older than the clock.\<close>

definition lru_wf :: "lru \<Rightarrow> bool" where
  "lru_wf p \<longleftrightarrow> (\<forall>t \<in> set (lru_array p). t < lru_timestamp p)"

text \<open>
  The order the comment at \<open>score\<close> announces: sharers first, then recency, an invalid line counting
  as never used.
\<close>

definition lru_age :: "lru \<Rightarrow> cc_view \<Rightarrow> nat \<Rightarrow> nat" where
  "lru_age p cc c = (if ccv_isValid cc c then unat (lru_array p ! c) else 0)"

definition lru_sharers :: "bool \<Rightarrow> cc_view \<Rightarrow> nat \<Rightarrow> nat" where
  "lru_sharers sa cc c = (if sa then unat (ccv_numSharers cc c) else 0)"

lemma lru_score_unat:
  assumes "lru_wf p" "c < length (lru_array p)"
    "(lru_sharers sa cc c + 1) * unat (lru_timestamp p) \<le> 2 ^ 32"
  shows "unat (trunc32 (lru_score_of sa p cc c)) =
    lru_sharers sa cc c * unat (lru_timestamp p) + lru_age p cc c"
    "lru_age p cc c < unat (lru_timestamp p)"
proof -
  have lt: "unat (lru_array p ! c) < unat (lru_timestamp p)"
    using assms(1,2) by (simp add: lru_wf_def word_less_nat_alt)
  show age: "lru_age p cc c < unat (lru_timestamp p)"
    using lt by (simp add: lru_age_def)
  have sum: "lru_sharers sa cc c * unat (lru_timestamp p) + lru_age p cc c < 2 ^ 32"
    using age assms(3) by (simp add: algebra_simps)
  have "lru_sharers sa cc c * unat (lru_timestamp p) < 2 ^ 64"
    using sum by simp
  then have prod: "unat ((if sa then ucast (ccv_numSharers cc c) else 0) * lru_timestamp p :: u64) =
      lru_sharers sa cc c * unat (lru_timestamp p)"
    by (cases sa) (simp_all add: lru_sharers_def unat_word_ariths)
  have aged: "unat (lru_array p ! c * of_bool (ccv_isValid cc c)) = lru_age p cc c"
    by (simp add: lru_age_def)
  have "unat (lru_score_of sa p cc c) = lru_sharers sa cc c * unat (lru_timestamp p) + lru_age p cc c"
    using sum unfolding lru_score_of_def by (subst unat_word_ariths) (simp add: prod aged)
  then show "unat (trunc32 (lru_score_of sa p cc c)) =
      lru_sharers sa cc c * unat (lru_timestamp p) + lru_age p cc c"
    using sum by (simp only: unat_trunc32)
qed

lemma lex_of_mult_add:
  fixes a b t x y :: nat
  assumes "a * t + x \<le> b * t + y" "x < t" "y < t"
  shows "a < b \<or> a = b \<and> x \<le> y"
proof (cases "a \<le> b")
  case False
  then have "(b + 1) * t \<le> a * t" by (intro mult_le_mono1) simp
  with assms show ?thesis by simp
next
  case True
  with assms(1) show ?thesis by (cases "a = b") auto
qed

lemma lru_victim:
  assumes wf: "lru_wf p" and ne: "cands \<noteq> []" and rng: "\<forall>c \<in> set cands. c < length (lru_array p)"
    and fit: "\<forall>c \<in> set cands. (lru_sharers sa cc c + 1) * unat (lru_timestamp p) \<le> 2 ^ 32"
  shows "\<exists>v. lru_rank sa p cc req cands = Some (p, v) \<and> v \<in> set cands \<and>
    (\<forall>c \<in> set cands. lru_sharers sa cc v < lru_sharers sa cc c \<or>
       lru_sharers sa cc v = lru_sharers sa cc c \<and> lru_age p cc v \<le> lru_age p cc c)"
proof -
  obtain v where v: "lru_rank sa p cc req cands = Some (p, v)" "v \<in> set cands"
    and min: "\<forall>c \<in> set cands. trunc32 (lru_score_of sa p cc v) \<le> trunc32 (lru_score_of sa p cc c)"
    using lru_rank_spec [OF ne rng] by blast
  have "lru_sharers sa cc v < lru_sharers sa cc c \<or>
       lru_sharers sa cc v = lru_sharers sa cc c \<and> lru_age p cc v \<le> lru_age p cc c"
    if c: "c \<in> set cands" for c
  proof (rule lex_of_mult_add)
    have "unat (trunc32 (lru_score_of sa p cc v)) \<le> unat (trunc32 (lru_score_of sa p cc c))"
      using min c by (simp only: word_le_nat_alt)
    then show "lru_sharers sa cc v * unat (lru_timestamp p) + lru_age p cc v
        \<le> lru_sharers sa cc c * unat (lru_timestamp p) + lru_age p cc c"
      using c v rng fit by (simp only: lru_score_unat [OF wf] Ball_def)
  qed (use c v rng fit wf in \<open>auto intro!: lru_score_unat(2)\<close>)
  with v show ?thesis by blast
qed

text \<open>A run of hits, and the position (from 1) of the last use of a line in it.\<close>

fun lru_run :: "lru \<Rightarrow> nat list \<Rightarrow> mem_req \<Rightarrow> lru option" where
  "lru_run p [] req = Some p"
| "lru_run p (i # is) req = do { p \<leftarrow> lru_update p i req; lru_run p is req }"

fun last_use_rev :: "nat list \<Rightarrow> nat \<Rightarrow> nat" where
  "last_use_rev [] c = 0"
| "last_use_rev (x # ys) c = (if x = c then length (x # ys) else last_use_rev ys c)"

definition last_use :: "nat list \<Rightarrow> nat \<Rightarrow> nat" where
  "last_use xs c = last_use_rev (rev xs) c"

lemma last_use_snoc: "last_use (xs @ [x]) c = (if x = c then Suc (length xs) else last_use xs c)"
  by (simp add: last_use_def)

lemma last_use_le: "last_use xs c \<le> length xs"
proof (induction xs rule: rev_induct)
  case (snoc x xs)
  then show ?case by (simp add: last_use_snoc)
qed (simp add: last_use_def)

lemma lru_run_append: "lru_run p (xs @ ys) req = do { p \<leftarrow> lru_run p xs req; lru_run p ys req }"
  by (induction xs arbitrary: p) (auto simp: bind_assoc)

lemma lru_run_timestamps:
  assumes "\<forall>i \<in> set xs. i < n"
  shows "\<exists>p. lru_run (lru_new n) xs req = Some p \<and> lru_timestamp p = of_nat (Suc (length xs)) \<and>
    length (lru_array p) = n \<and> (\<forall>c < n. lru_array p ! c = of_nat (last_use xs c))"
  using assms
proof (induction xs rule: rev_induct)
  case Nil
  then show ?case by (simp add: lru_new_def last_use_def)
next
  case (snoc x xs)
  then obtain p where "lru_run (lru_new n) xs req = Some p" "lru_timestamp p = of_nat (Suc (length xs))"
    "length (lru_array p) = n" "\<forall>c < n. lru_array p ! c = of_nat (last_use xs c)"
    by auto
  with snoc.prems show ?case
    by (auto simp: lru_run_append lru_update_def last_use_snoc nth_list_update)
qed

lemma lru_run_wf:
  assumes "\<forall>i \<in> set xs. i < n" "Suc (length xs) < 2 ^ 64" "lru_run (lru_new n) xs req = Some p"
  shows "lru_wf p" "\<And>c. c < n \<Longrightarrow> unat (lru_array p ! c) = last_use xs c"
    "unat (lru_timestamp p) = Suc (length xs)" "length (lru_array p) = n"
proof -
  obtain p' where "lru_run (lru_new n) xs req = Some p'" "lru_timestamp p' = of_nat (Suc (length xs))"
    "length (lru_array p') = n" "\<forall>c < n. lru_array p' ! c = of_nat (last_use xs c)"
    using lru_run_timestamps [OF assms(1)] by blast
  with assms(3) have p: "lru_timestamp p = of_nat (Suc (length xs))" "length (lru_array p) = n"
    "\<forall>c < n. lru_array p ! c = of_nat (last_use xs c)" by auto
  then show ts: "unat (lru_timestamp p) = Suc (length xs)" and "length (lru_array p) = n"
    using assms(2) by (simp_all add: unat_of_nat_small del: of_nat_Suc)
  show entry: "unat (lru_array p ! c) = last_use xs c" if "c < n" for c
  proof -
    have "last_use xs c < 2 ^ 64" using last_use_le [of xs c] assms(2) by simp
    then show ?thesis using p(3) that by (simp add: unat_of_nat_small)
  qed
  have "lru_array p ! c < lru_timestamp p" if "c < n" for c
    using entry [OF that] ts last_use_le [of xs c] by (simp add: word_less_nat_alt)
  then show "lru_wf p"
    using p(2) by (auto simp: lru_wf_def in_set_conv_nth)
qed

section \<open>Tree LRU and the profiling wrapper rank as LRU\<close>

interpretation tlru_rp: repl_policy TreeLRUReplPolicy "\<lambda>_. True" "\<lambda>_. True"
  "\<lambda>p. length (lru_array (tlru_base p))" "\<lambda>_ _. True"
proof (unfold_locales, goal_cases)
  case (1 p i req)
  then show ?case by (simp add: TreeLRUReplPolicy_def tlru_update_def lru_update_def)
next
  case (2 p i)
  then show ?case by (simp add: TreeLRUReplPolicy_def tlru_replaced_def)
next
  case (3 p cands cc req)
  then show ?case using lru_rank_spec [of cands "tlru_base p" True cc req]
    by (auto simp: TreeLRUReplPolicy_def)
qed

text \<open>The tree walk itself, were it called, ends inside the candidate array.\<close>

declare tlru_walk.simps [simp del]

lemma tlru_walk_bounds: "start < end' \<Longrightarrow> start \<le> tlru_walk arr cands start end' \<and> tlru_walk arr cands start end' < end'"
proof (induction arr cands start end' rule: tlru_walk.induct)
  case (1 arr cands start end')
  show ?case
  proof (cases "end' - start > 1")
    case True
    let ?pivot = "start + (end' - start) div 2"
    have piv: "start < ?pivot" "?pivot < end'" using True by auto
    note IH = "1.IH" [OF True refl refl refl]
    show ?thesis
      using IH piv True by (auto simp: tlru_walk.simps [of arr cands start end'] Let_def)
  next
    case False
    with "1.prems" show ?thesis by (simp add: tlru_walk.simps [of arr cands start end'])
  qed
qed

definition pv_wf :: "prof_viol \<Rightarrow> bool" where
  "pv_wf p \<longleftrightarrow> length (pv_accTimes p) = length (lru_array (pv_base p))"

lemma pv_readViol_total: "\<exists>v. pv_readViol cycle t = Some v"
  by (auto simp: pv_readViol_def less_max_iff_disj)

lemma pv_update_ok:
  assumes "pv_wf p" "i < length (lru_array (pv_base p))" "IsGet (mr_type req)"
  shows "\<exists>p'. pv_update p i req = Some p' \<and> pv_wf p' \<and>
    length (lru_array (pv_base p')) = length (lru_array (pv_base p))"
proof -
  obtain v where "pv_readViol (mr_cycle req) (pv_accTimes p ! i) = Some v"
    using pv_readViol_total by blast
  with assms show ?thesis
    by (auto simp: pv_update_def pv_wf_def lru_update_def IsGet_def Let_def split: option.split bool.split)
qed

lemma pv_replaced_ok:
  assumes "pv_wf p" "i < length (lru_array (pv_base p))"
  shows "\<exists>p'. pv_replaced p i = Some p' \<and> pv_wf p' \<and>
    length (lru_array (pv_base p')) = length (lru_array (pv_base p))"
  using assms by (auto simp: pv_replaced_def pv_wf_def lru_replaced_def Let_def)

interpretation pv_rp: repl_policy "ProfViolReplPolicy sa" pv_wf "\<lambda>_. True"
  "\<lambda>p. length (lru_array (pv_base p))" "\<lambda>_ _. True" for sa
proof (unfold_locales, goal_cases)
  case (1 p i req)
  then show ?case using pv_update_ok by (simp add: ProfViolReplPolicy_def)
next
  case (2 p i)
  then show ?case using pv_replaced_ok by (simp add: ProfViolReplPolicy_def)
next
  case (3 p cands cc req)
  then show ?case using lru_rank_spec [of cands "pv_base p" sa cc req]
    by (auto simp: ProfViolReplPolicy_def pv_wf_def)
qed

section \<open>NRU\<close>

text \<open>
  The two-bit values, the young-line count (never below the number of lines whose young bit is set,
  and reset before it reaches half the lines) and the candidate buffer.
\<close>

definition nru_inv :: "nru \<Rightarrow> bool" where
  "nru_inv p \<longleftrightarrow> length (nru_array p) = nru_numLines p \<and> nru_numLines p < 2 ^ 32 \<and>
     (\<forall>v \<in> set (nru_array p). v < 4) \<and>
     length (filter (\<lambda>v. bit v 1) (nru_array p)) \<le> unat (nru_youngLines p) \<and>
     (nru_youngLines p = 0 \<or> unat (nru_youngLines p) < nru_numLines p div 2)"

definition nru_ready :: "nru \<Rightarrow> bool" where
  "nru_ready p \<longleftrightarrow> nru_candIdx p = 0 \<and> nru_candVal p = push_bit 20 1"

definition nru_fits :: "nru \<Rightarrow> nat list \<Rightarrow> bool" where
  "nru_fits p cands \<longleftrightarrow> length cands \<le> length (nru_candArray p)"

lemma lt4_cases: "(v::u32) < 4 \<Longrightarrow> v = 0 \<or> v = 1 \<or> v = 2 \<or> v = 3"
proof -
  assume "v < 4"
  then have "unat v < 4" by (simp add: word_less_nat_alt)
  then have "unat v = 0 \<or> unat v = 1 \<or> unat v = 2 \<or> unat v = 3" by arith
  then show ?thesis by (auto simp: word_unat_eq_iff)
qed

lemma two_bit_facts:
  assumes "(v::u32) < 4"
  shows "v OR 2 < 4" "bit (v OR 2) 1" "drop_bit 1 v < 4" "\<not> bit (drop_bit 1 v) 1"
    "1 - drop_bit 1 v = (if bit v 1 then 0 else 1)"
  using lt4_cases [OF assms] by (auto simp: bit_simps bit_numeral_rec bit_1_iff)

lemma nru_shift_inv:
  assumes "\<forall>v \<in> set a. (v::u32) < 4"
  shows "\<forall>v \<in> set (map (drop_bit 1) a). v < 4" "filter (\<lambda>v. bit v 1) (map (drop_bit 1) a) = []"
  using assms two_bit_facts by (auto simp: filter_empty_conv)

lemma nru_update_inv:
  assumes inv: "nru_inv p" and i: "i < nru_numLines p"
  shows "\<exists>p'. nru_update p i req = Some p' \<and> nru_inv p' \<and> nru_numLines p' = nru_numLines p \<and>
    nru_candArray p' = nru_candArray p \<and> nru_candIdx p' = nru_candIdx p \<and> nru_candVal p' = nru_candVal p"
proof -
  let ?a = "nru_array p" and ?v = "nru_array p ! i"
  let ?young = "nru_youngLines p + (1 - drop_bit 1 ?v)"
  have len: "i < length ?a" and v: "?v < 4" using inv i by (auto simp: nru_inv_def)
  have upd: "\<forall>v \<in> set (?a[i := ?v OR 2]). v < 4"
    using inv two_bit_facts(1) [OF v] set_update_subset_insert [of ?a i "?v OR 2"]
    by (auto simp: nru_inv_def)
  have young: "unat ?young = unat (nru_youngLines p) + of_bool (\<not> bit ?v 1)"
  proof -
    have "Suc (unat (nru_youngLines p)) < 2 ^ 32"
      using inv by (auto simp: nru_inv_def)
    then show ?thesis
      using unat_inc [of "nru_youngLines p"] unfolding two_bit_facts(5) [OF v] by simp
  qed
  have cnt: "length (filter (\<lambda>v. bit v 1) (?a[i := ?v OR 2])) \<le> unat ?young"
  proof -
    have "length (filter (\<lambda>v. bit v 1) (?a[i := ?v OR 2])) + of_bool (bit ?v 1) =
        length (filter (\<lambda>v. bit v 1) ?a) + 1"
      using count_filter_update [OF len, of "\<lambda>v. bit v 1" "?v OR 2"] two_bit_facts(2) [OF v] by simp
    then show ?thesis
      unfolding young using inv by (cases "bit ?v 1") (simp_all add: nru_inv_def)
  qed
  show ?thesis
  proof (cases "unat ?young \<ge> nru_numLines p div 2")
    case True
    with inv len nru_shift_inv [OF upd] show ?thesis
      by (auto simp: nru_update_def nru_inv_def Let_def)
  next
    case False
    with inv len upd cnt show ?thesis
      by (auto simp: nru_update_def nru_inv_def Let_def)
  qed
qed

lemma nru_replaced_inv:
  assumes inv: "nru_inv p" and i: "i < nru_numLines p"
  shows "\<exists>p'. nru_replaced p i = Some p' \<and> nru_inv p' \<and> nru_numLines p' = nru_numLines p \<and>
    nru_candArray p' = nru_candArray p \<and> nru_ready p'"
proof -
  have len: "i < length (nru_array p)" using inv i by (simp add: nru_inv_def)
  have "length (filter (\<lambda>v. bit v 1) ((nru_array p)[i := 0])) \<le> length (filter (\<lambda>v. bit v 1) (nru_array p))"
    using count_filter_update [OF len, of "\<lambda>v. bit v 1" 0] by simp
  moreover have "\<forall>v \<in> set ((nru_array p)[i := 0]). v < 4"
    using inv set_update_subset_insert [of "nru_array p" i 0] by (auto simp: nru_inv_def)
  ultimately show ?thesis
    using inv len by (auto simp: nru_replaced_def nru_inv_def nru_ready_def)
qed

text \<open>
  After the candidates \<open>ds\<close> have been recorded the buffer holds those with the least value, in order.
\<close>

definition nru_recorded :: "u32 list \<Rightarrow> nat list \<Rightarrow> nru \<Rightarrow> bool" where
  "nru_recorded arr ds p \<longleftrightarrow> nru_array p = arr \<and>
     (\<forall>d \<in> set ds. nru_candVal p \<le> arr ! d) \<and>
     (ds = [] \<longrightarrow> nru_ready p) \<and>
     (ds \<noteq> [] \<longrightarrow> nru_candVal p < 4 \<and> 0 < nru_candIdx p) \<and>
     nru_candIdx p \<le> length ds \<and> nru_candIdx p \<le> length (nru_candArray p) \<and>
     take (nru_candIdx p) (nru_candArray p) = filter (\<lambda>d. arr ! d = nru_candVal p) ds"

lemma nru_record_step:
  assumes rec: "nru_recorded arr ds p" and c: "c < length arr" and v4: "\<forall>v \<in> set arr. v < 4"
    and room: "length ds < length (nru_candArray p)"
  shows "\<exists>p'. nru_recordCandidate p c = Some p' \<and> nru_recorded arr (ds @ [c]) p' \<and>
    length (nru_candArray p') = length (nru_candArray p) \<and> nru_youngLines p' = nru_youngLines p \<and>
    nru_numLines p' = nru_numLines p"
proof -
  have arr: "nru_array p = arr" and cv: "arr ! c < 4" using rec c v4 by (auto simp: nru_recorded_def)
  consider (new) "arr ! c < nru_candVal p" | (tie) "arr ! c = nru_candVal p" | (worse) "nru_candVal p < arr ! c"
    by (rule linorder_cases)
  then show ?thesis
  proof cases
    case new
    have none: "filter (\<lambda>d. arr ! d = arr ! c) ds = []"
      using rec new by (auto simp: nru_recorded_def filter_empty_conv)
    let ?p = "p\<lparr>nru_candVal := arr ! c, nru_candArray := (nru_candArray p)[0 := c], nru_candIdx := 1\<rparr>"
    have "nru_recordCandidate p c = Some ?p"
      using new c arr order.strict_trans1 [OF le0 room] by (simp add: nru_recordCandidate_def)
    moreover have "nru_recorded arr (ds @ [c]) ?p"
      using rec new none room cv arr
      by (cases "nru_candArray p") (auto simp: nru_recorded_def)
    ultimately show ?thesis by simp
  next
    case tie
    have ne: "ds \<noteq> []"
      using tie rec cv by (auto simp: nru_recorded_def nru_ready_def)
    have idx: "nru_candIdx p < length (nru_candArray p)" using rec room by (auto simp: nru_recorded_def)
    have "take (Suc (nru_candIdx p)) ((nru_candArray p)[nru_candIdx p := c]) =
        take (nru_candIdx p) (nru_candArray p) @ [c]"
      using idx by (simp add: take_Suc_conv_app_nth)
    with rec idx ne tie have "nru_recorded arr (ds @ [c])
        (p\<lparr>nru_candArray := (nru_candArray p)[nru_candIdx p := c], nru_candIdx := Suc (nru_candIdx p)\<rparr>)"
      by (simp add: nru_recorded_def)
    with tie idx c arr show ?thesis by (simp add: nru_recordCandidate_def)
  next
    case worse
    have "ds \<noteq> []"
    proof
      assume "ds = []"
      then have "nru_candVal p = 1048576" using rec by (simp add: nru_recorded_def nru_ready_def)
      with worse cv have "(1048576 :: u32) < 4" by (simp only:)
      then show False by simp
    qed
    with rec worse c arr show ?thesis
      by (auto simp: nru_recordCandidate_def nru_recorded_def)
  qed
qed

lemma nru_record_all:
  assumes "nru_recorded arr ds p" "\<forall>c \<in> set cs. c < length arr" "\<forall>v \<in> set arr. v < 4"
    "length ds + length cs \<le> length (nru_candArray p)"
  shows "\<exists>p'. record_all nru_recordCandidate p cs = Some p' \<and> nru_recorded arr (ds @ cs) p' \<and>
    length (nru_candArray p') = length (nru_candArray p) \<and> nru_youngLines p' = nru_youngLines p \<and>
    nru_numLines p' = nru_numLines p"
  using assms
proof (induction cs arbitrary: ds p)
  case (Cons c cs)
  obtain p1 where p1: "nru_recordCandidate p c = Some p1" "nru_recorded arr (ds @ [c]) p1"
    "length (nru_candArray p1) = length (nru_candArray p)" "nru_youngLines p1 = nru_youngLines p"
    "nru_numLines p1 = nru_numLines p"
    using nru_record_step [OF Cons.prems(1)] Cons.prems by fastforce
  with Cons.IH [of "ds @ [c]" p1] Cons.prems show ?case by auto
qed simp

lemma nru_rank_min:
  assumes inv: "nru_inv p" and ready: "nru_ready p" and fits: "nru_fits p cands"
    and ne: "cands \<noteq> []" and rng: "\<forall>c \<in> set cands. c < nru_numLines p"
  shows "\<exists>p' v. nru_rank p cc req cands = Some (p', v) \<and> v \<in> set cands \<and>
    (\<forall>c \<in> set cands. nru_array p ! v \<le> nru_array p ! c) \<and>
    nru_inv p' \<and> nru_numLines p' = nru_numLines p \<and> nru_fits p' = nru_fits p"
proof -
  let ?arr = "nru_array p"
  have start: "nru_recorded ?arr [] p" using ready by (simp add: nru_recorded_def nru_ready_def)
  have arr: "\<forall>c \<in> set cands. c < length ?arr" "\<forall>v \<in> set ?arr. v < 4"
    using inv rng by (auto simp: nru_inv_def)
  obtain p' where p': "record_all nru_recordCandidate p cands = Some p'" "nru_recorded ?arr cands p'"
    "length (nru_candArray p') = length (nru_candArray p)" "nru_youngLines p' = nru_youngLines p"
    "nru_numLines p' = nru_numLines p"
    using nru_record_all [OF start arr] fits by (auto simp: nru_fits_def)
  let ?k = "unat (nru_youngLines p') mod nru_candIdx p'"
  have idx: "0 < nru_candIdx p'" "nru_candIdx p' \<le> length (nru_candArray p')"
    and buf: "take (nru_candIdx p') (nru_candArray p') = filter (\<lambda>d. ?arr ! d = nru_candVal p') cands"
    and min: "\<forall>d \<in> set cands. nru_candVal p' \<le> ?arr ! d"
    and arr': "nru_array p' = ?arr"
    using p'(2) ne by (auto simp: nru_recorded_def)
  have k: "?k < nru_candIdx p'" using idx by simp
  then have "nru_candArray p' ! ?k \<in> set (take (nru_candIdx p') (nru_candArray p'))"
    using idx by (metis length_take min.absorb2 nth_mem nth_take)
  then have v: "nru_candArray p' ! ?k \<in> set cands" "?arr ! (nru_candArray p' ! ?k) = nru_candVal p'"
    unfolding buf by auto
  have "nru_rank p cc req cands = Some (p', nru_candArray p' ! ?k)"
    using p'(1) idx k by (simp add: nru_rank_def legacy_rank_def nru_getBestCandidate_def)
  moreover have "nru_inv p'" using inv p' arr' by (simp add: nru_inv_def)
  moreover have "nru_fits p' = nru_fits p" using p'(3) by (simp add: nru_fits_def fun_eq_iff)
  ultimately show ?thesis using v min p'(5) by auto
qed

interpretation nru_rp: repl_policy NRUReplPolicy nru_inv nru_ready nru_numLines nru_fits
proof (unfold_locales, goal_cases)
  case (1 p i req)
  then show ?case using nru_update_inv [of p i req]
    by (auto simp: NRUReplPolicy_def nru_ready_def nru_fits_def fun_eq_iff)
next
  case (2 p i)
  then show ?case using nru_replaced_inv [of p i]
    by (auto simp: NRUReplPolicy_def nru_fits_def fun_eq_iff)
next
  case (3 p cands cc req)
  then show ?case using nru_rank_min [of p cands cc req] by (fastforce simp: NRUReplPolicy_def)
qed

section \<open>Random replacement\<close>

text \<open>
  With a power-of-two number of candidates the rejection loop accepts its first draw, so one draw is
  enough and the policy meets the contract.
\<close>

definition rand_inv :: "rand_repl \<Rightarrow> bool" where
  "rand_inv p \<longleftrightarrow> mt_inv (rr_rnd p) \<and> length (rr_candArray p) = rr_numCands p \<and>
     (\<exists>k \<le> 32. rr_numCands p = 2 ^ k)"

definition rand_ready :: "rand_repl \<Rightarrow> bool" where
  "rand_ready p \<longleftrightarrow> rr_candIdx p = 0"

definition rand_fits :: "rand_repl \<Rightarrow> nat list \<Rightarrow> bool" where
  "rand_fits p cands \<longleftrightarrow> length cands = rr_numCands p"

lemma rand_record_all:
  assumes "rr_candIdx p + length cs = length (rr_candArray p)"
  shows "record_all rand_recordCandidate p cs =
    Some (p\<lparr>rr_candArray := take (rr_candIdx p) (rr_candArray p) @ cs, rr_candIdx := length (rr_candArray p)\<rparr>)"
  using assms
proof (induction cs arbitrary: p)
  case (Cons c cs)
  let ?p = "p\<lparr>rr_candArray := (rr_candArray p)[rr_candIdx p := c], rr_candIdx := Suc (rr_candIdx p)\<rparr>"
  have i: "rr_candIdx p < length (rr_candArray p)" using Cons.prems by simp
  then have "take (Suc (rr_candIdx p)) ((rr_candArray p)[rr_candIdx p := c]) =
      take (rr_candIdx p) (rr_candArray p) @ [c]"
    by (simp add: take_Suc_conv_app_nth)
  then show ?case
    using Cons.IH [of ?p] Cons.prems i by (simp add: rand_recordCandidate_def)
qed simp

lemma of_nat_power_minus_1_mask: "(of_nat (2 ^ k) - 1 :: u64) = mask k"
  by (simp add: mask_eq_exp_minus_1)

lemma rand_rank_ok:
  assumes inv: "rand_inv p" and ready: "rand_ready p" and fits: "rand_fits p cands"
  shows "\<exists>p' v. rand_rank (Suc draws) p cc req cands = Some (p', v) \<and> v \<in> set cands \<and>
    rand_inv p' \<and> rand_fits p' = rand_fits p"
proof -
  obtain k where k: "k \<le> 32" "rr_numCands p = 2 ^ k" using inv by (auto simp: rand_inv_def)
  let ?p = "p\<lparr>rr_candArray := cands, rr_candIdx := length cands\<rparr>"
  have rec: "record_all rand_recordCandidate p cands = Some ?p"
    using rand_record_all [of p cands] inv ready fits
    by (simp add: rand_inv_def rand_ready_def rand_fits_def)
  obtain r v where r: "mt_randInt_upto (Suc draws) (mask k) (rr_rnd p) = Some (r, v)" "v \<le> mask k" "mt_inv r"
    using mt_randInt_upto_mask [of "rr_rnd p" k draws] inv k unfolding rand_inv_def by blast
  have "unat v < 2 ^ k"
  proof -
    have "unat (mask k :: u64) < 2 ^ k"
    proof -
      have lt: "(2::nat) ^ k \<le> 2 ^ 32" using k by (intro power_increasing) simp_all
      then have "(mask k :: nat) < 2 ^ LENGTH(64)" by (simp add: mask_eq_exp_minus_1)
      then have "unat (of_nat (mask k) :: u64) = mask k" by (rule unat_of_nat_small)
      then show ?thesis by (simp add: of_nat_mask_eq)
    qed
    then show ?thesis using r(2) by (simp add: word_le_nat_alt)
  qed
  then have i: "unat v < length cands" using fits k by (simp add: rand_fits_def)
  have "rand_rank (Suc draws) p cc req cands = Some (?p\<lparr>rr_rnd := r\<rparr>, cands ! unat v)"
    using rec r(1) i fits k of_nat_power_minus_1_mask [of k]
    by (simp add: rand_rank_def legacy_rank_def rand_getBestCandidate_def rand_fits_def
        del: mt_randInt_upto.simps)
  moreover have "rand_inv (?p\<lparr>rr_rnd := r\<rparr>)"
    using inv r(3) fits by (simp add: rand_inv_def rand_fits_def)
  ultimately show ?thesis using i by (auto simp: rand_fits_def fun_eq_iff)
qed

interpretation rand_rp: repl_policy "RandReplPolicy (Suc draws)" rand_inv rand_ready "\<lambda>_. n" rand_fits for draws n
proof (unfold_locales, goal_cases)
  case (1 p i req)
  then show ?case by (simp add: RandReplPolicy_def rand_update_def)
next
  case (2 p i)
  then show ?case
    by (simp add: RandReplPolicy_def rand_replaced_def rand_inv_def rand_ready_def rand_fits_def fun_eq_iff)
next
  case (3 p cands cc req)
  then show ?case using rand_rank_ok [of p cands draws cc req] by (auto simp: RandReplPolicy_def)
qed

section \<open>LFU\<close>

text \<open>Recording never prefers a valid line to an invalid one already found.\<close>

lemma lfu_lessThan_valid: "lfu_lessThan r r' ts \<Longrightarrow> rk_valid r \<Longrightarrow> rk_valid r'"
  by (auto simp: lfu_lessThan_def split: if_splits)

lemma lfu_lessThan_invalid: "\<not> rk_valid r \<Longrightarrow> rk_valid r' \<Longrightarrow> lfu_lessThan r r' ts"
  by (simp add: lfu_lessThan_def)

definition lfu_recorded :: "cc_view \<Rightarrow> nat list \<Rightarrow> lfu \<Rightarrow> bool" where
  "lfu_recorded cc ds p \<longleftrightarrow>
     (case lfu_bestCandidate p of
        None \<Rightarrow> ds = []
      | Some v \<Rightarrow> v \<in> set ds \<and> rk_valid (lfu_bestRank p) = ccv_isValid cc v \<and>
          (ccv_isValid cc v \<longrightarrow> (\<forall>d \<in> set ds. ccv_isValid cc d)))"

lemma lfu_record_step:
  assumes "lfu_recorded cc ds p" "c < length (lfu_array p)"
  shows "\<exists>p'. lfu_recordCandidate cc p c = Some p' \<and> lfu_recorded cc (ds @ [c]) p' \<and>
    lfu_array p' = lfu_array p \<and> lfu_timestamp p' = lfu_timestamp p"
proof -
  let ?r = "\<lparr>rk_lfuInfo = lfu_array p ! c, rk_sharers = ccv_numSharers cc c, rk_valid = ccv_isValid cc c\<rparr>"
  have "lfu_recorded cc (ds @ [c])
      (if lfu_bestCandidate p = None \<or> lfu_lessThan ?r (lfu_bestRank p) (lfu_timestamp p)
       then p\<lparr>lfu_bestRank := ?r, lfu_bestCandidate := Some c\<rparr> else p)"
    using assms(1) lfu_lessThan_valid [of ?r "lfu_bestRank p" "lfu_timestamp p"]
      lfu_lessThan_invalid [of ?r "lfu_bestRank p" "lfu_timestamp p"]
    by (cases "ccv_isValid cc c") (auto simp: lfu_recorded_def split: option.splits)
  then show ?thesis using assms(2) by (simp add: lfu_recordCandidate_def Let_def)
qed

lemma lfu_record_all:
  assumes "lfu_recorded cc ds p" "\<forall>c \<in> set cs. c < length (lfu_array p)"
  shows "\<exists>p'. record_all (lfu_recordCandidate cc) p cs = Some p' \<and> lfu_recorded cc (ds @ cs) p' \<and>
    lfu_array p' = lfu_array p \<and> lfu_timestamp p' = lfu_timestamp p"
  using assms
proof (induction cs arbitrary: ds p)
  case (Cons c cs)
  obtain p1 where p1: "lfu_recordCandidate cc p c = Some p1" "lfu_recorded cc (ds @ [c]) p1"
    "lfu_array p1 = lfu_array p" "lfu_timestamp p1 = lfu_timestamp p"
    using lfu_record_step [OF Cons.prems(1)] Cons.prems(2) by fastforce
  with Cons.IH [of "ds @ [c]" p1] Cons.prems(2) show ?case by auto
qed simp

lemma lfu_rank_valid:
  assumes "lfu_bestCandidate p = None" "cands \<noteq> []" "\<forall>c \<in> set cands. c < length (lfu_array p)"
  shows "\<exists>p' v. lfu_rank p cc req cands = Some (p', v) \<and> v \<in> set cands \<and>
    (ccv_isValid cc v \<longrightarrow> (\<forall>c \<in> set cands. ccv_isValid cc c))"
proof -
  have "lfu_recorded cc [] p" using assms(1) by (simp add: lfu_recorded_def)
  from lfu_record_all [OF this assms(3)] obtain p' where
    "record_all (lfu_recordCandidate cc) p cands = Some p'" "lfu_recorded cc cands p'" by auto
  with assms(2) show ?thesis
    by (auto simp: lfu_rank_def legacy_rank_def lfu_getBestCandidate_def lfu_recorded_def split: option.splits)
qed

section \<open>Properties\<close>

definition any_req :: mem_req where
  "any_req = \<lparr>mr_lineAddr = 0, mr_type = GETS, mr_childId = 0, mr_state = LocalState I, mr_cycle = 0,
     mr_childLock = None, mr_initialState = I, mr_srcId = 0, mr_flags = 0\<rparr>"

definition all_valid_cc :: cc_view where
  "all_valid_cc = \<lparr>ccv_numSharers = (\<lambda>_. 0), ccv_isValid = (\<lambda>_. True)\<rparr>"

text \<open>When a line was last used, an invalid line counting as never used.\<close>

definition recency :: "cc_view \<Rightarrow> nat list \<Rightarrow> nat \<Rightarrow> nat" where
  "recency cc xs c = (if ccv_isValid cc c then last_use xs c else 0)"

lemma recency_le: "recency cc xs c \<le> length xs"
  by (simp add: recency_def last_use_le)

text \<open>The victim has the least score in 32 bits.\<close>

lemma lru_run_victim:
  assumes "\<forall>i \<in> set xs. i < n" "Suc (length xs) < 2 ^ 64" "cands \<noteq> []" "\<forall>c \<in> set cands. c < n"
  shows "\<exists>p v. lru_run (lru_new n) xs req = Some p \<and> lru_rank False p cc req' cands = Some (p, v) \<and>
    v \<in> set cands \<and> (\<forall>c \<in> set cands. recency cc xs v mod 2 ^ 32 \<le> recency cc xs c mod 2 ^ 32)"
proof -
  obtain p where p: "lru_run (lru_new n) xs req = Some p"
    using lru_run_timestamps [OF assms(1)] by blast
  note wf = lru_run_wf [OF assms(1,2) p]
  obtain v where v: "lru_rank False p cc req' cands = Some (p, v)" "v \<in> set cands"
    "\<forall>c \<in> set cands. trunc32 (lru_score_of False p cc v) \<le> trunc32 (lru_score_of False p cc c)"
    using lru_rank_spec [OF assms(3), of p] assms(4) wf(4) by blast
  have "unat (trunc32 (lru_score_of False p cc c)) = recency cc xs c mod 2 ^ 32" if "c \<in> set cands" for c
    unfolding unat_trunc32_mod using assms(4) wf(2) that by (simp add: lru_score_of_def recency_def)
  with p v show ?thesis by (auto simp: word_le_nat_alt)
qed

text \<open>
  C16. The victim of the LRU policy, after any sequence of fewer than \<open>2\<^sup>6\<^sup>4 - 1\<close> accesses to a fresh policy: ranking asserts nothing and returns the candidate
  whose last access, an invalid line counting as never used, is the least modulo \<open>2\<^sup>3\<^sup>2\<close>. So with fewer than \<open>2\<^sup>3\<^sup>2\<close> accesses it is the candidate
  whose last access is the oldest.
\<close>

theorem lru_evicts_least_recent:
  assumes "\<forall>i \<in> set xs. i < n" "Suc (length xs) < 2 ^ 64" "cands \<noteq> []" "\<forall>c \<in> set cands. c < n"
  shows "\<exists>p v. lru_run (lru_new n) xs req = Some p \<and> lru_rank False p cc req' cands = Some (p, v) \<and>
    v \<in> set cands \<and> (\<forall>c \<in> set cands. recency cc xs v mod 2 ^ 32 \<le> recency cc xs c mod 2 ^ 32) \<and>
    (length xs < 2 ^ 32 \<longrightarrow> (\<forall>c \<in> set cands. recency cc xs v \<le> recency cc xs c))"
proof -
  obtain p v where v: "lru_run (lru_new n) xs req = Some p" "lru_rank False p cc req' cands = Some (p, v)"
    "v \<in> set cands" "\<forall>c \<in> set cands. recency cc xs v mod 2 ^ 32 \<le> recency cc xs c mod 2 ^ 32"
    using lru_run_victim [OF assms] by blast
  moreover have "recency cc xs c mod 2 ^ 32 = recency cc xs c" if "length xs < 2 ^ 32" for c
    using recency_le [of cc xs c] that by (intro mod_less) linarith
  ultimately show ?thesis by (intro exI [of _ p] exI [of _ v]) (metis (no_types, lifting))
qed

theorem lru_evicts_least_recent_witness:
  "\<exists>p v. lru_run (lru_new 4) [0, 1, 2, 3, 0] any_req = Some p \<and>
    lru_rank False p all_valid_cc any_req [0, 1, 2, 3] = Some (p, v) \<and>
    v \<in> set [0, 1, 2, 3] \<and> (\<forall>c \<in> set [0, 1, 2, 3]. last_use [0, 1, 2, 3, 0] v \<le> last_use [0, 1, 2, 3, 0] c)"
proof -
  have r: "recency all_valid_cc xs = last_use xs" for xs by (simp add: recency_def all_valid_cc_def fun_eq_iff)
  have "\<forall>i \<in> set [0, 1, 2, 3, 0]. i < (4 :: nat)" "Suc (length [0, 1, 2, 3, 0]) < 2 ^ 64" "[0, 1, 2, 3] \<noteq> []" "\<forall>c \<in> set [0, 1, 2, 3]. c < (4 :: nat)" by simp_all
  from lru_evicts_least_recent [OF this, of any_req all_valid_cc any_req] show ?thesis unfolding r by auto
qed

text \<open>
  The sharer-aware LRU orders candidates lexicographically, fewer sharers first and then the older
  access (invalid lines oldest), as long as the product of sharers and timestamp fits 32 bits.
\<close>

theorem lru_sharers_then_age:
  assumes "lru_wf p" "cands \<noteq> []" "\<forall>c \<in> set cands. c < length (lru_array p)"
    "\<forall>c \<in> set cands. (lru_sharers True cc c + 1) * unat (lru_timestamp p) \<le> 2 ^ 32"
  shows "\<exists>v. lru_rank True p cc req cands = Some (p, v) \<and> v \<in> set cands \<and>
    (\<forall>c \<in> set cands. lru_sharers True cc v < lru_sharers True cc c \<or>
       lru_sharers True cc v = lru_sharers True cc c \<and> lru_age p cc v \<le> lru_age p cc c)"
  using assms by (rule lru_victim)

theorem lru_sharers_then_age_witness:
  "\<exists>v. lru_rank True (lru_new 2) all_valid_cc any_req [0, 1] = Some (lru_new 2, v) \<and> v \<in> set [0, 1] \<and>
    (\<forall>c \<in> set [0, 1]. lru_sharers True all_valid_cc v < lru_sharers True all_valid_cc c \<or>
       lru_sharers True all_valid_cc v = lru_sharers True all_valid_cc c \<and>
       lru_age (lru_new 2) all_valid_cc v \<le> lru_age (lru_new 2) all_valid_cc c)"
  by (rule lru_sharers_then_age)
     (auto simp: lru_wf_def lru_new_def lru_sharers_def all_valid_cc_def numeral_2_eq_2)

text \<open>
  C31. The truncated score misorders the lines. Whatever the accesses before were, a line whose access is number \<open>2\<^sup>3\<^sup>2\<close>, or any multiple of it, is the victim of the next
  replacement among valid lines, unless another candidate also had its last access at such a number or was never used: the most recently used line is evicted first.
\<close>

theorem lru_score_truncation:
  assumes "\<forall>j \<in> set xs. j < n" "i < n" "Suc (length xs) = k * 2 ^ 32" "Suc (Suc (length xs)) < 2 ^ 64"
    and "i \<in> set cands" "\<forall>c \<in> set cands. c < n \<and> ccv_isValid cc c" "\<forall>c \<in> set cands. c \<noteq> i \<longrightarrow> last_use xs c mod 2 ^ 32 \<noteq> 0"
  shows "\<exists>p. lru_run (lru_new n) (xs @ [i]) req = Some p \<and> lru_rank False p cc req' cands = Some (p, i) \<and>
    (\<forall>c \<in> set cands. last_use (xs @ [i]) c \<le> last_use (xs @ [i]) i)"
proof -
  let ?xs = "xs @ [i]"
  have "\<forall>j \<in> set ?xs. j < n" "Suc (length ?xs) < 2 ^ 64" "cands \<noteq> []" "\<forall>c \<in> set cands. c < n" using assms by auto
  from lru_run_victim [OF this, of req cc req'] obtain p v where v: "lru_run (lru_new n) ?xs req = Some p" "lru_rank False p cc req' cands = Some (p, v)"
    "v \<in> set cands" "\<forall>c \<in> set cands. recency cc ?xs v mod 2 ^ 32 \<le> recency cc ?xs c mod 2 ^ 32" by blast
  have "recency cc ?xs i = k * 2 ^ 32" using assms(3,5,6) by (simp add: recency_def last_use_snoc)
  then have "recency cc ?xs v mod 2 ^ 32 = 0" using v(4) assms(5) by force
  then have "v = i" using assms(6,7) v(3) by (cases "v = i") (auto simp: recency_def last_use_snoc dvd_eq_mod_eq_0)
  moreover have "last_use ?xs c \<le> last_use ?xs i" for c using last_use_le [of xs c] by (simp add: last_use_snoc)
  ultimately show ?thesis using v(1,2) by blast
qed

theorem lru_score_truncation_witness:
  "\<exists>p. lru_run (lru_new 2) (replicate (2 ^ 32 - 1) 0 @ [1]) any_req = Some p \<and> lru_rank False p all_valid_cc any_req [0, 1] = Some (p, 1)"
proof -
  let ?xs = "replicate (2 ^ 32 - 1) (0 :: nat)"
  have "last_use (replicate (Suc m) 0) 0 = Suc m" for m by (simp only: last_use_def rev_replicate) simp
  then have "last_use (replicate (Suc (2 ^ 32 - 2)) 0) 0 = Suc (2 ^ 32 - 2)" .
  moreover have "Suc (2 ^ 32 - 2) = (2 ^ 32 - 1 :: nat)" by simp
  ultimately have u: "last_use ?xs 0 = 2 ^ 32 - 1" by metis
  have l: "length ?xs = 2 ^ 32 - 1" by (rule length_replicate)
  have a: "\<forall>j \<in> set ?xs. j < 2" "Suc (length ?xs) = 1 * 2 ^ 32" "Suc (Suc (length ?xs)) < 2 ^ 64" unfolding l by simp_all
  have c: "\<forall>c \<in> set [0, 1]. c < 2 \<and> ccv_isValid all_valid_cc c" by (simp add: all_valid_cc_def)
  have d: "\<forall>c \<in> set [0, 1]. c \<noteq> 1 \<longrightarrow> last_use ?xs c mod 2 ^ 32 \<noteq> 0" using u by auto
  from lru_score_truncation [OF a(1) _ a(2,3) _ c d, of any_req any_req] show ?thesis by auto
qed

text \<open>
  NRU: from every state satisfying its invariant, ranking returns a candidate of the least reference
  value without overrunning its candidate buffer and keeps the invariant.
\<close>

theorem nru_victim_least_value:
  assumes "nru_inv p" "nru_ready p" "nru_fits p cands" "cands \<noteq> []" "\<forall>c \<in> set cands. c < nru_numLines p"
  shows "\<exists>p' v. nru_rank p cc req cands = Some (p', v) \<and> v \<in> set cands \<and>
    (\<forall>c \<in> set cands. nru_array p ! v \<le> nru_array p ! c) \<and>
    nru_inv p' \<and> nru_numLines p' = nru_numLines p \<and> nru_fits p' = nru_fits p"
  using assms by (rule nru_rank_min)

theorem nru_victim_least_value_witness:
  "\<exists>p' v. nru_rank (nru_new 4 4) all_valid_cc any_req [2, 3] = Some (p', v) \<and> v \<in> set [2, 3] \<and>
    (\<forall>c \<in> set [2, 3]. nru_array (nru_new 4 4) ! v \<le> nru_array (nru_new 4 4) ! c) \<and>
    nru_inv p' \<and> nru_numLines p' = nru_numLines (nru_new 4 4) \<and> nru_fits p' = nru_fits (nru_new 4 4)"
  by (rule nru_victim_least_value) (simp_all add: nru_inv_def nru_new_def nru_ready_def nru_fits_def)

end
