(* ===== verification/Compressor.thy ===== *)
theory Compressor
  imports Prelude
begin

text \<open>
  The cache line compressor (\<^verbatim>\<open>src/compressor.h\<close>, \<^verbatim>\<open>src/compressor.cpp\<close>, \<^verbatim>\<open>src/compressor_xor.cpp\<close>,
  \<^verbatim>\<open>src/visualize.cpp\<close>): byte widths and line sizes, exclusive or / difference of lines, the
  base-delta step \<open>compress\<close>, the insertion of a line into the XOR array (\<open>compare\<close>) and into the
  exhaustive variant (\<open>compare_perfect\<close>), and the running compression totals.

  The global arrays are one record \<open>comp\<close>. They are functions of an index: the code allocates
  \<open>numLines * size\<close> bytes with \<open>malloc\<close> and never initialises them, so an arbitrary function is their
  initial value. A line is a list of 64 bytes. Tags are checked against the number of lines where the
  code would index past its tables. The totals are C \<open>int\<close>s; the output files are not modelled.
\<close>

section \<open>Definitions\<close>

definition numLines :: nat where "numLines = 32768"
definition lineSize :: nat where "lineSize = 64"

type_synonym Line = "u8 list"

record comp =
  data_array_orig :: "nat \<Rightarrow> u8"
  data_array :: "nat \<Rightarrow> u8"
  data_array_sub :: "nat \<Rightarrow> u8"
  data_array_perf :: "nat \<Rightarrow> u8"
  index_ref :: "nat \<Rightarrow> nat"
  index_ref_sub :: "nat \<Rightarrow> nat"
  index_ref_perf :: "nat \<Rightarrow> nat"
  sizes :: "nat \<Rightarrow> nat \<Rightarrow> nat"
  occupied :: "nat \<Rightarrow> nat \<Rightarrow> nat"
  initialized :: "nat \<Rightarrow> nat \<Rightarrow> nat"
  uncompress_size :: int

record totals =
  orig_size :: int
  xor_size :: int
  xor_size_perf :: int
  orig_size_bdi :: int
  xor_size_bdi :: int
  xor_size_bdi_perf :: int
  flip_orig_size :: int
  flip_xor_size :: int
  flip_xor_size_perf :: int
  flip_orig_size_bdi :: int
  flip_xor_size_bdi :: int
  flip_xor_size_bdi_perf :: int

definition zero_line :: Line where "zero_line = replicate lineSize 0"

subsection \<open>Sizes\<close>

text \<open>The loop of \<open>countWidth\<close> at \<open>i\<close>, with \<open>n\<close> iterations left.\<close>

fun countWidth_loop :: "nat \<Rightarrow> nat \<Rightarrow> u16 \<Rightarrow> nat" where
  "countWidth_loop 0 i num = 8"
| "countWidth_loop (Suc n) i num =
     (if unat num \<le> 2 ^ i - 1 then i else countWidth_loop n (Suc i) num)"

definition countWidth :: "u16 \<Rightarrow> nat" where
  "countWidth num = countWidth_loop 8 0 num"

definition widthOf :: "u8 \<Rightarrow> nat" where
  "widthOf b = countWidth (ucast b)"

definition countLine :: "Line \<Rightarrow> nat" where
  "countLine line =
     (let ret = foldl (\<lambda>ret i. ret + widthOf (line ! i)) 0 [0..<64]
      in if ret mod 8 > 0 then ret div 8 + 1 else ret div 8)"

text \<open>
  \<open>countFlip\<close>: the inner loop redeclares \<open>i\<close> and runs over 31 bytes; the outer one repeats it 64
  times, each pass shifting those bytes right by one.
\<close>

definition flip_inner :: "Line \<times> u8 \<times> nat \<Rightarrow> nat \<Rightarrow> Line \<times> u8 \<times> nat" where
  "flip_inner = (\<lambda>(line, last, ret) i.
     let b = 1 AND line ! i;
         (last, ret) = (if last \<noteq> b then (b, ret + 1) else (last, ret))
     in (line[i := drop_bit 1 (line ! i)], last, ret))"

definition countFlip :: "Line \<Rightarrow> nat" where
  "countFlip input =
     (let last = 1 AND input ! 0;
          (line, last, ret) = ((\<lambda>st. foldl flip_inner st [0..<31]) ^^ 64) (input, last, 0)
      in ret)"

function count_ones :: "u32 \<Rightarrow> nat" where
  "count_ones n = (if n = 0 then 0 else unat (n AND 1) + count_ones (n div 2))"
  by pat_completeness auto
termination
proof (relation "measure unat")
  fix n :: u32
  assume "n \<noteq> 0"
  then have "unat n \<noteq> 0" by (simp add: unat_eq_zero)
  then show "(n div 2, n) \<in> measure unat" by (simp add: unat_div)
qed simp

definition count_zeroes :: "u32 \<Rightarrow> nat" where
  "count_zeroes n = 32 - count_ones n"

subsection \<open>Line arithmetic\<close>

definition sub :: "Line \<Rightarrow> Line \<Rightarrow> Line" where
  "sub l1 l2 = map (\<lambda>i. l1 ! i - l2 ! i) [0..<lineSize]"

definition add :: "Line \<Rightarrow> Line \<Rightarrow> Line" where
  "add l1 l2 = map (\<lambda>i. l1 ! i + l2 ! i) [0..<lineSize]"

definition xxor :: "Line \<Rightarrow> Line \<Rightarrow> Line" where
  "xxor l1 l2 = map (\<lambda>i. l1 ! i XOR l2 ! i) [0..<lineSize]"

definition Empty :: "Line \<Rightarrow> nat" where
  "Empty line = (if \<exists>i \<in> set [0..<64]. line ! i \<noteq> 0 then 1 else 0)"

definition getTag :: "u64 \<Rightarrow> u64" where
  "getTag line = line AND 0x7f"

subsection \<open>Base-delta compression\<close>

text \<open>
  Word \<open>i\<close> of the line is replaced by its bytewise difference to the base, unless that is wider. The
  base is the first word with its bytes reversed.
\<close>

definition compress_step :: "Line \<Rightarrow> Line \<Rightarrow> nat \<Rightarrow> Line" where
  "compress_step line first i =
     (let num = [line ! (i*4), line ! (i*4 + 1), line ! (i*4 + 2), line ! (i*4 + 3)] @ replicate 60 0;
          s = sub num first;
          ss = widthOf (s ! 0) + widthOf (s ! 1) + widthOf (s ! 2) + widthOf (s ! 3);
          sn = widthOf (num ! 0) + widthOf (num ! 1) + widthOf (num ! 2) + widthOf (num ! 3);
          w = (if ss > sn then num else s)
      in first[i*4 := w ! 0, i*4 + 1 := w ! 1, i*4 + 2 := w ! 2, i*4 + 3 := w ! 3])"

definition compress :: "Line \<Rightarrow> Line" where
  "compress line =
     foldl (compress_step line) ([line ! 3, line ! 2, line ! 1, line ! 0] @ replicate 60 0) [1..<16]"

subsection \<open>The arrays\<close>

text \<open>\<open>cTol_orig\<close> and its siblings read a line from the highest address down.\<close>

definition read_line :: "(nat \<Rightarrow> u8) \<Rightarrow> nat \<Rightarrow> Line" where
  "read_line a index = map (\<lambda>i. a (index * lineSize + (63 - i))) [0..<lineSize]"

definition cTol_orig :: "comp \<Rightarrow> nat \<Rightarrow> Line" where
  "cTol_orig c index = read_line (data_array_orig c) index"

definition cTol :: "comp \<Rightarrow> nat \<Rightarrow> Line" where
  "cTol c index = read_line (data_array c) index"

definition cTol_perf :: "comp \<Rightarrow> nat \<Rightarrow> Line" where
  "cTol_perf c index = read_line (data_array_perf c) index"

definition cTol_sub :: "comp \<Rightarrow> nat \<Rightarrow> Line" where
  "cTol_sub c index = read_line (data_array_sub c) index"

text \<open>Writing a line goes from the lowest address up.\<close>

definition write_line :: "(nat \<Rightarrow> u8) \<Rightarrow> nat \<Rightarrow> Line \<Rightarrow> nat \<Rightarrow> u8" where
  "write_line a tag line =
     (\<lambda>k. if tag * lineSize \<le> k \<and> k < tag * lineSize + lineSize then line ! (k - tag * lineSize) else a k)"

definition upd2 :: "(nat \<Rightarrow> nat \<Rightarrow> nat) \<Rightarrow> nat \<Rightarrow> nat \<Rightarrow> nat \<Rightarrow> nat \<Rightarrow> nat \<Rightarrow> nat" where
  "upd2 a i j v = a(i := (a i)(j := v))"

definition LongToLine :: "Line \<Rightarrow> nat \<Rightarrow> comp \<Rightarrow> comp" where
  "LongToLine line tag c =
     c\<lparr>sizes := upd2 (sizes c) tag 0 (countLine line),
       data_array_orig := write_line (data_array_orig c) tag line\<rparr>"

subsection \<open>Insertion\<close>

text \<open>
  The scan of \<open>compare\<close>: the first initialised, unpaired line other than \<open>tag\<close> whose exclusive or with
  \<open>line\<close> is smaller. Until it is found, \<open>min\<close> (here \<open>mn\<close>) is \<open>line\<close> itself.
\<close>

fun compare_loop :: "comp \<Rightarrow> Line \<Rightarrow> nat \<Rightarrow> nat list \<Rightarrow> nat \<times> Line" where
  "compare_loop c line tag [] = (tag, line)"
| "compare_loop c line tag (index # rest) =
     (if initialized c index 0 = 0 \<or> occupied c index 0 \<noteq> 0 then compare_loop c line tag rest
      else
        let cmp = cTol_orig c index in
        if countLine (xxor cmp line) < countLine line \<and> index \<noteq> tag \<and> occupied c index 0 = 0
        then (index, xxor cmp line)
        else compare_loop c line tag rest)"

definition compare :: "Line \<Rightarrow> nat \<Rightarrow> comp \<Rightarrow> (comp \<times> Line) option" where
  "compare line tag c = do {
     assert_that (tag < numLines);
     let (ret, mn) = compare_loop c line tag [0..<numLines];
     let (ret, c) =
       (if initialized c ret 0 = 0
        then (tag, c\<lparr>uncompress_size := uncompress_size c + 256,
                     initialized := upd2 (initialized c) tag 0 1\<rparr>)
        else (ret, c\<lparr>index_ref := (index_ref c)(ret := tag, tag := ret),
                     occupied := upd2 (upd2 (occupied c) ret 0 1) tag 0 1\<rparr>));
     let c = LongToLine line tag c;
     let c = c\<lparr>sizes := upd2 (sizes c) ret 1 (countLine mn),
               data_array := write_line (write_line (data_array c) ret mn) tag mn\<rparr>;
     Some (c, mn) }"

fun compare_perfect_loop :: "comp \<Rightarrow> Line \<Rightarrow> nat \<Rightarrow> nat list \<Rightarrow> nat \<times> Line \<Rightarrow> nat \<times> Line" where
  "compare_perfect_loop c line tag [] (ret, mn) = (ret, mn)"
| "compare_perfect_loop c line tag (index # rest) (ret, mn) =
     (if initialized c index 2 = 0 \<or> occupied c index 2 \<noteq> 0
      then compare_perfect_loop c line tag rest (ret, mn)
      else
        let cmp = cTol_orig c index in
        if countLine (xxor cmp line) < countLine mn \<and> index \<noteq> tag \<and> occupied c index 2 = 0
        then compare_perfect_loop c line tag rest (index, xxor cmp line)
        else compare_perfect_loop c line tag rest (ret, mn))"

definition compare_perfect :: "Line \<Rightarrow> nat \<Rightarrow> comp \<Rightarrow> (comp \<times> Line) option" where
  "compare_perfect line tag c = do {
     assert_that (tag < numLines);
     let (ret, mn) = compare_perfect_loop c line tag [0..<numLines] (tag, line);
     let (ret, c) =
       (if initialized c ret 2 = 0
        then (tag, c\<lparr>uncompress_size := uncompress_size c + 256,
                     initialized := upd2 (initialized c) tag 2 1\<rparr>)
        else (ret, c\<lparr>index_ref_perf := (index_ref_perf c)(ret := tag, tag := ret),
                     occupied := upd2 (upd2 (occupied c) ret 2 1) tag 2 1\<rparr>));
     Some (c\<lparr>data_array_perf := write_line (data_array_perf c) ret mn\<rparr>, mn) }"

subsection \<open>Rates\<close>

definition calcRate :: "int \<Rightarrow> int \<Rightarrow> int \<Rightarrow> int \<Rightarrow> totals \<Rightarrow> totals" where
  "calcRate alloc cmp orig_flip flip t =
     t\<lparr>orig_size_bdi := orig_size_bdi t + alloc, xor_size_bdi := xor_size_bdi t + cmp,
       flip_orig_size_bdi := flip_orig_size_bdi t + orig_flip,
       flip_xor_size_bdi := flip_xor_size_bdi t + flip\<rparr>"

definition calcRatePerf :: "int \<Rightarrow> int \<Rightarrow> int \<Rightarrow> int \<Rightarrow> totals \<Rightarrow> totals" where
  "calcRatePerf alloc cmp orig_flip flip t =
     t\<lparr>xor_size_bdi_perf := xor_size_bdi_perf t + cmp,
       flip_xor_size_bdi_perf := flip_xor_size_bdi_perf t + flip\<rparr>"

definition calcRate_raw :: "int \<Rightarrow> int \<Rightarrow> int \<Rightarrow> int \<Rightarrow> totals \<Rightarrow> totals" where
  "calcRate_raw alloc cmp orig_flip flip t =
     t\<lparr>orig_size := orig_size t + alloc, xor_size := xor_size t + cmp,
       flip_orig_size := flip_orig_size t + orig_flip, flip_xor_size := flip_xor_size t + flip\<rparr>"

definition calcRatePerf_raw :: "int \<Rightarrow> int \<Rightarrow> int \<Rightarrow> int \<Rightarrow> totals \<Rightarrow> totals" where
  "calcRatePerf_raw alloc cmp orig_flip flip t =
     t\<lparr>xor_size_perf := xor_size_perf t + cmp, flip_xor_size_perf := flip_xor_size_perf t + flip\<rparr>"

text \<open>Numerator and denominator of the two reported rates.\<close>

definition best_length :: "comp \<Rightarrow> nat \<Rightarrow> nat" where
  "best_length c i =
     foldl (\<lambda>len j. if i \<noteq> j \<and> countLine (xxor (cTol_orig c j) (cTol_orig c i)) < len
                    then countLine (xxor (cTol_orig c j) (cTol_orig c i)) else len)
       (countLine (cTol_orig c i)) [0..<numLines]"

definition best_compression_rate :: "comp \<Rightarrow> nat \<times> nat" where
  "best_compression_rate c =
     foldl (\<lambda>(ret, orig) i.
        if initialized c i 0 = 1 then (ret + best_length c i, orig + countLine (cTol_orig c i))
        else (ret, orig)) (0, 0) [0..<numLines]"

definition best_possible_rate :: "comp \<Rightarrow> nat \<times> nat" where
  "best_possible_rate c =
     foldl (\<lambda>(ret, orig) i.
        if initialized c i 0 = 1 then (ret + countLine (cTol_perf c i), orig + countLine (cTol_orig c i))
        else (ret, orig)) (0, 0) [0..<numLines]"

section \<open>Widths and sizes\<close>

lemma countWidth_loop_spec:
  assumes "unat num < 2 ^ 8" "n + i = 8" "i = 0 \<or> 2 ^ (i - 1) \<le> unat num"
  shows "unat num < 2 ^ countWidth_loop n i num \<and> countWidth_loop n i num \<le> 8 \<and>
    (countWidth_loop n i num = 0 \<or> 2 ^ (countWidth_loop n i num - 1) \<le> unat num)"
  using assms
proof (induction n arbitrary: i)
  case (Suc n)
  show ?case
  proof (cases "unat num \<le> 2 ^ i - 1")
    case True
    then have "unat num < 2 ^ i" using one_le_power [of "2::nat" i] by linarith
    with True Suc.prems show ?thesis by auto
  next
    case False
    then have "2 ^ (Suc i - 1) \<le> unat num" by auto
    with False Suc show ?thesis by simp
  qed
qed auto

lemma widthOf_spec:
  "unat b < 2 ^ widthOf b" "widthOf b \<le> 8" "widthOf b = 0 \<or> 2 ^ (widthOf b - 1) \<le> unat b"
proof -
  have u: "unat (ucast b :: u16) = unat b"
  proof -
    have "unat b < 2 ^ 16" using unsigned_less [where 'a = nat, of b] by simp
    then show ?thesis by (simp add: unsigned_ucast_eq take_bit_nat_eq_self)
  qed
  have "unat b < 2 ^ 8" using unsigned_less [where 'a = nat, of b] by simp
  then show "unat b < 2 ^ widthOf b" "widthOf b \<le> 8" "widthOf b = 0 \<or> 2 ^ (widthOf b - 1) \<le> unat b"
    using countWidth_loop_spec [of "ucast b" 8 0] unfolding widthOf_def countWidth_def u by auto
qed

lemma widthOf_0 [simp]: "widthOf 0 = 0"
  using widthOf_spec(3) [of 0] by auto

lemma widthOf_eq_0_iff: "widthOf b = 0 \<longleftrightarrow> b = 0"
  using widthOf_spec(1) [of b] by (auto simp: unat_eq_zero)

text \<open>Bits of a line, and of one of its sixteen 4-byte words.\<close>

definition lineBits :: "Line \<Rightarrow> nat" where
  "lineBits line = (\<Sum>k < 64. widthOf (line ! k))"

definition wordBits :: "Line \<Rightarrow> nat \<Rightarrow> nat" where
  "wordBits line i = (\<Sum>k \<in> {i * 4..<i * 4 + 4}. widthOf (line ! k))"

lemma foldl_add_sum: "foldl (\<lambda>a i. a + f i) x [0..<n] = x + (\<Sum>k < n. f k :: nat)"
  by (induction n) auto

lemma div8_round_up: "(if 0 < n mod 8 then n div 8 + 1 else n div 8) = (n + 7) div (8 :: nat)"
  by presburger

lemma countLine_eq: "countLine line = (lineBits line + 7) div 8"
proof -
  have *: "foldl (\<lambda>ret i. ret + widthOf (line ! i)) 0 [0..<64] = lineBits line"
    by (simp only: foldl_add_sum lineBits_def add_0)
  show ?thesis by (simp only: countLine_def Let_def * div8_round_up)
qed

lemma countLine_mono: "lineBits l \<le> lineBits l' \<Longrightarrow> countLine l \<le> countLine l'"
  by (simp add: countLine_eq div_le_mono)

lemma lineBits_le: "lineBits line \<le> 512"
  using sum_bounded_above [of "{..<64}" "\<lambda>k. widthOf (line ! k)" 8] widthOf_spec(2)
  by (simp add: lineBits_def)

lemma countLine_le: "countLine line \<le> 64"
  using lineBits_le [of line] by (simp add: countLine_eq)

lemma countLine_0_iff: "countLine line = 0 \<longleftrightarrow> (\<forall>k < 64. line ! k = 0)"
proof -
  have "countLine line = 0 \<longleftrightarrow> lineBits line = 0" by (auto simp: countLine_eq)
  then show ?thesis by (auto simp: lineBits_def widthOf_eq_0_iff)
qed

lemma lineBits_words: "lineBits line = (\<Sum>i < 16. wordBits line i)"
  using sum.nat_group [of "\<lambda>k. widthOf (line ! k)" 4 16] by (simp add: lineBits_def wordBits_def)

lemma wordBits_expand:
  "wordBits line i = widthOf (line ! (i*4)) + widthOf (line ! (i*4 + 1)) + widthOf (line ! (i*4 + 2)) +
     widthOf (line ! (i*4 + 3))"
proof -
  have "{i * 4..<i * 4 + 4} = {i*4, i*4 + 1, i*4 + 2, i*4 + 3}" by auto
  then show ?thesis by (simp add: wordBits_def)
qed

section \<open>Exclusive or of lines\<close>

lemma line_op_nth [simp]:
  "k < 64 \<Longrightarrow> xxor a b ! k = a ! k XOR b ! k"
  "k < 64 \<Longrightarrow> sub a b ! k = a ! k - b ! k"
  "k < 64 \<Longrightarrow> add a b ! k = a ! k + b ! k"
  by (simp_all add: xxor_def sub_def add_def lineSize_def)

lemma line_op_length [simp]: "length (xxor a b) = 64" "length (sub a b) = 64" "length (add a b) = 64"
  by (simp_all add: xxor_def sub_def add_def lineSize_def)

lemma line_eqI: "length a = 64 \<Longrightarrow> length b = 64 \<Longrightarrow> (\<And>k. k < 64 \<Longrightarrow> a ! k = b ! k) \<Longrightarrow> a = b"
  by (simp add: list_eq_iff_nth_eq)

lemma xxor_recover: "length b = 64 \<Longrightarrow> xxor a (xxor a b) = b"
  by (rule line_eqI) (simp_all add: xor.assoc [symmetric])

lemma xxor_commute: "xxor a b = xxor b a"
  by (rule line_eqI) (simp_all add: xor.commute)

lemma add_sub_recover: "length a = 64 \<Longrightarrow> add (sub a b) b = a"
  by (rule line_eqI) simp_all

section \<open>Reading and writing lines\<close>

lemma read_line_length [simp]: "length (read_line a i) = 64"
  by (simp add: read_line_def lineSize_def)

lemma read_write_same: "length line = 64 \<Longrightarrow> read_line (write_line a tag line) tag = rev line"
  by (rule line_eqI) (auto simp: read_line_def write_line_def lineSize_def rev_nth)

lemma read_write_other: "tag \<noteq> i \<Longrightarrow> read_line (write_line a tag line) i = read_line a i"
proof (rule line_eqI)
  fix k :: nat
  assume ne: "tag \<noteq> i" and k: "k < 64"
  have "\<not> (tag * 64 \<le> i * 64 + (63 - k) \<and> i * 64 + (63 - k) < tag * 64 + 64)"
    using ne k by (cases "tag < i") auto
  then show "read_line (write_line a tag line) i ! k = read_line a i ! k"
    using k by (auto simp: read_line_def write_line_def lineSize_def)
qed simp_all

section \<open>Base-delta compression never grows a line\<close>

lemma compress_step_length [simp]: "length (compress_step line first i) = length first"
  by (simp add: compress_step_def Let_def)

lemma compress_step_other:
  "k < i * 4 \<or> i * 4 + 4 \<le> k \<Longrightarrow> compress_step line first i ! k = first ! k"
  by (auto simp: compress_step_def Let_def)

lemma compress_step_word:
  assumes "i < 16" "length first = 64"
  shows "wordBits (compress_step line first i) i \<le> wordBits line i"
proof -
  let ?num = "[line ! (i*4), line ! (i*4 + 1), line ! (i*4 + 2), line ! (i*4 + 3)] @ replicate 60 (0::u8)"
  let ?s = "sub ?num first"
  have "wordBits (compress_step line first i) i =
      (let w = (if widthOf (?s ! 0) + widthOf (?s ! 1) + widthOf (?s ! 2) + widthOf (?s ! 3)
            > widthOf (?num ! 0) + widthOf (?num ! 1) + widthOf (?num ! 2) + widthOf (?num ! 3)
          then ?num else ?s)
       in widthOf (w ! 0) + widthOf (w ! 1) + widthOf (w ! 2) + widthOf (w ! 3))"
    unfolding wordBits_expand compress_step_def Let_def
    using assms by (simp add: nth_list_update)
  also have "\<dots> \<le> widthOf (?num ! 0) + widthOf (?num ! 1) + widthOf (?num ! 2) + widthOf (?num ! 3)"
    by (simp only: Let_def split: if_split) linarith
  also have "\<dots> = wordBits line i"
    by (simp add: wordBits_expand)
  finally show ?thesis .
qed

lemma compress_fold:
  assumes "n \<le> 16"
  shows "length (foldl (compress_step line) first [1..<n]) = length first \<and>
    (length first = 64 \<longrightarrow>
      (\<forall>k < 4. foldl (compress_step line) first [1..<n] ! k = first ! k) \<and>
      (\<forall>i. 1 \<le> i \<and> i < n \<longrightarrow> wordBits (foldl (compress_step line) first [1..<n]) i \<le> wordBits line i))"
  using assms
proof (induction n)
  case (Suc n)
  show ?case
  proof (cases "1 \<le> n")
    case True
    let ?f = "foldl (compress_step line) first [1..<n]"
    have f: "foldl (compress_step line) first [1..<Suc n] = compress_step line ?f n"
      using True by simp
    have "wordBits (compress_step line ?f n) i = wordBits ?f i" if "i < n" for i
      unfolding wordBits_def using that
      by (intro sum.cong refl arg_cong [where f = widthOf] compress_step_other) auto
    moreover have "compress_step line ?f n ! k = ?f ! k" if "k < 4" for k
      using that True by (intro compress_step_other) auto
    moreover have "length first = 64 \<Longrightarrow> wordBits (compress_step line ?f n) n \<le> wordBits line n"
      using Suc by (intro compress_step_word) auto
    ultimately show ?thesis
      using Suc unfolding f by (auto simp: less_Suc_eq)
  qed (simp add: not_le)
qed simp

lemma compress_length [simp]: "length (compress line) = 64"
  using compress_fold [of 16 line "[line ! 3, line ! 2, line ! 1, line ! 0] @ replicate 60 0"]
  by (simp add: compress_def)

lemma compress_lineBits: "lineBits (compress line) \<le> lineBits line"
proof -
  let ?first = "[line ! 3, line ! 2, line ! 1, line ! 0] @ replicate 60 (0::u8)"
  have f: "\<And>k. k < 4 \<Longrightarrow> compress line ! k = ?first ! k"
    "\<And>i. 1 \<le> i \<Longrightarrow> i < 16 \<Longrightarrow> wordBits (compress line) i \<le> wordBits line i"
    using compress_fold [of 16 line ?first] by (simp_all add: compress_def)
  have "wordBits (compress line) 0 = wordBits line 0"
    using f(1) [of 0] f(1) [of 1] f(1) [of 2] f(1) [of 3] by (simp add: wordBits_expand numeral_2_eq_2)
  then have "wordBits (compress line) i \<le> wordBits line i" if "i < 16" for i
    using f(2) [of i] that by (cases i) auto
  then show ?thesis by (auto simp: lineBits_words intro!: sum_mono)
qed

section \<open>Insertion\<close>

text \<open>A line the scan of \<open>compare\<close> (column 0) or \<open>compare_perfect\<close> (column 2) may pair with.\<close>

definition eligible :: "comp \<Rightarrow> nat \<Rightarrow> nat \<Rightarrow> nat \<Rightarrow> bool" where
  "eligible c col tag i \<longleftrightarrow> i \<noteq> tag \<and> initialized c i col \<noteq> 0 \<and> occupied c i col = 0"

lemma compare_loop_spec:
  "(case compare_loop c line tag is of (ret, mn) \<Rightarrow>
     (ret = tag \<and> mn = line \<and>
       (\<forall>i \<in> set is. eligible c 0 tag i \<longrightarrow> countLine line \<le> countLine (xxor (cTol_orig c i) line))) \<or>
     (ret \<in> set is \<and> eligible c 0 tag ret \<and> mn = xxor (cTol_orig c ret) line \<and> countLine mn < countLine line))"
proof (induction "is")
  case (Cons i "is")
  then show ?case by (auto simp: eligible_def Let_def not_less split: prod.splits if_splits)
qed simp

lemma compare_perfect_loop_spec:
  assumes "(ret0 = tag \<and> mn0 = line) \<or> (eligible c 2 tag ret0 \<and> mn0 = xxor (cTol_orig c ret0) line)"
  shows "(case compare_perfect_loop c line tag is (ret0, mn0) of (ret, mn) \<Rightarrow>
     ((ret = tag \<and> mn = line) \<or> (eligible c 2 tag ret \<and> mn = xxor (cTol_orig c ret) line)) \<and>
     countLine mn \<le> countLine mn0 \<and>
     (\<forall>i \<in> set is. eligible c 2 tag i \<longrightarrow> countLine mn \<le> countLine (xxor (cTol_orig c i) line)))"
  using assms
proof (induction "is" arbitrary: ret0 mn0)
  case (Cons i "is")
  let ?x = "xxor (cTol_orig c i) line"
  show ?case
  proof (cases "eligible c 2 tag i \<and> countLine ?x < countLine mn0")
    case True
    then have "(i = tag \<and> ?x = line) \<or> (eligible c 2 tag i \<and> ?x = xxor (cTol_orig c i) line)" by simp
    from Cons.IH [OF this] True show ?thesis
      by (auto simp: eligible_def Let_def split: prod.splits)
  next
    case False
    have skip: "compare_perfect_loop c line tag (i # is) (ret0, mn0) = compare_perfect_loop c line tag is (ret0, mn0)"
      using False by (auto simp: eligible_def Let_def)
    from Cons.IH [OF Cons.prems] False show ?thesis
      unfolding skip by (auto simp: not_less split: prod.splits)
  qed
qed simp

text \<open>\<open>compare\<close> unfolded at the pair its scan chose.\<close>

lemma compare_unfold:
  assumes "tag < numLines" "compare_loop c line tag [0..<numLines] = (ret, mn)"
  shows "\<exists>c'. compare line tag c = Some (c', mn) \<and>
    data_array_orig c' = write_line (data_array_orig c) tag line \<and>
    data_array c' = write_line (write_line (data_array c) (if initialized c ret 0 = 0 then tag else ret) mn) tag mn \<and>
    (initialized c ret 0 \<noteq> 0 \<longrightarrow> index_ref c' = (index_ref c)(ret := tag, tag := ret) \<and>
       occupied c' = upd2 (upd2 (occupied c) ret 0 1) tag 0 1 \<and> initialized c' = initialized c) \<and>
    (initialized c ret 0 = 0 \<longrightarrow> index_ref c' = index_ref c \<and> occupied c' = occupied c \<and>
       initialized c' = upd2 (initialized c) tag 0 1)"
  using assms by (simp add: compare_def LongToLine_def)

lemma compare_total: "tag < numLines \<Longrightarrow> \<exists>c' l'. compare line tag c = Some (c', l')"
  by (cases "compare_loop c line tag [0..<numLines]") (use compare_unfold in blast)

lemma compare_result:
  assumes "compare line tag c = Some (c', l')"
  shows "compare_loop c line tag [0..<numLines] = (fst (compare_loop c line tag [0..<numLines]), l')"
proof -
  have "tag < numLines" using assms by (auto simp: compare_def bind_eq_Some_conv)
  then show ?thesis
    using compare_unfold [of tag c line "fst (compare_loop c line tag [0..<numLines])"
        "snd (compare_loop c line tag [0..<numLines])"] assms by (metis option.inject prod.collapse prod.inject)
qed

lemma foldl_min_le:
  "foldl (\<lambda>len j. if P j \<and> g j < len then g j else len) (x::nat) js \<le> x"
proof (induction js arbitrary: x)
  case (Cons j js)
  show ?case
    using Cons.IH [of "g j"] Cons.IH [of x] by (auto intro: order_trans)
qed simp

lemma foldl_rate_le:
  fixes a b :: "nat \<Rightarrow> nat"
  assumes "\<And>i. a i \<le> b i" "r \<le> s"
  shows "(case foldl (\<lambda>(ret, orig) i. if P i then (ret + a i, orig + b i) else (ret, orig)) (r, s) js
          of (ret, orig) \<Rightarrow> ret \<le> orig)"
  using assms(2)
proof (induction js arbitrary: r s)
  case (Cons j js)
  then show ?case using assms(1) [of j] by (auto intro: add_mono)
qed simp

text \<open>The flip count looks at the first 31 bytes only.\<close>

lemma flip_inner_agree:
  assumes "\<forall>k < 31. l ! k = l' ! k" "length l = length l'" "i < 31"
  shows "(case flip_inner (l, x, r) i of (m, y, q) \<Rightarrow> case flip_inner (l', x, r) i of (m', y', q') \<Rightarrow>
     (\<forall>k < 31. m ! k = m' ! k) \<and> length m = length m' \<and> y = y' \<and> q = q')"
  using assms
  by (cases "i < length l'") (auto simp: flip_inner_def Let_def nth_list_update list_update_beyond)

lemma flip_fold_agree:
  assumes "\<forall>k < 31. l ! k = l' ! k" "length l = length l'" "\<forall>i \<in> set is. i < 31"
  shows "(case foldl flip_inner (l, x, r) is of (m, y, q) \<Rightarrow> case foldl flip_inner (l', x, r) is of (m', y', q') \<Rightarrow>
     (\<forall>k < 31. m ! k = m' ! k) \<and> length m = length m' \<and> y = y' \<and> q = q')"
  using assms
proof (induction "is" arbitrary: l l' x r)
  case (Cons i "is")
  obtain m y q m' y' q' where e: "flip_inner (l, x, r) i = (m, y, q)" "flip_inner (l', x, r) i = (m', y', q')"
    by (metis prod_cases3)
  then have "\<forall>k < 31. m ! k = m' ! k" "length m = length m'" "y = y'" "q = q'"
    using flip_inner_agree [of l l' i x r] Cons.prems by auto
  with Cons.IH [of m m' y q] Cons.prems(3) e show ?case by simp
qed simp

lemma flip_outer_agree:
  assumes "\<forall>k < 31. l ! k = l' ! k" "length l = length l'"
  shows "(case ((\<lambda>st. foldl flip_inner st [0..<31]) ^^ n) (l, x, r) of (m, y, q) \<Rightarrow>
     case ((\<lambda>st. foldl flip_inner st [0..<31]) ^^ n) (l', x, r) of (m', y', q') \<Rightarrow>
     (\<forall>k < 31. m ! k = m' ! k) \<and> length m = length m' \<and> y = y' \<and> q = q')"
proof (induction n)
  case (Suc n)
  let ?F = "\<lambda>st. foldl flip_inner st [0..<31]"
  obtain m y q m' y' q' where e: "(?F ^^ n) (l, x, r) = (m, y, q)" "(?F ^^ n) (l', x, r) = (m', y', q')"
    by (metis prod_cases3)
  with Suc.IH have "\<forall>k < 31. m ! k = m' ! k" "length m = length m'" "y = y'" "q = q'" by auto
  with flip_fold_agree [of m m' "[0..<31]" y q] e show ?case by simp
qed (use assms in simp)

lemma countFlip_prefix:
  assumes "length l = length l'" "\<forall>k < 31. l ! k = l' ! k"
  shows "countFlip l = countFlip l'"
proof -
  have "l ! 0 = l' ! 0" using assms(2) by simp
  then show ?thesis
    using flip_outer_agree [OF assms(2,1), of 64 "1 AND l ! 0" 0]
    by (auto simp: countFlip_def Let_def split: prod.splits)
qed

section \<open>Properties\<close>

definition fresh_comp :: comp where
  "fresh_comp = \<lparr>data_array_orig = (\<lambda>_. 0), data_array = (\<lambda>_. 0), data_array_sub = (\<lambda>_. 0),
     data_array_perf = (\<lambda>_. 0), index_ref = (\<lambda>_. 0), index_ref_sub = (\<lambda>_. 0), index_ref_perf = (\<lambda>_. 0),
     sizes = (\<lambda>_ _. 0), occupied = (\<lambda>_ _. 0), initialized = (\<lambda>_ _. 0), uncompress_size = 0\<rparr>"

text \<open>Base-delta compression never makes a line larger: its size in bytes does not grow.\<close>

theorem compress_never_grows: "countLine (compress line) \<le> countLine line"
  by (rule countLine_mono [OF compress_lineBits])

text \<open>A resident unpaired line whose exclusive or with \<open>line\<close> is smaller than \<open>line\<close>.\<close>

definition pairs_with :: "comp \<Rightarrow> Line \<Rightarrow> nat \<Rightarrow> nat \<Rightarrow> bool" where
  "pairs_with c line tag r \<longleftrightarrow> r < numLines \<and> eligible c 0 tag r \<and> countLine (xxor (cTol_orig c r) line) < countLine line"

lemma compare_loop_find:
  "compare_loop c line tag is =
     (case find (\<lambda>r. eligible c 0 tag r \<and> countLine (xxor (cTol_orig c r) line) < countLine line) is of
        None \<Rightarrow> (tag, line) | Some r \<Rightarrow> (r, xxor (cTol_orig c r) line))"
  by (induction "is") (auto simp: eligible_def Let_def)

lemma compare_loop_least:
  "if \<exists>r. pairs_with c line tag r
   then \<exists>r. pairs_with c line tag r \<and> (\<forall>j < r. \<not> pairs_with c line tag j) \<and> compare_loop c line tag [0..<numLines] = (r, xxor (cTol_orig c r) line)
   else compare_loop c line tag [0..<numLines] = (tag, line)"
proof (cases "find (\<lambda>r. eligible c 0 tag r \<and> countLine (xxor (cTol_orig c r) line) < countLine line) [0..<numLines]")
  case None
  then have "\<not> (\<exists>r. pairs_with c line tag r)" by (auto simp: find_None_iff pairs_with_def)
  then show ?thesis using None by (simp add: compare_loop_find)
next
  case (Some r)
  then have "pairs_with c line tag r" "\<forall>j < r. \<not> pairs_with c line tag j" by (auto simp: find_Some_iff pairs_with_def)
  then show ?thesis using Some by (auto simp: compare_loop_find)
qed

text \<open>
  C29. What \<open>compare\<close> does with a line of 64 bytes and a line id in range. The line itself is stored, in the order in which it is read back (reversed), and no other original line
  changes. When the exclusive or with some other resident, unpaired line is smaller than the line, the first such line becomes the reference: both are
  recorded as each other's reference and as paired, both hold the exclusive or, and the line is recovered from what is stored. Otherwise the line
  is stored as it is and becomes resident, or, when its line id already was, is recorded as paired with itself.
\<close>

theorem compare_pairs_reversibly:
  assumes "tag < numLines" "length line = 64"
  shows "\<exists>c' l'. compare line tag c = Some (c', l') \<and> (\<forall>i. cTol_orig c' i = (if i = tag then rev line else cTol_orig c i)) \<and>
    (if \<exists>r. pairs_with c line tag r
     then \<exists>r. pairs_with c line tag r \<and> (\<forall>j < r. \<not> pairs_with c line tag j) \<and> l' = xxor (cTol_orig c r) line \<and>
       index_ref c' = (index_ref c)(r := tag, tag := r) \<and> occupied c' = upd2 (upd2 (occupied c) r 0 1) tag 0 1 \<and>
       (\<forall>i. cTol c' i = (if i = tag \<or> i = r then rev l' else cTol c i)) \<and> line = xxor (cTol_orig c' r) (rev (cTol c' tag))
     else l' = line \<and> (\<forall>i. cTol c' i = (if i = tag then rev line else cTol c i)) \<and>
       (if initialized c tag 0 = 0 then index_ref c' = index_ref c \<and> occupied c' = occupied c \<and> initialized c' tag 0 = 1
        else index_ref c' = (index_ref c)(tag := tag) \<and> occupied c' = upd2 (occupied c) tag 0 1))"
proof -
  obtain r l' where e: "compare_loop c line tag [0..<numLines] = (r, l')" by fastforce
  obtain c' where c': "compare line tag c = Some (c', l')" "data_array_orig c' = write_line (data_array_orig c) tag line"
      "data_array c' = write_line (write_line (data_array c) (if initialized c r 0 = 0 then tag else r) l') tag l'"
    and pair: "initialized c r 0 \<noteq> 0 \<longrightarrow> index_ref c' = (index_ref c)(r := tag, tag := r) \<and>
       occupied c' = upd2 (upd2 (occupied c) r 0 1) tag 0 1 \<and> initialized c' = initialized c"
    and alone: "initialized c r 0 = 0 \<longrightarrow> index_ref c' = index_ref c \<and> occupied c' = occupied c \<and> initialized c' = upd2 (initialized c) tag 0 1"
    using compare_unfold [OF assms(1) e] by (elim exE conjE) (rule that)
  have orig: "cTol_orig c' i = (if i = tag then rev line else cTol_orig c i)" for i
    using c'(2) assms(2) by (simp add: cTol_orig_def read_write_same read_write_other)
  show ?thesis
  proof (cases "\<exists>r. pairs_with c line tag r")
    case True
    then have r: "pairs_with c line tag r" "\<forall>j < r. \<not> pairs_with c line tag j" "l' = xxor (cTol_orig c r) line"
      using compare_loop_least [of c line tag] e by auto
    then have n: "r \<noteq> tag" "initialized c r 0 \<noteq> 0" by (simp_all add: pairs_with_def eligible_def)
    have len: "length l' = 64" using r(3) by (simp add: xxor_def lineSize_def)
    have new: "cTol c' i = (if i = tag \<or> i = r then rev l' else cTol c i)" for i
      using c'(3) n len by (simp add: cTol_def read_write_same read_write_other)
    have P: "index_ref c' = (index_ref c)(r := tag, tag := r)" "occupied c' = upd2 (upd2 (occupied c) r 0 1) tag 0 1" using pair n(2) by blast+
    have L: "line = xxor (cTol_orig c' r) (rev (cTol c' tag))" using orig [of r] new [of tag] n(1) r(3) xxor_recover [OF assms(2)] by simp
    show ?thesis unfolding if_P [OF True]
      by (intro exI [of _ c'] exI [of _ l'] exI [of _ r] conjI c'(1) allI orig r(1,3) r(2) [THEN spec] P new L)
  next
    case False
    then have r: "r = tag" "l' = line" using compare_loop_least [of c line tag] e by simp_all
    have new: "cTol c' i = (if i = tag then rev line else cTol c i)" for i
      using c'(3) assms(2) r by (simp add: cTol_def read_write_same read_write_other)
    have "if initialized c tag 0 = 0 then index_ref c' = index_ref c \<and> occupied c' = occupied c \<and> initialized c' tag 0 = 1
        else index_ref c' = (index_ref c)(tag := tag) \<and> occupied c' = upd2 (occupied c) tag 0 1"
      using pair alone r(1) by (auto simp: upd2_def)
    then show ?thesis using False c'(1) orig r(2) new by (intro exI [of _ c'] exI [of _ l']) auto
  qed
qed

theorem compare_pairs_reversibly_witness:
  "\<exists>c' l'. compare (replicate 64 1) 3 (fresh_comp\<lparr>data_array_orig := \<lambda>_. 1, initialized := upd2 (\<lambda>_ _. 0) 0 0 1\<rparr>) = Some (c', l') \<and>
     index_ref c' 3 = 0 \<and> index_ref c' 0 = 3 \<and> cTol c' 3 = zero_line \<and> replicate 64 1 = xxor (cTol_orig c' 0) (rev (cTol c' 3))"
proof -
  let ?c = "fresh_comp\<lparr>data_array_orig := \<lambda>_. 1, initialized := upd2 (\<lambda>_ _. 0) 0 0 1\<rparr>" let ?l = "replicate 64 1 :: Line"
  have one: "cTol_orig ?c 0 = ?l" by (rule line_eqI) (simp_all add: cTol_orig_def read_line_def lineSize_def)
  have z: "xxor ?l ?l = zero_line" by (rule line_eqI) (simp_all add: zero_line_def lineSize_def)
  have cl: "countLine zero_line < countLine ?l" by code_simp
  have p: "pairs_with ?c ?l 3 0" using one z cl by (simp add: pairs_with_def eligible_def numLines_def fresh_comp_def upd2_def)
  have t: "3 < numLines" "length ?l = 64" by (simp_all add: numLines_def)
  have first: "r = 0" if "\<forall>j < r. \<not> pairs_with ?c ?l 3 j" for r using that p by (cases r) auto
  have rz: "rev zero_line = zero_line" by (simp add: zero_line_def)
  have ex: "\<exists>r. pairs_with ?c ?l 3 r" using p by blast
  obtain c' l' r where c': "compare ?l 3 ?c = Some (c', l')" "\<forall>j < r. \<not> pairs_with ?c ?l 3 j" "l' = xxor (cTol_orig ?c r) ?l"
      "index_ref c' = (index_ref ?c)(r := 3, 3 := r)" "\<forall>i. cTol c' i = (if i = 3 \<or> i = r then rev l' else cTol ?c i)" "?l = xxor (cTol_orig c' r) (rev (cTol c' 3))"
    using compare_pairs_reversibly [OF t, of ?c, unfolded if_P [OF ex]] by (elim exE conjE) (rule that)
  have r: "r = 0" by (rule first [OF c'(2)])
  have "l' = zero_line" using c'(3) unfolding r one z .
  then show ?thesis using c'(1,4-6) r rz by auto
qed

text \<open>
  The exhaustive search \<open>compare_perfect\<close> is optimal: what it returns is no larger than the line and
  no larger than its exclusive or with any resident unpaired line.
\<close>

theorem compare_perfect_optimal:
  assumes "tag < numLines"
  shows "\<exists>c' l'. compare_perfect line tag c = Some (c', l') \<and> countLine l' \<le> countLine line \<and>
    (\<forall>i < numLines. eligible c 2 tag i \<longrightarrow> countLine l' \<le> countLine (xxor (cTol_orig c i) line))"
proof -
  obtain r l' where e: "compare_perfect_loop c line tag [0..<numLines] (tag, line) = (r, l')" by fastforce
  then obtain c' where "compare_perfect line tag c = Some (c', l')"
    using assms by (cases "initialized c r 2 = 0") (simp_all add: compare_perfect_def)
  with compare_perfect_loop_spec [where ?ret0.0 = tag and ?mn0.0 = line and line = line and tag = tag and c = c
      and ?is = "[0..<numLines]"] e show ?thesis by auto
qed

theorem compare_perfect_optimal_witness:
  "\<exists>c' l'. compare_perfect zero_line 3 fresh_comp = Some (c', l') \<and> countLine l' \<le> countLine zero_line \<and>
    (\<forall>i < numLines. eligible fresh_comp 2 3 i \<longrightarrow>
       countLine l' \<le> countLine (xxor (cTol_orig fresh_comp i) zero_line))"
  by (rule compare_perfect_optimal) (simp add: numLines_def)

text \<open>
  \<open>LongToLine\<close> and \<open>cTol_orig\<close> disagree on byte order: reading back a stored line yields its bytes
  reversed, and every other line unchanged.
\<close>

theorem stored_line_reads_reversed:
  assumes "length line = 64"
  shows "cTol_orig (LongToLine line tag c) i = (if i = tag then rev line else cTol_orig c i)"
  using read_write_same [OF assms] read_write_other
  by (simp add: cTol_orig_def LongToLine_def)

theorem stored_line_reads_reversed_witness:
  "cTol_orig (LongToLine (1 # replicate 63 0) 7 fresh_comp) 7 = rev (1 # replicate 63 0)"
  using stored_line_reads_reversed [of "1 # replicate 63 0" 7 fresh_comp 7] by simp

text \<open>The flip count of a line depends on its first 31 bytes only.\<close>

theorem countFlip_ignores_tail:
  assumes "length l = length l'" "\<forall>k < 31. l ! k = l' ! k"
  shows "countFlip l = countFlip l'"
  using assms by (rule countFlip_prefix)

theorem countFlip_ignores_tail_witness:
  "countFlip (replicate 63 0 @ [255]) = countFlip (replicate 64 0)"
  by (rule countFlip_ignores_tail) (simp_all add: nth_append)

text \<open>Compression loses information: two different lines have the same compressed image.\<close>

theorem compress_not_injective:
  "compress ([1, 0, 0, 0, 0, 0, 0, 1] @ replicate 56 0) = compress ([1, 0, 0, 0] @ replicate 60 0)"
  by code_simp

end
