(* ===== verification/CacheArrays.thy ===== *)
theory CacheArrays
  imports ReplPolicies HashFam Compressor
begin

text \<open>
  The cache arrays of \<^verbatim>\<open>src/cache_arrays.h\<close> and \<^verbatim>\<open>src/cache_arrays.cpp\<close>: the set-associative array, with
  the compressing variants of its operations used by the cache named \<open>l2-0\<close>, and the zcache array.

  An array is generic in its replacement policy (a state of type \<open>'rp\<close> and a method table) and in its
  hash family (a function from the hash number and the address). Line ids are natural numbers; the
  result \<open>-1\<close> of a lookup is \<open>None\<close>. The insertion paths thread the compressor's global state
  (\<open>cworld\<close>). Bytes of the simulated application's memory, which \<open>postinsertL2\<close> reads, are given by a
  function \<open>mem\<close>.
\<close>

section \<open>Definitions\<close>

type_synonym hash_fn = "nat \<Rightarrow> u64 \<Rightarrow> u64 option"

record 'rp set_assoc =
  sa_array :: "Address list"
  sa_rp :: 'rp
  sa_numLines :: nat
  sa_numSets :: nat
  sa_assoc :: nat
  sa_setMask :: u32

record cworld =
  cw_comp :: comp
  cw_tot :: totals
  cw_l1 :: bool

subsection \<open>Candidate ranges\<close>

text \<open>The line ids that the iterators of the two wrappers enumerate, \<open>begin()\<close> to \<open>end()\<close>.\<close>

record zwalk_info =
  zw_pos :: nat
  zw_lineId :: nat
  zw_parentIdx :: "nat option"

definition SetAssocCands :: "nat \<Rightarrow> nat \<Rightarrow> nat list" where
  "SetAssocCands b e = [b..<e]"

definition ZCands :: "zwalk_info list \<Rightarrow> nat list" where
  "ZCands candidates = map zw_lineId candidates"

subsection \<open>Set-associative array\<close>

text \<open>An associativity of 0 divides by zero.\<close>

definition SetAssocArray_new :: "nat \<Rightarrow> nat \<Rightarrow> 'rp \<Rightarrow> 'rp set_assoc option" where
  "SetAssocArray_new n assoc rp = do {
     assert_that (assoc \<noteq> 0);
     let numSets = n div assoc;
     assert_that (isPow2 (of_nat numSets :: u32));
     Some \<lparr>sa_array = replicate n 0, sa_rp = rp, sa_numLines = n, sa_numSets = numSets,
           sa_assoc = assoc, sa_setMask = of_nat numSets - 1\<rparr> }"

definition sa_first :: "hash_fn \<Rightarrow> 'rp set_assoc \<Rightarrow> Address \<Rightarrow> nat option" where
  "sa_first hash a lineAddr = do {
     h \<leftarrow> hash 0 lineAddr;
     let set = unat (ucast (h AND ucast (sa_setMask a)) :: u32);
     Some (set * sa_assoc a) }"

fun sa_find :: "Address list \<Rightarrow> Address \<Rightarrow> nat \<Rightarrow> nat \<Rightarrow> nat option option" where
  "sa_find arr lineAddr i 0 = Some None"
| "sa_find arr lineAddr i (Suc n) = do {
     x \<leftarrow> aget arr i;
     if x = lineAddr then Some (Some i) else sa_find arr lineAddr (Suc i) n }"

definition sa_lookup ::
  "'rp repl_vt \<Rightarrow> hash_fn \<Rightarrow> 'rp set_assoc \<Rightarrow> Address \<Rightarrow> mem_req option \<Rightarrow> bool \<Rightarrow>
    ('rp set_assoc \<times> nat option) option" where
  "sa_lookup vt hash a lineAddr req updateReplacement = do {
     first \<leftarrow> sa_first hash a lineAddr;
     found \<leftarrow> sa_find (sa_array a) lineAddr first (sa_assoc a);
     (case found of
        None \<Rightarrow> Some (a, None)
      | Some i \<Rightarrow>
          if updateReplacement then do {
            r \<leftarrow> req;
            rp \<leftarrow> vt_update vt (sa_rp a) i r;
            Some (a\<lparr>sa_rp := rp\<rparr>, Some i) }
          else Some (a, Some i)) }"

definition sa_preinsert ::
  "'rp repl_vt \<Rightarrow> hash_fn \<Rightarrow> cc_view \<Rightarrow> 'rp set_assoc \<Rightarrow> Address \<Rightarrow> mem_req \<Rightarrow>
    ('rp set_assoc \<times> nat \<times> Address) option" where
  "sa_preinsert vt hash cc a lineAddr req = do {
     first \<leftarrow> sa_first hash a lineAddr;
     (rp, candidate) \<leftarrow> vt_rankCands vt (sa_rp a) cc req (SetAssocCands first (first + sa_assoc a));
     wbLineAddr \<leftarrow> aget (sa_array a) candidate;
     Some (a\<lparr>sa_rp := rp\<rparr>, candidate, wbLineAddr) }"

text \<open>
  The compressor's tables are dimensioned for 32768 lines: a larger line id would index past them.

  The block both insertions run when the victim slot is paired (\<open>index_ref[candidate] != 0\<close>): either the
  pair is kept and the slot stores the exclusive or, or it is dissolved and the line inserted anew.
\<close>

definition keep_pair :: "Line \<Rightarrow> nat \<Rightarrow> cworld \<Rightarrow> cworld \<times> Line" where
  "keep_pair line_orig candidate w =
     (let c = cw_comp w;
          reference = cTol_orig c (index_ref c candidate);
          old_val = cTol_orig c candidate;
          old_val_xor = xxor (cTol_orig c candidate) reference;
          t = calcRate_raw (- int (countLine old_val)) (int (countLine old_val_xor))
                (int (countFlip old_val)) (int (countFlip old_val_xor)) (cw_tot w);
          old_val_xor = compress old_val_xor;
          old_val = compress old_val;
          t = calcRate (- int (countLine old_val)) (int (countLine old_val_xor))
                (int (countFlip old_val)) (int (countFlip old_val_xor)) t;
          line = xxor reference line_orig;
          c = LongToLine line_orig candidate c;
          c = c\<lparr>data_array := write_line (write_line (data_array c) candidate line) (index_ref c candidate) line\<rparr>
      in (w\<lparr>cw_comp := c, cw_tot := t\<rparr>, line))"

definition dereference :: "Line \<Rightarrow> nat \<Rightarrow> cworld \<Rightarrow> (cworld \<times> Line) option" where
  "dereference line_orig candidate w = do {
     let c = cw_comp w;
     let reference = cTol_orig c (index_ref c candidate);
     let old_val = cTol_orig c candidate;
     let old_val_xor = xxor (cTol_orig c candidate) reference;
     let t = calcRate_raw (- int (countLine old_val)) (int (countLine old_val_xor + countLine reference))
               (int (countFlip old_val)) (int (countFlip old_val_xor + countFlip reference)) (cw_tot w);
     let old_val_xor = compress old_val_xor;
     let old_val = compress old_val;
     let reference = compress reference;
     let t = calcRate (- int (countLine old_val)) (int (countLine old_val_xor + countLine reference))
               (int (countFlip old_val)) (int (countFlip old_val_xor + countFlip reference)) t;
     let c = c\<lparr>occupied := upd2 (upd2 (occupied c) candidate 1 0) (index_ref c candidate) 1 0\<rparr>;
     (c, line) \<leftarrow> compare line_orig candidate c;
     Some (w\<lparr>cw_comp := c, cw_tot := t\<rparr>, line) }"

definition evict_paired :: "Line \<Rightarrow> nat \<Rightarrow> cworld \<Rightarrow> (cworld \<times> Line) option" where
  "evict_paired line_orig candidate w =
     (let reference = cTol_orig (cw_comp w) (index_ref (cw_comp w) candidate)
      in if countLine (xxor reference line_orig) > countLine line_orig
         then Some (keep_pair line_orig candidate w)
         else dereference line_orig candidate w)"

definition sa_postinsert ::
  "'rp repl_vt \<Rightarrow> 'rp set_assoc \<Rightarrow> cworld \<Rightarrow> Address \<Rightarrow> mem_req \<Rightarrow> nat \<Rightarrow> ('rp set_assoc \<times> cworld) option" where
  "sa_postinsert vt a w lineAddr req candidate = do {
     rp \<leftarrow> vt_replaced vt (sa_rp a) candidate;
     w \<leftarrow> (if cw_l1 w then do {
             assert_that (candidate < numLines);
             if index_ref (cw_comp w) candidate \<noteq> 0
             then do { (w, line) \<leftarrow> evict_paired zero_line candidate w; Some w }
             else Some w }
           else Some w);
     arr \<leftarrow> aset (sa_array a) candidate lineAddr;
     rp \<leftarrow> vt_update vt rp candidate req;
     Some (a\<lparr>sa_array := arr, sa_rp := rp\<rparr>, w) }"

subsection \<open>The compressing operations\<close>

text \<open>\<open>lookupL2\<close> and \<open>preinsertL2\<close> have the bodies of \<open>lookup\<close> and \<open>preinsert\<close>, and print.\<close>

definition sa_lookupL2 ::
  "'rp repl_vt \<Rightarrow> hash_fn \<Rightarrow> 'rp set_assoc \<Rightarrow> Address \<Rightarrow> mem_req option \<Rightarrow> bool \<Rightarrow>
    ('rp set_assoc \<times> nat option) option" where
  "sa_lookupL2 vt hash a lineAddr req updateReplacement = do {
     first \<leftarrow> sa_first hash a lineAddr;
     found \<leftarrow> sa_find (sa_array a) lineAddr first (sa_assoc a);
     (case found of
        None \<Rightarrow> Some (a, None)
      | Some i \<Rightarrow>
          if updateReplacement then do {
            r \<leftarrow> req;
            rp \<leftarrow> vt_update vt (sa_rp a) i r;
            Some (a\<lparr>sa_rp := rp\<rparr>, Some i) }
          else Some (a, Some i)) }"

definition sa_preinsertL2 ::
  "'rp repl_vt \<Rightarrow> hash_fn \<Rightarrow> cc_view \<Rightarrow> 'rp set_assoc \<Rightarrow> Address \<Rightarrow> mem_req \<Rightarrow>
    ('rp set_assoc \<times> nat \<times> Address) option" where
  "sa_preinsertL2 vt hash cc a lineAddr req = do {
     first \<leftarrow> sa_first hash a lineAddr;
     (rp, candidate) \<leftarrow> vt_rankCands vt (sa_rp a) cc req (SetAssocCands first (first + sa_assoc a));
     wbLineAddr \<leftarrow> aget (sa_array a) candidate;
     Some (a\<lparr>sa_rp := rp\<rparr>, candidate, wbLineAddr) }"

definition mem_line :: "(u64 \<Rightarrow> u8) \<Rightarrow> Address \<Rightarrow> Line" where
  "mem_line mem lineAddr = map (\<lambda>i. mem (push_bit 6 lineAddr + of_nat i)) [0..<64]"

definition simple_insertion :: "Line \<Rightarrow> nat \<Rightarrow> cworld \<Rightarrow> (cworld \<times> Line) option" where
  "simple_insertion line_orig candidate w = do {
     let reference = cTol_orig (cw_comp w) (index_ref (cw_comp w) candidate);
     (c, line) \<leftarrow> compare line_orig candidate (cw_comp w);
     let t = calcRate_raw 0 (- int (countLine reference)) 0 (- int (countFlip reference)) (cw_tot w);
     let reference = compress reference;
     let t = calcRate 0 (- int (countLine reference)) 0 (- int (countFlip reference)) t;
     Some (w\<lparr>cw_comp := c, cw_tot := t\<rparr>, line) }"

text \<open>Undoing the pairing of the exhaustive array before the slot is reused.\<close>

definition recover_perf :: "nat \<Rightarrow> cworld \<Rightarrow> cworld" where
  "recover_perf candidate w =
     (let c = cw_comp w in
      if initialized c candidate 2 \<noteq> 0 \<and> occupied c candidate 2 \<noteq> 0 then
        let line_perf = cTol_orig c candidate;
            line_perf_xor = cTol_orig c (index_ref_perf c candidate);
            recover = xxor line_perf line_perf_xor;
            t = calcRatePerf_raw 0 (- int (countLine recover)) 0 (- int (countFlip recover)) (cw_tot w);
            recover_comp = compress recover;
            t = calcRatePerf_raw 0 (- int (countLine recover_comp)) 0 (- int (countFlip recover_comp)) t;
            t = calcRatePerf_raw 0 (int (countLine line_perf_xor)) 0 (int (countFlip line_perf_xor)) t;
            line_perf_xor = compress line_perf_xor;
            t = calcRatePerf_raw 0 (int (countLine line_perf_xor)) 0 (int (countFlip line_perf_xor)) t;
            c = c\<lparr>data_array_perf := write_line (data_array_perf c) (index_ref_perf c candidate) recover,
                  occupied := upd2 (upd2 (occupied c) (index_ref_perf c candidate) 2 0) candidate 2 0,
                  initialized := upd2 (initialized c) candidate 2 0\<rparr>
        in w\<lparr>cw_comp := c, cw_tot := t\<rparr>
      else w)"

definition account_insertion :: "Line \<Rightarrow> Line \<Rightarrow> Line \<Rightarrow> totals \<Rightarrow> totals" where
  "account_insertion line_orig line line_perf t =
     (let t = calcRate_raw (int (countLine line_orig)) (int (countLine line))
                (int (countFlip line_orig)) (int (countFlip line)) t;
          t = calcRatePerf_raw (int (countLine line_orig)) (int (countLine line_perf))
                (int (countFlip line_orig)) (int (countFlip line_perf)) t;
          line = compress line; line_perf = compress line_perf; line_orig = compress line_orig;
          t = calcRate (int (countLine line_orig)) (int (countLine line))
                (int (countFlip line_orig)) (int (countFlip line)) t
      in calcRatePerf (int (countLine line_orig)) (int (countLine line_perf))
           (int (countFlip line_orig)) (int (countFlip line_perf)) t)"

definition sa_postinsertL2 ::
  "(u64 \<Rightarrow> u8) \<Rightarrow> 'rp repl_vt \<Rightarrow> 'rp set_assoc \<Rightarrow> cworld \<Rightarrow> Address \<Rightarrow> mem_req \<Rightarrow> nat \<Rightarrow>
    ('rp set_assoc \<times> cworld) option" where
  "sa_postinsertL2 mem vt a w lineAddr req candidate = do {
     rp \<leftarrow> vt_replaced vt (sa_rp a) candidate;
     arr \<leftarrow> aset (sa_array a) candidate lineAddr;
     assert_that (candidate < numLines);
     let line_orig = mem_line mem lineAddr;
     let w = w\<lparr>cw_comp := (cw_comp w)\<lparr>sizes := upd2 (sizes (cw_comp w)) candidate 0 (countLine line_orig)\<rparr>\<rparr>;
     (w, line) \<leftarrow> (if index_ref (cw_comp w) candidate \<noteq> 0
                   then evict_paired line_orig candidate w
                   else simple_insertion line_orig candidate w);
     let w = recover_perf candidate w;
     (c, line_perf) \<leftarrow> compare_perfect line_orig candidate (cw_comp w);
     let w = w\<lparr>cw_comp := c, cw_tot := account_insertion line_orig line line_perf (cw_tot w)\<rparr>;
     rp \<leftarrow> vt_update vt rp candidate req;
     Some (a\<lparr>sa_array := arr, sa_rp := rp\<rparr>, w) }"

text \<open>
  \<open>refresh\<close> returns the line that is about to be evicted, read from memory; for a free slot it returns
  an uninitialised block, \<open>garbage\<close>.
\<close>

definition sa_refresh ::
  "Line \<Rightarrow> (u64 \<Rightarrow> u8) \<Rightarrow> 'rp repl_vt \<Rightarrow> 'rp set_assoc \<Rightarrow> nat \<Rightarrow> ('rp set_assoc \<times> Line) option" where
  "sa_refresh garbage mem vt a candidate = do {
     rp \<leftarrow> vt_replaced vt (sa_rp a) candidate;
     addr \<leftarrow> aget (sa_array a) candidate;
     Some (a\<lparr>sa_rp := rp\<rparr>, if addr \<noteq> 0 then mem_line mem addr else garbage) }"

subsection \<open>Zcache array\<close>

record 'rp z_array =
  za_array :: "Address list"
  za_lookupArray :: "nat list"
  za_rp :: 'rp
  za_numLines :: nat
  za_numSets :: nat
  za_ways :: nat
  za_cands :: nat
  za_setMask :: u32
  za_swapArray :: "nat list"
  za_lastCandIdx :: nat
  za_statSwaps :: u64

definition ZArray_new :: "nat \<Rightarrow> nat \<Rightarrow> nat \<Rightarrow> 'rp \<Rightarrow> 'rp z_array option" where
  "ZArray_new n ways cands rp = do {
     assert_that (ways > 1);
     assert_that (cands \<ge> ways);
     assert_that (n mod ways = 0);
     let numSets = n div ways;
     assert_that (isPow2 (of_nat numSets :: u32));
     Some \<lparr>za_array = replicate n 0, za_lookupArray = [0..<n], za_rp = rp, za_numLines = n,
           za_numSets = numSets, za_ways = ways, za_cands = cands, za_setMask = of_nat numSets - 1,
           za_swapArray = [], za_lastCandIdx = 0, za_statSwaps = 0\<rparr> }"

text \<open>The position of an address in way \<open>w\<close>.\<close>

definition za_pos :: "hash_fn \<Rightarrow> 'rp z_array \<Rightarrow> nat \<Rightarrow> Address \<Rightarrow> nat option" where
  "za_pos hash a w addr = do {
     h \<leftarrow> hash w addr;
     Some (w * za_numSets a + unat (ucast (h AND ucast (za_setMask a)) :: u32)) }"

fun za_find :: "hash_fn \<Rightarrow> 'rp z_array \<Rightarrow> Address \<Rightarrow> nat list \<Rightarrow> nat option option" where
  "za_find hash a lineAddr [] = Some None"
| "za_find hash a lineAddr (w # ws) = do {
     pos \<leftarrow> za_pos hash a w lineAddr;
     lineId \<leftarrow> aget (za_lookupArray a) pos;
     addr \<leftarrow> aget (za_array a) lineId;
     if addr = lineAddr then Some (Some lineId) else za_find hash a lineAddr ws }"

definition za_lookup ::
  "'rp repl_vt \<Rightarrow> hash_fn \<Rightarrow> 'rp z_array \<Rightarrow> Address \<Rightarrow> mem_req option \<Rightarrow> bool \<Rightarrow>
    ('rp z_array \<times> nat option) option" where
  "za_lookup vt hash a lineAddr req updateReplacement = do {
     assert_that (lineAddr \<noteq> 0);
     found \<leftarrow> za_find hash a lineAddr [0..<za_ways a];
     (case found of
        None \<Rightarrow> Some (a, None)
      | Some i \<Rightarrow>
          if updateReplacement then do {
            r \<leftarrow> req;
            rp \<leftarrow> vt_update vt (za_rp a) i r;
            Some (a\<lparr>za_rp := rp\<rparr>, Some i) }
          else Some (a, Some i)) }"

text \<open>The seeds: one candidate per way, and whether all of them are valid.\<close>

fun za_seeds :: "hash_fn \<Rightarrow> 'rp z_array \<Rightarrow> Address \<Rightarrow> nat list \<Rightarrow> (zwalk_info list \<times> bool) option" where
  "za_seeds hash a lineAddr [] = Some ([], True)"
| "za_seeds hash a lineAddr (w # ws) = do {
     pos \<leftarrow> za_pos hash a w lineAddr;
     lineId \<leftarrow> aget (za_lookupArray a) pos;
     addr \<leftarrow> aget (za_array a) lineId;
     (cs, v) \<leftarrow> za_seeds hash a lineAddr ws;
     Some (\<lparr>zw_pos = pos, zw_lineId = lineId, zw_parentIdx = None\<rparr> # cs, addr \<noteq> 0 \<and> v) }"

text \<open>
  Expanding one fringe element. A candidate that revisits the fringe line is written to the array and
  overwritten by the next one, so it is not kept.
\<close>

fun za_expand ::
  "hash_fn \<Rightarrow> 'rp z_array \<Rightarrow> nat \<Rightarrow> nat \<Rightarrow> Address \<Rightarrow> nat list \<Rightarrow> (zwalk_info list \<times> bool) option" where
  "za_expand hash a fringeStart fringeId fringeAddr [] = Some ([], True)"
| "za_expand hash a fringeStart fringeId fringeAddr (w # ws) = do {
     pos \<leftarrow> za_pos hash a w fringeAddr;
     lineId \<leftarrow> aget (za_lookupArray a) pos;
     addr \<leftarrow> aget (za_array a) lineId;
     (cs, v) \<leftarrow> za_expand hash a fringeStart fringeId fringeAddr ws;
     Some (if lineId \<noteq> fringeId
           then \<lparr>zw_pos = pos, zw_lineId = lineId, zw_parentIdx = Some fringeStart\<rparr> # cs else cs,
           addr \<noteq> 0 \<and> v) }"

text \<open>The breadth-first expansion; \<open>fuel\<close> bounds the number of expanded elements.\<close>

fun za_bfs ::
  "nat \<Rightarrow> hash_fn \<Rightarrow> 'rp z_array \<Rightarrow> nat \<Rightarrow> zwalk_info list \<Rightarrow> bool \<Rightarrow> (zwalk_info list \<times> bool) option" where
  "za_bfs 0 hash a fringeStart candidates all_valid =
     (if length candidates < za_cands a \<and> all_valid then None else Some (candidates, all_valid))"
| "za_bfs (Suc fuel) hash a fringeStart candidates all_valid =
     (if length candidates < za_cands a \<and> all_valid then do {
        fringe \<leftarrow> aget candidates fringeStart;
        fringeAddr \<leftarrow> aget (za_array a) (zw_lineId fringe);
        assert_that (fringeAddr \<noteq> 0);
        (cs, v) \<leftarrow> za_expand hash a fringeStart (zw_lineId fringe) fringeAddr [0..<za_ways a];
        za_bfs fuel hash a (Suc fringeStart) (candidates @ cs) v }
      else Some (candidates, all_valid))"

text \<open>The least index of a candidate with the given line.\<close>

fun za_minIdx :: "nat \<Rightarrow> zwalk_info list \<Rightarrow> nat \<Rightarrow> nat option" where
  "za_minIdx i [] lineId = None"
| "za_minIdx i (c # cs) lineId = (if zw_lineId c = lineId then Some i else za_minIdx (Suc i) cs lineId)"

text \<open>The positions on the path to the root; parents precede their children.\<close>

fun za_path :: "nat \<Rightarrow> zwalk_info list \<Rightarrow> nat \<Rightarrow> nat list option" where
  "za_path 0 candidates idx = None"
| "za_path (Suc fuel) candidates idx = do {
     c \<leftarrow> aget candidates idx;
     (case zw_parentIdx c of
        None \<Rightarrow> Some [zw_pos c]
      | Some p \<Rightarrow> do { ps \<leftarrow> za_path fuel candidates p; Some (zw_pos c # ps) }) }"

text \<open>\<open>swapArray\<close> holds \<open>cands / ways + 2\<close> positions; a longer path would be written past its end.\<close>

definition za_preinsert ::
  "'rp repl_vt \<Rightarrow> hash_fn \<Rightarrow> cc_view \<Rightarrow> 'rp z_array \<Rightarrow> Address \<Rightarrow> mem_req \<Rightarrow>
    ('rp z_array \<times> nat \<times> Address) option" where
  "za_preinsert vt hash cc a lineAddr req = do {
     (seeds, v) \<leftarrow> za_seeds hash a lineAddr [0..<za_ways a];
     (candidates, all_valid) \<leftarrow> za_bfs (za_cands a) hash a 0 seeds v;
     assert_that (\<not> all_valid \<or> length candidates \<ge> za_cands a);
     let candidates = take (za_cands a) candidates;
     (rp, bestCandidate) \<leftarrow> vt_rankCands vt (za_rp a) cc req (ZCands candidates);
     assert_that (bestCandidate < za_numLines a);
     minIdx \<leftarrow> za_minIdx 0 candidates bestCandidate;
     swaps \<leftarrow> za_path (length candidates) candidates minIdx;
     assert_that (length swaps \<le> za_cands a div za_ways a + 2);
     wbLineAddr \<leftarrow> aget (za_array a) bestCandidate;
     Some (a\<lparr>za_rp := rp, za_lastCandIdx := minIdx, za_swapArray := swaps\<rparr>, bestCandidate, wbLineAddr) }"

text \<open>The chain of moves along the swap array.\<close>

fun za_swaps :: "nat list \<Rightarrow> nat list \<Rightarrow> nat \<Rightarrow> nat list option" where
  "za_swaps lk [] candidate = None"
| "za_swaps lk [p] candidate = aset lk p candidate"
| "za_swaps lk (p # q # ps) candidate = do {
     l \<leftarrow> aget lk q;
     lk \<leftarrow> aset lk p l;
     za_swaps lk (q # ps) candidate }"

definition za_postinsert ::
  "'rp repl_vt \<Rightarrow> 'rp z_array \<Rightarrow> Address \<Rightarrow> mem_req \<Rightarrow> nat \<Rightarrow> 'rp z_array option" where
  "za_postinsert vt a lineAddr req candidate = do {
     p0 \<leftarrow> aget (za_swapArray a) 0;
     l0 \<leftarrow> aget (za_lookupArray a) p0;
     assert_that (l0 = candidate);
     lk \<leftarrow> za_swaps (za_lookupArray a) (za_swapArray a) candidate;
     rp \<leftarrow> vt_replaced vt (za_rp a) candidate;
     arr \<leftarrow> aset (za_array a) candidate lineAddr;
     rp \<leftarrow> vt_update vt rp candidate req;
     Some (a\<lparr>za_lookupArray := lk, za_array := arr, za_rp := rp,
             za_statSwaps := za_statSwaps a + (of_nat (length (za_swapArray a)) - 1)\<rparr>) }"

text \<open>The compressing operations are stubs in this class.\<close>

definition za_lookupL2 :: "'rp z_array \<Rightarrow> Address \<Rightarrow> nat" where
  "za_lookupL2 a lineAddr = 0"

definition za_preinsertL2 :: "'rp z_array \<Rightarrow> Address \<Rightarrow> nat" where
  "za_preinsertL2 a lineAddr = 0"

definition za_postinsertL2 :: "'rp z_array \<Rightarrow> Address \<Rightarrow> nat \<Rightarrow> 'rp z_array" where
  "za_postinsertL2 a lineAddr candidate = a"

subsection \<open>The virtual interface\<close>

record 'a array_vt =
  av_lookup :: "'a \<Rightarrow> Address \<Rightarrow> mem_req option \<Rightarrow> bool \<Rightarrow> ('a \<times> nat option) option"
  av_preinsert :: "cc_view \<Rightarrow> 'a \<Rightarrow> Address \<Rightarrow> mem_req \<Rightarrow> ('a \<times> nat \<times> Address) option"
  av_postinsert :: "'a \<Rightarrow> cworld \<Rightarrow> Address \<Rightarrow> mem_req \<Rightarrow> nat \<Rightarrow> ('a \<times> cworld) option"
  av_lookupL2 :: "'a \<Rightarrow> Address \<Rightarrow> mem_req option \<Rightarrow> bool \<Rightarrow> ('a \<times> nat option) option"
  av_preinsertL2 :: "cc_view \<Rightarrow> 'a \<Rightarrow> Address \<Rightarrow> mem_req \<Rightarrow> ('a \<times> nat \<times> Address) option"
  av_postinsertL2 :: "'a \<Rightarrow> cworld \<Rightarrow> Address \<Rightarrow> mem_req \<Rightarrow> nat \<Rightarrow> ('a \<times> cworld) option"

definition SetAssocArray :: "(u64 \<Rightarrow> u8) \<Rightarrow> 'rp repl_vt \<Rightarrow> hash_fn \<Rightarrow> 'rp set_assoc array_vt" where
  "SetAssocArray mem vt hash =
     \<lparr>av_lookup = sa_lookup vt hash, av_preinsert = sa_preinsert vt hash,
      av_postinsert = sa_postinsert vt, av_lookupL2 = sa_lookupL2 vt hash,
      av_preinsertL2 = sa_preinsertL2 vt hash, av_postinsertL2 = sa_postinsertL2 mem vt\<rparr>"

text \<open>The stubs leave the address to write back unset; the value the caller reads is \<open>garbage\<close>.\<close>

definition ZArray :: "Address \<Rightarrow> 'rp repl_vt \<Rightarrow> hash_fn \<Rightarrow> 'rp z_array array_vt" where
  "ZArray garbage vt hash =
     \<lparr>av_lookup = za_lookup vt hash, av_preinsert = za_preinsert vt hash,
      av_postinsert = (\<lambda>a w addr req c. do { a \<leftarrow> za_postinsert vt a addr req c; Some (a, w) }),
      av_lookupL2 = (\<lambda>a addr req upd. Some (a, Some (za_lookupL2 a addr))),
      av_preinsertL2 = (\<lambda>cc a addr req. Some (a, za_preinsertL2 a addr, garbage)),
      av_postinsertL2 = (\<lambda>a w addr req c. Some (za_postinsertL2 a addr c, w))\<rparr>"

section \<open>The contract of a cache array\<close>

text \<open>
  What a cache relies on. \<open>where_is a\<close> abstracts an array to the finite map from the (nonzero) line
  addresses it holds to their line ids; \<open>pend a addr c\<close> holds between \<open>preinsert\<close> and \<open>postinsert\<close>.
\<close>

locale cache_array =
  fixes lookup :: "'a \<Rightarrow> Address \<Rightarrow> mem_req option \<Rightarrow> bool \<Rightarrow> ('a \<times> nat option) option"
    and preinsert :: "cc_view \<Rightarrow> 'a \<Rightarrow> Address \<Rightarrow> mem_req \<Rightarrow> ('a \<times> nat \<times> Address) option"
    and postinsert :: "'a \<Rightarrow> cworld \<Rightarrow> Address \<Rightarrow> mem_req \<Rightarrow> nat \<Rightarrow> ('a \<times> cworld) option"
    and ainv :: "'a \<Rightarrow> bool"
    and pend :: "'a \<Rightarrow> Address \<Rightarrow> nat \<Rightarrow> bool"
    and where_is :: "'a \<Rightarrow> Address \<Rightarrow> nat option"
    and asize :: "'a \<Rightarrow> nat"
  assumes where_zero: "where_is a 0 = None"
    and where_lt: "ainv a \<Longrightarrow> where_is a x = Some i \<Longrightarrow> i < asize a"
    and where_inj: "ainv a \<Longrightarrow> where_is a x = Some i \<Longrightarrow> where_is a y = Some i \<Longrightarrow> x = y"
    and lookup_quiet: "ainv a \<Longrightarrow> addr \<noteq> 0 \<Longrightarrow> lookup a addr None False = Some (a, where_is a addr)"
    and lookup_update: "ainv a \<Longrightarrow> addr \<noteq> 0 \<Longrightarrow> upd \<longrightarrow> IsGet (mr_type req) \<Longrightarrow>
      \<exists>a'. lookup a addr (Some req) upd = Some (a', where_is a addr) \<and> ainv a' \<and>
        where_is a' = where_is a \<and> asize a' = asize a"
    and preinsert_ok: "ainv a \<Longrightarrow> addr \<noteq> 0 \<Longrightarrow> where_is a addr = None \<Longrightarrow>
      \<exists>a' c wb. preinsert cc a addr req = Some (a', c, wb) \<and> pend a' addr c \<and> c < asize a \<and>
        asize a' = asize a \<and> where_is a' = where_is a \<and>
        (\<forall>x. where_is a x = Some c \<longleftrightarrow> x = wb \<and> wb \<noteq> 0)"
    and pend_lookup: "pend a addr c \<Longrightarrow> x \<noteq> 0 \<Longrightarrow> lookup a x None False = Some (a, where_is a x)"
    and pend_where: "pend a addr c \<Longrightarrow> where_is a x = Some i \<Longrightarrow> where_is a y = Some i \<Longrightarrow> x = y"
    and postinsert_ok: "pend a addr c \<Longrightarrow> addr \<noteq> 0 \<Longrightarrow> IsGet (mr_type req) \<Longrightarrow> c < numLines \<or> \<not> cw_l1 w \<Longrightarrow>
      \<exists>a' w'. postinsert a w addr req c = Some (a', w') \<and> ainv a' \<and> asize a' = asize a \<and>
        where_is a' = (\<lambda>x. if x = addr then Some c else if where_is a x = Some c then None else where_is a x)"
begin

text \<open>A complete miss: lookup fails, the victim is chosen, and after the insertion exactly it is gone.\<close>

lemma insert_after_miss:
  assumes "ainv a" "addr \<noteq> 0" "where_is a addr = None" "IsGet (mr_type req)" "asize a \<le> numLines \<or> \<not> cw_l1 w"
  shows "\<exists>a1 c wb a2 w'. preinsert cc a addr req = Some (a1, c, wb) \<and> postinsert a1 w addr req c = Some (a2, w') \<and>
    ainv a2 \<and> asize a2 = asize a \<and> c < asize a \<and>
    where_is a2 = (\<lambda>x. if x = addr then Some c else if x = wb then None else where_is a x)"
proof -
  obtain a1 c wb where 1: "preinsert cc a addr req = Some (a1, c, wb)" "pend a1 addr c" "c < asize a"
    "asize a1 = asize a" "where_is a1 = where_is a" "\<forall>x. where_is a x = Some c \<longleftrightarrow> x = wb \<and> wb \<noteq> 0"
    using preinsert_ok [OF assms(1-3)] by blast
  have "c < numLines \<or> \<not> cw_l1 w" using assms(5) 1(3) by auto
  then obtain a2 w' where 2: "postinsert a1 w addr req c = Some (a2, w')" "ainv a2" "asize a2 = asize a1"
    "where_is a2 = (\<lambda>x. if x = addr then Some c else if where_is a1 x = Some c then None else where_is a1 x)"
    using postinsert_ok [OF 1(2) assms(2,4)] by blast
  have "where_is a2 = (\<lambda>x. if x = addr then Some c else if x = wb then None else where_is a x)"
    using 1(5,6) 2(4) where_zero [of a] by (auto simp: fun_eq_iff)
  with 1 2 show ?thesis by auto
qed

end

section \<open>The set-associative array meets the contract\<close>

definition sa_wf :: "'rp set_assoc \<Rightarrow> bool" where
  "sa_wf a \<longleftrightarrow> length (sa_array a) = sa_numLines a \<and> sa_assoc a \<noteq> 0 \<and>
     sa_numSets a * sa_assoc a \<le> sa_numLines a \<and> sa_numLines a < 2 ^ 32 \<and>
     isPow2 (of_nat (sa_numSets a) :: u32) \<and> sa_setMask a = of_nat (sa_numSets a) - 1"

text \<open>The first line of an address's set, and the line that holds an address.\<close>

definition sa_start :: "hash_fn \<Rightarrow> 'rp set_assoc \<Rightarrow> Address \<Rightarrow> nat" where
  "sa_start hash a x =
     (case hash 0 x of Some h \<Rightarrow> unat (ucast (h AND ucast (sa_setMask a)) :: u32) * sa_assoc a | None \<Rightarrow> 0)"

lemma sa_start_upd [simp]:
  "sa_start hash (a\<lparr>sa_rp := rp\<rparr>) = sa_start hash a" "sa_start hash (a\<lparr>sa_array := arr\<rparr>) = sa_start hash a"
  by (simp_all add: sa_start_def fun_eq_iff split: option.split)

definition sa_where :: "hash_fn \<Rightarrow> 'rp set_assoc \<Rightarrow> Address \<Rightarrow> nat option" where
  "sa_where hash a x =
     (if x = 0 then None
      else List.find (\<lambda>i. sa_array a ! i = x) [sa_start hash a x..<sa_start hash a x + sa_assoc a])"

text \<open>Every address sits in its set, and only once.\<close>

definition sa_placed :: "hash_fn \<Rightarrow> 'rp set_assoc \<Rightarrow> bool" where
  "sa_placed hash a \<longleftrightarrow> (\<forall>i < length (sa_array a). sa_array a ! i \<noteq> 0 \<longrightarrow>
     sa_start hash a (sa_array a ! i) \<le> i \<and> i < sa_start hash a (sa_array a ! i) + sa_assoc a)"

definition sa_unique :: "'rp set_assoc \<Rightarrow> bool" where
  "sa_unique a \<longleftrightarrow> (\<forall>i < length (sa_array a). \<forall>j < length (sa_array a).
     sa_array a ! i \<noteq> 0 \<longrightarrow> sa_array a ! i = sa_array a ! j \<longrightarrow> i = j)"

lemma ucast_and_32: "(ucast (h AND ucast m) :: u32) = ucast h AND m" for h :: u64 and m :: u32
  by (auto simp: bit_eq_iff bit_and_iff bit_ucast_iff)

lemma setMask_bound:
  fixes h :: u64
  assumes "sa_wf a"
  shows "unat (ucast (h AND ucast (sa_setMask a)) :: u32) < sa_numSets a"
proof -
  have "sa_numSets a * 1 \<le> sa_numSets a * sa_assoc a"
    using assms by (intro mult_le_mono2) (simp add: sa_wf_def)
  also have "\<dots> \<le> sa_numLines a" using assms by (simp add: sa_wf_def)
  also have "\<dots> < 2 ^ 32" using assms by (simp add: sa_wf_def)
  finally have lt: "sa_numSets a < 2 ^ 32" by simp
  have p: "isPow2 (of_nat (sa_numSets a) :: u32)" and m: "sa_setMask a = of_nat (sa_numSets a) - 1"
    using assms unfolding sa_wf_def by blast+
  have "unat (ucast (h AND ucast (sa_setMask a)) :: u32) =
      unat (ucast h :: u32) mod unat (of_nat (sa_numSets a) :: u32)"
    unfolding ucast_and_32 m by (rule isPow2_mask_mod [OF p])
  moreover have "unat (of_nat (sa_numSets a) :: u32) = sa_numSets a" using lt by (simp add: unat_of_nat)
  moreover have "sa_numSets a \<noteq> 0" using p by (intro notI) (simp add: isPow2_def)
  ultimately show ?thesis by simp
qed

lemma sa_start_bound:
  assumes "sa_wf a" "hash 0 x = Some h"
  shows "sa_start hash a x + sa_assoc a \<le> length (sa_array a)"
proof -
  let ?s = "unat (ucast (h AND ucast (sa_setMask a)) :: u32)"
  have "Suc ?s * sa_assoc a \<le> sa_numSets a * sa_assoc a"
    using setMask_bound [OF assms(1), of h] by (simp add: mult_le_mono1 Suc_le_eq del: mult_Suc)
  also have "\<dots> \<le> sa_numLines a" using assms(1) by (simp add: sa_wf_def)
  finally show ?thesis using assms by (simp add: sa_start_def sa_wf_def)
qed

lemma sa_find_eq:
  assumes "i + n \<le> length arr"
  shows "sa_find arr x i n = Some (List.find (\<lambda>i. arr ! i = x) [i..<i + n])"
  using assms
proof (induction n arbitrary: i)
  case (Suc n)
  then show ?case by (simp add: upt_conv_Cons del: upt_Suc)
qed simp

lemma find_unique:
  assumes "i \<in> set xs" "P i" "\<And>j. j \<in> set xs \<Longrightarrow> P j \<Longrightarrow> j = i"
  shows "List.find P xs = Some i"
proof (cases "List.find P xs")
  case None
  then show ?thesis using assms(1,2) by (auto simp: find_None_iff)
next
  case (Some j)
  then have "j \<in> set xs" "P j" by (auto simp: find_Some_iff)
  with assms(3) Some show ?thesis by blast
qed

lemma sa_uniqueD:
  "sa_unique a \<Longrightarrow> i < length (sa_array a) \<Longrightarrow> j < length (sa_array a) \<Longrightarrow> sa_array a ! i \<noteq> 0 \<Longrightarrow>
    sa_array a ! i = sa_array a ! j \<Longrightarrow> i = j"
  unfolding sa_unique_def by metis

lemma sa_placedD:
  "sa_placed hash a \<Longrightarrow> i < length (sa_array a) \<Longrightarrow> sa_array a ! i \<noteq> 0 \<Longrightarrow>
    sa_start hash a (sa_array a ! i) \<le> i \<and> i < sa_start hash a (sa_array a ! i) + sa_assoc a"
  by (simp add: sa_placed_def)

lemma sa_where_iff:
  assumes "sa_wf a" "sa_placed hash a" "sa_unique a" "\<And>x. \<exists>h. hash 0 x = Some h"
  shows "sa_where hash a x = Some i \<longleftrightarrow> x \<noteq> 0 \<and> i < length (sa_array a) \<and> sa_array a ! i = x"
proof (cases "x = 0")
  case False
  obtain h where h: "hash 0 x = Some h" using assms(4) by blast
  note b = sa_start_bound [where hash = hash, OF assms(1) h]
  let ?r = "[sa_start hash a x..<sa_start hash a x + sa_assoc a]"
  have "List.find (\<lambda>i. sa_array a ! i = x) ?r = Some i" if "i < length (sa_array a)" "sa_array a ! i = x"
  proof (rule find_unique)
    show "i \<in> set ?r" using assms(2) that False by (auto simp: sa_placed_def)
    show "j = i" if "j \<in> set ?r" "sa_array a ! j = x" for j
    proof -
      have "j < length (sa_array a)" using that(1) b by simp
      then show ?thesis
        by (rule sa_uniqueD [OF assms(3)]) (use that(2) \<open>i < _\<close> \<open>sa_array a ! i = x\<close> False in simp_all)
    qed
  qed (use that in simp)
  moreover have "i < length (sa_array a) \<and> sa_array a ! i = x"
    if "List.find (\<lambda>i. sa_array a ! i = x) ?r = Some i"
    using that b by (auto simp: find_Some_iff)
  ultimately show ?thesis using False by (auto simp: sa_where_def)
qed (simp add: sa_where_def)

lemma sa_layout_upd [simp]:
  "sa_wf (a\<lparr>sa_rp := rp\<rparr>) = sa_wf a" "sa_placed hash (a\<lparr>sa_rp := rp\<rparr>) = sa_placed hash a"
  "sa_unique (a\<lparr>sa_rp := rp\<rparr>) = sa_unique a" "sa_where hash (a\<lparr>sa_rp := rp\<rparr>) = sa_where hash a"
  by (simp_all add: sa_wf_def sa_placed_def sa_unique_def sa_where_def fun_eq_iff)

text \<open>Writing an address that is absent into a line of its set keeps the layout.\<close>

lemma sa_insert_layout:
  fixes a :: "'rp set_assoc" and rp :: 'rp
  assumes "sa_wf a" "sa_placed hash a" "sa_unique a" "hash 0 x = Some h"
    and absent: "\<And>i. i < length (sa_array a) \<Longrightarrow> sa_array a ! i \<noteq> x"
    and c: "c \<in> {sa_start hash a x..<sa_start hash a x + sa_assoc a}"
    and a': "a' = a\<lparr>sa_array := (sa_array a)[c := x], sa_rp := rp\<rparr>"
  shows "sa_wf a'" "sa_placed hash a'" "sa_unique a'" "c < length (sa_array a)"
proof -
  show cl: "c < length (sa_array a)" using sa_start_bound [where hash = hash, OF assms(1,4)] c by simp
  have st: "sa_start hash a' y = sa_start hash a y" for y by (simp add: a')
  show "sa_wf a'" using assms(1) by (simp add: a' sa_wf_def)
  have arr: "sa_array a' = (sa_array a)[c := x]" "sa_assoc a' = sa_assoc a" by (simp_all add: a')
  show "sa_placed hash a'"
    unfolding sa_placed_def st arr length_list_update
  proof (intro allI impI)
    fix i assume i: "i < length (sa_array a)" "(sa_array a)[c := x] ! i \<noteq> 0"
    show "sa_start hash a ((sa_array a)[c := x] ! i) \<le> i \<and>
        i < sa_start hash a ((sa_array a)[c := x] ! i) + sa_assoc a"
      using c cl sa_placedD [OF assms(2) i(1)] i by (cases "i = c") auto
  qed
  show "sa_unique a'"
    unfolding sa_unique_def arr length_list_update
  proof (intro allI impI)
    fix i j assume "i < length (sa_array a)" "j < length (sa_array a)" "(sa_array a)[c := x] ! i \<noteq> 0"
      "(sa_array a)[c := x] ! i = (sa_array a)[c := x] ! j"
    then show "i = j"
      using cl absent sa_uniqueD [OF assms(3), of i j] by (cases "i = c"; cases "j = c") auto
  qed
qed

text \<open>The array under a policy that meets its contract and a hash that is total.\<close>

definition sa_inv ::
  "hash_fn \<Rightarrow> ('rp \<Rightarrow> bool) \<Rightarrow> ('rp \<Rightarrow> nat) \<Rightarrow> ('rp \<Rightarrow> nat list \<Rightarrow> bool) \<Rightarrow> 'rp set_assoc \<Rightarrow> bool" where
  "sa_inv hash inv_rp lns fits a \<longleftrightarrow> sa_wf a \<and> sa_placed hash a \<and> sa_unique a \<and> inv_rp (sa_rp a) \<and>
     lns (sa_rp a) = sa_numLines a \<and> (\<forall>f. fits (sa_rp a) [f..<f + sa_assoc a])"

definition sa_pend :: "hash_fn \<Rightarrow> 'rp set_assoc \<Rightarrow> Address \<Rightarrow> nat \<Rightarrow> bool" where
  "sa_pend hash a x c \<longleftrightarrow> c \<in> {sa_start hash a x..<sa_start hash a x + sa_assoc a} \<and>
     (\<forall>i < length (sa_array a). sa_array a ! i \<noteq> x)"

lemma compare_bind_total:
  assumes "c < numLines" "\<And>c' l'. \<exists>w' l''. f (c', l') = Some (w', l'')"
  shows "\<exists>w' l'. (compare l c cm \<bind> f) = Some (w', l')"
  using compare_total [OF assms(1), of l cm] assms(2) by auto

lemma evict_paired_total:
  assumes "c < numLines"
  shows "\<exists>w' l'. evict_paired l c w = Some (w', l')"
proof -
  have "\<exists>w' l'. dereference l c w = Some (w', l')"
    unfolding dereference_def Let_def by (rule compare_bind_total [OF assms]) simp
  then show ?thesis
    by (cases "keep_pair l c w") (simp add: evict_paired_def Let_def)
qed

locale sa_over_policy = repl_policy +
  fixes hash :: hash_fn
  assumes hash_total: "\<exists>h. hash 0 x = Some h"
begin

abbreviation inv_a where "inv_a \<equiv> sa_inv hash inv_rp lines fits"

lemma where_iff: "inv_a a \<Longrightarrow> sa_where hash a x = Some i \<longleftrightarrow> x \<noteq> 0 \<and> i < length (sa_array a) \<and> sa_array a ! i = x"
  using sa_where_iff hash_total by (metis sa_inv_def)

lemma first_eq: "sa_first hash a x = Some (sa_start hash a x)"
  using hash_total [of x] by (auto simp: sa_first_def sa_start_def)

lemma lookup_eq:
  assumes "inv_a a" "x \<noteq> 0"
  shows "sa_find (sa_array a) x (sa_start hash a x) (sa_assoc a) = Some (sa_where hash a x)"
proof -
  obtain h where "hash 0 x = Some h" using hash_total by blast
  with sa_start_bound [of a hash x h] assms show ?thesis
    by (simp add: sa_find_eq sa_where_def sa_inv_def)
qed

lemma sa_lookup_quiet: "inv_a a \<Longrightarrow> x \<noteq> 0 \<Longrightarrow> sa_lookup vt hash a x None False = Some (a, sa_where hash a x)"
  by (simp add: sa_lookup_def first_eq lookup_eq split: option.split)

lemma sa_lookup_update:
  assumes "inv_a a" "x \<noteq> 0" "upd \<longrightarrow> IsGet (mr_type req)"
  shows "\<exists>rp. sa_lookup vt hash a x (Some req) upd = Some (a\<lparr>sa_rp := rp\<rparr>, sa_where hash a x) \<and>
    inv_a (a\<lparr>sa_rp := rp\<rparr>) \<and> (ready (sa_rp a) \<longrightarrow> ready rp)"
proof (cases "sa_where hash a x = None \<or> \<not> upd")
  case True
  then show ?thesis using assms
    by (intro exI [of _ "sa_rp a"]) (auto simp: sa_lookup_def first_eq lookup_eq split: option.splits)
next
  case False
  then obtain i where i: "sa_where hash a x = Some i" by auto
  then have "i < lines (sa_rp a)" using assms(1) where_iff by (auto simp: sa_inv_def sa_wf_def)
  then obtain rp where rp: "vt_update vt (sa_rp a) i req = Some rp" "inv_rp rp"
    "lines rp = lines (sa_rp a)" "ready (sa_rp a) \<longrightarrow> ready rp" "fits rp = fits (sa_rp a)"
    using update_ok [of "sa_rp a" i req] assms False by (auto simp: sa_inv_def)
  have "inv_a (a\<lparr>sa_rp := rp\<rparr>)"
    using assms(1) rp by (simp add: sa_inv_def)
  with rp False i assms(1,2) show ?thesis
    by (intro exI [of _ rp]) (simp add: sa_lookup_def first_eq lookup_eq)
qed

lemma absent_iff: "inv_a a \<Longrightarrow> x \<noteq> 0 \<Longrightarrow> sa_where hash a x = None \<longleftrightarrow> (\<forall>i < length (sa_array a). sa_array a ! i \<noteq> x)"
  using where_iff [of a x] by (metis not_None_eq)

lemma sa_preinsert_ok:
  assumes "inv_a a" "ready (sa_rp a)" "x \<noteq> 0" "sa_where hash a x = None"
  shows "\<exists>rp c. sa_preinsert vt hash cc a x req = Some (a\<lparr>sa_rp := rp\<rparr>, c, sa_array a ! c) \<and>
    inv_a (a\<lparr>sa_rp := rp\<rparr>) \<and> sa_pend hash (a\<lparr>sa_rp := rp\<rparr>) x c \<and> c < sa_numLines a"
proof -
  obtain h where h: "hash 0 x = Some h" using hash_total by blast
  have wf: "sa_wf a" using assms(1) by (simp add: sa_inv_def)
  note b = sa_start_bound [where hash = hash, OF wf h]
  let ?cs = "[sa_start hash a x..<sa_start hash a x + sa_assoc a]"
  have pre: "inv_rp (sa_rp a)" "fits (sa_rp a) ?cs" "?cs \<noteq> []" "\<forall>c \<in> set ?cs. c < lines (sa_rp a)"
    using assms(1) b by (auto simp: sa_inv_def sa_wf_def)
  obtain rp c where rp: "vt_rankCands vt (sa_rp a) cc req ?cs = Some (rp, c)" "c \<in> set ?cs" "inv_rp rp"
    "lines rp = lines (sa_rp a)" "fits rp = fits (sa_rp a)"
    using rank_ok [OF pre(1) assms(2) pre(2-4)] by blast
  have c: "c < length (sa_array a)" using rp(2) b by simp
  then have eq: "sa_preinsert vt hash cc a x req = Some (a\<lparr>sa_rp := rp\<rparr>, c, sa_array a ! c)"
    using rp(1) by (simp add: sa_preinsert_def first_eq SetAssocCands_def)
  moreover have "inv_a (a\<lparr>sa_rp := rp\<rparr>)" using assms(1) rp by (simp add: sa_inv_def)
  moreover have "sa_pend hash (a\<lparr>sa_rp := rp\<rparr>) x c"
    using rp(2) absent_iff [OF assms(1,3)] assms(4) by (simp add: sa_pend_def)
  ultimately show ?thesis using c wf by (auto simp: sa_wf_def)
qed

lemma sa_postinsert_ok:
  assumes "inv_a a" "sa_pend hash a x c" "x \<noteq> 0" "IsGet (mr_type req)" "c < numLines \<or> \<not> cw_l1 w"
  shows "\<exists>rp w'. sa_postinsert vt a w x req c = Some (a\<lparr>sa_array := (sa_array a)[c := x], sa_rp := rp\<rparr>, w') \<and>
    inv_a (a\<lparr>sa_array := (sa_array a)[c := x], sa_rp := rp\<rparr>) \<and> ready rp"
proof -
  obtain h where h: "hash 0 x = Some h" using hash_total by blast
  have lay: "sa_wf a" "sa_placed hash a" "sa_unique a" using assms(1) by (simp_all add: sa_inv_def)
  note ins = sa_insert_layout [where hash = hash, OF lay h _ _ refl, of c]
  have p: "\<And>i. i < length (sa_array a) \<Longrightarrow> sa_array a ! i \<noteq> x"
    "c \<in> {sa_start hash a x..<sa_start hash a x + sa_assoc a}"
    using assms(2) by (auto simp: sa_pend_def)
  have c: "c < length (sa_array a)" by (rule ins(4) [OF p])
  then have cl: "c < lines (sa_rp a)" using assms(1) by (simp add: sa_inv_def sa_wf_def)
  obtain rp1 where 1: "vt_replaced vt (sa_rp a) c = Some rp1" "inv_rp rp1" "lines rp1 = lines (sa_rp a)"
    "ready rp1" "fits rp1 = fits (sa_rp a)"
    using replaced_ok [of "sa_rp a" c] assms(1) cl by (auto simp: sa_inv_def)
  obtain rp where 2: "vt_update vt rp1 c req = Some rp" "inv_rp rp" "lines rp = lines rp1"
    "ready rp" "fits rp = fits rp1"
    using update_ok [OF 1(2) _ assms(4), of c] 1(3,4) cl by auto
  have "\<exists>w'. (if cw_l1 w then do {
             assert_that (c < numLines);
             if index_ref (cw_comp w) c \<noteq> 0
             then do { (w, line) \<leftarrow> evict_paired zero_line c w; Some w }
             else Some w }
           else Some w) = Some w'"
    using evict_paired_total [of c zero_line w] assms(5) by auto
  then obtain w' where "sa_postinsert vt a w x req c =
      Some (a\<lparr>sa_array := (sa_array a)[c := x], sa_rp := rp\<rparr>, w')"
    using 1(1) 2(1) c by (auto simp: sa_postinsert_def)
  moreover have "inv_a (a\<lparr>sa_array := (sa_array a)[c := x], sa_rp := rp\<rparr>)"
    using ins(1-3) [OF p] 1 2 assms(1) by (simp add: sa_inv_def)
  ultimately show ?thesis using 2(4) by blast
qed

lemma sa_where_insert:
  assumes "inv_a a" "sa_pend hash a x c" "x \<noteq> 0" "inv_a a'" "sa_array a' = (sa_array a)[c := x]"
  shows "sa_where hash a' y = (if y = x then Some c else if sa_where hash a y = Some c then None else sa_where hash a y)"
proof -
  obtain h where h: "hash 0 x = Some h" using hash_total by blast
  have c: "c < length (sa_array a)"
    using sa_start_bound [where hash = hash, OF _ h, of a] assms(1,2) by (auto simp: sa_inv_def sa_pend_def)
  have len: "length (sa_array a') = length (sa_array a)" using assms(5) by simp
  have iff: "sa_where hash a' y = Some i \<longleftrightarrow> (if i = c then y = x else sa_where hash a y = Some i)" for i
    using where_iff [OF assms(4), of y i] where_iff [OF assms(1), of y i] assms(3,5) c len
    by (auto simp: nth_list_update)
  show ?thesis
  proof (cases "y = x")
    case False
    then show ?thesis using iff by (intro option_eqI) (auto split: if_splits)
  qed (use iff [of c] in simp)
qed

sublocale arr: cache_array "sa_lookup vt hash" "sa_preinsert vt hash" "sa_postinsert vt"
  "\<lambda>a. inv_a a \<and> ready (sa_rp a)" "\<lambda>a x c. inv_a a \<and> sa_pend hash a x c" "sa_where hash" sa_numLines
proof (unfold_locales, goal_cases)
  case (1 a)
  then show ?case by (simp add: sa_where_def)
next
  case (2 a x i)
  then show ?case using where_iff by (simp add: sa_inv_def sa_wf_def)
next
  case (3 a x i y)
  then show ?case using where_iff [of a x i] where_iff [of a y i] by simp
next
  case (4 a addr)
  then show ?case using sa_lookup_quiet by blast
next
  case (5 a addr upd req)
  then show ?case using sa_lookup_update [of a addr upd req] by fastforce
next
  case (6 a addr cc req)
  then obtain rp c where "sa_preinsert vt hash cc a addr req = Some (a\<lparr>sa_rp := rp\<rparr>, c, sa_array a ! c)"
    "inv_a (a\<lparr>sa_rp := rp\<rparr>)" "sa_pend hash (a\<lparr>sa_rp := rp\<rparr>) addr c" "c < sa_numLines a"
    using sa_preinsert_ok [of a addr cc req] by blast
  moreover have "sa_where hash a x = Some c \<longleftrightarrow> x = sa_array a ! c \<and> sa_array a ! c \<noteq> 0" for x
    using where_iff 6(1) calculation(4) by (auto simp: sa_inv_def sa_wf_def)
  ultimately show ?case by (intro exI [of _ "a\<lparr>sa_rp := rp\<rparr>"] exI [of _ c] exI [of _ "sa_array a ! c"]) simp
next
  case (7 a addr c x)
  then show ?case using sa_lookup_quiet by blast
next
  case (8 a addr c x i y)
  then show ?case using where_iff [of a x i] where_iff [of a y i] by simp
next
  case (9 a addr c req w)
  then obtain rp w' where r: "sa_postinsert vt a w addr req c =
      Some (a\<lparr>sa_array := (sa_array a)[c := addr], sa_rp := rp\<rparr>, w')"
    and i: "inv_a (a\<lparr>sa_array := (sa_array a)[c := addr], sa_rp := rp\<rparr>)" and rd: "ready rp"
    using sa_postinsert_ok [of a addr c req w] by blast
  let ?a' = "a\<lparr>sa_array := (sa_array a)[c := addr], sa_rp := rp\<rparr>"
  have "sa_where hash ?a' = (\<lambda>x. if x = addr then Some c else if sa_where hash a x = Some c then None else sa_where hash a x)"
    by (rule ext, rule sa_where_insert) (use 9 i in simp_all)
  moreover have "inv_a ?a' \<and> ready (sa_rp ?a')" "sa_numLines ?a' = sa_numLines a" using i rd by simp_all
  ultimately show ?case using r by blast
qed

end

interpretation lru_sa: sa_over_policy "LRUReplPolicy sa" "\<lambda>_. True" "\<lambda>_. True"
  "\<lambda>p. length (lru_array p)" "\<lambda>_ _. True" "\<lambda>i v. Some (id_hash i v)" for sa
  by unfold_locales simp

interpretation nru_sa: sa_over_policy NRUReplPolicy nru_inv nru_ready nru_numLines nru_fits
  "\<lambda>i v. Some (id_hash i v)"
  by unfold_locales simp

abbreviation id_fn :: hash_fn where "id_fn \<equiv> \<lambda>i v. Some (id_hash i v)"

abbreviation salru_inv :: "lru set_assoc \<Rightarrow> bool" where
  "salru_inv \<equiv> sa_inv id_fn (\<lambda>_. True) (\<lambda>p. length (lru_array p)) (\<lambda>_ _. True)"

lemma SetAssocArray_new_inv:
  assumes "SetAssocArray_new n assoc (lru_new n) = Some a" "n < 2 ^ 32"
  shows "salru_inv a" "sa_where id_fn a x = None" "sa_numLines a = n"
proof -
  have a: "sa_array a = replicate n 0" "sa_numLines a = n" "sa_rp a = lru_new n"
    using assms(1) by (auto simp: SetAssocArray_new_def bind_eq_Some_conv Let_def)
  have "sa_wf a" using assms by (auto simp: SetAssocArray_new_def sa_wf_def bind_eq_Some_conv Let_def)
  then show i: "salru_inv a"
    using a by (auto simp: sa_inv_def sa_placed_def sa_unique_def lru_new_def)
  show "sa_where id_fn a x = None"
  proof (rule ccontr)
    assume "sa_where id_fn a x \<noteq> None"
    then obtain j where "sa_where id_fn a x = Some j" by auto
    then show False using lru_sa.where_iff [OF i, of x j] a(1) by auto
  qed
  show "sa_numLines a = n" by (rule a(2))
qed

section \<open>Properties\<close>

definition cw_fresh :: cworld where
  "cw_fresh = \<lparr>cw_comp = fresh_comp,
     cw_tot = \<lparr>orig_size = 0, xor_size = 0, xor_size_perf = 0, orig_size_bdi = 0, xor_size_bdi = 0,
       xor_size_bdi_perf = 0, flip_orig_size = 0, flip_xor_size = 0, flip_xor_size_perf = 0,
       flip_orig_size_bdi = 0, flip_xor_size_bdi = 0, flip_xor_size_bdi_perf = 0\<rparr>, cw_l1 = False\<rparr>"

text \<open>
  C6. A miss in the set-associative array (LRU, identity hashing): choosing a victim and inserting never
  fails, the victim is in the set of the new address, the invariant holds afterwards, and the map from
  addresses to lines changes by exactly the victim and the new address. With the compressor active (a
  dirty writeback just happened) this needs the array to have at most 32768 lines.
\<close>

theorem set_assoc_insert_exact:
  assumes "salru_inv a" "x \<noteq> 0" "sa_where id_fn a x = None" "IsGet (mr_type req)"
    "sa_numLines a \<le> numLines \<or> \<not> cw_l1 w"
  shows "\<exists>a1 c wb a2 w'. sa_preinsert (LRUReplPolicy sa) id_fn cc a x req = Some (a1, c, wb) \<and>
    sa_postinsert (LRUReplPolicy sa) a1 w x req c = Some (a2, w') \<and> salru_inv a2 \<and> c < sa_numLines a \<and>
    (\<forall>y. sa_where id_fn a2 y = (if y = x then Some c else if y = wb then None else sa_where id_fn a y))"
  using lru_sa.arr.insert_after_miss [of a x req w sa cc] assms by auto

theorem set_assoc_insert_exact_witness:
  "\<exists>a a1 c wb a2 w'. SetAssocArray_new 8 2 (lru_new 8) = Some a \<and>
    sa_preinsert (LRUReplPolicy True) id_fn all_valid_cc a 5 any_req = Some (a1, c, wb) \<and>
    sa_postinsert (LRUReplPolicy True) a1 cw_fresh 5 any_req c = Some (a2, w') \<and> salru_inv a2 \<and>
    sa_where id_fn a2 5 = Some c"
proof -
  obtain a where a: "SetAssocArray_new 8 2 (lru_new 8) = Some a" by (simp add: SetAssocArray_new_def isPow2_def)
  have i: "salru_inv a" "sa_where id_fn a 5 = None" using SetAssocArray_new_inv [OF a] by auto
  have "IsGet (mr_type any_req)" "\<not> cw_l1 cw_fresh" by (simp_all add: any_req_def IsGet_def cw_fresh_def)
  with set_assoc_insert_exact [OF i(1) _ i(2), of any_req cw_fresh True all_valid_cc] a show ?thesis by fastforce
qed

text \<open>
  Looking an address up in the set-associative array returns the one line that holds it, wherever it
  is in the array, and reports a miss exactly when no line holds it; updating the replacement state on
  the way keeps the invariant and every line's place.
\<close>

theorem set_assoc_lookup_exact:
  assumes "salru_inv a" "x \<noteq> 0" "upd \<longrightarrow> IsGet (mr_type req)"
  shows "\<exists>a' r. sa_lookup (LRUReplPolicy sa) id_fn a x (Some req) upd = Some (a', r) \<and> salru_inv a' \<and>
    sa_array a' = sa_array a \<and>
    (case r of Some i \<Rightarrow> i < sa_numLines a \<and> sa_array a ! i = x \<and> (\<forall>j < sa_numLines a. sa_array a ! j = x \<longrightarrow> j = i)
     | None \<Rightarrow> \<forall>j < sa_numLines a. sa_array a ! j \<noteq> x)"
proof -
  obtain rp where rp: "sa_lookup (LRUReplPolicy sa) id_fn a x (Some req) upd = Some (a\<lparr>sa_rp := rp\<rparr>, sa_where id_fn a x)"
    "salru_inv (a\<lparr>sa_rp := rp\<rparr>)"
    using lru_sa.sa_lookup_update [OF assms] by blast
  have len: "length (sa_array a) = sa_numLines a" "sa_unique a" using assms(1) by (simp_all add: sa_inv_def sa_wf_def)
  have "case sa_where id_fn a x of
      Some i \<Rightarrow> i < sa_numLines a \<and> sa_array a ! i = x \<and> (\<forall>j < sa_numLines a. sa_array a ! j = x \<longrightarrow> j = i)
    | None \<Rightarrow> \<forall>j < sa_numLines a. sa_array a ! j \<noteq> x"
  proof (cases "sa_where id_fn a x")
    case None
    then have "\<not> (j < length (sa_array a) \<and> sa_array a ! j = x)" for j
      using lru_sa.where_iff [OF assms(1), of x j] assms(2) by simp
    then show ?thesis using None len(1) by simp
  next
    case (Some i)
    then have "i < sa_numLines a" "sa_array a ! i = x" using lru_sa.where_iff [OF assms(1), of x i] len(1) by simp_all
    moreover from this have "j = i" if "j < sa_numLines a" "sa_array a ! j = x" for j
      using sa_uniqueD [OF len(2), of j i] that assms(2) len(1) by simp
    ultimately show ?thesis unfolding Some option.case by blast
  qed
  moreover have "sa_array (a\<lparr>sa_rp := rp\<rparr>) = sa_array a" by simp
  ultimately show ?thesis using rp by blast
qed

theorem set_assoc_lookup_exact_witness:
  "\<exists>a a'. SetAssocArray_new 8 2 (lru_new 8) = Some a \<and>
    sa_lookup (LRUReplPolicy True) id_fn a 5 (Some any_req) True = Some (a', None)"
proof -
  obtain a where a: "SetAssocArray_new 8 2 (lru_new 8) = Some a" by (simp add: SetAssocArray_new_def isPow2_def)
  have i: "salru_inv a" using SetAssocArray_new_inv [OF a] by auto
  have arr: "sa_array a = replicate 8 0" "sa_numLines a = 8"
    using a by (auto simp: SetAssocArray_new_def bind_eq_Some_conv Let_def)
  obtain a' r where r: "sa_lookup (LRUReplPolicy True) id_fn a 5 (Some any_req) True = Some (a', r)"
    "case r of Some i \<Rightarrow> i < sa_numLines a \<and> sa_array a ! i = 5 \<and> (\<forall>j < sa_numLines a. sa_array a ! j = 5 \<longrightarrow> j = i)
     | None \<Rightarrow> \<forall>j < sa_numLines a. sa_array a ! j \<noteq> 5"
    using set_assoc_lookup_exact [OF i, of 5 True any_req True] by (auto simp: any_req_def IsGet_def)
  then have "r = None" using arr by (cases r) auto
  with a r show ?thesis by blast
qed

end
