(* ===== verification/ZCacheArray.thy ===== *)
theory ZCacheArray
  imports CacheArrays
begin

text \<open>
  Correctness of the zcache array (\<open>ZArray\<close> of \<^verbatim>\<open>src/cache_arrays.cpp\<close>, defined in \<open>CacheArrays\<close>).

  The invariant: the lookup array is a permutation of the line ids, every valid line sits at one of the
  positions its address hashes to, and no address is held twice. The candidate walk stays inside its
  arrays and ends; the swap path it leaves behind is free of repetitions, because it is made of
  first occurrences of their lines; the chain of moves along it therefore keeps every line but the
  victim, and the array meets the contract \<open>cache_array\<close> under every replacement policy that meets its
  own.
\<close>

section \<open>Positions\<close>

definition za_wf :: "'rp z_array \<Rightarrow> bool" where
  "za_wf a \<longleftrightarrow> length (za_array a) = za_numLines a \<and> length (za_lookupArray a) = za_numLines a \<and>
     1 < za_ways a \<and> za_ways a \<le> za_cands a \<and> za_numSets a * za_ways a = za_numLines a \<and>
     za_numLines a < 2 ^ 32 \<and> isPow2 (of_nat (za_numSets a) :: u32) \<and>
     za_setMask a = of_nat (za_numSets a) - 1"

definition zpos :: "hash_fn \<Rightarrow> 'rp z_array \<Rightarrow> nat \<Rightarrow> Address \<Rightarrow> nat" where
  "zpos hash a w x =
     (case hash w x of
        Some h \<Rightarrow> w * za_numSets a + unat (ucast (h AND ucast (za_setMask a)) :: u32)
      | None \<Rightarrow> 0)"

lemma za_pos_eq: "hash w x = Some h \<Longrightarrow> za_pos hash a w x = Some (zpos hash a w x)"
  by (simp add: za_pos_def zpos_def)

lemma za_mask_bound:
  fixes h :: u64
  assumes "za_wf a"
  shows "unat (ucast (h AND ucast (za_setMask a)) :: u32) < za_numSets a"
proof -
  have "za_numSets a * 1 \<le> za_numSets a * za_ways a"
    using assms by (intro mult_le_mono2) (simp add: za_wf_def)
  also have "\<dots> < 2 ^ 32" using assms by (simp add: za_wf_def)
  finally have lt: "za_numSets a < 2 ^ 32" by simp
  have p: "isPow2 (of_nat (za_numSets a) :: u32)" and m: "za_setMask a = of_nat (za_numSets a) - 1"
    using assms unfolding za_wf_def by blast+
  have "unat (ucast (h AND ucast (za_setMask a)) :: u32) =
      unat (ucast h :: u32) mod unat (of_nat (za_numSets a) :: u32)"
    unfolding ucast_and_32 m by (rule isPow2_mask_mod [OF p])
  moreover have "unat (of_nat (za_numSets a) :: u32) = za_numSets a" using lt by (simp add: unat_of_nat)
  moreover have "za_numSets a \<noteq> 0" using p by (intro notI) (simp add: isPow2_def)
  ultimately show ?thesis by simp
qed

lemma zpos_range:
  assumes "za_wf a" "hash w x = Some h"
  shows "w * za_numSets a \<le> zpos hash a w x" "zpos hash a w x < Suc w * za_numSets a"
  using za_mask_bound [OF assms(1), of h] assms(2) by (simp_all add: zpos_def)

lemma zpos_lt:
  assumes "za_wf a" "hash w x = Some h" "w < za_ways a"
  shows "zpos hash a w x < za_numLines a"
proof -
  have "Suc w * za_numSets a \<le> za_ways a * za_numSets a" using assms(3) by (intro mult_le_mono1) simp
  then show ?thesis
    using zpos_range(2) [where hash = hash, OF assms(1,2)] assms(1) by (simp add: za_wf_def mult.commute)
qed

text \<open>The ways partition the positions, so one address never has the same position in two ways.\<close>

lemma zpos_ways_differ:
  assumes "za_wf a" "hash v x = Some h" "hash w y = Some k" "v < w"
  shows "zpos hash a v x \<noteq> zpos hash a w y"
proof -
  have "Suc v * za_numSets a \<le> w * za_numSets a" using assms(4) by (intro mult_le_mono1) simp
  then show ?thesis
    using zpos_range(2) [where hash = hash, OF assms(1,2)] zpos_range(1) [where hash = hash, OF assms(1,3)]
    by linarith
qed

section \<open>The invariant\<close>

definition za_perm :: "'rp z_array \<Rightarrow> bool" where
  "za_perm a \<longleftrightarrow> distinct (za_lookupArray a) \<and> set (za_lookupArray a) = {..<za_numLines a}"

definition za_placed :: "hash_fn \<Rightarrow> 'rp z_array \<Rightarrow> bool" where
  "za_placed hash a \<longleftrightarrow> (\<forall>p < za_numLines a. za_array a ! (za_lookupArray a ! p) \<noteq> 0 \<longrightarrow>
     (\<exists>w < za_ways a. p = zpos hash a w (za_array a ! (za_lookupArray a ! p))))"

definition za_unique :: "'rp z_array \<Rightarrow> bool" where
  "za_unique a \<longleftrightarrow> (\<forall>i < za_numLines a. \<forall>j < za_numLines a.
     za_array a ! i \<noteq> 0 \<longrightarrow> za_array a ! i = za_array a ! j \<longrightarrow> i = j)"

definition za_where :: "'rp z_array \<Rightarrow> Address \<Rightarrow> nat option" where
  "za_where a x = (if x = 0 then None else List.find (\<lambda>i. za_array a ! i = x) [0..<za_numLines a])"

lemma za_uniqueD:
  "za_unique a \<Longrightarrow> i < za_numLines a \<Longrightarrow> j < za_numLines a \<Longrightarrow> za_array a ! i \<noteq> 0 \<Longrightarrow>
    za_array a ! i = za_array a ! j \<Longrightarrow> i = j"
  unfolding za_unique_def by metis

lemma za_where_iff:
  assumes "za_unique a"
  shows "za_where a x = Some i \<longleftrightarrow> x \<noteq> 0 \<and> i < za_numLines a \<and> za_array a ! i = x"
proof (cases "x = 0")
  case False
  have "List.find (\<lambda>i. za_array a ! i = x) [0..<za_numLines a] = Some i"
    if i: "i < za_numLines a" "za_array a ! i = x"
  proof (rule find_unique)
    show "j = i" if "j \<in> set [0..<za_numLines a]" "za_array a ! j = x" for j
      by (rule za_uniqueD [OF assms]) (use that i False in simp_all)
  qed (use i in simp_all)
  then show ?thesis using False by (auto simp: za_where_def find_Some_iff)
qed (simp add: za_where_def)

lemma za_perm_lookup_lt: "za_wf a \<Longrightarrow> za_perm a \<Longrightarrow> p < za_numLines a \<Longrightarrow> za_lookupArray a ! p < za_numLines a"
  using nth_mem [of p "za_lookupArray a"] by (auto simp: za_wf_def za_perm_def)

lemma za_perm_inj:
  "za_wf a \<Longrightarrow> za_perm a \<Longrightarrow> p < za_numLines a \<Longrightarrow> q < za_numLines a \<Longrightarrow>
    za_lookupArray a ! p = za_lookupArray a ! q \<longleftrightarrow> p = q"
  by (auto simp: za_wf_def za_perm_def nth_eq_iff_index_eq)

lemma za_perm_surj:
  assumes "za_wf a" "za_perm a" "i < za_numLines a"
  obtains p where "p < za_numLines a" "za_lookupArray a ! p = i"
proof -
  have "i \<in> set (za_lookupArray a)" using assms by (simp add: za_perm_def)
  then show ?thesis using that assms(1) by (auto simp: in_set_conv_nth za_wf_def)
qed

section \<open>Lookup\<close>

lemma za_find_spec:
  assumes wf: "za_wf a" "za_perm a" and ht: "\<And>w. w \<in> set ws \<Longrightarrow> \<exists>h. hash w x = Some h"
    and ws: "\<forall>w \<in> set ws. w < za_ways a"
  shows "\<exists>r. za_find hash a x ws = Some r \<and>
    (case r of
       None \<Rightarrow> \<forall>w \<in> set ws. za_array a ! (za_lookupArray a ! zpos hash a w x) \<noteq> x
     | Some i \<Rightarrow> i < za_numLines a \<and> za_array a ! i = x)"
  using ht ws
proof (induction ws)
  case (Cons w ws)
  obtain h where h: "hash w x = Some h" using Cons.prems(1) by auto
  have p: "zpos hash a w x < za_numLines a" using zpos_lt [OF wf(1), of hash w x h] h Cons.prems(2) by simp
  have l: "za_lookupArray a ! zpos hash a w x < za_numLines a" by (rule za_perm_lookup_lt [OF wf p])
  have IH: "\<exists>r. za_find hash a x ws = Some r \<and>
    (case r of
       None \<Rightarrow> \<forall>w \<in> set ws. za_array a ! (za_lookupArray a ! zpos hash a w x) \<noteq> x
     | Some i \<Rightarrow> i < za_numLines a \<and> za_array a ! i = x)"
    using Cons by simp
  show ?case
    using IH p l wf(1) h by (auto simp: za_pos_eq za_wf_def split: option.splits)
qed simp

lemma za_find_where:
  assumes wf: "za_wf a" "za_perm a" "za_placed hash a" "za_unique a"
    and ht: "\<And>w. w < za_ways a \<Longrightarrow> \<exists>h. hash w x = Some h" and x: "x \<noteq> 0"
  shows "za_find hash a x [0..<za_ways a] = Some (za_where a x)"
proof -
  obtain r where r: "za_find hash a x [0..<za_ways a] = Some r"
    and spec: "case r of
       None \<Rightarrow> \<forall>w \<in> set [0..<za_ways a]. za_array a ! (za_lookupArray a ! zpos hash a w x) \<noteq> x
     | Some i \<Rightarrow> i < za_numLines a \<and> za_array a ! i = x"
    using za_find_spec [OF wf(1,2), of "[0..<za_ways a]" hash x] ht by auto
  have "za_where a x = r"
  proof (cases r)
    case None
    have "za_array a ! i \<noteq> x" if i: "i < za_numLines a" for i
    proof
      assume ix: "za_array a ! i = x"
      obtain p where p: "p < za_numLines a" "za_lookupArray a ! p = i" by (rule za_perm_surj [OF wf(1,2) i])
      then obtain w where "w < za_ways a" "p = zpos hash a w x" using wf(3) ix x by (auto simp: za_placed_def)
      then show False using spec None p ix by auto
    qed
    then show ?thesis using None za_where_iff [OF wf(4), of x] by (metis not_None_eq)
  next
    case (Some i)
    then show ?thesis using spec x za_where_iff [OF wf(4), of x i] by simp
  qed
  then show ?thesis using r by simp
qed

section \<open>The candidate walk\<close>

abbreviation zline :: "hash_fn \<Rightarrow> 'rp z_array \<Rightarrow> Address \<Rightarrow> nat \<Rightarrow> nat" where
  "zline hash a y w \<equiv> za_lookupArray a ! zpos hash a w y"

lemma za_seeds_eq:
  assumes "za_wf a" "za_perm a" "\<And>w. w \<in> set ws \<Longrightarrow> \<exists>h. hash w x = Some h" "\<forall>w \<in> set ws. w < za_ways a"
  shows "za_seeds hash a x ws =
    Some (map (\<lambda>w. \<lparr>zw_pos = zpos hash a w x, zw_lineId = zline hash a x w, zw_parentIdx = None\<rparr>) ws,
          \<forall>w \<in> set ws. za_array a ! zline hash a x w \<noteq> 0)"
  using assms(3,4)
proof (induction ws)
  case (Cons w ws)
  obtain h where h: "hash w x = Some h" using Cons.prems(1) by auto
  have p: "zpos hash a w x < za_numLines a" using zpos_lt [OF assms(1), of hash w x h] h Cons.prems(2) by simp
  have "zline hash a x w < za_numLines a" by (rule za_perm_lookup_lt [OF assms(1,2) p])
  then show ?case using Cons p assms(1) h by (simp add: za_pos_eq za_wf_def)
qed simp

lemma za_expand_eq:
  assumes "za_wf a" "za_perm a" "\<And>w. w \<in> set ws \<Longrightarrow> \<exists>h. hash w y = Some h" "\<forall>w \<in> set ws. w < za_ways a"
  shows "za_expand hash a fs fid y ws =
    Some (map (\<lambda>w. \<lparr>zw_pos = zpos hash a w y, zw_lineId = zline hash a y w, zw_parentIdx = Some fs\<rparr>)
            (filter (\<lambda>w. zline hash a y w \<noteq> fid) ws),
          \<forall>w \<in> set ws. za_array a ! zline hash a y w \<noteq> 0)"
  using assms(3,4)
proof (induction ws)
  case (Cons w ws)
  obtain h where h: "hash w y = Some h" using Cons.prems(1) by auto
  have p: "zpos hash a w y < za_numLines a" using zpos_lt [OF assms(1), of hash w y h] h Cons.prems(2) by simp
  have "zline hash a y w < za_numLines a" by (rule za_perm_lookup_lt [OF assms(1,2) p])
  then show ?case using Cons p assms(1) h by (simp add: za_pos_eq za_wf_def)
qed simp

text \<open>Two ways cannot both lead back to the expanded line, so every expansion adds a candidate.\<close>

lemma za_expand_nonempty:
  assumes "za_wf a" "za_perm a" "\<And>w. w < za_ways a \<Longrightarrow> \<exists>h. hash w y = Some h"
  shows "filter (\<lambda>w. zline hash a y w \<noteq> fid) [0..<za_ways a] \<noteq> []"
proof -
  have w: "0 < za_ways a" "1 < za_ways a" using assms(1) by (auto simp: za_wf_def)
  obtain h k where hk: "hash 0 y = Some h" "hash 1 y = Some k" using assms(3) w by blast
  have "zpos hash a 0 y \<noteq> zpos hash a 1 y" by (rule zpos_ways_differ [where hash = hash, OF assms(1) hk]) simp
  then have "zline hash a y 0 \<noteq> zline hash a y 1"
    using za_perm_inj [OF assms(1,2)] 
      zpos_lt [where hash = hash, OF assms(1) hk(1) w(1)] zpos_lt [where hash = hash, OF assms(1) hk(2) w(2)] by simp
  then have "zline hash a y 0 \<noteq> fid \<or> zline hash a y 1 \<noteq> fid" by auto
  then show ?thesis using w by (auto simp: filter_empty_conv)
qed

text \<open>
  A candidate is well formed when its line is the one at its position and that position belongs to the
  address that would move there: the incoming address for a seed, the parent's address otherwise.
\<close>

definition zcand_ok :: "hash_fn \<Rightarrow> 'rp z_array \<Rightarrow> Address \<Rightarrow> zwalk_info list \<Rightarrow> nat \<Rightarrow> bool" where
  "zcand_ok hash a x cs k \<longleftrightarrow>
     zw_pos (cs ! k) < za_numLines a \<and> zw_lineId (cs ! k) = za_lookupArray a ! zw_pos (cs ! k) \<and>
     (case zw_parentIdx (cs ! k) of
        None \<Rightarrow> \<exists>w < za_ways a. zw_pos (cs ! k) = zpos hash a w x
      | Some p \<Rightarrow> p + za_ways a \<le> k \<and>
          (\<exists>w < za_ways a. zw_pos (cs ! k) = zpos hash a w (za_array a ! zw_lineId (cs ! p))))"

definition zwalk_inv :: "hash_fn \<Rightarrow> 'rp z_array \<Rightarrow> Address \<Rightarrow> nat \<Rightarrow> zwalk_info list \<Rightarrow> bool" where
  "zwalk_inv hash a x fs cs \<longleftrightarrow>
     (\<forall>k < length cs. zcand_ok hash a x cs k) \<and> fs + za_ways a \<le> length cs \<and>
     (\<forall>k < length cs. \<forall>p. zw_parentIdx (cs ! k) = Some p \<longrightarrow> p < fs) \<and>
     (\<forall>i j p q. i < j \<longrightarrow> j < length cs \<longrightarrow> zw_parentIdx (cs ! i) = Some p \<longrightarrow>
        zw_parentIdx (cs ! j) = Some q \<longrightarrow> p \<le> q) \<and>
     (\<forall>p < fs. \<forall>w < za_ways a. zline hash a (za_array a ! zw_lineId (cs ! p)) w \<noteq> zw_lineId (cs ! p) \<longrightarrow>
        (\<exists>k < length cs. zw_parentIdx (cs ! k) = Some p \<and>
           zw_lineId (cs ! k) = zline hash a (za_array a ! zw_lineId (cs ! p)) w))"

lemma zcand_ok_append: "k < length cs \<Longrightarrow> zcand_ok hash a x (cs @ ds) k \<longleftrightarrow> zcand_ok hash a x cs k"
  by (auto simp: zcand_ok_def nth_append split: option.splits)

lemma zwalk_inv_seeds:
  assumes "za_wf a" "za_perm a" "\<And>w. w < za_ways a \<Longrightarrow> \<exists>h. hash w x = Some h"
  shows "zwalk_inv hash a x 0
    (map (\<lambda>w. \<lparr>zw_pos = zpos hash a w x, zw_lineId = zline hash a x w, zw_parentIdx = None\<rparr>) [0..<za_ways a])"
  using zpos_lt [OF assms(1)] assms(3) by (fastforce simp: zwalk_inv_def zcand_ok_def)

text \<open>The candidates one expansion appends.\<close>

abbreviation zkids :: "hash_fn \<Rightarrow> 'rp z_array \<Rightarrow> nat \<Rightarrow> nat \<Rightarrow> Address \<Rightarrow> zwalk_info list" where
  "zkids hash a fs fid y \<equiv>
     map (\<lambda>w. \<lparr>zw_pos = zpos hash a w y, zw_lineId = zline hash a y w, zw_parentIdx = Some fs\<rparr>)
       (filter (\<lambda>w. zline hash a y w \<noteq> fid) [0..<za_ways a])"

lemma zkids_nth:
  assumes "i < length (zkids hash a fs fid y)"
  obtains w where "w < za_ways a" "zline hash a y w \<noteq> fid"
    "zkids hash a fs fid y ! i = \<lparr>zw_pos = zpos hash a w y, zw_lineId = zline hash a y w, zw_parentIdx = Some fs\<rparr>"
proof -
  let ?f = "filter (\<lambda>w. zline hash a y w \<noteq> fid) [0..<za_ways a]"
  have "?f ! i \<in> set ?f" using assms by (intro nth_mem) simp
  then show ?thesis using that [of "?f ! i"] assms by simp
qed

lemma zwalk_inv_expand:
  assumes wf: "za_wf a" "za_perm a" and ht: "\<And>w z. w < za_ways a \<Longrightarrow> \<exists>h. hash w z = Some h"
    and inv: "zwalk_inv hash a x fs cs" and fs: "fs < length cs"
  defines "fid \<equiv> zw_lineId (cs ! fs)"
  shows "zwalk_inv hash a x (Suc fs) (cs @ zkids hash a fs fid (za_array a ! fid))"
proof -
  let ?y = "za_array a ! fid" let ?ks = "zkids hash a fs fid ?y" let ?cs = "cs @ ?ks"
  note I = inv [unfolded zwalk_inv_def]
  have kid: "\<exists>w < za_ways a. zline hash a ?y w \<noteq> fid \<and>
      ?cs ! k = \<lparr>zw_pos = zpos hash a w ?y, zw_lineId = zline hash a ?y w, zw_parentIdx = Some fs\<rparr>"
    if "length cs \<le> k" "k < length ?cs" for k
  proof -
    have "k - length cs < length ?ks" using that by simp
    then obtain w where "w < za_ways a" "zline hash a ?y w \<noteq> fid"
      "?ks ! (k - length cs) = \<lparr>zw_pos = zpos hash a w ?y, zw_lineId = zline hash a ?y w, zw_parentIdx = Some fs\<rparr>"
      by (rule zkids_nth)
    moreover have "?cs ! k = ?ks ! (k - length cs)" using that by (simp add: nth_append)
    ultimately show ?thesis by metis
  qed
  have old: "?cs ! k = cs ! k" if "k < length cs" for k using that by (simp add: nth_append)
  have 1: "zcand_ok hash a x ?cs k" if k: "k < length ?cs" for k
  proof (cases "k < length cs")
    case True
    then show ?thesis using I by (simp add: zcand_ok_append)
  next
    case False
    then obtain w where w: "w < za_ways a"
      "?cs ! k = \<lparr>zw_pos = zpos hash a w ?y, zw_lineId = zline hash a ?y w, zw_parentIdx = Some fs\<rparr>"
      using kid [of k] k by auto
    obtain h where "hash w ?y = Some h" using ht w(1) by blast
    with zpos_lt [OF wf(1)] w False I old [OF fs] show ?thesis by (auto simp: zcand_ok_def fid_def)
  qed
  have ne: "?ks \<noteq> []" using za_expand_nonempty [OF wf] ht by simp
  have 2: "Suc fs + za_ways a \<le> length ?cs"
    using I ne by (cases ?ks) auto
  have 3: "p < Suc fs" if "k < length ?cs" "zw_parentIdx (?cs ! k) = Some p" for k p
    using that I kid [of k] old [of k] by (cases "k < length cs") (auto simp: less_Suc_eq)
  have 4: "p \<le> q" if "i < j" "j < length ?cs" "zw_parentIdx (?cs ! i) = Some p" "zw_parentIdx (?cs ! j) = Some q" for i j p q
  proof (cases "j < length cs")
    case True
    then show ?thesis using I that old [of i] old [of j] by auto
  next
    case False
    then have "q = fs" using kid [of j] that by auto
    then show ?thesis using 3 [of i p] that by simp
  qed
  have 5: "\<exists>k < length ?cs. zw_parentIdx (?cs ! k) = Some p \<and>
      zw_lineId (?cs ! k) = zline hash a (za_array a ! zw_lineId (?cs ! p)) w"
    if p: "p < Suc fs" and w: "w < za_ways a"
      and ne: "zline hash a (za_array a ! zw_lineId (?cs ! p)) w \<noteq> zw_lineId (?cs ! p)" for p w
  proof (cases "p < fs")
    case True
    then have "?cs ! p = cs ! p" using fs by (simp add: nth_append)
    then have "zline hash a (za_array a ! zw_lineId (cs ! p)) w \<noteq> zw_lineId (cs ! p)" using ne by simp
    with True w I obtain k where "k < length cs" "zw_parentIdx (cs ! k) = Some p"
      "zw_lineId (cs ! k) = zline hash a (za_array a ! zw_lineId (cs ! p)) w" by blast
    then show ?thesis using old [of k] \<open>?cs ! p = cs ! p\<close> by (intro exI [of _ k]) simp
  next
    case False
    then have pf: "p = fs" using p by simp
    then have fp: "zw_lineId (?cs ! p) = fid" using fs by (simp add: nth_append fid_def)
    let ?f = "filter (\<lambda>w. zline hash a ?y w \<noteq> fid) [0..<za_ways a]"
    have "w \<in> set ?f" using w ne fp by simp
    then obtain i where i: "i < length ?f" "?f ! i = w" unfolding in_set_conv_nth by blast
    then have "?cs ! (length cs + i) =
        \<lparr>zw_pos = zpos hash a w ?y, zw_lineId = zline hash a ?y w, zw_parentIdx = Some fs\<rparr>"
      by (simp add: nth_append)
    then show ?thesis using i pf fp by (intro exI [of _ "length cs + i"]) simp
  qed
  show ?thesis unfolding zwalk_inv_def using 1 2 3 4 5 by blast
qed

text \<open>
  The walk ends with the fuel given, never reads a missing candidate and never asserts: while it goes on,
  all candidates are valid lines, and every expansion makes progress.
\<close>

definition zvalid :: "'rp z_array \<Rightarrow> zwalk_info list \<Rightarrow> bool" where
  "zvalid a cs \<longleftrightarrow> (\<forall>c \<in> set cs. za_array a ! zw_lineId c \<noteq> 0)"

lemma za_bfs_ok:
  assumes wf: "za_wf a" "za_perm a" and ht: "\<And>w z. w < za_ways a \<Longrightarrow> \<exists>h. hash w z = Some h"
    and "zwalk_inv hash a x fs cs" "v \<longrightarrow> zvalid a cs" "za_cands a \<le> fuel + length cs"
  shows "\<exists>fs' cs' v'. za_bfs fuel hash a fs cs v = Some (cs', v') \<and> zwalk_inv hash a x fs' cs' \<and>
    (v' \<longrightarrow> za_cands a \<le> length cs')"
  using assms(4-6)
proof (induction fuel arbitrary: fs cs v)
  case 0
  then show ?case by (intro exI [of _ fs] exI [of _ cs] exI [of _ v]) simp
next
  case (Suc fuel)
  show ?case
  proof (cases "length cs < za_cands a \<and> v")
    case False
    then show ?thesis using Suc.prems by (intro exI [of _ fs] exI [of _ cs] exI [of _ v]) auto
  next
    case True
    have fs: "fs < length cs" using Suc.prems(1) wf(1) by (auto simp: zwalk_inv_def za_wf_def)
    let ?fid = "zw_lineId (cs ! fs)" let ?y = "za_array a ! ?fid" let ?ks = "zkids hash a fs ?fid ?y"
    have fid: "?fid < za_numLines a"
      using Suc.prems(1) fs za_perm_lookup_lt [OF wf] by (auto simp: zwalk_inv_def zcand_ok_def)
    have y: "?y \<noteq> 0" using True Suc.prems(2) fs by (simp add: zvalid_def)
    let ?v = "\<forall>w \<in> set [0..<za_ways a]. za_array a ! zline hash a ?y w \<noteq> 0"
    have ex: "za_expand hash a fs ?fid ?y [0..<za_ways a] = Some (?ks, ?v)"
      using za_expand_eq [OF wf, of "[0..<za_ways a]" hash ?y fs ?fid] ht by simp
    have "?ks \<noteq> []" using za_expand_nonempty [OF wf] ht by simp
    then have len: "za_cands a \<le> fuel + length (cs @ ?ks)" using Suc.prems(3) by (cases ?ks) auto
    have v: "?v \<longrightarrow> zvalid a (cs @ ?ks)" using Suc.prems(2) True by (auto simp: zvalid_def)
    have "za_bfs (Suc fuel) hash a fs cs v = za_bfs fuel hash a (Suc fs) (cs @ ?ks) ?v"
      using True fs fid y wf(1) ex by (simp add: za_wf_def)
    then show ?thesis
      using Suc.IH [OF zwalk_inv_expand [OF wf ht Suc.prems(1) fs] v len] by simp
  qed
qed

section \<open>The swap path\<close>

text \<open>The first candidate with a given line.\<close>

lemma za_minIdx_spec:
  "\<exists>c \<in> set cs. zw_lineId c = l \<Longrightarrow>
    \<exists>k. za_minIdx i cs l = Some (i + k) \<and> k < length cs \<and> zw_lineId (cs ! k) = l \<and> (\<forall>j < k. zw_lineId (cs ! j) \<noteq> l)"
proof (induction cs arbitrary: i)
  case (Cons c cs)
  show ?case
  proof (cases "zw_lineId c = l")
    case False
    then obtain k where "za_minIdx (Suc i) cs l = Some (Suc i + k)" "k < length cs" "zw_lineId (cs ! k) = l"
      "\<forall>j < k. zw_lineId (cs ! j) \<noteq> l"
      using Cons.IH [of "Suc i"] Cons.prems by auto
    then show ?thesis using False by (intro exI [of _ "Suc k"]) (auto simp: less_Suc_eq_0_disj)
  qed (auto intro: exI [of _ 0])
qed simp

definition zfirst :: "zwalk_info list \<Rightarrow> nat \<Rightarrow> bool" where
  "zfirst cs k \<longleftrightarrow> k < length cs \<and> (\<forall>j < k. zw_lineId (cs ! j) \<noteq> zw_lineId (cs ! k))"

text \<open>The parent of a first occurrence is a first occurrence.\<close>

lemma zfirst_parent:
  assumes inv: "zwalk_inv hash a x fs cs" and k: "zfirst cs k" "zw_parentIdx (cs ! k) = Some p"
    and ne: "zw_lineId (cs ! k) \<noteq> zw_lineId (cs ! p)"
  shows "zfirst cs p"
proof -
  have kl: "k < length cs" using k(1) by (simp add: zfirst_def)
  note I = inv [unfolded zwalk_inv_def]
  have ok: "zcand_ok hash a x cs k" using I kl by blast
  have pk: "p \<le> k" using ok k(2) by (simp add: zcand_ok_def)
  obtain w where w: "w < za_ways a" "zw_lineId (cs ! k) = zline hash a (za_array a ! zw_lineId (cs ! p)) w"
    using ok k(2) by (auto simp: zcand_ok_def)
  have "zw_lineId (cs ! q) \<noteq> zw_lineId (cs ! p)" if q: "q < p" for q
  proof
    assume eq: "zw_lineId (cs ! q) = zw_lineId (cs ! p)"
    have "p < fs" using I kl k(2) by blast
    then have "q < fs" using q by simp
    moreover have "zline hash a (za_array a ! zw_lineId (cs ! q)) w \<noteq> zw_lineId (cs ! q)"
      using w(2) ne eq by simp
    ultimately obtain j where j: "j < length cs" "zw_parentIdx (cs ! j) = Some q"
      "zw_lineId (cs ! j) = zline hash a (za_array a ! zw_lineId (cs ! q)) w"
      using I w(1) by blast
    have "\<not> k < j" using I k(2) j(1,2) q by (metis not_le)
    moreover have "j \<noteq> k" using j(2) k(2) q by auto
    ultimately have "j < k" by simp
    then show False using k(1) j(3) w(2) eq by (simp add: zfirst_def)
  qed
  then show ?thesis using pk kl by (simp add: zfirst_def)
qed

text \<open>
  The path of positions from a first occurrence to its seed: consecutive entries are a child and its
  parent, and the lines on it are pairwise different.
\<close>

definition zmoves_ok :: "hash_fn \<Rightarrow> 'rp z_array \<Rightarrow> Address \<Rightarrow> nat list \<Rightarrow> bool" where
  "zmoves_ok hash a x ps \<longleftrightarrow> ps \<noteq> [] \<and> distinct ps \<and> (\<forall>p \<in> set ps. p < za_numLines a) \<and>
     (\<exists>w < za_ways a. last ps = zpos hash a w x) \<and>
     (\<forall>i. Suc i < length ps \<longrightarrow>
        (\<exists>w < za_ways a. ps ! i = zpos hash a w (za_array a ! (za_lookupArray a ! (ps ! Suc i)))))"

lemma za_path_ok:
  assumes wf: "za_wf a" "za_perm a" and inv: "zwalk_inv hash a x fs cs"
    and "zfirst cs k" "k < fuel"
  shows "\<exists>ps. za_path fuel cs k = Some ps \<and> zmoves_ok hash a x ps \<and> hd ps = zw_pos (cs ! k) \<and>
    (\<forall>p \<in> set ps. \<exists>j \<le> k. p = zw_pos (cs ! j)) \<and> length ps \<le> k div za_ways a + 1"
  using assms(4,5)
proof (induction fuel arbitrary: k)
  case (Suc fuel)
  have kl: "k < length cs" using Suc.prems(1) by (simp add: zfirst_def)
  have ok: "zcand_ok hash a x cs k" using inv kl by (simp add: zwalk_inv_def)
  show ?case
  proof (cases "zw_parentIdx (cs ! k)")
    case None
    then show ?thesis using ok kl by (auto simp: zcand_ok_def zmoves_ok_def)
  next
    case (Some p)
    have pk: "p + za_ways a \<le> k" and w: "0 < za_ways a" using ok Some wf(1) by (auto simp: zcand_ok_def za_wf_def)
    then have "p < k" by simp
    then have ne: "zw_lineId (cs ! k) \<noteq> zw_lineId (cs ! p)" using Suc.prems(1) by (auto simp: zfirst_def)
    have "zfirst cs p" by (rule zfirst_parent [OF inv Suc.prems(1) Some ne])
    then obtain ps where ps: "za_path fuel cs p = Some ps" "zmoves_ok hash a x ps" "hd ps = zw_pos (cs ! p)"
      "\<forall>q \<in> set ps. \<exists>j \<le> p. q = zw_pos (cs ! j)" "length ps \<le> p div za_ways a + 1"
      using Suc.IH [of p] \<open>p < k\<close> Suc.prems(2) by auto
    have path: "za_path (Suc fuel) cs k = Some (zw_pos (cs ! k) # ps)" using kl Some ps(1) by simp
    have "zw_pos (cs ! k) \<notin> set ps"
    proof
      assume "zw_pos (cs ! k) \<in> set ps"
      then obtain j where j: "j \<le> p" "zw_pos (cs ! k) = zw_pos (cs ! j)" using ps(4) by blast
      moreover have "zcand_ok hash a x cs j" using inv j(1) \<open>p < k\<close> kl by (simp add: zwalk_inv_def)
      ultimately have "zw_lineId (cs ! j) = zw_lineId (cs ! k)" using ok by (simp add: zcand_ok_def)
      then show False using Suc.prems(1) j(1) \<open>p < k\<close> by (auto simp: zfirst_def)
    qed
    moreover have "zw_lineId (cs ! p) = za_lookupArray a ! zw_pos (cs ! p)"
      using inv \<open>p < k\<close> kl by (simp add: zwalk_inv_def zcand_ok_def)
    moreover have "ps ! 0 = zw_pos (cs ! p)" using ps(2,3) by (simp add: zmoves_ok_def hd_conv_nth)
    ultimately have mv: "zmoves_ok hash a x (zw_pos (cs ! k) # ps)"
      using ps(2) ok Some by (auto simp: zmoves_ok_def zcand_ok_def nth_Cons split: nat.splits)
    have "p div za_ways a + 1 \<le> k div za_ways a"
      using div_le_mono [OF pk, of "za_ways a"] w by (simp add: div_add_self2)
    then have "length (zw_pos (cs ! k) # ps) \<le> k div za_ways a + 1" using ps(5) by simp
    moreover have "\<forall>q \<in> set (zw_pos (cs ! k) # ps). \<exists>j \<le> k. q = zw_pos (cs ! j)"
    proof
      fix q assume "q \<in> set (zw_pos (cs ! k) # ps)"
      then consider "q = zw_pos (cs ! k)" | j where "j \<le> p" "q = zw_pos (cs ! j)" using ps(4) by auto
      then show "\<exists>j \<le> k. q = zw_pos (cs ! j)"
        by cases (use \<open>p < k\<close> in \<open>auto intro: exI [of _ k] less_imp_le order_trans\<close>)
    qed
    ultimately show ?thesis using path mv by (intro exI [of _ "zw_pos (cs ! k) # ps"]) simp
  qed
qed simp

text \<open>A prefix of the walk that still contains a first occurrence.\<close>

lemma zfirst_take: "k < n \<Longrightarrow> zfirst (take n cs) k \<longleftrightarrow> zfirst cs k"
  by (auto simp: zfirst_def)

lemma za_path_take:
  assumes "\<And>j. j < length cs \<Longrightarrow> (\<forall>p. zw_parentIdx (cs ! j) = Some p \<longrightarrow> p \<le> j)" "k < n"
  shows "za_path fuel (take n cs) k = za_path fuel cs k"
  using assms(2)
proof (induction fuel arbitrary: k)
  case (Suc fuel)
  show ?case
  proof (cases "k < length cs")
    case True
    have "za_path fuel (take n cs) p = za_path fuel cs p" if "zw_parentIdx (cs ! k) = Some p" for p
      using Suc.IH [of p] assms(1) [OF True] that Suc.prems by force
    then show ?thesis using True Suc.prems by (simp add: aget_def split: option.splits)
  qed (simp add: aget_def)
qed simp

section \<open>The chain of moves\<close>

lemma za_swaps_spec:
  assumes "distinct ps" "ps \<noteq> []" "\<forall>p \<in> set ps. p < length lk"
  shows "\<exists>lk'. za_swaps lk ps c = Some lk' \<and> length lk' = length lk \<and>
    (\<forall>q. q \<notin> set ps \<longrightarrow> lk' ! q = lk ! q) \<and> lk' ! last ps = c \<and>
    (\<forall>i. Suc i < length ps \<longrightarrow> lk' ! (ps ! i) = lk ! (ps ! Suc i))"
  using assms
proof (induction lk ps c rule: za_swaps.induct)
  case (3 lk p q ps c)
  let ?lk = "lk[p := lk ! q]"
  have "\<exists>lk'. za_swaps ?lk (q # ps) c = Some lk' \<and> length lk' = length ?lk \<and>
    (\<forall>r. r \<notin> set (q # ps) \<longrightarrow> lk' ! r = ?lk ! r) \<and> lk' ! last (q # ps) = c \<and>
    (\<forall>i. Suc i < length (q # ps) \<longrightarrow> lk' ! ((q # ps) ! i) = ?lk ! ((q # ps) ! Suc i))"
    by (rule "3.IH") (use "3.prems" in \<open>auto simp: aset_eq_Some\<close>)
  then obtain lk' where lk': "za_swaps ?lk (q # ps) c = Some lk'" "length lk' = length lk"
    "\<forall>r. r \<notin> set (q # ps) \<longrightarrow> lk' ! r = ?lk ! r" "lk' ! last (q # ps) = c"
    "\<forall>i. Suc i < length (q # ps) \<longrightarrow> lk' ! ((q # ps) ! i) = ?lk ! ((q # ps) ! Suc i)" by auto
  have "lk' ! ((p # q # ps) ! i) = lk ! ((p # q # ps) ! Suc i)" if i: "Suc i < length (p # q # ps)" for i
  proof (cases i)
    case 0
    then show ?thesis using lk'(3) "3.prems" by auto
  next
    case (Suc j)
    have "ps ! j \<in> set ps" using Suc i by simp
    then have "ps ! j \<noteq> p" using "3.prems"(1) by auto
    then show ?thesis using lk'(5) Suc i by auto
  qed
  then show ?case using lk' "3.prems" by auto
qed auto

text \<open>
  Moving lines along a correct path and overwriting the victim keeps the invariant; the address map loses
  the victim and gains the new address.
\<close>

lemma za_layout_upd [simp]:
  "zpos hash (a\<lparr>za_lookupArray := lk\<rparr>) = zpos hash a" "zpos hash (a\<lparr>za_array := arr\<rparr>) = zpos hash a"
  "zpos hash (a\<lparr>za_rp := rp\<rparr>) = zpos hash a" "zpos hash (a\<lparr>za_swapArray := sw\<rparr>) = zpos hash a"
  "zpos hash (a\<lparr>za_lastCandIdx := i\<rparr>) = zpos hash a" "zpos hash (a\<lparr>za_statSwaps := n\<rparr>) = zpos hash a"
  by (simp_all add: zpos_def fun_eq_iff split: option.split)

lemma za_insert_perm:
  assumes wf: "za_wf a" "za_perm a" and mv: "zmoves_ok hash a x ps"
    and sw: "length lk' = za_numLines a" "\<forall>q. q \<notin> set ps \<longrightarrow> lk' ! q = za_lookupArray a ! q"
      "lk' ! last ps = za_lookupArray a ! hd ps"
      "\<forall>i. Suc i < length ps \<longrightarrow> lk' ! (ps ! i) = za_lookupArray a ! (ps ! Suc i)"
  shows "distinct lk'" "set lk' = {..<za_numLines a}"
proof -
  have len: "length (za_lookupArray a) = za_numLines a" using wf(1) by (simp add: za_wf_def)
  have ps: "ps \<noteq> []" "\<forall>p \<in> set ps. p < za_numLines a" using mv by (auto simp: zmoves_ok_def)
  have "i \<in> set lk'" if i: "i < za_numLines a" for i
  proof -
    obtain q where q: "q < za_numLines a" "za_lookupArray a ! q = i" by (rule za_perm_surj [OF wf i])
    have "\<exists>p < za_numLines a. lk' ! p = i"
    proof (cases "q \<in> set ps")
      case False
      then show ?thesis using sw(2) q by auto
    next
      case True
      then obtain j where j: "j < length ps" "ps ! j = q" by (auto simp: in_set_conv_nth)
      show ?thesis
      proof (cases j)
        case 0
        then show ?thesis using sw(3) q j ps by (intro exI [of _ "last ps"]) (auto simp: hd_conv_nth)
      next
        case (Suc k)
        then have "ps ! k < za_numLines a" using j(1) ps(2) by simp
        then show ?thesis using sw(4) q j Suc by (intro exI [of _ "ps ! k"]) simp
      qed
    qed
    then show ?thesis using sw(1) by (metis nth_mem)
  qed
  then have sub: "{..<za_numLines a} \<subseteq> set lk'" by auto
  have c: "card (set lk') \<le> za_numLines a" using card_length [of lk'] sw(1) by simp
  then show eq: "set lk' = {..<za_numLines a}" using card_seteq [OF _ sub] by simp
  show "distinct lk'" using eq sw(1) by (simp add: card_distinct)
qed

lemma za_insert_placed:
  assumes wf: "za_wf a" "za_perm a" "za_placed hash a" and mv: "zmoves_ok hash a x ps"
    and sw: "length lk' = za_numLines a" "\<forall>q. q \<notin> set ps \<longrightarrow> lk' ! q = za_lookupArray a ! q"
      "lk' ! last ps = za_lookupArray a ! hd ps"
      "\<forall>i. Suc i < length ps \<longrightarrow> lk' ! (ps ! i) = za_lookupArray a ! (ps ! Suc i)"
    and arr: "arr' = (za_array a)[za_lookupArray a ! hd ps := x]"
    and p: "p < za_numLines a" "arr' ! (lk' ! p) \<noteq> 0"
  shows "\<exists>w < za_ways a. p = zpos hash a w (arr' ! (lk' ! p))"
proof -
  have ps: "ps \<noteq> []" "distinct ps" "\<forall>p \<in> set ps. p < za_numLines a" using mv by (auto simp: zmoves_ok_def)
  have hd: "hd ps < za_numLines a" using ps by simp
  let ?c = "za_lookupArray a ! hd ps"
  have c: "?c < length (za_array a)" using za_perm_lookup_lt [OF wf(1,2) hd] wf(1) by (simp add: za_wf_def)
  have other: "arr' ! (za_lookupArray a ! q) = za_array a ! (za_lookupArray a ! q)"
    if "q < za_numLines a" "q \<noteq> hd ps" for q
    using that za_perm_inj [OF wf(1,2) hd that(1)] by (auto simp: arr nth_list_update)
  show ?thesis
  proof (cases "p \<in> set ps")
    case False
    then have "p \<noteq> hd ps" using ps(1) by auto
    then show ?thesis using False sw(2) other [OF p(1)] wf(3) p by (auto simp: za_placed_def)
  next
    case True
    then obtain j where j: "j < length ps" "p = ps ! j" by (auto simp: in_set_conv_nth)
    show ?thesis
    proof (cases "Suc j < length ps")
      case False
      then have "p = last ps" using j ps(1) by (simp add: last_conv_nth) (rule arg_cong [of _ _ "nth ps"], linarith)
      then show ?thesis using mv sw(3) c by (auto simp: zmoves_ok_def arr)
    next
      case True
      have "ps ! Suc j \<noteq> hd ps" using True ps(1,2) by (simp add: hd_conv_nth nth_eq_iff_index_eq)
      then have "arr' ! (lk' ! p) = za_array a ! (za_lookupArray a ! (ps ! Suc j))"
        using sw(4) j True other [of "ps ! Suc j"] ps(3) by simp
      then show ?thesis using mv True j(2) by (simp add: zmoves_ok_def)
    qed
  qed
qed

section \<open>The contract\<close>

definition za_inv ::
  "hash_fn \<Rightarrow> ('rp \<Rightarrow> bool) \<Rightarrow> ('rp \<Rightarrow> nat) \<Rightarrow> ('rp \<Rightarrow> nat list \<Rightarrow> bool) \<Rightarrow> nat \<Rightarrow> 'rp z_array \<Rightarrow> bool" where
  "za_inv hash inv_rp lns fits nf a \<longleftrightarrow> za_wf a \<and> za_perm a \<and> za_placed hash a \<and> za_unique a \<and>
     inv_rp (za_rp a) \<and> lns (za_rp a) = za_numLines a \<and> za_ways a \<le> nf \<and>
     (\<forall>cs. cs \<noteq> [] \<longrightarrow> length cs \<le> za_cands a \<longrightarrow> fits (za_rp a) cs)"

definition za_pend :: "hash_fn \<Rightarrow> 'rp z_array \<Rightarrow> Address \<Rightarrow> nat \<Rightarrow> bool" where
  "za_pend hash a x c \<longleftrightarrow> zmoves_ok hash a x (za_swapArray a) \<and> c = za_lookupArray a ! hd (za_swapArray a) \<and>
     (\<forall>i < za_numLines a. za_array a ! i \<noteq> x)"

lemma za_state_upd [simp]:
  "za_wf (a\<lparr>za_rp := rp\<rparr>) = za_wf a" "za_perm (a\<lparr>za_rp := rp\<rparr>) = za_perm a"
  "za_placed hash (a\<lparr>za_rp := rp\<rparr>) = za_placed hash a" "za_unique (a\<lparr>za_rp := rp\<rparr>) = za_unique a"
  "za_where (a\<lparr>za_rp := rp\<rparr>) = za_where a"
  "za_wf (a\<lparr>za_swapArray := sw\<rparr>) = za_wf a" "za_perm (a\<lparr>za_swapArray := sw\<rparr>) = za_perm a"
  "za_placed hash (a\<lparr>za_swapArray := sw\<rparr>) = za_placed hash a" "za_unique (a\<lparr>za_swapArray := sw\<rparr>) = za_unique a"
  "za_where (a\<lparr>za_swapArray := sw\<rparr>) = za_where a"
  "za_wf (a\<lparr>za_lastCandIdx := i\<rparr>) = za_wf a" "za_perm (a\<lparr>za_lastCandIdx := i\<rparr>) = za_perm a"
  "za_placed hash (a\<lparr>za_lastCandIdx := i\<rparr>) = za_placed hash a" "za_unique (a\<lparr>za_lastCandIdx := i\<rparr>) = za_unique a"
  "za_where (a\<lparr>za_lastCandIdx := i\<rparr>) = za_where a"
  by (simp_all add: za_wf_def za_perm_def za_placed_def za_unique_def za_where_def fun_eq_iff)

locale za_over_policy = repl_policy +
  fixes hash :: hash_fn and nf :: nat
  assumes hash_total: "w < nf \<Longrightarrow> \<exists>h. hash w x = Some h"
begin

abbreviation inv_z where "inv_z \<equiv> za_inv hash inv_rp lines fits nf"

lemma ways_total: "inv_z a \<Longrightarrow> w < za_ways a \<Longrightarrow> \<exists>h. hash w x = Some h"
  using hash_total by (simp add: za_inv_def)

lemma find_eq:
  assumes "inv_z a" "x \<noteq> 0"
  shows "za_find hash a x [0..<za_ways a] = Some (za_where a x)"
  by (rule za_find_where) (use assms ways_total [OF assms(1)] in \<open>auto simp: za_inv_def\<close>)

lemma za_lookup_quiet: "inv_z a \<Longrightarrow> x \<noteq> 0 \<Longrightarrow> za_lookup vt hash a x None False = Some (a, za_where a x)"
  by (simp add: za_lookup_def find_eq split: option.split)

lemma za_lookup_update:
  assumes "inv_z a" "x \<noteq> 0" "upd \<longrightarrow> IsGet (mr_type req)"
  shows "\<exists>rp. za_lookup vt hash a x (Some req) upd = Some (a\<lparr>za_rp := rp\<rparr>, za_where a x) \<and>
    inv_z (a\<lparr>za_rp := rp\<rparr>) \<and> (ready (za_rp a) \<longrightarrow> ready rp)"
proof (cases "za_where a x = None \<or> \<not> upd")
  case True
  then show ?thesis using assms
    by (intro exI [of _ "za_rp a"]) (auto simp: za_lookup_def find_eq split: option.splits)
next
  case False
  then obtain i where i: "za_where a x = Some i" by auto
  then have "i < lines (za_rp a)" using assms(1) za_where_iff [of a x i] by (simp add: za_inv_def)
  then obtain rp where rp: "vt_update vt (za_rp a) i req = Some rp" "inv_rp rp"
    "lines rp = lines (za_rp a)" "ready (za_rp a) \<longrightarrow> ready rp" "fits rp = fits (za_rp a)"
    using update_ok [of "za_rp a" i req] assms False by (auto simp: za_inv_def)
  have "inv_z (a\<lparr>za_rp := rp\<rparr>)" using assms(1) rp by (simp add: za_inv_def)
  with rp False i assms(1,2) show ?thesis
    by (intro exI [of _ rp]) (simp add: za_lookup_def find_eq)
qed

text \<open>The whole walk: seeds, expansion, ranking, path.\<close>

lemma za_walk_ok:
  assumes "inv_z a"
  shows "\<exists>seeds v cs v' fs. za_seeds hash a x [0..<za_ways a] = Some (seeds, v) \<and>
    za_bfs (za_cands a) hash a 0 seeds v = Some (cs, v') \<and> zwalk_inv hash a x fs cs \<and>
    (v' \<longrightarrow> za_cands a \<le> length cs)"
proof -
  have wf: "za_wf a" "za_perm a" using assms by (simp_all add: za_inv_def)
  note ht = ways_total [OF assms]
  let ?s = "map (\<lambda>w. \<lparr>zw_pos = zpos hash a w x, zw_lineId = zline hash a x w, zw_parentIdx = None\<rparr>) [0..<za_ways a]"
  let ?v = "\<forall>w \<in> set [0..<za_ways a]. za_array a ! zline hash a x w \<noteq> 0"
  have s: "za_seeds hash a x [0..<za_ways a] = Some (?s, ?v)"
    using za_seeds_eq [OF wf, of "[0..<za_ways a]" hash x] ht by simp
  have "?v \<longrightarrow> zvalid a ?s" by (auto simp: zvalid_def)
  then obtain fs cs v' where "za_bfs (za_cands a) hash a 0 ?s ?v = Some (cs, v')" "zwalk_inv hash a x fs cs"
    "v' \<longrightarrow> za_cands a \<le> length cs"
    using za_bfs_ok [where v = ?v and fuel = "za_cands a" and hash = hash and x = x,
        OF wf ht zwalk_inv_seeds [where hash = hash and x = x, OF wf ht]] le_add1 by blast
  with s show ?thesis by blast
qed

lemma za_preinsert_ok:
  assumes "inv_z a" "ready (za_rp a)" "x \<noteq> 0" "za_where a x = None"
  shows "\<exists>a' c. za_preinsert vt hash cc a x req = Some (a', c, za_array a ! c) \<and>
    inv_z a' \<and> za_pend hash a' x c \<and> c < za_numLines a \<and> za_numLines a' = za_numLines a \<and>
    za_where a' = za_where a"
proof -
  have wf: "za_wf a" "za_perm a" "za_unique a" using assms(1) by (simp_all add: za_inv_def)
  obtain seeds v cs v' fs where w: "za_seeds hash a x [0..<za_ways a] = Some (seeds, v)"
    "za_bfs (za_cands a) hash a 0 seeds v = Some (cs, v')" "zwalk_inv hash a x fs cs"
    "v' \<longrightarrow> za_cands a \<le> length cs"
    using za_walk_ok [OF assms(1)] by blast
  let ?cs = "take (za_cands a) cs"
  have ok: "\<And>k. k < length cs \<Longrightarrow> zcand_ok hash a x cs k" using w(3) by (simp add: zwalk_inv_def)
  have len: "length ?cs \<le> za_cands a" "?cs \<noteq> []"
    using w(3) wf(1) by (auto simp: zwalk_inv_def za_wf_def)
  have rng: "\<forall>c \<in> set (ZCands ?cs). c < lines (za_rp a)"
  proof
    fix c assume "c \<in> set (ZCands ?cs)"
    then obtain k where "k < length cs" "c = zw_lineId (cs ! k)"
      by (auto simp: ZCands_def in_set_conv_nth)
    then show "c < lines (za_rp a)"
      using ok [of k] za_perm_lookup_lt [OF wf(1,2)] assms(1) by (simp add: zcand_ok_def za_inv_def)
  qed
  have ip: "inv_rp (za_rp a)" using assms(1) by (simp add: za_inv_def)
  have fit: "fits (za_rp a) (ZCands ?cs)" "ZCands ?cs \<noteq> []"
    using assms(1) len by (simp_all add: za_inv_def ZCands_def)
  obtain rp c where rp: "vt_rankCands vt (za_rp a) cc req (ZCands ?cs) = Some (rp, c)" "c \<in> set (ZCands ?cs)"
    "inv_rp rp" "lines rp = lines (za_rp a)" "fits rp = fits (za_rp a)"
    using rank_ok [OF ip assms(2) fit rng, of cc req] by blast
  have "\<exists>d \<in> set ?cs. zw_lineId d = c" using rp(2) by (auto simp: ZCands_def)
  then obtain k where k: "za_minIdx 0 ?cs c = Some k" "k < length ?cs" "zw_lineId (?cs ! k) = c"
    "\<forall>j < k. zw_lineId (?cs ! j) \<noteq> c"
    using za_minIdx_spec [of ?cs c 0] by auto
  then have kl: "k < length cs" "k < za_cands a" "zw_lineId (cs ! k) = c" by simp_all
  have first: "zfirst cs k" using k zfirst_take [of k "za_cands a" cs] by (auto simp: zfirst_def)
  obtain ps where ps: "za_path (length ?cs) cs k = Some ps" "zmoves_ok hash a x ps" "hd ps = zw_pos (cs ! k)"
    "length ps \<le> k div za_ways a + 1"
    using za_path_ok [OF wf(1,2) w(3) first k(2)] by blast
  have path: "za_path (length ?cs) ?cs k = Some ps"
  proof -
    have "\<forall>p. zw_parentIdx (cs ! j) = Some p \<longrightarrow> p \<le> j" if "j < length cs" for j
      using ok [OF that] by (auto simp: zcand_ok_def)
    then show ?thesis using za_path_take [of cs k "za_cands a"] kl(2) ps(1) by simp
  qed
  have "k div za_ways a \<le> za_cands a div za_ways a" using kl(2) by (simp add: div_le_mono)
  then have plen: "length ps \<le> za_cands a div za_ways a + 2" using ps(4) by simp
  have c: "c = za_lookupArray a ! hd ps" "c < za_numLines a"
    using ok [OF kl(1)] kl(3) ps(3) za_perm_lookup_lt [OF wf(1,2)] by (auto simp: zcand_ok_def)
  let ?a' = "a\<lparr>za_rp := rp, za_lastCandIdx := k, za_swapArray := ps\<rparr>"
  have "za_preinsert vt hash cc a x req = Some (?a', c, za_array a ! c)"
    using w(1,2,4) rp(1) k(1) path plen c(2) wf(1) by (simp add: za_preinsert_def Let_def za_wf_def)
  moreover have "inv_z ?a'" using assms(1) rp by (simp add: za_inv_def)
  moreover have "\<forall>i < za_numLines a. za_array a ! i \<noteq> x"
    using assms(3,4) za_where_iff [OF wf(3), of x] by auto
  then have "za_pend hash ?a' x c" using ps(2) c(1) by (simp add: za_pend_def zmoves_ok_def)
  ultimately show ?thesis using c(2) by (intro exI [of _ ?a'] exI [of _ c]) simp
qed

lemma za_postinsert_ok:
  assumes "inv_z a" "za_pend hash a x c" "x \<noteq> 0" "IsGet (mr_type req)"
  shows "\<exists>a'. za_postinsert vt a x req c = Some a' \<and> inv_z a' \<and> ready (za_rp a') \<and>
    za_numLines a' = za_numLines a \<and> za_array a' = (za_array a)[c := x] \<and> c < za_numLines a"
proof -
  let ?ps = "za_swapArray a" let ?lk = "za_lookupArray a"
  have wf: "za_wf a" "za_perm a" "za_placed hash a" "za_unique a" using assms(1) by (simp_all add: za_inv_def)
  have mv: "zmoves_ok hash a x ?ps" and c: "c = ?lk ! hd ?ps" and absent: "\<forall>i < za_numLines a. za_array a ! i \<noteq> x"
    using assms(2) by (auto simp: za_pend_def)
  have ps: "?ps \<noteq> []" "distinct ?ps" "\<forall>p \<in> set ?ps. p < length ?lk"
    using mv wf(1) by (auto simp: zmoves_ok_def za_wf_def)
  have hd: "hd ?ps < za_numLines a" "?ps ! 0 = hd ?ps" using ps wf(1) by (auto simp: za_wf_def hd_conv_nth)
  have cl: "c < za_numLines a" using za_perm_lookup_lt [OF wf(1,2) hd(1)] c by simp
  obtain lk' where lk': "za_swaps ?lk ?ps c = Some lk'" "length lk' = length ?lk"
    "\<forall>q. q \<notin> set ?ps \<longrightarrow> lk' ! q = ?lk ! q" "lk' ! last ?ps = c"
    "\<forall>i. Suc i < length ?ps \<longrightarrow> lk' ! (?ps ! i) = ?lk ! (?ps ! Suc i)"
    using za_swaps_spec [OF ps(2,1,3)] by blast
  have lkl: "length lk' = za_numLines a" using lk'(2) wf(1) by (simp add: za_wf_def)
  have last: "lk' ! last ?ps = ?lk ! hd ?ps" using lk'(4) c by simp
  note perm = za_insert_perm [OF wf(1,2) mv lkl lk'(3) last lk'(5)]
  note placed = za_insert_placed [OF wf(1-3) mv lkl lk'(3) last lk'(5) refl]
  obtain rp1 where 1: "vt_replaced vt (za_rp a) c = Some rp1" "inv_rp rp1" "lines rp1 = lines (za_rp a)"
    "ready rp1" "fits rp1 = fits (za_rp a)"
    using replaced_ok [of "za_rp a" c] assms(1) cl by (auto simp: za_inv_def)
  obtain rp where 2: "vt_update vt rp1 c req = Some rp" "inv_rp rp" "lines rp = lines rp1"
    "ready rp" "fits rp = fits rp1"
    using update_ok [OF 1(2) _ assms(4), of c] 1(3,4) cl assms(1) by (auto simp: za_inv_def)
  let ?a' = "a\<lparr>za_lookupArray := lk', za_array := (za_array a)[c := x], za_rp := rp,
             za_statSwaps := za_statSwaps a + (of_nat (length (za_swapArray a)) - 1)\<rparr>"
  have "za_postinsert vt a x req c = Some ?a'"
    using hd ps lk'(1) 1(1) 2(1) cl c wf(1) by (simp add: za_postinsert_def za_wf_def)
  moreover have "za_wf ?a'" using wf(1) lkl by (simp add: za_wf_def)
  moreover have "za_perm ?a'" using perm by (simp add: za_perm_def)
  moreover have "za_placed hash ?a'" using placed c by (simp add: za_placed_def)
  moreover have "za_unique ?a'"
    unfolding za_unique_def
  proof (intro allI impI)
    fix i j assume "i < za_numLines ?a'" "j < za_numLines ?a'" "za_array ?a' ! i \<noteq> 0" "za_array ?a' ! i = za_array ?a' ! j"
    then show "i = j"
      using cl absent wf(1) za_uniqueD [OF wf(4), of i j] by (cases "i = c"; cases "j = c") (auto simp: za_wf_def)
  qed
  ultimately have "inv_z ?a'" using assms(1) 1 2 by (simp add: za_inv_def)
  then show ?thesis using \<open>za_postinsert vt a x req c = Some ?a'\<close> 2(4) cl
    by (intro exI [of _ ?a']) simp
qed

lemma za_where_insert:
  assumes "inv_z a" "inv_z a'" "x \<noteq> 0" "c < za_numLines a" "za_array a' = (za_array a)[c := x]"
    "za_numLines a' = za_numLines a"
  shows "za_where a' y = (if y = x then Some c else if za_where a y = Some c then None else za_where a y)"
proof -
  have u: "za_unique a" "za_unique a'" "length (za_array a) = za_numLines a"
    using assms(1,2) by (simp_all add: za_inv_def za_wf_def)
  have iff: "za_where a' y = Some i \<longleftrightarrow> (if i = c then y = x else za_where a y = Some i)" for i
    using za_where_iff [OF u(2), of y i] za_where_iff [OF u(1), of y i] assms(3-6) u(3)
    by (auto simp: nth_list_update)
  show ?thesis
  proof (cases "y = x")
    case False
    then show ?thesis using iff by (intro option_eqI) (auto split: if_splits)
  qed (use iff [of c] in simp)
qed

sublocale arr: cache_array "za_lookup vt hash" "za_preinsert vt hash"
  "\<lambda>a w x req c. map_option (\<lambda>a. (a, w)) (za_postinsert vt a x req c)"
  "\<lambda>a. inv_z a \<and> ready (za_rp a)" "\<lambda>a x c. inv_z a \<and> za_pend hash a x c" za_where za_numLines
proof (unfold_locales, goal_cases)
  case (1 a)
  then show ?case by (simp add: za_where_def)
next
  case (2 a x i)
  then show ?case using za_where_iff [of a x i] by (simp add: za_inv_def)
next
  case (3 a x i y)
  then show ?case using za_where_iff [of a x i] za_where_iff [of a y i] by (simp add: za_inv_def)
next
  case (4 a addr)
  then show ?case using za_lookup_quiet by blast
next
  case (5 a addr upd req)
  then show ?case using za_lookup_update [of a addr upd req] by fastforce
next
  case (6 a addr cc req)
  then obtain a' c where a': "za_preinsert vt hash cc a addr req = Some (a', c, za_array a ! c)"
    "inv_z a'" "za_pend hash a' addr c" "c < za_numLines a" "za_numLines a' = za_numLines a" "za_where a' = za_where a"
    using za_preinsert_ok [of a addr cc req] by blast
  moreover have "za_where a x = Some c \<longleftrightarrow> x = za_array a ! c \<and> za_array a ! c \<noteq> 0" for x
    using za_where_iff [of a x c] 6(1) a'(4) by (auto simp: za_inv_def)
  ultimately show ?case by (intro exI [of _ a'] exI [of _ c] exI [of _ "za_array a ! c"]) simp
next
  case (7 a addr c x)
  then show ?case using za_lookup_quiet by blast
next
  case (8 a addr c x i y)
  then show ?case using za_where_iff [of a x i] za_where_iff [of a y i] by (simp add: za_inv_def)
next
  case (9 a addr c req w)
  then obtain a' where a': "za_postinsert vt a addr req c = Some a'" "inv_z a'" "ready (za_rp a')"
    "za_numLines a' = za_numLines a" "za_array a' = (za_array a)[c := addr]" "c < za_numLines a"
    using za_postinsert_ok [of a addr c req] by blast
  have "za_where a' = (\<lambda>x. if x = addr then Some c else if za_where a x = Some c then None else za_where a x)"
    by (rule ext, rule za_where_insert) (use 9 a' in simp_all)
  then show ?case using a' by (intro exI [of _ a'] exI [of _ w]) simp
qed

end

interpretation lru_za: za_over_policy "LRUReplPolicy sa" "\<lambda>_. True" "\<lambda>_. True"
  "\<lambda>p. length (lru_array p)" "\<lambda>_ _. True" "h3_hash h" "if h3_wf h then h3_numFuncs h else 0" for sa h
  by unfold_locales (auto dest: h3_hash_total split: if_splits)

abbreviation zlru_inv :: "h3_family \<Rightarrow> lru z_array \<Rightarrow> bool" where
  "zlru_inv h \<equiv> za_inv (h3_hash h) (\<lambda>_. True) (\<lambda>p. length (lru_array p)) (\<lambda>_ _. True) (if h3_wf h then h3_numFuncs h else 0)"

lemma ZArray_new_inv:
  assumes "ZArray_new n ways cands (lru_new n) = Some a" "n < 2 ^ 32" "h3_wf h" "ways \<le> h3_numFuncs h"
  shows "zlru_inv h a" "za_where a x = None"
proof -
  have "n div ways * ways = n" if "n mod ways = 0" using that by (simp add: mod_0_imp_dvd)
  then have wf: "za_wf a" using assms(1,2) by (auto simp: ZArray_new_def za_wf_def bind_eq_Some_conv Let_def)
  have a: "za_array a = replicate n 0" "za_lookupArray a = [0..<n]" "za_numLines a = n" "za_rp a = lru_new n" "za_ways a = ways"
    using assms(1) by (auto simp: ZArray_new_def bind_eq_Some_conv Let_def)
  show "zlru_inv h a"
    using wf assms(3,4) a by (auto simp: za_inv_def za_perm_def za_placed_def za_unique_def lru_new_def)
  show "za_where a x = None" using a by (simp add: za_where_def find_None_iff)
qed

section \<open>Properties\<close>

text \<open>
  C5. Inserting an absent address into a zcache array with H3 hashing and LRU replacement never fails an
  assertion or leaves an array, keeps the invariant, and changes the set of lines held by exactly the
  victim and the new address; every line held can be looked up afterwards.
\<close>

theorem zcache_insert_exact:
  assumes "zlru_inv h a" "x \<noteq> 0" "za_where a x = None" "IsGet (mr_type req)"
  shows "\<exists>a1 c wb a2. za_preinsert (LRUReplPolicy sa) (h3_hash h) cc a x req = Some (a1, c, wb) \<and>
    za_postinsert (LRUReplPolicy sa) a1 x req c = Some a2 \<and> zlru_inv h a2 \<and>
    (\<forall>y. za_where a2 y = (if y = x then Some c else if y = wb then None else za_where a y)) \<and>
    (\<forall>y. y \<noteq> 0 \<longrightarrow> za_lookup (LRUReplPolicy sa) (h3_hash h) a2 y None False = Some (a2, za_where a2 y))"
proof -
  obtain w :: cworld where w: "\<not> cw_l1 w" by (metis cworld.select_convs(3))
  obtain a1 c wb a2 where "za_preinsert (LRUReplPolicy sa) (h3_hash h) cc a x req = Some (a1, c, wb)"
    "za_postinsert (LRUReplPolicy sa) a1 x req c = Some a2" "zlru_inv h a2"
    "za_where a2 = (\<lambda>y. if y = x then Some c else if y = wb then None else za_where a y)"
    using lru_za.arr.insert_after_miss [of h a x req w sa cc] assms w by auto
  then show ?thesis using lru_za.za_lookup_quiet [of h a2 _ sa] by auto
qed

theorem zcache_insert_exact_witness:
  "\<exists>h a a1 c wb a2. H3HashFamily 2 64 7 = Some h \<and> ZArray_new 8 2 4 (lru_new 8) = Some a \<and>
    za_preinsert (LRUReplPolicy False) (h3_hash h) all_valid_cc a 5 any_req = Some (a1, c, wb) \<and>
    za_postinsert (LRUReplPolicy False) a1 5 any_req c = Some a2 \<and> zlru_inv h a2 \<and> za_where a2 5 = Some c"
proof -
  obtain h where h: "H3HashFamily 2 64 7 = Some h" "h3_wf h" "h3_numFuncs h = 2"
    using H3HashFamily_wf [of 64 2 7] by auto
  obtain a where a: "ZArray_new 8 2 4 (lru_new 8) = Some a" by (simp add: ZArray_new_def isPow2_def)
  have i: "zlru_inv h a" "za_where a 5 = None" using ZArray_new_inv [OF a, of h] h by auto
  have "IsGet (mr_type any_req)" by (simp add: any_req_def IsGet_def)
  from zcache_insert_exact [OF i(1) _ i(2) this, of False all_valid_cc] h(1) a show ?thesis by fastforce
qed

text \<open>
  A new zcache array of a power-of-two number of sets satisfies the invariant and holds no line.
\<close>

theorem zcache_new_invariant:
  assumes "ZArray_new n ways cands (lru_new n) = Some a" "n < 2 ^ 32" "h3_wf h" "ways \<le> h3_numFuncs h"
  shows "zlru_inv h a \<and> (\<forall>x. za_where a x = None)"
  using ZArray_new_inv [OF assms] by blast

theorem zcache_new_invariant_witness:
  "\<exists>h a. ZArray_new 8 2 4 (lru_new 8) = Some a \<and> zlru_inv h a \<and> (\<forall>x. za_where a x = None)"
proof -
  obtain h where h: "h3_wf h" "h3_numFuncs h = 2" using H3HashFamily_wf [of 64 2 7] by auto
  obtain a where a: "ZArray_new 8 2 4 (lru_new 8) = Some a" by (simp add: ZArray_new_def isPow2_def)
  from zcache_new_invariant [OF a, of h] h have "zlru_inv h a \<and> (\<forall>x. za_where a x = None)" by simp
  with a show ?thesis by blast
qed

end
