(* ===== verification/Coherence.thy ===== *)
theory Coherence
  imports MemHier
begin

text \<open>
  The MESI coherence controllers (\<^verbatim>\<open>src/coherence_ctrls.h\<close>, \<^verbatim>\<open>src/coherence_ctrls.cpp\<close>).

  State. \<open>bcc\<close> is a \<open>MESIBottomCC\<close> (one coherence state per line, the parents and their network
  round trips, the profiling counters), \<open>tcc\<close> a \<open>MESITopCC\<close> (one directory entry per line, the
  children). All controllers of a hierarchy live in one store, \<open>coh_sys\<close>, indexed by the id of the
  cache they belong to: a parent's controller writes its child's state through a pointer, and a
  parent's access may invalidate lines of the very cache that issued it, so the controllers share
  memory. \<open>held\<close> is the set of locks taken; \<open>cc_lock\<close> on a held lock would wait for ever and is
  \<open>None\<close>. The record is extensible, so that caches add their arrays to it.

  Virtual calls. \<open>parents[p]->access(req)\<close> and \<open>children[c]->invalidate(req)\<close> are virtual; the
  operations take the function they dispatch to as an argument (\<open>accf\<close>, \<open>invf\<close>), and the caches tie
  the knot. The out-parameters \<open>bool*\<close> are passed in and returned.
\<close>

section \<open>Definitions\<close>

record bcc =
  bcc_array :: "MESIState list"
  bcc_parents :: "nat list"
  bcc_parentRTTs :: "u32 list"
  bcc_numLines :: nat
  bcc_selfId :: nat
  profGETSHit :: u64
  profGETSMiss :: u64
  profGETXHit :: u64
  profGETXMissIM :: u64
  profGETXMissSM :: u64
  profPUTS :: u64
  profPUTX :: u64
  profINV :: u64
  profINVX :: u64
  profFWD :: u64
  profGETNextLevelLat :: u64
  profGETNetLat :: u64
  bcc_nonInclusiveHack :: bool

record tcc_entry =
  numSharers :: u32
  sharers :: "bool list"
  exclusive :: bool

record tcc =
  tcc_array :: "tcc_entry list"
  tcc_children :: "nat list"
  tcc_childrenRTTs :: "u32 list"
  tcc_numLines :: nat
  tcc_nonInclusiveHack :: bool

record coh_sys =
  bcc_of :: "nat \<Rightarrow> bcc"
  tcc_of :: "nat \<Rightarrow> tcc"
  held :: "lock_id set"

text \<open>Access through a virtual call: the response cycle. Invalidation: response and writeback flag.\<close>

type_synonym 'z access_fn =
  "'z coh_sys_scheme \<Rightarrow> nat \<Rightarrow> mem_req \<Rightarrow> ('z coh_sys_scheme \<times> u64) option"

type_synonym 'z inv_fn =
  "'z coh_sys_scheme \<Rightarrow> nat \<Rightarrow> inv_req \<Rightarrow> ('z coh_sys_scheme \<times> u64 \<times> bool) option"

definition MAX_CACHE_CHILDREN :: nat where "MAX_CACHE_CHILDREN = 256"

subsection \<open>The store\<close>

definition upd_bcc :: "nat \<Rightarrow> (bcc \<Rightarrow> bcc) \<Rightarrow> 'z coh_sys_scheme \<Rightarrow> 'z coh_sys_scheme" where
  "upd_bcc c f s = s\<lparr>bcc_of := (bcc_of s)(c := f (bcc_of s c))\<rparr>"

definition upd_tcc :: "nat \<Rightarrow> (tcc \<Rightarrow> tcc) \<Rightarrow> 'z coh_sys_scheme \<Rightarrow> 'z coh_sys_scheme" where
  "upd_tcc c f s = s\<lparr>tcc_of := (tcc_of s)(c := f (tcc_of s c))\<rparr>"

definition get_state :: "'z coh_sys_scheme \<Rightarrow> nat \<Rightarrow> nat \<Rightarrow> MESIState option" where
  "get_state s c lineId = aget (bcc_array (bcc_of s c)) lineId"

definition set_state :: "'z coh_sys_scheme \<Rightarrow> nat \<Rightarrow> nat \<Rightarrow> MESIState \<Rightarrow> 'z coh_sys_scheme option" where
  "set_state s c lineId st =
     do { a \<leftarrow> aset (bcc_array (bcc_of s c)) lineId st;
          Some (upd_bcc c (\<lambda>b. b\<lparr>bcc_array := a\<rparr>) s) }"

fun deref :: "'z coh_sys_scheme \<Rightarrow> state_ptr \<Rightarrow> MESIState option" where
  "deref s (BccSlot c lineId) = get_state s c lineId"
| "deref s (LocalState st) = Some st"

text \<open>A core's local \<open>dummyState\<close> is not read again after the call that writes it.\<close>

fun write_ptr :: "'z coh_sys_scheme \<Rightarrow> state_ptr \<Rightarrow> MESIState \<Rightarrow> 'z coh_sys_scheme option" where
  "write_ptr s (BccSlot c lineId) st = set_state s c lineId st"
| "write_ptr s (LocalState _) st = Some s"

definition cc_lock :: "lock_id \<Rightarrow> 'z coh_sys_scheme \<Rightarrow> 'z coh_sys_scheme option" where
  "cc_lock l s = (if l \<in> held s then None else Some (s\<lparr>held := insert l (held s)\<rparr>))"

definition cc_unlock :: "lock_id \<Rightarrow> 'z coh_sys_scheme \<Rightarrow> 'z coh_sys_scheme" where
  "cc_unlock l s = s\<lparr>held := held s - {l}\<rparr>"

subsection \<open>The bottom controller\<close>

definition MESIBottomCC_new :: "nat \<Rightarrow> nat \<Rightarrow> bool \<Rightarrow> bcc" where
  "MESIBottomCC_new numLines selfId nonInclusiveHack =
     \<lparr>bcc_array = replicate numLines I, bcc_parents = [], bcc_parentRTTs = [],
      bcc_numLines = numLines, bcc_selfId = selfId,
      profGETSHit = 0, profGETSMiss = 0, profGETXHit = 0, profGETXMissIM = 0, profGETXMissSM = 0,
      profPUTS = 0, profPUTX = 0, profINV = 0, profINVX = 0, profFWD = 0,
      profGETNextLevelLat = 0, profGETNetLat = 0, bcc_nonInclusiveHack = nonInclusiveHack\<rparr>"

definition bcc_isExclusive :: "'z coh_sys_scheme \<Rightarrow> nat \<Rightarrow> nat \<Rightarrow> bool option" where
  "bcc_isExclusive s c lineId =
     do { state \<leftarrow> get_state s c lineId; Some (state = E \<or> state = M) }"

definition bcc_isValid :: "'z coh_sys_scheme \<Rightarrow> nat \<Rightarrow> nat \<Rightarrow> bool option" where
  "bcc_isValid s c lineId = do { state \<leftarrow> get_state s c lineId; Some (state \<noteq> I) }"

text \<open>Round trips come from the network description when there is one, and are 0 otherwise.\<close>

definition bcc_init :: "nat list \<Rightarrow> (nat \<Rightarrow> u32) option \<Rightarrow> bcc \<Rightarrow> bcc" where
  "bcc_init parents getRTT b =
     b\<lparr>bcc_parents := parents,
       bcc_parentRTTs := map (\<lambda>p. case getRTT of Some f \<Rightarrow> f p | None \<Rightarrow> 0) parents\<rparr>"

fun getParentId_loop :: "nat \<Rightarrow> u32 \<Rightarrow> u64 \<Rightarrow> u32" where
  "getParentId_loop 0 res tmp = res"
| "getParentId_loop (Suc n) res tmp =
     getParentId_loop n (res XOR ucast (0xffff AND tmp)) (drop_bit 16 tmp)"

definition getParentId :: "bcc \<Rightarrow> Address \<Rightarrow> nat option" where
  "getParentId b lineAddr =
     (if bcc_parents b = [] then None
      else Some (unat (getParentId_loop 4 0 lineAddr) mod length (bcc_parents b)))"

text \<open>The request a bottom controller sends up for one of its own lines.\<close>

definition bcc_req ::
  "'z coh_sys_scheme \<Rightarrow> nat \<Rightarrow> Address \<Rightarrow> AccessType \<Rightarrow> state_ptr \<Rightarrow> u64 \<Rightarrow> MESIState \<Rightarrow> u32 \<Rightarrow> u32 \<Rightarrow> mem_req" where
  "bcc_req s c lineAddr type ptr cycle st srcId flags =
     \<lparr>mr_lineAddr = lineAddr, mr_type = type, mr_childId = bcc_selfId (bcc_of s c), mr_state = ptr,
      mr_cycle = cycle, mr_childLock = Some (BccLock c), mr_initialState = st,
      mr_srcId = srcId, mr_flags = flags\<rparr>"

definition bcc_processEviction ::
  "'z access_fn \<Rightarrow> 'z coh_sys_scheme \<Rightarrow> nat \<Rightarrow> Address \<Rightarrow> nat \<Rightarrow> bool \<Rightarrow> u64 \<Rightarrow> u32 \<Rightarrow> bool \<Rightarrow>
    ('z coh_sys_scheme \<times> u64 \<times> bool) option" where
  "bcc_processEviction accf s c wbLineAddr lineId lowerLevelWriteback cycle srcId downgrade = do {
     st \<leftarrow> get_state s c lineId;
     s \<leftarrow> (if lowerLevelWriteback then do {
             assert_that (st = M \<or> st = E);
             set_state s c lineId M }
           else Some s);
     st \<leftarrow> get_state s c lineId;
     (s, respCycle, downgrade) \<leftarrow> (case st of
         I \<Rightarrow> Some (s, cycle, downgrade)
       | M \<Rightarrow> do {
           p \<leftarrow> getParentId (bcc_of s c) wbLineAddr;
           (s, r) \<leftarrow> accf s (bcc_parents (bcc_of s c) ! p)
                        (bcc_req s c wbLineAddr PUTX (BccSlot c lineId) cycle st srcId 0);
           Some (s, r, True) }
       | _ \<Rightarrow> do {
           p \<leftarrow> getParentId (bcc_of s c) wbLineAddr;
           (s, r) \<leftarrow> accf s (bcc_parents (bcc_of s c) ! p)
                        (bcc_req s c wbLineAddr PUTS (BccSlot c lineId) cycle st srcId 0);
           Some (s, r, downgrade) });
     st \<leftarrow> get_state s c lineId;
     assert_that (st = I);
     Some (s, respCycle, downgrade) }"

text \<open>
  A miss or an upgrade asks the parent. \<open>nextLevelLat\<close> and \<open>netLat\<close> are \<open>uint32_t\<close>: the latency is
  truncated and their sum wraps at 32 bits before it is added to the 64-bit cycle.
\<close>

definition bcc_askParent ::
  "'z access_fn \<Rightarrow> 'z coh_sys_scheme \<Rightarrow> nat \<Rightarrow> Address \<Rightarrow> nat \<Rightarrow> AccessType \<Rightarrow> u64 \<Rightarrow> MESIState \<Rightarrow> u32 \<Rightarrow> u32 \<Rightarrow>
    ('z coh_sys_scheme \<times> u64) option" where
  "bcc_askParent accf s c lineAddr lineId type cycle st srcId flags = do {
     parentId \<leftarrow> getParentId (bcc_of s c) lineAddr;
     (s, r) \<leftarrow> accf s (bcc_parents (bcc_of s c) ! parentId)
                  (bcc_req s c lineAddr type (BccSlot c lineId) cycle st srcId flags);
     let nextLevelLat = (ucast (r - cycle) :: u32);
     netLat \<leftarrow> aget (bcc_parentRTTs (bcc_of s c)) parentId;
     let s = upd_bcc c (\<lambda>b. b\<lparr>profGETNextLevelLat := profGETNextLevelLat b + ucast nextLevelLat,
                              profGETNetLat := profGETNetLat b + ucast netLat\<rparr>) s;
     Some (s, cycle + ucast (nextLevelLat + netLat)) }"

definition bcc_processAccess ::
  "'z access_fn \<Rightarrow> 'z coh_sys_scheme \<Rightarrow> nat \<Rightarrow> Address \<Rightarrow> nat \<Rightarrow> AccessType \<Rightarrow> u64 \<Rightarrow> u32 \<Rightarrow> u32 \<Rightarrow>
    ('z coh_sys_scheme \<times> u64) option" where
  "bcc_processAccess accf s c lineAddr lineId type cycle srcId flags = do {
     st \<leftarrow> get_state s c lineId;
     (s, respCycle) \<leftarrow> (case type of
         PUTS \<Rightarrow> do {
           assert_that (st \<noteq> I);
           Some (upd_bcc c (\<lambda>b. b\<lparr>profPUTS := profPUTS b + 1\<rparr>) s, cycle) }
       | PUTX \<Rightarrow> do {
           assert_that (st = M \<or> st = E);
           s \<leftarrow> (if st = E then set_state s c lineId M else Some s);
           Some (upd_bcc c (\<lambda>b. b\<lparr>profPUTX := profPUTX b + 1\<rparr>) s, cycle) }
       | GETS \<Rightarrow>
           if st = I then do {
             (s, respCycle) \<leftarrow> bcc_askParent accf s c lineAddr lineId GETS cycle st srcId flags;
             let s = upd_bcc c (\<lambda>b. b\<lparr>profGETSMiss := profGETSMiss b + 1\<rparr>) s;
             st' \<leftarrow> get_state s c lineId;
             assert_that (st' = S \<or> st' = E);
             Some (s, respCycle) }
           else Some (upd_bcc c (\<lambda>b. b\<lparr>profGETSHit := profGETSHit b + 1\<rparr>) s, cycle)
       | GETX \<Rightarrow> do {
           (s, respCycle) \<leftarrow>
             (if st = I \<or> st = S then do {
                let s = upd_bcc c (\<lambda>b. if st = I then b\<lparr>profGETXMissIM := profGETXMissIM b + 1\<rparr>
                                       else b\<lparr>profGETXMissSM := profGETXMissSM b + 1\<rparr>) s;
                bcc_askParent accf s c lineAddr lineId GETX cycle st srcId flags }
              else do {
                s \<leftarrow> (if st = E then set_state s c lineId M else Some s);
                Some (upd_bcc c (\<lambda>b. b\<lparr>profGETXHit := profGETXHit b + 1\<rparr>) s, cycle) });
           st' \<leftarrow> get_state s c lineId;
           assert_that (st' = M);
           Some (s, respCycle) });
     assert_that (cycle \<le> respCycle);
     Some (s, respCycle) }"

definition bcc_processWritebackOnAccess ::
  "'z coh_sys_scheme \<Rightarrow> nat \<Rightarrow> nat \<Rightarrow> 'z coh_sys_scheme option" where
  "bcc_processWritebackOnAccess s c lineId = do {
     st \<leftarrow> get_state s c lineId;
     assert_that (st = M \<or> st = E);
     if st = E then set_state s c lineId M else Some s }"

definition bcc_processInval ::
  "'z coh_sys_scheme \<Rightarrow> nat \<Rightarrow> nat \<Rightarrow> InvType \<Rightarrow> bool \<Rightarrow> ('z coh_sys_scheme \<times> bool) option" where
  "bcc_processInval s c lineId type reqWriteback = do {
     st \<leftarrow> get_state s c lineId;
     assert_that (st \<noteq> I);
     (case type of
        INVX \<Rightarrow> do {
          assert_that (st = E \<or> st = M);
          s \<leftarrow> set_state s c lineId S;
          Some (upd_bcc c (\<lambda>b. b\<lparr>profINVX := profINVX b + 1\<rparr>) s, reqWriteback \<or> st = M) }
      | INV \<Rightarrow> do {
          s \<leftarrow> set_state s c lineId I;
          Some (upd_bcc c (\<lambda>b. b\<lparr>profINV := profINV b + 1\<rparr>) s, reqWriteback \<or> st = M) }
      | FWD \<Rightarrow> do {
          assert_that (st = S);
          Some (upd_bcc c (\<lambda>b. b\<lparr>profFWD := profFWD b + 1\<rparr>) s, reqWriteback) }) }"

definition bcc_processNonInclusiveWriteback ::
  "'z access_fn \<Rightarrow> 'z coh_sys_scheme \<Rightarrow> nat \<Rightarrow> Address \<Rightarrow> AccessType \<Rightarrow> u64 \<Rightarrow> state_ptr \<Rightarrow> u32 \<Rightarrow> u32 \<Rightarrow>
    ('z coh_sys_scheme \<times> u64) option" where
  "bcc_processNonInclusiveWriteback accf s c lineAddr type cycle ptr srcId flags = do {
     assert_that (bcc_nonInclusiveHack (bcc_of s c));
     st \<leftarrow> deref s ptr;
     p \<leftarrow> getParentId (bcc_of s c) lineAddr;
     accf s (bcc_parents (bcc_of s c) ! p)
         (bcc_req s c lineAddr type ptr cycle st srcId (flags OR NONINCLWB)) }"

subsection \<open>The top controller\<close>

definition entry_clear :: "tcc_entry \<Rightarrow> tcc_entry" where
  "entry_clear e = e\<lparr>exclusive := False, numSharers := 0, sharers := replicate MAX_CACHE_CHILDREN False\<rparr>"

definition entry_isEmpty :: "tcc_entry \<Rightarrow> bool" where
  "entry_isEmpty e \<longleftrightarrow> numSharers e = 0"

definition entry_isExclusive :: "tcc_entry \<Rightarrow> bool" where
  "entry_isExclusive e \<longleftrightarrow> numSharers e = 1 \<and> exclusive e"

definition MESITopCC_new :: "nat \<Rightarrow> bool \<Rightarrow> tcc" where
  "MESITopCC_new numLines nonInclusiveHack =
     \<lparr>tcc_array = replicate numLines (entry_clear \<lparr>numSharers = 0, sharers = [], exclusive = False\<rparr>),
      tcc_children = [], tcc_childrenRTTs = [], tcc_numLines = numLines,
      tcc_nonInclusiveHack = nonInclusiveHack\<rparr>"

definition tcc_init :: "nat list \<Rightarrow> (nat \<Rightarrow> u32) option \<Rightarrow> tcc \<Rightarrow> tcc option" where
  "tcc_init children getRTT t =
     (if length children > MAX_CACHE_CHILDREN then None
      else Some (t\<lparr>tcc_children := children,
                   tcc_childrenRTTs := map (\<lambda>p. case getRTT of Some f \<Rightarrow> f p | None \<Rightarrow> 0) children\<rparr>))"

definition get_entry :: "'z coh_sys_scheme \<Rightarrow> nat \<Rightarrow> nat \<Rightarrow> tcc_entry option" where
  "get_entry s c lineId = aget (tcc_array (tcc_of s c)) lineId"

definition set_entry :: "'z coh_sys_scheme \<Rightarrow> nat \<Rightarrow> nat \<Rightarrow> tcc_entry \<Rightarrow> 'z coh_sys_scheme option" where
  "set_entry s c lineId e =
     do { a \<leftarrow> aset (tcc_array (tcc_of s c)) lineId e;
          Some (upd_tcc c (\<lambda>t. t\<lparr>tcc_array := a\<rparr>) s) }"

text \<open>
  The loop of \<open>sendInvalidates\<close> over the children \<open>ch, ch + 1, ...\<close>: it accumulates the latest
  response, the writeback flag and the number of invalidations sent.
\<close>

fun sendInvalidates_loop ::
  "'z inv_fn \<Rightarrow> 'z coh_sys_scheme \<Rightarrow> nat \<Rightarrow> Address \<Rightarrow> nat \<Rightarrow> InvType \<Rightarrow> bool \<Rightarrow> u64 \<Rightarrow> u32 \<Rightarrow>
    nat list \<Rightarrow> nat \<Rightarrow> u64 \<Rightarrow> nat \<Rightarrow> ('z coh_sys_scheme \<times> u64 \<times> bool \<times> nat) option" where
  "sendInvalidates_loop invf s c lineAddr lineId type wb cycle srcId [] ch maxCycle sent =
     Some (s, maxCycle, wb, sent)"
| "sendInvalidates_loop invf s c lineAddr lineId type wb cycle srcId (child # rest) ch maxCycle sent = do {
     e \<leftarrow> get_entry s c lineId;
     shared \<leftarrow> aget (sharers e) ch;
     if shared then do {
       (s, respCycle, wb) \<leftarrow> invf s child
          \<lparr>ir_lineAddr = lineAddr, ir_type = type, ir_writeback = wb, ir_cycle = cycle, ir_srcId = srcId\<rparr>;
       rtt \<leftarrow> aget (tcc_childrenRTTs (tcc_of s c)) ch;
       let maxCycle = zMAX (respCycle + ucast rtt) maxCycle;
       e \<leftarrow> get_entry s c lineId;
       s \<leftarrow> (if type = INV then set_entry s c lineId (e\<lparr>sharers := (sharers e)[ch := False]\<rparr>) else Some s);
       sendInvalidates_loop invf s c lineAddr lineId type wb cycle srcId rest (Suc ch) maxCycle (Suc sent) }
     else sendInvalidates_loop invf s c lineAddr lineId type wb cycle srcId rest (Suc ch) maxCycle sent }"

definition sendInvalidates ::
  "'z inv_fn \<Rightarrow> 'z coh_sys_scheme \<Rightarrow> nat \<Rightarrow> Address \<Rightarrow> nat \<Rightarrow> InvType \<Rightarrow> bool \<Rightarrow> u64 \<Rightarrow> u32 \<Rightarrow>
    ('z coh_sys_scheme \<times> u64 \<times> bool) option" where
  "sendInvalidates invf s c lineAddr lineId type reqWriteback cycle srcId = do {
     e \<leftarrow> get_entry s c lineId;
     if type = INVX \<and> \<not> entry_isExclusive e then Some (s, cycle, reqWriteback)
     else if entry_isEmpty e then Some (s, cycle, reqWriteback)
     else do {
       (s, maxCycle, reqWriteback, sentInvs) \<leftarrow>
          sendInvalidates_loop invf s c lineAddr lineId type reqWriteback cycle srcId
            (tcc_children (tcc_of s c)) 0 cycle 0;
       e \<leftarrow> get_entry s c lineId;
       assert_that (sentInvs = unat (numSharers e));
       s \<leftarrow> (if type = INV then set_entry s c lineId (e\<lparr>numSharers := 0\<rparr>)
             else do {
               assert_that (exclusive e);
               assert_that (numSharers e = 1);
               set_entry s c lineId (e\<lparr>exclusive := False\<rparr>) });
       Some (s, maxCycle, reqWriteback) } }"

definition tcc_processEviction ::
  "'z inv_fn \<Rightarrow> 'z coh_sys_scheme \<Rightarrow> nat \<Rightarrow> Address \<Rightarrow> nat \<Rightarrow> bool \<Rightarrow> u64 \<Rightarrow> u32 \<Rightarrow>
    ('z coh_sys_scheme \<times> u64 \<times> bool) option" where
  "tcc_processEviction invf s c wbLineAddr lineId reqWriteback cycle srcId =
     (if tcc_nonInclusiveHack (tcc_of s c) then do {
        e \<leftarrow> get_entry s c lineId;
        s \<leftarrow> set_entry s c lineId (entry_clear e);
        Some (s, cycle, reqWriteback) }
      else sendInvalidates invf s c wbLineAddr lineId INV reqWriteback cycle srcId)"

text \<open>Removing a child from the sharer set, the common tail of \<open>PUTX\<close> and \<open>PUTS\<close>.\<close>

definition tcc_dropSharer ::
  "'z coh_sys_scheme \<Rightarrow> nat \<Rightarrow> nat \<Rightarrow> nat \<Rightarrow> state_ptr \<Rightarrow> 'z coh_sys_scheme option" where
  "tcc_dropSharer s c lineId childId childState = do {
     e \<leftarrow> get_entry s c lineId;
     shared \<leftarrow> aget (sharers e) childId;
     assert_that shared;
     s \<leftarrow> set_entry s c lineId
           (e\<lparr>sharers := (sharers e)[childId := False], numSharers := numSharers e - 1\<rparr>);
     write_ptr s childState I }"

definition tcc_processAccess ::
  "'z inv_fn \<Rightarrow> 'z coh_sys_scheme \<Rightarrow> nat \<Rightarrow> Address \<Rightarrow> nat \<Rightarrow> AccessType \<Rightarrow> nat \<Rightarrow> bool \<Rightarrow> state_ptr \<Rightarrow>
    bool \<Rightarrow> u64 \<Rightarrow> u32 \<Rightarrow> u32 \<Rightarrow> ('z coh_sys_scheme \<times> u64 \<times> bool) option" where
  "tcc_processAccess invf s c lineAddr lineId type childId haveExclusive childState inducedWriteback
     cycle srcId flags = do {
     e \<leftarrow> get_entry s c lineId;
     shared \<leftarrow> aget (sharers e) childId;
     (case type of
        PUTX \<Rightarrow> do {
          assert_that (entry_isExclusive e);
          if has_flag flags PUTX_KEEPEXCL then do {
            assert_that shared;
            st \<leftarrow> deref s childState;
            assert_that (st = M);
            s \<leftarrow> write_ptr s childState E;
            Some (s, cycle, inducedWriteback) }
          else do {
            s \<leftarrow> tcc_dropSharer s c lineId childId childState;
            Some (s, cycle, inducedWriteback) } }
      | PUTS \<Rightarrow> do {
          s \<leftarrow> tcc_dropSharer s c lineId childId childState;
          Some (s, cycle, inducedWriteback) }
      | GETS \<Rightarrow>
          if entry_isEmpty e \<and> haveExclusive \<and> \<not> has_flag flags NOEXCL then do {
            s \<leftarrow> set_entry s c lineId
                  (e\<lparr>exclusive := True, sharers := (sharers e)[childId := True], numSharers := 1\<rparr>);
            s \<leftarrow> write_ptr s childState E;
            Some (s, cycle, inducedWriteback) }
          else do {
            assert_that (\<not> shared);
            (s, respCycle, inducedWriteback) \<leftarrow>
               (if entry_isExclusive e
                then sendInvalidates invf s c lineAddr lineId INVX inducedWriteback cycle srcId
                else Some (s, cycle, inducedWriteback));
            e \<leftarrow> get_entry s c lineId;
            assert_that (\<not> entry_isExclusive e);
            s \<leftarrow> set_entry s c lineId
                  (e\<lparr>sharers := (sharers e)[childId := True], numSharers := numSharers e + 1,
                     exclusive := False\<rparr>);
            s \<leftarrow> write_ptr s childState S;
            Some (s, respCycle, inducedWriteback) }
      | GETX \<Rightarrow> do {
          assert_that haveExclusive;
          s \<leftarrow> (if shared then do {
                  assert_that (\<not> entry_isExclusive e);
                  set_entry s c lineId
                    (e\<lparr>sharers := (sharers e)[childId := False], numSharers := numSharers e - 1\<rparr>) }
                else Some s);
          (s, respCycle, inducedWriteback) \<leftarrow>
             sendInvalidates invf s c lineAddr lineId INV inducedWriteback cycle srcId;
          e \<leftarrow> get_entry s c lineId;
          let e = e\<lparr>sharers := (sharers e)[childId := True], numSharers := numSharers e + 1,
                    exclusive := True\<rparr>;
          s \<leftarrow> set_entry s c lineId e;
          assert_that (numSharers e = 1);
          s \<leftarrow> write_ptr s childState M;
          Some (s, respCycle, inducedWriteback) }) }"

definition tcc_processInval ::
  "'z inv_fn \<Rightarrow> 'z coh_sys_scheme \<Rightarrow> nat \<Rightarrow> Address \<Rightarrow> nat \<Rightarrow> InvType \<Rightarrow> bool \<Rightarrow> u64 \<Rightarrow> u32 \<Rightarrow>
    ('z coh_sys_scheme \<times> u64 \<times> bool) option" where
  "tcc_processInval invf s c lineAddr lineId type reqWriteback cycle srcId =
     (if type = FWD then do {
        assert_that (\<not> tcc_nonInclusiveHack (tcc_of s c));
        Some (s, cycle, reqWriteback) }
      else sendInvalidates invf s c lineAddr lineId type reqWriteback cycle srcId)"

definition tcc_numSharers :: "'z coh_sys_scheme \<Rightarrow> nat \<Rightarrow> nat \<Rightarrow> u32 option" where
  "tcc_numSharers s c lineId = do { e \<leftarrow> get_entry s c lineId; Some (numSharers e) }"

subsection \<open>Races\<close>

text \<open>The (possibly changed) request type and whether to skip the access; a true race panics.\<close>

definition CheckForMESIRace ::
  "AccessType \<Rightarrow> MESIState \<Rightarrow> MESIState \<Rightarrow> (AccessType \<times> bool) option" where
  "CheckForMESIRace type state initialState =
     (if state \<noteq> initialState then
        (if type = PUTS \<or> type = PUTX then
           (if state = I then Some (type, True)
            else do { assert_that (state = S); Some (if type = PUTX then PUTS else type, False) })
         else if type = GETX then do {
           assert_that (initialState = S);
           assert_that (state = I);
           Some (type, False) }
         else None)
      else Some (type, False))"

subsection \<open>The non-terminal controller\<close>

definition unlock_child :: "mem_req \<Rightarrow> 'z coh_sys_scheme \<Rightarrow> 'z coh_sys_scheme" where
  "unlock_child req s = (case mr_childLock req of Some l \<Rightarrow> cc_unlock l s | None \<Rightarrow> s)"

definition relock_child :: "mem_req \<Rightarrow> 'z coh_sys_scheme \<Rightarrow> 'z coh_sys_scheme option" where
  "relock_child req s = (case mr_childLock req of Some l \<Rightarrow> cc_lock l s | None \<Rightarrow> Some s)"

definition mesicc_startAccess ::
  "'z coh_sys_scheme \<Rightarrow> nat \<Rightarrow> mem_req \<Rightarrow> ('z coh_sys_scheme \<times> mem_req \<times> bool) option" where
  "mesicc_startAccess s c req = do {
     let s = unlock_child req s;
     s \<leftarrow> cc_lock (TccLock c) s;
     s \<leftarrow> cc_lock (BccLock c) s;
     st \<leftarrow> deref s (mr_state req);
     (type, skipAccess) \<leftarrow> CheckForMESIRace (mr_type req) st (mr_initialState req);
     Some (s, req\<lparr>mr_type := type\<rparr>, skipAccess) }"

definition mesicc_shouldAllocate :: "bool \<Rightarrow> mem_req \<Rightarrow> bool option" where
  "mesicc_shouldAllocate nonInclusiveHack req =
     (if mr_type req = GETS \<or> mr_type req = GETX then Some True
      else do { assert_that nonInclusiveHack; Some False })"

definition mesicc_processEviction ::
  "'z access_fn \<Rightarrow> 'z inv_fn \<Rightarrow> 'z coh_sys_scheme \<Rightarrow> nat \<Rightarrow> mem_req \<Rightarrow> Address \<Rightarrow> nat \<Rightarrow> u64 \<Rightarrow> bool \<Rightarrow>
    ('z coh_sys_scheme \<times> u64 \<times> bool) option" where
  "mesicc_processEviction accf invf s c triggerReq wbLineAddr lineId startCycle downgrade = do {
     (s, evCycle, lowerLevelWriteback) \<leftarrow>
        tcc_processEviction invf s c wbLineAddr lineId False startCycle (mr_srcId triggerReq);
     bcc_processEviction accf s c wbLineAddr lineId lowerLevelWriteback evCycle (mr_srcId triggerReq)
        downgrade }"

text \<open>
  \<open>lineId\<close> is \<open>None\<close> for the code's \<open>-1\<close>. The result also carries what is stored in \<open>*getDoneCycle\<close>
  when the caller passes a pointer (\<open>None\<close>: nothing is stored).
\<close>

definition mesicc_processAccess ::
  "'z access_fn \<Rightarrow> 'z inv_fn \<Rightarrow> 'z coh_sys_scheme \<Rightarrow> nat \<Rightarrow> mem_req \<Rightarrow> nat option \<Rightarrow> u64 \<Rightarrow>
    ('z coh_sys_scheme \<times> u64 \<times> u64 option) option" where
  "mesicc_processAccess accf invf s c req lineId startCycle = do {
     bypass \<leftarrow> (case lineId of
        None \<Rightarrow> Some True
      | Some l \<Rightarrow> do { v \<leftarrow> bcc_isValid s c l; Some (IsPut (mr_type req) \<and> \<not> v) });
     if bypass then do {
       assert_that (bcc_nonInclusiveHack (bcc_of s c));
       assert_that (IsPut (mr_type req));
       (s, respCycle) \<leftarrow> bcc_processNonInclusiveWriteback accf s c (mr_lineAddr req) (mr_type req)
          startCycle (mr_state req) (mr_srcId req) (mr_flags req);
       Some (s, respCycle, None) }
     else do {
       l \<leftarrow> lineId;
       let isPrefetch = has_flag (mr_flags req) PREFETCH;
       assert_that (\<not> isPrefetch \<or> mr_type req = GETS);
       let flags = mr_flags req AND NOT PREFETCH;
       (s, respCycle) \<leftarrow> bcc_processAccess accf s c (mr_lineAddr req) l (mr_type req) startCycle
          (mr_srcId req) flags;
       let getDoneCycle = respCycle;
       if isPrefetch then Some (s, respCycle, Some getDoneCycle)
       else do {
         excl \<leftarrow> bcc_isExclusive s c l;
         (s, respCycle, lowerLevelWriteback) \<leftarrow> tcc_processAccess invf s c (mr_lineAddr req) l
            (mr_type req) (mr_childId req) excl (mr_state req) False respCycle (mr_srcId req) flags;
         s \<leftarrow> (if lowerLevelWriteback then bcc_processWritebackOnAccess s c l else Some s);
         Some (s, respCycle, Some getDoneCycle) } } }"

definition mesicc_endAccess :: "'z coh_sys_scheme \<Rightarrow> nat \<Rightarrow> mem_req \<Rightarrow> 'z coh_sys_scheme option" where
  "mesicc_endAccess s c req = do {
     s \<leftarrow> relock_child req s;
     Some (cc_unlock (TccLock c) (cc_unlock (BccLock c) s)) }"

definition cc_startInv :: "'z coh_sys_scheme \<Rightarrow> nat \<Rightarrow> 'z coh_sys_scheme option" where
  "cc_startInv s c = cc_lock (BccLock c) s"

definition mesicc_processInv ::
  "'z inv_fn \<Rightarrow> 'z coh_sys_scheme \<Rightarrow> nat \<Rightarrow> inv_req \<Rightarrow> nat \<Rightarrow> u64 \<Rightarrow> ('z coh_sys_scheme \<times> u64 \<times> bool) option" where
  "mesicc_processInv invf s c req lineId startCycle = do {
     (s, respCycle, wb) \<leftarrow> tcc_processInval invf s c (ir_lineAddr req) lineId (ir_type req)
        (ir_writeback req) startCycle (ir_srcId req);
     (s, wb) \<leftarrow> bcc_processInval s c lineId (ir_type req) wb;
     Some (cc_unlock (BccLock c) s, respCycle, wb) }"

subsection \<open>The terminal controller\<close>

definition termcc_startAccess ::
  "'z coh_sys_scheme \<Rightarrow> nat \<Rightarrow> mem_req \<Rightarrow> ('z coh_sys_scheme \<times> mem_req \<times> bool) option" where
  "termcc_startAccess s c req = do {
     assert_that (IsGet (mr_type req));
     let s = unlock_child req s;
     s \<leftarrow> cc_lock (BccLock c) s;
     st \<leftarrow> deref s (mr_state req);
     (type, skipAccess) \<leftarrow> CheckForMESIRace (mr_type req) st (mr_initialState req);
     Some (s, req\<lparr>mr_type := type\<rparr>, skipAccess) }"

definition termcc_processEviction ::
  "'z access_fn \<Rightarrow> 'z coh_sys_scheme \<Rightarrow> nat \<Rightarrow> mem_req \<Rightarrow> Address \<Rightarrow> nat \<Rightarrow> u64 \<Rightarrow> bool \<Rightarrow>
    ('z coh_sys_scheme \<times> u64 \<times> bool) option" where
  "termcc_processEviction accf s c triggerReq wbLineAddr lineId startCycle downgrade =
     bcc_processEviction accf s c wbLineAddr lineId False startCycle (mr_srcId triggerReq) downgrade"

definition termcc_processAccess ::
  "'z access_fn \<Rightarrow> 'z coh_sys_scheme \<Rightarrow> nat \<Rightarrow> mem_req \<Rightarrow> nat option \<Rightarrow> u64 \<Rightarrow> ('z coh_sys_scheme \<times> u64) option" where
  "termcc_processAccess accf s c req lineId startCycle = do {
     l \<leftarrow> lineId;
     bcc_processAccess accf s c (mr_lineAddr req) l (mr_type req) startCycle (mr_srcId req) (mr_flags req) }"

definition termcc_endAccess :: "'z coh_sys_scheme \<Rightarrow> nat \<Rightarrow> mem_req \<Rightarrow> 'z coh_sys_scheme option" where
  "termcc_endAccess s c req = do {
     s \<leftarrow> relock_child req s;
     Some (cc_unlock (BccLock c) s) }"

definition termcc_processInv ::
  "'z coh_sys_scheme \<Rightarrow> nat \<Rightarrow> inv_req \<Rightarrow> nat \<Rightarrow> u64 \<Rightarrow> ('z coh_sys_scheme \<times> u64 \<times> bool) option" where
  "termcc_processInv s c req lineId startCycle = do {
     (s, wb) \<leftarrow> bcc_processInval s c lineId (ir_type req) (ir_writeback req);
     Some (cc_unlock (BccLock c) s, startCycle, wb) }"

end
