(* ===== verification/PrioQueue.thy ===== *)
theory PrioQueue
  imports BitHacks
begin

text \<open>
  The calendar queue of the contention simulation, \<^verbatim>\<open>src/prio_queue.h\<close>: \<open>B\<close> blocks of 64 one-cycle slots for the
  near future, and an ordered multimap for the far future.

  The queue is intrusive: a slot is a chain of objects linked by their own \<open>next\<close> fields, the store
  \<open>pq_next\<close>. Objects are numbers; a null pointer is \<open>None\<close>. Cycles and block numbers are natural numbers:
  the code computes with cycles far below \<open>2\<^sup>6\<^sup>4\<close> and adds at most \<open>64 * B\<close> to them. The occupancy mask
  is a 64-bit word. Advancing to the next occupied block is a loop with no bound of its own; \<open>fuel\<close> is the
  number of blocks it may advance, and the theorems give how many are enough.

  The contract a user relies on is the locale \<open>event_queue\<close>: the queue is the finite set of pairs of a cycle
  and an object, enqueuing inserts a pair and dequeuing removes one of least cycle.
\<close>

section \<open>Definitions\<close>

record pqblock =
  pb_array :: "nat option list"
  pb_occ :: u64

record pq =
  pq_blocks :: "pqblock list"
  pq_feMap :: "(nat \<times> nat) list"
  pq_curBlock :: nat
  pq_elems :: nat
  pq_next :: "nat \<Rightarrow> nat option"

definition PQBlock_new :: pqblock where
  "PQBlock_new = \<lparr>pb_array = replicate 64 None, pb_occ = 0\<rparr>"

definition pb_dequeue ::
  "pqblock \<Rightarrow> (nat \<Rightarrow> nat option) \<Rightarrow> (pqblock \<times> (nat \<Rightarrow> nat option) \<times> nat \<times> nat) option" where
  "pb_dequeue b nx = do {
     assert_that (pb_occ b \<noteq> 0);
     let pos = ctz (pb_occ b);
     res \<leftarrow> aget (pb_array b) pos \<bind> (\<lambda>p. p);
     arr \<leftarrow> aset (pb_array b) pos (nx res);
     let occ = (if nx res = None then pb_occ b XOR push_bit pos 1 else pb_occ b);
     Some (\<lparr>pb_array = arr, pb_occ = occ\<rparr>, nx(res := None), res, pos) }"

definition pb_enqueue ::
  "pqblock \<Rightarrow> (nat \<Rightarrow> nat option) \<Rightarrow> nat \<Rightarrow> nat \<Rightarrow> (pqblock \<times> (nat \<Rightarrow> nat option)) option" where
  "pb_enqueue b nx obj pos = do {
     let occ = pb_occ b OR push_bit pos 1;
     assert_that (nx obj = None);
     h \<leftarrow> aget (pb_array b) pos;
     arr \<leftarrow> aset (pb_array b) pos (Some obj);
     Some (\<lparr>pb_array = arr, pb_occ = occ\<rparr>, nx(obj := h)) }"

definition PrioQueue_new :: "nat \<Rightarrow> (nat \<Rightarrow> nat option) \<Rightarrow> pq" where
  "PrioQueue_new B nx =
     \<lparr>pq_blocks = replicate B PQBlock_new, pq_feMap = [], pq_curBlock = 0, pq_elems = 0, pq_next = nx\<rparr>"

text \<open>\<open>std::multimap::insert\<close> puts an element after those with the same key.\<close>

definition fe_insert :: "nat \<Rightarrow> nat \<Rightarrow> (nat \<times> nat) list \<Rightarrow> (nat \<times> nat) list" where
  "fe_insert cycle obj m = takeWhile (\<lambda>e. fst e \<le> cycle) m @ (cycle, obj) # dropWhile (\<lambda>e. fst e \<le> cycle) m"

text \<open>Putting an object into the block of its cycle.\<close>

definition pq_put :: "nat \<Rightarrow> pq \<Rightarrow> nat \<Rightarrow> nat \<Rightarrow> pq option" where
  "pq_put B q obj cycle = do {
     let i = (cycle div 64) mod B;
     b \<leftarrow> aget (pq_blocks q) i;
     (b, nx) \<leftarrow> pb_enqueue b (pq_next q) obj (cycle mod 64);
     bs \<leftarrow> aset (pq_blocks q) i b;
     Some (q\<lparr>pq_blocks := bs, pq_next := nx\<rparr>) }"

definition pq_enqueue :: "nat \<Rightarrow> pq \<Rightarrow> nat \<Rightarrow> nat \<Rightarrow> pq option" where
  "pq_enqueue B q obj cycle = do {
     let absBlock = cycle div 64;
     assert_that (absBlock \<ge> pq_curBlock q);
     q \<leftarrow> (if absBlock < pq_curBlock q + B then pq_put B q obj cycle
           else Some (q\<lparr>pq_feMap := fe_insert cycle obj (pq_feMap q)\<rparr>));
     Some (q\<lparr>pq_elems := Suc (pq_elems q)\<rparr>) }"

text \<open>The inner loop of \<open>dequeue\<close>: move the far elements below \<open>topCycle\<close> to the blocks.\<close>

fun pq_move :: "nat \<Rightarrow> nat \<Rightarrow> pq \<Rightarrow> (nat \<times> nat) list \<Rightarrow> pq option" where
  "pq_move B topCycle q [] = Some (q\<lparr>pq_feMap := []\<rparr>)"
| "pq_move B topCycle q ((cycle, obj) # rest) =
     (if cycle < topCycle then do {
        assert_that (cycle div 64 \<ge> pq_curBlock q);
        assert_that (cycle div 64 < pq_curBlock q + B);
        q \<leftarrow> pq_put B q obj cycle;
        pq_move B topCycle q rest }
      else Some (q\<lparr>pq_feMap := (cycle, obj) # rest\<rparr>))"

fun pq_advance :: "nat \<Rightarrow> nat \<Rightarrow> pq \<Rightarrow> pq option" where
  "pq_advance 0 B q = do {
     b \<leftarrow> aget (pq_blocks q) (pq_curBlock q mod B);
     if pb_occ b \<noteq> 0 then Some q else None }"
| "pq_advance (Suc fuel) B q = do {
     b \<leftarrow> aget (pq_blocks q) (pq_curBlock q mod B);
     if pb_occ b \<noteq> 0 then Some q
     else do {
       let q = q\<lparr>pq_curBlock := Suc (pq_curBlock q)\<rparr>;
       q \<leftarrow> (if pq_curBlock q mod (B div 2) = 0 \<and> pq_feMap q \<noteq> []
             then pq_move B ((pq_curBlock q + B) * 64) q (pq_feMap q)
             else Some q);
       pq_advance fuel B q } }"

definition pq_dequeue :: "nat \<Rightarrow> nat \<Rightarrow> pq \<Rightarrow> (pq \<times> nat \<times> nat) option" where
  "pq_dequeue fuel B q = do {
     assert_that (pq_elems q \<noteq> 0);
     q \<leftarrow> pq_advance fuel B q;
     b \<leftarrow> aget (pq_blocks q) (pq_curBlock q mod B);
     (b, nx, obj, offset) \<leftarrow> pb_dequeue b (pq_next q);
     bs \<leftarrow> aset (pq_blocks q) (pq_curBlock q mod B) b;
     Some (q\<lparr>pq_blocks := bs, pq_next := nx, pq_elems := pq_elems q - 1\<rparr>, pq_curBlock q * 64 + offset, obj) }"

definition pq_size :: "pq \<Rightarrow> nat" where
  "pq_size q = pq_elems q"

text \<open>The first occupied cycle in the blocks numbered \<open>is\<close> from the current one.\<close>

fun pq_scan :: "nat \<Rightarrow> pq \<Rightarrow> nat list \<Rightarrow> nat option option" where
  "pq_scan B q [] = Some None"
| "pq_scan B q (i # is) = do {
     b \<leftarrow> aget (pq_blocks q) ((pq_curBlock q + i) mod B);
     if pb_occ b \<noteq> 0 then Some (Some ((pq_curBlock q + i) * 64 + ctz (pb_occ b))) else pq_scan B q is }"

definition pq_firstCycle :: "nat \<Rightarrow> pq \<Rightarrow> nat option" where
  "pq_firstCycle B q = do {
     assert_that (pq_elems q \<noteq> 0);
     near \<leftarrow> pq_scan B q [0..<B div 2];
     (case near of
        Some c \<Rightarrow> Some c
      | None \<Rightarrow> do {
          mid \<leftarrow> pq_scan B q [B div 2..<B];
          (case mid of
             Some c \<Rightarrow> Some (case pq_feMap q of [] \<Rightarrow> c | e # _ \<Rightarrow> zMIN c (fst e))
           | None \<Rightarrow> (case pq_feMap q of [] \<Rightarrow> None | e # _ \<Rightarrow> Some (fst e))) }) }"

section \<open>Chains of objects\<close>

fun chain :: "(nat \<Rightarrow> nat option) \<Rightarrow> nat option \<Rightarrow> nat list \<Rightarrow> bool" where
  "chain nx p [] \<longleftrightarrow> p = None"
| "chain nx p (x # xs) \<longleftrightarrow> p = Some x \<and> chain nx (nx x) xs"

lemma chain_upd [simp]: "x \<notin> set xs \<Longrightarrow> chain (nx(x := v)) p xs = chain nx p xs"
  by (induction xs arbitrary: p) auto

lemma chain_None: "chain nx None xs \<longleftrightarrow> xs = []"
  by (cases xs) auto

lemma chain_Some: "chain nx (Some x) xs \<longleftrightarrow> (\<exists>ys. xs = x # ys \<and> chain nx (nx x) ys)"
  by (cases xs) auto

text \<open>
  The representation: \<open>L i p\<close> lists the objects of slot \<open>p\<close> of block \<open>i\<close>. Every object is in one place, and
  the objects outside the slots have no successor.
\<close>

definition slot_objs :: "nat \<Rightarrow> (nat \<Rightarrow> nat \<Rightarrow> nat list) \<Rightarrow> nat set" where
  "slot_objs B L = (\<Union>i < B. \<Union>p < 64. set (L i p))"

definition pq_rep :: "nat \<Rightarrow> pq \<Rightarrow> (nat \<Rightarrow> nat \<Rightarrow> nat list) \<Rightarrow> bool" where
  "pq_rep B q L \<longleftrightarrow> length (pq_blocks q) = B \<and>
     (\<forall>i < B. length (pb_array (pq_blocks q ! i)) = 64) \<and>
     (\<forall>i < B. \<forall>p < 64. chain (pq_next q) (pb_array (pq_blocks q ! i) ! p) (L i p) \<and> distinct (L i p) \<and>
        (bit (pb_occ (pq_blocks q ! i)) p \<longleftrightarrow> L i p \<noteq> [])) \<and>
     (\<forall>i < B. \<forall>p < 64. \<forall>j < B. \<forall>r < 64. (i, p) \<noteq> (j, r) \<longrightarrow> set (L i p) \<inter> set (L j r) = {}) \<and>
     (\<forall>x. x \<notin> slot_objs B L \<longrightarrow> pq_next q x = None)"

lemma pq_repD:
  assumes "pq_rep B q L"
  shows "length (pq_blocks q) = B"
    and "i < B \<Longrightarrow> length (pb_array (pq_blocks q ! i)) = 64"
    and "i < B \<Longrightarrow> p < 64 \<Longrightarrow> chain (pq_next q) (pb_array (pq_blocks q ! i) ! p) (L i p)"
    and "i < B \<Longrightarrow> p < 64 \<Longrightarrow> distinct (L i p)"
    and "i < B \<Longrightarrow> p < 64 \<Longrightarrow> bit (pb_occ (pq_blocks q ! i)) p \<longleftrightarrow> L i p \<noteq> []"
    and "i < B \<Longrightarrow> p < 64 \<Longrightarrow> j < B \<Longrightarrow> r < 64 \<Longrightarrow> (i, p) \<noteq> (j, r) \<Longrightarrow> set (L i p) \<inter> set (L j r) = {}"
    and "x \<notin> slot_objs B L \<Longrightarrow> pq_next q x = None"
  using assms unfolding pq_rep_def by blast+

lemma slot_objs_iff: "x \<in> slot_objs B L \<longleftrightarrow> (\<exists>i < B. \<exists>p < 64. x \<in> set (L i p))"
  by (auto simp: slot_objs_def)

lemma occ_empty_iff:
  assumes "pq_rep B q L" "i < B"
  shows "pb_occ (pq_blocks q ! i) = 0 \<longleftrightarrow> (\<forall>p < 64. L i p = [])"
proof -
  have "pb_occ (pq_blocks q ! i) = 0 \<longleftrightarrow> (\<forall>p < 64. \<not> bit (pb_occ (pq_blocks q ! i)) p)"
    by (simp add: bit_eq_iff)
  then show ?thesis using pq_repD(5) [OF assms] by auto
qed

section \<open>Putting into and taking from a block\<close>

abbreviation lupd :: "(nat \<Rightarrow> nat \<Rightarrow> 'b) \<Rightarrow> nat \<Rightarrow> nat \<Rightarrow> 'b \<Rightarrow> nat \<Rightarrow> nat \<Rightarrow> 'b" where
  "lupd L i p v \<equiv> L(i := (L i)(p := v))"

lemma lupd_put_iff: "y \<in> set (lupd L i p (x # L i p) j r) \<longleftrightarrow> y \<in> set (L j r) \<or> y = x \<and> j = i \<and> r = p"
  by auto

lemma slot_objs_put: "i < B \<Longrightarrow> p < 64 \<Longrightarrow> slot_objs B (lupd L i p (x # L i p)) = insert x (slot_objs B L)"
  unfolding set_eq_iff insert_iff slot_objs_iff lupd_put_iff by blast

lemma bit_push_one: "p < 64 \<Longrightarrow> bit (push_bit p (1 :: u64)) r \<longleftrightarrow> r = p"
  by (auto simp: bit_exp_iff)

lemma bit_or_push: "p < 64 \<Longrightarrow> bit (w OR push_bit p (1 :: u64)) r \<longleftrightarrow> bit w r \<or> r = p"
  by (simp add: bit_or_iff bit_push_one del: push_bit_of_1)

lemma bit_xor_push: "p < 64 \<Longrightarrow> bit (w XOR push_bit p (1 :: u64)) r \<longleftrightarrow> (if r = p then \<not> bit w p else bit w r)"
  by (auto simp: bit_xor_iff bit_push_one simp del: push_bit_of_1)

lemma pq_put_rep:
  fixes cycle :: nat
  assumes rep: "pq_rep B q L" and B: "0 < B" and new: "obj \<notin> slot_objs B L"
  defines "i \<equiv> (cycle div 64) mod B" and "p \<equiv> cycle mod 64"
  shows "\<exists>q'. pq_put B q obj cycle = Some q' \<and> pq_rep B q' (lupd L i p (obj # L i p)) \<and>
    pq_feMap q' = pq_feMap q \<and> pq_curBlock q' = pq_curBlock q \<and> pq_elems q' = pq_elems q"
proof -
  have i: "i < B" and p: "p < 64" using B by (simp_all add: i_def p_def)
  note R = pq_repD [OF rep]
  let ?b = "pq_blocks q ! i" let ?h = "pb_array ?b ! p"
  let ?b' = "\<lparr>pb_array = (pb_array ?b)[p := Some obj], pb_occ = pb_occ ?b OR push_bit p 1\<rparr>"
  let ?q' = "q\<lparr>pq_blocks := (pq_blocks q)[i := ?b'], pq_next := (pq_next q)(obj := ?h)\<rparr>"
  let ?L = "lupd L i p (obj # L i p)"
  have eq: "pq_put B q obj cycle = Some ?q'"
    using i p R(1) R(2) [OF i] R(7) [OF new] by (simp add: pq_put_def pb_enqueue_def i_def [symmetric] p_def [symmetric] Let_def)
  have notin: "obj \<notin> set (L j r)" if "j < B" "r < 64" for j r using new that by (auto simp: slot_objs_iff)
  have ch: "chain (pq_next ?q') (pb_array (pq_blocks ?q' ! j) ! r) (?L j r)" if "j < B" "r < 64" for j r
    using R(3) [OF that] R(1) R(2) [OF i] i p notin [OF that] notin [OF i p] that
    by (cases "j = i"; cases "r = p") auto
  have occ: "bit (pb_occ (pq_blocks ?q' ! j)) r \<longleftrightarrow> ?L j r \<noteq> []" if "j < B" "r < 64" for j r
    using R(5) [OF that] R(1) i p by (cases "j = i") (auto simp: bit_or_push simp del: push_bit_of_1)
  have dis: "set (?L j r) \<inter> set (?L k t) = {}" if "j < B" "r < 64" "k < B" "t < 64" "(j, r) \<noteq> (k, t)" for j r k t
    using R(6) [OF that(1-5)] notin that by auto
  have "pq_rep B ?q' ?L"
    unfolding pq_rep_def
  proof (intro conjI allI impI)
    show "length (pb_array (pq_blocks ?q' ! j)) = 64" if "j < B" for j
      using R(2) [OF that] R(2) [OF i] R(1) i by (cases "j = i") auto
    show "distinct (?L j r)" if "j < B" "r < 64" for j r using R(4) [OF that] notin [OF that] by (cases "j = i"; cases "r = p") simp_all
    show "pq_next ?q' x = None" if "x \<notin> slot_objs B ?L" for x
      using that R(7) [of x] slot_objs_put [OF i p, of L obj] by simp
  qed (use R(1) ch occ dis in \<open>auto simp: fun_upd_def\<close>)
  then show ?thesis using eq by auto
qed

lemma pb_dequeue_rep:
  assumes rep: "pq_rep B q L" and i: "i < B" and ne: "pb_occ (pq_blocks q ! i) \<noteq> 0"
  shows "\<exists>b nx x xs p. pb_dequeue (pq_blocks q ! i) (pq_next q) = Some (b, nx, x, p) \<and> p < 64 \<and>
    L i p = x # xs \<and> (\<forall>r < p. L i r = []) \<and>
    pq_rep B (q\<lparr>pq_blocks := (pq_blocks q)[i := b], pq_next := nx, pq_elems := n\<rparr>) (lupd L i p xs)"
proof -
  note R = pq_repD [OF rep]
  let ?b = "pq_blocks q ! i" let ?p = "ctz (pb_occ ?b)"
  have p: "?p < 64" "bit (pb_occ ?b) ?p" "\<And>j. j < ?p \<Longrightarrow> \<not> bit (pb_occ ?b) j" using ctz_props [OF ne] by simp_all
  have below: "\<forall>r < ?p. L i r = []" using R(5) [OF i] p(1,3) by (meson less_trans)
  have "L i ?p \<noteq> []" using R(5) [OF i p(1)] p(2) by simp
  then obtain x xs where x: "L i ?p = x # xs" by (cases "L i ?p") auto
  have h: "pb_array ?b ! ?p = Some x" "chain (pq_next q) (pq_next q x) xs" using R(3) [OF i p(1)] x by simp_all
  have xs: "x \<notin> set xs" "distinct xs" using R(4) [OF i p(1)] x by simp_all
  have nil: "pq_next q x = None \<longleftrightarrow> xs = []" using h(2) by (cases xs) auto
  let ?b' = "\<lparr>pb_array = (pb_array ?b)[?p := pq_next q x],
     pb_occ = if pq_next q x = None then pb_occ ?b XOR push_bit ?p 1 else pb_occ ?b\<rparr>"
  let ?nx = "(pq_next q)(x := None)"
  let ?q' = "q\<lparr>pq_blocks := (pq_blocks q)[i := ?b'], pq_next := ?nx, pq_elems := n\<rparr>"
  let ?L = "lupd L i ?p xs"
  have eq: "pb_dequeue ?b (pq_next q) = Some (?b', ?nx, x, ?p)"
    using ne p(1) R(2) [OF i] h(1) by (simp add: pb_dequeue_def Let_def)
  have notin: "x \<notin> set (?L j r)" if "j < B" "r < 64" for j r
    using R(6) [OF i p(1) that] x xs(1) by (cases "(i, ?p) = (j, r)") auto
  have ch: "chain ?nx (pb_array (pq_blocks ?q' ! j) ! r) (?L j r)" if "j < B" "r < 64" for j r
    using R(3) [OF that] R(1) R(2) [OF i] i p(1) h(2) notin [OF that] that
    by (cases "j = i"; cases "r = ?p") auto
  have occ: "bit (pb_occ (pq_blocks ?q' ! j)) r \<longleftrightarrow> ?L j r \<noteq> []" if "j < B" "r < 64" for j r
    using R(5) [OF that] R(1) i p(1,2) nil by (cases "j = i") (auto simp: bit_xor_push simp del: push_bit_of_1)
  have sub: "set (?L j r) \<subseteq> set (L j r)" for j r using x by auto
  have "pq_rep B ?q' ?L"
    unfolding pq_rep_def
  proof (intro conjI allI impI)
    show "length (pb_array (pq_blocks ?q' ! j)) = 64" if "j < B" for j
      using R(2) [OF that] R(2) [OF i] R(1) i by (cases "j = i") auto
    show "distinct (?L j r)" if "j < B" "r < 64" for j r using R(4) [OF that] xs by (cases "j = i"; cases "r = ?p") simp_all
    show "set (?L j r) \<inter> set (?L k t) = {}" if "j < B" "r < 64" "k < B" "t < 64" "(j, r) \<noteq> (k, t)" for j r k t
      using R(6) [OF that] sub [of j r] sub [of k t] by blast
    show "pq_next ?q' y = None" if "y \<notin> slot_objs B ?L" for y
    proof (cases "y = x")
      case False
      have "y \<notin> slot_objs B L"
      proof
        assume "y \<in> slot_objs B L"
        then obtain j r where "j < B" "r < 64" "y \<in> set (L j r)" by (auto simp: slot_objs_iff)
        then have "y \<in> set (?L j r)" using x False by auto
        then show False using that \<open>j < B\<close> \<open>r < 64\<close> by (auto simp: slot_objs_iff)
      qed
      then show ?thesis using R(7) False by simp
    qed simp
  qed (use R(1) ch occ in auto)
  then show ?thesis using eq p(1) x below by blast
qed

section \<open>Contents\<close>

definition pq_content :: "nat \<Rightarrow> pq \<Rightarrow> (nat \<Rightarrow> nat \<Rightarrow> nat list) \<Rightarrow> (nat \<times> nat) set" where
  "pq_content B q L =
     {(b * 64 + p, x) |b p x. pq_curBlock q \<le> b \<and> b < pq_curBlock q + B \<and> p < 64 \<and> x \<in> set (L (b mod B) p)} \<union>
     set (pq_feMap q)"

lemma mod_window:
  fixes b c k B :: nat
  assumes "k \<le> b" "b < k + B" "k \<le> c" "c < k + B" "b mod B = c mod B"
  shows "b = c"
proof -
  have le: "b = c" if "b \<le> c" "k \<le> b" "c < k + B" "b mod B = c mod B" for b c
  proof (rule ccontr)
    assume "b \<noteq> c"
    moreover have "B dvd c - b" using mod_eq_dvd_iff_nat [OF that(1), of B] that(4) by simp
    ultimately have "B \<le> c - b" using that(1) by (intro dvd_imp_le) simp_all
    then show False using that by simp
  qed
  show ?thesis using le [of b c] le [of c b] assms by (cases "b \<le> c") simp_all
qed

lemma window_surj:
  assumes "i < B"
  obtains b :: nat where "k \<le> b" "b < k + B" "b mod B = i"
proof
  let ?d = "(i + B - k mod B) mod B"
  show "k \<le> k + ?d" "k + ?d < k + B" using assms by simp_all
  have "(k + ?d) mod B = (k mod B + (i + B - k mod B)) mod B" by (metis mod_add_left_eq mod_add_right_eq)
  also have "k mod B + (i + B - k mod B) = i + B"
    using mod_less_divisor [of B k] assms by linarith
  finally show "(k + ?d) mod B = i" using assms by simp
qed

text \<open>The near part of the contents.\<close>

lemma pq_content_iff:
  "(c, x) \<in> pq_content B q L \<longleftrightarrow>
    (pq_curBlock q \<le> c div 64 \<and> c div 64 < pq_curBlock q + B \<and> x \<in> set (L (c div 64 mod B) (c mod 64))) \<or>
    (c, x) \<in> set (pq_feMap q)"
proof -
  have "(\<exists>b p. c = b * 64 + p \<and> P b \<and> p < 64 \<and> Q b p) \<longleftrightarrow> P (c div 64) \<and> Q (c div 64) (c mod 64)"
    for P :: "nat \<Rightarrow> bool" and Q
  proof
    show "P (c div 64) \<and> Q (c div 64) (c mod 64)" if "\<exists>b p. c = b * 64 + p \<and> P b \<and> p < 64 \<and> Q b p"
      using that by auto
    show "\<exists>b p. c = b * 64 + p \<and> P b \<and> p < 64 \<and> Q b p" if "P (c div 64) \<and> Q (c div 64) (c mod 64)"
      using that div_mult_mod_eq [of c 64] by (intro exI [of _ "c div 64"] exI [of _ "c mod 64"]) simp
  qed
  note * = this [of "\<lambda>b. pq_curBlock q \<le> b \<and> b < pq_curBlock q + B" "\<lambda>b p. x \<in> set (L (b mod B) p)"]
  show ?thesis unfolding pq_content_def using * by auto
qed

lemma pq_content_finite [simp]: "finite (pq_content B q L)"
proof -
  have "pq_content B q L \<subseteq>
      (\<Union>b \<in> {..<pq_curBlock q + B}. \<Union>p \<in> {..<64}. Pair (b * 64 + p) ` set (L (b mod B) p)) \<union> set (pq_feMap q)"
    unfolding pq_content_def by blast
  then show ?thesis by (rule finite_subset) simp
qed

lemma slot_objs_content: "x \<in> slot_objs B L \<Longrightarrow> \<exists>c. (c, x) \<in> pq_content B q L"
proof -
  assume "x \<in> slot_objs B L"
  then obtain i p where ip: "i < B" "p < 64" "x \<in> set (L i p)" by (auto simp: slot_objs_iff)
  obtain b where "pq_curBlock q \<le> b" "b < pq_curBlock q + B" "b mod B = i" by (rule window_surj [OF ip(1)])
  with ip show ?thesis unfolding pq_content_def by blast
qed

lemma content_put:
  fixes cycle :: nat
  assumes "pq_curBlock q \<le> cycle div 64" "cycle div 64 < pq_curBlock q + B"
    "pq_curBlock q' = pq_curBlock q" "pq_feMap q' = pq_feMap q"
  shows "pq_content B q' (lupd L (cycle div 64 mod B) (cycle mod 64) (obj # L (cycle div 64 mod B) (cycle mod 64))) =
    insert (cycle, obj) (pq_content B q L)"
proof (rule set_eqI)
  fix e :: "nat \<times> nat"
  obtain c x where e: "e = (c, x)" by fastforce
  have "c = cycle" if "c div 64 = cycle div 64" "c mod 64 = cycle mod 64" using that by (metis div_mult_mod_eq)
  moreover have "c div 64 = cycle div 64"
    if "pq_curBlock q \<le> c div 64" "c div 64 < pq_curBlock q + B" "c div 64 mod B = cycle div 64 mod B"
    using mod_window [OF that(1,2) assms(1,2) that(3)] .
  ultimately show "e \<in> pq_content B q' (lupd L (cycle div 64 mod B) (cycle mod 64) (obj # L (cycle div 64 mod B) (cycle mod 64))) \<longleftrightarrow>
      e \<in> insert (cycle, obj) (pq_content B q L)"
    unfolding e pq_content_iff lupd_put_iff insert_iff assms(3,4) using assms(1,2) by auto
qed

section \<open>The invariant\<close>

definition pq_inv :: "nat \<Rightarrow> pq \<Rightarrow> (nat \<Rightarrow> nat \<Rightarrow> nat list) \<Rightarrow> bool" where
  "pq_inv B q L \<longleftrightarrow> pq_rep B q L \<and> even B \<and> 0 < B div 2 \<and>
     sorted (map fst (pq_feMap q)) \<and> distinct (map snd (pq_feMap q)) \<and>
     (\<forall>e \<in> set (pq_feMap q). snd e \<notin> slot_objs B L \<and>
        pq_curBlock q div (B div 2) * (B div 2) + B \<le> fst e div 64) \<and>
     pq_elems q = card (pq_content B q L)"

lemma pq_invD:
  assumes "pq_inv B q L"
  shows "pq_rep B q L" "even B" "0 < B div 2" "0 < B" "sorted (map fst (pq_feMap q))" "distinct (map snd (pq_feMap q))"
    "e \<in> set (pq_feMap q) \<Longrightarrow> snd e \<notin> slot_objs B L"
    "e \<in> set (pq_feMap q) \<Longrightarrow> pq_curBlock q div (B div 2) * (B div 2) + B \<le> fst e div 64"
    "pq_elems q = card (pq_content B q L)"
  using assms unfolding pq_inv_def by auto

text \<open>Far elements are more than half a queue away, so the first half of the blocks comes first.\<close>

lemma half_bound: "0 < B div 2 \<Longrightarrow> k < k div (B div 2) * (B div 2) + B div 2" for k B :: nat
  by (metis add.commute add_less_cancel_right div_mult_mod_eq mod_less_divisor)

lemma far_bound:
  assumes "pq_inv B q L" "e \<in> set (pq_feMap q)" "i \<le> B div 2"
  shows "pq_curBlock q + i < fst e div 64"
  using half_bound [OF pq_invD(3) [OF assms(1)], of "pq_curBlock q"] pq_invD(8) [OF assms(1,2)] pq_invD(2) [OF assms(1)] assms(3)
  by (elim evenE) simp

lemma content_ge_cur:
  assumes "pq_inv B q L" "(c, x) \<in> pq_content B q L"
  shows "pq_curBlock q \<le> c div 64"
  using assms(2) far_bound [OF assms(1), of "(c, x)" 0] by (auto simp: pq_content_iff)

lemma fe_insert_simps:
  "fe_insert c x [] = [(c, x)]"
  "fe_insert c x (e # m) = (if fst e \<le> c then e # fe_insert c x m else (c, x) # e # m)"
  by (simp_all add: fe_insert_def)

lemma fe_insert_set [simp]: "set (fe_insert c x m) = insert (c, x) (set m)"
  by (induction m) (auto simp: fe_insert_simps)

lemma fe_insert_sorted: "sorted (map fst m) \<Longrightarrow> sorted (map fst (fe_insert c x m))"
  by (induction m) (auto simp: fe_insert_simps)

lemma fe_insert_distinct: "distinct (map snd m) \<Longrightarrow> x \<notin> snd ` set m \<Longrightarrow> distinct (map snd (fe_insert c x m))"
  by (induction m) (auto simp: fe_insert_simps)

section \<open>Enqueue\<close>

lemma pq_enqueue_ok:
  assumes inv: "pq_inv B q L" and cyc: "pq_curBlock q \<le> cycle div 64"
    and new: "\<And>c. (c, obj) \<notin> pq_content B q L"
  shows "\<exists>q' L'. pq_enqueue B q obj cycle = Some q' \<and> pq_inv B q' L' \<and>
    pq_content B q' L' = insert (cycle, obj) (pq_content B q L) \<and> pq_curBlock q' = pq_curBlock q"
proof -
  note I = pq_invD [OF inv]
  have ns: "obj \<notin> slot_objs B L" using slot_objs_content new by blast
  have nf: "obj \<notin> snd ` set (pq_feMap q)" using new by (auto simp: pq_content_iff)
  show ?thesis
  proof (cases "cycle div 64 < pq_curBlock q + B")
    case True
    let ?i = "cycle div 64 mod B" let ?p = "cycle mod 64"
    let ?L = "lupd L ?i ?p (obj # L ?i ?p)"
    obtain q1 where q1: "pq_put B q obj cycle = Some q1" "pq_rep B q1 ?L" "pq_feMap q1 = pq_feMap q"
      "pq_curBlock q1 = pq_curBlock q" "pq_elems q1 = pq_elems q"
      using pq_put_rep [OF I(1,4) ns] by blast
    have ip: "?i < B" "?p < 64" using I(4) by simp_all
    let ?q = "q1\<lparr>pq_elems := Suc (pq_elems q1)\<rparr>"
    have ct: "pq_content B ?q ?L = insert (cycle, obj) (pq_content B q L)"
      by (rule content_put [OF cyc True]) (use q1 in simp_all)
    have "pq_rep B ?q ?L" using q1(2) by (simp add: pq_rep_def)
    moreover have "pq_elems ?q = card (pq_content B ?q ?L)" using ct I(9) q1(5) new by simp
    moreover have "\<forall>e \<in> set (pq_feMap q). snd e \<noteq> obj" using nf by force
    ultimately have "pq_inv B ?q ?L"
      using I(2,3,5-8) q1(3,4) unfolding pq_inv_def slot_objs_put [OF ip] by simp
    then show ?thesis using q1(1,4) cyc True ct by (auto simp: pq_enqueue_def Let_def)
  next
    case False
    let ?q = "q\<lparr>pq_feMap := fe_insert cycle obj (pq_feMap q), pq_elems := Suc (pq_elems q)\<rparr>"
    have ct: "pq_content B ?q L = insert (cycle, obj) (pq_content B q L)" by (auto simp: pq_content_def)
    have far: "pq_curBlock q div (B div 2) * (B div 2) + B \<le> cycle div 64"
      using False div_times_less_eq_dividend [of "pq_curBlock q" "B div 2"] by linarith
    have "pq_rep B ?q L" using I(1) by (simp add: pq_rep_def)
    moreover have "pq_elems ?q = card (pq_content B ?q L)" using ct I(9) new by simp
    ultimately have "pq_inv B ?q L"
      using inv ns far fe_insert_sorted [OF I(5)] fe_insert_distinct [OF I(6) nf] unfolding pq_inv_def by auto
    then show ?thesis using cyc False ct by (auto simp: pq_enqueue_def Let_def)
  qed
qed

section \<open>Dequeue\<close>

lemma pq_move_ok:
  assumes "pq_rep B q L" "0 < B" "sorted (map fst m)" "distinct (map snd m)"
    "\<forall>e \<in> set m. snd e \<notin> slot_objs B L \<and> pq_curBlock q \<le> fst e div 64"
  shows "\<exists>q' L'. pq_move B ((pq_curBlock q + B) * 64) q m = Some q' \<and> pq_rep B q' L' \<and>
    pq_content B q' L' = pq_content B (q\<lparr>pq_feMap := m\<rparr>) L \<and> pq_curBlock q' = pq_curBlock q \<and>
    pq_elems q' = pq_elems q \<and> sorted (map fst (pq_feMap q')) \<and> distinct (map snd (pq_feMap q')) \<and>
    (\<forall>e \<in> set (pq_feMap q'). snd e \<notin> slot_objs B L' \<and> pq_curBlock q + B \<le> fst e div 64)"
  using assms
proof (induction m arbitrary: q L)
  case Nil
  then show ?case by (intro exI [of _ "q\<lparr>pq_feMap := []\<rparr>"] exI [of _ L]) (simp add: pq_rep_def)
next
  case (Cons e m)
  obtain cycle obj where e: "e = (cycle, obj)" by fastforce
  show ?case
  proof (cases "cycle < (pq_curBlock q + B) * 64")
    case True
    then have blk: "cycle div 64 < pq_curBlock q + B" by (simp add: less_mult_imp_div_less)
    have cyc: "pq_curBlock q \<le> cycle div 64" and ns: "obj \<notin> slot_objs B L" using Cons.prems(5) e by auto
    let ?i = "cycle div 64 mod B" let ?p = "cycle mod 64"
    let ?L = "lupd L ?i ?p (obj # L ?i ?p)"
    obtain q1 where q1: "pq_put B q obj cycle = Some q1" "pq_rep B q1 ?L" "pq_feMap q1 = pq_feMap q"
      "pq_curBlock q1 = pq_curBlock q" "pq_elems q1 = pq_elems q"
      using pq_put_rep [OF Cons.prems(1,2) ns] by blast
    have ip: "?i < B" "?p < 64" using Cons.prems(2) by simp_all
    have far: "\<forall>e \<in> set m. snd e \<notin> slot_objs B ?L \<and> pq_curBlock q1 \<le> fst e div 64"
      using Cons.prems(4,5) e q1(4) unfolding slot_objs_put [OF ip] by force
    have m: "sorted (map fst m)" "distinct (map snd m)" using Cons.prems(3,4) by simp_all
    obtain q' L' where q': "pq_move B ((pq_curBlock q1 + B) * 64) q1 m = Some q'" "pq_rep B q' L'"
      "pq_content B q' L' = pq_content B (q1\<lparr>pq_feMap := m\<rparr>) ?L" "pq_curBlock q' = pq_curBlock q1"
      "pq_elems q' = pq_elems q1" "sorted (map fst (pq_feMap q'))" "distinct (map snd (pq_feMap q'))"
      "\<forall>e \<in> set (pq_feMap q'). snd e \<notin> slot_objs B L' \<and> pq_curBlock q1 + B \<le> fst e div 64"
      using Cons.IH [OF q1(2) Cons.prems(2) m far] by blast
    have "pq_content B (q1\<lparr>pq_feMap := m\<rparr>) ?L = insert (cycle, obj) (pq_content B (q\<lparr>pq_feMap := m\<rparr>) L)"
      by (rule content_put) (use cyc blk q1(4) in simp_all)
    also have "\<dots> = pq_content B (q\<lparr>pq_feMap := e # m\<rparr>) L" by (auto simp: pq_content_def e)
    finally show ?thesis using q' q1 True cyc blk e by (intro exI [of _ q'] exI [of _ L']) simp
  next
    case False
    then have "pq_curBlock q + B \<le> fst e' div 64" if "e' \<in> set (e # m)" for e'
      using that Cons.prems(3) e by (auto simp: less_eq_div_iff_mult_less_eq)
    then show ?thesis using Cons.prems e False
      by (intro exI [of _ "q\<lparr>pq_feMap := e # m\<rparr>"] exI [of _ L]) (auto simp: pq_rep_def)
  qed
qed

lemma content_shift:
  assumes "pq_rep B q L" "0 < B" "pb_occ (pq_blocks q ! (pq_curBlock q mod B)) = 0"
  shows "pq_content B (q\<lparr>pq_curBlock := Suc (pq_curBlock q)\<rparr>) L = pq_content B q L"
proof -
  have emp: "L (pq_curBlock q mod B) p = []" if "p < 64" for p
    using occ_empty_iff [OF assms(1), of "pq_curBlock q mod B"] assms(2,3) that by simp
  have "(Suc (pq_curBlock q) \<le> b \<and> b < Suc (pq_curBlock q + B) \<and> x \<in> set (L (b mod B) p)) \<longleftrightarrow>
      (pq_curBlock q \<le> b \<and> b < pq_curBlock q + B \<and> x \<in> set (L (b mod B) p))" if "p < 64" for b p x
  proof (cases "b = pq_curBlock q \<or> b = pq_curBlock q + B")
    case True
    then have "L (b mod B) p = []" using emp [OF that] by auto
    then show ?thesis by simp
  qed (use assms(2) in auto)
  then have "(c, x) \<in> pq_content B (q\<lparr>pq_curBlock := Suc (pq_curBlock q)\<rparr>) L \<longleftrightarrow> (c, x) \<in> pq_content B q L" for c x
    unfolding pq_content_iff by simp
  then show ?thesis by auto
qed

text \<open>One turn of the loop of \<open>dequeue\<close>.\<close>

lemma pq_step_ok:
  assumes inv: "pq_inv B q L" and emp: "pb_occ (pq_blocks q ! (pq_curBlock q mod B)) = 0"
  defines "q1 \<equiv> q\<lparr>pq_curBlock := Suc (pq_curBlock q)\<rparr>"
  shows "\<exists>q' L'. (if pq_curBlock q1 mod (B div 2) = 0 \<and> pq_feMap q1 \<noteq> []
             then pq_move B ((pq_curBlock q1 + B) * 64) q1 (pq_feMap q1) else Some q1) = Some q' \<and>
    pq_inv B q' L' \<and> pq_content B q' L' = pq_content B q L \<and> pq_curBlock q' = Suc (pq_curBlock q)"
proof -
  note I = pq_invD [OF inv]
  have ct: "pq_content B q1 L = pq_content B q L" unfolding q1_def by (rule content_shift [OF I(1,4) emp])
  have rep: "pq_rep B q1 L" using I(1) by (simp add: pq_rep_def q1_def)
  let ?h = "B div 2"
  show ?thesis
  proof (cases "pq_curBlock q1 mod ?h = 0 \<and> pq_feMap q1 \<noteq> []")
    case True
    have far: "\<forall>e \<in> set (pq_feMap q1). snd e \<notin> slot_objs B L \<and> pq_curBlock q1 \<le> fst e div 64"
      using I(7) far_bound [OF inv, of _ 0] by (auto simp: q1_def Suc_le_eq)
    have fe: "sorted (map fst (pq_feMap q1))" "distinct (map snd (pq_feMap q1))" using I(5,6) by (simp_all add: q1_def)
    obtain q' L' where q': "pq_move B ((pq_curBlock q1 + B) * 64) q1 (pq_feMap q1) = Some q'" "pq_rep B q' L'"
      "pq_content B q' L' = pq_content B (q1\<lparr>pq_feMap := pq_feMap q1\<rparr>) L" "pq_curBlock q' = pq_curBlock q1"
      "pq_elems q' = pq_elems q1" "sorted (map fst (pq_feMap q'))" "distinct (map snd (pq_feMap q'))"
      "\<forall>e \<in> set (pq_feMap q'). snd e \<notin> slot_objs B L' \<and> pq_curBlock q1 + B \<le> fst e div 64"
      using pq_move_ok [OF rep I(4) fe far] by blast
    have "pq_curBlock q1 div ?h * ?h = pq_curBlock q1" using True div_mult_mod_eq [of "pq_curBlock q1" ?h] by simp
    then have "pq_inv B q' L'" using q' I(2,3,9) ct unfolding pq_inv_def by (simp add: q1_def)
    then show ?thesis using q' True ct by (simp add: q1_def) blast
  next
    case False
    have "pq_inv B q1 L"
    proof (cases "pq_feMap q = []")
      case True
      then show ?thesis using rep I(2,3,9) ct by (simp add: pq_inv_def q1_def)
    next
      case ne: False
      then have "pq_curBlock q1 mod ?h \<noteq> 0" using False by (simp add: q1_def)
      then have "pq_curBlock q1 div ?h = pq_curBlock q div ?h" by (simp add: q1_def div_Suc)
      then show ?thesis using rep inv ct by (simp add: pq_inv_def q1_def)
    qed
    moreover have "pq_curBlock q1 = Suc (pq_curBlock q)" by (simp add: q1_def)
    ultimately show ?thesis using False ct by (metis (lifting))
  qed
qed

lemma pq_block_get: "pq_rep B q L \<Longrightarrow> 0 < B \<Longrightarrow> aget (pq_blocks q) (k mod B) = Some (pq_blocks q ! (k mod B))"
  using pq_repD(1) [of B q L] by simp

lemma pq_occ_cur:
  assumes inv: "pq_inv B q L" and c: "(c, x) \<in> pq_content B q L" "c div 64 = pq_curBlock q"
  shows "pb_occ (pq_blocks q ! (pq_curBlock q mod B)) \<noteq> 0"
proof -
  have "(c, x) \<notin> set (pq_feMap q)" using far_bound [OF inv, of "(c, x)" 0] c(2) by auto
  then have "L (pq_curBlock q mod B) (c mod 64) \<noteq> []" using c by (auto simp: pq_content_iff)
  then show ?thesis using occ_empty_iff [OF pq_invD(1) [OF inv], of "pq_curBlock q mod B"] pq_invD(4) [OF inv] by auto
qed

text \<open>The loop ends at an occupied block when the fuel covers the distance to some element.\<close>

lemma pq_advance_ok:
  assumes "pq_inv B q L" "(c, x) \<in> pq_content B q L" "c div 64 \<le> pq_curBlock q + fuel"
  shows "\<exists>q' L'. pq_advance fuel B q = Some q' \<and> pq_inv B q' L' \<and> pq_content B q' L' = pq_content B q L \<and>
    pb_occ (pq_blocks q' ! (pq_curBlock q' mod B)) \<noteq> 0"
  using assms
proof (induction fuel arbitrary: q L)
  case 0
  then have "c div 64 = pq_curBlock q" using content_ge_cur [OF 0(1,2)] by simp
  then have "pb_occ (pq_blocks q ! (pq_curBlock q mod B)) \<noteq> 0" by (rule pq_occ_cur [OF 0(1,2)])
  then show ?case using 0(1) pq_block_get [OF pq_invD(1,4) [OF 0(1)]] by auto
next
  case (Suc fuel)
  note get = pq_block_get [OF pq_invD(1,4) [OF Suc.prems(1)], of "pq_curBlock q"]
  show ?case
  proof (cases "pb_occ (pq_blocks q ! (pq_curBlock q mod B)) = 0")
    case True
    let ?q1 = "q\<lparr>pq_curBlock := Suc (pq_curBlock q)\<rparr>"
    obtain q1 L1 where q1: "(if pq_curBlock ?q1 mod (B div 2) = 0 \<and> pq_feMap ?q1 \<noteq> []
             then pq_move B ((pq_curBlock ?q1 + B) * 64) ?q1 (pq_feMap ?q1) else Some ?q1) = Some q1"
      "pq_inv B q1 L1" "pq_content B q1 L1 = pq_content B q L" "pq_curBlock q1 = Suc (pq_curBlock q)"
      using pq_step_ok [OF Suc.prems(1) True] by blast
    have "(c, x) \<in> pq_content B q1 L1" "c div 64 \<le> pq_curBlock q1 + fuel" using q1(3,4) Suc.prems(2,3) by simp_all
    note IH = Suc.IH [OF q1(2) this, unfolded q1(3)]
    have "pq_advance (Suc fuel) B q = pq_advance fuel B q1"
      unfolding pq_advance.simps get Let_def using True q1(1) by simp
    then show ?thesis using IH by simp
  next
    case False
    then show ?thesis using Suc.prems(1) get by auto
  qed
qed

lemma pq_content_functional:
  assumes inv: "pq_inv B q L" and "(c, x) \<in> pq_content B q L" "(d, x) \<in> pq_content B q L"
  shows "c = d"
proof -
  note I = pq_invD [OF inv]
  have near: "c \<in> {c. pq_curBlock q \<le> c div 64 \<and> c div 64 < pq_curBlock q + B} \<and> x \<in> slot_objs B L"
    if "(c, x) \<in> pq_content B q L" "(c, x) \<notin> set (pq_feMap q)" for c
  proof -
    have "c div 64 mod B < B" "c mod 64 < 64" using I(4) by simp_all
    then show ?thesis using that unfolding pq_content_iff slot_objs_iff by blast
  qed
  have far: "x \<notin> slot_objs B L" if "(c, x) \<in> set (pq_feMap q)" for c using I(7) [OF that] by simp
  show ?thesis
  proof (cases "x \<in> slot_objs B L")
    case True
    then have f: "(c, x) \<notin> set (pq_feMap q)" "(d, x) \<notin> set (pq_feMap q)" using far by blast+
    have m: "x \<in> set (L (c div 64 mod B) (c mod 64))" "x \<in> set (L (d div 64 mod B) (d mod 64))"
      using assms(2,3) f unfolding pq_content_iff by blast+
    have lt: "c div 64 mod B < B" "d div 64 mod B < B" "c mod 64 < 64" "d mod 64 < 64" using I(4) by simp_all
    have "(c div 64 mod B, c mod 64) = (d div 64 mod B, d mod 64)"
      using pq_repD(6) [OF I(1) lt(1,3,2,4)] m by blast
    then have md: "c div 64 mod B = d div 64 mod B" "c mod 64 = d mod 64" by blast+
    have w: "pq_curBlock q \<le> c div 64" "c div 64 < pq_curBlock q + B" "pq_curBlock q \<le> d div 64" "d div 64 < pq_curBlock q + B"
      using near [OF assms(2) f(1)] near [OF assms(3) f(2)] by simp_all
    have "c div 64 = d div 64" by (rule mod_window [OF w md(1)])
    then show ?thesis using md(2) by (metis div_mult_mod_eq)
  next
    case False
    then have "(c, x) \<in> set (pq_feMap q)" "(d, x) \<in> set (pq_feMap q)" using near assms(2,3) by blast+
    then show ?thesis using I(6) by (metis distinct_map inj_onD prod.inject snd_conv)
  qed
qed

lemma content_take:
  assumes inv: "pq_inv B q L" and p: "p < 64" and x: "L (pq_curBlock q mod B) p = x # xs"
    and q': "pq_curBlock q' = pq_curBlock q" "pq_feMap q' = pq_feMap q"
  shows "pq_content B q' (lupd L (pq_curBlock q mod B) p xs) = pq_content B q L - {(pq_curBlock q * 64 + p, x)}"
proof -
  note I = pq_invD [OF inv]
  let ?i = "pq_curBlock q mod B" let ?c = "pq_curBlock q * 64 + p" let ?L = "lupd L ?i p xs"
  have mem: "(?c, x) \<in> pq_content B q L" using I(4) p x by (simp add: pq_content_iff)
  have "x \<notin> set xs" using pq_repD(4) [OF I(1), of ?i p] I(4) p x by simp
  then have set: "set (?L j r) = (if j = ?i \<and> r = p then set (L j r) - {x} else set (L j r))" for j r using x by auto
  have "e \<in> pq_content B q' ?L \<longleftrightarrow> e \<in> pq_content B q L \<and> e \<noteq> (?c, x)" for e
  proof -
    obtain c y where e: "e = (c, y)" by fastforce
    have far: "(?c, x) \<notin> set (pq_feMap q)" using far_bound [OF inv, of "(?c, x)" 0] p by auto
    have cur: "c = ?c" if "pq_curBlock q \<le> c div 64" "c div 64 < pq_curBlock q + B" "c div 64 mod B = ?i" "c mod 64 = p"
    proof -
      have "c div 64 = pq_curBlock q" by (rule mod_window [OF that(1,2) _ _ that(3)]) (use I(4) in simp_all)
      then show ?thesis using that(4) div_mult_mod_eq [of c 64] by simp
    qed
    have dm: "?c div 64 = pq_curBlock q" "?c mod 64 = p" using p by simp_all
    show ?thesis
    proof (cases "c = ?c")
      case True
      show ?thesis unfolding e True pq_content_iff q' dm set using far by auto
    next
      case False
      then show ?thesis unfolding e pq_content_iff q' set using cur by auto
    qed
  qed
  then show ?thesis by auto
qed

lemma pq_dequeue_ok:
  assumes inv: "pq_inv B q L" and c: "(c, x) \<in> pq_content B q L" "c div 64 \<le> pq_curBlock q + fuel"
  shows "\<exists>q' L' d y. pq_dequeue fuel B q = Some (q', d, y) \<and> pq_inv B q' L' \<and> (d, y) \<in> pq_content B q L \<and>
    (\<forall>e \<in> pq_content B q L. d \<le> fst e) \<and> pq_content B q' L' = pq_content B q L - {(d, y)} \<and>
    pq_curBlock q' = d div 64"
proof -
  obtain q1 L1 where q1: "pq_advance fuel B q = Some q1" "pq_inv B q1 L1" "pq_content B q1 L1 = pq_content B q L"
    "pb_occ (pq_blocks q1 ! (pq_curBlock q1 mod B)) \<noteq> 0"
    using pq_advance_ok [OF inv c] by blast
  note I = pq_invD [OF q1(2)]
  let ?i = "pq_curBlock q1 mod B"
  have i: "?i < B" using I(4) by simp
  obtain b nx y ys p where d: "pb_dequeue (pq_blocks q1 ! ?i) (pq_next q1) = Some (b, nx, y, p)" "p < 64"
    "L1 ?i p = y # ys" "\<forall>r < p. L1 ?i r = []"
    "pq_rep B (q1\<lparr>pq_blocks := (pq_blocks q1)[?i := b], pq_next := nx, pq_elems := pq_elems q1 - 1\<rparr>) (lupd L1 ?i p ys)"
    using pb_dequeue_rep [OF I(1) i q1(4), of "pq_elems q1 - 1"] by blast
  let ?q = "q1\<lparr>pq_blocks := (pq_blocks q1)[?i := b], pq_next := nx, pq_elems := pq_elems q1 - 1\<rparr>"
  let ?L = "lupd L1 ?i p ys" let ?c = "pq_curBlock q1 * 64 + p"
  have ne: "pq_elems q \<noteq> 0" using pq_invD(9) [OF inv] c(1) by auto
  have eq: "pq_dequeue fuel B q = Some (?q, ?c, y)"
    using ne q1(1) d(1) i pq_repD(1) [OF I(1)] by (simp add: pq_dequeue_def)
  have ct: "pq_content B ?q ?L = pq_content B q1 L1 - {(?c, y)}" by (rule content_take [OF q1(2) d(2,3)]) simp_all
  have mem: "(?c, y) \<in> pq_content B q1 L1" using I(4) d(2,3) by (simp add: pq_content_iff)
  have least: "?c \<le> a" if "(a, z) \<in> pq_content B q1 L1" for a z
  proof (cases "a div 64 = pq_curBlock q1")
    case True
    have "(a, z) \<notin> set (pq_feMap q1)" using far_bound [OF q1(2), of "(a, z)" 0] True by auto
    then have "L1 ?i (a mod 64) \<noteq> []" using that True by (auto simp: pq_content_iff)
    then have "p \<le> a mod 64" using d(4) by (meson not_le)
    then show ?thesis using True div_mult_mod_eq [of a 64] by simp
  next
    case False
    then have "Suc (pq_curBlock q1) \<le> a div 64" using content_ge_cur [OF q1(2) that] by simp
    then have "Suc (pq_curBlock q1) * 64 \<le> a" by (simp only: less_eq_div_iff_mult_less_eq zero_less_numeral)
    then show ?thesis using d(2) by simp
  qed
  have "slot_objs B ?L \<subseteq> slot_objs B L1" using d(3) unfolding slot_objs_def by (fastforce split: if_splits)
  moreover have "pq_elems ?q = card (pq_content B ?q ?L)" using ct mem I(9) by simp
  ultimately have "pq_inv B ?q ?L" using d(5) q1(2) unfolding pq_inv_def by auto
  then show ?thesis using eq ct mem least q1(3) d(2) by (intro exI [of _ ?q] exI [of _ ?L]) auto
qed

section \<open>The next cycle without dequeuing\<close>

lemma pq_scan_spec:
  assumes inv: "pq_inv B q L" and "set is \<subseteq> {..<B}" "sorted is"
  shows "case pq_scan B q is of None \<Rightarrow> False
    | Some None \<Rightarrow> \<forall>i \<in> set is. pb_occ (pq_blocks q ! ((pq_curBlock q + i) mod B)) = 0
    | Some (Some c) \<Rightarrow> (\<exists>x. (c, x) \<in> pq_content B q L) \<and> c div 64 - pq_curBlock q \<in> set is \<and>
        (\<forall>i \<in> set is. pq_curBlock q + i < c div 64 \<longrightarrow> pb_occ (pq_blocks q ! ((pq_curBlock q + i) mod B)) = 0) \<and>
        (\<forall>r < c mod 64. L (c div 64 mod B) r = [])"
  using assms(2,3)
proof (induction "is")
  case (Cons i "is")
  note I = pq_invD [OF inv] and R = pq_repD [OF pq_invD(1) [OF inv]]
  let ?k = "(pq_curBlock q + i) mod B" let ?occ = "pb_occ (pq_blocks q ! ?k)"
  have k: "?k < B" "i < B" using I(4) Cons.prems by simp_all
  show ?case
  proof (cases "?occ = 0")
    case True
    then show ?thesis using Cons k R(1) by (auto split: option.splits)
  next
    case False
    let ?p = "ctz ?occ" let ?c = "(pq_curBlock q + i) * 64 + ?p"
    have p: "?p < 64" "bit ?occ ?p" "\<And>j. j < ?p \<Longrightarrow> \<not> bit ?occ j" using ctz_props [OF False] by simp_all
    have dm: "?c div 64 = pq_curBlock q + i" "?c mod 64 = ?p" 
      unfolding div_mult_self3 [OF zero_neq_numeral [symmetric]] mod_mult_self3 using p(1) by simp_all
    have "L ?k ?p \<noteq> []" using R(5) [OF k(1) p(1)] p(2) by simp
    then have "\<exists>x. (?c, x) \<in> pq_content B q L" using k(2) unfolding pq_content_iff dm by (auto simp: neq_Nil_conv)
    moreover have "\<forall>r < ?p. L ?k r = []" using R(5) [OF k(1)] p(1,3) by (meson less_trans)
    moreover have "pq_scan B q (i # is) = Some (Some ?c)" using False k R(1) by simp
    ultimately show ?thesis using Cons.prems(2) dm by auto
  qed
qed simp

text \<open>An element that precedes the cycle found would occupy an earlier block or slot.\<close>

lemma pq_near_least:
  assumes inv: "pq_inv B q L" and a: "(a, z) \<in> pq_content B q L" "(a, z) \<notin> set (pq_feMap q)"
    and c: "\<forall>i < B. pq_curBlock q + i < c div 64 \<longrightarrow> pb_occ (pq_blocks q ! ((pq_curBlock q + i) mod B)) = 0"
      "\<forall>r < c mod 64. L (c div 64 mod B) r = []"
  shows "c \<le> a"
proof -
  note I = pq_invD [OF inv]
  have w: "pq_curBlock q \<le> a div 64" "a div 64 < pq_curBlock q + B" "z \<in> set (L (a div 64 mod B) (a mod 64))"
    using a unfolding pq_content_iff by blast+
  have "pb_occ (pq_blocks q ! (a div 64 mod B)) \<noteq> 0"
    using w(3) occ_empty_iff [OF I(1) mod_less_divisor [OF I(4)], of "a div 64"] by force
  then have le: "c div 64 \<le> a div 64" using c(1) [rule_format, of "a div 64 - pq_curBlock q"] w(1,2) by fastforce
  show ?thesis
  proof (cases "c div 64 = a div 64")
    case True
    then have "c mod 64 \<le> a mod 64" using c(2) w(3) by (metis empty_iff list.set(1) not_le)
    then show ?thesis using True div_mult_mod_eq [of a 64] div_mult_mod_eq [of c 64] by linarith
  next
    case False
    then show ?thesis using le by (meson div_le_mono le_antisym nat_le_linear)
  qed
qed

lemma pq_scan_least:
  assumes inv: "pq_inv B q L" and ij: "i \<le> j" "j \<le> B"
    and emp: "\<forall>k < i. pb_occ (pq_blocks q ! ((pq_curBlock q + k) mod B)) = 0"
  shows "(pq_scan B q [i..<j] = Some None \<and> (\<forall>k < j. pb_occ (pq_blocks q ! ((pq_curBlock q + k) mod B)) = 0)) \<or>
    (\<exists>c x. pq_scan B q [i..<j] = Some (Some c) \<and> (c, x) \<in> pq_content B q L \<and> c div 64 < pq_curBlock q + j \<and>
      (\<forall>a z. (a, z) \<in> pq_content B q L \<longrightarrow> (a, z) \<notin> set (pq_feMap q) \<longrightarrow> c \<le> a))"
proof -
  have sp: "set [i..<j] \<subseteq> {..<B}" "sorted [i..<j]" using ij by auto
  note S = pq_scan_spec [OF inv sp]
  show ?thesis
  proof (cases "pq_scan B q [i..<j]")
    case (Some r)
    show ?thesis
    proof (cases r)
      case None
      have "pb_occ (pq_blocks q ! ((pq_curBlock q + k) mod B)) = 0" if "k < j" for k
        using S Some None emp that by (cases "k < i") auto
      then show ?thesis using Some None by simp
    next
      case c: (Some c)
      obtain x where x: "(c, x) \<in> pq_content B q L" and m: "c div 64 - pq_curBlock q \<in> set [i..<j]"
        and e: "\<forall>k \<in> set [i..<j]. pq_curBlock q + k < c div 64 \<longrightarrow> pb_occ (pq_blocks q ! ((pq_curBlock q + k) mod B)) = 0"
        and f: "\<forall>r < c mod 64. L (c div 64 mod B) r = []"
        using S Some c by auto
      have ge: "pq_curBlock q \<le> c div 64" by (rule content_ge_cur [OF inv x])
      have "pb_occ (pq_blocks q ! ((pq_curBlock q + k) mod B)) = 0" if "k < B" "pq_curBlock q + k < c div 64" for k
        using that emp e m by (cases "k < i") auto
      then have "c \<le> a" if "(a, z) \<in> pq_content B q L" "(a, z) \<notin> set (pq_feMap q)" for a z
        using pq_near_least [OF inv that _ f] by blast
      moreover have "c div 64 < pq_curBlock q + j" using m ge by auto
      ultimately show ?thesis using Some c x by blast
    qed
  qed (use S in simp)
qed

lemma fe_least: "pq_inv B q L \<Longrightarrow> pq_feMap q = e # m \<Longrightarrow> a \<in> set (pq_feMap q) \<Longrightarrow> fst e \<le> fst a"
  using pq_invD(5) [of B q L] by auto

lemma pq_firstCycle_ok:
  assumes inv: "pq_inv B q L" and ne: "pq_content B q L \<noteq> {}"
  shows "\<exists>c x. pq_firstCycle B q = Some c \<and> (c, x) \<in> pq_content B q L \<and> (\<forall>e \<in> pq_content B q L. c \<le> fst e)"
proof -
  note I = pq_invD [OF inv]
  let ?h = "B div 2"
  have el: "pq_elems q \<noteq> 0" using I(9) ne by simp
  have h: "0 \<le> ?h" "?h \<le> B" by simp_all
  consider (near) c x where "pq_scan B q [0..<?h] = Some (Some c)" "(c, x) \<in> pq_content B q L"
      "c div 64 < pq_curBlock q + ?h" "\<forall>a z. (a, z) \<in> pq_content B q L \<longrightarrow> (a, z) \<notin> set (pq_feMap q) \<longrightarrow> c \<le> a"
    | (mid) "pq_scan B q [0..<?h] = Some None" "\<forall>k < ?h. pb_occ (pq_blocks q ! ((pq_curBlock q + k) mod B)) = 0"
    using pq_scan_least [OF inv h] by auto
  then show ?thesis
  proof cases
    case near
    have "c \<le> fst e" if "e \<in> pq_content B q L" for e
    proof (cases "e \<in> set (pq_feMap q)")
      case True
      then have "c div 64 < fst e div 64" using far_bound [OF inv True, of ?h] near(3) by simp
      then show ?thesis by (meson div_le_mono le_less_trans nat_le_linear nless_le)
    next
      case False
      then show ?thesis using near(4) that by (cases e) simp
    qed
    then show ?thesis using near(1,2) el by (auto simp: pq_firstCycle_def)
  next
    case mid
    consider (found) c x where "pq_scan B q [?h..<B] = Some (Some c)" "(c, x) \<in> pq_content B q L"
        "\<forall>a z. (a, z) \<in> pq_content B q L \<longrightarrow> (a, z) \<notin> set (pq_feMap q) \<longrightarrow> c \<le> a"
      | (none) "pq_scan B q [?h..<B] = Some None" "\<forall>k < B. pb_occ (pq_blocks q ! ((pq_curBlock q + k) mod B)) = 0"
      using pq_scan_least [OF inv h(2) order_refl mid(2)] by auto
    then show ?thesis
    proof cases
      case found
      show ?thesis
      proof (cases "pq_feMap q")
        case Nil
        then show ?thesis using mid found el by (fastforce simp: pq_firstCycle_def)
      next
        case (Cons e m)
        let ?c = "zMIN c (fst e)"
        have "?c \<le> fst a" if "a \<in> pq_content B q L" for a
          using fe_least [OF inv Cons, of a] found(3) that by (cases a; cases "a \<in> set (pq_feMap q)") (auto simp: min_le_iff_disj)
        moreover have "\<exists>x. (?c, x) \<in> pq_content B q L"
          using found(2) Cons by (cases e) (auto simp: min_def pq_content_iff)
        ultimately show ?thesis using mid found(1) el Cons by (auto simp: pq_firstCycle_def)
      qed
    next
      case none
      have all: "a \<in> set (pq_feMap q)" if a: "a \<in> pq_content B q L" for a
      proof (rule ccontr)
        obtain b z where bz: "a = (b, z)" by fastforce
        assume n: "a \<notin> set (pq_feMap q)"
        have "Suc (pq_curBlock q + B) * 64 \<le> b"
          by (rule pq_near_least [OF inv a [unfolded bz] n [unfolded bz]]) (use none(2) in simp_all)
        then have "pq_curBlock q + B < b div 64" by (simp add: less_eq_div_iff_mult_less_eq flip: Suc_le_eq)
        then show False using a n unfolding bz pq_content_iff by auto
      qed
      then obtain e m where em: "pq_feMap q = e # m" using ne by (cases "pq_feMap q") auto
      have "(fst e, snd e) \<in> pq_content B q L" using em unfolding pq_content_iff by simp
      then show ?thesis using fe_least [OF inv em] all mid none(1) el em
        by (intro exI [of _ "fst e"] exI [of _ "snd e"]) (auto simp: pq_firstCycle_def)
    qed
  qed
qed

section \<open>The contract of an event queue\<close>

text \<open>\<open>enq_all\<close> enqueues a list of pairs of a cycle and an object, \<open>drain\<close> dequeues \<open>n\<close> times.\<close>

fun enq_all :: "('q \<Rightarrow> nat \<Rightarrow> nat \<Rightarrow> 'q option) \<Rightarrow> 'q \<Rightarrow> (nat \<times> nat) list \<Rightarrow> 'q option" where
  "enq_all enq q [] = Some q"
| "enq_all enq q ((c, x) # es) = enq q x c \<bind> (\<lambda>q. enq_all enq q es)"

fun drain :: "('q \<Rightarrow> ('q \<times> nat \<times> nat) option) \<Rightarrow> nat \<Rightarrow> 'q \<Rightarrow> (nat \<times> nat) list option" where
  "drain deq 0 q = Some []"
| "drain deq (Suc n) q = do {
     (q, e) \<leftarrow> deq q;
     es \<leftarrow> drain deq n q;
     Some (e # es) }"

locale event_queue =
  fixes rel :: "'q \<Rightarrow> (nat \<times> nat) set \<Rightarrow> bool" and floor_cycle :: "'q \<Rightarrow> nat"
    and enq :: "'q \<Rightarrow> nat \<Rightarrow> nat \<Rightarrow> 'q option" and deq :: "nat \<Rightarrow> 'q \<Rightarrow> ('q \<times> nat \<times> nat) option"
  assumes rel_finite: "rel q S \<Longrightarrow> finite S"
    and enq_law: "rel q S \<Longrightarrow> floor_cycle q \<le> c \<Longrightarrow> (\<And>d. (d, x) \<notin> S) \<Longrightarrow>
      \<exists>q'. enq q x c = Some q' \<and> rel q' (insert (c, x) S) \<and> floor_cycle q' = floor_cycle q"
    and deq_law: "rel q S \<Longrightarrow> (c, x) \<in> S \<Longrightarrow> c \<le> fuel \<Longrightarrow>
      \<exists>q' d y. deq fuel q = Some (q', d, y) \<and> (d, y) \<in> S \<and> (\<forall>e \<in> S. d \<le> fst e) \<and> rel q' (S - {(d, y)}) \<and>
        floor_cycle q' \<le> d"
begin

lemma enq_all_ok:
  assumes "rel q S" "\<forall>e \<in> set es. floor_cycle q \<le> fst e" "distinct (map snd es)" "snd ` set es \<inter> snd ` S = {}"
  shows "\<exists>q'. enq_all enq q es = Some q' \<and> rel q' (set es \<union> S)"
  using assms
proof (induction es arbitrary: q S)
  case (Cons e es)
  obtain c x where e: "e = (c, x)" by fastforce
  have new: "(d, x) \<notin> S" for d using Cons.prems(4) e by force
  have "floor_cycle q \<le> c" using Cons.prems(2) e by simp
  from enq_law [OF Cons.prems(1) this new] obtain q1
    where q1: "enq q x c = Some q1" "rel q1 (insert (c, x) S)" "floor_cycle q1 = floor_cycle q" by blast
  have h: "\<forall>e \<in> set es. floor_cycle q1 \<le> fst e" "distinct (map snd es)" "snd ` set es \<inter> snd ` insert (c, x) S = {}"
    using Cons.prems(2-4) q1(3) e by auto
  show ?case using Cons.IH [OF q1(2) h] q1(1) e by simp
qed simp

lemma drain_sorted:
  assumes "rel q S" "card S = n" "\<forall>e \<in> S. fst e \<le> fuel"
  shows "\<exists>es. drain (deq fuel) n q = Some es \<and> set es = S \<and> distinct es \<and> sorted (map fst es)"
  using assms
proof (induction n arbitrary: q S)
  case 0
  then show ?case using rel_finite [OF 0(1)] by simp
next
  case (Suc n)
  then have "S \<noteq> {}" by auto
  then obtain c x where cx: "(c, x) \<in> S" by fastforce
  then have "c \<le> fuel" using Suc.prems(3) by auto
  from deq_law [OF Suc.prems(1) cx this] obtain q' d y where
    q': "deq fuel q = Some (q', d, y)" "(d, y) \<in> S" "\<forall>e \<in> S. d \<le> fst e" "rel q' (S - {(d, y)})" by blast
  have "card (S - {(d, y)}) = n" using Suc.prems(2) q'(2) rel_finite [OF Suc.prems(1)] by simp
  from Suc.IH [OF q'(4) this] Suc.prems(3) obtain es where
    es: "drain (deq fuel) n q' = Some es" "set es = S - {(d, y)}" "distinct es" "sorted (map fst es)" by blast
  show ?case using q' es by (intro exI [of _ "(d, y) # es"]) auto
qed

text \<open>An event may schedule others at its own cycle or later.\<close>

lemma deq_then_enq:
  assumes "rel q S" "(c, x) \<in> S" "c \<le> fuel" "deq fuel q = Some (q', d, y)" "d \<le> c'" "\<And>b. (b, x') \<notin> S - {(d, y)}"
  shows "\<exists>q''. enq q' x' c' = Some q'' \<and> rel q'' (insert (c', x') (S - {(d, y)}))"
proof -
  have h: "rel q' (S - {(d, y)})" "floor_cycle q' \<le> d" using deq_law [OF assms(1-3)] assms(4) by auto
  then show ?thesis using enq_law [OF h(1) _ assms(6), of c'] assms(5) by auto
qed

end

text \<open>\<open>pq_queue B q S\<close>: the queue \<open>q\<close> holds the pairs \<open>S\<close>.\<close>

definition pq_queue :: "nat \<Rightarrow> pq \<Rightarrow> (nat \<times> nat) set \<Rightarrow> bool" where
  "pq_queue B q S \<longleftrightarrow> (\<exists>L. pq_inv B q L \<and> S = pq_content B q L)"

lemma pq_queue_new:
  assumes "even B" "0 < B div 2" "\<And>x. nx x = None"
  shows "pq_queue B (PrioQueue_new B nx) {}"
proof -
  have "pq_content B (PrioQueue_new B nx) (\<lambda>i p. []) = {}" by (simp add: pq_content_def PrioQueue_new_def)
  moreover have "pq_rep B (PrioQueue_new B nx) (\<lambda>i p. [])"
    using assms(3) by (simp add: pq_rep_def PrioQueue_new_def PQBlock_new_def)
  moreover have "pq_feMap (PrioQueue_new B nx) = []" "pq_elems (PrioQueue_new B nx) = 0" by (simp_all add: PrioQueue_new_def)
  ultimately have "pq_inv B (PrioQueue_new B nx) (\<lambda>i p. [])" using assms(1,2) by (simp add: pq_inv_def)
  then show ?thesis using \<open>pq_content B _ _ = {}\<close> by (auto simp: pq_queue_def)
qed

interpretation pqq: event_queue "pq_queue B" "\<lambda>q. pq_curBlock q * 64" "pq_enqueue B" "\<lambda>fuel. pq_dequeue fuel B"
proof
  show "finite S" if "pq_queue B q S" for q S using that by (auto simp: pq_queue_def)
  show "\<exists>q'. pq_enqueue B q x c = Some q' \<and> pq_queue B q' (insert (c, x) S) \<and> pq_curBlock q' * 64 = pq_curBlock q * 64"
    if h: "pq_queue B q S" "pq_curBlock q * 64 \<le> c" "\<And>d. (d, x) \<notin> S" for q S c x
  proof -
    obtain L where L: "pq_inv B q L" "S = pq_content B q L" using h(1) by (auto simp: pq_queue_def)
    have "pq_curBlock q \<le> c div 64" using h(2) by (simp add: less_eq_div_iff_mult_less_eq)
    then show ?thesis using pq_enqueue_ok [OF L(1) _ h(3) [unfolded L(2)]] L(2) unfolding pq_queue_def by metis
  qed
  show "\<exists>q' d y. pq_dequeue fuel B q = Some (q', d, y) \<and> (d, y) \<in> S \<and> (\<forall>e \<in> S. d \<le> fst e) \<and>
      pq_queue B q' (S - {(d, y)}) \<and> pq_curBlock q' * 64 \<le> d"
    if h: "pq_queue B q S" "(c, x) \<in> S" "c \<le> fuel" for q S c x fuel
  proof -
    obtain L where L: "pq_inv B q L" "S = pq_content B q L" using h(1) by (auto simp: pq_queue_def)
    have "c div 64 \<le> pq_curBlock q + fuel" using h(3) div_le_dividend [of c 64] by linarith
    then obtain q' L' d y where "pq_dequeue fuel B q = Some (q', d, y)" "pq_inv B q' L'" "(d, y) \<in> S"
      "\<forall>e \<in> S. d \<le> fst e" "pq_content B q' L' = S - {(d, y)}" "pq_curBlock q' = d div 64"
      using pq_dequeue_ok [OF L(1) h(2) [unfolded L(2)]] L(2) by blast
    then show ?thesis unfolding pq_queue_def by (metis div_times_less_eq_dividend)
  qed
qed

section \<open>Properties\<close>

text \<open>
  C7. A fresh queue into which any list of events with different objects has been put in any order gives them
  back in the order of their cycles, each exactly once, and no assertion of \<open>enqueue\<close> or \<open>dequeue\<close> fails.
  Advancing over at most as many blocks as the largest cycle is enough.\<close>

theorem pq_drain_in_order:
  assumes "even B" "0 < B div 2" "distinct (map snd es)" "\<forall>e \<in> set es. fst e \<le> fuel"
  shows "\<exists>q ys. enq_all (pq_enqueue B) (PrioQueue_new B (\<lambda>_. None)) es = Some q \<and> pq_size q = length es \<and>
    drain (pq_dequeue fuel B) (length es) q = Some ys \<and> set ys = set es \<and> distinct ys \<and> sorted (map fst ys)"
proof -
  have new: "pq_queue B (PrioQueue_new B (\<lambda>_. None)) {}" by (rule pq_queue_new [OF assms(1,2)]) simp
  have cur: "\<forall>e \<in> set es. pq_curBlock (PrioQueue_new B (\<lambda>_. None)) * 64 \<le> fst e" by (simp add: PrioQueue_new_def)
  obtain q where q: "enq_all (pq_enqueue B) (PrioQueue_new B (\<lambda>_. None)) es = Some q" "pq_queue B q (set es)"
    using pqq.enq_all_ok [OF new cur assms(3)] by auto
  have card: "card (set es) = length es" using assms(3) distinct_map distinct_card by metis
  have "pq_size q = length es" using q(2) card pq_invD(9) by (auto simp: pq_queue_def pq_size_def)
  then show ?thesis using q(1) pqq.drain_sorted [OF q(2) card assms(4)] by blast
qed

theorem pq_drain_in_order_witness:
  "\<exists>q ys. enq_all (pq_enqueue 4) (PrioQueue_new 4 (\<lambda>_. None)) [(70, 0), (1000, 1), (3, 2), (70, 3)] = Some q \<and> pq_size q = 4 \<and>
    drain (pq_dequeue 1000 4) 4 q = Some ys \<and> set ys = set [(70, 0), (1000, 1), (3, 2), (70, 3)] \<and> distinct ys \<and> sorted (map fst ys)"
proof -
  let ?es = "[(70, 0), (1000, 1), (3, 2), (70, 3)] :: (nat \<times> nat) list"
  have len: "length ?es = 4" by simp
  have "distinct (map snd ?es)" "\<forall>e \<in> set ?es. fst e \<le> 1000" by simp_all
  from pq_drain_in_order [OF _ _ this, of 4, unfolded len] show ?thesis by (metis even_numeral numeral_Bit0_div_2 zero_less_numeral)
qed

text \<open>
  In every state of the queue, \<open>firstCycle\<close> reports the least cycle of its events, whether it is in the near
  blocks or in the far map, and \<open>dequeue\<close> then takes an event of just that cycle.\<close>

theorem pq_firstCycle_exact:
  assumes "pq_queue B q S" "S \<noteq> {}" "\<forall>e \<in> S. fst e \<le> fuel"
  shows "\<exists>c q' y. pq_firstCycle B q = Some c \<and> c = Min (fst ` S) \<and> pq_dequeue fuel B q = Some (q', c, y) \<and> (c, y) \<in> S \<and>
    pq_queue B q' (S - {(c, y)})"
proof -
  obtain L where L: "pq_inv B q L" "S = pq_content B q L" using assms(1) by (auto simp: pq_queue_def)
  obtain c x where c: "pq_firstCycle B q = Some c" "(c, x) \<in> S" "\<forall>e \<in> S. c \<le> fst e"
    using pq_firstCycle_ok [OF L(1)] assms(2) L(2) by blast
  have "c \<le> fuel" using c(2) assms(3) by auto
  then obtain q' d y where d: "pq_dequeue fuel B q = Some (q', d, y)" "(d, y) \<in> S" "\<forall>e \<in> S. d \<le> fst e" "pq_queue B q' (S - {(d, y)})"
    using pqq.deq_law [OF assms(1) c(2)] by blast
  have "d = c" using c(2,3) d(2,3) by force
  moreover have "c = Min (fst ` S)" using c(2,3) pqq.rel_finite [OF assms(1)] by (intro Min_eqI [symmetric]) force+
  ultimately show ?thesis using c(1) d by blast
qed

theorem pq_firstCycle_exact_witness:
  "\<exists>q c q' y. pq_enqueue 4 (PrioQueue_new 4 (\<lambda>_. None)) 7 999 = Some q \<and> pq_firstCycle 4 q = Some c \<and> c = 999 \<and>
    pq_dequeue 999 4 q = Some (q', c, y) \<and> y = 7 \<and> pq_queue 4 q' {}"
proof -
  have "pq_queue 4 (PrioQueue_new 4 (\<lambda>_. None)) {}" by (rule pq_queue_new) simp_all
  then obtain q where q: "pq_enqueue 4 (PrioQueue_new 4 (\<lambda>_. None)) 7 999 = Some q" "pq_queue 4 q {(999, 7)}"
    using pqq.enq_law [of 4 "PrioQueue_new 4 (\<lambda>_. None)" "{}" 999 7] by (auto simp: PrioQueue_new_def)
  show ?thesis using pq_firstCycle_exact [OF q(2), of 999] q(1) by auto
qed

end
