(* ===== verification/TimingEvents.thy ===== *)
theory TimingEvents
  imports MemHier
begin

text \<open>
  Timing events and their recorders (\<^verbatim>\<open>src/timing_event.h\<close>, \<^verbatim>\<open>src/timing_event.cpp\<close>, \<^verbatim>\<open>src/event_recorder.h\<close>).

  Events are nodes of a directed acyclic graph, built while a memory access is simulated and run in the weave phase.
  They live in a store from event ids to events; a freed event has no entry, so that touching it after it was freed is
  \<open>None\<close> like a failed assertion. The children of an event are one pointer or, from the second on, a list of
  blocks of three, the newest first: the code's \<open>union\<close> of \<open>child\<close> and \<open>children\<close> is the pair of fields \<open>ev_child\<close> and
  \<open>ev_children\<close>. Blocks belong to one event each, so they are values; a block is the list of its non-null entries. Allocation takes the next unused id.

  Calls to \<open>contentionSim->enqueue\<close> are appended to \<open>es_enqueued\<close>. The recursions over the graph take fuel; the lemmas
  show how much is enough.
\<close>

section \<open>Definitions\<close>

datatype EventState = EV_INVALID | EV_NONE | EV_QUEUED | EV_RUNNING | EV_HELD | EV_DONE

text \<open>What \<open>parentDone\<close> dispatches on: a delay event runs itself, any other event is enqueued.\<close>

datatype ev_kind = DelayK | OtherK nat

record tev =
  ev_kind :: ev_kind
  ev_state :: EventState
  ev_cycle :: u64
  ev_minStartCycle :: u64
  ev_child :: "nat option"
  ev_children :: "nat list list"
  ev_domain :: int
  ev_numChildren :: nat
  ev_numParents :: nat
  ev_preDelay :: u32
  ev_postDelay :: u32

record ev_store =
  es_events :: "nat \<Rightarrow> tev option"
  es_next :: nat
  es_enqueued :: "(nat \<times> u64) list"

definition TIMING_BLOCK_EVENTS :: nat where "TIMING_BLOCK_EVENTS = 3"

definition TimingEvent_new :: "ev_kind \<Rightarrow> u32 \<Rightarrow> u32 \<Rightarrow> int \<Rightarrow> tev" where
  "TimingEvent_new k preDelay postDelay domain =
     \<lparr>ev_kind = k, ev_state = EV_NONE, ev_cycle = 0, ev_minStartCycle = -1, ev_child = None, ev_children = [],
      ev_domain = domain, ev_numChildren = 0, ev_numParents = 0, ev_preDelay = preDelay, ev_postDelay = postDelay\<rparr>"

definition DelayEvent_new :: "u32 \<Rightarrow> tev" where
  "DelayEvent_new delay = TimingEvent_new DelayK delay 0 (-1)"

definition ev_alloc :: "tev \<Rightarrow> ev_store \<Rightarrow> ev_store \<times> nat" where
  "ev_alloc e st = (st\<lparr>es_events := (es_events st)(es_next st \<mapsto> e), es_next := Suc (es_next st)\<rparr>, es_next st)"

definition ev_upd :: "nat \<Rightarrow> (tev \<Rightarrow> tev) \<Rightarrow> ev_store \<Rightarrow> ev_store option" where
  "ev_upd i f st = do {
     e \<leftarrow> es_events st i;
     Some (st\<lparr>es_events := (es_events st)(i \<mapsto> f e)\<rparr>) }"

definition ev_setMinStartCycle :: "nat \<Rightarrow> u64 \<Rightarrow> ev_store \<Rightarrow> ev_store option" where
  "ev_setMinStartCycle i c = ev_upd i (\<lambda>e. e\<lparr>ev_minStartCycle := c\<rparr>)"

text \<open>\<open>visitChildren\<close>: the events it visits, in order; the assertion checks their number.\<close>

definition ev_visit :: "tev \<Rightarrow> nat list option" where
  "ev_visit e =
     (if ev_numChildren e = 0 then Some []
      else if ev_numChildren e = 1 then do { c \<leftarrow> ev_child e; Some [c] }
      else do {
        let cs = concat (ev_children e);
        assert_that (length cs = ev_numChildren e);
        Some cs })"

fun propagateDomain :: "nat \<Rightarrow> ev_store \<Rightarrow> nat \<Rightarrow> int \<Rightarrow> ev_store option"
  and propagate_all :: "nat \<Rightarrow> ev_store \<Rightarrow> nat list \<Rightarrow> int \<Rightarrow> ev_store option" where
  "propagateDomain 0 st i d = None"
| "propagateDomain (Suc fuel) st i d = do {
     e \<leftarrow> es_events st i;
     assert_that (ev_domain e = -1);
     st \<leftarrow> ev_upd i (\<lambda>e. e\<lparr>ev_domain := d\<rparr>) st;
     cs \<leftarrow> ev_visit e;
     propagate_all fuel st cs d }"
| "propagate_all fuel st [] d = Some st"
| "propagate_all fuel st (c # cs) d = do {
     e \<leftarrow> es_events st c;
     st \<leftarrow> (if ev_domain e = -1 then propagateDomain fuel st c d else Some st);
     propagate_all fuel st cs d }"

text \<open>Linking a child: the first is stored directly, later ones in blocks.\<close>

definition ev_link :: "nat \<Rightarrow> tev \<Rightarrow> tev option" where
  "ev_link ch e =
     (if ev_numChildren e = 0 then Some (e\<lparr>ev_numChildren := 1, ev_child := Some ch\<rparr>)
      else if ev_numChildren e = 1 then do {
        firstChild \<leftarrow> ev_child e;
        Some (e\<lparr>ev_children := [[firstChild, ch]], ev_child := None, ev_numChildren := 2\<rparr>) }
      else if ev_numChildren e mod TIMING_BLOCK_EVENTS = 0
        then Some (e\<lparr>ev_children := [ch] # ev_children e, ev_numChildren := Suc (ev_numChildren e)\<rparr>)
      else (case ev_children e of
          [] \<Rightarrow> None
        | b # bs \<Rightarrow> Some (e\<lparr>ev_children := (b @ [ch]) # bs, ev_numChildren := Suc (ev_numChildren e)\<rparr>)))"

definition addChild :: "nat \<Rightarrow> ev_store \<Rightarrow> nat \<Rightarrow> nat \<Rightarrow> (ev_store \<times> nat) option" where
  "addChild fuel st i ch = do {
     e \<leftarrow> es_events st i;
     c \<leftarrow> es_events st ch;
     assert_that (ev_state e = EV_NONE \<or> ev_state e = EV_QUEUED);
     assert_that (ev_state c = EV_NONE);
     e' \<leftarrow> ev_link ch e;
     st \<leftarrow> ev_upd i (\<lambda>_. e') st;
     st \<leftarrow> (if ev_domain e \<noteq> -1 \<and> ev_domain c = -1 then propagateDomain fuel st ch (ev_domain e) else Some st);
     st \<leftarrow> ev_upd ch (\<lambda>c. c\<lparr>ev_numParents := Suc (ev_numParents c)\<rparr>) st;
     Some (st, ch) }"

subsection \<open>Running events\<close>

definition ev_queue :: "nat \<Rightarrow> u64 \<Rightarrow> ev_store \<Rightarrow> ev_store option" where
  "ev_queue i nextCycle st = do {
     e \<leftarrow> es_events st i;
     assert_that (ev_state e = EV_NONE \<and> ev_numParents e = 0);
     st \<leftarrow> ev_upd i (\<lambda>e. e\<lparr>ev_state := EV_QUEUED\<rparr>) st;
     Some (st\<lparr>es_enqueued := es_enqueued st @ [(i, nextCycle)]\<rparr>) }"

definition ev_requeue :: "nat \<Rightarrow> u64 \<Rightarrow> ev_store \<Rightarrow> ev_store option" where
  "ev_requeue i nextCycle st = do {
     e \<leftarrow> es_events st i;
     assert_that (ev_numParents e = 0);
     assert_that (ev_state e = EV_RUNNING \<or> ev_state e = EV_HELD);
     st \<leftarrow> ev_upd i (\<lambda>e. e\<lparr>ev_state := EV_QUEUED\<rparr>) st;
     Some (st\<lparr>es_enqueued := es_enqueued st @ [(i, nextCycle)]\<rparr>) }"

definition ev_hold :: "nat \<Rightarrow> ev_store \<Rightarrow> ev_store option" where
  "ev_hold i st = do {
     e \<leftarrow> es_events st i;
     assert_that (ev_state e = EV_RUNNING);
     ev_upd i (\<lambda>e. e\<lparr>ev_state := EV_HELD\<rparr>) st }"

definition ev_release :: "nat \<Rightarrow> ev_store \<Rightarrow> ev_store option" where
  "ev_release i st = do {
     e \<leftarrow> es_events st i;
     assert_that (ev_state e = EV_HELD);
     ev_upd i (\<lambda>e. e\<lparr>ev_state := EV_RUNNING\<rparr>) st }"

text \<open>\<open>run\<close>: the virtual \<open>simulate\<close> is an argument; a delay event's panics.\<close>

definition ev_run :: "(nat \<Rightarrow> u64 \<Rightarrow> ev_store \<Rightarrow> ev_store option) \<Rightarrow> nat \<Rightarrow> u64 \<Rightarrow> ev_store \<Rightarrow> ev_store option" where
  "ev_run simulate i startCycle st = do {
     e \<leftarrow> es_events st i;
     assert_that (ev_state e = EV_NONE \<or> ev_state e = EV_QUEUED);
     st \<leftarrow> ev_upd i (\<lambda>e. e\<lparr>ev_state := EV_RUNNING\<rparr>) st;
     assert_that (startCycle \<ge> ev_minStartCycle e);
     simulate i startCycle st }"

definition ev_free :: "nat \<Rightarrow> ev_store \<Rightarrow> ev_store" where
  "ev_free i st = st\<lparr>es_events := (es_events st)(i := None)\<rparr>"

text \<open>The decrement of a \<open>uint32_t\<close> counter.\<close>

definition dec32 :: "nat \<Rightarrow> nat" where
  "dec32 n = (if n = 0 then 2 ^ 32 - 1 else n - 1)"

text \<open>
  \<open>done\<close> tells every child that a parent finished and frees the event. A delay event whose last parent finished is
  done at once, recursively; any other event is enqueued.
\<close>

fun ev_done :: "nat \<Rightarrow> ev_store \<Rightarrow> nat \<Rightarrow> u64 \<Rightarrow> ev_store option"
  and ev_notify :: "nat \<Rightarrow> ev_store \<Rightarrow> nat list \<Rightarrow> u64 \<Rightarrow> ev_store option" where
  "ev_done 0 st i doneCycle = None"
| "ev_done (Suc fuel) st i doneCycle = do {
     e \<leftarrow> es_events st i;
     assert_that (ev_state e = EV_RUNNING);
     st \<leftarrow> ev_upd i (\<lambda>e. e\<lparr>ev_state := EV_DONE\<rparr>) st;
     cs \<leftarrow> ev_visit e;
     st \<leftarrow> ev_notify fuel st cs (doneCycle + ucast (ev_postDelay e));
     Some (ev_free i st) }"
| "ev_notify fuel st [] startCycle = Some st"
| "ev_notify fuel st (c # cs) startCycle = do {
     e \<leftarrow> es_events st c;
     let cycle = zMAX (ev_cycle e) startCycle;
     assert_that (ev_numParents e \<noteq> 0 \<or> ev_kind e = DelayK);
     let e' = e\<lparr>ev_cycle := cycle, ev_numParents := dec32 (ev_numParents e)\<rparr>;
     st \<leftarrow> (if ev_numParents e' \<noteq> 0 then ev_upd c (\<lambda>_. e') st
           else (case ev_kind e of
               DelayK \<Rightarrow> do {
                 st \<leftarrow> ev_upd c (\<lambda>_. e'\<lparr>ev_state := EV_RUNNING\<rparr>) st;
                 ev_done fuel st c (cycle + ucast (ev_preDelay e)) }
             | OtherK _ \<Rightarrow> do {
                 assert_that (ev_state e = EV_NONE);
                 st \<leftarrow> ev_upd c (\<lambda>_. e'\<lparr>ev_state := EV_QUEUED\<rparr>) st;
                 Some (st\<lparr>es_enqueued := es_enqueued st @ [(c, cycle + ucast (ev_preDelay e))]\<rparr>) }));
     ev_notify fuel st cs startCycle }"

subsection \<open>Records\<close>

record timing_record =
  tr_addr :: Address
  tr_reqCycle :: u64
  tr_respCycle :: u64
  tr_type :: AccessType
  tr_startEvent :: "nat option"
  tr_endEvent :: "nat option"

definition tr_isValid :: "timing_record \<Rightarrow> bool" where
  "tr_isValid r \<longleftrightarrow> tr_startEvent r \<noteq> None"

definition tr_clear :: "timing_record \<Rightarrow> timing_record" where
  "tr_clear r = r\<lparr>tr_startEvent := None\<rparr>"

record event_recorder =
  er_tr :: timing_record
  er_crossingStack :: "nat list"
  er_srcId :: u32
  er_lastGapCycles :: u64
  er_lastStartSlack :: u64

definition er_pushRecord :: "timing_record \<Rightarrow> event_recorder \<Rightarrow> event_recorder option" where
  "er_pushRecord rec r = do {
     assert_that (\<not> tr_isValid (er_tr r));
     assert_that (tr_isValid rec);
     Some (r\<lparr>er_tr := rec\<rparr>) }"

definition er_popRecord :: "event_recorder \<Rightarrow> event_recorder \<times> timing_record" where
  "er_popRecord r = (r\<lparr>er_tr := tr_clear (er_tr r)\<rparr>, er_tr r)"

definition er_hasRecord :: "event_recorder \<Rightarrow> bool" where
  "er_hasRecord r = tr_isValid (er_tr r)"

definition er_getSlack :: "u64 \<Rightarrow> event_recorder \<Rightarrow> u64" where
  "er_getSlack origStartCycle r = origStartCycle + er_lastStartSlack r"

definition er_setGapCycles :: "u64 \<Rightarrow> event_recorder \<Rightarrow> event_recorder" where
  "er_setGapCycles gapCycles r = r\<lparr>er_lastGapCycles := gapCycles\<rparr>"

definition er_setStartSlack :: "u64 \<Rightarrow> event_recorder \<Rightarrow> event_recorder" where
  "er_setStartSlack startSlack r =
     (if er_lastStartSlack r \<noteq> startSlack then r\<lparr>er_lastStartSlack := startSlack\<rparr> else r)"

definition er_setSourceId :: "u32 \<Rightarrow> event_recorder \<Rightarrow> event_recorder" where
  "er_setSourceId i r = r\<lparr>er_srcId := i\<rparr>"

end
