(* ===== verification/MemCtrls.thy ===== *)
theory MemCtrls
  imports Coherence
begin

text \<open>
  The memory controllers of \<^verbatim>\<open>src/mem_ctrls.h\<close> and \<^verbatim>\<open>src/mem_ctrls.cpp\<close>: \<open>SimpleMemory\<close> with a fixed latency, and
  \<open>MD1Memory\<close>, whose latency follows the load of the last phases.

  The latency of \<open>MD1Memory\<close> is computed in floating point. That computation is an argument of the model: a function
  from the smoothed number of accesses, the accesses of the current phase and the length of the phase to the new smoothed
  number, whether the load was clamped, the new latency and the load in percent. Everything around it is as in the code.
\<close>

section \<open>Definitions\<close>

text \<open>The state a memory leaves in the requester.\<close>

definition mem_grant :: "mem_req \<Rightarrow> MESIState" where
  "mem_grant req = (case mr_type req of
       PUTS \<Rightarrow> I | PUTX \<Rightarrow> I
     | GETS \<Rightarrow> (if mr_is NOEXCL req then S else E)
     | GETX \<Rightarrow> M)"

definition simple_mem_access :: "u32 \<Rightarrow> 'z coh_sys_scheme \<Rightarrow> mem_req \<Rightarrow> ('z coh_sys_scheme \<times> u64) option" where
  "simple_mem_access latency s req = do {
     s \<leftarrow> write_ptr s (mr_state req) (mem_grant req);
     let respCycle = mr_cycle req + ucast latency;
     assert_that (respCycle > mr_cycle req);
     Some (s, respCycle) }"

record 'd md1 =
  md1_lastPhase :: u64
  md1_smoothed :: 'd
  md1_zeroLoadLatency :: u32
  md1_curLatency :: u32
  md1_profReads :: u64
  md1_profWrites :: u64
  md1_profTotalRdLat :: u64
  md1_profTotalWrLat :: u64
  md1_profLoad :: u64
  md1_profUpdates :: u64
  md1_profClampedLoads :: u64
  md1_curPhaseAccesses :: u32

definition MD1Memory_new :: "'d \<Rightarrow> u32 \<Rightarrow> 'd md1" where
  "MD1Memory_new zero zeroLoadLatency =
     \<lparr>md1_lastPhase = 0, md1_smoothed = zero, md1_zeroLoadLatency = zeroLoadLatency, md1_curLatency = zeroLoadLatency,
      md1_profReads = 0, md1_profWrites = 0, md1_profTotalRdLat = 0, md1_profTotalWrLat = 0, md1_profLoad = 0,
      md1_profUpdates = 0, md1_profClampedLoads = 0, md1_curPhaseAccesses = 0\<rparr>"

definition md1_updateLatency ::
  "('d \<Rightarrow> u32 \<Rightarrow> u32 \<Rightarrow> 'd \<times> bool \<times> u32 \<times> u32) \<Rightarrow> u64 \<Rightarrow> u64 \<Rightarrow> 'd md1 \<Rightarrow> 'd md1" where
  "md1_updateLatency model numPhases phaseLength m =
     (let phaseCycles = (ucast ((numPhases - md1_lastPhase m) * phaseLength) :: u32)
      in if phaseCycles < 10000 then m
         else (case model (md1_smoothed m) (md1_curPhaseAccesses m) phaseCycles of
             (smoothed, clamped, latency, intLoad) \<Rightarrow>
               m\<lparr>md1_smoothed := smoothed,
                 md1_profClampedLoads := md1_profClampedLoads m + (if clamped then 1 else 0),
                 md1_curLatency := latency,
                 md1_profLoad := md1_profLoad m + ucast intLoad,
                 md1_profUpdates := md1_profUpdates m + 1,
                 md1_curPhaseAccesses := 0,
                 md1_lastPhase := numPhases\<rparr>))"

text \<open>The accounting of a dirty writeback and of a read.\<close>

definition md1_write :: "'d md1 \<Rightarrow> 'd md1" where
  "md1_write m = m\<lparr>md1_profWrites := md1_profWrites m + 1,
                   md1_profTotalWrLat := md1_profTotalWrLat m + ucast (md1_curLatency m),
                   md1_curPhaseAccesses := md1_curPhaseAccesses m + 1\<rparr>"

definition md1_read :: "'d md1 \<Rightarrow> 'd md1" where
  "md1_read m = m\<lparr>md1_profReads := md1_profReads m + 1,
                  md1_profTotalRdLat := md1_profTotalRdLat m + ucast (md1_curLatency m),
                  md1_curPhaseAccesses := md1_curPhaseAccesses m + 1\<rparr>"

definition md1_access ::
  "('d \<Rightarrow> u32 \<Rightarrow> u32 \<Rightarrow> 'd \<times> bool \<times> u32 \<times> u32) \<Rightarrow> u64 \<Rightarrow> u64 \<Rightarrow> 'd md1 \<Rightarrow> 'z coh_sys_scheme \<Rightarrow> mem_req \<Rightarrow>
    ('d md1 \<times> 'z coh_sys_scheme \<times> u64) option" where
  "md1_access model numPhases phaseLength m s req = do {
     let m = (if numPhases > md1_lastPhase m then md1_updateLatency model numPhases phaseLength m else m);
     let m = (case mr_type req of PUTX \<Rightarrow> md1_write m | PUTS \<Rightarrow> m | _ \<Rightarrow> md1_read m);
     s \<leftarrow> write_ptr s (mr_state req) (mem_grant req);
     Some (m, s, mr_cycle req + (if mr_type req = PUTS then 0 else ucast (md1_curLatency m))) }"

section \<open>Accounting\<close>

lemma md1_updateLatency_same: "md1_profReads (md1_updateLatency md p l m) = md1_profReads m"
  "md1_profWrites (md1_updateLatency md p l m) = md1_profWrites m"
  "md1_profTotalRdLat (md1_updateLatency md p l m) = md1_profTotalRdLat m"
  "md1_zeroLoadLatency (md1_updateLatency md p l m) = md1_zeroLoadLatency m"
  by (simp_all add: md1_updateLatency_def Let_def split: prod.split)

end
