(* ===== verification/Cache.thy ===== *)
theory Cache
  imports CacheArrays Coherence MemCtrls TimingEvents
begin

text \<open>
  The coherent cache (\<^verbatim>\<open>src/cache.h\<close>, \<^verbatim>\<open>src/cache.cpp\<close>), the filter cache in front of it (\<^verbatim>\<open>src/filter_cache.h\<close>) and the
  virtual calls between the objects of a memory hierarchy.

  The store of the coherence controllers is extended by the caches' arrays and latencies, the filters, the globals of the
  compressor, the event recorders and the event graph. Memory objects are numbers; \<open>h_obj\<close> says which class an object
  has. A virtual call \<open>p->access(req)\<close> or \<open>c->invalidate(req)\<close> is \<open>obj_access\<close> or \<open>obj_inval\<close>; their fuel bounds the depth
  of the hierarchy. The cache named \<open>l2-0\<close> uses the compressing operations of its array, as the name tests of the code do.
\<close>

section \<open>Definitions\<close>

record 'a cache =
  c_array :: 'a
  c_numLines :: nat
  c_accLat :: u32
  c_invLat :: u32
  c_name :: string
  c_terminal :: bool
  c_nonInclusiveHack :: bool

record filter_entry =
  fe_rdAddr :: Address
  fe_wrAddr :: Address
  fe_availCycle :: u64

record filter_cache =
  f_isPrefetcher :: bool
  f_profNumPrefetches :: u64
  f_array :: "filter_entry list"
  f_setMask :: u64
  f_numSets :: nat
  f_srcId :: u32
  f_reqFlags :: u32
  f_GETSHit :: u64
  f_GETXHit :: u64

datatype mem_obj = SimpleMemObj u32 | CacheObj | FilterCacheObj

record 'a hier = coh_sys +
  h_obj :: "nat \<Rightarrow> mem_obj"
  h_cache :: "nat \<Rightarrow> 'a cache"
  h_filter :: "nat \<Rightarrow> filter_cache"
  h_world :: cworld
  h_recs :: "event_recorder option list"
  h_events :: ev_store
  h_DirtyWB :: nat
  h_CleanWB :: nat
  h_load :: nat
  h_store :: nat
  h_procMask :: u64
  h_lineBits :: nat

type_synonym 'a h_access = "'a hier \<Rightarrow> nat \<Rightarrow> mem_req \<Rightarrow> ('a hier \<times> u64) option"
type_synonym 'a h_inval = "'a hier \<Rightarrow> nat \<Rightarrow> inv_req \<Rightarrow> ('a hier \<times> u64 \<times> bool) option"

subsection \<open>The array of a cache\<close>

definition upd_array :: "nat \<Rightarrow> 'a \<Rightarrow> 'a hier \<Rightarrow> 'a hier" where
  "upd_array c a s = s\<lparr>h_cache := (h_cache s)(c := (h_cache s c)\<lparr>c_array := a\<rparr>)\<rparr>"

definition is_l2_0 :: "'a hier \<Rightarrow> nat \<Rightarrow> bool" where
  "is_l2_0 s c \<longleftrightarrow> c_name (h_cache s c) = ''l2-0''"

text \<open>The part of the controller a replacement policy consults.\<close>

definition cc_view_of :: "'a hier \<Rightarrow> nat \<Rightarrow> cc_view" where
  "cc_view_of s c =
     \<lparr>ccv_numSharers = (\<lambda>l. if c_terminal (h_cache s c) then 0
                            else case tcc_numSharers s c l of Some n \<Rightarrow> n | None \<Rightarrow> 0),
      ccv_isValid = (\<lambda>l. bcc_isValid s c l = Some True)\<rparr>"

definition h_lookup ::
  "(nat \<Rightarrow> 'a array_vt) \<Rightarrow> 'a hier \<Rightarrow> nat \<Rightarrow> mem_req \<Rightarrow> bool \<Rightarrow> ('a hier \<times> nat option) option" where
  "h_lookup vt s c req upd = do {
     (a, lineId) \<leftarrow> (if is_l2_0 s c then av_lookupL2 (vt c) else av_lookup (vt c))
                      (c_array (h_cache s c)) (mr_lineAddr req) (Some req) upd;
     Some (upd_array c a s, lineId) }"

definition h_preinsert ::
  "(nat \<Rightarrow> 'a array_vt) \<Rightarrow> 'a hier \<Rightarrow> nat \<Rightarrow> mem_req \<Rightarrow> ('a hier \<times> nat \<times> Address) option" where
  "h_preinsert vt s c req = do {
     (a, lineId, wbLineAddr) \<leftarrow> (if is_l2_0 s c then av_preinsertL2 (vt c) else av_preinsert (vt c))
                      (cc_view_of s c) (c_array (h_cache s c)) (mr_lineAddr req) req;
     Some (upd_array c a s, lineId, wbLineAddr) }"

definition h_postinsert ::
  "(nat \<Rightarrow> 'a array_vt) \<Rightarrow> 'a hier \<Rightarrow> nat \<Rightarrow> mem_req \<Rightarrow> nat \<Rightarrow> 'a hier option" where
  "h_postinsert vt s c req lineId = do {
     (a, w) \<leftarrow> (if is_l2_0 s c then av_postinsertL2 (vt c) else av_postinsert (vt c))
                 (c_array (h_cache s c)) (h_world s) (mr_lineAddr req) req lineId;
     Some ((upd_array c a s)\<lparr>h_world := w\<rparr>) }"

subsection \<open>The controller of a cache\<close>

definition h_startAccess :: "'a hier \<Rightarrow> nat \<Rightarrow> mem_req \<Rightarrow> ('a hier \<times> mem_req \<times> bool) option" where
  "h_startAccess s c req =
     (if c_terminal (h_cache s c) then termcc_startAccess s c req else mesicc_startAccess s c req)"

definition h_shouldAllocate :: "'a hier \<Rightarrow> nat \<Rightarrow> mem_req \<Rightarrow> bool option" where
  "h_shouldAllocate s c req =
     (if c_terminal (h_cache s c) then Some True
      else mesicc_shouldAllocate (c_nonInclusiveHack (h_cache s c)) req)"

definition h_processEviction ::
  "'a h_access \<Rightarrow> 'a h_inval \<Rightarrow> 'a hier \<Rightarrow> nat \<Rightarrow> mem_req \<Rightarrow> Address \<Rightarrow> nat \<Rightarrow> u64 \<Rightarrow> bool \<Rightarrow>
    ('a hier \<times> u64 \<times> bool) option" where
  "h_processEviction accf invf s c req wbLineAddr lineId cycle downgrade =
     (if c_terminal (h_cache s c) then termcc_processEviction accf s c req wbLineAddr lineId cycle downgrade
      else mesicc_processEviction accf invf s c req wbLineAddr lineId cycle downgrade)"

definition h_processAccess ::
  "'a h_access \<Rightarrow> 'a h_inval \<Rightarrow> 'a hier \<Rightarrow> nat \<Rightarrow> mem_req \<Rightarrow> nat option \<Rightarrow> u64 \<Rightarrow> ('a hier \<times> u64) option" where
  "h_processAccess accf invf s c req lineId cycle =
     (if c_terminal (h_cache s c) then termcc_processAccess accf s c req lineId cycle
      else do { (s, r, _) \<leftarrow> mesicc_processAccess accf invf s c req lineId cycle; Some (s, r) })"

definition h_endAccess :: "'a hier \<Rightarrow> nat \<Rightarrow> mem_req \<Rightarrow> 'a hier option" where
  "h_endAccess s c req =
     (if c_terminal (h_cache s c) then termcc_endAccess s c req else mesicc_endAccess s c req)"

definition h_processInv ::
  "'a h_inval \<Rightarrow> 'a hier \<Rightarrow> nat \<Rightarrow> inv_req \<Rightarrow> nat \<Rightarrow> u64 \<Rightarrow> ('a hier \<times> u64 \<times> bool) option" where
  "h_processInv invf s c req lineId cycle =
     (if c_terminal (h_cache s c) then termcc_processInv s c req lineId cycle
      else mesicc_processInv invf s c req lineId cycle)"

subsection \<open>Access\<close>

text \<open>The global request counters and the flag \<open>l1\<close>.\<close>

definition count_request :: "AccessType \<Rightarrow> 'a hier \<Rightarrow> 'a hier" where
  "count_request type s =
     (case type of
        PUTX \<Rightarrow> s\<lparr>h_DirtyWB := Suc (h_DirtyWB s)\<rparr>
      | PUTS \<Rightarrow> s\<lparr>h_CleanWB := Suc (h_CleanWB s)\<rparr>
      | GETS \<Rightarrow> s\<lparr>h_load := Suc (h_load s)\<rparr>
      | GETX \<Rightarrow> s\<lparr>h_store := Suc (h_store s)\<rparr>)
     \<lparr>h_world := (h_world s)\<lparr>cw_l1 := (type = PUTX)\<rparr>\<rparr>"

text \<open>Allocation on a miss: choose a victim, evict it, insert the line.\<close>

definition cache_allocate ::
  "(nat \<Rightarrow> 'a array_vt) \<Rightarrow> 'a h_access \<Rightarrow> 'a h_inval \<Rightarrow> 'a hier \<Rightarrow> nat \<Rightarrow> mem_req \<Rightarrow> u64 \<Rightarrow> ('a hier \<times> nat) option" where
  "cache_allocate vt accf invf s c req cycle = do {
     (s, l, wbLineAddr) \<leftarrow> h_preinsert vt s c req;
     (s, _, _) \<leftarrow> h_processEviction accf invf s c req wbLineAddr l cycle False;
     s \<leftarrow> h_postinsert vt s c req l;
     Some (s, l) }"

text \<open>A pending record of the writeback is taken out of the recorder before the access...\<close>

definition take_record :: "'a hier \<Rightarrow> u32 \<Rightarrow> ('a hier \<times> timing_record option) option" where
  "take_record s srcId = do {
     evRec \<leftarrow> aget (h_recs s) (unat srcId);
     (case evRec of
        None \<Rightarrow> Some (s, None)
      | Some r \<Rightarrow>
          if er_hasRecord r
          then (case er_popRecord r of (r', tr) \<Rightarrow> Some (s\<lparr>h_recs := (h_recs s)[unat srcId := Some r']\<rparr>, Some tr))
          else Some (s, None)) }"

text \<open>... and stitched together with the record of the access afterwards.\<close>

definition link_chain :: "nat \<Rightarrow> nat \<Rightarrow> nat \<Rightarrow> ev_store \<Rightarrow> ev_store option" where
  "link_chain startEv delayEv ev st = do {
     (st, _) \<leftarrow> addChild (es_next st) st startEv delayEv;
     (st, _) \<leftarrow> addChild (es_next st) st delayEv ev;
     Some st }"

definition stitch_records :: "'a hier \<Rightarrow> mem_req \<Rightarrow> timing_record option \<Rightarrow> 'a hier option" where
  "stitch_records s req wbAcc = (case wbAcc of
       None \<Rightarrow> Some s
     | Some wb \<Rightarrow> do {
         evRec \<leftarrow> aget (h_recs s) (unat (mr_srcId req));
         r \<leftarrow> evRec;
         if \<not> er_hasRecord r then do {
           r \<leftarrow> er_pushRecord (wb\<lparr>tr_endEvent := None\<rparr>) r;
           Some (s\<lparr>h_recs := (h_recs s)[unat (mr_srcId req) := Some r]\<rparr>) }
         else do {
           let (r, acc) = er_popRecord r;
           assert_that (tr_reqCycle wb \<ge> mr_cycle req);
           assert_that (tr_reqCycle acc \<ge> mr_cycle req);
           let (st, startEv) = ev_alloc (DelayEvent_new 0) (h_events s);
           let (st, dWbEv) = ev_alloc (DelayEvent_new (ucast (tr_reqCycle wb - mr_cycle req))) st;
           let (st, dAccEv) = ev_alloc (DelayEvent_new (ucast (tr_reqCycle acc - mr_cycle req))) st;
           st \<leftarrow> ev_setMinStartCycle startEv (mr_cycle req) st;
           st \<leftarrow> ev_setMinStartCycle dWbEv (mr_cycle req) st;
           st \<leftarrow> ev_setMinStartCycle dAccEv (mr_cycle req) st;
           wbEv \<leftarrow> tr_startEvent wb;
           accEv \<leftarrow> tr_startEvent acc;
           st \<leftarrow> link_chain startEv dWbEv wbEv st;
           st \<leftarrow> link_chain startEv dAccEv accEv st;
           r \<leftarrow> er_pushRecord (acc\<lparr>tr_reqCycle := mr_cycle req, tr_startEvent := Some startEv\<rparr>) r;
           Some (s\<lparr>h_recs := (h_recs s)[unat (mr_srcId req) := Some r], h_events := st\<rparr>) } })"

text \<open>The line of a request: a hit, or a line allocated for it, or none.\<close>

definition cache_line ::
  "(nat \<Rightarrow> 'a array_vt) \<Rightarrow> 'a h_access \<Rightarrow> 'a h_inval \<Rightarrow> 'a hier \<Rightarrow> nat \<Rightarrow> mem_req \<Rightarrow> nat option \<Rightarrow> u64 \<Rightarrow>
    ('a hier \<times> nat option) option" where
  "cache_line vt accf invf s c req lineId cycle = (case lineId of
       Some l \<Rightarrow> Some (s, Some l)
     | None \<Rightarrow> do {
         alloc \<leftarrow> h_shouldAllocate s c req;
         if alloc then do {
           (s, l) \<leftarrow> cache_allocate vt accf invf s c req cycle;
           Some (s, Some l) }
         else Some (s, None) })"

definition cache_serve ::
  "(nat \<Rightarrow> 'a array_vt) \<Rightarrow> 'a h_access \<Rightarrow> 'a h_inval \<Rightarrow> 'a hier \<Rightarrow> nat \<Rightarrow> mem_req \<Rightarrow> nat option \<Rightarrow> u64 \<Rightarrow> ('a hier \<times> u64) option" where
  "cache_serve vt accf invf s c req lineId cycle = do {
     (s, lineId) \<leftarrow> cache_line vt accf invf s c req lineId cycle;
     (s, wbAcc) \<leftarrow> take_record s (mr_srcId req);
     (s, respCycle) \<leftarrow> h_processAccess accf invf s c req lineId cycle;
     s \<leftarrow> stitch_records s req wbAcc;
     Some (s, respCycle) }"

definition cache_access ::
  "(nat \<Rightarrow> 'a array_vt) \<Rightarrow> 'a h_access \<Rightarrow> 'a h_inval \<Rightarrow> 'a hier \<Rightarrow> nat \<Rightarrow> mem_req \<Rightarrow> ('a hier \<times> u64) option" where
  "cache_access vt accf invf s c req = do {
     (s, req', skipAccess) \<leftarrow> h_startAccess s c req;
     (s, respCycle) \<leftarrow>
       (if skipAccess then Some (s, mr_cycle req)
        else do {
          (s, lineId) \<leftarrow> h_lookup vt s c req' (IsGet (mr_type req'));
          cache_serve vt accf invf (count_request (mr_type req') s) c req' lineId
            (mr_cycle req + ucast (c_accLat (h_cache s c))) });
     s \<leftarrow> h_endAccess s c req';
     assert_that (respCycle \<ge> mr_cycle req);
     Some (s, respCycle) }"

subsection \<open>Invalidation\<close>

definition cache_finishInvalidate ::
  "(nat \<Rightarrow> 'a array_vt) \<Rightarrow> 'a h_inval \<Rightarrow> 'a hier \<Rightarrow> nat \<Rightarrow> inv_req \<Rightarrow> ('a hier \<times> u64 \<times> bool) option" where
  "cache_finishInvalidate vt invf s c req = do {
     (a, lineId) \<leftarrow> av_lookup (vt c) (c_array (h_cache s c)) (ir_lineAddr req) None False;
     l \<leftarrow> lineId;
     h_processInv invf (upd_array c a s) c req l (ir_cycle req + ucast (c_invLat (h_cache s c))) }"

definition cache_invalidate ::
  "(nat \<Rightarrow> 'a array_vt) \<Rightarrow> 'a h_inval \<Rightarrow> 'a hier \<Rightarrow> nat \<Rightarrow> inv_req \<Rightarrow> ('a hier \<times> u64 \<times> bool) option" where
  "cache_invalidate vt invf s c req = do {
     s \<leftarrow> cc_startInv s c;
     cache_finishInvalidate vt invf s c req }"

subsection \<open>The filter\<close>

definition filter_entry_clear :: filter_entry where
  "filter_entry_clear = \<lparr>fe_rdAddr = 0, fe_wrAddr = 0, fe_availCycle = 0\<rparr>"

definition FilterCache_new :: "nat \<Rightarrow> bool \<Rightarrow> filter_cache" where
  "FilterCache_new numSets isPrefetcher =
     \<lparr>f_isPrefetcher = isPrefetcher, f_profNumPrefetches = 0, f_array = replicate numSets filter_entry_clear,
      f_setMask = ucast (of_nat numSets - 1 :: u32), f_numSets = numSets, f_srcId = -1, f_reqFlags = 0,
      f_GETSHit = 0, f_GETXHit = 0\<rparr>"

definition f_setSourceId :: "u32 \<Rightarrow> filter_cache \<Rightarrow> filter_cache" where
  "f_setSourceId i f = f\<lparr>f_srcId := i\<rparr>"

definition f_setFlags :: "u32 \<Rightarrow> filter_cache \<Rightarrow> filter_cache" where
  "f_setFlags flags f = f\<lparr>f_reqFlags := flags\<rparr>"

definition upd_filter :: "nat \<Rightarrow> (filter_cache \<Rightarrow> filter_cache) \<Rightarrow> 'a hier \<Rightarrow> 'a hier" where
  "upd_filter c g s = s\<lparr>h_filter := (h_filter s)(c := g (h_filter s c))\<rparr>"

definition set_filter_entry :: "nat \<Rightarrow> nat \<Rightarrow> filter_entry \<Rightarrow> 'a hier \<Rightarrow> 'a hier option" where
  "set_filter_entry c idx e s = do {
     a \<leftarrow> aset (f_array (h_filter s c)) idx e;
     Some (upd_filter c (\<lambda>f. f\<lparr>f_array := a\<rparr>) s) }"

definition f_index :: "filter_cache \<Rightarrow> Address \<Rightarrow> nat" where
  "f_index f addr = unat (ucast (addr AND f_setMask f) :: u32)"

definition filter_req :: "'a hier \<Rightarrow> nat \<Rightarrow> Address \<Rightarrow> bool \<Rightarrow> u64 \<Rightarrow> mem_req" where
  "filter_req s c vLineAddr isLoad curCycle =
     \<lparr>mr_lineAddr = h_procMask s OR vLineAddr, mr_type = (if isLoad then GETS else GETX), mr_childId = 0,
      mr_state = LocalState I, mr_cycle = curCycle, mr_childLock = Some (FilterLock c), mr_initialState = I,
      mr_srcId = f_srcId (h_filter s c), mr_flags = f_reqFlags (h_filter s c)\<rparr>"

definition filter_replace ::
  "(nat \<Rightarrow> 'a array_vt) \<Rightarrow> 'a h_access \<Rightarrow> 'a h_inval \<Rightarrow> 'a hier \<Rightarrow> nat \<Rightarrow> Address \<Rightarrow> nat \<Rightarrow> bool \<Rightarrow> u64 \<Rightarrow>
    ('a hier \<times> u64) option" where
  "filter_replace vt accf invf s c vLineAddr idx isLoad curCycle = do {
     s \<leftarrow> cc_lock (FilterLock c) s;
     (s, respCycle) \<leftarrow> cache_access vt accf invf s c (filter_req s c vLineAddr isLoad curCycle);
     e \<leftarrow> aget (f_array (h_filter s c)) idx;
     s \<leftarrow> set_filter_entry c idx
           \<lparr>fe_rdAddr = vLineAddr, fe_wrAddr = (if isLoad then -1 else vLineAddr),
            fe_availCycle = (if fe_rdAddr e \<noteq> vLineAddr then respCycle else fe_availCycle e)\<rparr> s;
     Some (cc_unlock (FilterLock c) s, respCycle) }"

text \<open>A load without the prefetch of the next line; \<open>filter_load\<close> is \<open>load\<close> with its default argument.\<close>

definition filter_load1 ::
  "(nat \<Rightarrow> 'a array_vt) \<Rightarrow> 'a h_access \<Rightarrow> 'a h_inval \<Rightarrow> 'a hier \<Rightarrow> nat \<Rightarrow> Address \<Rightarrow> u64 \<Rightarrow> ('a hier \<times> u64) option" where
  "filter_load1 vt accf invf s c vAddr curCycle = do {
     let vLineAddr = drop_bit (h_lineBits s) vAddr;
     let idx = f_index (h_filter s c) vLineAddr;
     e \<leftarrow> aget (f_array (h_filter s c)) idx;
     if vLineAddr = fe_rdAddr e
     then Some (upd_filter c (\<lambda>f. f\<lparr>f_GETSHit := f_GETSHit f + 1\<rparr>) s, zMAX curCycle (fe_availCycle e))
     else filter_replace vt accf invf s c vLineAddr idx True curCycle }"

definition handlePrefetch ::
  "(nat \<Rightarrow> 'a array_vt) \<Rightarrow> 'a h_access \<Rightarrow> 'a h_inval \<Rightarrow> 'a hier \<Rightarrow> nat \<Rightarrow> Address \<Rightarrow> u64 \<Rightarrow> ('a hier \<times> u64) option" where
  "handlePrefetch vt accf invf s c vLineAddr curCycle = do {
     let pfAddr = push_bit (h_lineBits s) (vLineAddr + 1);
     filter_load1 vt accf invf (upd_filter c (\<lambda>f. f\<lparr>f_profNumPrefetches := f_profNumPrefetches f + 1\<rparr>) s) c pfAddr curCycle }"

definition filter_load ::
  "(nat \<Rightarrow> 'a array_vt) \<Rightarrow> 'a h_access \<Rightarrow> 'a h_inval \<Rightarrow> 'a hier \<Rightarrow> nat \<Rightarrow> Address \<Rightarrow> u64 \<Rightarrow> ('a hier \<times> u64) option" where
  "filter_load vt accf invf s c vAddr curCycle = do {
     (s, respCycle) \<leftarrow> filter_load1 vt accf invf s c vAddr curCycle;
     if f_isPrefetcher (h_filter s c)
     then handlePrefetch vt accf invf s c (drop_bit (h_lineBits s) vAddr) respCycle
     else Some (s, respCycle) }"

definition filter_store ::
  "(nat \<Rightarrow> 'a array_vt) \<Rightarrow> 'a h_access \<Rightarrow> 'a h_inval \<Rightarrow> 'a hier \<Rightarrow> nat \<Rightarrow> Address \<Rightarrow> u64 \<Rightarrow> ('a hier \<times> u64) option" where
  "filter_store vt accf invf s c vAddr curCycle = do {
     let vLineAddr = drop_bit (h_lineBits s) vAddr;
     let idx = f_index (h_filter s c) vLineAddr;
     e \<leftarrow> aget (f_array (h_filter s c)) idx;
     if vLineAddr = fe_wrAddr e
     then Some (upd_filter c (\<lambda>f. f\<lparr>f_GETXHit := f_GETXHit f + 1\<rparr>) s, zMAX curCycle (fe_availCycle e))
     else filter_replace vt accf invf s c vLineAddr idx False curCycle }"

definition filter_invalidate ::
  "(nat \<Rightarrow> 'a array_vt) \<Rightarrow> 'a h_inval \<Rightarrow> 'a hier \<Rightarrow> nat \<Rightarrow> inv_req \<Rightarrow> ('a hier \<times> u64 \<times> bool) option" where
  "filter_invalidate vt invf s c req = do {
     s \<leftarrow> cc_startInv s c;
     s \<leftarrow> cc_lock (FilterLock c) s;
     let idx = f_index (h_filter s c) (ir_lineAddr req);
     e \<leftarrow> aget (f_array (h_filter s c)) idx;
     s \<leftarrow> (if fe_rdAddr e OR h_procMask s = ir_lineAddr req
           then set_filter_entry c idx (e\<lparr>fe_wrAddr := -1, fe_rdAddr := -1\<rparr>) s
           else Some s);
     (s, respCycle, wb) \<leftarrow> cache_finishInvalidate vt invf s c req;
     Some (cc_unlock (FilterLock c) s, respCycle, wb) }"

definition filter_contextSwitch :: "'a hier \<Rightarrow> nat \<Rightarrow> 'a hier option" where
  "filter_contextSwitch s c = do {
     s \<leftarrow> cc_lock (FilterLock c) s;
     let s = upd_filter c (\<lambda>f. f\<lparr>f_array := replicate (f_numSets f) filter_entry_clear\<rparr>) s;
     Some (cc_unlock (FilterLock c) s) }"

subsection \<open>Virtual calls\<close>

fun obj_inval :: "(nat \<Rightarrow> 'a array_vt) \<Rightarrow> nat \<Rightarrow> 'a h_inval" where
  "obj_inval vt 0 s c req = None"
| "obj_inval vt (Suc fuel) s c req = (case h_obj s c of
       SimpleMemObj _ \<Rightarrow> None
     | CacheObj \<Rightarrow> cache_invalidate vt (obj_inval vt fuel) s c req
     | FilterCacheObj \<Rightarrow> filter_invalidate vt (obj_inval vt fuel) s c req)"

fun obj_access :: "(nat \<Rightarrow> 'a array_vt) \<Rightarrow> nat \<Rightarrow> 'a h_access" where
  "obj_access vt 0 s c req = None"
| "obj_access vt (Suc fuel) s c req = (case h_obj s c of
       SimpleMemObj latency \<Rightarrow> simple_mem_access latency s req
     | _ \<Rightarrow> cache_access vt (obj_access vt fuel) (obj_inval vt fuel) s c req)"

declare obj_inval.simps(2) [simp del] obj_access.simps(2) [simp del]

text \<open>What a core does: a load, a store, or the start of another thread.\<close>

datatype core_op = CoreLoad Address | CoreStore Address | CoreSwitch

definition core_step ::
  "(nat \<Rightarrow> 'a array_vt) \<Rightarrow> nat \<Rightarrow> 'a hier \<Rightarrow> nat \<Rightarrow> core_op \<Rightarrow> u64 \<Rightarrow> ('a hier \<times> u64) option" where
  "core_step vt fuel s c oper cycle = (case oper of
       CoreLoad a \<Rightarrow> filter_load vt (obj_access vt fuel) (obj_inval vt fuel) s c a cycle
     | CoreStore a \<Rightarrow> filter_store vt (obj_access vt fuel) (obj_inval vt fuel) s c a cycle
     | CoreSwitch \<Rightarrow> do { s \<leftarrow> filter_contextSwitch s c; Some (s, cycle) })"

end
