(* ===== verification/Hierarchy.thy ===== *)
theory Hierarchy
  imports Cache
begin

text \<open>
  The coherence of a two-level hierarchy: any number of cores, each with a filter cache over a terminal MESI controller,
  below one inclusive shared cache with a MESI directory, below simple memories.

  The invariant relates, for every line address, the states the child caches hold to the directory entry and state of the
  parent, and the filters to the caches under them. It is kept by every operation of a core, and no assertion of the
  controllers, the caches or the arrays fails and no lock is taken twice.
\<close>

section \<open>The invariant\<close>

text \<open>The abstraction of the arrays, and the shape of the hierarchy.\<close>

record 'a shape =
  g_where :: "nat \<Rightarrow> 'a \<Rightarrow> Address \<Rightarrow> nat option"
  g_ainv :: "nat \<Rightarrow> 'a \<Rightarrow> bool"
  g_size :: "nat \<Rightarrow> 'a \<Rightarrow> nat"
  g_pend :: "nat \<Rightarrow> 'a \<Rightarrow> Address \<Rightarrow> nat \<Rightarrow> bool"
  g_mask :: "nat \<Rightarrow> u64"
  g_l2 :: bool
  g_parent :: nat
  g_kids :: "nat list"

definition arr :: "'a hier \<Rightarrow> nat \<Rightarrow> 'a" where
  "arr s c = c_array (h_cache s c)"

definition barr :: "'a hier \<Rightarrow> nat \<Rightarrow> MESIState list" where
  "barr s c = bcc_array (bcc_of s c)"

definition earr :: "'a hier \<Rightarrow> nat \<Rightarrow> tcc_entry list" where
  "earr s c = tcc_array (tcc_of s c)"

definition farr :: "'a hier \<Rightarrow> nat \<Rightarrow> filter_entry list" where
  "farr s c = f_array (h_filter s c)"

text \<open>The state of an address in a cache: invalid unless a line holds it.\<close>

definition cst :: "'a shape \<Rightarrow> 'a hier \<Rightarrow> nat \<Rightarrow> Address \<Rightarrow> MESIState" where
  "cst g s c x = (case g_where g c (arr s c) x of None \<Rightarrow> I | Some l \<Rightarrow> barr s c ! l)"

text \<open>The directory entry of an address in the parent.\<close>

definition ent :: "'a shape \<Rightarrow> 'a hier \<Rightarrow> Address \<Rightarrow> tcc_entry option" where
  "ent g s x = map_option (\<lambda>l. earr s (g_parent g) ! l) (g_where g (g_parent g) (arr s (g_parent g)) x)"

definition entry_ok :: "nat \<Rightarrow> tcc_entry \<Rightarrow> bool" where
  "entry_ok n e \<longleftrightarrow> length (sharers e) = MAX_CACHE_CHILDREN \<and>
     (\<forall>i < MAX_CACHE_CHILDREN. sharers e ! i \<longrightarrow> i < n) \<and>
     unat (numSharers e) = length (filter id (sharers e)) \<and>
     (exclusive e \<longrightarrow> unat (numSharers e) \<le> 1)"

definition is_EM :: "MESIState \<Rightarrow> bool" where
  "is_EM st \<longleftrightarrow> st = E \<or> st = M"

text \<open>The directory agrees with the children on one address.\<close>

definition dir_ok :: "nat list \<Rightarrow> (nat \<Rightarrow> MESIState) \<Rightarrow> MESIState \<Rightarrow> tcc_entry option \<Rightarrow> bool" where
  "dir_ok kids child parent eo \<longleftrightarrow> (case eo of
       None \<Rightarrow> \<forall>k \<in> set kids. child k = I
     | Some e \<Rightarrow> (\<forall>i < length kids. sharers e ! i \<longleftrightarrow> child (kids ! i) \<noteq> I) \<and>
         (\<forall>k \<in> set kids. child k \<noteq> I \<longrightarrow> (exclusive e \<longleftrightarrow> is_EM (child k)) \<and> parent \<noteq> I) \<and>
         (\<forall>k \<in> set kids. is_EM (child k) \<longrightarrow> is_EM parent))"

definition directory_ok :: "'a shape \<Rightarrow> 'a hier \<Rightarrow> bool" where
  "directory_ok g s \<longleftrightarrow>
     (\<forall>x. x \<noteq> 0 \<longrightarrow> dir_ok (g_kids g) (\<lambda>k. cst g s k x) (cst g s (g_parent g) x) (ent g s x))"

text \<open>Lines that hold no address are invalid and have no sharers.\<close>

definition free_ok :: "'a shape \<Rightarrow> 'a hier \<Rightarrow> nat \<Rightarrow> bool" where
  "free_ok g s c \<longleftrightarrow>
     (\<forall>l < length (barr s c). (\<forall>x. g_where g c (arr s c) x \<noteq> Some l) \<longrightarrow>
        barr s c ! l = I \<and> (c = g_parent g \<longrightarrow> numSharers (earr s c ! l) = 0))"

text \<open>A filter entry grants no more than the cache below holds. The addresses 0 and -1 are never used.\<close>

definition f_valid :: "Address \<Rightarrow> bool" where
  "f_valid v \<longleftrightarrow> v \<noteq> 0 \<and> v \<noteq> -1"

definition fent_ok :: "'a shape \<Rightarrow> 'a hier \<Rightarrow> nat \<Rightarrow> nat \<Rightarrow> bool" where
  "fent_ok g s k i \<longleftrightarrow> (let e = farr s k ! i in
     (f_valid (fe_rdAddr e) \<longrightarrow>
        f_index (h_filter s k) (fe_rdAddr e) = i \<and> cst g s k (h_procMask s OR fe_rdAddr e) \<noteq> I) \<and>
     (f_valid (fe_wrAddr e) \<longrightarrow>
        fe_wrAddr e = fe_rdAddr e \<and> cst g s k (h_procMask s OR fe_wrAddr e) = M))"

definition filter_ok :: "'a shape \<Rightarrow> (nat \<times> nat) set \<Rightarrow> 'a hier \<Rightarrow> bool" where
  "filter_ok g K s \<longleftrightarrow> (\<forall>k \<in> set (g_kids g). \<forall>i < length (farr s k). (k, i) \<notin> K \<longrightarrow> fent_ok g s k i)"

text \<open>What no access changes.\<close>

definition static :: "'a hier \<Rightarrow> _" where
  "static s =
     (h_obj s,
      (\<lambda>c. (c_accLat (h_cache s c), c_invLat (h_cache s c), c_name (h_cache s c), c_terminal (h_cache s c),
            c_nonInclusiveHack (h_cache s c))),
      (\<lambda>c. (bcc_parents (bcc_of s c), bcc_parentRTTs (bcc_of s c), bcc_selfId (bcc_of s c), bcc_nonInclusiveHack (bcc_of s c))),
      (\<lambda>c. (tcc_children (tcc_of s c), tcc_childrenRTTs (tcc_of s c), tcc_nonInclusiveHack (tcc_of s c))),
      (\<lambda>c. (f_setMask (h_filter s c), f_srcId (h_filter s c), f_reqFlags (h_filter s c), f_isPrefetcher (h_filter s c),
            f_numSets (h_filter s c))),
      h_recs s, h_procMask s, h_lineBits s)"

text \<open>The wiring: who is whose parent and child, and the latencies.\<close>

definition wired_parent :: "'a shape \<Rightarrow> 'a hier \<Rightarrow> bool" where
  "wired_parent g s \<longleftrightarrow> (let p = g_parent g in
     h_obj s p = CacheObj \<and> is_l2_0 s p = g_l2 g \<and> \<not> c_terminal (h_cache s p) \<and> \<not> c_nonInclusiveHack (h_cache s p) \<and>
     \<not> tcc_nonInclusiveHack (tcc_of s p) \<and>
     tcc_children (tcc_of s p) = g_kids g \<and> length (tcc_childrenRTTs (tcc_of s p)) = length (g_kids g) \<and>
     bcc_parents (bcc_of s p) \<noteq> [] \<and> length (bcc_parentRTTs (bcc_of s p)) = length (bcc_parents (bcc_of s p)) \<and>
     (\<forall>m \<in> set (bcc_parents (bcc_of s p)). \<exists>lat. lat \<noteq> 0 \<and> h_obj s m = SimpleMemObj lat))"

definition wired_kid :: "'a shape \<Rightarrow> 'a hier \<Rightarrow> nat \<Rightarrow> bool" where
  "wired_kid g s i \<longleftrightarrow> (let k = g_kids g ! i in
     h_obj s k = FilterCacheObj \<and> c_terminal (h_cache s k) \<and> c_name (h_cache s k) \<noteq> ''l2-0'' \<and>
     bcc_parents (bcc_of s k) = [g_parent g] \<and> length (bcc_parentRTTs (bcc_of s k)) = 1 \<and> bcc_selfId (bcc_of s k) = i \<and>
     aget (h_recs s) (unat (f_srcId (h_filter s k))) \<noteq> None \<and>
     \<not> has_flag (f_reqFlags (h_filter s k)) PREFETCH \<and>
     f_setMask (h_filter s k) = g_mask g k \<and> h_procMask s AND g_mask g k = 0)"

definition wired :: "'a shape \<Rightarrow> 'a hier \<Rightarrow> bool" where
  "wired g s \<longleftrightarrow> wired_parent g s \<and> (\<forall>i < length (g_kids g). wired_kid g s i) \<and>
     (\<forall>r. Some r \<in> set (h_recs s) \<longrightarrow> \<not> er_hasRecord r) \<and> 0 < h_lineBits s"

definition sized :: "'a shape \<Rightarrow> 'a hier \<Rightarrow> nat \<Rightarrow> bool" where
  "sized g s c \<longleftrightarrow> g_where g c (arr s c) 0 = None \<and>
     (\<forall>x l. g_where g c (arr s c) x = Some l \<longrightarrow> l < length (barr s c)) \<and>
     (\<forall>x y l. g_where g c (arr s c) x = Some l \<longrightarrow> g_where g c (arr s c) y = Some l \<longrightarrow> x = y) \<and>
     length (barr s c) = g_size g c (arr s c) \<and> g_size g c (arr s c) \<le> numLines \<and>
     (c = g_parent g \<longrightarrow> length (earr s c) = length (barr s c)) \<and>
     (c \<noteq> g_parent g \<longrightarrow> (\<forall>x. f_index (h_filter s c) x < length (farr s c)) \<and> f_numSets (h_filter s c) = length (farr s c))"

definition members :: "'a shape \<Rightarrow> nat set" where
  "members g = insert (g_parent g) (set (g_kids g))"

text \<open>Everything but the directory and its entries, the filters and the locks.\<close>

definition base_ok :: "'a shape \<Rightarrow> 'a hier \<Rightarrow> bool" where
  "base_ok g s \<longleftrightarrow> wired g s \<and> (\<forall>c \<in> members g. sized g s c \<and> free_ok g s c)"

definition entries_ok :: "'a shape \<Rightarrow> 'a hier \<Rightarrow> bool" where
  "entries_ok g s \<longleftrightarrow> (\<forall>e \<in> set (earr s (g_parent g)). entry_ok (length (g_kids g)) e)"

definition hier_inv :: "'a shape \<Rightarrow> 'a hier \<Rightarrow> bool" where
  "hier_inv g s \<longleftrightarrow> base_ok g s \<and> entries_ok g s \<and> directory_ok g s \<and> filter_ok g {} s \<and>
     (\<forall>c \<in> members g. g_ainv g c (arr s c)) \<and> held s = {}"

section \<open>The arrays of a hierarchy\<close>

text \<open>
  What the hierarchy uses of an array. An array contract \<open>cache_array\<close> gives it; the compressing operations of the
  set-associative array meet it too, since they need a line number within the tables of the compressor.
\<close>

locale line_store =
  fixes lookup :: "'a \<Rightarrow> Address \<Rightarrow> mem_req option \<Rightarrow> bool \<Rightarrow> ('a \<times> nat option) option"
    and preinsert :: "cc_view \<Rightarrow> 'a \<Rightarrow> Address \<Rightarrow> mem_req \<Rightarrow> ('a \<times> nat \<times> Address) option"
    and postinsert :: "'a \<Rightarrow> cworld \<Rightarrow> Address \<Rightarrow> mem_req \<Rightarrow> nat \<Rightarrow> ('a \<times> cworld) option"
    and ainv :: "'a \<Rightarrow> bool"
    and pend :: "'a \<Rightarrow> Address \<Rightarrow> nat \<Rightarrow> bool"
    and where_is :: "'a \<Rightarrow> Address \<Rightarrow> nat option"
    and asize :: "'a \<Rightarrow> nat"
  assumes ls_zero: "where_is a 0 = None"
    and ls_lt: "ainv a \<Longrightarrow> where_is a x = Some i \<Longrightarrow> i < asize a"
    and ls_inj: "ainv a \<Longrightarrow> where_is a x = Some i \<Longrightarrow> where_is a y = Some i \<Longrightarrow> x = y"
    and ls_quiet: "ainv a \<Longrightarrow> addr \<noteq> 0 \<Longrightarrow> lookup a addr None False = Some (a, where_is a addr)"
    and ls_update: "ainv a \<Longrightarrow> addr \<noteq> 0 \<Longrightarrow> upd \<longrightarrow> IsGet (mr_type req) \<Longrightarrow>
      \<exists>a'. lookup a addr (Some req) upd = Some (a', where_is a addr) \<and> ainv a' \<and>
        where_is a' = where_is a \<and> asize a' = asize a"
    and ls_preinsert: "ainv a \<Longrightarrow> addr \<noteq> 0 \<Longrightarrow> where_is a addr = None \<Longrightarrow>
      \<exists>a' c wb. preinsert cc a addr req = Some (a', c, wb) \<and> pend a' addr c \<and> c < asize a \<and>
        asize a' = asize a \<and> where_is a' = where_is a \<and> (\<forall>x. where_is a x = Some c \<longleftrightarrow> x = wb \<and> wb \<noteq> 0)"
    and ls_postinsert: "pend a addr c \<Longrightarrow> addr \<noteq> 0 \<Longrightarrow> IsGet (mr_type req) \<Longrightarrow> c < numLines \<Longrightarrow>
      \<exists>a' w'. postinsert a w addr req c = Some (a', w') \<and> ainv a' \<and> asize a' = asize a \<and>
        where_is a' = (\<lambda>x. if x = addr then Some c else if where_is a x = Some c then None else where_is a x)"

sublocale cache_array < store: line_store lookup preinsert postinsert ainv pend where_is asize
proof (unfold_locales, goal_cases)
  case (7 a addr c req w)
  then show ?case using postinsert_ok [OF 7(1-3)] by blast
qed (simp_all add: where_zero where_lt where_inj lookup_quiet lookup_update preinsert_ok)

section \<open>The effect of the primitive steps\<close>

text \<open>
  The protocol acts on six components: the states \<open>barr\<close>, the entries \<open>earr\<close>, the arrays \<open>arr\<close>, the filters \<open>farr\<close>, the locks
  \<open>held\<close> and the rest, \<open>static\<close>, which never changes. Every primitive step changes one of them.
\<close>

lemmas proj_defs = barr_def arr_def earr_def farr_def static_def

definition st_upd :: "nat \<Rightarrow> nat \<Rightarrow> MESIState \<Rightarrow> 'a hier \<Rightarrow> 'a hier" where
  "st_upd c l st = upd_bcc c (\<lambda>b. b\<lparr>bcc_array := (bcc_array b)[l := st]\<rparr>)"

definition en_upd :: "nat \<Rightarrow> nat \<Rightarrow> tcc_entry \<Rightarrow> 'a hier \<Rightarrow> 'a hier" where
  "en_upd c l e = upd_tcc c (\<lambda>t. t\<lparr>tcc_array := (tcc_array t)[l := e]\<rparr>)"

definition fl_upd :: "nat \<Rightarrow> filter_entry list \<Rightarrow> 'a hier \<Rightarrow> 'a hier" where
  "fl_upd c es = upd_filter c (\<lambda>f. f\<lparr>f_array := es\<rparr>)"

lemma st_upd_frame [simp]:
  "barr (st_upd c l st s) = (barr s)(c := (barr s c)[l := st])" "earr (st_upd c l st s) = earr s" "arr (st_upd c l st s) = arr s"
  "farr (st_upd c l st s) = farr s" "held (st_upd c l st s) = held s" "static (st_upd c l st s) = static s"
  by (simp_all add: st_upd_def upd_bcc_def proj_defs fun_eq_iff)

lemma en_upd_frame [simp]:
  "earr (en_upd c l e s) = (earr s)(c := (earr s c)[l := e])" "barr (en_upd c l e s) = barr s" "arr (en_upd c l e s) = arr s"
  "farr (en_upd c l e s) = farr s" "held (en_upd c l e s) = held s" "static (en_upd c l e s) = static s"
  by (simp_all add: en_upd_def upd_tcc_def proj_defs fun_eq_iff)

lemma fl_upd_frame [simp]:
  "farr (fl_upd c es s) = (farr s)(c := es)" "barr (fl_upd c es s) = barr s" "earr (fl_upd c es s) = earr s"
  "arr (fl_upd c es s) = arr s" "held (fl_upd c es s) = held s" "static (fl_upd c es s) = static s"
  by (simp_all add: fl_upd_def upd_filter_def proj_defs fun_eq_iff)

lemma held_frame [simp]:
  "barr (s\<lparr>held := h\<rparr>) = barr s" "earr (s\<lparr>held := h\<rparr>) = earr s" "arr (s\<lparr>held := h\<rparr>) = arr s" "farr (s\<lparr>held := h\<rparr>) = farr s"
  "static (s\<lparr>held := h\<rparr>) = static s"
  by (simp_all add: proj_defs fun_eq_iff)

lemma upd_array_frame [simp]:
  "arr (upd_array c a s) = (arr s)(c := a)" "barr (upd_array c a s) = barr s" "earr (upd_array c a s) = earr s"
  "farr (upd_array c a s) = farr s" "held (upd_array c a s) = held s" "static (upd_array c a s) = static s"
  by (simp_all add: upd_array_def proj_defs fun_eq_iff)

lemma world_frame [simp]:
  "arr (s\<lparr>h_world := w\<rparr>) = arr s" "barr (s\<lparr>h_world := w\<rparr>) = barr s" "earr (s\<lparr>h_world := w\<rparr>) = earr s"
  "farr (s\<lparr>h_world := w\<rparr>) = farr s" "static (s\<lparr>h_world := w\<rparr>) = static s"
  by (simp_all add: proj_defs fun_eq_iff)

lemma count_request_frame [simp]:
  "arr (count_request t s) = arr s" "barr (count_request t s) = barr s" "earr (count_request t s) = earr s"
  "farr (count_request t s) = farr s" "held (count_request t s) = held s" "static (count_request t s) = static s"
  by (simp_all add: count_request_def proj_defs fun_eq_iff split: AccessType.split)

text \<open>Profiling counters.\<close>

definition is_prof :: "(bcc \<Rightarrow> bcc) \<Rightarrow> bool" where
  "is_prof f \<longleftrightarrow> (\<forall>b. bcc_array (f b) = bcc_array b \<and> bcc_parents (f b) = bcc_parents b \<and>
     bcc_parentRTTs (f b) = bcc_parentRTTs b \<and> bcc_selfId (f b) = bcc_selfId b \<and> bcc_nonInclusiveHack (f b) = bcc_nonInclusiveHack b)"

lemma is_profs [simp]:
  "is_prof (\<lambda>b. b\<lparr>profPUTS := p b\<rparr>)" "is_prof (\<lambda>b. b\<lparr>profPUTX := p b\<rparr>)" "is_prof (\<lambda>b. b\<lparr>profGETSMiss := p b\<rparr>)"
  "is_prof (\<lambda>b. b\<lparr>profGETSHit := p b\<rparr>)" "is_prof (\<lambda>b. b\<lparr>profGETXHit := p b\<rparr>)" "is_prof (\<lambda>b. b\<lparr>profINV := p b\<rparr>)"
  "is_prof (\<lambda>b. b\<lparr>profINVX := p b\<rparr>)" "is_prof (\<lambda>b. b\<lparr>profGETNextLevelLat := p b, profGETNetLat := q b\<rparr>)"
  "is_prof (\<lambda>b. b\<lparr>profGETXMissIM := p b\<rparr>)" "is_prof (\<lambda>b. b\<lparr>profGETXMissSM := p b\<rparr>)"
  "is_prof (\<lambda>b. if v then b\<lparr>profGETXMissIM := p b\<rparr> else b\<lparr>profGETXMissSM := q b\<rparr>)"
  by (simp_all add: is_prof_def)

lemma prof_frame [simp]:
  assumes "is_prof f"
  shows "barr (upd_bcc c f s) = barr s" "earr (upd_bcc c f s) = earr s" "arr (upd_bcc c f s) = arr s"
    "farr (upd_bcc c f s) = farr s" "held (upd_bcc c f s) = held s" "static (upd_bcc c f s) = static s"
  using assms by (simp_all add: is_prof_def upd_bcc_def proj_defs fun_eq_iff)

text \<open>The steps in terms of these.\<close>

lemma get_state_eq [simp]: "get_state s c l = aget (barr s c) l"
  by (simp add: get_state_def barr_def)

lemma get_entry_eq [simp]: "get_entry s c l = aget (earr s c) l"
  by (simp add: get_entry_def earr_def)

lemma set_state_eq [simp]: "l < length (barr s c) \<Longrightarrow> set_state s c l st = Some (st_upd c l st s)"
  by (simp add: set_state_def st_upd_def barr_def upd_bcc_def)

lemma set_entry_eq [simp]: "l < length (earr s c) \<Longrightarrow> set_entry s c l e = Some (en_upd c l e s)"
  by (simp add: set_entry_def en_upd_def earr_def upd_tcc_def)

lemma set_filter_eq [simp]: "i < length (farr s c) \<Longrightarrow> set_filter_entry c i e s = Some (fl_upd c ((farr s c)[i := e]) s)"
  by (simp add: set_filter_entry_def fl_upd_def farr_def upd_filter_def)

lemma cc_lock_eq [simp]: "l \<notin> held s \<Longrightarrow> cc_lock l s = Some (s\<lparr>held := insert l (held s)\<rparr>)"
  by (simp add: cc_lock_def)

lemma proj_folds: "c_array (h_cache s c) = arr s c" "bcc_array (bcc_of s c) = barr s c" "tcc_array (tcc_of s c) = earr s c"
  "f_array (h_filter s c) = farr s c"
  by (simp_all add: proj_defs)

lemma static_eqD:
  assumes "static s' = static s"
  shows "h_obj s' = h_obj s" "c_accLat (h_cache s' c) = c_accLat (h_cache s c)" "c_invLat (h_cache s' c) = c_invLat (h_cache s c)"
    "c_name (h_cache s' c) = c_name (h_cache s c)" "c_terminal (h_cache s' c) = c_terminal (h_cache s c)"
    "c_nonInclusiveHack (h_cache s' c) = c_nonInclusiveHack (h_cache s c)"
    "bcc_parents (bcc_of s' c) = bcc_parents (bcc_of s c)" "bcc_parentRTTs (bcc_of s' c) = bcc_parentRTTs (bcc_of s c)"
    "bcc_selfId (bcc_of s' c) = bcc_selfId (bcc_of s c)"
    "tcc_children (tcc_of s' c) = tcc_children (tcc_of s c)" "tcc_childrenRTTs (tcc_of s' c) = tcc_childrenRTTs (tcc_of s c)"
    "tcc_nonInclusiveHack (tcc_of s' c) = tcc_nonInclusiveHack (tcc_of s c)"
    "f_setMask (h_filter s' c) = f_setMask (h_filter s c)" "f_srcId (h_filter s' c) = f_srcId (h_filter s c)"
    "f_reqFlags (h_filter s' c) = f_reqFlags (h_filter s c)" "f_numSets (h_filter s' c) = f_numSets (h_filter s c)"
    "f_isPrefetcher (h_filter s' c) = f_isPrefetcher (h_filter s c)"
    "h_recs s' = h_recs s" "h_procMask s' = h_procMask s" "h_lineBits s' = h_lineBits s"
    "f_index (h_filter s' c) = f_index (h_filter s c)" "is_l2_0 s' c = is_l2_0 s c"
  using assms by (simp_all add: static_def fun_eq_iff f_index_def is_l2_0_def)

lemma wired_static:
  assumes "static s' = static s"
  shows "wired g s' = wired g s"
  by (simp add: wired_def wired_parent_def wired_kid_def Let_def static_eqD [OF assms])

text \<open>The state of an address, when one line or the mapping changes.\<close>

lemma cst_where: "g_where g c (arr s c) x = Some l \<Longrightarrow> cst g s c x = barr s c ! l"
  by (simp add: cst_def)

lemma cst_cong: "arr s' = arr s \<Longrightarrow> barr s' = barr s \<Longrightarrow> cst g s' = cst g s"
  by (intro ext) (simp add: cst_def cong: option.case_cong)

lemma ent_cong: "arr s' = arr s \<Longrightarrow> earr s' = earr s \<Longrightarrow> ent g s' = ent g s"
  by (intro ext) (simp add: ent_def)

lemma fent_cong:
  assumes "static s' = static s" "farr s' k ! i = farr s k ! i" "\<And>x. cst g s' k x = cst g s k x"
  shows "fent_ok g s' k i = fent_ok g s k i"
  by (simp add: fent_ok_def Let_def static_eqD [OF assms(1)] assms(2,3))

text \<open>The filter after a line was taken away.\<close>

definition f_drop :: "'a hier \<Rightarrow> nat \<Rightarrow> Address \<Rightarrow> filter_entry list" where
  "f_drop s k x = (let idx = f_index (h_filter s k) x; e = farr s k ! idx in
     if fe_rdAddr e OR h_procMask s = x then (farr s k)[idx := e\<lparr>fe_wrAddr := -1, fe_rdAddr := -1\<rparr>] else farr s k)"

section \<open>Operations on a hierarchy\<close>

locale two_level =
  fixes vt :: "nat \<Rightarrow> 'a array_vt" and g :: "'a shape"
  assumes kid_store: "k \<in> set (g_kids g) \<Longrightarrow>
      line_store (av_lookup (vt k)) (av_preinsert (vt k)) (av_postinsert (vt k)) (g_ainv g k) (g_pend g k) (g_where g k) (g_size g k)"
    and parent_store: "line_store (if g_l2 g then av_lookupL2 (vt (g_parent g)) else av_lookup (vt (g_parent g)))
        (if g_l2 g then av_preinsertL2 (vt (g_parent g)) else av_preinsert (vt (g_parent g)))
        (if g_l2 g then av_postinsertL2 (vt (g_parent g)) else av_postinsert (vt (g_parent g)))
        (g_ainv g (g_parent g)) (g_pend g (g_parent g)) (g_where g (g_parent g)) (g_size g (g_parent g))"
    and kid_set: "k \<in> set (g_kids g) \<Longrightarrow> g_ainv g k a \<Longrightarrow> av_preinsert (vt k) cc a x req = Some (a', l, wb) \<Longrightarrow>
      wb \<noteq> 0 \<Longrightarrow> wb AND g_mask g k = x AND g_mask g k"
    and kids_distinct: "distinct (g_kids g)"
    and parent_fresh: "g_parent g \<notin> set (g_kids g)"
    and kids_max: "length (g_kids g) \<le> MAX_CACHE_CHILDREN"
begin

lemma kid_neq_parent [simp]: "k \<in> set (g_kids g) \<Longrightarrow> k \<noteq> g_parent g"
  using parent_fresh by auto

lemma wired_kidD:
  assumes "base_ok g s" "k \<in> set (g_kids g)"
  shows "h_obj s k = FilterCacheObj" "c_terminal (h_cache s k)" "\<not> is_l2_0 s k" "bcc_parents (bcc_of s k) = [g_parent g]"
    "length (bcc_parentRTTs (bcc_of s k)) = 1" "g_kids g ! bcc_selfId (bcc_of s k) = k" "bcc_selfId (bcc_of s k) < length (g_kids g)"
    "\<not> has_flag (f_reqFlags (h_filter s k)) PREFETCH" "f_setMask (h_filter s k) = g_mask g k" "h_procMask s AND g_mask g k = 0"
    "aget (h_recs s) (unat (f_srcId (h_filter s k))) \<noteq> None"
proof -
  obtain i where i: "i < length (g_kids g)" "g_kids g ! i = k" using assms(2) by (auto simp: in_set_conv_nth)
  then have "wired_kid g s i" using assms(1) by (simp add: base_ok_def wired_def)
  then show "h_obj s k = FilterCacheObj" "c_terminal (h_cache s k)" "\<not> is_l2_0 s k" "bcc_parents (bcc_of s k) = [g_parent g]"
    "length (bcc_parentRTTs (bcc_of s k)) = 1" "g_kids g ! bcc_selfId (bcc_of s k) = k" "bcc_selfId (bcc_of s k) < length (g_kids g)"
    "\<not> has_flag (f_reqFlags (h_filter s k)) PREFETCH" "f_setMask (h_filter s k) = g_mask g k" "h_procMask s AND g_mask g k = 0"
    "aget (h_recs s) (unat (f_srcId (h_filter s k))) \<noteq> None"
    using i by (simp_all add: wired_kid_def Let_def is_l2_0_def)
qed

lemma sizedD:
  assumes "base_ok g s" "c \<in> members g"
  shows "g_where g c (arr s c) 0 = None" "g_where g c (arr s c) x = Some l \<Longrightarrow> l < length (barr s c)"
    "g_where g c (arr s c) x = Some l \<Longrightarrow> g_where g c (arr s c) y = Some l \<Longrightarrow> x = y"
    "length (barr s c) = g_size g c (arr s c)" "g_size g c (arr s c) \<le> numLines"
    "c = g_parent g \<Longrightarrow> length (earr s c) = length (barr s c)"
    "c \<noteq> g_parent g \<Longrightarrow> f_index (h_filter s c) x < length (farr s c)"
    "c \<noteq> g_parent g \<Longrightarrow> f_numSets (h_filter s c) = length (farr s c)"
    "free_ok g s c"
  using assms unfolding base_ok_def sized_def by blast+

lemma kid_member [simp]: "k \<in> set (g_kids g) \<Longrightarrow> k \<in> members g" and parent_member [simp]: "g_parent g \<in> members g"
  by (simp_all add: members_def)

text \<open>Invalidating or downgrading a line of a child.\<close>

lemma kid_finishInvalidate:
  assumes k: "k \<in> set (g_kids g)" "c_terminal (h_cache t k)" and x: "x \<noteq> 0" "g_where g k (arr t k) x = Some l"
    and l: "l < length (barr t k)" "barr t k ! l \<noteq> I" and ty: "type = INV \<or> type = INVX \<and> is_EM (barr t k ! l)"
    and a: "g_ainv g k (arr t k)"
  shows "\<exists>s'. cache_finishInvalidate vt iv t k
      \<lparr>ir_lineAddr = x, ir_type = type, ir_writeback = wb, ir_cycle = cyc, ir_srcId = src\<rparr> =
      Some (s', cyc + ucast (c_invLat (h_cache t k)), wb \<or> barr t k ! l = M) \<and>
    barr s' = (barr t)(k := (barr t k)[l := if type = INV then I else S]) \<and> earr s' = earr t \<and> static s' = static t \<and>
    arr s' = arr t \<and> held s' = held t - {BccLock k} \<and> farr s' = farr t"
proof -
  have lk: "av_lookup (vt k) (arr t k) x None False = Some (arr t k, Some l)"
    using line_store.ls_quiet [OF kid_store [OF k(1)] a x(1)] x(2) by simp
  have tm: "c_terminal (h_cache (upd_array k (arr t k) t) k)" using k(2) by (simp add: upd_array_def)
  consider "type = INV" | "type = INVX" "barr t k ! l = E \<or> barr t k ! l = M" using ty by (auto simp: is_EM_def)
  then show ?thesis
    unfolding cache_finishInvalidate_def h_processInv_def termcc_processInv_def bcc_processInval_def proj_folds
    by cases (use lk l tm in \<open>simp_all add: cc_unlock_def\<close>)
qed

lemma kid_inval:
  assumes base: "base_ok g s" and k: "k \<in> set (g_kids g)" and x: "x \<noteq> 0" "g_where g k (arr s k) x = Some l"
    and st: "barr s k ! l \<noteq> I" and ty: "type = INV \<or> type = INVX \<and> is_EM (barr s k ! l)"
    and a: "g_ainv g k (arr s k)" and free: "BccLock k \<notin> held s" "FilterLock k \<notin> held s"
  shows "\<exists>s'. obj_inval vt (Suc f) s k \<lparr>ir_lineAddr = x, ir_type = type, ir_writeback = wb, ir_cycle = cyc, ir_srcId = src\<rparr> =
      Some (s', cyc + ucast (c_invLat (h_cache s k)), wb \<or> barr s k ! l = M) \<and>
    barr s' = (barr s)(k := (barr s k)[l := if type = INV then I else S]) \<and> earr s' = earr s \<and> static s' = static s \<and>
    arr s' = arr s \<and> held s' = held s \<and> farr s' = (farr s)(k := f_drop s k x)"
proof -
  note W = wired_kidD [OF base k] and Z = sizedD [OF base kid_member [OF k]]
  let ?i = "f_index (h_filter s k) x"
  let ?s1 = "s\<lparr>held := insert (FilterLock k) (insert (BccLock k) (held s))\<rparr>"
  let ?s2 = "if fe_rdAddr (farr s k ! ?i) OR h_procMask s = x
    then fl_upd k ((farr s k)[?i := (farr s k ! ?i)\<lparr>fe_wrAddr := -1, fe_rdAddr := -1\<rparr>]) ?s1 else ?s1"
  have i: "?i < length (farr s k)" using Z(7) kid_neq_parent [OF k] by simp
  have s2: "barr ?s2 = barr s" "earr ?s2 = earr s" "arr ?s2 = arr s" "static ?s2 = static s" "held ?s2 = held ?s1"
    "farr ?s2 = (farr s)(k := f_drop s k x)" by (auto simp: f_drop_def Let_def)
  have pre: "c_terminal (h_cache ?s2 k)" "g_where g k (arr ?s2 k) x = Some l" "l < length (barr ?s2 k)" "barr ?s2 k ! l \<noteq> I"
    "type = INV \<or> type = INVX \<and> is_EM (barr ?s2 k ! l)" "g_ainv g k (arr ?s2 k)"
    using W(2) static_eqD(5) [OF s2(4)] x(2) Z(2) [OF x(2)] st ty a s2 by simp_all
  obtain s' where s': "cache_finishInvalidate vt (obj_inval vt f) ?s2 k
        \<lparr>ir_lineAddr = x, ir_type = type, ir_writeback = wb, ir_cycle = cyc, ir_srcId = src\<rparr> =
      Some (s', cyc + ucast (c_invLat (h_cache s k)), wb \<or> barr s k ! l = M)"
    "barr s' = (barr s)(k := (barr s k)[l := if type = INV then I else S])" "earr s' = earr s" "static s' = static s"
    "arr s' = arr s" "held s' = insert (FilterLock k) (held s)" "farr s' = (farr s)(k := f_drop s k x)"
    using kid_finishInvalidate [OF k pre(1) x(1) pre(2-6), of "obj_inval vt f" wb cyc src] free
    unfolding s2 static_eqD(3) [OF s2(4)] by auto
  have "obj_inval vt (Suc f) s k \<lparr>ir_lineAddr = x, ir_type = type, ir_writeback = wb, ir_cycle = cyc, ir_srcId = src\<rparr> =
      Some (cc_unlock (FilterLock k) s', cyc + ucast (c_invLat (h_cache s k)), wb \<or> barr s k ! l = M)"
    using W(1) i free s'(1)
    by (cases "fe_rdAddr (farr s k ! ?i) OR h_procMask s = x") 
      (simp_all add: obj_inval.simps(2) filter_invalidate_def cc_startInv_def Let_def proj_folds)
  then show ?thesis using s' free by (simp add: cc_unlock_def)
qed

subsection \<open>Keeping the base invariant\<close>

lemma base_ok_step:
  assumes base: "base_ok g s" and st: "static s' = static s" and ar: "arr s' = arr s"
    and len: "\<And>c. length (barr s' c) = length (barr s c)" "length (earr s' (g_parent g)) = length (earr s (g_parent g))"
      "\<And>c. length (farr s' c) = length (farr s c)"
    and same: "\<And>c l. c \<in> members g \<Longrightarrow> l < length (barr s c) \<Longrightarrow> (\<And>x. g_where g c (arr s c) x \<noteq> Some l) \<Longrightarrow> barr s' c ! l = barr s c ! l"
      "\<And>l. l < length (barr s (g_parent g)) \<Longrightarrow> (\<And>x. g_where g (g_parent g) (arr s (g_parent g)) x \<noteq> Some l) \<Longrightarrow>
        numSharers (earr s' (g_parent g) ! l) = numSharers (earr s (g_parent g) ! l)"
  shows "base_ok g s'"
proof -
  have "sized g s' c \<and> free_ok g s' c" if "c \<in> members g" for c
  proof
    have "sized g s c" "free_ok g s c" using base that by (simp_all add: base_ok_def)
    then show "sized g s' c" "free_ok g s' c"
      using same(1) [OF that] same(2) by (auto simp: sized_def free_ok_def len ar static_eqD [OF st])
  qed
  then show ?thesis using base by (simp add: base_ok_def wired_static [OF st])
qed

lemma base_ok_mapped:
  assumes base: "base_ok g s" and "static s' = static s" "arr s' = arr s"
    and "\<And>c. length (farr s' c) = length (farr s c)" "earr s' = earr s"
    and c: "c \<in> members g" "g_where g c (arr s c) x = Some l" "barr s' = (barr s)(c := (barr s c)[l := st])"
  shows "base_ok g s'"
proof (rule base_ok_step [OF base assms(2,3)])
  show "barr s' d ! i = barr s d ! i" if "\<And>y. g_where g d (arr s d) y \<noteq> Some i" for d i
    using that c(2,3) by (metis fun_upd_apply nth_list_update_neq)
qed (use assms in auto)

lemma base_ok_entry:
  assumes base: "base_ok g s" and "static s' = static s" "arr s' = arr s" "farr s' = farr s" "barr s' = barr s"
    and c: "g_where g (g_parent g) (arr s (g_parent g)) x = Some l"
      "earr s' = (earr s)(g_parent g := (earr s (g_parent g))[l := e])"
  shows "base_ok g s'"
proof (rule base_ok_step [OF base assms(2,3)])
  show "numSharers (earr s' (g_parent g) ! i) = numSharers (earr s (g_parent g) ! i)"
    if "\<And>y. g_where g (g_parent g) (arr s (g_parent g)) y \<noteq> Some i" for i
    using that c by (metis fun_upd_apply nth_list_update_neq)
qed (use assms in auto)

lemma base_ok_cong:
  assumes base: "base_ok g s" and "static s' = static s" "arr s' = arr s" "farr s' = farr s" "barr s' = barr s" "earr s' = earr s"
  shows "base_ok g s'"
  by (rule base_ok_step [OF base assms(2,3)]) (use assms in auto)

lemma cst_mapped:
  assumes base: "base_ok g s" and c: "c \<in> members g" "g_where g c (arr s c) x = Some l"
    and "arr s' = arr s" "barr s' = (barr s)(c := (barr s c)[l := st])"
  shows "cst g s' = (cst g s)(c := (cst g s c)(x := st))"
proof (intro ext)
  fix d y
  show "cst g s' d y = ((cst g s)(c := (cst g s c)(x := st))) d y"
    using sizedD(2,3) [OF base c(1)] c(2) assms(4,5)
    by (cases "d = c"; cases "y = x") (auto simp: cst_def nth_list_update split: option.split)
qed

subsection \<open>Filters\<close>

lemma f_index_mask: "k \<in> set (g_kids g) \<Longrightarrow> base_ok g s \<Longrightarrow> f_index (h_filter s k) (h_procMask s OR v) = f_index (h_filter s k) v"
  using wired_kidD(9,10) [of s k] by (simp add: f_index_def bit.conj_disj_distrib2)

lemma f_drop_length [simp]: "length (f_drop s k x) = length (farr s k)"
  by (simp add: f_drop_def Let_def)

lemma filter_ok_cong:
  assumes "static s' = static s" "farr s' = farr s" "\<And>k x. k \<in> set (g_kids g) \<Longrightarrow> cst g s' k x = cst g s k x"
  shows "filter_ok g K s' = filter_ok g K s"
  using assms(2,3) by (simp add: filter_ok_def fent_ok_def Let_def static_eqD [OF assms(1)])

lemma filter_ok_drop:
  assumes F: "filter_ok g K s" and base: "base_ok g s" and k: "k \<in> set (g_kids g)" and st: "static s' = static s"
    and c: "cst g s' = (cst g s)(k := (cst g s k)(x := y))" and f: "farr s' = (farr s)(k := f_drop s k x)"
  shows "filter_ok g K s'"
  unfolding filter_ok_def
proof (intro ballI allI impI)
  fix j i assume h: "j \<in> set (g_kids g)" "i < length (farr s' j)" "(j, i) \<notin> K"
  then have ok: "fent_ok g s j i" using F f by (cases "j = k") (auto simp: filter_ok_def)
  show "fent_ok g s' j i"
  proof (cases "j = k")
    case False
    then show ?thesis using ok fent_cong [OF st, of j i] c f by simp
  next
    case True
    let ?i = "f_index (h_filter s k) x"
    let ?hit = "fe_rdAddr (farr s k ! ?i) OR h_procMask s = x"
    have len: "i < length (farr s k)" using h(2) f True by simp
    show ?thesis
    proof (cases "i = ?i \<and> ?hit")
      case hit: True
      then have "farr s' j ! i = (farr s k ! ?i)\<lparr>fe_wrAddr := -1, fe_rdAddr := -1\<rparr>"
        using f True len by (simp add: f_drop_def Let_def)
      then show ?thesis by (simp add: fent_ok_def f_valid_def)
    next
      case False
      then have e: "farr s' j ! i = farr s k ! i" using f True len by (auto simp: f_drop_def Let_def nth_list_update)
      have "h_procMask s OR fe_rdAddr (farr s k ! i) \<noteq> x" if "f_index (h_filter s k) (fe_rdAddr (farr s k ! i)) = i"
        using that False f_index_mask [OF k base, of "fe_rdAddr (farr s k ! i)"] by (metis or.commute)
      then show ?thesis
        using ok e True c unfolding fent_ok_def Let_def static_eqD [OF st] by auto
    qed
  qed
qed

subsection \<open>Invalidating the sharers of a line\<close>

definition kids_ready :: "'a hier \<Rightarrow> bool" where
  "kids_ready s \<longleftrightarrow> (\<forall>k \<in> set (g_kids g). g_ainv g k (arr s k) \<and> BccLock k \<notin> held s \<and> FilterLock k \<notin> held s)"

lemma kids_ready_cong: "arr s' = arr s \<Longrightarrow> held s' = held s \<Longrightarrow> kids_ready s' = kids_ready s"
  by (simp add: kids_ready_def)

text \<open>The children from number \<open>ch\<close> on that the entry \<open>e\<close> lists.\<close>

definition listed :: "tcc_entry \<Rightarrow> nat \<Rightarrow> nat set" where
  "listed e ch = {i. ch \<le> i \<and> i < length (g_kids g) \<and> sharers e ! i}"

lemma listed_Suc:
  "ch < length (g_kids g) \<Longrightarrow> listed e ch = (if sharers e ! ch then insert ch (listed e (Suc ch)) else listed e (Suc ch))"
  by (auto simp: listed_def le_Suc_eq Suc_le_eq nat_less_le)

lemma listed_finite [simp]: "finite (listed e ch)"
  by (rule finite_subset [of _ "{..<length (g_kids g)}"]) (auto simp: listed_def)

definition lowered :: "InvType \<Rightarrow> MESIState" where
  "lowered type = (if type = INV then I else S)"

definition lower :: "InvType \<Rightarrow> Address \<Rightarrow> nat set \<Rightarrow> (nat \<Rightarrow> Address \<Rightarrow> MESIState) \<Rightarrow> nat \<Rightarrow> Address \<Rightarrow> MESIState" where
  "lower type x D f = (\<lambda>c y. if y = x \<and> c \<in> (!) (g_kids g) ` D then lowered type else f c y)"

definition unlist :: "InvType \<Rightarrow> nat set \<Rightarrow> tcc_entry \<Rightarrow> tcc_entry" where
  "unlist type D e = (if type = INV then e\<lparr>sharers := map (\<lambda>i. sharers e ! i \<and> i \<notin> D) [0..<MAX_CACHE_CHILDREN]\<rparr> else e)"

lemma lower_empty [simp]: "lower type x {} f = f"
  by (simp add: lower_def fun_eq_iff)

lemma lower_insert: "lower type x D (f(g_kids g ! i := (f (g_kids g ! i))(x := lowered type))) = lower type x (insert i D) f"
  by (auto simp: lower_def fun_eq_iff)

lemma unlist_empty: "length (sharers e) = MAX_CACHE_CHILDREN \<Longrightarrow> unlist type {} e = e"
proof -
  assume "length (sharers e) = MAX_CACHE_CHILDREN"
  then have "map (\<lambda>i. sharers e ! i) [0..<MAX_CACHE_CHILDREN] = sharers e" by (metis map_nth)
  then show ?thesis by (simp add: unlist_def)
qed

lemma unlist_insert:
  assumes "length (sharers e) = MAX_CACHE_CHILDREN" "type = INV"
  shows "unlist type D (e\<lparr>sharers := (sharers e)[i := False]\<rparr>) = unlist type (insert i D) e"
proof -
  have "map (\<lambda>j. (sharers e)[i := False] ! j \<and> j \<notin> D) [0..<MAX_CACHE_CHILDREN] =
      map (\<lambda>j. sharers e ! j \<and> j \<notin> insert i D) [0..<MAX_CACHE_CHILDREN]"
    using assms(1) by (cases "i < MAX_CACHE_CHILDREN") (auto simp: nth_list_update)
  then show ?thesis using assms(2) by (simp add: unlist_def)
qed

lemma kid_nth [simp]: "i < length (g_kids g) \<Longrightarrow> g_kids g ! i \<in> set (g_kids g)"
  by simp

lemma unat_add32: "unat c + 2 ^ 32 \<le> 2 ^ 64 \<Longrightarrow> unat (c + ucast (l :: u32) :: u64) = unat c + unat l"
  using unsigned_less [where 'a = nat, of l] by (simp add: unat_word_ariths)

lemma unat32_lt: "unat (l :: u32) < 2 ^ 32"
  using unsigned_less [where 'a = nat, of l] by simp

lemma wired_parentD:
  assumes "base_ok g s"
  shows "h_obj s (g_parent g) = CacheObj" "is_l2_0 s (g_parent g) = g_l2 g" "\<not> c_terminal (h_cache s (g_parent g))"
    "\<not> c_nonInclusiveHack (h_cache s (g_parent g))" "\<not> tcc_nonInclusiveHack (tcc_of s (g_parent g))"
    "tcc_children (tcc_of s (g_parent g)) = g_kids g" "length (tcc_childrenRTTs (tcc_of s (g_parent g))) = length (g_kids g)"
    "bcc_parents (bcc_of s (g_parent g)) \<noteq> []"
    "length (bcc_parentRTTs (bcc_of s (g_parent g))) = length (bcc_parents (bcc_of s (g_parent g)))"
    "m \<in> set (bcc_parents (bcc_of s (g_parent g))) \<Longrightarrow> \<exists>lat. lat \<noteq> 0 \<and> h_obj s m = SimpleMemObj lat"
  using assms unfolding base_ok_def wired_def wired_parent_def Let_def by blast+

lemma kid_where:
  assumes "base_ok g s" "cst g s k x \<noteq> I"
  obtains l where "g_where g k (arr s k) x = Some l" "cst g s k x = barr s k ! l"
  using assms(2) by (auto simp: cst_def split: option.splits)

text \<open>One child.\<close>

lemma kid_inval_abs:
  assumes base: "base_ok g s" and F: "filter_ok g K s" and ready: "kids_ready s" and k: "k \<in> set (g_kids g)" and x: "x \<noteq> 0"
    and st: "cst g s k x \<noteq> I" and ty: "type = INV \<or> type = INVX \<and> is_EM (cst g s k x)"
  shows "\<exists>s'. obj_inval vt (Suc f) s k \<lparr>ir_lineAddr = x, ir_type = type, ir_writeback = wb, ir_cycle = cyc, ir_srcId = src\<rparr> =
      Some (s', cyc + ucast (c_invLat (h_cache s k)), wb \<or> cst g s k x = M) \<and>
    base_ok g s' \<and> filter_ok g K s' \<and> static s' = static s \<and> arr s' = arr s \<and> held s' = held s \<and> earr s' = earr s \<and>
    barr s' (g_parent g) = barr s (g_parent g) \<and> cst g s' = (cst g s)(k := (cst g s k)(x := lowered type))"
proof -
  obtain l where l: "g_where g k (arr s k) x = Some l" "cst g s k x = barr s k ! l" by (rule kid_where [OF base st])
  have r: "g_ainv g k (arr s k)" "BccLock k \<notin> held s" "FilterLock k \<notin> held s" using ready k by (simp_all add: kids_ready_def)
  obtain s' where s': "obj_inval vt (Suc f) s k \<lparr>ir_lineAddr = x, ir_type = type, ir_writeback = wb, ir_cycle = cyc, ir_srcId = src\<rparr> =
      Some (s', cyc + ucast (c_invLat (h_cache s k)), wb \<or> cst g s k x = M)"
    "barr s' = (barr s)(k := (barr s k)[l := lowered type])" "earr s' = earr s" "static s' = static s"
    "arr s' = arr s" "held s' = held s" "farr s' = (farr s)(k := f_drop s k x)"
    using kid_inval [OF base k x l(1) _ _ r, of type f wb cyc src] st ty unfolding l(2) lowered_def by blast
  have c: "cst g s' = (cst g s)(k := (cst g s k)(x := lowered type))"
    by (rule cst_mapped [OF base kid_member [OF k] l(1) s'(5,2)])
  have "base_ok g s'" by (rule base_ok_mapped [OF base s'(4,5) _ s'(3) kid_member [OF k] l(1) s'(2)]) (simp add: s'(7))
  moreover have "filter_ok g K s'" by (rule filter_ok_drop [OF F base k s'(4) c s'(7)])
  moreover have "barr s' (g_parent g) = barr s (g_parent g)" using s'(2) kid_neq_parent [OF k] by simp
  ultimately show ?thesis using s' c by blast
qed

text \<open>All of them. The response is the latest of the children's.\<close>

lemma sendInvalidates_loop_ok:
  assumes "base_ok g s" "filter_ok g K s" "kids_ready s" "x \<noteq> 0" "g_where g (g_parent g) (arr s (g_parent g)) x = Some lp"
    "earr s (g_parent g) ! lp = e" "length (sharers e) = MAX_CACHE_CHILDREN"
    "type = INV \<or> type = INVX \<and> (\<forall>i \<in> listed e ch. is_EM (cst g s (g_kids g ! i) x))"
    "\<forall>i \<in> listed e ch. cst g s (g_kids g ! i) x \<noteq> I"
    "unat cyc + 2 ^ 33 \<le> 2 ^ 64" "ch + length rest = length (g_kids g)" "rest = drop ch (g_kids g)"
  shows "\<exists>s' r. sendInvalidates_loop (obj_inval vt (Suc f)) s (g_parent g) x lp type wb cyc src rest ch mc sent =
      Some (s', r, wb \<or> (\<exists>i \<in> listed e ch. cst g s (g_kids g ! i) x = M), sent + card (listed e ch)) \<and>
    base_ok g s' \<and> filter_ok g K s' \<and> static s' = static s \<and> arr s' = arr s \<and> held s' = held s \<and>
    barr s' (g_parent g) = barr s (g_parent g) \<and> cst g s' = lower type x (listed e ch) (cst g s) \<and>
    earr s' = (earr s)(g_parent g := (earr s (g_parent g))[lp := unlist type (listed e ch) e]) \<and>
    unat mc \<le> unat r \<and> unat r \<le> max (unat mc) (unat cyc + 2 ^ 33)"
  using assms
proof (induction rest arbitrary: s e ch wb mc sent)
  case Nil
  then have "listed e ch = {}" by (auto simp: listed_def)
  moreover have "(earr s)(g_parent g := (earr s (g_parent g))[lp := e]) = earr s" using Nil.prems(6) by (auto simp: list_update_id)
  ultimately show ?case using Nil.prems unlist_empty [OF Nil.prems(7)] by auto
next
  case (Cons k rest)
  note base = Cons.prems(1)
  let ?p = "g_parent g"
  have ch: "ch < length (g_kids g)" using Cons.prems(11) by simp
  have k: "k = g_kids g ! ch" and rest: "rest = drop (Suc ch) (g_kids g)"
    using Cons.prems(12) Cons_nth_drop_Suc [OF ch] by (metis list.inject)+
  have kk: "k \<in> set (g_kids g)" using k ch by simp
  have n: "Suc ch + length rest = length (g_kids g)" using Cons.prems(11) by simp
  have lp: "lp < length (earr s ?p)" using sizedD(2,6) [OF base parent_member] Cons.prems(5) by fastforce
  have chmax: "ch < MAX_CACHE_CHILDREN" using ch kids_max by simp
  show ?case
  proof (cases "sharers e ! ch")
    case False
    then have "listed e ch = listed e (Suc ch)" by (simp add: listed_Suc [OF ch])
    note D = this
    have step: "sendInvalidates_loop (obj_inval vt (Suc f)) s ?p x lp type wb cyc src (k # rest) ch mc sent =
        sendInvalidates_loop (obj_inval vt (Suc f)) s ?p x lp type wb cyc src rest (Suc ch) mc sent"
      using False lp Cons.prems(6,7) chmax by simp
    show ?thesis using Cons.IH [OF Cons.prems(1-7) Cons.prems(8,9,10) [unfolded D] n rest] unfolding D step by blast
  next
    case True
    then have D: "listed e ch = insert ch (listed e (Suc ch))" "ch \<notin> listed e (Suc ch)"
      by (simp add: listed_Suc [OF ch], simp add: listed_def)
    have st: "cst g s k x \<noteq> I" "type = INV \<or> type = INVX \<and> is_EM (cst g s k x)" using Cons.prems(8,9) D(1) k by auto
    obtain s1 where s1: "obj_inval vt (Suc f) s k \<lparr>ir_lineAddr = x, ir_type = type, ir_writeback = wb, ir_cycle = cyc, ir_srcId = src\<rparr> =
        Some (s1, cyc + ucast (c_invLat (h_cache s k)), wb \<or> cst g s k x = M)"
      "base_ok g s1" "filter_ok g K s1" "static s1 = static s" "arr s1 = arr s" "held s1 = held s" "earr s1 = earr s"
      "barr s1 ?p = barr s ?p" "cst g s1 = (cst g s)(k := (cst g s k)(x := lowered type))"
      using kid_inval_abs [OF base Cons.prems(2,3) kk Cons.prems(4) st] by blast
    let ?e = "if type = INV then e\<lparr>sharers := (sharers e)[ch := False]\<rparr> else e"
    let ?s2 = "if type = INV then en_upd ?p lp ?e s1 else s1"
    have s2: "static ?s2 = static s" "arr ?s2 = arr s" "held ?s2 = held s" "barr ?s2 = barr s1" "farr ?s2 = farr s1"
      "earr ?s2 = (earr s)(?p := (earr s ?p)[lp := ?e])"
      using s1(4-7) Cons.prems(6) by (auto simp: list_update_id)
    have b2: "base_ok g ?s2"
      by (rule base_ok_entry [OF s1(2), where x = x]) (use s1 s2 Cons.prems(5) in auto)
    have c2: "cst g ?s2 = cst g s1" by (rule cst_cong) (use s1(5) s2 in simp_all)
    have f2: "filter_ok g K ?s2" using s1(3) c2 by (cases "type = INV") (simp_all add: filter_ok_def fent_ok_def Let_def static_eqD [OF en_upd_frame(6)])
    have e2: "earr ?s2 ?p ! lp = ?e" using s2(6) lp by simp
    have lst: "listed ?e (Suc ch) = listed e (Suc ch)" by (auto simp: listed_def)
    have ne: "g_kids g ! i \<noteq> k" if "i \<in> listed e (Suc ch)" for i
      using that k ch kids_distinct by (auto simp: listed_def nth_eq_iff_index_eq)
    have cs: "cst g ?s2 (g_kids g ! i) x = cst g s (g_kids g ! i) x" if "i \<in> listed e (Suc ch)" for i
      using ne [OF that] c2 s1(9) by simp
    let ?rtt = "tcc_childrenRTTs (tcc_of s ?p) ! ch"
    let ?r = "cyc + ucast (c_invLat (h_cache s k)) + ucast ?rtt" let ?mc = "zMAX ?r mc"
    have r: "unat ?r \<le> unat cyc + 2 ^ 33"
      using Cons.prems(10) unat32_lt [of "c_invLat (h_cache s k)"] unat32_lt [of ?rtt] by (simp add: unat_add32)
    have mc: "unat ?mc = max (unat ?r) (unat mc)" by (simp add: max_def word_le_nat_alt)
    have rtt: "aget (tcc_childrenRTTs (tcc_of s1 ?p)) ch = Some ?rtt"
      using wired_parentD(7) [OF base] ch static_eqD(11) [OF s1(4)] by simp
    have step: "sendInvalidates_loop (obj_inval vt (Suc f)) s ?p x lp type wb cyc src (k # rest) ch mc sent =
        sendInvalidates_loop (obj_inval vt (Suc f)) ?s2 ?p x lp type (wb \<or> cst g s k x = M) cyc src rest (Suc ch) ?mc (Suc sent)"
      using True lp Cons.prems(6,7) chmax s1(1,7) rtt by simp
    have IH: "\<exists>s' r. sendInvalidates_loop (obj_inval vt (Suc f)) ?s2 ?p x lp type (wb \<or> cst g s k x = M) cyc src rest (Suc ch) ?mc (Suc sent) =
        Some (s', r, (wb \<or> cst g s k x = M) \<or> (\<exists>i \<in> listed ?e (Suc ch). cst g ?s2 (g_kids g ! i) x = M), Suc sent + card (listed ?e (Suc ch))) \<and>
      base_ok g s' \<and> filter_ok g K s' \<and> static s' = static ?s2 \<and> arr s' = arr ?s2 \<and> held s' = held ?s2 \<and>
      barr s' ?p = barr ?s2 ?p \<and> cst g s' = lower type x (listed ?e (Suc ch)) (cst g ?s2) \<and>
      earr s' = (earr ?s2)(?p := (earr ?s2 ?p)[lp := unlist type (listed ?e (Suc ch)) ?e]) \<and>
      unat ?mc \<le> unat r \<and> unat r \<le> max (unat ?mc) (unat cyc + 2 ^ 33)"
      by (rule Cons.IH [OF b2 f2 _ Cons.prems(4) _ e2 _ _ _ Cons.prems(10) n rest])
        (use Cons.prems s2 cs lst D(1) kids_ready_cong [OF s2(2,3)] in \<open>auto\<close>)
    have un: "unlist type (listed e (Suc ch)) ?e = unlist type (listed e ch) e"
      unfolding D(1) using unlist_insert [OF Cons.prems(7), of type "listed e (Suc ch)" ch] by (simp add: unlist_def)
    have lw: "lower type x (listed e (Suc ch)) (cst g ?s2) = lower type x (listed e ch) (cst g s)"
      unfolding D(1) c2 s1(9) k by (rule lower_insert)
    have card: "Suc sent + card (listed e (Suc ch)) = sent + card (listed e ch)" using D by simp
    have wb: "((wb \<or> cst g s k x = M) \<or> (\<exists>i \<in> listed e (Suc ch). cst g ?s2 (g_kids g ! i) x = M)) =
        (wb \<or> (\<exists>i \<in> listed e ch. cst g s (g_kids g ! i) x = M))" using cs D(1) k by auto
    obtain s' r' where R: "sendInvalidates_loop (obj_inval vt (Suc f)) s ?p x lp type wb cyc src (k # rest) ch mc sent =
        Some (s', r', wb \<or> (\<exists>i \<in> listed e ch. cst g s (g_kids g ! i) x = M), sent + card (listed e ch))"
      "base_ok g s'" "filter_ok g K s'" "static s' = static s" "arr s' = arr s" "held s' = held s" "barr s' ?p = barr s ?p"
      "cst g s' = lower type x (listed e ch) (cst g s)"
      "earr s' = (earr ?s2)(?p := (earr ?s2 ?p)[lp := unlist type (listed e ch) e])"
      "unat ?mc \<le> unat r'" "unat r' \<le> max (unat ?mc) (unat cyc + 2 ^ 33)"
      using IH unfolding step lst un lw card wb s2(1-4) s1(8) by blast
    have "earr s' = (earr s)(?p := (earr s ?p)[lp := unlist type (listed e ch) e])" unfolding R(9) s2(6) by simp
    moreover have "unat mc \<le> unat r'" "unat r' \<le> max (unat mc) (unat cyc + 2 ^ 33)" using R(10,11) r unfolding mc by linarith+
    ultimately show ?thesis using R(1-8) by blast
  qed
qed

lemma listed_card: "entry_ok (length (g_kids g)) e \<Longrightarrow> card (listed e 0) = unat (numSharers e)"
proof -
  assume e: "entry_ok (length (g_kids g)) e"
  have "listed e 0 = {i. i < length (sharers e) \<and> sharers e ! i}"
    using e kids_max by (auto simp: listed_def entry_ok_def)
  then show ?thesis using e by (simp add: entry_ok_def length_filter_conv_card)
qed

lemma unlist_all:
  assumes "entry_ok (length (g_kids g)) e"
  shows "unlist INV (listed e 0) e = e\<lparr>sharers := replicate MAX_CACHE_CHILDREN False\<rparr>"
proof -
  have "map (\<lambda>i. sharers e ! i \<and> i \<notin> listed e 0) [0..<MAX_CACHE_CHILDREN] = replicate MAX_CACHE_CHILDREN False"
    using assms by (auto simp: list_eq_iff_nth_eq listed_def entry_ok_def)
  then show ?thesis by (simp add: unlist_def)
qed

text \<open>An entry with no sharers left.\<close>

definition emptied :: "tcc_entry \<Rightarrow> tcc_entry" where
  "emptied e = e\<lparr>sharers := replicate MAX_CACHE_CHILDREN False, numSharers := 0\<rparr>"

lemma emptied_id: "entry_ok (length (g_kids g)) e \<Longrightarrow> numSharers e = 0 \<Longrightarrow> emptied e = e"
proof -
  assume e: "entry_ok (length (g_kids g)) e" "numSharers e = 0"
  then have "filter id (sharers e) = []" by (simp add: entry_ok_def)
  then have "replicate (length (sharers e)) False = sharers e" by (intro replicate_length_same) (simp add: filter_empty_conv)
  then have "sharers e = replicate MAX_CACHE_CHILDREN False" using e(1) by (simp add: entry_ok_def)
  then show ?thesis using e(2) by (simp add: emptied_def)
qed

lemma emptied_ok [simp]: "entry_ok n (emptied e)"
  by (simp add: emptied_def entry_ok_def)

lemma parent_entry:
  assumes "base_ok g s" "entries_ok g s" "l < length (barr s (g_parent g))"
  shows "l < length (earr s (g_parent g))" "entry_ok (length (g_kids g)) (earr s (g_parent g) ! l)"
  using assms sizedD(6) [OF assms(1) parent_member] by (simp_all add: entries_ok_def)

lemma sendInvalidates_INV:
  assumes base: "base_ok g s" and F: "filter_ok g K s" and ready: "kids_ready s" and x: "x \<noteq> 0"
    and w: "g_where g (g_parent g) (arr s (g_parent g)) x = Some lp" and e: "earr s (g_parent g) ! lp = e"
    and ok: "entry_ok (length (g_kids g)) e" and st: "\<forall>i \<in> listed e 0. cst g s (g_kids g ! i) x \<noteq> I"
    and cyc: "unat cyc + 2 ^ 33 \<le> 2 ^ 64"
  shows "\<exists>s' r. sendInvalidates (obj_inval vt (Suc f)) s (g_parent g) x lp INV wb cyc src =
      Some (s', r, wb \<or> (\<exists>i \<in> listed e 0. cst g s (g_kids g ! i) x = M)) \<and>
    base_ok g s' \<and> filter_ok g K s' \<and> static s' = static s \<and> arr s' = arr s \<and> held s' = held s \<and>
    barr s' (g_parent g) = barr s (g_parent g) \<and> cst g s' = lower INV x (listed e 0) (cst g s) \<and>
    earr s' = (earr s)(g_parent g := (earr s (g_parent g))[lp := emptied e]) \<and>
    unat cyc \<le> unat r \<and> unat r \<le> unat cyc + 2 ^ 33"
proof -
  let ?p = "g_parent g"
  have lp: "lp < length (earr s ?p)" using sizedD(2,6) [OF base parent_member] w by fastforce
  show ?thesis
  proof (cases "numSharers e = 0")
    case True
    then have "listed e 0 = {}" using listed_card [OF ok] by simp
    then show ?thesis using assms lp True emptied_id [OF ok True]
      by (intro exI [of _ s] exI [of _ cyc]) (auto simp: sendInvalidates_def entry_isEmpty_def list_update_id)
  next
    case False
    have len: "length (sharers e) = MAX_CACHE_CHILDREN" using ok by (simp add: entry_ok_def)
    obtain s1 r where s1: "sendInvalidates_loop (obj_inval vt (Suc f)) s ?p x lp INV wb cyc src (g_kids g) 0 cyc 0 =
        Some (s1, r, wb \<or> (\<exists>i \<in> listed e 0. cst g s (g_kids g ! i) x = M), card (listed e 0))"
      "base_ok g s1" "filter_ok g K s1" "static s1 = static s" "arr s1 = arr s" "held s1 = held s" "barr s1 ?p = barr s ?p"
      "cst g s1 = lower INV x (listed e 0) (cst g s)"
      "earr s1 = (earr s)(?p := (earr s ?p)[lp := unlist INV (listed e 0) e])"
      "unat cyc \<le> unat r" "unat r \<le> max (unat cyc) (unat cyc + 2 ^ 33)"
      using sendInvalidates_loop_ok [OF base F ready x w e len _ st cyc, of INV "g_kids g" f wb src cyc 0] by auto
    let ?e1 = "unlist INV (listed e 0) e"
    let ?s2 = "en_upd ?p lp (emptied e) s1"
    have e1: "numSharers ?e1 = numSharers e" "?e1\<lparr>numSharers := 0\<rparr> = emptied e"
      unfolding unlist_all [OF ok] by (simp_all add: emptied_def)
    have lp1: "lp < length (earr s1 ?p)" using lp s1(9) by simp
    have "sendInvalidates (obj_inval vt (Suc f)) s ?p x lp INV wb cyc src =
        Some (?s2, r, wb \<or> (\<exists>i \<in> listed e 0. cst g s (g_kids g ! i) x = M))"
      using False lp lp1 e wired_parentD(6) [OF base] s1(1,9) listed_card [OF ok] e1
      by (simp add: sendInvalidates_def entry_isEmpty_def)
    moreover have "earr ?s2 = (earr s)(?p := (earr s ?p)[lp := emptied e])" using s1(9) by simp
    moreover have "base_ok g ?s2" by (rule base_ok_entry [OF s1(2), where x = x]) (use s1(5) w in simp_all)
    moreover have c2: "cst g ?s2 = cst g s1" by (rule cst_cong) simp_all
    moreover have "filter_ok g K ?s2" using s1(3) filter_ok_cong [of ?s2 s1] c2 by simp
    ultimately show ?thesis using s1 by (intro exI [of _ ?s2] exI [of _ r]) simp
  qed
qed

lemma sendInvalidates_INVX:
  assumes base: "base_ok g s" and F: "filter_ok g K s" and ready: "kids_ready s" and x: "x \<noteq> 0"
    and w: "g_where g (g_parent g) (arr s (g_parent g)) x = Some lp" and e: "earr s (g_parent g) ! lp = e"
    and ok: "entry_ok (length (g_kids g)) e" and ex: "entry_isExclusive e"
    and st: "\<forall>i \<in> listed e 0. is_EM (cst g s (g_kids g ! i) x)"
    and cyc: "unat cyc + 2 ^ 33 \<le> 2 ^ 64"
  shows "\<exists>s' r. sendInvalidates (obj_inval vt (Suc f)) s (g_parent g) x lp INVX wb cyc src =
      Some (s', r, wb \<or> (\<exists>i \<in> listed e 0. cst g s (g_kids g ! i) x = M)) \<and>
    base_ok g s' \<and> filter_ok g K s' \<and> static s' = static s \<and> arr s' = arr s \<and> held s' = held s \<and>
    barr s' (g_parent g) = barr s (g_parent g) \<and> cst g s' = lower INVX x (listed e 0) (cst g s) \<and>
    earr s' = (earr s)(g_parent g := (earr s (g_parent g))[lp := e\<lparr>exclusive := False\<rparr>]) \<and>
    unat cyc \<le> unat r \<and> unat r \<le> unat cyc + 2 ^ 33"
proof -
  let ?p = "g_parent g"
  have lp: "lp < length (earr s ?p)" using sizedD(2,6) [OF base parent_member] w by fastforce
  have len: "length (sharers e) = MAX_CACHE_CHILDREN" using ok by (simp add: entry_ok_def)
  have st': "\<forall>i \<in> listed e 0. cst g s (g_kids g ! i) x \<noteq> I" using st by (auto simp: is_EM_def)
  obtain s1 r where s1: "sendInvalidates_loop (obj_inval vt (Suc f)) s ?p x lp INVX wb cyc src (g_kids g) 0 cyc 0 =
      Some (s1, r, wb \<or> (\<exists>i \<in> listed e 0. cst g s (g_kids g ! i) x = M), card (listed e 0))"
    "base_ok g s1" "filter_ok g K s1" "static s1 = static s" "arr s1 = arr s" "held s1 = held s" "barr s1 ?p = barr s ?p"
    "cst g s1 = lower INVX x (listed e 0) (cst g s)"
    "earr s1 = (earr s)(?p := (earr s ?p)[lp := e])"
    "unat cyc \<le> unat r" "unat r \<le> max (unat cyc) (unat cyc + 2 ^ 33)"
    using sendInvalidates_loop_ok [OF base F ready x w e len _ st' cyc, of INVX "g_kids g" f wb src cyc 0] st by (auto simp: unlist_def)
  let ?s2 = "en_upd ?p lp (e\<lparr>exclusive := False\<rparr>) s1"
  have "sendInvalidates (obj_inval vt (Suc f)) s ?p x lp INVX wb cyc src =
      Some (?s2, r, wb \<or> (\<exists>i \<in> listed e 0. cst g s (g_kids g ! i) x = M))"
    using lp e ex wired_parentD(6) [OF base] s1(1,9) listed_card [OF ok]
    by (simp add: sendInvalidates_def entry_isEmpty_def entry_isExclusive_def)
  moreover have "earr ?s2 = (earr s)(?p := (earr s ?p)[lp := e\<lparr>exclusive := False\<rparr>])" using s1(9) by simp
  moreover have "base_ok g ?s2" by (rule base_ok_entry [OF s1(2), where x = x]) (use s1(5) w in simp_all)
  moreover have c2: "cst g ?s2 = cst g s1" by (rule cst_cong) simp_all
  moreover have "filter_ok g K ?s2" using s1(3) filter_ok_cong [of ?s2 s1] c2 by simp
  ultimately show ?thesis using s1 by (intro exI [of _ ?s2] exI [of _ r]) simp
qed

subsection \<open>Memory below the parent\<close>

lemma memory_access:
  assumes base: "base_ok g s" and m: "m \<in> set (bcc_parents (bcc_of s (g_parent g)))" and ptr: "mr_state req = BccSlot (g_parent g) lp"
    and lp: "lp < length (barr s (g_parent g))" and cyc: "unat (mr_cycle req) + 2 ^ 32 \<le> 2 ^ 64"
  shows "\<exists>lat. obj_access vt (Suc f) s m req = Some (st_upd (g_parent g) lp (mem_grant req) s, mr_cycle req + ucast (lat :: u32))"
proof -
  obtain lat where lat: "lat \<noteq> 0" "h_obj s m = SimpleMemObj lat" using wired_parentD(10) [OF base m] by blast
  have "unat (mr_cycle req) < unat (mr_cycle req + ucast lat)" using unat_add32 [OF cyc, of lat] lat(1) by (simp add: unat_gt_0)
  then have "mr_cycle req < mr_cycle req + ucast lat" by (simp add: word_less_nat_alt)
  then have "obj_access vt (Suc f) s m req = Some (st_upd (g_parent g) lp (mem_grant req) s, mr_cycle req + ucast lat)"
    using lat ptr lp by (simp add: obj_access.simps(2) simple_mem_access_def)
  then show ?thesis by blast
qed

lemma parent_getParentId:
  assumes "base_ok g s"
  obtains i where "getParentId (bcc_of s (g_parent g)) x = Some i" "i < length (bcc_parents (bcc_of s (g_parent g)))"
    "bcc_parents (bcc_of s (g_parent g)) ! i \<in> set (bcc_parents (bcc_of s (g_parent g)))"
  using wired_parentD(8) [OF assms] by (auto simp: getParentId_def)

lemma bcc_evict_writeback:
  assumes "l < length (barr s c)" "is_EM (barr s c ! l)"
  shows "bcc_processEviction accf s c x l True cyc src dg = bcc_processEviction accf (st_upd c l M s) c x l False cyc src dg"
  using assms by (simp add: bcc_processEviction_def is_EM_def disj_commute)

lemma parent_bcc_evict_clean:
  assumes base: "base_ok g s" and lp: "lp < length (barr s (g_parent g))" and cyc: "unat cyc + 2 ^ 32 \<le> 2 ^ 64"
  shows "\<exists>s' r d. bcc_processEviction (obj_access vt (Suc f)) s (g_parent g) wba lp False cyc src dg = Some (s', r, d) \<and>
    barr s' = (barr s)(g_parent g := (barr s (g_parent g))[lp := I]) \<and> earr s' = earr s \<and> static s' = static s \<and> arr s' = arr s \<and>
    farr s' = farr s \<and> held s' = held s"
proof -
  let ?p = "g_parent g" let ?st = "barr s ?p ! lp"
  obtain i where i: "getParentId (bcc_of s ?p) wba = Some i" "bcc_parents (bcc_of s ?p) ! i \<in> set (bcc_parents (bcc_of s ?p))"
    by (rule parent_getParentId [OF base])
  have acc: "\<exists>r. obj_access vt (Suc f) s (bcc_parents (bcc_of s ?p) ! i) (bcc_req s ?p wba ty (BccSlot ?p lp) cyc ?st src 0) =
      Some (st_upd ?p lp I s, r)" if "ty = PUTX \<or> ty = PUTS" for ty
  proof -
    have "mem_grant (bcc_req s ?p wba ty (BccSlot ?p lp) cyc ?st src 0) = I" using that by (auto simp: mem_grant_def bcc_req_def)
    then show ?thesis
      using memory_access [OF base i(2) _ lp, of "bcc_req s ?p wba ty (BccSlot ?p lp) cyc ?st src 0" f] cyc by (auto simp: bcc_req_def)
  qed
  obtain r1 r2 where r: "obj_access vt (Suc f) s (bcc_parents (bcc_of s ?p) ! i) (bcc_req s ?p wba PUTX (BccSlot ?p lp) cyc ?st src 0) =
      Some (st_upd ?p lp I s, r1)"
    "obj_access vt (Suc f) s (bcc_parents (bcc_of s ?p) ! i) (bcc_req s ?p wba PUTS (BccSlot ?p lp) cyc ?st src 0) =
      Some (st_upd ?p lp I s, r2)" using acc by blast
  show ?thesis
  proof (cases "?st = I")
    case True
    then have "(barr s)(?p := (barr s ?p)[lp := I]) = barr s" using list_update_id [of "barr s ?p" lp] by (auto simp: fun_eq_iff)
    then show ?thesis using True lp by (simp add: bcc_processEviction_def)
  next
    case False
    then show ?thesis using i(1) r lp by (cases ?st) (auto simp: bcc_processEviction_def)
  qed
qed

lemma parent_bcc_evict:
  assumes base: "base_ok g s" and lp: "lp < length (barr s (g_parent g))" and wb: "llw \<longrightarrow> is_EM (barr s (g_parent g) ! lp)"
    and cyc: "unat cyc + 2 ^ 32 \<le> 2 ^ 64"
  shows "\<exists>s' r d. bcc_processEviction (obj_access vt (Suc f)) s (g_parent g) wba lp llw cyc src dg = Some (s', r, d) \<and>
    barr s' = (barr s)(g_parent g := (barr s (g_parent g))[lp := I]) \<and> earr s' = earr s \<and> static s' = static s \<and> arr s' = arr s \<and>
    farr s' = farr s \<and> held s' = held s"
proof (cases llw)
  case True
  let ?p = "g_parent g" let ?s1 = "st_upd ?p lp M s"
  have "barr s ?p ! lp \<noteq> I" using wb True by (auto simp: is_EM_def)
  then obtain x where "g_where g ?p (arr s ?p) x = Some lp" using sizedD(9) [OF base parent_member] lp by (auto simp: free_ok_def)
  then have b1: "base_ok g ?s1" by (intro base_ok_mapped [OF base _ _ _ _ parent_member]) simp_all
  have "lp < length (barr ?s1 ?p)" using lp by simp
  from parent_bcc_evict_clean [OF b1 this cyc, of f wba src dg] show ?thesis
    using True wb by (simp add: bcc_evict_writeback [OF lp])
qed (use parent_bcc_evict_clean [OF base lp cyc] in simp)

subsection \<open>The directory, one address at a time\<close>

lemma directory_ok_at: "directory_ok g s \<Longrightarrow> x \<noteq> 0 \<Longrightarrow> dir_ok (g_kids g) (\<lambda>k. cst g s k x) (cst g s (g_parent g) x) (ent g s x)"
  by (simp add: directory_ok_def)

lemma directory_ok_upd:
  assumes D: "directory_ok g s"
    and other: "\<And>k y. k \<in> members g \<Longrightarrow> y \<noteq> x \<Longrightarrow> cst g s' k y = cst g s k y" "\<And>y. y \<noteq> x \<Longrightarrow> ent g s' y = ent g s y"
    and at: "x \<noteq> 0 \<Longrightarrow> dir_ok (g_kids g) (\<lambda>k. cst g s' k x) (cst g s' (g_parent g) x) (ent g s' x)"
  shows "directory_ok g s'"
  unfolding directory_ok_def
proof (intro allI impI)
  fix y assume y: "y \<noteq> (0 :: Address)"
  show "dir_ok (g_kids g) (\<lambda>k. cst g s' k y) (cst g s' (g_parent g) y) (ent g s' y)"
  proof (cases "y = x")
    case False
    have "dir_ok (g_kids g) (\<lambda>k. cst g s' k y) q eo = dir_ok (g_kids g) (\<lambda>k. cst g s k y) q eo" for q eo
      using other(1) [OF _ False] by (auto simp: dir_ok_def split: option.splits)
    then show ?thesis using directory_ok_at [OF D y] other(1) [OF parent_member False] other(2) [OF False] by simp
  qed (use at y in simp)
qed

lemma directory_ok_cong:
  assumes "directory_ok g s" "cst g s' = cst g s" "ent g s' = ent g s"
  shows "directory_ok g s'"
  using assms by (simp add: directory_ok_def)

lemma ent_where: "g_where g (g_parent g) (arr s (g_parent g)) x = Some lp \<Longrightarrow> ent g s x = Some (earr s (g_parent g) ! lp)"
  by (simp add: ent_def)

lemma ent_mapped:
  assumes base: "base_ok g s" and w: "g_where g (g_parent g) (arr s (g_parent g)) x = Some lp"
    and "arr s' = arr s" "earr s' = (earr s)(g_parent g := (earr s (g_parent g))[lp := e])"
  shows "ent g s' = (ent g s)(x \<mapsto> e)"
proof
  fix y
  have lp: "lp < length (earr s (g_parent g))" using sizedD(2,6) [OF base parent_member] w by fastforce
  show "ent g s' y = ((ent g s)(x \<mapsto> e)) y"
  proof (cases "y = x")
    case False
    then have "g_where g (g_parent g) (arr s (g_parent g)) y \<noteq> Some lp" using sizedD(3) [OF base parent_member w] by blast
    then show ?thesis using False assms(3,4) by (cases "g_where g (g_parent g) (arr s (g_parent g)) y") (auto simp: ent_def)
  qed (use w lp assms(3,4) in \<open>simp add: ent_def\<close>)
qed

lemma entries_ok_upd:
  assumes "entries_ok g s" "earr s' = (earr s)(g_parent g := (earr s (g_parent g))[lp := e])" "entry_ok (length (g_kids g)) e"
  shows "entries_ok g s'"
  using assms set_update_subset_insert [of "earr s (g_parent g)" lp e] by (auto simp: entries_ok_def)

lemma dir_listed:
  assumes "dir_ok (g_kids g) child q (Some e)" "i \<in> listed e 0"
  shows "child (g_kids g ! i) \<noteq> I"
  using assms unfolding dir_ok_def listed_def by auto

text \<open>Lowering every listed child leaves no copy.\<close>

lemma lower_all:
  assumes "dir_ok (g_kids g) (\<lambda>k. f k x) q (Some e)" "k \<in> set (g_kids g)"
  shows "lower INV x (listed e 0) f k x = I"
proof -
  obtain i where i: "i < length (g_kids g)" "k = g_kids g ! i" using assms(2) by (auto simp: in_set_conv_nth)
  show ?thesis using assms(1) i by (cases "sharers e ! i") (auto simp: dir_ok_def lower_def lowered_def listed_def)
qed

lemma lower_other: "y \<noteq> x \<Longrightarrow> lower type x D f c y = f c y"
  by (simp add: lower_def)

lemma lower_parent [simp]: "D \<subseteq> {..<length (g_kids g)} \<Longrightarrow> lower type x D f (g_parent g) y = f (g_parent g) y"
  using parent_fresh by (auto simp: lower_def)

lemma listed_bound [simp]: "listed e ch \<subseteq> {..<length (g_kids g)}"
  by (auto simp: listed_def)

lemma dir_ok_empty:
  "(\<And>k. k \<in> set (g_kids g) \<Longrightarrow> child k = I) \<Longrightarrow> dir_ok (g_kids g) child q (Some (emptied e))"
  using kids_max by (auto simp: dir_ok_def emptied_def is_EM_def)

subsection \<open>Eviction from the parent\<close>

lemma parent_evict:
  assumes base: "base_ok g s" and en: "entries_ok g s" and D: "directory_ok g s" and F: "filter_ok g K s" and ready: "kids_ready s"
    and lp: "lp < length (barr s (g_parent g))"
    and victim: "\<forall>y. g_where g (g_parent g) (arr s (g_parent g)) y = Some lp \<longleftrightarrow> y = wba \<and> wba \<noteq> 0"
    and cyc: "unat cyc + 2 ^ 34 \<le> 2 ^ 64"
  shows "\<exists>s' r d. mesicc_processEviction (obj_access vt (Suc f)) (obj_inval vt (Suc f)) s (g_parent g) req wba lp cyc dg = Some (s', r, d) \<and>
    base_ok g s' \<and> entries_ok g s' \<and> directory_ok g s' \<and> filter_ok g K s' \<and> static s' = static s \<and> arr s' = arr s \<and> held s' = held s \<and>
    barr s' (g_parent g) ! lp = I \<and> numSharers (earr s' (g_parent g) ! lp) = 0 \<and>
    (\<forall>k \<in> set (g_kids g). \<forall>y. y \<noteq> wba \<longrightarrow> cst g s' k y = cst g s k y)"
proof (cases "wba = 0")
  case True
  then have free: "barr s (g_parent g) ! lp = I" "numSharers (earr s (g_parent g) ! lp) = 0"
    using sizedD(9) [OF base parent_member] lp victim by (simp_all add: free_ok_def)
  have "mesicc_processEviction (obj_access vt (Suc f)) (obj_inval vt (Suc f)) s (g_parent g) req wba lp cyc dg = Some (s, cyc, dg)"
    using free lp parent_entry [OF base en lp] wired_parentD(5) [OF base]
    by (simp add: mesicc_processEviction_def tcc_processEviction_def sendInvalidates_def entry_isEmpty_def bcc_processEviction_def)
  then show ?thesis using assms free by blast
next
  case False
  let ?p = "g_parent g" let ?e = "earr s ?p ! lp"
  have w: "g_where g ?p (arr s ?p) wba = Some lp" using victim False by simp
  have dir: "dir_ok (g_kids g) (\<lambda>k. cst g s k wba) (cst g s ?p wba) (Some ?e)"
    using directory_ok_at [OF D False] ent_where [OF w] by simp
  note ok = parent_entry(2) [OF base en lp]
  have listed: "\<forall>i \<in> listed ?e 0. cst g s (g_kids g ! i) wba \<noteq> I" using dir_listed [OF dir] by blast
  have "unat cyc + 2 ^ 33 \<le> 2 ^ 64" using cyc by simp
  from sendInvalidates_INV [OF base F ready False w refl ok listed this, of f False "mr_srcId req"] obtain s1 r where
    s1: "sendInvalidates (obj_inval vt (Suc f)) s ?p wba lp INV False cyc (mr_srcId req) =
      Some (s1, r, \<exists>i \<in> listed ?e 0. cst g s (g_kids g ! i) wba = M)"
    "base_ok g s1" "filter_ok g K s1" "static s1 = static s" "arr s1 = arr s" "held s1 = held s" "barr s1 ?p = barr s ?p"
    "cst g s1 = lower INV wba (listed ?e 0) (cst g s)" "earr s1 = (earr s)(?p := (earr s ?p)[lp := emptied ?e])"
    "unat cyc \<le> unat r" "unat r \<le> unat cyc + 2 ^ 33" by auto
  have em: "is_EM (barr s ?p ! lp)" if "i \<in> listed ?e 0" "cst g s (g_kids g ! i) wba = M" for i
    using dir that cst_where [OF w] by (auto simp: dir_ok_def listed_def is_EM_def)
  have lp1: "lp < length (barr s1 ?p)" using lp s1(7) by simp
  have r: "unat r + 2 ^ 32 \<le> 2 ^ 64" using s1(11) cyc by simp
  have wb1: "(\<exists>i \<in> listed ?e 0. cst g s (g_kids g ! i) wba = M) \<longrightarrow> is_EM (barr s1 ?p ! lp)" using em s1(7) by auto
  from parent_bcc_evict [OF s1(2) lp1 wb1 r, of f wba "mr_srcId req" dg] obtain s2 r2 d where
    s2: "bcc_processEviction (obj_access vt (Suc f)) s1 ?p wba lp (\<exists>i \<in> listed ?e 0. cst g s (g_kids g ! i) wba = M) r (mr_srcId req) dg =
        Some (s2, r2, d)"
      "barr s2 = (barr s1)(?p := (barr s1 ?p)[lp := I])" "earr s2 = earr s1" "static s2 = static s1" "arr s2 = arr s1"
      "farr s2 = farr s1" "held s2 = held s1" by blast
  have eq: "mesicc_processEviction (obj_access vt (Suc f)) (obj_inval vt (Suc f)) s ?p req wba lp cyc dg = Some (s2, r2, d)"
    using s1(1) s2(1) wired_parentD(5) [OF base] by (simp add: mesicc_processEviction_def tcc_processEviction_def)
  have w1: "g_where g ?p (arr s1 ?p) wba = Some lp" using w s1(5) by simp
  have c2: "cst g s2 = (cst g s1)(?p := (cst g s1 ?p)(wba := I))" by (rule cst_mapped [OF s1(2) parent_member w1 s2(5,2)])
  have b2: "base_ok g s2" by (rule base_ok_mapped [OF s1(2) s2(4,5) _ s2(3) parent_member w1 s2(2)]) (simp add: s2(6))
  have e2: "earr s2 = (earr s)(?p := (earr s ?p)[lp := emptied ?e])" using s2(3) s1(9) by simp
  have "arr s2 = arr s" using s2(5) s1(5) by simp
  note ent2 = ent_mapped [OF base w this e2]
  have kid: "cst g s2 k y = lower INV wba (listed ?e 0) (cst g s) k y" if "k \<in> set (g_kids g)" for k y
    using c2 s1(8) kid_neq_parent [OF that] by simp
  have "directory_ok g s2"
  proof (rule directory_ok_upd [OF D, where x = wba])
    show "cst g s2 k y = cst g s k y" if "k \<in> members g" "y \<noteq> wba" for k y
      using that c2 s1(8) by (simp add: lower_other)
    show "dir_ok (g_kids g) (\<lambda>k. cst g s2 k wba) (cst g s2 ?p wba) (ent g s2 wba)"
      using kid lower_all [where f = "cst g s", OF dir] by (simp add: ent2 dir_ok_empty)
  qed (simp add: ent2)
  moreover have "entries_ok g s2" by (rule entries_ok_upd [OF en e2]) simp
  moreover have "filter_ok g K s2" using s1(3) filter_ok_cong [OF s2(4,6)] c2 by (simp add: fun_upd_apply)
  moreover have "barr s2 ?p ! lp = I" "numSharers (earr s2 ?p ! lp) = 0"
    using s2(2) lp1 e2 parent_entry(1) [OF base en lp] by (simp_all add: emptied_def)
  moreover have "\<forall>k \<in> set (g_kids g). \<forall>y. y \<noteq> wba \<longrightarrow> cst g s2 k y = cst g s k y" using kid by (simp add: lower_other)
  ultimately show ?thesis using eq b2 s1(4-6) s2(4,5,7) by auto
qed

end

end
