(* ===== verification/HierParent.thy ===== *)
theory HierParent
  imports Hierarchy
begin

text \<open>
  The shared cache of the hierarchy: each kind of request of a child is served without a failing assertion, keeps the
  directory, and leaves the child in the state the request asks for.
\<close>

context two_level
begin

subsection \<open>Directory entries\<close>

lemma entry_ok_add:
  assumes "entry_ok n e" "i < n" "i < MAX_CACHE_CHILDREN" "\<not> sharers e ! i" "ex \<longrightarrow> numSharers e = 0"
  shows "entry_ok n (e\<lparr>sharers := (sharers e)[i := True], numSharers := numSharers e + 1, exclusive := ex\<rparr>)"
proof -
  have len: "length (sharers e) = MAX_CACHE_CHILDREN" using assms(1) by (simp add: entry_ok_def)
  have "length (filter id (sharers e)) < length (sharers e)"
    using assms(3,4) len nth_mem [of i "sharers e"] by (intro length_filter_less [of "sharers e ! i"]) simp_all
  then have lt: "Suc (unat (numSharers e)) < 2 ^ LENGTH(32)" using assms(1) len by (simp add: entry_ok_def MAX_CACHE_CHILDREN_def)
  have "length (filter id ((sharers e)[i := True])) = Suc (length (filter id (sharers e)))"
    using count_filter_update [of i "sharers e" id True] assms(3,4) len by simp
  then show ?thesis using assms unat_inc [OF lt] by (auto simp: entry_ok_def nth_list_update)
qed

lemma entry_ok_drop:
  assumes "entry_ok n e" "i < MAX_CACHE_CHILDREN" "sharers e ! i"
  shows "entry_ok n (e\<lparr>sharers := (sharers e)[i := False], numSharers := numSharers e - 1\<rparr>)"
proof -
  have len: "length (sharers e) = MAX_CACHE_CHILDREN" using assms(1) by (simp add: entry_ok_def)
  have cnt: "Suc (length (filter id ((sharers e)[i := False]))) = length (filter id (sharers e))"
    using count_filter_update [of i "sharers e" id False] assms(2,3) len by simp
  then have "numSharers e \<noteq> 0" using assms(1) by (auto simp: entry_ok_def)
  then have n: "unat (numSharers e - 1) = unat (numSharers e) - 1" by (rule unat_minus_one_word)
  have "unat (numSharers e) = length (filter id (sharers e))" using assms(1) by (simp add: entry_ok_def)
  then have "unat (numSharers e - 1) = length (filter id ((sharers e)[i := False]))" using n cnt by simp
  moreover have "exclusive e \<longrightarrow> unat (numSharers e - 1) \<le> 1" using n assms(1) by (auto simp: entry_ok_def)
  moreover have "\<forall>j < MAX_CACHE_CHILDREN. (sharers e)[i := False] ! j \<longrightarrow> j < n"
    using assms(1,2) len by (auto simp: entry_ok_def nth_list_update)
  ultimately show ?thesis using len by (simp add: entry_ok_def)
qed

lemma entry_none_listed: "entry_ok n e \<Longrightarrow> numSharers e = 0 \<Longrightarrow> i < MAX_CACHE_CHILDREN \<Longrightarrow> \<not> sharers e ! i"
  by (metis entry_ok_def filter_empty_conv id_apply length_0_conv nth_mem unat_0)

lemma entry_some_listed: "entry_ok n e \<Longrightarrow> i < MAX_CACHE_CHILDREN \<Longrightarrow> sharers e ! i \<Longrightarrow> numSharers e \<noteq> 0"
  using entry_none_listed by blast

lemma entry_sole_listed:
  assumes "entry_ok n e" "unat (numSharers e) \<le> 1" "i < MAX_CACHE_CHILDREN" "j < MAX_CACHE_CHILDREN" "sharers e ! i" "sharers e ! j"
  shows "i = j"
proof -
  have "card {i. i < length (sharers e) \<and> id (sharers e ! i)} \<le> 1"
    using assms(1,2) length_filter_conv_card [of id "sharers e"] by (simp add: entry_ok_def)
  moreover have "finite {i. i < length (sharers e) \<and> id (sharers e ! i)}" by simp
  ultimately show ?thesis using assms by (auto simp: card_le_Suc0_iff_eq entry_ok_def)
qed

subsection \<open>The steps around the controllers of the parent\<close>

lemma array_change:
  assumes base: "base_ok g s" and c: "c \<in> members g" and a: "arr s' = (arr s)(c := a)" "g_where g c a = g_where g c (arr s c)"
      "g_size g c a = g_size g c (arr s c)"
    and same: "static s' = static s" "barr s' = barr s" "earr s' = earr s" "farr s' = farr s"
  shows "base_ok g s'" "cst g s' = cst g s" "ent g s' = ent g s"
proof -
  have "g_where g d (arr s' d) = g_where g d (arr s d)" "g_size g d (arr s' d) = g_size g d (arr s d)" for d
    using a by simp_all
  note w = this
  show "cst g s' = cst g s" "ent g s' = ent g s" by (intro ext, simp add: cst_def ent_def w same cong: option.case_cong)+
  have "sized g s' d \<and> free_ok g s' d \<longleftrightarrow> sized g s d \<and> free_ok g s d" for d
    unfolding sized_def free_ok_def w same static_eqD [OF same(1)] by blast
  then show "base_ok g s'" using base by (simp add: base_ok_def wired_static [OF same(1)])
qed

lemma take_record_none:
  assumes "wired g s" "aget (h_recs s) (unat src) \<noteq> None"
  shows "take_record s src = Some (s, None)"
proof -
  obtain r where r: "aget (h_recs s) (unat src) = Some r" using assms(2) by blast
  then have "\<not> er_hasRecord q" if "r = Some q" for q
    using assms(1) that nth_mem [of "unat src" "h_recs s"] by (auto simp: wired_def aget_eq_Some)
  then show ?thesis using r by (cases r) (simp_all add: take_record_def)
qed

lemma stitch_none [simp]: "stitch_records s req None = Some s"
  by (simp add: stitch_records_def)

text \<open>What a child's request looks like.\<close>

definition from_kid :: "'a hier \<Rightarrow> nat \<Rightarrow> nat \<Rightarrow> Address \<Rightarrow> mem_req \<Rightarrow> bool" where
  "from_kid s k l x req \<longleftrightarrow> k \<in> set (g_kids g) \<and> g_where g k (arr s k) x = Some l \<and> x \<noteq> 0 \<and>
     mr_state req = BccSlot k l \<and> mr_initialState req = barr s k ! l \<and> mr_childLock req = Some (BccLock k) \<and>
     mr_lineAddr req = x \<and> g_kids g ! mr_childId req = k \<and> mr_childId req < length (g_kids g) \<and>
     aget (h_recs s) (unat (mr_srcId req)) \<noteq> None \<and> unat (mr_cycle req) + 2 ^ 35 \<le> 2 ^ 64"

lemma parent_access_eq:
  assumes base: "base_ok g s" and held: "held s = {BccLock k}" and req: "from_kid s k l x req"
    and ai: "g_ainv g (g_parent g) (arr s (g_parent g))"
  obtains a where "g_ainv g (g_parent g) a" "g_where g (g_parent g) a = g_where g (g_parent g) (arr s (g_parent g))"
    "g_size g (g_parent g) a = g_size g (g_parent g) (arr s (g_parent g))"
    "\<And>accf invf. cache_access vt accf invf s (g_parent g) req = do {
        (s, r) \<leftarrow> cache_serve vt accf invf
          (count_request (mr_type req) (upd_array (g_parent g) a (s\<lparr>held := {TccLock (g_parent g), BccLock (g_parent g)}\<rparr>)))
          (g_parent g) req (g_where g (g_parent g) (arr s (g_parent g)) x) (mr_cycle req + ucast (c_accLat (h_cache s (g_parent g))));
        s \<leftarrow> h_endAccess s (g_parent g) req;
        assert_that (r \<ge> mr_cycle req);
        Some (s, r) }"
proof -
  let ?p = "g_parent g"
  let ?sA = "s\<lparr>held := {TccLock ?p, BccLock ?p}\<rparr>"
  note W = wired_parentD [OF base]
  have q: "k \<in> set (g_kids g)" "x \<noteq> 0" "mr_state req = BccSlot k l" "mr_initialState req = barr s k ! l"
    "mr_childLock req = Some (BccLock k)" "mr_lineAddr req = x" "g_where g k (arr s k) x = Some l"
    using req by (simp_all add: from_kid_def)
  have l: "l < length (barr s k)" using sizedD(2) [OF base kid_member [OF q(1)] q(7)] .
  have "IsGet (mr_type req) \<longrightarrow> IsGet (mr_type req)" by simp
  from line_store.ls_update [OF parent_store ai q(2) this] obtain a where
    a: "(if g_l2 g then av_lookupL2 (vt ?p) else av_lookup (vt ?p)) (arr s ?p) x (Some req) (IsGet (mr_type req)) =
        Some (a, g_where g ?p (arr s ?p) x)"
      "g_ainv g ?p a" "g_where g ?p a = g_where g ?p (arr s ?p)" "g_size g ?p a = g_size g ?p (arr s ?p)" by blast
  have sA: "s\<lparr>held := insert (BccLock ?p) (insert (TccLock ?p) (held s - {BccLock k}))\<rparr> = ?sA"
    by (simp add: held insert_commute)
  have "\<not> c_terminal (h_cache s ?p)" "aget (barr ?sA k) l = Some (barr s k ! l)" using W(3) l by simp_all
  then have start: "h_startAccess s ?p req = Some (?sA, req, False)"
    using q held sA
    by (simp add: h_startAccess_def mesicc_startAccess_def unlock_child_def cc_unlock_def CheckForMESIRace_def Let_def)
  have "is_l2_0 ?sA ?p = g_l2 g" "c_array (h_cache ?sA ?p) = arr s ?p" using W(2) by (simp_all add: is_l2_0_def arr_def)
  then have lk: "h_lookup vt ?sA ?p req (IsGet (mr_type req)) = Some (upd_array ?p a ?sA, g_where g ?p (arr s ?p) x)"
    using a(1) q(6) unfolding h_lookup_def by simp
  have lat: "c_accLat (h_cache (upd_array ?p a ?sA) ?p) = c_accLat (h_cache s ?p)" by (rule static_eqD(2)) simp
  show thesis
    by (rule that [OF a(2-4)]) (simp add: cache_access_def start lk lat)
qed

lemma parent_endAccess:
  assumes "base_ok g s" "held s = {TccLock (g_parent g), BccLock (g_parent g)}" "mr_childLock req = Some (BccLock k)" "k \<in> set (g_kids g)"
  shows "h_endAccess s (g_parent g) req = Some (s\<lparr>held := {BccLock k}\<rparr>)"
proof -
  have ne: "BccLock k \<notin> held s" using assms(2) kid_neq_parent [OF assms(4)] by auto
  have "insert (BccLock k) (held s) - {BccLock (g_parent g)} - {TccLock (g_parent g)} = {BccLock k}"
    using assms(2) kid_neq_parent [OF assms(4)] by auto
  then show ?thesis using assms(3) wired_parentD(3) [OF assms(1)] ne
    by (simp add: h_endAccess_def mesicc_endAccess_def relock_child_def cc_unlock_def)
qed

lemma parent_processAccess_eq:
  assumes "base_ok g t" "\<not> has_flag (mr_flags req) PREFETCH" "IsPut (mr_type req) \<longrightarrow> barr t (g_parent g) ! lp \<noteq> I"
    "lp < length (barr t (g_parent g))"
  shows "h_processAccess accf invf t (g_parent g) req (Some lp) cyc = do {
     (s, r) \<leftarrow> bcc_processAccess accf t (g_parent g) (mr_lineAddr req) lp (mr_type req) cyc (mr_srcId req) (mr_flags req AND NOT PREFETCH);
     excl \<leftarrow> bcc_isExclusive s (g_parent g) lp;
     (s, r', llw) \<leftarrow> tcc_processAccess invf s (g_parent g) (mr_lineAddr req) lp (mr_type req) (mr_childId req) excl (mr_state req) False r
        (mr_srcId req) (mr_flags req AND NOT PREFETCH);
     s \<leftarrow> (if llw then bcc_processWritebackOnAccess s (g_parent g) lp else Some s);
     Some (s, r') }"
  using assms wired_parentD(3) [OF assms(1)]
  by (auto simp: h_processAccess_def mesicc_processAccess_def bcc_isValid_def Let_def split_def)

subsection \<open>Changing one address in the directory\<close>

text \<open>The parent's own state may rise.\<close>

lemma parent_raise:
  assumes base: "base_ok g t" and en: "entries_ok g t" and D: "directory_ok g t" and F: "filter_ok g K t"
    and w: "g_where g (g_parent g) (arr t (g_parent g)) x = Some lp"
    and t': "barr t' = (barr t)(g_parent g := (barr t (g_parent g))[lp := q])" "earr t' = earr t" "arr t' = arr t" "static t' = static t"
      "farr t' = farr t"
    and q: "q \<noteq> I" "is_EM (cst g t (g_parent g) x) \<longrightarrow> is_EM q"
  shows "base_ok g t'" "entries_ok g t'" "directory_ok g t'" "filter_ok g K t'"
    "cst g t' = (cst g t)(g_parent g := (cst g t (g_parent g))(x := q))" "ent g t' = ent g t"
proof -
  show c: "cst g t' = (cst g t)(g_parent g := (cst g t (g_parent g))(x := q))" by (rule cst_mapped [OF base parent_member w t'(3,1)])
  show e: "ent g t' = ent g t" by (rule ent_cong [OF t'(3,2)])
  show "base_ok g t'" by (rule base_ok_mapped [OF base t'(4,3) _ t'(2) parent_member w t'(1)]) (simp add: t'(5))
  show "entries_ok g t'" using en t'(2) by (simp add: entries_ok_def)
  show "filter_ok g K t'" using F filter_ok_cong [OF t'(4,5)] c by (simp add: fun_upd_apply)
  show "directory_ok g t'"
  proof (rule directory_ok_upd [OF D, where x = x])
    show "dir_ok (g_kids g) (\<lambda>k. cst g t' k x) (cst g t' (g_parent g) x) (ent g t' x)" if "x \<noteq> 0"
      using directory_ok_at [OF D that] q w c e by (auto simp: dir_ok_def ent_where)
  qed (use c e in auto)
qed

text \<open>A child's state and its entry change together.\<close>

lemma kid_entry_update:
  assumes base: "base_ok g t" and en: "entries_ok g t" and D: "directory_ok g t" and k: "k \<in> set (g_kids g)"
    and w: "g_where g (g_parent g) (arr t (g_parent g)) x = Some lp" and wk: "g_where g k (arr t k) x = Some l"
    and t': "barr t' = (barr t)(k := (barr t k)[l := st])" "earr t' = (earr t)(g_parent g := (earr t (g_parent g))[lp := e])"
      "arr t' = arr t" "static t' = static t" "farr t' = farr t"
    and ok: "entry_ok (length (g_kids g)) e"
      "dir_ok (g_kids g) (\<lambda>j. if j = k then st else cst g t j x) (cst g t (g_parent g) x) (Some e)"
  shows "base_ok g t'" "entries_ok g t'" "directory_ok g t'" "cst g t' = (cst g t)(k := (cst g t k)(x := st))" "ent g t' = (ent g t)(x \<mapsto> e)"
proof -
  show c: "cst g t' = (cst g t)(k := (cst g t k)(x := st))" by (rule cst_mapped [OF base kid_member [OF k] wk t'(3,1)])
  show e: "ent g t' = (ent g t)(x \<mapsto> e)" by (rule ent_mapped [OF base w t'(3,2)])
  let ?u = "en_upd (g_parent g) lp e t"
  have "base_ok g ?u" by (rule base_ok_entry [OF base, where x = x]) (use w in simp_all)
  then show "base_ok g t'"
    by (rule base_ok_mapped [OF _ _ _ _ _ kid_member [OF k], where x = x]) (use t' wk in simp_all)
  show "entries_ok g t'" by (rule entries_ok_upd [OF en t'(2) ok(1)])
  show "directory_ok g t'"
  proof (rule directory_ok_upd [OF D, where x = x])
    have "(\<lambda>j. cst g t' j x) = (\<lambda>j. if j = k then st else cst g t j x)" using c by auto
    then show "dir_ok (g_kids g) (\<lambda>k. cst g t' k x) (cst g t' (g_parent g) x) (ent g t' x)"
      using ok(2) e c kid_neq_parent [OF k] by simp
  qed (use c e in auto)
qed

lemma filter_ok_raise:
  assumes F: "filter_ok g K t" and st: "static t' = static t" "farr t' = farr t"
    and c: "cst g t' = (cst g t)(k := (cst g t k)(x := y))" "cst g t k x \<noteq> M" "y \<noteq> I"
  shows "filter_ok g K t'"
  using F c unfolding filter_ok_def fent_ok_def Let_def static_eqD [OF st(1)] st(2) by (auto simp: fun_upd_apply)

lemma filter_ok_lose:
  assumes F: "filter_ok g K t" and base: "base_ok g t" and st: "static t' = static t" "farr t' = farr t"
    and c: "cst g t' = (cst g t)(k := (cst g t k)(x := y))" and K: "(k, f_index (h_filter t k) x) \<in> K" "k \<in> set (g_kids g)"
  shows "filter_ok g K t'"
  unfolding filter_ok_def
proof (intro ballI allI impI)
  fix j i assume h: "j \<in> set (g_kids g)" "i < length (farr t' j)" "(j, i) \<notin> K"
  then have ok: "fent_ok g t j i" using F st(2) by (simp add: filter_ok_def)
  have ne: "h_procMask t OR fe_rdAddr (farr t j ! i) \<noteq> x" if "j = k" "f_index (h_filter t k) (fe_rdAddr (farr t j ! i)) = i"
    using that h(3) K f_index_mask [OF K(2) base, of "fe_rdAddr (farr t j ! i)"] by auto
  show "fent_ok g t' j i"
    using ok ne c unfolding fent_ok_def Let_def static_eqD [OF st(1)] st(2) by (auto simp: fun_upd_apply)
qed

subsection \<open>Writebacks\<close>

text \<open>A child \<open>k\<close>, number \<open>i\<close>, that holds the address \<open>x\<close> in its line \<open>l\<close>; the parent holds it in \<open>lp\<close>.\<close>

definition at_line :: "'a hier \<Rightarrow> nat \<Rightarrow> nat \<Rightarrow> nat \<Rightarrow> Address \<Rightarrow> nat \<Rightarrow> bool" where
  "at_line t k i l x lp \<longleftrightarrow> i < length (g_kids g) \<and> k = g_kids g ! i \<and> x \<noteq> 0 \<and> g_where g k (arr t k) x = Some l \<and>
     g_where g (g_parent g) (arr t (g_parent g)) x = Some lp"

lemma at_line_cong: "arr t' = arr t \<Longrightarrow> at_line t' k i l x lp = at_line t k i l x lp"
  by (simp add: at_line_def)

lemma at_lineD:
  assumes "at_line t k i l x lp" "base_ok g t" "entries_ok g t" "directory_ok g t"
  shows "i < length (g_kids g)" "k = g_kids g ! i" "k \<in> set (g_kids g)" "x \<noteq> 0" "g_where g k (arr t k) x = Some l"
    "g_where g (g_parent g) (arr t (g_parent g)) x = Some lp" "l < length (barr t k)" "lp < length (barr t (g_parent g))"
    "lp < length (earr t (g_parent g))" "entry_ok (length (g_kids g)) (earr t (g_parent g) ! lp)" "i < MAX_CACHE_CHILDREN"
    "length (sharers (earr t (g_parent g) ! lp)) = MAX_CACHE_CHILDREN"
    "dir_ok (g_kids g) (\<lambda>j. cst g t j x) (cst g t (g_parent g) x) (Some (earr t (g_parent g) ! lp))"
    "cst g t k x = barr t k ! l" "cst g t (g_parent g) x = barr t (g_parent g) ! lp"
    "sharers (earr t (g_parent g) ! lp) ! i \<longleftrightarrow> cst g t k x \<noteq> I"
proof -
  show h: "i < length (g_kids g)" "k = g_kids g ! i" "x \<noteq> 0" "g_where g k (arr t k) x = Some l"
    "g_where g (g_parent g) (arr t (g_parent g)) x = Some lp" using assms(1) unfolding at_line_def by blast+
  show k: "k \<in> set (g_kids g)" using h by simp
  show "l < length (barr t k)" "lp < length (barr t (g_parent g))"
    using sizedD(2) [OF assms(2)] h(4,5) k by auto
  then show en: "lp < length (earr t (g_parent g))" "entry_ok (length (g_kids g)) (earr t (g_parent g) ! lp)"
    using parent_entry [OF assms(2,3)] by simp_all
  show "i < MAX_CACHE_CHILDREN" using h(1) kids_max by simp
  show "length (sharers (earr t (g_parent g) ! lp)) = MAX_CACHE_CHILDREN" using en(2) by (simp add: entry_ok_def)
  show d: "dir_ok (g_kids g) (\<lambda>j. cst g t j x) (cst g t (g_parent g) x) (Some (earr t (g_parent g) ! lp))"
    using directory_ok_at [OF assms(4) h(3)] ent_where [OF h(5)] by simp
  show "cst g t k x = barr t k ! l" "cst g t (g_parent g) x = barr t (g_parent g) ! lp"
    by (rule cst_where [OF h(4)], rule cst_where [OF h(5)])
  show "sharers (earr t (g_parent g) ! lp) ! i \<longleftrightarrow> cst g t k x \<noteq> I" using d h(1,2) by (auto simp: dir_ok_def)
qed

lemma dir_drop:
  assumes "dir_ok (g_kids g) child q (Some e)" "i < length (g_kids g)" "length (sharers e) = MAX_CACHE_CHILDREN"
  shows "dir_ok (g_kids g) (\<lambda>j. if j = g_kids g ! i then I else child j) q
    (Some (e\<lparr>sharers := (sharers e)[i := False], numSharers := m\<rparr>))"
proof -
  have "g_kids g ! j = g_kids g ! i \<longleftrightarrow> j = i" if "j < length (g_kids g)" for j
    using that assms(2) kids_distinct by (simp add: nth_eq_iff_index_eq)
  then show ?thesis using assms kids_max by (auto simp: dir_ok_def nth_list_update is_EM_def)
qed

lemma parent_put:
  assumes base: "base_ok g t" and en: "entries_ok g t" and D: "directory_ok g t" and F: "filter_ok g K t"
    and at: "at_line t k i l x lp" and K: "(k, f_index (h_filter t k) x) \<in> K"
    and st: "cst g t k x \<noteq> I" and ty: "type = (if cst g t k x = M then PUTX else PUTS)"
  shows "\<exists>t'. do {
     (s, r) \<leftarrow> bcc_processAccess accf t (g_parent g) x lp type cyc src 0;
     excl \<leftarrow> bcc_isExclusive s (g_parent g) lp;
     (s, r', llw) \<leftarrow> tcc_processAccess invf s (g_parent g) x lp type i excl (BccSlot k l) False r src 0;
     s \<leftarrow> (if llw then bcc_processWritebackOnAccess s (g_parent g) lp else Some s);
     Some (s, r') } = Some (t', cyc) \<and>
    base_ok g t' \<and> entries_ok g t' \<and> directory_ok g t' \<and> filter_ok g K t' \<and> static t' = static t \<and> arr t' = arr t \<and> held t' = held t \<and>
    barr t' k = (barr t k)[l := I] \<and> (\<forall>j \<in> set (g_kids g). cst g t' j = (if j = k then (cst g t k)(x := I) else cst g t j))"
proof -
  let ?p = "g_parent g" let ?e = "earr t ?p ! lp" let ?q = "barr t ?p ! lp"
  note A = at_lineD [OF at base en D]
  have q: "?q \<noteq> I" "is_EM (cst g t k x) \<Longrightarrow> is_EM ?q" "exclusive ?e \<longleftrightarrow> is_EM (cst g t k x)"
    using A(3,13,15) st by (auto simp: dir_ok_def)
  let ?q' = "if type = PUTX then M else ?q"
  have one: "\<exists>t1. bcc_processAccess accf t ?p x lp type cyc src 0 = Some (t1, cyc) \<and>
      barr t1 = (barr t)(?p := (barr t ?p)[lp := ?q']) \<and> earr t1 = earr t \<and> arr t1 = arr t \<and> static t1 = static t \<and> farr t1 = farr t \<and> held t1 = held t"
  proof (cases "cst g t k x = M")
    case True
    then have em: "?q = E \<or> ?q = M" using q(2) by (simp add: is_EM_def)
    have id: "?q = M \<Longrightarrow> (barr t)(?p := (barr t ?p)[lp := M]) = barr t" using list_update_id [of "barr t ?p" lp] by (auto simp: fun_eq_iff)
    show ?thesis using True ty A(8) em id by (cases "?q = E") (auto simp: bcc_processAccess_def)
  next
    case False
    have "(barr t)(?p := (barr t ?p)[lp := ?q]) = barr t" by simp
    then show ?thesis using False ty A(8) q(1) by (simp add: bcc_processAccess_def)
  qed
  then obtain t1 where t1: "bcc_processAccess accf t ?p x lp type cyc src 0 = Some (t1, cyc)"
      "barr t1 = (barr t)(?p := (barr t ?p)[lp := ?q'])" "earr t1 = earr t" "arr t1 = arr t" "static t1 = static t" "farr t1 = farr t" "held t1 = held t"
    by blast
  have q': "?q' \<noteq> I" "is_EM (cst g t ?p x) \<longrightarrow> is_EM ?q'" using q(1) A(15) by (auto simp: is_EM_def)
  note R = parent_raise [OF base en D F A(6) t1(2-6) q']
  have at1: "at_line t1 k i l x lp" using at at_line_cong [OF t1(4)] by simp
  note B = at_lineD [OF at1 R(1-3)]
  let ?e' = "?e\<lparr>sharers := (sharers ?e)[i := False], numSharers := numSharers ?e - 1\<rparr>"
  let ?t2 = "st_upd k l I (en_upd ?p lp ?e' t1)"
  have sh: "sharers ?e ! i" using A(16) st by simp
  have excl: "type = PUTX \<Longrightarrow> entry_isExclusive ?e"
  proof -
    assume "type = PUTX"
    then have "exclusive ?e" using q(3) ty by (auto simp: is_EM_def split: if_splits)
    moreover have "unat (numSharers ?e) \<le> 1" "numSharers ?e \<noteq> 0"
      using A(10) calculation entry_some_listed [OF A(10,11) sh] by (auto simp: entry_ok_def)
    then have "unat (numSharers ?e) = 1" by (simp add: le_Suc_eq unat_eq_0)
    then have "numSharers ?e = 1" by (simp add: word_unat_eq_iff)
    ultimately show ?thesis by (simp add: entry_isExclusive_def)
  qed
  have tcc: "tcc_processAccess invf t1 ?p x lp type i b (BccSlot k l) False cyc src 0 = Some (?t2, cyc, False)" for b
    using ty excl sh A(9,11,12) B(7) kid_neq_parent [OF A(3)] t1(3)
    by (cases "cst g t k x = M") (simp_all add: tcc_processAccess_def tcc_dropSharer_def has_flag_def)
  have eq: "do {
     (s, r) \<leftarrow> bcc_processAccess accf t ?p x lp type cyc src 0;
     excl \<leftarrow> bcc_isExclusive s ?p lp;
     (s, r', llw) \<leftarrow> tcc_processAccess invf s ?p x lp type i excl (BccSlot k l) False r src 0;
     s \<leftarrow> (if llw then bcc_processWritebackOnAccess s ?p lp else Some s);
     Some (s, r') } = Some (?t2, cyc)"
    using B(8) by (simp add: t1(1) tcc bcc_isExclusive_def)
  have dir: "dir_ok (g_kids g) (\<lambda>j. if j = k then I else cst g t1 j x) (cst g t1 ?p x) (Some ?e')"
    using dir_drop [OF B(13,1)] A(2,12) t1(3) by simp
  have b2: "barr ?t2 = (barr t1)(k := (barr t1 k)[l := I])" "earr ?t2 = (earr t1)(?p := (earr t1 ?p)[lp := ?e'])" by simp_all
  note U = kid_entry_update [OF R(1-3) A(3) B(6,5) b2 _ _ _ entry_ok_drop [OF A(10,11) sh] dir, simplified]
  have "filter_ok g K ?t2"
    by (rule filter_ok_lose [OF R(4,1) _ _ U(4) _ A(3)]) (use K static_eqD(21) [OF t1(5)] in simp_all)
  moreover have "\<forall>j \<in> set (g_kids g). cst g ?t2 j = (if j = k then (cst g t k)(x := I) else cst g t j)"
    using U(4) R(5) by (auto simp: fun_upd_apply)
  moreover have "barr ?t2 k = (barr t k)[l := I]" using t1(2) kid_neq_parent [OF A(3)] by simp
  ultimately show ?thesis using eq U(1-3) t1(4,5,7) by (intro exI [of _ ?t2]) simp
qed

subsection \<open>Fetching a line into the parent\<close>

text \<open>The parent asks a memory.\<close>

lemma parent_ask:
  assumes base: "base_ok g t" and lp: "lp < length (barr t (g_parent g))" and cyc: "unat cyc + 2 ^ 32 \<le> 2 ^ 64"
    and gr: "\<And>q. mem_grant (bcc_req t (g_parent g) x type (BccSlot (g_parent g) lp) cyc q src flags) = y"
  shows "\<exists>t' r. bcc_askParent (obj_access vt (Suc f)) t (g_parent g) x lp type cyc q src flags = Some (t', r) \<and>
    barr t' = (barr t)(g_parent g := (barr t (g_parent g))[lp := y]) \<and> earr t' = earr t \<and> arr t' = arr t \<and> static t' = static t \<and>
    farr t' = farr t \<and> held t' = held t \<and> unat cyc \<le> unat r \<and> unat r \<le> unat cyc + 2 ^ 32"
proof -
  let ?p = "g_parent g" let ?req = "bcc_req t ?p x type (BccSlot ?p lp) cyc q src flags"
  obtain i where i: "getParentId (bcc_of t ?p) x = Some i" "i < length (bcc_parents (bcc_of t ?p))"
    "bcc_parents (bcc_of t ?p) ! i \<in> set (bcc_parents (bcc_of t ?p))" by (rule parent_getParentId [OF base])
  obtain lat where lat: "obj_access vt (Suc f) t (bcc_parents (bcc_of t ?p) ! i) ?req = Some (st_upd ?p lp y t, cyc + ucast (lat :: u32))"
    using memory_access [OF base i(3) _ lp, of ?req f] cyc gr by (auto simp: bcc_req_def)
  let ?t1 = "st_upd ?p lp y t"
  have "bcc_parentRTTs (bcc_of ?t1 ?p) = bcc_parentRTTs (bcc_of t ?p)" by (rule static_eqD(8)) simp
  then have rtt: "aget (bcc_parentRTTs (bcc_of ?t1 ?p)) i = Some (bcc_parentRTTs (bcc_of t ?p) ! i)"
    using i(2) wired_parentD(9) [OF base] by simp
  have bound: "unat cyc \<le> unat (cyc + ucast w)" "unat (cyc + ucast w) \<le> unat cyc + 2 ^ 32" for w :: u32
    using unat_add32 [OF cyc, of w] unat32_lt [of w] by simp_all
  show ?thesis using i(1) lat rtt bound by (simp add: bcc_askParent_def Let_def)
qed

lemma parent_fetch:
  assumes base: "base_ok g t" and en: "entries_ok g t" and D: "directory_ok g t" and F: "filter_ok g K t"
    and w: "g_where g (g_parent g) (arr t (g_parent g)) x = Some lp" and get: "IsGet type" and cyc: "unat cyc + 2 ^ 32 \<le> 2 ^ 64"
  shows "\<exists>t' r. bcc_processAccess (obj_access vt (Suc f)) t (g_parent g) x lp type cyc src flags = Some (t', r) \<and>
    base_ok g t' \<and> entries_ok g t' \<and> directory_ok g t' \<and> filter_ok g K t' \<and> static t' = static t \<and> arr t' = arr t \<and> held t' = held t \<and>
    earr t' = earr t \<and> (\<forall>k \<in> set (g_kids g). barr t' k = barr t k \<and> cst g t' k = cst g t k) \<and>
    cst g t' (g_parent g) x \<noteq> I \<and> (type = GETX \<longrightarrow> cst g t' (g_parent g) x = M) \<and>
    unat cyc \<le> unat r \<and> unat r \<le> unat cyc + 2 ^ 32"
proof -
  let ?p = "g_parent g" let ?q = "barr t ?p ! lp"
  have lp: "lp < length (barr t ?p)" using sizedD(2) [OF base parent_member w] .
  let ?y = "if type = GETX then M else if ?q \<noteq> I then ?q else if has_flag flags NOEXCL then S else E"
  have id: "(barr t)(?p := (barr t ?p)[lp := ?q]) = barr t" by simp
  have one: "\<exists>t' r. bcc_processAccess (obj_access vt (Suc f)) t ?p x lp type cyc src flags = Some (t', r) \<and>
    barr t' = (barr t)(?p := (barr t ?p)[lp := ?y]) \<and> earr t' = earr t \<and> arr t' = arr t \<and> static t' = static t \<and>
    farr t' = farr t \<and> held t' = held t \<and> unat cyc \<le> unat r \<and> unat r \<le> unat cyc + 2 ^ 32"
  proof (cases "type = GETS")
    case True
    show ?thesis
    proof (cases "?q = I")
      case q: True
      have "mem_grant (bcc_req t ?p x GETS (BccSlot ?p lp) cyc q src flags) = (if has_flag flags NOEXCL then S else E)" for q
        by (simp add: mem_grant_def bcc_req_def mr_is_def)
      from parent_ask [OF base lp cyc this, of f I] obtain t' r where
        a: "bcc_askParent (obj_access vt (Suc f)) t ?p x lp GETS cyc I src flags = Some (t', r)"
          "barr t' = (barr t)(?p := (barr t ?p)[lp := if has_flag flags NOEXCL then S else E])" "earr t' = earr t" "arr t' = arr t"
          "static t' = static t" "farr t' = farr t" "held t' = held t" "unat cyc \<le> unat r" "unat r \<le> unat cyc + 2 ^ 32" by blast
      show ?thesis using a lp q True by (auto simp: bcc_processAccess_def word_le_nat_alt)
    next
      case False
      then show ?thesis using True lp id by (auto simp: bcc_processAccess_def)
    qed
  next
    case False
    then have X: "type = GETX" using get by (simp add: IsGet_def)
    show ?thesis
    proof (cases "?q = I \<or> ?q = S")
      case q: True
      let ?prof = "\<lambda>b. if ?q = I then b\<lparr>profGETXMissIM := profGETXMissIM b + 1\<rparr> else b\<lparr>profGETXMissSM := profGETXMissSM b + 1\<rparr>"
      let ?u = "upd_bcc ?p ?prof t"
      have bu: "base_ok g ?u" by (rule base_ok_cong [OF base]) simp_all
      have "mem_grant (bcc_req ?u ?p x GETX (BccSlot ?p lp) cyc q src flags) = M" for q
        by (simp add: mem_grant_def bcc_req_def)
      from parent_ask [OF bu _ cyc this, of f ?q] lp obtain t' r where
        a: "bcc_askParent (obj_access vt (Suc f)) ?u ?p x lp GETX cyc ?q src flags = Some (t', r)"
          "barr t' = (barr t)(?p := (barr t ?p)[lp := M])" "earr t' = earr t" "arr t' = arr t"
          "static t' = static t" "farr t' = farr t" "held t' = held t" "unat cyc \<le> unat r" "unat r \<le> unat cyc + 2 ^ 32" by auto
      show ?thesis using a lp q X by (auto simp: bcc_processAccess_def word_le_nat_alt)
    next
      case q: False
      have "?q = M \<Longrightarrow> (barr t)(?p := (barr t ?p)[lp := M]) = barr t" using id by simp
      then show ?thesis using q X lp by (cases ?q) (auto simp: bcc_processAccess_def)
    qed
  qed
  then obtain t' r where t': "bcc_processAccess (obj_access vt (Suc f)) t ?p x lp type cyc src flags = Some (t', r)"
    "barr t' = (barr t)(?p := (barr t ?p)[lp := ?y])" "earr t' = earr t" "arr t' = arr t" "static t' = static t"
    "farr t' = farr t" "held t' = held t" "unat cyc \<le> unat r" "unat r \<le> unat cyc + 2 ^ 32" by blast
  have y: "?y \<noteq> I" "is_EM (cst g t ?p x) \<longrightarrow> is_EM ?y" using cst_where [OF w] by (auto simp: is_EM_def)
  note R = parent_raise [OF base en D F w t'(2-6) y]
  have "\<forall>k \<in> set (g_kids g). barr t' k = barr t k \<and> cst g t' k = cst g t k" using t'(2) R(5) by (simp add: fun_upd_apply)
  moreover have "cst g t' ?p x = ?y" using R(5) by simp
  ultimately show ?thesis using R(1-4) t' by auto
qed

subsection \<open>Granting a line to a child\<close>

lemma kid_index: "i < length (g_kids g) \<Longrightarrow> j < length (g_kids g) \<Longrightarrow> g_kids g ! j = g_kids g ! i \<longleftrightarrow> j = i"
  using kids_distinct by (simp add: nth_eq_iff_index_eq)

lemma dir_grant:
  assumes "dir_ok (g_kids g) child q (Some e)" "i < length (g_kids g)" "length (sharers e) = MAX_CACHE_CHILDREN" "st \<noteq> I" "q \<noteq> I"
    and "is_EM st \<Longrightarrow> is_EM q" "is_EM st \<Longrightarrow> j < length (g_kids g) \<Longrightarrow> \<not> sharers e ! j" "ex \<longleftrightarrow> is_EM st"
    and "\<And>j. \<not> is_EM st \<Longrightarrow> j \<in> set (g_kids g) \<Longrightarrow> \<not> is_EM (child j)"
    and none: "\<And>j. is_EM st \<Longrightarrow> j < length (g_kids g) \<Longrightarrow> \<not> sharers e ! j"
  shows "dir_ok (g_kids g) (\<lambda>j. if j = g_kids g ! i then st else child j) q
    (Some (e\<lparr>sharers := (sharers e)[i := True], numSharers := m, exclusive := ex\<rparr>))"
proof -
  let ?c = "\<lambda>j. if j = g_kids g ! i then st else child j"
  have sh: "(sharers e)[i := True] ! j \<longleftrightarrow> ?c (g_kids g ! j) \<noteq> I" if "j < length (g_kids g)" for j
    using assms(1-4) that kid_index [OF assms(2) that] kids_max by (auto simp: dir_ok_def nth_list_update)
  have oth: "child j = I" if "is_EM st" "j \<in> set (g_kids g)" for j
    using assms(1) none [OF that(1)] that(2) by (auto simp: dir_ok_def in_set_conv_nth)
  show ?thesis
    unfolding dir_ok_def using sh oth assms(4-6,8,9) by (auto simp: is_EM_def)
qed

lemma dir_downgraded:
  assumes "dir_ok (g_kids g) (\<lambda>j. f j x) q (Some e)"
  shows "dir_ok (g_kids g) (\<lambda>j. lower INVX x (listed e 0) f j x) q (Some (e\<lparr>exclusive := False\<rparr>))"
proof -
  have "lower INVX x (listed e 0) f j x = (if f j x = I then I else S)" if "j \<in> set (g_kids g)" for j
  proof -
    obtain i where "i < length (g_kids g)" "j = g_kids g ! i" using \<open>j \<in> _\<close> by (auto simp: in_set_conv_nth)
    then show ?thesis using assms kid_index
      by (cases "sharers e ! i") (auto simp: dir_ok_def lower_def lowered_def listed_def)
  qed
  then show ?thesis using assms by (auto simp: dir_ok_def is_EM_def)
qed

text \<open>After the children reported dirty data, the parent's line is dirty too.\<close>

lemma parent_writeback:
  assumes base: "base_ok g t" and en: "entries_ok g t" and D: "directory_ok g t" and F: "filter_ok g K t"
    and w: "g_where g (g_parent g) (arr t (g_parent g)) x = Some lp" and em: "llw \<longrightarrow> is_EM (cst g t (g_parent g) x)"
  shows "\<exists>t'. (if llw then bcc_processWritebackOnAccess t (g_parent g) lp else Some t) = Some t' \<and>
    base_ok g t' \<and> entries_ok g t' \<and> directory_ok g t' \<and> filter_ok g K t' \<and> static t' = static t \<and> arr t' = arr t \<and> held t' = held t \<and>
    (\<forall>k \<in> set (g_kids g). barr t' k = barr t k \<and> cst g t' k = cst g t k)"
proof (cases "llw \<and> barr t (g_parent g) ! lp = E")
  case True
  have lp: "lp < length (barr t (g_parent g))" using sizedD(2) [OF base parent_member w] .
  let ?t = "st_upd (g_parent g) lp M t"
  have "is_EM (cst g t (g_parent g) x) \<longrightarrow> is_EM M" by (simp add: is_EM_def)
  note R = parent_raise [OF base en D F w, of ?t M, simplified, OF this]
  have "\<forall>k \<in> set (g_kids g). barr ?t k = barr t k \<and> cst g ?t k = cst g t k" using R(5) by (simp add: fun_upd_apply)
  then show ?thesis using True lp R by (simp add: bcc_processWritebackOnAccess_def)
next
  case False
  have lp: "lp < length (barr t (g_parent g))" using sizedD(2) [OF base parent_member w] .
  show ?thesis using False lp em assms cst_where [OF w] by (auto simp: bcc_processWritebackOnAccess_def is_EM_def)
qed

lemma parent_downgrade:
  assumes base: "base_ok g t" and en: "entries_ok g t" and D: "directory_ok g t" and F: "filter_ok g K t" and ready: "kids_ready t"
    and at: "at_line t k i l x lp" and cyc: "unat cyc + 2 ^ 33 \<le> 2 ^ 64"
  shows "\<exists>t' r llw. (if entry_isExclusive (earr t (g_parent g) ! lp)
      then sendInvalidates (obj_inval vt (Suc f)) t (g_parent g) x lp INVX False cyc src else Some (t, cyc, False)) = Some (t', r, llw) \<and>
    base_ok g t' \<and> entries_ok g t' \<and> directory_ok g t' \<and> filter_ok g K t' \<and> static t' = static t \<and> arr t' = arr t \<and> held t' = held t \<and>
    (llw \<longrightarrow> is_EM (cst g t' (g_parent g) x)) \<and> cst g t' (g_parent g) x = cst g t (g_parent g) x \<and>
    (cst g t k x = I \<longrightarrow> cst g t' k x = I) \<and> (\<forall>j \<in> set (g_kids g). \<not> is_EM (cst g t' j x)) \<and>
    \<not> entry_isExclusive (earr t' (g_parent g) ! lp) \<and> unat cyc \<le> unat r \<and> unat r \<le> unat cyc + 2 ^ 33"
proof -
  let ?p = "g_parent g" let ?e = "earr t ?p ! lp"
  note A = at_lineD [OF at base en D]
  show ?thesis
  proof (cases "entry_isExclusive ?e")
    case True
    have listed: "\<forall>j \<in> listed ?e 0. is_EM (cst g t (g_kids g ! j) x)"
      using A(13) True by (auto simp: dir_ok_def listed_def entry_isExclusive_def)
    from sendInvalidates_INVX [OF base F ready A(4,6) refl A(10) True listed cyc, of f False src] obtain t1 r where
      t1: "sendInvalidates (obj_inval vt (Suc f)) t ?p x lp INVX False cyc src = Some (t1, r, \<exists>j \<in> listed ?e 0. cst g t (g_kids g ! j) x = M)"
        "base_ok g t1" "filter_ok g K t1" "static t1 = static t" "arr t1 = arr t" "held t1 = held t"
        "cst g t1 = lower INVX x (listed ?e 0) (cst g t)" "earr t1 = (earr t)(?p := (earr t ?p)[lp := ?e\<lparr>exclusive := False\<rparr>])"
        "unat cyc \<le> unat r" "unat r \<le> unat cyc + 2 ^ 33"
      by auto
    note e1 = ent_mapped [OF base A(6) t1(5,8)] and dd = dir_downgraded [where f = "cst g t", OF A(13)]
    have p: "cst g t1 ?p y = cst g t ?p y" for y unfolding t1(7) by simp
    have dir: "directory_ok g t1"
    proof (rule directory_ok_upd [OF D, where x = x])
      show "cst g t1 j y = cst g t j y" if "y \<noteq> x" for j y using that t1(7) by (simp add: lower_other)
      show "dir_ok (g_kids g) (\<lambda>j. cst g t1 j x) (cst g t1 ?p x) (ent g t1 x)" using dd e1 p unfolding t1(7) by simp
    qed (simp add: e1)
    have "entries_ok g t1" by (rule entries_ok_upd [OF en t1(8)]) (use A(10) in \<open>simp add: entry_ok_def\<close>)
    moreover have "(\<exists>j \<in> listed ?e 0. cst g t (g_kids g ! j) x = M) \<longrightarrow> is_EM (cst g t1 ?p x)"
      using A(13) p by (auto simp: dir_ok_def listed_def is_EM_def)
    moreover have "cst g t1 k x = I" if "cst g t k x = I"
    proof -
      have "k \<notin> (!) (g_kids g) ` listed ?e 0"
        using A(1,2,16) that kid_index by (auto simp: listed_def)
      then show ?thesis using that t1(7) by (simp add: lower_def)
    qed
    moreover have "\<forall>j \<in> set (g_kids g). \<not> is_EM (cst g t1 j x)" using dd unfolding t1(7) dir_ok_def by (auto simp: is_EM_def)
    moreover have "\<not> entry_isExclusive (earr t1 ?p ! lp)" using t1(8) A(9) by (simp add: entry_isExclusive_def)
    ultimately show ?thesis using True t1 dir p by auto
  next
    case False
    have "\<not> is_EM (cst g t j x)" if j: "j \<in> set (g_kids g)" for j
    proof
      assume em: "is_EM (cst g t j x)"
      then have ne: "cst g t j x \<noteq> I" by (auto simp: is_EM_def)
      obtain m where m: "m < length (g_kids g)" "j = g_kids g ! m" using j by (auto simp: in_set_conv_nth)
      have "exclusive ?e" "sharers ?e ! m" using A(13) em ne j m by (auto simp: dir_ok_def)
      moreover have "numSharers ?e \<noteq> 0" using entry_some_listed [OF A(10) _ calculation(2)] m(1) kids_max by simp
      moreover have "unat (numSharers ?e) \<le> 1" using A(10) calculation(1) by (simp add: entry_ok_def)
      ultimately have "unat (numSharers ?e) = 1" by (simp add: le_Suc_eq unat_eq_0)
      then have "numSharers ?e = 1" by (simp add: word_unat_eq_iff)
      then show False using False \<open>exclusive ?e\<close> by (simp add: entry_isExclusive_def)
    qed
    then show ?thesis using False assms by auto
  qed
qed

lemma parent_gets:
  assumes base: "base_ok g t" and en: "entries_ok g t" and D: "directory_ok g t" and F: "filter_ok g K t" and ready: "kids_ready t"
    and at: "at_line t k i l x lp" and st: "cst g t k x = I" and q: "cst g t (g_parent g) x \<noteq> I"
    and excl: "excl = is_EM (cst g t (g_parent g) x)" and cyc: "unat cyc + 2 ^ 33 \<le> 2 ^ 64"
  shows "\<exists>t' r. do {
     (s, r', llw) \<leftarrow> tcc_processAccess (obj_inval vt (Suc f)) t (g_parent g) x lp GETS i excl (BccSlot k l) False cyc src flags;
     s \<leftarrow> (if llw then bcc_processWritebackOnAccess s (g_parent g) lp else Some s);
     Some (s, r') } = Some (t', r) \<and>
    base_ok g t' \<and> entries_ok g t' \<and> directory_ok g t' \<and> filter_ok g K t' \<and> static t' = static t \<and> arr t' = arr t \<and> held t' = held t \<and>
    (cst g t' k x = S \<or> cst g t' k x = E) \<and> unat cyc \<le> unat r \<and> unat r \<le> unat cyc + 2 ^ 33"
proof -
  let ?p = "g_parent g" let ?e = "earr t ?p ! lp"
  note A = at_lineD [OF at base en D]
  have sh: "\<not> sharers ?e ! i" using A(16) st by simp
  show ?thesis
  proof (cases "entry_isEmpty ?e \<and> excl \<and> \<not> has_flag flags NOEXCL")
    case True
    then have n: "numSharers ?e = 0" by (simp add: entry_isEmpty_def)
    let ?e1 = "?e\<lparr>sharers := (sharers ?e)[i := True], numSharers := numSharers ?e + 1, exclusive := True\<rparr>"
    let ?t1 = "st_upd k l E (en_upd ?p lp ?e1 t)"
    have e1: "?e\<lparr>exclusive := True, sharers := (sharers ?e)[i := True], numSharers := 1\<rparr> = ?e1" using n by simp
    have eq: "tcc_processAccess (obj_inval vt (Suc f)) t ?p x lp GETS i excl (BccSlot k l) False cyc src flags = Some (?t1, cyc, False)"
      using True A(7,9,11,12) kid_neq_parent [OF A(3)] unfolding tcc_processAccess_def by (simp add: e1)
    have dir: "dir_ok (g_kids g) (\<lambda>j. if j = k then E else cst g t j x) (cst g t ?p x) (Some ?e1)"
      unfolding A(2)
      by (rule dir_grant [OF A(13,1,12)]) (use q True excl entry_none_listed [OF A(10) n] kids_max in \<open>auto simp: is_EM_def\<close>)
    have ok: "entry_ok (length (g_kids g)) ?e1" by (rule entry_ok_add [OF A(10,1,11) sh]) (use n in simp)
    have "barr ?t1 = (barr t)(k := (barr t k)[l := E])" "earr ?t1 = (earr t)(?p := (earr t ?p)[lp := ?e1])" "arr ?t1 = arr t"
      "static ?t1 = static t" "farr ?t1 = farr t" by simp_all
    note U = kid_entry_update [OF base en D A(3,6,5) this ok dir]
    have "filter_ok g K ?t1" by (rule filter_ok_raise [OF F _ _ U(4)]) (use st in simp_all)
    then show ?thesis using eq U by (intro exI [of _ ?t1] exI [of _ cyc]) simp
  next
    case False
    from parent_downgrade [OF base en D F ready at cyc, of f src] obtain t1 r llw where
      t1: "(if entry_isExclusive ?e then sendInvalidates (obj_inval vt (Suc f)) t ?p x lp INVX False cyc src else Some (t, cyc, False)) =
          Some (t1, r, llw)"
        "base_ok g t1" "entries_ok g t1" "directory_ok g t1" "filter_ok g K t1" "static t1 = static t" "arr t1 = arr t" "held t1 = held t"
        "llw \<longrightarrow> is_EM (cst g t1 ?p x)" "cst g t1 ?p x = cst g t ?p x" "cst g t1 k x = I"
        "\<forall>j \<in> set (g_kids g). \<not> is_EM (cst g t1 j x)" "\<not> entry_isExclusive (earr t1 ?p ! lp)"
        "unat cyc \<le> unat r" "unat r \<le> unat cyc + 2 ^ 33" using st by blast
    have at1: "at_line t1 k i l x lp" using at at_line_cong [OF t1(7)] by simp
    note B = at_lineD [OF at1 t1(2-4)]
    let ?f = "earr t1 ?p ! lp"
    let ?f1 = "?f\<lparr>sharers := (sharers ?f)[i := True], numSharers := numSharers ?f + 1, exclusive := False\<rparr>"
    let ?t2 = "st_upd k l S (en_upd ?p lp ?f1 t1)"
    have sh1: "\<not> sharers ?f ! i" using B(16) t1(11) by simp
    have eq: "tcc_processAccess (obj_inval vt (Suc f)) t ?p x lp GETS i excl (BccSlot k l) False cyc src flags = Some (?t2, r, llw)"
      using False A(9,11,12) B(7,9,11,12) kid_neq_parent [OF A(3)] sh t1(1,13) unfolding tcc_processAccess_def
      by (cases "entry_isExclusive ?e") auto
    have dir: "dir_ok (g_kids g) (\<lambda>j. if j = k then S else cst g t1 j x) (cst g t1 ?p x) (Some ?f1)"
      unfolding A(2) by (rule dir_grant [OF B(13,1,12)]) (use q t1(10,12) in \<open>auto simp: is_EM_def\<close>)
    have ok: "entry_ok (length (g_kids g)) ?f1" by (rule entry_ok_add [OF B(10,1,11) sh1]) simp
    have "barr ?t2 = (barr t1)(k := (barr t1 k)[l := S])" "earr ?t2 = (earr t1)(?p := (earr t1 ?p)[lp := ?f1])" "arr ?t2 = arr t1"
      "static ?t2 = static t1" "farr ?t2 = farr t1" by simp_all
    note U = kid_entry_update [OF t1(2-4) A(3) B(6,5) this ok dir]
    have f2: "filter_ok g K ?t2" by (rule filter_ok_raise [OF t1(5) _ _ U(4)]) (use t1(11) in simp_all)
    have em: "llw \<longrightarrow> is_EM (cst g ?t2 ?p x)" using t1(9) U(4) kid_neq_parent [OF A(3)] by simp
    have w2: "g_where g ?p (arr ?t2 ?p) x = Some lp" using B(6) by simp
    from parent_writeback [OF U(1-3) f2 w2 em] obtain t3 where
      t3: "(if llw then bcc_processWritebackOnAccess ?t2 ?p lp else Some ?t2) = Some t3" "base_ok g t3" "entries_ok g t3"
        "directory_ok g t3" "filter_ok g K t3" "static t3 = static ?t2" "arr t3 = arr ?t2" "held t3 = held ?t2"
        "\<forall>k \<in> set (g_kids g). barr t3 k = barr ?t2 k \<and> cst g t3 k = cst g ?t2 k" by blast
    have "cst g t3 k x = S" using t3(9) A(3) U(4) by simp
    then show ?thesis using eq t1(6-8,14,15) t3 by (intro exI [of _ t3] exI [of _ r]) simp
  qed
qed

lemma dir_sole:
  assumes "i < length (g_kids g)" "\<And>j. j \<in> set (g_kids g) \<Longrightarrow> j \<noteq> g_kids g ! i \<Longrightarrow> child j = I" "child (g_kids g ! i) = M" "is_EM q"
  shows "dir_ok (g_kids g) child q (Some ((emptied e)\<lparr>sharers := (sharers (emptied e))[i := True], numSharers := m, exclusive := True\<rparr>))"
proof -
  have "(sharers (emptied e))[i := True] ! j \<longleftrightarrow> j = i" if "j < length (g_kids g)" for j
    using that assms(1) kids_max by (simp add: emptied_def nth_list_update)
  moreover have "child (g_kids g ! j) \<noteq> I \<longleftrightarrow> j = i" if "j < length (g_kids g)" for j
    using assms(2) [of "g_kids g ! j"] assms(1,3) kid_index [OF assms(1) that] that by auto
  moreover have "j = g_kids g ! i" if "j \<in> set (g_kids g)" "child j \<noteq> I" for j using assms(2) that by blast
  ultimately show ?thesis using assms(3,4) by (auto simp: dir_ok_def is_EM_def)
qed

lemma parent_getx:
  assumes base: "base_ok g t" and en: "entries_ok g t" and D: "directory_ok g t" and F: "filter_ok g K t" and ready: "kids_ready t"
    and at: "at_line t k i l x lp" and st: "\<not> is_EM (cst g t k x)" and q: "cst g t (g_parent g) x = M"
    and cyc: "unat cyc + 2 ^ 33 \<le> 2 ^ 64"
  shows "\<exists>t' r. do {
     (s, r', llw) \<leftarrow> tcc_processAccess (obj_inval vt (Suc f)) t (g_parent g) x lp GETX i True (BccSlot k l) False cyc src flags;
     s \<leftarrow> (if llw then bcc_processWritebackOnAccess s (g_parent g) lp else Some s);
     Some (s, r') } = Some (t', r) \<and>
    base_ok g t' \<and> entries_ok g t' \<and> directory_ok g t' \<and> filter_ok g K t' \<and> static t' = static t \<and> arr t' = arr t \<and> held t' = held t \<and>
    cst g t' k x = M \<and> unat cyc \<le> unat r \<and> unat r \<le> unat cyc + 2 ^ 33"
proof -
  let ?p = "g_parent g" let ?e = "earr t ?p ! lp"
  note A = at_lineD [OF at base en D]
  let ?e1 = "if sharers ?e ! i then ?e\<lparr>sharers := (sharers ?e)[i := False], numSharers := numSharers ?e - 1\<rparr> else ?e"
  let ?t1 = "if sharers ?e ! i then en_upd ?p lp ?e1 t else t"
  have t1: "barr ?t1 = barr t" "earr ?t1 = (earr t)(?p := (earr t ?p)[lp := ?e1])" "arr ?t1 = arr t" "static ?t1 = static t"
    "farr ?t1 = farr t" "held ?t1 = held t" by auto
  have b1: "base_ok g ?t1" by (rule base_ok_entry [OF base t1(4,3,5,1) A(6) t1(2)])
  have c1: "cst g ?t1 = cst g t" by (rule cst_cong [OF t1(3,1)])
  have f1: "filter_ok g K ?t1" using F filter_ok_cong [OF t1(4,5)] c1 by simp
  have r1: "kids_ready ?t1" using ready kids_ready_cong [OF t1(3,6)] by simp
  have ok1: "entry_ok (length (g_kids g)) ?e1" using A(10) entry_ok_drop [OF A(10,11)] by simp
  have e1: "earr ?t1 ?p ! lp = ?e1" using t1(2) A(9) by simp
  have nl: "i \<notin> listed ?e1 0" using A(11,12) by (simp add: listed_def)
  have sub: "listed ?e1 0 = listed ?e 0 - {i}" using A(11,12) by (auto simp: listed_def nth_list_update)
  have listed: "\<forall>j \<in> listed ?e1 0. cst g ?t1 (g_kids g ! j) x \<noteq> I"
    using dir_listed [where child = "\<lambda>j. cst g t j x", OF A(13)] unfolding c1 sub by blast
  have w1: "g_where g ?p (arr ?t1 ?p) x = Some lp" using A(6) t1(3) by simp
  from sendInvalidates_INV [OF b1 f1 r1 A(4) w1 e1 ok1 listed cyc, of f False src] obtain t2 r llw where
    t2: "sendInvalidates (obj_inval vt (Suc f)) ?t1 ?p x lp INV False cyc src = Some (t2, r, llw)" "base_ok g t2" "filter_ok g K t2"
      "static t2 = static t" "arr t2 = arr t" "held t2 = held t" "cst g t2 = lower INV x (listed ?e1 0) (cst g t)"
      "earr t2 = (earr ?t1)(?p := (earr ?t1 ?p)[lp := emptied ?e1])" "unat cyc \<le> unat r" "unat r \<le> unat cyc + 2 ^ 33"
    unfolding t1(3-6) c1 by blast
  have e2: "earr t2 = (earr t)(?p := (earr t ?p)[lp := emptied ?e1])" using t2(8) t1(2) by simp
  let ?f = "emptied ?e1"
  let ?f1 = "?f\<lparr>sharers := (sharers ?f)[i := True], numSharers := numSharers ?f + 1, exclusive := True\<rparr>"
  let ?t3 = "st_upd k l M (en_upd ?p lp ?f1 t2)"
  have len2: "lp < length (earr t2 ?p)" "earr t2 ?p ! lp = ?f" using e2 A(9) by simp_all
  have w2: "g_where g ?p (arr t2 ?p) x = Some lp" "g_where g k (arr t2 k) x = Some l" using A(5,6) t2(5) by simp_all
  have l2: "l < length (barr t2 k)" using sizedD(2) [OF t2(2) kid_member [OF A(3)] w2(2)] .
  have nx: "sharers ?e ! i \<Longrightarrow> \<not> entry_isExclusive ?e"
    using A(3,13,16) st by (auto simp: dir_ok_def entry_isExclusive_def)
  have n1: "numSharers ?f1 = 1" by (simp add: emptied_def)
  have eq: "tcc_processAccess (obj_inval vt (Suc f)) t ?p x lp GETX i True (BccSlot k l) False cyc src flags = Some (?t3, r, llw)"
    using A(9,11,12) len2 l2 kid_neq_parent [OF A(3)] nx t2(1) n1 unfolding tcc_processAccess_def
    by (cases "sharers ?e ! i") (simp_all add: Let_def)
  have k2: "cst g t2 k x = cst g t k x"
  proof -
    have "k \<notin> (!) (g_kids g) ` listed ?e1 0" using nl A(1,2) kid_index by (auto simp: listed_def)
    then show ?thesis using t2(7) by (simp add: lower_def)
  qed
  have other: "cst g t2 j x = I" if j: "j \<in> set (g_kids g)" "j \<noteq> k" for j
  proof -
    obtain m where m: "m < length (g_kids g)" "j = g_kids g ! m" using j(1) by (auto simp: in_set_conv_nth)
    then have "m \<noteq> i" using j(2) A(2) by auto
    then show ?thesis using m A(13) unfolding t2(7) sub
      by (cases "sharers ?e ! m") (auto simp: lower_def lowered_def listed_def dir_ok_def)
  qed
  have p2: "cst g t2 ?p y = cst g t ?p y" for y unfolding t2(7) by simp
  have c3: "cst g ?t3 = (cst g t2)(k := (cst g t2 k)(x := M))"
    by (rule cst_mapped [OF t2(2) kid_member [OF A(3)] w2(2)]) simp_all
  have "base_ok g (en_upd ?p lp ?f1 t2)" by (rule base_ok_entry [OF t2(2), where x = x]) (use w2 in simp_all)
  then have b3: "base_ok g ?t3" by (rule base_ok_mapped [OF _ _ _ _ _ kid_member [OF A(3)], where x = x]) (use w2 in simp_all)
  have "barr ?t3 = (barr t2)(k := (barr t2 k)[l := M])" "earr ?t3 = (earr t)(?p := (earr t ?p)[lp := ?f1])" "arr ?t3 = arr t" using e2 t2(5) by simp_all
  note e3 = this
  have ok3: "entries_ok g ?t3"
    by (rule entries_ok_upd [OF en e3(2)], rule entry_ok_add [OF emptied_ok A(1,11)]) (use A(11) in \<open>simp_all add: emptied_def\<close>)
  note ent3 = ent_mapped [OF base A(6) e3(3,2)]
  have d3: "directory_ok g ?t3"
  proof (rule directory_ok_upd [OF D, where x = x])
    show "cst g ?t3 j y = cst g t j y" if "y \<noteq> x" for j y using that c3 t2(7) by (simp add: lower_other)
    have "cst g ?t3 j x = I" if "j \<in> set (g_kids g)" "j \<noteq> g_kids g ! i" for j
      using other that c3 A(2) by simp
    moreover have "cst g ?t3 (g_kids g ! i) x = M" "is_EM (cst g ?t3 ?p x)"
      using c3 A(2) p2 q kid_neq_parent [OF A(3)] by (simp_all add: is_EM_def)
    ultimately show "dir_ok (g_kids g) (\<lambda>j. cst g ?t3 j x) (cst g ?t3 ?p x) (ent g ?t3 x)"
      using dir_sole [OF A(1), of "\<lambda>j. cst g ?t3 j x"] by (simp add: ent3)
  qed (simp add: ent3)
  have f3: "filter_ok g K ?t3"
    by (rule filter_ok_raise [OF t2(3) _ _ c3]) (use st k2 in \<open>simp_all add: is_EM_def\<close>)
  have w3: "g_where g ?p (arr ?t3 ?p) x = Some lp" using w2 by simp
  have em: "llw \<longrightarrow> is_EM (cst g ?t3 ?p x)" using c3 p2 q kid_neq_parent [OF A(3)] by (simp add: is_EM_def)
  from parent_writeback [OF b3 ok3 d3 f3 w3 em] obtain t4 where
    t4: "(if llw then bcc_processWritebackOnAccess ?t3 ?p lp else Some ?t3) = Some t4" "base_ok g t4" "entries_ok g t4"
      "directory_ok g t4" "filter_ok g K t4" "static t4 = static ?t3" "arr t4 = arr ?t3" "held t4 = held ?t3"
      "\<forall>k \<in> set (g_kids g). barr t4 k = barr ?t3 k \<and> cst g t4 k = cst g ?t3 k" by blast
  have "cst g t4 k x = M" using t4(9) A(3) c3 by simp
  then show ?thesis using eq t2(4-6,9,10) t4 by (intro exI [of _ t4] exI [of _ r]) simp
qed

subsection \<open>Allocating in the parent\<close>

lemma remap_ok:
  assumes base: "base_ok g t" and en: "entries_ok g t" and D: "directory_ok g t" and F: "filter_ok g K t"
    and x: "x \<noteq> 0" "g_where g (g_parent g) (arr t (g_parent g)) x = None" and lp: "lp < length (barr t (g_parent g))"
    and vict: "\<forall>y. g_where g (g_parent g) (arr t (g_parent g)) y = Some lp \<longleftrightarrow> y = wba \<and> wba \<noteq> 0"
    and free: "barr t (g_parent g) ! lp = I" "numSharers (earr t (g_parent g) ! lp) = 0"
    and t': "arr t' = (arr t)(g_parent g := a)" "barr t' = barr t" "earr t' = earr t" "static t' = static t" "farr t' = farr t"
    and a: "g_size g (g_parent g) a = g_size g (g_parent g) (arr t (g_parent g))"
      "g_where g (g_parent g) a = (\<lambda>y. if y = x then Some lp else if g_where g (g_parent g) (arr t (g_parent g)) y = Some lp then None
         else g_where g (g_parent g) (arr t (g_parent g)) y)"
  shows "base_ok g t'" "entries_ok g t'" "directory_ok g t'" "filter_ok g K t'" "cst g t' = cst g t"
proof -
  let ?p = "g_parent g"
  note Z = sizedD [OF base parent_member]
  have c: "cst g t' ?p y = cst g t ?p y" for y
    using x(2) free(1) t'(2)
    by (cases "y = x"; cases "g_where g ?p (arr t ?p) y = Some lp") (simp_all add: cst_def t'(1) a(2) cong: option.case_cong)
  show cst: "cst g t' = cst g t"
  proof (intro ext)
    fix d y show "cst g t' d y = cst g t d y" by (cases "d = ?p") (simp add: c, simp add: cst_def t'(1,2) cong: option.case_cong)
  qed
  have sp: "sized g t' ?p"
    using Z(1-6) lp x by (auto simp: sized_def t' a split: if_splits)
  have fp: "free_ok g t' ?p"
    unfolding free_ok_def
  proof (intro allI impI)
    fix l assume l: "l < length (barr t' ?p)" "\<forall>y. g_where g ?p (arr t' ?p) y \<noteq> Some l"
    then have "l \<noteq> lp" using l(2) [rule_format, of x] by (simp add: t'(1) a(2))
    then have "\<forall>y. g_where g ?p (arr t ?p) y \<noteq> Some l" using l(2) x(2) unfolding t'(1) a(2) fun_upd_same
      by (metis option.distinct(1) option.inject)
    then show "barr t' ?p ! l = I \<and> (?p = ?p \<longrightarrow> numSharers (earr t' ?p ! l) = 0)"
      using Z(9) l(1) by (simp add: free_ok_def t'(2,3))
  qed
  have "sized g t' c \<and> free_ok g t' c" if "c \<in> members g" for c
  proof (cases "c = ?p")
    case False
    then have "sized g t' c = sized g t c" "free_ok g t' c = free_ok g t c"
      by (simp_all add: sized_def free_ok_def t' static_eqD [OF t'(4)])
    then show ?thesis using base that by (simp add: base_ok_def)
  qed (use sp fp in simp)
  then show "base_ok g t'" using base by (simp add: base_ok_def wired_static [OF t'(4)])
  show "entries_ok g t'" using en by (simp add: entries_ok_def t'(3))
  show "filter_ok g K t'" using F filter_ok_cong [OF t'(4,5)] cst by simp
  show "directory_ok g t'"
    unfolding directory_ok_def
  proof (intro allI impI)
    fix y assume y: "y \<noteq> (0 :: Address)"
    note d = directory_ok_at [OF D y]
    have sh: "\<not> sharers (earr t ?p ! lp) ! i" if "i < length (g_kids g)" for i
      using entry_none_listed [OF parent_entry(2) [OF base en lp] free(2)] that kids_max by simp
    consider "y = x" | "y \<noteq> x" "g_where g ?p (arr t ?p) y = Some lp" | "y \<noteq> x" "g_where g ?p (arr t ?p) y \<noteq> Some lp" by blast
    then show "dir_ok (g_kids g) (\<lambda>k. cst g t' k y) (cst g t' ?p y) (ent g t' y)"
    proof cases
      case 1
      then have "ent g t' y = Some (earr t ?p ! lp)" by (simp add: ent_def t'(1,3) a(2))
      then show ?thesis using d 1 x(2) sh by (auto simp: dir_ok_def cst ent_def is_EM_def)
    next
      case 2
      then have "ent g t' y = None" by (simp add: ent_def t'(1) a(2))
      then show ?thesis using d 2 sh by (auto simp: dir_ok_def cst ent_def in_set_conv_nth)
    next
      case 3
      then have "ent g t' y = ent g t y" by (simp add: ent_def t'(1,3) a(2))
      then show ?thesis using d by (simp add: cst)
    qed
  qed
qed

lemma parent_allocate:
  assumes base: "base_ok g s" and en: "entries_ok g s" and D: "directory_ok g s" and F: "filter_ok g K s" and ready: "kids_ready s"
    and ai: "g_ainv g (g_parent g) (arr s (g_parent g))" and x: "mr_lineAddr req = x" "x \<noteq> 0" and miss: "g_where g (g_parent g) (arr s (g_parent g)) x = None"
    and get: "IsGet (mr_type req)" and cyc: "unat cyc + 2 ^ 34 \<le> 2 ^ 64"
  shows "\<exists>t lp. cache_allocate vt (obj_access vt (Suc f)) (obj_inval vt (Suc f)) s (g_parent g) req cyc = Some (t, lp) \<and>
    base_ok g t \<and> entries_ok g t \<and> directory_ok g t \<and> filter_ok g K t \<and> static t = static s \<and> held t = held s \<and>
    (\<forall>k. k \<noteq> g_parent g \<longrightarrow> arr t k = arr s k) \<and> g_ainv g (g_parent g) (arr t (g_parent g)) \<and>
    g_where g (g_parent g) (arr t (g_parent g)) x = Some lp \<and> (\<forall>k \<in> set (g_kids g). cst g t k x = cst g s k x)"
proof -
  let ?p = "g_parent g"
  note W = wired_parentD [OF base]
  obtain a1 lp wba where a1: "(if g_l2 g then av_preinsertL2 (vt ?p) else av_preinsert (vt ?p)) (cc_view_of s ?p) (arr s ?p) x req = Some (a1, lp, wba)"
      "g_pend g ?p a1 x lp" "lp < g_size g ?p (arr s ?p)" "g_size g ?p a1 = g_size g ?p (arr s ?p)" "g_where g ?p a1 = g_where g ?p (arr s ?p)"
      "\<forall>y. g_where g ?p (arr s ?p) y = Some lp \<longleftrightarrow> y = wba \<and> wba \<noteq> 0"
    using line_store.ls_preinsert [OF parent_store ai x(2) miss, of "cc_view_of s ?p" req] by blast
  let ?s1 = "upd_array ?p a1 s"
  have pre: "h_preinsert vt s ?p req = Some (?s1, lp, wba)" using a1(1) W(2) x(1) by (simp add: h_preinsert_def proj_folds)
  have eq1: "arr ?s1 = (arr s)(?p := a1)" "static ?s1 = static s" "barr ?s1 = barr s" "earr ?s1 = earr s" "farr ?s1 = farr s" by simp_all
  note C = array_change [OF base parent_member eq1(1) a1(5,4) eq1(2-5)]
  have en1: "entries_ok g ?s1" using en by (simp add: entries_ok_def)
  have D1: "directory_ok g ?s1" by (rule directory_ok_cong [OF D C(2,3)])
  have F1: "filter_ok g K ?s1" using F filter_ok_cong [OF eq1(2,5)] C(2) by simp
  have r1: "kids_ready ?s1" using ready by (auto simp: kids_ready_def)
  have lp1: "lp < length (barr ?s1 ?p)" using a1(3) sizedD(4) [OF base parent_member] by simp
  have vict: "\<forall>y. g_where g ?p (arr ?s1 ?p) y = Some lp \<longleftrightarrow> y = wba \<and> wba \<noteq> 0" using a1(5,6) by simp
  from parent_evict [OF C(1) en1 D1 F1 r1 lp1 vict cyc, of f req False] obtain s2 r d where
    s2: "mesicc_processEviction (obj_access vt (Suc f)) (obj_inval vt (Suc f)) ?s1 ?p req wba lp cyc False = Some (s2, r, d)"
      "base_ok g s2" "entries_ok g s2" "directory_ok g s2" "filter_ok g K s2" "static s2 = static ?s1" "arr s2 = arr ?s1" "held s2 = held ?s1"
      "barr s2 ?p ! lp = I" "numSharers (earr s2 ?p ! lp) = 0" "\<forall>k \<in> set (g_kids g). \<forall>y. y \<noteq> wba \<longrightarrow> cst g s2 k y = cst g ?s1 k y"
    by blast
  have ev: "h_processEviction (obj_access vt (Suc f)) (obj_inval vt (Suc f)) ?s1 ?p req wba lp cyc False = Some (s2, r, d)"
    using s2(1) wired_parentD(3) [OF C(1)] by (simp add: h_processEviction_def)
  have arr2: "arr s2 ?p = a1" using s2(7) by simp
  have lpn: "lp < numLines" using a1(3) sizedD(5) [OF base parent_member] by simp
  obtain a2 w2 where a2: "(if g_l2 g then av_postinsertL2 (vt ?p) else av_postinsert (vt ?p)) a1 (h_world s2) x req lp = Some (a2, w2)"
      "g_ainv g ?p a2" "g_size g ?p a2 = g_size g ?p a1"
      "g_where g ?p a2 = (\<lambda>y. if y = x then Some lp else if g_where g ?p a1 y = Some lp then None else g_where g ?p a1 y)"
    using line_store.ls_postinsert [OF parent_store a1(2) x(2) get lpn, of "h_world s2"] by blast
  let ?t = "(upd_array ?p a2 s2)\<lparr>h_world := w2\<rparr>"
  have post: "h_postinsert vt s2 ?p req lp = Some ?t"
    using a2(1) wired_parentD(2) [OF s2(2)] x(1) arr2 by (simp add: h_postinsert_def proj_folds)
  have eqt: "arr ?t = (arr s2)(?p := a2)" "barr ?t = barr s2" "earr ?t = earr s2" "static ?t = static s2" "farr ?t = farr s2" by simp_all
  have m2: "g_where g ?p (arr s2 ?p) x = None" "lp < length (barr s2 ?p)" "\<forall>y. g_where g ?p (arr s2 ?p) y = Some lp \<longleftrightarrow> y = wba \<and> wba \<noteq> 0"
    using miss a1(3-6) arr2 sizedD(4) [OF s2(2) parent_member] by simp_all
  have sz: "g_size g ?p a2 = g_size g ?p (arr s2 ?p)"
    "g_where g ?p a2 = (\<lambda>y. if y = x then Some lp else if g_where g ?p (arr s2 ?p) y = Some lp then None else g_where g ?p (arr s2 ?p) y)"
    using a2(3,4) unfolding arr2 by simp_all
  note R = remap_ok [OF s2(2-5) x(2) m2 s2(9,10) eqt sz]
  have "cache_allocate vt (obj_access vt (Suc f)) (obj_inval vt (Suc f)) s ?p req cyc = Some (?t, lp)"
    using pre ev post by (simp add: cache_allocate_def)
  moreover have "x \<noteq> wba" using miss a1(6) x(2) by (metis option.distinct(1))
  then have "\<forall>k \<in> set (g_kids g). cst g ?t k x = cst g s k x" using R(5) s2(11) C(2) by simp
  moreover have "g_where g ?p (arr ?t ?p) x = Some lp" "g_ainv g ?p (arr ?t ?p)" using a2(2,4) by simp_all
  ultimately show ?thesis using R(1-4) s2(6-8) by (intro exI [of _ ?t] exI [of _ lp]) simp
qed

subsection \<open>The access as a whole\<close>

lemma parent_serve_get:
  assumes base: "base_ok g s" and en: "entries_ok g s" and D: "directory_ok g s" and F: "filter_ok g K s" and ready: "kids_ready s"
    and at: "at_line s k i l x lp" and req: "mr_lineAddr req = x" "mr_childId req = i" "mr_state req = BccSlot k l" "\<not> has_flag (mr_flags req) PREFETCH"
    and ty: "mr_type req = GETS \<and> cst g s k x = I \<or> mr_type req = GETX \<and> \<not> is_EM (cst g s k x)" and cyc: "unat cyc + 2 ^ 34 \<le> 2 ^ 64"
  shows "\<exists>t r. h_processAccess (obj_access vt (Suc f)) (obj_inval vt (Suc f)) s (g_parent g) req (Some lp) cyc = Some (t, r) \<and>
    base_ok g t \<and> entries_ok g t \<and> directory_ok g t \<and> filter_ok g K t \<and> static t = static s \<and> arr t = arr s \<and> held t = held s \<and>
    (mr_type req = GETS \<longrightarrow> cst g t k x = S \<or> cst g t k x = E) \<and> (mr_type req = GETX \<longrightarrow> cst g t k x = M) \<and>
    unat cyc \<le> unat r \<and> unat r \<le> unat cyc + 2 ^ 34"
proof -
  let ?p = "g_parent g" let ?fl = "mr_flags req AND NOT PREFETCH"
  note A = at_lineD [OF at base en D]
  have get: "IsGet (mr_type req)" "\<not> IsPut (mr_type req)" using ty by (auto simp: IsGet_def IsPut_def)
  have cyc': "unat cyc + 2 ^ 32 \<le> 2 ^ 64" using cyc by simp
  from parent_fetch [OF base en D F A(6) get(1) cyc', of f "mr_srcId req" ?fl] obtain t1 r1 where
    t1: "bcc_processAccess (obj_access vt (Suc f)) s ?p x lp (mr_type req) cyc (mr_srcId req) ?fl = Some (t1, r1)" "base_ok g t1"
      "entries_ok g t1" "directory_ok g t1" "filter_ok g K t1" "static t1 = static s" "arr t1 = arr s" "held t1 = held s"
      "\<forall>k \<in> set (g_kids g). barr t1 k = barr s k \<and> cst g t1 k = cst g s k" "cst g t1 ?p x \<noteq> I"
      "mr_type req = GETX \<longrightarrow> cst g t1 ?p x = M" "unat cyc \<le> unat r1" "unat r1 \<le> unat cyc + 2 ^ 32" by blast
  have at1: "at_line t1 k i l x lp" using at at_line_cong [OF t1(7)] by simp
  note B = at_lineD [OF at1 t1(2-4)]
  have rd: "kids_ready t1" using ready kids_ready_cong [OF t1(7,8)] by simp
  have c1: "cst g t1 k x = cst g s k x" using t1(9) A(3) by simp
  have r1: "unat r1 + 2 ^ 33 \<le> 2 ^ 64" using t1(13) cyc by simp
  have ex: "bcc_isExclusive t1 ?p lp = Some (is_EM (cst g t1 ?p x))" using B(8,15) by (simp add: bcc_isExclusive_def is_EM_def)
  have eq: "h_processAccess (obj_access vt (Suc f)) (obj_inval vt (Suc f)) s ?p req (Some lp) cyc = do {
     (s, r', llw) \<leftarrow> tcc_processAccess (obj_inval vt (Suc f)) t1 ?p x lp (mr_type req) i (is_EM (cst g t1 ?p x)) (BccSlot k l) False r1
        (mr_srcId req) ?fl;
     s \<leftarrow> (if llw then bcc_processWritebackOnAccess s ?p lp else Some s);
     Some (s, r') }"
    using parent_processAccess_eq [OF base req(4) _ A(8)] get(2) by (simp add: req t1(1) ex)
  show ?thesis
  proof (cases "mr_type req = GETS")
    case True
    then have st: "cst g t1 k x = I" using ty c1 by simp
    from parent_gets [OF t1(2-5) rd at1 st t1(10) refl r1, of f "mr_srcId req" ?fl] show ?thesis
      unfolding eq unfolding True using t1(6-8,12,13) by (elim exE conjE) (intro exI conjI, assumption, auto)
  next
    case False
    then have X: "mr_type req = GETX" "\<not> is_EM (cst g t1 k x)" "cst g t1 ?p x = M" using ty c1 t1(11) by auto
    have ex1: "is_EM (cst g t1 ?p x) = True" using X(3) by (simp add: is_EM_def)
    from parent_getx [OF t1(2-5) rd at1 X(2,3) r1, of f "mr_srcId req" ?fl] show ?thesis
      unfolding eq ex1 unfolding X(1) using t1(6-8,12,13) by (elim exE conjE) (intro exI conjI, assumption, auto)
  qed
qed

lemma parent_access_get:
  assumes base: "base_ok g s" and en: "entries_ok g s" and D: "directory_ok g s" and F: "filter_ok g K s"
    and ai: "\<forall>c \<in> members g. g_ainv g c (arr s c)" and held: "held s = {BccLock k}"
    and req: "from_kid s k l x req" "\<not> has_flag (mr_flags req) PREFETCH"
    and ty: "mr_type req = GETS \<and> cst g s k x = I \<or> mr_type req = GETX \<and> \<not> is_EM (cst g s k x)"
  shows "\<exists>t r. obj_access vt (Suc (Suc f)) s (g_parent g) req = Some (t, r) \<and>
    base_ok g t \<and> entries_ok g t \<and> directory_ok g t \<and> filter_ok g K t \<and> static t = static s \<and> held t = held s \<and>
    (\<forall>c \<in> members g. g_ainv g c (arr t c)) \<and> (\<forall>c. c \<noteq> g_parent g \<longrightarrow> arr t c = arr s c) \<and>
    (mr_type req = GETS \<longrightarrow> cst g t k x = S \<or> cst g t k x = E) \<and> (mr_type req = GETX \<longrightarrow> cst g t k x = M) \<and>
    unat (mr_cycle req) \<le> unat r \<and> unat r \<le> unat (mr_cycle req) + 2 ^ 35"
proof -
  let ?p = "g_parent g" let ?acc = "obj_access vt (Suc f)" let ?inv = "obj_inval vt (Suc f)"
  let ?cyc = "mr_cycle req + ucast (c_accLat (h_cache s ?p))"
  have q: "k \<in> set (g_kids g)" "x \<noteq> 0" "mr_state req = BccSlot k l" "mr_childLock req = Some (BccLock k)" "mr_lineAddr req = x"
    "g_where g k (arr s k) x = Some l" "g_kids g ! mr_childId req = k" "mr_childId req < length (g_kids g)"
    "aget (h_recs s) (unat (mr_srcId req)) \<noteq> None" "unat (mr_cycle req) + 2 ^ 35 \<le> 2 ^ 64"
    using req(1) by (simp_all add: from_kid_def)
  have get: "IsGet (mr_type req)" using ty by (auto simp: IsGet_def)
  have cyc: "unat ?cyc = unat (mr_cycle req) + unat (c_accLat (h_cache s ?p))" "unat ?cyc + 2 ^ 34 \<le> 2 ^ 64"
    "unat (mr_cycle req) \<le> unat ?cyc" "unat ?cyc \<le> unat (mr_cycle req) + 2 ^ 32"
    using unat_add32 [of "mr_cycle req" "c_accLat (h_cache s ?p)"] unat32_lt [of "c_accLat (h_cache s ?p)"] q(10) by simp_all
  have aip: "g_ainv g ?p (arr s ?p)" using ai by simp
  obtain a where a: "g_ainv g ?p a" "g_where g ?p a = g_where g ?p (arr s ?p)" "g_size g ?p a = g_size g ?p (arr s ?p)"
    and eq: "\<And>accf invf. cache_access vt accf invf s ?p req = do {
        (s, r) \<leftarrow> cache_serve vt accf invf (count_request (mr_type req) (upd_array ?p a (s\<lparr>held := {TccLock ?p, BccLock ?p}\<rparr>)))
          ?p req (g_where g ?p (arr s ?p) x) ?cyc;
        s \<leftarrow> h_endAccess s ?p req;
        assert_that (r \<ge> mr_cycle req);
        Some (s, r) }"
    using parent_access_eq [OF base held req(1) aip] by blast
  define s1 where "s1 = count_request (mr_type req) (upd_array ?p a (s\<lparr>held := {TccLock ?p, BccLock ?p}\<rparr>))"
  have p1: "arr s1 = (arr s)(?p := a)" "static s1 = static s" "barr s1 = barr s" "earr s1 = earr s" "farr s1 = farr s"
    "held s1 = {TccLock ?p, BccLock ?p}" by (simp_all add: s1_def)
  note C = array_change [OF base parent_member p1(1) a(2,3) p1(2-5)]
  have en1: "entries_ok g s1" using en p1(4) by (simp add: entries_ok_def)
  have D1: "directory_ok g s1" by (rule directory_ok_cong [OF D C(2,3)])
  have F1: "filter_ok g K s1" using F filter_ok_cong [OF p1(2,5)] C(2) by simp
  have ready: "kids_ready s1" using ai p1(1,6) by (auto simp: kids_ready_def)
  have ai1: "g_ainv g ?p (arr s1 ?p)" using p1(1) a(1) by simp
  have "\<exists>t lp. cache_line vt ?acc ?inv s1 ?p req (g_where g ?p (arr s ?p) x) ?cyc = Some (t, Some lp) \<and>
    base_ok g t \<and> entries_ok g t \<and> directory_ok g t \<and> filter_ok g K t \<and> static t = static s \<and> held t = held s1 \<and>
    (\<forall>c. c \<noteq> ?p \<longrightarrow> arr t c = arr s c) \<and> g_ainv g ?p (arr t ?p) \<and> g_where g ?p (arr t ?p) x = Some lp \<and> cst g t k x = cst g s k x"
  proof (cases "g_where g ?p (arr s ?p) x")
    case None
    then have miss: "g_where g ?p (arr s1 ?p) x = None" using p1(1) a(2) by simp
    have "h_shouldAllocate s1 ?p req = Some True"
      using get wired_parentD(3) [OF C(1)] by (auto simp: h_shouldAllocate_def mesicc_shouldAllocate_def IsGet_def)
    then show ?thesis
      using parent_allocate [OF C(1) en1 D1 F1 ready ai1 q(5,2) miss get cyc(2), of f] None p1(1,2) C(2) q(1)
      by (auto simp: cache_line_def)
  next
    case (Some lp)
    then show ?thesis using C(1,2) en1 D1 F1 p1 a(1,2) by (auto simp: cache_line_def)
  qed
  then obtain t lp where t: "cache_line vt ?acc ?inv s1 ?p req (g_where g ?p (arr s ?p) x) ?cyc = Some (t, Some lp)"
    "base_ok g t" "entries_ok g t" "directory_ok g t" "filter_ok g K t" "static t = static s" "held t = held s1"
    "\<forall>c. c \<noteq> ?p \<longrightarrow> arr t c = arr s c" "g_ainv g ?p (arr t ?p)" "g_where g ?p (arr t ?p) x = Some lp" "cst g t k x = cst g s k x"
    by blast
  have at: "at_line t k (mr_childId req) l x lp"
    using q t(8,10) kid_neq_parent [OF q(1)] by (auto simp: at_line_def)
  have rt: "kids_ready t" using ai t(7,8) p1(6) by (auto simp: kids_ready_def)
  have ty': "mr_type req = GETS \<and> cst g t k x = I \<or> mr_type req = GETX \<and> \<not> is_EM (cst g t k x)" using ty t(11) by simp
  from parent_serve_get [OF t(2-5) rt at q(5) refl q(3) req(2) ty' cyc(2), of f] obtain u r where
    u: "h_processAccess ?acc ?inv t ?p req (Some lp) ?cyc = Some (u, r)" "base_ok g u" "entries_ok g u" "directory_ok g u" "filter_ok g K u"
      "static u = static t" "arr u = arr t" "held u = held t" "mr_type req = GETS \<longrightarrow> cst g u k x = S \<or> cst g u k x = E"
      "mr_type req = GETX \<longrightarrow> cst g u k x = M" "unat ?cyc \<le> unat r" "unat r \<le> unat ?cyc + 2 ^ 34" by blast
  have "take_record t (mr_srcId req) = Some (t, None)"
    using take_record_none [of t "mr_srcId req"] t(2) q(9) static_eqD(18) [OF t(6)] by (simp add: base_ok_def)
  then have serve: "cache_serve vt ?acc ?inv s1 ?p req (g_where g ?p (arr s ?p) x) ?cyc = Some (u, r)"
    using t(1) u(1) by (simp add: cache_serve_def)
  have hu: "held u = {TccLock ?p, BccLock ?p}" using u(8) t(7) p1(6) by simp
  let ?v = "u\<lparr>held := {BccLock k}\<rparr>"
  have le: "mr_cycle req \<le> r" using u(11) cyc(3) by (simp add: word_le_nat_alt)
  have fin: "obj_access vt (Suc (Suc f)) s ?p req = Some (?v, r)"
    using wired_parentD(1) [OF base] serve parent_endAccess [OF u(2) hu q(4,1)] le
    unfolding obj_access.simps(2) [of vt "Suc f"] by (simp add: eq s1_def [symmetric])
  have cv: "cst g ?v = cst g u" "ent g ?v = ent g u" by (rule cst_cong, simp_all, rule ent_cong, simp_all)
  have "base_ok g ?v" by (rule base_ok_cong [OF u(2)]) simp_all
  moreover have "entries_ok g ?v" using u(3) by (simp add: entries_ok_def)
  moreover have "directory_ok g ?v" by (rule directory_ok_cong [OF u(4) cv])
  moreover have "filter_ok g K ?v" using u(5) filter_ok_cong [of ?v u] cv by simp
  moreover have "\<forall>c \<in> members g. g_ainv g c (arr ?v c)" using ai t(8,9) u(7) by (auto simp: members_def)
  ultimately show ?thesis using fin u(6,7,9-12) t(6,8) held cv cyc(3,4) by (intro exI [of _ ?v] exI [of _ r]) auto
qed

lemma parent_access_put:
  assumes base: "base_ok g s" and en: "entries_ok g s" and D: "directory_ok g s" and F: "filter_ok g K s"
    and aip: "g_ainv g (g_parent g) (arr s (g_parent g))" and held: "held s = {BccLock k}"
    and req: "from_kid s k l x req" "mr_flags req = 0" and K: "(k, f_index (h_filter s k) x) \<in> K"
    and ty: "cst g s k x \<noteq> I" "mr_type req = (if cst g s k x = M then PUTX else PUTS)"
  shows "\<exists>t r. obj_access vt (Suc (Suc f)) s (g_parent g) req = Some (t, r) \<and>
    base_ok g t \<and> entries_ok g t \<and> directory_ok g t \<and> filter_ok g K t \<and> static t = static s \<and> held t = held s \<and>
    g_ainv g (g_parent g) (arr t (g_parent g)) \<and> (\<forall>c. c \<noteq> g_parent g \<longrightarrow> arr t c = arr s c) \<and>
    barr t k = (barr s k)[l := I] \<and> (\<forall>j \<in> set (g_kids g). cst g t j = (if j = k then (cst g s k)(x := I) else cst g s j))"
proof -
  let ?p = "g_parent g" let ?acc = "obj_access vt (Suc f)" let ?inv = "obj_inval vt (Suc f)"
  let ?cyc = "mr_cycle req + ucast (c_accLat (h_cache s ?p))"
  have q: "k \<in> set (g_kids g)" "x \<noteq> 0" "mr_state req = BccSlot k l" "mr_childLock req = Some (BccLock k)" "mr_lineAddr req = x"
    "g_where g k (arr s k) x = Some l" "g_kids g ! mr_childId req = k" "mr_childId req < length (g_kids g)"
    "aget (h_recs s) (unat (mr_srcId req)) \<noteq> None" "unat (mr_cycle req) + 2 ^ 35 \<le> 2 ^ 64"
    using req(1) by (simp_all add: from_kid_def)
  have le: "mr_cycle req \<le> ?cyc" using unat_add32 [of "mr_cycle req"] q(10) by (simp add: word_le_nat_alt)
  obtain a where a: "g_ainv g ?p a" "g_where g ?p a = g_where g ?p (arr s ?p)" "g_size g ?p a = g_size g ?p (arr s ?p)"
    and eq: "\<And>accf invf. cache_access vt accf invf s ?p req = do {
        (s, r) \<leftarrow> cache_serve vt accf invf (count_request (mr_type req) (upd_array ?p a (s\<lparr>held := {TccLock ?p, BccLock ?p}\<rparr>)))
          ?p req (g_where g ?p (arr s ?p) x) ?cyc;
        s \<leftarrow> h_endAccess s ?p req;
        assert_that (r \<ge> mr_cycle req);
        Some (s, r) }"
    using parent_access_eq [OF base held req(1) aip] by blast
  define s1 where "s1 = count_request (mr_type req) (upd_array ?p a (s\<lparr>held := {TccLock ?p, BccLock ?p}\<rparr>))"
  have p1: "arr s1 = (arr s)(?p := a)" "static s1 = static s" "barr s1 = barr s" "earr s1 = earr s" "farr s1 = farr s"
    "held s1 = {TccLock ?p, BccLock ?p}" by (simp_all add: s1_def)
  note C = array_change [OF base parent_member p1(1) a(2,3) p1(2-5)]
  have en1: "entries_ok g s1" using en p1(4) by (simp add: entries_ok_def)
  have D1: "directory_ok g s1" by (rule directory_ok_cong [OF D C(2,3)])
  have F1: "filter_ok g K s1" using F filter_ok_cong [OF p1(2,5)] C(2) by simp
  have "ent g s x \<noteq> None" using directory_ok_at [OF D q(2)] q(1) ty(1) by (auto simp: dir_ok_def split: option.splits)
  then obtain lp where lp: "g_where g ?p (arr s ?p) x = Some lp" by (auto simp: ent_def)
  have at: "at_line s1 k (mr_childId req) l x lp"
    using q lp p1(1) a(2) kid_neq_parent [OF q(1)] by (auto simp: at_line_def)
  note A = at_lineD [OF at C(1) en1 D1]
  have K1: "(k, f_index (h_filter s1 k) x) \<in> K" using K static_eqD(21) [OF p1(2)] by simp
  have "cst g s1 k x \<noteq> I" "mr_type req = (if cst g s1 k x = M then PUTX else PUTS)" using ty C(2) by simp_all
  from parent_put [OF C(1) en1 D1 F1 at K1 this, of ?acc ?cyc "mr_srcId req" ?inv] obtain u where
    u: "do {
     (s, r) \<leftarrow> bcc_processAccess ?acc s1 ?p x lp (mr_type req) ?cyc (mr_srcId req) 0;
     excl \<leftarrow> bcc_isExclusive s ?p lp;
     (s, r', llw) \<leftarrow> tcc_processAccess ?inv s ?p x lp (mr_type req) (mr_childId req) excl (BccSlot k l) False r (mr_srcId req) 0;
     s \<leftarrow> (if llw then bcc_processWritebackOnAccess s ?p lp else Some s);
     Some (s, r') } = Some (u, ?cyc)"
    "base_ok g u" "entries_ok g u" "directory_ok g u" "filter_ok g K u" "static u = static s1" "arr u = arr s1" "held u = held s1"
    "barr u k = (barr s1 k)[l := I]" "\<forall>j \<in> set (g_kids g). cst g u j = (if j = k then (cst g s1 k)(x := I) else cst g s1 j)" by blast
  have "barr s1 ?p ! lp \<noteq> I" using A(3,13,15) ty(1) C(2) by (auto simp: dir_ok_def)
  then have "h_processAccess ?acc ?inv s1 ?p req (Some lp) ?cyc = Some (u, ?cyc)"
    using u(1) parent_processAccess_eq [OF C(1) _ _ A(8), of req ?acc ?inv ?cyc] q(3,5) req(2) by (simp add: has_flag_def)
  moreover have "take_record s1 (mr_srcId req) = Some (s1, None)"
    using take_record_none [of s1 "mr_srcId req"] C(1) q(9) static_eqD(18) [OF p1(2)] by (simp add: base_ok_def)
  ultimately have serve: "cache_serve vt ?acc ?inv s1 ?p req (g_where g ?p (arr s ?p) x) ?cyc = Some (u, ?cyc)"
    by (simp add: cache_serve_def cache_line_def lp)
  have hu: "held u = {TccLock ?p, BccLock ?p}" using u(8) p1(6) by simp
  let ?v = "u\<lparr>held := {BccLock k}\<rparr>"
  have fin: "obj_access vt (Suc (Suc f)) s ?p req = Some (?v, ?cyc)"
    using wired_parentD(1) [OF base] serve parent_endAccess [OF u(2) hu q(4,1)] le
    unfolding obj_access.simps(2) [of vt "Suc f"] by (simp add: eq s1_def [symmetric])
  have cv: "cst g ?v = cst g u" "ent g ?v = ent g u" by (rule cst_cong, simp_all, rule ent_cong, simp_all)
  have "base_ok g ?v" by (rule base_ok_cong [OF u(2)]) simp_all
  moreover have "entries_ok g ?v" using u(3) by (simp add: entries_ok_def)
  moreover have "directory_ok g ?v" by (rule directory_ok_cong [OF u(4) cv])
  moreover have "filter_ok g K ?v" using u(5) filter_ok_cong [of ?v u] cv by simp
  ultimately show ?thesis using fin u(6,7,9,10) p1 a(1) C(2) held cv by (intro exI [of _ ?v] exI [of _ ?cyc]) auto
qed

end

end
