(* ===== verification/HierCore.thy ===== *)
theory HierCore
  imports HierParent
begin

text \<open>
  The cores of the hierarchy: the terminal caches, the filters in front of them, and the operations of a core. Every
  operation returns, keeps the invariant, and releases the locks it takes.
\<close>

section \<open>Operations of a core\<close>

text \<open>
  An operation uses no address of line 0, which the filters cannot tell from an empty entry. With the next-line
  prefetcher, the line after the one loaded must not be line 0 either, and the cycles at which the lines in the
  filter become available leave room for the latency of an access.
\<close>

definition avail_le :: "'a hier \<Rightarrow> nat \<Rightarrow> nat \<Rightarrow> bool" where
  "avail_le s k n \<longleftrightarrow> (\<forall>e \<in> set (farr s k). unat (fe_availCycle e) \<le> n)"

definition op_ok :: "'a hier \<Rightarrow> nat \<Rightarrow> core_op \<Rightarrow> bool" where
  "op_ok s k oper = (case oper of
       CoreLoad a \<Rightarrow> drop_bit (h_lineBits s) a \<noteq> 0 \<and>
         (f_isPrefetcher (h_filter s k) \<longrightarrow>
            drop_bit (h_lineBits s) (push_bit (h_lineBits s) (drop_bit (h_lineBits s) a + 1)) \<noteq> 0 \<and> avail_le s k (2 ^ 64 - 2 ^ 37))
     | CoreStore a \<Rightarrow> drop_bit (h_lineBits s) a \<noteq> 0
     | CoreSwitch \<Rightarrow> True)"

text \<open>What an operation has obtained when it returns: a readable line, or a modified one, and a filter entry that says so.\<close>

definition reads :: "'a hier \<Rightarrow> nat \<Rightarrow> Address \<Rightarrow> bool" where
  "reads s k v \<longleftrightarrow> fe_rdAddr (farr s k ! f_index (h_filter s k) v) = v"

definition writes :: "'a hier \<Rightarrow> nat \<Rightarrow> Address \<Rightarrow> bool" where
  "writes s k v \<longleftrightarrow> fe_wrAddr (farr s k ! f_index (h_filter s k) v) = v"

definition loaded :: "'a shape \<Rightarrow> 'a hier \<Rightarrow> nat \<Rightarrow> Address \<Rightarrow> bool" where
  "loaded g s k v \<longleftrightarrow> cst g s k (h_procMask s OR v) \<noteq> I \<and> reads s k v"

text \<open>
  The last line a load obtains: its own, or, with the prefetcher, the one after it. The prefetch runs after the load
  itself and may evict the line that the load brought in.
\<close>

definition last_line :: "'a hier \<Rightarrow> nat \<Rightarrow> Address \<Rightarrow> Address" where
  "last_line s k a = (let v = drop_bit (h_lineBits s) a in
     if f_isPrefetcher (h_filter s k) then drop_bit (h_lineBits s) (push_bit (h_lineBits s) (v + 1)) else v)"

definition op_done :: "'a shape \<Rightarrow> 'a hier \<Rightarrow> nat \<Rightarrow> core_op \<Rightarrow> bool" where
  "op_done g s k oper = (case oper of
       CoreLoad a \<Rightarrow> loaded g s k (last_line s k a)
     | CoreStore a \<Rightarrow> cst g s k (h_procMask s OR drop_bit (h_lineBits s) a) = M \<and> writes s k (drop_bit (h_lineBits s) a)
     | CoreSwitch \<Rightarrow> \<forall>e \<in> set (farr s k). e = filter_entry_clear)"

text \<open>A sequence of operations of the cores, each with the cycle it starts at.\<close>

fun core_run :: "(nat \<Rightarrow> 'a array_vt) \<Rightarrow> nat \<Rightarrow> 'a hier \<Rightarrow> (nat \<times> core_op \<times> u64) list \<Rightarrow> 'a hier option" where
  "core_run vt fuel s [] = Some s"
| "core_run vt fuel s ((c, oper, cycle) # ops) = do {
     (s, _) \<leftarrow> core_step vt fuel s c oper cycle;
     core_run vt fuel s ops }"

context two_level
begin

section \<open>A child's requests\<close>

lemma kid_getParentId: "base_ok g s \<Longrightarrow> k \<in> set (g_kids g) \<Longrightarrow> getParentId (bcc_of s k) x = Some 0"
  using wired_kidD(4) [of s k] by (simp add: getParentId_def)

lemma kid_request:
  assumes base: "base_ok g s" and k: "k \<in> set (g_kids g)" and w: "g_where g k (arr s k) x = Some l" "x \<noteq> 0"
    and src: "aget (h_recs s) (unat src) \<noteq> None" and cyc: "unat cyc + 2 ^ 35 \<le> 2 ^ 64"
  shows "from_kid s k l x (bcc_req s k x type (BccSlot k l) cyc (barr s k ! l) src flags)"
  using assms wired_kidD(6,7) [OF base k] by (simp add: from_kid_def bcc_req_def)

lemma kid_evict:
  assumes base: "base_ok g s" and en: "entries_ok g s" and D: "directory_ok g s" and F: "filter_ok g K s" and k: "k \<in> set (g_kids g)"
    and aip: "g_ainv g (g_parent g) (arr s (g_parent g))" and held: "held s = {BccLock k}"
    and l: "l < length (barr s k)" and vict: "\<forall>y. g_where g k (arr s k) y = Some l \<longleftrightarrow> y = wba \<and> wba \<noteq> 0"
    and K: "wba \<noteq> 0 \<Longrightarrow> (k, f_index (h_filter s k) wba) \<in> K"
    and src: "aget (h_recs s) (unat (mr_srcId req)) \<noteq> None" and cyc: "unat cyc + 2 ^ 35 \<le> 2 ^ 64"
  shows "\<exists>t r d. h_processEviction (obj_access vt (Suc (Suc f))) invf s k req wba l cyc dg = Some (t, r, d) \<and>
    base_ok g t \<and> entries_ok g t \<and> directory_ok g t \<and> filter_ok g K t \<and> static t = static s \<and> held t = held s \<and>
    g_ainv g (g_parent g) (arr t (g_parent g)) \<and> (\<forall>c. c \<noteq> g_parent g \<longrightarrow> arr t c = arr s c) \<and> barr t k ! l = I"
proof -
  let ?p = "g_parent g" let ?acc = "obj_access vt (Suc (Suc f))"
  note W = wired_kidD [OF base k]
  show ?thesis
  proof (cases "barr s k ! l = I")
    case True
    then have "h_processEviction ?acc invf s k req wba l cyc dg = Some (s, cyc, dg)"
      using W(2) l by (simp add: h_processEviction_def termcc_processEviction_def bcc_processEviction_def)
    then show ?thesis using assms True by blast
  next
    case False
    have "\<exists>y. g_where g k (arr s k) y = Some l" using sizedD(9) [OF base kid_member [OF k]] l False by (auto simp: free_ok_def)
    then have w: "g_where g k (arr s k) wba = Some l" "wba \<noteq> 0" using vict by blast+
    have c: "cst g s k wba = barr s k ! l" by (rule cst_where [OF w(1)])
    let ?ty = "if barr s k ! l = M then PUTX else PUTS"
    let ?req = "bcc_req s k wba ?ty (BccSlot k l) cyc (barr s k ! l) (mr_srcId req) 0"
    note fk = kid_request [OF base k w src cyc, of ?ty 0]
    have "cst g s k wba \<noteq> I" "mr_type ?req = (if cst g s k wba = M then PUTX else PUTS)" "mr_flags ?req = 0"
      using False c by (simp_all add: bcc_req_def)
    from parent_access_put [OF base en D F aip held fk this(3) K [OF w(2)] this(1,2), of f] obtain t r where
      t: "?acc s ?p ?req = Some (t, r)" "base_ok g t" "entries_ok g t" "directory_ok g t" "filter_ok g K t" "static t = static s" "held t = held s"
        "g_ainv g ?p (arr t ?p)" "\<forall>c. c \<noteq> ?p \<longrightarrow> arr t c = arr s c" "barr t k = (barr s k)[l := I]" by blast
    have "\<exists>d. h_processEviction ?acc invf s k req wba l cyc dg = Some (t, r, d)"
      using W(2,4) l t(1,10) kid_getParentId [OF base k] False
      by (cases "barr s k ! l") (auto simp: h_processEviction_def termcc_processEviction_def bcc_processEviction_def)
    then show ?thesis using t l by auto
  qed
qed

text \<open>Reusing the line.\<close>

lemma kid_remap:
  assumes base: "base_ok g t" and en: "entries_ok g t" and D: "directory_ok g t" and F: "filter_ok g K t" and k: "k \<in> set (g_kids g)"
    and x: "x \<noteq> 0" "g_where g k (arr t k) x = None" and l: "l < length (barr t k)" and free: "barr t k ! l = I"
    and t': "arr t' = (arr t)(k := a)" "barr t' = barr t" "earr t' = earr t" "static t' = static t" "farr t' = farr t"
    and a: "g_size g k a = g_size g k (arr t k)"
      "g_where g k a = (\<lambda>y. if y = x then Some l else if g_where g k (arr t k) y = Some l then None else g_where g k (arr t k) y)"
  shows "base_ok g t'" "entries_ok g t'" "directory_ok g t'" "filter_ok g K t'" "cst g t' = cst g t"
proof -
  note Z = sizedD [OF base kid_member [OF k]]
  have c: "cst g t' k y = cst g t k y" for y
    using x(2) free t'(2)
    by (cases "y = x"; cases "g_where g k (arr t k) y = Some l") (simp_all add: cst_def t'(1) a(2) cong: option.case_cong)
  show cst: "cst g t' = cst g t"
  proof (intro ext)
    fix d y show "cst g t' d y = cst g t d y" by (cases "d = k") (simp add: c, simp add: cst_def t'(1,2) cong: option.case_cong)
  qed
  have ent: "ent g t' = ent g t" using kid_neq_parent [OF k] by (intro ext) (simp add: ent_def t'(1,3))
  have sk: "sized g t' k"
    using Z(1-5,7,8) l x kid_neq_parent [OF k] by (auto simp: sized_def t' a static_eqD [OF t'(4)] split: if_splits)
  have fk: "free_ok g t' k"
    unfolding free_ok_def
  proof (intro allI impI)
    fix m assume m: "m < length (barr t' k)" "\<forall>y. g_where g k (arr t' k) y \<noteq> Some m"
    then have "m \<noteq> l" using m(2) [rule_format, of x] by (simp add: t'(1) a(2))
    then have "\<forall>y. g_where g k (arr t k) y \<noteq> Some m" using m(2) x(2) unfolding t'(1) a(2) fun_upd_same
      by (metis option.distinct(1) option.inject)
    then show "barr t' k ! m = I \<and> (k = g_parent g \<longrightarrow> numSharers (earr t' k ! m) = 0)"
      using Z(9) m(1) kid_neq_parent [OF k] by (simp add: free_ok_def t'(2))
  qed
  have "sized g t' c \<and> free_ok g t' c" if "c \<in> members g" for c
  proof (cases "c = k")
    case False
    then have "sized g t' c = sized g t c" "free_ok g t' c = free_ok g t c"
      by (simp_all add: sized_def free_ok_def t' static_eqD [OF t'(4)])
    then show ?thesis using base that by (simp add: base_ok_def)
  qed (use sk fk in simp)
  then show "base_ok g t'" using base by (simp add: base_ok_def wired_static [OF t'(4)])
  show "entries_ok g t'" using en by (simp add: entries_ok_def t'(3))
  show "filter_ok g K t'" using F filter_ok_cong [OF t'(4,5)] cst by simp
  show "directory_ok g t'" by (rule directory_ok_cong [OF D cst ent])
qed

lemma kid_allocate:
  assumes base: "base_ok g s" and en: "entries_ok g s" and D: "directory_ok g s" and F: "filter_ok g K s" and k: "k \<in> set (g_kids g)"
    and ai: "\<forall>c \<in> members g. g_ainv g c (arr s c)" and held: "held s = {BccLock k}"
    and x: "mr_lineAddr req = x" "x \<noteq> 0" and miss: "g_where g k (arr s k) x = None" and get: "IsGet (mr_type req)"
    and K: "(k, f_index (h_filter s k) x) \<in> K"
    and src: "aget (h_recs s) (unat (mr_srcId req)) \<noteq> None" and cyc: "unat cyc + 2 ^ 35 \<le> 2 ^ 64"
  shows "\<exists>t l. cache_allocate vt (obj_access vt (Suc (Suc f))) invf s k req cyc = Some (t, l) \<and>
    base_ok g t \<and> entries_ok g t \<and> directory_ok g t \<and> filter_ok g K t \<and> static t = static s \<and> held t = held s \<and>
    (\<forall>c \<in> members g. g_ainv g c (arr t c)) \<and> g_where g k (arr t k) x = Some l \<and> cst g t k x = I"
proof -
  let ?p = "g_parent g" let ?acc = "obj_access vt (Suc (Suc f))"
  note W = wired_kidD [OF base k] and st = kid_store [OF k]
  have aik: "g_ainv g k (arr s k)" using ai k by simp
  obtain a1 l wba where a1: "av_preinsert (vt k) (cc_view_of s k) (arr s k) x req = Some (a1, l, wba)"
      "g_pend g k a1 x l" "l < g_size g k (arr s k)" "g_size g k a1 = g_size g k (arr s k)" "g_where g k a1 = g_where g k (arr s k)"
      "\<forall>y. g_where g k (arr s k) y = Some l \<longleftrightarrow> y = wba \<and> wba \<noteq> 0"
    using line_store.ls_preinsert [OF st aik x(2) miss, of "cc_view_of s k" req] by blast
  let ?s1 = "upd_array k a1 s"
  have pre: "h_preinsert vt s k req = Some (?s1, l, wba)" using a1(1) W(3) x(1) by (simp add: h_preinsert_def proj_folds)
  have eq1: "arr ?s1 = (arr s)(k := a1)" "static ?s1 = static s" "barr ?s1 = barr s" "earr ?s1 = earr s" "farr ?s1 = farr s" by simp_all
  note C = array_change [OF base kid_member [OF k] eq1(1) a1(5,4) eq1(2-5)]
  have en1: "entries_ok g ?s1" using en by (simp add: entries_ok_def)
  have D1: "directory_ok g ?s1" by (rule directory_ok_cong [OF D C(2,3)])
  have F1: "filter_ok g K ?s1" using F filter_ok_cong [OF eq1(2,5)] C(2) by simp
  have aip: "g_ainv g ?p (arr ?s1 ?p)" using ai kid_neq_parent [OF k] by simp
  have h1: "held ?s1 = {BccLock k}" using held by simp
  have l1: "l < length (barr ?s1 k)" using a1(3) sizedD(4) [OF base kid_member [OF k]] by simp
  have vict: "\<forall>y. g_where g k (arr ?s1 k) y = Some l \<longleftrightarrow> y = wba \<and> wba \<noteq> 0" using a1(5,6) by simp
  have K1: "(k, f_index (h_filter ?s1 k) wba) \<in> K" if "wba \<noteq> 0"
    using kid_set [OF k aik a1(1) that] K W(9) by (simp add: static_eqD(21) [OF eq1(2)] f_index_def)
  have src1: "aget (h_recs ?s1) (unat (mr_srcId req)) \<noteq> None" using src static_eqD(18) [OF eq1(2)] by simp
  from kid_evict [OF C(1) en1 D1 F1 k aip h1 l1 vict K1 src1 cyc, of f invf False] obtain s2 r d where
    s2: "h_processEviction ?acc invf ?s1 k req wba l cyc False = Some (s2, r, d)"
      "base_ok g s2" "entries_ok g s2" "directory_ok g s2" "filter_ok g K s2" "static s2 = static ?s1" "held s2 = held ?s1"
      "g_ainv g ?p (arr s2 ?p)" "\<forall>c. c \<noteq> ?p \<longrightarrow> arr s2 c = arr ?s1 c" "barr s2 k ! l = I" by blast
  have arr2: "arr s2 k = a1" using s2(9) kid_neq_parent [OF k] by simp
  have ln: "l < numLines" using a1(3) sizedD(5) [OF base kid_member [OF k]] by simp
  obtain a2 w2 where a2: "av_postinsert (vt k) a1 (h_world s2) x req l = Some (a2, w2)" "g_ainv g k a2" "g_size g k a2 = g_size g k a1"
      "g_where g k a2 = (\<lambda>y. if y = x then Some l else if g_where g k a1 y = Some l then None else g_where g k a1 y)"
    using line_store.ls_postinsert [OF st a1(2) x(2) get ln, of "h_world s2"] by blast
  let ?t = "(upd_array k a2 s2)\<lparr>h_world := w2\<rparr>"
  have post: "h_postinsert vt s2 k req l = Some ?t"
    using a2(1) wired_kidD(3) [OF s2(2) k] x(1) arr2 by (simp add: h_postinsert_def proj_folds)
  have eqt: "arr ?t = (arr s2)(k := a2)" "barr ?t = barr s2" "earr ?t = earr s2" "static ?t = static s2" "farr ?t = farr s2" by simp_all
  have m2: "g_where g k (arr s2 k) x = None" "l < length (barr s2 k)"
    using miss a1(3-5) arr2 sizedD(4) [OF s2(2) kid_member [OF k]] by simp_all
  have sz: "g_size g k a2 = g_size g k (arr s2 k)"
    "g_where g k a2 = (\<lambda>y. if y = x then Some l else if g_where g k (arr s2 k) y = Some l then None else g_where g k (arr s2 k) y)"
    using a2(3,4) unfolding arr2 by simp_all
  note R = kid_remap [OF s2(2-5) k x(2) m2 s2(10) eqt sz]
  have "cache_allocate vt ?acc invf s k req cyc = Some (?t, l)" using pre s2(1) post by (simp add: cache_allocate_def)
  moreover have "cst g ?t k x = I" using R(5) m2(1) by (simp add: cst_def)
  moreover have "g_where g k (arr ?t k) x = Some l" using a2(4) by simp
  moreover have "\<forall>c \<in> members g. g_ainv g c (arr ?t c)" using ai a2(2) s2(8,9) by (auto simp: members_def)
  ultimately show ?thesis using R(1-4) s2(6,7) by (intro exI [of _ ?t] exI [of _ l]) simp
qed

section \<open>A child's access\<close>

definition core_ok :: "(nat \<times> nat) set \<Rightarrow> 'a hier \<Rightarrow> bool" where
  "core_ok K s \<longleftrightarrow> base_ok g s \<and> entries_ok g s \<and> directory_ok g s \<and> filter_ok g K s \<and> (\<forall>c \<in> members g. g_ainv g c (arr s c))"

lemma core_okD:
  assumes "core_ok K s"
  shows "base_ok g s" "entries_ok g s" "directory_ok g s" "filter_ok g K s" "\<forall>c \<in> members g. g_ainv g c (arr s c)"
  using assms by (simp_all add: core_ok_def)

lemma core_ok_cong:
  assumes ok: "core_ok K s" and same: "static s' = static s" "arr s' = arr s" "farr s' = farr s" "barr s' = barr s" "earr s' = earr s"
  shows "core_ok K s'"
proof -
  have c: "cst g s' = cst g s" "ent g s' = ent g s" by (rule cst_cong [OF same(2,4)], rule ent_cong [OF same(2,5)])
  have "base_ok g s'" by (rule base_ok_cong [OF core_okD(1) [OF ok] same])
  moreover have "directory_ok g s'" by (rule directory_ok_cong [OF core_okD(3) [OF ok] c])
  moreover have "filter_ok g K s'" using core_okD(4) [OF ok] filter_ok_cong [OF same(1,3)] c by simp
  ultimately show ?thesis using core_okD(2,5) [OF ok] same by (simp add: core_ok_def entries_ok_def)
qed

lemma core_ok_prof: "core_ok K s \<Longrightarrow> is_prof p \<Longrightarrow> core_ok K (upd_bcc c p s)"
  by (erule core_ok_cong) simp_all

text \<open>A line held exclusively is written without asking the parent.\<close>

lemma kid_own:
  assumes ok: "core_ok K s" and k: "k \<in> set (g_kids g)" and w: "g_where g k (arr s k) x = Some l" and e: "cst g s k x = E"
  shows "core_ok K (st_upd k l M s)" "cst g (st_upd k l M s) = (cst g s)(k := (cst g s k)(x := M))"
proof -
  note O = core_okD [OF ok]
  let ?t = "st_upd k l M s"
  show c: "cst g ?t = (cst g s)(k := (cst g s k)(x := M))" by (rule cst_mapped [OF O(1) kid_member [OF k] w]) simp_all
  have en: "ent g ?t = ent g s" by (rule ent_cong) simp_all
  have "base_ok g ?t" by (rule base_ok_mapped [OF O(1) _ _ _ _ kid_member [OF k] w]) simp_all
  moreover have "filter_ok g K ?t" by (rule filter_ok_raise [OF O(4) _ _ c]) (simp_all add: e)
  moreover have "directory_ok g ?t"
  proof (rule directory_ok_upd [OF O(3), where x = x])
    show "dir_ok (g_kids g) (\<lambda>j. cst g ?t j x) (cst g ?t (g_parent g) x) (ent g ?t x)" if "x \<noteq> 0"
    proof -
      have "(\<lambda>j. cst g ?t j x = I) = (\<lambda>j. cst g s j x = I)" "(\<lambda>j. is_EM (cst g ?t j x)) = (\<lambda>j. is_EM (cst g s j x))"
        using e c by (auto simp: fun_eq_iff is_EM_def)
      then have "dir_ok (g_kids g) (\<lambda>j. cst g ?t j x) q eo = dir_ok (g_kids g) (\<lambda>j. cst g s j x) q eo" for q eo
        unfolding dir_ok_def fun_eq_iff by (cases eo) simp_all
      then show ?thesis using directory_ok_at [OF O(3) that] en c kid_neq_parent [OF k] by simp
    qed
  qed (use c en in auto)
  ultimately show "core_ok K ?t" using O(2,5) by (simp add: core_ok_def entries_ok_def)
qed

lemma kid_ask:
  assumes ok: "core_ok K s" and k: "k \<in> set (g_kids g)" and held: "held s = {BccLock k}" and w: "g_where g k (arr s k) x = Some l" "x \<noteq> 0"
    and ty: "type = GETS \<and> cst g s k x = I \<or> type = GETX \<and> \<not> is_EM (cst g s k x)" and fl: "\<not> has_flag flags PREFETCH"
    and src: "aget (h_recs s) (unat src) \<noteq> None" and cyc: "unat cyc + 2 ^ 35 \<le> 2 ^ 64"
  shows "\<exists>t r. bcc_askParent (obj_access vt (Suc (Suc f))) s k x l type cyc (barr s k ! l) src flags = Some (t, r) \<and>
    core_ok K t \<and> static t = static s \<and> held t = held s \<and> arr t k = arr s k \<and>
    (type = GETS \<longrightarrow> cst g t k x = S \<or> cst g t k x = E) \<and> (type = GETX \<longrightarrow> cst g t k x = M) \<and>
    unat cyc \<le> unat r \<and> unat r \<le> unat cyc + 2 ^ 32"
proof -
  note O = core_okD [OF ok] and W = wired_kidD [OF core_okD(1) [OF ok] k]
  let ?req = "bcc_req s k x type (BccSlot k l) cyc (barr s k ! l) src flags"
  have q: "\<not> has_flag (mr_flags ?req) PREFETCH"
    "mr_type ?req = GETS \<and> cst g s k x = I \<or> mr_type ?req = GETX \<and> \<not> is_EM (cst g s k x)" using fl ty by (simp_all add: bcc_req_def)
  from parent_access_get [OF O held kid_request [OF O(1) k w src cyc] q, of f] obtain t r where
    t: "obj_access vt (Suc (Suc f)) s (g_parent g) ?req = Some (t, r)" "core_ok K t" "static t = static s" "held t = held s"
      "\<forall>c. c \<noteq> g_parent g \<longrightarrow> arr t c = arr s c" "type = GETS \<longrightarrow> cst g t k x = S \<or> cst g t k x = E" "type = GETX \<longrightarrow> cst g t k x = M"
    by (auto simp: core_ok_def bcc_req_def)
  obtain rtt where rtt: "bcc_parentRTTs (bcc_of t k) = [rtt]"
    using wired_kidD(5) [OF core_okD(1) [OF t(2)] k] by (metis One_nat_def length_0_conv length_Suc_conv)
  let ?lat = "ucast (r - cyc) :: u32"
  let ?t = "upd_bcc k (\<lambda>b. b\<lparr>profGETNextLevelLat := profGETNextLevelLat b + ucast ?lat, profGETNetLat := profGETNetLat b + ucast rtt\<rparr>) t"
  have "bcc_askParent (obj_access vt (Suc (Suc f))) s k x l type cyc (barr s k ! l) src flags = Some (?t, cyc + ucast (?lat + rtt))"
    using kid_getParentId [OF O(1) k] W(4) t(1) rtt by (simp add: bcc_askParent_def Let_def)
  moreover have "core_ok K ?t" by (rule core_ok_prof [OF t(2)]) simp
  moreover have "cst g ?t = cst g t" by (rule cst_cong) simp_all
  moreover have "unat cyc + 2 ^ 32 \<le> 2 ^ 64" using cyc by simp
  note unat_add32 [OF this, of "?lat + rtt"] unat32_lt [of "?lat + rtt"]
  ultimately show ?thesis using t(3-7) kid_neq_parent [OF k]
    by (intro exI [of _ ?t] exI [of _ "cyc + ucast (?lat + rtt)"]) simp
qed

text \<open>The state a request ends in.\<close>

definition served :: "AccessType \<Rightarrow> MESIState \<Rightarrow> bool" where
  "served type st \<longleftrightarrow> st \<noteq> I \<and> (type = GETX \<longrightarrow> st = M)"

lemma kid_processAccess:
  assumes ok: "core_ok K s" and k: "k \<in> set (g_kids g)" and held: "held s = {BccLock k}" and w: "g_where g k (arr s k) x = Some l" "x \<noteq> 0"
    and req: "mr_lineAddr req = x" "IsGet (mr_type req)" "\<not> has_flag (mr_flags req) PREFETCH" "aget (h_recs s) (unat (mr_srcId req)) \<noteq> None"
    and cyc: "unat cyc + 2 ^ 35 \<le> 2 ^ 64"
  shows "\<exists>t r. h_processAccess (obj_access vt (Suc (Suc f))) invf s k req (Some l) cyc = Some (t, r) \<and>
    core_ok K t \<and> static t = static s \<and> held t = held s \<and> served (mr_type req) (cst g t k x) \<and>
    unat cyc \<le> unat r \<and> unat r \<le> unat cyc + 2 ^ 32"
proof -
  let ?acc = "obj_access vt (Suc (Suc f))"
  note O = core_okD [OF ok] and W = wired_kidD [OF core_okD(1) [OF ok] k]
  have l: "l < length (barr s k)" using sizedD(2) [OF O(1) kid_member [OF k] w(1)] .
  have c: "cst g s k x = barr s k ! l" by (rule cst_where [OF w(1)])
  have eq: "h_processAccess ?acc invf s k req (Some l) cyc = bcc_processAccess ?acc s k x l (mr_type req) cyc (mr_srcId req) (mr_flags req)"
    using W(2) req(1) by (simp add: h_processAccess_def termcc_processAccess_def)
  have line: "l < length (barr t k) \<and> barr t k ! l = cst g t k x" if "core_ok K t" "arr t k = arr s k" for t
    using sizedD(2) [OF core_okD(1) [OF that(1)] kid_member [OF k], of x l] cst_where [of g k t x l] w(1) that(2) by simp
  consider (ms) "mr_type req = GETS" "cst g s k x = I" | (hs) "mr_type req = GETS" "cst g s k x \<noteq> I"
    | (mx) "mr_type req = GETX" "\<not> is_EM (cst g s k x)" | (up) "mr_type req = GETX" "cst g s k x = E" | (hx) "mr_type req = GETX" "cst g s k x = M"
    using req(2) by (auto simp: IsGet_def is_EM_def)
  then show ?thesis
  proof cases
    case ms
    then have ty: "GETS = GETS \<and> cst g s k x = I \<or> GETS = GETX \<and> \<not> is_EM (cst g s k x)" by simp
    from kid_ask [OF ok k held w ty req(3,4) cyc, of f] obtain t r where
      t: "bcc_askParent ?acc s k x l GETS cyc (barr s k ! l) (mr_srcId req) (mr_flags req) = Some (t, r)" "core_ok K t"
        "static t = static s" "held t = held s" "arr t k = arr s k" "cst g t k x = S \<or> cst g t k x = E" "unat cyc \<le> unat r" "unat r \<le> unat cyc + 2 ^ 32"
      by auto
    let ?t = "upd_bcc k (\<lambda>b. b\<lparr>profGETSMiss := profGETSMiss b + 1\<rparr>) t"
    have cu: "cst g ?t = cst g t" by (rule cst_cong) simp_all
    have "h_processAccess ?acc invf s k req (Some l) cyc = Some (?t, r)"
      unfolding eq using ms l c t(1,6,7) line [OF t(2,5)] by (auto simp: bcc_processAccess_def Let_def word_le_nat_alt)
    then show ?thesis using t cu core_ok_prof [OF t(2)] ms(1) by (intro exI [of _ ?t] exI [of _ r]) (auto simp: served_def)
  next
    case hs
    let ?t = "upd_bcc k (\<lambda>b. b\<lparr>profGETSHit := profGETSHit b + 1\<rparr>) s"
    have "h_processAccess ?acc invf s k req (Some l) cyc = Some (?t, cyc)" unfolding eq using hs l c by (simp add: bcc_processAccess_def)
    moreover have "cst g ?t = cst g s" by (rule cst_cong) simp_all
    ultimately show ?thesis using hs core_ok_prof [OF ok] by (intro exI [of _ ?t] exI [of _ cyc]) (simp add: served_def)
  next
    case mx
    let ?u = "upd_bcc k (\<lambda>b. if barr s k ! l = I then b\<lparr>profGETXMissIM := profGETXMissIM b + 1\<rparr> else b\<lparr>profGETXMissSM := profGETXMissSM b + 1\<rparr>) s"
    have oku: "core_ok K ?u" by (rule core_ok_prof [OF ok]) simp
    have cu: "cst g ?u = cst g s" by (rule cst_cong) simp_all
    have ty: "GETX = GETS \<and> cst g ?u k x = I \<or> GETX = GETX \<and> \<not> is_EM (cst g ?u k x)" using mx cu by simp
    have "static ?u = static s" by simp
    then have "held ?u = {BccLock k}" "g_where g k (arr ?u k) x = Some l" "aget (h_recs ?u) (unat (mr_srcId req)) \<noteq> None"
      using held w req(4) static_eqD(18) [of ?u s] by simp_all
    from kid_ask [OF oku k this(1,2) w(2) ty req(3) this(3) cyc, of f] obtain t r where
      t: "bcc_askParent ?acc ?u k x l GETX cyc (barr s k ! l) (mr_srcId req) (mr_flags req) = Some (t, r)" "core_ok K t"
        "static t = static s" "held t = held s" "arr t k = arr s k" "cst g t k x = M" "unat cyc \<le> unat r" "unat r \<le> unat cyc + 2 ^ 32"
      by auto
    have "barr s k ! l = I \<or> barr s k ! l = S" using mx(2) c by (cases "barr s k ! l") (auto simp: is_EM_def)
    then have "h_processAccess ?acc invf s k req (Some l) cyc = Some (t, r)"
      unfolding eq using mx l t(1,6,7) line [OF t(2,5)] by (auto simp: bcc_processAccess_def Let_def word_le_nat_alt)
    then show ?thesis using t by (simp add: served_def)
  next
    case up
    let ?u = "st_upd k l M s" let ?t = "upd_bcc k (\<lambda>b. b\<lparr>profGETXHit := profGETXHit b + 1\<rparr>) ?u"
    note u = kid_own [OF ok k w(1) up(2)]
    have "h_processAccess ?acc invf s k req (Some l) cyc = Some (?t, cyc)" unfolding eq using up l c by (simp add: bcc_processAccess_def)
    moreover have "cst g ?t = cst g ?u" by (rule cst_cong) simp_all
    ultimately show ?thesis using u core_ok_prof [OF u(1)] by (intro exI [of _ ?t] exI [of _ cyc]) (simp add: served_def)
  next
    case hx
    let ?t = "upd_bcc k (\<lambda>b. b\<lparr>profGETXHit := profGETXHit b + 1\<rparr>) s"
    have "h_processAccess ?acc invf s k req (Some l) cyc = Some (?t, cyc)" unfolding eq using hx l c by (simp add: bcc_processAccess_def)
    moreover have "cst g ?t = cst g s" by (rule cst_cong) simp_all
    ultimately show ?thesis using hx core_ok_prof [OF ok] by (intro exI [of _ ?t] exI [of _ cyc]) (simp add: served_def)
  qed
qed

lemma kid_access:
  assumes ok: "core_ok K s" and k: "k \<in> set (g_kids g)" and held: "held s = {FilterLock k}" and x: "mr_lineAddr req = x" "x \<noteq> 0"
    and req: "IsGet (mr_type req)" "mr_state req = LocalState I" "mr_initialState req = I" "mr_childLock req = Some (FilterLock k)"
      "\<not> has_flag (mr_flags req) PREFETCH" "aget (h_recs s) (unat (mr_srcId req)) \<noteq> None"
    and K: "(k, f_index (h_filter s k) x) \<in> K" and cyc: "unat (mr_cycle req) + 2 ^ 36 \<le> 2 ^ 64"
  shows "\<exists>t r. cache_access vt (obj_access vt (Suc (Suc f))) invf s k req = Some (t, r) \<and>
    core_ok K t \<and> static t = static s \<and> held t = held s \<and> served (mr_type req) (cst g t k x) \<and>
    unat (mr_cycle req) \<le> unat r \<and> unat r \<le> unat (mr_cycle req) + 2 ^ 33"
proof -
  let ?acc = "obj_access vt (Suc (Suc f))" let ?cyc = "mr_cycle req + ucast (c_accLat (h_cache s k))"
  note O = core_okD [OF ok] and W = wired_kidD [OF core_okD(1) [OF ok] k]
  let ?sA = "s\<lparr>held := {BccLock k}\<rparr>"
  have start: "h_startAccess s k req = Some (?sA, req, False)"
    using W(2) req(1-4) held by (simp add: h_startAccess_def termcc_startAccess_def unlock_child_def cc_unlock_def CheckForMESIRace_def Let_def)
  have aik: "g_ainv g k (arr s k)" using O(5) k by simp
  have "True \<longrightarrow> IsGet (mr_type req)" using req(1) by simp
  from line_store.ls_update [OF kid_store [OF k] aik x(2) this] obtain a where
    a: "av_lookup (vt k) (arr s k) x (Some req) True = Some (a, g_where g k (arr s k) x)" "g_ainv g k a"
      "g_where g k a = g_where g k (arr s k)" "g_size g k a = g_size g k (arr s k)" by blast
  have lk: "h_lookup vt ?sA k req True = Some (upd_array k a ?sA, g_where g k (arr s k) x)"
    using a(1) W(3) x(1) by (simp add: h_lookup_def is_l2_0_def arr_def)
  define s1 where "s1 = count_request (mr_type req) (upd_array k a ?sA)"
  have p1: "arr s1 = (arr s)(k := a)" "static s1 = static s" "barr s1 = barr s" "earr s1 = earr s" "farr s1 = farr s" "held s1 = {BccLock k}"
    by (simp_all add: s1_def)
  note C = array_change [OF O(1) kid_member [OF k] p1(1) a(3,4) p1(2-5)]
  have ok1: "core_ok K s1"
    using C(1) O(2,4,5) directory_ok_cong [OF O(3) C(2,3)] filter_ok_cong [OF p1(2,5), of K] C(2) p1(1,4) a(2)
    by (simp add: core_ok_def entries_ok_def)
  note O1 = core_okD [OF ok1]
  have c: "unat ?cyc = unat (mr_cycle req) + unat (c_accLat (h_cache s k))" "unat (c_accLat (h_cache s k)) < 2 ^ 32"
    using unat_add32 [of "mr_cycle req" "c_accLat (h_cache s k)"] cyc unat32_lt by simp_all
  have cyc': "unat ?cyc + 2 ^ 35 \<le> 2 ^ 64" using c cyc by simp
  have src1: "aget (h_recs s1) (unat (mr_srcId req)) \<noteq> None" and K1: "(k, f_index (h_filter s1 k) x) \<in> K"
    using req(6) K static_eqD(18,21) [OF p1(2)] by simp_all
  have "\<exists>t l. cache_line vt ?acc invf s1 k req (g_where g k (arr s k) x) ?cyc = Some (t, Some l) \<and>
    core_ok K t \<and> static t = static s \<and> held t = {BccLock k} \<and> g_where g k (arr t k) x = Some l"
  proof (cases "g_where g k (arr s k) x")
    case None
    then have miss: "g_where g k (arr s1 k) x = None" using p1(1) a(3) by simp
    have "h_shouldAllocate s1 k req = Some True" using wired_kidD(2) [OF O1(1) k] by (simp add: h_shouldAllocate_def)
    then show ?thesis
      using kid_allocate [OF O1(1-4) k O1(5) p1(6) x miss req(1) K1 src1 cyc', of f invf] None p1(2,6)
      by (auto simp: cache_line_def core_ok_def)
  next
    case (Some l)
    then show ?thesis using ok1 p1 a(3) by (auto simp: cache_line_def)
  qed
  then obtain t l where t: "cache_line vt ?acc invf s1 k req (g_where g k (arr s k) x) ?cyc = Some (t, Some l)"
    "core_ok K t" "static t = static s" "held t = {BccLock k}" "g_where g k (arr t k) x = Some l" by blast
  have srct: "aget (h_recs t) (unat (mr_srcId req)) \<noteq> None" using req(6) static_eqD(18) [OF t(3)] by simp
  from kid_processAccess [OF t(2) k t(4,5) x(2,1) req(1,5) srct cyc', of f invf] obtain u r where
    u: "h_processAccess ?acc invf t k req (Some l) ?cyc = Some (u, r)" "core_ok K u" "static u = static t" "held u = held t"
      "served (mr_type req) (cst g u k x)" "unat ?cyc \<le> unat r" "unat r \<le> unat ?cyc + 2 ^ 32" by blast
  have "take_record t (mr_srcId req) = Some (t, None)"
    using take_record_none [of t "mr_srcId req"] core_okD(1) [OF t(2)] srct by (simp add: base_ok_def)
  then have serve: "cache_serve vt ?acc invf s1 k req (g_where g k (arr s k) x) ?cyc = Some (u, r)"
    using t(1) u(1) by (simp add: cache_serve_def)
  let ?v = "u\<lparr>held := {FilterLock k}\<rparr>"
  have "h_endAccess u k req = Some ?v"
    using wired_kidD(2) [OF core_okD(1) [OF u(2)] k] req(4) u(4) t(4)
    by (simp add: h_endAccess_def termcc_endAccess_def relock_child_def cc_unlock_def insert_Diff_if)
  moreover have "mr_cycle req \<le> r" using u(6) c(1) by (simp add: word_le_nat_alt)
  moreover have "c_accLat (h_cache (upd_array k a ?sA) k) = c_accLat (h_cache s k)" by (rule static_eqD(2)) simp
  ultimately have "cache_access vt ?acc invf s k req = Some (?v, r)"
    using start lk serve req(1) by (simp add: cache_access_def s1_def)
  moreover have "core_ok K ?v" by (rule core_ok_cong [OF u(2)]) simp_all
  moreover have "cst g ?v = cst g u" by (rule cst_cong) simp_all
  ultimately show ?thesis using u(3,5-7) t(3) held c by (intro exI [of _ ?v] exI [of _ r]) simp
qed

section \<open>The filter\<close>

lemma hier_inv_core: "hier_inv g s \<longleftrightarrow> core_ok {} s \<and> held s = {}"
  by (auto simp: hier_inv_def core_ok_def)

lemma core_ok_mono: "core_ok K s \<Longrightarrow> K \<subseteq> K' \<Longrightarrow> core_ok K' s"
  by (auto simp: core_ok_def filter_ok_def)

lemma hier_inv_cong:
  assumes "hier_inv g s" "static s' = static s" "arr s' = arr s" "farr s' = farr s" "barr s' = barr s" "earr s' = earr s" "held s' = held s"
  shows "hier_inv g s'"
  using assms core_ok_cong [of "{}" s s'] by (simp add: hier_inv_core)

text \<open>The entry of one set is filled with a line the cache has just been granted.\<close>

lemma fill_entry:
  assumes ok: "core_ok {(k, i)} t" and k: "k \<in> set (g_kids g)" and i: "f_index (h_filter t k) v = i"
    and sv: "served (if ld then GETS else GETX) (cst g t k (h_procMask t OR v))"
    and t': "farr t' = (farr t)(k := (farr t k)[i := \<lparr>fe_rdAddr = v, fe_wrAddr = (if ld then -1 else v), fe_availCycle = c\<rparr>])"
      "static t' = static t" "arr t' = arr t" "barr t' = barr t" "earr t' = earr t"
  shows "core_ok {} t'"
proof -
  note O = core_okD [OF ok]
  have c: "cst g t' = cst g t" "ent g t' = ent g t" by (rule cst_cong [OF t'(3,4)], rule ent_cong [OF t'(3,5)])
  have "base_ok g t'" by (rule base_ok_step [OF O(1) t'(2,3)]) (simp_all add: t')
  moreover have "directory_ok g t'" by (rule directory_ok_cong [OF O(3) c])
  moreover have "filter_ok g {} t'"
    unfolding filter_ok_def
  proof (intro ballI allI impI)
    fix j m assume h: "j \<in> set (g_kids g)" "m < length (farr t' j)"
    show "fent_ok g t' j m"
    proof (cases "(j, m) = (k, i)")
      case True
      then show ?thesis using h i sv c(1) t'(1) by (simp add: fent_ok_def served_def static_eqD [OF t'(2)] f_valid_def split: if_splits)
    next
      case False
      then have "farr t' j ! m = farr t j ! m" "fent_ok g t j m" using h O(4) t'(1) by (auto simp: filter_ok_def split: if_splits)
      then show ?thesis using fent_cong [OF t'(2), of j m] c(1) by simp
    qed
  qed
  ultimately show ?thesis using O(2,5) t'(3,5) by (simp add: core_ok_def entries_ok_def)
qed

lemma filter_replace_ok:
  assumes inv: "hier_inv g s" and k: "k \<in> set (g_kids g)" and v: "v \<noteq> 0" and i: "i = f_index (h_filter s k) v"
    and cyc: "unat cyc + 2 ^ 36 \<le> 2 ^ 64"
  shows "\<exists>t r. filter_replace vt (obj_access vt (Suc (Suc f))) invf s k v i ld cyc = Some (t, r) \<and>
    hier_inv g t \<and> static t = static s \<and> served (if ld then GETS else GETX) (cst g t k (h_procMask s OR v)) \<and>
    reads t k v \<and> (\<not> ld \<longrightarrow> writes t k v) \<and>
    unat cyc \<le> unat r \<and> unat r \<le> unat cyc + 2 ^ 33"
proof -
  let ?x = "h_procMask s OR v" let ?acc = "obj_access vt (Suc (Suc f))"
  let ?sA = "s\<lparr>held := {FilterLock k}\<rparr>"
  have ok: "core_ok {} s" "held s = {}" using inv by (simp_all add: hier_inv_core)
  have base: "base_ok g s" by (rule core_okD(1) [OF ok(1)])
  note W = wired_kidD [OF base k]
  have "core_ok {(k, i)} s" by (rule core_ok_mono [OF ok(1)]) simp
  then have okA: "core_ok {(k, i)} ?sA" by (rule core_ok_cong) simp_all
  have x: "?x \<noteq> 0" using v by (simp add: or_eq_0_iff)
  let ?req = "filter_req ?sA k v ld cyc"
  have q: "mr_lineAddr ?req = ?x" "IsGet (mr_type ?req)" "mr_state ?req = LocalState I" "mr_initialState ?req = I"
    "mr_childLock ?req = Some (FilterLock k)" "\<not> has_flag (mr_flags ?req) PREFETCH" "aget (h_recs ?sA) (unat (mr_srcId ?req)) \<noteq> None"
    "mr_cycle ?req = cyc" "mr_type ?req = (if ld then GETS else GETX)"
    using W(8,11) by (simp_all add: filter_req_def IsGet_def)
  have K: "(k, f_index (h_filter ?sA k) ?x) \<in> {(k, i)}" using f_index_mask [OF k base] i by simp
  have h: "held ?sA = {FilterLock k}" by simp
  have cyc': "unat (mr_cycle ?req) + 2 ^ 36 \<le> 2 ^ 64" using cyc q(8) by simp
  from kid_access [OF okA k h q(1) x q(2-7) K cyc', of f invf] obtain t r where
    t: "cache_access vt ?acc invf ?sA k ?req = Some (t, r)" "core_ok {(k, i)} t" "static t = static ?sA" "held t = {FilterLock k}"
      "served (if ld then GETS else GETX) (cst g t k ?x)" "unat cyc \<le> unat r" "unat r \<le> unat cyc + 2 ^ 33"
    unfolding q(8,9) by auto
  have st: "static t = static s" using t(3) by simp
  have i': "f_index (h_filter t k) v = i" "i < length (farr t k)" "h_procMask t = h_procMask s"
    using sizedD(7) [OF core_okD(1) [OF t(2)] kid_member [OF k] kid_neq_parent [OF k], of v] i static_eqD(19,21) [OF st] by simp_all
  let ?e = "\<lparr>fe_rdAddr = v, fe_wrAddr = (if ld then -1 else v),
      fe_availCycle = (if fe_rdAddr (farr t k ! i) \<noteq> v then r else fe_availCycle (farr t k ! i))\<rparr>"
  let ?u = "cc_unlock (FilterLock k) (fl_upd k ((farr t k)[i := ?e]) t)"
  have "filter_replace vt ?acc invf s k v i ld cyc = Some (?u, r)"
    using ok(2) t(1) i'(2) by (simp add: filter_replace_def proj_folds)
  moreover have "core_ok {} ?u"
    by (rule fill_entry [OF t(2) k i'(1), where ld = ld]) (use t(5) i'(3) in \<open>simp_all add: cc_unlock_def\<close>)
  moreover have "cst g ?u = cst g t" by (rule cst_cong) (simp_all add: cc_unlock_def)
  moreover have ui: "f_index (h_filter ?u k) v = i" using i'(1) static_eqD(21) [of ?u t] by (simp add: cc_unlock_def)
  have "reads ?u k v \<and> (\<not> ld \<longrightarrow> writes ?u k v)"
    unfolding reads_def writes_def ui using i'(2) by (simp add: cc_unlock_def)
  ultimately show ?thesis using t(4-7) st i'(2)
    by (intro exI [of _ ?u] exI [of _ r]) (simp add: hier_inv_core cc_unlock_def)
qed

lemma line_not_all_ones: "0 < n \<Longrightarrow> drop_bit n (a :: u64) \<noteq> -1"
proof
  assume n: "0 < n" and eq: "drop_bit n a = -1"
  have "bit (drop_bit n a) 63 = bit a (n + 63)" by (simp add: bit_drop_bit_eq)
  moreover have "\<not> bit a (n + 63)" using n bit_imp_le_length [of a "n + 63"] by auto
  ultimately show False using eq by simp
qed

lemma zMAX_bounds: "unat a \<le> unat (zMAX a b)" "unat b \<le> n \<Longrightarrow> unat a \<le> n \<Longrightarrow> unat (zMAX a b) \<le> n"
  by (auto simp: zMAX_def max_def word_le_nat_alt)

lemma filter_entry_at:
  assumes inv: "hier_inv g s" and k: "k \<in> set (g_kids g)"
  shows "aget (f_array (h_filter s k)) (f_index (h_filter s k) v) = Some (farr s k ! f_index (h_filter s k) v)"
    "fent_ok g s k (f_index (h_filter s k) v)" "h_lineBits s > 0"
proof -
  have O: "base_ok g s" "filter_ok g {} s" using inv by (simp_all add: hier_inv_def)
  have i: "f_index (h_filter s k) v < length (farr s k)" using sizedD(7) [OF O(1)] k kid_neq_parent [OF k] by simp
  then show "aget (f_array (h_filter s k)) (f_index (h_filter s k) v) = Some (farr s k ! f_index (h_filter s k) v)" by (simp add: farr_def)
  show "fent_ok g s k (f_index (h_filter s k) v)" using O(2) k i by (simp add: filter_ok_def)
  show "h_lineBits s > 0" using O(1) by (simp add: base_ok_def wired_def)
qed

lemma filter_load1_ok:
  assumes inv: "hier_inv g s" and k: "k \<in> set (g_kids g)" and v: "v = drop_bit (h_lineBits s) a" "v \<noteq> 0"
    and cyc: "unat cyc + 2 ^ 36 \<le> 2 ^ 64"
  shows "\<exists>t r. filter_load1 vt (obj_access vt (Suc (Suc f))) invf s k a cyc = Some (t, r) \<and> hier_inv g t \<and> static t = static s \<and>
    cst g t k (h_procMask s OR v) \<noteq> I \<and> reads t k v \<and> unat cyc \<le> unat r \<and> (avail_le s k n \<longrightarrow> unat cyc \<le> n \<longrightarrow> unat r \<le> n + 2 ^ 33)"
proof -
  let ?i = "f_index (h_filter s k) v" let ?e = "farr s k ! ?i"
  note E = filter_entry_at(1,2) [OF inv k, of v] filter_entry_at(3) [OF inv k]
  have v1: "v \<noteq> -1" using line_not_all_ones E(3) v(1) by simp
  show ?thesis
  proof (cases "v = fe_rdAddr ?e")
    case True
    let ?t = "upd_filter k (\<lambda>f. f\<lparr>f_GETSHit := f_GETSHit f + 1\<rparr>) s"
    have eq: "filter_load1 vt (obj_access vt (Suc (Suc f))) invf s k a cyc = Some (?t, zMAX cyc (fe_availCycle ?e))"
      using E(1) True unfolding filter_load1_def v(1) by simp
    have fr: "static ?t = static s" "arr ?t = arr s" "farr ?t = farr s" "barr ?t = barr s" "earr ?t = earr s" "held ?t = held s"
      by (simp_all add: upd_filter_def proj_defs fun_eq_iff)
    have "cst g ?t = cst g s" by (rule cst_cong [OF fr(2,4)])
    moreover have "cst g s k (h_procMask s OR v) \<noteq> I" using E(2) True v(2) v1 by (simp add: fent_ok_def f_valid_def Let_def)
    moreover have "?e \<in> set (farr s k)" using E(1) by (simp add: farr_def aget_eq_Some)
    moreover have "reads ?t k v" using True by (simp add: reads_def static_eqD(21) [OF fr(1)] fr(3))
    ultimately show ?thesis using eq hier_inv_cong [OF inv fr] fr(1) zMAX_bounds [where a = cyc and b = "fe_availCycle ?e"]
      by (intro exI [of _ ?t] exI [of _ "zMAX cyc (fe_availCycle ?e)"]) (auto simp: avail_le_def intro: trans_le_add1)
  next
    case False
    then have "filter_load1 vt (obj_access vt (Suc (Suc f))) invf s k a cyc =
        filter_replace vt (obj_access vt (Suc (Suc f))) invf s k v ?i True cyc"
      using E(1) unfolding filter_load1_def v(1) by (simp add: Let_def)
    then show ?thesis using filter_replace_ok [OF inv k v(2) refl cyc, of f invf True] by (auto simp: served_def)
  qed
qed

lemma filter_store_ok:
  assumes inv: "hier_inv g s" and k: "k \<in> set (g_kids g)" and v: "v = drop_bit (h_lineBits s) a" "v \<noteq> 0"
    and cyc: "unat cyc + 2 ^ 36 \<le> 2 ^ 64"
  shows "\<exists>t r. filter_store vt (obj_access vt (Suc (Suc f))) invf s k a cyc = Some (t, r) \<and> hier_inv g t \<and> static t = static s \<and>
    cst g t k (h_procMask s OR v) = M \<and> writes t k v \<and> unat cyc \<le> unat r"
proof -
  let ?i = "f_index (h_filter s k) v" let ?e = "farr s k ! ?i"
  note E = filter_entry_at(1,2) [OF inv k, of v] filter_entry_at(3) [OF inv k]
  have v1: "v \<noteq> -1" using line_not_all_ones E(3) v(1) by simp
  show ?thesis
  proof (cases "v = fe_wrAddr ?e")
    case True
    let ?t = "upd_filter k (\<lambda>f. f\<lparr>f_GETXHit := f_GETXHit f + 1\<rparr>) s"
    have eq: "filter_store vt (obj_access vt (Suc (Suc f))) invf s k a cyc = Some (?t, zMAX cyc (fe_availCycle ?e))"
      using E(1) True unfolding filter_store_def v(1) by simp
    have fr: "static ?t = static s" "arr ?t = arr s" "farr ?t = farr s" "barr ?t = barr s" "earr ?t = earr s" "held ?t = held s"
      by (simp_all add: upd_filter_def proj_defs fun_eq_iff)
    have "cst g ?t = cst g s" by (rule cst_cong [OF fr(2,4)])
    moreover have "cst g s k (h_procMask s OR v) = M" using E(2) True v(2) v1 by (simp add: fent_ok_def f_valid_def Let_def)
    moreover have "writes ?t k v" using True by (simp add: writes_def static_eqD(21) [OF fr(1)] fr(3))
    ultimately show ?thesis using eq hier_inv_cong [OF inv fr] fr(1) zMAX_bounds(1) by auto
  next
    case False
    then have "filter_store vt (obj_access vt (Suc (Suc f))) invf s k a cyc =
        filter_replace vt (obj_access vt (Suc (Suc f))) invf s k v ?i False cyc"
      using E(1) unfolding filter_store_def v(1) by (simp add: Let_def)
    then show ?thesis using filter_replace_ok [OF inv k v(2) refl cyc, of f invf False] by (auto simp: served_def)
  qed
qed

lemma filter_load_ok:
  assumes inv: "hier_inv g s" and k: "k \<in> set (g_kids g)" and v: "v = drop_bit (h_lineBits s) a" "v \<noteq> 0"
    and cyc: "unat cyc + 2 ^ 37 \<le> 2 ^ 64"
    and pf: "f_isPrefetcher (h_filter s k) \<longrightarrow> drop_bit (h_lineBits s) (push_bit (h_lineBits s) (v + 1)) \<noteq> 0 \<and> avail_le s k (2 ^ 64 - 2 ^ 37)"
  shows "\<exists>t r. filter_load vt (obj_access vt (Suc (Suc f))) invf s k a cyc = Some (t, r) \<and> hier_inv g t \<and> static t = static s \<and>
    loaded g t k (last_line t k a) \<and> unat cyc \<le> unat r \<and>
    (\<exists>u q. filter_load1 vt (obj_access vt (Suc (Suc f))) invf s k a cyc = Some (u, q) \<and> hier_inv g u \<and> loaded g u k v \<and> unat cyc \<le> unat q \<and> unat q \<le> unat r)"
proof -
  have "unat cyc + 2 ^ 36 \<le> 2 ^ 64" using cyc by simp
  from filter_load1_ok [OF inv k v this, of f invf "2 ^ 64 - 2 ^ 37"] obtain t r where
    t: "filter_load1 vt (obj_access vt (Suc (Suc f))) invf s k a cyc = Some (t, r)" "hier_inv g t" "static t = static s"
      "cst g t k (h_procMask s OR v) \<noteq> I" "unat cyc \<le> unat r" "reads t k v"
      "avail_le s k (2 ^ 64 - 2 ^ 37) \<longrightarrow> unat cyc \<le> 2 ^ 64 - 2 ^ 37 \<longrightarrow> unat r \<le> (2 ^ 64 - 2 ^ 37) + 2 ^ 33" by blast
  note E = static_eqD [OF t(3)]
  show ?thesis
  proof (cases "f_isPrefetcher (h_filter s k)")
    case False
    then show ?thesis using t E v(1) by (simp add: filter_load_def loaded_def last_line_def)
  next
    case True
    let ?u = "upd_filter k (\<lambda>f. f\<lparr>f_profNumPrefetches := f_profNumPrefetches f + 1\<rparr>) t"
    have fr: "static ?u = static t" "arr ?u = arr t" "farr ?u = farr t" "barr ?u = barr t" "earr ?u = earr t" "held ?u = held t"
      by (simp_all add: upd_filter_def proj_defs fun_eq_iff)
    have lb: "h_lineBits ?u = h_lineBits s" "h_lineBits t = h_lineBits s" using static_eqD(20) [OF fr(1)] E(20) by simp_all
    have r: "unat r + 2 ^ 36 \<le> 2 ^ 64" using pf True t(7) cyc by simp
    have nz: "drop_bit (h_lineBits ?u) (push_bit (h_lineBits s) (v + 1)) \<noteq> 0" using pf True lb by simp
    have eq: "filter_load vt (obj_access vt (Suc (Suc f))) invf s k a cyc =
        filter_load1 vt (obj_access vt (Suc (Suc f))) invf ?u k (push_bit (h_lineBits s) (v + 1)) r"
      using t(1) True E(17) lb(2) v(1) by (simp add: filter_load_def handlePrefetch_def Let_def)
    from filter_load1_ok [OF hier_inv_cong [OF t(2) fr] k refl nz r, of f invf 0] obtain w q where
      w: "filter_load1 vt (obj_access vt (Suc (Suc f))) invf ?u k (push_bit (h_lineBits s) (v + 1)) r = Some (w, q)" "hier_inv g w" "static w = static ?u"
        "cst g w k (h_procMask ?u OR drop_bit (h_lineBits ?u) (push_bit (h_lineBits s) (v + 1))) \<noteq> I"
        "reads w k (drop_bit (h_lineBits ?u) (push_bit (h_lineBits s) (v + 1)))" "unat r \<le> unat q" by blast
    have sw: "static w = static s" using w(3) fr(1) t(3) by simp
    have "last_line w k a = drop_bit (h_lineBits ?u) (push_bit (h_lineBits s) (v + 1))" "h_procMask w = h_procMask ?u"
      using True v(1) lb static_eqD(17,20) [OF sw] static_eqD(19) [OF w(3)] by (simp_all add: last_line_def)
    then have "loaded g w k (last_line w k a)" using w(4,5) by (simp add: loaded_def)
    moreover have "loaded g t k v" using t(4,6) E(19) by (simp add: loaded_def)
    ultimately show ?thesis unfolding eq using w(1,2,6) sw t(1,2,5) by (intro exI [of _ w] exI [of _ q] conjI exI [of _ t] exI [of _ r]) simp_all
  qed
qed

lemma filter_contextSwitch_ok:
  assumes inv: "hier_inv g s" and k: "k \<in> set (g_kids g)"
  shows "\<exists>t. filter_contextSwitch s k = Some t \<and> hier_inv g t \<and> static t = static s \<and> cst g t = cst g s \<and>
    (\<forall>e \<in> set (farr t k). e = filter_entry_clear)"
proof -
  have O: "base_ok g s" "entries_ok g s" "directory_ok g s" "filter_ok g {} s" "\<forall>c \<in> members g. g_ainv g c (arr s c)" "held s = {}"
    using inv by (simp_all add: hier_inv_def)
  have n: "f_numSets (h_filter s k) = length (farr s k)" using sizedD(8) [OF O(1)] k kid_neq_parent [OF k] by simp
  let ?t = "cc_unlock (FilterLock k) (fl_upd k (replicate (length (farr s k)) filter_entry_clear) (s\<lparr>held := {FilterLock k}\<rparr>))"
  have fr: "static ?t = static s" "arr ?t = arr s" "barr ?t = barr s" "earr ?t = earr s" "held ?t = {}"
    "farr ?t = (farr s)(k := replicate (length (farr s k)) filter_entry_clear)" by (simp_all add: cc_unlock_def)
  have c: "cst g ?t = cst g s" "ent g ?t = ent g s" by (rule cst_cong [OF fr(2,3)], rule ent_cong [OF fr(2,4)])
  have "filter_contextSwitch s k = Some ?t" using O(6) n by (simp add: filter_contextSwitch_def fl_upd_def upd_filter_def)
  moreover have "base_ok g ?t" by (rule base_ok_step [OF O(1) fr(1,2)]) (simp_all add: fr)
  moreover have "directory_ok g ?t" by (rule directory_ok_cong [OF O(3) c])
  moreover have "filter_ok g {} ?t"
    unfolding filter_ok_def
  proof (intro ballI allI impI)
    fix j i assume h: "j \<in> set (g_kids g)" "i < length (farr ?t j)"
    show "fent_ok g ?t j i"
      using h O(4) c(1) fr(6) fent_cong [OF fr(1), of j i]
      by (cases "j = k") (simp add: fent_ok_def filter_entry_clear_def f_valid_def, simp add: filter_ok_def)
  qed
  ultimately show ?thesis using O(2,5) c(1) fr by (auto simp: hier_inv_def entries_ok_def)
qed

section \<open>A core's operations\<close>

lemma core_step_ok:
  assumes inv: "hier_inv g s" and k: "k \<in> set (g_kids g)" and oper: "op_ok s k oper" and cyc: "unat cyc + 2 ^ 37 \<le> 2 ^ 64"
  shows "\<exists>t r. core_step vt (Suc (Suc f)) s k oper cyc = Some (t, r) \<and> hier_inv g t \<and> static t = static s \<and> op_done g t k oper \<and>
    cyc \<le> r \<and> (\<forall>a. oper = CoreLoad a \<longrightarrow>
      (\<exists>u q. filter_load1 vt (obj_access vt (Suc (Suc f))) (obj_inval vt (Suc (Suc f))) s k a cyc = Some (u, q) \<and> hier_inv g u \<and>
        loaded g u k (drop_bit (h_lineBits s) a) \<and> cyc \<le> q \<and> q \<le> r))"
proof (cases oper)
  case (CoreLoad a)
  from filter_load_ok [OF inv k refl _ cyc, of a f "obj_inval vt (Suc (Suc f))"] oper CoreLoad obtain t r where
    t: "filter_load vt (obj_access vt (Suc (Suc f))) (obj_inval vt (Suc (Suc f))) s k a cyc = Some (t, r)" "hier_inv g t" "static t = static s"
      "loaded g t k (last_line t k a)" "unat cyc \<le> unat r"
      "\<exists>u q. filter_load1 vt (obj_access vt (Suc (Suc f))) (obj_inval vt (Suc (Suc f))) s k a cyc = Some (u, q) \<and> hier_inv g u \<and>
        loaded g u k (drop_bit (h_lineBits s) a) \<and> unat cyc \<le> unat q \<and> unat q \<le> unat r"
    by (auto simp: op_ok_def)
  then show ?thesis using CoreLoad by (simp add: core_step_def op_done_def word_le_nat_alt)
next
  case (CoreStore a)
  have "drop_bit (h_lineBits s) a \<noteq> 0" "unat cyc + 2 ^ 36 \<le> 2 ^ 64" using oper CoreStore cyc by (simp_all add: op_ok_def)
  from filter_store_ok [OF inv k refl this, of f "obj_inval vt (Suc (Suc f))"] obtain t r where
    t: "filter_store vt (obj_access vt (Suc (Suc f))) (obj_inval vt (Suc (Suc f))) s k a cyc = Some (t, r)" "hier_inv g t" "static t = static s"
      "cst g t k (h_procMask s OR drop_bit (h_lineBits s) a) = M" "writes t k (drop_bit (h_lineBits s) a)" "unat cyc \<le> unat r" by blast
  then show ?thesis using CoreStore static_eqD [OF t(3)] by (simp add: core_step_def op_done_def word_le_nat_alt)
next
  case CoreSwitch
  then show ?thesis using filter_contextSwitch_ok [OF inv k] by (auto simp: core_step_def op_done_def)
qed

lemma op_ok_static:
  assumes "static t = static s" "\<not> f_isPrefetcher (h_filter s k)"
  shows "op_ok t k oper = op_ok s k oper"
  using assms(2) by (simp add: op_ok_def static_eqD(17,20) [OF assms(1)] split: core_op.split)

lemma core_run_ok:
  assumes "hier_inv g s"
    and "\<forall>(k, oper, cyc) \<in> set ops. k \<in> set (g_kids g) \<and> \<not> f_isPrefetcher (h_filter s k) \<and> op_ok s k oper \<and> unat cyc + 2 ^ 37 \<le> 2 ^ 64"
  shows "\<exists>t. core_run vt (Suc (Suc f)) s ops = Some t \<and> hier_inv g t \<and> static t = static s"
  using assms
proof (induction ops arbitrary: s)
  case (Cons p ops)
  obtain k oper cyc where p: "p = (k, oper, cyc)" by (cases p)
  from core_step_ok [OF Cons.prems(1), of k oper cyc f] Cons.prems(2) obtain t r where
    t: "core_step vt (Suc (Suc f)) s k oper cyc = Some (t, r)" "hier_inv g t" "static t = static s" by (auto simp: p)
  have "\<forall>(k, oper, cyc) \<in> set ops. k \<in> set (g_kids g) \<and> \<not> f_isPrefetcher (h_filter t k) \<and> op_ok t k oper \<and> unat cyc + 2 ^ 37 \<le> 2 ^ 64"
    using Cons.prems(2) op_ok_static [OF t(3)] static_eqD(17) [OF t(3)] by fastforce
  from Cons.IH [OF t(2) this] show ?case using t(1,3) by (auto simp: p)
qed simp

section \<open>What the invariant says\<close>

text \<open>A line that one core may write is valid in no other core.\<close>

lemma single_writer:
  assumes inv: "hier_inv g s" and x: "x \<noteq> 0" and ij: "i \<in> set (g_kids g)" "j \<in> set (g_kids g)" "i \<noteq> j" and w: "is_EM (cst g s i x)"
  shows "cst g s j x = I"
proof (rule ccontr)
  assume j: "cst g s j x \<noteq> I"
  have O: "base_ok g s" "entries_ok g s" "directory_ok g s" using inv by (simp_all add: hier_inv_def)
  note D = directory_ok_at [OF O(3) x]
  obtain e where e: "ent g s x = Some e" using D j ij(2) by (auto simp: dir_ok_def split: option.splits)
  then obtain lp where lp: "g_where g (g_parent g) (arr s (g_parent g)) x = Some lp" "e = earr s (g_parent g) ! lp" by (auto simp: ent_def)
  have ok: "entry_ok (length (g_kids g)) e"
    using lp O(2) sizedD(2,6) [OF O(1) parent_member] nth_mem [of lp "earr s (g_parent g)"] by (auto simp: entries_ok_def)
  obtain a b where ab: "a < length (g_kids g)" "g_kids g ! a = i" "b < length (g_kids g)" "g_kids g ! b = j"
    using ij by (auto simp: in_set_conv_nth)
  have "cst g s i x \<noteq> I" using w by (auto simp: is_EM_def)
  then have "sharers e ! a" "sharers e ! b" "exclusive e" using D e ab j w ij by (auto simp: dir_ok_def)
  then have "a = b" using entry_sole_listed [OF ok, of a b] ok ab kids_max by (auto simp: entry_ok_def)
  then show False using ab ij(3) by simp
qed

text \<open>Every line of a core is in the shared cache, and the shared cache may write it if the core may.\<close>

lemma inclusion:
  assumes inv: "hier_inv g s" and x: "x \<noteq> 0" and k: "k \<in> set (g_kids g)" "cst g s k x \<noteq> I"
  shows "cst g s (g_parent g) x \<noteq> I" "is_EM (cst g s k x) \<Longrightarrow> is_EM (cst g s (g_parent g) x)"
  using directory_ok_at [of s x] inv x k by (auto simp: hier_inv_def dir_ok_def split: option.splits)

text \<open>A hit in a filter.\<close>

lemma filter_hit:
  assumes inv: "hier_inv g s" and k: "k \<in> set (g_kids g)" and v: "v \<noteq> 0" "v \<noteq> -1"
  shows "reads s k v \<Longrightarrow> cst g s k (h_procMask s OR v) \<noteq> I" "writes s k v \<Longrightarrow> cst g s k (h_procMask s OR v) = M"
  using filter_entry_at(2) [OF inv k, of v] v by (auto simp: fent_ok_def f_valid_def Let_def reads_def writes_def)

end

end
