(* ===== verification/HierSystem.thy ===== *)
theory HierSystem
  imports HierCore
begin

text \<open>
  The hierarchy with the arrays of the code: set-associative arrays under LRU with the identity hash in every cache. The
  shared cache may be the compressing cache \<open>l2-0\<close>. The theorems state that the cores can run any sequence of loads,
  stores and context switches: nothing fails, the directory stays coherent, and every operation obtains its line.
\<close>

section \<open>The arrays\<close>

lemma sa_lookupL2_eq: "sa_lookupL2 = sa_lookup" and sa_preinsertL2_eq: "sa_preinsertL2 = sa_preinsert"
  by (simp_all add: fun_eq_iff sa_lookupL2_def sa_lookup_def sa_preinsertL2_def sa_preinsert_def)

lemma simple_insertion_total: "c < numLines \<Longrightarrow> \<exists>w' l'. simple_insertion l c w = Some (w', l')"
  using compare_total [of c l "cw_comp w"] by (auto simp: simple_insertion_def Let_def)

lemma compare_perfect_total: "tag < numLines \<Longrightarrow> \<exists>c' l'. compare_perfect line tag c = Some (c', l')"
  by (cases "compare_perfect_loop c line tag [0..<numLines] (tag, line)") (simp add: compare_perfect_def)

context sa_over_policy
begin

lemma sa_write_ok:
  assumes "inv_a a" "sa_pend hash a x c" "x \<noteq> 0" "IsGet (mr_type req)"
  shows "\<exists>rp1 rp. vt_replaced vt (sa_rp a) c = Some rp1 \<and> vt_update vt rp1 c req = Some rp \<and> c < length (sa_array a) \<and>
    inv_a (a\<lparr>sa_array := (sa_array a)[c := x], sa_rp := rp\<rparr>) \<and> ready rp"
proof -
  obtain rp w' where p: "sa_postinsert vt a cw_fresh x req c = Some (a\<lparr>sa_array := (sa_array a)[c := x], sa_rp := rp\<rparr>, w')"
    "inv_a (a\<lparr>sa_array := (sa_array a)[c := x], sa_rp := rp\<rparr>)" "ready rp"
    using sa_postinsert_ok [OF assms, of cw_fresh] by (auto simp: cw_fresh_def)
  then obtain arr rp1 rp' where q: "vt_replaced vt (sa_rp a) c = Some rp1" "vt_update vt rp1 c req = Some rp'"
      "aset (sa_array a) c x = Some arr" "a\<lparr>sa_array := arr, sa_rp := rp'\<rparr> = a\<lparr>sa_array := (sa_array a)[c := x], sa_rp := rp\<rparr>"
    by (auto simp: sa_postinsert_def cw_fresh_def bind_eq_Some_conv)
  have "rp' = rp" using arg_cong [OF q(4), of sa_rp] by simp
  moreover have "c < length (sa_array a)" using q(3) by (auto simp: aset_def split: if_splits)
  ultimately show ?thesis using p(2,3) q(1,2) by blast
qed

lemma sa_postinsertL2_ok:
  assumes "inv_a a" "sa_pend hash a x c" "x \<noteq> 0" "IsGet (mr_type req)" "c < numLines"
  shows "\<exists>rp w'. sa_postinsertL2 mem vt a w x req c = Some (a\<lparr>sa_array := (sa_array a)[c := x], sa_rp := rp\<rparr>, w') \<and>
    inv_a (a\<lparr>sa_array := (sa_array a)[c := x], sa_rp := rp\<rparr>) \<and> ready rp"
proof -
  obtain rp1 rp where q: "vt_replaced vt (sa_rp a) c = Some rp1" "vt_update vt rp1 c req = Some rp" "c < length (sa_array a)"
    "inv_a (a\<lparr>sa_array := (sa_array a)[c := x], sa_rp := rp\<rparr>)" "ready rp" using sa_write_ok [OF assms(1-4)] by blast
  let ?l = "mem_line mem x"
  let ?w = "w\<lparr>cw_comp := (cw_comp w)\<lparr>sizes := upd2 (sizes (cw_comp w)) c 0 (countLine ?l)\<rparr>\<rparr>"
  obtain w1 l1 where w1: "(if index_ref (cw_comp ?w) c \<noteq> 0 then evict_paired ?l c ?w else simple_insertion ?l c ?w) = Some (w1, l1)"
    using evict_paired_total [OF assms(5), of ?l ?w] simple_insertion_total [OF assms(5), of ?l ?w] by (metis (full_types))
  obtain c2 l2 where "compare_perfect ?l c (cw_comp (recover_perf c w1)) = Some (c2, l2)" using compare_perfect_total [OF assms(5)] by blast
  with q(1,2,3) assms(5) w1 have "\<exists>w'. sa_postinsertL2 mem vt a w x req c = Some (a\<lparr>sa_array := (sa_array a)[c := x], sa_rp := rp\<rparr>, w')"
    unfolding sa_postinsertL2_def Let_def by simp
  then show ?thesis using q(4,5) by blast
qed

text \<open>The set mask of an array never changes.\<close>

definition masked :: "u32 \<Rightarrow> 'a set_assoc \<Rightarrow> bool" where
  "masked m a \<longleftrightarrow> inv_a a \<and> ready (sa_rp a) \<and> sa_setMask a = m"

definition mpend :: "u32 \<Rightarrow> 'a set_assoc \<Rightarrow> Address \<Rightarrow> nat \<Rightarrow> bool" where
  "mpend m a x c \<longleftrightarrow> inv_a a \<and> sa_pend hash a x c \<and> sa_setMask a = m"

lemma masked_upd: "inv_a (a\<lparr>sa_rp := rp\<rparr>) \<Longrightarrow> ready rp \<Longrightarrow> sa_setMask a = m \<Longrightarrow> masked m (a\<lparr>sa_rp := rp\<rparr>)"
  by (simp add: masked_def)

lemma masked_store:
  assumes post: "\<And>a w x req c. inv_a a \<Longrightarrow> sa_pend hash a x c \<Longrightarrow> x \<noteq> 0 \<Longrightarrow> IsGet (mr_type req) \<Longrightarrow> c < numLines \<Longrightarrow>
      \<exists>rp w'. postinsert a w x req c = Some (a\<lparr>sa_array := (sa_array a)[c := x], sa_rp := rp\<rparr>, w') \<and>
        inv_a (a\<lparr>sa_array := (sa_array a)[c := x], sa_rp := rp\<rparr>) \<and> ready rp"
  shows "line_store (sa_lookup vt hash) (sa_preinsert vt hash) postinsert (masked m) (mpend m) (sa_where hash) sa_numLines"
proof (unfold_locales, goal_cases)
  case (1 a)
  show ?case by (rule arr.where_zero)
next
  case (2 a x i)
  then show ?case using arr.where_lt by (simp add: masked_def)
next
  case (3 a x i y)
  then show ?case using arr.where_inj [of a x i y] by (simp add: masked_def)
next
  case (4 a addr)
  then show ?case using arr.lookup_quiet by (simp add: masked_def)
next
  case (5 a addr upd req)
  then show ?case using sa_lookup_update [of a addr upd req] by (fastforce simp: masked_def)
next
  case (6 a addr cc req)
  then obtain rp c where r: "sa_preinsert vt hash cc a addr req = Some (a\<lparr>sa_rp := rp\<rparr>, c, sa_array a ! c)"
    "inv_a (a\<lparr>sa_rp := rp\<rparr>)" "sa_pend hash (a\<lparr>sa_rp := rp\<rparr>) addr c" "c < sa_numLines a"
    using sa_preinsert_ok [of a addr cc req] by (auto simp: masked_def)
  moreover have "sa_where hash a x = Some c \<longleftrightarrow> x = sa_array a ! c \<and> sa_array a ! c \<noteq> 0" for x
    using where_iff 6(1) r(4) by (auto simp: masked_def sa_inv_def sa_wf_def)
  ultimately show ?case using 6(1)
    by (intro exI [of _ "a\<lparr>sa_rp := rp\<rparr>"] exI [of _ c] exI [of _ "sa_array a ! c"]) (simp add: mpend_def masked_def)
next
  case (7 a addr c req w)
  then obtain rp w' where r: "postinsert a w addr req c = Some (a\<lparr>sa_array := (sa_array a)[c := addr], sa_rp := rp\<rparr>, w')"
    and i: "inv_a (a\<lparr>sa_array := (sa_array a)[c := addr], sa_rp := rp\<rparr>)" and rd: "ready rp"
    using post [of a addr c req w] by (auto simp: mpend_def)
  let ?a' = "a\<lparr>sa_array := (sa_array a)[c := addr], sa_rp := rp\<rparr>"
  have "sa_where hash ?a' = (\<lambda>x. if x = addr then Some c else if sa_where hash a x = Some c then None else sa_where hash a x)"
    by (rule ext, rule sa_where_insert) (use 7 i in \<open>simp_all add: mpend_def\<close>)
  moreover have "masked m ?a'" "sa_numLines ?a' = sa_numLines a" using i rd 7(1) by (simp_all add: masked_def mpend_def)
  ultimately show ?case using r by blast
qed

lemma plain_store: "line_store (sa_lookup vt hash) (sa_preinsert vt hash) (sa_postinsert vt) (masked m) (mpend m) (sa_where hash) sa_numLines"
  by (rule masked_store, rule sa_postinsert_ok) simp_all

lemma l2_store:
  "line_store (sa_lookupL2 vt hash) (sa_preinsertL2 vt hash) (sa_postinsertL2 mem vt) (masked m) (mpend m) (sa_where hash) sa_numLines"
  unfolding sa_lookupL2_eq sa_preinsertL2_eq by (rule masked_store, rule sa_postinsertL2_ok)

text \<open>The victim is in the set of the address it makes room for.\<close>

lemma victim_in_set:
  assumes m: "masked m a" and pre: "sa_preinsert vt hash cc a x req = Some (a', c, wb)" and wb: "wb \<noteq> 0"
  shows "sa_start hash a wb = sa_start hash a x"
proof -
  have inv: "inv_a a" "ready (sa_rp a)" using m by (simp_all add: masked_def)
  obtain h where h: "hash 0 x = Some h" using hash_total by blast
  obtain h' where h': "hash 0 wb = Some h'" using hash_total by blast
  have wf: "sa_wf a" "sa_placed hash a" using inv(1) by (simp_all add: sa_inv_def)
  note b = sa_start_bound [where hash = hash, OF wf(1) h]
  let ?cs = "[sa_start hash a x..<sa_start hash a x + sa_assoc a]"
  have fits: "inv_rp (sa_rp a)" "fits (sa_rp a) ?cs" "?cs \<noteq> []" "\<forall>c \<in> set ?cs. c < lines (sa_rp a)"
    using inv(1) b by (auto simp: sa_inv_def sa_wf_def)
  obtain rp c' where "vt_rankCands vt (sa_rp a) cc req ?cs = Some (rp, c')" "c' \<in> set ?cs"
    using rank_ok [OF fits(1) inv(2) fits(2-4)] by blast
  then have c: "sa_start hash a x \<le> c" "c < sa_start hash a x + sa_assoc a" "c < length (sa_array a)" "wb = sa_array a ! c"
    using pre b by (auto simp: sa_preinsert_def first_eq SetAssocCands_def)
  then have "sa_start hash a wb \<le> c" "c < sa_start hash a wb + sa_assoc a" using sa_placedD [OF wf(2) c(3)] wb by simp_all
  then obtain i j where "sa_start hash a x = i * sa_assoc a" "sa_start hash a wb = j * sa_assoc a"
    "i * sa_assoc a \<le> c" "c < Suc i * sa_assoc a" "j * sa_assoc a \<le> c" "c < Suc j * sa_assoc a"
    using c(1,2) h h' by (simp add: sa_start_def add.commute)
  then show ?thesis by (metis div_nat_eqI mult.commute)
qed

end

section \<open>The system\<close>

text \<open>
  \<open>mk c\<close> is the set mask of cache \<open>c\<close>; \<open>p\<close> is the shared cache, which compresses if \<open>l2\<close>, and \<open>kids\<close> are the cores' caches.
  \<open>mem\<close> is the memory of the simulated program, which the compressor reads, and \<open>sa\<close> says whether LRU counts sharers.
\<close>

definition sys_vt :: "(u64 \<Rightarrow> u8) \<Rightarrow> bool \<Rightarrow> nat \<Rightarrow> lru set_assoc array_vt" where
  "sys_vt mem sa = (\<lambda>_. SetAssocArray mem (LRUReplPolicy sa) id_fn)"

definition sys_shape :: "(nat \<Rightarrow> u32) \<Rightarrow> bool \<Rightarrow> nat \<Rightarrow> nat list \<Rightarrow> lru set_assoc shape" where
  "sys_shape mk l2 p kids =
     \<lparr>g_where = (\<lambda>_. sa_where id_fn), g_ainv = (\<lambda>c a. salru_inv a \<and> sa_setMask a = mk c), g_size = (\<lambda>_. sa_numLines),
      g_pend = (\<lambda>c a x l. salru_inv a \<and> sa_pend id_fn a x l \<and> sa_setMask a = mk c), g_mask = (\<lambda>c. ucast (mk c)),
      g_l2 = l2, g_parent = p, g_kids = kids\<rparr>"

definition sys_cores :: "nat \<Rightarrow> nat list \<Rightarrow> bool" where
  "sys_cores p kids \<longleftrightarrow> distinct kids \<and> p \<notin> set kids \<and> length kids \<le> MAX_CACHE_CHILDREN"

lemma sys_shape_sel [simp]:
  "g_where (sys_shape mk l2 p kids) c = sa_where id_fn" "g_size (sys_shape mk l2 p kids) c = sa_numLines"
  "g_mask (sys_shape mk l2 p kids) c = ucast (mk c)" "g_l2 (sys_shape mk l2 p kids) = l2"
  "g_parent (sys_shape mk l2 p kids) = p" "g_kids (sys_shape mk l2 p kids) = kids"
  by (simp_all add: sys_shape_def)

lemma sys_shape_masked:
  "g_ainv (sys_shape mk l2 p kids) c = lru_sa.masked (mk c)" "g_pend (sys_shape mk l2 p kids) c = lru_sa.mpend (mk c)"
  by (simp_all add: sys_shape_def fun_eq_iff lru_sa.masked_def lru_sa.mpend_def)

lemma mask32_inj:
  fixes x y :: u64 and m :: u32
  assumes "(ucast (x AND ucast m) :: u32) = ucast (y AND ucast m)"
  shows "x AND ucast m = y AND ucast m"
proof -
  have "(ucast (ucast (z AND ucast m) :: u32) :: u64) = z AND ucast m" for z :: u64
    by (rule bit_eqI) (auto simp: bit_simps dest: bit_imp_le_length)
  then show ?thesis using assms by metis
qed

lemma same_set:
  assumes "sa_wf a" "sa_start id_fn a wb = sa_start id_fn a x"
  shows "wb AND ucast (sa_setMask a) = x AND ucast (sa_setMask a)"
proof (rule mask32_inj)
  have "0 < sa_assoc a" using assms(1) by (simp add: sa_wf_def)
  then have "unat (ucast (wb AND ucast (sa_setMask a)) :: u32) = unat (ucast (x AND ucast (sa_setMask a)) :: u32)"
    using assms(2) by (simp add: sa_start_def id_hash_def)
  then show "(ucast (wb AND ucast (sa_setMask a)) :: u32) = ucast (x AND ucast (sa_setMask a))" by (simp only: word_unat_eq_iff)
qed

lemma sys_two_level:
  assumes "sys_cores p kids"
  shows "two_level (sys_vt mem sa) (sys_shape mk l2 p kids)"
proof (rule two_level.intro, goal_cases)
  case (1 k)
  show ?case unfolding sys_shape_masked sys_shape_sel by (simp add: sys_vt_def SetAssocArray_def lru_sa.plain_store)
next
  case 2
  show ?case unfolding sys_shape_masked sys_shape_sel
    by (cases l2) (simp_all add: sys_vt_def SetAssocArray_def lru_sa.plain_store lru_sa.l2_store)
next
  case (3 k a cc x req a' l wb)
  then have m: "lru_sa.masked (mk k) a" "sa_preinsert (LRUReplPolicy sa) id_fn cc a x req = Some (a', l, wb)"
    by (simp_all add: sys_shape_masked sys_vt_def SetAssocArray_def)
  have "sa_wf a" "sa_setMask a = mk k" using m(1) by (simp_all add: lru_sa.masked_def sa_inv_def)
  then show ?case using same_set [OF _ lru_sa.victim_in_set [OF m 3(4)]] by simp
qed (use assms in \<open>simp_all add: sys_cores_def\<close>)

section \<open>The initial state\<close>

text \<open>
  A system as the configuration builds it: cache 0 is the shared cache, caches 1 to \<open>sp_cores\<close> are the filter caches of the
  cores, and the memory is the object after them.
\<close>

record sys_params =
  sp_cores :: nat
  sp_l1Lines :: nat
  sp_l1Ways :: nat
  sp_l2Lines :: nat
  sp_l2Ways :: nat
  sp_l1AccLat :: u32
  sp_l1InvLat :: u32
  sp_l2AccLat :: u32
  sp_l2InvLat :: u32
  sp_memLat :: u32
  sp_l1Name :: string
  sp_l2Name :: string
  sp_getRTT :: "(nat \<Rightarrow> u32) option"
  sp_isPrefetcher :: bool
  sp_flags :: u32
  sp_procMask :: u64
  sp_lineBits :: nat

definition sys_kids :: "sys_params \<Rightarrow> nat list" where
  "sys_kids P = [1..<Suc (sp_cores P)]"

definition sys_mask :: "sys_params \<Rightarrow> nat \<Rightarrow> u32" where
  "sys_mask P c = of_nat (if c = 0 then sp_l2Lines P div sp_l2Ways P else sp_l1Lines P div sp_l1Ways P) - 1"

definition sys_new :: "sys_params \<Rightarrow> lru set_assoc hier option" where
  "sys_new P = do {
     l1 \<leftarrow> SetAssocArray_new (sp_l1Lines P) (sp_l1Ways P) (lru_new (sp_l1Lines P));
     l2 \<leftarrow> SetAssocArray_new (sp_l2Lines P) (sp_l2Ways P) (lru_new (sp_l2Lines P));
     t \<leftarrow> tcc_init (sys_kids P) (sp_getRTT P) (MESITopCC_new (sp_l2Lines P) False);
     Some
       \<lparr>bcc_of = (\<lambda>c. if c = 0 then bcc_init [Suc (sp_cores P)] (sp_getRTT P) (MESIBottomCC_new (sp_l2Lines P) 0 False)
                       else bcc_init [0] (sp_getRTT P) (MESIBottomCC_new (sp_l1Lines P) (c - 1) False)),
        tcc_of = (\<lambda>_. t), held = {},
        h_obj = (\<lambda>c. if c = 0 then CacheObj else if c \<le> sp_cores P then FilterCacheObj else SimpleMemObj (sp_memLat P)),
        h_cache = (\<lambda>c. if c = 0
            then \<lparr>c_array = l2, c_numLines = sp_l2Lines P, c_accLat = sp_l2AccLat P, c_invLat = sp_l2InvLat P, c_name = sp_l2Name P,
                  c_terminal = False, c_nonInclusiveHack = False\<rparr>
            else \<lparr>c_array = l1, c_numLines = sp_l1Lines P, c_accLat = sp_l1AccLat P, c_invLat = sp_l1InvLat P, c_name = sp_l1Name P,
                  c_terminal = True, c_nonInclusiveHack = False\<rparr>),
        h_filter = (\<lambda>c. f_setFlags (sp_flags P) (f_setSourceId (of_nat (c - 1))
            (FilterCache_new (sp_l1Lines P div sp_l1Ways P) (sp_isPrefetcher P)))),
        h_world = cw_fresh, h_recs = replicate (sp_cores P) None,
        h_events = \<lparr>es_events = (\<lambda>_. None), es_next = 0, es_enqueued = []\<rparr>,
        h_DirtyWB = 0, h_CleanWB = 0, h_load = 0, h_store = 0, h_procMask = sp_procMask P, h_lineBits = sp_lineBits P\<rparr> }"

definition sys_ok :: "sys_params \<Rightarrow> bool" where
  "sys_ok P \<longleftrightarrow> sp_cores P \<le> MAX_CACHE_CHILDREN \<and> sp_l1Lines P \<le> numLines \<and> sp_l2Lines P \<le> numLines \<and>
     sp_l1Ways P \<noteq> 0 \<and> sp_l2Ways P \<noteq> 0 \<and> isPow2 (of_nat (sp_l1Lines P div sp_l1Ways P) :: u32) \<and>
     isPow2 (of_nat (sp_l2Lines P div sp_l2Ways P) :: u32) \<and> sp_memLat P \<noteq> 0 \<and> sp_l1Name P \<noteq> ''l2-0'' \<and>
     \<not> has_flag (sp_flags P) PREFETCH \<and> sp_procMask P AND ucast (sys_mask P 1) = 0 \<and> 0 < sp_lineBits P"

abbreviation sys_g :: "sys_params \<Rightarrow> lru set_assoc shape" where
  "sys_g P \<equiv> sys_shape (sys_mask P) (sp_l2Name P = ''l2-0'') 0 (sys_kids P)"

lemma sys_kids_set [simp]: "set (sys_kids P) = {1..sp_cores P}" "length (sys_kids P) = sp_cores P"
  by (auto simp: sys_kids_def)

lemma sys_kids_nth: "i < sp_cores P \<Longrightarrow> sys_kids P ! i = Suc i"
  by (simp add: sys_kids_def del: upt_Suc)

lemma sys_cores_ok: "sys_ok P \<Longrightarrow> sys_cores 0 (sys_kids P)"
  by (simp add: sys_cores_def sys_ok_def) (simp add: sys_kids_def)

lemma sys_new_parts:
  assumes ok: "sys_ok P"
  obtains l1 l2 s where "sys_new P = Some s" "SetAssocArray_new (sp_l1Lines P) (sp_l1Ways P) (lru_new (sp_l1Lines P)) = Some l1"
    "SetAssocArray_new (sp_l2Lines P) (sp_l2Ways P) (lru_new (sp_l2Lines P)) = Some l2" "arr s = (\<lambda>c. if c = 0 then l2 else l1)"
    "barr s = (\<lambda>c. replicate (if c = 0 then sp_l2Lines P else sp_l1Lines P) I)"
    "earr s 0 = replicate (sp_l2Lines P) (entry_clear \<lparr>numSharers = 0, sharers = [], exclusive = False\<rparr>)"
    "farr s = (\<lambda>_. replicate (sp_l1Lines P div sp_l1Ways P) filter_entry_clear)" "held s = {}"
    "wired (sys_g P) s" "\<forall>c x. f_index (h_filter s c) x = unat (ucast (x AND ucast (sys_mask P 1)) :: u32)"
    "\<forall>c. f_numSets (h_filter s c) = sp_l1Lines P div sp_l1Ways P"
proof -
  obtain l1 l2 where l: "SetAssocArray_new (sp_l1Lines P) (sp_l1Ways P) (lru_new (sp_l1Lines P)) = Some l1"
    "SetAssocArray_new (sp_l2Lines P) (sp_l2Ways P) (lru_new (sp_l2Lines P)) = Some l2"
    using ok by (auto simp: sys_ok_def SetAssocArray_new_def Let_def)
  obtain t where t: "tcc_init (sys_kids P) (sp_getRTT P) (MESITopCC_new (sp_l2Lines P) False) = Some t"
    using ok by (auto simp: sys_ok_def tcc_init_def)
  have t': "tcc_children t = sys_kids P" "length (tcc_childrenRTTs t) = sp_cores P" "\<not> tcc_nonInclusiveHack t"
    "tcc_array t = replicate (sp_l2Lines P) (entry_clear \<lparr>numSharers = 0, sharers = [], exclusive = False\<rparr>)"
    using t by (auto simp: tcc_init_def MESITopCC_new_def split: if_splits)
  obtain s where s: "sys_new P = Some s" using l t by (simp add: sys_new_def)
  have eqs: "arr s = (\<lambda>c. if c = 0 then l2 else l1)" "barr s = (\<lambda>c. replicate (if c = 0 then sp_l2Lines P else sp_l1Lines P) I)"
    "earr s 0 = replicate (sp_l2Lines P) (entry_clear \<lparr>numSharers = 0, sharers = [], exclusive = False\<rparr>)"
    "farr s = (\<lambda>_. replicate (sp_l1Lines P div sp_l1Ways P) filter_entry_clear)" "held s = {}"
    "\<And>c. f_setMask (h_filter s c) = ucast (sys_mask P 1)" "\<And>c. f_numSets (h_filter s c) = sp_l1Lines P div sp_l1Ways P"
    using s l t t'(4) by (auto simp: sys_new_def proj_defs fun_eq_iff bcc_init_def MESIBottomCC_new_def FilterCache_new_def f_setFlags_def
        f_setSourceId_def sys_mask_def)
  have "wired_parent (sys_g P) s"
    using s l t t' ok by (auto simp: sys_new_def wired_parent_def Let_def is_l2_0_def bcc_init_def MESIBottomCC_new_def sys_ok_def)
  moreover have "wired_kid (sys_g P) s i" if i: "i < sp_cores P" for i
  proof -
    have "unat (of_nat i :: u32) = i" using i ok by (simp add: unat_of_nat sys_ok_def MAX_CACHE_CHILDREN_def)
    then show ?thesis
      using s l t ok i by (auto simp: sys_new_def wired_kid_def Let_def sys_kids_nth bcc_init_def MESIBottomCC_new_def sys_ok_def
          FilterCache_new_def f_setFlags_def f_setSourceId_def sys_mask_def)
  qed
  moreover have "h_recs s = replicate (sp_cores P) None" "h_lineBits s = sp_lineBits P" using s l t by (auto simp: sys_new_def)
  ultimately have w: "wired (sys_g P) s" using ok by (auto simp: wired_def sys_ok_def)
  have "f_index (h_filter s c) x = unat (ucast (x AND ucast (sys_mask P 1)) :: u32)" for c x by (simp only: f_index_def eqs(6))
  then show thesis using that [OF s l eqs(1-5) w] eqs(7) by blast
qed

lemma sys_new_inv:
  assumes ok: "sys_ok P"
  obtains s where "sys_new P = Some s" "hier_inv (sys_g P) s"
proof -
  let ?g = "sys_g P"
  obtain l1 l2 s where s: "sys_new P = Some s"
    and l: "SetAssocArray_new (sp_l1Lines P) (sp_l1Ways P) (lru_new (sp_l1Lines P)) = Some l1"
      "SetAssocArray_new (sp_l2Lines P) (sp_l2Ways P) (lru_new (sp_l2Lines P)) = Some l2"
    and e: "arr s = (\<lambda>c. if c = 0 then l2 else l1)" "barr s = (\<lambda>c. replicate (if c = 0 then sp_l2Lines P else sp_l1Lines P) I)"
      "earr s 0 = replicate (sp_l2Lines P) (entry_clear \<lparr>numSharers = 0, sharers = [], exclusive = False\<rparr>)"
      "farr s = (\<lambda>_. replicate (sp_l1Lines P div sp_l1Ways P) filter_entry_clear)" "held s = {}" "wired ?g s"
      "\<forall>c x. f_index (h_filter s c) x = unat (ucast (x AND ucast (sys_mask P 1)) :: u32)"
      "\<forall>c. f_numSets (h_filter s c) = sp_l1Lines P div sp_l1Ways P" by (rule sys_new_parts [OF ok])
  have n: "sp_l1Lines P < 2 ^ 32" "sp_l2Lines P < 2 ^ 32" "sp_l1Lines P \<le> numLines" "sp_l2Lines P \<le> numLines"
    using ok by (simp_all add: sys_ok_def numLines_def)
  note A = SetAssocArray_new_inv [OF l(1) n(1)] SetAssocArray_new_inv [OF l(2) n(2)]
  have m: "sa_setMask l1 = sys_mask P 1" "sa_setMask l2 = sys_mask P 0" "sa_numSets l1 = sp_l1Lines P div sp_l1Ways P"
    using l by (auto simp: SetAssocArray_new_def bind_eq_Some_conv Let_def sys_mask_def)
  have k: "sys_mask P c = sys_mask P 1" if "c \<noteq> 0" for c using that by (simp add: sys_mask_def)
  have ai: "g_ainv ?g c (arr s c)" for c using A m k [of c] by (simp add: sys_shape_def e(1))
  have none: "g_where ?g c (arr s c) x = None" for c x using A(2,5) by (simp add: e(1))
  have c: "cst ?g s c x = I" "ent ?g s x = None" for c x using none [of c x] none [of 0 x] by (simp_all add: cst_def ent_def)
  have "f_index (h_filter s c) x < sp_l1Lines P div sp_l1Ways P" for c x
    using setMask_bound [of l1 x] A(1) m by (simp add: e(7) sa_inv_def)
  then have "sized ?g s d" for d using none [of d] n(3,4) A(3,6) by (simp add: sized_def e)
  moreover have "free_ok ?g s d" for d by (simp add: free_ok_def e entry_clear_def)
  moreover have "entries_ok ?g s" by (auto simp: entries_ok_def e entry_ok_def entry_clear_def)
  moreover have "directory_ok ?g s" by (simp add: directory_ok_def dir_ok_def c)
  moreover have "filter_ok ?g {} s" by (simp add: filter_ok_def fent_ok_def e(4) filter_entry_clear_def f_valid_def)
  ultimately have "hier_inv ?g s" using e(5,6) ai by (simp add: hier_inv_def base_ok_def)
  with s show thesis by (rule that)
qed

section \<open>Properties\<close>

definition line_ok :: "nat \<Rightarrow> core_op \<Rightarrow> bool" where
  "line_ok lb oper = (case oper of CoreLoad a \<Rightarrow> drop_bit lb a \<noteq> 0 | CoreStore a \<Rightarrow> drop_bit lb a \<noteq> 0 | CoreSwitch \<Rightarrow> True)"

lemma sys_new_ops:
  assumes "sys_new P = Some s" "\<not> sp_isPrefetcher P"
  shows "\<not> f_isPrefetcher (h_filter s k)" "op_ok s k oper = line_ok (sp_lineBits P) oper"
proof -
  have "\<not> f_isPrefetcher (h_filter s k)" "h_lineBits s = sp_lineBits P"
    using assms by (auto simp: sys_new_def bind_eq_Some_conv f_setFlags_def f_setSourceId_def FilterCache_new_def)
  then show "\<not> f_isPrefetcher (h_filter s k)" "op_ok s k oper = line_ok (sp_lineBits P) oper"
    by (simp_all add: op_ok_def line_ok_def split: core_op.split)
qed

lemma sys_run:
  assumes ok: "sys_ok P" "\<not> sp_isPrefetcher P" "sys_new P = Some s"
    and ops: "\<forall>(k, oper, cyc) \<in> set ops. k \<in> {1..sp_cores P} \<and> line_ok (sp_lineBits P) oper \<and> unat cyc + 2 ^ 37 \<le> 2 ^ 64"
  obtains t where "core_run (sys_vt mem sa) (Suc (Suc f)) s ops = Some t" "hier_inv (sys_g P) t" "static t = static s"
proof -
  have inv: "hier_inv (sys_g P) s" using sys_new_inv [OF ok(1)] ok(3) by auto
  have "\<forall>(k, oper, cyc) \<in> set ops. k \<in> set (g_kids (sys_g P)) \<and> \<not> f_isPrefetcher (h_filter s k) \<and> op_ok s k oper \<and>
      unat cyc + 2 ^ 37 \<le> 2 ^ 64"
    using ops sys_new_ops [OF ok(3,2)] by auto
  from two_level.core_run_ok [OF sys_two_level [OF sys_cores_ok [OF ok(1)]] inv this, of mem sa f] that show thesis by blast
qed

definition two_cores :: sys_params where
  "two_cores = \<lparr>sp_cores = 2, sp_l1Lines = 4, sp_l1Ways = 2, sp_l2Lines = 8, sp_l2Ways = 2, sp_l1AccLat = 4, sp_l1InvLat = 4,
     sp_l2AccLat = 10, sp_l2InvLat = 10, sp_memLat = 100, sp_l1Name = ''l1d'', sp_l2Name = ''l2-0'', sp_getRTT = Some (\<lambda>_. 6),
     sp_isPrefetcher = False, sp_flags = 0, sp_procMask = 0, sp_lineBits = 6\<rparr>"

lemma two_cores_ok: "sys_ok two_cores" "\<not> sp_isPrefetcher two_cores" "sp_lineBits two_cores = 6" "sp_cores two_cores = 2"
  by (simp_all add: two_cores_def sys_ok_def MAX_CACHE_CHILDREN_def numLines_def isPow2_def has_flag_def PREFETCH_def)

interpretation duo: two_level "sys_vt mem sa" "sys_g two_cores" for mem sa
  by (rule sys_two_level [OF sys_cores_ok [OF two_cores_ok(1)]])

text \<open>
  C1. Coherence. In a system built with any number of cores up to 256, any cache sizes whose numbers of sets are powers of two and which fit the
  compressor's tables, and any latencies, the cores run every sequence of loads, stores and context switches to the end: no
  assertion of the caches, controllers, arrays or compressor fails, no lock is taken twice and all are released. In the
  state reached, a line that one core holds exclusively or modified is invalid in every other core.
\<close>

theorem cores_run_coherently:
  assumes "sys_ok P" "\<not> sp_isPrefetcher P" "sys_new P = Some s"
    "\<forall>(k, oper, cyc) \<in> set ops. k \<in> {1..sp_cores P} \<and> line_ok (sp_lineBits P) oper \<and> unat cyc + 2 ^ 37 \<le> 2 ^ 64"
  shows "\<exists>t. core_run (sys_vt mem sa) (Suc (Suc f)) s ops = Some t \<and> held t = {} \<and>
    (\<forall>x i j. x \<noteq> 0 \<longrightarrow> i \<in> {1..sp_cores P} \<longrightarrow> j \<in> {1..sp_cores P} \<longrightarrow> i \<noteq> j \<longrightarrow> is_EM (cst (sys_g P) t i x) \<longrightarrow> cst (sys_g P) t j x = I)"
proof -
  from sys_run [OF assms, of mem sa f] obtain t where
    t: "core_run (sys_vt mem sa) (Suc (Suc f)) s ops = Some t" "hier_inv (sys_g P) t" .
  have "held t = {}" using t(2) by (simp add: hier_inv_def)
  moreover have "cst (sys_g P) t j x = I"
    if "x \<noteq> 0" "i \<in> {1..sp_cores P}" "j \<in> {1..sp_cores P}" "i \<noteq> j" "is_EM (cst (sys_g P) t i x)" for x i j
    by (rule two_level.single_writer [OF sys_two_level [OF sys_cores_ok [OF assms(1)]] t(2) that(1) _ _ that(4,5)]) (use that in simp_all)
  ultimately show ?thesis using t(1) by blast
qed

theorem cores_run_coherently_witness:
  "\<exists>s t. sys_new two_cores = Some s \<and>
    core_run (sys_vt (\<lambda>_. 0) False) 2 s [(1, CoreStore 0x1040, 0), (2, CoreLoad 0x1040, 500), (1, CoreSwitch, 600)] = Some t \<and> held t = {}"
proof -
  obtain s where s: "sys_new two_cores = Some s" by (rule sys_new_inv [OF two_cores_ok(1)])
  let ?ops = "[(1, CoreStore 0x1040, 0), (2, CoreLoad 0x1040, 500), (1, CoreSwitch, 600)] :: (nat \<times> core_op \<times> u64) list"
  have "\<forall>(k, oper, cyc) \<in> set ?ops. k \<in> {1..sp_cores two_cores} \<and> line_ok (sp_lineBits two_cores) oper \<and> unat cyc + 2 ^ 37 \<le> 2 ^ 64"
    by (simp add: two_cores_ok line_ok_def drop_bit_eq_div)
  from cores_run_coherently [OF two_cores_ok(1,2) s this, of "\<lambda>_. 0" False 0] s show ?thesis by (auto simp: numeral_2_eq_2)
qed

text \<open>
  C2. Every operation completes. From any coherent state of a system, also with the next-line prefetcher, a load, a store or a
  context switch returns, at a cycle not before the one it started at, in a coherent state that differs in no latency, wiring or configuration. A
  store leaves its line modified in the core's cache and writable in its filter, and a context switch leaves the filter empty. A load passes through a coherent state, the one in
  which \<open>load\<close> itself ends, where its line is valid in the core's cache and readable in the filter. Without the prefetcher this is the final state. With it the
  prefetch of the next line follows, and may evict the loaded line again: at the end it is the next line that is valid and readable.
\<close>

theorem core_step_completes:
  assumes "sys_cores p kids" "hier_inv (sys_shape mk l2 p kids) s" "k \<in> set kids" "op_ok s k oper" "unat cyc + 2 ^ 37 \<le> 2 ^ 64"
  shows "\<exists>t r. core_step (sys_vt mem sa) (Suc (Suc f)) s k oper cyc = Some (t, r) \<and> hier_inv (sys_shape mk l2 p kids) t \<and> static t = static s \<and>
    op_done (sys_shape mk l2 p kids) t k oper \<and> cyc \<le> r \<and>
    (\<forall>a. oper = CoreLoad a \<longrightarrow>
      (\<exists>u q. filter_load1 (sys_vt mem sa) (obj_access (sys_vt mem sa) (Suc (Suc f))) (obj_inval (sys_vt mem sa) (Suc (Suc f))) s k a cyc = Some (u, q) \<and>
        hier_inv (sys_shape mk l2 p kids) u \<and> loaded (sys_shape mk l2 p kids) u k (drop_bit (h_lineBits s) a) \<and> cyc \<le> q \<and> q \<le> r))"
  by (rule two_level.core_step_ok [OF sys_two_level [OF assms(1)] assms(2)]) (use assms in simp_all)

theorem core_step_completes_witness:
  "\<exists>s t r. sys_new two_cores = Some s \<and> core_step (sys_vt (\<lambda>_. 0) False) 2 s 1 (CoreStore 0x1040) 7 = Some (t, r) \<and>
    cst (sys_g two_cores) t 1 0x41 = M \<and> 7 \<le> r"
proof -
  obtain s where s: "sys_new two_cores = Some s" "hier_inv (sys_g two_cores) s" by (rule sys_new_inv [OF two_cores_ok(1)])
  have lb: "h_procMask s = 0" "h_lineBits s = 6" using s(1) by (auto simp: sys_new_def bind_eq_Some_conv two_cores_def)
  have o: "op_ok s 1 (CoreStore 0x1040)" by (simp add: op_ok_def lb drop_bit_eq_div)
  have k: "(1 :: nat) \<in> set (sys_kids two_cores)" "unat (7 :: u64) + 2 ^ 37 \<le> 2 ^ 64" by (simp_all add: two_cores_ok)
  from core_step_completes [OF sys_cores_ok [OF two_cores_ok(1)] s(2) k(1) o k(2), of "\<lambda>_. 0" False 0] obtain t r where
    t: "core_step (sys_vt (\<lambda>_. 0) False) 2 s 1 (CoreStore 0x1040) 7 = Some (t, r)" "static t = static s"
      "op_done (sys_g two_cores) t 1 (CoreStore 0x1040)" "7 \<le> r"
    by (auto simp: numeral_2_eq_2)
  then have "cst (sys_g two_cores) t 1 0x41 = M" using lb static_eqD(19,20) [OF t(2)] by (simp add: op_done_def drop_bit_eq_div)
  with s(1) t show ?thesis by blast
qed

text \<open>
  C3. The filters never serve stale data. After any run from the initial state, when the filter of one core would let a
  store to a line through without consulting its cache, no other core's filter would let a load of that line through.
\<close>

theorem filter_hits_exclusive:
  assumes "sys_ok P" "\<not> sp_isPrefetcher P" "sys_new P = Some s"
    "\<forall>(k, oper, cyc) \<in> set ops. k \<in> {1..sp_cores P} \<and> line_ok (sp_lineBits P) oper \<and> unat cyc + 2 ^ 37 \<le> 2 ^ 64"
    "core_run (sys_vt mem sa) (Suc (Suc f)) s ops = Some t"
    "i \<in> {1..sp_cores P}" "j \<in> {1..sp_cores P}" "i \<noteq> j" "v \<noteq> 0" "v \<noteq> -1"
    "writes t i v"
  shows "\<not> reads t j v"
proof
  assume rd: "reads t j v"
  note L = sys_two_level [OF sys_cores_ok [OF assms(1)]]
  have inv: "hier_inv (sys_g P) t" using sys_run [OF assms(1-4), of mem sa f] assms(5) by auto
  have ij: "i \<in> set (g_kids (sys_g P))" "j \<in> set (g_kids (sys_g P))" using assms(6,7) by simp_all
  have "is_EM (cst (sys_g P) t i (h_procMask t OR v))"
    using two_level.filter_hit(2) [OF L inv ij(1) assms(9,10)] assms(11) by (simp add: is_EM_def)
  moreover have "h_procMask t OR v \<noteq> 0" using assms(9) by (simp add: or_eq_0_iff)
  ultimately have "cst (sys_g P) t j (h_procMask t OR v) = I" using two_level.single_writer [OF L inv _ ij assms(8)] by blast
  then show False using two_level.filter_hit(1) [OF L inv ij(2) assms(9,10)] rd by simp
qed

theorem filter_hits_exclusive_witness:
  "\<exists>s t. sys_new two_cores = Some s \<and> core_run (sys_vt (\<lambda>_. 0) False) 2 s [(2, CoreLoad 0x1040, 0), (1, CoreStore 0x1040, 500)] = Some t \<and>
    \<not> reads t 2 0x41"
proof -
  obtain s where s: "sys_new two_cores = Some s" "hier_inv (sys_g two_cores) s" by (rule sys_new_inv [OF two_cores_ok(1)])
  have lb: "h_lineBits s = 6" using s(1) by (auto simp: sys_new_def bind_eq_Some_conv two_cores_def)
  have k: "(2 :: nat) \<in> set (g_kids (sys_g two_cores))" "(1 :: nat) \<in> set (g_kids (sys_g two_cores))" by (simp_all add: two_cores_ok)
  have c: "unat (0 :: u64) + 2 ^ 37 \<le> 2 ^ 64" "unat (500 :: u64) + 2 ^ 37 \<le> 2 ^ 64" by simp_all
  have o: "op_ok s 2 (CoreLoad 0x1040)" by (simp add: op_ok_def lb drop_bit_eq_div sys_new_ops(1) [OF s(1) two_cores_ok(2)])
  from duo.core_step_ok [OF s(2) k(1) o c(1), of "\<lambda>_. 0" False 0] obtain u r where
    u: "core_step (sys_vt (\<lambda>_. 0) False) 2 s 2 (CoreLoad 0x1040) 0 = Some (u, r)" "hier_inv (sys_g two_cores) u" "static u = static s"
    by (auto simp: numeral_2_eq_2)
  have lbu: "h_lineBits u = 6" using lb static_eqD(20) [OF u(3)] by simp
  have o1: "op_ok u 1 (CoreStore 0x1040)" by (simp add: op_ok_def lbu drop_bit_eq_div)
  from duo.core_step_ok [OF u(2) k(2) o1 c(2), of "\<lambda>_. 0" False 0] obtain t r' where
    t: "core_step (sys_vt (\<lambda>_. 0) False) 2 u 1 (CoreStore 0x1040) 500 = Some (t, r')" "static t = static u"
      "op_done (sys_g two_cores) t 1 (CoreStore 0x1040)"
    by (auto simp: numeral_2_eq_2)
  have w: "writes t 1 0x41" using t(3) lbu static_eqD(20) [OF t(2)] by (simp add: op_done_def drop_bit_eq_div)
  let ?ops = "[(2, CoreLoad 0x1040, 0), (1, CoreStore 0x1040, 500)] :: (nat \<times> core_op \<times> u64) list"
  have ops: "\<forall>(k, oper, cyc) \<in> set ?ops. k \<in> {1..sp_cores two_cores} \<and> line_ok (sp_lineBits two_cores) oper \<and> unat cyc + 2 ^ 37 \<le> 2 ^ 64"
    by (simp add: two_cores_ok line_ok_def drop_bit_eq_div)
  have run: "core_run (sys_vt (\<lambda>_. 0) False) (Suc (Suc 0)) s ?ops = Some t" using u(1) t(1) by (simp add: numeral_2_eq_2)
  have "\<not> reads t 2 0x41"
    by (rule filter_hits_exclusive [OF two_cores_ok(1,2) s(1) ops run _ _ _ _ _ w]) (simp_all add: two_cores_ok)
  then show ?thesis using s(1) run by (auto simp: numeral_2_eq_2)
qed

text \<open>
  C4. Inclusion. After any run, a line that a core holds in any state is valid in the shared cache, and the shared cache has it
  exclusively or modified if the core does; so a writeback never finds its line missing.
\<close>

theorem shared_cache_inclusive:
  assumes "sys_ok P" "\<not> sp_isPrefetcher P" "sys_new P = Some s"
    "\<forall>(k, oper, cyc) \<in> set ops. k \<in> {1..sp_cores P} \<and> line_ok (sp_lineBits P) oper \<and> unat cyc + 2 ^ 37 \<le> 2 ^ 64"
    "core_run (sys_vt mem sa) (Suc (Suc f)) s ops = Some t"
    "k \<in> {1..sp_cores P}" "x \<noteq> 0" "cst (sys_g P) t k x \<noteq> I"
  shows "cst (sys_g P) t 0 x \<noteq> I \<and> (is_EM (cst (sys_g P) t k x) \<longrightarrow> is_EM (cst (sys_g P) t 0 x))"
proof -
  note L = sys_two_level [OF sys_cores_ok [OF assms(1)]]
  have inv: "hier_inv (sys_g P) t" using sys_run [OF assms(1-4), of mem sa f] assms(5) by auto
  have k: "k \<in> set (g_kids (sys_g P))" using assms(6) by simp
  show ?thesis using two_level.inclusion [OF L inv assms(7) k assms(8)] by simp
qed

theorem shared_cache_inclusive_witness:
  "\<exists>s t. sys_new two_cores = Some s \<and> core_run (sys_vt (\<lambda>_. 0) False) 2 s [(1, CoreStore 0x1040, 7)] = Some t \<and>
    is_EM (cst (sys_g two_cores) t 0 0x41)"
proof -
  obtain s where s: "sys_new two_cores = Some s" "hier_inv (sys_g two_cores) s" by (rule sys_new_inv [OF two_cores_ok(1)])
  have lb: "h_procMask s = 0" "h_lineBits s = 6" using s(1) by (auto simp: sys_new_def bind_eq_Some_conv two_cores_def)
  have k: "(1 :: nat) \<in> set (g_kids (sys_g two_cores))" "unat (7 :: u64) + 2 ^ 37 \<le> 2 ^ 64" by (simp_all add: two_cores_ok)
  have o: "op_ok s 1 (CoreStore 0x1040)" by (simp add: op_ok_def lb drop_bit_eq_div)
  from duo.core_step_ok [OF s(2) k(1) o k(2), of "\<lambda>_. 0" False 0] obtain t r where
    t: "core_step (sys_vt (\<lambda>_. 0) False) 2 s 1 (CoreStore 0x1040) 7 = Some (t, r)" "static t = static s"
      "op_done (sys_g two_cores) t 1 (CoreStore 0x1040)"
    by (auto simp: numeral_2_eq_2)
  have m: "cst (sys_g two_cores) t 1 0x41 = M" using t(3) lb static_eqD(19,20) [OF t(2)] by (simp add: op_done_def drop_bit_eq_div)
  let ?ops = "[(1, CoreStore 0x1040, 7)] :: (nat \<times> core_op \<times> u64) list"
  have ops: "\<forall>(k, oper, cyc) \<in> set ?ops. k \<in> {1..sp_cores two_cores} \<and> line_ok (sp_lineBits two_cores) oper \<and> unat cyc + 2 ^ 37 \<le> 2 ^ 64"
    by (simp add: two_cores_ok line_ok_def drop_bit_eq_div)
  have run: "core_run (sys_vt (\<lambda>_. 0) False) (Suc (Suc 0)) s ?ops = Some t" using t(1) by (simp add: numeral_2_eq_2)
  have "is_EM (cst (sys_g two_cores) t 0 0x41)"
    using shared_cache_inclusive [OF two_cores_ok(1,2) s(1) ops run, where k = 1 and x = "0x41"] m by (simp add: two_cores_ok is_EM_def)
  then show ?thesis using s(1) run by (auto simp: numeral_2_eq_2)
qed

end
