(* ===== verification/InList.thy ===== *)
theory InList
  imports Prelude
begin

text \<open>
  The intrusive doubly-linked list of \<^verbatim>\<open>src/intrusive_list.h\<close>, which the scheduler keeps its queues in.

  Nodes and lists live in one store. A node has a next and a previous node and the list that owns it; a list has a head, a
  tail and a count. The operations are the code's, assertion by assertion. The specification is a function from
  lists to the sequences of their elements; the operations refine it, and fail exactly when the specification does.
\<close>

section \<open>Definitions\<close>

record inode =
  in_next :: "nat option"
  in_prev :: "nat option"
  in_owner :: "nat option"

record inlist =
  il_head :: "nat option"
  il_tail :: "nat option"
  il_elems :: u64

record il_heap =
  ih_node :: "nat \<Rightarrow> inode"
  ih_list :: "nat \<Rightarrow> inlist"

definition InListNode_new :: inode where
  "InListNode_new = \<lparr>in_next = None, in_prev = None, in_owner = None\<rparr>"

definition InList_new :: inlist where
  "InList_new = \<lparr>il_head = None, il_tail = None, il_elems = 0\<rparr>"

definition upd_node :: "nat \<Rightarrow> (inode \<Rightarrow> inode) \<Rightarrow> il_heap \<Rightarrow> il_heap" where
  "upd_node e f h = h\<lparr>ih_node := (ih_node h)(e := f (ih_node h e))\<rparr>"

definition upd_list :: "nat \<Rightarrow> (inlist \<Rightarrow> inlist) \<Rightarrow> il_heap \<Rightarrow> il_heap" where
  "upd_list l f h = h\<lparr>ih_list := (ih_list h)(l := f (ih_list h l))\<rparr>"

definition node_unlink :: "nat \<Rightarrow> nat \<Rightarrow> il_heap \<Rightarrow> il_heap option" where
  "node_unlink e lst h = do {
     let h = (case in_next (ih_node h e) of
                Some n \<Rightarrow> upd_node n (\<lambda>x. x\<lparr>in_prev := in_prev (ih_node h e)\<rparr>) h | None \<Rightarrow> h);
     let h = (case in_prev (ih_node h e) of
                Some p \<Rightarrow> upd_node p (\<lambda>x. x\<lparr>in_next := in_next (ih_node h e)\<rparr>) h | None \<Rightarrow> h);
     let h = upd_node e (\<lambda>x. x\<lparr>in_next := None, in_prev := None\<rparr>) h;
     assert_that (in_owner (ih_node h e) = Some lst);
     Some (upd_node e (\<lambda>x. x\<lparr>in_owner := None\<rparr>) h) }"

definition node_linkPrev :: "nat \<Rightarrow> nat \<Rightarrow> nat \<Rightarrow> il_heap \<Rightarrow> il_heap option" where
  "node_linkPrev e p lst h = do {
     assert_that (in_owner (ih_node h e) = None);
     assert_that (in_prev (ih_node h e) = None \<and> in_next (ih_node h e) = None);
     h \<leftarrow> (case in_next (ih_node h p) of
             None \<Rightarrow> Some h
           | Some n \<Rightarrow> do {
               assert_that (in_prev (ih_node h n) = Some p);
               let h = upd_node n (\<lambda>x. x\<lparr>in_prev := Some e\<rparr>) h;
               Some (upd_node e (\<lambda>x. x\<lparr>in_next := in_next (ih_node h p)\<rparr>) h) });
     let h = upd_node p (\<lambda>x. x\<lparr>in_next := Some e\<rparr>) h;
     Some (upd_node e (\<lambda>x. x\<lparr>in_prev := Some p, in_owner := Some lst\<rparr>) h) }"

definition il_empty :: "nat \<Rightarrow> il_heap \<Rightarrow> bool" where
  "il_empty l h \<longleftrightarrow> il_head (ih_list h l) = None"

definition il_front :: "nat \<Rightarrow> il_heap \<Rightarrow> nat option" where
  "il_front l h = il_head (ih_list h l)"

definition il_back :: "nat \<Rightarrow> il_heap \<Rightarrow> nat option" where
  "il_back l h = il_tail (ih_list h l)"

definition il_size :: "nat \<Rightarrow> il_heap \<Rightarrow> u64" where
  "il_size l h = il_elems (ih_list h l)"

definition il_unlinked :: "nat \<Rightarrow> il_heap \<Rightarrow> bool" where
  "il_unlinked e h \<longleftrightarrow> in_next (ih_node h e) = None \<and> in_prev (ih_node h e) = None \<and> in_owner (ih_node h e) = None"

definition il_push_front :: "nat \<Rightarrow> nat \<Rightarrow> il_heap \<Rightarrow> il_heap option" where
  "il_push_front l e h = do {
     assert_that (il_unlinked e h);
     h \<leftarrow> (if il_empty l h then Some (upd_list l (\<lambda>x. x\<lparr>il_head := Some e, il_tail := Some e\<rparr>) h)
           else do {
             hd \<leftarrow> il_head (ih_list h l);
             assert_that (in_prev (ih_node h hd) = None \<and> in_owner (ih_node h hd) = Some l);
             let h = upd_node e (\<lambda>x. x\<lparr>in_next := Some hd\<rparr>) h;
             let h = upd_node hd (\<lambda>x. x\<lparr>in_prev := Some e\<rparr>) h;
             Some (upd_list l (\<lambda>x. x\<lparr>il_head := Some e\<rparr>) h) });
     let h = upd_node e (\<lambda>x. x\<lparr>in_owner := Some l\<rparr>) h;
     Some (upd_list l (\<lambda>x. x\<lparr>il_elems := il_elems x + 1\<rparr>) h) }"

definition il_push_back :: "nat \<Rightarrow> nat \<Rightarrow> il_heap \<Rightarrow> il_heap option" where
  "il_push_back l e h = do {
     assert_that (il_unlinked e h);
     h \<leftarrow> (if il_empty l h
           then Some (upd_node e (\<lambda>x. x\<lparr>in_owner := Some l\<rparr>) (upd_list l (\<lambda>x. x\<lparr>il_head := Some e, il_tail := Some e\<rparr>) h))
           else do {
             tl \<leftarrow> il_tail (ih_list h l);
             h \<leftarrow> node_linkPrev e tl l h;
             Some (upd_list l (\<lambda>x. x\<lparr>il_tail := Some e\<rparr>) h) });
     Some (upd_list l (\<lambda>x. x\<lparr>il_elems := il_elems x + 1\<rparr>) h) }"

definition il_pop_front :: "nat \<Rightarrow> il_heap \<Rightarrow> il_heap option" where
  "il_pop_front l h =
     (case il_head (ih_list h l) of
        None \<Rightarrow> Some h
      | Some e \<Rightarrow> do {
          let h = upd_list l (\<lambda>x. x\<lparr>il_head := in_next (ih_node h e)\<rparr>) h;
          h \<leftarrow> node_unlink e l h;
          let h = (if il_head (ih_list h l) = None then upd_list l (\<lambda>x. x\<lparr>il_tail := None\<rparr>) h else h);
          Some (upd_list l (\<lambda>x. x\<lparr>il_elems := il_elems x - 1\<rparr>) h) })"

definition il_pop_back :: "nat \<Rightarrow> il_heap \<Rightarrow> il_heap option" where
  "il_pop_back l h =
     (if il_empty l h then Some h
      else do {
        e \<leftarrow> il_tail (ih_list h l);
        let h = upd_list l (\<lambda>x. x\<lparr>il_tail := in_prev (ih_node h e)\<rparr>) h;
        h \<leftarrow> node_unlink e l h;
        let h = (if il_tail (ih_list h l) = None then upd_list l (\<lambda>x. x\<lparr>il_head := None\<rparr>) h else h);
        Some (upd_list l (\<lambda>x. x\<lparr>il_elems := il_elems x - 1\<rparr>) h) })"

definition il_remove :: "nat \<Rightarrow> nat \<Rightarrow> il_heap \<Rightarrow> il_heap option" where
  "il_remove l e h = do {
     let h = (if il_head (ih_list h l) = Some e then upd_list l (\<lambda>x. x\<lparr>il_head := in_next (ih_node h e)\<rparr>) h else h);
     let h = (if il_tail (ih_list h l) = Some e then upd_list l (\<lambda>x. x\<lparr>il_tail := in_prev (ih_node h e)\<rparr>) h else h);
     h \<leftarrow> node_unlink e l h;
     Some (upd_list l (\<lambda>x. x\<lparr>il_elems := il_elems x - 1\<rparr>) h) }"

definition il_insertAfter :: "nat \<Rightarrow> nat \<Rightarrow> nat \<Rightarrow> il_heap \<Rightarrow> il_heap option" where
  "il_insertAfter l prev e h = do {
     assert_that (in_owner (ih_node h e) = None);
     assert_that (in_owner (ih_node h prev) = Some l);
     h \<leftarrow> node_linkPrev e prev l h;
     let h = (if Some prev = il_tail (ih_list h l) then upd_list l (\<lambda>x. x\<lparr>il_tail := Some e\<rparr>) h else h);
     Some (upd_list l (\<lambda>x. x\<lparr>il_elems := il_elems x + 1\<rparr>) h) }"

datatype il_op = PushFront nat nat | PushBack nat nat | PopFront nat | PopBack nat | Remove nat nat | InsertAfter nat nat nat

fun il_step :: "il_heap \<Rightarrow> il_op \<Rightarrow> il_heap option" where
  "il_step h (PushFront l e) = il_push_front l e h"
| "il_step h (PushBack l e) = il_push_back l e h"
| "il_step h (PopFront l) = il_pop_front l h"
| "il_step h (PopBack l) = il_pop_back l h"
| "il_step h (Remove l e) = il_remove l e h"
| "il_step h (InsertAfter l p e) = il_insertAfter l p e h"

section \<open>Specification\<close>

definition free_elem :: "(nat \<Rightarrow> nat list) \<Rightarrow> nat \<Rightarrow> bool" where
  "free_elem A e \<longleftrightarrow> (\<forall>l. e \<notin> set (A l))"

fun insert_after :: "nat \<Rightarrow> nat \<Rightarrow> nat list \<Rightarrow> nat list" where
  "insert_after p e [] = []"
| "insert_after p e (x # xs) = (if x = p then x # e # xs else x # insert_after p e xs)"

fun spec_ok :: "(nat \<Rightarrow> nat list) \<Rightarrow> il_op \<Rightarrow> bool" where
  "spec_ok A (PushFront l e) = free_elem A e"
| "spec_ok A (PushBack l e) = free_elem A e"
| "spec_ok A (Remove l e) = (e \<in> set (A l))"
| "spec_ok A (InsertAfter l p e) = (free_elem A e \<and> p \<in> set (A l))"
| "spec_ok A _ = True"

fun spec_upd :: "(nat \<Rightarrow> nat list) \<Rightarrow> il_op \<Rightarrow> nat \<Rightarrow> nat list" where
  "spec_upd A (PushFront l e) = A(l := e # A l)"
| "spec_upd A (PushBack l e) = A(l := A l @ [e])"
| "spec_upd A (PopFront l) = A(l := tl (A l))"
| "spec_upd A (PopBack l) = A(l := butlast (A l))"
| "spec_upd A (Remove l e) = A(l := remove1 e (A l))"
| "spec_upd A (InsertAfter l p e) = A(l := insert_after p e (A l))"

text \<open>What a list owns: a chain of nodes from the head to the tail.\<close>

definition first :: "nat list \<Rightarrow> nat option \<Rightarrow> nat option" where
  "first xs n = (case xs of [] \<Rightarrow> n | x # _ \<Rightarrow> Some x)"

definition lastp :: "nat option \<Rightarrow> nat list \<Rightarrow> nat option" where
  "lastp p xs = (if xs = [] then p else Some (last xs))"

fun linked :: "(nat \<Rightarrow> inode) \<Rightarrow> nat \<Rightarrow> nat option \<Rightarrow> nat list \<Rightarrow> nat option \<Rightarrow> bool" where
  "linked nd l p [] n = True"
| "linked nd l p (x # xs) n =
     (nd x = \<lparr>in_next = first xs n, in_prev = p, in_owner = Some l\<rparr> \<and> linked nd l (Some x) xs n)"

definition il_list :: "il_heap \<Rightarrow> nat \<Rightarrow> nat list \<Rightarrow> bool" where
  "il_list h l xs \<longleftrightarrow> distinct xs \<and> linked (ih_node h) l None xs None \<and>
     ih_list h l = \<lparr>il_head = first xs None, il_tail = lastp None xs, il_elems = of_nat (length xs)\<rparr>"

definition il_refines :: "il_heap \<Rightarrow> (nat \<Rightarrow> nat list) \<Rightarrow> bool" where
  "il_refines h A \<longleftrightarrow> (\<forall>l. il_list h l (A l)) \<and> (\<forall>e. free_elem A e \<longrightarrow> ih_node h e = InListNode_new)"

section \<open>Chains\<close>

lemma first_simps [simp]: "first [] n = n" "first (x # xs) n = Some x"
  by (simp_all add: first_def)

lemma lastp_simps [simp]: "lastp p [] = p" "lastp p (xs @ [x]) = Some x" "lastp p (x # xs) = lastp (Some x) xs"
  by (simp_all add: lastp_def)

lemma linked_append: "linked nd l p (xs @ ys) n \<longleftrightarrow> linked nd l p xs (first ys n) \<and> linked nd l (lastp p xs) ys n"
proof (induction xs arbitrary: p)
  case (Cons x xs)
  have "first (xs @ ys) n = first xs (first ys n)" by (cases xs) simp_all
  then show ?case using Cons by simp
qed simp

lemma linked_cong: "(\<And>x. x \<in> set xs \<Longrightarrow> nd' x = nd x) \<Longrightarrow> linked nd' l p xs n = linked nd l p xs n"
  by (induction xs arbitrary: p) simp_all

lemma linked_upd [simp]: "x \<notin> set xs \<Longrightarrow> linked (nd(x := v)) l p xs n = linked nd l p xs n"
  by (rule linked_cong) auto

lemma linked_owner: "linked nd l p xs n \<Longrightarrow> x \<in> set xs \<Longrightarrow> in_owner (nd x) = Some l"
  by (induction xs arbitrary: p) auto

lemma upd_node_sel [simp]: "ih_node (upd_node e f h) = (ih_node h)(e := f (ih_node h e))" "ih_list (upd_node e f h) = ih_list h"
  by (simp_all add: upd_node_def)

lemma upd_list_sel [simp]: "ih_list (upd_list l f h) = (ih_list h)(l := f (ih_list h l))" "ih_node (upd_list l f h) = ih_node h"
  by (simp_all add: upd_list_def)

text \<open>Taking a node out of a chain, and putting one in.\<close>

lemma unlink_ok:
  assumes "distinct (as @ e # bs)" "linked (ih_node h) l None (as @ e # bs) None"
  shows "\<exists>h'. node_unlink e l h = Some h' \<and> ih_list h' = ih_list h \<and> ih_node h' e = InListNode_new \<and>
    linked (ih_node h') l None (as @ bs) None \<and> (\<forall>x. x \<notin> set (as @ e # bs) \<longrightarrow> ih_node h' x = ih_node h x)"
  using assms
  by (cases as rule: rev_cases; cases bs) (simp_all add: node_unlink_def linked_append InListNode_new_def)

lemma unlink_foreign: "in_owner (ih_node h e) \<noteq> Some l \<Longrightarrow> node_unlink e l h = None"
  by (auto simp: node_unlink_def Let_def split: option.splits)

lemma linkPrev_ok:
  assumes "distinct (as @ p # bs)" "linked (ih_node h) l None (as @ p # bs) None" "e \<notin> set (as @ p # bs)" "ih_node h e = InListNode_new"
  shows "\<exists>h'. node_linkPrev e p l h = Some h' \<and> ih_list h' = ih_list h \<and>
    linked (ih_node h') l None (as @ p # e # bs) None \<and> (\<forall>x. x \<notin> set (as @ p # bs) \<longrightarrow> x \<noteq> e \<longrightarrow> ih_node h' x = ih_node h x)"
  using assms
  by (cases bs) (simp_all add: node_linkPrev_def linked_append InListNode_new_def)

section \<open>Refinement\<close>

lemma refinesD:
  assumes "il_refines h A"
  shows "distinct (A l)" "linked (ih_node h) l None (A l) None"
    "ih_list h l = \<lparr>il_head = first (A l) None, il_tail = lastp None (A l), il_elems = of_nat (length (A l))\<rparr>"
    "free_elem A e \<Longrightarrow> ih_node h e = InListNode_new"
    "e \<in> set (A l) \<Longrightarrow> in_owner (ih_node h e) = Some l"
  using assms linked_owner [of "ih_node h" l None "A l" None e] by (auto simp: il_refines_def il_list_def)

lemma refines_disjoint: "il_refines h A \<Longrightarrow> e \<in> set (A l) \<Longrightarrow> e \<in> set (A m) \<Longrightarrow> l = m"
  using refinesD(5) [of h A e l] refinesD(5) [of h A e m] by simp

lemma refines_owner_iff: "il_refines h A \<Longrightarrow> in_owner (ih_node h e) = Some l \<longleftrightarrow> e \<in> set (A l)"
  using refinesD(4) [of h A e] refinesD(5) [of h A e] by (cases "free_elem A e") (auto simp: InListNode_new_def free_elem_def)

lemma refines_unlinked_iff: "il_refines h A \<Longrightarrow> il_unlinked e h \<longleftrightarrow> free_elem A e"
  using refinesD(4) [of h A e] refinesD(5) [of h A e] by (auto simp: il_unlinked_def InListNode_new_def free_elem_def)

text \<open>One list changes; its new elements were free, and the ones it loses become free.\<close>

lemma refines_upd:
  assumes R: "il_refines h A" and l: "il_list h' l xs" "\<And>m. m \<noteq> l \<Longrightarrow> ih_list h' m = ih_list h m"
    and fresh: "\<And>x. x \<in> set xs \<Longrightarrow> x \<in> set (A l) \<or> free_elem A x"
    and lost: "\<And>x. x \<in> set (A l) \<Longrightarrow> x \<notin> set xs \<Longrightarrow> ih_node h' x = InListNode_new"
    and frame: "\<And>x. x \<notin> set (A l) \<Longrightarrow> x \<notin> set xs \<Longrightarrow> ih_node h' x = ih_node h x"
  shows "il_refines h' (A(l := xs))"
proof -
  have "il_list h' m (A m)" if m: "m \<noteq> l" for m
  proof -
    have "ih_node h' x = ih_node h x" if x: "x \<in> set (A m)" for x
    proof (rule frame)
      show "x \<notin> set (A l)" using refines_disjoint [OF R x] m by blast
      then show "x \<notin> set xs" using fresh [of x] x by (auto simp: free_elem_def)
    qed
    then have "linked (ih_node h') m None (A m) None" using refinesD(2) [OF R, of m] linked_cong [of "A m" "ih_node h'" "ih_node h"] by simp
    then show ?thesis using refinesD(1,3) [OF R, of m] l(2) [OF m] by (simp add: il_list_def)
  qed
  moreover have "ih_node h' e = InListNode_new" if e: "free_elem (A(l := xs)) e" for e
  proof -
    have all: "e \<notin> set ((A(l := xs)) m)" for m using e by (simp add: free_elem_def)
    have xs: "e \<notin> set xs" using all [of l] by simp
    show ?thesis
    proof (cases "e \<in> set (A l)")
      case False
      have "free_elem A e" unfolding free_elem_def using all False by (metis fun_upd_other)
      then show ?thesis using frame [OF False xs] refinesD(4) [OF R] by simp
    qed (rule lost [OF _ xs])
  qed
  ultimately show ?thesis using l(1) by (simp add: il_refines_def)
qed

lemma push_front_refines:
  assumes R: "il_refines h A" and e: "free_elem A e"
  shows "\<exists>h'. il_push_front l e h = Some h' \<and> il_refines h' (A(l := e # A l))"
proof -
  note D = refinesD(1-3) [OF R, where l = l] and n = refinesD(4) [OF R e]
  have el: "e \<notin> set (A l)" using e by (simp add: free_elem_def)
  have "\<exists>h'. il_push_front l e h = Some h' \<and> il_list h' l (e # A l) \<and> (\<forall>m. m \<noteq> l \<longrightarrow> ih_list h' m = ih_list h m) \<and>
    (\<forall>x. x \<notin> set (e # A l) \<longrightarrow> ih_node h' x = ih_node h x)"
    using D(1-3) n el
    by (cases "A l") (auto simp: il_push_front_def il_unlinked_def il_empty_def InListNode_new_def il_list_def)
  then obtain h' where h': "il_push_front l e h = Some h'" "il_list h' l (e # A l)" "\<And>m. m \<noteq> l \<Longrightarrow> ih_list h' m = ih_list h m"
    "\<And>x. x \<notin> set (e # A l) \<Longrightarrow> ih_node h' x = ih_node h x" by auto
  have "il_refines h' (A(l := e # A l))" by (rule refines_upd [OF R h'(2,3)]) (use e h'(4) in auto)
  then show ?thesis using h'(1) by blast
qed

lemma push_back_refines:
  assumes R: "il_refines h A" and e: "free_elem A e"
  shows "\<exists>h'. il_push_back l e h = Some h' \<and> il_refines h' (A(l := A l @ [e]))"
proof -
  note D = refinesD(1-3) [OF R, where l = l] and n = refinesD(4) [OF R e]
  have el: "e \<notin> set (A l)" using e by (simp add: free_elem_def)
  have u: "il_unlinked e h" using n by (simp add: il_unlinked_def InListNode_new_def)
  have "\<exists>h'. il_push_back l e h = Some h' \<and> il_list h' l (A l @ [e]) \<and> (\<forall>m. m \<noteq> l \<longrightarrow> ih_list h' m = ih_list h m) \<and>
    (\<forall>x. x \<notin> set (A l @ [e]) \<longrightarrow> ih_node h' x = ih_node h x)"
  proof (cases "A l" rule: rev_cases)
    case Nil
    then show ?thesis using D n u by (auto simp: il_push_back_def il_empty_def InListNode_new_def il_list_def)
  next
    case (snoc ys p)
    have ne: "\<not> il_empty l h" "il_tail (ih_list h l) = Some p" using D(3) snoc by (cases ys; simp add: il_empty_def)+
    from linkPrev_ok [of ys p "[]" h l e] D(1,2) n el snoc obtain h1 where
      h1: "node_linkPrev e p l h = Some h1" "ih_list h1 = ih_list h" "linked (ih_node h1) l None (ys @ [p, e]) None"
        "\<forall>x. x \<notin> set (ys @ [p]) \<longrightarrow> x \<noteq> e \<longrightarrow> ih_node h1 x = ih_node h x" by auto
    have "first (ys @ [p, e]) None = first (ys @ [p]) None" by (cases ys) simp_all
    then show ?thesis using h1 ne u D(1,3) el snoc
      by (simp add: il_push_back_def il_list_def) (simp add: lastp_def)
  qed
  then obtain h' where h': "il_push_back l e h = Some h'" "il_list h' l (A l @ [e])" "\<And>m. m \<noteq> l \<Longrightarrow> ih_list h' m = ih_list h m"
    "\<And>x. x \<notin> set (A l @ [e]) \<Longrightarrow> ih_node h' x = ih_node h x" by auto
  have "il_refines h' (A(l := A l @ [e]))" by (rule refines_upd [OF R h'(2,3)]) (use e h'(4) in auto)
  then show ?thesis using h'(1) by blast
qed

text \<open>Removing a node, wherever it is; the two pops are the removal of an end.\<close>

lemma unlink_step:
  assumes R: "il_refines h A" and e: "A l = as @ e # bs" and h0: "ih_node h0 = ih_node h"
  obtains h1 where "node_unlink e l h0 = Some h1" "ih_list h1 = ih_list h0"
    "\<And>h'. ih_node h' = ih_node h1 \<Longrightarrow> (\<And>m. m \<noteq> l \<Longrightarrow> ih_list h' m = ih_list h m) \<Longrightarrow>
      il_head (ih_list h' l) = first (as @ bs) None \<Longrightarrow> il_tail (ih_list h' l) = lastp None (as @ bs) \<Longrightarrow>
      il_elems (ih_list h' l) = of_nat (length (as @ bs)) \<Longrightarrow>
      il_refines h' (A(l := as @ bs))"
proof -
  have dl: "distinct (as @ e # bs)" "linked (ih_node h0) l None (as @ e # bs) None" using refinesD(1,2) [OF R, of l] e h0 by simp_all
  from unlink_ok [OF dl] obtain h1 where
    h1: "node_unlink e l h0 = Some h1" "ih_list h1 = ih_list h0" "ih_node h1 e = InListNode_new" "linked (ih_node h1) l None (as @ bs) None"
      "\<forall>x. x \<notin> set (as @ e # bs) \<longrightarrow> ih_node h1 x = ih_node h x" using h0 by auto
  show thesis
  proof (rule that [OF h1(1,2)])
    fix h' :: il_heap assume h': "ih_node h' = ih_node h1" "\<And>m. m \<noteq> l \<Longrightarrow> ih_list h' m = ih_list h m"
      "il_head (ih_list h' l) = first (as @ bs) None" "il_tail (ih_list h' l) = lastp None (as @ bs)"
      "il_elems (ih_list h' l) = of_nat (length (as @ bs))"
    show "il_refines h' (A(l := as @ bs))"
    proof (rule refines_upd [OF R _ h'(2)])
      show "il_list h' l (as @ bs)" unfolding il_list_def h'(1) using h1(4) dl(1) h'(3-5) by simp
    qed (use e h1 h'(1) in auto)
  qed
qed

lemma unlink_ends:
  assumes R: "il_refines h A" and e: "A l = as @ e # bs"
  shows "in_next (ih_node h e) = first bs None" "in_prev (ih_node h e) = lastp None as"
    "il_head (ih_list h l) = Some e \<longleftrightarrow> as = []" "il_tail (ih_list h l) = Some e \<longleftrightarrow> bs = []"
    "as \<noteq> [] \<Longrightarrow> il_head (ih_list h l) = first (as @ bs) None" "bs \<noteq> [] \<Longrightarrow> il_tail (ih_list h l) = lastp None (as @ bs)"
    "il_elems (ih_list h l) - 1 = of_nat (length (as @ bs))"
proof -
  note D = refinesD(1-3) [OF R, where l = l]
  show "in_next (ih_node h e) = first bs None" "in_prev (ih_node h e) = lastp None as" using D(2) e by (simp_all add: linked_append)
  show "il_head (ih_list h l) = Some e \<longleftrightarrow> as = []" "as \<noteq> [] \<Longrightarrow> il_head (ih_list h l) = first (as @ bs) None"
    using D(1,3) e by (cases as; auto)+
  show "il_tail (ih_list h l) = Some e \<longleftrightarrow> bs = []" "bs \<noteq> [] \<Longrightarrow> il_tail (ih_list h l) = lastp None (as @ bs)"
    using D(1,3) e by (cases bs rule: rev_cases; auto simp: lastp_def)+
  show "il_elems (ih_list h l) - 1 = of_nat (length (as @ bs))" using D(3) e by simp
qed

lemma remove_refines:
  assumes R: "il_refines h A" and e: "A l = as @ e # bs"
  shows "\<exists>h'. il_remove l e h = Some h' \<and> il_refines h' (A(l := as @ bs))"
proof -
  note U = unlink_ends [OF R e]
  let ?h1 = "if as = [] then upd_list l (\<lambda>x. x\<lparr>il_head := first bs None\<rparr>) h else h"
  let ?h2 = "if bs = [] then upd_list l (\<lambda>x. x\<lparr>il_tail := lastp None as\<rparr>) ?h1 else ?h1"
  have n: "ih_node ?h2 = ih_node h" by simp
  obtain h3 where h3: "node_unlink e l ?h2 = Some h3" "ih_list h3 = ih_list ?h2"
    and ref: "\<And>h'. ih_node h' = ih_node h3 \<Longrightarrow> (\<And>m. m \<noteq> l \<Longrightarrow> ih_list h' m = ih_list h m) \<Longrightarrow>
      il_head (ih_list h' l) = first (as @ bs) None \<Longrightarrow> il_tail (ih_list h' l) = lastp None (as @ bs) \<Longrightarrow>
      il_elems (ih_list h' l) = of_nat (length (as @ bs)) \<Longrightarrow>
      il_refines h' (A(l := as @ bs))" using unlink_step [OF R e n] by metis
  let ?h' = "upd_list l (\<lambda>x. x\<lparr>il_elems := il_elems x - 1\<rparr>) h3"
  have "il_remove l e h = Some ?h'"
    using h3(1) U(1-4) by (cases "as = []"; cases "bs = []") (simp_all add: il_remove_def Let_def)
  moreover have "il_refines ?h' (A(l := as @ bs))"
    by (rule ref) (use U(5-7) h3(2) in simp_all)
  ultimately show ?thesis by blast
qed

lemma pop_front_refines:
  assumes R: "il_refines h A" and e: "A l = e # bs"
  shows "\<exists>h'. il_pop_front l h = Some h' \<and> il_refines h' (A(l := bs))"
proof -
  have e': "A l = [] @ e # bs" using e by simp
  note U = unlink_ends [OF R e']
  let ?h1 = "upd_list l (\<lambda>x. x\<lparr>il_head := first bs None\<rparr>) h"
  have n: "ih_node ?h1 = ih_node h" by simp
  obtain h3 where h3: "node_unlink e l ?h1 = Some h3" "ih_list h3 = ih_list ?h1"
    and ref: "\<And>h'. ih_node h' = ih_node h3 \<Longrightarrow> (\<And>m. m \<noteq> l \<Longrightarrow> ih_list h' m = ih_list h m) \<Longrightarrow>
      il_head (ih_list h' l) = first ([] @ bs) None \<Longrightarrow> il_tail (ih_list h' l) = lastp None ([] @ bs) \<Longrightarrow>
      il_elems (ih_list h' l) = of_nat (length ([] @ bs)) \<Longrightarrow> il_refines h' (A(l := [] @ bs))" using unlink_step [OF R e' n] by metis
  let ?h2 = "if bs = [] then upd_list l (\<lambda>x. x\<lparr>il_tail := None\<rparr>) h3 else h3"
  let ?h' = "upd_list l (\<lambda>x. x\<lparr>il_elems := il_elems x - 1\<rparr>) ?h2"
  have hd: "il_head (ih_list h l) = Some e" using U(3) by simp
  have "il_head (ih_list h3 l) = None \<longleftrightarrow> bs = []" using h3(2) by (cases bs) simp_all
  then have "il_pop_front l h = Some ?h'" using h3(1) U(1) hd by (simp add: il_pop_front_def Let_def)
  moreover have "il_refines ?h' (A(l := [] @ bs))" by (rule ref) (use U(6,7) h3(2) in simp_all)
  ultimately show ?thesis by simp
qed

lemma pop_back_refines:
  assumes R: "il_refines h A" and e: "A l = as @ [e]"
  shows "\<exists>h'. il_pop_back l h = Some h' \<and> il_refines h' (A(l := as))"
proof -
  note U = unlink_ends [OF R e]
  let ?h1 = "upd_list l (\<lambda>x. x\<lparr>il_tail := lastp None as\<rparr>) h"
  have n: "ih_node ?h1 = ih_node h" by simp
  obtain h3 where h3: "node_unlink e l ?h1 = Some h3" "ih_list h3 = ih_list ?h1"
    and ref: "\<And>h'. ih_node h' = ih_node h3 \<Longrightarrow> (\<And>m. m \<noteq> l \<Longrightarrow> ih_list h' m = ih_list h m) \<Longrightarrow>
      il_head (ih_list h' l) = first (as @ []) None \<Longrightarrow> il_tail (ih_list h' l) = lastp None (as @ []) \<Longrightarrow>
      il_elems (ih_list h' l) = of_nat (length (as @ [])) \<Longrightarrow> il_refines h' (A(l := as @ []))" using unlink_step [OF R e n] by metis
  let ?h2 = "if as = [] then upd_list l (\<lambda>x. x\<lparr>il_head := None\<rparr>) h3 else h3"
  let ?h' = "upd_list l (\<lambda>x. x\<lparr>il_elems := il_elems x - 1\<rparr>) ?h2"
  have tl: "il_tail (ih_list h l) = Some e" "\<not> il_empty l h" using U(3-5) by (cases as; simp add: il_empty_def)+
  have "il_tail (ih_list h3 l) = None \<longleftrightarrow> as = []" using h3(2) by (simp add: lastp_def)
  then have "il_pop_back l h = Some ?h'" using h3(1) U(2) tl by (simp add: il_pop_back_def Let_def)
  moreover have "il_refines ?h' (A(l := as @ []))" by (rule ref) (use U(5,7) h3(2) in simp_all)
  ultimately show ?thesis by simp
qed

lemma insertAfter_refines:
  assumes R: "il_refines h A" and e: "free_elem A e" and p: "A l = as @ p # bs"
  shows "\<exists>h'. il_insertAfter l p e h = Some h' \<and> il_refines h' (A(l := as @ p # e # bs))"
proof -
  note D = refinesD(1-3) [OF R, where l = l] and n = refinesD(4) [OF R e] and U = unlink_ends [OF R p]
  have el: "e \<notin> set (as @ p # bs)" using e p [symmetric] by (simp add: free_elem_def)
  have dl: "distinct (as @ p # bs)" "linked (ih_node h) l None (as @ p # bs) None" using D(1,2) p by simp_all
  from linkPrev_ok [OF dl el n] obtain h1 where
    h1: "node_linkPrev e p l h = Some h1" "ih_list h1 = ih_list h" "linked (ih_node h1) l None (as @ p # e # bs) None"
      "\<forall>x. x \<notin> set (as @ p # bs) \<longrightarrow> x \<noteq> e \<longrightarrow> ih_node h1 x = ih_node h x" by blast
  let ?h2 = "if bs = [] then upd_list l (\<lambda>x. x\<lparr>il_tail := Some e\<rparr>) h1 else h1"
  let ?h' = "upd_list l (\<lambda>x. x\<lparr>il_elems := il_elems x + 1\<rparr>) ?h2"
  have own: "in_owner (ih_node h p) = Some l" "in_owner (ih_node h e) = None" using refinesD(5) [OF R, of p l] p n by (simp_all add: InListNode_new_def)
  have "Some p = il_tail (ih_list h1 l) \<longleftrightarrow> bs = []" using U(4) h1(2) by auto
  then have "il_insertAfter l p e h = Some ?h'" using own h1(1) by (simp add: il_insertAfter_def Let_def)
  moreover have "il_refines ?h' (A(l := as @ p # e # bs))"
  proof (rule refines_upd [OF R])
    have "first (as @ p # e # bs) None = first (as @ p # bs) None" by (cases as) simp_all
    moreover have "lastp None (as @ p # e # bs) = (if bs = [] then Some e else lastp None (as @ p # bs))" by (auto simp: lastp_def)
    ultimately show "il_list ?h' l (as @ p # e # bs)" using h1(2,3) dl(1) el D(3) p by (auto simp: il_list_def)
  qed (use p e h1 in auto)
  ultimately show ?thesis by blast
qed

lemma insert_after_split: "p \<notin> set as \<Longrightarrow> insert_after p e (as @ p # bs) = as @ p # e # bs"
  by (induction as) auto

lemma remove1_split: "e \<notin> set as \<Longrightarrow> remove1 e (as @ e # bs) = as @ bs"
  by (induction as) auto

lemma il_step_ok:
  assumes R: "il_refines h A" and ok: "spec_ok A oper"
  shows "\<exists>h'. il_step h oper = Some h' \<and> il_refines h' (spec_upd A oper)"
proof (cases oper)
  case (PopFront l)
  have "il_pop_front l h = Some h" if "A l = []" using refinesD(3) [OF R, of l] that by (simp add: il_pop_front_def)
  then show ?thesis using pop_front_refines [OF R, of l] R PopFront by (cases "A l") (simp_all add: fun_upd_idem)
next
  case (PopBack l)
  have "il_pop_back l h = Some h" if "A l = []" using refinesD(3) [OF R, of l] that by (simp add: il_pop_back_def il_empty_def)
  then show ?thesis using pop_back_refines [OF R, of l] R PopBack by (cases "A l" rule: rev_cases) (simp_all add: fun_upd_idem)
next
  case (Remove l e)
  then obtain as bs where s: "A l = as @ e # bs" "e \<notin> set as" using ok split_list_first [of e "A l"] by auto
  then show ?thesis using remove_refines [OF R s(1)] Remove by (simp add: remove1_split)
next
  case (InsertAfter l p e)
  then obtain as bs where s: "A l = as @ p # bs" "p \<notin> set as" using ok split_list_first [of p "A l"] by auto
  then show ?thesis using insertAfter_refines [OF R _ s(1), of e] InsertAfter ok by (simp add: insert_after_split)
qed (use ok push_front_refines [OF R] push_back_refines [OF R] in simp_all)

lemma il_step_fails:
  assumes R: "il_refines h A" and bad: "\<not> spec_ok A oper"
  shows "il_step h oper = None"
proof -
  have own: "in_owner (ih_node h e) \<noteq> None" if "\<not> free_elem A e" for e
    using that refinesD(5) [OF R, of e] by (auto simp: free_elem_def)
  show ?thesis
  proof (cases oper)
    case (Remove l e)
    then have "in_owner (ih_node h e) \<noteq> Some l" using bad refines_owner_iff [OF R] by simp
    then show ?thesis using Remove by (simp add: il_remove_def Let_def unlink_foreign)
  next
    case (InsertAfter l p e)
    then have "in_owner (ih_node h e) \<noteq> None \<or> in_owner (ih_node h p) \<noteq> Some l" using bad own refines_owner_iff [OF R] by auto
    then show ?thesis using InsertAfter by (auto simp: il_insertAfter_def assert_that_def)
  qed (use bad refines_unlinked_iff [OF R] in \<open>auto simp: il_push_front_def il_push_back_def assert_that_def\<close>)
qed

section \<open>Properties\<close>

definition il_heap_new :: il_heap where
  "il_heap_new = \<lparr>ih_node = (\<lambda>_. InListNode_new), ih_list = (\<lambda>_. InList_new)\<rparr>"

lemma il_new_refines: "il_refines il_heap_new (\<lambda>_. [])"
  by (simp add: il_refines_def il_list_def il_heap_new_def InList_new_def)

fun il_run :: "il_heap \<Rightarrow> il_op list \<Rightarrow> il_heap option" where
  "il_run h [] = Some h"
| "il_run h (oper # ops) = do { h \<leftarrow> il_step h oper; il_run h ops }"

fun spec_run :: "(nat \<Rightarrow> nat list) \<Rightarrow> il_op list \<Rightarrow> (nat \<Rightarrow> nat list) option" where
  "spec_run A [] = Some A"
| "spec_run A (oper # ops) = do { assert_that (spec_ok A oper); spec_run (spec_upd A oper) ops }"

lemma il_run_refines: "il_refines h A \<Longrightarrow> rel_option il_refines (il_run h ops) (spec_run A ops)"
proof (induction ops arbitrary: h A)
  case (Cons oper ops)
  show ?case
  proof (cases "spec_ok A oper")
    case True
    then obtain h' where "il_step h oper = Some h'" "il_refines h' (spec_upd A oper)" using il_step_ok [OF Cons.prems] by blast
    then show ?thesis using Cons.IH True by simp
  next
    case False
    then show ?thesis using il_step_fails [OF Cons.prems] by (simp add: assert_that_def)
  qed
qed simp

text \<open>
  C17. The intrusive list refines the sequence it stands for. Any sequence of pushes, pops, removals and insertions on any
  number of lists over the same nodes fails an assertion exactly when it misuses a node (pushes one that is in a list, or
  removes or inserts after one that is not in this list), and otherwise front, back, emptiness and size are those of the
  sequences the operations describe.
\<close>

theorem intrusive_list_refines_sequences:
  "case spec_run (\<lambda>_. []) ops of
     None \<Rightarrow> il_run il_heap_new ops = None
   | Some A \<Rightarrow> \<exists>h. il_run il_heap_new ops = Some h \<and>
       (\<forall>l. il_front l h = (if A l = [] then None else Some (hd (A l))) \<and> il_back l h = (if A l = [] then None else Some (last (A l))) \<and>
            (il_empty l h \<longleftrightarrow> A l = []) \<and> il_size l h = of_nat (length (A l)))"
proof (cases "spec_run (\<lambda>_. []) ops")
  case None
  then show ?thesis using il_run_refines [OF il_new_refines, of ops] by simp
next
  case (Some A)
  then obtain h where h: "il_run il_heap_new ops = Some h" "il_refines h A"
    using il_run_refines [OF il_new_refines, of ops] by (auto simp: option_rel_Some2)
  have "il_front l h = (if A l = [] then None else Some (hd (A l)))" "il_back l h = (if A l = [] then None else Some (last (A l)))"
    "il_empty l h \<longleftrightarrow> A l = []" "il_size l h = of_nat (length (A l))" for l
    using refinesD(3) [OF h(2), of l]
    by (cases "A l"; simp add: il_front_def il_back_def il_empty_def il_size_def lastp_def)+
  then show ?thesis using Some h(1) by simp
qed

end
