(* ===== verification/Locks.thy ===== *)
theory Locks
  imports Prelude
begin

text \<open>
  The locks of \<^verbatim>\<open>src/locks.h\<close>: the spin lock, the ticket lock and the futex lock.

  Any number of threads runs the code of a lock on one shared word. A thread is at a program point; a step executes one
  atomic action of one thread (a read, a compare-and-swap, an exchange, a fetch-and-add, a store, or entering the
  kernel). The order of the steps is arbitrary. A sleeping thread may also wake without being woken (a
  signal or a timeout). Memory is sequentially consistent, as the atomic operations and the processor's store order make it
  for one word.
\<close>

section \<open>Spin lock\<close>

datatype spin_pc = SIdle | SRead | SCas | STryRead | STryCas | SHeld

text \<open>The action of a thread: the new word and program point. \<open>None\<close> is the failed assertion of \<open>spin_unlock\<close>.\<close>

fun spin_act :: "u32 \<Rightarrow> spin_pc \<Rightarrow> (u32 \<times> spin_pc) option" where
  "spin_act w SRead = Some (w, if w = 0 then SCas else SRead)"
| "spin_act w SCas = Some (if w = 0 then (1, SHeld) else (w, SRead))"
| "spin_act w STryRead = Some (w, if w = 0 then STryCas else SIdle)"
| "spin_act w STryCas = Some (if w = 0 then (1, SHeld) else (w, SIdle))"
| "spin_act w SHeld = (if w = 1 then Some (0, SIdle) else None)"
| "spin_act w SIdle = Some (w, SIdle)"

type_synonym 'pc lock_state = "u32 \<times> (nat \<Rightarrow> 'pc)"

inductive spin_step :: "spin_pc lock_state \<Rightarrow> spin_pc lock_state \<Rightarrow> bool" where
  spin_call: "pc i = SIdle \<Longrightarrow> p = SRead \<or> p = STryRead \<Longrightarrow> spin_step (w, pc) (w, pc(i := p))"
| spin_act: "spin_act w (pc i) = Some (w', p) \<Longrightarrow> spin_step (w, pc) (w', pc(i := p))"

definition spin_init :: "spin_pc lock_state" where
  "spin_init = (0, \<lambda>_. SIdle)"

section \<open>Ticket lock\<close>

definition TICKET_MASK :: u32 where "TICKET_MASK = 0xFFFF"

datatype ticket_pc = TIdle | TRead | TCas u32 | TWait u32 | TTryRead | TTryCas u32 | THeld

fun ticket_act :: "u32 \<Rightarrow> ticket_pc \<Rightarrow> u32 \<times> ticket_pc" where
  "ticket_act w TRead = (w, TCas w)"
| "ticket_act w (TCas val) =
     (let hi = val AND push_bit 16 TICKET_MASK;
          newLo = (val + 1) AND TICKET_MASK
      in if w = val then (hi OR newLo, TWait (val AND TICKET_MASK)) else (w, TRead))"
| "ticket_act w (TWait ticket) =
     (w, if drop_bit 16 w AND TICKET_MASK = ticket then THeld else TWait ticket)"
| "ticket_act w TTryRead = (w, TTryCas w)"
| "ticket_act w (TTryCas val) =
     (let hi = drop_bit 16 val AND TICKET_MASK;
          lo = val AND TICKET_MASK;
          newLo = (lo + 1) AND TICKET_MASK
      in if hi = lo \<and> w = val then (push_bit 16 hi OR newLo, THeld) else (w, TIdle))"
| "ticket_act w THeld = (w + push_bit 16 1, TIdle)"
| "ticket_act w TIdle = (w, TIdle)"

text \<open>The lock serves threads \<open>0\<close> to \<open>n - 1\<close>.\<close>

inductive ticket_step :: "nat \<Rightarrow> ticket_pc lock_state \<Rightarrow> ticket_pc lock_state \<Rightarrow> bool" for n where
  ticket_call: "i < n \<Longrightarrow> pc i = TIdle \<Longrightarrow> p = TRead \<or> p = TTryRead \<Longrightarrow> ticket_step n (w, pc) (w, pc(i := p))"
| ticket_act: "i < n \<Longrightarrow> ticket_act w (pc i) = (w', p) \<Longrightarrow> ticket_step n (w, pc) (w', pc(i := p))"

definition ticket_init :: "ticket_pc lock_state" where
  "ticket_init = (0, \<lambda>_. TIdle)"

section \<open>Futex lock\<close>

text \<open>The three ways to take the lock: spinning first, without spinning, and with a timeout.\<close>

datatype futex_mode = FSpin | FNoSpin | FTimed

definition futex_tries :: "futex_mode \<Rightarrow> nat" where
  "futex_tries m = (case m of FSpin \<Rightarrow> 5 | _ \<Rightarrow> 1)"

datatype futex_pc = FIdle | FRead futex_mode nat | FCas futex_mode nat | FXchg futex_mode | FWait futex_mode | FSleep futex_mode
  | FXchg2 futex_mode | FHeld | FStore | FWake

definition futex_retry :: "futex_mode \<Rightarrow> nat \<Rightarrow> futex_pc" where
  "futex_retry m i = (if Suc i < futex_tries m then FRead m (Suc i) else FXchg m)"

fun futex_act :: "u32 \<Rightarrow> futex_pc \<Rightarrow> u32 \<times> futex_pc" where
  "futex_act w (FRead m i) = (w, if w = 0 then FCas m i else futex_retry m i)"
| "futex_act w (FCas m i) = (if w = 0 then (1, FHeld) else (w, futex_retry m i))"
| "futex_act w (FXchg m) = (2, if w = 0 then FHeld else FWait m)"
| "futex_act w (FWait m) = (w, if w = 2 then FSleep m else FXchg2 m)"
| "futex_act w (FXchg2 m) = (2, if w = 0 then FHeld else if m = FTimed then FIdle else FRead m 0)"
| "futex_act w FHeld = (w - 1, if w = 1 then FIdle else FStore)"
| "futex_act w FStore = (0, FWake)"
| "futex_act w p = (w, p)"

inductive futex_step :: "futex_pc lock_state \<Rightarrow> futex_pc lock_state \<Rightarrow> bool" where
  futex_call: "pc i = FIdle \<Longrightarrow> futex_step (w, pc) (w, pc(i := FRead m 0))"
| futex_act: "futex_act w (pc i) = (w', p) \<Longrightarrow> futex_step (w, pc) (w', pc(i := p))"
| futex_wake: "pc i = FWake \<Longrightarrow> pc j = FSleep m \<Longrightarrow> futex_step (w, pc) (w, pc(i := FIdle, j := FXchg2 m))"
| futex_wake_none: "pc i = FWake \<Longrightarrow> (\<And>j m. pc j \<noteq> FSleep m) \<Longrightarrow> futex_step (w, pc) (w, pc(i := FIdle))"
| futex_spurious: "pc j = FSleep m \<Longrightarrow> futex_step (w, pc) (w, pc(j := FXchg2 m))"

definition futex_init :: "futex_pc lock_state" where
  "futex_init = (0, \<lambda>_. FIdle)"

definition futex_haswaiters :: "u32 \<Rightarrow> bool" where
  "futex_haswaiters w \<longleftrightarrow> w = 2"

section \<open>At most one owner\<close>

text \<open>\<open>b\<close> says whether the word marks the lock as taken.\<close>

definition one_owner :: "('pc \<Rightarrow> bool) \<Rightarrow> bool \<Rightarrow> (nat \<Rightarrow> 'pc) \<Rightarrow> bool" where
  "one_owner own b pc \<longleftrightarrow> (if b then \<exists>!i. own (pc i) else \<forall>i. \<not> own (pc i))"

lemma one_owner_same: "own p = own (pc i) \<Longrightarrow> one_owner own b (pc(i := p)) \<longleftrightarrow> one_owner own b pc"
proof -
  assume "own p = own (pc i)"
  then have "(\<lambda>j. own ((pc(i := p)) j)) = (\<lambda>j. own (pc j))" by auto
  then show ?thesis unfolding one_owner_def by metis
qed

lemma one_owner_take: "one_owner own False pc \<Longrightarrow> own p \<Longrightarrow> one_owner own True (pc(i := p))"
  by (auto simp: one_owner_def)

lemma one_owner_drop: "one_owner own b pc \<Longrightarrow> own (pc i) \<Longrightarrow> \<not> own p \<Longrightarrow> one_owner own False (pc(i := p))"
  by (auto simp: one_owner_def split: if_splits)

lemma one_owner_unique: "one_owner own b pc \<Longrightarrow> own (pc i) \<Longrightarrow> own (pc j) \<Longrightarrow> i = j"
  by (auto simp: one_owner_def split: if_splits)

lemma one_owner_taken: "one_owner own b pc \<Longrightarrow> own (pc i) \<Longrightarrow> b"
  by (auto simp: one_owner_def split: if_splits)

section \<open>Spin lock: mutual exclusion\<close>

definition spin_inv :: "spin_pc lock_state \<Rightarrow> bool" where
  "spin_inv s \<longleftrightarrow> (case s of (w, pc) \<Rightarrow> w \<in> {0, 1} \<and> one_owner (\<lambda>p. p = SHeld) (w \<noteq> 0) pc)"

lemma spin_step_inv: "spin_step s t \<Longrightarrow> spin_inv s \<Longrightarrow> spin_inv t"
proof (induction rule: spin_step.induct)
  case (spin_act w pc i w' p)
  consider "w = 0" "w' = 1" "p = SHeld" | "pc i = SHeld" "p \<noteq> SHeld" "w' = 0" | "(p = SHeld) = (pc i = SHeld)" "w' = w"
    using spin_act.hyps by (cases "pc i") (auto split: if_splits)
  then show ?case using spin_act.prems
    by cases (auto simp: spin_inv_def one_owner_same intro: one_owner_take one_owner_drop)
qed (auto simp: spin_inv_def one_owner_same)

lemma spin_reach_inv: "spin_step\<^sup>*\<^sup>* spin_init s \<Longrightarrow> spin_inv s"
proof (induction rule: rtranclp_induct)
  case base
  show ?case by (simp add: spin_init_def spin_inv_def one_owner_def)
qed (rule spin_step_inv)

section \<open>Futex lock: mutual exclusion and no lost wakeup\<close>

definition futex_owns :: "futex_pc \<Rightarrow> bool" where
  "futex_owns p \<longleftrightarrow> p = FHeld \<or> p = FStore"

definition futex_excl :: "futex_pc lock_state \<Rightarrow> bool" where
  "futex_excl s \<longleftrightarrow> (case s of (w, pc) \<Rightarrow> w \<in> {0, 1, 2} \<and> one_owner futex_owns (w \<noteq> 0) pc)"

text \<open>Threads that are about to wake a sleeper or to mark the lock as having waiters.\<close>

definition futex_waker :: "futex_pc \<Rightarrow> bool" where
  "futex_waker p \<longleftrightarrow> p = FStore \<or> p = FWake \<or> (\<exists>m. p = FXchg2 m)"

definition futex_asleep :: "futex_pc \<Rightarrow> bool" where
  "futex_asleep p \<longleftrightarrow> (\<exists>m. p = FSleep m)"

definition futex_live :: "futex_pc lock_state \<Rightarrow> bool" where
  "futex_live s \<longleftrightarrow> (case s of (w, pc) \<Rightarrow> (\<exists>j. futex_asleep (pc j)) \<longrightarrow> w = 2 \<or> (\<exists>i. futex_waker (pc i)))"

lemmas futex_classes = futex_owns_def futex_waker_def futex_asleep_def

lemma futex_retry_idle [simp]: "\<not> futex_owns (futex_retry m i)" "\<not> futex_waker (futex_retry m i)" "\<not> futex_asleep (futex_retry m i)"
  by (simp_all add: futex_retry_def futex_classes)

lemma futex_act_owner:
  assumes "futex_act w q = (w', p)" "w = 0 \<or> w = 1 \<or> w = 2" "futex_owns q \<Longrightarrow> w \<noteq> 0"
  shows "w = 0 \<and> w' \<in> {1, 2} \<and> futex_owns p \<or> futex_owns q \<and> \<not> futex_owns p \<and> w' = 0 \<or>
    futex_owns p = futex_owns q \<and> w' \<in> {0, 1, 2} \<and> (w' = 0 \<longleftrightarrow> w = 0)"
  using assms(2)
proof (elim disjE)
  assume "w = 0" then show ?thesis using assms(1,3) by (cases q) (auto simp: futex_owns_def futex_retry_def split: if_splits)
next
  assume "w = 1" then show ?thesis using assms(1) by (cases q) (auto simp: futex_owns_def futex_retry_def split: if_splits)
next
  assume "w = 2" then show ?thesis using assms(1) by (cases q) (auto simp: futex_owns_def futex_retry_def split: if_splits)
qed

lemma futex_step_excl: "futex_step s t \<Longrightarrow> futex_excl s \<Longrightarrow> futex_excl t"
proof (induction rule: futex_step.induct)
  case (futex_act w pc i w' p)
  have inv: "w \<in> {0, 1, 2}" "one_owner futex_owns (w \<noteq> 0) pc" using futex_act.prems by (simp_all add: futex_excl_def)
  consider "w = 0" "w' \<in> {1, 2}" "futex_owns p" | "futex_owns (pc i)" "\<not> futex_owns p" "w' = 0"
    | "futex_owns p = futex_owns (pc i)" "w' \<in> {0, 1, 2}" "w' = 0 \<longleftrightarrow> w = 0"
    using futex_act_owner [OF futex_act.hyps] inv(1) one_owner_taken [OF inv(2), of i] by blast
  then show ?case
  proof cases
    case 1
    then show ?thesis using inv one_owner_take [of futex_owns pc p i] by (auto simp: futex_excl_def)
  next
    case 2
    then show ?thesis using one_owner_drop [OF inv(2)] by (simp add: futex_excl_def)
  next
    case 3
    then show ?thesis using inv(2) one_owner_same [of futex_owns p pc i] by (simp add: futex_excl_def)
  qed
qed (simp_all add: futex_excl_def one_owner_same futex_owns_def)

lemma futex_live_same:
  assumes live: "futex_live (w, pc)" and p: "futex_waker (pc i) \<Longrightarrow> futex_waker p" "futex_asleep p \<Longrightarrow> futex_asleep (pc i)" "w = 2 \<longrightarrow> w' = 2"
  shows "futex_live (w', pc(i := p))"
proof -
  have "futex_asleep (pc j)" if "futex_asleep ((pc(i := p)) j)" for j using that p(2) by (cases "j = i") auto
  moreover have "futex_waker ((pc(i := p)) j)" if "futex_waker (pc j)" for j using that p(1) by (cases "j = i") auto
  ultimately show ?thesis using live p(3) unfolding futex_live_def by blast
qed

lemma futex_live_waker: "w = 2 \<or> futex_waker p \<Longrightarrow> futex_live (w, pc(i := p))"
  unfolding futex_live_def by (auto intro: exI [of _ i])

lemma futex_act_live:
  assumes "futex_act w q = (w', p)"
  shows "w' = 2 \<or> futex_waker p \<or> (\<not> futex_waker q \<and> (futex_asleep p \<longrightarrow> futex_asleep q) \<and> w \<noteq> 2) \<or> (p = q \<and> w' = w)"
  using assms by (cases q) (auto simp: futex_waker_def futex_asleep_def futex_retry_def split: if_splits)

lemma futex_step_live: "futex_step s t \<Longrightarrow> futex_live s \<Longrightarrow> futex_live t"
proof (induction rule: futex_step.induct)
  case (futex_act w pc i w' p)
  consider "w' = 2 \<or> futex_waker p" | "\<not> futex_waker (pc i)" "futex_asleep p \<longrightarrow> futex_asleep (pc i)" "w \<noteq> 2" | "p = pc i" "w' = w"
    using futex_act_live [OF futex_act.hyps] by blast
  then show ?case
  proof cases
    case 1
    then show ?thesis by (rule futex_live_waker)
  qed (use futex_act.prems in \<open>auto intro: futex_live_same\<close>)
next
  case (futex_wake pc i j m w)
  show ?case by (rule futex_live_waker) (simp add: futex_waker_def)
next
  case (futex_wake_none pc i w)
  then show ?case by (auto simp: futex_live_def futex_asleep_def split: if_splits)
next
  case (futex_spurious pc j m w)
  show ?case by (rule futex_live_waker) (simp add: futex_waker_def)
next
  case (futex_call pc i w m)
  then show ?case by (auto intro: futex_live_same simp: futex_waker_def futex_asleep_def)
qed

lemma futex_reach_inv: "futex_step\<^sup>*\<^sup>* futex_init s \<Longrightarrow> futex_excl s \<and> futex_live s"
proof (induction rule: rtranclp_induct)
  case base
  show ?case by (simp add: futex_init_def futex_excl_def one_owner_def futex_live_def futex_classes)
qed (use futex_step_excl futex_step_live in blast)

section \<open>Ticket lock\<close>

definition t_out :: "ticket_pc \<Rightarrow> bool" where
  "t_out p \<longleftrightarrow> p = THeld \<or> (\<exists>t. p = TWait t)"

definition t_word :: "nat \<Rightarrow> nat \<Rightarrow> u32" where
  "t_word m k = push_bit 16 (of_nat (m mod 2 ^ 16)) OR of_nat (k mod 2 ^ 16)"

text \<open>
  \<open>m\<close> threads have released the lock and \<open>k\<close> have drawn a ticket so far; \<open>tk\<close> gives the number of the ticket each waiting or holding
  thread drew. The word has both counters modulo \<open>2\<^sup>1\<^sup>6\<close>.
\<close>

definition t_inv :: "nat \<Rightarrow> nat \<Rightarrow> nat \<Rightarrow> (nat \<Rightarrow> nat) \<Rightarrow> ticket_pc lock_state \<Rightarrow> bool" where
  "t_inv n m k tk s \<longleftrightarrow> (case s of (w, pc) \<Rightarrow> w = t_word m k \<and> m \<le> k \<and> (\<forall>i \<ge> n. pc i = TIdle) \<and>
     bij_betw tk {i. t_out (pc i)} {m..<k} \<and>
     (\<forall>i. (pc i = THeld \<longrightarrow> tk i = m) \<and> (\<forall>t. pc i = TWait t \<longrightarrow> t = of_nat (tk i mod 2 ^ 16))))"

lemma mask16: "TICKET_MASK = mask 16" "push_bit 16 (mask 16 :: u32) = NOT (mask 16)"
  by (simp_all add: TICKET_MASK_def mask_eq_exp_minus_1)

lemma or16: "push_bit 16 (of_nat a) OR of_nat b = (of_nat (a * 2 ^ 16 + b) :: u32)" if "b < 2 ^ 16"
proof -
  have "(of_nat b :: u32) = take_bit 16 (of_nat b)" using that by (simp add: take_bit_of_nat take_bit_nat_eq_self)
  moreover have "push_bit 16 x AND take_bit 16 y = (0 :: u32)" for x y by (rule bit_eqI) (auto simp: bit_simps)
  ultimately have "push_bit 16 (of_nat a) AND (of_nat b :: u32) = 0" by metis
  from disjunctive_add_eq_or [OF this] show ?thesis by (simp add: push_bit_eq_mult)
qed

lemma t_word_lt: "(m mod 2 ^ 16) * 2 ^ 16 + k mod 2 ^ 16 < (2 :: nat) ^ 32" for m k :: nat
proof -
  have "m mod 2 ^ 16 < 2 ^ 16" "k mod 2 ^ 16 < 2 ^ 16" by simp_all
  then show ?thesis by simp
qed

lemma t_word_nat: "t_word m k = of_nat ((m mod 2 ^ 16) * 2 ^ 16 + k mod 2 ^ 16)" "unat (t_word m k) = (m mod 2 ^ 16) * 2 ^ 16 + k mod 2 ^ 16"
proof -
  show eq: "t_word m k = of_nat ((m mod 2 ^ 16) * 2 ^ 16 + k mod 2 ^ 16)" unfolding t_word_def by (rule or16) simp
  show "unat (t_word m k) = (m mod 2 ^ 16) * 2 ^ 16 + k mod 2 ^ 16"
    unfolding eq by (rule unat_of_nat_small) (simp add: t_word_lt [simplified])
qed

lemma unat_low16: "unat (w AND TICKET_MASK) = unat w mod 2 ^ 16"
  unfolding mask16(1) take_bit_eq_mask [symmetric] by (simp only: unsigned_take_bit_eq) (simp add: take_bit_eq_mod)

lemma t_word_low: "t_word m k AND TICKET_MASK = of_nat (k mod 2 ^ 16)"
  by (simp add: word_unat_eq_iff unat_low16 t_word_nat(2) unat_of_nat)

lemma t_word_high: "drop_bit 16 (t_word m k) AND TICKET_MASK = of_nat (m mod 2 ^ 16)"
proof -
  have "unat (drop_bit 16 (t_word m k)) = m mod 2 ^ 16" by (simp only: unsigned_drop_bit_eq t_word_nat(2)) (simp add: drop_bit_eq_div take_bit_nat_eq_self t_word_lt [simplified])
  then show ?thesis by (simp add: word_unat_eq_iff unat_low16 unat_of_nat)
qed

lemma t_word_next: "(t_word m k + 1) AND TICKET_MASK = of_nat (Suc k mod 2 ^ 16)"
proof -
  have "t_word m k + 1 = of_nat ((m mod 2 ^ 16) * 2 ^ 16 + k mod 2 ^ 16 + 1)" unfolding t_word_nat(1) by simp
  then have "unat ((t_word m k + 1) AND TICKET_MASK) = ((m mod 2 ^ 16) * 2 ^ 16 + k mod 2 ^ 16 + 1) mod 2 ^ 32 mod 2 ^ 16"
    by (simp only: unat_low16 unat_of_nat) simp
  also have "\<dots> = Suc k mod 2 ^ 16" by (simp add: mod_mod_cancel mod_simps)
  finally show ?thesis by (simp add: word_unat_eq_iff unat_of_nat)
qed

lemma t_low_next: "(of_nat (k mod 2 ^ 16) + 1) AND TICKET_MASK = of_nat (Suc k mod 2 ^ 16)"
  using t_word_next [of 0 k] by (simp add: t_word_def)

lemma t_word_keep_high: "t_word m k AND push_bit 16 TICKET_MASK = push_bit 16 (of_nat (m mod 2 ^ 16))"
proof -
  have "w AND push_bit 16 (mask 16) = push_bit 16 (drop_bit 16 w AND mask 16)" for w :: u32
    by (rule bit_eqI) (auto simp: bit_simps)
  then show ?thesis using t_word_high [of m k] unfolding mask16(1) by metis
qed

lemma t_word_served: "t_word m k + push_bit 16 1 = t_word (Suc m) k"
proof -
  have "t_word m k + push_bit 16 1 = of_nat ((m mod 2 ^ 16) * 2 ^ 16 + k mod 2 ^ 16 + 2 ^ 16)" unfolding t_word_nat(1) by (simp add: push_bit_eq_mult)
  moreover have "((m mod 2 ^ 16) * 2 ^ 16 + k mod 2 ^ 16 + 2 ^ 16) mod 2 ^ 32 = (Suc m mod 2 ^ 16) * 2 ^ 16 + k mod 2 ^ 16"
    using t_word_lt [of m k] by (cases "m mod 2 ^ 16 = 2 ^ 16 - 1") (simp_all add: mod_Suc)
  ultimately show ?thesis by (simp only: word_unat_eq_iff unat_of_nat t_word_nat(2)) simp
qed

lemma t_invD:
  assumes "t_inv n m k tk (w, pc)"
  shows "w = t_word m k" "m \<le> k" "\<And>i. n \<le> i \<Longrightarrow> pc i = TIdle" "bij_betw tk {i. t_out (pc i)} {m..<k}"
    "\<And>i. pc i = THeld \<Longrightarrow> tk i = m" "\<And>i t. pc i = TWait t \<Longrightarrow> t = of_nat (tk i mod 2 ^ 16)"
  using assms by (auto simp: t_inv_def)

text \<open>Fewer tickets are out than there are threads.\<close>

lemma t_inv_count: "t_inv n m k tk (w, pc) \<Longrightarrow> k - m \<le> n"
proof -
  assume inv: "t_inv n m k tk (w, pc)"
  have "{i. t_out (pc i)} \<subseteq> {..<n}" using t_invD(3) [OF inv] by (force simp: t_out_def not_le [symmetric])
  then have "card {i. t_out (pc i)} \<le> n" using card_mono [of "{..<n}"] by simp
  then show ?thesis using bij_betw_same_card [OF t_invD(4) [OF inv]] by simp
qed

lemma t_inv_same:
  assumes "t_inv n m k tk (w, pc)" "i < n" "p = pc i \<or> \<not> t_out p \<and> \<not> t_out (pc i)"
  shows "t_inv n m k tk (w, pc(i := p))"
proof -
  have "{j. t_out ((pc(i := p)) j)} = {j. t_out (pc j)}" using assms(3) by auto
  then show ?thesis using assms unfolding t_inv_def t_out_def by auto
qed

text \<open>Drawing a ticket.\<close>

lemma t_inv_draw:
  assumes inv: "t_inv n m k tk (w, pc)" and i: "i < n" "\<not> t_out (pc i)" and p: "p = TWait (of_nat (k mod 2 ^ 16)) \<or> p = THeld \<and> m = k"
  shows "t_inv n m (Suc k) (tk(i := k)) (t_word m (Suc k), pc(i := p))"
proof -
  note D = t_invD [OF inv]
  have out: "t_out p" using p by (auto simp: t_out_def)
  have set: "{j. t_out ((pc(i := p)) j)} = {j. t_out (pc j)} \<union> {i}" using out by auto
  have "bij_betw (tk(i := k)) {j. t_out (pc j)} {m..<k} = bij_betw tk {j. t_out (pc j)} {m..<k}" by (rule bij_betw_cong) (use i(2) in auto)
  then have "bij_betw (tk(i := k)) {j. t_out (pc j)} {m..<k}" using D(4) by simp
  moreover have "bij_betw (tk(i := k)) {i} {k}" by (simp add: bij_betw_def)
  ultimately have "bij_betw (tk(i := k)) ({j. t_out (pc j)} \<union> {i}) ({m..<k} \<union> {k})" by (rule bij_betw_combine) simp
  moreover have "{m..<k} \<union> {k} = {m..<Suc k}" using D(2) by auto
  ultimately have "bij_betw (tk(i := k)) {j. t_out ((pc(i := p)) j)} {m..<Suc k}" unfolding set by simp
  then show ?thesis using D p i(1) by (auto simp: t_inv_def)
qed

text \<open>Serving the next ticket.\<close>

lemma t_inv_serve:
  assumes inv: "t_inv n m k tk (w, pc)" and i: "pc i = THeld"
  shows "t_inv n (Suc m) k tk (t_word (Suc m) k, pc(i := TIdle))"
proof -
  note D = t_invD [OF inv]
  have ti: "tk i = m" "t_out (pc i)" using D(5) i by (simp_all add: t_out_def)
  have inj: "inj_on tk {j. t_out (pc j)}" and im: "tk ` {j. t_out (pc j)} = {m..<k}" using D(4) by (simp_all add: bij_betw_def)
  have mk: "m < k" using im ti by auto
  have set: "{j. t_out ((pc(i := TIdle)) j)} = {j. t_out (pc j)} - {i}" by (auto simp: t_out_def)
  have "tk ` ({j. t_out (pc j)} - {i}) = {m..<k} - {m}" using inj_on_image_set_diff [OF inj, of "{j. t_out (pc j)}" "{i}"] ti im by auto
  also have "\<dots> = {Suc m..<k}" by auto
  finally have "bij_betw tk {j. t_out ((pc(i := TIdle)) j)} {Suc m..<k}" unfolding set bij_betw_def using inj by (auto intro: inj_on_subset)
  moreover have "pc j \<noteq> THeld" if "j \<noteq> i" for j using that D(5) [of j] ti inj by (auto simp: inj_on_def t_out_def)
  ultimately show ?thesis using D mk unfolding t_inv_def by auto
qed

text \<open>A thread whose ticket the word shows has the oldest ticket.\<close>

lemma t_inv_turn:
  assumes inv: "t_inv n m k tk (w, pc)" and n: "n < 2 ^ 16" and i: "pc i = TWait t" "drop_bit 16 w AND TICKET_MASK = t"
  shows "tk i = m"
proof -
  note D = t_invD [OF inv]
  have "tk i \<in> {m..<k}" using D(4) i(1) by (auto simp: bij_betw_def t_out_def)
  then have r: "m \<le> tk i" "tk i - m < 2 ^ 16" using t_inv_count [OF inv] n by auto
  have "(of_nat (m mod 2 ^ 16) :: u32) = of_nat (tk i mod 2 ^ 16)" using D(1,6) i t_word_high by simp
  then have "unat (of_nat (m mod 2 ^ 16) :: u32) = unat (of_nat (tk i mod 2 ^ 16) :: u32)" by simp
  then have "m mod 2 ^ 16 = tk i mod 2 ^ 16" by (simp add: unat_of_nat)
  then have "(tk i - m) mod 2 ^ 16 = 0" using r(1) by (metis mod_eq_dvd_iff_nat dvd_imp_mod_0)
  then show ?thesis using r by simp
qed

lemma t_inv_enter:
  assumes inv: "t_inv n m k tk (w, pc)" and i: "i < n" "pc i = TWait t" "tk i = m"
  shows "t_inv n m k tk (w, pc(i := THeld))"
proof -
  have "{j. t_out ((pc(i := THeld)) j)} = {j. t_out (pc j)}" using i(2) by (auto simp: t_out_def)
  then show ?thesis using inv i unfolding t_inv_def by auto
qed

lemma ticket_step_inv:
  assumes n: "n < 2 ^ 16"
  shows "ticket_step n s s' \<Longrightarrow> t_inv n m k tk s \<Longrightarrow> \<exists>m k tk. t_inv n m k tk s'"
proof (induction rule: ticket_step.induct)
  case (ticket_call i pc p w)
  then have "t_inv n m k tk (w, pc(i := p))" by (intro t_inv_same) (auto simp: t_out_def)
  then show ?case by blast
next
  case (ticket_act i w pc w' p)
  note inv = ticket_act.prems and i = ticket_act.hyps(1) and act = ticket_act.hyps(2)
  have w: "w = t_word m k" by (rule t_invD(1) [OF inv])
  show ?case
  proof (cases "pc i")
    case (TCas val)
    show ?thesis
    proof (cases "w = val")
      case True
      have "w' = t_word m (Suc k)" "p = TWait (of_nat (k mod 2 ^ 16))"
        using act TCas True w t_word_low t_word_keep_high t_word_next by (auto simp: Let_def t_word_def)
      then show ?thesis using t_inv_draw [OF inv i, of p] TCas by (auto simp: t_out_def)
    next
      case False
      then have "t_inv n m k tk (w', pc(i := p))" using act TCas t_inv_same [OF inv i, of p] by (auto simp: t_out_def)
      then show ?thesis by blast
    qed
  next
    case (TWait t)
    show ?thesis
    proof (cases "drop_bit 16 w AND TICKET_MASK = t")
      case True
      then have "t_inv n m k tk (w, pc(i := THeld))" by (intro t_inv_enter [OF inv i TWait] t_inv_turn [OF inv n TWait])
      then show ?thesis using act TWait True by auto
    next
      case False
      then have "t_inv n m k tk (w', pc(i := p))" using act TWait t_inv_same [OF inv i, of p] by auto
      then show ?thesis by blast
    qed
  next
    case (TTryCas val)
    show ?thesis
    proof (cases "drop_bit 16 val AND TICKET_MASK = val AND TICKET_MASK \<and> w = val")
      case True
      then have "(of_nat (m mod 2 ^ 16) :: u32) = of_nat (k mod 2 ^ 16)" using w t_word_low [of m k] t_word_high [of m k] by metis
      then have "unat (of_nat (m mod 2 ^ 16) :: u32) = unat (of_nat (k mod 2 ^ 16) :: u32)" by simp
      then have "m mod 2 ^ 16 = k mod 2 ^ 16" by (simp add: unat_of_nat)
      moreover have "m \<le> k" "k - m < 2 ^ 16" using t_invD(2) [OF inv] t_inv_count [OF inv] n by auto
      ultimately have mk: "m = k" by (metis diff_is_0_eq dvd_imp_mod_0 le_antisym mod_eq_dvd_iff_nat mod_less)
      have "ticket_act (t_word k k) (TTryCas (t_word k k)) = (t_word k (Suc k), THeld)"
        unfolding ticket_act.simps Let_def t_word_low t_word_high t_low_next by (simp add: t_word_def)
      moreover have "val = t_word k k" "w = t_word k k" using True w mk by simp_all
      ultimately have "w' = t_word m (Suc k)" "p = THeld" using act mk unfolding TTryCas by (metis prod.inject)+
      then show ?thesis using t_inv_draw [OF inv i, of p] TTryCas mk by (auto simp: t_out_def)
    next
      case False
      then have "w' = w" "p = TIdle" using act TTryCas by (auto simp: Let_def)
      then have "t_inv n m k tk (w', pc(i := p))" using TTryCas t_inv_same [OF inv i, of p] by (auto simp: t_out_def)
      then show ?thesis by blast
    qed
  next
    case THeld
    then have "w' = t_word (Suc m) k" "p = TIdle" using act w t_word_served by auto
    then show ?thesis using t_inv_serve [OF inv THeld] by blast
  qed (use act t_inv_same [OF inv i, of p] in \<open>auto simp: t_out_def intro!: exI\<close>)
qed

lemma ticket_reach_inv: "n < 2 ^ 16 \<Longrightarrow> (ticket_step n)\<^sup>*\<^sup>* ticket_init s \<Longrightarrow> \<exists>m k tk. t_inv n m k tk s"
proof (rotate_tac, induction rule: rtranclp_induct)
  case base
  have "t_inv n 0 0 (\<lambda>_. 0) ticket_init" by (simp add: t_inv_def ticket_init_def t_word_def t_out_def bij_betw_def)
  then show ?case by blast
next
  case (step s s')
  then show ?case using ticket_step_inv by blast
qed

section \<open>Properties\<close>

text \<open>
  C18. The futex lock. However the steps of any number of threads interleave, with any mix of the three ways to take the lock, at
  most one thread is between taking and releasing it, and no wakeup is lost: while a thread sleeps in the kernel, either
  the word says that there are waiters, so that the next release wakes one, or a thread is about to wake one or to take
  the lock and say so.
\<close>

theorem futex_lock_correct:
  assumes "futex_step\<^sup>*\<^sup>* futex_init (w, pc)"
  shows "(pc i = FHeld \<and> pc j = FHeld \<longrightarrow> i = j) \<and> (pc i = FHeld \<longrightarrow> w = 1 \<or> w = 2) \<and>
    (futex_asleep (pc i) \<longrightarrow> futex_haswaiters w \<or> (\<exists>k. futex_waker (pc k)))"
proof -
  have inv: "futex_excl (w, pc)" "futex_live (w, pc)" using futex_reach_inv [OF assms] by simp_all
  have one: "one_owner futex_owns (w \<noteq> 0) pc" "w \<in> {0, 1, 2}" using inv(1) by (simp_all add: futex_excl_def)
  have "i = j" if "pc i = FHeld" "pc j = FHeld" using one_owner_unique [OF one(1), of i j] that by (simp add: futex_owns_def)
  moreover have "w = 1 \<or> w = 2" if "pc i = FHeld" using one_owner_taken [OF one(1), of i] one(2) that by (auto simp: futex_owns_def)
  moreover have "futex_haswaiters w \<or> (\<exists>k. futex_waker (pc k))" if "futex_asleep (pc i)"
    using inv(2) that by (auto simp: futex_live_def futex_haswaiters_def)
  ultimately show ?thesis by blast
qed

theorem futex_lock_correct_witness:
  "\<exists>pc. futex_step\<^sup>*\<^sup>* futex_init (1, pc) \<and> pc 0 = FHeld \<and> (\<forall>j. pc j = FHeld \<longrightarrow> j = 0)"
proof -
  let ?p1 = "(\<lambda>_. FIdle)(0 := FRead FSpin 0)" let ?p2 = "?p1(0 := FCas FSpin 0)" let ?p3 = "?p2(0 := FHeld)"
  have s1: "futex_step futex_init (0, ?p1)" unfolding futex_init_def by (rule futex_call) simp
  have s2: "futex_step (0, ?p1) (0, ?p2)" by (rule futex_act) simp
  have s3: "futex_step (0, ?p2) (1, ?p3)" by (rule futex_act) simp
  have "futex_step\<^sup>*\<^sup>* futex_init (0, ?p1)" using s1 by (rule r_into_rtranclp)
  then have "futex_step\<^sup>*\<^sup>* futex_init (0, ?p2)" using s2 by (rule rtranclp.rtrancl_into_rtrancl)
  then have r: "futex_step\<^sup>*\<^sup>* futex_init (1, ?p3)" using s3 by (rule rtranclp.rtrancl_into_rtrancl)
  have "\<forall>j. ?p3 j = FHeld \<longrightarrow> j = 0" using futex_lock_correct [OF r, where i = 0] by simp
  with r show ?thesis by (intro exI [of _ ?p3]) simp
qed

text \<open>
  C19. The ticket lock, with fewer than 65536 threads. However their steps interleave, at most one thread holds the lock, also
  after the 16-bit counters have wrapped around. When threads are waiting or holding, one of them holds the lock or has
  the ticket the word shows and enters with its next step.
\<close>

theorem ticket_lock_correct:
  assumes "n < 2 ^ 16" "(ticket_step n)\<^sup>*\<^sup>* ticket_init (w, pc)"
  shows "(pc i = THeld \<and> pc j = THeld \<longrightarrow> i = j) \<and>
    (t_out (pc i) \<longrightarrow> (\<exists>k. pc k = THeld \<or> pc k = TWait (drop_bit 16 w AND TICKET_MASK)))"
proof -
  obtain m k tk where inv: "t_inv n m k tk (w, pc)" using ticket_reach_inv [OF assms] by blast
  note D = t_invD [OF inv]
  have "i = j" if "pc i = THeld" "pc j = THeld"
    using D(4,5) that by (auto simp: bij_betw_def inj_on_def t_out_def)
  moreover have "\<exists>k. pc k = THeld \<or> pc k = TWait (drop_bit 16 w AND TICKET_MASK)" if "t_out (pc i)"
  proof -
    have "tk i \<in> {m..<k}" using D(4) that by (auto simp: bij_betw_def)
    then have "m \<in> tk ` {i. t_out (pc i)}" using D(4) by (auto simp: bij_betw_def)
    then obtain a where a: "t_out (pc a)" "tk a = m" by auto
    then show ?thesis using D(1,6) t_word_high [of m k] by (auto simp: t_out_def)
  qed
  ultimately show ?thesis by blast
qed

theorem ticket_lock_correct_witness:
  "\<exists>w pc. (ticket_step 2)\<^sup>*\<^sup>* ticket_init (w, pc) \<and> pc 1 = TWait 0 \<and> (\<exists>k. pc k = THeld \<or> pc k = TWait (drop_bit 16 w AND TICKET_MASK))"
proof -
  let ?p1 = "(\<lambda>_. TIdle)(1 := TRead)" let ?p2 = "?p1(1 := TCas 0)" let ?p3 = "?p2(1 := TWait 0)"
  have s1: "ticket_step 2 ticket_init (0, ?p1)" unfolding ticket_init_def by (rule ticket_call) simp_all
  have s2: "ticket_step 2 (0, ?p1) (0, ?p2)" by (rule ticket_act) simp_all
  have s3: "ticket_step 2 (0, ?p2) (1, ?p3)" by (rule ticket_act) (simp_all add: TICKET_MASK_def)
  have "(ticket_step 2)\<^sup>*\<^sup>* ticket_init (0, ?p1)" using s1 by (rule r_into_rtranclp)
  then have "(ticket_step 2)\<^sup>*\<^sup>* ticket_init (0, ?p2)" using s2 by (rule rtranclp.rtrancl_into_rtrancl)
  then have r: "(ticket_step 2)\<^sup>*\<^sup>* ticket_init (1, ?p3)" using s3 by (rule rtranclp.rtrancl_into_rtrancl)
  have "(2 :: nat) < 2 ^ 16" by simp
  from ticket_lock_correct [OF this r, of 1 1] r show ?thesis by (intro exI [of _ 1] exI [of _ ?p3]) (simp add: t_out_def)
qed

text \<open>
  The comment at \<open>futex_haswaiters\<close> promises that there are no false positives. There are: when a thread that found the lock
  taken exchanges the word just after it was released, it takes the lock with the word saying that there are waiters,
  and no other thread is inside any lock operation.
\<close>

theorem futex_haswaiters_false_positive:
  "\<exists>w pc. futex_step\<^sup>*\<^sup>* futex_init (w, pc) \<and> futex_haswaiters w \<and> pc 1 = FHeld \<and> {i. pc i \<noteq> FIdle} = {1}"
proof -
  let ?pc = "\<lambda>a b. (\<lambda>_. FIdle)(0 := a, 1 := b)"
  have s0: "futex_step futex_init (0, ?pc (FRead FNoSpin 0) FIdle)"
    using futex_call [of "\<lambda>_. FIdle" 0 0 FNoSpin] by (simp add: futex_init_def fun_upd_idem)
  have st: "futex_step (w, ?pc a b) (w', ?pc a' b)" if "futex_act w a = (w', a')" for w a b w' a'
    using futex_act [of w "?pc a b" 0 w' a'] that by (simp add: fun_upd_twist)
  have st1: "futex_step (w, ?pc a b) (w', ?pc a b')" if "futex_act w b = (w', b')" for w a b w' b'
    using futex_act [of w "?pc a b" 1 w' b'] that by (simp add: fun_upd_twist)
  have cl: "futex_step (w, ?pc a FIdle) (w, ?pc a (FRead FNoSpin 0))" for w a
    using futex_call [of "?pc a FIdle" 1 w FNoSpin] by (simp add: fun_upd_twist)
  note [trans] = rtranclp.rtrancl_into_rtrancl
  have "futex_step\<^sup>*\<^sup>* futex_init (0, ?pc (FRead FNoSpin 0) FIdle)" using s0 by (rule r_into_rtranclp)
  also have "futex_step (0, ?pc (FRead FNoSpin 0) FIdle) (0, ?pc (FCas FNoSpin 0) FIdle)" by (rule st) simp
  also have "futex_step (0, ?pc (FCas FNoSpin 0) FIdle) (1, ?pc FHeld FIdle)" by (rule st) simp
  also have "futex_step (1, ?pc FHeld FIdle) (1, ?pc FHeld (FRead FNoSpin 0))" by (rule cl)
  also have "futex_step (1, ?pc FHeld (FRead FNoSpin 0)) (1, ?pc FHeld (FXchg FNoSpin))"
    by (rule st1) (simp add: futex_retry_def futex_tries_def)
  also have "futex_step (1, ?pc FHeld (FXchg FNoSpin)) (0, ?pc FIdle (FXchg FNoSpin))" by (rule st) simp
  also have "futex_step (0, ?pc FIdle (FXchg FNoSpin)) (2, ?pc FIdle FHeld)" by (rule st1) simp
  finally have "futex_step\<^sup>*\<^sup>* futex_init (2, ?pc FIdle FHeld)" .
  then show ?thesis by (intro exI [of _ 2] exI [of _ "?pc FIdle FHeld"]) (auto simp: futex_haswaiters_def)
qed

end
