(* ===== verification/Barrier.thy ===== *)
theory Barrier
  imports Prelude
begin

text \<open>
  The phase barrier of \<^verbatim>\<open>src/barrier.h\<close>: threads join, leave and synchronize; at most \<open>parallelThreads\<close> run at a time, and a phase ends
  when every thread on the run list had its turn.

  Every operation runs with the scheduler lock held up to the point where the calling thread waits on its futex word, so it is one
  step of the model. The thread that called \<open>join\<close> or \<open>sync\<close> returns when another one has put it in state \<open>RUNNING\<close>.

  \<^item> The counters of type \<open>uint32_t\<close> are bounded by the size of the thread table and are natural numbers. A decrement of
    zero, which would wrap around in the code, is a failure here (\<open>dec\<close>), so a theorem that an operation succeeds shows that no
    counter wraps.
  \<^item> \<open>cb\<close> is the scheduler's \<open>callback()\<close> on the state \<open>b_sched\<close>.
  \<^item> \<open>shuf i\<close> is the number \<open>rnd.randInt(i)\<close> returned at index \<open>i\<close> of the shuffle.
\<close>

section \<open>State\<close>

datatype bar_state = OFFLINE | WAITING | RUNNING | LEFT

record thread_sync =
  ts_state :: bar_state
  ts_futexWord :: u32
  ts_lastIdx :: nat

record 's barrier =
  b_parallel :: nat
  b_threads :: "thread_sync list"
  b_runList :: "nat list"
  b_size :: nat
  b_cur :: nat
  b_running :: nat
  b_left :: nat
  b_phaseCount :: u32
  b_sched :: 's

definition MAX_THREADS :: nat where "MAX_THREADS = 2048"

text \<open>The constructor does not set \<open>lastIdx\<close>; \<open>junk\<close> is what memory holds there.\<close>

definition Barrier_new :: "nat \<Rightarrow> (nat \<Rightarrow> nat) \<Rightarrow> 's \<Rightarrow> 's barrier" where
  "Barrier_new parallel junk sched =
     \<lparr>b_parallel = parallel,
      b_threads = map (\<lambda>t. \<lparr>ts_state = OFFLINE, ts_futexWord = 0, ts_lastIdx = junk t\<rparr>) [0..<MAX_THREADS],
      b_runList = replicate MAX_THREADS 0, b_size = 0, b_cur = 0, b_running = 0, b_left = 0, b_phaseCount = 0, b_sched = sched\<rparr>"

definition upd_thread :: "nat \<Rightarrow> (thread_sync \<Rightarrow> thread_sync) \<Rightarrow> 's barrier \<Rightarrow> 's barrier option" where
  "upd_thread t f b = do {
     x \<leftarrow> aget (b_threads b) t;
     ts \<leftarrow> aset (b_threads b) t (f x);
     Some (b\<lparr>b_threads := ts\<rparr>) }"

definition thread_state :: "'s barrier \<Rightarrow> nat \<Rightarrow> bar_state option" where
  "thread_state b t = map_option ts_state (aget (b_threads b) t)"

section \<open>Waking threads\<close>

definition wake_next :: "'s barrier \<Rightarrow> 's barrier option" where
  "wake_next b = do {
     let idx = b_cur b;
     let b = b\<lparr>b_cur := idx + 1\<rparr>;
     wtid \<leftarrow> aget (b_runList b) idx;
     w \<leftarrow> aget (b_threads b) wtid;
     if ts_state w = WAITING then do {
       assert_that (ts_futexWord w = 1);
       b \<leftarrow> upd_thread wtid (\<lambda>w. w\<lparr>ts_state := RUNNING, ts_lastIdx := idx, ts_futexWord := 0\<rparr>) b;
       Some (b\<lparr>b_running := b_running b + 1\<rparr>) }
     else Some b }"

text \<open>The loop runs at most once for every entry of the run list that is still to be checked.\<close>

fun run_loop :: "nat \<Rightarrow> 's barrier \<Rightarrow> 's barrier option" where
  "run_loop 0 b = Some b"
| "run_loop (Suc n) b =
     (if b_running b < b_parallel b \<and> b_cur b < b_size b then wake_next b \<bind> run_loop n else Some b)"

definition checkRunList :: "'s barrier \<Rightarrow> 's barrier option" where
  "checkRunList b = run_loop (b_size b - b_cur b) b"

section \<open>End of a phase\<close>

text \<open>The pass that takes threads in state \<open>LEFT\<close> off the run list; \<open>n\<close> is \<open>newSize - idx\<close>.\<close>

fun cleanup_loop :: "nat \<Rightarrow> nat \<Rightarrow> nat \<Rightarrow> 's barrier \<Rightarrow> ('s barrier \<times> nat) option" where
  "cleanup_loop 0 idx newSize b = Some (b, newSize)"
| "cleanup_loop (Suc n) idx newSize b = do {
     wtid \<leftarrow> aget (b_runList b) idx;
     w \<leftarrow> aget (b_threads b) wtid;
     if ts_state w = LEFT then do {
       b \<leftarrow> upd_thread wtid (\<lambda>w. w\<lparr>ts_state := OFFLINE\<rparr>) b;
       stid \<leftarrow> aget (b_runList b) (newSize - 1);
       rl \<leftarrow> aset (b_runList b) idx stid;
       b \<leftarrow> upd_thread stid (\<lambda>w. w\<lparr>ts_lastIdx := idx\<rparr>) (b\<lparr>b_runList := rl\<rparr>);
       cleanup_loop n idx (newSize - 1) b }
     else cleanup_loop n (idx + 1) newSize b }"

definition cleanup :: "'s barrier \<Rightarrow> 's barrier option" where
  "cleanup b = do {
     assert_that (b_size b > 0);
     (b, newSize) \<leftarrow> cleanup_loop (b_size b) 0 (b_size b) b;
     assert_that (b_size b - newSize = b_left b);
     Some (b\<lparr>b_left := 0, b_size := newSize\<rparr>) }"

definition swap_entries :: "nat \<Rightarrow> nat \<Rightarrow> 's barrier \<Rightarrow> 's barrier option" where
  "swap_entries i j b = do {
     itid \<leftarrow> aget (b_runList b) i;
     jtid \<leftarrow> aget (b_runList b) j;
     rl \<leftarrow> aset (b_runList b) i jtid;
     rl \<leftarrow> aset rl j itid;
     b \<leftarrow> upd_thread itid (\<lambda>w. w\<lparr>ts_lastIdx := j\<rparr>) (b\<lparr>b_runList := rl\<rparr>);
     upd_thread jtid (\<lambda>w. w\<lparr>ts_lastIdx := i\<rparr>) b }"

fun shuffle_loop :: "(nat \<Rightarrow> nat) \<Rightarrow> nat \<Rightarrow> 's barrier \<Rightarrow> 's barrier option" where
  "shuffle_loop shuf 0 b = Some b"
| "shuffle_loop shuf (Suc i) b = swap_entries (Suc i) (shuf (Suc i)) b \<bind> shuffle_loop shuf i"

definition checkEndPhase :: "('s \<Rightarrow> 's option) \<Rightarrow> (nat \<Rightarrow> nat) \<Rightarrow> 's barrier \<Rightarrow> 's barrier option" where
  "checkEndPhase cb shuf b =
     (if b_cur b = b_size b \<and> b_running b = 0 \<and> b_left b \<noteq> b_size b then do {
        s \<leftarrow> cb (b_sched b);
        let b = b\<lparr>b_sched := s, b_cur := 0\<rparr>;
        let doClean = (b_phaseCount b AND (32 - 1) = 0);
        let b = b\<lparr>b_phaseCount := b_phaseCount b + 1\<rparr>;
        b \<leftarrow> (if doClean then cleanup b else Some b);
        if b_parallel b < b_size b then shuffle_loop shuf (b_size b - 1) b else Some b }
      else Some b)"

definition tryWakeNext :: "('s \<Rightarrow> 's option) \<Rightarrow> (nat \<Rightarrow> nat) \<Rightarrow> 's barrier \<Rightarrow> 's barrier option" where
  "tryWakeNext cb shuf b = do {
     b \<leftarrow> checkRunList b;
     b \<leftarrow> checkEndPhase cb shuf b;
     checkRunList b }"

section \<open>The operations\<close>

definition rejoin_phase :: "nat \<Rightarrow> 's barrier \<Rightarrow> 's barrier option" where
  "rejoin_phase tid b = do {
     x \<leftarrow> aget (b_threads b) tid;
     let lastIdx = ts_lastIdx x;
     if b_cur b > lastIdx then do {
       let b = b\<lparr>b_cur := b_cur b - 1\<rparr>;
       r \<leftarrow> aget (b_runList b) lastIdx;
       assert_that (tid = r);
       otherTid \<leftarrow> aget (b_runList b) (b_cur b);
       rl \<leftarrow> aset (b_runList b) lastIdx otherTid;
       rl \<leftarrow> aset rl (b_cur b) tid;
       b \<leftarrow> upd_thread otherTid (\<lambda>w. w\<lparr>ts_lastIdx := lastIdx\<rparr>) (b\<lparr>b_runList := rl\<rparr>);
       upd_thread tid (\<lambda>w. w\<lparr>ts_lastIdx := b_cur b\<rparr>) b }
     else Some b }"

definition bar_join :: "('s \<Rightarrow> 's option) \<Rightarrow> (nat \<Rightarrow> nat) \<Rightarrow> nat \<Rightarrow> 's barrier \<Rightarrow> 's barrier option" where
  "bar_join cb shuf tid b = do {
     st \<leftarrow> thread_state b tid;
     assert_that (st = LEFT \<or> st = OFFLINE);
     b \<leftarrow> (if st = OFFLINE then do {
             rl \<leftarrow> aset (b_runList b) (b_size b) tid;
             Some (b\<lparr>b_runList := rl, b_size := b_size b + 1\<rparr>) }
           else do {
             l \<leftarrow> dec (b_left b);
             rejoin_phase tid (b\<lparr>b_left := l\<rparr>) });
     b \<leftarrow> upd_thread tid (\<lambda>w. w\<lparr>ts_state := WAITING, ts_futexWord := 1\<rparr>) b;
     tryWakeNext cb shuf b }"

definition bar_leave :: "('s \<Rightarrow> 's option) \<Rightarrow> (nat \<Rightarrow> nat) \<Rightarrow> nat \<Rightarrow> 's barrier \<Rightarrow> 's barrier option" where
  "bar_leave cb shuf tid b = do {
     st \<leftarrow> thread_state b tid;
     if st = RUNNING then do {
       b \<leftarrow> upd_thread tid (\<lambda>w. w\<lparr>ts_state := LEFT\<rparr>) b;
       r \<leftarrow> dec (b_running b);
       tryWakeNext cb shuf (b\<lparr>b_running := r, b_left := b_left b + 1\<rparr>) }
     else do {
       assert_that (st = WAITING);
       b \<leftarrow> upd_thread tid (\<lambda>w. w\<lparr>ts_state := LEFT\<rparr>) b;
       Some (b\<lparr>b_left := b_left b + 1\<rparr>) } }"

definition bar_sync :: "('s \<Rightarrow> 's option) \<Rightarrow> (nat \<Rightarrow> nat) \<Rightarrow> nat \<Rightarrow> 's barrier \<Rightarrow> 's barrier option" where
  "bar_sync cb shuf tid b = do {
     st \<leftarrow> thread_state b tid;
     assert_that (st = RUNNING);
     b \<leftarrow> upd_thread tid (\<lambda>w. w\<lparr>ts_futexWord := 1, ts_state := WAITING\<rparr>) b;
     r \<leftarrow> dec (b_running b);
     tryWakeNext cb shuf (b\<lparr>b_running := r\<rparr>) }"

section \<open>Invariant\<close>

definition st :: "'s barrier \<Rightarrow> nat \<Rightarrow> bar_state" where
  "st b t = ts_state (b_threads b ! t)"

definition numb :: "bar_state \<Rightarrow> 's barrier \<Rightarrow> nat" where
  "numb x b = length (filter (\<lambda>w. ts_state w = x) (b_threads b))"

text \<open>The run list holds every thread that is not offline, once.\<close>

definition b_list :: "'s barrier \<Rightarrow> bool" where
  "b_list b \<longleftrightarrow> length (b_threads b) = length (b_runList b) \<and> b_size b \<le> length (b_runList b) \<and> b_cur b \<le> b_size b \<and>
     distinct (take (b_size b) (b_runList b)) \<and>
     set (take (b_size b) (b_runList b)) = {t. t < length (b_threads b) \<and> st b t \<noteq> OFFLINE}"

definition b_counts :: "'s barrier \<Rightarrow> bool" where
  "b_counts b \<longleftrightarrow> b_running b = numb RUNNING b \<and> b_left b = numb LEFT b \<and> b_running b \<le> b_parallel b"

text \<open>Running threads and threads that left have their position in \<open>lastIdx\<close>; running ones are in the part that had its turn.\<close>

definition b_pos :: "'s barrier \<Rightarrow> bool" where
  "b_pos b \<longleftrightarrow> (\<forall>t < length (b_threads b). let w = b_threads b ! t in
     (ts_state w = WAITING \<longrightarrow> ts_futexWord w = 1) \<and>
     (ts_state w = LEFT \<longrightarrow> ts_lastIdx w < b_size b \<and> b_runList b ! ts_lastIdx w = t) \<and>
     (ts_state w = RUNNING \<longrightarrow> ts_lastIdx w < b_cur b \<and> b_runList b ! ts_lastIdx w = t))"

definition b_inv :: "'s barrier \<Rightarrow> bool" where
  "b_inv b \<longleftrightarrow> b_list b \<and> b_counts b \<and> b_pos b"

text \<open>Unless nobody waits, some thread runs.\<close>

definition b_live :: "'s barrier \<Rightarrow> bool" where
  "b_live b \<longleftrightarrow> b_running b > 0 \<or> (\<forall>t < length (b_threads b). st b t \<noteq> WAITING)"

section \<open>Helpers\<close>

lemma upd_thread_ok [simp]: "t < length (b_threads b) \<Longrightarrow>
    upd_thread t f b = Some (b\<lparr>b_threads := (b_threads b)[t := f (b_threads b ! t)]\<rparr>)"
  by (simp add: upd_thread_def)

lemma thread_state_ok [simp]: "t < length (b_threads b) \<Longrightarrow> thread_state b t = Some (st b t)"
  by (simp add: thread_state_def st_def)

lemma numb_update:
  "t < length (b_threads b) \<Longrightarrow>
     numb x (b\<lparr>b_threads := (b_threads b)[t := v]\<rparr>) + of_bool (st b t = x) = numb x b + of_bool (ts_state v = x)"
  unfolding numb_def st_def using count_filter_update [of t "b_threads b" "\<lambda>w. ts_state w = x" v] by simp

lemma numb_pos: "t < length (b_threads b) \<Longrightarrow> st b t = x \<Longrightarrow> numb x b > 0"
  unfolding numb_def st_def using nth_mem [of t "b_threads b"] by (auto simp: filter_empty_conv)

lemma numb_zero: "numb x b = 0 \<longleftrightarrow> (\<forall>t < length (b_threads b). st b t \<noteq> x)"
proof -
  have "numb x b = 0 \<longleftrightarrow> list_all (\<lambda>w. ts_state w \<noteq> x) (b_threads b)" by (auto simp: numb_def filter_empty_conv list_all_iff)
  then show ?thesis by (simp add: list_all_length st_def)
qed

text \<open>Facts that only read the threads and the run list.\<close>

lemma st_frame [simp]: "st (b\<lparr>b_cur := c\<rparr>) = st b" "st (b\<lparr>b_running := c\<rparr>) = st b" "st (b\<lparr>b_left := c\<rparr>) = st b"
  "st (b\<lparr>b_runList := rl\<rparr>) = st b" "st (b\<lparr>b_size := c\<rparr>) = st b" "st (b\<lparr>b_sched := s\<rparr>) = st b" "st (b\<lparr>b_phaseCount := k\<rparr>) = st b"
  by (simp_all add: st_def fun_eq_iff)

lemma numb_frame [simp]: "numb x (b\<lparr>b_cur := c\<rparr>) = numb x b" "numb x (b\<lparr>b_running := c\<rparr>) = numb x b" "numb x (b\<lparr>b_left := c\<rparr>) = numb x b"
  "numb x (b\<lparr>b_runList := rl\<rparr>) = numb x b" "numb x (b\<lparr>b_size := c\<rparr>) = numb x b" "numb x (b\<lparr>b_sched := s\<rparr>) = numb x b"
  "numb x (b\<lparr>b_phaseCount := k\<rparr>) = numb x b"
  by (simp_all add: numb_def)

lemma st_update: "t < length (b_threads b) \<Longrightarrow>
    st (b\<lparr>b_threads := (b_threads b)[t := v]\<rparr>) u = (if u = t then ts_state v else st b u)"
  by (simp add: st_def nth_list_update)

lemma b_list_entry:
  assumes "b_list b" "p < b_size b"
  shows "b_runList b ! p < length (b_threads b)" "st b (b_runList b ! p) \<noteq> OFFLINE" "p < length (b_runList b)"
proof -
  show p: "p < length (b_runList b)" using assms by (simp add: b_list_def)
  have "b_runList b ! p \<in> set (take (b_size b) (b_runList b))" using nth_mem [of p "take (b_size b) (b_runList b)"] assms(2) p by simp
  then show "b_runList b ! p < length (b_threads b)" "st b (b_runList b ! p) \<noteq> OFFLINE" using assms(1) by (auto simp: b_list_def)
qed

lemma b_list_position:
  assumes "b_list b" "t < length (b_threads b)" "st b t \<noteq> OFFLINE"
  shows "\<exists>p < b_size b. b_runList b ! p = t"
proof -
  have "t \<in> set (take (b_size b) (b_runList b))" using assms by (simp add: b_list_def)
  then show ?thesis by (auto simp: in_set_conv_nth)
qed

lemma b_list_inj:
  assumes "b_list b" "p < b_size b" "q < b_size b" "b_runList b ! p = b_runList b ! q"
  shows "p = q"
proof -
  have "distinct (take (b_size b) (b_runList b))" "b_size b \<le> length (b_runList b)" using assms(1) by (simp_all add: b_list_def)
  then show ?thesis using assms(2-4) by (auto simp: distinct_conv_nth)
qed

lemma b_list_thread_update:
  assumes "b_list b" "t < length (b_threads b)" "(ts_state v = OFFLINE) = (st b t = OFFLINE)"
  shows "b_list (b\<lparr>b_threads := (b_threads b)[t := v]\<rparr>)"
  using assms by (auto simp: b_list_def st_update)

lemma b_list_other: "b_list (b\<lparr>b_running := c\<rparr>) = b_list b" "b_list (b\<lparr>b_left := c\<rparr>) = b_list b"
  "b_list (b\<lparr>b_sched := s\<rparr>) = b_list b" "b_list (b\<lparr>b_phaseCount := k\<rparr>) = b_list b"
  by (simp_all add: b_list_def)

lemma b_list_cur: "b_list b \<Longrightarrow> c \<le> b_size b \<Longrightarrow> b_list (b\<lparr>b_cur := c\<rparr>)"
  by (simp add: b_list_def)

text \<open>A thread that is offline has room on the run list.\<close>

lemma offline_room:
  assumes "b_list b" "t < length (b_threads b)" "st b t = OFFLINE"
  shows "b_size b < length (b_runList b)"
proof -
  let ?xs = "take (b_size b) (b_runList b)"
  have "card (set ?xs) = b_size b" using assms(1) distinct_card [of ?xs] by (simp add: b_list_def)
  moreover have "set ?xs \<subset> {..<length (b_threads b)}" using assms by (auto simp: b_list_def)
  ultimately show ?thesis using psubset_card_mono [of "{..<length (b_threads b)}" "set ?xs"] assms(1) by (simp add: b_list_def)
qed

text \<open>\<open>pos_ok\<close>: the recorded index of a thread is its position.\<close>

definition pos_ok :: "'s barrier \<Rightarrow> nat \<Rightarrow> bool" where
  "pos_ok b t \<longleftrightarrow> ts_lastIdx (b_threads b ! t) < b_size b \<and> b_runList b ! ts_lastIdx (b_threads b ! t) = t"

lemma b_posI:
  assumes "\<And>t. t < length (b_threads b) \<Longrightarrow> st b t = WAITING \<Longrightarrow> ts_futexWord (b_threads b ! t) = 1"
    and "\<And>t. t < length (b_threads b) \<Longrightarrow> st b t = LEFT \<Longrightarrow> pos_ok b t"
    and "\<And>t. t < length (b_threads b) \<Longrightarrow> st b t = RUNNING \<Longrightarrow> pos_ok b t \<and> ts_lastIdx (b_threads b ! t) < b_cur b"
  shows "b_pos b"
  using assms by (auto simp: b_pos_def Let_def st_def pos_ok_def)

lemma b_posD:
  assumes "b_pos b" "t < length (b_threads b)"
  shows "st b t = WAITING \<Longrightarrow> ts_futexWord (b_threads b ! t) = 1"
    and "st b t = LEFT \<Longrightarrow> pos_ok b t"
    and "st b t = RUNNING \<Longrightarrow> b_cur b \<le> b_size b \<Longrightarrow> pos_ok b t"
    and "st b t = RUNNING \<Longrightarrow> ts_lastIdx (b_threads b ! t) < b_cur b"
  using assms by (auto simp: b_pos_def Let_def st_def pos_ok_def)

text \<open>What the list operations leave alone.\<close>

definition same_setup :: "'s barrier \<Rightarrow> 's barrier \<Rightarrow> bool" where
  "same_setup b b' \<longleftrightarrow> b_parallel b' = b_parallel b \<and> length (b_threads b') = length (b_threads b)"

section \<open>Waking threads keeps the invariant\<close>

definition only_cur :: "'s barrier \<Rightarrow> 's barrier \<Rightarrow> bool" where
  "only_cur b b' \<longleftrightarrow> (\<exists>c. b' = b\<lparr>b_cur := c\<rparr>)"

lemma only_cur_refl [simp]: "only_cur b b"
  unfolding only_cur_def by (intro exI [of _ "b_cur b"]) simp

definition none_waiting :: "'s barrier \<Rightarrow> nat \<Rightarrow> nat \<Rightarrow> bool" where
  "none_waiting b i j \<longleftrightarrow> (\<forall>p. i \<le> p \<and> p < j \<longrightarrow> st b (b_runList b ! p) \<noteq> WAITING)"

lemma none_waiting_refl [simp]: "none_waiting b i i"
  by (auto simp: none_waiting_def)

lemma wake_next_ok:
  assumes inv: "b_inv b" and cur: "b_cur b < b_size b" and par: "b_running b < b_parallel b"
  shows "\<exists>b'. wake_next b = Some b' \<and> b_inv b' \<and> b_cur b' = b_cur b + 1 \<and> b_size b' = b_size b \<and> b_runList b' = b_runList b \<and>
    b_sched b' = b_sched b \<and> same_setup b b' \<and> b_left b' = b_left b \<and> b_running b \<le> b_running b' \<and>
    (b_running b' = 0 \<longrightarrow> only_cur b b' \<and> st b (b_runList b ! b_cur b) \<noteq> WAITING)"
proof -
  let ?w = "b_runList b ! b_cur b"
  note I = inv [unfolded b_inv_def]
  have w: "?w < length (b_threads b)" "st b ?w \<noteq> OFFLINE" "b_cur b < length (b_runList b)"
    using b_list_entry [of b] I cur by simp_all
  show ?thesis
  proof (cases "st b ?w = WAITING")
    case False
    have "b_inv (b\<lparr>b_cur := b_cur b + 1\<rparr>)"
      using I cur by (auto simp: b_inv_def b_list_cur b_counts_def b_pos_def Let_def st_def less_Suc_eq)
    then show ?thesis using False w by (auto simp: wake_next_def st_def same_setup_def only_cur_def)
  next
    case True
    let ?v = "(b_threads b ! ?w)\<lparr>ts_state := RUNNING, ts_lastIdx := b_cur b, ts_futexWord := 0\<rparr>"
    let ?b = "b\<lparr>b_cur := b_cur b + 1, b_threads := (b_threads b)[?w := ?v], b_running := b_running b + 1\<rparr>"
    have fw: "ts_futexWord (b_threads b ! ?w) = 1" using b_posD(1) [of b ?w] I w True by simp
    have eq: "wake_next b = Some ?b" using w True fw by (simp add: wake_next_def st_def Let_def)
    have list: "b_list ?b"
      using b_list_thread_update [of b ?w ?v] I w(1,2) cur True by (simp add: b_list_def st_def)
    have counts: "b_counts ?b"
      using numb_update [of ?w b RUNNING ?v] numb_update [of ?w b LEFT ?v] I w(1) True par
      by (simp add: b_counts_def numb_def)
    have "b_pos ?b"
      using I cur w by (auto simp: b_inv_def b_pos_def Let_def nth_list_update)
    with eq list counts show ?thesis by (simp add: b_inv_def same_setup_def)
  qed
qed

lemma run_loop_ok:
  assumes "b_inv b" "n = b_size b - b_cur b"
  shows "\<exists>b'. run_loop n b = Some b' \<and> b_inv b' \<and> b_cur b \<le> b_cur b' \<and> b_size b' = b_size b \<and> b_runList b' = b_runList b \<and>
    b_sched b' = b_sched b \<and> same_setup b b' \<and> b_left b' = b_left b \<and> b_running b \<le> b_running b' \<and>
    (b_running b' = b_parallel b' \<or> b_cur b' = b_size b') \<and>
    (b_running b' = 0 \<longrightarrow> only_cur b b' \<and> none_waiting b (b_cur b) (b_cur b'))"
  using assms
proof (induction n arbitrary: b)
  case 0
  then have "b_cur b = b_size b" by (simp add: b_inv_def b_list_def)
  then show ?case using 0 by (intro exI [of _ b]) (simp add: same_setup_def, linarith?)
next
  case (Suc n)
  show ?case
  proof (cases "b_running b < b_parallel b \<and> b_cur b < b_size b")
    case False
    moreover have "b_running b \<le> b_parallel b" "b_cur b \<le> b_size b" using Suc.prems(1) by (simp_all add: b_inv_def b_list_def b_counts_def)
    ultimately have "b_running b = b_parallel b \<or> b_cur b = b_size b" by linarith
    moreover have "run_loop (Suc n) b = Some b" using False by auto
    ultimately show ?thesis using Suc.prems(1) by (intro exI [of _ b]) (simp add: same_setup_def)
  next
    case True
    obtain b1 where w: "wake_next b = Some b1" "b_inv b1" "b_cur b1 = b_cur b + 1" "b_size b1 = b_size b" "b_runList b1 = b_runList b"
      "b_sched b1 = b_sched b" "same_setup b b1" "b_left b1 = b_left b" "b_running b \<le> b_running b1"
      "b_running b1 = 0 \<longrightarrow> only_cur b b1 \<and> st b (b_runList b ! b_cur b) \<noteq> WAITING"
      using wake_next_ok [OF Suc.prems(1) conjunct2 [OF True] conjunct1 [OF True]] by (elim exE conjE) (rule that)
    have n: "n = b_size b1 - b_cur b1" using Suc.prems(2) w(3,4) by simp
    obtain b2 where r: "run_loop n b1 = Some b2" "b_inv b2" "b_cur b1 \<le> b_cur b2" "b_size b2 = b_size b1" "b_runList b2 = b_runList b1"
      "b_sched b2 = b_sched b1" "same_setup b1 b2" "b_left b2 = b_left b1" "b_running b1 \<le> b_running b2"
      "b_running b2 = b_parallel b2 \<or> b_cur b2 = b_size b2"
      "b_running b2 = 0 \<longrightarrow> only_cur b1 b2 \<and> none_waiting b1 (b_cur b1) (b_cur b2)"
      using Suc.IH [OF w(2) n] by (elim exE conjE) (rule that)
    have "only_cur b b2 \<and> none_waiting b (b_cur b) (b_cur b2)" if z: "b_running b2 = 0"
    proof -
      have b1: "only_cur b b1" "st b (b_runList b ! b_cur b) \<noteq> WAITING" using w(10) r(9) z by simp_all
      have p: "b_cur b \<le> p \<Longrightarrow> p = b_cur b \<or> b_cur b1 \<le> p" for p using w(3) by auto
      have "st b1 = st b" using b1(1) by (auto simp: only_cur_def)
      then have "none_waiting b (b_cur b) (b_cur b2)" using r(11) z p b1(2) w(5) unfolding none_waiting_def by metis
      moreover have "only_cur b b2" using r(11) z b1(1) by (auto simp: only_cur_def)
      ultimately show ?thesis by blast
    qed
    moreover have "run_loop (Suc n) b = Some b2" using w(1) r(1) True by simp
    moreover have "b_cur b \<le> b_cur b2" "b_running b \<le> b_running b2" "same_setup b b2" using w r(3,7,9) by (simp_all add: same_setup_def)
    ultimately show ?thesis using w(4-6,8) r(2,4-6,8,10) by (intro exI [of _ b2]) simp
  qed
qed

lemma checkRunList_ok:
  assumes "b_inv b"
  shows "\<exists>b'. checkRunList b = Some b' \<and> b_inv b' \<and> b_size b' = b_size b \<and> b_runList b' = b_runList b \<and>
    b_sched b' = b_sched b \<and> same_setup b b' \<and> b_left b' = b_left b \<and> (b_running b' = b_parallel b' \<or> b_cur b' = b_size b') \<and>
    (b_running b' = 0 \<longrightarrow> b_running b = 0 \<and> only_cur b b' \<and>
       none_waiting b (b_cur b) (b_cur b'))"
  unfolding checkRunList_def using run_loop_ok [OF assms refl] by fastforce

section \<open>The end of a phase keeps the invariant\<close>

lemma distinct_drop_entry:
  assumes "distinct xs" "i < length xs"
  shows "distinct (butlast (xs[i := last xs]))" "set (butlast (xs[i := last xs])) = set xs - {xs ! i}"
proof -
  define as bs where "as = take i xs" and "bs = drop (Suc i) xs"
  have xs: "xs = as @ xs ! i # bs" "length as = i" using assms(2) by (simp_all add: as_def bs_def id_take_nth_drop min_def)
  have "xs[i := last xs] = as @ last xs # bs" using xs by (metis list_update_length)
  moreover have "bs = [] \<or> (\<exists>cs. bs = cs @ [last xs])" using xs(1) by (metis append_butlast_last_id last.simps last_appendR list.distinct(1))
  ultimately have b: "butlast (xs[i := last xs]) = as \<and> bs = [] \<or> (\<exists>cs. bs = cs @ [last xs] \<and> butlast (xs[i := last xs]) = as @ last xs # cs)"
    by (auto simp: butlast_append)
  have "distinct (as @ xs ! i # bs)" using assms(1) xs(1) by simp
  then show "distinct (butlast (xs[i := last xs]))" "set (butlast (xs[i := last xs])) = set xs - {xs ! i}"
    using b arg_cong [OF xs(1), of set] by auto
qed

text \<open>The loop invariant of the cleanup pass.\<close>

definition clean_inv :: "nat \<Rightarrow> nat \<Rightarrow> nat \<Rightarrow> 's barrier \<Rightarrow> bool" where
  "clean_inv tot idx new b \<longleftrightarrow> length (b_threads b) = length (b_runList b) \<and> new \<le> length (b_runList b) \<and>
     distinct (take new (b_runList b)) \<and> set (take new (b_runList b)) = {t. t < length (b_threads b) \<and> st b t \<noteq> OFFLINE} \<and>
     (\<forall>t < length (b_threads b). st b t \<noteq> RUNNING \<and> (st b t = WAITING \<longrightarrow> ts_futexWord (b_threads b ! t) = 1)) \<and>
     (\<forall>p < idx. st b (b_runList b ! p) \<noteq> LEFT) \<and> numb LEFT b + (tot - new) = b_left b \<and> idx \<le> new \<and> new \<le> tot"

lemma clean_step:
  assumes C: "clean_inv tot idx new b" and idx: "idx < new" and left: "st b (b_runList b ! idx) = LEFT"
  defines "w \<equiv> b_runList b ! idx" and "s \<equiv> b_runList b ! (new - 1)"
  defines "b1 \<equiv> b\<lparr>b_threads := (b_threads b)[w := (b_threads b ! w)\<lparr>ts_state := OFFLINE\<rparr>]\<rparr>"
  defines "b2 \<equiv> b1\<lparr>b_runList := (b_runList b)[idx := s]\<rparr>"
  defines "b3 \<equiv> b2\<lparr>b_threads := (b_threads b2)[s := (b_threads b2 ! s)\<lparr>ts_lastIdx := idx\<rparr>]\<rparr>"
  shows "clean_inv tot idx (new - 1) b3" "w < length (b_threads b)" "s < length (b_threads b)"
proof -
  have len: "length (b_threads b) = length (b_runList b)" "new \<le> length (b_runList b)" "idx < length (b_runList b)" using C idx by (simp_all add: clean_inv_def)
  let ?xs = "take new (b_runList b)"
  have mem: "p < new \<Longrightarrow> b_runList b ! p < length (b_threads b)" for p
    using C nth_mem [of p ?xs] len by (auto simp: clean_inv_def)
  show w: "w < length (b_threads b)" and s: "s < length (b_threads b)" using mem [of idx] mem [of "new - 1"] idx by (simp_all add: w_def s_def)
  have last: "last ?xs = s" using idx len by (subst last_conv_nth) (auto simp: s_def min_def)
  have take: "take (new - 1) (b_runList b3) = butlast (?xs[idx := last ?xs])"
    using idx len last by (simp add: b3_def b2_def b1_def take_update_swap butlast_conv_take min_def)
  have d: "distinct ?xs" "set ?xs = {t. t < length (b_threads b) \<and> st b t \<noteq> OFFLINE}" using C by (simp_all add: clean_inv_def)
  have st3: "st b3 t = (if t = w then OFFLINE else st b t)" for t
    using w s by (auto simp: b3_def b2_def b1_def st_def nth_list_update)
  have xsi: "?xs ! idx = w" using idx by (simp add: w_def)
  have set3: "set (take (new - 1) (b_runList b3)) = {t. t < length (b_threads b3) \<and> st b3 t \<noteq> OFFLINE}"
    unfolding take using distinct_drop_entry(2) [OF d(1), of idx] xsi d(2) st3 idx len by (auto simp: b3_def b2_def b1_def)
  have b13: "map ts_state (b_threads b3) = map ts_state (b_threads b1)"
    using w s by (intro nth_equalityI) (auto simp: b3_def b2_def b1_def nth_list_update)
  have "numb LEFT b1 + 1 = numb LEFT b" using numb_update [of w b LEFT] w left by (simp add: b1_def w_def)
  moreover have "numb LEFT b3 = numb LEFT b1"
    using arg_cong [OF b13, of "\<lambda>xs. length (filter (\<lambda>x. x = LEFT) xs)"] by (simp add: numb_def filter_map o_def)
  moreover have "numb LEFT b + (tot - new) = b_left b" "new \<le> tot" "b_left b3 = b_left b" using C by (simp_all add: clean_inv_def b3_def b2_def b1_def)
  ultimately have n: "numb LEFT b3 + (tot - (new - 1)) = b_left b3" using idx by linarith
  have "\<forall>p < idx. st b3 (b_runList b3 ! p) \<noteq> LEFT" using C st3 by (auto simp: clean_inv_def b3_def b2_def b1_def)
  moreover have "st b3 t \<noteq> RUNNING \<and> (st b3 t = WAITING \<longrightarrow> ts_futexWord (b_threads b3 ! t) = 1)" if "t < length (b_threads b)" for t
  proof -
    have "ts_futexWord (b_threads b3 ! t) = ts_futexWord (b_threads b ! t)" using w s by (auto simp: b3_def b2_def b1_def nth_list_update)
    then show ?thesis using C st3 that by (simp add: clean_inv_def)
  qed
  moreover have "new \<le> tot" using C by (simp add: clean_inv_def)
  moreover have "new - 1 \<le> length (b_runList b3)" "idx \<le> new - 1" "length (b_threads b3) = length (b_runList b3)"
    using idx len by (simp_all add: b3_def b2_def b1_def)
  ultimately show "clean_inv tot idx (new - 1) b3"
    using n set3 distinct_drop_entry(1) [OF d(1), of idx] take idx len unfolding clean_inv_def by (simp add: b3_def b2_def b1_def)
qed

lemma cleanup_loop_ok:
  assumes "clean_inv tot idx new b" "n = new - idx"
  shows "\<exists>b' new'. cleanup_loop n idx new b = Some (b', new') \<and> clean_inv tot new' new' b' \<and>
    b_cur b' = b_cur b \<and> b_size b' = b_size b \<and> b_left b' = b_left b \<and> b_running b' = b_running b \<and> b_sched b' = b_sched b \<and> same_setup b b'"
  using assms
proof (induction n arbitrary: idx new b)
  case 0
  then have "idx = new" by (simp add: clean_inv_def)
  then show ?case using 0 by (simp add: same_setup_def)
next
  case (Suc n)
  let ?w = "b_runList b ! idx"
  have idx: "idx < new" using Suc.prems by simp
  have len: "length (b_threads b) = length (b_runList b)" "new \<le> length (b_runList b)" using Suc.prems(1) by (simp_all add: clean_inv_def)
  have w: "?w < length (b_threads b)"
    using Suc.prems(1) nth_mem [of idx "take new (b_runList b)"] idx by (auto simp: clean_inv_def)
  show ?case
  proof (cases "st b ?w = LEFT")
    case True
    note C = clean_step [OF Suc.prems(1) idx True]
    have n: "n = new - 1 - idx" using Suc.prems(2) by simp
    show ?thesis using Suc.IH [OF C(1) n] C(2,3) True idx len w by (auto simp: st_def same_setup_def)
  next
    case False
    then have C: "clean_inv tot (idx + 1) new b" using Suc.prems(1) idx by (auto simp: clean_inv_def less_Suc_eq)
    have "n = new - (idx + 1)" using Suc.prems(2) by simp
    then show ?thesis using Suc.IH [OF C] False w idx len by (auto simp: st_def)
  qed
qed

lemma cleanup_ok:
  assumes inv: "b_inv b" and run: "b_running b = 0" and left: "b_left b < b_size b" and cur: "b_cur b = 0"
  shows "\<exists>b'. cleanup b = Some b' \<and> b_inv b' \<and> b_running b' = 0 \<and> b_cur b' = 0 \<and> b_sched b' = b_sched b \<and> same_setup b b'"
proof -
  note I = inv [unfolded b_inv_def]
  have nr: "\<forall>t < length (b_threads b). st b t \<noteq> RUNNING" using I run by (simp add: b_counts_def flip: numb_zero)
  have C: "clean_inv (b_size b) 0 (b_size b) b"
    using I nr b_posD(1) [of b] by (simp add: clean_inv_def b_list_def b_counts_def)
  obtain b1 new where l: "cleanup_loop (b_size b) 0 (b_size b) b = Some (b1, new)" "clean_inv (b_size b) new new b1"
    "b_cur b1 = b_cur b" "b_size b1 = b_size b" "b_left b1 = b_left b" "b_running b1 = b_running b" "b_sched b1 = b_sched b" "same_setup b b1"
    using cleanup_loop_ok [OF C, of "b_size b"] by auto
  have nl: "st b1 t \<noteq> LEFT" if t: "t < length (b_threads b1)" for t
  proof
    assume L: "st b1 t = LEFT"
    then have "t \<in> set (take new (b_runList b1))" using l(2) t by (simp add: clean_inv_def)
    then obtain p where "p < new" "b_runList b1 ! p = t" by (auto simp: in_set_conv_nth)
    then show False using l(2) L by (auto simp: clean_inv_def)
  qed
  then have z: "numb LEFT b1 = 0" by (simp add: numb_zero)
  have nr1: "numb RUNNING b1 = 0" using l(2) by (simp add: clean_inv_def numb_zero)
  let ?b = "b1\<lparr>b_left := 0, b_size := new\<rparr>"
  have "cleanup b = Some ?b" using l z left by (simp add: cleanup_def clean_inv_def)
  moreover have "b_list ?b" using l(2,3) cur by (simp add: clean_inv_def b_list_def)
  moreover have "b_counts ?b" using z nr1 l(6) run by (simp add: b_counts_def)
  moreover have "b_pos ?b" using l(2) nl by (intro b_posI) (simp_all add: clean_inv_def)
  ultimately show ?thesis using l run cur by (simp add: b_inv_def same_setup_def)
qed

text \<open>Exchanging two entries of the run list keeps every recorded position right.\<close>

lemma swap_ok:
  assumes L: "b_list b" and ij: "i < b_size b" "j < b_size b"
  shows "\<exists>b'. swap_entries i j b = Some b' \<and> b_list b' \<and> (\<forall>t. st b' t = st b t) \<and>
    (\<forall>t < length (b_threads b). ts_futexWord (b_threads b' ! t) = ts_futexWord (b_threads b ! t)) \<and>
    (\<forall>t < length (b_threads b). pos_ok b t \<longrightarrow> pos_ok b' t \<and> ts_lastIdx (b_threads b' ! t) =
       (let k = ts_lastIdx (b_threads b ! t) in if k = i then j else if k = j then i else k)) \<and>
    b_cur b' = b_cur b \<and> b_size b' = b_size b \<and> b_left b' = b_left b \<and> b_running b' = b_running b \<and> b_sched b' = b_sched b \<and>
    (\<forall>x. numb x b' = numb x b) \<and> same_setup b b'"
proof -
  let ?i = "b_runList b ! i" let ?j = "b_runList b ! j"
  have len: "i < length (b_runList b)" "j < length (b_runList b)" "?i < length (b_threads b)" "?j < length (b_threads b)"
    using b_list_entry [OF L] ij by simp_all
  define rl where "rl = (b_runList b)[i := ?j, j := ?i]"
  define ts where "ts = (b_threads b)[?i := (b_threads b ! ?i)\<lparr>ts_lastIdx := j\<rparr>]"
  define b' where "b' = b\<lparr>b_runList := rl, b_threads := ts[?j := (ts ! ?j)\<lparr>ts_lastIdx := i\<rparr>]\<rparr>"
  have eq: "swap_entries i j b = Some b'" using len by (simp add: swap_entries_def b'_def rl_def ts_def)
  have lt: "length (b_threads b') = length (b_threads b)" by (simp add: b'_def ts_def)
  have maps: "map ts_state (b_threads b') = map ts_state (b_threads b)" "map ts_futexWord (b_threads b') = map ts_futexWord (b_threads b)"
    using len by (auto intro!: nth_equalityI simp: b'_def ts_def nth_list_update)
  have stb: "st b' t = st b t" for t
    using len by (auto simp: st_def b'_def ts_def nth_list_update)
  have "numb x b' = numb x b" for x
    using arg_cong [OF maps(1), of "\<lambda>xs. length (filter (\<lambda>y. y = x) xs)"] by (simp add: numb_def filter_map o_def)
  moreover have fw: "\<forall>t < length (b_threads b). ts_futexWord (b_threads b' ! t) = ts_futexWord (b_threads b ! t)"
    using maps(2) lt by (metis nth_map)
  moreover have "b_list b'"
  proof -
    have "take (b_size b) rl = (take (b_size b) (b_runList b))[i := take (b_size b) (b_runList b) ! j, j := take (b_size b) (b_runList b) ! i]"
      using ij by (simp add: rl_def take_update_swap)
    moreover have "i < length (take (b_size b) (b_runList b))" "j < length (take (b_size b) (b_runList b))" using ij len by simp_all
    ultimately have "distinct (take (b_size b) rl) = distinct (take (b_size b) (b_runList b))" "set (take (b_size b) rl) = set (take (b_size b) (b_runList b))"
      by (simp_all add: distinct_swap set_swap del: length_take)
    then show ?thesis using L lt stb by (simp add: b_list_def b'_def rl_def)
  qed
  moreover have "pos_ok b' t \<and> ts_lastIdx (b_threads b' ! t) = (let k = ts_lastIdx (b_threads b ! t) in if k = i then j else if k = j then i else k)"
    if t: "t < length (b_threads b)" "pos_ok b t" for t
  proof -
    let ?k = "ts_lastIdx (b_threads b ! t)"
    have k: "?k < b_size b" "b_runList b ! ?k = t" using t(2) by (simp_all add: pos_ok_def)
    have ki: "(?k = i) = (t = ?i)" "(?k = j) = (t = ?j)" using b_list_inj [OF L] k ij by metis+
    have idx: "ts_lastIdx (b_threads b' ! t) = (if t = ?j then i else if t = ?i then j else ?k)"
      using len t(1) by (auto simp: b'_def ts_def nth_list_update)
    have "rl ! j = ?i" "rl ! i = (if i = j then ?i else ?j)" "?k \<noteq> i \<Longrightarrow> ?k \<noteq> j \<Longrightarrow> rl ! ?k = t" using len k by (auto simp: rl_def nth_list_update)
    moreover have "b_runList b' = rl" "b_size b' = b_size b" by (simp_all add: b'_def)
    ultimately show ?thesis using idx ki k ij unfolding pos_ok_def Let_def by (cases "i = j") auto
  qed
  ultimately show ?thesis using eq stb lt by (auto simp: same_setup_def b'_def)
qed

lemma swap_idle_ok:
  assumes inv: "b_inv b" and run: "b_running b = 0" and ij: "i < b_size b" "j < b_size b"
  shows "\<exists>b'. swap_entries i j b = Some b' \<and> b_inv b' \<and> b_running b' = 0 \<and> b_cur b' = b_cur b \<and> b_size b' = b_size b \<and>
    b_sched b' = b_sched b \<and> same_setup b b'"
proof -
  note I = inv [unfolded b_inv_def]
  obtain b' where b': "swap_entries i j b = Some b'" "b_list b'" "\<forall>t. st b' t = st b t"
    "\<forall>t < length (b_threads b). ts_futexWord (b_threads b' ! t) = ts_futexWord (b_threads b ! t)"
    "\<forall>t < length (b_threads b). pos_ok b t \<longrightarrow> pos_ok b' t"
    "b_cur b' = b_cur b" "b_size b' = b_size b" "b_left b' = b_left b" "b_running b' = b_running b" "b_sched b' = b_sched b"
    "\<forall>x. numb x b' = numb x b" "same_setup b b'"
    using swap_ok [OF conjunct1 [OF I] ij] by blast
  have nr: "st b t \<noteq> RUNNING" if "t < length (b_threads b)" for t using I run that numb_zero [of RUNNING b] by (simp add: b_counts_def)
  have "b_pos b'" using b_posD [of b] I b'(3-5,12) nr by (intro b_posI) (simp_all add: same_setup_def)
  then show ?thesis using b' I run by (simp add: b_inv_def b_counts_def same_setup_def)
qed

lemma shuffle_loop_ok:
  assumes "b_inv b" "b_running b = 0" "k < b_size b" "\<forall>i. shuf i \<le> i"
  shows "\<exists>b'. shuffle_loop shuf k b = Some b' \<and> b_inv b' \<and> b_running b' = 0 \<and> b_cur b' = b_cur b \<and> b_size b' = b_size b \<and>
    b_sched b' = b_sched b \<and> same_setup b b'"
  using assms
proof (induction k arbitrary: b)
  case 0
  then show ?case by (simp add: same_setup_def)
next
  case (Suc k)
  have "shuf (Suc k) \<le> Suc k" using Suc.prems(4) by blast
  then have j: "shuf (Suc k) < b_size b" using Suc.prems(3) by linarith
  obtain b1 where b1: "swap_entries (Suc k) (shuf (Suc k)) b = Some b1" "b_inv b1" "b_running b1 = 0" "b_cur b1 = b_cur b"
    "b_size b1 = b_size b" "b_sched b1 = b_sched b" "same_setup b b1"
    using swap_idle_ok [OF Suc.prems(1-3) j] by blast
  have k: "k < b_size b1" using Suc.prems(3) b1(5) by simp
  show ?case using Suc.IH [OF b1(2,3) k Suc.prems(4)] b1 by (auto simp: same_setup_def)
qed

section \<open>Who is in the barrier\<close>

text \<open>A thread is in the barrier when it runs or waits there. It has its turn still to come, or under way, when it runs or when its
  entry is in the part of the list that has not been checked.\<close>

definition inb :: "'s barrier \<Rightarrow> nat \<Rightarrow> bool" where
  "inb b t \<longleftrightarrow> st b t = WAITING \<or> st b t = RUNNING"

definition turn :: "'s barrier \<Rightarrow> nat \<Rightarrow> bool" where
  "turn b t \<longleftrightarrow> st b t = RUNNING \<or> st b t = WAITING \<and> (\<exists>p. b_cur b \<le> p \<and> p < b_size b \<and> b_runList b ! p = t)"

text \<open>\<open>kept b b'\<close>: nobody enters or leaves. \<open>turns_kept\<close>: nobody loses a turn, and who runs goes on.\<close>

definition kept :: "'s barrier \<Rightarrow> 's barrier \<Rightarrow> bool" where
  "kept b b' \<longleftrightarrow> length (b_threads b') = length (b_threads b) \<and> (\<forall>t < length (b_threads b). inb b' t = inb b t)"

definition turns_kept :: "'s barrier \<Rightarrow> 's barrier \<Rightarrow> bool" where
  "turns_kept b b' \<longleftrightarrow> (\<forall>t < length (b_threads b). (turn b t \<longrightarrow> turn b' t) \<and> (st b t = RUNNING \<longrightarrow> st b' t = RUNNING))"

lemma kept_refl [simp]: "kept b b" "turns_kept b b"
  by (simp_all add: kept_def turns_kept_def)

lemma kept_trans: "kept b c \<Longrightarrow> kept c d \<Longrightarrow> kept b d"
  by (simp add: kept_def)

lemma turns_kept_trans: "kept b c \<Longrightarrow> turns_kept b c \<Longrightarrow> turns_kept c d \<Longrightarrow> turns_kept b d"
  by (simp add: kept_def turns_kept_def)

lemma upd_thread_Some: "upd_thread t f b = Some b' \<longleftrightarrow>
    t < length (b_threads b) \<and> b' = b\<lparr>b_threads := (b_threads b)[t := f (b_threads b ! t)]\<rparr>"
  by (auto simp: upd_thread_def aget_def aset_def split: if_splits)

lemma upd_thread_kept:
  assumes "upd_thread t f b = Some b'"
    and "ts_state (f (b_threads b ! t)) \<in> {WAITING, RUNNING} \<longleftrightarrow> st b t \<in> {WAITING, RUNNING}"
  shows "kept b b'"
  using assms by (auto simp: upd_thread_Some kept_def inb_def st_def nth_list_update)

lemma kept_fields [simp]: "kept b (b'\<lparr>b_cur := c\<rparr>) = kept b b'" "kept b (b'\<lparr>b_running := c\<rparr>) = kept b b'" "kept b (b'\<lparr>b_left := c\<rparr>) = kept b b'"
  "kept b (b'\<lparr>b_runList := rl\<rparr>) = kept b b'" "kept b (b'\<lparr>b_size := c\<rparr>) = kept b b'" "kept b (b'\<lparr>b_sched := s\<rparr>) = kept b b'"
  "kept b (b'\<lparr>b_phaseCount := k\<rparr>) = kept b b'"
  "kept (b\<lparr>b_cur := c\<rparr>) b' = kept b b'" "kept (b\<lparr>b_running := c\<rparr>) b' = kept b b'" "kept (b\<lparr>b_left := c\<rparr>) b' = kept b b'"
  "kept (b\<lparr>b_runList := rl\<rparr>) b' = kept b b'" "kept (b\<lparr>b_size := c\<rparr>) b' = kept b b'" "kept (b\<lparr>b_sched := s\<rparr>) b' = kept b b'"
  "kept (b\<lparr>b_phaseCount := k\<rparr>) b' = kept b b'"
  by (simp_all add: kept_def inb_def)

lemma wake_next_kept:
  assumes "wake_next b = Some b'"
  shows "kept b b'" "turns_kept b b'"
proof -
  let ?w = "b_runList b ! b_cur b"
  have w: "?w < length (b_threads b)" using assms by (auto simp: wake_next_def Let_def aget_eq_Some bind_eq_Some_conv split: if_splits)
  have c: "b_cur b < length (b_runList b)" using assms by (auto simp: wake_next_def Let_def aget_eq_Some bind_eq_Some_conv split: if_splits)
  show "kept b b'"
    using assms w c by (auto simp: wake_next_def Let_def kept_def inb_def st_def nth_list_update bind_eq_Some_conv split: if_splits)
  have "st b' t = RUNNING" if "st b t = RUNNING" for t
    using assms w c that by (auto simp: wake_next_def Let_def st_def nth_list_update bind_eq_Some_conv split: if_splits)
  moreover have "turn b' t" if t: "t < length (b_threads b)" "turn b t" for t
  proof -
    show ?thesis
    proof (cases "t = ?w")
      case True
      then show ?thesis using assms w c t by (auto simp: wake_next_def Let_def turn_def st_def nth_list_update bind_eq_Some_conv split: if_splits)
    next
      case False
      have st': "st b' t = st b t" using assms w c False
        by (auto simp: wake_next_def Let_def st_def nth_list_update bind_eq_Some_conv split: if_splits)
      have f: "b_cur b' = b_cur b + 1" "b_size b' = b_size b" "b_runList b' = b_runList b"
        using assms w c by (auto simp: wake_next_def Let_def bind_eq_Some_conv split: if_splits)
      have "b_cur b + 1 \<le> p" if "b_cur b \<le> p" "b_runList b ! p = t" for p using that False by (cases "p = b_cur b") auto
      then show ?thesis using t(2) f st' unfolding turn_def by auto
    qed
  qed
  ultimately show "turns_kept b b'" by (simp add: turns_kept_def)
qed

lemma run_loop_kept: "run_loop n b = Some b' \<Longrightarrow> kept b b' \<and> turns_kept b b'"
proof (induction n arbitrary: b)
  case 0
  then show ?case by simp
next
  case (Suc n)
  show ?case
  proof (cases "b_running b < b_parallel b \<and> b_cur b < b_size b")
    case True
    then obtain b1 where b1: "wake_next b = Some b1" "run_loop n b1 = Some b'" using Suc.prems by (auto simp: bind_eq_Some_conv)
    then show ?thesis using Suc.IH [OF b1(2)] wake_next_kept [OF b1(1)] kept_trans turns_kept_trans by blast
  qed (use Suc.prems in auto)
qed

lemmas checkRunList_kept = run_loop_kept [of "b_size b - b_cur b" b for b, folded checkRunList_def]

lemma cleanup_loop_kept: "cleanup_loop n idx new b = Some (b', new') \<Longrightarrow> kept b b'"
proof (induction n arbitrary: idx new b)
  case 0
  then show ?case by simp
next
  case (Suc n)
  then obtain wtid w where w: "aget (b_runList b) idx = Some wtid" "aget (b_threads b) wtid = Some w" by (auto simp: bind_eq_Some_conv)
  show ?case
  proof (cases "ts_state w = LEFT")
    case True
    then obtain b1 stid rl b2 where s: "upd_thread wtid (\<lambda>w. w\<lparr>ts_state := OFFLINE\<rparr>) b = Some b1" "aset (b_runList b1) idx stid = Some rl"
        "upd_thread stid (\<lambda>w. w\<lparr>ts_lastIdx := idx\<rparr>) (b1\<lparr>b_runList := rl\<rparr>) = Some b2" "cleanup_loop n idx (new - 1) b2 = Some (b', new')"
      using Suc.prems w by (auto simp: bind_eq_Some_conv)
    have "kept b b1" using w(2) True by (intro upd_thread_kept [OF s(1)]) (auto simp: st_def aget_eq_Some)
    moreover have "kept b1 b2" using upd_thread_kept [OF s(3)] by (simp add: st_def)
    ultimately show ?thesis using Suc.IH [OF s(4)] kept_trans by blast
  qed (use Suc.prems Suc.IH w in auto)
qed

lemma cleanup_kept: "cleanup b = Some b' \<Longrightarrow> kept b b'"
  using cleanup_loop_kept by (fastforce simp: cleanup_def bind_eq_Some_conv split: prod.splits)

lemma swap_entries_kept:
  assumes "swap_entries i j b = Some b'"
  shows "kept b b'"
proof -
  obtain itid jtid rl b1 where b1: "upd_thread itid (\<lambda>w. w\<lparr>ts_lastIdx := j\<rparr>) (b\<lparr>b_runList := rl\<rparr>) = Some b1"
      "upd_thread jtid (\<lambda>w. w\<lparr>ts_lastIdx := i\<rparr>) b1 = Some b'"
    using assms by (auto simp: swap_entries_def bind_eq_Some_conv)
  have "kept b b1" using upd_thread_kept [OF b1(1)] by (simp add: st_def)
  moreover have "kept b1 b'" using upd_thread_kept [OF b1(2)] by (simp add: st_def)
  ultimately show ?thesis by (rule kept_trans)
qed

lemma swap_entries_elsewhere: "swap_entries i j b = Some b' \<Longrightarrow> p \<noteq> i \<Longrightarrow> p \<noteq> j \<Longrightarrow> b_runList b' ! p = b_runList b ! p"
  by (auto simp: swap_entries_def bind_eq_Some_conv upd_thread_Some aset_eq_Some)

lemma shuffle_loop_kept: "shuffle_loop shuf k b = Some b' \<Longrightarrow> kept b b'"
proof (induction k arbitrary: b)
  case (Suc k)
  then obtain b1 where "swap_entries (Suc k) (shuf (Suc k)) b = Some b1" "shuffle_loop shuf k b1 = Some b'" by (auto simp: bind_eq_Some_conv)
  then show ?case using Suc.IH swap_entries_kept kept_trans by blast
qed simp

lemma checkEndPhase_kept: "checkEndPhase cb shuf b = Some b' \<Longrightarrow> kept b b'"
  by (auto simp: checkEndPhase_def bind_eq_Some_conv Let_def split: if_splits dest!: cleanup_kept shuffle_loop_kept intro: kept_trans)

lemma new_phase_turns:
  assumes "b_list b" "b_cur b = 0" "t < length (b_threads b)" "inb b t"
  shows "turn b t"
  using b_list_position [OF assms(1,3)] assms(2,4) by (auto simp: inb_def turn_def)

section \<open>Phases\<close>

text \<open>What a step of the barrier did: it kept the scheduler and the turns of everybody outside \<open>D\<close>, or it ended the phase and gave
  everybody a turn.\<close>

definition bar_result :: "('s \<Rightarrow> 's option) \<Rightarrow> ('s \<Rightarrow> bool) \<Rightarrow> nat \<Rightarrow> nat set \<Rightarrow> 's barrier \<Rightarrow> 's barrier \<Rightarrow> bool" where
  "bar_result cb Q r D b b' \<longleftrightarrow> b_inv b' \<and> same_setup b b' \<and> b_live b' \<and>
     (b_sched b' = b_sched b \<and>
      (\<forall>t < length (b_threads b). t \<notin> D \<longrightarrow> (turn b t \<longrightarrow> turn b' t) \<and> (st b t = RUNNING \<longrightarrow> st b' t = RUNNING)) \<or>
      cb (b_sched b) = Some (b_sched b') \<and> Q (b_sched b') \<and> b_running b = r \<and> none_waiting b (b_cur b) (b_size b) \<and>
      (\<forall>t < length (b_threads b'). inb b' t \<longrightarrow> turn b' t))"

text \<open>A thread that joins never ends the phase.\<close>

definition joined :: "nat \<Rightarrow> 's barrier \<Rightarrow> 's barrier \<Rightarrow> bool" where
  "joined tid b b' \<longleftrightarrow> b_inv b' \<and> same_setup b b' \<and> b_live b' \<and> b_sched b' = b_sched b \<and>
     (\<forall>t < length (b_threads b). inb b' t \<longleftrightarrow> inb b t \<or> t = tid) \<and>
     (\<forall>t < length (b_threads b). (turn b t \<longrightarrow> turn b' t) \<and> (st b t = RUNNING \<longrightarrow> st b' t = RUNNING))"

text \<open>The callback returns from a scheduler state with \<open>P\<close>, in one with \<open>Q\<close>. The barrier owes \<open>P\<close> only when nobody runs
  and everybody who waits has had the turn of the phase.\<close>

locale phase_callback =
  fixes cb :: "'s \<Rightarrow> 's option" and P Q :: "'s \<Rightarrow> bool"
  assumes callback_returns: "P s \<Longrightarrow> \<exists>s'. cb s = Some s' \<and> Q s'"
begin

text \<open>A phase ends when the list is exhausted, nobody runs, and somebody is still in the barrier.\<close>

definition phase_over :: "'s barrier \<Rightarrow> bool" where
  "phase_over b \<longleftrightarrow> b_cur b = b_size b \<and> b_running b = 0 \<and> b_left b \<noteq> b_size b"

lemma left_le_size:
  assumes "b_inv b" shows "b_left b \<le> b_size b"
proof -
  have "card {t. t < length (b_threads b) \<and> st b t = LEFT} \<le> card (set (take (b_size b) (b_runList b)))"
  proof (rule card_mono)
    have eq: "set (take (b_size b) (b_runList b)) = {t. t < length (b_threads b) \<and> st b t \<noteq> OFFLINE}" using assms by (simp add: b_inv_def b_list_def)
    show "{t. t < length (b_threads b) \<and> st b t = LEFT} \<subseteq> set (take (b_size b) (b_runList b))" unfolding eq by auto
  qed simp
  also have "\<dots> \<le> b_size b" using card_length [of "take (b_size b) (b_runList b)"] by simp
  also have "card {t. t < length (b_threads b) \<and> st b t = LEFT} = b_left b"
    using assms length_filter_conv_card [of "\<lambda>w. ts_state w = LEFT" "b_threads b"] by (simp add: b_inv_def b_counts_def numb_def st_def)
  finally show ?thesis .
qed

lemma end_phase_ok:
  assumes inv: "b_inv b" and P: "P (b_sched b)" and shuf: "\<forall>i. shuf i \<le> i" and over: "phase_over b"
  shows "\<exists>b'. checkEndPhase cb shuf b = Some b' \<and> b_inv b' \<and> cb (b_sched b) = Some (b_sched b') \<and> Q (b_sched b') \<and>
    b_running b' = 0 \<and> b_cur b' = 0 \<and> same_setup b b'"
proof -
  obtain s where s: "cb (b_sched b) = Some s" "Q s" using callback_returns [OF P] by blast
  have left: "b_left b < b_size b" and run: "b_running b = 0" using over left_le_size [OF inv] by (auto simp: phase_over_def)
  let ?b = "b\<lparr>b_sched := s, b_cur := 0, b_phaseCount := b_phaseCount b + 1\<rparr>"
  have nr: "\<forall>t < length (b_threads b). st b t \<noteq> RUNNING" using inv run by (simp add: b_inv_def b_counts_def flip: numb_zero)
  have "b_pos ?b" using inv nr b_posD(1,2) [of b] by (intro b_posI) (simp_all add: b_inv_def pos_ok_def)
  moreover have "b_list ?b" "b_counts ?b" using inv by (simp_all add: b_inv_def b_list_def b_counts_def)
  ultimately have inv1: "b_inv ?b" "b_running ?b = 0" "b_left ?b < b_size ?b" "b_cur ?b = 0" "b_sched ?b = s" "same_setup b ?b"
    using run left by (simp_all add: b_inv_def same_setup_def)
  have "\<exists>b2. (if b_phaseCount b AND (32 - 1) = 0 then cleanup ?b else Some ?b) = Some b2 \<and> b_inv b2 \<and> b_running b2 = 0 \<and>
      b_cur b2 = 0 \<and> b_sched b2 = s \<and> same_setup b b2"
    using inv1 cleanup_ok [OF inv1(1-4)] by (auto simp: same_setup_def)
  then obtain b2 where b2: "(if b_phaseCount b AND (32 - 1) = 0 then cleanup ?b else Some ?b) = Some b2" "b_inv b2" "b_running b2 = 0"
      "b_cur b2 = 0" "b_sched b2 = s" "same_setup b b2" by blast
  have "\<exists>b3. (if b_parallel b2 < b_size b2 then shuffle_loop shuf (b_size b2 - 1) b2 else Some b2) = Some b3 \<and> b_inv b3 \<and> b_running b3 = 0 \<and>
      b_cur b3 = 0 \<and> b_sched b3 = s \<and> same_setup b b3"
    using b2 shuffle_loop_ok [OF b2(2,3) _ shuf, of "b_size b2 - 1"] by (auto simp: same_setup_def)
  then show ?thesis using over s b2(1) by (auto simp: checkEndPhase_def phase_over_def Let_def)
qed

lemma try_wake_ok:
  assumes inv: "b_inv b" and P: "b_running b = 0 \<Longrightarrow> none_waiting b (b_cur b) (b_size b) \<Longrightarrow> P (b_sched b)"
    and shuf: "\<forall>i. shuf i \<le> i" and par: "b_parallel b > 0"
  shows "\<exists>b'. tryWakeNext cb shuf b = Some b' \<and> kept b b' \<and> bar_result cb Q 0 {} b b'"
proof -
  obtain b1 where b1: "checkRunList b = Some b1" "b_inv b1" "b_size b1 = b_size b" "b_runList b1 = b_runList b"
    "b_sched b1 = b_sched b" "same_setup b b1" "b_left b1 = b_left b" "b_running b1 = b_parallel b1 \<or> b_cur b1 = b_size b1"
    "b_running b1 = 0 \<longrightarrow> b_running b = 0 \<and> only_cur b b1 \<and> none_waiting b (b_cur b) (b_cur b1)"
    using checkRunList_ok [OF inv] by (elim exE conjE) (rule that)
  have par1: "b_parallel b1 > 0" using b1(6) par by (simp add: same_setup_def)
  have k1: "kept b b1" "turns_kept b b1" using checkRunList_kept [OF b1(1)] by simp_all
  show ?thesis
  proof (cases "phase_over b1")
    case True
    have idle: "b_running b = 0" "none_waiting b (b_cur b) (b_size b)" using True b1(3,9) by (simp_all add: phase_over_def)
    obtain b2 where b2: "checkEndPhase cb shuf b1 = Some b2" "b_inv b2" "cb (b_sched b1) = Some (b_sched b2)" "Q (b_sched b2)"
      "b_running b2 = 0" "b_cur b2 = 0" "same_setup b1 b2"
      using end_phase_ok [OF b1(2) _ shuf True] P [OF idle] b1(5) by auto
    obtain b3 where b3: "checkRunList b2 = Some b3" "b_inv b3" "b_size b3 = b_size b2" "b_runList b3 = b_runList b2" "b_sched b3 = b_sched b2"
      "same_setup b2 b3" "b_left b3 = b_left b2" "b_running b3 = b_parallel b3 \<or> b_cur b3 = b_size b3"
      "b_running b3 = 0 \<longrightarrow> b_running b2 = 0 \<and> only_cur b2 b3 \<and> none_waiting b2 (b_cur b2) (b_cur b3)"
      using checkRunList_ok [OF b2(2)] by (elim exE conjE) (rule that)
    have "b_live b3"
    proof (cases "b_running b3 = 0")
      case z: True
      then have c: "b_cur b3 = b_size b3" "only_cur b2 b3" "none_waiting b2 0 (b_size b2)"
        using b3 b2 par1 b1(6) by (auto simp: same_setup_def)
      have "st b3 t \<noteq> WAITING" if t: "t < length (b_threads b3)" for t
      proof (cases "st b3 t = OFFLINE")
        case False
        then obtain p where "p < b_size b3" "b_runList b3 ! p = t" using b_list_position [of b3 t] b3(2) t by (auto simp: b_inv_def)
        then show ?thesis using c by (auto simp: none_waiting_def only_cur_def)
      qed simp
      then show ?thesis by (simp add: b_live_def)
    qed (simp add: b_live_def)
    moreover have k3: "kept b2 b3" "turns_kept b2 b3" using checkRunList_kept [OF b3(1)] by simp_all
    then have "kept b b3" using k1(1) checkEndPhase_kept [OF b2(1)] kept_trans by blast
    moreover have "turn b3 t" if "t < length (b_threads b3)" "inb b3 t" for t
    proof -
      have t: "t < length (b_threads b2)" "inb b2 t" using that k3(1) by (simp_all add: kept_def)
      moreover have "b_list b2" using b2(2) by (simp add: b_inv_def)
      ultimately show ?thesis using new_phase_turns [of b2 t] k3(2) b2(6) by (simp add: turns_kept_def)
    qed
    ultimately have "kept b b3 \<and> bar_result cb Q 0 {} b b3" using b1 b2 b3 idle by (simp add: bar_result_def same_setup_def)
    then show ?thesis using b1(1) b2(1) b3(1) by (simp add: tryWakeNext_def)
  next
    case False
    then have e: "checkEndPhase cb shuf b1 = Some b1" by (auto simp: checkEndPhase_def phase_over_def)
    have run_again: "checkRunList b1 = Some b1"
      using b1(8) by (cases "b_size b1 - b_cur b1") (auto simp: checkRunList_def)
    have "b_live b1"
    proof (cases "b_running b1 = 0")
      case True
      then have all: "b_left b1 = b_size b1" using False b1(8) par1 by (auto simp: phase_over_def)
      let ?N = "{t. t < length (b_threads b1) \<and> st b1 t \<noteq> OFFLINE}" let ?L = "{t. t < length (b_threads b1) \<and> st b1 t = LEFT}"
      have "card ?L = b_size b1" using b1(2) all length_filter_conv_card [of "\<lambda>w. ts_state w = LEFT" "b_threads b1"]
        by (simp add: b_inv_def b_counts_def numb_def st_def)
      moreover have "card ?N = b_size b1"
        using b1(2) distinct_card [of "take (b_size b1) (b_runList b1)"] by (simp add: b_inv_def b_list_def)
      ultimately have "?L = ?N" by (intro card_subset_eq) auto
      then have "t \<in> ?L" if "t < length (b_threads b1)" "st b1 t = WAITING" for t using that by simp
      then show ?thesis by (auto simp: b_live_def)
    qed (simp add: b_live_def)
    then have "kept b b1 \<and> bar_result cb Q 0 {} b b1" using b1 k1 by (simp add: bar_result_def turns_kept_def)
    then show ?thesis using b1 e run_again by (simp add: tryWakeNext_def)
  qed
qed

text \<open>The operations: \<open>tid\<close> may join when it is outside, and leave or synchronize when it runs.\<close>

lemma leave_or_sync_ok:
  assumes inv: "b_inv b" and P: "b_running b = 1 \<Longrightarrow> none_waiting b (b_cur b) (b_size b) \<Longrightarrow> P (b_sched b)"
    and shuf: "\<forall>i. shuf i \<le> i" and tid: "tid < length (b_threads b)" "st b tid = RUNNING"
  shows "\<exists>b'. bar_leave cb shuf tid b = Some b' \<and> bar_result cb Q 1 {tid} b b' \<and>
      (\<forall>t < length (b_threads b). inb b' t \<longleftrightarrow> inb b t \<and> t \<noteq> tid)"
    and "\<exists>b'. bar_sync cb shuf tid b = Some b' \<and> bar_result cb Q 1 {tid} b b' \<and> (\<forall>t < length (b_threads b). inb b' t \<longleftrightarrow> inb b t)"
proof -
  note I = inv [unfolded b_inv_def]
  have r: "b_running b > 0" using I numb_pos [OF tid] by (simp add: b_counts_def)
  have par: "b_parallel b > 0" using I r by (simp add: b_counts_def)
  have cur: "b_cur b \<le> b_size b" using I by (simp add: b_list_def)
  have pos: "pos_ok b tid" "ts_lastIdx (b_threads b ! tid) < b_cur b" using b_posD(3,4) [of b tid] I tid cur by simp_all
  have nw: "none_waiting b (b_cur b) (b_size b)"
    if "none_waiting (b\<lparr>b_threads := (b_threads b)[tid := v], b_running := r', b_left := l\<rparr>) (b_cur b) (b_size b)" for v r' l
    unfolding none_waiting_def
  proof (intro allI impI)
    fix p assume p: "b_cur b \<le> p \<and> p < b_size b"
    then have "b_runList b ! p \<noteq> tid" using b_list_inj [of b p "ts_lastIdx (b_threads b ! tid)"] I pos by (auto simp: pos_ok_def)
    then show "st b (b_runList b ! p) \<noteq> WAITING" using that p unfolding none_waiting_def by (auto simp: st_def)
  qed
  have upd: "b_inv (b\<lparr>b_threads := (b_threads b)[tid := v], b_running := b_running b - 1, b_left := b_left b + l\<rparr>)"
    if v: "v = (b_threads b ! tid)\<lparr>ts_state := LEFT\<rparr> \<and> l = 1 \<or> v = (b_threads b ! tid)\<lparr>ts_futexWord := 1, ts_state := WAITING\<rparr> \<and> l = 0" for v l
  proof -
    let ?b = "b\<lparr>b_threads := (b_threads b)[tid := v]\<rparr>"
    have "b_list ?b" by (rule b_list_thread_update) (use I tid v in auto)
    moreover have "numb RUNNING ?b = numb RUNNING b - 1" "numb LEFT ?b = numb LEFT b + l"
      using numb_update [OF tid(1), of RUNNING v] numb_update [OF tid(1), of LEFT v] tid(2) v by auto
    moreover have "b_pos ?b"
    proof (rule b_posI)
      fix t assume t: "t < length (b_threads ?b)"
      have other: "t \<noteq> tid \<Longrightarrow> st ?b t = st b t \<and> b_threads ?b ! t = b_threads b ! t \<and> pos_ok ?b t = pos_ok b t" by (simp add: st_def pos_ok_def)
      have me: "ts_lastIdx v = ts_lastIdx (b_threads b ! tid)" using v by auto
      show "st ?b t = WAITING \<Longrightarrow> ts_futexWord (b_threads ?b ! t) = 1" using other b_posD(1) [of b t] I t v tid(1) by (cases "t = tid") (auto simp: st_def)
      show "st ?b t = LEFT \<Longrightarrow> pos_ok ?b t" using other b_posD(2) [of b t] I t tid(1) pos me by (cases "t = tid") (auto simp: pos_ok_def)
      show "st ?b t = RUNNING \<Longrightarrow> pos_ok ?b t \<and> ts_lastIdx (b_threads ?b ! t) < b_cur ?b"
        using other b_posD(3,4) [of b t] I t v tid(1) cur by (cases "t = tid") (auto simp: st_def)
    qed
    moreover have "b_running b \<le> b_parallel b" using I by (simp add: b_counts_def)
    then have "b_running b - 1 \<le> b_parallel b" by linarith
    ultimately show ?thesis using I by (simp add: b_inv_def b_list_def b_counts_def b_pos_def numb_def)
  qed
  have tw: "\<exists>b'. tryWakeNext cb shuf c = Some b' \<and> bar_result cb Q 1 {tid} b b' \<and> kept c b'"
    if c: "c = b\<lparr>b_threads := (b_threads b)[tid := v], b_running := b_running b - 1, b_left := l\<rparr>" and ci: "b_inv c" for c v l
  proof -
    have nwc: "none_waiting b (b_cur b) (b_size b)" if "none_waiting c (b_cur c) (b_size c)" using that nw [where v = v and l = l and r' = "b_running b - 1"] unfolding c by simp
    have Pc: "P (b_sched c)" if "b_running c = 0" "none_waiting c (b_cur c) (b_size c)" using P nwc that r by (simp add: c)
    have parc: "b_parallel c > 0" using par by (simp add: c)
    obtain b' where b': "tryWakeNext cb shuf c = Some b'" "kept c b'" "bar_result cb Q 0 {} c b'"
      using try_wake_ok [OF ci Pc shuf parc] by blast
    have "st c t = st b t" "turn b t \<longrightarrow> turn c t" if "t \<noteq> tid" for t using that by (simp_all add: c turn_def st_def)
    then have "bar_result cb Q 1 {tid} b b'" using b'(3) nwc r unfolding bar_result_def by (auto simp: c same_setup_def)
    then show ?thesis using b' by blast
  qed
  let ?l = "(b_threads b ! tid)\<lparr>ts_state := LEFT\<rparr>" let ?w = "(b_threads b ! tid)\<lparr>ts_futexWord := 1, ts_state := WAITING\<rparr>"
  obtain b1 where b1: "tryWakeNext cb shuf (b\<lparr>b_threads := (b_threads b)[tid := ?l], b_running := b_running b - 1, b_left := b_left b + 1\<rparr>) = Some b1"
      "bar_result cb Q 1 {tid} b b1" "kept (b\<lparr>b_threads := (b_threads b)[tid := ?l], b_running := b_running b - 1, b_left := b_left b + 1\<rparr>) b1"
    using tw [OF refl upd, of ?l 1] by blast
  show "\<exists>b'. bar_leave cb shuf tid b = Some b' \<and> bar_result cb Q 1 {tid} b b' \<and>
      (\<forall>t < length (b_threads b). inb b' t \<longleftrightarrow> inb b t \<and> t \<noteq> tid)"
    using b1 tid r by (intro exI [of _ b1]) (auto simp: bar_leave_def kept_def inb_def st_def nth_list_update)
  obtain b2 where b2: "tryWakeNext cb shuf (b\<lparr>b_threads := (b_threads b)[tid := ?w], b_running := b_running b - 1, b_left := b_left b + 0\<rparr>) = Some b2"
      "bar_result cb Q 1 {tid} b b2" "kept (b\<lparr>b_threads := (b_threads b)[tid := ?w], b_running := b_running b - 1, b_left := b_left b + 0\<rparr>) b2"
    using tw [OF refl upd, of ?w 0] by blast
  show "\<exists>b'. bar_sync cb shuf tid b = Some b' \<and> bar_result cb Q 1 {tid} b b' \<and> (\<forall>t < length (b_threads b). inb b' t \<longleftrightarrow> inb b t)"
    using b2 tid r by (intro exI [of _ b2]) (auto simp: bar_sync_def kept_def inb_def st_def nth_list_update)
qed

text \<open>Joining: the joining thread is put, waiting, into the part of the list that still has its turn.\<close>

lemma join_waiting_ok:
  assumes inv: "b_list b" "b_pos b" "numb RUNNING b = b_running b" "b_running b \<le> b_parallel b" and left: "numb LEFT b = b_left b + of_bool (st b tid = LEFT)"
    and shuf: "\<forall>i. shuf i \<le> i" and par: "b_parallel b > 0"
    and tid: "tid < length (b_threads b)" "st b tid \<noteq> RUNNING" and p: "b_cur b \<le> p" "p < b_size b" "b_runList b ! p = tid"
  shows "\<exists>b'. upd_thread tid (\<lambda>w. w\<lparr>ts_state := WAITING, ts_futexWord := 1\<rparr>) b \<bind> tryWakeNext cb shuf = Some b' \<and> joined tid b b'"
proof -
  let ?v = "(b_threads b ! tid)\<lparr>ts_state := WAITING, ts_futexWord := 1\<rparr>"
  let ?b = "b\<lparr>b_threads := (b_threads b)[tid := ?v]\<rparr>"
  have "st b tid \<noteq> OFFLINE" using b_list_entry(2) [OF inv(1) p(2)] p(3) by simp
  then have "b_list ?b" by (intro b_list_thread_update) (use inv(1) tid in auto)
  moreover have "b_counts ?b"
    using numb_update [OF tid(1), of RUNNING ?v] numb_update [OF tid(1), of LEFT ?v] tid(2) inv(3,4) left by (simp add: b_counts_def)
  moreover have "b_pos ?b" unfolding b_pos_def
  proof (intro allI impI)
    fix t assume "t < length (b_threads ?b)"
    then show "let w = b_threads ?b ! t in (ts_state w = WAITING \<longrightarrow> ts_futexWord w = 1) \<and>
       (ts_state w = LEFT \<longrightarrow> ts_lastIdx w < b_size ?b \<and> b_runList ?b ! ts_lastIdx w = t) \<and>
       (ts_state w = RUNNING \<longrightarrow> ts_lastIdx w < b_cur ?b \<and> b_runList ?b ! ts_lastIdx w = t)"
      using inv(2) by (cases "t = tid") (simp_all add: b_pos_def)
  qed
  ultimately have inv': "b_inv ?b" by (simp add: b_inv_def)
  have "\<not> none_waiting ?b (b_cur ?b) (b_size ?b)" using p tid(1) by (auto simp: none_waiting_def st_def intro!: exI [of _ p])
  then obtain b' where b': "tryWakeNext cb shuf ?b = Some b'" "kept ?b b'" "bar_result cb Q 0 {} ?b b'" "b_sched b' = b_sched ?b"
    using try_wake_ok [OF inv' _ shuf] par by (fastforce simp: bar_result_def)
  moreover have "turn ?b t" if "turn b t" for t
    using that tid p by (cases "t = tid") (auto simp: turn_def st_def)
  moreover have "st ?b t = RUNNING" if "st b t = RUNNING" for t using that tid(2) by (cases "t = tid") (auto simp: st_def)
  ultimately have "joined tid b b'" using tid \<open>\<not> none_waiting ?b (b_cur ?b) (b_size ?b)\<close>
    unfolding joined_def bar_result_def kept_def inb_def same_setup_def by (simp add: st_update)
  then show ?thesis using b'(1) tid(1) by simp
qed

lemma rejoin_ok:
  assumes inv: "b_inv b" and tid: "tid < length (b_threads b)" "st b tid = LEFT"
  shows "\<exists>b' p. rejoin_phase tid (b\<lparr>b_left := l\<rparr>) = Some b' \<and> b_list b' \<and> b_pos b' \<and> st b' = st b \<and> (\<forall>x. numb x b' = numb x b) \<and>
    b_left b' = l \<and> b_running b' = b_running b \<and> b_sched b' = b_sched b \<and> same_setup b b' \<and>
    b_cur b' \<le> p \<and> p < b_size b' \<and> b_runList b' ! p = tid \<and> (\<forall>t. turn b t \<longrightarrow> turn b' t)"
proof -
  let ?k = "ts_lastIdx (b_threads b ! tid)" let ?c = "b_cur b - 1"
  note I = inv [unfolded b_inv_def]
  have k: "?k < b_size b" "b_runList b ! ?k = tid" using b_posD(2) [of b tid] I tid by (simp_all add: pos_ok_def)
  have cur: "b_cur b \<le> b_size b" using I by (simp add: b_list_def)
  show ?thesis
  proof (cases "?k < b_cur b")
    case False
    then show ?thesis using k I tid
      by (intro exI [of _ "b\<lparr>b_left := l\<rparr>"] exI [of _ ?k]) (simp add: rejoin_phase_def b_list_other b_pos_def same_setup_def turn_def)
  next
    case True
    let ?b = "b\<lparr>b_left := l, b_cur := ?c\<rparr>"
    have "?c \<le> b_size b" using cur by simp
    then have L: "b_list ?b" using I by (simp add: b_list_def)
    have c: "?c < b_size ?b" "?k < b_size ?b" using True cur k by simp_all
    have eq: "rejoin_phase tid (b\<lparr>b_left := l\<rparr>) = swap_entries ?c ?k ?b"
      using True tid k b_list_entry [OF L] c by (cases "?k = ?c") (auto simp: rejoin_phase_def swap_entries_def list_update_swap Let_def)
    obtain b' where b': "swap_entries ?c ?k ?b = Some b'" "b_list b'" "\<forall>t. st b' t = st ?b t"
      "\<forall>t < length (b_threads ?b). ts_futexWord (b_threads b' ! t) = ts_futexWord (b_threads ?b ! t)"
      "\<forall>t < length (b_threads ?b). pos_ok ?b t \<longrightarrow> pos_ok b' t \<and> ts_lastIdx (b_threads b' ! t) =
         (let i = ts_lastIdx (b_threads ?b ! t) in if i = ?c then ?k else if i = ?k then ?c else i)"
      "b_cur b' = b_cur ?b" "b_size b' = b_size ?b" "b_left b' = b_left ?b" "b_running b' = b_running ?b" "b_sched b' = b_sched ?b"
      "\<forall>x. numb x b' = numb x ?b" "same_setup ?b b'"
      using swap_ok [OF L c] by (elim exE conjE) (rule that)
    have len: "length (b_threads b') = length (b_threads b)" using b'(12) by (simp add: same_setup_def)
    have pos: "pos_ok ?b t = pos_ok b t" for t by (simp add: pos_ok_def)
    have "b_pos b'"
    proof (rule b_posI)
      fix t assume t: "t < length (b_threads b')"
      show "st b' t = WAITING \<Longrightarrow> ts_futexWord (b_threads b' ! t) = 1" using b'(3,4) b_posD(1) [of b t] I t len by simp
      show "st b' t = LEFT \<Longrightarrow> pos_ok b' t" using b'(3,5) b_posD(2) [of b t] I t len pos by simp
      assume "st b' t = RUNNING"
      then have R: "st b t = RUNNING" "t \<noteq> tid" using b'(3) tid(2) by auto
      have ok: "pos_ok b t" "ts_lastIdx (b_threads b ! t) < b_cur b" using b_posD(3,4) [of b t] I t len cur R by simp_all
      then have "ts_lastIdx (b_threads b ! t) \<noteq> ?k" using k R(2) by (auto simp: pos_ok_def)
      moreover have "pos_ok b' t" "ts_lastIdx (b_threads b' ! t) =
         (let i = ts_lastIdx (b_threads b ! t) in if i = ?c then ?k else if i = ?k then ?c else i)" using b'(5) t len ok(1) pos by simp_all
      ultimately show "pos_ok b' t \<and> ts_lastIdx (b_threads b' ! t) < b_cur b'"
        using ok(2) True b'(6) by (auto simp: Let_def)
    qed
    moreover have "pos_ok b tid" using k by (simp add: pos_ok_def)
    then have "pos_ok b' tid" "ts_lastIdx (b_threads b' ! tid) = ?c" using b'(5) tid(1) pos by (simp_all add: Let_def)
    then have "b_runList b' ! ?c = tid" by (auto simp: pos_ok_def)
    moreover have "turn b' t" if "turn b t" for t
    proof -
      have "b_runList b' ! p = b_runList b ! p" if "b_cur b \<le> p" for p using swap_entries_elsewhere [OF b'(1), of p] that True by simp
      moreover have "b_cur b' \<le> p" if "b_cur b \<le> p" for p using that b'(6) by simp
      ultimately show ?thesis using that b'(3,7) unfolding turn_def by auto
    qed
    ultimately show ?thesis using b' eq c by (intro exI [of _ b'] exI [of _ ?c]) (auto simp: same_setup_def)
  qed
qed

lemma join_ok:
  assumes inv: "b_inv b" and shuf: "\<forall>i. shuf i \<le> i" and par: "b_parallel b > 0"
    and tid: "tid < length (b_threads b)" "st b tid = OFFLINE \<or> st b tid = LEFT"
  shows "\<exists>b'. bar_join cb shuf tid b = Some b' \<and> joined tid b b'"
proof (cases "st b tid = OFFLINE")
  case True
  note I = inv [unfolded b_inv_def]
  let ?xs = "take (b_size b) (b_runList b)" let ?v = "(b_threads b ! tid)\<lparr>ts_state := WAITING, ts_futexWord := 1\<rparr>"
  have notin: "tid \<notin> set ?xs" using I True by (simp add: b_list_def)
  have size: "b_size b < length (b_runList b)" using offline_room [OF _ tid(1) True] I by blast
  let ?b = "b\<lparr>b_runList := (b_runList b)[b_size b := tid], b_size := b_size b + 1, b_threads := (b_threads b)[tid := ?v]\<rparr>"
  have take: "take (b_size b + 1) ((b_runList b)[b_size b := tid]) = ?xs @ [tid]"
    using size by (simp add: take_Suc_conv_app_nth)
  have "b_list ?b"
  proof -
    have "set (?xs @ [tid]) = {t. t < length (b_threads b) \<and> st ?b t \<noteq> OFFLINE}"
      using I tid(1) by (auto simp: b_list_def st_def nth_list_update)
    then show ?thesis using I size take notin unfolding b_list_def by simp
  qed
  moreover have "b_counts ?b"
    using I numb_update [OF tid(1), of RUNNING ?v] numb_update [OF tid(1), of LEFT ?v] True by (simp add: b_counts_def numb_def)
  moreover have "b_pos ?b"
  proof (rule b_posI)
    have cur: "b_cur b \<le> b_size b" using I by (simp add: b_list_def)
    fix t assume t: "t < length (b_threads ?b)"
    have other: "t \<noteq> tid \<Longrightarrow> st ?b t = st b t \<and> b_threads ?b ! t = b_threads b ! t \<and> (pos_ok b t \<longrightarrow> pos_ok ?b t)"
      by (auto simp: st_def pos_ok_def)
    show "st ?b t = WAITING \<Longrightarrow> ts_futexWord (b_threads ?b ! t) = 1" using other b_posD(1) [of b t] I t tid(1) by (cases "t = tid") auto
    show "st ?b t = LEFT \<Longrightarrow> pos_ok ?b t" using other b_posD(2) [of b t] I t tid(1) by (cases "t = tid") (auto simp: st_def)
    show "st ?b t = RUNNING \<Longrightarrow> pos_ok ?b t \<and> ts_lastIdx (b_threads ?b ! t) < b_cur ?b"
      using other b_posD(3,4) [of b t] I t tid(1) cur by (cases "t = tid") (auto simp: st_def)
  qed
  ultimately have inv': "b_inv ?b" by (simp add: b_inv_def)
  have "\<not> none_waiting ?b (b_cur ?b) (b_size ?b)"
  proof -
    have "b_cur ?b \<le> b_size b" "b_runList ?b ! b_size b = tid" "st ?b tid = WAITING" using I size tid(1) by (simp_all add: b_list_def st_def)
    then show ?thesis unfolding none_waiting_def by (intro notI) (drule spec [of _ "b_size b"], simp)
  qed
  then obtain b' where b': "tryWakeNext cb shuf ?b = Some b'" "kept ?b b'" "bar_result cb Q 0 {} ?b b'" "b_sched b' = b_sched ?b"
    using try_wake_ok [OF inv' _ shuf] par by (fastforce simp: bar_result_def)
  have "turn ?b t" if "turn b t" "t < length (b_threads b)" for t
  proof -
    have "t \<noteq> tid" using that True by (auto simp: turn_def)
    moreover have "b_runList ?b ! p = b_runList b ! p" if "p < b_size b" for p using that by simp
    ultimately show ?thesis using that(1) unfolding turn_def by (auto simp: st_def intro: less_SucI)
  qed
  moreover have sr: "st ?b t = (if t = tid then WAITING else st b t)" for t using tid(1) by (simp add: st_def)
  moreover have "st b' t = RUNNING" if t: "t < length (b_threads b)" "st b t = RUNNING" for t
  proof -
    have "st ?b t = RUNNING" using t True sr [of t] by (cases "t = tid") simp_all
    then show ?thesis using b'(3) t(1) \<open>\<not> none_waiting ?b (b_cur ?b) (b_size ?b)\<close> unfolding bar_result_def by simp
  qed
  ultimately have "joined tid b b'" using b' tid(1) True \<open>\<not> none_waiting ?b (b_cur ?b) (b_size ?b)\<close>
    unfolding joined_def bar_result_def kept_def inb_def same_setup_def sr by auto
  then show ?thesis using b'(1) tid(1) True size by (auto simp: bar_join_def)
next
  case False
  then have L: "st b tid = LEFT" using tid by simp
  note I = inv [unfolded b_inv_def]
  have left: "b_left b > 0" using I numb_pos [OF tid(1) L] by (simp add: b_counts_def)
  obtain b1 p where b1: "rejoin_phase tid (b\<lparr>b_left := b_left b - 1\<rparr>) = Some b1" "b_list b1" "b_pos b1" "st b1 = st b"
    "\<forall>x. numb x b1 = numb x b" "b_left b1 = b_left b - 1" "b_running b1 = b_running b" "b_sched b1 = b_sched b" "same_setup b b1"
    "b_cur b1 \<le> p" "p < b_size b1" "b_runList b1 ! p = tid" "\<forall>t. turn b t \<longrightarrow> turn b1 t"
    using rejoin_ok [OF inv tid(1) L, of "b_left b - 1"] by (elim exE conjE) (rule that)
  have "\<exists>b'. upd_thread tid (\<lambda>w. w\<lparr>ts_state := WAITING, ts_futexWord := 1\<rparr>) b1 \<bind> tryWakeNext cb shuf = Some b' \<and> joined tid b1 b'"
    by (rule join_waiting_ok [OF b1(2,3) _ _ _ shuf _ _ _ b1(10-12)]) (use I b1 left L par tid(1) in \<open>simp_all add: b_counts_def same_setup_def\<close>)
  then obtain b' where b': "upd_thread tid (\<lambda>w. w\<lparr>ts_state := WAITING, ts_futexWord := 1\<rparr>) b1 \<bind> tryWakeNext cb shuf = Some b'" "joined tid b1 b'"
    by blast
  moreover have "joined tid b b'" using b'(2) b1(4,8,9,13) by (auto simp: joined_def same_setup_def inb_def)
  ultimately show ?thesis using b1 L left tid(1) by (auto simp: bar_join_def)
qed

end

section \<open>Runs of the barrier\<close>

text \<open>A callback that always returns.\<close>

interpretation total_cb: phase_callback "\<lambda>s. Some (f s)" "\<lambda>_. True" "\<lambda>_. True" for f :: "'s \<Rightarrow> 's"
  by unfold_locales simp

datatype bar_op = BJoin nat | BLeave nat | BSync nat

fun bar_do :: "('s \<Rightarrow> 's option) \<Rightarrow> (nat \<Rightarrow> nat) \<Rightarrow> bar_op \<Rightarrow> 's barrier \<Rightarrow> 's barrier option" where
  "bar_do cb shuf (BJoin t) b = bar_join cb shuf t b"
| "bar_do cb shuf (BLeave t) b = bar_leave cb shuf t b"
| "bar_do cb shuf (BSync t) b = bar_sync cb shuf t b"

text \<open>
  A thread calls \<open>join\<close> when it is outside the barrier and \<open>sync\<close> when it runs. It leaves when it runs, and also while it
  waits, if the barrier has its position on record: \<open>pos_ok\<close>, which a thread that runs always has.
\<close>

fun bar_allowed :: "'s barrier \<Rightarrow> bar_op \<Rightarrow> bool" where
  "bar_allowed b (BJoin t) \<longleftrightarrow> (t < length (b_threads b) \<and> (st b t = OFFLINE \<or> st b t = LEFT))"
| "bar_allowed b (BLeave t) \<longleftrightarrow> (t < length (b_threads b) \<and> (st b t = RUNNING \<or> st b t = WAITING \<and> pos_ok b t))"
| "bar_allowed b (BSync t) \<longleftrightarrow> (t < length (b_threads b) \<and> st b t = RUNNING)"

inductive bar_reach :: "('s \<Rightarrow> 's option) \<Rightarrow> 's barrier \<Rightarrow> 's barrier \<Rightarrow> bool" for cb b0 where
  bar_start: "bar_reach cb b0 b0"
| bar_step: "bar_reach cb b0 b \<Longrightarrow> bar_allowed b op \<Longrightarrow> \<forall>i. shuf i \<le> i \<Longrightarrow> bar_do cb shuf op b = Some b' \<Longrightarrow> bar_reach cb b0 b'"

lemma Barrier_new_inv: "b_inv (Barrier_new n junk s)" "b_live (Barrier_new n junk s)"
proof -
  have off: "st (Barrier_new n junk s) t = OFFLINE" if "t < MAX_THREADS" for t using that by (simp add: Barrier_new_def st_def)
  have len: "length (b_threads (Barrier_new n junk s)) = MAX_THREADS" by (simp add: Barrier_new_def)
  have numb: "numb x (Barrier_new n junk s) = 0" if "x \<noteq> OFFLINE" for x using that off len by (simp add: numb_zero)
  show "b_live (Barrier_new n junk s)" using off len by (simp add: b_live_def)
  have "b_list (Barrier_new n junk s)" using off len by (auto simp: b_list_def Barrier_new_def)
  moreover have "b_counts (Barrier_new n junk s)" using numb by (simp add: b_counts_def) (simp add: Barrier_new_def)
  moreover have "b_pos (Barrier_new n junk s)" by (rule b_posI) (simp_all add: off len)
  ultimately show "b_inv (Barrier_new n junk s)" by (simp add: b_inv_def)
qed

lemma waiting_leave_ok:
  assumes inv: "b_inv b" and live: "b_live b" and t: "t < length (b_threads b)" "st b t = WAITING" and pos: "pos_ok b t"
  shows "\<exists>b'. bar_leave cb shuf t b = Some b' \<and> b_inv b' \<and> same_setup b b' \<and> b_live b' \<and> b_sched b' = b_sched b"
proof -
  note I = inv [unfolded b_inv_def]
  let ?v = "(b_threads b ! t)\<lparr>ts_state := LEFT\<rparr>" let ?b = "b\<lparr>b_threads := (b_threads b)[t := ?v]\<rparr>" let ?b' = "?b\<lparr>b_left := b_left b + 1\<rparr>"
  have "b_list ?b" by (rule b_list_thread_update) (use I t in auto)
  moreover have "numb RUNNING ?b = numb RUNNING b" "numb LEFT ?b = numb LEFT b + 1"
    using numb_update [OF t(1), of RUNNING ?v] numb_update [OF t(1), of LEFT ?v] t(2) by auto
  moreover have "b_pos ?b"
  proof (rule b_posI)
    fix u assume u: "u < length (b_threads ?b)"
    have other: "u \<noteq> t \<Longrightarrow> st ?b u = st b u \<and> b_threads ?b ! u = b_threads b ! u \<and> pos_ok ?b u = pos_ok b u" by (simp add: st_def pos_ok_def)
    have me: "st ?b t = LEFT" "pos_ok ?b t" using pos t(1) by (simp_all add: st_def pos_ok_def)
    show "st ?b u = WAITING \<Longrightarrow> ts_futexWord (b_threads ?b ! u) = 1" using other b_posD(1) [of b u] I u me by (cases "u = t") auto
    show "st ?b u = LEFT \<Longrightarrow> pos_ok ?b u" using other b_posD(2) [of b u] I u me by (cases "u = t") auto
    show "st ?b u = RUNNING \<Longrightarrow> pos_ok ?b u \<and> ts_lastIdx (b_threads ?b ! u) < b_cur ?b"
      using other b_posD(3,4) [of b u] I u me by (cases "u = t") (auto simp: b_list_def)
  qed
  ultimately have "b_inv ?b'" using I by (simp add: b_inv_def b_counts_def b_list_def b_pos_def)
  moreover have "b_running b > 0" using live t by (auto simp: b_live_def)
  moreover have "bar_leave cb shuf t b = Some ?b'" using t by (simp add: bar_leave_def)
  ultimately show ?thesis by (simp add: same_setup_def b_live_def)
qed

lemma bar_do_ok:
  assumes "b_inv b" "b_parallel b > 0" "bar_allowed b op" "\<forall>i. shuf i \<le> i" "b_live b"
  shows "\<exists>b'. bar_do (\<lambda>s. Some (f s)) shuf op b = Some b' \<and> b_inv b' \<and> same_setup b b' \<and> b_live b' \<and>
    (b_sched b' = b_sched b \<or> b_sched b' = f (b_sched b) \<and> b_running b = 1 \<and> none_waiting b (b_cur b) (b_size b) \<and> (\<forall>t. op \<noteq> BJoin t))"
proof (cases op)
  case (BJoin t)
  then show ?thesis using total_cb.join_ok [OF assms(1,4,2), where f = f] assms(3) by (fastforce simp: joined_def)
next
  case (BLeave t)
  then consider "t < length (b_threads b)" "st b t = RUNNING" | "t < length (b_threads b)" "st b t = WAITING" "pos_ok b t" using assms(3) by auto
  then show ?thesis
  proof cases
    case 1
    then show ?thesis using total_cb.leave_or_sync_ok(1) [OF assms(1) _ assms(4), where f = f] BLeave by (fastforce simp: bar_result_def)
  next
    case 2
    then show ?thesis using waiting_leave_ok [OF assms(1,5), of t "\<lambda>s. Some (f s)" shuf] BLeave by auto
  qed
next
  case (BSync t)
  then show ?thesis using total_cb.leave_or_sync_ok(2) [OF assms(1) _ assms(4), where f = f] assms(3) by (fastforce simp: bar_result_def)
qed

lemma bar_reach_inv:
  "bar_reach (\<lambda>s. Some (f s)) (Barrier_new n junk s) b \<Longrightarrow> n > 0 \<Longrightarrow> b_inv b \<and> b_live b \<and> b_parallel b = n \<and> length (b_threads b) = MAX_THREADS"
proof (induction rule: bar_reach.induct)
  case bar_start
  then show ?case using Barrier_new_inv [of n junk s] by (simp add: Barrier_new_def)
next
  case (bar_step b op shuf b')
  then show ?case using bar_do_ok [of b op shuf f] by (auto simp: same_setup_def)
qed

section \<open>Properties\<close>

text \<open>
  C13. The phase barrier. From the constructor, threads join when they are outside, synchronize when they run, and leave when they run or while they wait, in any order; a
  thread that leaves while it waits must have its position on record (\<open>pos_ok\<close>), as a running thread has; one that never had a turn may not have it. Then no
  assertion of the barrier fails, no wakeup race panics, no counter wraps and no array is left. At most \<open>parallelThreads\<close> threads
  run, and while some thread waits, some thread runs.
\<close>

theorem barrier_safe_and_live:
  assumes "0 < n" "bar_reach (\<lambda>s. Some (f s)) (Barrier_new n junk s) b" "bar_allowed b op" "\<forall>i. shuf i \<le> i"
  shows "\<exists>b'. bar_do (\<lambda>s. Some (f s)) shuf op b = Some b' \<and> card {t. t < MAX_THREADS \<and> st b' t = RUNNING} = b_running b' \<and> b_running b' \<le> n \<and>
    ((\<exists>t < MAX_THREADS. st b' t = WAITING) \<longrightarrow> (\<exists>t < MAX_THREADS. st b' t = RUNNING))"
proof -
  have b: "b_inv b" "b_parallel b = n" "length (b_threads b) = MAX_THREADS" "b_live b" using bar_reach_inv [OF assms(2,1)] by simp_all
  obtain b' where b': "bar_do (\<lambda>s. Some (f s)) shuf op b = Some b'" "b_inv b'" "same_setup b b'" "b_live b'"
    using bar_do_ok [OF b(1) _ assms(3,4) b(4), of f] assms(1) b(2) by auto
  have len: "length (b_threads b') = MAX_THREADS" using b'(3) b(3) by (simp add: same_setup_def)
  have "card {t. t < MAX_THREADS \<and> st b' t = RUNNING} = numb RUNNING b'"
    using length_filter_conv_card [of "\<lambda>w. ts_state w = RUNNING" "b_threads b'"] len by (simp add: numb_def st_def)
  moreover have "b_running b' = numb RUNNING b'" "b_running b' \<le> n" using b'(2,3) b(2) by (simp_all add: b_inv_def b_counts_def same_setup_def)
  moreover have "\<exists>t < MAX_THREADS. st b' t = RUNNING" if "t < MAX_THREADS" "st b' t = WAITING" for t
  proof (rule ccontr)
    assume "\<not> ?thesis"
    then have "numb RUNNING b' = 0" using len by (simp add: numb_zero)
    then show False using b'(2,4) that len by (auto simp: b_live_def b_inv_def b_counts_def)
  qed
  ultimately show ?thesis using b'(1) by auto
qed

text \<open>A barrier with one place: thread 0 joins and runs, thread 1 joins and waits.\<close>

definition bar_two :: "nat barrier" where
  "bar_two = (Barrier_new 1 (\<lambda>_. 0) 0)\<lparr>b_threads := (replicate MAX_THREADS \<lparr>ts_state = OFFLINE, ts_futexWord = 0, ts_lastIdx = 0\<rparr>)
     [0 := \<lparr>ts_state = RUNNING, ts_futexWord = 0, ts_lastIdx = 0\<rparr>], b_size := 1, b_cur := 1, b_running := 1\<rparr>"

lemma bar_two_reach: "bar_reach (\<lambda>s. Some (Suc s)) (Barrier_new 1 (\<lambda>_. 0) 0) bar_two"
proof -
  have M: "0 < MAX_THREADS" by (simp add: MAX_THREADS_def)
  have new: "b_threads (Barrier_new 1 (\<lambda>_. 0) s) = replicate MAX_THREADS \<lparr>ts_state = OFFLINE, ts_futexWord = 0, ts_lastIdx = 0\<rparr>" for s :: nat
    by (simp add: Barrier_new_def map_replicate_const)
  have "bar_join (\<lambda>s. Some (Suc s)) id 0 (Barrier_new 1 (\<lambda>_. 0) 0) = Some bar_two"
    using M by (simp add: bar_two_def bar_join_def tryWakeNext_def checkRunList_def checkEndPhase_def wake_next_def st_def Barrier_new_def
      map_replicate_const list_update_same_conv)
  moreover have "bar_allowed (Barrier_new 1 (\<lambda>_. 0) (0 :: nat)) (BJoin 0)" using M by (simp add: st_def new [simplified])
  ultimately show ?thesis using bar_step [OF bar_start, of _ "BJoin 0" id] by simp
qed

theorem barrier_safe_and_live_witness:
  "\<exists>b b' b''. bar_join (\<lambda>s. Some (Suc s)) id 1 bar_two = Some b \<and> bar_sync (\<lambda>s. Some (Suc s)) id 0 b = Some b' \<and> st b' 0 = WAITING \<and>
     bar_leave (\<lambda>s. Some (Suc s)) id 0 b' = Some b'' \<and> b_running b'' \<le> 1 \<and> st b'' 0 = LEFT"
proof -
  let ?cb = "\<lambda>s. Some (Suc s)" let ?w = "\<lparr>ts_state = OFFLINE, ts_futexWord = 0 :: u32, ts_lastIdx = 0 :: nat\<rparr>"
  have M: "0 < MAX_THREADS" "Suc 0 < MAX_THREADS" by (simp_all add: MAX_THREADS_def)
  note defs = bar_join_def bar_sync_def bar_leave_def tryWakeNext_def checkRunList_def checkEndPhase_def wake_next_def st_def M
  have two: "b_threads bar_two = (replicate MAX_THREADS ?w)[0 := \<lparr>ts_state = RUNNING, ts_futexWord = 0, ts_lastIdx = 0\<rparr>]"
      "b_parallel bar_two = 1" "b_runList bar_two = replicate MAX_THREADS 0" "b_size bar_two = 1" "b_cur bar_two = 1" "b_running bar_two = 1" "b_left bar_two = 0"
    by (simp_all add: bar_two_def Barrier_new_def)
  obtain b where b: "bar_join ?cb id 1 bar_two = Some b" "b_parallel b = 1" "b_size b = 2" "b_cur b = 1" "b_running b = 1" "b_left b = 0"
      "b_threads b = (b_threads bar_two)[1 := \<lparr>ts_state = WAITING, ts_futexWord = 1, ts_lastIdx = 0\<rparr>]" "b_runList b = (replicate MAX_THREADS 0)[1 := 1]"
    using M two by (simp add: defs)
  obtain b' where b': "bar_sync ?cb id 0 b = Some b'" "b_size b' = 2" "b_running b' = 1" "b_left b' = 0" "b_runList b' = b_runList b"
      "b_threads b' = (b_threads b)[0 := \<lparr>ts_state = WAITING, ts_futexWord = 1, ts_lastIdx = 0\<rparr>, 1 := \<lparr>ts_state = RUNNING, ts_futexWord = 0, ts_lastIdx = 1\<rparr>]"
    using M b two by (simp add: defs)
  have sh: "\<forall>i. id i \<le> (i :: nat)" by simp
  have ok: "bar_allowed bar_two (BJoin 1)" "bar_allowed b (BSync 0)" "bar_allowed b' (BLeave 0)" "st b' 0 = WAITING"
    using M two b b' by (simp_all add: st_def pos_ok_def)
  have r1: "bar_reach ?cb (Barrier_new 1 (\<lambda>_. 0) 0) b" by (rule bar_step [OF bar_two_reach ok(1) sh]) (use b(1) in \<open>simp only: bar_do.simps\<close>)
  have r2: "bar_reach ?cb (Barrier_new 1 (\<lambda>_. 0) 0) b'" by (rule bar_step [OF r1 ok(2) sh]) (use b'(1) in \<open>simp only: bar_do.simps\<close>)
  from barrier_safe_and_live [OF zero_less_one r2 ok(3) sh] obtain b'' where "bar_leave ?cb id 0 b' = Some b''" "b_running b'' \<le> 1"
    unfolding bar_do.simps by blast
  moreover from this have "st b'' 0 = LEFT" using ok(4) M two b(7) b'(6) by (auto simp: bar_leave_def st_def)
  ultimately show ?thesis using b(1) b'(1) ok(4) by blast
qed

text \<open>
  Phases. The callback that ends a phase runs at most once in an operation, only in a \<open>sync\<close> or \<open>leave\<close> of the last running
  thread, and only when no thread that waits is still to have its turn in the phase; \<open>join\<close> never ends a phase, as the
  comment there says.
\<close>

theorem barrier_phase_ends_last:
  assumes "0 < n" "bar_reach (\<lambda>s. Some (f s)) (Barrier_new n junk s) b" "bar_allowed b op" "\<forall>i. shuf i \<le> i"
    and "bar_do (\<lambda>s. Some (f s)) shuf op b = Some b'" "b_sched b' \<noteq> b_sched b"
  shows "b_sched b' = f (b_sched b) \<and> b_running b = 1 \<and> (\<forall>t. op \<noteq> BJoin t) \<and>
    (\<forall>p. b_cur b \<le> p \<and> p < b_size b \<longrightarrow> st b (b_runList b ! p) = LEFT)"
proof -
  have b: "b_inv b" "b_parallel b = n" "b_live b" using bar_reach_inv [OF assms(2,1)] by simp_all
  have r: "b_sched b' = f (b_sched b)" "b_running b = 1" "none_waiting b (b_cur b) (b_size b)" "\<forall>t. op \<noteq> BJoin t"
    using bar_do_ok [OF b(1) _ assms(3,4) b(3), of f] assms(1,5,6) b(2) by auto
  have "st b (b_runList b ! p) = LEFT" if p: "b_cur b \<le> p" "p < b_size b" for p
  proof -
    let ?t = "b_runList b ! p"
    have t: "?t < length (b_threads b)" "st b ?t \<noteq> OFFLINE" "st b ?t \<noteq> WAITING"
      using b_list_entry [of b p] b(1) p r(3) by (auto simp: b_inv_def none_waiting_def)
    moreover have "st b ?t \<noteq> RUNNING"
    proof
      assume R: "st b ?t = RUNNING"
      have I: "b_list b" "b_pos b" "b_cur b \<le> b_size b" using b(1) by (simp_all add: b_inv_def b_list_def)
      have "ts_lastIdx (b_threads b ! ?t) = p" "ts_lastIdx (b_threads b ! ?t) < b_cur b"
        using b_posD(3,4) [OF I(2) t(1)] R I b_list_inj [OF I(1), of _ p] p by (auto simp: pos_ok_def)
      then show False using p by simp
    qed
    ultimately show ?thesis by (cases "st b ?t") auto
  qed
  then show ?thesis using r by blast
qed

theorem barrier_phase_ends_last_witness:
  "\<exists>b b'. bar_join (\<lambda>s. Some (Suc s)) id 0 (Barrier_new 1 (\<lambda>_. 0) 0) = Some b \<and> bar_sync (\<lambda>s. Some (Suc s)) id 0 b = Some b' \<and>
     b_sched b' = 1 \<and> b_running b = 1 \<and> (\<forall>p. b_cur b \<le> p \<and> p < b_size b \<longrightarrow> st b (b_runList b ! p) = LEFT)"
proof -
  let ?cb = "\<lambda>s. Some (Suc s)" let ?n = "Barrier_new 1 (\<lambda>_. 0) (0 :: nat)"
  have M: "0 < MAX_THREADS" by (simp add: MAX_THREADS_def)
  define w where "w = \<lparr>ts_state = OFFLINE, ts_futexWord = 0 :: u32, ts_lastIdx = 0 :: nat\<rparr>"
  define ts where "ts = replicate MAX_THREADS w"
  have new: "?n = \<lparr>b_parallel = 1, b_threads = ts, b_runList = replicate MAX_THREADS 0, b_size = 0, b_cur = 0,
      b_running = 0, b_left = 0, b_phaseCount = 0, b_sched = 0\<rparr>"
    by (simp add: Barrier_new_def ts_def w_def map_replicate_const)
  have len: "length ts = MAX_THREADS" "ts ! 0 = w" using M by (simp_all add: ts_def)
  note defs = bar_join_def bar_sync_def tryWakeNext_def checkRunList_def checkEndPhase_def cleanup_def wake_next_def st_def w_def len M
  have "\<exists>b. bar_join ?cb id 0 ?n = Some b \<and> b_parallel b = 1 \<and> b_size b = 1 \<and> b_cur b = 1 \<and> b_running b = 1 \<and> b_left b = 0 \<and> b_phaseCount b = 0 \<and>
      b_threads b = ts[0 := \<lparr>ts_state = RUNNING, ts_futexWord = 0, ts_lastIdx = 0\<rparr>] \<and> b_runList b = replicate MAX_THREADS 0 \<and> b_sched b = 0"
    unfolding new using M by (simp add: defs list_update_same_conv)
  then obtain b where b: "bar_join ?cb id 0 ?n = Some b" "b_parallel b = 1" "b_size b = 1" "b_cur b = 1" "b_running b = 1" "b_left b = 0" "b_phaseCount b = 0"
      "b_threads b = ts[0 := \<lparr>ts_state = RUNNING, ts_futexWord = 0, ts_lastIdx = 0\<rparr>]" "b_runList b = replicate MAX_THREADS 0" "b_sched b = 0"
    by (elim exE conjE) (rule that)
  obtain b' where b': "bar_sync ?cb id 0 b = Some b'" "b_sched b' = 1" using M b by (simp add: defs)
  have sh: "\<forall>i. id i \<le> (i :: nat)" by simp
  have ok: "bar_allowed ?n (BJoin 0)" unfolding new using M len by (auto simp: st_def w_def)
  have ok2: "bar_allowed b (BSync 0)" using M b(8) len by (auto simp: st_def)
  have r: "bar_reach ?cb ?n b" by (rule bar_step [OF bar_start ok sh]) (use b(1) in \<open>simp only: bar_do.simps\<close>)
  show ?thesis using barrier_phase_ends_last [OF _ r ok2 sh, unfolded bar_do.simps, OF _ b'(1)] b(1,10) b' by auto
qed

text \<open>
  C32. The header of the barrier says that threads can leave at any time. In every reachable state in which all places are taken, let a thread that is not on the
  run list join. It waits, and the barrier records no position for it, so its index is what memory or an earlier membership left there. If that index lies among the
  entries that had their turn, the thread can still leave, but when it joins again the assertion of \<open>join\<close> that the index is its position fails. (With zeroed memory
  this is every thread's first join.)
\<close>

theorem barrier_waiting_leave_breaks_rejoin:
  assumes "0 < n" "bar_reach (\<lambda>s. Some (f s)) (Barrier_new n junk s) b" "b_running b = n"
    and "t < MAX_THREADS" "st b t = OFFLINE" "ts_lastIdx (b_threads b ! t) < b_cur b"
  shows "\<exists>b1 b2. bar_join (\<lambda>s. Some (f s)) shuf t b = Some b1 \<and> st b1 t = WAITING \<and>
    bar_leave (\<lambda>s. Some (f s)) shuf t b1 = Some b2 \<and> bar_join (\<lambda>s. Some (f s)) shuf t b2 = None"
proof -
  have b: "b_inv b" "b_parallel b = n" "length (b_threads b) = MAX_THREADS" using bar_reach_inv [OF assms(2,1)] by simp_all
  then have I: "b_list b" "b_cur b \<le> b_size b" "length (b_runList b) = MAX_THREADS" by (simp_all add: b_inv_def b_list_def)
  let ?k = "ts_lastIdx (b_threads b ! t)"
  have size: "b_size b < MAX_THREADS" using offline_room [OF I(1)] assms(4,5) b(3) I(3) by simp
  have k: "?k < b_size b" "b_runList b ! ?k \<noteq> t" using b_list_entry(2) [OF I(1), of ?k] assms(5,6) I(2) by auto
  let ?b1 = "b\<lparr>b_runList := (b_runList b)[b_size b := t], b_size := b_size b + 1,
    b_threads := (b_threads b)[t := (b_threads b ! t)\<lparr>ts_state := WAITING, ts_futexWord := 1\<rparr>]\<rparr>"
  have idle: "tryWakeNext cb shuf ?b1 = Some ?b1" for cb
  proof -
    have "run_loop m ?b1 = Some ?b1" for m using assms(3) b(2) by (cases m) simp_all
    then show ?thesis using assms(1,3) by (simp add: tryWakeNext_def checkRunList_def checkEndPhase_def)
  qed
  have j: "bar_join (\<lambda>s. Some (f s)) shuf t b = Some ?b1" using assms(4,5) b(3) I(3) size idle by (simp add: bar_join_def)
  let ?b2 = "?b1\<lparr>b_threads := (b_threads b)[t := (b_threads b ! t)\<lparr>ts_futexWord := 1, ts_state := LEFT\<rparr>], b_left := b_left b + 1\<rparr>"
  have w: "st ?b1 t = WAITING" using assms(4) b(3) by (simp add: st_def)
  have l: "bar_leave (\<lambda>s. Some (f s)) shuf t ?b1 = Some ?b2" using w assms(4) b(3) by (simp add: bar_leave_def)
  have "bar_join (\<lambda>s. Some (f s)) shuf t ?b2 = None"
    using assms(4,6) b(3) I(3) k size by (simp add: bar_join_def rejoin_phase_def st_def)
  then show ?thesis using j w l by blast
qed

theorem barrier_waiting_leave_breaks_rejoin_witness:
  "\<exists>b1 b2. bar_join (\<lambda>s. Some (Suc s)) id 1 bar_two = Some b1 \<and> bar_leave (\<lambda>s. Some (Suc s)) id 1 b1 = Some b2 \<and>
     bar_join (\<lambda>s. Some (Suc s)) id 1 b2 = None"
proof -
  have "b_running bar_two = 1" "(1 :: nat) < MAX_THREADS" "st bar_two 1 = OFFLINE" "ts_lastIdx (b_threads bar_two ! 1) < b_cur bar_two"
    by (simp_all add: bar_two_def st_def MAX_THREADS_def)
  from barrier_waiting_leave_breaks_rejoin [OF _ bar_two_reach this, of id] show ?thesis by auto
qed

end
