(* ===== verification/SlabAlloc.thy ===== *)
theory SlabAlloc
  imports Prelude
begin

text \<open>
  The slab allocator of timing events (\<^verbatim>\<open>src/slab_alloc.h\<close>).

  A slab is a block of 64 KB with a header; objects are carved off its buffer one after the other and are never returned one by one. A
  slab only counts its live objects and is recycled as a whole when the count reaches zero. A slab is named by a number,
  and the address of an object is its slab and its offset in the slab's buffer; \<open>elem & SLAB_MASK\<close> recovers the slab. Slabs that
  \<open>gm_memalign\<close> returns are fresh.

  The counters are bounded by the size of a slab and by the number of slabs, and are natural numbers; \<open>dec\<close> fails where one would wrap
  around. The lock \<open>freeLock\<close> makes every operation one step.
\<close>

section \<open>Definitions\<close>

definition SLAB_SIZE :: nat where "SLAB_SIZE = 65536"

text \<open>The header: a pointer and two 32-bit counters.\<close>

definition SLAB_HDR :: nat where "SLAB_HDR = 8 + 4 + 4"

definition SLAB_BUF :: nat where "SLAB_BUF = SLAB_SIZE - SLAB_HDR"

record slab =
  sl_liveElems :: nat
  sl_usedBytes :: nat

definition slab_clear :: slab where
  "slab_clear = \<lparr>sl_liveElems = 0, sl_usedBytes = 0\<rparr>"

text \<open>Allocation in a slab: the new slab and the offset, or none when the buffer is full.\<close>

definition slab_alloc :: "nat \<Rightarrow> slab \<Rightarrow> slab \<times> nat option" where
  "slab_alloc bytes s =
     (let ptr = sl_usedBytes s; s = s\<lparr>sl_usedBytes := sl_usedBytes s + bytes\<rparr>
      in if sl_usedBytes s < SLAB_BUF then (s\<lparr>sl_liveElems := sl_liveElems s + 1\<rparr>, Some ptr) else (s, None))"

record slab_allocator =
  sc_slabs :: "slab list"
  sc_cur :: nat
  sc_freeList :: "nat list"
  sc_liveSlabs :: nat

text \<open>\<open>allocSlab\<close>: the last slab of the free list or a fresh one becomes the current one.\<close>

definition allocSlab :: "slab_allocator \<Rightarrow> slab_allocator" where
  "allocSlab a =
     (let a = (if sc_freeList a \<noteq> []
               then a\<lparr>sc_cur := last (sc_freeList a), sc_freeList := butlast (sc_freeList a)\<rparr>
               else a\<lparr>sc_slabs := sc_slabs a @ [slab_clear], sc_cur := length (sc_slabs a)\<rparr>)
      in a\<lparr>sc_liveSlabs := sc_liveSlabs a + 1\<rparr>)"

definition SlabAlloc_new :: slab_allocator where
  "SlabAlloc_new = allocSlab \<lparr>sc_slabs = [], sc_cur = 0, sc_freeList = [], sc_liveSlabs = 0\<rparr>"

definition cur_alloc :: "nat \<Rightarrow> slab_allocator \<Rightarrow> (slab_allocator \<times> nat option) option" where
  "cur_alloc sz a = do {
     s \<leftarrow> aget (sc_slabs a) (sc_cur a);
     let (s, ptr) = slab_alloc sz s;
     ss \<leftarrow> aset (sc_slabs a) (sc_cur a) s;
     Some (a\<lparr>sc_slabs := ss\<rparr>, ptr) }"

text \<open>The last assertion of \<open>alloc\<close>: masking the pointer gives the current slab, so it points inside of it.\<close>

definition sl_alloc :: "nat \<Rightarrow> slab_allocator \<Rightarrow> (slab_allocator \<times> nat \<times> nat) option" where
  "sl_alloc sz a = do {
     assert_that (sz < SLAB_SIZE);
     (a, ptr) \<leftarrow> cur_alloc sz a;
     (a, ptr) \<leftarrow> (case ptr of Some p \<Rightarrow> Some (a, p)
       | None \<Rightarrow> do { (a, ptr) \<leftarrow> cur_alloc sz (allocSlab a); p \<leftarrow> ptr; Some (a, p) });
     assert_that (SLAB_HDR + ptr < SLAB_SIZE);
     Some (a, sc_cur a, ptr) }"

definition freeSlab :: "nat \<Rightarrow> slab_allocator \<Rightarrow> slab_allocator option" where
  "freeSlab i a = do {
     ss \<leftarrow> aset (sc_slabs a) i slab_clear;
     let a = a\<lparr>sc_slabs := ss\<rparr>;
     a \<leftarrow> (if i \<noteq> sc_cur a then do {
             l \<leftarrow> dec (sc_liveSlabs a);
             Some (a\<lparr>sc_freeList := sc_freeList a @ [i], sc_liveSlabs := l\<rparr>) }
           else Some a);
     assert_that (sc_liveSlabs a \<noteq> 0);
     Some a }"

text \<open>\<open>freeElem\<close> of an object in slab \<open>i\<close>.\<close>

definition slab_freeElem :: "nat \<Rightarrow> slab_allocator \<Rightarrow> slab_allocator option" where
  "slab_freeElem i a = do {
     s \<leftarrow> aget (sc_slabs a) i;
     let prevLiveElems = sl_liveElems s;
     l \<leftarrow> dec prevLiveElems;
     ss \<leftarrow> aset (sc_slabs a) i (s\<lparr>sl_liveElems := l\<rparr>);
     let a = a\<lparr>sc_slabs := ss\<rparr>;
     assert_that (prevLiveElems \<noteq> 0 \<and> prevLiveElems < sl_usedBytes s);
     if prevLiveElems = 1 then freeSlab i a else Some a }"

section \<open>Clients\<close>

text \<open>The live objects: their slab, their offset and their size.\<close>

type_synonym objs = "(nat \<times> nat \<times> nat) set"

inductive slab_step :: "slab_allocator \<times> objs \<Rightarrow> slab_allocator \<times> objs \<Rightarrow> bool" where
  step_alloc: "2 \<le> sz \<Longrightarrow> sz < SLAB_BUF \<Longrightarrow> sl_alloc sz a = Some (a', i, p) \<Longrightarrow> slab_step (a, objs) (a', insert (i, p, sz) objs)"
| step_free: "(i, p, sz) \<in> objs \<Longrightarrow> slab_freeElem i a = Some a' \<Longrightarrow> slab_step (a, objs) (a', objs - {(i, p, sz)})"

text \<open>Two objects do not share a byte.\<close>

definition apart :: "nat \<times> nat \<times> nat \<Rightarrow> nat \<times> nat \<times> nat \<Rightarrow> bool" where
  "apart x y \<longleftrightarrow> (case (x, y) of ((i, p, n), (j, q, m)) \<Rightarrow> i \<noteq> j \<or> p + n \<le> q \<or> q + m \<le> p)"

section \<open>Invariant\<close>

definition objs_in :: "objs \<Rightarrow> nat \<Rightarrow> (nat \<times> nat) set" where
  "objs_in objs i = {(p, n). (i, p, n) \<in> objs}"

text \<open>The objects of a slab: counted, inside the used part of the buffer, and disjoint.\<close>

definition slab_holds :: "slab \<Rightarrow> (nat \<times> nat) set \<Rightarrow> bool" where
  "slab_holds s os \<longleftrightarrow> finite os \<and> sl_liveElems s = card os \<and> (\<Sum>(p, n)\<in>os. n) \<le> sl_usedBytes s \<and>
     (\<forall>(p, n)\<in>os. 2 \<le> n \<and> p + n \<le> sl_usedBytes s \<and> p + n < SLAB_BUF) \<and>
     (\<forall>(p, n)\<in>os. \<forall>(q, m)\<in>os. (p, n) \<noteq> (q, m) \<longrightarrow> p + n \<le> q \<or> q + m \<le> p)"

definition slab_inv :: "slab_allocator \<Rightarrow> objs \<Rightarrow> bool" where
  "slab_inv a objs \<longleftrightarrow> sc_cur a < length (sc_slabs a) \<and> sc_cur a \<notin> set (sc_freeList a) \<and> distinct (sc_freeList a) \<and>
     (\<forall>i\<in>set (sc_freeList a). i < length (sc_slabs a) \<and> sc_slabs a ! i = slab_clear) \<and>
     sc_liveSlabs a + length (sc_freeList a) = length (sc_slabs a) \<and>
     (\<forall>(i, p, n)\<in>objs. i < length (sc_slabs a)) \<and>
     (\<forall>i < length (sc_slabs a). slab_holds (sc_slabs a ! i) (objs_in objs i))"

lemma slab_holds_clear: "slab_holds slab_clear os \<longleftrightarrow> os = {}"
  by (auto simp: slab_holds_def slab_clear_def card_eq_0_iff)

lemma slab_holds_add:
  assumes h: "slab_holds s os" and n: "2 \<le> n" and fit: "sl_usedBytes s + n < SLAB_BUF"
  shows "slab_holds (s\<lparr>sl_usedBytes := sl_usedBytes s + n, sl_liveElems := sl_liveElems s + 1\<rparr>) (insert (sl_usedBytes s, n) os)"
proof -
  have new: "(sl_usedBytes s, n) \<notin> os" using h n by (fastforce simp: slab_holds_def)
  have "(\<Sum>(p, n)\<in>insert (sl_usedBytes s, n) os. n) = n + (\<Sum>(p, n)\<in>os. n)" using new h by (simp add: slab_holds_def)
  then show ?thesis using h n fit new by (fastforce simp: slab_holds_def)
qed

lemma slab_holds_used: "slab_holds s os \<Longrightarrow> slab_holds (s\<lparr>sl_usedBytes := sl_usedBytes s + n\<rparr>) os"
  by (fastforce simp: slab_holds_def)

lemma slab_holds_remove:
  assumes h: "slab_holds s os" and o: "x \<in> os"
  shows "slab_holds (s\<lparr>sl_liveElems := sl_liveElems s - 1\<rparr>) (os - {x})"
proof -
  have "(\<Sum>(p, n)\<in>os - {x}. n) \<le> (\<Sum>(p, n)\<in>os. n)" using h by (intro sum_mono2) (auto simp: slab_holds_def)
  then have "(\<Sum>(p, n)\<in>os - {x}. n) \<le> sl_usedBytes s" using h unfolding slab_holds_def by linarith
  then show ?thesis using h o unfolding slab_holds_def by (auto simp: card_Diff_singleton)
qed

lemma slab_holds_bound:
  assumes h: "slab_holds s os" and o: "x \<in> os"
  shows "0 < sl_liveElems s" "sl_liveElems s < sl_usedBytes s"
proof -
  have f: "finite os" "sl_liveElems s = card os" using h by (simp_all add: slab_holds_def)
  show pos: "0 < sl_liveElems s" using f o by (auto simp: card_gt_0_iff)
  have "2 * card os = (\<Sum>x\<in>os. 2)" by simp
  also have "\<dots> \<le> (\<Sum>(p, n)\<in>os. n)" using h by (intro sum_mono) (auto simp: slab_holds_def)
  also have "\<dots> \<le> sl_usedBytes s" using h by (simp add: slab_holds_def)
  finally show "sl_liveElems s < sl_usedBytes s" using pos f(2) by linarith
qed

section \<open>The operations keep the invariant\<close>

lemma slab_inv_update:
  assumes inv: "slab_inv a objs" and i: "i < length (sc_slabs a)" "i \<notin> set (sc_freeList a)" and h: "slab_holds s (objs_in objs' i)"
    and other: "\<And>j. j \<noteq> i \<Longrightarrow> objs_in objs' j = objs_in objs j"
  shows "slab_inv (a\<lparr>sc_slabs := (sc_slabs a)[i := s]\<rparr>) objs'"
proof -
  have "\<forall>(j, p, n)\<in>objs'. j < length (sc_slabs a)"
  proof clarify
    fix j p n assume "(j, p, n) \<in> objs'"
    then have "j = i \<or> (j, p, n) \<in> objs" using other [of j] by (auto simp: objs_in_def set_eq_iff)
    then show "j < length (sc_slabs a)" using inv i(1) by (auto simp: slab_inv_def)
  qed
  moreover have "\<forall>j < length (sc_slabs a). slab_holds ((sc_slabs a)[i := s] ! j) (objs_in objs' j)"
    using inv h other i(1) by (simp add: slab_inv_def nth_list_update)
  ultimately show ?thesis using inv i by (auto simp: slab_inv_def nth_list_update)
qed

lemma cur_alloc_ok:
  assumes inv: "slab_inv a objs" and sz: "2 \<le> sz"
  shows "(\<exists>a'. cur_alloc sz a = Some (a', None) \<and> slab_inv a' objs) \<or>
    (\<exists>a' p. cur_alloc sz a = Some (a', Some p) \<and> sc_cur a' = sc_cur a \<and> slab_inv a' (insert (sc_cur a, p, sz) objs) \<and> p + sz < SLAB_BUF \<and>
       (\<forall>x\<in>objs. apart (sc_cur a, p, sz) x))"
proof -
  let ?i = "sc_cur a" let ?s = "sc_slabs a ! ?i"
  have i: "?i < length (sc_slabs a)" "?i \<notin> set (sc_freeList a)" and h: "slab_holds ?s (objs_in objs ?i)"
    using inv by (simp_all add: slab_inv_def)
  show ?thesis
  proof (cases "sl_usedBytes ?s + sz < SLAB_BUF")
    case True
    let ?p = "sl_usedBytes ?s" let ?s' = "?s\<lparr>sl_usedBytes := ?p + sz, sl_liveElems := sl_liveElems ?s + 1\<rparr>"
    have "objs_in (insert (?i, ?p, sz) objs) ?i = insert (?p, sz) (objs_in objs ?i)" by (auto simp: objs_in_def)
    then have "slab_inv (a\<lparr>sc_slabs := (sc_slabs a)[?i := ?s']\<rparr>) (insert (?i, ?p, sz) objs)"
      using slab_holds_add [OF h sz True] i by (intro slab_inv_update [OF inv]) (auto simp: objs_in_def)
    moreover have "\<forall>x\<in>objs. apart (?i, ?p, sz) x"
    proof clarify
      fix j q m assume o: "(j, q, m) \<in> objs"
      show "apart (?i, ?p, sz) (j, q, m)"
      proof (cases "j = ?i")
        case True
        then have "(q, m) \<in> objs_in objs ?i" using o by (simp add: objs_in_def)
        then have "q + m \<le> ?p" using h by (fastforce simp: slab_holds_def)
        then show ?thesis by (auto simp: apart_def)
      qed (simp add: apart_def)
    qed
    moreover have "cur_alloc sz a = Some (a\<lparr>sc_slabs := (sc_slabs a)[?i := ?s']\<rparr>, Some ?p)"
      using i True by (simp add: cur_alloc_def slab_alloc_def Let_def)
    ultimately show ?thesis using True by auto
  next
    case False
    let ?s' = "?s\<lparr>sl_usedBytes := sl_usedBytes ?s + sz\<rparr>"
    have "slab_inv (a\<lparr>sc_slabs := (sc_slabs a)[?i := ?s']\<rparr>) objs"
      using slab_holds_used [OF h] i by (intro slab_inv_update [OF inv]) auto
    moreover have "cur_alloc sz a = Some (a\<lparr>sc_slabs := (sc_slabs a)[?i := ?s']\<rparr>, None)"
      using i False by (simp add: cur_alloc_def slab_alloc_def Let_def)
    ultimately show ?thesis by blast
  qed
qed

lemma allocSlab_ok:
  assumes inv: "slab_inv a objs"
  shows "slab_inv (allocSlab a) objs" "sc_slabs (allocSlab a) ! sc_cur (allocSlab a) = slab_clear"
proof -
  have "slab_inv (allocSlab a) objs \<and> sc_slabs (allocSlab a) ! sc_cur (allocSlab a) = slab_clear"
  proof (cases "sc_freeList a = []")
    case True
    have "objs_in objs (length (sc_slabs a)) = {}" using inv by (auto simp: slab_inv_def objs_in_def)
    then show ?thesis using inv True by (auto simp: slab_inv_def allocSlab_def Let_def nth_append slab_holds_clear less_Suc_eq)
  next
    case False
    then obtain xs x where f: "sc_freeList a = xs @ [x]" by (metis append_butlast_last_id)
    then show ?thesis using inv by (auto simp: slab_inv_def allocSlab_def Let_def)
  qed
  then show "slab_inv (allocSlab a) objs" "sc_slabs (allocSlab a) ! sc_cur (allocSlab a) = slab_clear" by simp_all
qed

lemma sl_alloc_ok:
  assumes inv: "slab_inv a objs" and sz: "2 \<le> sz" "sz < SLAB_BUF"
  shows "\<exists>a' i p. sl_alloc sz a = Some (a', i, p) \<and> slab_inv a' (insert (i, p, sz) objs) \<and> p + sz < SLAB_BUF \<and> (\<forall>x\<in>objs. apart (i, p, sz) x)"
proof -
  have lim: "sz < SLAB_SIZE" "p < SLAB_BUF \<Longrightarrow> SLAB_HDR + p < SLAB_SIZE" for p using sz(2) by (simp_all add: SLAB_BUF_def SLAB_SIZE_def SLAB_HDR_def)
  from cur_alloc_ok [OF inv sz(1)] show ?thesis
  proof (elim disjE exE conjE)
    fix a1 assume c: "cur_alloc sz a = Some (a1, None)" and i1: "slab_inv a1 objs"
    let ?a = "allocSlab a1"
    have i2: "slab_inv ?a objs" and clear: "sc_slabs ?a ! sc_cur ?a = slab_clear" using allocSlab_ok [OF i1] by simp_all
    have cur: "sc_cur ?a < length (sc_slabs ?a)" using i2 by (simp add: slab_inv_def)
    have "cur_alloc sz ?a \<noteq> Some (a2, None)" for a2
      using cur clear sz(2) by (simp add: cur_alloc_def slab_alloc_def slab_clear_def)
    then obtain a' p where a': "cur_alloc sz ?a = Some (a', Some p)" "sc_cur a' = sc_cur ?a" "slab_inv a' (insert (sc_cur ?a, p, sz) objs)"
      "p + sz < SLAB_BUF" "\<forall>x\<in>objs. apart (sc_cur ?a, p, sz) x" using cur_alloc_ok [OF i2 sz(1)] by blast
    have "sl_alloc sz a = Some (a', sc_cur ?a, p)" using c a'(1,2,4) lim by (simp add: sl_alloc_def)
    then show ?thesis using a' by blast
  next
    fix a' p assume a': "cur_alloc sz a = Some (a', Some p)" "sc_cur a' = sc_cur a" "slab_inv a' (insert (sc_cur a, p, sz) objs)"
      "p + sz < SLAB_BUF" "\<forall>x\<in>objs. apart (sc_cur a, p, sz) x"
    then have "sl_alloc sz a = Some (a', sc_cur a, p)" using lim by (simp add: sl_alloc_def)
    then show ?thesis using a' by blast
  qed
qed

lemma slab_freeElem_ok:
  assumes inv: "slab_inv a objs" and o: "(i, p, n) \<in> objs"
  shows "\<exists>a'. slab_freeElem i a = Some a' \<and> slab_inv a' (objs - {(i, p, n)})"
proof -
  let ?s = "sc_slabs a ! i" let ?objs = "objs - {(i, p, n)}"
  have i: "i < length (sc_slabs a)" and h: "slab_holds ?s (objs_in objs i)" and x: "(p, n) \<in> objs_in objs i"
    using inv o by (auto simp: slab_inv_def objs_in_def)
  have free: "i \<notin> set (sc_freeList a)"
  proof
    assume "i \<in> set (sc_freeList a)"
    then have "?s = slab_clear" using inv by (simp add: slab_inv_def)
    then show False using h x by (simp add: slab_holds_clear)
  qed
  note b = slab_holds_bound [OF h x]
  have oi: "objs_in ?objs i = objs_in objs i - {(p, n)}" "j \<noteq> i \<Longrightarrow> objs_in ?objs j = objs_in objs j" for j by (auto simp: objs_in_def)
  let ?a = "a\<lparr>sc_slabs := (sc_slabs a)[i := ?s\<lparr>sl_liveElems := sl_liveElems ?s - 1\<rparr>]\<rparr>"
  have inv': "slab_inv ?a ?objs" using slab_holds_remove [OF h x] oi by (intro slab_inv_update [OF inv i free]) simp_all
  show ?thesis
  proof (cases "sl_liveElems ?s = 1")
    case False
    then show ?thesis using b i inv' by (simp add: slab_freeElem_def)
  next
    case True
    have "slab_holds (?s\<lparr>sl_liveElems := sl_liveElems ?s - 1\<rparr>) (objs_in ?objs i)" using slab_holds_remove [OF h x] oi(1) by simp
    then have empty: "objs_in ?objs i = {}" using True by (auto simp: slab_holds_def)
    then have inv2: "slab_inv (a\<lparr>sc_slabs := (sc_slabs a)[i := slab_clear]\<rparr>) ?objs"
      using oi by (intro slab_inv_update [OF inv i free]) (simp_all add: slab_holds_clear)
    have live: "sc_liveSlabs a + length (sc_freeList a) = length (sc_slabs a)" "sc_cur a < length (sc_slabs a)" "sc_cur a \<notin> set (sc_freeList a)" "distinct (sc_freeList a)"
      "\<forall>j\<in>set (sc_freeList a). j < length (sc_slabs a)" using inv by (simp_all add: slab_inv_def)
    show ?thesis
    proof (cases "i = sc_cur a")
      case cur: True
      have "card (set (sc_freeList a)) < card {..<length (sc_slabs a)}" using live i cur free by (intro psubset_card_mono) auto
      then have "sc_liveSlabs a \<noteq> 0" using live by (simp add: distinct_card)
      then show ?thesis using b i True cur inv2 by (simp add: slab_freeElem_def freeSlab_def)
    next
      case cur: False
      have "card (insert i (insert (sc_cur a) (set (sc_freeList a)))) \<le> card {..<length (sc_slabs a)}" using live i by (intro card_mono) auto
      then have ge2: "2 \<le> sc_liveSlabs a" using live free cur by (simp add: distinct_card)
      have "slab_inv (a\<lparr>sc_slabs := (sc_slabs a)[i := slab_clear], sc_freeList := sc_freeList a @ [i], sc_liveSlabs := sc_liveSlabs a - 1\<rparr>) ?objs"
        using inv2 free cur i ge2 by (auto simp: slab_inv_def)
      then show ?thesis using b i True cur ge2 by (simp add: slab_freeElem_def freeSlab_def)
    qed
  qed
qed

lemma SlabAlloc_new_inv: "slab_inv SlabAlloc_new {}"
  by (simp add: SlabAlloc_new_def allocSlab_def slab_inv_def slab_holds_clear objs_in_def)

lemma slab_reach_inv: "slab_step\<^sup>*\<^sup>* (SlabAlloc_new, {}) (a, objs) \<Longrightarrow> slab_inv a objs"
proof (induction "(a, objs)" arbitrary: a objs rule: rtranclp_induct)
  case base
  show ?case by (rule SlabAlloc_new_inv)
next
  case (step y)
  obtain a0 objs0 where y: "y = (a0, objs0)" by (cases y)
  then have inv: "slab_inv a0 objs0" using step.hyps(3) by simp
  from step.hyps(2) [unfolded y] show ?case
  proof cases
    case (step_alloc sz i p)
    then show ?thesis using sl_alloc_ok [OF inv, of sz] by auto
  next
    case (step_free i p sz)
    then show ?thesis using slab_freeElem_ok [OF inv, of i p sz] by auto
  qed
qed

section \<open>Properties\<close>

text \<open>
  C14. Memory safety of the slab allocator. After any sequence of allocations (of at least two bytes, smaller than a slab's buffer) and frees of
  live objects, every further allocation succeeds and returns memory inside a buffer that no live object uses, and every live
  object can be freed: no assertion fails and no counter wraps. In particular a slab is never recycled while an
  object in it is live.
\<close>

theorem slab_memory_safe:
  assumes "slab_step\<^sup>*\<^sup>* (SlabAlloc_new, {}) (a, objs)" "2 \<le> sz" "sz < SLAB_BUF"
  shows "(\<exists>a' i p. sl_alloc sz a = Some (a', i, p) \<and> p + sz < SLAB_BUF \<and> (\<forall>x\<in>objs. apart (i, p, sz) x)) \<and>
    ((j, q, n) \<in> objs \<longrightarrow> (\<exists>a'. slab_freeElem j a = Some a'))"
  using sl_alloc_ok [OF slab_reach_inv [OF assms(1)] assms(2,3)] slab_freeElem_ok [OF slab_reach_inv [OF assms(1)]] by blast

theorem slab_memory_safe_witness:
  "\<exists>a p. slab_step\<^sup>*\<^sup>* (SlabAlloc_new, {}) (a, {(0, 0, 100)}) \<and> sl_alloc 48 a \<noteq> None \<and> slab_freeElem 0 a = Some p"
proof -
  have e: "\<exists>a. sl_alloc 100 SlabAlloc_new = Some (a, 0, 0)"
    by (simp add: SlabAlloc_new_def allocSlab_def sl_alloc_def cur_alloc_def slab_alloc_def slab_clear_def SLAB_BUF_def SLAB_SIZE_def SLAB_HDR_def)
  then obtain a where a: "sl_alloc 100 SlabAlloc_new = Some (a, 0, 0)" by blast
  have "slab_step (SlabAlloc_new, {}) (a, {(0, 0, 100)})"
    using step_alloc [OF _ _ a, of "{}"] by (simp add: SLAB_BUF_def SLAB_SIZE_def SLAB_HDR_def)
  then have r: "slab_step\<^sup>*\<^sup>* (SlabAlloc_new, {}) (a, {(0, 0, 100)})" by (rule r_into_rtranclp)
  have "48 < SLAB_BUF" by (simp add: SLAB_BUF_def SLAB_SIZE_def SLAB_HDR_def)
  with r show ?thesis using slab_memory_safe [OF r, of 48 0 0 100] by fastforce
qed

text \<open>
  C33. Freeing one object twice breaks the allocator. In every state that allocations and frees of live objects reach, when a slab holds exactly two objects, freeing
  one of them twice raises no alarm: the second free recycles the slab. If the slab is the current one, or the next allocation does not fit in
  the current one, that allocation starts at the beginning of the recycled slab and, when it is longer than the other object's offset, overlaps that object, which is still live.
\<close>

theorem double_free_overlaps:
  assumes "slab_step\<^sup>*\<^sup>* (SlabAlloc_new, {}) (a, objs)" "objs_in objs i = {(p, n), (q, m)}" "(p, n) \<noteq> (q, m)"
  shows "\<exists>a1 a2. slab_freeElem i a = Some a1 \<and> slab_freeElem i a1 = Some a2 \<and>
    (\<forall>sz. q < sz \<and> sz < SLAB_BUF \<and> (i = sc_cur a \<or> SLAB_BUF \<le> sl_usedBytes (sc_slabs a ! sc_cur a) + sz) \<longrightarrow>
       (\<exists>a3. sl_alloc sz a2 = Some (a3, i, 0) \<and> \<not> apart (i, 0, sz) (i, q, m)))"
proof -
  have inv: "slab_inv a objs" by (rule slab_reach_inv [OF assms(1)])
  let ?s = "sc_slabs a ! i" let ?c = "sc_cur a"
  have o: "(i, p, n) \<in> objs" "(i, q, m) \<in> objs" using assms(2) by (auto simp: objs_in_def set_eq_iff)
  have i: "i < length (sc_slabs a)" and h: "slab_holds ?s (objs_in objs i)" using inv o by (auto simp: slab_inv_def)
  have live: "sl_liveElems ?s = 2" "2 < sl_usedBytes ?s" "2 \<le> m"
    using h slab_holds_bound(2) [OF h, of "(p, n)"] assms(2,3) by (auto simp: slab_holds_def)
  have free: "i \<notin> set (sc_freeList a)"
  proof
    assume "i \<in> set (sc_freeList a)"
    then have "?s = slab_clear" using inv by (simp add: slab_inv_def)
    then show False using live(1) by (simp add: slab_clear_def)
  qed
  let ?a1 = "a\<lparr>sc_slabs := (sc_slabs a)[i := ?s\<lparr>sl_liveElems := 1\<rparr>]\<rparr>"
  have a1: "slab_freeElem i a = Some ?a1" using i live by (simp add: slab_freeElem_def numeral_2_eq_2)
  have cur: "?c < length (sc_slabs a)" "sc_liveSlabs a + length (sc_freeList a) = length (sc_slabs a)" "distinct (sc_freeList a)" "set (sc_freeList a) \<subseteq> {..<length (sc_slabs a)}"
    "?c \<notin> set (sc_freeList a)" using inv by (auto simp: slab_inv_def)
  have lim: "sz < SLAB_BUF \<Longrightarrow> sz < SLAB_SIZE" "SLAB_HDR < SLAB_SIZE" for sz by (simp_all add: SLAB_BUF_def SLAB_SIZE_def SLAB_HDR_def)
  have ov: "\<not> apart (i, 0, sz) (i, q, m)" if "q < sz" for sz using that live(3) by (simp add: apart_def)
  show ?thesis
  proof (cases "i = ?c")
    case True
    have "card (set (sc_freeList a)) < card {..<length (sc_slabs a)}" using cur(1,4,5) by (intro psubset_card_mono) auto
    then have "sc_liveSlabs a \<noteq> 0" using cur(2,3) by (simp add: distinct_card)
    then have a2: "slab_freeElem i ?a1 = Some (a\<lparr>sc_slabs := (sc_slabs a)[i := slab_clear]\<rparr>)"
      using i live True by (simp add: slab_freeElem_def freeSlab_def)
    have "\<exists>a3. sl_alloc sz (a\<lparr>sc_slabs := (sc_slabs a)[i := slab_clear]\<rparr>) = Some (a3, i, 0)" if "sz < SLAB_BUF" for sz
      using i True lim that by (simp add: sl_alloc_def cur_alloc_def slab_alloc_def slab_clear_def)
    then show ?thesis using a1 a2 ov by blast
  next
    case False
    have "card (insert i (insert ?c (set (sc_freeList a)))) \<le> card {..<length (sc_slabs a)}" using cur i by (intro card_mono) auto
    then have ge2: "2 \<le> sc_liveSlabs a" using cur(2,3,5) free False by (simp add: distinct_card)
    let ?a2 = "a\<lparr>sc_slabs := (sc_slabs a)[i := slab_clear], sc_freeList := sc_freeList a @ [i], sc_liveSlabs := sc_liveSlabs a - 1\<rparr>"
    have a2: "slab_freeElem i ?a1 = Some ?a2" using i live False ge2 by (simp add: slab_freeElem_def freeSlab_def)
    have "\<exists>a3. sl_alloc sz ?a2 = Some (a3, i, 0)" if "sz < SLAB_BUF" "SLAB_BUF \<le> sl_usedBytes (sc_slabs a ! ?c) + sz" for sz
      using i False cur(1) lim that by (simp add: sl_alloc_def cur_alloc_def slab_alloc_def slab_clear_def allocSlab_def)
    then show ?thesis using a1 a2 ov False by blast
  qed
qed

theorem double_free_overlaps_witness:
  "\<exists>a objs a1 a2 a3. slab_step\<^sup>*\<^sup>* (SlabAlloc_new, {}) (a, objs) \<and> slab_freeElem 0 a = Some a1 \<and> slab_freeElem 0 a1 = Some a2 \<and>
     (0, 200, 120) \<in> objs \<and> sl_alloc 300 a2 = Some (a3, 0, 0) \<and> \<not> apart (0, 0, 300) (0, 200, 120)"
proof -
  note defs = SlabAlloc_new_def allocSlab_def sl_alloc_def cur_alloc_def slab_alloc_def slab_clear_def SLAB_BUF_def SLAB_SIZE_def SLAB_HDR_def
  have "\<exists>a. sl_alloc 200 SlabAlloc_new = Some (a, 0, 0) \<and> sc_cur a = 0 \<and> sc_slabs a = [\<lparr>sl_liveElems = 1, sl_usedBytes = 200\<rparr>]" by (simp add: defs)
  then obtain a where a: "sl_alloc 200 SlabAlloc_new = Some (a, 0, 0)" "sc_cur a = 0" "sc_slabs a = [\<lparr>sl_liveElems = 1, sl_usedBytes = 200\<rparr>]" by blast
  have "\<exists>b. sl_alloc 120 a = Some (b, 0, 200) \<and> sc_cur b = 0" using a(2,3) by (simp add: defs)
  then obtain b where b: "sl_alloc 120 a = Some (b, 0, 200)" "sc_cur b = 0" by blast
  let ?o = "insert (0, 200, 120) (insert (0, 0, 200) {})"
  have "slab_step (SlabAlloc_new, {}) (a, insert (0, 0, 200) {})" "slab_step (a, insert (0, 0, 200) {}) (b, ?o)"
    by (rule step_alloc [OF _ _ a(1)] step_alloc [OF _ _ b(1)]; simp add: defs)+
  then have r: "slab_step\<^sup>*\<^sup>* (SlabAlloc_new, {}) (b, ?o)" by (meson rtranclp.rtrancl_into_rtrancl rtranclp.rtrancl_refl)
  have o: "objs_in ?o 0 = {(0, 200), (200, 120)}" "(0 :: nat, 200 :: nat) \<noteq> (200, 120)" by (auto simp: objs_in_def)
  have sz: "(200 :: nat) < 300" "300 < SLAB_BUF" by (simp_all add: defs)
  obtain a1 a2 where f: "slab_freeElem 0 b = Some a1" "slab_freeElem 0 a1 = Some a2" "\<exists>a3. sl_alloc 300 a2 = Some (a3, 0, 0) \<and> \<not> apart (0, 0, 300) (0, 200, 120)"
    using double_free_overlaps [OF r o] sz b(2) by auto
  have "(0, 200, 120) \<in> ?o" by simp
  then show ?thesis using r f by blast
qed

end
