(* ===== verification/EventGraph.thy ===== *)
theory EventGraph
  imports TimingEvents
begin

text \<open>
  The graph of timing events is built and fired correctly: a visit sees every linked child once, and a finished event tells each
  of its children exactly once, never touches an event that was freed, and ends.
\<close>

section \<open>Children\<close>

text \<open>
  The shape of the child links: one pointer, or blocks of three of which only the newest may be partly filled.
\<close>

definition ev_links_ok :: "tev \<Rightarrow> bool" where
  "ev_links_ok e \<longleftrightarrow> (case ev_numChildren e of
      0 \<Rightarrow> ev_child e = None \<and> ev_children e = []
    | Suc 0 \<Rightarrow> ev_child e \<noteq> None \<and> ev_children e = []
    | n \<Rightarrow> ev_child e = None \<and> (\<exists>b bs. ev_children e = b # bs \<and> b \<noteq> [] \<and> length b \<le> TIMING_BLOCK_EVENTS \<and>
            (\<forall>x\<in>set bs. length x = TIMING_BLOCK_EVENTS) \<and> length b + TIMING_BLOCK_EVENTS * length bs = n))"

definition ev_kids :: "tev \<Rightarrow> nat list" where
  "ev_kids e = (if ev_numChildren e = 1 then [the (ev_child e)] else concat (ev_children e))"

lemma ev_links_frame [simp]: "ev_links_ok (e\<lparr>ev_state := s\<rparr>) = ev_links_ok e" "ev_links_ok (e\<lparr>ev_cycle := c\<rparr>) = ev_links_ok e"
  "ev_links_ok (e\<lparr>ev_numParents := n\<rparr>) = ev_links_ok e"
  "ev_kids (e\<lparr>ev_state := s\<rparr>) = ev_kids e" "ev_kids (e\<lparr>ev_cycle := c\<rparr>) = ev_kids e" "ev_kids (e\<lparr>ev_numParents := n\<rparr>) = ev_kids e"
  by (simp_all add: ev_links_ok_def ev_kids_def split: nat.split)

lemma concat_same_length: "\<forall>x\<in>set bs. length x = k \<Longrightarrow> length (concat bs) = k * length bs"
  by (induction bs) auto

lemma ev_links_cases:
  assumes "ev_links_ok e"
  obtains (none) "ev_numChildren e = 0" "ev_children e = []"
  | (one) c where "ev_numChildren e = 1" "ev_child e = Some c" "ev_children e = []"
  | (many) b bs where "2 \<le> ev_numChildren e" "ev_children e = b # bs" "b \<noteq> []" "length b \<le> 3" "\<forall>x\<in>set bs. length x = 3"
      "length b + 3 * length bs = ev_numChildren e"
proof -
  consider "ev_numChildren e = 0" | "ev_numChildren e = 1" | k where "ev_numChildren e = Suc (Suc k)"
    by (metis One_nat_def not0_implies_Suc)
  then show ?thesis
  proof cases
    case 1
    then show ?thesis using assms none by (simp add: ev_links_ok_def)
  next
    case 2
    then show ?thesis using assms one by (auto simp: ev_links_ok_def)
  next
    case 3
    then show ?thesis using assms many by (fastforce simp: ev_links_ok_def TIMING_BLOCK_EVENTS_def)
  qed
qed

lemma ev_visit_ok: "ev_links_ok e \<Longrightarrow> ev_visit e = Some (ev_kids e) \<and> length (ev_kids e) = ev_numChildren e"
  by (erule ev_links_cases) (auto simp: ev_visit_def ev_kids_def concat_same_length [where k = 3])

lemma ev_links_okI:
  "2 \<le> ev_numChildren e \<Longrightarrow> ev_child e = None \<Longrightarrow> ev_children e = b # bs \<Longrightarrow> b \<noteq> [] \<Longrightarrow> length b \<le> 3 \<Longrightarrow> \<forall>x\<in>set bs. length x = 3 \<Longrightarrow>
    length b + 3 * length bs = ev_numChildren e \<Longrightarrow> ev_links_ok e"
  by (auto simp: ev_links_ok_def TIMING_BLOCK_EVENTS_def split: nat.split)

lemma ev_link_ok:
  assumes "ev_links_ok e" "ev_child e = None \<or> ev_numChildren e = 1"
  shows "\<exists>e'. ev_link ch e = Some e' \<and> ev_links_ok e' \<and> (ev_child e' = None \<or> ev_numChildren e' = 1) \<and>
    count_list (ev_kids e') c = count_list (ev_kids e) c + of_bool (c = ch) \<and> ev_numChildren e' = Suc (ev_numChildren e)"
  using assms(1)
proof (cases rule: ev_links_cases)
  case none
  then show ?thesis by (simp add: ev_link_def ev_links_ok_def ev_kids_def)
next
  case (one f)
  then show ?thesis by (auto simp: ev_link_def ev_kids_def TIMING_BLOCK_EVENTS_def intro!: ev_links_okI)
next
  case (many b bs)
  have child: "ev_child e = None" using many(1) assms(2) by auto
  show ?thesis
  proof (cases "ev_numChildren e mod 3 = 0")
    case True
    then have "length b = 3" using many(3,4,6) length_greater_0_conv [of b] by presburger
    then show ?thesis using many True child
      by (auto simp: ev_link_def ev_kids_def TIMING_BLOCK_EVENTS_def intro!: ev_links_okI)
  next
    case False
    then have "length b < 3" using many(4,6) by presburger
    then show ?thesis using many False child
      by (auto simp: ev_link_def ev_kids_def TIMING_BLOCK_EVENTS_def intro!: ev_links_okI)
  qed
qed

section \<open>Firing\<close>

text \<open>The children an event has still to tell.\<close>

definition out_edges :: "ev_store \<Rightarrow> nat \<Rightarrow> nat list" where
  "out_edges st i = (case es_events st i of None \<Rightarrow> [] | Some e \<Rightarrow> if ev_state e = EV_DONE then [] else ev_kids e)"

definition indeg :: "ev_store \<Rightarrow> nat \<Rightarrow> nat" where
  "indeg st c = (\<Sum>i < es_next st. count_list (out_edges st i) c)"

text \<open>
  \<open>r\<close> numbers the events so that children come after their parents, below \<open>N\<close>. \<open>pend\<close> lists the children that events in the middle of \<open>done\<close> have
  still to tell.
\<close>

definition ev_graph :: "(nat \<Rightarrow> nat) \<Rightarrow> nat \<Rightarrow> ev_store \<Rightarrow> nat list \<Rightarrow> bool" where
  "ev_graph r N st pend \<longleftrightarrow>
     (\<forall>i e. es_events st i = Some e \<longrightarrow> i < es_next st \<and> ev_links_ok e \<and> r i < N \<and>
        ev_numParents e = indeg st i + count_list pend i \<and> (ev_numParents e > 0 \<longrightarrow> ev_state e = EV_NONE)) \<and>
     (\<forall>i. \<forall>c\<in>set (out_edges st i). es_events st c \<noteq> None \<and> r i < r c) \<and> (\<forall>c\<in>set pend. es_events st c \<noteq> None)"

text \<open>What firing enqueues: each of the events that became ready once, at its cycle plus its delay, and nothing else. An event that waited for parents
  is freed only if it is a delay event.\<close>

definition fired :: "nat set \<Rightarrow> ev_store \<Rightarrow> ev_store \<Rightarrow> (nat \<times> u64) list \<Rightarrow> bool" where
  "fired X st st' q \<longleftrightarrow> distinct (map fst q) \<and>
     (\<forall>(j, c)\<in>set q. j \<notin> X \<and> (\<exists>e. es_events st j = Some e \<and> ev_numParents e > 0) \<and>
        (\<exists>e. es_events st' j = Some e \<and> ev_numParents e = 0 \<and> ev_state e = EV_QUEUED \<and> c = ev_cycle e + ucast (ev_preDelay e))) \<and>
     (\<forall>j e. es_events st j = Some e \<and> ev_numParents e > 0 \<longrightarrow>
        (case es_events st' j of None \<Rightarrow> ev_kind e = DelayK | Some e' \<Rightarrow> ev_kind e' = ev_kind e \<and> (ev_numParents e' = 0 \<longrightarrow> j \<in> fst ` set q)))"

definition fires :: "nat set \<Rightarrow> ev_store \<Rightarrow> ev_store \<Rightarrow> bool" where
  "fires X st st' \<longleftrightarrow> es_next st' = es_next st \<and> (\<forall>j. es_events st j = None \<longrightarrow> es_events st' j = None) \<and>
     (\<forall>j e. j \<notin> X \<and> es_events st j = Some e \<and> ev_numParents e = 0 \<longrightarrow> es_events st' j = Some e) \<and>
     (\<exists>q. es_enqueued st' = es_enqueued st @ q \<and> fired X st st' q)"

lemma firesD:
  assumes "fires X st st'"
  shows "es_next st' = es_next st" "es_events st j = None \<Longrightarrow> es_events st' j = None"
    "j \<notin> X \<Longrightarrow> es_events st j = Some e \<Longrightarrow> ev_numParents e = 0 \<Longrightarrow> es_events st' j = Some e"
    "\<exists>q. es_enqueued st' = es_enqueued st @ q \<and> fired X st st' q"
  using assms by (simp_all add: fires_def)

lemma firedD:
  assumes "fired X st st' q"
  shows "distinct (map fst q)"
    "(j, c) \<in> set q \<Longrightarrow> j \<notin> X" "(j, c) \<in> set q \<Longrightarrow> \<exists>e. es_events st j = Some e \<and> ev_numParents e > 0"
    "(j, c) \<in> set q \<Longrightarrow> \<exists>e. es_events st' j = Some e \<and> ev_numParents e = 0 \<and> ev_state e = EV_QUEUED \<and> c = ev_cycle e + ucast (ev_preDelay e)"
    "es_events st j = Some e \<Longrightarrow> ev_numParents e > 0 \<Longrightarrow> es_events st' j = None \<Longrightarrow> ev_kind e = DelayK"
    "es_events st j = Some e \<Longrightarrow> ev_numParents e > 0 \<Longrightarrow> es_events st' j = Some e' \<Longrightarrow> ev_kind e' = ev_kind e"
    "es_events st j = Some e \<Longrightarrow> ev_numParents e > 0 \<Longrightarrow> es_events st' j = Some e' \<Longrightarrow> ev_numParents e' = 0 \<Longrightarrow> j \<in> fst ` set q"
  using assms by (fastforce simp: fired_def)+

lemma firedI:
  assumes "distinct (map fst q)" "\<And>j c. (j, c) \<in> set q \<Longrightarrow> j \<notin> X"
    "\<And>j c. (j, c) \<in> set q \<Longrightarrow> \<exists>e. es_events st j = Some e \<and> ev_numParents e > 0"
    "\<And>j c. (j, c) \<in> set q \<Longrightarrow> \<exists>e. es_events st' j = Some e \<and> ev_numParents e = 0 \<and> ev_state e = EV_QUEUED \<and> c = ev_cycle e + ucast (ev_preDelay e)"
    "\<And>j e. es_events st j = Some e \<Longrightarrow> ev_numParents e > 0 \<Longrightarrow> es_events st' j = None \<Longrightarrow> ev_kind e = DelayK"
    "\<And>j e e'. es_events st j = Some e \<Longrightarrow> ev_numParents e > 0 \<Longrightarrow> es_events st' j = Some e' \<Longrightarrow> ev_kind e' = ev_kind e"
    "\<And>j e e'. es_events st j = Some e \<Longrightarrow> ev_numParents e > 0 \<Longrightarrow> es_events st' j = Some e' \<Longrightarrow> ev_numParents e' = 0 \<Longrightarrow> j \<in> fst ` set q"
  shows "fired X st st' q"
  unfolding fired_def
proof (intro conjI)
  show "\<forall>(j, c)\<in>set q. j \<notin> X \<and> (\<exists>e. es_events st j = Some e \<and> ev_numParents e > 0) \<and>
      (\<exists>e. es_events st' j = Some e \<and> ev_numParents e = 0 \<and> ev_state e = EV_QUEUED \<and> c = ev_cycle e + ucast (ev_preDelay e))"
    using assms(2-4) by blast
  show "\<forall>j e. es_events st j = Some e \<and> ev_numParents e > 0 \<longrightarrow>
      (case es_events st' j of None \<Rightarrow> ev_kind e = DelayK | Some e' \<Rightarrow> ev_kind e' = ev_kind e \<and> (ev_numParents e' = 0 \<longrightarrow> j \<in> fst ` set q))"
  proof (intro allI impI, elim conjE)
    fix j e assume e: "es_events st j = Some e" "ev_numParents e > 0"
    show "case es_events st' j of None \<Rightarrow> ev_kind e = DelayK | Some e' \<Rightarrow> ev_kind e' = ev_kind e \<and> (ev_numParents e' = 0 \<longrightarrow> j \<in> fst ` set q)"
    proof (cases "es_events st' j")
      case None
      then show ?thesis using assms(5) [OF e] by simp
    next
      case (Some e')
      then show ?thesis using assms(6,7) [OF e Some] by simp
    qed
  qed
qed (rule assms(1))

lemma count_list_pos: "count_list xs x > 0 \<longleftrightarrow> x \<in> set xs"
  using count_list_0_iff [of xs x] by auto

lemma out_edges_upd:
  "out_edges (st\<lparr>es_events := (es_events st)(i := x)\<rparr>) j = (if j = i then (case x of None \<Rightarrow> [] | Some e \<Rightarrow> if ev_state e = EV_DONE then [] else ev_kids e) else out_edges st j)"
  by (simp add: out_edges_def)

text \<open>Changing an event that keeps its outgoing edges keeps all degrees.\<close>

lemma indeg_cong: "es_next st' = es_next st \<Longrightarrow> (\<And>i. out_edges st' i = out_edges st i) \<Longrightarrow> indeg st' c = indeg st c"
  by (simp add: indeg_def)

lemma indeg_done:
  assumes "i < es_next st" "es_next st' = es_next st" "out_edges st' i = []" "\<And>j. j \<noteq> i \<Longrightarrow> out_edges st' j = out_edges st j"
  shows "indeg st' c + count_list (out_edges st i) c = indeg st c"
proof -
  have "indeg st c = count_list (out_edges st i) c + (\<Sum>j\<in>{..<es_next st} - {i}. count_list (out_edges st j) c)"
    unfolding indeg_def using assms(1) by (subst sum.remove [of _ i]) auto
  moreover have "indeg st' c = (\<Sum>j\<in>{..<es_next st} - {i}. count_list (out_edges st j) c)"
    unfolding indeg_def assms(2) using assms(1,3,4) by (subst sum.remove [of _ i]) auto
  ultimately show ?thesis by simp
qed

lemma indeg_zero: "indeg st c = 0 \<Longrightarrow> i < es_next st \<Longrightarrow> c \<notin> set (out_edges st i)"
  unfolding indeg_def using count_list_pos [of "out_edges st i" c] by auto

lemma ev_graphD:
  assumes "ev_graph r N st pend" "es_events st i = Some e"
  shows "i < es_next st" "ev_links_ok e" "r i < N" "ev_numParents e = indeg st i + count_list pend i" "ev_numParents e > 0 \<Longrightarrow> ev_state e = EV_NONE"
  using assms by (auto simp: ev_graph_def)

text \<open>An event is told that a parent finished.\<close>

lemma ev_graph_told:
  assumes g: "ev_graph r N st (c # pend)" and e: "es_events st c = Some e"
    and e': "ev_numParents e' = ev_numParents e - 1" "ev_links_ok e'" "ev_kids e' = ev_kids e" "ev_state e' \<noteq> EV_DONE"
      "ev_numParents e' > 0 \<Longrightarrow> ev_state e' = EV_NONE"
  shows "ev_graph r N (st\<lparr>es_events := (es_events st)(c \<mapsto> e')\<rparr>) pend"
proof -
  let ?st = "st\<lparr>es_events := (es_events st)(c \<mapsto> e')\<rparr>"
  have np: "ev_numParents e > 0" using ev_graphD(4) [OF g e] by simp
  then have "ev_state e = EV_NONE" using ev_graphD(5) [OF g e] by simp
  then have "out_edges ?st i = out_edges st i" for i using e e'(3,4) by (auto simp: out_edges_def)
  moreover from this have "indeg ?st i = indeg st i" for i by (intro indeg_cong) simp_all
  ultimately show ?thesis using g e e' np unfolding ev_graph_def by auto
qed

text \<open>An event starts telling its children.\<close>

lemma ev_graph_start:
  assumes g: "ev_graph r N st pend" and e: "es_events st i = Some e" "ev_state e = EV_RUNNING"
  shows "ev_graph r N (st\<lparr>es_events := (es_events st)(i \<mapsto> e\<lparr>ev_state := EV_DONE\<rparr>)\<rparr>) (ev_kids e @ pend)"
proof -
  let ?st = "st\<lparr>es_events := (es_events st)(i \<mapsto> e\<lparr>ev_state := EV_DONE\<rparr>)\<rparr>"
  have o: "out_edges ?st j = (if j = i then [] else out_edges st j)" "out_edges st i = ev_kids e" for j using e by (auto simp: out_edges_def)
  have np: "ev_numParents e = 0" using ev_graphD(5) [OF g e(1)] e(2) by auto
  have d: "indeg ?st c + count_list (ev_kids e) c = indeg st c" for c
    using indeg_done [of i st ?st c] ev_graphD(1) [OF g e(1)] o by simp
  have kids: "\<forall>c\<in>set (ev_kids e). es_events st c \<noteq> None" using g o(2) unfolding ev_graph_def by metis
  have "\<forall>j x. es_events ?st j = Some x \<longrightarrow> j < es_next ?st \<and> ev_links_ok x \<and> r j < N \<and>
      ev_numParents x = indeg ?st j + count_list (ev_kids e @ pend) j \<and> (ev_numParents x > 0 \<longrightarrow> ev_state x = EV_NONE)"
  proof (intro allI impI)
    fix j x assume x: "es_events ?st j = Some x"
    have l: "ev_links_ok (e\<lparr>ev_state := EV_DONE\<rparr>)" using ev_graphD(2) [OF g e(1)] by simp
    have "indeg st j + count_list pend j = indeg ?st j + count_list (ev_kids e @ pend) j" using d [of j] by simp
    then show "j < es_next ?st \<and> ev_links_ok x \<and> r j < N \<and>
      ev_numParents x = indeg ?st j + count_list (ev_kids e @ pend) j \<and> (ev_numParents x > 0 \<longrightarrow> ev_state x = EV_NONE)"
      using x l np ev_graphD [OF g] e(1) by (cases "j = i") auto
  qed
  moreover have "\<forall>j. \<forall>c\<in>set (out_edges ?st j). es_events ?st c \<noteq> None \<and> r j < r c" using g o(1) unfolding ev_graph_def by auto
  moreover have "\<forall>c\<in>set (ev_kids e @ pend). es_events ?st c \<noteq> None" using g kids unfolding ev_graph_def by auto
  ultimately show ?thesis unfolding ev_graph_def by blast
qed

text \<open>A finished event is freed: nothing refers to it any more.\<close>

lemma ev_graph_free:
  assumes g: "ev_graph r N st pend" and e: "es_events st i = Some e" "ev_state e = EV_DONE"
  shows "ev_graph r N (ev_free i st) pend"
proof -
  let ?st = "ev_free i st"
  have o: "out_edges ?st j = out_edges st j" for j using e by (auto simp: out_edges_def ev_free_def)
  have d: "indeg ?st c = indeg st c" for c using o by (intro indeg_cong) (simp_all add: ev_free_def)
  have "ev_numParents e = 0" using ev_graphD(5) [OF g e(1)] e(2) by auto
  then have z: "indeg st i = 0" "i \<notin> set pend" using ev_graphD(4) [OF g e(1)] count_list_pos [of pend i] by auto
  have no: "i \<notin> set (out_edges st j)" for j
  proof (cases "es_events st j")
    case (Some x)
    then show ?thesis using indeg_zero [OF z(1)] ev_graphD(1) [OF g Some] by simp
  qed (simp add: out_edges_def)
  have "\<forall>j. \<forall>c\<in>set (out_edges ?st j). es_events ?st c \<noteq> None \<and> r j < r c"
    using g no unfolding o ev_graph_def by (auto simp: ev_free_def)
  moreover have "\<forall>c\<in>set pend. es_events ?st c \<noteq> None" using g z(2) unfolding ev_graph_def by (auto simp: ev_free_def)
  moreover have "\<forall>j x. es_events ?st j = Some x \<longrightarrow> j < es_next ?st \<and> ev_links_ok x \<and> r j < N \<and>
      ev_numParents x = indeg ?st j + count_list pend j \<and> (ev_numParents x > 0 \<longrightarrow> ev_state x = EV_NONE)"
    using ev_graphD [OF g] unfolding d by (auto simp: ev_free_def split: if_splits)
  ultimately show ?thesis unfolding ev_graph_def by blast
qed

lemma fires_none:
  assumes "es_enqueued st' = es_enqueued st" "es_next st' = es_next st" "\<And>j. es_events st j = None \<Longrightarrow> es_events st' j = None"
    "\<And>j e. j \<notin> X \<Longrightarrow> es_events st j = Some e \<Longrightarrow> ev_numParents e = 0 \<Longrightarrow> es_events st' j = Some e"
    "\<And>j e. es_events st j = Some e \<Longrightarrow> ev_numParents e > 0 \<Longrightarrow> \<exists>e'. es_events st' j = Some e' \<and> ev_kind e' = ev_kind e \<and> ev_numParents e' > 0"
  shows "fires X st st'"
proof -
  have "fired X st st' []" using assms(5) by (intro firedI) fastforce+
  then show ?thesis using assms(1-4) by (simp add: fires_def)
qed

lemma fires_refl [simp]: "fires X st st"
  by (rule fires_none) simp_all

lemma fires_trans:
  assumes "fires {} st st1" "fires {} st1 st2"
  shows "fires {} st st2"
proof -
  note F = firesD [OF assms(1)] note G = firesD [OF assms(2)]
  obtain q1 where q1: "es_enqueued st1 = es_enqueued st @ q1" "fired {} st st1 q1" using F(4) by blast
  obtain q2 where q2: "es_enqueued st2 = es_enqueued st1 @ q2" "fired {} st1 st2 q2" using G(4) by blast
  note P = firedD [OF q1(2)] note Q = firedD [OF q2(2)]
  have pos: "\<exists>e0. es_events st j = Some e0 \<and> ev_numParents e0 > 0" if e: "es_events st1 j = Some e" "ev_numParents e > 0" for j e
  proof -
    obtain e0 where e0: "es_events st j = Some e0" using F(2) [of j] e(1) by (cases "es_events st j") auto
    then show ?thesis using F(3) [of j e0] e by auto
  qed
  have mid: "\<exists>e1. es_events st1 j = Some e1 \<and> ev_kind e1 = ev_kind e" if "es_events st j = Some e" "ev_numParents e > 0" "es_events st2 j = Some e2" for j e e2
    using P(6) [OF that(1,2)] G(2) [of j] that(3) by (cases "es_events st1 j") auto
  have "fired {} st st2 (q1 @ q2)"
  proof (rule firedI)
    have "fst ` set q1 \<inter> fst ` set q2 = {}" using P(4) Q(3) by fastforce
    then show "distinct (map fst (q1 @ q2))" using P(1) Q(1) by simp
    show "\<exists>e. es_events st j = Some e \<and> ev_numParents e > 0" if "(j, c) \<in> set (q1 @ q2)" for j c
      using that P(3) [of j c] Q(3) [of j c] pos by auto
    show "\<exists>e. es_events st2 j = Some e \<and> ev_numParents e = 0 \<and> ev_state e = EV_QUEUED \<and> c = ev_cycle e + ucast (ev_preDelay e)" if "(j, c) \<in> set (q1 @ q2)" for j c
      using that P(4) [of j c] Q(4) [of j c] G(3) by auto
    show "ev_kind e = DelayK" if "es_events st j = Some e" "ev_numParents e > 0" "es_events st2 j = None" for j e
    proof (cases "es_events st1 j")
      case None
      then show ?thesis by (rule P(5) [OF that(1,2)])
    next
      case (Some e1)
      have "ev_numParents e1 > 0" using G(3) [of j e1] Some that(3) by auto
      then show ?thesis using Q(5) [OF Some _ that(3)] P(6) [OF that(1,2) Some] by simp
    qed
    show "ev_kind e' = ev_kind e" if "es_events st j = Some e" "ev_numParents e > 0" "es_events st2 j = Some e'" for j e e'
      using mid [OF that] Q(6) [of j _ e'] G(3) [of j] that(3) by fastforce
    show "j \<in> fst ` set (q1 @ q2)" if "es_events st j = Some e" "ev_numParents e > 0" "es_events st2 j = Some e'" "ev_numParents e' = 0" for j e e'
      using mid [OF that(1-3)] P(7) [OF that(1,2)] Q(7) [of j _ e'] that(3,4) by (fastforce simp: image_Un)
  qed simp
  then show ?thesis using F(1-3) G(1-3) q1(1) q2(1) by (simp add: fires_def)
qed

lemma ev_done_notify_ok:
  shows "ev_graph r N st pend \<Longrightarrow> es_events st i = Some e \<Longrightarrow> ev_state e = EV_RUNNING \<Longrightarrow> N - r i \<le> fuel \<Longrightarrow>
    \<exists>st'. ev_done fuel st i cyc = Some st' \<and> ev_graph r N st' pend \<and> fires {i} st st' \<and> es_events st' i = None"
  and "ev_graph r N st (cs @ pend) \<Longrightarrow> \<forall>c\<in>set cs. N - r c \<le> fuel \<Longrightarrow>
    \<exists>st'. ev_notify fuel st cs cyc = Some st' \<and> ev_graph r N st' pend \<and> fires {} st st'"
proof (induction fuel st i cyc and fuel st cs cyc arbitrary: e pend and pend rule: ev_done_ev_notify.induct)
  case (1 st i cyc)
  then show ?case using ev_graphD(3) [OF 1(1,2)] by simp
next
  case (2 fuel st i cyc)
  let ?st = "st\<lparr>es_events := (es_events st)(i \<mapsto> e\<lparr>ev_state := EV_DONE\<rparr>)\<rparr>"
  have vis: "ev_visit e = Some (ev_kids e)" using ev_visit_ok ev_graphD(2) [OF 2(2,3)] by blast
  have np: "ev_numParents e = 0" using ev_graphD(5) [OF 2(2,3)] 2(4) by auto
  have g: "ev_graph r N ?st (ev_kids e @ pend)" by (rule ev_graph_start [OF 2(2-4)])
  have "out_edges st i = ev_kids e" using 2(3,4) by (simp add: out_edges_def)
  then have "\<forall>c\<in>set (ev_kids e). r i < r c" using 2(2) unfolding ev_graph_def by metis
  then have "\<forall>c\<in>set (ev_kids e). N - r c \<le> fuel" using 2(5) by fastforce
  then obtain st1 where st1: "ev_notify fuel ?st (ev_kids e) (cyc + ucast (ev_postDelay e)) = Some st1" "ev_graph r N st1 pend" "fires {} ?st st1"
    using 2(1) [of e "()" ?st "ev_kids e" pend] 2(3,4) vis g by (auto simp: ev_upd_def)
  have i1: "es_events st1 i = Some (e\<lparr>ev_state := EV_DONE\<rparr>)" using st1(3) np by (simp add: fires_def)
  have "ev_done (Suc fuel) st i cyc = Some (ev_free i st1)" using 2(3,4) vis st1(1) by (simp add: ev_upd_def)
  moreover have "ev_graph r N (ev_free i st1) pend" using ev_graph_free [OF st1(2) i1] by simp
  moreover have "fires {i} st (ev_free i st1)"
  proof -
    note F = firesD [OF st1(3)]
    obtain q where q: "es_enqueued st1 = es_enqueued st @ q" "fired {} ?st st1 q" using F(4) by auto
    note Q = firedD [OF q(2)]
    have ni: "j \<noteq> i" if "(j, c) \<in> set q" for j c using Q(3) [OF that] np by auto
    have "fired {i} st (ev_free i st1) q"
    proof (rule firedI [OF Q(1)])
      show "j \<notin> {i}" if "(j, c) \<in> set q" for j c using ni [OF that] by simp
      show "\<exists>e. es_events st j = Some e \<and> ev_numParents e > 0" if "(j, c) \<in> set q" for j c using Q(3) [OF that] ni [OF that] by simp
      show "\<exists>e. es_events (ev_free i st1) j = Some e \<and> ev_numParents e = 0 \<and> ev_state e = EV_QUEUED \<and> c = ev_cycle e + ucast (ev_preDelay e)"
        if "(j, c) \<in> set q" for j c using Q(4) [OF that] ni [OF that] by (simp add: ev_free_def)
      fix j x assume x: "es_events st j = Some x" "ev_numParents x > 0"
      then have "j \<noteq> i" using 2(3) np by auto
      then have y: "es_events ?st j = Some x" "es_events (ev_free i st1) j = es_events st1 j" using x(1) by (simp_all add: ev_free_def)
      show "es_events (ev_free i st1) j = None \<Longrightarrow> ev_kind x = DelayK" "es_events (ev_free i st1) j = Some x' \<Longrightarrow> ev_kind x' = ev_kind x"
        "es_events (ev_free i st1) j = Some x' \<Longrightarrow> ev_numParents x' = 0 \<Longrightarrow> j \<in> fst ` set q" for x'
        unfolding y(2) by (rule Q(5) [OF y(1) x(2)] Q(6) [OF y(1) x(2)] Q(7) [OF y(1) x(2)]; assumption)+
    qed
    then show ?thesis using F(1-3) q(1) unfolding fires_def by (auto simp: ev_free_def)
  qed
  ultimately show ?case by (simp add: ev_free_def)
next
  case (3 fuel st cyc)
  then show ?case by simp
next
  case (4 fuel st c cs cyc)
  have "es_events st c \<noteq> None" using 4(3) by (simp add: ev_graph_def)
  then obtain e where e: "es_events st c = Some e" by blast
  have g: "ev_graph r N st (c # cs @ pend)" using 4(3) by simp
  have np: "ev_numParents e > 0" "dec32 (ev_numParents e) = ev_numParents e - 1" "ev_state e = EV_NONE"
    using ev_graphD(4,5) [OF g e] by (auto simp: dec32_def)
  define cycle where "cycle = zMAX (ev_cycle e) cyc"
  define e' where "e' = e\<lparr>ev_cycle := cycle, ev_numParents := dec32 (ev_numParents e)\<rparr>"
  have links: "ev_links_ok e" by (rule ev_graphD(2) [OF g e])
  have e': "ev_numParents e' = ev_numParents e - 1" "ev_links_ok e'" "ev_kids e' = ev_kids e" "ev_state e' = EV_NONE" using np links by (simp_all add: e'_def)
  have told: "ev_graph r N (st\<lparr>es_events := (es_events st)(c \<mapsto> e'\<lparr>ev_state := s\<rparr>)\<rparr>) (cs @ pend)"
    if "s \<noteq> EV_DONE" "ev_numParents e' > 0 \<Longrightarrow> s = EV_NONE" for s using ev_graph_told [OF g e, of "e'\<lparr>ev_state := s\<rparr>"] e' that by simp
  let ?tell = "if ev_numParents e' \<noteq> 0 then ev_upd c (\<lambda>_. e') st
           else (case ev_kind e of
               DelayK \<Rightarrow> do {
                 st \<leftarrow> ev_upd c (\<lambda>_. e'\<lparr>ev_state := EV_RUNNING\<rparr>) st;
                 ev_done fuel st c (cycle + ucast (ev_preDelay e)) }
             | OtherK _ \<Rightarrow> do {
                 assert_that (ev_state e = EV_NONE);
                 st \<leftarrow> ev_upd c (\<lambda>_. e'\<lparr>ev_state := EV_QUEUED\<rparr>) st;
                 Some (st\<lparr>es_enqueued := es_enqueued st @ [(c, cycle + ucast (ev_preDelay e))]\<rparr>) })"
  have "\<exists>st1. ?tell = Some st1 \<and> ev_graph r N st1 (cs @ pend) \<and> fires {} st st1"
  proof (cases "ev_numParents e' = 0")
    case False
    have "e'\<lparr>ev_state := EV_NONE\<rparr> = e'" using e'(4) by simp
    then have "ev_graph r N (st\<lparr>es_events := (es_events st)(c \<mapsto> e')\<rparr>) (cs @ pend)" using told [of EV_NONE] by simp
    moreover have "fires {} st (st\<lparr>es_events := (es_events st)(c \<mapsto> e')\<rparr>)" using e np False by (intro fires_none) (auto simp: e'_def)
    ultimately show ?thesis using False e by (simp add: ev_upd_def)
  next
    case z: True
    show ?thesis
    proof (cases "ev_kind e")
      case DelayK
      let ?st = "st\<lparr>es_events := (es_events st)(c \<mapsto> e'\<lparr>ev_state := EV_RUNNING\<rparr>)\<rparr>"
      have gr: "ev_graph r N ?st (cs @ pend)" using told [of EV_RUNNING] z by simp
      have "\<exists>st'. ev_done fuel ?st c (cycle + ucast (ev_preDelay e)) = Some st' \<and> ev_graph r N st' (cs @ pend) \<and> fires {c} ?st st' \<and> es_events st' c = None"
        using 4(1) [OF e cycle_def _ e'_def _ DelayK, of "()" ?st "cs @ pend" "e'\<lparr>ev_state := EV_RUNNING\<rparr>"] gr z np e 4(4) by (simp add: ev_upd_def)
      then obtain st' where st': "ev_done fuel ?st c (cycle + ucast (ev_preDelay e)) = Some st'" "ev_graph r N st' (cs @ pend)" "fires {c} ?st st'" "es_events st' c = None" by blast
      have "fires {} st st'"
      proof -
        note F = firesD [OF st'(3)]
        obtain q where q: "es_enqueued st' = es_enqueued st @ q" "fired {c} ?st st' q" using F(4) by auto
        note Q = firedD [OF q(2)]
        have "fired {} st st' q"
        proof (rule firedI [OF Q(1) _ _ Q(4)])
          show "\<exists>e. es_events st j = Some e \<and> ev_numParents e > 0" if "(j, d) \<in> set q" for j d using Q(2,3) [OF that] by simp
          fix j x assume x: "es_events st j = Some x" "ev_numParents x > 0"
          show "es_events st' j = None \<Longrightarrow> ev_kind x = DelayK" using x Q(5) [of j x] e DelayK by (cases "j = c") auto
          show "es_events st' j = Some x' \<Longrightarrow> ev_kind x' = ev_kind x" "es_events st' j = Some x' \<Longrightarrow> ev_numParents x' = 0 \<Longrightarrow> j \<in> fst ` set q" for x'
            using x Q(6,7) [of j x x'] st'(4) by (cases "j = c"; simp)+
        qed simp
        moreover have "es_events st' j = None" if "es_events st j = None" for j using F(2) [of j] e that by (cases "j = c") auto
        moreover have "es_events st' j = Some x" if "es_events st j = Some x" "ev_numParents x = 0" for j x
          using F(3) [of j x] e np(1) that by (cases "j = c") auto
        ultimately show ?thesis using F(1) q(1) by (auto simp: fires_def)
      qed
      then show ?thesis using z DelayK e st'(1,2) by (simp add: ev_upd_def)
    next
      case (OtherK k)
      let ?st = "st\<lparr>es_events := (es_events st)(c \<mapsto> e'\<lparr>ev_state := EV_QUEUED\<rparr>), es_enqueued := es_enqueued st @ [(c, cycle + ucast (ev_preDelay e))]\<rparr>"
      have "ev_graph r N ?st (cs @ pend)" using told [of EV_QUEUED] z by (simp add: ev_graph_def indeg_def out_edges_def)
      moreover have "fired {} st ?st [(c, cycle + ucast (ev_preDelay e))]"
        using e np(1) z by (intro firedI) (auto simp: e'_def split: if_splits)
      then have "fires {} st ?st" using e np(1) unfolding fires_def by auto
      ultimately show ?thesis using z OtherK e np(3) by (simp add: ev_upd_def)
    qed
  qed
  then obtain st1 where st1: "?tell = Some st1" "ev_graph r N st1 (cs @ pend)" "fires {} st st1" by blast
  obtain st2 where st2: "ev_notify fuel st1 cs cyc = Some st2" "ev_graph r N st2 pend" "fires {} st1 st2"
    using 4(2) [OF e cycle_def _ e'_def st1(1), of "()" pend] st1(2) np(1) 4(4) by auto
  have a: "assert_that (ev_numParents e \<noteq> 0 \<or> ev_kind e = DelayK) = Some ()" using np(1) by simp
  have "ev_notify fuel st (c # cs) cyc = ?tell \<bind> (\<lambda>st. ev_notify fuel st cs cyc)"
    unfolding ev_notify.simps e Option.bind.bind_lunit Let_def cycle_def [symmetric] e'_def [symmetric] a ..
  then have "ev_notify fuel st (c # cs) cyc = Some st2" using st1(1) st2(1) by (simp only: Option.bind.bind_lunit)
  then show ?case using st2(2) fires_trans [OF st1(3) st2(3)] by blast
qed

section \<open>Properties\<close>

fun ev_link_all :: "nat list \<Rightarrow> tev \<Rightarrow> tev option" where
  "ev_link_all [] e = Some e"
| "ev_link_all (c # cs) e = ev_link c e \<bind> ev_link_all cs"

lemma ev_link_all_ok:
  "ev_links_ok e \<Longrightarrow> ev_child e = None \<or> ev_numChildren e = 1 \<Longrightarrow>
    \<exists>e'. ev_link_all cs e = Some e' \<and> ev_links_ok e' \<and> (\<forall>c. count_list (ev_kids e') c = count_list (ev_kids e) c + count_list cs c)"
proof (induction cs arbitrary: e)
  case (Cons x cs)
  obtain e1 where e1: "ev_link x e = Some e1" using ev_link_ok [OF Cons.prems, of x] by blast
  have k: "ev_links_ok e1" "ev_child e1 = None \<or> ev_numChildren e1 = 1" "count_list (ev_kids e1) c = count_list (ev_kids e) c + of_bool (c = x)" for c
    using ev_link_ok [OF Cons.prems, of x c] e1 by auto
  obtain e' where e': "ev_link_all cs e1 = Some e'" "ev_links_ok e'" "\<forall>c. count_list (ev_kids e') c = count_list (ev_kids e1) c + count_list cs c"
    using Cons.IH [OF k(1,2)] by blast
  have "count_list (ev_kids e') c = count_list (ev_kids e) c + count_list (x # cs) c" for c using e'(3) k(3) [of c] by (cases "c = x") auto
  then show ?case using e1 e'(1,2) by auto
qed simp

text \<open>
  Linking children one by one and visiting them. However many children an event is given, in the single pointer or in the chained blocks of three,
  a visit passes its check on the number of children and sees each child as often as it was linked.
\<close>

theorem visit_sees_every_child:
  "\<exists>e cs'. ev_link_all cs (TimingEvent_new k pre post d) = Some e \<and> ev_visit e = Some cs' \<and> (\<forall>c. count_list cs' c = count_list cs c)"
proof -
  have new: "ev_links_ok (TimingEvent_new k pre post d)" "ev_child (TimingEvent_new k pre post d) = None" "ev_kids (TimingEvent_new k pre post d) = []"
    by (simp_all add: TimingEvent_new_def ev_links_ok_def ev_kids_def)
  obtain e where e: "ev_link_all cs (TimingEvent_new k pre post d) = Some e" "ev_links_ok e" "\<forall>c. count_list (ev_kids e) c = count_list cs c"
    using ev_link_all_ok [OF new(1), of cs] new(2,3) by auto
  then show ?thesis using ev_visit_ok [OF e(2)] by blast
qed

text \<open>
  C15. Firing a finished event. In a graph whose parent counts are right and that has a topological numbering below \<open>N\<close>, \<open>done\<close> on a running event returns with
  recursion depth at most \<open>N\<close>: no assertion fails, no event that was freed is touched and no parent count wraps, although delay events finish
  recursively. The event is freed and the graph keeps its invariant, so that the parent count of every event is again the number of its unfinished parents.
  The events that are enqueued, each once and at its cycle plus its delay, are exactly those that waited for parents and now wait for none;
  of the events that waited for parents only delay events are freed, and the other events that waited for none are untouched.
\<close>

theorem event_done_fires_safely:
  assumes "ev_graph r N st []" "es_events st i = Some e" "ev_state e = EV_RUNNING"
  shows "\<exists>st' q. ev_done N st i doneCycle = Some st' \<and> es_events st' i = None \<and> ev_graph r N st' [] \<and>
    es_enqueued st' = es_enqueued st @ q \<and> distinct (map fst q) \<and>
    (\<forall>(j, c)\<in>set q. \<exists>e'. es_events st' j = Some e' \<and> ev_state e' = EV_QUEUED \<and> c = ev_cycle e' + ucast (ev_preDelay e')) \<and>
    (\<forall>j e. es_events st j = Some e \<and> ev_numParents e > 0 \<longrightarrow>
       (case es_events st' j of None \<Rightarrow> ev_kind e = DelayK
        | Some e' \<Rightarrow> ev_kind e' = ev_kind e \<and> (j \<in> fst ` set q \<longleftrightarrow> ev_numParents e' = 0))) \<and>
    (\<forall>j e. j \<noteq> i \<and> es_events st j = Some e \<and> ev_numParents e = 0 \<longrightarrow> es_events st' j = Some e \<and> j \<notin> fst ` set q)"
proof -
  obtain st' where st': "ev_done N st i doneCycle = Some st'" "ev_graph r N st' []" "fires {i} st st'" "es_events st' i = None"
    using ev_done_notify_ok(1) [OF assms, of N doneCycle] by auto
  note F = firesD [OF st'(3)]
  obtain q where q: "es_enqueued st' = es_enqueued st @ q" "fired {i} st st' q" using F(4) by blast
  note Q = firedD [OF q(2)]
  have "case es_events st' j of None \<Rightarrow> ev_kind e = DelayK
        | Some e' \<Rightarrow> ev_kind e' = ev_kind e \<and> (j \<in> fst ` set q \<longleftrightarrow> ev_numParents e' = 0)"
    if "es_events st j = Some e" "ev_numParents e > 0" for j e
  proof (cases "es_events st' j")
    case None
    then show ?thesis using Q(5) [OF that] by simp
  next
    case (Some e')
    have "ev_numParents e' = 0" if "j \<in> fst ` set q"
    proof -
      obtain c where "(j, c) \<in> set q" using \<open>j \<in> fst ` set q\<close> by auto
      then show ?thesis using Q(4) [of j c] Some by auto
    qed
    then show ?thesis using Q(6,7) [OF that Some] Some by auto
  qed
  moreover have "es_events st' j = Some e \<and> j \<notin> fst ` set q" if "j \<noteq> i" "es_events st j = Some e" "ev_numParents e = 0" for j e
    using F(3) [of j e] Q(3) [of j] that by auto
  moreover have "\<exists>e'. es_events st' j = Some e' \<and> ev_state e' = EV_QUEUED \<and> c = ev_cycle e' + ucast (ev_preDelay e')" if "(j, c) \<in> set q" for j c
    using Q(4) [OF that] by blast
  ultimately show ?thesis using st'(1,2,4) q(1) Q(1) by (intro exI [of _ st'] exI [of _ q]) blast
qed

theorem event_done_fires_safely_witness:
  "let e0 = (TimingEvent_new (OtherK 0) 0 4 0)\<lparr>ev_state := EV_RUNNING, ev_numChildren := 1, ev_child := Some 1\<rparr>;
       e1 = (DelayEvent_new 5)\<lparr>ev_numParents := 1, ev_numChildren := 1, ev_child := Some 2\<rparr>;
       e2 = (TimingEvent_new (OtherK 1) 2 0 0)\<lparr>ev_numParents := 1\<rparr>;
       st = \<lparr>es_events = [0 \<mapsto> e0, 1 \<mapsto> e1, 2 \<mapsto> e2], es_next = 3, es_enqueued = []\<rparr>
   in \<exists>st'. ev_done 3 st 0 10 = Some st' \<and> es_events st' 0 = None \<and> ev_graph (\<lambda>i. i) 3 st' [] \<and> es_enqueued st' = [(2, 21)]"
proof -
  let ?e0 = "(TimingEvent_new (OtherK 0) 0 4 0)\<lparr>ev_state := EV_RUNNING, ev_numChildren := 1, ev_child := Some 1\<rparr>"
  let ?e1 = "(DelayEvent_new 5)\<lparr>ev_numParents := 1, ev_numChildren := 1, ev_child := Some 2\<rparr>"
  let ?e2 = "(TimingEvent_new (OtherK 1) 2 0 0)\<lparr>ev_numParents := 1\<rparr>"
  let ?st = "\<lparr>es_events = [0 \<mapsto> ?e0, 1 \<mapsto> ?e1, 2 \<mapsto> ?e2], es_next = 3, es_enqueued = []\<rparr>"
  note new = TimingEvent_new_def DelayEvent_new_def
  have o: "out_edges ?st j = (if j = 0 then [1] else if j = 1 then [2] else [])" for j by (simp add: out_edges_def new ev_kids_def)
  have d: "indeg ?st c = of_bool (c = 1) + of_bool (c = 2)" for c
    unfolding indeg_def o by (simp add: numeral_3_eq_3 eq_commute)
  have g: "ev_graph (\<lambda>i. i) 3 ?st []"
    unfolding ev_graph_def o d by (auto simp: new ev_links_ok_def split: if_splits)
  have r: "ev_state ?e0 = EV_RUNNING" "es_events ?st 0 = Some ?e0" by simp_all
  have "\<exists>st'. ev_done 3 ?st 0 10 = Some st' \<and> es_enqueued st' = [(2, 21)]"
    by (simp add: numeral_3_eq_3 new ev_visit_def ev_upd_def dec32_def ev_free_def)
  then show ?thesis unfolding Let_def using event_done_fires_safely [OF g r(2,1), of 10] by auto
qed

end
