(* ===== verification/PartRepl.thy ===== *)
theory PartRepl
  imports ReplPolicies Complex_Main
begin

text \<open>
  Partitioned replacement (\<^verbatim>\<open>src/part_repl_policies.h\<close>, \<^verbatim>\<open>src/partition_mapper.h\<close>, \<^verbatim>\<open>src/partition_mapper.cpp\<close>): the mappers from requests to
  partitions, way partitioning, and Vantage.

  \<^item> The partition monitor is an argument \<open>macc\<close>, its virtual \<open>access\<close>, on the field that holds its state; the mapper is an argument too.
  \<^item> Line ids, partition ids and sizes in lines are natural numbers (they are bounded by the cache size); \<open>dec\<close> fails where a size would
    wrap around. Timestamps keep their width. The product of the cache size and an allocation fits 32 bits.
  \<^item> The aperture of Vantage is computed in real numbers where the code uses \<open>double\<close>; rounding is not modelled.
  \<^item> \<open>draw n\<close> is the number that \<open>rng.randInt(n)\<close> returns, at most \<open>n\<close>.
\<close>

section \<open>Partition mappers\<close>

type_synonym part_mapper = "mem_req \<Rightarrow> nat option"

definition CorePartMapper :: part_mapper where
  "CorePartMapper req = Some (unat (mr_srcId req))"

definition InstrDataPartMapper :: part_mapper where
  "InstrDataPartMapper req = Some (unat (mr_flags req AND IFETCH))"

definition InstrDataCorePartMapper :: "nat \<Rightarrow> part_mapper" where
  "InstrDataCorePartMapper numCores req =
     Some (unat (mr_srcId req) + (if mr_flags req AND IFETCH \<noteq> 0 then numCores else 0))"

definition ProcessPartMapper :: "nat \<Rightarrow> nat \<Rightarrow> part_mapper" where
  "ProcessPartMapper procIdx numProcs req = do { assert_that (procIdx < numProcs); Some procIdx }"

definition InstrDataProcessPartMapper :: "nat \<Rightarrow> nat \<Rightarrow> part_mapper" where
  "InstrDataProcessPartMapper procIdx numProcs req = do {
     assert_that (procIdx < numProcs);
     Some (procIdx + (if mr_flags req AND IFETCH \<noteq> 0 then numProcs else 0)) }"

definition ProcessGroupPartMapper :: "nat list \<Rightarrow> nat \<Rightarrow> nat \<Rightarrow> part_mapper" where
  "ProcessGroupPartMapper groupIdx procIdx numProcGroups req = do {
     g \<leftarrow> aget groupIdx procIdx;
     assert_that (g < numProcGroups);
     Some g }"

section \<open>Way partitioning\<close>

record part_info =
  pi_size :: nat
  pi_targetSize :: nat
  pi_profHits :: u64
  pi_profMisses :: u64
  pi_profSelfEvictions :: u64
  pi_profExtEvictions :: u64

record waypart_line =
  wl_addr :: Address
  wl_ts :: u64
  wl_p :: nat

record 'm waypart =
  wp_parts :: "part_info list"
  wp_totalSize :: nat
  wp_waySize :: nat
  wp_ways :: nat
  wp_array :: "waypart_line list"
  wp_wayPartIndex :: "nat list"
  wp_testMode :: bool
  wp_bestId :: "nat option"
  wp_candIdx :: nat
  wp_incomingLinePart :: nat
  wp_incomingLineAddr :: Address
  wp_timestamp :: u64
  wp_monitor :: 'm

definition upd_nth :: "nat \<Rightarrow> ('a \<Rightarrow> 'a) \<Rightarrow> 'a list \<Rightarrow> 'a list option" where
  "upd_nth i f xs = do { x \<leftarrow> aget xs i; aset xs i (f x) }"

definition WayPart_new :: "nat \<Rightarrow> nat \<Rightarrow> nat \<Rightarrow> bool \<Rightarrow> 'm \<Rightarrow> 'm waypart option" where
  "WayPart_new partitions lines ways testMode mon = do {
     let waySize = lines div ways;
     assert_that (waySize * ways = lines);
     let idx = map (\<lambda>w. w * partitions div ways) [0..<ways];
     let parts = map (\<lambda>p. \<lparr>pi_size = if p = 0 then lines else 0,
                          pi_targetSize = waySize * count_list idx p,
                          pi_profHits = 0, pi_profMisses = 0, pi_profSelfEvictions = 0, pi_profExtEvictions = 0\<rparr>) [0..<partitions];
     Some \<lparr>wp_parts = parts, wp_totalSize = lines, wp_waySize = waySize, wp_ways = ways,
           wp_array = replicate lines \<lparr>wl_addr = 0, wl_ts = 0, wl_p = 0\<rparr>, wp_wayPartIndex = idx, wp_testMode = testMode,
           wp_bestId = None, wp_candIdx = 0, wp_incomingLinePart = 0, wp_incomingLineAddr = 0, wp_timestamp = 1, wp_monitor = mon\<rparr> }"

definition wp_update :: "('m \<Rightarrow> nat \<Rightarrow> Address \<Rightarrow> 'm option) \<Rightarrow> 'm waypart \<Rightarrow> nat \<Rightarrow> mem_req \<Rightarrow> 'm waypart option" where
  "wp_update macc w i req = do {
     e \<leftarrow> aget (wp_array w) i;
     (parts, p) \<leftarrow> (if wl_ts e > 0 then do {
         parts \<leftarrow> upd_nth (wl_p e) (\<lambda>x. x\<lparr>pi_profHits := pi_profHits x + 1\<rparr>) (wp_parts w);
         Some (parts, wl_p e) }
       else do {
         let oldPart = wl_p e;
         let newPart = wp_incomingLinePart w;
         parts \<leftarrow> (if oldPart \<noteq> newPart then do {
             x \<leftarrow> aget (wp_parts w) oldPart;
             sz \<leftarrow> dec (pi_size x);
             parts \<leftarrow> aset (wp_parts w) oldPart (x\<lparr>pi_size := sz, pi_profExtEvictions := pi_profExtEvictions x + 1\<rparr>);
             upd_nth newPart (\<lambda>x. x\<lparr>pi_size := pi_size x + 1\<rparr>) parts }
           else upd_nth oldPart (\<lambda>x. x\<lparr>pi_profSelfEvictions := pi_profSelfEvictions x + 1\<rparr>) (wp_parts w));
         parts \<leftarrow> upd_nth newPart (\<lambda>x. x\<lparr>pi_profMisses := pi_profMisses x + 1\<rparr>) parts;
         Some (parts, newPart) });
     arr \<leftarrow> aset (wp_array w) i (e\<lparr>wl_p := p, wl_ts := wp_timestamp w\<rparr>);
     mon \<leftarrow> macc (wp_monitor w) p (wl_addr e);
     Some (w\<lparr>wp_parts := parts, wp_array := arr, wp_timestamp := wp_timestamp w + 1, wp_monitor := mon\<rparr>) }"

definition wp_startReplacement :: "part_mapper \<Rightarrow> 'm waypart \<Rightarrow> mem_req \<Rightarrow> 'm waypart option" where
  "wp_startReplacement mapper w req = do {
     assert_that (wp_candIdx w = 0);
     assert_that (wp_bestId w = None);
     p \<leftarrow> mapper req;
     Some (w\<lparr>wp_incomingLinePart := p, wp_incomingLineAddr := mr_lineAddr req\<rparr>) }"

definition wp_better :: "bool \<Rightarrow> nat \<Rightarrow> waypart_line \<Rightarrow> waypart_line \<Rightarrow> bool" where
  "wp_better testMode incoming c best =
     (if testMode \<or> (wl_p c = incoming \<and> wl_p best = incoming) then wl_ts c < wl_ts best
      else if wl_p c = incoming \<and> wl_p best \<noteq> incoming then False
      else if wl_p c \<noteq> incoming \<and> wl_p best = incoming then True
      else wl_ts c < wl_ts best)"

definition wp_recordCandidate :: "'m waypart \<Rightarrow> nat \<Rightarrow> 'm waypart option" where
  "wp_recordCandidate w i = do {
     assert_that (wp_candIdx w < wp_ways w);
     c \<leftarrow> aget (wp_array w) i;
     let way = wp_candIdx w;
     let w = w\<lparr>wp_candIdx := way + 1\<rparr>;
     part \<leftarrow> aget (wp_wayPartIndex w) way;
     if wp_testMode w \<or> part = wp_incomingLinePart w then
       (case wp_bestId w of
          None \<Rightarrow> Some (w\<lparr>wp_bestId := Some i\<rparr>)
        | Some b \<Rightarrow> do {
            best \<leftarrow> aget (wp_array w) b;
            Some (if wp_better (wp_testMode w) (wp_incomingLinePart w) c best then w\<lparr>wp_bestId := Some i\<rparr> else w) })
     else Some w }"

definition wp_getBestCandidate :: "'m waypart \<Rightarrow> ('m waypart \<times> nat) option" where
  "wp_getBestCandidate w = do { b \<leftarrow> wp_bestId w; Some (w, b) }"

definition wp_rank :: "part_mapper \<Rightarrow> 'm waypart \<Rightarrow> mem_req \<Rightarrow> nat list \<Rightarrow> ('m waypart \<times> nat) option" where
  "wp_rank mapper w req cands = do {
     w \<leftarrow> wp_startReplacement mapper w req;
     w \<leftarrow> record_all wp_recordCandidate w cands;
     wp_getBestCandidate w }"

definition wp_replaced :: "'m waypart \<Rightarrow> nat \<Rightarrow> 'm waypart option" where
  "wp_replaced w i = do {
     arr \<leftarrow> upd_nth i (\<lambda>e. e\<lparr>wl_ts := 0, wl_addr := wp_incomingLineAddr w\<rparr>) (wp_array w);
     Some (w\<lparr>wp_candIdx := 0, wp_bestId := None, wp_array := arr\<rparr>) }"

text \<open>Giving the next \<open>n\<close> ways to partition \<open>p\<close>, and then each partition its ways.\<close>

fun wp_assign :: "nat \<Rightarrow> nat \<Rightarrow> nat \<Rightarrow> nat list \<Rightarrow> (nat list \<times> nat) option" where
  "wp_assign p 0 curWay idx = Some (idx, curWay)"
| "wp_assign p (Suc n) curWay idx = do {
     idx \<leftarrow> aset idx curWay p;
     wp_assign p n (curWay + 1) idx }"

fun wp_assign_all :: "'m waypart \<Rightarrow> nat list \<Rightarrow> nat \<Rightarrow> nat \<Rightarrow> nat \<Rightarrow> ('m waypart \<times> nat) option" where
  "wp_assign_all w waysPart p 0 curWay = Some (w, curWay)"
| "wp_assign_all w waysPart p (Suc n) curWay = do {
     k \<leftarrow> aget waysPart p;
     parts \<leftarrow> upd_nth p (\<lambda>x. x\<lparr>pi_targetSize := wp_totalSize w * k div wp_ways w\<rparr>) (wp_parts w);
     (idx, curWay) \<leftarrow> wp_assign p k curWay (wp_wayPartIndex w);
     wp_assign_all (w\<lparr>wp_parts := parts, wp_wayPartIndex := idx\<rparr>) waysPart (p + 1) n curWay }"

definition wp_setPartitionSizes :: "'m waypart \<Rightarrow> nat list \<Rightarrow> 'm waypart option" where
  "wp_setPartitionSizes w waysPart = do {
     (w, curWay) \<leftarrow> wp_assign_all w waysPart 0 (length (wp_parts w)) 0;
     assert_that (curWay = wp_ways w);
     Some w }"

section \<open>Vantage\<close>

record vantage_part =
  vp_size :: nat
  vp_targetSize :: nat
  vp_longTermTargetSize :: nat
  vp_extendedSize :: nat
  vp_curBts :: u64
  vp_curBtsHits :: u32
  vp_setpointBts :: u64
  vp_setpointAdjs :: u64
  vp_curIntervalIns :: u32
  vp_curIntervalDems :: nat
  vp_curIntervalCands :: nat
  vp_profHits :: u64
  vp_profMisses :: u64
  vp_profDemotions :: u64
  vp_profEvictions :: u64
  vp_profSizeCycles :: u64
  vp_profExtendedSizeCycles :: u64

record vantage_line =
  vl_addr :: Address
  vl_ts :: u64
  vl_bts :: u64
  vl_p :: nat
  vl_op :: nat

record 'm vantage =
  va_partitions :: nat
  va_totalSize :: nat
  va_assoc :: nat
  va_parts :: "vantage_part list"
  va_array :: "vantage_line list"
  va_profPromotions :: u64
  va_profUpdateCycles :: u64
  va_cands :: "nat list"
  va_incomingLineAddr :: Address
  va_timestamp :: u64
  va_partSlack :: real
  va_maxAperture :: real
  va_partGranularity :: nat
  va_lastUpdateCycle :: u64
  va_smoothTransients :: bool
  va_monitor :: 'm

definition Vantage_new :: "nat \<Rightarrow> nat \<Rightarrow> nat \<Rightarrow> nat \<Rightarrow> nat \<Rightarrow> nat \<Rightarrow> nat \<Rightarrow> bool \<Rightarrow> 'm \<Rightarrow> 'm vantage option" where
  "Vantage_new partitions lines assoc partPortionPct partSlackPct maxAperturePct partGranularity smooth mon = do {
     assert_that (partPortionPct \<le> 100);
     assert_that (partSlackPct \<le> 100);
     assert_that (maxAperturePct \<le> 100);
     let targetManagedSize = nat \<lfloor>real lines * (real partPortionPct / 100)\<rfloor>;
     let part = (\<lambda>i. \<lparr>vp_size = if i = partitions then lines else 0,
                   vp_targetSize = if i = partitions then 0 else targetManagedSize div partitions,
                   vp_longTermTargetSize = if i = partitions then 0 else targetManagedSize div partitions,
                   vp_extendedSize = if i = partitions then lines else 0,
                   vp_curBts = 0, vp_curBtsHits = 0, vp_setpointBts = 0, vp_setpointAdjs = 0, vp_curIntervalIns = 0,
                   vp_curIntervalDems = 0, vp_curIntervalCands = 0, vp_profHits = 0, vp_profMisses = 0, vp_profDemotions = 0,
                   vp_profEvictions = 0, vp_profSizeCycles = 0, vp_profExtendedSizeCycles = 0\<rparr>);
     Some \<lparr>va_partitions = partitions, va_totalSize = lines, va_assoc = assoc, va_parts = map part [0..<partitions + 1],
           va_array = replicate lines \<lparr>vl_addr = 0, vl_ts = 0, vl_bts = 0, vl_p = partitions, vl_op = partitions\<rparr>,
           va_profPromotions = 0, va_profUpdateCycles = 0, va_cands = [], va_incomingLineAddr = 0, va_timestamp = 1,
           va_partSlack = real partSlackPct / 100, va_maxAperture = real maxAperturePct / 100, va_partGranularity = partGranularity,
           va_lastUpdateCycle = 0, va_smoothTransients = smooth, va_monitor = mon\<rparr> }"

definition va_upd_part :: "nat \<Rightarrow> (vantage_part \<Rightarrow> vantage_part) \<Rightarrow> 'm vantage \<Rightarrow> 'm vantage option" where
  "va_upd_part p f v = do { ps \<leftarrow> upd_nth p f (va_parts v); Some (v\<lparr>va_parts := ps\<rparr>) }"

text \<open>\<open>partInfo[p].size--\<close> and \<open>extendedSize--\<close>.\<close>

definition va_shrink :: "nat \<Rightarrow> 'm vantage \<Rightarrow> 'm vantage option" where
  "va_shrink p v = do {
     x \<leftarrow> aget (va_parts v) p;
     n \<leftarrow> dec (vp_size x);
     va_upd_part p (\<lambda>x. x\<lparr>vp_size := n\<rparr>) v }"

definition va_shrink_ext :: "nat \<Rightarrow> 'm vantage \<Rightarrow> 'm vantage option" where
  "va_shrink_ext p v = do {
     x \<leftarrow> aget (va_parts v) p;
     n \<leftarrow> dec (vp_extendedSize x);
     va_upd_part p (\<lambda>x. x\<lparr>vp_extendedSize := n\<rparr>) v }"

text \<open>The lines of a partition above its long-term target.\<close>

definition lines_over :: "vantage_part \<Rightarrow> nat" where
  "lines_over x = vp_targetSize x - vp_longTermTargetSize x"

fun take_scan :: "nat \<Rightarrow> nat \<Rightarrow> nat \<Rightarrow> nat \<Rightarrow> 'm vantage \<Rightarrow> 'm vantage option" where
  "take_scan l curLines p 0 v = None"
| "take_scan l curLines p (Suc n) v = do {
     x \<leftarrow> aget (va_parts v) p;
     let curLines = curLines + lines_over x;
     if lines_over x > 0 \<and> l < curLines then va_upd_part p (\<lambda>x. x\<lparr>vp_targetSize := vp_targetSize x - 1\<rparr>) v
     else take_scan l curLines (p + 1) n v }"

definition takeOneLine :: "(nat \<Rightarrow> nat) \<Rightarrow> 'm vantage \<Rightarrow> 'm vantage option" where
  "takeOneLine draw v = do {
     assert_that (va_smoothTransients v);
     let linesLeft = sum_list (map lines_over (take (va_partitions v) (va_parts v)));
     assert_that (linesLeft > 0);
     take_scan (draw (linesLeft - 1)) 0 0 (va_partitions v) v }"

definition va_cycles :: "u64 \<Rightarrow> 'm vantage \<Rightarrow> 'm vantage" where
  "va_cycles globPhaseCycles v =
     (if globPhaseCycles > va_lastUpdateCycle v then
        (let diff = globPhaseCycles - va_lastUpdateCycle v
         in v\<lparr>va_parts := map (\<lambda>x. x\<lparr>vp_profSizeCycles := vp_profSizeCycles x + diff * of_nat (vp_size x),
                                vp_profExtendedSizeCycles := vp_profExtendedSizeCycles x + diff * of_nat (vp_extendedSize x)\<rparr>) (va_parts v),
              va_profUpdateCycles := va_profUpdateCycles v + diff, va_lastUpdateCycle := globPhaseCycles\<rparr>)
      else v)"

definition va_update_line :: "part_mapper \<Rightarrow> (nat \<Rightarrow> nat) \<Rightarrow> 'm vantage \<Rightarrow> nat \<Rightarrow> mem_req \<Rightarrow> 'm vantage option" where
  "va_update_line mapper draw v i req = do {
     e \<leftarrow> aget (va_array v) i;
     let ts = va_timestamp v;
     if vl_ts e > 0 then do {
       (v, e) \<leftarrow> (if vl_p e = va_partitions v then do {
           p \<leftarrow> mapper req;
           v \<leftarrow> va_upd_part p (\<lambda>x. x\<lparr>vp_curIntervalIns := vp_curIntervalIns x + 1, vp_size := vp_size x + 1\<rparr>)
                  (v\<lparr>va_profPromotions := va_profPromotions v + 1\<rparr>);
           v \<leftarrow> va_shrink (va_partitions v) v;
           Some (v, e\<lparr>vl_p := p\<rparr>) }
         else Some (v, e));
       arr \<leftarrow> aset (va_array v) i (e\<lparr>vl_ts := ts\<rparr>);
       va_upd_part (vl_p e) (\<lambda>x. x\<lparr>vp_profHits := vp_profHits x + 1\<rparr>) (v\<lparr>va_array := arr, va_timestamp := ts + 1\<rparr>) }
     else do {
       v \<leftarrow> va_shrink (vl_p e) v;
       v \<leftarrow> va_upd_part (vl_p e) (\<lambda>x. x\<lparr>vp_profEvictions := vp_profEvictions x + 1\<rparr>) v;
       v \<leftarrow> va_shrink_ext (vl_op e) v;
       p \<leftarrow> mapper req;
       arr \<leftarrow> aset (va_array v) i (e\<lparr>vl_ts := ts, vl_p := p, vl_op := p\<rparr>);
       v \<leftarrow> va_upd_part p (\<lambda>x. x\<lparr>vp_curIntervalIns := vp_curIntervalIns x + 1, vp_size := vp_size x + 1,
                                vp_extendedSize := vp_extendedSize x + 1, vp_profMisses := vp_profMisses x + 1\<rparr>)
              (v\<lparr>va_array := arr, va_timestamp := ts + 1\<rparr>);
       x \<leftarrow> aget (va_parts v) p;
       if vp_targetSize x < vp_longTermTargetSize x then do {
         assert_that (va_smoothTransients v);
         v \<leftarrow> va_upd_part p (\<lambda>x. x\<lparr>vp_targetSize := vp_targetSize x + 1\<rparr>) v;
         takeOneLine draw v }
       else Some v } }"

definition va_update :: "part_mapper \<Rightarrow> ('m \<Rightarrow> nat \<Rightarrow> Address \<Rightarrow> 'm option) \<Rightarrow> u64 \<Rightarrow> (nat \<Rightarrow> nat) \<Rightarrow> 'm vantage \<Rightarrow> nat \<Rightarrow> mem_req \<Rightarrow> 'm vantage option" where
  "va_update mapper macc globPhaseCycles draw v i req = do {
     v \<leftarrow> va_update_line mapper draw (va_cycles globPhaseCycles v) i req;
     e \<leftarrow> aget (va_array v) i;
     mon \<leftarrow> macc (va_monitor v) (vl_p e) (vl_addr e);
     x \<leftarrow> aget (va_parts v) (vl_p e);
     arr \<leftarrow> aset (va_array v) i (e\<lparr>vl_bts := vp_curBts x\<rparr>);
     let hits = vp_curBtsHits x + 1;
     va_upd_part (vl_p e) (\<lambda>x. if hits \<ge> of_nat (vp_size x) div 16
         then x\<lparr>vp_curBts := vp_curBts x + 1, vp_setpointBts := vp_setpointBts x + 1, vp_curBtsHits := 0\<rparr>
         else x\<lparr>vp_curBtsHits := hits\<rparr>)
       (v\<lparr>va_array := arr, va_monitor := mon\<rparr>) }"

definition va_startReplacement :: "'m vantage \<Rightarrow> mem_req \<Rightarrow> 'm vantage" where
  "va_startReplacement v req = v\<lparr>va_incomingLineAddr := mr_lineAddr req\<rparr>"

definition va_recordCandidate :: "'m vantage \<Rightarrow> nat \<Rightarrow> 'm vantage option" where
  "va_recordCandidate v i = do {
     assert_that (length (va_cands v) < va_assoc v);
     Some (v\<lparr>va_cands := va_cands v @ [i]\<rparr>) }"

text \<open>The aperture, and the change of the setpoint at the end of an interval.\<close>

definition va_aperture :: "'m vantage \<Rightarrow> vantage_part \<Rightarrow> real option" where
  "va_aperture v x =
     (let maxSz = real (vp_targetSize x) * (1 + va_partSlack v); curSz = real (vp_size x)
      in if curSz \<ge> maxSz then Some (va_maxAperture v)
         else do {
           let slope = va_maxAperture v / (maxSz - real (vp_targetSize x));
           assert_that (slope > 0);
           Some (slope * (curSz - real (vp_targetSize x))) })"

definition va_interval :: "'m vantage \<Rightarrow> vantage_part \<Rightarrow> vantage_part option" where
  "va_interval v x = do {
     aperture \<leftarrow> va_aperture v x;
     let shrink = real (vp_curIntervalDems x);
     let goal = aperture * real (vp_curIntervalCands x);
     let x = (if aperture > 0 then
                if shrink < goal then
                  (if vp_setpointBts x < vp_curBts x then x\<lparr>vp_setpointBts := vp_setpointBts x + 1\<rparr> else x)
                else if shrink > goal then
                  (if vp_curBts x - vp_setpointBts x < 255 then x\<lparr>vp_setpointBts := vp_setpointBts x - 1\<rparr> else x)
                else x
              else x);
     Some (x\<lparr>vp_curIntervalCands := 0, vp_curIntervalIns := 0, vp_curIntervalDems := 0, vp_setpointAdjs := vp_setpointAdjs x + 1\<rparr>) }"

text \<open>A line of a partition above its target moves to the unmanaged region when it is older than the setpoint.\<close>

definition va_demote_line :: "'m vantage \<Rightarrow> nat \<Rightarrow> vantage_line \<Rightarrow> 'm vantage option" where
  "va_demote_line v c e = do {
     v \<leftarrow> va_shrink (vl_p e) v;
     v \<leftarrow> va_upd_part (vl_p e) (\<lambda>x. x\<lparr>vp_profDemotions := vp_profDemotions x + 1, vp_curIntervalDems := vp_curIntervalDems x + 1\<rparr>) v;
     arr \<leftarrow> aset (va_array v) c (e\<lparr>vl_p := va_partitions v\<rparr>);
     va_upd_part (va_partitions v) (\<lambda>x. x\<lparr>vp_size := vp_size x + 1\<rparr>) (v\<lparr>va_array := arr\<rparr>) }"

definition va_count_cand :: "'m vantage \<Rightarrow> nat \<Rightarrow> 'm vantage option" where
  "va_count_cand v p = do {
     v \<leftarrow> va_upd_part p (\<lambda>x. x\<lparr>vp_curIntervalCands := vp_curIntervalCands x + 1\<rparr>) v;
     x \<leftarrow> aget (va_parts v) p;
     if vp_curIntervalCands x \<ge> 256 then do {
       x \<leftarrow> va_interval v x;
       va_upd_part p (\<lambda>_. x) v }
     else Some v }"

definition va_demote :: "'m vantage \<Rightarrow> nat \<Rightarrow> 'm vantage option" where
  "va_demote v c = do {
     e \<leftarrow> aget (va_array v) c;
     if vl_ts e = 0 then Some v
     else if vl_p e = va_partitions v then Some v
     else do {
       x \<leftarrow> aget (va_parts v) (vl_p e);
       if vp_size x \<le> vp_targetSize x then Some v
       else do {
         v \<leftarrow> (if (vp_curBts x - vl_bts e) mod 256 \<ge> (vp_curBts x - vp_setpointBts x) mod 256 then va_demote_line v c e else Some v);
         va_count_cand v (vl_p e) } } }"

fun va_demote_all :: "'m vantage \<Rightarrow> nat list \<Rightarrow> 'm vantage option" where
  "va_demote_all v [] = Some v"
| "va_demote_all v (c # cs) = va_demote v c \<bind> (\<lambda>v. va_demote_all v cs)"

definition va_better :: "nat \<Rightarrow> vantage_line \<Rightarrow> vantage_line \<Rightarrow> bool" where
  "va_better unmanaged e best =
     (if vl_p e = unmanaged \<and> vl_p best \<noteq> unmanaged then True
      else if vl_p e = unmanaged \<and> vl_p best = unmanaged then vl_ts e < vl_ts best
      else if vl_p e \<noteq> unmanaged \<and> vl_p best = unmanaged then False
      else vl_ts e < vl_ts best)"

fun va_best :: "'m vantage \<Rightarrow> nat list \<Rightarrow> nat \<Rightarrow> nat option" where
  "va_best v [] bestId = Some bestId"
| "va_best v (c # cs) bestId = do {
     e \<leftarrow> aget (va_array v) c;
     best \<leftarrow> aget (va_array v) bestId;
     if vl_ts e = 0 then Some c
     else va_best v cs (if va_better (va_partitions v) e best then c else bestId) }"

definition va_getBestCandidate :: "'m vantage \<Rightarrow> ('m vantage \<times> nat) option" where
  "va_getBestCandidate v = do {
     assert_that (va_cands v \<noteq> []);
     assert_that (length (va_cands v) \<le> va_assoc v);
     v \<leftarrow> va_demote_all v (va_cands v);
     b \<leftarrow> va_best v (va_cands v) (hd (va_cands v));
     assert_that (b < va_totalSize v);
     Some (v, b) }"

definition va_rank :: "'m vantage \<Rightarrow> mem_req \<Rightarrow> nat list \<Rightarrow> ('m vantage \<times> nat) option" where
  "va_rank = legacy_rank va_startReplacement va_recordCandidate va_getBestCandidate"

definition va_replaced :: "'m vantage \<Rightarrow> nat \<Rightarrow> 'm vantage option" where
  "va_replaced v i = do {
     arr \<leftarrow> upd_nth i (\<lambda>e. e\<lparr>vl_ts := 0, vl_bts := 0, vl_addr := va_incomingLineAddr v\<rparr>) (va_array v);
     Some (v\<lparr>va_cands := [], va_array := arr\<rparr>) }"

text \<open>New target sizes; with smooth transients a growing partition only gets a step of its growth, taken line by line from the others.\<close>

fun va_set_targets :: "nat list \<Rightarrow> nat \<Rightarrow> nat \<Rightarrow> nat \<Rightarrow> 'm vantage \<Rightarrow> ('m vantage \<times> nat) option" where
  "va_set_targets sizes p 0 away v = Some (v, away)"
| "va_set_targets sizes p (Suc n) away v = do {
     k \<leftarrow> aget sizes p;
     x \<leftarrow> aget (va_parts v) p;
     let s = va_totalSize v * k div va_partGranularity v;
     let newTarget = (if va_smoothTransients v then
                        if s > vp_targetSize x then max (vp_targetSize x) (min s (vp_size x + 1)) else vp_targetSize x
                      else s);
     let grown = (if va_smoothTransients v then newTarget - vp_targetSize x else 0);
     v \<leftarrow> va_upd_part p (\<lambda>x. x\<lparr>vp_longTermTargetSize := s, vp_targetSize := newTarget\<rparr>) v;
     va_set_targets sizes (p + 1) n (away + grown) v }"

fun take_lines :: "(nat \<Rightarrow> nat \<Rightarrow> nat) \<Rightarrow> nat \<Rightarrow> 'm vantage \<Rightarrow> 'm vantage option" where
  "take_lines draw 0 v = Some v"
| "take_lines draw (Suc n) v = takeOneLine (draw n) v \<bind> take_lines draw n"

definition va_setPartitionSizes :: "(nat \<Rightarrow> nat \<Rightarrow> nat) \<Rightarrow> 'm vantage \<Rightarrow> nat list \<Rightarrow> 'm vantage option" where
  "va_setPartitionSizes draw v sizes = do {
     (v, away) \<leftarrow> va_set_targets sizes 0 (va_partitions v) 0 v;
     take_lines draw away v }"

section \<open>Way partitioning: invariant\<close>

definition cnt :: "('a \<Rightarrow> nat) \<Rightarrow> nat \<Rightarrow> 'a list \<Rightarrow> nat" where
  "cnt f i xs = length (filter (\<lambda>x. f x = i) xs)"

lemma cnt_update: "k < length xs \<Longrightarrow> cnt f i (xs[k := v]) + of_bool (f (xs ! k) = i) = cnt f i xs + of_bool (f v = i)"
  unfolding cnt_def by (rule count_filter_update)

lemma cnt_update_same: "k < length xs \<Longrightarrow> f v = f (xs ! k) \<Longrightarrow> cnt f i (xs[k := v]) = cnt f i xs"
  using cnt_update [of k xs f i v] by simp

lemma cnt_pos: "k < length xs \<Longrightarrow> cnt f (f (xs ! k)) xs > 0"
  unfolding cnt_def using nth_mem [of k xs] by (auto simp: filter_empty_conv)

lemma upd_nth_ok [simp]: "i < length xs \<Longrightarrow> upd_nth i f xs = Some (xs[i := f (xs ! i)])"
  by (simp add: upd_nth_def)

definition wp_inv :: "'m waypart \<Rightarrow> bool" where
  "wp_inv w \<longleftrightarrow> length (wp_array w) = wp_totalSize w \<and> length (wp_wayPartIndex w) = wp_ways w \<and>
     wp_incomingLinePart w < length (wp_parts w) \<and> (\<forall>e\<in>set (wp_array w). wl_p e < length (wp_parts w)) \<and>
     (\<forall>p < length (wp_parts w). pi_size (wp_parts w ! p) = cnt wl_p p (wp_array w))"

definition wp_ready :: "'m waypart \<Rightarrow> bool" where
  "wp_ready w \<longleftrightarrow> wp_candIdx w = 0 \<and> wp_bestId w = None"

definition wp_allowed :: "'m waypart \<Rightarrow> nat \<Rightarrow> bool" where
  "wp_allowed w way \<longleftrightarrow> wp_testMode w \<or> wp_wayPartIndex w ! way = wp_incomingLinePart w"

text \<open>A candidate is better when its key is smaller: lines of other partitions first, then the older.\<close>

definition wp_key :: "bool \<Rightarrow> nat \<Rightarrow> waypart_line \<Rightarrow> nat" where
  "wp_key testMode incoming e = of_bool (\<not> testMode \<and> wl_p e = incoming) * 2 ^ 64 + unat (wl_ts e)"

lemma wp_better_key: "wp_better tm inc c b \<longleftrightarrow> wp_key tm inc c < wp_key tm inc b"
proof -
  have "unat (wl_ts c) < 2 ^ 64" "unat (wl_ts b) < 2 ^ 64" by (rule order_less_le_trans [OF unsigned_less], simp)+
  then show ?thesis by (auto simp: wp_better_def wp_key_def word_less_nat_alt)
qed

abbreviation wp_key_of :: "'m waypart \<Rightarrow> nat \<Rightarrow> nat" where
  "wp_key_of w i \<equiv> wp_key (wp_testMode w) (wp_incomingLinePart w) (wp_array w ! i)"

lemma wp_record_all:
  assumes "length (wp_wayPartIndex w) = wp_ways w" "wp_candIdx w + length cs \<le> wp_ways w" "\<forall>c\<in>set cs. c < length (wp_array w)"
    "\<forall>b. wp_bestId w = Some b \<longrightarrow> b < length (wp_array w)"
  shows "\<exists>b. record_all wp_recordCandidate w cs = Some (w\<lparr>wp_candIdx := wp_candIdx w + length cs, wp_bestId := b\<rparr>) \<and>
    (\<forall>x. wp_bestId w = Some x \<longrightarrow> (\<exists>y. b = Some y \<and> wp_key_of w y \<le> wp_key_of w x)) \<and>
    (\<forall>j < length cs. wp_allowed w (wp_candIdx w + j) \<longrightarrow> (\<exists>y. b = Some y \<and> wp_key_of w y \<le> wp_key_of w (cs ! j))) \<and>
    (\<forall>y. b = Some y \<longrightarrow> wp_bestId w = Some y \<or> (\<exists>j < length cs. wp_allowed w (wp_candIdx w + j) \<and> y = cs ! j))"
  using assms
proof (induction cs arbitrary: w)
  case Nil
  have "w\<lparr>wp_candIdx := wp_candIdx w, wp_bestId := wp_bestId w\<rparr> = w" by simp
  then show ?case by (intro exI [of _ "wp_bestId w"]) simp
next
  case (Cons c cs)
  let ?k = "wp_candIdx w"
  define b1 where "b1 = (if wp_allowed w ?k then (case wp_bestId w of None \<Rightarrow> Some c
      | Some x \<Rightarrow> if wp_key_of w c < wp_key_of w x then Some c else Some x) else wp_bestId w)"
  define w1 where "w1 = w\<lparr>wp_candIdx := ?k + 1, wp_bestId := b1\<rparr>"
  have c: "c < length (wp_array w)" "?k < wp_ways w" using Cons.prems by simp_all
  have w1: "wp_recordCandidate w c = Some w1"
    using c Cons.prems(1,4) by (auto simp: wp_recordCandidate_def w1_def b1_def wp_allowed_def wp_better_key split: option.splits)
  have "\<forall>b. b1 = Some b \<longrightarrow> b < length (wp_array w)" using c(1) Cons.prems(4) by (auto simp: b1_def split: option.splits if_splits)
  then obtain b where b: "record_all wp_recordCandidate w1 cs = Some (w1\<lparr>wp_candIdx := wp_candIdx w1 + length cs, wp_bestId := b\<rparr>)"
    "\<forall>x. b1 = Some x \<longrightarrow> (\<exists>y. b = Some y \<and> wp_key_of w y \<le> wp_key_of w x)"
    "\<forall>j < length cs. wp_allowed w (?k + 1 + j) \<longrightarrow> (\<exists>y. b = Some y \<and> wp_key_of w y \<le> wp_key_of w (cs ! j))"
    "\<forall>y. b = Some y \<longrightarrow> b1 = Some y \<or> (\<exists>j < length cs. wp_allowed w (?k + 1 + j) \<and> y = cs ! j)"
    using Cons.IH [of w1] Cons.prems(1-3) by (fastforce simp: w1_def wp_allowed_def)
  have old: "\<exists>y. b1 = Some y \<and> wp_key_of w y \<le> wp_key_of w x" if "wp_bestId w = Some x" for x using that by (auto simp: b1_def)
  have new: "\<exists>y. b1 = Some y \<and> wp_key_of w y \<le> wp_key_of w c" if "wp_allowed w ?k" using that by (auto simp: b1_def split: option.splits)
  have "record_all wp_recordCandidate w (c # cs) = Some (w\<lparr>wp_candIdx := ?k + length (c # cs), wp_bestId := b\<rparr>)"
    using w1 b(1) by (simp add: w1_def)
  moreover have down: "\<exists>y. b = Some y \<and> wp_key_of w y \<le> wp_key_of w x" if h: "\<exists>y. b1 = Some y \<and> wp_key_of w y \<le> wp_key_of w x" for x
  proof -
    obtain y1 where y1: "b1 = Some y1" "wp_key_of w y1 \<le> wp_key_of w x" using h by blast
    then obtain y where "b = Some y" "wp_key_of w y \<le> wp_key_of w y1" using b(2) by blast
    then show ?thesis using y1(2) by (auto intro: order_trans)
  qed
  then have "\<exists>y. b = Some y \<and> wp_key_of w y \<le> wp_key_of w x" if "wp_bestId w = Some x" for x using old [OF that] by blast
  moreover have "\<exists>y. b = Some y \<and> wp_key_of w y \<le> wp_key_of w ((c # cs) ! j)" if "j < length (c # cs)" "wp_allowed w (?k + j)" for j
  proof (cases j)
    case 0
    then show ?thesis using new that down [of c] by simp
  next
    case (Suc i)
    then show ?thesis using that b(3) by simp
  qed
  moreover have "wp_bestId w = Some y \<or> (\<exists>j < length (c # cs). wp_allowed w (?k + j) \<and> y = (c # cs) ! j)" if "b = Some y" for y
  proof -
    have "b1 = Some y \<or> (\<exists>j < length cs. wp_allowed w (?k + 1 + j) \<and> y = cs ! j)" using b(4) that by blast
    then show ?thesis
    proof
      assume "b1 = Some y"
      then have "wp_bestId w = Some y \<or> wp_allowed w ?k \<and> y = c" by (auto simp: b1_def split: option.splits if_splits)
      then show ?thesis by force
    next
      assume "\<exists>j < length cs. wp_allowed w (?k + 1 + j) \<and> y = cs ! j"
      then show ?thesis by force
    qed
  qed
  ultimately show ?case by blast
qed

lemma wp_update_ok:
  assumes inv: "wp_inv w" and i: "i < wp_totalSize w" and mon: "\<And>m p a. \<exists>m'. macc m p a = Some m'"
  shows "\<exists>w'. wp_update macc w i req = Some w' \<and> wp_inv w' \<and> wp_candIdx w' = wp_candIdx w \<and> wp_bestId w' = wp_bestId w \<and>
    wp_wayPartIndex w' = wp_wayPartIndex w \<and> length (wp_parts w') = length (wp_parts w) \<and> wp_totalSize w' = wp_totalSize w \<and>
    wl_p (wp_array w' ! i) = (if wl_ts (wp_array w ! i) > 0 then wl_p (wp_array w ! i) else wp_incomingLinePart w)"
proof -
  let ?e = "wp_array w ! i" let ?n = "wp_incomingLinePart w" let ?ps = "wp_parts w"
  have l: "i < length (wp_array w)" "wl_p ?e < length ?ps" "?n < length ?ps"
    and sz: "\<And>p. p < length ?ps \<Longrightarrow> pi_size (?ps ! p) = cnt wl_p p (wp_array w)"
    using inv i by (simp_all add: wp_inv_def)
  define p where "p = (if wl_ts ?e > 0 then wl_p ?e else ?n)"
  define arr where "arr = (wp_array w)[i := ?e\<lparr>wl_p := p, wl_ts := wp_timestamp w\<rparr>]"
  have pos: "pi_size (?ps ! wl_p ?e) > 0" using sz [OF l(2)] cnt_pos [OF l(1), of wl_p] by simp
  have c: "cnt wl_p q arr + of_bool (wl_p ?e = q) = cnt wl_p q (wp_array w) + of_bool (p = q)" for q
    using cnt_update [OF l(1), of wl_p q] by (simp add: arr_def)
  have arr_ok: "e \<in> set arr \<Longrightarrow> wl_p e < length ?ps" for e
    using inv l p_def set_update_subset_insert [of "wp_array w" i] unfolding arr_def wp_inv_def by fastforce
  obtain mon' where m: "macc (wp_monitor w) p (wl_addr ?e) = Some mon'" using mon by blast
  let ?w = "\<lambda>ps. w\<lparr>wp_parts := ps, wp_array := arr, wp_timestamp := wp_timestamp w + 1, wp_monitor := mon'\<rparr>"
  have inv': "wp_inv (?w ps)" if "length ps = length ?ps" "\<And>q. q < length ?ps \<Longrightarrow> pi_size (ps ! q) = cnt wl_p q arr" for ps
    using that inv arr_ok by (auto simp: wp_inv_def arr_def)
  have "\<exists>ps. wp_update macc w i req = Some (?w ps) \<and> length ps = length ?ps \<and> (\<forall>q < length ?ps. pi_size (ps ! q) = cnt wl_p q arr)"
  proof (cases "wl_ts ?e > 0")
    case True
    then have "p = wl_p ?e" by (simp add: p_def)
    then show ?thesis using True l m c sz by (auto simp: wp_update_def arr_def nth_list_update)
  next
    case False
    then have p: "p = ?n" by (simp add: p_def)
    show ?thesis
    proof (cases "wl_p ?e = ?n")
      case True
      then show ?thesis using False l m c sz p by (auto simp: wp_update_def arr_def nth_list_update Let_def)
    next
      case neq: False
      let ?ps1 = "?ps[wl_p ?e := (?ps ! wl_p ?e)\<lparr>pi_size := pi_size (?ps ! wl_p ?e) - 1, pi_profExtEvictions := pi_profExtEvictions (?ps ! wl_p ?e) + 1\<rparr>]"
      let ?ps2 = "?ps1[?n := (?ps1 ! ?n)\<lparr>pi_size := pi_size (?ps1 ! ?n) + 1\<rparr>]"
      let ?ps3 = "?ps2[?n := (?ps2 ! ?n)\<lparr>pi_profMisses := pi_profMisses (?ps2 ! ?n) + 1\<rparr>]"
      have "wp_update macc w i req = Some (?w ?ps3)"
        using False neq l m p pos by (simp add: wp_update_def arr_def Let_def)
      moreover have "pi_size (?ps3 ! q) = cnt wl_p q arr" if "q < length ?ps" for q
        using that sz [OF that] c [of q] l neq p pos by (auto simp: nth_list_update)
      ultimately show ?thesis by (intro exI [of _ ?ps3]) simp
    qed
  qed
  moreover have "wl_p (arr ! i) = p" using l(1) by (simp add: arr_def)
  ultimately show ?thesis using inv' p_def by fastforce
qed

lemma wp_replaced_ok:
  assumes inv: "wp_inv w" and i: "i < wp_totalSize w"
  shows "\<exists>w'. wp_replaced w i = Some w' \<and> wp_inv w' \<and> wp_ready w' \<and> wl_ts (wp_array w' ! i) = 0 \<and> wp_totalSize w' = wp_totalSize w \<and>
    wp_incomingLinePart w' = wp_incomingLinePart w"
proof -
  let ?v = "(wp_array w ! i)\<lparr>wl_ts := 0, wl_addr := wp_incomingLineAddr w\<rparr>"
  have l: "i < length (wp_array w)" using inv i by (simp add: wp_inv_def)
  have "cnt wl_p p ((wp_array w)[i := ?v]) = cnt wl_p p (wp_array w)" for p using l by (intro cnt_update_same) simp_all
  moreover have "\<forall>e\<in>set ((wp_array w)[i := ?v]). wl_p e < length (wp_parts w)"
    using inv l set_update_subset_insert [of "wp_array w" i ?v] unfolding wp_inv_def by (fastforce dest: nth_mem)
  ultimately show ?thesis using inv l by (simp add: wp_replaced_def wp_inv_def wp_ready_def)
qed

lemma wp_rank_ok:
  assumes inv: "wp_inv w" and ready: "wp_ready w" and mode: "\<not> wp_testMode w" and cands: "length cands = wp_ways w" "\<forall>c\<in>set cands. c < wp_totalSize w"
    and q: "mapper req = Some q" "q \<in> set (wp_wayPartIndex w)" "q < length (wp_parts w)"
  shows "\<exists>w' v way. wp_rank mapper w req cands = Some (w', v) \<and> way < wp_ways w \<and> v = cands ! way \<and> wp_wayPartIndex w ! way = q \<and>
    (\<forall>j < wp_ways w. wp_wayPartIndex w ! j = q \<longrightarrow> wp_key False q (wp_array w ! v) \<le> wp_key False q (wp_array w ! (cands ! j))) \<and>
    wp_inv w' \<and> wp_incomingLinePart w' = q \<and> wp_totalSize w' = wp_totalSize w"
proof -
  let ?w = "w\<lparr>wp_incomingLinePart := q, wp_incomingLineAddr := mr_lineAddr req\<rparr>"
  have start: "wp_startReplacement mapper w req = Some ?w" using ready q(1) by (simp add: wp_startReplacement_def wp_ready_def)
  have len: "length (wp_wayPartIndex w) = wp_ways w" "length (wp_array w) = wp_totalSize w" using inv by (simp_all add: wp_inv_def)
  have al: "wp_allowed ?w j \<longleftrightarrow> wp_wayPartIndex w ! j = q" for j using mode by (simp add: wp_allowed_def)
  obtain b where b: "record_all wp_recordCandidate ?w cands = Some (?w\<lparr>wp_candIdx := wp_candIdx ?w + length cands, wp_bestId := b\<rparr>)"
    "\<forall>j < length cands. wp_allowed ?w (wp_candIdx ?w + j) \<longrightarrow> (\<exists>y. b = Some y \<and> wp_key_of ?w y \<le> wp_key_of ?w (cands ! j))"
    "\<forall>y. b = Some y \<longrightarrow> wp_bestId ?w = Some y \<or> (\<exists>j < length cands. wp_allowed ?w (wp_candIdx ?w + j) \<and> y = cands ! j)"
    using wp_record_all [of ?w cands] len cands ready unfolding wp_ready_def by auto
  obtain j0 where "j0 < wp_ways w" "wp_wayPartIndex w ! j0 = q" using q(2) len(1) by (auto simp: in_set_conv_nth)
  then obtain v where v: "b = Some v" using b(2) cands(1) ready al by (auto simp: wp_ready_def)
  then obtain way where way: "way < wp_ways w" "wp_wayPartIndex w ! way = q" "v = cands ! way"
    using b(3) cands(1) ready al by (auto simp: wp_ready_def)
  have "wp_rank mapper w req cands = Some (?w\<lparr>wp_candIdx := wp_candIdx ?w + length cands, wp_bestId := b\<rparr>, v)"
    using start b(1) v by (simp add: wp_rank_def wp_getBestCandidate_def)
  moreover have "wp_key False q (wp_array w ! v) \<le> wp_key False q (wp_array w ! (cands ! j))" if "j < wp_ways w" "wp_wayPartIndex w ! j = q" for j
    using b(2) that v cands(1) ready al mode by (simp add: wp_ready_def)
  moreover have "wp_inv (?w\<lparr>wp_candIdx := wp_candIdx ?w + length cands, wp_bestId := b\<rparr>)" using inv q(3) by (simp add: wp_inv_def)
  ultimately show ?thesis using way by fastforce
qed

text \<open>
  C27. Way partitioning isolates the partitions. When a request of partition \<open>q\<close> misses and \<open>q\<close> owns a way, \<open>rank\<close> fails no assertion and returns a
  candidate in a way of \<open>q\<close>, so no other partition loses a line that is in its own ways; among those it takes lines of other
  partitions first and then the least recently used. The replacement then completes, the recorded size of every
  partition is again the number of its lines, and the new line belongs to \<open>q\<close>.
\<close>

theorem way_partition_isolates:
  assumes "wp_inv w" "wp_ready w" "\<not> wp_testMode w" "length cands = wp_ways w" "\<forall>c\<in>set cands. c < wp_totalSize w"
    and "mapper req = Some q" "q \<in> set (wp_wayPartIndex w)" "q < length (wp_parts w)" "\<And>m p a. \<exists>m'. macc m p a = Some m'"
  shows "\<exists>w1 w2 w3 v way. wp_rank mapper w req cands = Some (w1, v) \<and> way < wp_ways w \<and> v = cands ! way \<and> wp_wayPartIndex w ! way = q \<and>
    (\<forall>j < wp_ways w. wp_wayPartIndex w ! j = q \<longrightarrow> wp_key False q (wp_array w ! v) \<le> wp_key False q (wp_array w ! (cands ! j))) \<and>
    wp_replaced w1 v = Some w2 \<and> wp_update macc w2 v req = Some w3 \<and> wp_inv w3 \<and> wp_ready w3 \<and> wl_p (wp_array w3 ! v) = q"
proof -
  obtain w1 v way where r: "wp_rank mapper w req cands = Some (w1, v)" "way < wp_ways w" "v = cands ! way" "wp_wayPartIndex w ! way = q"
    "\<forall>j < wp_ways w. wp_wayPartIndex w ! j = q \<longrightarrow> wp_key False q (wp_array w ! v) \<le> wp_key False q (wp_array w ! (cands ! j))"
    "wp_inv w1" "wp_incomingLinePart w1 = q" "wp_totalSize w1 = wp_totalSize w" using wp_rank_ok [OF assms(1-5), of mapper req q] assms(6-8) by blast
  have v: "v < wp_totalSize w1" using r(2,3,8) assms(4,5) by simp
  obtain w2 where w2: "wp_replaced w1 v = Some w2" "wp_inv w2" "wp_ready w2" "wl_ts (wp_array w2 ! v) = 0" "wp_totalSize w2 = wp_totalSize w1"
    "wp_incomingLinePart w2 = q" using wp_replaced_ok [OF r(6) v] r(7) by blast
  have v2: "v < wp_totalSize w2" using v w2(5) by simp
  obtain w3 where "wp_update macc w2 v req = Some w3" "wp_inv w3" "wp_ready w3" "wl_p (wp_array w3 ! v) = q"
    using wp_update_ok [OF w2(2) v2, of macc req] assms(9) w2(3,4,6) by (auto simp: wp_ready_def)
  then show ?thesis using r w2(1) by blast
qed

lemma wp_new_inv:
  assumes "WayPart_new partitions lines ways testMode mon = Some w" "0 < partitions" "0 < ways"
  shows "wp_inv w \<and> wp_ready w \<and> wp_totalSize w = lines \<and> wp_ways w = ways \<and> length (wp_parts w) = partitions \<and> wp_testMode w = testMode \<and>
    wp_wayPartIndex w = map (\<lambda>w. w * partitions div ways) [0..<ways]"
  using assms by (auto simp: WayPart_new_def Let_def wp_inv_def wp_ready_def cnt_def split: bind_splits)

theorem way_partition_isolates_witness:
  "\<exists>w w1 v way. WayPart_new 2 8 4 False () = Some w \<and> way < 4 \<and> v = [0, 2, 4, 6] ! way \<and> wp_wayPartIndex w ! way = 1 \<and>
     wp_rank (ProcessPartMapper 1 2) w any_req [0, 2, 4, 6] = Some (w1, v)"
proof -
  have "\<exists>w. WayPart_new 2 8 4 False () = Some w" by (simp add: WayPart_new_def Let_def)
  then obtain w where w: "WayPart_new 2 8 4 False () = Some w" by blast
  note n = wp_new_inv [OF w]
  have idx: "wp_wayPartIndex w = [0, 0, 1, 1]" using n by (simp add: upt_rec)
  have p: "ProcessPartMapper 1 2 any_req = Some 1" by (simp add: ProcessPartMapper_def)
  have h: "wp_inv w" "wp_ready w" "\<not> wp_testMode w" "length [0, 2, 4, 6 :: nat] = wp_ways w" "\<forall>c\<in>set [0, 2, 4, 6]. c < wp_totalSize w"
    "1 < length (wp_parts w)" using n by simp_all
  have q: "1 \<in> set (wp_wayPartIndex w)" unfolding idx by simp
  show ?thesis using way_partition_isolates [OF h(1-5), of "ProcessPartMapper 1 2" any_req 1 "\<lambda>m p a. Some m"] p q h(6) w n by auto
qed

section \<open>Vantage: invariant\<close>

definition targets :: "'m vantage \<Rightarrow> nat list" where
  "targets v = take (va_partitions v) (map vp_targetSize (va_parts v))"

definition long_targets :: "'m vantage \<Rightarrow> nat list" where
  "long_targets v = take (va_partitions v) (map vp_longTermTargetSize (va_parts v))"

definition va_counts :: "'m vantage \<Rightarrow> bool" where
  "va_counts v \<longleftrightarrow> length (va_parts v) = Suc (va_partitions v) \<and> length (va_array v) = va_totalSize v \<and>
     (\<forall>i < va_totalSize v. vl_p (va_array v ! i) \<le> va_partitions v \<and> vl_op (va_array v ! i) \<le> va_partitions v) \<and>
     (\<forall>q \<le> va_partitions v. vp_size (va_parts v ! q) = cnt vl_p q (va_array v) \<and> vp_extendedSize (va_parts v ! q) = cnt vl_op q (va_array v))"

text \<open>The target sizes leave room for the long-term targets; without smooth transients they are equal.\<close>

definition va_targets :: "'m vantage \<Rightarrow> bool" where
  "va_targets v \<longleftrightarrow> sum_list (long_targets v) \<le> sum_list (targets v) \<and> (\<not> va_smoothTransients v \<longrightarrow> targets v = long_targets v)"

definition va_inv :: "'m vantage \<Rightarrow> bool" where
  "va_inv v \<longleftrightarrow> va_counts v \<and> va_targets v \<and> va_maxAperture v > 0 \<and> va_partSlack v \<ge> 0"

text \<open>What stays fixed.\<close>

definition va_setup :: "'m vantage \<Rightarrow> 'm vantage \<Rightarrow> bool" where
  "va_setup v v' \<longleftrightarrow> va_partitions v' = va_partitions v \<and> va_totalSize v' = va_totalSize v \<and> va_assoc v' = va_assoc v \<and>
     va_maxAperture v' = va_maxAperture v \<and> va_partSlack v' = va_partSlack v \<and> va_smoothTransients v' = va_smoothTransients v \<and>
     va_partGranularity v' = va_partGranularity v"

lemma va_setup_refl [simp]: "va_setup v v"
  by (simp add: va_setup_def)

lemma va_setup_trans: "va_setup u v \<Longrightarrow> va_setup v w \<Longrightarrow> va_setup u w"
  by (simp add: va_setup_def)

lemma va_upd_part_ok [simp]: "p < length (va_parts v) \<Longrightarrow> va_upd_part p f v = Some (v\<lparr>va_parts := (va_parts v)[p := f (va_parts v ! p)]\<rparr>)"
  by (simp add: va_upd_part_def)

lemma va_shrink_ok [simp]: "p < length (va_parts v) \<Longrightarrow> vp_size (va_parts v ! p) > 0 \<Longrightarrow>
    va_shrink p v = Some (v\<lparr>va_parts := (va_parts v)[p := (va_parts v ! p)\<lparr>vp_size := vp_size (va_parts v ! p) - 1\<rparr>]\<rparr>)"
  by (simp add: va_shrink_def)

lemma va_shrink_ext_ok [simp]: "p < length (va_parts v) \<Longrightarrow> vp_extendedSize (va_parts v ! p) > 0 \<Longrightarrow>
    va_shrink_ext p v = Some (v\<lparr>va_parts := (va_parts v)[p := (va_parts v ! p)\<lparr>vp_extendedSize := vp_extendedSize (va_parts v ! p) - 1\<rparr>]\<rparr>)"
  by (simp add: va_shrink_ext_def)

section \<open>Vantage: target sizes\<close>

lemma sum_list_take_update:
  fixes xs :: "nat list"
  assumes "q < n" "q < length xs"
  shows "sum_list (take n (xs[q := y])) + xs ! q = sum_list (take n xs) + y"
proof -
  have "take n (xs[q := y]) = (take n xs)[q := y]" by (rule take_update_swap)
  then show ?thesis using sum_list_update_nat [of q "take n xs" y] assms by simp
qed

lemma sum_list_diff_le:
  fixes xs ys :: "nat list"
  assumes "length xs = length ys"
  shows "sum_list xs \<le> sum_list ys + sum_list (map2 (-) xs ys)"
  using assms by (induction xs ys rule: list_induct2) auto

lemma take_scan_ok:
  assumes "p + n = va_partitions v" "va_partitions v < length (va_parts v)" "curLines \<le> l"
    "l < curLines + sum_list (map lines_over (take n (drop p (va_parts v))))"
  shows "\<exists>q. q < va_partitions v \<and> lines_over (va_parts v ! q) > 0 \<and>
    take_scan l curLines p n v = Some (v\<lparr>va_parts := (va_parts v)[q := (va_parts v ! q)\<lparr>vp_targetSize := vp_targetSize (va_parts v ! q) - 1\<rparr>]\<rparr>)"
  using assms
proof (induction n arbitrary: p curLines)
  case (Suc n)
  let ?x = "va_parts v ! p"
  have p: "p < length (va_parts v)" "p < va_partitions v" using Suc.prems by simp_all
  have "drop p (va_parts v) = ?x # drop (Suc p) (va_parts v)" using p(1) by (simp add: Cons_nth_drop_Suc)
  then have sum: "sum_list (map lines_over (take (Suc n) (drop p (va_parts v)))) = lines_over ?x + sum_list (map lines_over (take n (drop (Suc p) (va_parts v))))"
    by simp
  show ?case
  proof (cases "lines_over ?x > 0 \<and> l < curLines + lines_over ?x")
    case True
    then show ?thesis using p by (intro exI [of _ p]) (simp add: Let_def)
  next
    case False
    then have "curLines + lines_over ?x \<le> l" using Suc.prems(3) by auto
    then show ?thesis using Suc.IH [of "Suc p" "curLines + lines_over ?x"] Suc.prems False p sum by (auto simp: Let_def add.assoc)
  qed
qed simp

lemma takeOneLine_ok:
  assumes "length (va_parts v) = Suc (va_partitions v)" "va_smoothTransients v" "sum_list (long_targets v) < sum_list (targets v)"
    and draw: "\<forall>n. draw n \<le> n"
  shows "\<exists>q. q < va_partitions v \<and> vp_targetSize (va_parts v ! q) > 0 \<and>
    takeOneLine draw v = Some (v\<lparr>va_parts := (va_parts v)[q := (va_parts v ! q)\<lparr>vp_targetSize := vp_targetSize (va_parts v ! q) - 1\<rparr>]\<rparr>)"
proof -
  let ?n = "va_partitions v" let ?sum = "sum_list (map lines_over (take ?n (va_parts v)))"
  have "map2 (-) (targets v) (long_targets v) = map lines_over (take ?n (va_parts v))"
    by (simp add: targets_def long_targets_def take_map list_eq_iff_nth_eq lines_over_def)
  then have pos: "?sum > 0" using sum_list_diff_le [of "targets v" "long_targets v"] assms(1,3) by (simp add: targets_def long_targets_def)
  have "draw (?sum - 1) \<le> ?sum - 1" using draw by blast
  then have "draw (?sum - 1) < ?sum" using pos by linarith
  then obtain q where q: "q < ?n" "lines_over (va_parts v ! q) > 0"
    "take_scan (draw (?sum - 1)) 0 0 ?n v = Some (v\<lparr>va_parts := (va_parts v)[q := (va_parts v ! q)\<lparr>vp_targetSize := vp_targetSize (va_parts v ! q) - 1\<rparr>]\<rparr>)"
    using take_scan_ok [of 0 ?n v 0 "draw (?sum - 1)"] assms(1) by auto
  then show ?thesis using pos assms(2) by (intro exI [of _ q]) (auto simp: takeOneLine_def lines_over_def Let_def)
qed

lemma va_counts_target: "q < length (va_parts v) \<Longrightarrow> va_counts v \<Longrightarrow> vp_size x = vp_size (va_parts v ! q) \<Longrightarrow> vp_extendedSize x = vp_extendedSize (va_parts v ! q) \<Longrightarrow>
    va_counts (v\<lparr>va_parts := (va_parts v)[q := x]\<rparr>)"
  by (auto simp: va_counts_def nth_list_update)

lemma targets_update:
  assumes "q < va_partitions v" "va_partitions v < length (va_parts v)"
  shows "sum_list (targets (v\<lparr>va_parts := (va_parts v)[q := x]\<rparr>)) + vp_targetSize (va_parts v ! q) = sum_list (targets v) + vp_targetSize x"
    "sum_list (long_targets (v\<lparr>va_parts := (va_parts v)[q := x]\<rparr>)) + vp_longTermTargetSize (va_parts v ! q) = sum_list (long_targets v) + vp_longTermTargetSize x"
  using assms sum_list_take_update [of q "va_partitions v" "map vp_targetSize (va_parts v)" "vp_targetSize x"]
    sum_list_take_update [of q "va_partitions v" "map vp_longTermTargetSize (va_parts v)" "vp_longTermTargetSize x"]
  by (simp_all add: targets_def long_targets_def map_update)

text \<open>Taking away lines that were handed out before.\<close>

lemma take_lines_ok:
  assumes "va_counts v" "va_smoothTransients v" "sum_list (long_targets v) + n \<le> sum_list (targets v)" "\<forall>k n. draw k n \<le> n"
  shows "\<exists>v'. take_lines draw n v = Some v' \<and> va_counts v' \<and> va_setup v v' \<and> sum_list (targets v') + n = sum_list (targets v) \<and>
    sum_list (long_targets v') = sum_list (long_targets v)"
  using assms
proof (induction n arbitrary: v)
  case (Suc n)
  have len: "length (va_parts v) = Suc (va_partitions v)" using Suc.prems(1) by (simp add: va_counts_def)
  have lt: "sum_list (long_targets v) < sum_list (targets v)" using Suc.prems(3) by simp
  have dr: "\<forall>m. draw n m \<le> m" using Suc.prems(4) by blast
  obtain q where q: "q < va_partitions v" "vp_targetSize (va_parts v ! q) > 0"
    "takeOneLine (draw n) v = Some (v\<lparr>va_parts := (va_parts v)[q := (va_parts v ! q)\<lparr>vp_targetSize := vp_targetSize (va_parts v ! q) - 1\<rparr>]\<rparr>)"
    using takeOneLine_ok [OF len Suc.prems(2) lt dr] by blast
  let ?x = "(va_parts v ! q)\<lparr>vp_targetSize := vp_targetSize (va_parts v ! q) - 1\<rparr>" let ?v = "v\<lparr>va_parts := (va_parts v)[q := ?x]\<rparr>"
  have c: "va_counts ?v" by (rule va_counts_target) (use q(1) len Suc.prems(1) in simp_all)
  have "sum_list (targets ?v) + vp_targetSize (va_parts v ! q) = sum_list (targets v) + vp_targetSize ?x"
    "sum_list (long_targets ?v) + vp_longTermTargetSize (va_parts v ! q) = sum_list (long_targets v) + vp_longTermTargetSize ?x"
    by (rule targets_update; use q(1) len in simp)+
  then have t: "sum_list (targets ?v) + 1 = sum_list (targets v)" "sum_list (long_targets ?v) = sum_list (long_targets v)" using q(2) by simp_all
  have s: "va_smoothTransients ?v" "sum_list (long_targets ?v) + n \<le> sum_list (targets ?v)" using Suc.prems(2,3) t by simp_all
  obtain v' where "take_lines draw n ?v = Some v'" "va_counts v'" "va_setup ?v v'" "sum_list (targets v') + n = sum_list (targets ?v)"
    "sum_list (long_targets v') = sum_list (long_targets ?v)" using Suc.IH [OF c s Suc.prems(4)] by blast
  then show ?case using q(3) t by (auto simp: va_setup_def)
qed simp

lemma va_set_targets_ok:
  assumes "va_counts v" "p + n = va_partitions v" "length sizes = va_partitions v"
  shows "\<exists>v' away'. va_set_targets sizes p n away v = Some (v', away') \<and> va_counts v' \<and> va_setup v v' \<and>
    (\<forall>q < va_partitions v. vp_longTermTargetSize (va_parts v' ! q) =
       (if p \<le> q then va_totalSize v * sizes ! q div va_partGranularity v else vp_longTermTargetSize (va_parts v ! q))) \<and>
    (\<forall>q < va_partitions v. \<not> va_smoothTransients v \<longrightarrow> vp_targetSize (va_parts v' ! q) =
       (if p \<le> q then va_totalSize v * sizes ! q div va_partGranularity v else vp_targetSize (va_parts v ! q))) \<and>
    (if va_smoothTransients v then sum_list (targets v') + away = sum_list (targets v) + away' else away' = away)"
  using assms
proof (induction n arbitrary: p away v)
  case 0
  then show ?case by simp
next
  case (Suc n)
  let ?x = "va_parts v ! p"
  define s where "s = va_totalSize v * sizes ! p div va_partGranularity v"
  define t where "t = (if va_smoothTransients v then if s > vp_targetSize ?x then max (vp_targetSize ?x) (min s (vp_size ?x + 1)) else vp_targetSize ?x else s)"
  define g where "g = (if va_smoothTransients v then t - vp_targetSize ?x else 0)"
  define v1 where "v1 = v\<lparr>va_parts := (va_parts v)[p := ?x\<lparr>vp_longTermTargetSize := s, vp_targetSize := t\<rparr>]\<rparr>"
  have len: "length (va_parts v) = Suc (va_partitions v)" "p < va_partitions v" using Suc.prems by (simp_all add: va_counts_def)
  have step: "va_set_targets sizes p (Suc n) away v = va_set_targets sizes (p + 1) n (away + g) v1"
    using len Suc.prems(3) by (simp add: Let_def v1_def g_def t_def s_def)
  have c1: "va_counts v1" unfolding v1_def by (rule va_counts_target) (use len Suc.prems(1) in simp_all)
  have set1: "va_setup v v1" by (simp add: v1_def va_setup_def)
  have same: "va_partitions v1 = va_partitions v" "va_totalSize v1 = va_totalSize v" "va_partGranularity v1 = va_partGranularity v"
    "va_smoothTransients v1 = va_smoothTransients v" by (simp_all add: v1_def)
  have tt: "va_smoothTransients v \<Longrightarrow> sum_list (targets v1) = sum_list (targets v) + g"
  proof -
    assume sm: "va_smoothTransients v"
    have "sum_list (targets v1) + vp_targetSize ?x = sum_list (targets v) + t" unfolding v1_def using targets_update(1) [of p v] len by simp
    moreover have "t = vp_targetSize ?x + g" using sm by (auto simp: t_def g_def)
    ultimately show ?thesis by simp
  qed
  obtain v' away' where r: "va_set_targets sizes (p + 1) n (away + g) v1 = Some (v', away')" "va_counts v'" "va_setup v1 v'"
    "\<forall>q < va_partitions v. vp_longTermTargetSize (va_parts v' ! q) = (if p + 1 \<le> q then va_totalSize v * sizes ! q div va_partGranularity v else vp_longTermTargetSize (va_parts v1 ! q))"
    "\<forall>q < va_partitions v. \<not> va_smoothTransients v \<longrightarrow> vp_targetSize (va_parts v' ! q) = (if p + 1 \<le> q then va_totalSize v * sizes ! q div va_partGranularity v else vp_targetSize (va_parts v1 ! q))"
    "if va_smoothTransients v then sum_list (targets v') + (away + g) = sum_list (targets v1) + away' else away' = away + g"
    using Suc.IH [OF c1, of "p + 1" "away + g"] Suc.prems(2,3) unfolding same by auto
  have "vp_longTermTargetSize (va_parts v1 ! q) = (if q = p then s else vp_longTermTargetSize (va_parts v ! q))"
    "\<not> va_smoothTransients v \<Longrightarrow> vp_targetSize (va_parts v1 ! q) = (if q = p then s else vp_targetSize (va_parts v ! q))" for q
    using len by (auto simp: v1_def nth_list_update t_def)
  then have "\<forall>q < va_partitions v. vp_longTermTargetSize (va_parts v' ! q) =
       (if p \<le> q then va_totalSize v * sizes ! q div va_partGranularity v else vp_longTermTargetSize (va_parts v ! q))"
    "\<forall>q < va_partitions v. \<not> va_smoothTransients v \<longrightarrow> vp_targetSize (va_parts v' ! q) =
       (if p \<le> q then va_totalSize v * sizes ! q div va_partGranularity v else vp_targetSize (va_parts v ! q))"
    using r(4,5) by (auto simp: s_def not_le less_Suc_eq_le)
  moreover have "if va_smoothTransients v then sum_list (targets v') + away = sum_list (targets v) + away' else away' = away"
    using r(6) tt by (auto simp: g_def)
  ultimately show ?case using step r(1,2) va_setup_trans [OF set1 r(3)] by auto
qed

definition new_sizes :: "'m vantage \<Rightarrow> nat list \<Rightarrow> nat list" where
  "new_sizes v sizes = map (\<lambda>k. va_totalSize v * k div va_partGranularity v) sizes"

text \<open>
  Resizing Vantage partitions. When the new long-term sizes fit the space the partitions have now, \<open>setPartitionSizes\<close> completes: every line
  it hands to a growing partition is taken from one above its own target, the assertions and the panic of \<open>takeOneLine\<close> are not reached,
  the long-term targets are the new sizes, and with smooth transients the sum of the targets does not change.
\<close>

theorem vantage_resize_completes:
  assumes "va_inv v" "length sizes = va_partitions v" "sum_list (new_sizes v sizes) \<le> sum_list (targets v)" "\<forall>k n. draw k n \<le> n"
  shows "\<exists>v'. va_setPartitionSizes draw v sizes = Some v' \<and> va_inv v' \<and> sum_list (long_targets v') = sum_list (new_sizes v sizes) \<and>
    (va_smoothTransients v \<longrightarrow> sum_list (targets v') = sum_list (targets v))"
proof -
  have c: "va_counts v" using assms(1) by (simp add: va_inv_def)
  obtain v1 away where r: "va_set_targets sizes 0 (va_partitions v) 0 v = Some (v1, away)" "va_counts v1" "va_setup v v1"
    "\<forall>q < va_partitions v. vp_longTermTargetSize (va_parts v1 ! q) = va_totalSize v * sizes ! q div va_partGranularity v"
    "\<forall>q < va_partitions v. \<not> va_smoothTransients v \<longrightarrow> vp_targetSize (va_parts v1 ! q) = va_totalSize v * sizes ! q div va_partGranularity v"
    "if va_smoothTransients v then sum_list (targets v1) = sum_list (targets v) + away else away = 0"
    using va_set_targets_ok [OF c add_0 assms(2), of 0]
    by (simp only: add_0 add_0_right le0 if_True) (elim exE conjE, rule that)
  have len: "length (va_parts v1) = Suc (va_partitions v)" "va_partitions v1 = va_partitions v" using r(2,3) by (auto simp: va_counts_def va_setup_def)
  have lt: "long_targets v1 = new_sizes v sizes"
    using r(4) len assms(2) by (simp add: long_targets_def new_sizes_def list_eq_iff_nth_eq)
  show ?thesis
  proof (cases "va_smoothTransients v")
    case False
    then have "targets v1 = new_sizes v sizes"
      using r(5) len assms(2) by (simp add: targets_def new_sizes_def list_eq_iff_nth_eq)
    then have "va_inv v1" using assms(1) r(2,3) lt by (simp add: va_inv_def va_targets_def va_setup_def)
    then show ?thesis using False r(1,6) lt by (simp add: va_setPartitionSizes_def)
  next
    case True
    have sm: "va_smoothTransients v1" "sum_list (long_targets v1) + away \<le> sum_list (targets v1)"
      using True r(3,6) lt assms(3) by (simp_all add: va_setup_def)
    obtain v' where v': "take_lines draw away v1 = Some v'" "va_counts v'" "va_setup v1 v'" "sum_list (targets v') + away = sum_list (targets v1)"
      "sum_list (long_targets v') = sum_list (long_targets v1)" using take_lines_ok [OF r(2) sm assms(4)] by blast
    have "va_inv v'" using assms(1,3) v'(2-5) r(3,6) True lt by (simp add: va_inv_def va_targets_def va_setup_def)
    then show ?thesis using r(1,6) v' True lt by (simp add: va_setPartitionSizes_def)
  qed
qed

section \<open>Vantage: accounting\<close>

text \<open>A change of the sizes of the partitions that follows a change of one line.\<close>

lemma va_counts_line:
  assumes c: "va_counts v" and i: "i < va_totalSize v" and e: "vl_p e \<le> va_partitions v" "vl_op e \<le> va_partitions v"
    and len: "length ps = length (va_parts v)"
    and sz: "\<And>q. q \<le> va_partitions v \<Longrightarrow> vp_size (ps ! q) + of_bool (vl_p (va_array v ! i) = q) = vp_size (va_parts v ! q) + of_bool (vl_p e = q)"
      "\<And>q. q \<le> va_partitions v \<Longrightarrow> vp_extendedSize (ps ! q) + of_bool (vl_op (va_array v ! i) = q) = vp_extendedSize (va_parts v ! q) + of_bool (vl_op e = q)"
  shows "va_counts (v\<lparr>va_parts := ps, va_array := (va_array v)[i := e]\<rparr>)"
proof -
  have l: "i < length (va_array v)" using c i by (simp add: va_counts_def)
  have "vp_size (ps ! q) = cnt vl_p q ((va_array v)[i := e]) \<and> vp_extendedSize (ps ! q) = cnt vl_op q ((va_array v)[i := e])" if "q \<le> va_partitions v" for q
    using cnt_update [OF l, of vl_p q e] cnt_update [OF l, of vl_op q e] sz [OF that] c that by (auto simp: va_counts_def)
  then show ?thesis using c e len l by (auto simp: va_counts_def nth_list_update)
qed

lemma va_counts_size_pos:
  assumes "va_counts v" "i < va_totalSize v"
  shows "vp_size (va_parts v ! vl_p (va_array v ! i)) > 0" "vp_extendedSize (va_parts v ! vl_op (va_array v ! i)) > 0"
    "vl_p (va_array v ! i) < length (va_parts v)" "vl_op (va_array v ! i) < length (va_parts v)"
  using assms cnt_pos [of i "va_array v" vl_p] cnt_pos [of i "va_array v" vl_op] by (auto simp: va_counts_def less_Suc_eq_le)

lemma map_update_same: "f y = f (xs ! i) \<Longrightarrow> map f (xs[i := y]) = map f xs"
  by (metis list_update_id map_update)

lemma va_inv_keep: "va_inv v \<Longrightarrow> va_counts v' \<Longrightarrow> va_setup v v' \<Longrightarrow> targets v' = targets v \<Longrightarrow> long_targets v' = long_targets v \<Longrightarrow> va_inv v'"
  by (simp add: va_inv_def va_targets_def va_setup_def)

lemma va_keep_part:
  assumes "va_inv v" "p < length (va_parts v)" "vp_size x = vp_size (va_parts v ! p)" "vp_extendedSize x = vp_extendedSize (va_parts v ! p)"
    "vp_targetSize x = vp_targetSize (va_parts v ! p)" "vp_longTermTargetSize x = vp_longTermTargetSize (va_parts v ! p)"
  shows "va_inv (v\<lparr>va_parts := (va_parts v)[p := x]\<rparr>)"
proof (rule va_inv_keep [OF assms(1)])
  show "va_counts (v\<lparr>va_parts := (va_parts v)[p := x]\<rparr>)" using assms by (intro va_counts_target) (simp_all add: va_inv_def)
qed (use assms in \<open>simp_all add: va_setup_def targets_def long_targets_def map_update_same\<close>)

text \<open>What the demotions of a replacement may change: lines move to the unmanaged region, and no partition falls below its target.\<close>

definition va_demoted :: "'m vantage \<Rightarrow> 'm vantage \<Rightarrow> bool" where
  "va_demoted v v' \<longleftrightarrow> va_setup v v' \<and> va_cands v' = va_cands v \<and> va_incomingLineAddr v' = va_incomingLineAddr v \<and>
     (\<forall>q < va_partitions v. vp_targetSize (va_parts v' ! q) = vp_targetSize (va_parts v ! q) \<and>
        min (vp_size (va_parts v ! q)) (vp_targetSize (va_parts v ! q)) \<le> vp_size (va_parts v' ! q)) \<and>
     (\<forall>i < va_totalSize v. vl_ts (va_array v' ! i) = vl_ts (va_array v ! i) \<and> vl_addr (va_array v' ! i) = vl_addr (va_array v ! i) \<and>
        (vl_p (va_array v' ! i) = vl_p (va_array v ! i) \<or> vl_p (va_array v' ! i) = va_partitions v))"

lemma va_demoted_refl [simp]: "va_demoted v v"
  by (simp add: va_demoted_def)

lemma va_demoted_trans:
  assumes "va_demoted u v" "va_demoted v w"
  shows "va_demoted u w"
proof -
  have s: "va_setup u v" "va_setup v w" using assms by (simp_all add: va_demoted_def)
  then have eq: "va_partitions v = va_partitions u" "va_totalSize v = va_totalSize u" by (simp_all add: va_setup_def)
  have "vp_targetSize (va_parts w ! q) = vp_targetSize (va_parts u ! q)" if "q < va_partitions u" for q
    using assms that eq by (simp add: va_demoted_def)
  moreover have "min (vp_size (va_parts u ! q)) (vp_targetSize (va_parts u ! q)) \<le> vp_size (va_parts w ! q)" if "q < va_partitions u" for q
  proof -
    have "min (vp_size (va_parts u ! q)) (vp_targetSize (va_parts u ! q)) \<le> vp_size (va_parts v ! q)"
      "vp_targetSize (va_parts v ! q) = vp_targetSize (va_parts u ! q)"
      "min (vp_size (va_parts v ! q)) (vp_targetSize (va_parts v ! q)) \<le> vp_size (va_parts w ! q)"
      using assms that eq by (simp_all add: va_demoted_def)
    then show ?thesis by linarith
  qed
  moreover have "vl_p (va_array w ! i) = vl_p (va_array u ! i) \<or> vl_p (va_array w ! i) = va_partitions u" if "i < va_totalSize u" for i
    using assms that eq unfolding va_demoted_def by metis
  ultimately show ?thesis using va_setup_trans [OF s] assms eq by (simp add: va_demoted_def)
qed

lemma va_interval_ok:
  assumes "va_maxAperture v > 0" "va_partSlack v \<ge> 0" "vp_targetSize x \<le> vp_size x"
  shows "\<exists>x'. va_interval v x = Some x' \<and> vp_size x' = vp_size x \<and> vp_extendedSize x' = vp_extendedSize x \<and>
    vp_targetSize x' = vp_targetSize x \<and> vp_longTermTargetSize x' = vp_longTermTargetSize x"
proof -
  have "\<exists>a. va_aperture v x = Some a"
  proof (cases "real (vp_size x) \<ge> real (vp_targetSize x) * (1 + va_partSlack v)")
    case False
    then have "real (vp_targetSize x) * (1 + va_partSlack v) - real (vp_targetSize x) > 0" using assms(3) by linarith
    then have "va_maxAperture v / (real (vp_targetSize x) * (1 + va_partSlack v) - real (vp_targetSize x)) > 0" using assms(1) by simp
    then show ?thesis using False by (simp add: va_aperture_def Let_def)
  qed (simp add: va_aperture_def Let_def)
  then show ?thesis by (auto simp: va_interval_def Let_def)
qed

lemma va_count_cand_ok:
  assumes inv: "va_inv v" and p: "p < va_partitions v" and le: "vp_targetSize (va_parts v ! p) \<le> vp_size (va_parts v ! p)"
  shows "\<exists>v'. va_count_cand v p = Some v' \<and> va_inv v' \<and> va_demoted v v'"
proof -
  have len: "length (va_parts v) = Suc (va_partitions v)" using inv by (simp add: va_inv_def va_counts_def)
  let ?x = "(va_parts v ! p)\<lparr>vp_curIntervalCands := vp_curIntervalCands (va_parts v ! p) + 1\<rparr>"
  obtain x' where x': "va_interval (v\<lparr>va_parts := (va_parts v)[p := ?x]\<rparr>) ?x = Some x'" "vp_size x' = vp_size ?x" "vp_extendedSize x' = vp_extendedSize ?x"
    "vp_targetSize x' = vp_targetSize ?x" "vp_longTermTargetSize x' = vp_longTermTargetSize ?x"
    using va_interval_ok [of "v\<lparr>va_parts := (va_parts v)[p := ?x]\<rparr>" ?x] inv le by (auto simp: va_inv_def)
  define y where "y = (if vp_curIntervalCands ?x \<ge> 256 then x' else ?x)"
  have y: "vp_size y = vp_size (va_parts v ! p)" "vp_extendedSize y = vp_extendedSize (va_parts v ! p)"
    "vp_targetSize y = vp_targetSize (va_parts v ! p)" "vp_longTermTargetSize y = vp_longTermTargetSize (va_parts v ! p)"
    using x'(2-5) by (simp_all add: y_def)
  have "va_count_cand v p = Some (v\<lparr>va_parts := (va_parts v)[p := y]\<rparr>)"
    using x'(1) p len by (simp add: va_count_cand_def y_def)
  moreover have "va_inv (v\<lparr>va_parts := (va_parts v)[p := y]\<rparr>)" using va_keep_part [OF inv _ y] p len by simp
  moreover have "va_demoted v (v\<lparr>va_parts := (va_parts v)[p := y]\<rparr>)" using y p len by (auto simp: va_demoted_def va_setup_def nth_list_update)
  ultimately show ?thesis by blast
qed

lemma va_demote_line_ok:
  assumes inv: "va_inv v" and c: "c < va_totalSize v" and e: "e = va_array v ! c" "vl_p e \<noteq> va_partitions v"
    and gt: "vp_targetSize (va_parts v ! vl_p e) < vp_size (va_parts v ! vl_p e)"
  shows "\<exists>v'. va_demote_line v c e = Some v' \<and> va_inv v' \<and> va_demoted v v' \<and> vp_targetSize (va_parts v' ! vl_p e) \<le> vp_size (va_parts v' ! vl_p e)"
proof -
  let ?p = "vl_p e" let ?n = "va_partitions v" let ?ps = "va_parts v"
  have cnts: "va_counts v" using inv by (simp add: va_inv_def)
  have len: "length ?ps = Suc ?n" "length (va_array v) = va_totalSize v" "?p \<le> ?n" "vl_op e \<le> ?n" using cnts c e(1) by (simp_all add: va_counts_def)
  have p: "?p < ?n" "vp_size (?ps ! ?p) > 0" using len(3) e(2) gt by simp_all
  define ps where "ps = (?ps[?p := (?ps ! ?p)\<lparr>vp_size := vp_size (?ps ! ?p) - 1, vp_profDemotions := vp_profDemotions (?ps ! ?p) + 1,
      vp_curIntervalDems := vp_curIntervalDems (?ps ! ?p) + 1\<rparr>])[?n := (?ps ! ?n)\<lparr>vp_size := vp_size (?ps ! ?n) + 1\<rparr>]"
  let ?e = "e\<lparr>vl_p := ?n\<rparr>" let ?v = "v\<lparr>va_parts := ps, va_array := (va_array v)[c := ?e]\<rparr>"
  have "va_demote_line v c e = Some ?v" using p len c by (simp add: va_demote_line_def ps_def)
  moreover have "va_inv ?v"
  proof (rule va_inv_keep [OF inv])
    show "va_counts ?v"
      by (rule va_counts_line [OF cnts c]) (use e len p in \<open>auto simp: ps_def nth_list_update\<close>)
    have "map vp_targetSize ps = map vp_targetSize ?ps" "map vp_longTermTargetSize ps = map vp_longTermTargetSize ?ps"
      using p len by (auto simp: ps_def intro!: nth_equalityI) (auto simp: nth_list_update)
    then show "targets ?v = targets v" "long_targets ?v = long_targets v" by (simp_all add: targets_def long_targets_def)
  qed (simp add: va_setup_def)
  moreover have "va_demoted v ?v" using p len c e gt by (auto simp: va_demoted_def va_setup_def ps_def nth_list_update)
  moreover have "vp_targetSize (va_parts ?v ! ?p) \<le> vp_size (va_parts ?v ! ?p)" using p len gt by (auto simp: ps_def nth_list_update)
  ultimately show ?thesis by blast
qed

lemma va_demote_ok:
  assumes inv: "va_inv v" and c: "c < va_totalSize v"
  shows "\<exists>v'. va_demote v c = Some v' \<and> va_inv v' \<and> va_demoted v v'"
proof -
  define e where "e = va_array v ! c"
  have len: "c < length (va_array v)" "vl_p e < length (va_parts v)" "vl_p e \<le> va_partitions v" using inv c by (simp_all add: va_inv_def va_counts_def e_def less_Suc_eq_le)
  show ?thesis
  proof (cases "vl_ts e = 0 \<or> vl_p e = va_partitions v \<or> vp_size (va_parts v ! vl_p e) \<le> vp_targetSize (va_parts v ! vl_p e)")
    case True
    then show ?thesis using len inv by (auto simp: va_demote_def e_def)
  next
    case False
    then have d: "vl_p e \<noteq> va_partitions v" "vp_targetSize (va_parts v ! vl_p e) < vp_size (va_parts v ! vl_p e)" by simp_all
    let ?x = "va_parts v ! vl_p e"
    obtain v1 where v1: "(if (vp_curBts ?x - vl_bts e) mod 256 \<ge> (vp_curBts ?x - vp_setpointBts ?x) mod 256 then va_demote_line v c e else Some v) = Some v1"
      "va_inv v1" "va_demoted v v1" "vp_targetSize (va_parts v1 ! vl_p e) \<le> vp_size (va_parts v1 ! vl_p e)"
      using va_demote_line_ok [OF inv c e_def d] inv d(2) by (cases "(vp_curBts ?x - vl_bts e) mod 256 \<ge> (vp_curBts ?x - vp_setpointBts ?x) mod 256") auto
    have "va_partitions v1 = va_partitions v" using v1(3) by (simp add: va_demoted_def va_setup_def)
    then obtain v' where v': "va_count_cand v1 (vl_p e) = Some v'" "va_inv v'" "va_demoted v1 v'"
      using va_count_cand_ok [OF v1(2) _ v1(4)] d(1) len(3) by auto
    have "va_demote v c = Some v'" using len(1,2) False v1(1) v'(1) by (auto simp: va_demote_def e_def [symmetric] split: if_splits)
    then show ?thesis using v'(2) va_demoted_trans [OF v1(3) v'(3)] by blast
  qed
qed

lemma va_demote_all_ok:
  assumes "va_inv v" "\<forall>c\<in>set cs. c < va_totalSize v"
  shows "\<exists>v'. va_demote_all v cs = Some v' \<and> va_inv v' \<and> va_demoted v v'"
  using assms
proof (induction cs arbitrary: v)
  case (Cons c cs)
  then obtain v1 where v1: "va_demote v c = Some v1" "va_inv v1" "va_demoted v v1" using va_demote_ok [of v c] by auto
  have "va_totalSize v1 = va_totalSize v" using v1(3) by (simp add: va_demoted_def va_setup_def)
  then obtain v' where "va_demote_all v1 cs = Some v'" "va_inv v'" "va_demoted v1 v'" using Cons.IH [OF v1(2)] Cons.prems(2) by auto
  then show ?case using v1(1) va_demoted_trans [OF v1(3)] by auto
qed simp

text \<open>The victim: an empty candidate if there is one, and else an unmanaged one before a managed one and then the least recently used.\<close>

definition va_key :: "nat \<Rightarrow> vantage_line \<Rightarrow> nat" where
  "va_key unmanaged e = of_bool (vl_p e \<noteq> unmanaged) * 2 ^ 64 + unat (vl_ts e)"

lemma va_better_key: "va_better n c b \<longleftrightarrow> va_key n c < va_key n b"
proof -
  have "unat (vl_ts c) < 2 ^ 64" "unat (vl_ts b) < 2 ^ 64" by (rule order_less_le_trans [OF unsigned_less], simp)+
  then show ?thesis by (auto simp: va_better_def va_key_def word_less_nat_alt)
qed

abbreviation va_key_of :: "'m vantage \<Rightarrow> nat \<Rightarrow> nat" where
  "va_key_of v i \<equiv> va_key (va_partitions v) (va_array v ! i)"

lemma va_best_ok:
  assumes "\<forall>c\<in>set cs. c < length (va_array v)" "b < length (va_array v)"
  shows "\<exists>r. va_best v cs b = Some r \<and> r \<in> insert b (set cs) \<and>
    (if \<exists>c\<in>set cs. vl_ts (va_array v ! c) = 0 then vl_ts (va_array v ! r) = 0
     else va_key_of v r \<le> va_key_of v b \<and> (\<forall>c\<in>set cs. va_key_of v r \<le> va_key_of v c))"
  using assms
proof (induction cs arbitrary: b)
  case (Cons c cs)
  show ?case
  proof (cases "vl_ts (va_array v ! c) = 0")
    case True
    then show ?thesis using Cons.prems by simp
  next
    case False
    define b1 where "b1 = (if va_key_of v c < va_key_of v b then c else b)"
    have "b1 < length (va_array v)" using Cons.prems by (simp add: b1_def)
    then obtain r where "va_best v cs b1 = Some r" "r \<in> insert b1 (set cs)"
      "if \<exists>c\<in>set cs. vl_ts (va_array v ! c) = 0 then vl_ts (va_array v ! r) = 0
       else va_key_of v r \<le> va_key_of v b1 \<and> (\<forall>c\<in>set cs. va_key_of v r \<le> va_key_of v c)"
      using Cons.IH [of b1] Cons.prems(1) by auto
    then show ?thesis using False Cons.prems by (auto simp: va_better_key b1_def split: if_splits)
  qed
qed simp

lemma va_record_all:
  "length (va_cands v) + length cs \<le> va_assoc v \<Longrightarrow> record_all va_recordCandidate v cs = Some (v\<lparr>va_cands := va_cands v @ cs\<rparr>)"
  by (induction cs arbitrary: v) (simp_all add: va_recordCandidate_def)

lemma va_inv_cands: "va_inv (v\<lparr>va_cands := cs, va_incomingLineAddr := a\<rparr>) = va_inv v"
  by (simp add: va_inv_def va_counts_def va_targets_def targets_def long_targets_def)

lemma va_rank_ok:
  assumes inv: "va_inv v" "va_cands v = []" and cands: "cands \<noteq> []" "length cands \<le> va_assoc v" "\<forall>c\<in>set cands. c < va_totalSize v"
  shows "\<exists>v' b. va_rank v req cands = Some (v', b) \<and> b \<in> set cands \<and> va_inv v' \<and>
    va_demoted (v\<lparr>va_cands := cands, va_incomingLineAddr := mr_lineAddr req\<rparr>) v' \<and>
    (if \<exists>c\<in>set cands. vl_ts (va_array v ! c) = 0 then vl_ts (va_array v ! b) = 0 else \<forall>c\<in>set cands. va_key_of v' b \<le> va_key_of v' c)"
proof -
  let ?v = "v\<lparr>va_cands := cands, va_incomingLineAddr := mr_lineAddr req\<rparr>"
  have rec: "record_all va_recordCandidate (va_startReplacement v req) cands = Some ?v"
    using va_record_all [of "va_startReplacement v req" cands] inv(2) cands(2) by (simp add: va_startReplacement_def)
  have inv': "va_inv ?v" using inv(1) by (simp add: va_inv_cands)
  obtain v' where v': "va_demote_all ?v cands = Some v'" "va_inv v'" "va_demoted ?v v'"
    using va_demote_all_ok [OF inv', of cands] cands(3) by auto
  have len: "length (va_array v') = va_totalSize v" "va_cands v' = cands" "va_totalSize v' = va_totalSize v"
    using v'(2,3) by (auto simp: va_inv_def va_counts_def va_demoted_def va_setup_def)
  have ts: "vl_ts (va_array v' ! c) = vl_ts (va_array v ! c)" if "c \<in> set cands" for c using v'(3) cands(3) that by (simp add: va_demoted_def)
  have hd: "hd cands \<in> set cands" using cands(1) by simp
  obtain b where b: "va_best v' cands (hd cands) = Some b" "b \<in> insert (hd cands) (set cands)"
    "if \<exists>c\<in>set cands. vl_ts (va_array v' ! c) = 0 then vl_ts (va_array v' ! b) = 0
     else va_key_of v' b \<le> va_key_of v' (hd cands) \<and> (\<forall>c\<in>set cands. va_key_of v' b \<le> va_key_of v' c)"
    using va_best_ok [of cands v' "hd cands"] cands(3) hd len(1) by auto
  have bin: "b \<in> set cands" using b(2) hd by auto
  then have "va_rank v req cands = Some (v', b)"
    using rec v'(1) b(1) len cands by (simp add: va_rank_def legacy_rank_def va_getBestCandidate_def)
  moreover have "if \<exists>c\<in>set cands. vl_ts (va_array v ! c) = 0 then vl_ts (va_array v ! b) = 0 else \<forall>c\<in>set cands. va_key_of v' b \<le> va_key_of v' c"
    using b(3) ts bin by (auto split: if_splits)
  ultimately show ?thesis using bin v'(2,3) by blast
qed

lemma va_replaced_ok:
  assumes inv: "va_inv v" and i: "i < va_totalSize v"
  shows "\<exists>v'. va_replaced v i = Some v' \<and> va_inv v' \<and> va_setup v v' \<and> va_cands v' = [] \<and> vl_ts (va_array v' ! i) = 0"
proof -
  let ?e = "(va_array v ! i)\<lparr>vl_ts := 0, vl_bts := 0, vl_addr := va_incomingLineAddr v\<rparr>"
  have c: "va_counts v" "i < length (va_array v)" using inv i by (simp_all add: va_inv_def va_counts_def)
  have "va_counts (v\<lparr>va_parts := va_parts v, va_array := (va_array v)[i := ?e]\<rparr>)"
    by (rule va_counts_line [OF c(1) i]) (use c i in \<open>simp_all add: va_counts_def\<close>)
  then have "va_inv (v\<lparr>va_parts := va_parts v, va_array := (va_array v)[i := ?e]\<rparr>)"
    by (rule va_inv_keep [OF inv]) (simp_all add: va_setup_def targets_def long_targets_def)
  then have "va_inv (v\<lparr>va_cands := [], va_array := (va_array v)[i := ?e]\<rparr>)"
    by (simp add: va_inv_def va_counts_def va_targets_def targets_def long_targets_def)
  then show ?thesis using c(2) by (simp add: va_replaced_def va_setup_def)
qed

lemma va_cycles_ok:
  assumes "va_inv v"
  shows "va_inv (va_cycles g v) \<and> va_setup v (va_cycles g v) \<and> va_cands (va_cycles g v) = va_cands v \<and> va_array (va_cycles g v) = va_array v"
proof -
  have "va_counts (va_cycles g v)" using assms by (auto simp: va_cycles_def Let_def va_inv_def va_counts_def)
  moreover have "va_setup v (va_cycles g v)" by (simp add: va_cycles_def Let_def va_setup_def)
  moreover have "targets (va_cycles g v) = targets v" "long_targets (va_cycles g v) = long_targets v"
    by (simp_all add: va_cycles_def Let_def targets_def long_targets_def comp_def)
  ultimately show ?thesis using va_inv_keep [OF assms] by (simp add: va_cycles_def Let_def)
qed

text \<open>A miss gives the line to the partition of the request, and a partition below its long-term target then takes a line from another one.\<close>

lemma va_grow_ok:
  assumes inv: "va_inv v" and p: "p < va_partitions v" and draw: "\<forall>n. draw n \<le> n" and lt: "vp_targetSize (va_parts v ! p) < vp_longTermTargetSize (va_parts v ! p)"
  shows "\<exists>v'. (do { assert_that (va_smoothTransients v);
      v \<leftarrow> va_upd_part p (\<lambda>x. x\<lparr>vp_targetSize := vp_targetSize x + 1\<rparr>) v; takeOneLine draw v }) = Some v' \<and>
    va_inv v' \<and> va_setup v v' \<and> va_cands v' = va_cands v \<and> va_array v' = va_array v"
proof -
  have c: "va_counts v" "va_targets v" using inv by (simp_all add: va_inv_def)
  have len: "length (va_parts v) = Suc (va_partitions v)" using c(1) by (simp add: va_counts_def)
  have "targets v ! p \<noteq> long_targets v ! p" using p len lt by (simp add: targets_def long_targets_def)
  then have sm: "va_smoothTransients v" using c(2) unfolding va_targets_def by auto
  let ?x = "(va_parts v ! p)\<lparr>vp_targetSize := vp_targetSize (va_parts v ! p) + 1\<rparr>" let ?v = "v\<lparr>va_parts := (va_parts v)[p := ?x]\<rparr>"
  have s1: "sum_list (targets ?v) = sum_list (targets v) + 1" "sum_list (long_targets ?v) = sum_list (long_targets v)"
    using targets_update [OF p, of ?x] len by simp_all
  then have "sum_list (long_targets ?v) < sum_list (targets ?v)" using c(2) by (simp add: va_targets_def)
  then obtain v' where v': "take_lines (\<lambda>k. draw) 1 ?v = Some v'" "va_counts v'" "va_setup ?v v'" "sum_list (targets v') + 1 = sum_list (targets ?v)"
    "sum_list (long_targets v') = sum_list (long_targets ?v)"
    using take_lines_ok [of ?v 1 "\<lambda>k. draw"] va_counts_target [of p v ?x] c(1) sm p len draw by auto
  obtain q where q: "takeOneLine draw ?v = Some (?v\<lparr>va_parts := (va_parts ?v)[q := (va_parts ?v ! q)\<lparr>vp_targetSize := vp_targetSize (va_parts ?v ! q) - 1\<rparr>]\<rparr>)"
    using takeOneLine_ok [of ?v draw] \<open>sum_list (long_targets ?v) < sum_list (targets ?v)\<close> len sm draw by auto
  then have "v' = ?v\<lparr>va_parts := (va_parts ?v)[q := (va_parts ?v ! q)\<lparr>vp_targetSize := vp_targetSize (va_parts ?v ! q) - 1\<rparr>]\<rparr>"
    using v'(1) by simp
  moreover have "va_inv v'" using inv v' s1 sm by (simp add: va_inv_def va_targets_def va_setup_def)
  moreover have "va_setup v v'" using v'(3) by (simp add: va_setup_def)
  ultimately show ?thesis using sm p len q by (intro exI [of _ v']) simp
qed

lemma va_update_line_miss:
  assumes inv: "va_inv v" and i: "i < va_totalSize v" and e: "vl_ts (va_array v ! i) = 0" and q: "mapper req = Some q" "q < va_partitions v" and draw: "\<forall>n. draw n \<le> n"
  shows "\<exists>v'. va_update_line mapper draw v i req = Some v' \<and> va_inv v' \<and> va_setup v v' \<and> va_cands v' = va_cands v \<and>
    vl_p (va_array v' ! i) = q \<and> vl_op (va_array v' ! i) = q"
proof -
  let ?e = "va_array v ! i" let ?ps = "va_parts v" let ?p = "vl_p ?e" let ?o = "vl_op ?e"
  have c: "va_counts v" using inv by (simp add: va_inv_def)
  note pos = va_counts_size_pos [OF c i]
  have len: "length ?ps = Suc (va_partitions v)" "i < length (va_array v)" "q < length ?ps" using c i q(2) by (simp_all add: va_counts_def)
  define ps1 where "ps1 = ?ps[?p := (?ps ! ?p)\<lparr>vp_size := vp_size (?ps ! ?p) - 1, vp_profEvictions := vp_profEvictions (?ps ! ?p) + 1\<rparr>]"
  define ps2 where "ps2 = ps1[?o := (ps1 ! ?o)\<lparr>vp_extendedSize := vp_extendedSize (ps1 ! ?o) - 1\<rparr>]"
  define ps where "ps = ps2[q := (ps2 ! q)\<lparr>vp_curIntervalIns := vp_curIntervalIns (ps2 ! q) + 1, vp_size := vp_size (ps2 ! q) + 1,
      vp_extendedSize := vp_extendedSize (ps2 ! q) + 1, vp_profMisses := vp_profMisses (ps2 ! q) + 1\<rparr>]"
  let ?e' = "?e\<lparr>vl_ts := va_timestamp v, vl_p := q, vl_op := q\<rparr>"
  define v1 where "v1 = v\<lparr>va_parts := ps, va_array := (va_array v)[i := ?e'], va_timestamp := va_timestamp v + 1\<rparr>"
  have l1: "length ps1 = length ?ps" "length ps2 = length ?ps" "length ps = length ?ps" by (simp_all add: ps1_def ps2_def ps_def)
  have ext: "vp_extendedSize (ps1 ! x) = vp_extendedSize (?ps ! x)" "vp_size (ps2 ! x) = vp_size (ps1 ! x)" if "x < length ?ps" for x
    using pos that l1 by (auto simp: ps1_def ps2_def nth_list_update)
  have s1: "vp_size (ps1 ! x) + of_bool (?p = x) = vp_size (?ps ! x)" "vp_extendedSize (ps2 ! x) + of_bool (?o = x) = vp_extendedSize (ps1 ! x)"
    "vp_size (ps ! x) = vp_size (ps2 ! x) + of_bool (q = x)" "vp_extendedSize (ps ! x) = vp_extendedSize (ps2 ! x) + of_bool (q = x)" if "x < length ?ps" for x
    using pos that l1 len ext by (auto simp: ps1_def nth_list_update) (auto simp: ps2_def ps_def nth_list_update ext)
  have "va_counts (v\<lparr>va_parts := ps, va_array := (va_array v)[i := ?e']\<rparr>)"
  proof (rule va_counts_line [OF c i])
    fix x assume "x \<le> va_partitions v"
    then have "x < length ?ps" using len(1) by simp
    then show "vp_size (ps ! x) + of_bool (?p = x) = vp_size (?ps ! x) + of_bool (vl_p ?e' = x)"
      "vp_extendedSize (ps ! x) + of_bool (?o = x) = vp_extendedSize (?ps ! x) + of_bool (vl_op ?e' = x)" using s1 [of x] ext [of x] by simp_all
  qed (use q(2) l1 in simp_all)
  then have "va_counts v1" by (simp add: v1_def va_counts_def)
  moreover have tg: "map vp_targetSize ps = map vp_targetSize ?ps" "map vp_longTermTargetSize ps = map vp_longTermTargetSize ?ps"
    by (simp_all add: ps_def ps2_def ps1_def map_update_same)
  ultimately have v1: "va_inv v1" "va_setup v v1"
    using va_inv_keep [OF inv, of v1] by (simp_all add: v1_def va_setup_def targets_def long_targets_def)
  have arr: "vl_p (va_array v1 ! i) = q" "vl_op (va_array v1 ! i) = q" "va_cands v1 = va_cands v" using len(2) by (simp_all add: v1_def)
  have upd: "va_update_line mapper draw v i req = (if vp_targetSize (va_parts v1 ! q) < vp_longTermTargetSize (va_parts v1 ! q)
      then do { assert_that (va_smoothTransients v1); v \<leftarrow> va_upd_part q (\<lambda>x. x\<lparr>vp_targetSize := vp_targetSize x + 1\<rparr>) v1; takeOneLine draw v }
      else Some v1)"
    using e q len pos l1 ext by (simp add: va_update_line_def Let_def v1_def ps_def ps2_def ps1_def)
  show ?thesis
  proof (cases "vp_targetSize (va_parts v1 ! q) < vp_longTermTargetSize (va_parts v1 ! q)")
    case True
    have "q < va_partitions v1" using q(2) by (simp add: v1_def)
    then obtain v' where "va_update_line mapper draw v i req = Some v'" "va_inv v'" "va_setup v1 v'" "va_cands v' = va_cands v1" "va_array v' = va_array v1"
      using va_grow_ok [OF v1(1) _ draw True] upd True by auto
    then show ?thesis using va_setup_trans [OF v1(2)] arr by auto
  next
    case False
    then show ?thesis using upd v1 arr by simp
  qed
qed

lemma va_update_line_hit:
  assumes inv: "va_inv v" and i: "i < va_totalSize v" and e: "vl_ts (va_array v ! i) > 0" and q: "mapper req = Some q" "q < va_partitions v"
  shows "\<exists>v'. va_update_line mapper draw v i req = Some v' \<and> va_inv v' \<and> va_setup v v' \<and> va_cands v' = va_cands v \<and>
    vl_p (va_array v' ! i) = (if vl_p (va_array v ! i) = va_partitions v then q else vl_p (va_array v ! i)) \<and>
    vl_op (va_array v' ! i) = vl_op (va_array v ! i)"
proof -
  let ?e = "va_array v ! i" let ?ps = "va_parts v" let ?n = "va_partitions v"
  have c: "va_counts v" using inv by (simp add: va_inv_def)
  note pos = va_counts_size_pos [OF c i]
  have len: "length ?ps = Suc ?n" "i < length (va_array v)" "q < length ?ps" "?n < length ?ps" "vl_p ?e \<le> ?n" "vl_op ?e \<le> ?n"
    using c i q(2) by (simp_all add: va_counts_def)
  define p where "p = (if vl_p ?e = ?n then q else vl_p ?e)"
  define ps where "ps = (if vl_p ?e = ?n
      then (?ps[q := (?ps ! q)\<lparr>vp_curIntervalIns := vp_curIntervalIns (?ps ! q) + 1, vp_size := vp_size (?ps ! q) + 1\<rparr>])[?n := (?ps ! ?n)\<lparr>vp_size := vp_size (?ps ! ?n) - 1\<rparr>]
      else ?ps)"
  define ps' where "ps' = ps[p := (ps ! p)\<lparr>vp_profHits := vp_profHits (ps ! p) + 1\<rparr>]"
  let ?e' = "?e\<lparr>vl_p := p, vl_ts := va_timestamp v\<rparr>"
  define v' where "v' = v\<lparr>va_parts := ps', va_array := (va_array v)[i := ?e'], va_timestamp := va_timestamp v + 1,
      va_profPromotions := va_profPromotions v + of_bool (vl_p ?e = ?n)\<rparr>"
  have l: "length ps = length ?ps" "p \<le> ?n" using len q(2) by (simp_all add: ps_def p_def)
  have s1: "vp_size (ps ! x) + of_bool (vl_p ?e = x) = vp_size (?ps ! x) + of_bool (p = x)" "vp_extendedSize (ps ! x) = vp_extendedSize (?ps ! x)" if "x < length ?ps" for x
    using that pos(1) len q(2) by (auto simp: ps_def p_def nth_list_update)
  have s2: "vp_size (ps' ! x) = vp_size (ps ! x)" "vp_extendedSize (ps' ! x) = vp_extendedSize (ps ! x)" if "x < length ?ps" for x
    using that l len(1) by (auto simp: ps'_def nth_list_update)
  have "va_counts (v\<lparr>va_parts := ps', va_array := (va_array v)[i := ?e']\<rparr>)"
  proof (rule va_counts_line [OF c i])
    fix x assume "x \<le> ?n"
    then have "x < length ?ps" using len(1) by simp
    then show "vp_size (ps' ! x) + of_bool (vl_p ?e = x) = vp_size (?ps ! x) + of_bool (vl_p ?e' = x)"
      "vp_extendedSize (ps' ! x) + of_bool (vl_op ?e = x) = vp_extendedSize (?ps ! x) + of_bool (vl_op ?e' = x)" using s1 [of x] s2 [of x] by simp_all
  qed (use l len in \<open>simp_all add: ps'_def\<close>)
  then have "va_counts v'" by (simp add: v'_def va_counts_def)
  moreover have "map vp_targetSize ps' = map vp_targetSize ?ps" "map vp_longTermTargetSize ps' = map vp_longTermTargetSize ?ps"
    using q(2) by (simp_all add: ps'_def ps_def map_update_same)
  ultimately have v': "va_inv v'" "va_setup v v'" using va_inv_keep [OF inv, of v'] by (simp_all add: v'_def va_setup_def targets_def long_targets_def)
  have "va_update_line mapper draw v i req = Some v'"
    using e q len pos l by (auto simp: va_update_line_def Let_def v'_def ps'_def ps_def p_def)
  then show ?thesis using v' len(2) by (auto simp: v'_def p_def)
qed

lemma va_update_ok:
  assumes inv: "va_inv v" and i: "i < va_totalSize v" and q: "mapper req = Some q" "q < va_partitions v" and draw: "\<forall>n. draw n \<le> n"
    and mon: "\<And>m p a. \<exists>m'. macc m p a = Some m'"
  shows "\<exists>v'. va_update mapper macc g draw v i req = Some v' \<and> va_inv v' \<and> va_setup v v' \<and> va_cands v' = va_cands v \<and>
    vl_p (va_array v' ! i) = (if vl_ts (va_array v ! i) = 0 \<or> vl_p (va_array v ! i) = va_partitions v then q else vl_p (va_array v ! i)) \<and>
    vl_op (va_array v' ! i) = (if vl_ts (va_array v ! i) = 0 then q else vl_op (va_array v ! i))"
proof -
  let ?v = "va_cycles g v"
  have cy: "va_inv ?v" "va_setup v ?v" "va_cands ?v = va_cands v" "va_array ?v = va_array v" using va_cycles_ok [OF inv, of g] by simp_all
  have n: "va_partitions ?v = va_partitions v" "va_totalSize ?v = va_totalSize v" using cy(2) by (simp_all add: va_setup_def)
  obtain v1 where v1: "va_update_line mapper draw ?v i req = Some v1" "va_inv v1" "va_setup ?v v1" "va_cands v1 = va_cands v"
    "vl_p (va_array v1 ! i) = (if vl_ts (va_array v ! i) = 0 \<or> vl_p (va_array v ! i) = va_partitions v then q else vl_p (va_array v ! i))"
    "vl_op (va_array v1 ! i) = (if vl_ts (va_array v ! i) = 0 then q else vl_op (va_array v ! i))"
  proof (cases "vl_ts (va_array v ! i) = 0")
    case True
    then show ?thesis using va_update_line_miss [OF cy(1), of i mapper req q draw] i q draw n cy that by auto
  next
    case False
    then have ts: "vl_ts (va_array v ! i) > 0" by (simp add: word_neq_0_conv)
    obtain v1 where v1: "va_update_line mapper draw ?v i req = Some v1" "va_inv v1" "va_setup ?v v1" "va_cands v1 = va_cands v"
      "vl_p (va_array v1 ! i) = (if vl_p (va_array v ! i) = va_partitions v then q else vl_p (va_array v ! i))" "vl_op (va_array v1 ! i) = vl_op (va_array v ! i)"
      using va_update_line_hit [OF cy(1), of i mapper req q draw] i q ts unfolding n cy(3,4) by blast
    show ?thesis by (rule that [of v1]) (use v1 False in simp_all)
  qed
  let ?e = "va_array v1 ! i" let ?p = "vl_p ?e"
  have len: "i < length (va_array v1)" "i < va_totalSize v1" "?p < length (va_parts v1)" "va_counts v1" "length (va_parts v1) = Suc (va_partitions v1)"
    "vl_p ?e \<le> va_partitions v1" "vl_op ?e \<le> va_partitions v1"
    using v1(2,3) n i by (auto simp: va_inv_def va_counts_def va_setup_def less_Suc_eq_le)
  obtain m where m: "macc (va_monitor v1) ?p (vl_addr ?e) = Some m" using mon by blast
  let ?x = "va_parts v1 ! ?p"
  define x where "x = (if vp_curBtsHits ?x + 1 \<ge> of_nat (vp_size ?x) div 16
      then ?x\<lparr>vp_curBts := vp_curBts ?x + 1, vp_setpointBts := vp_setpointBts ?x + 1, vp_curBtsHits := 0\<rparr>
      else ?x\<lparr>vp_curBtsHits := vp_curBtsHits ?x + 1\<rparr>)"
  have x: "vp_size x = vp_size ?x" "vp_extendedSize x = vp_extendedSize ?x" "vp_targetSize x = vp_targetSize ?x"
    "vp_longTermTargetSize x = vp_longTermTargetSize ?x" by (simp_all add: x_def)
  let ?e' = "?e\<lparr>vl_bts := vp_curBts ?x\<rparr>"
  define v' where "v' = v1\<lparr>va_parts := (va_parts v1)[?p := x], va_array := (va_array v1)[i := ?e'], va_monitor := m\<rparr>"
  have "va_update mapper macc g draw v i req = Some v'"
    using v1(1) m len(1,3) by (simp add: va_update_def Let_def v'_def x_def)
  moreover have "va_counts (v1\<lparr>va_parts := (va_parts v1)[?p := x], va_array := (va_array v1)[i := ?e']\<rparr>)"
    by (rule va_counts_line [OF len(4,2)]) (use len x in \<open>auto simp: nth_list_update\<close>)
  then have "va_inv v'" using x by (intro va_inv_keep [OF v1(2)]) (simp_all add: v'_def va_counts_def va_setup_def targets_def long_targets_def map_update_same)
  moreover have "va_setup v v'" using va_setup_trans [OF cy(2) v1(3)] by (simp add: v'_def va_setup_def)
  moreover have "va_cands v' = va_cands v" "vl_p (va_array v' ! i) = ?p" "vl_op (va_array v' ! i) = vl_op ?e" using v1(4) len(1) by (simp_all add: v'_def)
  ultimately show ?thesis using v1(5,6) by (intro exI [of _ v']) simp
qed

text \<open>
  C26. A replacement under Vantage. From any consistent state, with up to \<open>assoc\<close> candidates, \<open>rank\<close>, \<open>replaced\<close> and \<open>update\<close> complete without failing an
  assertion. Demotions take no partition below its target size. The victim is an empty candidate if there is one; otherwise an unmanaged line is preferred
  to a managed one and the least recently used is taken. Afterwards the recorded sizes and extended sizes are again the
  numbers of lines, and the new line is in the partition of the request.
\<close>

theorem vantage_replacement_exact:
  assumes "va_inv v" "va_cands v = []" "cands \<noteq> []" "length cands \<le> va_assoc v" "\<forall>c\<in>set cands. c < va_totalSize v"
    and "mapper req = Some q" "q < va_partitions v" "\<forall>n. draw n \<le> n" "\<And>m p a. \<exists>m'. macc m p a = Some m'"
  shows "\<exists>v1 v2 v3 b. va_rank v req cands = Some (v1, b) \<and> b \<in> set cands \<and>
    (\<forall>p < va_partitions v. vp_targetSize (va_parts v1 ! p) = vp_targetSize (va_parts v ! p) \<and>
       min (vp_size (va_parts v ! p)) (vp_targetSize (va_parts v ! p)) \<le> vp_size (va_parts v1 ! p)) \<and>
    (if \<exists>c\<in>set cands. vl_ts (va_array v ! c) = 0 then vl_ts (va_array v ! b) = 0
     else \<forall>c\<in>set cands. va_key (va_partitions v) (va_array v1 ! b) \<le> va_key (va_partitions v) (va_array v1 ! c)) \<and>
    va_replaced v1 b = Some v2 \<and> va_update mapper macc g draw v2 b req = Some v3 \<and> va_inv v3 \<and> va_cands v3 = [] \<and>
    vl_p (va_array v3 ! b) = q \<and> vl_op (va_array v3 ! b) = q"
proof -
  obtain v1 b where r: "va_rank v req cands = Some (v1, b)" "b \<in> set cands" "va_inv v1"
    "va_demoted (v\<lparr>va_cands := cands, va_incomingLineAddr := mr_lineAddr req\<rparr>) v1"
    "if \<exists>c\<in>set cands. vl_ts (va_array v ! c) = 0 then vl_ts (va_array v ! b) = 0 else \<forall>c\<in>set cands. va_key_of v1 b \<le> va_key_of v1 c"
    using va_rank_ok [OF assms(1-5), of req] by (elim exE conjE) (rule that)
  have n1: "va_partitions v1 = va_partitions v" "va_totalSize v1 = va_totalSize v" using r(4) by (simp_all add: va_demoted_def va_setup_def)
  have b: "b < va_totalSize v1" using r(2) assms(5) n1 by simp
  obtain v2 where v2: "va_replaced v1 b = Some v2" "va_inv v2" "va_setup v1 v2" "va_cands v2 = []" "vl_ts (va_array v2 ! b) = 0"
    using va_replaced_ok [OF r(3) b] by blast
  have n2: "b < va_totalSize v2" "q < va_partitions v2" using v2(3) n1 b assms(7) by (simp_all add: va_setup_def)
  obtain v3 where v3: "va_update mapper macc g draw v2 b req = Some v3" "va_inv v3" "va_cands v3 = []" "vl_p (va_array v3 ! b) = q" "vl_op (va_array v3 ! b) = q"
    using va_update_ok [of v2 b mapper req q draw macc g] v2(2) n2 assms(6,8,9) v2(4,5) by auto
  have "\<forall>p < va_partitions v. vp_targetSize (va_parts v1 ! p) = vp_targetSize (va_parts v ! p) \<and>
       min (vp_size (va_parts v ! p)) (vp_targetSize (va_parts v ! p)) \<le> vp_size (va_parts v1 ! p)" using r(4) by (simp add: va_demoted_def)
  then show ?thesis using r(1,2) r(5) [unfolded n1] v2(1) v3 by - (rule exI [of _ v1], rule exI [of _ v2], rule exI [of _ v3], rule exI [of _ b], simp)
qed

lemma va_new_inv:
  assumes "Vantage_new partitions lines assoc portion slack aperture gran smooth mon = Some v" "0 < aperture"
  shows "va_inv v \<and> va_cands v = [] \<and> va_partitions v = partitions \<and> va_totalSize v = lines \<and> va_assoc v = assoc \<and>
    va_smoothTransients v = smooth \<and> va_partGranularity v = gran \<and> targets v = replicate partitions (nat \<lfloor>real lines * (real portion / 100)\<rfloor> div partitions)"
proof -
  have *: "cnt f k (replicate m x) = (if f x = k then m else 0)" for f :: "vantage_line \<Rightarrow> nat" and k m x by (simp add: cnt_def)
  have "va_counts v" using assms(1) by (auto simp: Vantage_new_def Let_def va_counts_def * nth_append less_Suc_eq_le split: bind_splits)
  moreover have "targets v = long_targets v" using assms(1) by (auto simp: Vantage_new_def Let_def targets_def long_targets_def split: bind_splits)
  moreover have "targets v = replicate partitions (nat \<lfloor>real lines * (real portion / 100)\<rfloor> div partitions)"
    using assms(1) by (auto simp: Vantage_new_def Let_def targets_def intro!: nth_equalityI split: bind_splits)
  moreover have "va_maxAperture v > 0" "va_partSlack v \<ge> 0" "va_cands v = []" "va_partitions v = partitions" "va_totalSize v = lines" "va_assoc v = assoc"
    "va_smoothTransients v = smooth" "va_partGranularity v = gran"
    using assms by (auto simp: Vantage_new_def Let_def split: bind_splits)
  ultimately show ?thesis by (simp add: va_inv_def va_targets_def)
qed

theorem vantage_replacement_exact_witness:
  "\<exists>v v1 b. Vantage_new 2 16 4 90 10 50 256 True () = Some v \<and> va_rank v any_req [0, 4, 8, 12] = Some (v1, b) \<and> b \<in> {0, 4, 8, 12} \<and> vl_ts (va_array v ! b) = 0"
proof -
  have "\<exists>v. Vantage_new 2 16 4 90 10 50 256 True () = Some v" by (simp add: Vantage_new_def Let_def)
  then obtain v where v: "Vantage_new 2 16 4 90 10 50 256 True () = Some v" by blast
  note n = va_new_inv [OF v]
  have ts: "vl_ts (va_array v ! 0) = 0" using v by (auto simp: Vantage_new_def Let_def split: bind_splits)
  have h: "va_inv v" "va_cands v = []" "[0, 4, 8, 12 :: nat] \<noteq> []" "length [0, 4, 8, 12 :: nat] \<le> va_assoc v" "\<forall>c\<in>set [0, 4, 8, 12]. c < va_totalSize v"
    "1 < va_partitions v" using n by simp_all
  have p: "ProcessPartMapper 1 2 any_req = Some 1" by (simp add: ProcessPartMapper_def)
  show ?thesis
    using vantage_replacement_exact [OF h(1-5), of "ProcessPartMapper 1 2" any_req 1 "\<lambda>n. 0" "\<lambda>m p a. Some m" 0] p h(6) ts v by auto
qed

theorem vantage_resize_completes_witness:
  "\<exists>v v'. Vantage_new 2 16 4 90 10 50 16 True () = Some v \<and> va_setPartitionSizes (\<lambda>k n. 0) v [10, 4] = Some v' \<and>
     sum_list (long_targets v') = 14 \<and> sum_list (targets v') = 14"
proof -
  have "\<exists>v. Vantage_new 2 16 4 90 10 50 16 True () = Some v" by (simp add: Vantage_new_def Let_def)
  then obtain v where v: "Vantage_new 2 16 4 90 10 50 16 True () = Some v" by blast
  note n = va_new_inv [OF v]
  have "replicate 2 7 = [7, 7 :: nat]" by (simp add: numeral_2_eq_2)
  then have t: "targets v = [7, 7]" using n by simp
  have s: "new_sizes v [10, 4] = [10, 4]" using n by (simp add: new_sizes_def)
  show ?thesis using vantage_resize_completes [of v "[10, 4]" "\<lambda>k n. 0"] n v by (auto simp: s t)
qed

section \<open>The instruction and data mapper\<close>

lemma record_all_none:
  assumes "wp_bestId w = None" "\<not> wp_testMode w" "wp_incomingLinePart w \<notin> set (wp_wayPartIndex w)" "record_all wp_recordCandidate w cands = Some w'"
  shows "wp_bestId w' = None"
  using assms
proof (induction cands arbitrary: w)
  case (Cons c cs)
  have "wp_wayPartIndex w ! i \<noteq> wp_incomingLinePart w" if "i < length (wp_wayPartIndex w)" for i using that Cons.prems(3) nth_mem by metis
  then have step: "w1 = w\<lparr>wp_candIdx := wp_candIdx w + 1\<rparr>" if "wp_recordCandidate w c = Some w1" for w1
    using Cons.prems(2) that by (auto simp: wp_recordCandidate_def Let_def aget_def split: bind_splits if_splits)
  obtain w1 where "wp_recordCandidate w c = Some w1" "record_all wp_recordCandidate w1 cs = Some w'" using Cons.prems(4) by (auto split: bind_splits)
  then show ?case using Cons.IH [of w1] step Cons.prems(1-3) by simp
qed simp

text \<open>
  C40. \<open>InstrDataPartMapper\<close> returns \<open>req.flags & IFETCH\<close>, which is 2 and not 1 for an instruction fetch. Its two partitions are 0 and 1: no way
  belongs to partition 2, so \<open>rank\<close> selects no candidate and fails its assertion on every instruction fetch that misses.
\<close>

theorem instr_mapper_no_victim:
  assumes "mr_flags req AND IFETCH \<noteq> 0" "\<not> wp_testMode w" "\<forall>p\<in>set (wp_wayPartIndex w). p < 2"
  shows "InstrDataPartMapper req = Some 2 \<and> wp_rank InstrDataPartMapper w req cands = None"
proof -
  have i: "IFETCH = 2 ^ 1" by (simp add: IFETCH_def)
  have "mr_flags req AND 2 ^ 1 = 2 ^ 1"
    using assms(1) unfolding i and_exp_eq_0_iff_not_bit by (intro bit_word_eqI) (auto simp only: bit_and_iff bit_exp_iff)
  then have "mr_flags req AND IFETCH = 2" by (simp add: i)
  then have m: "InstrDataPartMapper req = Some 2" by (simp add: InstrDataPartMapper_def)
  have "wp_rank InstrDataPartMapper w req cands = None"
  proof (rule ccontr)
    assume "wp_rank InstrDataPartMapper w req cands \<noteq> None"
    then obtain w' b where w': "record_all wp_recordCandidate (w\<lparr>wp_incomingLinePart := 2, wp_incomingLineAddr := mr_lineAddr req\<rparr>) cands = Some w'"
      "wp_bestId w' = Some b" "wp_bestId w = None"
      using m by (auto simp: wp_rank_def wp_startReplacement_def wp_getBestCandidate_def split: bind_splits)
    then show False using record_all_none [OF _ _ _ w'(1)] assms(2,3) by auto
  qed
  then show ?thesis using m by simp
qed

theorem instr_mapper_no_victim_witness:
  "\<exists>w. WayPart_new 2 8 4 False () = Some w \<and> wp_rank InstrDataPartMapper w (any_req\<lparr>mr_flags := IFETCH\<rparr>) [0, 2, 4, 6] = None"
proof -
  have "\<exists>w. WayPart_new 2 8 4 False () = Some w" by (simp add: WayPart_new_def Let_def)
  then obtain w where w: "WayPart_new 2 8 4 False () = Some w" by blast
  note n = wp_new_inv [OF w]
  have "wp_wayPartIndex w = [0, 0, 1, 1]" using n by (simp add: upt_rec)
  then show ?thesis
    using instr_mapper_no_victim [of "any_req\<lparr>mr_flags := IFETCH\<rparr>" w "[0, 2, 4, 6]"] n w by (auto simp: IFETCH_def)
qed

end
