(* ===== verification/UMonitor.thy ===== *)
theory UMonitor
  imports HashFam MemHier Complex_Main "HOL-Library.Multiset"
begin

text \<open>
  Utility monitors (\<^verbatim>\<open>src/utility_monitor.h\<close>, \<^verbatim>\<open>src/utility_monitor.cpp\<close>) and the monitor of all partitions
  (\<^verbatim>\<open>src/monitor.cpp\<close>, class \<open>UMonMonitor\<close> of \<^verbatim>\<open>src/partitioner.h\<close>).

  \<^item> A set of a monitor is an array of nodes linked from the most to the least recently used one; a pointer to a node is its index,
    and \<open>nullptr\<close> is \<open>None\<close>. Following a null pointer fails.
  \<^item> Counters keep their width; sizes and indices are natural numbers.
  \<^item> Section 2 shows that the linked nodes are the LRU stack of the set; the main theorem is the stack property.
  \<^item> The interpolation of \<open>getMissCurve\<close> is computed in real numbers where the code uses \<open>double\<close>.
\<close>

section \<open>One monitor\<close>

record umon_node =
  nd_addr :: Address
  nd_next :: "nat option"

record umon =
  um_umonLines :: nat
  um_samplingFactor :: nat
  um_buckets :: nat
  um_sets :: nat
  um_samplingFactorBits :: nat
  um_setsBits :: nat
  um_curWayHits :: "u64 list"
  um_curMisses :: u64
  um_array :: "umon_node list list"
  um_heads :: "nat list"
  um_hf :: h3_family

text \<open>\<open>while (tmp >>= 1) bits++\<close>\<close>

fun shift_bits :: "nat \<Rightarrow> nat" where
  "shift_bits tmp = (if tmp div 2 = 0 then 0 else Suc (shift_bits (tmp div 2)))"

declare shift_bits.simps [simp del]

definition umon_row :: "nat \<Rightarrow> umon_node list" where
  "umon_row buckets = map (\<lambda>j. \<lparr>nd_addr = 0, nd_next = if j < buckets - 1 then Some (j + 1) else None\<rparr>) [0..<buckets]"

definition UMon_new :: "nat \<Rightarrow> nat \<Rightarrow> nat \<Rightarrow> umon option" where
  "UMon_new bankLines umonLines buckets = do {
     assert_that (umonLines \<noteq> 0);
     assert_that (buckets \<noteq> 0);
     let sets = umonLines div buckets;
     let samplingFactor = bankLines div umonLines;
     hf \<leftarrow> H3HashFamily 2 32 0xF000BAAD;
     Some \<lparr>um_umonLines = umonLines, um_samplingFactor = samplingFactor, um_buckets = buckets, um_sets = sets,
           um_samplingFactorBits = shift_bits samplingFactor, um_setsBits = shift_bits sets,
           um_curWayHits = replicate buckets 0, um_curMisses = 0, um_array = replicate sets (umon_row buckets),
           um_heads = replicate sets 0, um_hf = hf\<rparr> }"

text \<open>The walk over a set: the last node visited, the one before it, and the position of a hit.\<close>

fun umon_find :: "umon_node list \<Rightarrow> Address \<Rightarrow> nat \<Rightarrow> nat \<Rightarrow> nat \<Rightarrow> nat option \<Rightarrow> nat \<Rightarrow> (nat option \<times> nat \<times> nat option) option" where
  "umon_find nodes a buckets b 0 prev cur = Some (prev, cur, None)"
| "umon_find nodes a buckets b (Suc n) prev cur = do {
     c \<leftarrow> aget nodes cur;
     if nd_addr c = a then Some (prev, cur, Some b)
     else if b < buckets - 1 then do {
       next \<leftarrow> nd_next c;
       umon_find nodes a buckets (b + 1) n (Some cur) next }
     else umon_find nodes a buckets (b + 1) n prev cur }"

definition umon_to_front :: "nat option \<Rightarrow> nat \<Rightarrow> umon_node list \<Rightarrow> nat \<Rightarrow> (umon_node list \<times> nat) option" where
  "umon_to_front prev cur nodes head =
     (case prev of
        None \<Rightarrow> Some (nodes, head)
      | Some p \<Rightarrow> do {
          c \<leftarrow> aget nodes cur;
          x \<leftarrow> aget nodes p;
          nodes \<leftarrow> aset nodes p (x\<lparr>nd_next := nd_next c\<rparr>);
          c \<leftarrow> aget nodes cur;
          nodes \<leftarrow> aset nodes cur (c\<lparr>nd_next := Some head\<rparr>);
          Some (nodes, cur) })"

definition umon_mask :: "nat \<Rightarrow> u64" where
  "umon_mask bits = NOT (push_bit bits (-1))"

definition umon_touch :: "umon \<Rightarrow> nat \<Rightarrow> Address \<Rightarrow> umon option" where
  "umon_touch u s lineAddr = do {
     head \<leftarrow> aget (um_heads u) s;
     nodes \<leftarrow> aget (um_array u) s;
     (prev, cur, hit) \<leftarrow> umon_find nodes lineAddr (um_buckets u) 0 (um_buckets u) None head;
     (u, nodes) \<leftarrow> (case hit of
         Some b \<Rightarrow> do {
           h \<leftarrow> aget (um_curWayHits u) b;
           Some (u\<lparr>um_curWayHits := (um_curWayHits u)[b := h + 1]\<rparr>, nodes) }
       | None \<Rightarrow> do {
           c \<leftarrow> aget nodes cur;
           assert_that (nd_next c = None);
           Some (u\<lparr>um_curMisses := um_curMisses u + 1\<rparr>, nodes[cur := c\<lparr>nd_addr := lineAddr\<rparr>]) });
     (nodes, head) \<leftarrow> umon_to_front prev cur nodes head;
     Some (u\<lparr>um_array := (um_array u)[s := nodes], um_heads := (um_heads u)[s := head]\<rparr>) }"

definition umon_access :: "umon \<Rightarrow> Address \<Rightarrow> umon option" where
  "umon_access u lineAddr = do {
     h0 \<leftarrow> h3_hash (um_hf u) 0 lineAddr;
     if h0 AND umon_mask (um_samplingFactorBits u) \<noteq> 0 then Some u
     else do {
       h1 \<leftarrow> h3_hash (um_hf u) 1 lineAddr;
       umon_touch u (unat (h1 AND umon_mask (um_setsBits u))) lineAddr } }"

definition umon_getNumAccesses :: "umon \<Rightarrow> u64" where
  "umon_getNumAccesses u = foldl (\<lambda>tot i. tot + um_curWayHits u ! (um_buckets u - i - 1)) (um_curMisses u) [0..<um_buckets u]"

text \<open>\<open>getMisses\<close> fills the array of the caller.\<close>

fun umon_fill :: "u64 list \<Rightarrow> nat \<Rightarrow> nat \<Rightarrow> nat \<Rightarrow> u64 \<Rightarrow> u64 list \<Rightarrow> (u64 list \<times> u64) option" where
  "umon_fill hits buckets i 0 tot misses = Some (misses, tot)"
| "umon_fill hits buckets i (Suc n) tot misses = do {
     misses \<leftarrow> aset misses (buckets - i) tot;
     h \<leftarrow> aget hits (buckets - i - 1);
     umon_fill hits buckets (i + 1) n (tot + h) misses }"

definition umon_getMisses :: "umon \<Rightarrow> u64 list \<Rightarrow> u64 list option" where
  "umon_getMisses u misses = do {
     (misses, tot) \<leftarrow> umon_fill (um_curWayHits u) (um_buckets u) 0 (um_buckets u) (um_curMisses u) misses;
     aset misses 0 tot }"

definition umon_startNextInterval :: "umon \<Rightarrow> umon" where
  "umon_startNextInterval u = u\<lparr>um_curMisses := 0, um_curWayHits := replicate (um_buckets u) 0\<rparr>"

section \<open>The monitor of all partitions\<close>

record umon_monitor =
  mn_buckets :: nat
  mn_missCache :: "u32 list"
  mn_missCacheValid :: bool
  mn_monitors :: "umon list"

definition UMonMonitor_new :: "nat \<Rightarrow> nat \<Rightarrow> nat \<Rightarrow> nat \<Rightarrow> nat \<Rightarrow> umon_monitor option" where
  "UMonMonitor_new numLines umonLines umonBuckets numPartitions buckets = do {
     assert_that (numPartitions > 0);
     u \<leftarrow> UMon_new numLines umonLines umonBuckets;
     Some \<lparr>mn_buckets = buckets, mn_missCache = replicate (buckets * numPartitions) 0, mn_missCacheValid = False,
           mn_monitors = replicate numPartitions u\<rparr> }"

definition mon_access :: "umon_monitor \<Rightarrow> nat \<Rightarrow> Address \<Rightarrow> umon_monitor option" where
  "mon_access m part lineAddr = do {
     u \<leftarrow> aget (mn_monitors m) part;
     u \<leftarrow> umon_access u lineAddr;
     assert_that (\<not> mn_missCacheValid m);
     Some (m\<lparr>mn_monitors := (mn_monitors m)[part := u], mn_missCacheValid := False\<rparr>) }"

definition mon_getNumAccesses :: "umon_monitor \<Rightarrow> nat \<Rightarrow> u32 option" where
  "mon_getNumAccesses m part = do {
     u \<leftarrow> aget (mn_monitors m) part;
     Some (ucast (umon_getNumAccesses u)) }"

text \<open>Writing a curve at \<open>misses = missCache + base\<close>, from the misses of the monitor.\<close>

fun curve_down :: "u64 list \<Rightarrow> nat \<Rightarrow> nat \<Rightarrow> nat \<Rightarrow> nat \<Rightarrow> u32 list \<Rightarrow> u32 list option" where
  "curve_down um ratio base j 0 cache = Some cache"
| "curve_down um ratio base j (Suc n) cache = do {
     x \<leftarrow> aget um (j * ratio);
     cache \<leftarrow> aset cache (base + j) (ucast x);
     curve_down um ratio base (j + 1) n cache }"

definition interpolate :: "u64 \<Rightarrow> u64 \<Rightarrow> nat \<Rightarrow> nat \<Rightarrow> u32" where
  "interpolate m0 m1 k ratio =
     (let frac = real k / real ratio in of_int \<lfloor>real (unat m0) * (1 - frac) + real (unat m1) * frac\<rfloor>)"

fun curve_between :: "u64 \<Rightarrow> u64 \<Rightarrow> nat \<Rightarrow> nat \<Rightarrow> nat \<Rightarrow> nat \<Rightarrow> u32 list \<Rightarrow> u32 list option" where
  "curve_between m0 m1 ratio pos k 0 cache = Some cache"
| "curve_between m0 m1 ratio pos k (Suc n) cache = do {
     cache \<leftarrow> aset cache (pos + k) (interpolate m0 m1 k ratio);
     curve_between m0 m1 ratio pos (k + 1) n cache }"

fun curve_up :: "u64 list \<Rightarrow> nat \<Rightarrow> nat \<Rightarrow> nat \<Rightarrow> nat \<Rightarrow> nat \<Rightarrow> nat \<Rightarrow> u32 list \<Rightarrow> u32 list option" where
  "curve_up um ratio umonBuckets buckets base j 0 cache = Some cache"
| "curve_up um ratio umonBuckets buckets base j (Suc n) cache = do {
     m0 \<leftarrow> aget um j;
     cache \<leftarrow> aset cache (base + ratio * j) (ucast m0);
     m1 \<leftarrow> aget um (j + 1);
     cache \<leftarrow> curve_between m0 m1 ratio (base + ratio * j) 1 (ratio - 1) cache;
     l \<leftarrow> aget um umonBuckets;
     cache \<leftarrow> aset cache (base + buckets) (ucast l);
     curve_up um ratio umonBuckets buckets base (j + 1) n cache }"

definition mon_getMissCurve :: "umon_monitor \<Rightarrow> nat \<Rightarrow> u32 list \<Rightarrow> nat \<Rightarrow> u32 list option" where
  "mon_getMissCurve m base cache part = do {
     u \<leftarrow> aget (mn_monitors m) part;
     let umonBuckets = um_buckets u;
     let buckets = mn_buckets m;
     umonMisses \<leftarrow> umon_getMisses u (replicate umonBuckets 0);
     if umonBuckets \<ge> buckets then do {
       assert_that (umonBuckets mod buckets = 0);
       cache \<leftarrow> curve_down umonMisses (umonBuckets div buckets) base 0 buckets cache;
       l \<leftarrow> aget umonMisses umonBuckets;
       aset cache (base + buckets) (ucast l) }
     else do {
       assert_that (buckets mod umonBuckets = 0);
       curve_up umonMisses (buckets div umonBuckets) umonBuckets buckets base 0 umonBuckets cache } }"

fun mon_curves :: "umon_monitor \<Rightarrow> nat \<Rightarrow> nat \<Rightarrow> u32 list \<Rightarrow> u32 list option" where
  "mon_curves m p 0 cache = Some cache"
| "mon_curves m p (Suc n) cache = mon_getMissCurve m (p * mn_buckets m) cache p \<bind> mon_curves m (p + 1) n"

definition mon_getMissCurves :: "umon_monitor \<Rightarrow> umon_monitor option" where
  "mon_getMissCurves m = do {
     cache \<leftarrow> mon_curves m 0 (length (mn_monitors m)) (mn_missCache m);
     Some (m\<lparr>mn_missCache := cache\<rparr>) }"

definition mon_get :: "umon_monitor \<Rightarrow> nat \<Rightarrow> nat \<Rightarrow> (umon_monitor \<times> u32) option" where
  "mon_get m part bucket = do {
     assert_that (part < length (mn_monitors m));
     m \<leftarrow> (if mn_missCacheValid m then Some m
           else do { m \<leftarrow> mon_getMissCurves m; Some (m\<lparr>mn_missCacheValid := True\<rparr>) });
     x \<leftarrow> aget (mn_missCache m) (part * mn_buckets m + bucket);
     Some (m, x) }"

definition mon_reset :: "umon_monitor \<Rightarrow> umon_monitor" where
  "mon_reset m = m\<lparr>mn_monitors := map umon_startNextInterval (mn_monitors m), mn_missCacheValid := False\<rparr>"

section \<open>The nodes of a set are its LRU stack\<close>

text \<open>\<open>linked nodes ps\<close>: the indices \<open>ps\<close> are the chain of nodes in order, and all of them.\<close>

definition linked :: "umon_node list \<Rightarrow> nat list \<Rightarrow> bool" where
  "linked nodes ps \<longleftrightarrow> ps \<noteq> [] \<and> distinct ps \<and> length ps = length nodes \<and> (\<forall>p\<in>set ps. p < length nodes) \<and>
     (\<forall>j < length ps. nd_next (nodes ! (ps ! j)) = (if Suc j < length ps then Some (ps ! Suc j) else None))"

definition stack_of :: "umon_node list \<Rightarrow> nat list \<Rightarrow> Address list" where
  "stack_of nodes ps = map (\<lambda>p. nd_addr (nodes ! p)) ps"

text \<open>An LRU stack of \<open>k\<close> ways: the reference.\<close>

definition lru_touch :: "nat \<Rightarrow> Address list \<Rightarrow> Address \<Rightarrow> Address list" where
  "lru_touch k s a = (if a \<in> set s then a # remove1 a s else take k (a # s))"

definition to_front :: "nat \<Rightarrow> 'a list \<Rightarrow> 'a list" where
  "to_front j xs = xs ! j # take j xs @ drop (Suc j) xs"

lemma to_front_nth: "j < length xs \<Longrightarrow> i < length xs \<Longrightarrow> to_front j xs ! i = (if i = 0 then xs ! j else if i \<le> j then xs ! (i - 1) else xs ! i)"
  by (auto simp: to_front_def nth_Cons' nth_append)

lemma to_front_length [simp]: "j < length xs \<Longrightarrow> length (to_front j xs) = length xs"
  by (simp add: to_front_def)

lemma to_front_perm:
  assumes "j < length xs"
  shows "set (to_front j xs) = set xs" "distinct (to_front j xs) = distinct xs"
proof -
  have "mset (to_front j xs) = mset (take j xs @ xs ! j # drop (Suc j) xs)" by (simp add: to_front_def)
  also have "take j xs @ xs ! j # drop (Suc j) xs = xs" using assms by (simp add: id_take_nth_drop [symmetric])
  finally have m: "mset (to_front j xs) = mset xs" .
  then show "set (to_front j xs) = set xs" by (rule mset_eq_setD)
  show "distinct (to_front j xs) = distinct xs" using m by (rule mset_eq_imp_distinct_iff)
qed

lemma umon_find_ok:
  assumes "linked nodes ps" "b + n = length ps" "0 < n" "prev = (if b = 0 then None else Some (ps ! (b - 1)))"
  shows "\<exists>j. b \<le> j \<and> j < length ps \<and> (\<forall>i. b \<le> i \<and> i < j \<longrightarrow> nd_addr (nodes ! (ps ! i)) \<noteq> a) \<and>
    (nd_addr (nodes ! (ps ! j)) = a \<or> Suc j = length ps) \<and>
    umon_find nodes a (length ps) b n prev (ps ! b) =
      Some (if j = 0 then None else Some (ps ! (j - 1)), ps ! j, if nd_addr (nodes ! (ps ! j)) = a then Some j else None)"
  using assms
proof (induction n arbitrary: b prev)
  case (Suc n)
  have b: "b < length ps" "ps ! b < length nodes" using Suc.prems(1,2) by (auto simp: linked_def)
  show ?case
  proof (cases "nd_addr (nodes ! (ps ! b)) = a")
    case True
    then show ?thesis using b Suc.prems(4) by (intro exI [of _ b]) auto
  next
    case False
    show ?thesis
    proof (cases n)
      case 0
      then show ?thesis using False b Suc.prems by (intro exI [of _ b]) auto
    next
      case (Suc m)
      then have nx: "nd_next (nodes ! (ps ! b)) = Some (ps ! Suc b)" "b < length ps - 1" using Suc.prems(1,2) b by (auto simp: linked_def)
      have h: "Suc b + n = length ps" "0 < n" "Some (ps ! b) = (if Suc b = 0 then None else Some (ps ! (Suc b - 1)))" using Suc.prems(2) Suc by auto
      obtain j where r: "Suc b \<le> j" "j < length ps" "\<forall>i. Suc b \<le> i \<and> i < j \<longrightarrow> nd_addr (nodes ! (ps ! i)) \<noteq> a"
        "nd_addr (nodes ! (ps ! j)) = a \<or> Suc j = length ps"
        "umon_find nodes a (length ps) (Suc b) n (Some (ps ! b)) (ps ! Suc b) =
          Some (if j = 0 then None else Some (ps ! (j - 1)), ps ! j, if nd_addr (nodes ! (ps ! j)) = a then Some j else None)"
        using Suc.IH [OF Suc.prems(1) h] by (elim exE conjE) (rule that)
      have "nd_addr (nodes ! (ps ! i)) \<noteq> a" if "b \<le> i" "i < j" for i using r(3) that False by (cases "i = b") auto
      then show ?thesis using r False b nx by (intro exI [of _ j]) auto
    qed
  qed
qed simp

lemma umon_to_front_ok:
  assumes l: "linked nodes ps" and j: "j < length ps"
  shows "\<exists>nodes'. umon_to_front (if j = 0 then None else Some (ps ! (j - 1))) (ps ! j) nodes (ps ! 0) = Some (nodes', to_front j ps ! 0) \<and>
    linked nodes' (to_front j ps) \<and> map nd_addr nodes' = map nd_addr nodes"
proof (cases j)
  case 0
  have "to_front 0 ps = ps" using l by (cases ps) (auto simp: to_front_def linked_def)
  then show ?thesis using 0 l by (simp add: umon_to_front_def)
next
  case (Suc k)
  have len: "ps ! i < length nodes" if "i < length ps" for i using l that by (simp add: linked_def)
  have inj: "ps ! i = ps ! i' \<longleftrightarrow> i = i'" if "i < length ps" "i' < length ps" for i i' using l that by (simp add: linked_def nth_eq_iff_index_eq)
  have nx: "nd_next (nodes ! (ps ! i)) = (if Suc i < length ps then Some (ps ! Suc i) else None)" if "i < length ps" for i using l that by (simp add: linked_def)
  define nodes' where "nodes' = nodes[ps ! k := (nodes ! (ps ! k))\<lparr>nd_next := nd_next (nodes ! (ps ! j))\<rparr>, ps ! j := (nodes ! (ps ! j))\<lparr>nd_next := Some (ps ! 0)\<rparr>]"
  have k: "k < length ps" "ps ! k \<noteq> ps ! j" using Suc j inj [of k j] by auto
  have "umon_to_front (Some (ps ! k)) (ps ! j) nodes (ps ! 0) = Some (nodes', ps ! j)"
    using k j len [of k] len [of j] by (simp add: umon_to_front_def nodes'_def)
  moreover have "nd_next (nodes' ! (to_front j ps ! i)) = (if Suc i < length ps then Some (to_front j ps ! Suc i) else None)" if "i < length ps" for i
  proof -
    have new: "nd_next (nodes' ! (ps ! x)) = (if x = j then Some (ps ! 0) else if x = k then nd_next (nodes ! (ps ! j)) else nd_next (nodes ! (ps ! x)))" if "x < length ps" for x
      using that k j len inj by (auto simp: nodes'_def nth_list_update)
    consider "i = 0" | "0 < i" "i < j" | "i = j" | "j < i" by linarith
    then show ?thesis
    proof cases
      case 2
      then have "nd_next (nodes' ! (ps ! (i - 1))) = nd_next (nodes ! (ps ! (i - 1)))" using new [of "i - 1"] j Suc by auto
      then show ?thesis using 2 that j nx [of "i - 1"] by (simp add: to_front_nth)
    next
      case 3
      then show ?thesis using j k Suc new [of k] nx [of j] by (simp add: to_front_nth)
    next
      case 4
      then show ?thesis using that j k new [of i] nx [of i] Suc by (simp add: to_front_nth)
    qed (use j k Suc new [of j] \<open>i < length ps\<close> in \<open>simp add: to_front_nth\<close>)
  qed
  then have "linked nodes' (to_front j ps)"
    using l j to_front_perm [OF j] unfolding linked_def by (auto simp: nodes'_def to_front_def)
  moreover have "map nd_addr nodes' = map nd_addr nodes"
    using k j len by (auto simp: nodes'_def nth_list_update intro!: nth_equalityI)
  ultimately show ?thesis using Suc j by (auto simp: to_front_def)
qed

text \<open>The position of an address in a stack; the length of the stack when it is not there.\<close>

definition pos :: "Address \<Rightarrow> Address list \<Rightarrow> nat" where
  "pos a s = length (takeWhile (\<lambda>x. x \<noteq> a) s)"

lemma pos_eqI: "j < length s \<Longrightarrow> s ! j = a \<Longrightarrow> (\<And>i. i < j \<Longrightarrow> s ! i \<noteq> a) \<Longrightarrow> pos a s = j"
  unfolding pos_def using takeWhile_eq_take_P_nth [of j s "\<lambda>x. x \<noteq> a"] by simp

lemma pos_less_iff: "pos a s < length s \<longleftrightarrow> a \<in> set s"
  unfolding pos_def by (induction s) auto

lemma in_take_iff: "k \<le> length s \<Longrightarrow> a \<in> set (take k s) \<longleftrightarrow> pos a s < k"
proof (induction s arbitrary: k)
  case (Cons x s)
  then show ?case by (cases k) (auto simp: pos_def)
qed (simp add: pos_def)

lemma to_front_remove1: "a \<in> set s \<Longrightarrow> to_front (pos a s) s = a # remove1 a s"
  by (induction s) (auto simp: to_front_def pos_def)

lemma lru_touch_take:
  assumes "k \<le> length s"
  shows "take k (lru_touch (length s) s a) = lru_touch k (take k s) a"
proof (cases "a \<in> set (take k s)")
  case True
  have "remove1 a s = remove1 a (take k s) @ drop k s" using True remove1_append [of a "take k s" "drop k s"] by simp
  moreover have "length (remove1 a (take k s)) = k - 1" using True assms by (simp add: length_remove1)
  moreover have "0 < k" using True by (cases k) auto
  ultimately show ?thesis using True in_set_takeD [OF True] by (cases k) (auto simp: lru_touch_def)
next
  case False
  have "take k (a # remove1 a s) = take k (a # s)"
  proof (cases k)
    case (Suc n)
    have "remove1 a s = take k s @ remove1 a (drop k s)" using False remove1_append [of a "take k s" "drop k s"] by simp
    then show ?thesis using Suc assms by simp
  qed simp
  then show ?thesis using False assms by (auto simp: lru_touch_def take_Cons' min_def)
qed

lemma lru_touch_length: "length s = n \<Longrightarrow> length (lru_touch n s a) = n"
  by (auto simp: lru_touch_def length_remove1 Suc_leI dest: length_pos_if_in_set)

section \<open>An access moves the stack\<close>

definition um_rep :: "umon \<Rightarrow> Address list list \<Rightarrow> bool" where
  "um_rep u stacks \<longleftrightarrow> 0 < um_buckets u \<and> length stacks = um_sets u \<and> length (um_heads u) = um_sets u \<and> length (um_array u) = um_sets u \<and>
     length (um_curWayHits u) = um_buckets u \<and>
     (\<forall>s < um_sets u. \<exists>ps. linked (um_array u ! s) ps \<and> length ps = um_buckets u \<and> um_heads u ! s = ps ! 0 \<and> stacks ! s = stack_of (um_array u ! s) ps)"

lemma linked_addr: "linked nodes ps \<Longrightarrow> linked (nodes[p := (nodes ! p)\<lparr>nd_addr := a\<rparr>]) ps"
  unfolding linked_def by (cases "p < length nodes") (auto simp: nth_list_update not_less list_update_beyond)

lemma stack_of_to_front:
  assumes "linked nodes ps" "j < length ps" "map nd_addr nodes' = map nd_addr nodes"
  shows "stack_of nodes' (to_front j ps) = to_front j (stack_of nodes ps)"
proof -
  have "nd_addr (nodes' ! p) = nd_addr (nodes ! p)" if "p \<in> set ps" for p
  proof -
    have "p < length nodes" using assms(1) that by (simp add: linked_def)
    then show ?thesis using arg_cong [OF assms(3), of "\<lambda>xs. xs ! p"] map_eq_imp_length_eq [OF assms(3)] by simp
  qed
  then have "stack_of nodes' (to_front j ps) = stack_of nodes (to_front j ps)" using to_front_perm(1) [OF assms(2)] by (simp add: stack_of_def)
  then show ?thesis using assms(2) by (simp add: stack_of_def to_front_def take_map drop_map)
qed

lemma umon_touch_ok:
  assumes rep: "um_rep u stacks" and s: "s < um_sets u"
  defines "st \<equiv> stacks ! s"
  shows "\<exists>nodes head. umon_touch u s a = Some (u\<lparr>um_array := (um_array u)[s := nodes], um_heads := (um_heads u)[s := head],
      um_curWayHits := (if a \<in> set st then (um_curWayHits u)[pos a st := um_curWayHits u ! pos a st + 1] else um_curWayHits u),
      um_curMisses := um_curMisses u + of_bool (a \<notin> set st)\<rparr>) \<and>
    (\<exists>ps. linked nodes ps \<and> length ps = um_buckets u \<and> head = ps ! 0 \<and> lru_touch (um_buckets u) st a = stack_of nodes ps)"
proof -
  let ?n = "um_buckets u"
  define nodes where "nodes = um_array u ! s"
  have len: "s < length (um_heads u)" "s < length (um_array u)" "length (um_curWayHits u) = ?n" "0 < ?n" using rep s by (simp_all add: um_rep_def)
  obtain ps where ps: "linked nodes ps" "length ps = ?n" "um_heads u ! s = ps ! 0" "st = stack_of nodes ps"
    using rep s unfolding um_rep_def nodes_def st_def by blast
  have nth: "st ! i = nd_addr (nodes ! (ps ! i))" if "i < ?n" for i using ps(2,4) that by (simp add: stack_of_def)
  have slen: "length st = ?n" using ps(2,4) by (simp add: stack_of_def)
  obtain j where j: "j < ?n" "\<forall>i. 0 \<le> i \<and> i < j \<longrightarrow> nd_addr (nodes ! (ps ! i)) \<noteq> a" "nd_addr (nodes ! (ps ! j)) = a \<or> Suc j = ?n"
    "umon_find nodes a ?n 0 ?n None (ps ! 0) = Some (if j = 0 then None else Some (ps ! (j - 1)), ps ! j, if nd_addr (nodes ! (ps ! j)) = a then Some j else None)"
    using umon_find_ok [of nodes ps 0 ?n None a] ps(1,2) len(4) by auto
  have pj: "ps ! j < length nodes" using ps(1,2) j(1) by (simp add: linked_def)
  show ?thesis
  proof (cases "nd_addr (nodes ! (ps ! j)) = a")
    case True
    have p: "pos a st = j" using j nth True slen by (intro pos_eqI) auto
    have mem: "a \<in> set st" using True nth [OF j(1)] j(1) slen by (metis nth_mem)
    obtain nodes' where n': "umon_to_front (if j = 0 then None else Some (ps ! (j - 1))) (ps ! j) nodes (ps ! 0) = Some (nodes', to_front j ps ! 0)"
      "linked nodes' (to_front j ps)" "map nd_addr nodes' = map nd_addr nodes" using umon_to_front_ok [OF ps(1), of j] j(1) ps(2) by auto
    have "stack_of nodes' (to_front j ps) = lru_touch ?n st a"
      using stack_of_to_front [OF ps(1) _ n'(3), of j] j(1) ps(2,4) to_front_remove1 [OF mem] p mem by (simp add: lru_touch_def)
    moreover have "umon_touch u s a = Some (u\<lparr>um_array := (um_array u)[s := nodes'], um_heads := (um_heads u)[s := to_front j ps ! 0],
        um_curWayHits := (um_curWayHits u)[j := um_curWayHits u ! j + 1], um_curMisses := um_curMisses u + 0\<rparr>)"
      using len j(1,4) True n'(1) ps(3) by (simp add: umon_touch_def nodes_def)
    ultimately show ?thesis using p mem n'(2) j(1) ps(2) by (intro exI [of _ nodes'] exI [of _ "to_front j ps ! 0"] conjI exI [of _ "to_front j ps"]) simp_all
  next
    case False
    then have jn: "Suc j = ?n" using j(3) by blast
    have "\<forall>i < ?n. st ! i \<noteq> a" using j(2) False jn nth by (metis le0 less_SucE)
    then have mem: "a \<notin> set st" using slen by (auto simp: in_set_conv_nth)
    define nodes1 where "nodes1 = nodes[ps ! j := (nodes ! (ps ! j))\<lparr>nd_addr := a\<rparr>]"
    have l1: "linked nodes1 ps" unfolding nodes1_def by (rule linked_addr [OF ps(1)])
    have nx: "nd_next (nodes ! (ps ! j)) = None" using ps(1,2) j(1) jn by (simp add: linked_def)
    obtain nodes' where n': "umon_to_front (if j = 0 then None else Some (ps ! (j - 1))) (ps ! j) nodes1 (ps ! 0) = Some (nodes', to_front j ps ! 0)"
      "linked nodes' (to_front j ps)" "map nd_addr nodes' = map nd_addr nodes1" using umon_to_front_ok [OF l1, of j] j(1) ps(2) by auto
    have "stack_of nodes1 ps = st[j := a]"
      using ps pj j(1) unfolding nodes1_def stack_of_def by (auto simp: linked_def nth_list_update nth_eq_iff_index_eq intro!: nth_equalityI)
    then have "stack_of nodes' (to_front j ps) = to_front j (st[j := a])"
      using stack_of_to_front [OF l1 _ n'(3), of j] j(1) ps(2) by simp
    also have "\<dots> = lru_touch ?n st a" using jn slen mem by (cases ?n) (auto simp: to_front_def lru_touch_def)
    finally have "stack_of nodes' (to_front j ps) = lru_touch ?n st a" .
    moreover have "umon_touch u s a = Some (u\<lparr>um_array := (um_array u)[s := nodes'], um_heads := (um_heads u)[s := to_front j ps ! 0],
        um_curWayHits := um_curWayHits u, um_curMisses := um_curMisses u + 1\<rparr>)"
      using len j(4) False n'(1) ps(3) pj nx by (simp add: umon_touch_def nodes_def nodes1_def)
    ultimately show ?thesis using mem n'(2) j(1) ps(2) by (intro exI [of _ nodes'] exI [of _ "to_front j ps ! 0"] conjI exI [of _ "to_front j ps"]) simp_all
  qed
qed

section \<open>The stack property\<close>

lemma umon_mask_eq: "umon_mask bits = mask bits"
  by (simp add: umon_mask_def push_bit_minus_one_eq_not_mask)

lemma shift_bits_le: "0 < n \<Longrightarrow> 2 ^ shift_bits n \<le> n"
proof (induction n rule: shift_bits.induct)
  case (1 n)
  show ?case
  proof (cases "n div 2 = 0")
    case False
    then have "2 ^ shift_bits (n div 2) \<le> n div 2" using 1 by simp
    then show ?thesis using False by (subst shift_bits.simps) simp
  next
    case True
    then show ?thesis using 1(2) by (subst shift_bits.simps) simp
  qed
qed

definition um_sampled :: "umon \<Rightarrow> Address \<Rightarrow> bool" where
  "um_sampled u a \<longleftrightarrow> (case h3_hash (um_hf u) 0 a of Some h \<Rightarrow> h AND umon_mask (um_samplingFactorBits u) = 0 | None \<Rightarrow> False)"

definition um_set :: "umon \<Rightarrow> Address \<Rightarrow> nat" where
  "um_set u a = unat (the (h3_hash (um_hf u) 1 a) AND umon_mask (um_setsBits u))"

text \<open>A cache with the sets and the sampling of the monitor and \<open>k\<close> ways of LRU, counting its misses.\<close>

definition lru_cache_step :: "umon \<Rightarrow> nat \<Rightarrow> Address list list \<times> nat \<Rightarrow> Address \<Rightarrow> Address list list \<times> nat" where
  "lru_cache_step u k c a =
     (if um_sampled u a then
        ((fst c)[um_set u a := lru_touch k (fst c ! um_set u a) a], snd c + of_bool (a \<notin> set (fst c ! um_set u a)))
      else c)"

definition lru_cache_run :: "umon \<Rightarrow> nat \<Rightarrow> Address list \<Rightarrow> Address list list \<times> nat" where
  "lru_cache_run u k = foldl (lru_cache_step u k) (replicate (um_sets u) (replicate k 0), 0)"

fun umon_run :: "umon \<Rightarrow> Address list \<Rightarrow> umon option" where
  "umon_run u [] = Some u"
| "umon_run u (a # as) = umon_access u a \<bind> (\<lambda>u. umon_run u as)"

definition um_curve :: "umon \<Rightarrow> nat \<Rightarrow> u64" where
  "um_curve u k = um_curMisses u + sum_list (drop k (um_curWayHits u))"

definition um_fixed :: "umon \<Rightarrow> umon \<Rightarrow> bool" where
  "um_fixed u u' \<longleftrightarrow> um_buckets u' = um_buckets u \<and> um_sets u' = um_sets u \<and> um_setsBits u' = um_setsBits u \<and>
     um_samplingFactorBits u' = um_samplingFactorBits u \<and> um_hf u' = um_hf u"

definition um_good :: "umon \<Rightarrow> bool" where
  "um_good u \<longleftrightarrow> 0 < um_sets u \<and> um_setsBits u = shift_bits (um_sets u) \<and> h3_wf (um_hf u) \<and> h3_numFuncs (um_hf u) = 2"

lemma um_set_less: "um_good u \<Longrightarrow> um_set u a < um_sets u"
proof -
  assume g: "um_good u"
  have "unat (take_bit (um_setsBits u) w) < 2 ^ um_setsBits u" for w :: u64
    by (simp add: unsigned_take_bit_eq take_bit_nat_less_exp)
  then have "um_set u a < 2 ^ um_setsBits u" by (simp add: um_set_def umon_mask_eq take_bit_eq_mask)
  then show ?thesis using shift_bits_le [of "um_sets u"] g by (simp add: um_good_def)
qed

lemma sum_drop_update:
  fixes xs :: "u64 list"
  assumes "b < length xs"
  shows "sum_list (drop k (xs[b := xs ! b + 1])) = sum_list (drop k xs) + of_bool (k \<le> b)"
proof (cases "k \<le> b")
  case True
  have upd: "sum_list (ys[i := ys ! i + 1]) = sum_list ys + 1" if "i < length ys" for ys :: "u64 list" and i
    using that by (induction ys arbitrary: i) (auto split: nat.splits)
  have "drop k (xs[b := xs ! b + 1]) = (drop k xs)[b - k := drop k xs ! (b - k) + 1]" using True assms by (simp add: drop_update_swap)
  then show ?thesis using True assms upd [of "b - k" "drop k xs"] by simp
qed simp

lemma um_rep_nth: "um_rep u stacks \<Longrightarrow> s < um_sets u \<Longrightarrow> length (stacks ! s) = um_buckets u"
  unfolding um_rep_def stack_of_def by fastforce

lemma umon_access_ok:
  assumes g: "um_good u" and rep: "um_rep u stacks"
  shows "\<exists>u' stacks' d. umon_access u a = Some u' \<and> um_fixed u u' \<and> um_rep u' stacks' \<and>
    (\<forall>k \<le> um_buckets u. um_curve u' k = um_curve u k + of_nat (d k) \<and>
       (\<forall>m. lru_cache_step u k (map (take k) stacks, m) a = (map (take k) stacks', m + d k)))"
proof -
  obtain h0 h1 where h: "h3_hash (um_hf u) 0 a = Some h0" "h3_hash (um_hf u) 1 a = Some h1"
    using h3_hash_total [of "um_hf u" 0 a] h3_hash_total [of "um_hf u" 1 a] g by (auto simp: um_good_def)
  show ?thesis
  proof (cases "um_sampled u a")
    case False
    then have "umon_access u a = Some u" using h by (simp add: umon_access_def um_sampled_def)
    then show ?thesis using False rep by (intro exI [of _ u] exI [of _ stacks] exI [of _ "\<lambda>k. 0"]) (simp add: um_fixed_def lru_cache_step_def)
  next
    case True
    let ?s = "um_set u a" let ?st = "stacks ! um_set u a"
    have s: "?s < um_sets u" using um_set_less [OF g] .
    have touch: "umon_access u a = umon_touch u ?s a" using True h by (simp add: umon_access_def um_sampled_def um_set_def)
    obtain nodes head ps where t: "umon_touch u ?s a = Some (u\<lparr>um_array := (um_array u)[?s := nodes], um_heads := (um_heads u)[?s := head],
        um_curWayHits := (if a \<in> set ?st then (um_curWayHits u)[pos a ?st := um_curWayHits u ! pos a ?st + 1] else um_curWayHits u),
        um_curMisses := um_curMisses u + of_bool (a \<notin> set ?st)\<rparr>)" (is "_ = Some ?u")
      "linked nodes ps" "length ps = um_buckets u" "head = ps ! 0" "lru_touch (um_buckets u) ?st a = stack_of nodes ps"
      using umon_touch_ok [OF rep s, of a] by blast
    let ?stacks = "stacks[?s := lru_touch (um_buckets u) ?st a]"
    have rep': "um_rep ?u ?stacks"
      using rep s t(2-5) unfolding um_rep_def by (auto simp: nth_list_update)
    have len: "length ?st = um_buckets u" "length (um_curWayHits u) = um_buckets u" "length stacks = um_sets u"
      using um_rep_nth [OF rep s] rep by (simp_all add: um_rep_def)
    have c: "um_curve ?u k = um_curve u k + of_nat (of_bool (a \<notin> set (take k ?st)))" if k: "k \<le> um_buckets u" for k
    proof (cases "a \<in> set ?st")
      case True
      then have "pos a ?st < length (um_curWayHits u)" using pos_less_iff [of a ?st] len by simp
      then show ?thesis using True k in_take_iff [of k ?st a] len sum_drop_update [of "pos a ?st" "um_curWayHits u" k]
        by (auto simp: um_curve_def)
    next
      case False
      then show ?thesis using in_set_takeD [of a k ?st] by (auto simp: um_curve_def)
    qed
    have st: "lru_cache_step u k (map (take k) stacks, m) a = (map (take k) ?stacks, m + of_bool (a \<notin> set (take k ?st)))" if k: "k \<le> um_buckets u" for k m
      using True s k len lru_touch_take [of k ?st a] by (simp add: lru_cache_step_def map_update)
    show ?thesis using touch t(1) rep' c st
      by (intro exI [of _ ?u] exI [of _ ?stacks] exI [of _ "\<lambda>k. of_bool (a \<notin> set (take k ?st))"]) (simp add: um_fixed_def)
  qed
qed

lemma um_fixed_simps:
  assumes "um_fixed u u'"
  shows "um_good u' = um_good u" "lru_cache_step u' = lru_cache_step u" "um_buckets u' = um_buckets u"
  using assms unfolding um_fixed_def um_good_def lru_cache_step_def um_sampled_def um_set_def fun_eq_iff by presburger+

lemma umon_run_ok:
  assumes "um_good u" "um_rep u stacks"
  shows "\<exists>u' stacks' d. umon_run u as = Some u' \<and> um_fixed u u' \<and> um_rep u' stacks' \<and>
    (\<forall>k \<le> um_buckets u. um_curve u' k = um_curve u k + of_nat (d k) \<and>
       (\<forall>m. foldl (lru_cache_step u k) (map (take k) stacks, m) as = (map (take k) stacks', m + d k)))"
  using assms
proof (induction as arbitrary: u stacks)
  case Nil
  then show ?case by (intro exI [of _ u] exI [of _ stacks] exI [of _ "\<lambda>k. 0"]) (simp add: um_fixed_def)
next
  case (Cons a as)
  obtain u1 stacks1 d1 where s: "umon_access u a = Some u1" "um_fixed u u1" "um_rep u1 stacks1"
    "\<forall>k \<le> um_buckets u. um_curve u1 k = um_curve u k + of_nat (d1 k) \<and>
       (\<forall>m. lru_cache_step u k (map (take k) stacks, m) a = (map (take k) stacks1, m + d1 k))"
    using umon_access_ok [OF Cons.prems, of a] by blast
  note f = um_fixed_simps [OF s(2)]
  obtain u' stacks' d where r: "umon_run u1 as = Some u'" "um_fixed u1 u'" "um_rep u' stacks'"
    "\<forall>k \<le> um_buckets u. um_curve u' k = um_curve u1 k + of_nat (d k) \<and>
       (\<forall>m. foldl (lru_cache_step u k) (map (take k) stacks1, m) as = (map (take k) stacks', m + d k))"
    using Cons.IH [OF _ s(3)] Cons.prems(1) unfolding f by blast
  have "um_fixed u u'" using s(2) r(2) by (simp add: um_fixed_def)
  then show ?case using s(1,4) r by (intro exI [of _ u'] exI [of _ stacks'] exI [of _ "\<lambda>k. d1 k + d k"]) (simp add: add.assoc)
qed

lemma umon_fill_ok:
  assumes "length hits = n + m" "length misses = Suc (n + m)"
  shows "\<exists>ms. umon_fill hits (n + m) m n (t + sum_list (drop n hits)) misses = Some (ms, t + sum_list hits) \<and> length ms = Suc (n + m) \<and>
    (\<forall>k. 0 < k \<and> k \<le> n \<longrightarrow> ms ! k = t + sum_list (drop k hits)) \<and> (\<forall>k. n < k \<and> k \<le> n + m \<longrightarrow> ms ! k = misses ! k)"
  using assms
proof (induction n arbitrary: m misses)
  case (Suc n)
  let ?t = "t + sum_list (drop (Suc n) hits)"
  have d: "drop n hits = hits ! n # drop (Suc n) hits" using Suc.prems(1) by (simp add: Cons_nth_drop_Suc)
  obtain ms where ms: "umon_fill hits (n + Suc m) (Suc m) n (t + sum_list (drop n hits)) (misses[Suc n := ?t]) = Some (ms, t + sum_list hits)"
    "length ms = Suc (n + Suc m)" "\<forall>k. 0 < k \<and> k \<le> n \<longrightarrow> ms ! k = t + sum_list (drop k hits)"
    "\<forall>k. n < k \<and> k \<le> n + Suc m \<longrightarrow> ms ! k = misses[Suc n := ?t] ! k"
    using Suc.IH [of "Suc m" "misses[Suc n := ?t]"] Suc.prems by auto
  have "umon_fill hits (Suc n + m) m (Suc n) ?t misses = Some (ms, t + sum_list hits)"
    using ms(1) d Suc.prems by (simp add: add.assoc add.commute add.left_commute)
  moreover have "ms ! k = t + sum_list (drop k hits)" if "0 < k" "k \<le> Suc n" for k
    using that ms(3,4) Suc.prems by (cases "k = Suc n") auto
  moreover have "ms ! k = misses ! k" if "Suc n < k" "k \<le> Suc n + m" for k using that ms(4) by simp
  ultimately show ?case using ms(2) by (intro exI [of _ ms]) simp
qed auto

lemma umon_getMisses_ok:
  assumes "length (um_curWayHits u) = um_buckets u" "length misses = Suc (um_buckets u)"
  shows "\<exists>ms. umon_getMisses u misses = Some ms \<and> length ms = Suc (um_buckets u) \<and> (\<forall>k \<le> um_buckets u. ms ! k = um_curve u k)"
proof -
  obtain ms where "umon_fill (um_curWayHits u) (um_buckets u) 0 (um_buckets u) (um_curMisses u) misses = Some (ms, um_curMisses u + sum_list (um_curWayHits u))"
    "length ms = Suc (um_buckets u)" "\<forall>k. 0 < k \<and> k \<le> um_buckets u \<longrightarrow> ms ! k = um_curMisses u + sum_list (drop k (um_curWayHits u))"
    using umon_fill_ok [of "um_curWayHits u" "um_buckets u" 0 misses "um_curMisses u"] assms by auto
  then show ?thesis by (auto simp: umon_getMisses_def um_curve_def nth_list_update)
qed

lemma UMon_new_ok:
  assumes "0 < buckets" "buckets \<le> umonLines"
  shows "\<exists>u. UMon_new bankLines umonLines buckets = Some u \<and> um_good u \<and> um_rep u (replicate (um_sets u) (replicate buckets 0)) \<and>
    um_buckets u = buckets \<and> (\<forall>k. um_curve u k = 0)"
proof -
  obtain hf where hf: "H3HashFamily 2 32 0xF000BAAD = Some hf" "h3_wf hf" "h3_numFuncs hf = 2"
    using H3HashFamily_wf [of 32 2 "0xF000BAAD"] by auto
  have z: "sum_list (replicate n (0 :: u64)) = 0" for n by (induction n) simp_all
  have l: "linked (umon_row buckets) [0..<buckets]" using assms(1) by (auto simp: linked_def umon_row_def)
  have "stack_of (umon_row buckets) [0..<buckets] = replicate buckets 0" by (auto simp: stack_of_def umon_row_def list_eq_iff_nth_eq)
  then show ?thesis using assms hf l
    by (auto simp: UMon_new_def Let_def um_good_def um_rep_def um_curve_def z div_greater_zero_iff intro!: exI [of _ "[0..<buckets]"])
qed

text \<open>
  C20. The stack property of the utility monitor. After any sequence of accesses to a new monitor, \<open>getMisses\<close> gives for every number of ways \<open>k\<close> up to its
  number of buckets exactly the misses (modulo \<open>2^64\<close>) that a separate LRU cache with \<open>k\<close> ways and the same sets would have had on the sampled
  accesses. No access follows a null pointer or fails an assertion.
\<close>

theorem umon_counts_lru_misses:
  assumes "0 < buckets" "buckets \<le> umonLines"
  shows "\<exists>u0 u ms. UMon_new bankLines umonLines buckets = Some u0 \<and> umon_run u0 as = Some u \<and>
    umon_getMisses u (replicate (buckets + 1) 0) = Some ms \<and> length ms = buckets + 1 \<and>
    (\<forall>k \<le> buckets. ms ! k = of_nat (snd (lru_cache_run u0 k as)))"
proof -
  obtain u0 where u0: "UMon_new bankLines umonLines buckets = Some u0" "um_good u0" "um_rep u0 (replicate (um_sets u0) (replicate buckets 0))"
    "um_buckets u0 = buckets" "\<forall>k. um_curve u0 k = 0" using UMon_new_ok [OF assms, of bankLines] by blast
  obtain u stacks d where u: "umon_run u0 as = Some u" "um_fixed u0 u" "um_rep u stacks"
    "\<forall>k \<le> um_buckets u0. um_curve u k = um_curve u0 k + of_nat (d k) \<and>
       (\<forall>m. foldl (lru_cache_step u0 k) (map (take k) (replicate (um_sets u0) (replicate buckets 0)), m) as = (map (take k) stacks, m + d k))"
    using umon_run_ok [OF u0(2,3), of as] by blast
  have b: "um_buckets u = buckets" "length (um_curWayHits u) = buckets" using u(2,3) u0(4) by (simp_all add: um_fixed_def um_rep_def)
  obtain ms where ms: "umon_getMisses u (replicate (buckets + 1) 0) = Some ms" "length ms = buckets + 1" "\<forall>k \<le> buckets. ms ! k = um_curve u k"
    using umon_getMisses_ok [of u "replicate (buckets + 1) 0"] b by auto
  have "ms ! k = of_nat (snd (lru_cache_run u0 k as))" if "k \<le> buckets" for k
  proof -
    have "foldl (lru_cache_step u0 k) (map (take k) (replicate (um_sets u0) (replicate buckets 0)), 0) as = (map (take k) stacks, 0 + d k)"
      using u(4) that u0(4) by blast
    then have "snd (lru_cache_run u0 k as) = d k" using that by (simp add: lru_cache_run_def min_def)
    then show ?thesis using that u(4) u0(4,5) ms(3) by simp
  qed
  then show ?thesis using u0(1) u(1) ms by blast
qed

theorem umon_counts_lru_misses_witness:
  "\<exists>u0 u ms. UMon_new 1024 64 4 = Some u0 \<and> umon_run u0 [5, 9, 5] = Some u \<and> umon_getMisses u (replicate 5 0) = Some ms \<and>
     ms ! 2 = of_nat (snd (lru_cache_run u0 2 [5, 9, 5]))"
  using umon_counts_lru_misses [of 4 64 1024 "[5, 9, 5]"] by auto

text \<open>Accesses and resets of a monitor.\<close>

datatype mon_op = MonAccess nat Address | MonReset

fun mon_run :: "umon_monitor \<Rightarrow> mon_op list \<Rightarrow> umon_monitor option" where
  "mon_run m [] = Some m"
| "mon_run m (MonAccess part lineAddr # ops) = do { m \<leftarrow> mon_access m part lineAddr; mon_run m ops }"
| "mon_run m (MonReset # ops) = mon_run (mon_reset m) ops"

definition mon_sized :: "nat \<Rightarrow> umon_monitor \<Rightarrow> bool" where
  "mon_sized n m \<longleftrightarrow> \<not> mn_missCacheValid m \<and> length (mn_monitors m) = n \<and>
     (\<forall>u\<in>set (mn_monitors m). 0 < um_buckets u \<and> length (um_curWayHits u) = um_buckets u)"

lemma umon_access_sized: "umon_access u x = Some u' \<Longrightarrow> um_buckets u' = um_buckets u \<and> length (um_curWayHits u') = length (um_curWayHits u)"
  by (auto simp: umon_access_def umon_touch_def aset_eq_Some bind_eq_Some_conv Let_def split: option.splits if_splits)

lemma mon_run_sized: "mon_run m ops = Some m' \<Longrightarrow> mon_sized n m \<Longrightarrow> mon_sized n m'"
proof (induction m ops rule: mon_run.induct)
  case (2 m part x ops)
  obtain u u1 where u: "part < length (mn_monitors m)" "u = mn_monitors m ! part" "umon_access u x = Some u1"
      "mon_run (m\<lparr>mn_monitors := (mn_monitors m)[part := u1], mn_missCacheValid := False\<rparr>) ops = Some m'"
      "mon_access m part x = Some (m\<lparr>mn_monitors := (mn_monitors m)[part := u1], mn_missCacheValid := False\<rparr>)"
    using "2.prems"(1) by (auto simp: mon_access_def aget_eq_Some bind_eq_Some_conv)
  have "\<forall>v\<in>set ((mn_monitors m)[part := u1]). 0 < um_buckets v \<and> length (um_curWayHits v) = um_buckets v"
    using "2.prems"(2) umon_access_sized [OF u(3)] u(1,2) set_update_subset_insert [of "mn_monitors m" part u1] by (fastforce simp: mon_sized_def)
  then show ?case using "2.IH" [OF u(5,4)] "2.prems"(2) by (simp add: mon_sized_def)
next
  case (3 m ops)
  then show ?case by (simp add: mon_sized_def mon_reset_def umon_startNextInterval_def)
qed simp

text \<open>
  C36. \<open>UMonMonitor::get\<close> leaves its arrays. The curve of a monitor with \<open>n\<close> buckets has \<open>n + 1\<close> points, but \<open>getMissCurve\<close> passes \<open>getMisses\<close> an array of
  \<open>n\<close> elements. So after any accesses and resets of a new monitor, \<open>getMisses\<close> with the array it is given fails for every partition, with one element more it
  succeeds, and reading a point of any partition fails.
\<close>

theorem miss_curve_overruns:
  assumes "UMonMonitor_new numLines umonLines umonBuckets numPartitions buckets = Some m0" "mon_run m0 ops = Some m" "part < numPartitions"
  shows "umon_getMisses (mn_monitors m ! part) (replicate (um_buckets (mn_monitors m ! part)) 0) = None \<and>
    (\<exists>ms. umon_getMisses (mn_monitors m ! part) (replicate (Suc (um_buckets (mn_monitors m ! part))) 0) = Some ms) \<and> mon_get m part bucket = None"
proof -
  obtain u where u: "UMon_new numLines umonLines umonBuckets = Some u" "numPartitions > 0" "mn_monitors m0 = replicate numPartitions u" "\<not> mn_missCacheValid m0"
    using assms(1) by (auto simp: UMonMonitor_new_def split: bind_splits)
  have "um_buckets u > 0" "length (um_curWayHits u) = um_buckets u" using u(1) by (auto simp: UMon_new_def Let_def split: bind_splits)
  then have "mon_sized numPartitions m0" using u by (simp add: mon_sized_def)
  then have S: "\<not> mn_missCacheValid m" "length (mn_monitors m) = numPartitions"
      "\<And>k. k < numPartitions \<Longrightarrow> 0 < um_buckets (mn_monitors m ! k) \<and> length (um_curWayHits (mn_monitors m ! k)) = um_buckets (mn_monitors m ! k)"
    using mon_run_sized [OF assms(2)] by (simp_all add: mon_sized_def)
  have none: "umon_getMisses v (replicate (um_buckets v) 0) = None" if "um_buckets v > 0" for v
    using that by (cases "um_buckets v") (simp_all add: umon_getMisses_def aset_def)
  have "mon_getMissCurve m 0 (mn_missCache m) 0 = None" using none [of "mn_monitors m ! 0"] S(2) S(3) [of 0] u(2) by (simp add: mon_getMissCurve_def Let_def)
  then have "mon_getMissCurves m = None" using S(2) u(2) by (cases numPartitions) (simp_all add: mon_getMissCurves_def)
  then have "mon_get m part bucket = None" using S(1) by (auto simp: mon_get_def assert_that_def)
  moreover have "\<exists>ms. umon_getMisses (mn_monitors m ! part) (replicate (Suc (um_buckets (mn_monitors m ! part))) 0) = Some ms"
    using umon_getMisses_ok [of "mn_monitors m ! part" "replicate (Suc (um_buckets (mn_monitors m ! part))) 0"] S(3) [OF assms(3)] by auto
  ultimately show ?thesis using none S(3) [OF assms(3)] by blast
qed

theorem miss_curve_overruns_witness:
  "\<exists>m0 m. UMonMonitor_new 1024 64 4 2 4 = Some m0 \<and> mon_run m0 [MonReset] = Some m \<and> mon_get m 1 0 = None"
proof -
  obtain u where "UMon_new 1024 64 4 = Some u" using UMon_new_ok [of 4 64 1024] by auto
  then obtain m0 where m0: "UMonMonitor_new 1024 64 4 2 4 = Some m0" by (simp add: UMonMonitor_new_def)
  have r: "mon_run m0 [MonReset] = Some (mon_reset m0)" by simp
  show ?thesis using miss_curve_overruns [OF m0 r, of 1 0] m0 r by auto
qed

end
