(* ===== verification/Lookahead.thy ===== *)
theory Lookahead
  imports PartRepl
begin

text \<open>
  The lookahead partitioner (\<^verbatim>\<open>src/lookahead.cpp\<close>, \<^verbatim>\<open>src/partitioner.h\<close>).

  \<^item> The partition monitor is its virtual \<open>get\<close>: the misses of a partition with a number of buckets, a 32-bit number. Differences of two of
    them wrap around at 32 bits before they are widened, as in the code.
  \<^item> \<open>fdiv x i\<close> is the \<open>double\<close> quotient of the integers \<open>x\<close> and \<open>i\<close>. It is a parameter; the theorems only use that a quotient of nonnegative
    numbers is not negative.
  \<^item> Allocations are natural numbers; the first subtraction from \<open>balance\<close> is the only one that can wrap around, and is written out.
\<close>

section \<open>Operations\<close>

type_synonym miss_curve = "nat \<Rightarrow> nat \<Rightarrow> u32 option"

fun mu_loop :: "(nat \<Rightarrow> nat \<Rightarrow> real) \<Rightarrow> miss_curve \<Rightarrow> nat \<Rightarrow> nat \<Rightarrow> nat \<Rightarrow> nat \<Rightarrow> real \<times> nat \<Rightarrow> (real \<times> nat) option" where
  "mu_loop fdiv get part partAlloc i 0 best = Some best"
| "mu_loop fdiv get part partAlloc i (Suc n) best = do {
     m0 \<leftarrow> get part partAlloc;
     m1 \<leftarrow> get part (partAlloc + i);
     let mu = fdiv (unat (m0 - m1)) i;
     mu_loop fdiv get part partAlloc (i + 1) n (if mu > fst best then (mu, i) else best) }"

definition getMaxMarginalUtility :: "(nat \<Rightarrow> nat \<Rightarrow> real) \<Rightarrow> miss_curve \<Rightarrow> nat \<Rightarrow> nat \<Rightarrow> nat \<Rightarrow> (real \<times> nat) option" where
  "getMaxMarginalUtility fdiv get part partAlloc balance = mu_loop fdiv get part partAlloc 1 balance (-1, 0)"

fun utility_loop :: "miss_curve \<Rightarrow> nat list \<Rightarrow> nat \<Rightarrow> nat \<Rightarrow> u64 \<Rightarrow> u64 \<Rightarrow> u64 option" where
  "utility_loop get parts p 0 noCache cur = Some (noCache - cur)"
| "utility_loop get parts p (Suc n) noCache cur = do {
     m0 \<leftarrow> get p 0;
     k \<leftarrow> aget parts p;
     m1 \<leftarrow> get p k;
     utility_loop get parts (p + 1) n (noCache + ucast m0) (cur + ucast m1) }"

definition computePartitioningTotalUtility :: "nat \<Rightarrow> nat list \<Rightarrow> miss_curve \<Rightarrow> u64 option" where
  "computePartitioningTotalUtility numPartitions parts get = utility_loop get parts 0 numPartitions 0 0"

text \<open>One round: the partition with the largest marginal utility and the buckets that achieve it.\<close>

fun best_loop :: "(nat \<Rightarrow> nat \<Rightarrow> real) \<Rightarrow> miss_curve \<Rightarrow> (nat \<Rightarrow> bool) \<Rightarrow> nat list \<Rightarrow> nat \<Rightarrow> nat \<Rightarrow> nat \<Rightarrow> real \<times> nat \<times> nat \<Rightarrow> (real \<times> nat \<times> nat) option" where
  "best_loop fdiv get forbidden allocs balance i 0 best = Some best"
| "best_loop fdiv get forbidden allocs balance i (Suc n) best =
     (if forbidden i then best_loop fdiv get forbidden allocs balance (i + 1) n best
      else do {
        a \<leftarrow> aget allocs i;
        (mu, muAlloc) \<leftarrow> getMaxMarginalUtility fdiv get i a balance;
        best_loop fdiv get forbidden allocs balance (i + 1) n (if mu > fst best then (mu, i, muAlloc) else best) })"

definition best_part :: "(nat \<Rightarrow> nat \<Rightarrow> real) \<Rightarrow> miss_curve \<Rightarrow> (nat \<Rightarrow> bool) \<Rightarrow> nat \<Rightarrow> nat list \<Rightarrow> nat \<Rightarrow> (nat \<times> nat) option" where
  "best_part fdiv get forbidden numPartitions allocs balance = do {
     (mu, part, alloc) \<leftarrow> best_loop fdiv get forbidden allocs balance 0 numPartitions (-1, numPartitions, 0);
     assert_that (part < numPartitions);
     Some (part, alloc) }"

lemma mu_loop_alloc:
  assumes "mu_loop fdiv get part pa i n best = Some (mu, a)" "fst best > -1 \<longrightarrow> 0 < snd best \<and> snd best < i + n" "0 < i"
  shows "mu > -1 \<longrightarrow> 0 < a \<and> a < i + n"
  using assms
proof (induction n arbitrary: i best)
  case (Suc n)
  have "\<exists>mu'. mu_loop fdiv get part pa (i + 1) n (if mu' > fst best then (mu', i) else best) = Some (mu, a)"
    using Suc.prems(1) by (auto simp: Let_def split: bind_splits split del: if_split)
  then show ?case using Suc.IH Suc.prems(2,3) by fastforce
qed auto

lemma best_loop_alloc:
  assumes "best_loop fdiv get forbidden allocs balance i n best = Some (mu, p, a)" "fst (snd best) < N \<longrightarrow> fst best > -1 \<and> 0 < snd (snd best) \<and> snd (snd best) \<le> balance"
    "fst best \<ge> -1"
  shows "p < N \<longrightarrow> 0 < a \<and> a \<le> balance"
  using assms
proof (induction n arbitrary: i best)
  case (Suc n)
  show ?case
  proof (cases "forbidden i")
    case True
    then show ?thesis using Suc.IH Suc.prems by simp
  next
    case False
    then obtain x mu' a' where g: "getMaxMarginalUtility fdiv get i x balance = Some (mu', a')"
      "best_loop fdiv get forbidden allocs balance (i + 1) n (if mu' > fst best then (mu', i, a') else best) = Some (mu, p, a)"
      using Suc.prems(1) by (auto split: bind_splits)
    have "mu' > -1 \<longrightarrow> 0 < a' \<and> a' \<le> balance" using mu_loop_alloc [OF g(1) [unfolded getMaxMarginalUtility_def]] by auto
    then show ?thesis using Suc.IH [OF g(2)] Suc.prems(2,3) by auto
  qed
qed auto

lemma best_part_alloc: "best_part fdiv get forbidden n allocs balance = Some (p, a) \<Longrightarrow> p < n \<and> 0 < a \<and> a \<le> balance"
  using best_loop_alloc [of fdiv get forbidden allocs balance 0 n "(-1, n, 0)" _ p a n] by (auto simp: best_part_def split: bind_splits)

text \<open>The greedy loop ends because every round allocates at least one bucket.\<close>

function lookahead_loop :: "(nat \<Rightarrow> nat \<Rightarrow> real) \<Rightarrow> miss_curve \<Rightarrow> (nat \<Rightarrow> bool) \<Rightarrow> nat \<Rightarrow> nat list \<Rightarrow> nat \<Rightarrow> nat list option" where
  "lookahead_loop fdiv get forbidden numPartitions allocs balance =
     (if balance = 0 then Some allocs
      else (case best_part fdiv get forbidden numPartitions allocs balance of
              None \<Rightarrow> None
            | Some (p, a) \<Rightarrow> lookahead_loop fdiv get forbidden numPartitions (allocs[p := allocs ! p + a]) (balance - a)))"
  by pat_completeness auto
termination
  by (relation "measure (\<lambda>(fdiv, get, forbidden, n, allocs, balance). balance)") (auto dest: best_part_alloc)

declare lookahead_loop.simps [simp del]

definition computeBestPartitioning :: "(nat \<Rightarrow> nat \<Rightarrow> real) \<Rightarrow> nat \<Rightarrow> nat \<Rightarrow> nat \<Rightarrow> (nat \<Rightarrow> bool) \<Rightarrow> miss_curve \<Rightarrow> nat list option" where
  "computeBestPartitioning fdiv numPartitions buckets minAlloc forbidden get =
     lookahead_loop fdiv get forbidden numPartitions (replicate numPartitions minAlloc)
       (if minAlloc \<le> buckets then buckets - minAlloc else 2 ^ 32 + buckets - minAlloc)"

record lookahead =
  lp_numPartitions :: nat
  lp_buckets :: nat
  lp_minAlloc :: nat
  lp_allocPortion :: real
  lp_forbidden :: "nat \<Rightarrow> bool"
  lp_curAllocs :: "nat list"

definition LookaheadPartitioner_new :: "nat \<Rightarrow> nat \<Rightarrow> nat \<Rightarrow> real \<Rightarrow> (nat \<Rightarrow> bool) \<Rightarrow> lookahead option" where
  "LookaheadPartitioner_new numPartitions buckets minAlloc allocPortion forbidden = do {
     assert_that (buckets > 0);
     Some \<lparr>lp_numPartitions = numPartitions, lp_buckets = buckets, lp_minAlloc = minAlloc, lp_allocPortion = allocPortion,
           lp_forbidden = forbidden, lp_curAllocs = replicate (buckets + 1) 0\<rparr> }"

text \<open>\<open>partition\<close> reads the curves of the monitor of \<open>repl\<close>, sets its sizes and resets its monitor. The switch is unconditional.\<close>

definition lp_partition :: "(nat \<Rightarrow> nat \<Rightarrow> real) \<Rightarrow> ('r \<Rightarrow> miss_curve) \<Rightarrow> ('r \<Rightarrow> nat list \<Rightarrow> 'r option) \<Rightarrow> ('r \<Rightarrow> 'r) \<Rightarrow> lookahead \<Rightarrow> 'r \<Rightarrow> (lookahead \<times> 'r) option" where
  "lp_partition fdiv get setPartitionSizes reset lp repl = do {
     let n = lp_numPartitions lp;
     best \<leftarrow> computeBestPartitioning fdiv n (nat \<lfloor>lp_allocPortion lp * real (lp_buckets lp)\<rfloor>) (lp_minAlloc lp * n) (lp_forbidden lp) (get repl);
     newUtility \<leftarrow> computePartitioningTotalUtility n best (get repl);
     curUtility \<leftarrow> computePartitioningTotalUtility n (lp_curAllocs lp) (get repl);
     assert_that (n \<le> length (lp_curAllocs lp));
     let curAllocs = best @ drop n (lp_curAllocs lp);
     repl \<leftarrow> setPartitionSizes repl curAllocs;
     Some (lp\<lparr>lp_curAllocs := curAllocs\<rparr>, reset repl) }"

section \<open>The greedy choice\<close>

definition util :: "(nat \<Rightarrow> nat \<Rightarrow> real) \<Rightarrow> (nat \<Rightarrow> nat \<Rightarrow> u32) \<Rightarrow> nat \<Rightarrow> nat \<Rightarrow> nat \<Rightarrow> real" where
  "util fdiv m p a i = fdiv (unat (m p a - m p (a + i))) i"

lemma mu_loop_spec:
  assumes "\<forall>j \<le> B. get p j = Some (m p j)" "pa + i + n \<le> Suc B" "0 < i"
  shows "\<exists>mu a. mu_loop fdiv get p pa i n best = Some (mu, a) \<and> fst best \<le> mu \<and> (\<forall>j. i \<le> j \<and> j < i + n \<longrightarrow> util fdiv m p pa j \<le> mu) \<and>
    ((mu, a) = best \<or> i \<le> a \<and> a < i + n \<and> mu = util fdiv m p pa a)"
  using assms
proof (induction n arbitrary: i best)
  case (Suc n)
  let ?u = "util fdiv m p pa i"
  define b where "b = (if ?u > fst best then (?u, i) else best)"
  obtain mu a where r: "mu_loop fdiv get p pa (Suc i) n b = Some (mu, a)" "fst b \<le> mu" "\<forall>j. Suc i \<le> j \<and> j < Suc i + n \<longrightarrow> util fdiv m p pa j \<le> mu"
    "(mu, a) = b \<or> Suc i \<le> a \<and> a < Suc i + n \<and> mu = util fdiv m p pa a"
    using Suc.IH [of "Suc i" b] Suc.prems by auto
  have "mu_loop fdiv get p pa i (Suc n) best = Some (mu, a)" using r(1) [unfolded b_def util_def] Suc.prems by (simp add: Let_def split del: if_split)
  moreover have "fst best \<le> mu" "?u \<le> mu" using r(2) by (auto simp: b_def split: if_splits)
  moreover have "util fdiv m p pa j \<le> mu" if "i \<le> j" "j < i + Suc n" for j using r(3) that \<open>?u \<le> mu\<close> by (cases "j = i") auto
  moreover have "(mu, a) = best \<or> i \<le> a \<and> a < i + Suc n \<and> mu = util fdiv m p pa a" using r(4) by (auto simp: b_def split: if_splits)
  ultimately show ?case by blast
qed auto

lemma best_loop_spec:
  assumes get: "\<forall>p < N. \<forall>j \<le> B. get p j = Some (m p j)" and al: "length allocs = N" "\<forall>p < N. allocs ! p + balance \<le> B" and "i + n = N"
    and pos: "\<forall>x j. 0 \<le> fdiv x j" "0 < balance"
    and best: "fst best = -1 \<or> fst (snd best) < i \<and> \<not> forbidden (fst (snd best)) \<and> 0 \<le> fst best \<and>
      fst best = util fdiv m (fst (snd best)) (allocs ! fst (snd best)) (snd (snd best))"
  shows "\<exists>mu p a. best_loop fdiv get forbidden allocs balance i n best = Some (mu, p, a) \<and> fst best \<le> mu \<and>
    (\<forall>q j. i \<le> q \<and> q < N \<and> \<not> forbidden q \<and> 1 \<le> j \<and> j \<le> balance \<longrightarrow> util fdiv m q (allocs ! q) j \<le> mu) \<and>
    (mu = -1 \<or> p < N \<and> \<not> forbidden p \<and> 0 \<le> mu \<and> mu = util fdiv m p (allocs ! p) a)"
  using \<open>i + n = N\<close> best
proof (induction n arbitrary: i best)
  case 0
  then show ?case by (cases best) auto
next
  case (Suc n)
  have e: "Suc i + n = N" using Suc.prems(1) by simp
  show ?case
  proof (cases "forbidden i")
    case True
    have b: "fst best = -1 \<or> fst (snd best) < Suc i \<and> \<not> forbidden (fst (snd best)) \<and> 0 \<le> fst best \<and>
      fst best = util fdiv m (fst (snd best)) (allocs ! fst (snd best)) (snd (snd best))" using Suc.prems(2) by auto
    obtain mu p a where r: "best_loop fdiv get forbidden allocs balance (Suc i) n best = Some (mu, p, a)" "fst best \<le> mu"
      "\<forall>q j. Suc i \<le> q \<and> q < N \<and> \<not> forbidden q \<and> 1 \<le> j \<and> j \<le> balance \<longrightarrow> util fdiv m q (allocs ! q) j \<le> mu"
      "mu = -1 \<or> p < N \<and> \<not> forbidden p \<and> 0 \<le> mu \<and> mu = util fdiv m p (allocs ! p) a"
      using Suc.IH [OF e b] by (elim exE conjE) (rule that)
    have "util fdiv m q (allocs ! q) j \<le> mu" if "i \<le> q" "q < N" "\<not> forbidden q" "1 \<le> j" "j \<le> balance" for q j
      using r(3) that True by (cases "q = i") auto
    moreover have "best_loop fdiv get forbidden allocs balance i (Suc n) best = Some (mu, p, a)" using True r(1) by simp
    ultimately show ?thesis using r(2,4) by blast
  next
    case False
    have i: "i < N" using Suc.prems(1) by simp
    have pa: "allocs ! i + 1 + balance \<le> Suc B" "\<forall>j \<le> B. get i j = Some (m i j)" using al(2) get i by auto
    obtain mu' a' where g: "getMaxMarginalUtility fdiv get i (allocs ! i) balance = Some (mu', a')"
      "\<forall>j. 1 \<le> j \<and> j < 1 + balance \<longrightarrow> util fdiv m i (allocs ! i) j \<le> mu'" "(mu', a') = (-1, 0) \<or> mu' = util fdiv m i (allocs ! i) a'"
      using mu_loop_spec [of B get i m "allocs ! i" 1 balance fdiv "(-1, 0)"] pa unfolding getMaxMarginalUtility_def by auto
    have u0: "0 \<le> util fdiv m q x j" for q x j using pos(1) by (simp add: util_def)
    have "util fdiv m i (allocs ! i) 1 \<le> mu'" using g(2) pos(2) by simp
    then have "0 \<le> mu'" using u0 [of i "allocs ! i" 1] by linarith
    then have mu': "0 \<le> mu'" "mu' = util fdiv m i (allocs ! i) a'" using g(3) by auto
    define b where "b = (if mu' > fst best then (mu', i, a') else best)"
    have b: "fst b = -1 \<or> fst (snd b) < Suc i \<and> \<not> forbidden (fst (snd b)) \<and> 0 \<le> fst b \<and>
      fst b = util fdiv m (fst (snd b)) (allocs ! fst (snd b)) (snd (snd b))" using Suc.prems(2) mu' False by (auto simp: b_def)
    obtain mu p a where r: "best_loop fdiv get forbidden allocs balance (Suc i) n b = Some (mu, p, a)" "fst b \<le> mu"
      "\<forall>q j. Suc i \<le> q \<and> q < N \<and> \<not> forbidden q \<and> 1 \<le> j \<and> j \<le> balance \<longrightarrow> util fdiv m q (allocs ! q) j \<le> mu"
      "mu = -1 \<or> p < N \<and> \<not> forbidden p \<and> 0 \<le> mu \<and> mu = util fdiv m p (allocs ! p) a"
      using Suc.IH [OF e b] by (elim exE conjE) (rule that)
    have le: "fst best \<le> mu" "mu' \<le> mu" using r(2) by (auto simp: b_def split: if_splits)
    have "util fdiv m q (allocs ! q) j \<le> mu" if "i \<le> q" "q < N" "\<not> forbidden q" "1 \<le> j" "j \<le> balance" for q j
      using r(3) that g(2) le(2) by (cases "q = i") (auto intro: order_trans)
    moreover have "best_loop fdiv get forbidden allocs balance i (Suc n) best = Some (mu, p, a)"
      using False g(1) r(1) i al(1) by (simp add: b_def)
    ultimately show ?thesis using le r(4) by blast
  qed
qed

lemma best_part_spec:
  assumes get: "\<forall>p < n. \<forall>j \<le> B. get p j = Some (m p j)" and al: "length allocs = n" "\<forall>p < n. allocs ! p + balance \<le> B"
    and pos: "\<forall>x j. 0 \<le> fdiv x j" "0 < balance" and ok: "\<exists>q < n. \<not> forbidden q"
  shows "\<exists>p a. best_part fdiv get forbidden n allocs balance = Some (p, a) \<and> p < n \<and> \<not> forbidden p \<and> 1 \<le> a \<and> a \<le> balance \<and>
    (\<forall>q < n. \<not> forbidden q \<longrightarrow> (\<forall>j. 1 \<le> j \<and> j \<le> balance \<longrightarrow> util fdiv m q (allocs ! q) j \<le> util fdiv m p (allocs ! p) a))"
proof -
  obtain mu p a where r: "best_loop fdiv get forbidden allocs balance 0 n (-1, n, 0) = Some (mu, p, a)"
    "\<forall>q j. 0 \<le> q \<and> q < n \<and> \<not> forbidden q \<and> 1 \<le> j \<and> j \<le> balance \<longrightarrow> util fdiv m q (allocs ! q) j \<le> mu"
    "mu = -1 \<or> p < n \<and> \<not> forbidden p \<and> 0 \<le> mu \<and> mu = util fdiv m p (allocs ! p) a"
    using best_loop_spec [OF get al add_0 pos disjI1, of "(-1, n, 0)" forbidden, OF fst_conv] by (elim exE conjE) (rule that)
  obtain q where q: "q < n" "\<not> forbidden q" using ok by blast
  have "0 \<le> util fdiv m q (allocs ! q) 1" using pos(1) by (simp add: util_def)
  also have "\<dots> \<le> mu" using r(2) q pos(2) by simp
  finally have p: "p < n" "\<not> forbidden p" "mu = util fdiv m p (allocs ! p) a" using r(3) by auto
  have bp: "best_part fdiv get forbidden n allocs balance = Some (p, a)" using r(1) p(1) by (simp add: best_part_def)
  then show ?thesis using best_part_alloc [OF bp] p r(2) by auto
qed

section \<open>Allocations\<close>

lemma lookahead_loop_sum:
  "lookahead_loop fdiv get forbidden n allocs balance = Some allocs' \<Longrightarrow> length allocs = n \<Longrightarrow>
    length allocs' = n \<and> sum_list allocs' = sum_list allocs + balance"
proof (induction fdiv get forbidden n allocs balance rule: lookahead_loop.induct)
  case (1 fdiv get forbidden n allocs balance)
  show ?case
  proof (cases "balance = 0")
    case True
    then show ?thesis using "1.prems" by (simp add: lookahead_loop.simps)
  next
    case False
    obtain p a where pa: "best_part fdiv get forbidden n allocs balance = Some (p, a)"
      "lookahead_loop fdiv get forbidden n (allocs[p := allocs ! p + a]) (balance - a) = Some allocs'"
      using "1.prems"(1) False by (subst (asm) lookahead_loop.simps) (auto split: option.splits)
    have p: "p < n" "a \<le> balance" using best_part_alloc [OF pa(1)] by simp_all
    have "length allocs' = n \<and> sum_list allocs' = sum_list (allocs[p := allocs ! p + a]) + (balance - a)"
      using "1.IH" [OF False pa(1) refl pa(2)] "1.prems"(2) by simp
    then show ?thesis using sum_list_update_nat [of p allocs "allocs ! p + a"] p "1.prems"(2) by simp
  qed
qed

lemma lookahead_loop_total:
  assumes get: "\<forall>p < n. \<forall>j \<le> B. get p j = Some (m p j)" and fdiv: "\<forall>x j. 0 \<le> fdiv x j" and ok: "\<exists>q < n. \<not> forbidden q"
  shows "length allocs = n \<Longrightarrow> \<forall>p < n. allocs ! p + balance \<le> B \<Longrightarrow>
    \<exists>allocs'. lookahead_loop fdiv get forbidden n allocs balance = Some allocs' \<and>
      (\<forall>p < n. allocs ! p \<le> allocs' ! p \<and> (forbidden p \<longrightarrow> allocs' ! p = allocs ! p))"
proof (induction balance arbitrary: allocs rule: less_induct)
  case (less balance)
  show ?case
  proof (cases "balance = 0")
    case True
    then show ?thesis by (simp add: lookahead_loop.simps)
  next
    case False
    then obtain p a where pa: "best_part fdiv get forbidden n allocs balance = Some (p, a)" "p < n" "\<not> forbidden p" "1 \<le> a" "a \<le> balance"
      using best_part_spec [OF get less.prems fdiv _ ok] by auto
    let ?al = "allocs[p := allocs ! p + a]"
    have "balance - a < balance" "length ?al = n" "\<forall>q < n. ?al ! q + (balance - a) \<le> B"
      using pa less.prems by (auto simp: nth_list_update intro: le_trans)
    then obtain allocs' where r: "lookahead_loop fdiv get forbidden n ?al (balance - a) = Some allocs'"
      "\<forall>q < n. ?al ! q \<le> allocs' ! q \<and> (forbidden q \<longrightarrow> allocs' ! q = ?al ! q)" using less.IH by blast
    have "lookahead_loop fdiv get forbidden n allocs balance = Some allocs'"
      using False pa(1) r(1) by (subst lookahead_loop.simps) simp
    moreover have "allocs ! q \<le> allocs' ! q \<and> (forbidden q \<longrightarrow> allocs' ! q = allocs ! q)" if "q < n" for q
      using r(2) [rule_format, OF that] pa(2,3) less.prems(1) that by (auto simp: nth_list_update split: if_splits)
    ultimately show ?thesis by blast
  qed
qed

text \<open>
  C28. The lookahead algorithm ends and allocates everything. When at least one partition may receive space and the minimum fits, the greedy loop ends without
  failing its assertion; every partition gets at least the minimum, a forbidden one exactly the minimum, and the sum is the
  minimum of every partition plus the buckets that are left after subtracting one minimum.
\<close>

theorem lookahead_allocates_all:
  assumes "\<forall>p < n. \<forall>j \<le> buckets. get p j = Some (m p j)" "\<forall>x j. 0 \<le> fdiv x j" "\<exists>q < n. \<not> forbidden q" "minAlloc \<le> buckets"
  shows "\<exists>allocs. computeBestPartitioning fdiv n buckets minAlloc forbidden get = Some allocs \<and> length allocs = n \<and>
    (\<forall>p < n. minAlloc \<le> allocs ! p \<and> (forbidden p \<longrightarrow> allocs ! p = minAlloc)) \<and> sum_list allocs = n * minAlloc + (buckets - minAlloc)"
proof -
  let ?al = "replicate n minAlloc"
  obtain allocs where r: "lookahead_loop fdiv get forbidden n ?al (buckets - minAlloc) = Some allocs"
    "\<forall>p < n. ?al ! p \<le> allocs ! p \<and> (forbidden p \<longrightarrow> allocs ! p = ?al ! p)"
    using lookahead_loop_total [OF assms(1-3), of ?al "buckets - minAlloc"] assms(4) by auto
  moreover have "length allocs = n" "sum_list allocs = n * minAlloc + (buckets - minAlloc)"
    using lookahead_loop_sum [OF r(1)] by (simp_all add: sum_list_replicate)
  ultimately show ?thesis using assms(4) by (simp add: computeBestPartitioning_def)
qed

text \<open>A monitor in which a partition misses less the more buckets it has.\<close>

definition sample_curve :: miss_curve where
  "sample_curve p j = Some (100 - of_nat j)"

theorem lookahead_allocates_all_witness:
  "\<exists>allocs. computeBestPartitioning (\<lambda>x i. real x / real i) 2 8 1 (\<lambda>p. p = 1) sample_curve = Some allocs \<and> allocs ! 1 = 1 \<and> sum_list allocs = 9"
proof -
  have q: "\<exists>q < 2. \<not> q = (1 :: nat)" by (rule exI [of _ 0]) simp
  have h: "\<forall>p < 2. \<forall>j \<le> 8. sample_curve p j = Some (100 - of_nat j)" "\<forall>x j. 0 \<le> real x / real j" by (simp_all add: sample_curve_def)
  obtain allocs where a: "computeBestPartitioning (\<lambda>x i. real x / real i) 2 8 1 (\<lambda>p. p = 1) sample_curve = Some allocs"
    "\<forall>p < 2. 1 \<le> allocs ! p \<and> (p = 1 \<longrightarrow> allocs ! p = 1)" "sum_list allocs = 2 * 1 + (8 - 1)"
    using lookahead_allocates_all [of 2 8 sample_curve "\<lambda>p j. 100 - of_nat j" "\<lambda>x i. real x / real i" "\<lambda>p. p = 1" 1, OF h q] by auto
  have "allocs ! 1 = 1" using a(2) [rule_format, of 1] by simp
  then show ?thesis using a(1,3) by (intro exI [of _ allocs]) simp
qed

text \<open>
  Every round of the lookahead algorithm is greedy: it picks a permitted partition and a number of buckets whose marginal utility (misses saved per bucket, as
  the code computes it) is at least that of every other permitted partition with every number of buckets that is left.
\<close>

theorem lookahead_round_greedy:
  assumes "\<forall>p < n. \<forall>j \<le> B. get p j = Some (m p j)" "length allocs = n" "\<forall>p < n. allocs ! p + balance \<le> B"
    and "\<forall>x j. 0 \<le> fdiv x j" "0 < balance" "\<exists>q < n. \<not> forbidden q"
  shows "\<exists>p a. best_part fdiv get forbidden n allocs balance = Some (p, a) \<and> p < n \<and> \<not> forbidden p \<and> 1 \<le> a \<and> a \<le> balance \<and>
    (\<forall>q < n. \<not> forbidden q \<longrightarrow> (\<forall>j. 1 \<le> j \<and> j \<le> balance \<longrightarrow>
       fdiv (unat (m q (allocs ! q) - m q (allocs ! q + j))) j \<le> fdiv (unat (m p (allocs ! p) - m p (allocs ! p + a))) a))"
  using best_part_spec [OF assms] unfolding util_def .

theorem lookahead_round_greedy_witness:
  "\<exists>p a. best_part (\<lambda>x i. real x / real i) sample_curve (\<lambda>p. False) 2 [1, 2] 4 = Some (p, a) \<and> p < 2 \<and> 1 \<le> a \<and> a \<le> 4"
proof -
  have *: "\<forall>p < 2. [1, 2 :: nat] ! p + 4 \<le> 6" by (simp add: less_2_cases_iff nth_Cons')
  have "\<exists>q < 2 :: nat. \<not> False" by (rule exI [of _ 0]) simp
  then show ?thesis
    using lookahead_round_greedy [of 2 6 sample_curve "\<lambda>p j. 100 - of_nat j" "[1, 2]" 4 "\<lambda>x i. real x / real i" "\<lambda>p. False"] *
    by (simp add: sample_curve_def) blast
qed

section \<open>The partitioner with way partitioning\<close>

lemma wp_assign_way: "wp_assign p k cur idx = Some (idx', cur') \<Longrightarrow> cur' = cur + k"
  by (induction k arbitrary: cur idx) (fastforce split: bind_splits)+

lemma wp_assign_all_ways:
  "wp_assign_all w sizes p n cur = Some (w', cur') \<Longrightarrow> cur' = cur + sum_list (take n (drop p sizes)) \<and> wp_ways w' = wp_ways w"
proof (induction n arbitrary: w p cur)
  case (Suc n)
  obtain parts idx where "p < length sizes" "wp_assign p (sizes ! p) cur (wp_wayPartIndex w) = Some (idx, cur + sizes ! p)"
    "wp_assign_all (w\<lparr>wp_parts := parts, wp_wayPartIndex := idx\<rparr>) sizes (p + 1) n (cur + sizes ! p) = Some (w', cur')"
    using Suc.prems by (auto simp: aget_eq_Some dest: wp_assign_way split: bind_splits)
  then show ?case using Suc.IH by (fastforce simp: Cons_nth_drop_Suc [symmetric])
qed simp

text \<open>
  C34. The lookahead partitioner hands out too much. \<open>partition\<close> passes \<open>minAlloc * numPartitions\<close> as the minimum of each partition, and
  \<open>computeBestPartitioning\<close> subtracts a minimum only once from the buckets. With two or more partitions the allocations then add up to more than
  the ways, so a way-partitioned cache fails in \<open>setPartitionSizes\<close> at every repartitioning, whatever the monitor says.
\<close>

theorem lookahead_overallocates_ways:
  assumes "LookaheadPartitioner_new (length (wp_parts w)) (wp_ways w) minAlloc 1 forbidden = Some lp" "2 \<le> length (wp_parts w)" "1 \<le> minAlloc"
  shows "lp_partition fdiv get wp_setPartitionSizes reset lp w = None"
proof (rule ccontr)
  let ?P = "length (wp_parts w)" let ?m = "minAlloc * ?P"
  have lp: "lp = \<lparr>lp_numPartitions = ?P, lp_buckets = wp_ways w, lp_minAlloc = minAlloc, lp_allocPortion = 1, lp_forbidden = forbidden,
      lp_curAllocs = replicate (wp_ways w + 1) 0\<rparr>" using assms(1) by (auto simp: LookaheadPartitioner_new_def split: bind_splits)
  assume "lp_partition fdiv get wp_setPartitionSizes reset lp w \<noteq> None"
  then obtain best w' rest where b: "computeBestPartitioning fdiv ?P (wp_ways w) ?m forbidden (get w) = Some best"
    "wp_setPartitionSizes w (best @ rest) = Some w'"
    by (auto simp: lp_partition_def lp Let_def split: bind_splits)
  define bal where "bal = (if ?m \<le> wp_ways w then wp_ways w - ?m else 2 ^ 32 + wp_ways w - ?m)"
  have s: "length best = ?P" "sum_list best = ?P * ?m + bal"
    using lookahead_loop_sum [OF b(1) [unfolded computeBestPartitioning_def]] by (simp_all add: bal_def sum_list_replicate)
  have "sum_list (take ?P (best @ rest)) = wp_ways w"
    using b(2) by (auto simp: wp_setPartitionSizes_def dest: wp_assign_all_ways split: bind_splits)
  then have "?P * ?m + bal = wp_ways w" using s by simp
  moreover have "wp_ways w \<le> ?m + bal" by (simp add: bal_def)
  moreover have "?m < ?P * ?m" using assms(2,3) by (intro n_less_m_mult_n) auto
  ultimately show False by linarith
qed

theorem lookahead_overallocates_ways_witness:
  "\<exists>w lp. WayPart_new 2 8 4 False () = Some w \<and> LookaheadPartitioner_new 2 4 1 1 (\<lambda>p. False) = Some lp \<and>
     lp_partition (\<lambda>x i. real x / real i) (\<lambda>r. sample_curve) wp_setPartitionSizes (\<lambda>r. r) lp w = None"
proof -
  have "\<exists>w. WayPart_new 2 8 4 False () = Some w" by (simp add: WayPart_new_def Let_def)
  then obtain w where w: "WayPart_new 2 8 4 False () = Some w" by blast
  obtain lp where lp: "LookaheadPartitioner_new 2 4 1 1 (\<lambda>p. False) = Some lp" by (simp add: LookaheadPartitioner_new_def)
  have "length (wp_parts w) = 2" "wp_ways w = 4" using wp_new_inv [OF w] by simp_all
  then show ?thesis using lookahead_overallocates_ways [of w 1 "\<lambda>p. False" lp "\<lambda>x i. real x / real i" "\<lambda>r. sample_curve" "\<lambda>r. r"] w lp by auto
qed

end
