(* ===== verification/EventQueue.thy ===== *)
theory EventQueue
  imports Prelude
begin

text \<open>
  The queue of periodic events (\<^verbatim>\<open>src/event_queue.h\<close>), ticked once per phase, and events that adapt their period to a counter.

  \<^item> The multimap is a list of phases and events in order of phases; equal phases keep the order of insertion, as \<open>std::multimap\<close> does.
  \<^item> An event is any type with a period and a callback; the callback changes the event and a state \<open>'s\<close> of the rest of the program. It has no access to the queue:
    the code forbids callbacks to insert, which would deadlock on the lock of the queue.
  \<^item> Phases are natural numbers below \<open>2^64\<close>; the only phase that can wrap around is the one of \<open>insert\<close> with a negative delay, which is written out.
\<close>

section \<open>Operations\<close>

type_synonym 'e evmap = "(nat \<times> 'e) list"

definition mm_insert :: "nat \<Rightarrow> 'e \<Rightarrow> 'e evmap \<Rightarrow> 'e evmap" where
  "mm_insert k e q = takeWhile (\<lambda>x. fst x \<le> k) q @ (k, e) # dropWhile (\<lambda>x. fst x \<le> k) q"

lemma mm_insert_filter: "\<not> P (k, e) \<Longrightarrow> filter P (mm_insert k e q) = filter P q"
proof -
  assume "\<not> P (k, e)"
  then have "filter P (mm_insert k e q) = filter P (takeWhile (\<lambda>x. fst x \<le> k) q @ dropWhile (\<lambda>x. fst x \<le> k) q)"
    unfolding mm_insert_def filter_append by simp
  then show ?thesis by (simp only: takeWhile_dropWhile_id)
qed

function eq_loop :: "('e \<Rightarrow> 's \<Rightarrow> ('e \<times> 's) option) \<Rightarrow> ('e \<Rightarrow> nat) \<Rightarrow> nat \<Rightarrow> 'e evmap \<Rightarrow> 's \<Rightarrow> ('e evmap \<times> 's) option" where
  "eq_loop callback getPeriod curPhase q s =
     (case q of
        [] \<Rightarrow> Some ([], s)
      | x # rest \<Rightarrow>
          if fst x \<le> curPhase then
            if fst x \<noteq> curPhase then None
            else (case callback (snd x) s of
                    None \<Rightarrow> None
                  | Some r \<Rightarrow> eq_loop callback getPeriod curPhase
                      (if getPeriod (fst r) \<noteq> 0 then mm_insert (curPhase + getPeriod (fst r)) (fst r) rest else rest) (snd r))
          else Some (q, s))"
  by pat_completeness auto
termination
  by (relation "measure (\<lambda>(callback, getPeriod, curPhase, q, s). length (filter (\<lambda>x. fst x \<le> curPhase) q))")
     (auto simp: mm_insert_filter)

declare eq_loop.simps [simp del]

definition eq_tick :: "('e \<Rightarrow> 's \<Rightarrow> ('e \<times> 's) option) \<Rightarrow> ('e \<Rightarrow> nat) \<Rightarrow> nat \<Rightarrow> 'e evmap \<Rightarrow> 's \<Rightarrow> ('e evmap \<times> 's) option" where
  "eq_tick = eq_loop"

definition eq_insert :: "('e \<Rightarrow> nat) \<Rightarrow> nat \<Rightarrow> 'e \<Rightarrow> int \<Rightarrow> 'e evmap \<Rightarrow> 'e evmap option" where
  "eq_insert getPeriod curPhase ev startDelay q = do {
     let eventPhase = (if startDelay = -1 then curPhase + getPeriod ev else nat ((int curPhase + startDelay) mod 2 ^ 64));
     assert_that (eventPhase \<ge> curPhase);
     Some (mm_insert eventPhase ev q) }"

record adaptive =
  ad_period :: nat
  ad_target :: nat
  ad_maxRate :: nat

definition ad_next :: "nat \<Rightarrow> nat \<Rightarrow> nat \<Rightarrow> nat" where
  "ad_next target cur maxRate = (let p = (target - cur) div maxRate in if p = 0 then 1 else p)"

definition AdaptiveEvent_new :: "nat \<Rightarrow> nat \<Rightarrow> nat \<Rightarrow> adaptive option" where
  "AdaptiveEvent_new start target maxRate = do {
     assert_that (maxRate \<noteq> 0);
     assert_that (target \<ge> start);
     Some \<lparr>ad_period = ad_next target start maxRate, ad_target = target, ad_maxRate = maxRate\<rparr> }"

definition ad_callback :: "('s \<Rightarrow> nat) \<Rightarrow> ('s \<Rightarrow> 's) \<Rightarrow> adaptive \<Rightarrow> 's \<Rightarrow> (adaptive \<times> 's) option" where
  "ad_callback get fire e s = do {
     let cur = get s;
     if cur \<ge> ad_target e then do {
       assert_that (cur - ad_target e \<le> ad_maxRate e);
       Some (e\<lparr>ad_period := 0\<rparr>, fire s) }
     else Some (e\<lparr>ad_period := ad_next (ad_target e) cur (ad_maxRate e)\<rparr>, s) }"

section \<open>A tick calls every due event once\<close>

fun call_all :: "('e \<Rightarrow> 's \<Rightarrow> ('e \<times> 's) option) \<Rightarrow> 'e list \<Rightarrow> 's \<Rightarrow> ('e list \<times> 's) option" where
  "call_all callback [] s = Some ([], s)"
| "call_all callback (e # es) s = do {
     (e, s) \<leftarrow> callback e s;
     (es, s) \<leftarrow> call_all callback es s;
     Some (e # es, s) }"

definition reschedule :: "('e \<Rightarrow> nat) \<Rightarrow> nat \<Rightarrow> 'e list \<Rightarrow> 'e evmap \<Rightarrow> 'e evmap" where
  "reschedule getPeriod curPhase es q = foldl (\<lambda>q e. if getPeriod e \<noteq> 0 then mm_insert (curPhase + getPeriod e) e q else q) q es"

lemma mm_insert_set: "set (mm_insert k e q) = insert (k, e) (set q)"
proof -
  have "set q = set (takeWhile (\<lambda>x. fst x \<le> k) q) \<union> set (dropWhile (\<lambda>x. fst x \<le> k) q)" by (metis set_append takeWhile_dropWhile_id)
  then show ?thesis by (simp add: mm_insert_def)
qed

lemma mm_insert_Cons_le: "fst x \<le> k \<Longrightarrow> mm_insert k e (x # q) = x # mm_insert k e q"
  by (simp add: mm_insert_def)

lemma mm_insert_sorted: "sorted (map fst q) \<Longrightarrow> sorted (map fst (mm_insert k e q))"
proof (induction q)
  case (Cons x q)
  show ?case
  proof (cases "fst x \<le> k")
    case True
    then show ?thesis using Cons by (auto simp: mm_insert_Cons_le mm_insert_set)
  next
    case False
    then show ?thesis using Cons.prems by (auto simp: mm_insert_def)
  qed
qed (simp add: mm_insert_def)

lemma reschedule_Cons: "reschedule getPeriod c (e # es) q = reschedule getPeriod c es (if getPeriod e \<noteq> 0 then mm_insert (c + getPeriod e) e q else q)"
  by (simp add: reschedule_def)

lemma reschedule_keep:
  assumes "sorted (map fst q)" "\<forall>x\<in>set q. c < fst x"
  shows "sorted (map fst (reschedule getPeriod c es q)) \<and> (\<forall>x\<in>set (reschedule getPeriod c es q). c < fst x)"
  using assms
proof (induction es arbitrary: q)
  case (Cons e es)
  show ?case unfolding reschedule_Cons by (rule Cons.IH) (use Cons.prems in \<open>auto simp: mm_insert_sorted mm_insert_set\<close>)
qed (simp add: reschedule_def)

lemma eq_loop_due:
  assumes "\<forall>x\<in>set due. fst x = c" "\<forall>x\<in>set rest. c < fst x" "call_all callback (map snd due) s = Some (es, s')"
  shows "eq_loop callback getPeriod c (due @ rest) s = Some (reschedule getPeriod c es rest, s')"
  using assms
proof (induction due arbitrary: rest s es)
  case Nil
  then show ?case by (cases rest) (auto simp: eq_loop.simps [of _ _ _ "[]"] eq_loop.simps [of _ _ _ "_ # _"] reschedule_def)
next
  case (Cons x due)
  obtain e s1 es1 where c: "callback (snd x) s = Some (e, s1)" "call_all callback (map snd due) s1 = Some (es1, s')" "es = e # es1"
    using Cons.prems(3) by (auto split: bind_splits)
  define rest1 where "rest1 = (if getPeriod e \<noteq> 0 then mm_insert (c + getPeriod e) e rest else rest)"
  have ins: "mm_insert (c + getPeriod e) e (due @ rest) = due @ mm_insert (c + getPeriod e) e rest"
    using Cons.prems(1) by (induction due) (simp_all add: mm_insert_Cons_le)
  have "\<forall>x\<in>set rest1. c < fst x" using Cons.prems(2) by (auto simp: rest1_def mm_insert_set)
  then have "eq_loop callback getPeriod c (due @ rest1) s1 = Some (reschedule getPeriod c es1 rest1, s')"
    using Cons.IH [OF _ _ c(2), of rest1] Cons.prems(1) by simp
  moreover have "eq_loop callback getPeriod c ((x # due) @ rest) s = eq_loop callback getPeriod c (due @ rest1) s1"
    using Cons.prems(1) c(1) ins by (subst eq_loop.simps) (auto simp: rest1_def)
  ultimately show ?case using c(3) by (simp add: reschedule_Cons rest1_def)
qed

text \<open>The queue between the ticks of phase \<open>c\<close> and \<open>c + 1\<close>.\<close>

definition eq_inv :: "nat \<Rightarrow> 'e evmap \<Rightarrow> bool" where
  "eq_inv c q \<longleftrightarrow> sorted (map fst q) \<and> (\<forall>x\<in>set q. c < fst x)"

definition due :: "nat \<Rightarrow> 'e evmap \<Rightarrow> 'e list" where
  "due c q = map snd (takeWhile (\<lambda>x. fst x = c) q)"

lemma eq_tick_ok:
  assumes inv: "eq_inv c q" and cb: "call_all callback (due (Suc c) q) s = Some (es, s')"
  shows "\<exists>q'. eq_tick callback getPeriod (Suc c) q s = Some (q', s') \<and> q' = reschedule getPeriod (Suc c) es (dropWhile (\<lambda>x. fst x = Suc c) q) \<and> eq_inv (Suc c) q'"
proof -
  let ?d = "takeWhile (\<lambda>x. fst x = Suc c) q" let ?r = "dropWhile (\<lambda>x. fst x = Suc c) q"
  have s: "sorted (map fst q)" "\<forall>x\<in>set q. c < fst x" using inv by (simp_all add: eq_inv_def)
  have srt: "sorted (map fst ?r)" using s(1) sorted_dropWhile by (induction q) auto
  have lt: "\<forall>x\<in>set ?r. Suc c < fst x" using s by (induction q) (auto simp: Suc_lessI)
  have "\<forall>x\<in>set ?d. fst x = Suc c" by (auto dest: set_takeWhileD)
  then have "eq_loop callback getPeriod (Suc c) (?d @ ?r) s = Some (reschedule getPeriod (Suc c) es ?r, s')"
    using eq_loop_due [OF _ lt cb [unfolded due_def]] by blast
  then show ?thesis using reschedule_keep [OF srt lt] by (simp add: eq_tick_def eq_inv_def takeWhile_dropWhile_id)
qed

text \<open>A tick per phase; between ticks the rest of the program changes the state.\<close>

fun eq_run :: "('e \<Rightarrow> 's \<Rightarrow> ('e \<times> 's) option) \<Rightarrow> ('e \<Rightarrow> nat) \<Rightarrow> (nat \<Rightarrow> 's \<Rightarrow> 's) \<Rightarrow> nat \<Rightarrow> nat \<Rightarrow> 'e evmap \<Rightarrow> 's \<Rightarrow> ('e evmap \<times> 's) option" where
  "eq_run callback getPeriod env c 0 q s = Some (q, s)"
| "eq_run callback getPeriod env c (Suc n) q s = do {
     (q, s) \<leftarrow> eq_tick callback getPeriod (Suc c) q (env (Suc c) s);
     eq_run callback getPeriod env (Suc c) n q s }"

lemma call_all_total:
  assumes "\<And>e s. \<exists>r. callback e s = Some r"
  shows "\<exists>es' s'. call_all callback es s = Some (es', s')"
proof (induction es arbitrary: s)
  case (Cons e es)
  obtain e1 s1 where "callback e s = Some (e1, s1)" using assms [of e s] by auto
  then show ?case using Cons [of s1] by auto
qed simp

lemma eq_run_ok:
  assumes "\<And>e s. \<exists>r. callback e s = Some r" "eq_inv c q"
  shows "\<exists>q' s'. eq_run callback getPeriod env c n q s = Some (q', s') \<and> eq_inv (c + n) q'"
  using assms(2)
proof (induction n arbitrary: c q s)
  case (Suc n)
  obtain es s1 where c: "call_all callback (due (Suc c) q) (env (Suc c) s) = Some (es, s1)" using call_all_total [of callback, OF assms(1)] by blast
  obtain q1 where q1: "eq_tick callback getPeriod (Suc c) q (env (Suc c) s) = Some (q1, s1)" "eq_inv (Suc c) q1"
    using eq_tick_ok [OF Suc.prems c, of getPeriod] by auto
  then show ?case using Suc.IH [OF q1(2), of s1] by simp
qed simp

text \<open>
  C22. The event queue. When it is ticked at every phase and the callbacks return, no tick reaches the panic about a missed phase or runs for ever. A tick calls the events due in this
  phase once each, in the order in which they were inserted, reschedules those with a period after that many phases, drops the others,
  and leaves the rest of the queue alone.
\<close>

theorem event_queue_ticks_exactly:
  assumes "eq_inv c q" "\<And>e s. \<exists>r. callback e s = Some r"
  shows "(\<exists>es q' s'. call_all callback (due (Suc c) q) s = Some (es, s') \<and> eq_tick callback getPeriod (Suc c) q s = Some (q', s') \<and>
      q' = reschedule getPeriod (Suc c) es (dropWhile (\<lambda>x. fst x = Suc c) q) \<and> eq_inv (Suc c) q') \<and>
    (\<forall>env n. \<exists>q' s'. eq_run callback getPeriod env c n q s = Some (q', s') \<and> eq_inv (c + n) q')"
proof -
  obtain es s' where "call_all callback (due (Suc c) q) s = Some (es, s')" using call_all_total [of callback, OF assms(2)] by blast
  then show ?thesis using eq_tick_ok [OF assms(1), of callback s es s' getPeriod] eq_run_ok [of callback, OF assms(2,1), of getPeriod] by blast
qed

text \<open>Two events with period 5 and a one-shot event, on a counter of calls.\<close>

theorem event_queue_ticks_exactly_witness:
  "\<exists>q' n. eq_tick (\<lambda>e s. Some (e, s + (1 :: nat))) (\<lambda>e. e) 1 [(1, 5), (1, 0), (2, 5 :: nat)] 0 = Some (q', n) \<and> eq_inv 1 q' \<and> n = 2"
proof -
  have "eq_inv 0 [(1, 5), (1, 0), (2, 5 :: nat)]" by (simp add: eq_inv_def)
  moreover have "due 1 [(1, 5), (1, 0), (2, 5 :: nat)] = [5, 0]" by (simp add: due_def)
  ultimately show ?thesis
    using event_queue_ticks_exactly [of 0 "[(1, 5), (1, 0), (2, 5 :: nat)]" "\<lambda>e s. Some (e, s + (1 :: nat))" 0 "\<lambda>e. e"] by auto
qed

lemma eq_tick_missed: "q \<noteq> [] \<Longrightarrow> fst (hd q) < c \<Longrightarrow> eq_tick callback getPeriod c q s = None"
  by (cases q) (auto simp: eq_tick_def eq_loop.simps)

section \<open>Adaptive events fire on the first phase past their target\<close>

lemma ad_next_bounds:
  assumes "0 < r" "cur \<le> target"
  shows "0 < ad_next target cur r" "0 < j \<Longrightarrow> j < ad_next target cur r \<Longrightarrow> cur + j * r < target" "cur + ad_next target cur r * r \<le> target + r"
proof -
  let ?p = "(target - cur) div r"
  have p: "?p * r \<le> target - cur" by simp
  show "0 < ad_next target cur r" by (simp add: ad_next_def Let_def)
  have "cur + ?p * r \<le> target + r" using p assms by linarith
  then show "cur + ad_next target cur r * r \<le> target + r" using assms by (auto simp: ad_next_def Let_def)
  show "cur + j * r < target" if "0 < j" "j < ad_next target cur r"
  proof -
    have "Suc j \<le> ?p" using that by (auto simp: ad_next_def Let_def split: if_splits)
    then have "Suc j * r \<le> ?p * r" by (rule mult_le_mono1)
    then have "Suc j * r \<le> target - cur" using p by linarith
    then show ?thesis using assms by simp
  qed
qed

lemma rate_bound: "\<forall>t \<ge> c. v (Suc t) \<le> v t + r \<Longrightarrow> v (c + j) \<le> v c + j * (r :: nat)"
proof (induction j)
  case (Suc j)
  have "v (Suc (c + j)) \<le> v (c + j) + r" using Suc.prems by simp
  moreover have "v (c + j) \<le> v c + j * r" using Suc by blast
  ultimately show ?case by simp
qed simp

text \<open>At phase \<open>c\<close> the event waits for phase \<open>k\<close>, and cannot have passed its target before.\<close>

definition ad_waits :: "(nat \<Rightarrow> nat) \<Rightarrow> nat \<Rightarrow> nat \<Rightarrow> nat \<Rightarrow> nat \<Rightarrow> bool" where
  "ad_waits v target r c k \<longleftrightarrow> c < k \<and> (\<forall>j. c < j \<and> j < k \<longrightarrow> v j < target) \<and> v k \<le> target + r"

lemma ad_waits_new:
  assumes "\<forall>t \<ge> c. v (Suc t) \<le> v t + r" "0 < r" "v c \<le> target"
  shows "ad_waits v target r c (c + ad_next target (v c) r)"
proof -
  note b = ad_next_bounds [OF assms(2,3)]
  have "v j < target" if "c < j" "j < c + ad_next target (v c) r" for j
  proof -
    have "v (c + (j - c)) \<le> v c + (j - c) * r" by (rule rate_bound [OF assms(1)])
    moreover have "v c + (j - c) * r < target" using b(2) [of "j - c"] that by linarith
    ultimately show ?thesis using that by simp
  qed
  moreover have "v (c + ad_next target (v c) r) \<le> target + r" using rate_bound [OF assms(1), of "ad_next target (v c) r"] b(3) by linarith
  ultimately show ?thesis using b(1) by (simp add: ad_waits_def)
qed

definition world_get :: "(nat \<Rightarrow> nat) \<Rightarrow> nat \<times> nat list \<Rightarrow> nat" where
  "world_get v w = v (fst w)"

definition world_fire :: "nat \<times> nat list \<Rightarrow> nat \<times> nat list" where
  "world_fire w = (fst w, snd w @ [fst w])"

abbreviation ad_run :: "(nat \<Rightarrow> nat) \<Rightarrow> nat \<Rightarrow> nat \<Rightarrow> adaptive evmap \<Rightarrow> nat \<times> nat list \<Rightarrow> (adaptive evmap \<times> nat \<times> nat list) option" where
  "ad_run v \<equiv> eq_run (ad_callback (world_get v) world_fire) ad_period (\<lambda>t w. (t, snd w))"

lemma ad_run_empty: "\<exists>t. ad_run v c n [] (x, f) = Some ([], t, f)"
proof (induction n arbitrary: c x)
  case (Suc n)
  have "eq_tick (ad_callback (world_get v) world_fire) ad_period (Suc c) [] (Suc c, f) = Some ([], Suc c, f)"
    by (simp add: eq_tick_def eq_loop.simps)
  then show ?case using Suc [of "Suc c" "Suc c"] by simp
qed simp

lemma tick_one:
  "eq_tick cb per c [(k, e)] s = (if k < c then None else if k = c then
     (case cb e s of None \<Rightarrow> None | Some r \<Rightarrow> Some (if per (fst r) \<noteq> 0 then [(c + per (fst r), fst r)] else [], snd r)) else Some ([(k, e)], s))"
  unfolding eq_tick_def
  by (subst eq_loop.simps) (auto simp: eq_loop.simps [of _ _ _ "[]"] eq_loop.simps [of _ _ _ "_ # _"] mm_insert_def split: option.splits)

definition first_past :: "(nat \<Rightarrow> nat) \<Rightarrow> nat \<Rightarrow> nat \<Rightarrow> nat \<Rightarrow> nat list" where
  "first_past v target c n = (if \<exists>t. c < t \<and> t \<le> c + n \<and> target \<le> v t then [LEAST t. c < t \<and> target \<le> v t] else [])"

lemma first_past_skip: "v (Suc c) < target \<Longrightarrow> first_past v target c (Suc n) = first_past v target (Suc c) n"
proof -
  assume h: "v (Suc c) < target"
  have "c < t \<and> target \<le> v t \<longleftrightarrow> Suc c < t \<and> target \<le> v t" for t using h by (cases "t = Suc c") auto
  then have "(\<lambda>t. c < t \<and> target \<le> v t) = (\<lambda>t. Suc c < t \<and> target \<le> v t)"
    "(\<exists>t. c < t \<and> t \<le> c + Suc n \<and> target \<le> v t) \<longleftrightarrow> (\<exists>t. Suc c < t \<and> t \<le> Suc c + n \<and> target \<le> v t)" by (auto simp: fun_eq_iff)
  then show ?thesis unfolding first_past_def by (simp only:)
qed

lemma first_past_hit: "target \<le> v (Suc c) \<Longrightarrow> first_past v target c (Suc n) = [Suc c]"
proof -
  assume h: "target \<le> v (Suc c)"
  then have "\<exists>t. c < t \<and> t \<le> c + Suc n \<and> target \<le> v t" by (intro exI [of _ "Suc c"]) simp
  moreover have "(LEAST t. c < t \<and> target \<le> v t) = Suc c" using h by (intro Least_equality) auto
  ultimately show ?thesis by (simp only: first_past_def if_True)
qed

lemma ad_run_ok:
  assumes rate: "\<forall>t \<ge> t0. v (Suc t) \<le> v t + r" and r: "0 < r"
  shows "t0 \<le> c \<Longrightarrow> ad_waits v (ad_target e) r c k \<Longrightarrow> ad_maxRate e = r \<Longrightarrow>
    \<exists>q t. ad_run v c n [(k, e)] (x, []) = Some (q, t, first_past v (ad_target e) c n)"
proof (induction n arbitrary: c k e x)
  case 0
  then show ?case by (simp add: first_past_def)
next
  case (Suc n)
  let ?T = "ad_target e"
  show ?case
  proof (cases "k = Suc c")
    case False
    then have k: "Suc c < k" "v (Suc c) < ?T" "ad_waits v ?T r (Suc c) k" using Suc.prems(2) by (auto simp: ad_waits_def)
    then show ?thesis using Suc.IH [of "Suc c" e k "Suc c"] Suc.prems(1,3) first_past_skip [of v c ?T n] by (auto simp: tick_one)
  next
    case True
    show ?thesis
    proof (cases "?T \<le> v (Suc c)")
      case hit: True
      have "v (Suc c) - ?T \<le> r" using Suc.prems(2) True by (auto simp: ad_waits_def)
      then have "ad_run v c (Suc n) [(k, e)] (x, []) = ad_run v (Suc c) n [] (Suc c, [Suc c])"
        using True hit Suc.prems(3) by (simp add: tick_one ad_callback_def world_get_def world_fire_def)
      then show ?thesis using ad_run_empty [of v "Suc c" n "Suc c" "[Suc c]"] first_past_hit [of ?T v c n] hit by auto
    next
      case miss: False
      let ?e = "e\<lparr>ad_period := ad_next ?T (v (Suc c)) r\<rparr>"
      have p: "0 < ad_next ?T (v (Suc c)) r" by (simp add: ad_next_def Let_def)
      have "ad_waits v (ad_target ?e) r (Suc c) (Suc c + ad_next ?T (v (Suc c)) r)"
        using ad_waits_new [of "Suc c" v r ?T] rate r miss Suc.prems(1) by simp
      then show ?thesis using Suc.IH [of "Suc c" ?e "Suc c + ad_next ?T (v (Suc c)) r" "Suc c"] True miss Suc.prems p first_past_skip [of v c ?T n]
        by (auto simp: tick_one ad_callback_def world_get_def)
    qed
  qed
qed

text \<open>
  C21. An adaptive event is exact. If the counter it watches rises by at most \<open>maxRate\<close> per phase, an event inserted at phase \<open>t0\<close> never fails its assertion about the rate,
  and after any number of phases it has fired exactly once if the counter has reached the target since then, in the first such phase, and not
  at all otherwise, although it does not look at the counter in every phase.
\<close>

theorem adaptive_event_fires_first_phase:
  assumes "\<forall>t \<ge> t0. v (Suc t) \<le> v t + maxRate" "0 < maxRate" "v t0 \<le> target"
  shows "\<exists>e q0 q t. AdaptiveEvent_new (v t0) target maxRate = Some e \<and> eq_insert ad_period t0 e (-1) [] = Some q0 \<and>
    ad_run v t0 n q0 (t0, []) = Some (q, t, if \<exists>t. t0 < t \<and> t \<le> t0 + n \<and> target \<le> v t then [LEAST t. t0 < t \<and> target \<le> v t] else [])"
proof -
  let ?e = "\<lparr>ad_period = ad_next target (v t0) maxRate, ad_target = target, ad_maxRate = maxRate\<rparr>"
  let ?q = "[(t0 + ad_next target (v t0) maxRate, ?e)]"
  have "AdaptiveEvent_new (v t0) target maxRate = Some ?e" using assms by (simp add: AdaptiveEvent_new_def)
  moreover have "eq_insert ad_period t0 ?e (-1) [] = Some ?q" by (simp add: eq_insert_def mm_insert_def)
  moreover have "\<exists>q t. ad_run v t0 n ?q (t0, []) = Some (q, t, first_past v target t0 n)"
    using ad_run_ok [OF assms(1,2), of t0 ?e "t0 + ad_next target (v t0) maxRate" n t0] ad_waits_new [OF assms] by simp
  ultimately show ?thesis unfolding first_past_def by blast
qed

theorem adaptive_event_fires_first_phase_witness:
  "\<exists>e q0 q t. AdaptiveEvent_new 0 100 10 = Some e \<and> eq_insert ad_period 0 e (-1) [] = Some q0 \<and> ad_run (\<lambda>t. 7 * t) 0 20 q0 (0, []) = Some (q, t, [15])"
proof -
  have "(LEAST t :: nat. 0 < t \<and> 100 \<le> 7 * t) = 15" by (rule Least_equality) auto
  moreover have "\<exists>t :: nat. 0 < t \<and> t \<le> 0 + 20 \<and> 100 \<le> 7 * t" by (rule exI [of _ 15]) simp
  ultimately show ?thesis using adaptive_event_fires_first_phase [of 0 "\<lambda>t. 7 * t" 10 100 20] by simp
qed

end
