(* ===== verification/OOOStructs.thy ===== *)
theory OOOStructs
  imports BitHacks MemHier
begin

text \<open>
  The building blocks of the out-of-order core (\<^verbatim>\<open>src/ooo_core.h\<close>): the two-level branch predictor, the instruction window, the
  reorder buffer and the cycle queue. Their template parameters are arguments.

  \<^item> Cycles are natural numbers (64-bit counters in the code); differences that the code narrows to 32 bits are taken modulo \<open>2^32\<close>.
  \<^item> The window is a pair of arrays of \<open>H\<close> cycles, the current and the next, and an ordered map of the cycles beyond. The map is a list in
    order of cycles. The count of a cycle is at most the number of its eight units.
  \<^item> \<open>occupancy\<close> fails where it would wrap around below zero.
  \<^item> The loops that wait for a cycle to pass are partial functions: not returning is \<open>None\<close>.
\<close>

section \<open>Branch predictor\<close>

record bpred =
  bp_bhsr :: "u32 list"
  bp_pht :: "u8 list"

definition BranchPredictorPAg :: "nat \<Rightarrow> nat \<Rightarrow> bpred" where
  "BranchPredictorPAg NB LB = \<lparr>bp_bhsr = replicate (2 ^ NB) 0, bp_pht = replicate (2 ^ LB) 1\<rparr>"

definition bp_phtIdx :: "nat \<Rightarrow> nat \<Rightarrow> u32 \<Rightarrow> nat" where
  "bp_phtIdx HB LB h = (let phtMask = push_bit LB 1 - 1 in unat ((h XOR drop_bit (HB - LB) (h AND NOT phtMask)) AND phtMask))"

definition bp_bhsrIdx :: "nat \<Rightarrow> Address \<Rightarrow> nat" where
  "bp_bhsrIdx NB branchPc = unat ((ucast (drop_bit 1 branchPc) :: u32) AND (push_bit NB 1 - 1))"

definition bp_predict :: "nat \<Rightarrow> nat \<Rightarrow> nat \<Rightarrow> bpred \<Rightarrow> Address \<Rightarrow> bool \<Rightarrow> (bpred \<times> bool) option" where
  "bp_predict NB HB LB b branchPc taken = do {
     let bhsrIdx = bp_bhsrIdx NB branchPc;
     h \<leftarrow> aget (bp_bhsr b) bhsrIdx;
     let phtIdx = bp_phtIdx HB LB h;
     c \<leftarrow> aget (bp_pht b) phtIdx;
     let pred = (c > 1);
     let c' = (if taken then (if pred then 3 else c + 1) else (if pred then c - 1 else 0));
     let h' = (push_bit 1 h AND (push_bit HB 1 - 1)) OR (if taken then 1 else 0);
     Some (b\<lparr>bp_pht := (bp_pht b)[phtIdx := c'], bp_bhsr := (bp_bhsr b)[bhsrIdx := h']\<rparr>, taken = pred) }"

section \<open>Instruction window\<close>

record wincycle =
  wc_occUnits :: u8
  wc_count :: nat

definition wc_empty :: wincycle where
  "wc_empty = \<lparr>wc_occUnits = 0, wc_count = 0\<rparr>"

record window =
  wn_curWin :: "wincycle list"
  wn_nextWin :: "wincycle list"
  wn_ubWin :: "(nat \<times> wincycle) list"
  wn_occupancy :: nat
  wn_curPos :: nat
  wn_lastPort :: nat

definition WindowStructure :: "nat \<Rightarrow> window" where
  "WindowStructure H = \<lparr>wn_curWin = replicate H wc_empty, wn_nextWin = replicate H wc_empty, wn_ubWin = [], wn_occupancy = 0, wn_curPos = 0, wn_lastPort = 0\<rparr>"

text \<open>Moving the cycles of the map that come into range to the next window.\<close>

fun wn_move :: "nat \<Rightarrow> nat \<Rightarrow> (nat \<times> wincycle) list \<Rightarrow> wincycle list \<Rightarrow> ((nat \<times> wincycle) list \<times> wincycle list) option" where
  "wn_move H curCycle [] nextWin = Some ([], nextWin)"
| "wn_move H curCycle ((k, wc) # ub) nextWin =
     (if k < curCycle + 2 * H then do {
        let nextWinPos = nat ((int k - int H - int curCycle) mod 2 ^ 32);
        assert_that (nextWinPos < H);
        nextWin \<leftarrow> aset nextWin nextWinPos wc;
        wn_move H curCycle ub nextWin }
      else Some ((k, wc) # ub, nextWin))"

definition wn_advancePos :: "nat \<Rightarrow> window \<Rightarrow> nat \<Rightarrow> (window \<times> nat) option" where
  "wn_advancePos H w curCycle = do {
     wc \<leftarrow> aget (wn_curWin w) (wn_curPos w);
     assert_that (wc_count wc \<le> wn_occupancy w);
     let w = w\<lparr>wn_occupancy := wn_occupancy w - wc_count wc, wn_curWin := (wn_curWin w)[wn_curPos w := wc_empty], wn_curPos := wn_curPos w + 1\<rparr>;
     let curCycle = curCycle + 1;
     if wn_curPos w = H then do {
       (ub, nextWin) \<leftarrow> wn_move H curCycle (wn_ubWin w) (wn_curWin w);
       Some (w\<lparr>wn_curWin := wn_nextWin w, wn_nextWin := nextWin, wn_curPos := 0, wn_ubWin := ub\<rparr>, curCycle) }
     else Some (w, curCycle) }"

text \<open>\<open>trySchedule<touchOccupancy, recordPort>\<close>: the cycle after it, the last port, and whether a unit was free.\<close>

definition wn_try :: "bool \<Rightarrow> bool \<Rightarrow> u8 \<Rightarrow> wincycle \<Rightarrow> nat \<Rightarrow> wincycle \<times> nat \<times> bool" where
  "wn_try touchOccupancy recordPort portMask wc lastPort =
     (let availMask = NOT (wc_occUnits wc) AND portMask
      in if touchOccupancy then
           if availMask \<noteq> 0 then
             (wc\<lparr>wc_occUnits := wc_occUnits wc OR push_bit (ctz availMask) 1, wc_count := wc_count wc + 1\<rparr>,
              if recordPort then ctz availMask else lastPort, True)
           else (wc, lastPort, False)
         else (wc\<lparr>wc_occUnits := wc_occUnits wc OR portMask\<rparr>, lastPort, availMask \<noteq> 0))"

fun wn_scan :: "bool \<Rightarrow> bool \<Rightarrow> u8 \<Rightarrow> wincycle list \<Rightarrow> nat \<Rightarrow> nat \<Rightarrow> nat \<Rightarrow> wincycle list \<times> nat \<times> nat option" where
  "wn_scan t r m win lastPort pos 0 = (win, lastPort, None)"
| "wn_scan t r m win lastPort pos (Suc n) =
     (case wn_try t r m (win ! pos) lastPort of
        (wc, lp, True) \<Rightarrow> (win[pos := wc], lp, Some pos)
      | (wc, lp, False) \<Rightarrow> wn_scan t r m (win[pos := wc]) lp (pos + 1) n)"

text \<open>The search in the map from \<open>lower_bound(schedCycle)\<close>.\<close>

fun ub_scan :: "bool \<Rightarrow> bool \<Rightarrow> u8 \<Rightarrow> nat \<Rightarrow> nat \<Rightarrow> (nat \<times> wincycle) list \<Rightarrow> ((nat \<times> wincycle) list \<times> nat \<times> nat) option" where
  "ub_scan t r m lastPort c [] = do {
     let (wc, lp, ok) = wn_try t r m wc_empty lastPort;
     assert_that ok;
     Some ([(c, wc)], lp, c) }"
| "ub_scan t r m lastPort c ((k, w) # ub) =
     (if k \<noteq> c then do {
        let (wc, lp, ok) = wn_try t r m wc_empty lastPort;
        assert_that ok;
        Some ((c, wc) # (k, w) # ub, lp, c) }
      else (case wn_try t r m w lastPort of
              (wc, lp, True) \<Rightarrow> Some ((k, wc) # ub, lp, c)
            | (wc, lp, False) \<Rightarrow> do {
                (ub, lp, c) \<leftarrow> ub_scan t r m lp (c + 1) ub;
                Some ((k, wc) # ub, lp, c) }))"

partial_function (option) wn_wait :: "nat \<Rightarrow> nat \<Rightarrow> window \<Rightarrow> nat \<Rightarrow> (window \<times> nat) option" where
  "wn_wait H WSZ w curCycle =
     (if wn_occupancy w = WSZ then do { (w, curCycle) \<leftarrow> wn_advancePos H w curCycle; wn_wait H WSZ w curCycle } else Some (w, curCycle))"

text \<open>Placing an operation at or after \<open>schedCycle\<close> once the window has room.\<close>

definition wn_place :: "nat \<Rightarrow> bool \<Rightarrow> bool \<Rightarrow> window \<Rightarrow> nat \<Rightarrow> nat \<Rightarrow> u8 \<Rightarrow> (window \<times> nat) option" where
  "wn_place H t r w curCycle schedCycle portMask = do {
     let delay = (if schedCycle > curCycle then (schedCycle - curCycle) mod 2 ^ 32 else 0);
     let curWinPos = (wn_curPos w + delay) mod 2 ^ 32;
     (case wn_scan t r portMask (wn_curWin w) (wn_lastPort w) curWinPos (H - curWinPos) of
        (win, lp, Some p) \<Rightarrow> Some (w\<lparr>wn_curWin := win, wn_lastPort := lp\<rparr>, curCycle + (p - wn_curPos w))
      | (win, lp, None) \<Rightarrow> do {
          let w = w\<lparr>wn_curWin := win, wn_lastPort := lp\<rparr>;
          let nextWinPos = (if curWinPos < H then 0 else curWinPos - H);
          (case wn_scan t r portMask (wn_nextWin w) (wn_lastPort w) nextWinPos (H - nextWinPos) of
             (win, lp, Some p) \<Rightarrow> Some (w\<lparr>wn_nextWin := win, wn_lastPort := lp\<rparr>, curCycle + (p + H - wn_curPos w))
           | (win, lp, None) \<Rightarrow> do {
               let w = w\<lparr>wn_nextWin := win, wn_lastPort := lp\<rparr>;
               let nextWinPos = (if nextWinPos < H then H else nextWinPos);
               let c = curCycle + (nextWinPos + H - wn_curPos w);
               (ub, lp, c) \<leftarrow> ub_scan t r portMask (wn_lastPort w) c (dropWhile (\<lambda>x. fst x < c) (wn_ubWin w));
               Some (w\<lparr>wn_ubWin := takeWhile (\<lambda>x. fst x < curCycle + (nextWinPos + H - wn_curPos w)) (wn_ubWin w) @ ub, wn_lastPort := lp\<rparr>, c) }) }) }"

definition wn_scheduleInternal :: "nat \<Rightarrow> nat \<Rightarrow> bool \<Rightarrow> bool \<Rightarrow> window \<Rightarrow> nat \<Rightarrow> nat \<Rightarrow> u8 \<Rightarrow> (window \<times> nat \<times> nat) option" where
  "wn_scheduleInternal H WSZ t r w curCycle schedCycle portMask = do {
     (w, curCycle) \<leftarrow> (if t then wn_wait H WSZ w curCycle else Some (w, curCycle));
     (w, c) \<leftarrow> wn_place H t r w curCycle schedCycle portMask;
     Some (if t then w\<lparr>wn_occupancy := wn_occupancy w + 1\<rparr> else w, curCycle, c) }"

fun wn_extra :: "nat \<Rightarrow> nat \<Rightarrow> nat \<Rightarrow> window \<Rightarrow> nat \<Rightarrow> nat \<Rightarrow> u8 \<Rightarrow> (window \<times> nat) option" where
  "wn_extra H WSZ 0 w curCycle c portMask = Some (w, curCycle)"
| "wn_extra H WSZ (Suc n) w curCycle c portMask = do {
     (w, curCycle, c) \<leftarrow> wn_scheduleInternal H WSZ False False w curCycle c portMask;
     wn_extra H WSZ n w curCycle (c + 1) portMask }"

definition wn_schedule :: "nat \<Rightarrow> nat \<Rightarrow> window \<Rightarrow> nat \<Rightarrow> nat \<Rightarrow> u8 \<Rightarrow> nat \<Rightarrow> (window \<times> nat \<times> nat) option" where
  "wn_schedule H WSZ w curCycle schedCycle portMask extraSlots = do {
     (w, curCycle, schedCycle) \<leftarrow> wn_scheduleInternal H WSZ True (extraSlots \<noteq> 0) w curCycle schedCycle portMask;
     (w, curCycle) \<leftarrow> wn_extra H WSZ extraSlots w curCycle (schedCycle + 1) (push_bit (wn_lastPort w) 1);
     assert_that (wn_occupancy w \<le> WSZ);
     Some (w, curCycle, schedCycle) }"

partial_function (option) wn_drain :: "nat \<Rightarrow> window \<Rightarrow> nat \<Rightarrow> nat \<Rightarrow> (window \<times> nat) option" where
  "wn_drain H w curCycle targetCycle =
     (if wn_occupancy w \<noteq> 0 \<and> curCycle < targetCycle then do { (w, curCycle) \<leftarrow> wn_advancePos H w curCycle; wn_drain H w curCycle targetCycle }
      else Some (w, curCycle))"

definition wn_longAdvance :: "nat \<Rightarrow> window \<Rightarrow> nat \<Rightarrow> nat \<Rightarrow> (window \<times> nat) option" where
  "wn_longAdvance H w curCycle targetCycle = do {
     assert_that (curCycle \<le> targetCycle);
     (w, curCycle) \<leftarrow> wn_drain H w curCycle targetCycle;
     if wn_occupancy w \<noteq> 0 then do { assert_that (curCycle = targetCycle); Some (w, curCycle) }
     else do { assert_that (curCycle \<le> targetCycle); Some (w, targetCycle) } }"

partial_function (option) wn_poison :: "nat \<Rightarrow> nat \<Rightarrow> window \<Rightarrow> nat \<Rightarrow> nat \<Rightarrow> nat \<Rightarrow> u8 \<Rightarrow> (window \<times> nat) option" where
  "wn_poison H WSZ w curCycle poisonCycle targetCycle portMask =
     (if poisonCycle < targetCycle then do {
        (w, curCycle, poisonCycle) \<leftarrow> wn_scheduleInternal H WSZ False False w curCycle poisonCycle portMask;
        wn_poison H WSZ w curCycle poisonCycle targetCycle portMask }
      else Some (w, curCycle))"

definition wn_poisonRange :: "nat \<Rightarrow> nat \<Rightarrow> window \<Rightarrow> nat \<Rightarrow> nat \<Rightarrow> u8 \<Rightarrow> window option" where
  "wn_poisonRange H WSZ w curCycle targetCycle portMask = do {
     (w, cur) \<leftarrow> wn_poison H WSZ w curCycle curCycle targetCycle portMask;
     assert_that (curCycle = cur);
     Some w }"

section \<open>Reorder buffer and cycle queue\<close>

record rob =
  rob_buf :: "nat list"
  rob_curRetireCycle :: nat
  rob_curCycleRetires :: nat
  rob_idx :: nat

definition ReorderBuffer :: "nat \<Rightarrow> rob" where
  "ReorderBuffer SZ = \<lparr>rob_buf = replicate SZ 0, rob_curRetireCycle = 0, rob_curCycleRetires = 1, rob_idx = 0\<rparr>"

definition rob_minAllocCycle :: "rob \<Rightarrow> nat option" where
  "rob_minAllocCycle r = aget (rob_buf r) (rob_idx r)"

definition rob_markRetire :: "nat \<Rightarrow> nat \<Rightarrow> rob \<Rightarrow> nat \<Rightarrow> rob option" where
  "rob_markRetire SZ W r minRetireCycle = do {
     let r = (if minRetireCycle \<le> rob_curRetireCycle r then
                if rob_curCycleRetires r = W
                then r\<lparr>rob_curRetireCycle := rob_curRetireCycle r + 1, rob_curCycleRetires := 0\<rparr>
                else r\<lparr>rob_curCycleRetires := rob_curCycleRetires r + 1\<rparr>
              else r\<lparr>rob_curRetireCycle := minRetireCycle, rob_curCycleRetires := 1\<rparr>);
     buf \<leftarrow> aset (rob_buf r) (rob_idx r) (rob_curRetireCycle r);
     Some (r\<lparr>rob_buf := buf, rob_idx := if rob_idx r + 1 = SZ then 0 else rob_idx r + 1\<rparr>) }"

record cycle_queue =
  cq_buf :: "nat list"
  cq_idx :: nat

definition CycleQueue :: "nat \<Rightarrow> cycle_queue" where
  "CycleQueue SZ = \<lparr>cq_buf = replicate SZ 0, cq_idx = 0\<rparr>"

definition cq_minAllocCycle :: "cycle_queue \<Rightarrow> nat option" where
  "cq_minAllocCycle q = aget (cq_buf q) (cq_idx q)"

definition cq_markLeave :: "nat \<Rightarrow> cycle_queue \<Rightarrow> nat \<Rightarrow> cycle_queue option" where
  "cq_markLeave SZ q leaveCycle = do {
     buf \<leftarrow> aset (cq_buf q) (cq_idx q) leaveCycle;
     Some (q\<lparr>cq_buf := buf, cq_idx := if cq_idx q + 1 = SZ then 0 else cq_idx q + 1\<rparr>) }"

section \<open>The window as a table of cycles\<close>

definition wc_free :: "u8 \<Rightarrow> wincycle \<Rightarrow> bool" where
  "wc_free m wc \<longleftrightarrow> NOT (wc_occUnits wc) AND m \<noteq> 0"

definition ub_at :: "(nat \<times> wincycle) list \<Rightarrow> nat \<Rightarrow> wincycle" where
  "ub_at ub c = (case map_of ub c of Some wc \<Rightarrow> wc | None \<Rightarrow> wc_empty)"

text \<open>What the window holds for cycle \<open>c\<close>, from the current cycle on.\<close>

definition wc_at :: "nat \<Rightarrow> window \<Rightarrow> nat \<Rightarrow> nat \<Rightarrow> wincycle" where
  "wc_at H w cur c = (let b = cur - wn_curPos w in
     if c < b + H then wn_curWin w ! (c - b) else if c < b + 2 * H then wn_nextWin w ! (c - b - H) else ub_at (wn_ubWin w) c)"

definition counts :: "wincycle list \<Rightarrow> nat" where
  "counts win = sum_list (map wc_count win)"

definition wn_shape :: "nat \<Rightarrow> window \<Rightarrow> nat \<Rightarrow> bool" where
  "wn_shape H w cur \<longleftrightarrow> length (wn_curWin w) = H \<and> length (wn_nextWin w) = H \<and> wn_curPos w < H \<and> wn_curPos w \<le> cur \<and>
     sorted_wrt (<) (map fst (wn_ubWin w)) \<and> (\<forall>x\<in>set (wn_ubWin w). cur - wn_curPos w + 2 * H \<le> fst x) \<and>
     (\<forall>i < wn_curPos w. wn_curWin w ! i = wc_empty)"

definition wn_total :: "window \<Rightarrow> nat" where
  "wn_total w = counts (wn_curWin w) + counts (wn_nextWin w) + counts (map snd (wn_ubWin w))"

definition wn_inv :: "nat \<Rightarrow> window \<Rightarrow> nat \<Rightarrow> bool" where
  "wn_inv H w cur \<longleftrightarrow> wn_shape H w cur \<and> wn_occupancy w = wn_total w"

lemma counts_update: "i < length win \<Longrightarrow> counts (win[i := x]) + wc_count (win ! i) = counts win + wc_count x"
  unfolding counts_def using sum_list_update_nat [of i "map wc_count win" "wc_count x"] by (simp add: map_update)

lemma ub_at_empty: "c \<notin> fst ` set ub \<Longrightarrow> ub_at ub c = wc_empty"
  by (auto simp: ub_at_def dest: map_of_SomeD split: option.splits intro: rev_image_eqI)

lemma ub_at_Cons [simp]: "ub_at ((k, x) # ub) c = (if c = k then x else ub_at ub c)"
  by (simp add: ub_at_def)

lemma ub_at_append: "c \<notin> fst ` set xs \<Longrightarrow> ub_at (xs @ ys) c = ub_at ys c"
  by (induction xs) (auto simp: ub_at_def)

lemma ub_at_append1: "c \<notin> fst ` set ys \<Longrightarrow> ub_at (xs @ ys) c = ub_at xs c"
  by (induction xs) (auto simp: ub_at_empty ub_at_def [of "[]"])

section \<open>Advancing keeps the table\<close>

lemma wn_move_ok:
  assumes "sorted_wrt (<) (map fst ub)" "\<forall>x\<in>set ub. cur + H \<le> fst x" "length nw = H" "H \<le> 2 ^ 32" "\<forall>x\<in>set ub. nw ! (fst x - cur - H) = wc_empty \<or> fst x \<ge> cur + 2 * H"
  shows "\<exists>ub' nw'. wn_move H cur ub nw = Some (ub', nw') \<and> sorted_wrt (<) (map fst ub') \<and> (\<forall>x\<in>set ub'. cur + 2 * H \<le> fst x) \<and> length nw' = H \<and>
    (\<forall>c. ub_at ub' c = (if c < cur + 2 * H then wc_empty else ub_at ub c)) \<and>
    (\<forall>i < H. nw' ! i = (if cur + H + i \<in> fst ` set ub then ub_at ub (cur + H + i) else nw ! i)) \<and>
    counts nw' + counts (map snd ub') = counts nw + counts (map snd ub)"
  using assms
proof (induction ub arbitrary: nw)
  case Nil
  then show ?case by (simp add: ub_at_def)
next
  case (Cons x ub)
  obtain k wc where x: "x = (k, wc)" by (cases x)
  have k: "cur + H \<le> k" "\<forall>y\<in>set ub. k < fst y" "sorted_wrt (<) (map fst ub)" using Cons.prems(1,2) x by auto
  show ?case
  proof (cases "k < cur + 2 * H")
    case True
    let ?p = "k - cur - H"
    have p: "?p < H" using True k(1) by linarith
    have "int k - int H - int cur = int ?p" using k(1) by simp
    then have pos: "nat ((int k - int H - int cur) mod 2 ^ 32) = ?p" using p Cons.prems(4) by simp
    have e: "nw ! ?p = wc_empty" using Cons.prems(5) x True by auto
    have d: "?p \<noteq> fst y - cur - H" if "y \<in> set ub" for y using k(1,2) that by fastforce
    have h: "\<forall>y\<in>set ub. cur + H \<le> fst y" "length (nw[?p := wc]) = H"
      "\<forall>y\<in>set ub. nw[?p := wc] ! (fst y - cur - H) = wc_empty \<or> fst y \<ge> cur + 2 * H" using Cons.prems d by simp_all
    obtain ub' nw' where r: "wn_move H cur ub (nw[?p := wc]) = Some (ub', nw')" "sorted_wrt (<) (map fst ub')" "\<forall>x\<in>set ub'. cur + 2 * H \<le> fst x" "length nw' = H"
      "\<forall>c. ub_at ub' c = (if c < cur + 2 * H then wc_empty else ub_at ub c)"
      "\<forall>i < H. nw' ! i = (if cur + H + i \<in> fst ` set ub then ub_at ub (cur + H + i) else nw[?p := wc] ! i)"
      "counts nw' + counts (map snd ub') = counts (nw[?p := wc]) + counts (map snd ub)"
      using Cons.IH [OF k(3) h(1,2) Cons.prems(4) h(3)] by (elim exE conjE) (rule that)
    have "wn_move H cur (x # ub) nw = Some (ub', nw')" using r(1) True pos p Cons.prems(3) by (simp add: x)
    moreover have "ub_at ub' c = (if c < cur + 2 * H then wc_empty else ub_at (x # ub) c)" for c using r(5) True by (auto simp: x)
    moreover have "nw' ! i = (if cur + H + i \<in> fst ` set (x # ub) then ub_at (x # ub) (cur + H + i) else nw ! i)" if "i < H" for i
    proof (cases "i = ?p")
      case eq: True
      then have "cur + H + i = k" using k(1) by simp
      moreover have "k \<notin> fst ` set ub" using k(2) by auto
      ultimately show ?thesis using r(6) that eq p Cons.prems(3) by (auto simp: x)
    next
      case False
      then have "cur + H + i \<noteq> k" by auto
      then show ?thesis using r(6) that False by (auto simp: x)
    qed
    moreover have "counts nw' + counts (map snd ub') = counts nw + counts (map snd (x # ub))"
      using r(7) counts_update [of ?p nw wc] p Cons.prems(3) e by (simp add: x counts_def wc_empty_def)
    ultimately show ?thesis using r(2-4) by blast
  next
    case False
    have "ub_at (x # ub) c = wc_empty" if "c < cur + 2 * H" for c
      using that False k(2) by (intro ub_at_empty) (auto simp: x)
    moreover have "cur + H + i \<notin> fst ` set (x # ub)" if "i < H" for i using that False k(2) by (auto simp: x)
    ultimately show ?thesis using False Cons.prems k by (auto simp: x)
  qed
qed

lemma wn_advance_ok:
  assumes inv: "wn_inv H w cur" and H: "H \<le> 2 ^ 32"
  shows "\<exists>w'. wn_advancePos H w cur = Some (w', cur + 1) \<and> wn_inv H w' (cur + 1) \<and> wn_occupancy w' = wn_occupancy w - wc_count (wc_at H w cur cur) \<and>
    wc_count (wc_at H w cur cur) \<le> wn_occupancy w \<and> (\<forall>c > cur. wc_at H w' (cur + 1) c = wc_at H w cur c) \<and> wn_lastPort w' = wn_lastPort w"
proof -
  let ?p = "wn_curPos w" let ?wc = "wn_curWin w ! wn_curPos w"
  have sh: "length (wn_curWin w) = H" "length (wn_nextWin w) = H" "?p < H" "?p \<le> cur" "sorted_wrt (<) (map fst (wn_ubWin w))"
    "\<forall>x\<in>set (wn_ubWin w). cur - ?p + 2 * H \<le> fst x" "\<forall>i < ?p. wn_curWin w ! i = wc_empty" and occ: "wn_occupancy w = wn_total w"
    using inv unfolding wn_inv_def wn_shape_def by blast+
  have at: "wc_at H w cur cur = ?wc" using sh(3,4) by (simp add: wc_at_def Let_def)
  let ?cw = "(wn_curWin w)[?p := wc_empty]"
  have cnt: "counts ?cw + wc_count ?wc = counts (wn_curWin w)" using counts_update [of ?p "wn_curWin w" wc_empty] sh(1,3) by (simp add: wc_empty_def)
  have le: "wc_count ?wc \<le> wn_occupancy w" using cnt occ by (simp add: wn_total_def)
  show ?thesis
  proof (cases "?p + 1 = H")
    case False
    let ?w = "w\<lparr>wn_occupancy := wn_occupancy w - wc_count ?wc, wn_curWin := ?cw, wn_curPos := ?p + 1\<rparr>"
    have "wn_advancePos H w cur = Some (?w, cur + 1)" using False le sh(1,3) by (simp add: wn_advancePos_def Let_def)
    moreover have "wn_inv H ?w (cur + 1)" using sh occ cnt False by (auto simp: wn_inv_def wn_shape_def wn_total_def nth_list_update less_Suc_eq)
    moreover have "wc_at H ?w (cur + 1) c = wc_at H w cur c" if "cur < c" for c using that sh(3,4) by (auto simp: wc_at_def Let_def nth_list_update)
    ultimately show ?thesis using at le by simp
  next
    case True
    have cw: "?cw ! i = wc_empty" if "i < H" for i using that sh(1,7) True by (cases "i = ?p") auto
    have base: "cur - ?p + 2 * H = cur + 1 + H" using True sh(4) by linarith
    obtain ub nw where m: "wn_move H (cur + 1) (wn_ubWin w) ?cw = Some (ub, nw)" "sorted_wrt (<) (map fst ub)" "\<forall>x\<in>set ub. cur + 1 + 2 * H \<le> fst x" "length nw = H"
      "\<forall>c. ub_at ub c = (if c < cur + 1 + 2 * H then wc_empty else ub_at (wn_ubWin w) c)"
      "\<forall>i < H. nw ! i = (if cur + 1 + H + i \<in> fst ` set (wn_ubWin w) then ub_at (wn_ubWin w) (cur + 1 + H + i) else ?cw ! i)"
      "counts nw + counts (map snd ub) = counts ?cw + counts (map snd (wn_ubWin w))"
    proof -
      have "\<forall>x\<in>set (wn_ubWin w). cur + 1 + H \<le> fst x" using sh(6) base by simp
      moreover have "\<forall>x\<in>set (wn_ubWin w). ?cw ! (fst x - (cur + 1) - H) = wc_empty \<or> fst x \<ge> cur + 1 + 2 * H"
        by (intro ballI disjCI cw) (use sh(3) in linarith)
      ultimately show ?thesis using wn_move_ok [OF sh(5), of "cur + 1" H ?cw] sh(1) H that by auto
    qed
    let ?w = "w\<lparr>wn_occupancy := wn_occupancy w - wc_count ?wc, wn_curWin := wn_nextWin w, wn_nextWin := nw, wn_curPos := 0, wn_ubWin := ub\<rparr>"
    have "wn_advancePos H w cur = Some (?w, cur + 1)" using True le sh(1,3) m(1) by (simp add: wn_advancePos_def Let_def)
    moreover have "wn_inv H ?w (cur + 1)" using sh(2,3) m(2-4,7) occ cnt by (auto simp: wn_inv_def wn_shape_def wn_total_def)
    moreover have "wc_at H ?w (cur + 1) c = wc_at H w cur c" if c: "cur < c" for c
    proof -
      have nw: "nw ! i = ub_at (wn_ubWin w) (cur + 1 + H + i)" if "i < H" for i using m(6) cw that by (auto simp: ub_at_empty)
      have b: "cur - ?p = cur + 1 - H" "H \<le> cur + 1" using True sh(4) by linarith+
      consider "c < cur + 1 + H" | "cur + 1 + H \<le> c" "c < cur + 1 + 2 * H" | "cur + 1 + 2 * H \<le> c" by linarith
      then show ?thesis
      proof cases
        case 1
        then have "c - (cur + 1) = c - (cur + 1 - H) - H" using b c by linarith
        then show ?thesis using 1 c b by (simp add: wc_at_def Let_def b(1))
      next
        case 2
        then have "wc_at H ?w (cur + 1) c = ub_at (wn_ubWin w) c" using nw [of "c - (cur + 1) - H"] by (simp add: wc_at_def Let_def)
        then show ?thesis using 2 b by (simp add: wc_at_def Let_def b(1))
      next
        case 3
        then show ?thesis using m(5) b by (simp add: wc_at_def Let_def b(1))
      qed
    qed
    ultimately show ?thesis using at le by simp
  qed
qed

section \<open>Placing an operation\<close>

definition wn_take :: "bool \<Rightarrow> u8 \<Rightarrow> wincycle \<Rightarrow> wincycle" where
  "wn_take t m wc = fst (wn_try t False m wc 0)"

text \<open>The recorded port after an operation was placed in a cycle.\<close>

definition wn_port :: "bool \<Rightarrow> bool \<Rightarrow> u8 \<Rightarrow> wincycle \<Rightarrow> nat \<Rightarrow> nat" where
  "wn_port t r m wc lp = (if t \<and> r then ctz (NOT (wc_occUnits wc) AND m) else lp)"

lemma wn_try_cases:
  "wc_free m wc \<Longrightarrow> wn_try t r m wc lp = (wn_take t m wc, wn_port t r m wc lp, True)"
  "\<not> wc_free m wc \<Longrightarrow> wn_try t r m wc lp = (wc, lp, False)"
proof -
  show "wn_try t r m wc lp = (wn_take t m wc, wn_port t r m wc lp, True)" if "wc_free m wc"
    using that by (simp add: wn_try_def wn_take_def wn_port_def wc_free_def Let_def)
  assume f: "\<not> wc_free m wc"
  have "wc_occUnits wc OR m = wc_occUnits wc"
  proof (rule bit_word_eqI)
    fix n assume "n < LENGTH(8)"
    moreover have "\<not> bit (NOT (wc_occUnits wc) AND m) n" using f by (simp add: wc_free_def)
    ultimately show "bit (wc_occUnits wc OR m) n = bit (wc_occUnits wc) n" by (auto simp: bit_simps)
  qed
  then show "wn_try t r m wc lp = (wc, lp, False)" using f by (simp add: wn_try_def wc_free_def Let_def)
qed

lemma wn_take_count: "wc_free m wc \<Longrightarrow> wc_count (wn_take t m wc) = wc_count wc + of_bool t"
  by (simp add: wn_take_def wn_try_def wc_free_def Let_def)

lemma empty_free: "m \<noteq> 0 \<Longrightarrow> wc_free m wc_empty"
  by (simp add: wc_free_def wc_empty_def)

lemma wn_scan_ok:
  assumes "pos + n \<le> length win"
  shows "(\<exists>p. pos \<le> p \<and> p < pos + n \<and> wc_free m (win ! p) \<and> (\<forall>i. pos \<le> i \<and> i < p \<longrightarrow> \<not> wc_free m (win ! i)) \<and>
      wn_scan t r m win lp pos n = (win[p := wn_take t m (win ! p)], wn_port t r m (win ! p) lp, Some p)) \<or>
    (\<forall>i. pos \<le> i \<and> i < pos + n \<longrightarrow> \<not> wc_free m (win ! i)) \<and> wn_scan t r m win lp pos n = (win, lp, None)"
  using assms
proof (induction n arbitrary: pos)
  case (Suc n)
  show ?case
  proof (cases "wc_free m (win ! pos)")
    case True
    then show ?thesis using wn_try_cases(1) [OF True] by - (rule disjI1, rule exI [of _ pos], auto)
  next
    case False
    have s: "wn_scan t r m win lp pos (Suc n) = wn_scan t r m win lp (Suc pos) n" using wn_try_cases(2) [OF False] by simp
    have split: "(\<forall>i. pos \<le> i \<and> i < x \<longrightarrow> \<not> wc_free m (win ! i)) \<longleftrightarrow> (\<forall>i. Suc pos \<le> i \<and> i < x \<longrightarrow> \<not> wc_free m (win ! i))" for x
      using False by (metis Suc_leI Suc_leD le_neq_implies_less)
    have "(\<exists>p. Suc pos \<le> p \<and> p < Suc pos + n \<and> wc_free m (win ! p) \<and> (\<forall>i. Suc pos \<le> i \<and> i < p \<longrightarrow> \<not> wc_free m (win ! i)) \<and>
        wn_scan t r m win lp (Suc pos) n = (win[p := wn_take t m (win ! p)], wn_port t r m (win ! p) lp, Some p)) \<or>
      (\<forall>i. Suc pos \<le> i \<and> i < Suc pos + n \<longrightarrow> \<not> wc_free m (win ! i)) \<and> wn_scan t r m win lp (Suc pos) n = (win, lp, None)"
      using Suc.IH [of "Suc pos"] Suc.prems by simp
    then show ?thesis unfolding s split by (auto dest: Suc_leD)
  qed
qed auto

lemma ub_scan_ok:
  assumes "m \<noteq> 0" "sorted_wrt (<) (map fst ub)" "\<forall>x\<in>set ub. c \<le> fst x"
  shows "\<exists>ub' c'. ub_scan t r m lp c ub = Some (ub', wn_port t r m (ub_at ub c') lp, c') \<and> c \<le> c' \<and> wc_free m (ub_at ub c') \<and>
    (\<forall>i. c \<le> i \<and> i < c' \<longrightarrow> \<not> wc_free m (ub_at ub i)) \<and> (\<forall>i. ub_at ub' i = (if i = c' then wn_take t m (ub_at ub c') else ub_at ub i)) \<and>
    sorted_wrt (<) (map fst ub') \<and> (\<forall>x\<in>set ub'. c \<le> fst x) \<and> counts (map snd ub') = counts (map snd ub) + of_bool t"
  using assms
proof (induction ub arbitrary: c lp)
  case Nil
  show ?case using wn_try_cases(1) [OF empty_free [OF Nil(1)], of t r lp] empty_free [OF Nil(1)] wn_take_count [OF empty_free [OF Nil(1)], of t]
    by (auto simp: ub_at_def counts_def wc_empty_def)
next
  case (Cons x ub)
  obtain k w where x: "x = (k, w)" by (cases x)
  have k: "c \<le> k" "\<forall>y\<in>set ub. k < fst y" "sorted_wrt (<) (map fst ub)" using Cons.prems(2,3) x by auto
  consider "k \<noteq> c" | "k = c" "wc_free m w" | "k = c" "\<not> wc_free m w" by blast
  then show ?case
  proof cases
    case 1
    have e: "ub_at (x # ub) c = wc_empty" using 1 k by (intro ub_at_empty) (auto simp: x)
    have "ub_scan t r m lp c (x # ub) = Some ((c, wn_take t m wc_empty) # x # ub, wn_port t r m wc_empty lp, c)"
      using 1 wn_try_cases(1) [OF empty_free [OF Cons(2)], of t r lp] by (simp add: x)
    then show ?thesis using 1 k e empty_free [OF Cons(2)] wn_take_count [OF empty_free [OF Cons(2)], of t]
      by (intro exI [of _ "(c, wn_take t m wc_empty) # x # ub"] exI [of _ c]) (auto simp: x counts_def wc_empty_def)
  next
    case 2
    then have "ub_scan t r m lp c (x # ub) = Some ((k, wn_take t m w) # ub, wn_port t r m w lp, c)" using wn_try_cases(1) [OF 2(2), of t r lp] by (simp add: x)
    then show ?thesis using 2 k wn_take_count [OF 2(2), of t]
      by (intro exI [of _ "(k, wn_take t m w) # ub"] exI [of _ c]) (auto simp: x counts_def)
  next
    case 3
    have h: "\<forall>y\<in>set ub. c + 1 \<le> fst y" using k 3 by auto
    obtain ub' c' where r: "ub_scan t r m lp (c + 1) ub = Some (ub', wn_port t r m (ub_at ub c') lp, c')" "c + 1 \<le> c'" "wc_free m (ub_at ub c')"
      "\<forall>i. c + 1 \<le> i \<and> i < c' \<longrightarrow> \<not> wc_free m (ub_at ub i)" "\<forall>i. ub_at ub' i = (if i = c' then wn_take t m (ub_at ub c') else ub_at ub i)"
      "sorted_wrt (<) (map fst ub')" "\<forall>x\<in>set ub'. c + 1 \<le> fst x" "counts (map snd ub') = counts (map snd ub) + of_bool t"
      using Cons.IH [OF Cons.prems(1) k(3) h, of lp] by (elim exE conjE) (rule that)
    have "ub_scan t r m lp c (x # ub) = Some (x # ub', wn_port t r m (ub_at (x # ub) c') lp, c')" using 3 r(1,2) wn_try_cases(2) [OF 3(2)] by (auto simp: x)
    moreover have "\<not> wc_free m (ub_at (x # ub) i)" if "c \<le> i" "i < c'" for i using that 3 r(4) by (cases "i = c") (auto simp: x)
    moreover have "ub_at (x # ub') i = (if i = c' then wn_take t m (ub_at (x # ub) c') else ub_at (x # ub) i)" for i using r(2,5) 3 by (auto simp: x)
    moreover have "sorted_wrt (<) (map fst (x # ub'))" using r(6,7) 3 by (auto simp: x Suc_le_eq)
    moreover have "\<forall>y\<in>set (x # ub'). c \<le> fst y" using r(7) 3 by (auto simp: x)
    moreover have "counts (map snd (x # ub')) = counts (map snd (x # ub)) + of_bool t" using r(8) by (simp add: counts_def)
    moreover have "wc_free m (ub_at (x # ub) c')" "c \<le> c'" using r(2,3) 3 by (auto simp: x)
    ultimately show ?thesis by blast
  qed
qed

lemma dropWhile_ge: "sorted_wrt (<) (map fst ub) \<Longrightarrow> \<forall>x\<in>set (dropWhile (\<lambda>x. fst x < (c :: nat)) ub). c \<le> fst x"
  by (induction ub) (auto simp: not_less)

lemma wn_place_ok:
  assumes sh: "wn_shape H w cur" and m: "m \<noteq> 0" and H: "sched + H \<le> cur + 2 ^ 32" "2 * H \<le> 2 ^ 32"
  shows "\<exists>w' c. wn_place H t r w cur sched m = Some (w', c) \<and> max cur sched \<le> c \<and> wc_free m (wc_at H w cur c) \<and>
    (\<forall>i. max cur sched \<le> i \<and> i < c \<longrightarrow> \<not> wc_free m (wc_at H w cur i)) \<and> wn_shape H w' cur \<and>
    (\<forall>i \<ge> cur. wc_at H w' cur i = (if i = c then wn_take t m (wc_at H w cur c) else wc_at H w cur i)) \<and>
    wn_total w' = wn_total w + of_bool t \<and> wn_occupancy w' = wn_occupancy w \<and> wn_curPos w' = wn_curPos w \<and>
    wn_lastPort w' = wn_port t r m (wc_at H w cur c) (wn_lastPort w)"
proof -
  let ?p = "wn_curPos w" define b where "b = cur - ?p" define s where "s = max cur sched"
  have sh': "length (wn_curWin w) = H" "length (wn_nextWin w) = H" "?p < H" "?p \<le> cur" "sorted_wrt (<) (map fst (wn_ubWin w))"
    "\<forall>x\<in>set (wn_ubWin w). b + 2 * H \<le> fst x" "\<forall>i < ?p. wn_curWin w ! i = wc_empty" using sh unfolding wn_shape_def b_def by blast+
  have bp: "b + ?p = cur" "cur \<le> s" using sh'(4) by (simp_all add: b_def s_def)
  define q where "q = s - b"
  have q: "b + q = s" "?p \<le> q" using bp by (simp_all add: q_def)
  have pos: "(?p + (if sched > cur then (sched - cur) mod 2 ^ 32 else 0)) mod 2 ^ 32 = q"
    using H sh'(3) bp(1) by (auto simp: q_def s_def b_def)
  have at1: "wc_at H w cur (b + i) = wn_curWin w ! i" if "i < H" for i using that by (simp add: wc_at_def Let_def b_def [symmetric])
  have at2: "wc_at H w cur (b + H + i) = wn_nextWin w ! i" if "i < H" for i using that by (simp add: wc_at_def Let_def b_def [symmetric])
  have at3: "wc_at H w cur i = ub_at (wn_ubWin w) i" if "b + 2 * H \<le> i" for i using that by (simp add: wc_at_def Let_def b_def [symmetric])
  let ?scan1 = "wn_scan t r m (wn_curWin w) (wn_lastPort w) q (H - q)"
  have scan1: "(\<exists>p. q \<le> p \<and> p < H \<and> wc_free m (wn_curWin w ! p) \<and> (\<forall>i. q \<le> i \<and> i < p \<longrightarrow> \<not> wc_free m (wn_curWin w ! i)) \<and>
      ?scan1 = ((wn_curWin w)[p := wn_take t m (wn_curWin w ! p)], wn_port t r m (wn_curWin w ! p) (wn_lastPort w), Some p)) \<or>
    (\<forall>i. q \<le> i \<and> i < H \<longrightarrow> \<not> wc_free m (wn_curWin w ! i)) \<and> ?scan1 = (wn_curWin w, wn_lastPort w, None)"
  proof (cases "q < H")
    case True
    then show ?thesis using wn_scan_ok [of q "H - q" "wn_curWin w" m t r "wn_lastPort w"] sh'(1) by simp
  qed auto
  from scan1 show ?thesis
  proof
    assume "\<exists>p. q \<le> p \<and> p < H \<and> wc_free m (wn_curWin w ! p) \<and> (\<forall>i. q \<le> i \<and> i < p \<longrightarrow> \<not> wc_free m (wn_curWin w ! i)) \<and>
      ?scan1 = ((wn_curWin w)[p := wn_take t m (wn_curWin w ! p)], wn_port t r m (wn_curWin w ! p) (wn_lastPort w), Some p)"
    then obtain p where p: "q \<le> p" "p < H" "wc_free m (wn_curWin w ! p)" "\<forall>i. q \<le> i \<and> i < p \<longrightarrow> \<not> wc_free m (wn_curWin w ! i)"
      "?scan1 = ((wn_curWin w)[p := wn_take t m (wn_curWin w ! p)], wn_port t r m (wn_curWin w ! p) (wn_lastPort w), Some p)" by blast
    let ?w = "w\<lparr>wn_curWin := (wn_curWin w)[p := wn_take t m (wn_curWin w ! p)], wn_lastPort := wn_port t r m (wn_curWin w ! p) (wn_lastPort w)\<rparr>"
    have c: "cur + (p - ?p) = b + p" using bp(1) q(2) p(1) by simp
    have "wn_place H t r w cur sched m = Some (?w, b + p)" using p(5) pos c by (simp add: wn_place_def Let_def)
    moreover have "\<not> wc_free m (wc_at H w cur i)" if "s \<le> i" "i < b + p" for i
      using p(2,4) that at1 [of "i - b"] q(1) by (simp add: le_diff_conv2 less_diff_conv2)
    moreover have "wn_shape H ?w cur" using sh p(1) q(2) unfolding wn_shape_def by (auto simp: nth_list_update)
    moreover have "wc_at H ?w cur i = (if i = b + p then wn_take t m (wc_at H w cur (b + p)) else wc_at H w cur i)" if "cur \<le> i" for i
      using that bp(1) p(2) sh'(1) by (auto simp: wc_at_def Let_def b_def [symmetric] nth_list_update)
    moreover have "wn_total ?w = wn_total w + of_bool t"
      using counts_update [of p "wn_curWin w" "wn_take t m (wn_curWin w ! p)"] wn_take_count [OF p(3), of t] p(2) sh'(1) by (simp add: wn_total_def)
    ultimately show ?thesis using p(1,2,3) q at1 [OF p(2)] unfolding s_def [symmetric] by (intro exI [of _ ?w] exI [of _ "b + p"]) auto
  next
    assume n1: "(\<forall>i. q \<le> i \<and> i < H \<longrightarrow> \<not> wc_free m (wn_curWin w ! i)) \<and> ?scan1 = (wn_curWin w, wn_lastPort w, None)"
    define q2 where "q2 = q - H"
    have q2: "(if q < H then 0 else q - H) = q2" by (simp add: q2_def)
    let ?scan2 = "wn_scan t r m (wn_nextWin w) (wn_lastPort w) q2 (H - q2)"
    have scan2: "(\<exists>p. q2 \<le> p \<and> p < H \<and> wc_free m (wn_nextWin w ! p) \<and> (\<forall>i. q2 \<le> i \<and> i < p \<longrightarrow> \<not> wc_free m (wn_nextWin w ! i)) \<and>
        ?scan2 = ((wn_nextWin w)[p := wn_take t m (wn_nextWin w ! p)], wn_port t r m (wn_nextWin w ! p) (wn_lastPort w), Some p)) \<or>
      (\<forall>i. q2 \<le> i \<and> i < H \<longrightarrow> \<not> wc_free m (wn_nextWin w ! i)) \<and> ?scan2 = (wn_nextWin w, wn_lastPort w, None)"
    proof (cases "q2 < H")
      case True
      then show ?thesis using wn_scan_ok [of q2 "H - q2" "wn_nextWin w" m t r "wn_lastPort w"] sh'(2) by simp
    qed auto
    have before: "\<not> wc_free m (wc_at H w cur i)" if "s \<le> i" "i < b + H" for i
      using n1 that at1 [of "i - b"] q(1) by (simp add: le_diff_conv2 less_diff_conv2)
    from scan2 show ?thesis
    proof
      assume "\<exists>p. q2 \<le> p \<and> p < H \<and> wc_free m (wn_nextWin w ! p) \<and> (\<forall>i. q2 \<le> i \<and> i < p \<longrightarrow> \<not> wc_free m (wn_nextWin w ! i)) \<and>
        ?scan2 = ((wn_nextWin w)[p := wn_take t m (wn_nextWin w ! p)], wn_port t r m (wn_nextWin w ! p) (wn_lastPort w), Some p)"
      then obtain p where p: "q2 \<le> p" "p < H" "wc_free m (wn_nextWin w ! p)" "\<forall>i. q2 \<le> i \<and> i < p \<longrightarrow> \<not> wc_free m (wn_nextWin w ! i)"
        "?scan2 = ((wn_nextWin w)[p := wn_take t m (wn_nextWin w ! p)], wn_port t r m (wn_nextWin w ! p) (wn_lastPort w), Some p)" by blast
      let ?w = "w\<lparr>wn_nextWin := (wn_nextWin w)[p := wn_take t m (wn_nextWin w ! p)], wn_lastPort := wn_port t r m (wn_nextWin w ! p) (wn_lastPort w)\<rparr>"
      have c: "cur + (p + H - ?p) = b + H + p" using bp(1) sh'(3) by simp
      have w: "w\<lparr>wn_curWin := wn_curWin w, wn_lastPort := wn_lastPort w\<rparr> = w" by simp
      have "wn_place H t r w cur sched m = Some (?w, b + H + p)" unfolding wn_place_def Let_def pos q2 using n1 p(5) c by simp
      moreover have "\<not> wc_free m (wc_at H w cur i)" if "s \<le> i" "i < b + H + p" for i
      proof (cases "i < b + H")
        case False
        then have "q2 \<le> i - (b + H)" "i - (b + H) < p" using that q(1) by (auto simp: q2_def)
        then show ?thesis using False p(2,4) at2 [of "i - (b + H)"] by simp
      qed (use before that in blast)
      moreover have "wn_shape H ?w cur" using sh unfolding wn_shape_def by auto
      moreover have "wc_at H ?w cur i = (if i = b + H + p then wn_take t m (wc_at H w cur (b + H + p)) else wc_at H w cur i)" for i
        using p(2) sh'(2) by (auto simp: wc_at_def Let_def b_def [symmetric] nth_list_update)
      moreover have "wn_total ?w = wn_total w + of_bool t"
        using counts_update [of p "wn_nextWin w" "wn_take t m (wn_nextWin w ! p)"] wn_take_count [OF p(3), of t] p(2) sh'(2) by (simp add: wn_total_def)
      moreover have "s \<le> b + H + p" using q(1) p(1) by (simp add: q2_def)
      ultimately show ?thesis using p(3) at2 [OF p(2)] unfolding s_def [symmetric] by (intro exI [of _ ?w] exI [of _ "b + H + p"]) auto
    next
      assume n2: "(\<forall>i. q2 \<le> i \<and> i < H \<longrightarrow> \<not> wc_free m (wn_nextWin w ! i)) \<and> ?scan2 = (wn_nextWin w, wn_lastPort w, None)"
      define c0 where "c0 = max s (b + 2 * H)"
      let ?ub = "wn_ubWin w" let ?hi = "dropWhile (\<lambda>x. fst x < c0) ?ub" let ?lo = "takeWhile (\<lambda>x. fst x < c0) ?ub"
      have c0: "cur + ((if q2 < H then H else q2) + H - ?p) = c0" using bp(1) sh'(3,4) q(1) by (auto simp: c0_def q2_def)
      have lohi: "?ub = ?lo @ ?hi" by simp
      have "sorted_wrt (<) (map fst (?lo @ ?hi))" using sh'(5) by (simp only: takeWhile_dropWhile_id)
      then have srt: "sorted_wrt (<) (map fst ?hi)" "sorted_wrt (<) (map fst ?lo)" unfolding map_append sorted_wrt_append by blast+
      have hc: "\<forall>x\<in>set ?hi. c0 \<le> fst x" by (rule dropWhile_ge [OF sh'(5)])
      obtain ub c where u: "ub_scan t r m (wn_lastPort w) c0 ?hi = Some (ub, wn_port t r m (ub_at ?hi c) (wn_lastPort w), c)" "c0 \<le> c" "wc_free m (ub_at ?hi c)"
        "\<forall>i. c0 \<le> i \<and> i < c \<longrightarrow> \<not> wc_free m (ub_at ?hi i)" "\<forall>i. ub_at ub i = (if i = c then wn_take t m (ub_at ?hi c) else ub_at ?hi i)"
        "sorted_wrt (<) (map fst ub)" "\<forall>x\<in>set ub. c0 \<le> fst x" "counts (map snd ub) = counts (map snd ?hi) + of_bool t"
        using ub_scan_ok [OF m srt(1) hc, of t r "wn_lastPort w"] by (elim exE conjE) (rule that)
      have lo: "\<forall>x\<in>set ?lo. fst x < c0" by (auto dest: set_takeWhileD)
      have hi: "ub_at ?ub i = ub_at ?hi i" if "c0 \<le> i" for i
        using that lo by (subst lohi, intro ub_at_append) auto
      let ?w = "w\<lparr>wn_ubWin := ?lo @ ub, wn_lastPort := wn_port t r m (ub_at ?hi c) (wn_lastPort w)\<rparr>"
      have "wn_place H t r w cur sched m = Some (?w, c)" unfolding wn_place_def Let_def pos q2 using n1 n2 u(1) c0 by simp
      moreover have "\<not> wc_free m (wc_at H w cur i)" if h: "s \<le> i" "i < c" for i
      proof -
        have "c0 \<le> i \<or> i < b + 2 * H" using h(1) by (auto simp: c0_def)
        then consider "i < b + H" | "b + H \<le> i" "i < b + 2 * H" | "c0 \<le> i" by linarith
        then show ?thesis
        proof cases
          case 2
          then have "q2 \<le> i - (b + H)" "i - (b + H) < H" using h(1) q(1) by (auto simp: q2_def)
          then show ?thesis using 2 n2 at2 [of "i - (b + H)"] by simp
        next
          case 3
          then show ?thesis using u(4) h(2) hi at3 by (simp add: c0_def)
        qed (use before h in blast)
      qed
      moreover have "wn_shape H ?w cur"
      proof -
        have "sorted_wrt (<) (map fst (?lo @ ub))" using srt(2) u(6,7) lo by (auto simp: sorted_wrt_append dest: order_less_le_trans)
        moreover have "\<forall>x\<in>set (?lo @ ub). b + 2 * H \<le> fst x" using sh'(6) u(7) by (auto simp: c0_def dest: set_takeWhileD)
        ultimately show ?thesis using sh unfolding wn_shape_def b_def by simp
      qed
      moreover have ub: "ub_at (?lo @ ub) i = (if i = c then wn_take t m (ub_at ?ub c) else ub_at ?ub i)" for i
      proof (cases "c0 \<le> i")
        case True
        then have "ub_at (?lo @ ub) i = ub_at ub i" using lo by (intro ub_at_append) auto
        then show ?thesis using u(2,5) True hi by simp
      next
        case False
        have "ub_at (?lo @ ub) i = ub_at ?lo i" using False u(7) by (intro ub_at_append1) auto
        moreover have "ub_at ?ub i = ub_at ?lo i" using False \<open>\<forall>x\<in>set ?hi. c0 \<le> fst x\<close> by (subst lohi, intro ub_at_append1) auto
        ultimately show ?thesis using False u(2) by simp
      qed
      then have "wc_at H ?w cur i = (if i = c then wn_take t m (wc_at H w cur c) else wc_at H w cur i)" for i
        using u(2) by (auto simp: wc_at_def Let_def b_def [symmetric] c0_def)
      moreover have "wn_total ?w = wn_total w + of_bool t"
      proof -
        have "counts (map snd ?ub) = counts (map snd ?lo) + counts (map snd ?hi)" by (subst lohi) (simp only: counts_def map_append sum_list_append)
        then show ?thesis using u(8) by (simp add: wn_total_def counts_def)
      qed
      ultimately show ?thesis using u(2,3) hi at3 [of c] unfolding s_def [symmetric]
        by (intro exI [of _ ?w] exI [of _ c]) (auto simp: c0_def)
    qed
  qed
qed

section \<open>Scheduling\<close>

lemma wn_occ_simps [simp]:
  "wn_shape H (w\<lparr>wn_occupancy := n\<rparr>) cur = wn_shape H w cur" "wn_total (w\<lparr>wn_occupancy := n\<rparr>) = wn_total w"
  "wc_at H (w\<lparr>wn_occupancy := n\<rparr>) cur = wc_at H w cur"
  by (simp_all add: wn_shape_def wn_total_def wc_at_def Let_def fun_eq_iff)

lemma wn_total_pos:
  assumes "wn_shape H w cur" "0 < wn_total w"
  shows "\<exists>c \<ge> cur. 0 < wc_count (wc_at H w cur c)"
proof -
  define b where "b = cur - wn_curPos w"
  have sh: "length (wn_curWin w) = H" "length (wn_nextWin w) = H" "wn_curPos w < H" "wn_curPos w \<le> cur" "sorted_wrt (<) (map fst (wn_ubWin w))"
    "\<forall>x\<in>set (wn_ubWin w). b + 2 * H \<le> fst x" "\<forall>i < wn_curPos w. wn_curWin w ! i = wc_empty" using assms(1) unfolding wn_shape_def b_def by blast+
  have pos: "\<exists>i < length win. 0 < wc_count (win ! i)" if "0 < counts win" for win
    using that unfolding counts_def by (metis (no_types, lifting) gr0I in_set_conv_nth length_map nth_map not_less_zero sum_list_eq_0_iff)
  have b: "b + wn_curPos w = cur" using sh(4) by (simp add: b_def)
  consider "0 < counts (wn_curWin w)" | "0 < counts (wn_nextWin w)" | "0 < counts (map snd (wn_ubWin w))"
    using assms(2) by (fastforce simp: wn_total_def)
  then show ?thesis
  proof cases
    case 1
    then obtain i where i: "i < H" "0 < wc_count (wn_curWin w ! i)" using pos sh(1) by blast
    have "wn_curPos w \<le> i" using i(2) sh(7) by (metis wc_empty_def not_le less_irrefl wincycle.select_convs(2))
    then show ?thesis using i b by (intro exI [of _ "b + i"]) (simp add: wc_at_def Let_def b_def [symmetric])
  next
    case 2
    then obtain i where "i < H" "0 < wc_count (wn_nextWin w ! i)" using pos sh(2) by blast
    then show ?thesis using b sh(3) by (intro exI [of _ "b + H + i"]) (simp add: wc_at_def Let_def b_def [symmetric])
  next
    case 3
    then obtain i where i: "i < length (wn_ubWin w)" "0 < wc_count (snd (wn_ubWin w ! i))" using pos [of "map snd (wn_ubWin w)"] by auto
    let ?x = "wn_ubWin w ! i"
    have "distinct (map fst (wn_ubWin w))" using sh(5) strict_sorted_iff by (metis sorted_wrt_map strict_sorted_iff map_map)
    then have "map_of (wn_ubWin w) (fst ?x) = Some (snd ?x)" using i(1) by (simp add: map_of_eq_Some_iff)
    moreover have "b + 2 * H \<le> fst ?x" using sh(6) i(1) by simp
    ultimately show ?thesis using i(2) b sh(3) by (intro exI [of _ "fst ?x"]) (simp add: wc_at_def Let_def b_def [symmetric] ub_at_def)
  qed
qed

lemma wn_wait_ok:
  assumes H: "H \<le> 2 ^ 32" and W: "0 < WSZ"
  shows "wn_inv H w cur \<Longrightarrow> wn_occupancy w \<le> WSZ \<Longrightarrow>
    \<exists>w' cur'. wn_wait H WSZ w cur = Some (w', cur') \<and> cur \<le> cur' \<and> wn_inv H w' cur' \<and> wn_occupancy w' < WSZ \<and>
      (\<forall>c \<ge> cur'. wc_at H w' cur' c = wc_at H w cur c)"
proof -
  have "\<lbrakk>wn_inv H w cur; wn_occupancy w \<le> WSZ; wn_occupancy w = WSZ \<longrightarrow> 0 < wc_count (wc_at H w cur (cur + d))\<rbrakk> \<Longrightarrow>
    \<exists>w' cur'. wn_wait H WSZ w cur = Some (w', cur') \<and> cur \<le> cur' \<and> wn_inv H w' cur' \<and> wn_occupancy w' < WSZ \<and>
      (\<forall>c \<ge> cur'. wc_at H w' cur' c = wc_at H w cur c)" for d
  proof (induction d arbitrary: w cur)
    case (0 w cur)
    show ?case
    proof (cases "wn_occupancy w = WSZ")
      case False
      then show ?thesis using 0 by (subst wn_wait.simps) auto
    next
      case True
      obtain w1 where w1: "wn_advancePos H w cur = Some (w1, cur + 1)" "wn_inv H w1 (cur + 1)" "wn_occupancy w1 = wn_occupancy w - wc_count (wc_at H w cur cur)"
        "\<forall>c > cur. wc_at H w1 (cur + 1) c = wc_at H w cur c" using wn_advance_ok [OF 0(1) H] by blast
      have "wn_occupancy w1 < WSZ" using w1(3) 0(3) True W by simp
      then have "wn_wait H WSZ w cur = Some (w1, cur + 1)" using True w1(1) by (subst wn_wait.simps) (simp add: wn_wait.simps [of H WSZ w1])
      then show ?thesis using w1 \<open>wn_occupancy w1 < WSZ\<close> by auto
    qed
  next
    case (Suc d w cur)
    show ?case
    proof (cases "wn_occupancy w = WSZ")
      case False
      then show ?thesis using Suc.prems by (subst wn_wait.simps) auto
    next
      case True
      obtain w1 where w1: "wn_advancePos H w cur = Some (w1, cur + 1)" "wn_inv H w1 (cur + 1)" "wn_occupancy w1 = wn_occupancy w - wc_count (wc_at H w cur cur)"
        "\<forall>c > cur. wc_at H w1 (cur + 1) c = wc_at H w cur c" using wn_advance_ok [OF Suc.prems(1) H] by blast
      have "wc_at H w1 (cur + 1) (cur + 1 + d) = wc_at H w cur (cur + Suc d)" using w1(4) by simp
      then have h: "wn_occupancy w1 = WSZ \<longrightarrow> 0 < wc_count (wc_at H w1 (cur + 1) (cur + 1 + d))" using Suc.prems(3) True by simp
      have le: "wn_occupancy w1 \<le> WSZ" using w1(3) Suc.prems(2) by simp
      obtain w' cur' where r: "wn_wait H WSZ w1 (cur + 1) = Some (w', cur')" "cur + 1 \<le> cur'" "wn_inv H w' cur'" "wn_occupancy w' < WSZ"
        "\<forall>c \<ge> cur'. wc_at H w' cur' c = wc_at H w1 (cur + 1) c" using Suc.IH [OF w1(2) le h] by (elim exE conjE) (rule that)
      have "wn_wait H WSZ w cur = Some (w', cur')" using True w1(1) r(1) by (subst wn_wait.simps) simp
      then show ?thesis using r w1(4) by (intro exI [of _ w'] exI [of _ cur']) simp
    qed
  qed
  moreover assume "wn_inv H w cur" "wn_occupancy w \<le> WSZ"
  moreover have "\<exists>d. wn_occupancy w = WSZ \<longrightarrow> 0 < wc_count (wc_at H w cur (cur + d))"
    using wn_total_pos [of H w cur] W \<open>wn_inv H w cur\<close> by (auto simp: wn_inv_def dest: le_Suc_ex)
  ultimately show ?thesis by blast
qed

text \<open>\<open>ds\<close> are the first cycles from \<open>c\<close> on in which the units of \<open>m\<close> are free in the table \<open>T\<close>.\<close>

fun first_free :: "(nat \<Rightarrow> wincycle) \<Rightarrow> u8 \<Rightarrow> nat \<Rightarrow> nat list \<Rightarrow> bool" where
  "first_free T m c [] \<longleftrightarrow> True"
| "first_free T m c (d # ds) \<longleftrightarrow> c \<le> d \<and> wc_free m (T d) \<and> (\<forall>i. c \<le> i \<and> i < d \<longrightarrow> \<not> wc_free m (T i)) \<and> first_free T m (d + 1) ds"

lemma first_free_cong: "\<forall>i \<ge> c. T i = T' i \<Longrightarrow> first_free T m c ds = first_free T' m c ds"
  by (induction ds arbitrary: c) auto

lemma first_free_ge: "first_free T m c ds \<Longrightarrow> d \<in> set ds \<Longrightarrow> c \<le> d"
  by (induction ds arbitrary: c) fastforce+

lemma wn_extra_ok:
  assumes H: "2 * H \<le> 2 ^ 32" and m: "m \<noteq> 0"
  shows "wn_shape H w cur \<Longrightarrow> cur \<le> c \<Longrightarrow> c \<le> Y \<Longrightarrow> \<forall>i \<ge> Y. wc_at H w cur i = wc_empty \<Longrightarrow> Y + n + H \<le> cur + 2 ^ 32 \<Longrightarrow>
    \<exists>w' ds. wn_extra H WSZ n w cur c m = Some (w', cur) \<and> length ds = n \<and> first_free (wc_at H w cur) m c ds \<and> wn_shape H w' cur \<and>
      wn_total w' = wn_total w \<and> wn_occupancy w' = wn_occupancy w \<and>
      (\<forall>i \<ge> cur. wc_at H w' cur i = (if i \<in> set ds then wn_take False m (wc_at H w cur i) else wc_at H w cur i))"
proof (induction n arbitrary: w c Y)
  case (Suc n)
  have b: "c + H \<le> cur + 2 ^ 32" and mx: "max cur c = c" using Suc.prems(2,3,5) by simp_all
  obtain w1 d where p: "wn_place H False False w cur c m = Some (w1, d)" "max cur c \<le> d" "wc_free m (wc_at H w cur d)"
    "\<forall>i. max cur c \<le> i \<and> i < d \<longrightarrow> \<not> wc_free m (wc_at H w cur i)" "wn_shape H w1 cur"
    "\<forall>i \<ge> cur. wc_at H w1 cur i = (if i = d then wn_take False m (wc_at H w cur d) else wc_at H w cur i)"
    "wn_total w1 = wn_total w + of_bool False" "wn_occupancy w1 = wn_occupancy w"
    using wn_place_ok [OF Suc.prems(1) m b H, of False False] by (elim exE conjE) (rule that)
  have d: "d \<le> Y"
  proof (rule ccontr)
    assume "\<not> d \<le> Y"
    then have "\<not> wc_free m (wc_at H w cur Y)" using p(4) Suc.prems(3) mx by simp
    then show False using Suc.prems(4) empty_free [OF m] by simp
  qed
  have "\<forall>i \<ge> Suc Y. wc_at H w1 cur i = wc_empty" using p(2,6) d Suc.prems(2,3,4) by simp
  moreover have "cur \<le> d + 1" "d + 1 \<le> Suc Y" "Suc Y + n + H \<le> cur + 2 ^ 32" using p(2) d Suc.prems(5) by simp_all
  ultimately obtain w' ds where w': "wn_extra H WSZ n w1 cur (d + 1) m = Some (w', cur)" "length ds = n" "first_free (wc_at H w1 cur) m (d + 1) ds" "wn_shape H w' cur"
      "wn_total w' = wn_total w1" "wn_occupancy w' = wn_occupancy w1"
      "\<forall>i \<ge> cur. wc_at H w' cur i = (if i \<in> set ds then wn_take False m (wc_at H w1 cur i) else wc_at H w1 cur i)"
    using Suc.IH [OF p(5)] by blast
  have ge: "d + 1 \<le> x" if "x \<in> set ds" for x by (rule first_free_ge [OF w'(3) that])
  have "first_free (wc_at H w cur) m (d + 1) ds"
    using w'(3) first_free_cong [of "d + 1" "wc_at H w1 cur" "wc_at H w cur" m ds] p(2,6) by simp
  then have "first_free (wc_at H w cur) m c (d # ds)" using p(2-4) mx by simp
  moreover have "wc_at H w' cur i = (if i \<in> set (d # ds) then wn_take False m (wc_at H w cur i) else wc_at H w cur i)" if "cur \<le> i" for i
    using w'(7) p(6) that ge [of i] by auto
  moreover have "wn_extra H WSZ (Suc n) w cur c m = Some (w', cur)" using p(1) w'(1) by (simp add: wn_scheduleInternal_def)
  ultimately show ?case using w' p(7,8) by (intro exI [of _ w'] exI [of _ "d # ds"]) simp
qed auto

lemma one_unit_nonzero: "n < 8 \<Longrightarrow> push_bit n (1 :: u8) \<noteq> 0"
proof
  assume "n < 8" "push_bit n (1 :: u8) = 0"
  then have "\<not> bit (push_bit n (1 :: u8)) n" by simp
  then show False using \<open>n < 8\<close> by (simp add: bit_simps)
qed

text \<open>The unit that an operation with port mask \<open>m\<close> takes in a cycle: the lowest free one.\<close>

definition wn_unit :: "u8 \<Rightarrow> wincycle \<Rightarrow> u8" where
  "wn_unit m wc = push_bit (ctz (NOT (wc_occUnits wc) AND m)) 1"

text \<open>
  C23. The instruction window schedules every operation at the earliest possible cycle. \<open>schedule\<close> first lets cycles pass until the window is not full, which ends; then it picks the
  first cycle, not before the requested one, in which a unit of the port mask is free, wherever that cycle is kept (the current window, the next one or the unbounded
  map), and occupies the lowest free unit of the mask there. An operation that needs \<open>ex\<close> extra slots also occupies that unit in the first \<open>ex\<close> later cycles in which
  it is free. No other cycle changes and no assertion fails. The requested cycle and, with extra slots, the last cycle \<open>X\<close> in use must be near enough for 32-bit differences.
\<close>

theorem window_schedules_earliest:
  assumes "wn_inv H w cur" "wn_occupancy w \<le> WSZ" "0 < WSZ" "m \<noteq> 0" "2 * H \<le> 2 ^ 32" "sched + H \<le> cur + 2 ^ 32"
    and "ex \<noteq> 0 \<longrightarrow> (\<forall>i \<ge> X. wc_at H w cur i = wc_empty) \<and> max cur (max X sched) + ex + H < cur + 2 ^ 32"
  shows "\<exists>w' cur' c ds. wn_schedule H WSZ w cur sched m ex = Some (w', cur', c) \<and> cur \<le> cur' \<and> max cur' sched \<le> c \<and>
    wc_free m (wc_at H w cur c) \<and> (\<forall>i. max cur' sched \<le> i \<and> i < c \<longrightarrow> \<not> wc_free m (wc_at H w cur i)) \<and>
    length ds = ex \<and> first_free (wc_at H w cur) (wn_unit m (wc_at H w cur c)) (c + 1) ds \<and>
    (\<forall>i \<ge> cur'. wc_at H w' cur' i = (if i = c then wn_take True m (wc_at H w cur c)
       else if i \<in> set ds then wn_take False (wn_unit m (wc_at H w cur c)) (wc_at H w cur i) else wc_at H w cur i)) \<and>
    wn_inv H w' cur' \<and> wn_occupancy w' \<le> WSZ"
proof -
  have H: "H \<le> 2 ^ 32" using assms(5) by simp
  obtain w1 cur' where w1: "wn_wait H WSZ w cur = Some (w1, cur')" "cur \<le> cur'" "wn_inv H w1 cur'" "wn_occupancy w1 < WSZ"
    "\<forall>c \<ge> cur'. wc_at H w1 cur' c = wc_at H w cur c" using wn_wait_ok [OF H assms(3,1,2)] by blast
  have sh: "wn_shape H w1 cur'" "wn_occupancy w1 = wn_total w1" using w1(3) by (simp_all add: wn_inv_def)
  have b: "sched + H \<le> cur' + 2 ^ 32" using assms(6) w1(2) by linarith
  obtain w2 c where p: "wn_place H True (ex \<noteq> 0) w1 cur' sched m = Some (w2, c)" "max cur' sched \<le> c" "wc_free m (wc_at H w1 cur' c)"
    "\<forall>i. max cur' sched \<le> i \<and> i < c \<longrightarrow> \<not> wc_free m (wc_at H w1 cur' i)" "wn_shape H w2 cur'"
    "\<forall>i \<ge> cur'. wc_at H w2 cur' i = (if i = c then wn_take True m (wc_at H w1 cur' c) else wc_at H w1 cur' i)"
    "wn_total w2 = wn_total w1 + of_bool True" "wn_occupancy w2 = wn_occupancy w1" "wn_lastPort w2 = wn_port True (ex \<noteq> 0) m (wc_at H w1 cur' c) (wn_lastPort w1)"
    using wn_place_ok [OF sh(1) assms(4) b assms(5), of True "ex \<noteq> 0"] by (elim exE conjE) (rule that)
  let ?T = "wc_at H w cur" let ?w = "w2\<lparr>wn_occupancy := wn_occupancy w2 + 1\<rparr>" let ?u = "wn_unit m (?T c)"
  have T: "wc_at H w1 cur' i = ?T i" if "max cur' sched \<le> i" for i using w1(5) that by simp
  have inv: "wn_shape H ?w cur'" "wn_inv H ?w cur'" using p(5,7,8) sh(2) by (simp_all add: wn_inv_def)
  have W: "wc_at H ?w cur' i = (if i = c then wn_take True m (?T c) else ?T i)" if "cur' \<le> i" for i using p(2,6) T [OF p(2)] w1(5) that by simp
  have "\<exists>w3 ds. wn_extra H WSZ ex ?w cur' (c + 1) (push_bit (wn_lastPort ?w) 1) = Some (w3, cur') \<and> length ds = ex \<and> first_free ?T ?u (c + 1) ds \<and>
      wn_shape H w3 cur' \<and> wn_total w3 = wn_total ?w \<and> wn_occupancy w3 = wn_occupancy ?w \<and>
      (\<forall>i \<ge> cur'. wc_at H w3 cur' i = (if i \<in> set ds then wn_take False ?u (wc_at H ?w cur' i) else wc_at H ?w cur' i))"
  proof (cases "ex = 0")
    case True
    then show ?thesis using inv(1) by (intro exI [of _ ?w] exI [of _ "[]"]) simp
  next
    case False
    have X: "\<forall>i \<ge> X. ?T i = wc_empty" "max cur (max X sched) + ex + H < cur + 2 ^ 32" using assms(7) False by simp_all
    have port: "push_bit (wn_lastPort ?w) 1 = ?u" using p(9) False T [OF p(2)] by (simp add: wn_port_def wn_unit_def)
    have "NOT (wc_occUnits (?T c)) AND m \<noteq> 0" using p(3) T [OF p(2)] by (simp add: wc_free_def)
    then have u: "?u \<noteq> 0" unfolding wn_unit_def by (intro one_unit_nonzero) (use ctz_props(1) in fastforce)
    let ?Y = "Suc (max c (max X sched))"
    have "c \<le> max cur' (max X sched)"
    proof (rule ccontr)
      assume "\<not> ?thesis"
      then have "\<not> wc_free m (?T (max cur' (max X sched)))" using p(4) T by (metis max.cobounded1 max.cobounded2 max.coboundedI2 not_le_imp_less max.bounded_iff)
      moreover have "?T (max cur' (max X sched)) = wc_empty" using X(1) by simp
      ultimately show False using empty_free [OF assms(4)] by simp
    qed
    then have Y: "?Y + ex + H \<le> cur' + 2 ^ 32" using X(2) w1(2) by (auto simp: max_def split: if_splits)
    have em: "\<forall>i \<ge> ?Y. wc_at H ?w cur' i = wc_empty"
    proof (intro allI impI)
      fix i assume "?Y \<le> i"
      then have "cur' \<le> i" "i \<noteq> c" "X \<le> i" using p(2) by auto
      then show "wc_at H ?w cur' i = wc_empty" using W [of i] X(1) by simp
    qed
    have lim: "cur' \<le> c + 1" "c + 1 \<le> ?Y" using p(2) by simp_all
    obtain w3 ds where w3: "wn_extra H WSZ ex ?w cur' (c + 1) ?u = Some (w3, cur')" "length ds = ex" "first_free (wc_at H ?w cur') ?u (c + 1) ds" "wn_shape H w3 cur'"
        "wn_total w3 = wn_total ?w" "wn_occupancy w3 = wn_occupancy ?w"
        "\<forall>i \<ge> cur'. wc_at H w3 cur' i = (if i \<in> set ds then wn_take False ?u (wc_at H ?w cur' i) else wc_at H ?w cur' i)"
      using wn_extra_ok [OF assms(5) u inv(1) lim em Y, of WSZ] by (elim exE conjE) (rule that)
    have "first_free ?T ?u (c + 1) ds" using w3(3) first_free_cong [of "c + 1" "wc_at H ?w cur'" ?T ?u ds] W p(2) by simp
    then show ?thesis unfolding port using w3 by blast
  qed
  then obtain w3 ds where w3: "wn_extra H WSZ ex ?w cur' (c + 1) (push_bit (wn_lastPort ?w) 1) = Some (w3, cur')" "length ds = ex" "first_free ?T ?u (c + 1) ds"
      "wn_shape H w3 cur'" "wn_total w3 = wn_total ?w" "wn_occupancy w3 = wn_occupancy ?w"
      "\<forall>i \<ge> cur'. wc_at H w3 cur' i = (if i \<in> set ds then wn_take False ?u (wc_at H ?w cur' i) else wc_at H ?w cur' i)"
    by (elim exE conjE) (rule that)
  have "wn_schedule H WSZ w cur sched m ex = Some (w3, cur', c)"
    using w1(1,4) p(1,8) w3(1,6) by (simp add: wn_schedule_def wn_scheduleInternal_def)
  moreover have "wn_inv H w3 cur'" "wn_occupancy w3 \<le> WSZ" using w3(4-6) inv(2) p(8) w1(4) by (simp_all add: wn_inv_def)
  moreover have "wc_at H w3 cur' i = (if i = c then wn_take True m (?T c) else if i \<in> set ds then wn_take False ?u (?T i) else ?T i)" if "cur' \<le> i" for i
  proof (cases "i = c")
    case True
    then have "i \<notin> set ds" using first_free_ge [OF w3(3), of i] by auto
    then show ?thesis using w3(7) W [OF that] that True by simp
  next
    case False
    then show ?thesis using w3(7) W [OF that] that by simp
  qed
  moreover have "wc_free m (?T c)" using p(3) T [OF p(2)] by simp
  moreover have "\<not> wc_free m (?T i)" if "max cur' sched \<le> i \<and> i < c" for i
  proof -
    have "\<not> wc_free m (wc_at H w1 cur' i)" using p(4) that by blast
    then show ?thesis using T [OF conjunct1 [OF that]] by simp
  qed
  ultimately show ?thesis using w1(2) p(2) w3(2,3) by (intro exI [of _ w3] exI [of _ cur'] exI [of _ c] exI [of _ ds] conjI allI impI) assumption+
qed

lemma window_new_inv: "0 < H \<Longrightarrow> wn_inv H (WindowStructure H) 0"
  by (simp add: wn_inv_def wn_shape_def WindowStructure_def wn_total_def counts_def wc_empty_def sum_list_replicate)

theorem window_schedules_earliest_witness:
  "\<exists>w' cur' c ds. wn_schedule 1024 36 (WindowStructure 1024) 0 3000 1 2 = Some (w', cur', c) \<and> 3000 \<le> c \<and> length ds = 2 \<and>
     first_free (wc_at 1024 (WindowStructure 1024) 0) (wn_unit 1 (wc_at 1024 (WindowStructure 1024) 0 c)) (c + 1) ds \<and> wn_inv 1024 w' cur'"
proof -
  have e: "wc_at 1024 (WindowStructure 1024) 0 i = wc_empty" for i
    by (simp add: wc_at_def WindowStructure_def ub_at_def)
  have "wn_inv 1024 (WindowStructure 1024) 0" by (rule window_new_inv) simp
  from window_schedules_earliest [OF this, of 36 1 3000 2 0] e show ?thesis by (auto simp: WindowStructure_def)
qed

section \<open>Jumping over cycles\<close>

fun wn_advances :: "nat \<Rightarrow> nat \<Rightarrow> window \<Rightarrow> nat \<Rightarrow> (window \<times> nat) option" where
  "wn_advances H 0 w cur = Some (w, cur)"
| "wn_advances H (Suc n) w cur = wn_advancePos H w cur \<bind> (\<lambda>(w, cur). wn_advances H n w cur)"

lemma wn_advance_plain:
  assumes "length (wn_curWin w) = H" "wn_curPos w + 1 < H" "wn_total w = 0" "wn_occupancy w = 0"
  shows "\<exists>w'. wn_advancePos H w cur = Some (w', cur + 1) \<and> length (wn_curWin w') = H \<and> wn_curPos w' = wn_curPos w + 1 \<and> wn_total w' = 0 \<and>
    wn_occupancy w' = 0 \<and> wn_ubWin w' = wn_ubWin w"
proof -
  let ?p = "wn_curPos w"
  have z: "wc_count (wn_curWin w ! ?p) = 0" using assms(1-3) by (auto simp: wn_total_def counts_def)
  have "counts ((wn_curWin w)[?p := wc_empty]) = 0"
    using counts_update [of ?p "wn_curWin w" wc_empty] z assms(1-3) by (simp add: wc_empty_def wn_total_def)
  then show ?thesis using z assms by (simp add: wn_advancePos_def Let_def wn_total_def)
qed

lemma wn_stale_rebase:
  assumes "length (wn_curWin w) = H" "wn_curPos w + 1 = H" "wn_total w = 0" "wn_occupancy w = 0" "wn_ubWin w = (k, x) # ub" "k \<le> cur" "cur + 2 * H + 1 < k + 2 ^ 32"
  shows "wn_advancePos H w cur = None"
proof -
  have z: "wc_count (wn_curWin w ! wn_curPos w) = 0" using assms(1-3) by (auto simp: wn_total_def counts_def)
  let ?d = "int k - int H - int (cur + 1)"
  have d: "- (2 ^ 32) + int H \<le> ?d" "?d < 0" using assms(6,7) by auto
  have "?d mod 2 ^ 32 = (?d + 2 ^ 32) mod 2 ^ 32" by (simp only: mod_add_self2)
  also have "\<dots> = ?d + 2 ^ 32" using d by (intro mod_pos_pos_trivial) auto
  finally have "\<not> nat (?d mod 2 ^ 32) < H" using d(1) by linarith
  then have "wn_move H (cur + 1) (wn_ubWin w) win = None" for win using assms(5,6) by (simp add: Let_def)
  then show ?thesis using z assms(1,2,4) by (simp add: wn_advancePos_def Let_def)
qed

text \<open>
  C35. A jump over cycles can strand reservations. Extra slots and the back pressure of the load and store queues reserve units without counting in the occupancy. When the window is
  drained, \<open>longAdvance\<close> jumps to the target cycle without looking at the unbounded map; if a reservation there lies before the target, the assertion of the next rebase,
  at most \<open>H\<close> cycles later, fails.
\<close>

theorem window_jump_strands_reservation:
  assumes "wn_inv H w cur" "wn_occupancy w = 0" "wn_ubWin w = (k, x) # ub" "k \<le> target" "cur \<le> target" "target + 3 * H < 2 ^ 32"
  shows "\<exists>w'. wn_longAdvance H w cur target = Some (w', target) \<and> wn_advances H (H - wn_curPos w) w' target = None"
proof -
  have sh: "length (wn_curWin w) = H" "wn_curPos w < H" "wn_total w = 0" using assms(1,2) by (simp_all add: wn_inv_def wn_shape_def)
  have fail: "length (wn_curWin v) = H \<Longrightarrow> wn_curPos v + Suc n = H \<Longrightarrow> wn_total v = 0 \<Longrightarrow> wn_occupancy v = 0 \<Longrightarrow> wn_ubWin v = (k, x) # ub \<Longrightarrow>
      k \<le> t \<Longrightarrow> t + Suc n + 2 * H < 2 ^ 32 \<Longrightarrow> wn_advances H (Suc n) v t = None" for n v t
  proof (induction n arbitrary: v t)
    case 0
    then show ?case using wn_stale_rebase [of v H k x ub t] by simp
  next
    case (Suc n)
    obtain v' where "wn_advancePos H v t = Some (v', t + 1)" "length (wn_curWin v') = H" "wn_curPos v' = wn_curPos v + 1" "wn_total v' = 0" "wn_occupancy v' = 0"
      "wn_ubWin v' = wn_ubWin v" using wn_advance_plain [of v H t] Suc.prems by auto
    then show ?case using Suc.IH [of v' "t + 1"] Suc.prems by simp
  qed
  have "wn_longAdvance H w cur target = Some (w, target)"
    using assms(2,5) by (simp add: wn_longAdvance_def) (simp add: wn_drain.simps)
  moreover obtain n where n: "H - wn_curPos w = Suc n" using sh(2) by (metis Suc_diff_Suc)
  moreover have "wn_advances H (Suc n) w target = None" using fail [of w n target] sh assms(2-6) n by simp
  ultimately show ?thesis by simp
qed

text \<open>A window of one cycle with a reservation at cycle 2, made at cycle 0.\<close>

theorem window_jump_strands_reservation_witness:
  "\<exists>w w'. wn_poisonRange 1 4 (WindowStructure 1) 0 2 4 = Some w \<and> wn_longAdvance 1 w 0 10 = Some (w', 10) \<and> wn_advances 1 1 w' 10 = None"
proof -
  let ?s = "\<lparr>wc_occUnits = 4, wc_count = 0\<rparr>"
  let ?win = "\<lambda>a b ub. \<lparr>wn_curWin = [a], wn_nextWin = [b], wn_ubWin = ub, wn_occupancy = 0, wn_curPos = 0, wn_lastPort = 0\<rparr>"
  note defs = wn_scheduleInternal_def wn_place_def wn_try_def Let_def wc_empty_def
  have "wn_scheduleInternal 1 4 False False (?win wc_empty wc_empty []) 0 0 4 = Some (?win ?s wc_empty [], 0, 0)" by (simp add: defs)
  moreover have "wn_scheduleInternal 1 4 False False (?win ?s wc_empty []) 0 0 4 = Some (?win ?s ?s [], 0, 1)" by (simp add: defs)
  moreover have "wn_scheduleInternal 1 4 False False (?win ?s ?s []) 0 1 4 = Some (?win ?s ?s [(2, ?s)], 0, 2)" by (simp add: defs)
  moreover have "WindowStructure 1 = ?win wc_empty wc_empty []" by (simp add: WindowStructure_def)
  ultimately have "wn_poisonRange 1 4 (WindowStructure 1) 0 2 4 = Some (?win ?s ?s [(2, ?s)])"
    unfolding wn_poisonRange_def by (subst wn_poison.simps, simp, subst wn_poison.simps, simp, subst wn_poison.simps, simp, subst wn_poison.simps, simp)
  moreover have "wn_inv 1 (?win ?s ?s [(2, ?s)]) 0" by (simp add: wn_inv_def wn_shape_def wn_total_def counts_def)
  ultimately show ?thesis using window_jump_strands_reservation [of 1 "?win ?s ?s [(2, ?s)]" 0 2 ?s "[]" 10] by auto
qed

section \<open>Reorder buffer\<close>

fun rob_run :: "nat \<Rightarrow> nat \<Rightarrow> rob \<Rightarrow> nat list \<Rightarrow> (rob \<times> nat list) option" where
  "rob_run SZ W r [] = Some (r, [])"
| "rob_run SZ W r (c # cs) = do {
     r \<leftarrow> rob_markRetire SZ W r c;
     (r', ts) \<leftarrow> rob_run SZ W r cs;
     Some (r', rob_curRetireCycle r # ts) }"

text \<open>After the retirements at cycles \<open>ts\<close> so far.\<close>

definition rob_inv :: "nat \<Rightarrow> nat \<Rightarrow> rob \<Rightarrow> nat list \<Rightarrow> bool" where
  "rob_inv SZ W r ts \<longleftrightarrow> length (rob_buf r) = SZ \<and> rob_idx r = length ts mod SZ \<and> sorted ts \<and> (\<forall>t\<in>set ts. t \<le> rob_curRetireCycle r) \<and>
     (\<forall>i < SZ. rob_buf r ! ((length ts + i) mod SZ) = (if length ts + i < SZ then 0 else ts ! (length ts + i - SZ))) \<and>
     rob_curCycleRetires r \<le> W \<and> count_list ts (rob_curRetireCycle r) \<le> rob_curCycleRetires r + 1 \<and> (\<forall>c. count_list ts c \<le> W + 1)"

lemma rob_new_inv: "0 < SZ \<Longrightarrow> 0 < W \<Longrightarrow> rob_inv SZ W (ReorderBuffer SZ) []"
  by (simp add: rob_inv_def ReorderBuffer_def)

lemma rob_step:
  assumes inv: "rob_inv SZ W r ts" and sz: "0 < SZ" "0 < W"
  shows "\<exists>r'. rob_markRetire SZ W r c = Some r' \<and> rob_inv SZ W r' (ts @ [rob_curRetireCycle r']) \<and> c \<le> rob_curRetireCycle r'"
proof -
  define r1 where "r1 = (if c \<le> rob_curRetireCycle r then
      if rob_curCycleRetires r = W then r\<lparr>rob_curRetireCycle := rob_curRetireCycle r + 1, rob_curCycleRetires := 0\<rparr>
      else r\<lparr>rob_curCycleRetires := rob_curCycleRetires r + 1\<rparr>
    else r\<lparr>rob_curRetireCycle := c, rob_curCycleRetires := 1\<rparr>)"
  let ?t = "rob_curRetireCycle r1" let ?n = "length ts" let ?i = "rob_idx r"
  let ?r = "r1\<lparr>rob_buf := (rob_buf r)[?i := ?t], rob_idx := if ?i + 1 = SZ then 0 else ?i + 1\<rparr>"
  have same: "rob_buf r1 = rob_buf r" "rob_idx r1 = rob_idx r" by (simp_all add: r1_def)
  have idx: "?i < SZ" "?i = ?n mod SZ" "length (rob_buf r) = SZ" using inv sz by (simp_all add: rob_inv_def)
  have run: "rob_markRetire SZ W r c = Some ?r" unfolding rob_markRetire_def Let_def r1_def [symmetric] using idx same by simp
  have t: "c \<le> ?t" "rob_curRetireCycle r \<le> ?t" by (simp_all add: r1_def)
  have bound: "\<forall>x\<in>set ts. x \<le> ?t" using inv t(2) by (auto simp: rob_inv_def)
  have "(if ?i + 1 = SZ then 0 else ?i + 1) = Suc ?n mod SZ" using idx by (simp add: mod_Suc)
  moreover have "((rob_buf r)[?i := ?t]) ! ((Suc ?n + i) mod SZ) = (if Suc ?n + i < SZ then 0 else (ts @ [?t]) ! (Suc ?n + i - SZ))" if "i < SZ" for i
  proof (cases "i = SZ - 1")
    case True
    then have "(Suc ?n + i) mod SZ = ?i" using sz idx(2) by simp
    then show ?thesis using True idx sz by simp
  next
    case False
    then have l: "Suc i < SZ" using that by simp
    have "(Suc ?n + i) mod SZ \<noteq> ?n mod SZ"
    proof
      assume "(Suc ?n + i) mod SZ = ?n mod SZ"
      then have "SZ dvd Suc ?n + i - ?n" using mod_eq_dvd_iff_nat [of ?n "Suc ?n + i" SZ] by simp
      then have "SZ \<le> Suc i" by (intro dvd_imp_le) simp_all
      then show False using l by simp
    qed
    then have "((rob_buf r)[?i := ?t]) ! ((Suc ?n + i) mod SZ) = rob_buf r ! ((?n + Suc i) mod SZ)" using idx(2) by simp
    also have "\<dots> = (if ?n + Suc i < SZ then 0 else ts ! (?n + Suc i - SZ))" using inv l unfolding rob_inv_def by blast
    finally show ?thesis using l by (auto simp: nth_append)
  qed
  moreover have "sorted (ts @ [?t])" using inv bound by (simp add: rob_inv_def sorted_append)
  moreover have cnt: "rob_curCycleRetires r1 \<le> W" "count_list (ts @ [?t]) ?t \<le> rob_curCycleRetires r1 + 1"
  proof -
    have old: "count_list ts x = 0" if "x > rob_curRetireCycle r" for x using inv that by (auto simp: rob_inv_def count_list_0_iff)
    show "rob_curCycleRetires r1 \<le> W" using inv sz(2) by (auto simp: r1_def rob_inv_def)
    show "count_list (ts @ [?t]) ?t \<le> rob_curCycleRetires r1 + 1" using inv old by (auto simp: r1_def rob_inv_def)
  qed
  moreover have "count_list (ts @ [?t]) x \<le> W + 1" for x
  proof (cases "x = ?t")
    case False
    then show ?thesis using inv by (simp add: rob_inv_def)
  qed (use cnt in simp)
  ultimately have "rob_inv SZ W ?r (ts @ [?t])" using bound idx(3) unfolding rob_inv_def by (simp add: same)
  then show ?thesis using run t(1) by auto
qed

lemma rob_run_ok:
  assumes "0 < SZ" "0 < W"
  shows "rob_inv SZ W r ts0 \<Longrightarrow> \<exists>r' ts. rob_run SZ W r cs = Some (r', ts) \<and> rob_inv SZ W r' (ts0 @ ts) \<and> length ts = length cs \<and> (\<forall>i < length cs. cs ! i \<le> ts ! i)"
proof (induction cs arbitrary: r ts0)
  case (Cons c cs)
  obtain r1 where r1: "rob_markRetire SZ W r c = Some r1" "rob_inv SZ W r1 (ts0 @ [rob_curRetireCycle r1])" "c \<le> rob_curRetireCycle r1"
    using rob_step [OF Cons.prems assms] by blast
  obtain r' ts where "rob_run SZ W r1 cs = Some (r', ts)" "rob_inv SZ W r' ((ts0 @ [rob_curRetireCycle r1]) @ ts)" "length ts = length cs" "\<forall>i < length cs. cs ! i \<le> ts ! i"
    using Cons.IH [OF r1(2)] by blast
  then show ?case using r1 by (auto simp: nth_Cons')
qed simp

text \<open>Operations that could retire at cycle 1 already.\<close>

lemma rob_fill:
  assumes "0 < SZ" "length (rob_buf r) = SZ" "rob_idx r < SZ" "rob_curCycleRetires r + n \<le> W" "\<forall>c\<in>set cs. c \<le> rob_curRetireCycle r" "length cs = n"
  shows "\<exists>r'. rob_run SZ W r cs = Some (r', replicate n (rob_curRetireCycle r)) \<and> length (rob_buf r') = SZ \<and> rob_idx r' < SZ \<and>
    rob_curRetireCycle r' = rob_curRetireCycle r \<and> rob_curCycleRetires r' = rob_curCycleRetires r + n"
  using assms
proof (induction cs arbitrary: r n)
  case (Cons c cs)
  then obtain m where n: "n = Suc m" by (cases n) auto
  let ?r = "r\<lparr>rob_curCycleRetires := rob_curCycleRetires r + 1, rob_buf := (rob_buf r)[rob_idx r := rob_curRetireCycle r], rob_idx := if rob_idx r + 1 = SZ then 0 else rob_idx r + 1\<rparr>"
  have step: "rob_markRetire SZ W r c = Some ?r" using Cons.prems n by (simp add: rob_markRetire_def Let_def)
  have "length (rob_buf ?r) = SZ" "rob_idx ?r < SZ" "rob_curCycleRetires ?r + m \<le> W" "\<forall>c\<in>set cs. c \<le> rob_curRetireCycle ?r" "length cs = m"
    using Cons.prems n by auto
  then obtain r' where "rob_run SZ W ?r cs = Some (r', replicate m (rob_curRetireCycle ?r))" "length (rob_buf r') = SZ" "rob_idx r' < SZ"
    "rob_curRetireCycle r' = rob_curRetireCycle ?r" "rob_curCycleRetires r' = rob_curCycleRetires ?r + m" using Cons.IH [OF Cons.prems(1)] by blast
  then show ?case using step n by simp
qed simp

lemma rob_run_append: "rob_run SZ W r (xs @ ys) = do { (r, ts) \<leftarrow> rob_run SZ W r xs; (r, us) \<leftarrow> rob_run SZ W r ys; Some (r, ts @ us) }"
  by (induction xs arbitrary: r) (auto split: bind_splits)

lemma rob_wide:
  assumes "0 < SZ" "0 < W"
  shows "\<exists>r ts. rob_run SZ W (ReorderBuffer SZ) (replicate (2 * W + 1) 1) = Some (r, ts) \<and> count_list ts 2 = W + 1"
proof -
  obtain w where w: "W = Suc w" using assms(2) by (cases W) auto
  let ?r0 = "ReorderBuffer SZ"
  let ?r1 = "?r0\<lparr>rob_curRetireCycle := 1, rob_curCycleRetires := 1, rob_buf := (rob_buf ?r0)[0 := 1], rob_idx := if 1 = SZ then 0 else 1\<rparr>"
  have r1: "rob_markRetire SZ W ?r0 1 = Some ?r1" using assms(1) by (simp add: rob_markRetire_def Let_def ReorderBuffer_def)
  have g1: "length (rob_buf ?r1) = SZ" "rob_idx ?r1 < SZ" using assms(1) by (auto simp: ReorderBuffer_def)
  obtain r2 where r2: "rob_run SZ W ?r1 (replicate w 1) = Some (r2, replicate w 1)" "length (rob_buf r2) = SZ" "rob_idx r2 < SZ" "rob_curRetireCycle r2 = 1" "rob_curCycleRetires r2 = W"
    using rob_fill [OF assms(1) g1, of w W "replicate w 1"] w by auto
  let ?r3 = "r2\<lparr>rob_curRetireCycle := 2, rob_curCycleRetires := 0, rob_buf := (rob_buf r2)[rob_idx r2 := 2], rob_idx := if rob_idx r2 + 1 = SZ then 0 else rob_idx r2 + 1\<rparr>"
  have r3: "rob_markRetire SZ W r2 1 = Some ?r3" using r2 by (simp add: rob_markRetire_def Let_def numeral_2_eq_2)
  have g3: "length (rob_buf ?r3) = SZ" "rob_idx ?r3 < SZ" using r2(2,3) assms(1) by auto
  obtain r4 where r4: "rob_run SZ W ?r3 (replicate W 1) = Some (r4, replicate W 2)" using rob_fill [OF assms(1) g3, of W W "replicate W 1"] by auto
  have split: "replicate (2 * W + 1) (1 :: nat) = 1 # replicate w 1 @ 1 # replicate W 1"
    by (simp add: w replicate_add [symmetric] replicate_app_Cons_same mult_2 flip: replicate_Suc)
  have "rob_run SZ W ?r0 (replicate (2 * W + 1) 1) = Some (r4, 1 # replicate w 1 @ 2 # replicate W 2)"
    unfolding split using r1 r2(1,4) r3 r4 by (simp add: rob_run_append)
  moreover have "count_list (replicate n x) y = (if x = y then n else 0)" for n and x y :: nat by (induction n) auto
  ultimately show ?thesis by auto
qed

text \<open>
  C24. The reorder buffer. Whatever cycles the operations can retire at, they retire in program order and none before its own cycle, \<open>minAllocCycle\<close> is the retirement of the operation
  \<open>SZ\<close> places back, and at most \<open>W + 1\<close> operations retire in one cycle. The bound is attained: when a bundle overflows into the next cycle, the count of that
  cycle starts at 0 although one operation retires in it, so a buffer of width \<open>W\<close> retires \<open>W + 1\<close>.
\<close>

theorem rob_retires_in_order:
  assumes "0 < SZ" "0 < W"
  shows "(\<forall>cs. \<exists>r ts. rob_run SZ W (ReorderBuffer SZ) cs = Some (r, ts) \<and> length ts = length cs \<and> sorted ts \<and> (\<forall>i < length cs. cs ! i \<le> ts ! i) \<and>
      rob_minAllocCycle r = Some (if length cs < SZ then 0 else ts ! (length cs - SZ)) \<and> (\<forall>c. count_list ts c \<le> W + 1)) \<and>
    (\<exists>cs r ts c. rob_run SZ W (ReorderBuffer SZ) cs = Some (r, ts) \<and> count_list ts c = W + 1)"
proof (intro conjI allI)
  fix cs
  obtain r ts where r: "rob_run SZ W (ReorderBuffer SZ) cs = Some (r, ts)" "rob_inv SZ W r ts" "length ts = length cs" "\<forall>i < length cs. cs ! i \<le> ts ! i"
    using rob_run_ok [OF assms rob_new_inv [OF assms], of cs] by auto
  have "rob_buf r ! ((length ts + 0) mod SZ) = (if length ts + 0 < SZ then 0 else ts ! (length ts + 0 - SZ))" "length (rob_buf r) = SZ" "rob_idx r = length ts mod SZ"
    using r(2) assms(1) unfolding rob_inv_def by blast+
  then have "rob_minAllocCycle r = Some (if length cs < SZ then 0 else ts ! (length cs - SZ))" using r(3) assms(1) by (simp add: rob_minAllocCycle_def)
  then show "\<exists>r ts. rob_run SZ W (ReorderBuffer SZ) cs = Some (r, ts) \<and> length ts = length cs \<and> sorted ts \<and> (\<forall>i < length cs. cs ! i \<le> ts ! i) \<and>
      rob_minAllocCycle r = Some (if length cs < SZ then 0 else ts ! (length cs - SZ)) \<and> (\<forall>c. count_list ts c \<le> W + 1)"
    using r unfolding rob_inv_def by blast
qed (use rob_wide [OF assms] in blast)

theorem rob_retires_in_order_witness:
  "\<exists>r ts. rob_run 128 4 (ReorderBuffer 128) [7, 3, 9] = Some (r, ts) \<and> length ts = 3 \<and> sorted ts"
  using rob_retires_in_order [of 128 4] by (fastforce dest: spec [of _ "[7, 3, 9]"])

section \<open>Branch predictor\<close>

definition bp_inv :: "nat \<Rightarrow> nat \<Rightarrow> nat \<Rightarrow> bpred \<Rightarrow> bool" where
  "bp_inv NB HB LB b \<longleftrightarrow> length (bp_bhsr b) = 2 ^ NB \<and> length (bp_pht b) = 2 ^ LB \<and> (\<forall>c\<in>set (bp_pht b). c \<le> 3)"

fun bp_repeat :: "nat \<Rightarrow> nat \<Rightarrow> nat \<Rightarrow> nat \<Rightarrow> bpred \<Rightarrow> Address \<Rightarrow> bool \<Rightarrow> bpred option" where
  "bp_repeat NB HB LB 0 b pc taken = Some b"
| "bp_repeat NB HB LB (Suc n) b pc taken = do {
     (b, ok) \<leftarrow> bp_predict NB HB LB b pc taken;
     bp_repeat NB HB LB n b pc taken }"

definition bp_hist :: "nat \<Rightarrow> bool \<Rightarrow> u32 \<Rightarrow> u32" where
  "bp_hist HB taken h = (push_bit 1 h AND (push_bit HB 1 - 1)) OR (if taken then 1 else 0)"

definition bp_count :: "bool \<Rightarrow> u8 \<Rightarrow> u8" where
  "bp_count taken c = (if taken then (if c > 1 then 3 else c + 1) else (if c > 1 then c - 1 else 0))"

lemma low_mask: "push_bit n 1 - 1 = (mask n :: 'a::len word)"
  by (simp add: mask_eq_decr_exp push_bit_eq_mult)

lemma and_mask_less: "n < LENGTH('a) \<Longrightarrow> unat (w AND mask n) < 2 ^ n" for w :: "'a::len word"
  by (simp add: take_bit_eq_mask [symmetric] unsigned_take_bit_eq take_bit_nat_less_exp)

lemma two_bit_cases: "c \<le> 3 \<Longrightarrow> c = 0 \<or> c = 1 \<or> c = 2 \<or> c = 3" for c :: u8
proof -
  assume "c \<le> 3"
  then have "unat c \<le> 3" by (simp add: word_le_nat_alt)
  then have "unat c = 0 \<or> unat c = 1 \<or> unat c = 2 \<or> unat c = 3" by linarith
  moreover have "unat c = n \<Longrightarrow> c = of_nat n" for n by auto
  ultimately show ?thesis by fastforce
qed

lemma bp_bhsrIdx_less: "bp_inv NB HB LB b \<Longrightarrow> NB < 32 \<Longrightarrow> bp_bhsrIdx NB pc < length (bp_bhsr b)"
  unfolding bp_bhsrIdx_def bp_inv_def low_mask using and_mask_less [of NB, where 'a = 32] by simp

lemma bp_phtIdx_less: "bp_inv NB HB LB b \<Longrightarrow> LB < 32 \<Longrightarrow> bp_phtIdx HB LB h < length (bp_pht b)"
  unfolding bp_phtIdx_def Let_def bp_inv_def low_mask using and_mask_less [of LB, where 'a = 32] by simp

lemma bp_predict_ok:
  assumes inv: "bp_inv NB HB LB b" and w: "NB < 32" "LB < 32"
  shows "\<exists>b'. bp_predict NB HB LB b pc taken = Some (b', taken = (bp_pht b ! bp_phtIdx HB LB (bp_bhsr b ! bp_bhsrIdx NB pc) > 1)) \<and> bp_inv NB HB LB b' \<and>
    bp_bhsr b' = (bp_bhsr b)[bp_bhsrIdx NB pc := bp_hist HB taken (bp_bhsr b ! bp_bhsrIdx NB pc)] \<and>
    bp_pht b' = (bp_pht b)[bp_phtIdx HB LB (bp_bhsr b ! bp_bhsrIdx NB pc) := bp_count taken (bp_pht b ! bp_phtIdx HB LB (bp_bhsr b ! bp_bhsrIdx NB pc))]"
proof -
  let ?i = "bp_bhsrIdx NB pc" let ?h = "bp_bhsr b ! ?i" let ?j = "bp_phtIdx HB LB ?h" let ?c = "bp_pht b ! ?j"
  have i: "?i < length (bp_bhsr b)" by (rule bp_bhsrIdx_less [OF inv w(1)])
  have j: "?j < length (bp_pht b)" by (rule bp_phtIdx_less [OF inv w(2)])
  have "?c \<le> 3" using inv j by (simp add: bp_inv_def)
  then have "bp_count taken ?c \<le> 3" using two_bit_cases [of ?c] by (auto simp: bp_count_def)
  then have "\<forall>c\<in>set ((bp_pht b)[?j := bp_count taken ?c]). c \<le> 3" using inv set_update_subset_insert [of "bp_pht b" ?j] by (fastforce simp: bp_inv_def)
  then show ?thesis using i j inv by (simp add: bp_predict_def Let_def bp_inv_def bp_hist_def bp_count_def)
qed

lemma bp_hist_bit:
  assumes "0 < HB" "HB < 32"
  shows "bit (bp_hist HB taken h) i \<longleftrightarrow> i < HB \<and> (if i = 0 then taken else bit h (i - 1))"
  using assms unfolding bp_hist_def low_mask bit_or_iff bit_and_iff bit_push_bit_iff bit_mask_iff
  by (auto simp: bit_1_iff)

lemma bp_hist_full:
  assumes "0 < HB" "HB < 32" "HB \<le> n"
  shows "(bp_hist HB taken ^^ n) h = (if taken then mask HB else 0)"
proof -
  have b: "i < HB \<Longrightarrow> i < n \<Longrightarrow> bit ((bp_hist HB taken ^^ n) h) i = taken" for i n
  proof (induction n arbitrary: i)
    case (Suc n)
    then show ?case using bp_hist_bit [OF assms(1,2)] by (cases i) auto
  qed simp
  obtain k where n: "n = Suc k" using assms(1,3) by (cases n) auto
  show ?thesis
  proof (rule bit_word_eqI)
    fix i assume "i < LENGTH(32)"
    show "bit ((bp_hist HB taken ^^ n) h) i = bit (if taken then mask HB else 0 :: u32) i"
    proof (cases "i < HB")
      case True
      then show ?thesis using b [of i n] assms(3) \<open>i < LENGTH(32)\<close> by (simp add: bit_mask_iff)
    next
      case False
      then show ?thesis using bp_hist_bit [OF assms(1,2)] by (simp add: n bit_mask_iff)
    qed
  qed
qed

lemma bp_count_learns:
  assumes "c \<le> 3" "2 \<le> k"
  shows "taken = ((bp_count taken ^^ k) c > 1)"
proof -
  obtain m where k: "k = Suc (Suc m)" using assms(2) by (metis add_2_eq_Suc le_Suc_ex)
  have "taken = ((bp_count taken ^^ Suc (Suc m)) c > 1)"
  proof (induction m)
    case 0
    then show ?case using two_bit_cases [OF assms(1)] by (auto simp: bp_count_def)
  next
    case (Suc m)
    let ?x = "(bp_count taken ^^ Suc (Suc m)) c"
    have "(bp_count taken ^^ Suc (Suc (Suc m))) c = bp_count taken ?x" by simp
    moreover have "taken = (x > 1) \<Longrightarrow> taken = (bp_count taken x > 1)" for x by (auto simp: bp_count_def)
    then have "taken = (bp_count taken ?x > 1)" using Suc by blast
    ultimately show ?case by simp
  qed
  then show ?thesis using k by simp
qed

lemma bp_repeat_add: "bp_repeat NB HB LB (m + n) b pc taken = bp_repeat NB HB LB m b pc taken \<bind> (\<lambda>b. bp_repeat NB HB LB n b pc taken)"
  by (induction m arbitrary: b) (auto split: bind_splits)

lemma bp_repeat_hist:
  assumes "NB < 32" "LB < 32"
  shows "bp_inv NB HB LB b \<Longrightarrow> \<exists>b'. bp_repeat NB HB LB n b pc taken = Some b' \<and> bp_inv NB HB LB b' \<and>
    bp_bhsr b' ! bp_bhsrIdx NB pc = (bp_hist HB taken ^^ n) (bp_bhsr b ! bp_bhsrIdx NB pc)"
proof (induction n arbitrary: b)
  case (Suc n)
  obtain b1 ok where b1: "bp_predict NB HB LB b pc taken = Some (b1, ok)" "bp_inv NB HB LB b1"
    "bp_bhsr b1 = (bp_bhsr b)[bp_bhsrIdx NB pc := bp_hist HB taken (bp_bhsr b ! bp_bhsrIdx NB pc)]"
    using bp_predict_ok [OF Suc.prems assms, of pc taken] by blast
  then show ?case using Suc.IH [OF b1(2)] bp_bhsrIdx_less [OF Suc.prems assms(1), of pc] by (auto simp: funpow_swap1)
qed simp

lemma bp_repeat_count:
  assumes "NB < 32" "LB < 32" and F: "bp_hist HB taken F = F"
  shows "bp_inv NB HB LB b \<Longrightarrow> bp_bhsr b ! bp_bhsrIdx NB pc = F \<Longrightarrow> \<exists>b'. bp_repeat NB HB LB n b pc taken = Some b' \<and> bp_inv NB HB LB b' \<and>
    bp_bhsr b' ! bp_bhsrIdx NB pc = F \<and> bp_pht b' ! bp_phtIdx HB LB F = (bp_count taken ^^ n) (bp_pht b ! bp_phtIdx HB LB F)"
proof (induction n arbitrary: b)
  case (Suc n)
  obtain b1 ok where b1: "bp_predict NB HB LB b pc taken = Some (b1, ok)" "bp_inv NB HB LB b1"
    "bp_bhsr b1 = (bp_bhsr b)[bp_bhsrIdx NB pc := bp_hist HB taken F]"
    "bp_pht b1 = (bp_pht b)[bp_phtIdx HB LB F := bp_count taken (bp_pht b ! bp_phtIdx HB LB F)]"
    using bp_predict_ok [OF Suc.prems(1) assms(1,2), of pc taken] Suc.prems(2) by blast
  have "bp_bhsr b1 ! bp_bhsrIdx NB pc = F" "bp_pht b1 ! bp_phtIdx HB LB F = bp_count taken (bp_pht b ! bp_phtIdx HB LB F)"
    using b1(3,4) F bp_bhsrIdx_less [OF Suc.prems(1) assms(1), of pc] bp_phtIdx_less [OF Suc.prems(1) assms(2), of F] by simp_all
  then show ?case using Suc.IH [OF b1(2)] b1(1) by (auto simp: funpow_swap1)
qed simp

text \<open>
  C25. The branch predictor learns. It never leaves its tables and its counters stay saturating 2-bit counters; and whatever it has seen before, a branch that goes the same way
  \<open>HB + 2\<close> times in a row (\<open>HB\<close> outcomes fill its history, two move the counter) is predicted correctly from then on.
\<close>

theorem branch_predictor_learns:
  assumes "bp_inv NB HB LB b" "NB \<le> LB" "LB \<le> HB" "0 < HB" "HB < 32" "HB + 2 \<le> n"
  shows "\<exists>b1 b2. bp_repeat NB HB LB n b pc taken = Some b1 \<and> bp_inv NB HB LB b1 \<and> bp_predict NB HB LB b1 pc taken = Some (b2, True)"
proof -
  have w: "NB < 32" "LB < 32" using assms by simp_all
  let ?F = "if taken then mask HB else 0 :: u32" let ?i = "bp_bhsrIdx NB pc"
  obtain b0 where b0: "bp_repeat NB HB LB HB b pc taken = Some b0" "bp_inv NB HB LB b0" "bp_bhsr b0 ! ?i = ?F"
    using bp_repeat_hist [OF w assms(1), of HB pc taken] bp_hist_full [OF assms(4,5) order_refl, of taken] by auto
  have F: "bp_hist HB taken ?F = ?F"
    using bp_hist_full [OF assms(4,5), of "Suc HB" taken 0] bp_hist_full [OF assms(4,5) order_refl, of taken 0] by simp
  obtain b1 where b1: "bp_repeat NB HB LB (n - HB) b0 pc taken = Some b1" "bp_inv NB HB LB b1" "bp_bhsr b1 ! ?i = ?F"
    "bp_pht b1 ! bp_phtIdx HB LB ?F = (bp_count taken ^^ (n - HB)) (bp_pht b0 ! bp_phtIdx HB LB ?F)"
    using bp_repeat_count [OF w F b0(2,3), of "n - HB"] by blast
  have "n = HB + (n - HB)" using assms(6) by simp
  then have run: "bp_repeat NB HB LB n b pc taken = Some b1" using bp_repeat_add [of NB HB LB HB "n - HB" b pc taken] b0(1) b1(1) by simp
  have "bp_pht b0 ! bp_phtIdx HB LB ?F \<le> 3" using b0(2) bp_phtIdx_less [OF b0(2) w(2), of ?F] by (simp add: bp_inv_def)
  then have "taken = (bp_pht b1 ! bp_phtIdx HB LB ?F > 1)" using bp_count_learns [of _ "n - HB" taken] b1(4) assms(6) by simp
  moreover obtain b2 where "bp_predict NB HB LB b1 pc taken = Some (b2, taken = (bp_pht b1 ! bp_phtIdx HB LB (bp_bhsr b1 ! ?i) > 1))"
    using bp_predict_ok [OF b1(2) w, of pc taken] by blast
  ultimately show ?thesis using run b1(2,3) by (intro exI [of _ b1] exI [of _ b2]) simp
qed

theorem branch_predictor_learns_witness:
  "\<exists>b1 b2. bp_repeat 11 18 14 20 (BranchPredictorPAg 11 14) 4096 True = Some b1 \<and> bp_predict 11 18 14 b1 4096 True = Some (b2, True)"
proof -
  have "bp_inv 11 18 14 (BranchPredictorPAg 11 14)" by (simp add: bp_inv_def BranchPredictorPAg_def)
  then show ?thesis using branch_predictor_learns [of 11 18 14 "BranchPredictorPAg 11 14" 20 4096 True] by auto
qed

end
