(* ===== verification/OOOCore.thy ===== *)
theory OOOCore
  imports OOOStructs
begin

text \<open>
  The out-of-order core (\<^verbatim>\<open>src/ooo_core.cpp\<close>): the basic block simulator that composes the instruction window, the reorder buffer, the
  load and store queues, the forwarding table, the issue queue and the branch predictor.

  \<^item> The filter caches and the recorder of the core are the state \<open>'e\<close>, and what the core calls on them is a record of functions.
  \<^item> Cycles are natural numbers, and so are the counters. The number of registers is the length of the scoreboard.
  \<^item> The profiling counters behind \<open>OOO_STALL_STATS\<close> and the back pressure behind \<open>LSU_IW_BACKPRESSURE\<close> are off in the code.
\<close>

section \<open>State\<close>

datatype uop_type = UOP_GENERAL | UOP_LOAD | UOP_STORE | UOP_STORE_ADDR | UOP_FENCE

record dyn_uop =
  u_rs0 :: nat
  u_rs1 :: nat
  u_rd0 :: nat
  u_rd1 :: nat
  u_lat :: nat
  u_decCycle :: nat
  u_type :: uop_type
  u_portMask :: u8
  u_extraSlots :: nat

record bbl_info =
  bb_instrs :: nat
  bb_bytes :: nat
  bb_uop :: "dyn_uop list"
  bb_approxInstrs :: nat

record 'e core_env =
  ce_dload :: "Address \<Rightarrow> nat \<Rightarrow> 'e \<Rightarrow> ('e \<times> nat) option"
  ce_dstore :: "Address \<Rightarrow> nat \<Rightarrow> 'e \<Rightarrow> ('e \<times> nat) option"
  ce_iload :: "Address \<Rightarrow> nat \<Rightarrow> 'e \<Rightarrow> ('e \<times> nat) option"
  ce_record :: "nat \<Rightarrow> nat \<Rightarrow> nat \<Rightarrow> 'e \<Rightarrow> 'e option"
  ce_contextSwitch :: "'e \<Rightarrow> 'e option"
  ce_notifyJoin :: "nat \<Rightarrow> 'e \<Rightarrow> ('e \<times> nat) option"
  ce_notifyLeave :: "nat \<Rightarrow> 'e \<Rightarrow> 'e option"
  ce_cSimStart :: "nat \<Rightarrow> 'e \<Rightarrow> ('e \<times> nat) option"
  ce_cSimEnd :: "nat \<Rightarrow> 'e \<Rightarrow> ('e \<times> nat) option"
  ce_lineBits :: nat

record 'e ooo_core =
  o_env :: 'e
  o_phaseEndCycle :: nat
  o_curCycle :: nat
  o_regScoreboard :: "nat list"
  o_prevBbl :: "bbl_info option"
  o_loadAddrs :: "Address list"
  o_storeAddrs :: "Address list"
  o_loads :: nat
  o_stores :: nat
  o_lastStoreCommitCycle :: nat
  o_lastStoreAddrCommitCycle :: nat
  o_loadQueue :: rob
  o_storeQueue :: rob
  o_curCycleRFReads :: nat
  o_curCycleIssuedUops :: nat
  o_insWindow :: window
  o_rob :: rob
  o_branchPred :: bpred
  o_branchPc :: Address
  o_branchTaken :: bool
  o_branchTakenNpc :: Address
  o_branchNotTakenNpc :: Address
  o_decodeCycle :: nat
  o_uopQueue :: cycle_queue
  o_instrs :: nat
  o_uops :: nat
  o_bbls :: nat
  o_approxInstrs :: nat
  o_mispredBranches :: nat
  o_fwdArray :: "(Address \<times> nat) list"

definition FETCH_STAGE :: nat where "FETCH_STAGE = 1"
definition DECODE_STAGE :: nat where "DECODE_STAGE = 4"
definition ISSUE_STAGE :: nat where "ISSUE_STAGE = 7"
definition DISPATCH_STAGE :: nat where "DISPATCH_STAGE = 13"
definition L1D_LAT :: nat where "L1D_LAT = 4"
definition FETCH_BYTES_PER_CYCLE :: nat where "FETCH_BYTES_PER_CYCLE = 16"
definition ISSUES_PER_CYCLE :: nat where "ISSUES_PER_CYCLE = 4"
definition RF_READS_PER_CYCLE :: nat where "RF_READS_PER_CYCLE = 3"
definition FWD_ENTRIES :: nat where "FWD_ENTRIES = 32"

lemmas ooo_params = FETCH_STAGE_def DECODE_STAGE_def ISSUE_STAGE_def DISPATCH_STAGE_def L1D_LAT_def FETCH_BYTES_PER_CYCLE_def
  ISSUES_PER_CYCLE_def RF_READS_PER_CYCLE_def FWD_ENTRIES_def

text \<open>The constructor does not set \<open>loads\<close>, \<open>stores\<close>, the recorded addresses and the branch outcome; here they start at 0.\<close>

definition OOOCore_new :: "nat \<Rightarrow> nat \<Rightarrow> 'e \<Rightarrow> 'e ooo_core" where
  "OOOCore_new maxRegisters phaseLength env =
     \<lparr>o_env = env, o_phaseEndCycle = phaseLength, o_curCycle = 0, o_regScoreboard = replicate maxRegisters 0, o_prevBbl = None,
      o_loadAddrs = replicate 256 0, o_storeAddrs = replicate 256 0, o_loads = 0, o_stores = 0, o_lastStoreCommitCycle = 0, o_lastStoreAddrCommitCycle = 0,
      o_loadQueue = ReorderBuffer 32, o_storeQueue = ReorderBuffer 32, o_curCycleRFReads = 0, o_curCycleIssuedUops = 0,
      o_insWindow = WindowStructure 1024, o_rob = ReorderBuffer 128, o_branchPred = BranchPredictorPAg 11 14,
      o_branchPc = 0, o_branchTaken = False, o_branchTakenNpc = 0, o_branchNotTakenNpc = 0, o_decodeCycle = DECODE_STAGE, o_uopQueue = CycleQueue 28,
      o_instrs = 0, o_uops = 0, o_bbls = 0, o_approxInstrs = 0, o_mispredBranches = 0, o_fwdArray = replicate FWD_ENTRIES (- 1, 0)\<rparr>"

section \<open>Recording of the memory operations and the branch of a block\<close>

definition ooo_load :: "Address \<Rightarrow> 'e ooo_core \<Rightarrow> 'e ooo_core option" where
  "ooo_load addr c = do { l \<leftarrow> aset (o_loadAddrs c) (o_loads c) addr; Some (c\<lparr>o_loadAddrs := l, o_loads := o_loads c + 1\<rparr>) }"

definition ooo_store :: "Address \<Rightarrow> 'e ooo_core \<Rightarrow> 'e ooo_core option" where
  "ooo_store addr c = do { l \<leftarrow> aset (o_storeAddrs c) (o_stores c) addr; Some (c\<lparr>o_storeAddrs := l, o_stores := o_stores c + 1\<rparr>) }"

definition ooo_predFalseMemOp :: "'e ooo_core \<Rightarrow> 'e ooo_core option" where
  "ooo_predFalseMemOp c = do { l \<leftarrow> aset (o_loadAddrs c) (o_loads c) (- 1); Some (c\<lparr>o_loadAddrs := l, o_loads := o_loads c + 1\<rparr>) }"

definition ooo_branch :: "Address \<Rightarrow> bool \<Rightarrow> Address \<Rightarrow> Address \<Rightarrow> 'e ooo_core \<Rightarrow> 'e ooo_core" where
  "ooo_branch pc taken takenNpc notTakenNpc c = c\<lparr>o_branchPc := pc, o_branchTaken := taken, o_branchTakenNpc := takenNpc, o_branchNotTakenNpc := notTakenNpc\<rparr>"

definition ooo_contextSwitch :: "'e core_env \<Rightarrow> bool \<Rightarrow> 'e ooo_core \<Rightarrow> 'e ooo_core option" where
  "ooo_contextSwitch env descheduled c =
     (if descheduled then do { e \<leftarrow> ce_contextSwitch env (o_env c); Some (c\<lparr>o_prevBbl := None, o_env := e\<rparr>) } else Some c)"

section \<open>One micro-operation\<close>

definition ooo_advancePos :: "'e ooo_core \<Rightarrow> 'e ooo_core option" where
  "ooo_advancePos c = do { (w, cur) \<leftarrow> wn_advancePos 1024 (o_insWindow c) (o_curCycle c); Some (c\<lparr>o_insWindow := w, o_curCycle := cur\<rparr>) }"

fun ooo_advances :: "nat \<Rightarrow> 'e ooo_core \<Rightarrow> 'e ooo_core option" where
  "ooo_advances 0 c = Some c"
| "ooo_advances (Suc n) c = do { c \<leftarrow> ooo_advancePos c; ooo_advances n c }"

definition ooo_decode :: "dyn_uop \<Rightarrow> nat \<Rightarrow> 'e ooo_core \<Rightarrow> 'e ooo_core option" where
  "ooo_decode u prevDecCycle c = do {
     let decDiff = nat ((int (u_decCycle u) - int prevDecCycle) mod 2 ^ 32);
     m \<leftarrow> cq_minAllocCycle (o_uopQueue c);
     let c = c\<lparr>o_decodeCycle := max (o_decodeCycle c + decDiff) m\<rparr>;
     c \<leftarrow> (if o_decodeCycle c > o_curCycle c
           then ooo_advances ((o_decodeCycle c - o_curCycle c) mod 2 ^ 32) (c\<lparr>o_curCycleIssuedUops := 0, o_curCycleRFReads := 0\<rparr>) else Some c);
     q \<leftarrow> cq_markLeave 28 (o_uopQueue c) (o_curCycle c);
     Some (c\<lparr>o_uopQueue := q\<rparr>) }"

definition ooo_issue :: "'e ooo_core \<Rightarrow> 'e ooo_core option" where
  "ooo_issue c = do {
     c \<leftarrow> (if o_curCycleIssuedUops c \<ge> ISSUES_PER_CYCLE then ooo_advancePos (c\<lparr>o_curCycleIssuedUops := 0, o_curCycleRFReads := 0\<rparr>) else Some c);
     Some (c\<lparr>o_curCycleIssuedUops := o_curCycleIssuedUops c + 1\<rparr>) }"

text \<open>The cycles of the two sources, and the stall when too many of them have to be read from the register file.\<close>

definition ooo_sources :: "dyn_uop \<Rightarrow> 'e ooo_core \<Rightarrow> (nat \<times> nat \<times> 'e ooo_core) option" where
  "ooo_sources u c = do {
     sb \<leftarrow> aset (o_regScoreboard c) 0 (o_curCycle c);
     c0 \<leftarrow> aget sb (u_rs0 u);
     c1 \<leftarrow> aget sb (u_rs1 u);
     let reads = o_curCycleRFReads c + (if c0 < o_curCycle c then 1 else 0) + (if c1 < o_curCycle c then 1 else 0);
     let c = c\<lparr>o_regScoreboard := sb, o_curCycleRFReads := reads\<rparr>;
     c \<leftarrow> (if reads > RF_READS_PER_CYCLE then ooo_advancePos (c\<lparr>o_curCycleRFReads := reads - RF_READS_PER_CYCLE, o_curCycleIssuedUops := 0\<rparr>) else Some c);
     Some (c0, c1, c) }"

definition ooo_dispatch :: "dyn_uop \<Rightarrow> nat \<Rightarrow> nat \<Rightarrow> 'e ooo_core \<Rightarrow> (nat \<times> 'e ooo_core) option" where
  "ooo_dispatch u c0 c1 c = do {
     c2 \<leftarrow> rob_minAllocCycle (o_rob c);
     let c3 = o_curCycle c;
     let dispatchCycle = max (max c0 c1) (max c2 c3 + (DISPATCH_STAGE - ISSUE_STAGE));
     (w, cur, dispatchCycle) \<leftarrow> wn_schedule 1024 36 (o_insWindow c) c3 dispatchCycle (u_portMask u) (u_extraSlots u);
     let c = c\<lparr>o_insWindow := w, o_curCycle := cur\<rparr>;
     Some (dispatchCycle, if cur > c3 then c\<lparr>o_curCycleIssuedUops := 0, o_curCycleRFReads := 0\<rparr> else c) }"

definition fwdIdx :: "Address \<Rightarrow> nat" where
  "fwdIdx addr = unat (drop_bit 2 addr AND 31)"

definition ooo_load_uop :: "'e core_env \<Rightarrow> nat \<Rightarrow> nat \<Rightarrow> 'e ooo_core \<Rightarrow> (nat \<times> 'e ooo_core) option" where
  "ooo_load_uop env dispatchCycle loadIdx c = do {
     lqCycle \<leftarrow> rob_minAllocCycle (o_loadQueue c);
     let dispatchCycle = max (o_lastStoreAddrCommitCycle c + 1) (max lqCycle dispatchCycle);
     addr \<leftarrow> aget (o_loadAddrs c) loadIdx;
     (e, r) \<leftarrow> (if addr \<noteq> - 1 then do {
         (e, r) \<leftarrow> ce_dload env addr dispatchCycle (o_env c);
         e \<leftarrow> ce_record env (o_curCycle c) dispatchCycle (r + L1D_LAT) e;
         Some (e, r + L1D_LAT) }
       else Some (o_env c, dispatchCycle));
     fwd \<leftarrow> aget (o_fwdArray c) (fwdIdx addr);
     let r = (if fst fwd = addr then max r (snd fwd) else r);
     lq \<leftarrow> rob_markRetire 32 4 (o_loadQueue c) r;
     Some (r, c\<lparr>o_env := e, o_loadQueue := lq\<rparr>) }"

definition ooo_store_uop :: "'e core_env \<Rightarrow> nat \<Rightarrow> nat \<Rightarrow> 'e ooo_core \<Rightarrow> (nat \<times> 'e ooo_core) option" where
  "ooo_store_uop env dispatchCycle storeIdx c = do {
     sqCycle \<leftarrow> rob_minAllocCycle (o_storeQueue c);
     let dispatchCycle = max (o_lastStoreAddrCommitCycle c + 1) (max sqCycle dispatchCycle);
     addr \<leftarrow> aget (o_storeAddrs c) storeIdx;
     (e, r) \<leftarrow> ce_dstore env addr dispatchCycle (o_env c);
     let r = r + L1D_LAT;
     e \<leftarrow> ce_record env (o_curCycle c) dispatchCycle r e;
     fwd \<leftarrow> aset (o_fwdArray c) (fwdIdx addr) (addr, r);
     sq \<leftarrow> rob_markRetire 32 4 (o_storeQueue c) r;
     Some (r, c\<lparr>o_env := e, o_fwdArray := fwd, o_lastStoreCommitCycle := max (o_lastStoreCommitCycle c) r, o_storeQueue := sq\<rparr>) }"

text \<open>The load/store unit: the commit cycle and the next load and store of the block.\<close>

definition ooo_lsu :: "'e core_env \<Rightarrow> dyn_uop \<Rightarrow> nat \<Rightarrow> nat \<Rightarrow> nat \<Rightarrow> 'e ooo_core \<Rightarrow> (nat \<times> nat \<times> nat \<times> 'e ooo_core) option" where
  "ooo_lsu env u dispatchCycle loadIdx storeIdx c = (case u_type u of
     UOP_GENERAL \<Rightarrow> Some (dispatchCycle + u_lat u, loadIdx, storeIdx, c)
   | UOP_LOAD \<Rightarrow> do { (r, c) \<leftarrow> ooo_load_uop env dispatchCycle loadIdx c; Some (r, loadIdx + 1, storeIdx, c) }
   | UOP_STORE \<Rightarrow> do { (r, c) \<leftarrow> ooo_store_uop env dispatchCycle storeIdx c; Some (r, loadIdx, storeIdx + 1, c) }
   | UOP_STORE_ADDR \<Rightarrow> (let r = dispatchCycle + u_lat u in
       Some (r, loadIdx, storeIdx, c\<lparr>o_lastStoreAddrCommitCycle := max (o_lastStoreAddrCommitCycle c) r\<rparr>))
   | UOP_FENCE \<Rightarrow> (let r = dispatchCycle + u_lat u in
       Some (r, loadIdx, storeIdx,
         c\<lparr>o_lastStoreAddrCommitCycle := max r (max (o_lastStoreAddrCommitCycle c) (o_lastStoreCommitCycle c + u_lat u))\<rparr>)))"

definition ooo_retire :: "dyn_uop \<Rightarrow> nat \<Rightarrow> 'e ooo_core \<Rightarrow> 'e ooo_core option" where
  "ooo_retire u commitCycle c = do {
     r \<leftarrow> rob_markRetire 128 4 (o_rob c) commitCycle;
     sb \<leftarrow> aset (o_regScoreboard c) (u_rd0 u) commitCycle;
     sb \<leftarrow> aset sb (u_rd1 u) commitCycle;
     Some (c\<lparr>o_rob := r, o_regScoreboard := sb\<rparr>) }"

definition ooo_uop :: "'e core_env \<Rightarrow> dyn_uop \<Rightarrow> nat \<Rightarrow> nat \<Rightarrow> nat \<Rightarrow> 'e ooo_core \<Rightarrow> (nat \<times> nat \<times> nat \<times> 'e ooo_core) option" where
  "ooo_uop env u prevDecCycle loadIdx storeIdx c = do {
     c \<leftarrow> ooo_decode u prevDecCycle c;
     c \<leftarrow> ooo_issue c;
     (c0, c1, c) \<leftarrow> ooo_sources u c;
     (dispatchCycle, c) \<leftarrow> ooo_dispatch u c0 c1 c;
     (commitCycle, loadIdx, storeIdx, c) \<leftarrow> ooo_lsu env u dispatchCycle loadIdx storeIdx c;
     c \<leftarrow> ooo_retire u commitCycle c;
     Some (commitCycle, loadIdx, storeIdx, c) }"

fun ooo_uops :: "'e core_env \<Rightarrow> dyn_uop list \<Rightarrow> nat \<Rightarrow> nat \<Rightarrow> nat \<Rightarrow> nat \<Rightarrow> 'e ooo_core \<Rightarrow> (nat \<times> nat \<times> nat \<times> 'e ooo_core) option" where
  "ooo_uops env [] prevDecCycle lastCommitCycle loadIdx storeIdx c = Some (lastCommitCycle, loadIdx, storeIdx, c)"
| "ooo_uops env (u # us) prevDecCycle lastCommitCycle loadIdx storeIdx c = do {
     (commitCycle, loadIdx, storeIdx, c) \<leftarrow> ooo_uop env u prevDecCycle loadIdx storeIdx c;
     ooo_uops env us (u_decCycle u) commitCycle loadIdx storeIdx c }"

section \<open>The front end\<close>

text \<open>An instruction fetch: its latency.\<close>

definition ooo_fetch :: "'e core_env \<Rightarrow> Address \<Rightarrow> 'e ooo_core \<Rightarrow> (nat \<times> 'e ooo_core) option" where
  "ooo_fetch env addr c = do {
     (e, r) \<leftarrow> ce_iload env addr (o_curCycle c) (o_env c);
     let fetchLat = nat ((int r - int (o_curCycle c)) mod 2 ^ 64);
     e \<leftarrow> ce_record env (o_curCycle c) (o_curCycle c) (o_curCycle c + fetchLat) e;
     Some (fetchLat, c\<lparr>o_env := e\<rparr>) }"

fun ooo_wrong_path :: "'e core_env \<Rightarrow> Address \<Rightarrow> nat \<Rightarrow> nat \<Rightarrow> nat \<Rightarrow> nat \<Rightarrow> 'e ooo_core \<Rightarrow> 'e ooo_core option" where
  "ooo_wrong_path env wrongPathAddr lastCommitCycle reqCycle i 0 c = Some c"
| "ooo_wrong_path env wrongPathAddr lastCommitCycle reqCycle i (Suc n) c = do {
     let lineSize = 2 ^ ce_lineBits env;
     (fetchLat, c) \<leftarrow> ooo_fetch env (wrongPathAddr + of_nat (lineSize * i)) c;
     let respCycle = reqCycle + fetchLat;
     if respCycle > lastCommitCycle then Some c
     else ooo_wrong_path env wrongPathAddr lastCommitCycle (respCycle + lineSize div FETCH_BYTES_PER_CYCLE) (i + 1) n c }"

definition ooo_predict :: "'e core_env \<Rightarrow> nat \<Rightarrow> nat \<Rightarrow> 'e ooo_core \<Rightarrow> (nat \<times> 'e ooo_core) option" where
  "ooo_predict env lastCommitCycle fetchCycle c =
     (if o_branchPc c \<noteq> 0 then do {
        (bp, ok) \<leftarrow> bp_predict 11 18 14 (o_branchPred c) (o_branchPc c) (o_branchTaken c);
        let c = c\<lparr>o_branchPred := bp\<rparr>;
        if ok then Some (fetchCycle, c)
        else do {
          let c = c\<lparr>o_mispredBranches := o_mispredBranches c + 1\<rparr>;
          let wrongPathAddr = (if o_branchTaken c then o_branchNotTakenNpc c else o_branchTakenNpc c);
          c \<leftarrow> ooo_wrong_path env wrongPathAddr lastCommitCycle fetchCycle 0 (5 * 64 div 2 ^ ce_lineBits env) c;
          Some (lastCommitCycle, c) } }
      else Some (fetchCycle, c))"

partial_function (option) ooo_ifetch :: "'e core_env \<Rightarrow> Address \<Rightarrow> Address \<Rightarrow> nat \<Rightarrow> 'e ooo_core \<Rightarrow> (nat \<times> 'e ooo_core) option" where
  "ooo_ifetch env fetchAddr endAddr fetchCycle c =
     (if fetchAddr < endAddr then do {
        (fetchLat, c) \<leftarrow> ooo_fetch env fetchAddr c;
        ooo_ifetch env (fetchAddr + push_bit (ce_lineBits env) 1) endAddr (fetchCycle + fetchLat) c }
      else Some (fetchCycle, c))"

definition ooo_bbl :: "'e core_env \<Rightarrow> Address \<Rightarrow> bbl_info \<Rightarrow> 'e ooo_core \<Rightarrow> 'e ooo_core option" where
  "ooo_bbl env bblAddr bblInfo c = (case o_prevBbl c of
     None \<Rightarrow> Some (c\<lparr>o_prevBbl := Some bblInfo, o_loads := 0, o_stores := 0\<rparr>)
   | Some bbl \<Rightarrow> do {
       let c = c\<lparr>o_prevBbl := Some bblInfo\<rparr>;
       (lastCommitCycle, loadIdx, storeIdx, c) \<leftarrow> ooo_uops env (bb_uop bbl) 0 0 0 0 c;
       let c = c\<lparr>o_instrs := o_instrs c + bb_instrs bbl, o_uops := o_uops c + length (bb_uop bbl), o_bbls := o_bbls c + 1,
         o_approxInstrs := o_approxInstrs c + bb_approxInstrs bbl\<rparr>;
       assert_that (loadIdx = o_loads c);
       assert_that (storeIdx = o_stores c);
       let c = c\<lparr>o_loads := 0, o_stores := 0\<rparr>;
       (fetchCycle, c) \<leftarrow> ooo_predict env lastCommitCycle (o_decodeCycle c - (DECODE_STAGE - FETCH_STAGE)) c;
       let c = c\<lparr>o_branchPc := 0\<rparr>;
       (fetchCycle, c) \<leftarrow> ooo_ifetch env bblAddr (bblAddr + of_nat (bb_bytes bblInfo)) fetchCycle c;
       Some (c\<lparr>o_decodeCycle := max (o_decodeCycle c + 1) (fetchCycle + (DECODE_STAGE - FETCH_STAGE))\<rparr>) })"

section \<open>Phases\<close>

text \<open>\<open>BblFunc\<close> takes the barrier once for every phase that the block has crossed, until a barrier gives the core to another thread.
  \<open>takeBarrier\<close> says whether the thread still has the core.\<close>

partial_function (option) ooo_phases :: "('e ooo_core \<Rightarrow> ('e ooo_core \<times> bool) option) \<Rightarrow> nat \<Rightarrow> 'e ooo_core \<Rightarrow> 'e ooo_core option" where
  "ooo_phases takeBarrier phaseLength c =
     (if o_curCycle c > o_phaseEndCycle c then do {
        (c, same) \<leftarrow> takeBarrier (c\<lparr>o_phaseEndCycle := o_phaseEndCycle c + phaseLength\<rparr>);
        if same then ooo_phases takeBarrier phaseLength c else Some c }
      else Some c)"

definition ooo_bblFunc :: "'e core_env \<Rightarrow> ('e ooo_core \<Rightarrow> ('e ooo_core \<times> bool) option) \<Rightarrow> nat \<Rightarrow> Address \<Rightarrow> bbl_info \<Rightarrow> 'e ooo_core \<Rightarrow> 'e ooo_core option" where
  "ooo_bblFunc env takeBarrier phaseLength bblAddr bblInfo c = do { c \<leftarrow> ooo_bbl env bblAddr bblInfo c; ooo_phases takeBarrier phaseLength c }"

definition ooo_advance :: "nat \<Rightarrow> 'e ooo_core \<Rightarrow> 'e ooo_core option" where
  "ooo_advance targetCycle c = do {
     assert_that (targetCycle > o_curCycle c);
     let c = c\<lparr>o_decodeCycle := o_decodeCycle c + (targetCycle - o_curCycle c)\<rparr>;
     (w, cur) \<leftarrow> wn_longAdvance 1024 (o_insWindow c) (o_curCycle c) targetCycle;
     let c = c\<lparr>o_insWindow := w, o_curCycle := cur, o_curCycleRFReads := 0, o_curCycleIssuedUops := 0\<rparr>;
     assert_that (targetCycle = o_curCycle c);
     Some c }"

definition ooo_advance_to :: "nat \<Rightarrow> 'e ooo_core \<Rightarrow> 'e ooo_core option" where
  "ooo_advance_to targetCycle c = (if targetCycle > o_curCycle c then ooo_advance targetCycle c else Some c)"

definition ooo_join :: "'e core_env \<Rightarrow> nat \<Rightarrow> nat \<Rightarrow> 'e ooo_core \<Rightarrow> 'e ooo_core option" where
  "ooo_join env globPhaseCycles phaseLength c = do {
     (e, targetCycle) \<leftarrow> ce_notifyJoin env (o_curCycle c) (o_env c);
     c \<leftarrow> ooo_advance_to targetCycle (c\<lparr>o_env := e\<rparr>);
     Some (c\<lparr>o_phaseEndCycle := globPhaseCycles + phaseLength\<rparr>) }"

definition ooo_leave :: "'e core_env \<Rightarrow> 'e ooo_core \<Rightarrow> 'e ooo_core option" where
  "ooo_leave env c = do { e \<leftarrow> ce_notifyLeave env (o_curCycle c) (o_env c); Some (c\<lparr>o_env := e\<rparr>) }"

definition ooo_cSim :: "(nat \<Rightarrow> 'e \<Rightarrow> ('e \<times> nat) option) \<Rightarrow> 'e ooo_core \<Rightarrow> 'e ooo_core option" where
  "ooo_cSim notify c = do {
     (e, targetCycle) \<leftarrow> notify (o_curCycle c) (o_env c);
     assert_that (targetCycle \<ge> o_curCycle c);
     ooo_advance_to targetCycle (c\<lparr>o_env := e\<rparr>) }"

definition ooo_cSimStart :: "'e core_env \<Rightarrow> 'e ooo_core \<Rightarrow> 'e ooo_core option" where
  "ooo_cSimStart env = ooo_cSim (ce_cSimStart env)"

definition ooo_cSimEnd :: "'e core_env \<Rightarrow> 'e ooo_core \<Rightarrow> 'e ooo_core option" where
  "ooo_cSimEnd env = ooo_cSim (ce_cSimEnd env)"

definition ooo_predLoad :: "Address \<Rightarrow> bool \<Rightarrow> 'e ooo_core \<Rightarrow> 'e ooo_core option" where
  "ooo_predLoad addr pred c = (if pred then ooo_load addr c else ooo_predFalseMemOp c)"

definition ooo_predStore :: "Address \<Rightarrow> bool \<Rightarrow> 'e ooo_core \<Rightarrow> 'e ooo_core option" where
  "ooo_predStore addr pred c = (if pred then ooo_store addr c else ooo_predFalseMemOp c)"

section \<open>The window within a horizon\<close>

text \<open>The window holds nothing from cycle \<open>X\<close> on.\<close>

definition win_ok :: "nat \<Rightarrow> window \<Rightarrow> nat \<Rightarrow> bool" where
  "win_ok X w cur \<longleftrightarrow> wn_inv 1024 w cur \<and> wn_occupancy w \<le> 36 \<and> wn_lastPort w < 8 \<and> cur \<le> X \<and> (\<forall>i. X \<le> i \<longrightarrow> wc_at 1024 w cur i = wc_empty)"

lemma win_ok_mono: "win_ok X w cur \<Longrightarrow> X \<le> Y \<Longrightarrow> win_ok Y w cur"
  unfolding win_ok_def by (meson le_trans)

lemma win_advance:
  assumes "win_ok X w cur"
  shows "\<exists>w'. wn_advancePos 1024 w cur = Some (w', cur + 1) \<and> win_ok (max X (cur + 1)) w' (cur + 1)"
proof -
  have i: "wn_inv 1024 w cur" using assms by (simp add: win_ok_def)
  obtain w' where w': "wn_advancePos 1024 w cur = Some (w', cur + 1)" "wn_inv 1024 w' (cur + 1)" "wn_occupancy w' = wn_occupancy w - wc_count (wc_at 1024 w cur cur)"
      "\<forall>c > cur. wc_at 1024 w' (cur + 1) c = wc_at 1024 w cur c" "wn_lastPort w' = wn_lastPort w"
    using wn_advance_ok [OF i] by auto
  then show ?thesis using assms by (auto simp: win_ok_def)
qed

lemma wn_wait_bound:
  assumes H: "H \<le> 2 ^ 32" and W: "0 < WSZ"
  shows "wn_wait H WSZ w cur = Some (w', c') \<Longrightarrow> wn_inv H w cur \<Longrightarrow> \<forall>i. X \<le> i \<and> cur \<le> i \<longrightarrow> wc_at H w cur i = wc_empty \<Longrightarrow>
    c' \<le> max cur X \<and> wn_lastPort w' = wn_lastPort w"
proof (induction "X - cur" arbitrary: w cur rule: less_induct)
  case less
  show ?case
  proof (cases "wn_occupancy w = WSZ")
    case False
    then show ?thesis using less.prems(1) by (simp add: wn_wait.simps [of H WSZ w cur])
  next
    case True
    then obtain c where c: "cur \<le> c" "0 < wc_count (wc_at H w cur c)" using wn_total_pos [of H w cur] less.prems(2) W by (auto simp: wn_inv_def)
    have "c < X"
    proof (rule ccontr)
      assume "\<not> c < X"
      then have "wc_at H w cur c = wc_empty" using less.prems(3) c(1) by simp
      then show False using c(2) by (simp add: wc_empty_def)
    qed
    then have lt: "X - (cur + 1) < X - cur" "cur < X" using c(1) by simp_all
    obtain w1 where w1: "wn_advancePos H w cur = Some (w1, cur + 1)" "wn_inv H w1 (cur + 1)" "\<forall>c > cur. wc_at H w1 (cur + 1) c = wc_at H w cur c"
        "wn_lastPort w1 = wn_lastPort w" using wn_advance_ok [OF less.prems(2) H] by blast
    have "wn_wait H WSZ w1 (cur + 1) = Some (w', c')" using less.prems(1) True w1(1) by (simp add: wn_wait.simps [of H WSZ w cur])
    moreover have "\<forall>i. X \<le> i \<and> cur + 1 \<le> i \<longrightarrow> wc_at H w1 (cur + 1) i = wc_empty" using w1(3) less.prems(3) by simp
    ultimately have "c' \<le> max (cur + 1) X \<and> wn_lastPort w' = wn_lastPort w1" using less.hyps [OF lt(1) _ w1(2)] by blast
    then show ?thesis using lt(2) w1(4) by simp
  qed
qed

lemma wn_try_port: "wn_try t r m wc lp = (wc', lp', ok) \<Longrightarrow> lp < 8 \<Longrightarrow> lp' < 8"
  using ctz_props(1) [of "NOT (wc_occUnits wc) AND m"] by (auto simp: wn_try_def Let_def split: if_splits)

lemma wn_scan_port: "wn_scan t r m win lp pos n = (win', lp', res) \<Longrightarrow> lp < 8 \<Longrightarrow> lp' < 8"
proof (induction n arbitrary: win lp pos)
  case (Suc n)
  obtain wc l ok where t: "wn_try t r m (win ! pos) lp = (wc, l, ok)" by (metis prod_cases3)
  have "l < 8" by (rule wn_try_port [OF t Suc.prems(2)])
  then show ?case using Suc t by (auto split: if_splits bool.splits)
qed simp

lemma ub_scan_port: "ub_scan t r m lp c ub = Some (ub', lp', c') \<Longrightarrow> lp < 8 \<Longrightarrow> lp' < 8"
proof (induction ub arbitrary: lp c ub')
  case Nil
  then show ?case by (auto simp: bind_eq_Some_conv Let_def dest: wn_try_port split: prod.splits)
next
  case (Cons x ub)
  obtain k w where x: "x = (k, w)" by (cases x)
  show ?case
  proof (cases "k = c")
    case False
    then show ?thesis using Cons.prems by (auto simp: x bind_eq_Some_conv Let_def dest: wn_try_port split: prod.splits)
  next
    case True
    obtain wc l ok where t: "wn_try t r m w lp = (wc, l, ok)" by (metis prod_cases3)
    have l: "l < 8" by (rule wn_try_port [OF t Cons.prems(2)])
    show ?thesis using Cons.prems True t l Cons.IH by (cases ok) (auto simp: x bind_eq_Some_conv)
  qed
qed

lemma wn_place_port:
  assumes "wn_place H t r w cur sched m = Some (w', c)" "wn_lastPort w < 8"
  shows "wn_lastPort w' < 8"
proof -
  define p where "p = (wn_curPos w + (if sched > cur then (sched - cur) mod 2 ^ 32 else 0)) mod 2 ^ 32"
  define n where "n = (if p < H then 0 else p - H)"
  obtain win lp res where s1: "wn_scan t r m (wn_curWin w) (wn_lastPort w) p (H - p) = (win, lp, res)" by (metis prod_cases3)
  have lp: "lp < 8" by (rule wn_scan_port [OF s1 assms(2)])
  obtain win2 lp2 res2 where s2: "wn_scan t r m (wn_nextWin w) lp n (H - n) = (win2, lp2, res2)" by (metis prod_cases3)
  have lp2: "lp2 < 8" by (rule wn_scan_port [OF s2 lp])
  show ?thesis
  proof (cases res)
    case (Some q)
    then show ?thesis using assms(1) lp unfolding wn_place_def Let_def p_def [symmetric] s1 by auto
  next
    case None
    then show ?thesis using assms(1) s2 lp2 unfolding wn_place_def Let_def p_def [symmetric] s1
      by (cases res2) (auto simp: n_def [symmetric] bind_eq_Some_conv dest!: ub_scan_port)
  qed
qed

text \<open>Placing within the horizon \<open>Y\<close>.\<close>

lemma win_place:
  assumes w: "wn_shape 1024 w cur" "wn_lastPort w < 8" "cur \<le> X" "\<forall>i. X \<le> i \<longrightarrow> wc_at 1024 w cur i = wc_empty"
    and m: "m \<noteq> 0" and Y: "X \<le> Y" "sched \<le> Y" "Y + 1024 \<le> cur + 2 ^ 32"
  shows "\<exists>w' c. wn_place 1024 t r w cur sched m = Some (w', c) \<and> max cur sched \<le> c \<and> c \<le> Y \<and> wn_shape 1024 w' cur \<and> wn_lastPort w' < 8 \<and>
    wn_total w' = wn_total w + of_bool t \<and> wn_occupancy w' = wn_occupancy w \<and> (\<forall>i. Suc Y \<le> i \<longrightarrow> wc_at 1024 w' cur i = wc_empty)"
proof -
  have b: "sched + 1024 \<le> cur + 2 ^ 32" using Y by simp
  have H: "2 * (1024 :: nat) \<le> 2 ^ 32" by simp
  obtain w' c where p: "wn_place 1024 t r w cur sched m = Some (w', c)" "max cur sched \<le> c"
      "\<forall>i. max cur sched \<le> i \<and> i < c \<longrightarrow> \<not> wc_free m (wc_at 1024 w cur i)" "wn_shape 1024 w' cur"
      "\<forall>i \<ge> cur. wc_at 1024 w' cur i = (if i = c then wn_take t m (wc_at 1024 w cur c) else wc_at 1024 w cur i)"
      "wn_total w' = wn_total w + of_bool t" "wn_occupancy w' = wn_occupancy w"
    using wn_place_ok [OF w(1) m b H, of t r] by (elim exE conjE) (rule that)
  have c: "c \<le> Y"
  proof (rule ccontr)
    assume "\<not> c \<le> Y"
    then have y: "max cur sched \<le> Y" "Y < c" using Y w(3) by simp_all
    then have "\<not> wc_free m (wc_at 1024 w cur Y)" using p(3) by blast
    then show False using w(4) Y(1) empty_free [OF m] by simp
  qed
  have "wc_at 1024 w' cur i = wc_empty" if "Suc Y \<le> i" for i
  proof -
    have "cur \<le> i" "i \<noteq> c" "X \<le> i" using that c Y(1) w(3) by simp_all
    then show ?thesis using p(5) w(4) by simp
  qed
  then show ?thesis using p c wn_place_port [OF p(1) w(2)] by blast
qed

lemma win_extra:
  assumes "win_ok Y w cur" "sched \<le> Y" "Y + n + 1024 \<le> cur + 2 ^ 32" "m \<noteq> 0"
  shows "\<exists>w'. wn_extra 1024 36 n w cur sched m = Some (w', cur) \<and> win_ok (Y + n) w' cur \<and> wn_occupancy w' = wn_occupancy w"
  using assms(1-3)
proof (induction n arbitrary: w sched Y)
  case (Suc n)
  have w: "wn_shape 1024 w cur" "wn_lastPort w < 8" "cur \<le> Y" "\<forall>i. Y \<le> i \<longrightarrow> wc_at 1024 w cur i = wc_empty" "wn_occupancy w = wn_total w" "wn_occupancy w \<le> 36"
    using Suc.prems(1) by (simp_all add: win_ok_def wn_inv_def)
  have b: "Y + 1024 \<le> cur + 2 ^ 32" using Suc.prems(3) by simp
  obtain w1 c where p: "wn_place 1024 False False w cur sched m = Some (w1, c)" "c \<le> Y" "wn_shape 1024 w1 cur" "wn_lastPort w1 < 8"
      "wn_total w1 = wn_total w + of_bool False" "wn_occupancy w1 = wn_occupancy w" "\<forall>i. Suc Y \<le> i \<longrightarrow> wc_at 1024 w1 cur i = wc_empty"
    using win_place [OF w(1-4) assms(4) le_refl Suc.prems(2) b, of False False] by (elim exE conjE) (rule that)
  have w1: "win_ok (Suc Y) w1 cur" using p w by (simp add: win_ok_def wn_inv_def)
  have "c + 1 \<le> Suc Y" "Suc Y + n + 1024 \<le> cur + 2 ^ 32" using p(2) Suc.prems(3) by simp_all
  then obtain w' where "wn_extra 1024 36 n w1 cur (c + 1) m = Some (w', cur)" "win_ok (Suc Y + n) w' cur" "wn_occupancy w' = wn_occupancy w1"
    using Suc.IH [OF w1] by blast
  then show ?case using p(1,6) by (simp add: wn_scheduleInternal_def)
qed simp

lemma push_bit_port: "n < 8 \<Longrightarrow> push_bit n (1 :: u8) \<noteq> 0"
proof
  assume "n < 8" "push_bit n (1 :: u8) = 0"
  then have "\<not> bit (push_bit n (1 :: u8)) n" by simp
  then show False using \<open>n < 8\<close> by (simp add: bit_simps)
qed

lemma win_schedule:
  assumes "win_ok X w cur" "X \<le> Y" "sched \<le> Y" "Y + ex + 1025 \<le> cur + 2 ^ 32" "m \<noteq> 0"
  shows "\<exists>w' cur' d. wn_schedule 1024 36 w cur sched m ex = Some (w', cur', d) \<and> cur \<le> cur' \<and> max cur' sched \<le> d \<and> d \<le> Y \<and> win_ok (Y + 1 + ex) w' cur'"
proof -
  have w: "wn_inv 1024 w cur" "wn_occupancy w \<le> 36" "wn_lastPort w < 8" "cur \<le> X" "\<forall>i. X \<le> i \<longrightarrow> wc_at 1024 w cur i = wc_empty"
    using assms(1) by (simp_all add: win_ok_def)
  have H: "(1024 :: nat) \<le> 2 ^ 32" "(0 :: nat) < 36" by simp_all
  obtain w1 cur' where w1: "wn_wait 1024 36 w cur = Some (w1, cur')" "cur \<le> cur'" "wn_inv 1024 w1 cur'" "wn_occupancy w1 < 36"
      "\<forall>c \<ge> cur'. wc_at 1024 w1 cur' c = wc_at 1024 w cur c"
    using wn_wait_ok [OF H w(1,2)] by (elim exE conjE) (rule that)
  have c: "cur' \<le> X" "wn_lastPort w1 < 8" using wn_wait_bound [OF H w1(1) w(1), of X] w(3-5) by simp_all
  have sh: "wn_shape 1024 w1 cur'" "wn_occupancy w1 = wn_total w1" using w1(3) by (simp_all add: wn_inv_def)
  have em: "\<forall>i. X \<le> i \<longrightarrow> wc_at 1024 w1 cur' i = wc_empty" using w1(5) w(5) c(1) by simp
  have b: "Y + 1024 \<le> cur' + 2 ^ 32" using assms(4) w1(2) by simp
  obtain w2 d where p: "wn_place 1024 True (ex \<noteq> 0) w1 cur' sched m = Some (w2, d)" "max cur' sched \<le> d" "d \<le> Y" "wn_shape 1024 w2 cur'" "wn_lastPort w2 < 8"
      "wn_total w2 = wn_total w1 + of_bool True" "wn_occupancy w2 = wn_occupancy w1" "\<forall>i. Suc Y \<le> i \<longrightarrow> wc_at 1024 w2 cur' i = wc_empty"
    using win_place [OF sh(1) c(2,1) em assms(5,2,3) b, of True "ex \<noteq> 0"] by (elim exE conjE) (rule that)
  let ?w = "w2\<lparr>wn_occupancy := wn_occupancy w2 + 1\<rparr>"
  have k: "win_ok (Suc Y) ?w cur'" using p sh(2) w1(4) c(1) assms(2) by (simp add: win_ok_def wn_inv_def)
  have e: "d + 1 \<le> Suc Y" "Suc Y + ex + 1024 \<le> cur' + 2 ^ 32" using p(3) assms(4) w1(2) by simp_all
  obtain w3 where w3: "wn_extra 1024 36 ex ?w cur' (d + 1) (push_bit (wn_lastPort ?w) 1) = Some (w3, cur')" "win_ok (Suc Y + ex) w3 cur'" "wn_occupancy w3 = wn_occupancy ?w"
    using win_extra [OF k e push_bit_port] p(5) by auto
  have "wn_schedule 1024 36 w cur sched m ex = Some (w3, cur', d)"
    using w1(1,4) p(1,7) w3(1,3) by (simp add: wn_schedule_def wn_scheduleInternal_def)
  then show ?thesis using w1(2) p(2,3) w3(2) by simp
qed

section \<open>The queues within a horizon\<close>

definition q_ok :: "nat \<Rightarrow> nat \<Rightarrow> rob \<Rightarrow> bool" where
  "q_ok SZ X r \<longleftrightarrow> length (rob_buf r) = SZ \<and> rob_idx r < SZ \<and> rob_curRetireCycle r \<le> X \<and> (\<forall>c\<in>set (rob_buf r). c \<le> X)"

definition cq_ok :: "nat \<Rightarrow> nat \<Rightarrow> cycle_queue \<Rightarrow> bool" where
  "cq_ok SZ X q \<longleftrightarrow> length (cq_buf q) = SZ \<and> cq_idx q < SZ \<and> (\<forall>c\<in>set (cq_buf q). c \<le> X)"

lemma all_mem_update: "\<forall>y\<in>set xs. P y \<Longrightarrow> P x \<Longrightarrow> \<forall>y\<in>set (xs[i := x]). P y"
  using set_update_subset_insert [of xs i x] by blast

lemma all_mem_le: "\<forall>c\<in>set xs. c \<le> X \<Longrightarrow> X \<le> (Y :: nat) \<Longrightarrow> \<forall>c\<in>set xs. c \<le> Y"
  by (meson le_trans)

lemma q_ok_mono: "q_ok SZ X r \<Longrightarrow> X \<le> Y \<Longrightarrow> q_ok SZ Y r"
  unfolding q_ok_def using all_mem_le by (metis le_trans)

lemma cq_ok_mono: "cq_ok SZ X q \<Longrightarrow> X \<le> Y \<Longrightarrow> cq_ok SZ Y q"
  unfolding cq_ok_def using all_mem_le by metis

lemma q_min: "q_ok SZ X r \<Longrightarrow> \<exists>m. rob_minAllocCycle r = Some m \<and> m \<le> X"
  by (auto simp: q_ok_def rob_minAllocCycle_def)

lemma cq_min: "cq_ok SZ X q \<Longrightarrow> \<exists>m. cq_minAllocCycle q = Some m \<and> m \<le> X"
  by (auto simp: cq_ok_def cq_minAllocCycle_def)

lemma cq_leave: "cq_ok SZ X q \<Longrightarrow> c \<le> X \<Longrightarrow> \<exists>q'. cq_markLeave SZ q c = Some q' \<and> cq_ok SZ X q'"
  by (auto simp: cq_ok_def cq_markLeave_def intro: all_mem_update dest: all_mem_update [of "cq_buf q" "\<lambda>c. c \<le> X" c "cq_idx q"])

lemma q_retire:
  assumes "q_ok SZ X r" "X \<le> Y" "c \<le> Y"
  shows "\<exists>r'. rob_markRetire SZ W r c = Some r' \<and> q_ok SZ (Suc Y) r'"
proof -
  define r1 where "r1 = (if c \<le> rob_curRetireCycle r then
      if rob_curCycleRetires r = W then r\<lparr>rob_curRetireCycle := rob_curRetireCycle r + 1, rob_curCycleRetires := 0\<rparr>
      else r\<lparr>rob_curCycleRetires := rob_curCycleRetires r + 1\<rparr>
    else r\<lparr>rob_curRetireCycle := c, rob_curCycleRetires := 1\<rparr>)"
  have r1: "length (rob_buf r1) = SZ" "rob_idx r1 < SZ" "rob_curRetireCycle r1 \<le> Suc Y" "rob_buf r1 = rob_buf r"
    using assms by (auto simp: r1_def q_ok_def)
  have "\<forall>x\<in>set (rob_buf r1). x \<le> Suc Y" unfolding r1(4) by (rule all_mem_le [of _ X]) (use assms in \<open>simp_all add: q_ok_def\<close>)
  then have "\<forall>x\<in>set ((rob_buf r1)[rob_idx r1 := rob_curRetireCycle r1]). x \<le> Suc Y" using r1(3) by (rule all_mem_update)
  then have "q_ok SZ (Suc Y) (r1\<lparr>rob_buf := (rob_buf r1)[rob_idx r1 := rob_curRetireCycle r1], rob_idx := if rob_idx r1 + 1 = SZ then 0 else rob_idx r1 + 1\<rparr>)"
    using r1 by (simp add: q_ok_def)
  moreover have "rob_markRetire SZ W r c = Some (r1\<lparr>rob_buf := (rob_buf r1)[rob_idx r1 := rob_curRetireCycle r1], rob_idx := if rob_idx r1 + 1 = SZ then 0 else rob_idx r1 + 1\<rparr>)"
    unfolding rob_markRetire_def Let_def r1_def [symmetric] using r1(1,2) by simp
  ultimately show ?thesis by blast
qed

section \<open>The core within a horizon\<close>

text \<open>Everything that the core holds is at most \<open>X\<close>, and the structures are in order.\<close>

definition ooo_ok :: "nat \<Rightarrow> 'e ooo_core \<Rightarrow> bool" where
  "ooo_ok X c \<longleftrightarrow> win_ok X (o_insWindow c) (o_curCycle c) \<and> q_ok 32 X (o_loadQueue c) \<and> q_ok 32 X (o_storeQueue c) \<and> q_ok 128 X (o_rob c) \<and>
     cq_ok 28 X (o_uopQueue c) \<and> 0 < length (o_regScoreboard c) \<and> (\<forall>x\<in>set (o_regScoreboard c). x \<le> X) \<and>
     o_lastStoreCommitCycle c \<le> X \<and> o_lastStoreAddrCommitCycle c \<le> X \<and> DECODE_STAGE \<le> o_decodeCycle c \<and> o_decodeCycle c \<le> X \<and>
     length (o_fwdArray c) = FWD_ENTRIES \<and> (\<forall>x\<in>set (o_fwdArray c). snd x \<le> X) \<and> bp_inv 11 18 14 (o_branchPred c) \<and>
     length (o_loadAddrs c) = 256 \<and> length (o_storeAddrs c) = 256 \<and> o_curCycleIssuedUops c \<le> ISSUES_PER_CYCLE \<and> o_curCycleRFReads c \<le> RF_READS_PER_CYCLE"

text \<open>What the steps of a micro-operation keep of the core besides.\<close>

definition ooo_same :: "'e ooo_core \<Rightarrow> 'e ooo_core \<Rightarrow> bool" where
  "ooo_same c c' \<longleftrightarrow> o_phaseEndCycle c' = o_phaseEndCycle c \<and> o_prevBbl c' = o_prevBbl c \<and> o_loadAddrs c' = o_loadAddrs c \<and> o_storeAddrs c' = o_storeAddrs c \<and>
     o_loads c' = o_loads c \<and> o_stores c' = o_stores c \<and> length (o_regScoreboard c') = length (o_regScoreboard c) \<and>
     o_branchPc c' = o_branchPc c \<and> o_branchTaken c' = o_branchTaken c \<and> o_branchTakenNpc c' = o_branchTakenNpc c \<and>
     o_branchNotTakenNpc c' = o_branchNotTakenNpc c \<and> o_branchPred c' = o_branchPred c \<and> o_instrs c' = o_instrs c \<and> o_uops c' = o_uops c \<and> o_bbls c' = o_bbls c \<and>
     o_approxInstrs c' = o_approxInstrs c \<and> o_mispredBranches c' = o_mispredBranches c"

lemma ooo_same_refl [simp]: "ooo_same c c" by (simp add: ooo_same_def)

lemma ooo_same_trans [trans]: "ooo_same a b \<Longrightarrow> ooo_same b c \<Longrightarrow> ooo_same a c" by (simp add: ooo_same_def)

lemma ooo_ok_mono:
  assumes "ooo_ok X c" "X \<le> Y"
  shows "ooo_ok Y c"
proof -
  note I = assms(1) [unfolded ooo_ok_def]
  have "\<forall>x\<in>set (o_fwdArray c). snd x \<le> Y" using I assms(2) by (meson le_trans)
  moreover have "\<forall>x\<in>set (o_regScoreboard c). x \<le> Y" using I assms(2) by (meson le_trans)
  moreover have "win_ok Y (o_insWindow c) (o_curCycle c)" using I win_ok_mono [OF _ assms(2)] by blast
  moreover have "q_ok 32 Y (o_loadQueue c)" "q_ok 32 Y (o_storeQueue c)" "q_ok 128 Y (o_rob c)" using I q_ok_mono [OF _ assms(2)] by blast+
  moreover have "cq_ok 28 Y (o_uopQueue c)" using I cq_ok_mono [OF _ assms(2)] by blast
  ultimately show ?thesis using I assms(2) unfolding ooo_ok_def by simp
qed

text \<open>What the front part of a micro-operation leaves alone: everything but the window, the cycle and the counters of the cycle.\<close>

definition ooo_front :: "'e ooo_core \<Rightarrow> 'e ooo_core \<Rightarrow> bool" where
  "ooo_front c c' \<longleftrightarrow> ooo_same c c' \<and> o_env c' = o_env c \<and> o_loadQueue c' = o_loadQueue c \<and> o_storeQueue c' = o_storeQueue c \<and> o_rob c' = o_rob c \<and>
     o_lastStoreCommitCycle c' = o_lastStoreCommitCycle c \<and> o_lastStoreAddrCommitCycle c' = o_lastStoreAddrCommitCycle c \<and> o_fwdArray c' = o_fwdArray c \<and>
     o_curCycle c \<le> o_curCycle c'"

lemma ooo_front_trans [trans]: "ooo_front a b \<Longrightarrow> ooo_front b c \<Longrightarrow> ooo_front a c" by (simp add: ooo_front_def ooo_same_def)

lemma ooo_front_refl [simp]: "ooo_front c c" by (simp add: ooo_front_def)

lemma ooo_advancePos_ok:
  assumes "ooo_ok X c"
  shows "\<exists>c'. ooo_advancePos c = Some c' \<and> ooo_ok (max X (o_curCycle c + 1)) c' \<and> ooo_front c c' \<and> o_curCycle c' = o_curCycle c + 1 \<and>
    o_regScoreboard c' = o_regScoreboard c \<and> o_curCycleIssuedUops c' = o_curCycleIssuedUops c \<and> o_curCycleRFReads c' = o_curCycleRFReads c \<and>
    o_decodeCycle c' = o_decodeCycle c \<and> o_uopQueue c' = o_uopQueue c"
proof -
  let ?Y = "max X (o_curCycle c + 1)"
  obtain w where w: "wn_advancePos 1024 (o_insWindow c) (o_curCycle c) = Some (w, o_curCycle c + 1)" "win_ok ?Y w (o_curCycle c + 1)"
    using win_advance [of X "o_insWindow c" "o_curCycle c"] assms by (auto simp: ooo_ok_def)
  have "ooo_ok ?Y c" by (rule ooo_ok_mono [OF assms]) simp
  then have "ooo_ok ?Y (c\<lparr>o_insWindow := w, o_curCycle := o_curCycle c + 1\<rparr>)" using w(2) by (simp add: ooo_ok_def)
  then show ?thesis using w(1) by (simp add: ooo_advancePos_def ooo_front_def ooo_same_def)
qed

lemma ooo_advances_ok:
  "ooo_ok X c \<Longrightarrow> \<exists>c'. ooo_advances n c = Some c' \<and> ooo_ok (max X (o_curCycle c + n)) c' \<and> ooo_front c c' \<and> o_curCycle c' = o_curCycle c + n \<and>
    o_regScoreboard c' = o_regScoreboard c \<and> o_curCycleIssuedUops c' = o_curCycleIssuedUops c \<and> o_curCycleRFReads c' = o_curCycleRFReads c \<and>
    o_decodeCycle c' = o_decodeCycle c \<and> o_uopQueue c' = o_uopQueue c"
proof (induction n arbitrary: c X)
  case 0
  then show ?case using ooo_ok_mono [OF 0, of "max X (o_curCycle c)"] by simp
next
  case (Suc n)
  obtain c1 where c1: "ooo_advancePos c = Some c1" "ooo_ok (max X (o_curCycle c + 1)) c1" "ooo_front c c1" "o_curCycle c1 = o_curCycle c + 1"
      "o_regScoreboard c1 = o_regScoreboard c" "o_curCycleIssuedUops c1 = o_curCycleIssuedUops c" "o_curCycleRFReads c1 = o_curCycleRFReads c"
      "o_decodeCycle c1 = o_decodeCycle c" "o_uopQueue c1 = o_uopQueue c"
    using ooo_advancePos_ok [OF Suc.prems] by (elim exE conjE) (rule that)
  obtain c2 where c2: "ooo_advances n c1 = Some c2" "ooo_ok (max (max X (o_curCycle c + 1)) (o_curCycle c1 + n)) c2" "ooo_front c1 c2" "o_curCycle c2 = o_curCycle c1 + n"
      "o_regScoreboard c2 = o_regScoreboard c1" "o_curCycleIssuedUops c2 = o_curCycleIssuedUops c1" "o_curCycleRFReads c2 = o_curCycleRFReads c1"
      "o_decodeCycle c2 = o_decodeCycle c1" "o_uopQueue c2 = o_uopQueue c1"
    using Suc.IH [OF c1(2)] by (elim exE conjE) (rule that)
  have "max (max X (o_curCycle c + 1)) (o_curCycle c1 + n) = max X (o_curCycle c + Suc n)" using c1(4) by simp
  then show ?case using c1 c2 ooo_front_trans [OF c1(3) c2(3)] by simp
qed

section \<open>The stages of a micro-operation\<close>

lemma ooo_okD:
  assumes "ooo_ok X c"
  shows "win_ok X (o_insWindow c) (o_curCycle c)" "q_ok 32 X (o_loadQueue c)" "q_ok 32 X (o_storeQueue c)" "q_ok 128 X (o_rob c)" "cq_ok 28 X (o_uopQueue c)"
    "0 < length (o_regScoreboard c)" "\<forall>x\<in>set (o_regScoreboard c). x \<le> X" "o_lastStoreCommitCycle c \<le> X" "o_lastStoreAddrCommitCycle c \<le> X"
    "DECODE_STAGE \<le> o_decodeCycle c" "o_decodeCycle c \<le> X" "o_curCycle c \<le> X"
  using assms by (simp_all add: ooo_ok_def win_ok_def)

lemma diff_bound: "a \<le> b \<Longrightarrow> b < c + n \<Longrightarrow> 0 < n \<Longrightarrow> a - c < (n :: nat)"
  by linarith

lemma ooo_decode_ok:
  assumes ok: "ooo_ok X c" and dec: "prev \<le> u_decCycle u" "u_decCycle u - prev \<le> D" and far: "X + D < o_curCycle c + 2 ^ 32" "D < 2 ^ 32"
  shows "\<exists>c'. ooo_decode u prev c = Some c' \<and> ooo_ok (X + D) c' \<and> ooo_front c c'"
proof -
  note I = ooo_okD [OF ok]
  have dd: "nat ((int (u_decCycle u) - int prev) mod 2 ^ 32) = u_decCycle u - prev"
  proof -
    have e: "int (u_decCycle u) - int prev = int (u_decCycle u - prev)" using dec(1) by simp
    have m: "int (u_decCycle u - prev) mod 2 ^ 32 = int (u_decCycle u - prev)" using dec(2) far(2) by (intro mod_pos_pos_trivial) simp_all
    show ?thesis unfolding e m by (rule nat_int)
  qed
  obtain m where m: "cq_minAllocCycle (o_uopQueue c) = Some m" "m \<le> X" using cq_min [OF I(5)] by blast
  let ?d = "max (o_decodeCycle c + (u_decCycle u - prev)) m" let ?c = "c\<lparr>o_decodeCycle := ?d\<rparr>"
  have d: "?d \<le> X + D" "DECODE_STAGE \<le> ?d" using I(10,11) m(2) dec(2) by simp_all
  have okc: "ooo_ok (X + D) (?c\<lparr>o_curCycleIssuedUops := i, o_curCycleRFReads := r\<rparr>)" if "i \<le> ISSUES_PER_CYCLE" "r \<le> RF_READS_PER_CYCLE" for i r
    using ooo_ok_mono [OF ok, of "X + D"] d that by (simp add: ooo_ok_def)
  have "\<exists>c1. (if ?d > o_curCycle c then ooo_advances ((?d - o_curCycle c) mod 2 ^ 32) (?c\<lparr>o_curCycleIssuedUops := 0, o_curCycleRFReads := 0\<rparr>) else Some ?c) = Some c1 \<and>
      ooo_ok (X + D) c1 \<and> ooo_front c c1 \<and> o_uopQueue c1 = o_uopQueue c"
  proof (cases "?d > o_curCycle c")
    case True
    let ?n = "(?d - o_curCycle c) mod 2 ^ 32"
    have n: "?n = ?d - o_curCycle c" by (rule mod_less [OF diff_bound [OF d(1) far(1)]]) simp
    have 0: "ooo_ok (X + D) (?c\<lparr>o_curCycleIssuedUops := 0, o_curCycleRFReads := 0\<rparr>)" by (rule okc) simp_all
    obtain c1 where "ooo_advances ?n (?c\<lparr>o_curCycleIssuedUops := 0, o_curCycleRFReads := 0\<rparr>) = Some c1"
        "ooo_ok (max (X + D) (o_curCycle (?c\<lparr>o_curCycleIssuedUops := 0, o_curCycleRFReads := 0\<rparr>) + ?n)) c1"
        "ooo_front (?c\<lparr>o_curCycleIssuedUops := 0, o_curCycleRFReads := 0\<rparr>) c1"
        "o_uopQueue c1 = o_uopQueue (?c\<lparr>o_curCycleIssuedUops := 0, o_curCycleRFReads := 0\<rparr>)"
      using ooo_advances_ok [OF 0, of ?n] by (elim exE conjE) (rule that)
    moreover have "max (X + D) (o_curCycle c + ?n) = X + D" unfolding n using d(1) True by simp
    ultimately show ?thesis using True by (simp add: ooo_front_def ooo_same_def)
  next
    case False
    have "ooo_ok (X + D) ?c" using ooo_ok_mono [OF ok, of "X + D"] d by (simp add: ooo_ok_def)
    then show ?thesis unfolding if_not_P [OF False] by (intro exI [of _ ?c] conjI) (simp_all add: ooo_front_def ooo_same_def)
  qed
  then obtain c1 where c1: "(if ?d > o_curCycle c then ooo_advances ((?d - o_curCycle c) mod 2 ^ 32) (?c\<lparr>o_curCycleIssuedUops := 0, o_curCycleRFReads := 0\<rparr>) else Some ?c) = Some c1"
      "ooo_ok (X + D) c1" "ooo_front c c1" by blast
  obtain q where q: "cq_markLeave 28 (o_uopQueue c1) (o_curCycle c1) = Some q" "cq_ok 28 (X + D) q" using cq_leave [OF ooo_okD(5,12) [OF c1(2)]] by blast
  have "ooo_decode u prev c = (if ?d > o_curCycle c then ooo_advances ((?d - o_curCycle c) mod 2 ^ 32) (?c\<lparr>o_curCycleIssuedUops := 0, o_curCycleRFReads := 0\<rparr>) else Some ?c) \<bind>
      (\<lambda>c. cq_markLeave 28 (o_uopQueue c) (o_curCycle c) \<bind> (\<lambda>q. Some (c\<lparr>o_uopQueue := q\<rparr>)))"
    using m(1) unfolding ooo_decode_def dd Let_def by simp
  then have "ooo_decode u prev c = Some (c1\<lparr>o_uopQueue := q\<rparr>)" by (simp only: c1(1) q(1) Option.bind.simps)
  moreover have "ooo_ok (X + D) (c1\<lparr>o_uopQueue := q\<rparr>)" using c1(2) q(2) by (simp add: ooo_ok_def)
  moreover have "ooo_front c (c1\<lparr>o_uopQueue := q\<rparr>)" using c1(3) by (simp add: ooo_front_def ooo_same_def)
  ultimately show ?thesis by blast
qed

lemma ooo_issue_ok:
  assumes ok: "ooo_ok X c"
  shows "\<exists>c'. ooo_issue c = Some c' \<and> ooo_ok (X + 1) c' \<and> ooo_front c c'"
proof (cases "o_curCycleIssuedUops c \<ge> ISSUES_PER_CYCLE")
  case True
  let ?c = "c\<lparr>o_curCycleIssuedUops := 0, o_curCycleRFReads := 0\<rparr>"
  have "ooo_ok X ?c" using ok by (simp add: ooo_ok_def)
  from ooo_advancePos_ok [OF this] obtain c1 where c1: "ooo_advancePos ?c = Some c1" "ooo_ok (max X (o_curCycle ?c + 1)) c1" "ooo_front ?c c1" "o_curCycleIssuedUops c1 = o_curCycleIssuedUops ?c"
    by (elim exE conjE) (rule that)
  have "ooo_ok (X + 1) c1" using ooo_ok_mono [OF c1(2), of "X + 1"] ooo_okD(12) [OF ok] by simp
  then have "ooo_ok (X + 1) (c1\<lparr>o_curCycleIssuedUops := o_curCycleIssuedUops c1 + 1\<rparr>)" using c1(4) by (simp add: ooo_ok_def ISSUES_PER_CYCLE_def)
  then show ?thesis using True c1(1,3) by (simp add: ooo_issue_def ooo_front_def ooo_same_def)
next
  case False
  have "ooo_ok (X + 1) c" by (rule ooo_ok_mono [OF ok]) simp
  then have "ooo_ok (X + 1) (c\<lparr>o_curCycleIssuedUops := o_curCycleIssuedUops c + 1\<rparr>)" using False by (simp add: ooo_ok_def)
  then show ?thesis using False by (simp add: ooo_issue_def ooo_front_def ooo_same_def)
qed

lemma ooo_sources_ok:
  assumes ok: "ooo_ok X c" and rs: "u_rs0 u < length (o_regScoreboard c)" "u_rs1 u < length (o_regScoreboard c)"
  shows "\<exists>c0 c1 c'. ooo_sources u c = Some (c0, c1, c') \<and> c0 \<le> X \<and> c1 \<le> X \<and> ooo_ok (X + 1) c' \<and> ooo_front c c'"
proof -
  note I = ooo_okD [OF ok]
  let ?sb = "(o_regScoreboard c)[0 := o_curCycle c]" let ?c0 = "?sb ! u_rs0 u" let ?c1 = "?sb ! u_rs1 u"
  have sb: "\<forall>x\<in>set ?sb. x \<le> X" by (rule all_mem_update [OF I(7,12)])
  have cs: "?c0 \<le> X" "?c1 \<le> X" using sb rs by simp_all
  let ?r = "o_curCycleRFReads c + (if ?c0 < o_curCycle c then 1 else 0) + (if ?c1 < o_curCycle c then 1 else 0)"
  have r: "?r \<le> 5" using ok by (simp add: ooo_ok_def RF_READS_PER_CYCLE_def)
  have okc: "ooo_ok X (c\<lparr>o_regScoreboard := ?sb, o_curCycleRFReads := k, o_curCycleIssuedUops := i\<rparr>)" if "k \<le> 3" "i \<le> ISSUES_PER_CYCLE" for k i
    using ok sb that by (simp add: ooo_ok_def RF_READS_PER_CYCLE_def)
  have "\<exists>c'. (if ?r > RF_READS_PER_CYCLE then ooo_advancePos (c\<lparr>o_regScoreboard := ?sb, o_curCycleRFReads := ?r - RF_READS_PER_CYCLE, o_curCycleIssuedUops := 0\<rparr>)
      else Some (c\<lparr>o_regScoreboard := ?sb, o_curCycleRFReads := ?r\<rparr>)) = Some c' \<and> ooo_ok (X + 1) c' \<and> ooo_front c c'"
  proof (cases "?r > RF_READS_PER_CYCLE")
    case True
    let ?c = "c\<lparr>o_regScoreboard := ?sb, o_curCycleRFReads := ?r - RF_READS_PER_CYCLE, o_curCycleIssuedUops := 0\<rparr>"
    have "ooo_ok X ?c" by (rule okc) (use r in \<open>simp_all add: RF_READS_PER_CYCLE_def\<close>)
    from ooo_advancePos_ok [OF this] obtain c' where c': "ooo_advancePos ?c = Some c'" "ooo_ok (max X (o_curCycle ?c + 1)) c'" "ooo_front ?c c'"
      by (elim exE conjE) (rule that)
    have "ooo_ok (X + 1) c'" using ooo_ok_mono [OF c'(2), of "X + 1"] I(12) by simp
    moreover have "ooo_front c c'" using c'(3) by (simp add: ooo_front_def ooo_same_def)
    ultimately show ?thesis unfolding if_P [OF True] using c'(1) by blast
  next
    case False
    let ?c = "c\<lparr>o_regScoreboard := ?sb, o_curCycleRFReads := ?r\<rparr>"
    have "ooo_ok X ?c" using ok sb False unfolding ooo_ok_def by simp
    then have "ooo_ok (X + 1) ?c" by (rule ooo_ok_mono) (rule le_add1)
    moreover have "ooo_front c ?c" by (simp add: ooo_front_def ooo_same_def)
    ultimately show ?thesis unfolding if_not_P [OF False] by blast
  qed
  then obtain c' where "(if ?r > RF_READS_PER_CYCLE then ooo_advancePos (c\<lparr>o_regScoreboard := ?sb, o_curCycleRFReads := ?r - RF_READS_PER_CYCLE, o_curCycleIssuedUops := 0\<rparr>)
      else Some (c\<lparr>o_regScoreboard := ?sb, o_curCycleRFReads := ?r\<rparr>)) = Some c'" "ooo_ok (X + 1) c'" "ooo_front c c'" by blast
  moreover have "ooo_sources u c = (if ?r > RF_READS_PER_CYCLE
        then ooo_advancePos (c\<lparr>o_regScoreboard := ?sb, o_curCycleRFReads := ?r - RF_READS_PER_CYCLE, o_curCycleIssuedUops := 0\<rparr>)
        else Some (c\<lparr>o_regScoreboard := ?sb, o_curCycleRFReads := ?r\<rparr>)) \<bind> (\<lambda>c'. Some (?c0, ?c1, c'))"
    using rs I(6) unfolding ooo_sources_def Let_def by simp
  ultimately have "ooo_sources u c = Some (?c0, ?c1, c')" by (simp only: Option.bind.simps)
  then show ?thesis using cs \<open>ooo_ok (X + 1) c'\<close> \<open>ooo_front c c'\<close> by blast
qed

lemma ooo_dispatch_ok:
  assumes ok: "ooo_ok X c" and cs: "c0 \<le> X" "c1 \<le> X" and m: "u_portMask u \<noteq> 0" and far: "X + u_extraSlots u + 1031 \<le> o_curCycle c + 2 ^ 32"
  shows "\<exists>d c'. ooo_dispatch u c0 c1 c = Some (d, c') \<and> d \<le> X + 6 \<and> ooo_ok (X + 7 + u_extraSlots u) c' \<and> ooo_front c c'"
proof -
  note I = ooo_okD [OF ok]
  obtain c2 where c2: "rob_minAllocCycle (o_rob c) = Some c2" "c2 \<le> X" using q_min [OF I(4)] by blast
  let ?s = "max (max c0 c1) (max c2 (o_curCycle c) + (DISPATCH_STAGE - ISSUE_STAGE))"
  have s: "?s \<le> X + 6" using cs c2(2) I(12) by (simp add: DISPATCH_STAGE_def ISSUE_STAGE_def)
  have "X \<le> X + 6" "X + 6 + u_extraSlots u + 1025 \<le> o_curCycle c + 2 ^ 32" using far by simp_all
  from win_schedule [OF I(1) this(1) s this(2) m] obtain w cur d where
    w: "wn_schedule 1024 36 (o_insWindow c) (o_curCycle c) ?s (u_portMask u) (u_extraSlots u) = Some (w, cur, d)" "o_curCycle c \<le> cur" "d \<le> X + 6"
      "win_ok (X + 6 + 1 + u_extraSlots u) w cur" by blast
  let ?c = "c\<lparr>o_insWindow := w, o_curCycle := cur\<rparr>" let ?c' = "if cur > o_curCycle c then ?c\<lparr>o_curCycleIssuedUops := 0, o_curCycleRFReads := 0\<rparr> else ?c"
  have "ooo_dispatch u c0 c1 c = Some (d, ?c')" using c2(1) w(1) unfolding ooo_dispatch_def Let_def by simp
  moreover have "ooo_ok (X + 7 + u_extraSlots u) ?c'"
    using ooo_ok_mono [OF ok, of "X + 7 + u_extraSlots u"] w(4) by (simp add: ooo_ok_def add.commute add.left_commute)
  moreover have "ooo_front c ?c'" using w(2) by (simp add: ooo_front_def ooo_same_def)
  ultimately show ?thesis using w(3) by blast
qed

section \<open>Memory operations\<close>

text \<open>
  What the core relies on: in the states \<open>P\<close> of the caches and the recorder every access returns, not before it was made and at most \<open>L\<close> cycles
  later, and the recorder accepts it.
\<close>

definition serves :: "('e \<Rightarrow> bool) \<Rightarrow> nat \<Rightarrow> (Address \<Rightarrow> nat \<Rightarrow> 'e \<Rightarrow> ('e \<times> nat) option) \<Rightarrow> bool" where
  "serves P L f \<longleftrightarrow> (\<forall>a cyc e. P e \<longrightarrow> (\<exists>e' r. f a cyc e = Some (e', r) \<and> P e' \<and> cyc \<le> r \<and> r \<le> cyc + L))"

definition core_env_ok :: "('e \<Rightarrow> bool) \<Rightarrow> nat \<Rightarrow> 'e core_env \<Rightarrow> bool" where
  "core_env_ok P L env \<longleftrightarrow> serves P L (ce_dload env) \<and> serves P L (ce_dstore env) \<and> serves P L (ce_iload env) \<and>
     (\<forall>cur d r e. P e \<longrightarrow> (\<exists>e'. ce_record env cur d r e = Some e' \<and> P e')) \<and> ce_lineBits env < 32 \<and> L < 2 ^ 64"

lemma servesD: "serves P L f \<Longrightarrow> P e \<Longrightarrow> \<exists>e' r. f a cyc e = Some (e', r) \<and> P e' \<and> cyc \<le> r \<and> r \<le> cyc + L"
  by (simp add: serves_def)

lemma core_env_record: "core_env_ok P L env \<Longrightarrow> P e \<Longrightarrow> \<exists>e'. ce_record env cur d r e = Some e' \<and> P e'"
  by (simp add: core_env_ok_def)

lemma fwdIdx_less: "fwdIdx a < FWD_ENTRIES"
proof -
  have "drop_bit 2 a AND 31 \<le> 31" by (rule word_and_le1)
  then show ?thesis by (simp add: fwdIdx_def FWD_ENTRIES_def word_le_nat_alt)
qed

text \<open>What the load/store unit leaves alone.\<close>

lemma ooo_load_uop_ok:
  assumes ok: "ooo_ok X c" and env: "core_env_ok P L env" "P (o_env c)" and d: "d \<le> X" and i: "i < 256"
  shows "\<exists>r c'. ooo_load_uop env d i c = Some (r, c') \<and> r \<le> X + L + 5 \<and> ooo_ok (X + L + 6) c' \<and> ooo_same c c' \<and> P (o_env c') \<and> o_curCycle c' = o_curCycle c"
proof -
  note I = ooo_okD [OF ok]
  obtain lq where lq: "rob_minAllocCycle (o_loadQueue c) = Some lq" "lq \<le> X" using q_min [OF I(2)] by blast
  let ?d = "max (o_lastStoreAddrCommitCycle c + 1) (max lq d)"
  have dd: "?d \<le> X + 1" using I(9) lq(2) d by simp
  have len: "length (o_loadAddrs c) = 256" "length (o_fwdArray c) = FWD_ENTRIES" "\<forall>x\<in>set (o_fwdArray c). snd x \<le> X" using ok by (simp_all add: ooo_ok_def)
  let ?a = "o_loadAddrs c ! i" let ?f = "o_fwdArray c ! fwdIdx ?a"
  let ?acc = "if ?a \<noteq> - 1 then do { (e, r) \<leftarrow> ce_dload env ?a ?d (o_env c); e \<leftarrow> ce_record env (o_curCycle c) ?d (r + L1D_LAT) e; Some (e, r + L1D_LAT) } else Some (o_env c, ?d)"
  have "\<exists>e r. ?acc = Some (e, r) \<and> P e \<and> r \<le> X + L + 5"
  proof (cases "?a = - 1")
    case False
    obtain e r where e: "ce_dload env ?a ?d (o_env c) = Some (e, r)" "P e" "r \<le> ?d + L"
      using servesD [of P L "ce_dload env" "o_env c" ?a ?d] env by (auto simp: core_env_ok_def)
    obtain e' where "ce_record env (o_curCycle c) ?d (r + L1D_LAT) e = Some e'" "P e'" using core_env_record [OF env(1) e(2)] by blast
    then show ?thesis using False e(1) order_trans [OF e(3) add_right_mono [OF dd]] by (simp add: L1D_LAT_def)
  qed (use env(2) dd in simp)
  then obtain e r where e: "?acc = Some (e, r)" "P e" "r \<le> X + L + 5" by blast
  let ?r = "if fst ?f = ?a then max r (snd ?f) else r"
  have "?f \<in> set (o_fwdArray c)" using len(2) fwdIdx_less [of ?a] by simp
  then have r: "?r \<le> X + L + 5" using e(3) len(3) by fastforce
  obtain q where q: "rob_markRetire 32 4 (o_loadQueue c) ?r = Some q" "q_ok 32 (X + L + 6) q" using q_retire [OF I(2) _ r, of 4] by (auto simp: add.commute)
  let ?c = "c\<lparr>o_env := e, o_loadQueue := q\<rparr>"
  have "ooo_load_uop env d i c = ?acc \<bind> (\<lambda>(e, r). rob_markRetire 32 4 (o_loadQueue c) (if fst ?f = ?a then max r (snd ?f) else r) \<bind>
      (\<lambda>lq. Some (if fst ?f = ?a then max r (snd ?f) else r, c\<lparr>o_env := e, o_loadQueue := lq\<rparr>)))"
    using lq(1) i len(1,2) fwdIdx_less [of ?a] unfolding ooo_load_uop_def Let_def by simp
  then have "ooo_load_uop env d i c = Some (?r, ?c)" by (simp only: e(1) q(1) Option.bind.simps prod.case)
  moreover have "ooo_ok (X + L + 6) ?c" using ooo_ok_mono [OF ok, of "X + L + 6"] q(2) by (simp add: ooo_ok_def)
  ultimately show ?thesis using r e(2) by (intro exI [of _ ?r] exI [of _ ?c]) (simp add: ooo_same_def)
qed

lemma ooo_store_uop_ok:
  assumes ok: "ooo_ok X c" and env: "core_env_ok P L env" "P (o_env c)" and d: "d \<le> X" and i: "i < 256"
  shows "\<exists>r c'. ooo_store_uop env d i c = Some (r, c') \<and> r \<le> X + L + 5 \<and> ooo_ok (X + L + 6) c' \<and> ooo_same c c' \<and> P (o_env c') \<and> o_curCycle c' = o_curCycle c"
proof -
  note I = ooo_okD [OF ok]
  obtain sq where sq: "rob_minAllocCycle (o_storeQueue c) = Some sq" "sq \<le> X" using q_min [OF I(3)] by blast
  let ?d = "max (o_lastStoreAddrCommitCycle c + 1) (max sq d)" let ?a = "o_storeAddrs c ! i"
  have dd: "?d \<le> X + 1" using I(9) sq(2) d by simp
  have len: "length (o_storeAddrs c) = 256" "length (o_fwdArray c) = FWD_ENTRIES" "\<forall>x\<in>set (o_fwdArray c). snd x \<le> X" using ok by (simp_all add: ooo_ok_def)
  obtain e r where e: "ce_dstore env ?a ?d (o_env c) = Some (e, r)" "P e" "r \<le> ?d + L"
    using servesD [of P L "ce_dstore env" "o_env c" ?a ?d] env by (auto simp: core_env_ok_def)
  let ?r = "r + L1D_LAT"
  have r: "?r \<le> X + L + 5" using order_trans [OF e(3) add_right_mono [OF dd]] by (simp add: L1D_LAT_def)
  obtain e' where e': "ce_record env (o_curCycle c) ?d ?r e = Some e'" "P e'" using core_env_record [OF env(1) e(2)] by blast
  obtain q where q: "rob_markRetire 32 4 (o_storeQueue c) ?r = Some q" "q_ok 32 (X + L + 6) q" using q_retire [OF I(3) _ r, of 4] by (auto simp: add.commute)
  let ?fwd = "(o_fwdArray c)[fwdIdx ?a := (?a, ?r)]"
  let ?c = "c\<lparr>o_env := e', o_fwdArray := ?fwd, o_lastStoreCommitCycle := max (o_lastStoreCommitCycle c) ?r, o_storeQueue := q\<rparr>"
  have fwd: "\<forall>x\<in>set ?fwd. snd x \<le> X + L + 6"
  proof (rule all_mem_update)
    show "\<forall>y\<in>set (o_fwdArray c). snd y \<le> X + L + 6" using len(3) by fastforce
  qed (use r in simp)
  have "ooo_store_uop env d i c = Some (?r, ?c)"
    using sq(1) e(1) e'(1) q(1) i len(1,2) fwdIdx_less [of ?a] unfolding ooo_store_uop_def Let_def by simp
  moreover have "ooo_ok (X + L + 6) ?c" using ooo_ok_mono [OF ok, of "X + L + 6"] q(2) fwd r len(2) by (simp add: ooo_ok_def)
  ultimately show ?thesis using r e'(2) by (intro exI [of _ ?r] exI [of _ ?c]) (simp add: ooo_same_def)
qed

lemma ooo_lsu_ok:
  assumes ok: "ooo_ok X c" and env: "core_env_ok P L env" "P (o_env c)" and d: "d \<le> X" and B: "u_lat u \<le> B"
    and i: "u_type u = UOP_LOAD \<longrightarrow> i < 256" "u_type u = UOP_STORE \<longrightarrow> j < 256"
  shows "\<exists>r c'. ooo_lsu env u d i j c = Some (r, i + of_bool (u_type u = UOP_LOAD), j + of_bool (u_type u = UOP_STORE), c') \<and> r \<le> X + L + B + 6 \<and>
    ooo_ok (X + L + B + 6) c' \<and> ooo_same c c' \<and> P (o_env c') \<and> o_curCycle c' = o_curCycle c"
proof -
  note I = ooo_okD [OF ok]
  have M: "ooo_ok (X + L + B + 6) c" by (rule ooo_ok_mono [OF ok]) simp
  have up: "ooo_ok (X + L + B + 6) c'" if "ooo_ok (X + L + 6) c'" for c' :: "'a ooo_core" by (rule ooo_ok_mono [OF that]) simp
  show ?thesis
  proof (cases "u_type u")
    case UOP_GENERAL
    then show ?thesis using M env(2) d B by (simp add: ooo_lsu_def)
  next
    case UOP_LOAD
    obtain r c' where "ooo_load_uop env d i c = Some (r, c')" "r \<le> X + L + 5" "ooo_ok (X + L + 6) c'" "ooo_same c c'" "P (o_env c')" "o_curCycle c' = o_curCycle c"
      using ooo_load_uop_ok [OF ok env d] i(1) UOP_LOAD by blast
    then show ?thesis using UOP_LOAD up by (simp add: ooo_lsu_def)
  next
    case UOP_STORE
    obtain r c' where "ooo_store_uop env d j c = Some (r, c')" "r \<le> X + L + 5" "ooo_ok (X + L + 6) c'" "ooo_same c c'" "P (o_env c')" "o_curCycle c' = o_curCycle c"
      using ooo_store_uop_ok [OF ok env d] i(2) UOP_STORE by blast
    then show ?thesis using UOP_STORE up by (simp add: ooo_lsu_def)
  next
    case UOP_STORE_ADDR
    let ?c = "c\<lparr>o_lastStoreAddrCommitCycle := max (o_lastStoreAddrCommitCycle c) (d + u_lat u)\<rparr>"
    have "ooo_ok (X + L + B + 6) ?c" using M d B by (simp add: ooo_ok_def)
    moreover have "ooo_lsu env u d i j c = Some (d + u_lat u, i, j, ?c)" using UOP_STORE_ADDR by (simp add: ooo_lsu_def Let_def)
    ultimately show ?thesis using UOP_STORE_ADDR env(2) d B by (intro exI [of _ "d + u_lat u"] exI [of _ ?c]) (simp add: ooo_same_def)
  next
    case UOP_FENCE
    let ?c = "c\<lparr>o_lastStoreAddrCommitCycle := max (d + u_lat u) (max (o_lastStoreAddrCommitCycle c) (o_lastStoreCommitCycle c + u_lat u))\<rparr>"
    have "ooo_ok (X + L + B + 6) ?c" using M I(8) d B by (simp add: ooo_ok_def)
    moreover have "ooo_lsu env u d i j c = Some (d + u_lat u, i, j, ?c)" using UOP_FENCE by (simp add: ooo_lsu_def Let_def)
    ultimately show ?thesis using UOP_FENCE env(2) d B by (intro exI [of _ "d + u_lat u"] exI [of _ ?c]) (simp add: ooo_same_def)
  qed
qed

lemma ooo_retire_ok:
  assumes ok: "ooo_ok X c" and r: "r \<le> X" and rd: "u_rd0 u < length (o_regScoreboard c)" "u_rd1 u < length (o_regScoreboard c)"
  shows "\<exists>c'. ooo_retire u r c = Some c' \<and> ooo_ok (X + 1) c' \<and> ooo_same c c' \<and> o_env c' = o_env c \<and> o_curCycle c' = o_curCycle c"
proof -
  note I = ooo_okD [OF ok]
  obtain q where q: "rob_markRetire 128 4 (o_rob c) r = Some q" "q_ok 128 (Suc X) q" using q_retire [OF I(4) le_refl r] by blast
  let ?sb = "(o_regScoreboard c)[u_rd0 u := r, u_rd1 u := r]" let ?c = "c\<lparr>o_rob := q, o_regScoreboard := ?sb\<rparr>"
  have "\<forall>x\<in>set (o_regScoreboard c). x \<le> X + 1" using I(7) by fastforce
  then have "\<forall>x\<in>set ((o_regScoreboard c)[u_rd0 u := r]). x \<le> X + 1" by (rule all_mem_update) (use r in simp)
  then have "\<forall>x\<in>set ?sb. x \<le> X + 1" by (rule all_mem_update) (use r in simp)
  then have "ooo_ok (X + 1) ?c" using ooo_ok_mono [OF ok, of "X + 1"] q(2) by (simp add: ooo_ok_def)
  moreover have "ooo_retire u r c = Some ?c" using q(1) rd by (simp add: ooo_retire_def)
  ultimately show ?thesis by (intro exI [of _ ?c]) (simp add: ooo_same_def)
qed

section \<open>A block of micro-operations\<close>

text \<open>
  What the decoder gives: registers in range, a port for every operation, latencies, extra slots and steps between decode cycles of at most \<open>B\<close>, and
  decode cycles that do not decrease.
\<close>

definition uop_ok :: "nat \<Rightarrow> nat \<Rightarrow> nat \<Rightarrow> dyn_uop \<Rightarrow> bool" where
  "uop_ok n B prev u \<longleftrightarrow> u_rs0 u < n \<and> u_rs1 u < n \<and> u_rd0 u < n \<and> u_rd1 u < n \<and> u_portMask u \<noteq> 0 \<and> u_lat u \<le> B \<and> u_extraSlots u \<le> B \<and>
     prev \<le> u_decCycle u \<and> u_decCycle u \<le> prev + B"

fun uops_ok :: "nat \<Rightarrow> nat \<Rightarrow> nat \<Rightarrow> dyn_uop list \<Rightarrow> bool" where
  "uops_ok n B prev [] = True"
| "uops_ok n B prev (u # us) = (uop_ok n B prev u \<and> uops_ok n B (u_decCycle u) us)"

definition uops_of :: "uop_type \<Rightarrow> dyn_uop list \<Rightarrow> nat" where
  "uops_of ty us = length (filter (\<lambda>u. u_type u = ty) us)"

text \<open>How far one micro-operation can reach beyond the horizon.\<close>

definition uop_reach :: "nat \<Rightarrow> nat \<Rightarrow> nat" where
  "uop_reach B L = 3 * B + L + 16"

lemma ooo_uop_ok:
  assumes ok: "ooo_ok X c" and env: "core_env_ok P L env" "P (o_env c)" and u: "uop_ok (length (o_regScoreboard c)) B prev u"
    and i: "u_type u = UOP_LOAD \<longrightarrow> i < 256" "u_type u = UOP_STORE \<longrightarrow> j < 256" and far: "X + 2 * B + 1033 \<le> o_curCycle c + 2 ^ 32" "B < 2 ^ 32"
  shows "\<exists>r c'. ooo_uop env u prev i j c = Some (r, i + of_bool (u_type u = UOP_LOAD), j + of_bool (u_type u = UOP_STORE), c') \<and>
    r \<le> X + uop_reach B L \<and> ooo_ok (X + uop_reach B L) c' \<and> ooo_same c c' \<and> P (o_env c') \<and> o_curCycle c \<le> o_curCycle c'"
proof -
  note U = u [unfolded uop_ok_def]
  let ?l = "i + of_bool (u_type u = UOP_LOAD)" let ?s = "j + of_bool (u_type u = UOP_STORE)" let ?n = "length (o_regScoreboard c)"
  have dec: "prev \<le> u_decCycle u" "u_decCycle u - prev \<le> B" "X + B < o_curCycle c + 2 ^ 32" using U far by auto
  obtain c1 where c1: "ooo_decode u prev c = Some c1" "ooo_ok (X + B) c1" "ooo_front c c1" using ooo_decode_ok [OF ok dec(1,2,3) far(2)] by blast
  obtain c2 where c2: "ooo_issue c1 = Some c2" "ooo_ok (X + B + 1) c2" "ooo_front c1 c2" using ooo_issue_ok [OF c1(2)] by blast
  have f2: "ooo_front c c2" by (rule ooo_front_trans [OF c1(3) c2(3)])
  have "length (o_regScoreboard c2) = ?n" using f2 by (simp add: ooo_front_def ooo_same_def)
  then obtain a b c3 where c3: "ooo_sources u c2 = Some (a, b, c3)" "a \<le> X + B + 1" "b \<le> X + B + 1" "ooo_ok (X + B + 1 + 1) c3" "ooo_front c2 c3"
    using ooo_sources_ok [OF c2(2), of u] U by auto
  have f3: "ooo_front c c3" by (rule ooo_front_trans [OF f2 c3(5)])
  have "a \<le> X + B + 1 + 1" "b \<le> X + B + 1 + 1" "X + B + 1 + 1 + u_extraSlots u + 1031 \<le> o_curCycle c3 + 2 ^ 32"
    using c3(2,3) f3 far(1) U by (simp_all add: ooo_front_def)
  then obtain d c4 where c4: "ooo_dispatch u a b c3 = Some (d, c4)" "d \<le> X + B + 1 + 1 + 6" "ooo_ok (X + B + 1 + 1 + 7 + u_extraSlots u) c4" "ooo_front c3 c4"
    using ooo_dispatch_ok [OF c3(4)] U by blast
  have f4: "ooo_front c c4" by (rule ooo_front_trans [OF f3 c4(4)])
  let ?Y = "X + B + 9 + B"
  have ok4: "ooo_ok ?Y c4" "d \<le> ?Y" using ooo_ok_mono [OF c4(3), of ?Y] c4(2) U by simp_all
  have P4: "P (o_env c4)" using f4 env(2) by (simp add: ooo_front_def)
  have "u_lat u \<le> B" using U by blast
  from ooo_lsu_ok [OF ok4(1) env(1) P4 ok4(2) this i] obtain r c5 where
    c5: "ooo_lsu env u d i j c4 = Some (r, ?l, ?s, c5)" "r \<le> ?Y + L + B + 6" "ooo_ok (?Y + L + B + 6) c5" "ooo_same c4 c5" "P (o_env c5)" "o_curCycle c5 = o_curCycle c4"
    by blast
  have same: "ooo_same c c5" using f4 c5(4) by (simp add: ooo_front_def ooo_same_def)
  then have "length (o_regScoreboard c5) = ?n" by (simp add: ooo_same_def)
  then obtain c6 where c6: "ooo_retire u r c5 = Some c6" "ooo_ok (?Y + L + B + 6 + 1) c6" "ooo_same c5 c6" "o_env c6 = o_env c5" "o_curCycle c6 = o_curCycle c5"
    using ooo_retire_ok [OF c5(3,2), of u] U by auto
  have "ooo_uop env u prev i j c = Some (r, ?l, ?s, c6)"
    unfolding ooo_uop_def by (simp only: c1(1) c2(1) c3(1) c4(1) c5(1) c6(1) Option.bind.simps prod.case)
  moreover have Z: "?Y + L + B + 6 + 1 = X + uop_reach B L" by (simp add: uop_reach_def)
  have "ooo_ok (X + uop_reach B L) c6" using c6(2) unfolding Z .
  moreover have "r \<le> X + uop_reach B L" using c5(2) Z by linarith
  moreover have "o_curCycle c \<le> o_curCycle c6" using f4 c5(6) c6(5) by (simp add: ooo_front_def)
  moreover have "ooo_same c c6" by (rule ooo_same_trans [OF same c6(3)])
  ultimately show ?thesis using c5(5) c6(4) by (intro exI [of _ r] exI [of _ c6]) simp
qed

lemma ooo_uops_ok:
  assumes "ooo_ok X c" "P (o_env c)" "uops_ok (length (o_regScoreboard c)) B prev us" "i + uops_of UOP_LOAD us \<le> 256" "j + uops_of UOP_STORE us \<le> 256"
    and "X + length us * uop_reach B L + 1033 \<le> o_curCycle c + 2 ^ 32" "lst \<le> X" and env: "core_env_ok P L env" and B: "B < 2 ^ 32"
  shows "\<exists>r c'. ooo_uops env us prev lst i j c = Some (r, i + uops_of UOP_LOAD us, j + uops_of UOP_STORE us, c') \<and> r \<le> X + length us * uop_reach B L \<and>
    ooo_ok (X + length us * uop_reach B L) c' \<and> ooo_same c c' \<and> P (o_env c') \<and> o_curCycle c \<le> o_curCycle c'"
  using assms(1-7)
proof (induction us arbitrary: X c prev i j lst)
  case Nil
  then show ?case by (simp add: uops_of_def)
next
  case (Cons u us)
  let ?K = "uop_reach B L"
  have b: "X + 2 * B + 1033 \<le> o_curCycle c + 2 ^ 32" using Cons.prems(6) by (simp add: uop_reach_def)
  have ij: "u_type u = UOP_LOAD \<longrightarrow> i < 256" "u_type u = UOP_STORE \<longrightarrow> j < 256" using Cons.prems(4,5) by (auto simp: uops_of_def)
  have u: "uop_ok (length (o_regScoreboard c)) B prev u" using Cons.prems(3) by simp
  let ?i = "i + of_bool (u_type u = UOP_LOAD)" let ?j = "j + of_bool (u_type u = UOP_STORE)"
  from ooo_uop_ok [OF Cons.prems(1) env Cons.prems(2) u ij b B] obtain r c1 where
    c1: "ooo_uop env u prev i j c = Some (r, ?i, ?j, c1)" "r \<le> X + ?K" "ooo_ok (X + ?K) c1" "ooo_same c c1" "P (o_env c1)" "o_curCycle c \<le> o_curCycle c1" by blast
  have n: "length (o_regScoreboard c1) = length (o_regScoreboard c)" using c1(4) by (simp add: ooo_same_def)
  have cnt: "?i + uops_of UOP_LOAD us = i + uops_of UOP_LOAD (u # us)" "?j + uops_of UOP_STORE us = j + uops_of UOP_STORE (u # us)" by (simp_all add: uops_of_def)
  have K: "X + ?K + length us * ?K = X + length (u # us) * ?K" by simp
  have "\<exists>r' c'. ooo_uops env us (u_decCycle u) r ?i ?j c1 = Some (r', ?i + uops_of UOP_LOAD us, ?j + uops_of UOP_STORE us, c') \<and> r' \<le> X + ?K + length us * ?K \<and>
      ooo_ok (X + ?K + length us * ?K) c' \<and> ooo_same c1 c' \<and> P (o_env c') \<and> o_curCycle c1 \<le> o_curCycle c'"
    by (rule Cons.IH [OF c1(3,5)]) (use Cons.prems c1(2,6) n cnt in \<open>simp_all\<close>)
  then obtain r' c' where c': "ooo_uops env us (u_decCycle u) r ?i ?j c1 = Some (r', i + uops_of UOP_LOAD (u # us), j + uops_of UOP_STORE (u # us), c')"
      "r' \<le> X + length (u # us) * ?K" "ooo_ok (X + length (u # us) * ?K) c'" "ooo_same c1 c'" "P (o_env c')" "o_curCycle c1 \<le> o_curCycle c'"
    unfolding cnt K by blast
  have "ooo_uops env (u # us) prev lst i j c = Some (r', i + uops_of UOP_LOAD (u # us), j + uops_of UOP_STORE (u # us), c')"
    by (simp only: ooo_uops.simps c1(1) c'(1) Option.bind.simps prod.case)
  then show ?case using c'(2,3,5) ooo_same_trans [OF c1(4) c'(4)] order_trans [OF c1(6) c'(6)] by blast
qed

section \<open>The front end\<close>

lemma ooo_fetch_ok:
  assumes env: "core_env_ok P L env" and c: "P (o_env c)"
  shows "\<exists>l e. ooo_fetch env a c = Some (l, c\<lparr>o_env := e\<rparr>) \<and> l \<le> L \<and> P e"
proof -
  obtain e r where e: "ce_iload env a (o_curCycle c) (o_env c) = Some (e, r)" "P e" "o_curCycle c \<le> r" "r \<le> o_curCycle c + L"
    using servesD [of P L "ce_iload env" "o_env c" a "o_curCycle c"] env c by (auto simp: core_env_ok_def)
  have L: "L < 2 ^ 64" using env by (simp add: core_env_ok_def)
  have i: "int r - int (o_curCycle c) = int (r - o_curCycle c)" using e(3) by simp
  have m: "int (r - o_curCycle c) mod 2 ^ 64 = int (r - o_curCycle c)" using e(4) L by (intro mod_pos_pos_trivial) simp_all
  have l: "nat ((int r - int (o_curCycle c)) mod 2 ^ 64) = r - o_curCycle c" unfolding i m by (rule nat_int)
  obtain e' where e': "ce_record env (o_curCycle c) (o_curCycle c) (o_curCycle c + (r - o_curCycle c)) e = Some e'" "P e'" using core_env_record [OF env e(2)] by blast
  have "ooo_fetch env a c = Some (r - o_curCycle c, c\<lparr>o_env := e'\<rparr>)"
    unfolding ooo_fetch_def by (simp only: e(1) Option.bind.simps prod.case Let_def l e'(1))
  then show ?thesis using e(4) e'(2) by (intro exI conjI) auto
qed

lemma ooo_wrong_path_ok:
  assumes env: "core_env_ok P L env"
  shows "P (o_env c) \<Longrightarrow> \<exists>e. ooo_wrong_path env a lst req i n c = Some (c\<lparr>o_env := e\<rparr>) \<and> P e"
proof (induction n arbitrary: c req i)
  case 0
  then show ?case by (intro exI [of _ "o_env c"]) simp
next
  case (Suc n)
  obtain l e where e: "ooo_fetch env (a + of_nat (2 ^ ce_lineBits env * i)) c = Some (l, c\<lparr>o_env := e\<rparr>)" "P e" using ooo_fetch_ok [OF env Suc.prems] by blast
  have "P (o_env (c\<lparr>o_env := e\<rparr>))" using e(2) by simp
  from Suc.IH [OF this, of "req + l + 2 ^ ce_lineBits env div FETCH_BYTES_PER_CYCLE" "i + 1"] e show ?case by (auto simp: Let_def)
qed

lemma ooo_predict_ok:
  assumes env: "core_env_ok P L env" and c: "P (o_env c)" "bp_inv 11 18 14 (o_branchPred c)"
  shows "\<exists>f bp k e. ooo_predict env lst fc c = Some (f, c\<lparr>o_branchPred := bp, o_mispredBranches := k, o_env := e\<rparr>) \<and> f \<le> max fc lst \<and> bp_inv 11 18 14 bp \<and> P e"
proof (cases "o_branchPc c = 0")
  case True
  then show ?thesis using c
    by - (rule exI [of _ fc], rule exI [of _ "o_branchPred c"], rule exI [of _ "o_mispredBranches c"], rule exI [of _ "o_env c"], simp add: ooo_predict_def)
next
  case False
  have w: "(11 :: nat) < 32" "(14 :: nat) < 32" by simp_all
  obtain bp ok where bp: "bp_predict 11 18 14 (o_branchPred c) (o_branchPc c) (o_branchTaken c) = Some (bp, ok)" "bp_inv 11 18 14 bp"
    using bp_predict_ok [OF c(2) w, of "o_branchPc c" "o_branchTaken c"] by blast
  show ?thesis
  proof (cases ok)
    case True
    then show ?thesis using False bp c(1)
      by - (rule exI [of _ fc], rule exI [of _ bp], rule exI [of _ "o_mispredBranches c"], rule exI [of _ "o_env c"], simp add: ooo_predict_def)
  next
    case nok: False
    let ?c = "c\<lparr>o_branchPred := bp, o_mispredBranches := o_mispredBranches c + 1\<rparr>"
    let ?a = "if o_branchTaken c then o_branchNotTakenNpc c else o_branchTakenNpc c"
    have "P (o_env ?c)" using c(1) by simp
    from ooo_wrong_path_ok [OF env this, of ?a lst fc 0 "5 * 64 div 2 ^ ce_lineBits env"] obtain e where
      e: "ooo_wrong_path env ?a lst fc 0 (5 * 64 div 2 ^ ce_lineBits env) ?c = Some (?c\<lparr>o_env := e\<rparr>)" "P e" by blast
    have "ooo_predict env lst fc c = ooo_wrong_path env ?a lst fc 0 (5 * 64 div 2 ^ ce_lineBits env) ?c \<bind> (\<lambda>c. Some (lst, c))"
      using False nok bp(1) by (simp add: ooo_predict_def Let_def)
    then have "ooo_predict env lst fc c = Some (lst, c\<lparr>o_branchPred := bp, o_mispredBranches := o_mispredBranches c + 1, o_env := e\<rparr>)"
      by (simp only: e(1) Option.bind.simps)
    then show ?thesis using bp(2) e(2) max.cobounded2 by blast
  qed
qed

text \<open>The fetch of a block ends after one access per line size, when its end is not too close to the end of the address space.\<close>

lemma ooo_ifetch_ok:
  assumes env: "core_env_ok P L env" and fin: "unat fin + 2 ^ ce_lineBits env < 2 ^ 64"
  shows "P (o_env c) \<Longrightarrow> unat fin \<le> unat a + n * 2 ^ ce_lineBits env \<Longrightarrow> \<exists>f e. ooo_ifetch env a fin fc c = Some (f, c\<lparr>o_env := e\<rparr>) \<and> P e \<and> f \<le> fc + n * L"
proof (induction n arbitrary: a fc c)
  case 0
  then have "\<not> a < fin" by (simp add: word_less_nat_alt)
  then show ?case using 0 by (subst ooo_ifetch.simps) (simp, intro exI [of _ "o_env c"], simp)
next
  case (Suc n)
  let ?lb = "ce_lineBits env"
  show ?case
  proof (cases "a < fin")
    case True
    have lb: "?lb < 32" using env by (simp add: core_env_ok_def)
    have p: "(push_bit ?lb 1 :: u64) = of_nat (2 ^ ?lb)" by (simp add: push_bit_eq_mult)
    have "(2 :: nat) ^ ?lb < 2 ^ 64" using lb by (intro power_strict_increasing) simp_all
    then have st: "unat (push_bit ?lb 1 :: u64) = 2 ^ ?lb" unfolding p unat_of_nat by (intro mod_less) simp
    have "unat a + 2 ^ ?lb < 2 ^ 64" using True fin by (simp add: word_less_nat_alt)
    then have a: "unat (a + push_bit ?lb 1) = unat a + 2 ^ ?lb" using st by (simp add: unat_word_ariths)
    obtain l e where e: "ooo_fetch env a c = Some (l, c\<lparr>o_env := e\<rparr>)" "l \<le> L" "P e" using ooo_fetch_ok [OF env Suc.prems(1)] by blast
    have "P (o_env (c\<lparr>o_env := e\<rparr>))" "unat fin \<le> unat (a + push_bit ?lb 1) + n * 2 ^ ?lb" using e(3) Suc.prems(2) a by simp_all
    from Suc.IH [OF this, of "fc + l"] obtain f e' where
      "ooo_ifetch env (a + push_bit ?lb 1) fin (fc + l) (c\<lparr>o_env := e\<rparr>) = Some (f, c\<lparr>o_env := e\<rparr>\<lparr>o_env := e'\<rparr>)" "P e'" "f \<le> fc + l + n * L" by blast
    then show ?thesis using True e(1,2) by (subst ooo_ifetch.simps) (simp, intro exI [of _ e'], simp)
  next
    case False
    then show ?thesis using Suc.prems(1) by (subst ooo_ifetch.simps) (simp, intro exI [of _ "o_env c"], simp)
  qed
qed

section \<open>Blocks\<close>

text \<open>
  A block of the program completes. Let the core hold nothing beyond cycle \<open>X\<close>, and let the previous block be as the decoder makes it, with as many loads and stores as were recorded
  for it. If what it can reach is less than \<open>2\<^sup>3\<^sup>2\<close> cycles away, its simulation fails no assertion and leaves no array: every micro-operation is decoded,
  issued, scheduled in the window, served by the caches and retired, the branch is predicted, and the fetch of the next block ends. The block is
  counted once with all its micro-operations, and the core holds nothing beyond the new horizon.
\<close>

theorem block_completes:
  assumes "ooo_ok X c" "core_env_ok P L env" "P (o_env c)" "o_prevBbl c = Some bbl" "uops_ok (length (o_regScoreboard c)) B 0 (bb_uop bbl)"
    and "o_loads c = uops_of UOP_LOAD (bb_uop bbl)" "o_stores c = uops_of UOP_STORE (bb_uop bbl)" "o_loads c \<le> 256" "o_stores c \<le> 256"
    and "X + length (bb_uop bbl) * uop_reach B L + 1033 \<le> o_curCycle c + 2 ^ 32" "B < 2 ^ 32"
    and "unat bblAddr + bb_bytes bblInfo + 2 ^ ce_lineBits env < 2 ^ 64" "bb_bytes bblInfo \<le> n * 2 ^ ce_lineBits env"
  shows "\<exists>c'. ooo_bbl env bblAddr bblInfo c = Some c' \<and> ooo_ok (X + length (bb_uop bbl) * uop_reach B L + n * L + 4) c' \<and> P (o_env c') \<and>
    o_prevBbl c' = Some bblInfo \<and> o_loads c' = 0 \<and> o_stores c' = 0 \<and> o_branchPc c' = 0 \<and> o_curCycle c \<le> o_curCycle c' \<and>
    o_bbls c' = o_bbls c + 1 \<and> o_uops c' = o_uops c + length (bb_uop bbl) \<and> o_instrs c' = o_instrs c + bb_instrs bbl"
proof -
  let ?us = "bb_uop bbl" let ?X = "X + length (bb_uop bbl) * uop_reach B L" let ?fin = "bblAddr + of_nat (bb_bytes bblInfo)"
  let ?c = "c\<lparr>o_prevBbl := Some bblInfo\<rparr>"
  have "ooo_ok X ?c" using assms(1) by (simp add: ooo_ok_def)
  then have "\<exists>r c'. ooo_uops env ?us 0 0 0 0 ?c = Some (r, 0 + uops_of UOP_LOAD ?us, 0 + uops_of UOP_STORE ?us, c') \<and> r \<le> ?X \<and> ooo_ok ?X c' \<and> ooo_same ?c c' \<and>
      P (o_env c') \<and> o_curCycle ?c \<le> o_curCycle c'"
    by (rule ooo_uops_ok) (use assms in simp_all)
  then obtain r c1 where c1: "ooo_uops env ?us 0 0 0 0 ?c = Some (r, o_loads c, o_stores c, c1)" "r \<le> ?X" "ooo_ok ?X c1" "ooo_same ?c c1" "P (o_env c1)" "o_curCycle c \<le> o_curCycle c1"
    using assms(6,7) by auto
  have same: "o_loads c1 = o_loads c" "o_stores c1 = o_stores c" "o_prevBbl c1 = Some bblInfo" "o_bbls c1 = o_bbls c" "o_uops c1 = o_uops c" "o_instrs c1 = o_instrs c"
    using c1(4) by (simp_all add: ooo_same_def)
  let ?c2 = "c1\<lparr>o_instrs := o_instrs c1 + bb_instrs bbl, o_uops := o_uops c1 + length ?us, o_bbls := o_bbls c1 + 1, o_approxInstrs := o_approxInstrs c1 + bb_approxInstrs bbl, o_loads := 0, o_stores := 0\<rparr>"
  have p: "P (o_env ?c2)" "bp_inv 11 18 14 (o_branchPred ?c2)" using c1(3,5) by (simp_all add: ooo_ok_def)
  let ?d = "o_decodeCycle c1 - (DECODE_STAGE - FETCH_STAGE)"
  obtain f bp k e where f: "ooo_predict env r ?d ?c2 = Some (f, ?c2\<lparr>o_branchPred := bp, o_mispredBranches := k, o_env := e\<rparr>)" "f \<le> max ?d r" "bp_inv 11 18 14 bp" "P e"
    using ooo_predict_ok [OF assms(2) p, of r ?d] by blast
  let ?c3 = "?c2\<lparr>o_branchPred := bp, o_mispredBranches := k, o_env := e, o_branchPc := 0\<rparr>"
  have fb: "f \<le> ?X" using f(2) c1(2) ooo_okD(11) [OF c1(3)] by simp
  have fin: "unat ?fin = unat bblAddr + bb_bytes bblInfo"
    using assms(12) by (simp add: unat_word_ariths unat_of_nat take_bit_nat_eq_self)
  have fin': "unat ?fin + 2 ^ ce_lineBits env < 2 ^ 64" "unat ?fin \<le> unat bblAddr + n * 2 ^ ce_lineBits env" "P (o_env ?c3)" using fin assms(12,13) f(4) by simp_all
  obtain f' e' where f': "ooo_ifetch env bblAddr ?fin f ?c3 = Some (f', ?c3\<lparr>o_env := e'\<rparr>)" "P e'" "f' \<le> f + n * L"
    using ooo_ifetch_ok [OF assms(2) fin'(1,3,2), of f] by blast
  let ?c4 = "?c3\<lparr>o_env := e', o_decodeCycle := max (o_decodeCycle c1 + 1) (f' + (DECODE_STAGE - FETCH_STAGE))\<rparr>"
  have "ooo_bbl env bblAddr bblInfo c = Some ?c4"
    using assms(4) c1(1) same(1,2) f(1) f'(1) by (simp add: ooo_bbl_def Let_def)
  moreover have dc: "DECODE_STAGE \<le> max (o_decodeCycle c1 + 1) (f' + (DECODE_STAGE - FETCH_STAGE))"
      "max (o_decodeCycle c1 + 1) (f' + (DECODE_STAGE - FETCH_STAGE)) \<le> ?X + n * L + 4"
    using ooo_okD(10,11) [OF c1(3)] f'(3) fb by (simp_all add: le_max_iff_disj DECODE_STAGE_def FETCH_STAGE_def)
  have "ooo_ok (?X + n * L + 4) c1" by (rule ooo_ok_mono [OF c1(3)]) simp
  then have "ooo_ok (?X + n * L + 4) ?c4" using f(3) dc unfolding ooo_ok_def by simp
  ultimately show ?thesis using f'(2) same c1(6) by (intro exI [of _ ?c4]) simp
qed

text \<open>A new core.\<close>

lemma OOOCore_new_ok:
  assumes "0 < regs"
  shows "ooo_ok 4 (OOOCore_new regs pl e)"
proof -
  have e: "wc_at 1024 (WindowStructure 1024) 0 i = wc_empty" for i by (simp add: wc_at_def WindowStructure_def ub_at_def)
  have "wn_inv 1024 (WindowStructure 1024) 0" by (rule window_new_inv) simp
  then have "win_ok 4 (WindowStructure 1024) 0" using e by (simp add: win_ok_def) (simp add: WindowStructure_def)
  moreover have "q_ok 32 4 (ReorderBuffer 32)" "q_ok 128 4 (ReorderBuffer 128)" "cq_ok 28 4 (CycleQueue 28)"
    by (simp_all add: q_ok_def cq_ok_def ReorderBuffer_def CycleQueue_def)
  moreover have "bp_inv 11 18 14 (BranchPredictorPAg 11 14)" by (simp add: bp_inv_def BranchPredictorPAg_def)
  ultimately show ?thesis using assms by (simp add: ooo_ok_def OOOCore_new_def DECODE_STAGE_def)
qed

text \<open>A core with caches of a fixed latency runs its first block, an addition and a load.\<close>

definition fixed_env :: "nat \<Rightarrow> unit core_env" where
  "fixed_env l = \<lparr>ce_dload = (\<lambda>_ cyc e. Some (e, cyc + l)), ce_dstore = (\<lambda>_ cyc e. Some (e, cyc + l)), ce_iload = (\<lambda>_ cyc e. Some (e, cyc + l)),
     ce_record = (\<lambda>_ _ _ e. Some e), ce_contextSwitch = Some, ce_notifyJoin = (\<lambda>cyc e. Some (e, cyc)), ce_notifyLeave = (\<lambda>_. Some),
     ce_cSimStart = (\<lambda>cyc e. Some (e, cyc)), ce_cSimEnd = (\<lambda>cyc e. Some (e, cyc)), ce_lineBits = 6\<rparr>"

lemma fixed_env_ok: "l < 2 ^ 64 \<Longrightarrow> core_env_ok (\<lambda>_. True) l (fixed_env l)"
  by (simp add: core_env_ok_def serves_def fixed_env_def)

definition add_uop :: dyn_uop where
  "add_uop = \<lparr>u_rs0 = 1, u_rs1 = 2, u_rd0 = 3, u_rd1 = 0, u_lat = 1, u_decCycle = 0, u_type = UOP_GENERAL, u_portMask = 35, u_extraSlots = 0\<rparr>"

definition load_uop :: dyn_uop where
  "load_uop = \<lparr>u_rs0 = 3, u_rs1 = 0, u_rd0 = 4, u_rd1 = 0, u_lat = 0, u_decCycle = 1, u_type = UOP_LOAD, u_portMask = 4, u_extraSlots = 0\<rparr>"

theorem block_completes_witness:
  "\<exists>c c'. ooo_load 0x1000 (OOOCore_new 16 10000 ()) = Some c \<and>
     ooo_bbl (fixed_env 3) 0x400000 \<lparr>bb_instrs = 2, bb_bytes = 9, bb_uop = [], bb_approxInstrs = 0\<rparr>
       (c\<lparr>o_prevBbl := Some \<lparr>bb_instrs = 2, bb_bytes = 7, bb_uop = [add_uop, load_uop], bb_approxInstrs = 0\<rparr>\<rparr>) = Some c' \<and>
     o_uops c' = 2 \<and> o_instrs c' = 2 \<and> o_loads c' = 0"
proof -
  let ?n = "OOOCore_new 16 10000 ()" let ?c = "?n\<lparr>o_loadAddrs := (o_loadAddrs ?n)[0 := 0x1000], o_loads := 1\<rparr>"
  let ?bbl = "\<lparr>bb_instrs = 2, bb_bytes = 7, bb_uop = [add_uop, load_uop], bb_approxInstrs = 0\<rparr>" let ?d = "?c\<lparr>o_prevBbl := Some ?bbl\<rparr>"
  let ?info = "\<lparr>bb_instrs = 2, bb_bytes = 9, bb_uop = [], bb_approxInstrs = 0\<rparr>"
  have n: "o_loads ?n = 0" "o_stores ?n = 0" "length (o_loadAddrs ?n) = 256" "length (o_regScoreboard ?n) = 16" "o_curCycle ?n = 0" "o_uops ?n = 0" "o_instrs ?n = 0"
    by (simp_all add: OOOCore_new_def)
  have l: "ooo_load 0x1000 ?n = Some ?c" using n by (simp add: ooo_load_def)
  have "ooo_ok 4 ?n" by (rule OOOCore_new_ok) simp
  then have ok: "ooo_ok 4 ?d" by (simp add: ooo_ok_def)
  have us: "uops_ok (length (o_regScoreboard ?d)) 1 0 (bb_uop ?bbl)" using n by (simp add: uop_ok_def add_uop_def load_uop_def)
  have "core_env_ok (\<lambda>_. True) 3 (fixed_env 3)" by (rule fixed_env_ok) simp
  from block_completes [OF ok this _ _ us, where bblAddr = "0x400000" and bblInfo = ?info and n = 1] n obtain c' where
    "ooo_bbl (fixed_env 3) 0x400000 ?info ?d = Some c'" "o_uops c' = 2" "o_instrs c' = 2" "o_loads c' = 0"
    by (auto simp: uops_of_def add_uop_def load_uop_def uop_reach_def fixed_env_def)
  then show ?thesis using l by blast
qed

text \<open>
  \<open>bbl\<close> drops the loads and stores that linger after a context switch, but not the branch: the branch of the block that is not simulated is predicted
  with the next one.
\<close>

lemma switch_keeps_branch:
  assumes "ce_contextSwitch env (o_env c) = Some e"
  shows "\<exists>c'. ooo_contextSwitch env True c \<bind> ooo_bbl env bblAddr bblInfo = Some c' \<and> o_loads c' = 0 \<and> o_stores c' = 0 \<and> o_branchPc c' = o_branchPc c"
  using assms by (simp add: ooo_contextSwitch_def ooo_bbl_def)

text \<open>The phases that a block has crossed are ended one by one, as long as the barrier returns the core unchanged.\<close>

lemma ooo_phases_end:
  assumes "0 < len"
  shows "\<exists>k. ooo_phases (\<lambda>c. Some (c, True)) len c = Some (c\<lparr>o_phaseEndCycle := o_phaseEndCycle c + k * len\<rparr>) \<and> o_curCycle c \<le> o_phaseEndCycle c + k * len \<and>
    (0 < k \<longrightarrow> o_phaseEndCycle c + (k - 1) * len < o_curCycle c)"
proof (induction "o_curCycle c - o_phaseEndCycle c" arbitrary: c rule: less_induct)
  case less
  show ?case
  proof (cases "o_curCycle c > o_phaseEndCycle c")
    case False
    then show ?thesis by (subst ooo_phases.simps) (intro exI [of _ 0], simp)
  next
    case True
    let ?c = "c\<lparr>o_phaseEndCycle := o_phaseEndCycle c + len\<rparr>"
    have "o_curCycle ?c - o_phaseEndCycle ?c < o_curCycle c - o_phaseEndCycle c" using True assms by simp
    from less.hyps [OF this] obtain k where
      k: "ooo_phases (\<lambda>c. Some (c, True)) len ?c = Some (?c\<lparr>o_phaseEndCycle := o_phaseEndCycle ?c + k * len\<rparr>)" "o_curCycle ?c \<le> o_phaseEndCycle ?c + k * len"
        "0 < k \<longrightarrow> o_phaseEndCycle ?c + (k - 1) * len < o_curCycle ?c" by blast
    have "ooo_phases (\<lambda>c. Some (c, True)) len c = Some (c\<lparr>o_phaseEndCycle := o_phaseEndCycle c + Suc k * len\<rparr>)"
      using True k(1) by (subst ooo_phases.simps) (simp add: add.assoc)
    moreover have "o_phaseEndCycle c + (Suc k - 1) * len < o_curCycle c" using k(3) True by (cases k) simp_all
    ultimately show ?thesis using k(2) by (intro exI [of _ "Suc k"]) (simp add: add.assoc)
  qed
qed

end
