(* ===== verification/Scheduler.thy ===== *)
theory Scheduler
  imports Barrier
begin

text \<open>
  The thread scheduler of \<^verbatim>\<open>src/scheduler.h\<close> and \<^verbatim>\<open>src/scheduler.cpp\<close> over the phase barrier: which simulated thread holds
  which core, and who wakes whom.

  \<^item> Every public operation takes \<open>schedLock\<close>, works, and gives it up when it returns or waits. One such critical section is one
    function here. The calling thread goes on when another operation changes its state.
  \<^item> The state is a barrier whose \<open>b_sched\<close> component is the scheduler, as the barrier calls back into the scheduler at the end of a phase.
  \<^item> \<open>ThreadInfo\<close> objects live in a heap, so that a pointer to a deleted one is a failure. The four intrusive lists are lists of
    addresses (threads) or of core numbers (contexts); the owner pointer of a node is the list that holds it.
  \<^item> Phase numbers are natural numbers.
  \<^item> \<open>s_log\<close> records the calls into the cores and the statistics, most recent first.
\<close>

section \<open>State\<close>

datatype thread_state = T_STARTED | T_RUNNING | T_OUT | T_BLOCKED | T_SLEEPING | T_QUEUED

datatype context_state = IDLE | USED

datatype futex_action = FJA_NONE | FJA_WAKE | FJA_WAIT

record futex_join =
  fj_action :: futex_action
  fj_maxWakes :: u32
  fj_wokenUp :: u32

record fake_leave =
  fl_pc :: u64
  fl_syscall :: int
  fl_arg0 :: u64
  fl_arg1 :: u64

record thread_info =
  th_gid :: u32
  th_linuxPid :: u32
  th_linuxTid :: u32
  th_state :: thread_state
  th_cid :: nat
  th_handoff :: "nat option"
  th_futexWord :: u32
  th_needsJoin :: bool
  th_marked :: bool
  th_wakeupPhase :: nat
  th_mask :: "bool list"
  th_fakeLeave :: "fake_leave option"
  th_futexJoin :: futex_join

record context_info =
  c_state :: context_state
  c_cur :: "nat option"

datatype core_call = CoreJoin nat | CoreLeave nat | CoreSwitch nat u32 | StatsDeschedule nat u32 | AtSync

record sched_stats =
  n_created :: u64
  n_finished :: u64
  n_schedule :: u64
  n_wait :: u64
  n_handoff :: u64
  n_sleep :: u64
  n_idlePhases :: u64
  n_idlePeriods :: u64
  n_occHist :: "u64 list"
  n_runQueueHist :: "u64 list"

record sched =
  s_numCores :: nat
  s_schedQuantum :: nat
  s_heap :: "nat \<rightharpoonup> thread_info"
  s_next :: nat
  s_gidMap :: "u32 \<rightharpoonup> nat"
  s_contexts :: "context_info list"
  s_freeList :: "nat list"
  s_runQueue :: "nat list"
  s_outQueue :: "nat list"
  s_sleepQueue :: "nat list"
  s_curPhase :: nat
  s_numPhases :: nat
  s_globPhaseCycles :: u64
  s_phaseLength :: u64
  s_scheduled :: nat
  s_pendingCleanups :: "(u32 \<times> u32) list"
  s_blocking :: "u64 set list"
  s_fakeLeaves :: "nat list"
  s_maxAllowed :: u32
  s_unmatched :: u32
  s_stats :: sched_stats
  s_log :: "core_call list"

definition getGid :: "u32 \<Rightarrow> u32 \<Rightarrow> u32" where "getGid pid tid = push_bit 16 pid OR tid"
definition getPid :: "u32 \<Rightarrow> u32" where "getPid gid = drop_bit 16 gid"
definition getTid :: "u32 \<Rightarrow> u32" where "getTid gid = gid AND 0x0FFFF"

text \<open>\<open>initStats\<close> sizes the two histograms.\<close>

definition initStats :: "nat \<Rightarrow> sched_stats" where
  "initStats n = \<lparr>n_created = 0, n_finished = 0, n_schedule = 0, n_wait = 0, n_handoff = 0, n_sleep = 0, n_idlePhases = 0, n_idlePeriods = 0,
     n_occHist = replicate (n + 1) 0, n_runQueueHist = replicate ((if n > 16 then n else 16) + 1) 0\<rparr>"

definition Scheduler_new :: "nat \<Rightarrow> nat \<Rightarrow> u64 \<Rightarrow> sched" where
  "Scheduler_new numCores schedQuantum phaseLength =
     \<lparr>s_numCores = numCores, s_schedQuantum = schedQuantum, s_heap = Map.empty, s_next = 0, s_gidMap = Map.empty,
      s_contexts = replicate numCores \<lparr>c_state = IDLE, c_cur = None\<rparr>, s_freeList = [0..<numCores],
      s_runQueue = [], s_outQueue = [], s_sleepQueue = [], s_curPhase = 0, s_numPhases = 0, s_globPhaseCycles = 0, s_phaseLength = phaseLength,
      s_scheduled = 0, s_pendingCleanups = [], s_blocking = replicate MAX_THREADS {}, s_fakeLeaves = [], s_maxAllowed = 0, s_unmatched = 0,
      s_stats = initStats numCores, s_log = []\<rparr>"

section \<open>Access to the heap and the lists\<close>

definition upd_th :: "nat \<Rightarrow> (thread_info \<Rightarrow> thread_info) \<Rightarrow> sched \<Rightarrow> sched option" where
  "upd_th a f s = do { t \<leftarrow> s_heap s a; Some (s\<lparr>s_heap := (s_heap s)(a \<mapsto> f t)\<rparr>) }"

definition upd_ctx :: "nat \<Rightarrow> context_info \<Rightarrow> sched \<Rightarrow> sched option" where
  "upd_ctx c x s = do { cs \<leftarrow> aset (s_contexts s) c x; Some (s\<lparr>s_contexts := cs\<rparr>) }"

definition log_call :: "core_call \<Rightarrow> sched \<Rightarrow> sched" where
  "log_call e s = s\<lparr>s_log := e # s_log s\<rparr>"

definition bump :: "(sched_stats \<Rightarrow> sched_stats) \<Rightarrow> sched \<Rightarrow> sched" where
  "bump f s = s\<lparr>s_stats := f (s_stats s)\<rparr>"

definition owned :: "sched \<Rightarrow> nat \<Rightarrow> bool" where
  "owned s a \<longleftrightarrow> a \<in> set (s_runQueue s) \<or> a \<in> set (s_outQueue s) \<or> a \<in> set (s_sleepQueue s)"

text \<open>\<open>InList::remove\<close> asserts that the list owns the node.\<close>

definition list_remove :: "'a \<Rightarrow> 'a list \<Rightarrow> 'a list option" where
  "list_remove a xs = (if a \<in> set xs then Some (remove1 a xs) else None)"

definition free_push :: "nat \<Rightarrow> sched \<Rightarrow> sched option" where
  "free_push c s = do { assert_that (c \<notin> set (s_freeList s)); Some (s\<lparr>s_freeList := s_freeList s @ [c]\<rparr>) }"

definition run_push :: "nat \<Rightarrow> sched \<Rightarrow> sched option" where
  "run_push a s = do { assert_that (\<not> owned s a); Some (s\<lparr>s_runQueue := s_runQueue s @ [a]\<rparr>) }"

definition out_push :: "nat \<Rightarrow> sched \<Rightarrow> sched option" where
  "out_push a s = do { assert_that (\<not> owned s a); Some (s\<lparr>s_outQueue := s_outQueue s @ [a]\<rparr>) }"

text \<open>The loops that walk a list to its first element with a property, reading memory on the way.\<close>

fun first_with :: "('a \<Rightarrow> bool option) \<Rightarrow> 'a list \<Rightarrow> 'a option option" where
  "first_with p [] = Some None"
| "first_with p (x # xs) = do { r \<leftarrow> p x; if r then Some (Some x) else first_with p xs }"

section \<open>Threads and contexts\<close>

definition schedule :: "nat \<Rightarrow> nat \<Rightarrow> sched \<Rightarrow> sched option" where
  "schedule a c s = do {
     t \<leftarrow> s_heap s a;
     x \<leftarrow> aget (s_contexts s) c;
     assert_that (th_state t = T_STARTED \<or> th_state t = T_BLOCKED \<or> th_state t = T_QUEUED);
     assert_that (c_state x = IDLE);
     assert_that (c_cur x = None);
     s \<leftarrow> upd_th a (\<lambda>t. t\<lparr>th_state := T_RUNNING, th_cid := c\<rparr>) s;
     s \<leftarrow> upd_ctx c \<lparr>c_state = USED, c_cur = Some a\<rparr> s;
     let s = bump (\<lambda>n. n\<lparr>n_schedule := n_schedule n + 1\<rparr>) s;
     let s = s\<lparr>s_scheduled := s_scheduled s + 1\<rparr>;
     Some (log_call (CoreSwitch c (th_gid t)) s) }"

definition deschedule :: "nat \<Rightarrow> nat \<Rightarrow> thread_state \<Rightarrow> sched \<Rightarrow> sched option" where
  "deschedule a c target s = do {
     t \<leftarrow> s_heap s a;
     x \<leftarrow> aget (s_contexts s) c;
     assert_that (th_state t = T_RUNNING \<or> th_state t = T_OUT);
     assert_that (c_state x = USED);
     assert_that (c = th_cid t);
     assert_that (c_cur x = Some a);
     assert_that (target = T_BLOCKED \<or> target = T_QUEUED \<or> target = T_SLEEPING);
     s \<leftarrow> upd_th a (\<lambda>t. t\<lparr>th_state := target\<rparr>) s;
     s \<leftarrow> upd_ctx c \<lparr>c_state = IDLE, c_cur = None\<rparr> s;
     n \<leftarrow> dec (s_scheduled s);
     let s = log_call (CoreSwitch c (- 1)) (s\<lparr>s_scheduled := n\<rparr>);
     Some (log_call (StatsDeschedule c (getPid (th_gid t))) s) }"

text \<open>\<open>wakeup\<close> panics when the thread was not waiting. What follows it in the code waits until the kernel reports the thread asleep on
  \<open>schedLock\<close> and changes nothing.\<close>

definition wakeup :: "nat \<Rightarrow> bool \<Rightarrow> sched \<Rightarrow> sched option" where
  "wakeup a needsJoin s = do {
     s \<leftarrow> upd_th a (\<lambda>t. t\<lparr>th_needsJoin := needsJoin\<rparr>) s;
     t \<leftarrow> s_heap s a;
     assert_that (th_futexWord t = 1);
     upd_th a (\<lambda>t. t\<lparr>th_futexWord := 0\<rparr>) s }"

text \<open>The first part of \<open>waitForContext\<close>, up to the wait. The thread does nothing after it, because every \<open>wakeup\<close> passes
  \<open>needsJoin = false\<close>.\<close>

definition waitForContext :: "nat \<Rightarrow> sched \<Rightarrow> sched option" where
  "waitForContext a s = do {
     s \<leftarrow> upd_th a (\<lambda>t. t\<lparr>th_futexWord := 1\<rparr>) s;
     Some (bump (\<lambda>n. n\<lparr>n_wait := n_wait n + 1\<rparr>) s) }"

section \<open>The scheduling policy\<close>

definition allows :: "sched \<Rightarrow> nat \<Rightarrow> nat \<Rightarrow> bool option" where
  "allows s a c = do { t \<leftarrow> s_heap s a; aget (th_mask t) c }"

definition take_own :: "nat \<Rightarrow> sched \<Rightarrow> (nat option \<times> sched) option" where
  "take_own a s = do {
     t \<leftarrow> s_heap s a;
     assert_that (th_cid t < s_numCores s);
     x \<leftarrow> aget (s_contexts s) (th_cid t);
     if c_state x = IDLE then do {
       ok \<leftarrow> allows s a (th_cid t);
       if ok then do { fl \<leftarrow> list_remove (th_cid t) (s_freeList s); Some (Some (th_cid t), s\<lparr>s_freeList := fl\<rparr>) }
       else Some (None, s) }
     else Some (None, s) }"

definition take_free :: "nat \<Rightarrow> sched \<Rightarrow> (nat option \<times> sched) option" where
  "take_free a s = do {
     r \<leftarrow> first_with (allows s a) (s_freeList s);
     case r of None \<Rightarrow> Some (None, s)
     | Some c \<Rightarrow> do { fl \<leftarrow> list_remove c (s_freeList s); Some (Some c, s\<lparr>s_freeList := fl\<rparr>) } }"

definition steal_out :: "nat \<Rightarrow> sched \<Rightarrow> (nat option \<times> sched) option" where
  "steal_out a s = do {
     r \<leftarrow> first_with (\<lambda>o'. do { t \<leftarrow> s_heap s o'; allows s a (th_cid t) }) (s_outQueue s);
     case r of None \<Rightarrow> Some (None, s)
     | Some o' \<Rightarrow> do {
         t \<leftarrow> s_heap s o';
         oq \<leftarrow> list_remove o' (s_outQueue s);
         s \<leftarrow> deschedule o' (th_cid t) T_BLOCKED (s\<lparr>s_outQueue := oq\<rparr>);
         Some (Some (th_cid t), s) } }"

definition schedThread :: "nat \<Rightarrow> sched \<Rightarrow> (nat option \<times> sched) option" where
  "schedThread a s = do {
     (c, s) \<leftarrow> take_own a s;
     (c, s) \<leftarrow> (if c = None then take_free a s else Some (c, s));
     (c, s) \<leftarrow> (if c = None then steal_out a s else Some (c, s));
     case c of None \<Rightarrow> Some (c, s)
     | Some k \<Rightarrow> do { ok \<leftarrow> allows s a k; assert_that ok; Some (c, s) } }"

definition schedContext :: "nat \<Rightarrow> sched \<Rightarrow> (nat option \<times> sched) option" where
  "schedContext c s = do {
     r \<leftarrow> first_with (\<lambda>a. allows s a c) (s_runQueue s);
     case r of None \<Rightarrow> Some (None, s)
     | Some a \<Rightarrow> do { rq \<leftarrow> list_remove a (s_runQueue s); Some (Some a, s\<lparr>s_runQueue := rq\<rparr>) } }"

text \<open>The time slice: a random order of the cores, and for every queued thread the first core it may use whose thread has not been picked.\<close>

fun fisher_yates :: "(nat \<Rightarrow> nat) \<Rightarrow> nat \<Rightarrow> nat list \<Rightarrow> nat list option" where
  "fisher_yates rs 0 xs = Some xs"
| "fisher_yates rs (Suc i) xs = do {
     x \<leftarrow> aget xs (Suc i);
     y \<leftarrow> aget xs (rs (Suc i));
     xs \<leftarrow> aset xs (Suc i) y;
     xs \<leftarrow> aset xs (rs (Suc i)) x;
     fisher_yates rs i xs }"

fun tick_loop :: "nat list \<Rightarrow> nat list \<Rightarrow> sched \<Rightarrow> sched option" where
  "tick_loop [] avail s = Some s"
| "tick_loop (a # q) avail s =
     (if avail = [] then Some s else do {
        r \<leftarrow> first_with (allows s a) avail;
        case r of None \<Rightarrow> tick_loop q avail s
        | Some c \<Rightarrow> do {
            x \<leftarrow> aget (s_contexts s) c;
            v \<leftarrow> c_cur x;
            s \<leftarrow> upd_th v (\<lambda>t. t\<lparr>th_handoff := Some a\<rparr>) s;
            rq \<leftarrow> list_remove a (s_runQueue s);
            tick_loop q (remove1 c avail) (s\<lparr>s_runQueue := rq\<rparr>) } })"

definition schedTick :: "(nat \<Rightarrow> nat) \<Rightarrow> sched \<Rightarrow> sched option" where
  "schedTick rs s = do {
     avail \<leftarrow> fisher_yates rs (s_numCores s - 1) [0..<s_numCores s];
     tick_loop (s_runQueue s) avail s }"

section \<open>End of a phase\<close>

text \<open>The loop over \<open>sleepQueue\<close>; it pops one thread in each turn.\<close>

fun wake_sleepers :: "nat list \<Rightarrow> sched \<Rightarrow> sched option" where
  "wake_sleepers [] s = Some s"
| "wake_sleepers (a # q) s = do {
     t \<leftarrow> s_heap s a;
     if th_wakeupPhase t \<le> s_curPhase s then do {
       assert_that (th_wakeupPhase t = s_curPhase s);
       s \<leftarrow> upd_th a (\<lambda>t. t\<lparr>th_state := T_BLOCKED\<rparr>) s;
       s \<leftarrow> wakeup a False s;
       wake_sleepers q (s\<lparr>s_sleepQueue := tl (s_sleepQueue s)\<rparr>) }
     else Some s }"

definition hist_inc :: "nat \<Rightarrow> u64 list \<Rightarrow> u64 list option" where
  "hist_inc i xs = do { v \<leftarrow> aget xs i; aset xs i (v + 1) }"

definition phase_stats :: "sched \<Rightarrow> sched option" where
  "phase_stats s = do {
     assert_that (s_scheduled s \<le> s_numCores s);
     occ \<leftarrow> hist_inc (s_scheduled s) (n_occHist (s_stats s));
     let len = length (n_runQueueHist (s_stats s));
     let rqPos = (if length (s_runQueue s) < len - 1 then length (s_runQueue s) else len - 1);
     rq \<leftarrow> hist_inc rqPos (n_runQueueHist (s_stats s));
     Some (bump (\<lambda>n. n\<lparr>n_occHist := occ, n_runQueueHist := rq\<rparr>) s) }"

definition callback :: "(nat \<Rightarrow> nat) \<Rightarrow> sched \<Rightarrow> sched option" where
  "callback rs s = do {
     s \<leftarrow> phase_stats s;
     let s = log_call AtSync s;
     let s = s\<lparr>s_numPhases := s_numPhases s + 1, s_globPhaseCycles := s_globPhaseCycles s + s_phaseLength s, s_curPhase := s_curPhase s + 1\<rparr>;
     assert_that (s_curPhase s = s_numPhases s);
     s \<leftarrow> wake_sleepers (s_sleepQueue s) s;
     if s_runQueue s = [] then Some s
     else do {
       assert_that (s_schedQuantum s \<noteq> 0);
       if s_curPhase s mod s_schedQuantum s = 0 then schedTick rs s else Some s } }"

section \<open>Fake leaves\<close>

definition finishFakeLeave :: "nat \<Rightarrow> sched \<Rightarrow> sched option" where
  "finishFakeLeave a s = do {
     t \<leftarrow> s_heap s a;
     assert_that (th_fakeLeave t \<noteq> None);
     assert_that (th_state t = T_RUNNING);
     fls \<leftarrow> list_remove a (s_fakeLeaves s);
     upd_th a (\<lambda>t. t\<lparr>th_fakeLeave := None\<rparr>) (s\<lparr>s_fakeLeaves := fls\<rparr>) }"

definition begin_fake_leave :: "nat \<Rightarrow> fake_leave \<Rightarrow> sched \<Rightarrow> sched option" where
  "begin_fake_leave a fl s = do {
     t \<leftarrow> s_heap s a;
     assert_that (th_fakeLeave t = None);
     s \<leftarrow> upd_th a (\<lambda>t. t\<lparr>th_fakeLeave := Some fl\<rparr>) s;
     assert_that (a \<notin> set (s_fakeLeaves s));
     Some (s\<lparr>s_fakeLeaves := s_fakeLeaves s @ [a]\<rparr>) }"

section \<open>Operations of the scheduler\<close>

text \<open>The constructor sets neither \<open>needsJoin\<close> nor the two counts of \<open>futexJoin\<close>; \<open>wakeup\<close> and the futex notifications write them
  before they are read.\<close>

definition ThreadInfo_new :: "nat \<Rightarrow> u32 \<Rightarrow> u32 \<Rightarrow> u32 \<Rightarrow> bool list \<Rightarrow> thread_info option" where
  "ThreadInfo_new numCores gid linuxPid linuxTid cmask = do {
     assert_that (length cmask = numCores);
     assert_that (length (filter id cmask) \<noteq> 0);
     Some \<lparr>th_gid = gid, th_linuxPid = linuxPid, th_linuxTid = linuxTid, th_state = T_STARTED, th_cid = 0, th_handoff = None, th_futexWord = 0,
       th_needsJoin = False, th_marked = False, th_wakeupPhase = 0, th_mask = cmask, th_fakeLeave = None,
       th_futexJoin = \<lparr>fj_action = FJA_NONE, fj_maxWakes = 0, fj_wokenUp = 0\<rparr>\<rparr> }"

definition sched_start :: "u32 \<Rightarrow> u32 \<Rightarrow> bool list \<Rightarrow> u32 \<Rightarrow> u32 \<Rightarrow> sched \<Rightarrow> sched option" where
  "sched_start pid tid cmask linuxPid linuxTid s = do {
     let gid = getGid pid tid;
     assert_that (s_gidMap s gid = None);
     t \<leftarrow> ThreadInfo_new (s_numCores s) gid linuxPid linuxTid cmask;
     Some (bump (\<lambda>n. n\<lparr>n_created := n_created n + 1\<rparr>)
       (s\<lparr>s_heap := (s_heap s)(s_next s \<mapsto> t), s_gidMap := (s_gidMap s)(gid \<mapsto> s_next s), s_next := s_next s + 1\<rparr>)) }"

text \<open>\<open>in_sched f\<close> runs a critical section that does not touch the barrier.\<close>

definition in_sched :: "(sched \<Rightarrow> sched option) \<Rightarrow> sched barrier \<Rightarrow> sched barrier option" where
  "in_sched f b = do { s \<leftarrow> f (b_sched b); Some (b\<lparr>b_sched := s\<rparr>) }"

definition early_wake :: "nat \<Rightarrow> sched \<Rightarrow> sched option" where
  "early_wake a s = do {
     t \<leftarrow> s_heap s a;
     if th_state t = T_SLEEPING then do {
       sq \<leftarrow> list_remove a (s_sleepQueue s);
       upd_th a (\<lambda>t. t\<lparr>th_state := T_BLOCKED\<rparr>) (s\<lparr>s_sleepQueue := sq\<rparr>) }
     else Some s }"

definition core_join :: "(nat \<Rightarrow> nat) \<Rightarrow> (nat \<Rightarrow> nat) \<Rightarrow> nat \<Rightarrow> sched \<Rightarrow> sched barrier \<Rightarrow> sched barrier option" where
  "core_join rs shuf c s b = bar_join (callback rs) shuf c (b\<lparr>b_sched := log_call (CoreJoin c) s\<rparr>)"

text \<open>\<open>join\<close> after the futex bookkeeping at its start.\<close>

definition sched_join :: "(nat \<Rightarrow> nat) \<Rightarrow> (nat \<Rightarrow> nat) \<Rightarrow> nat \<Rightarrow> sched barrier \<Rightarrow> sched barrier option" where
  "sched_join rs shuf a b = do {
     t \<leftarrow> s_heap (b_sched b) a;
     if th_fakeLeave t \<noteq> None then in_sched (finishFakeLeave a) b
     else do {
       assert_that (\<not> th_marked t);
       s \<leftarrow> early_wake a (b_sched b);
       t \<leftarrow> s_heap s a;
       if th_state t = T_OUT then do {
         s \<leftarrow> upd_th a (\<lambda>t. t\<lparr>th_state := T_RUNNING\<rparr>) s;
         oq \<leftarrow> list_remove a (s_outQueue s);
         core_join rs shuf (th_cid t) (s\<lparr>s_outQueue := oq\<rparr>) b }
       else do {
         assert_that (th_state t = T_BLOCKED \<or> th_state t = T_STARTED);
         (r, s) \<leftarrow> schedThread a s;
         case r of
           Some c \<Rightarrow> do { s \<leftarrow> schedule a c s; core_join rs shuf c s b }
         | None \<Rightarrow> do {
             s \<leftarrow> upd_th a (\<lambda>t. t\<lparr>th_state := T_QUEUED\<rparr>) s;
             s \<leftarrow> run_push a s;
             s \<leftarrow> waitForContext a s;
             Some (b\<lparr>b_sched := s\<rparr>) } } } }"

text \<open>The ordered insertion into \<open>sleepQueue\<close>.\<close>

fun insert_after :: "sched \<Rightarrow> nat \<Rightarrow> nat \<Rightarrow> nat list \<Rightarrow> nat list option" where
  "insert_after s w a (x # y # zs) = do {
     t \<leftarrow> s_heap s y;
     if th_wakeupPhase t \<le> w then do { r \<leftarrow> insert_after s w a (y # zs); Some (x # r) }
     else Some (x # a # y # zs) }"
| "insert_after s w a [x] = Some [x, a]"
| "insert_after s w a [] = None"

definition sleep_insert :: "nat \<Rightarrow> sched \<Rightarrow> sched option" where
  "sleep_insert a s = do {
     assert_that (\<not> owned s a);
     t \<leftarrow> s_heap s a;
     let w = th_wakeupPhase t;
     q \<leftarrow> (case s_sleepQueue s of
       [] \<Rightarrow> Some [a]
     | x # xs \<Rightarrow> do {
         tx \<leftarrow> s_heap s x;
         if th_wakeupPhase tx > w then Some (a # x # xs) else insert_after s w a (x # xs) });
     Some (bump (\<lambda>n. n\<lparr>n_sleep := n_sleep n + 1\<rparr>) (s\<lparr>s_sleepQueue := q\<rparr>)) }"

text \<open>A thread from the run queue takes over a context that never left the barrier.\<close>

definition take_over :: "nat \<Rightarrow> nat \<Rightarrow> sched \<Rightarrow> sched option" where
  "take_over inTh c s = do {
     s \<leftarrow> schedule inTh c s;
     wakeup inTh False (log_call (CoreJoin c) s) }"

definition sched_leave :: "(nat \<Rightarrow> nat) \<Rightarrow> (nat \<Rightarrow> nat) \<Rightarrow> u32 \<Rightarrow> nat \<Rightarrow> sched barrier \<Rightarrow> sched barrier option" where
  "sched_leave rs shuf gid c b = do {
     let s = b_sched b;
     x \<leftarrow> aget (s_contexts s) c;
     a \<leftarrow> c_cur x;
     t \<leftarrow> s_heap s a;
     assert_that (th_gid t = gid);
     assert_that (th_state t = T_RUNNING);
     let s = log_call (CoreLeave c) s;
     if th_marked t then do {
       s \<leftarrow> upd_th a (\<lambda>t. t\<lparr>th_marked := False\<rparr>) s;
       s \<leftarrow> deschedule a c T_SLEEPING s;
       s \<leftarrow> sleep_insert a s;
       (r, s) \<leftarrow> schedContext c s;
       case r of
         Some inTh \<Rightarrow> do { s \<leftarrow> take_over inTh c s; Some (b\<lparr>b_sched := s\<rparr>) }
       | None \<Rightarrow> do { s \<leftarrow> free_push c s; bar_leave (callback rs) shuf c (b\<lparr>b_sched := s\<rparr>) } }
     else do {
       (r, s) \<leftarrow> schedContext c s;
       case r of
         Some inTh \<Rightarrow> do {
           s \<leftarrow> deschedule a c T_BLOCKED s;
           s \<leftarrow> take_over inTh c s;
           Some (b\<lparr>b_sched := s\<rparr>) }
       | None \<Rightarrow> do {
           ok \<leftarrow> allows s a (th_cid t);
           if \<not> ok then do {
             s \<leftarrow> deschedule a c T_BLOCKED s;
             s \<leftarrow> free_push c s;
             bar_leave (callback rs) shuf c (b\<lparr>b_sched := s\<rparr>) }
           else do {
             s \<leftarrow> upd_th a (\<lambda>t. t\<lparr>th_state := T_OUT\<rparr>) s;
             s \<leftarrow> out_push a s;
             bar_leave (callback rs) shuf c (b\<lparr>b_sched := s\<rparr>) } } } }"

text \<open>\<open>sync\<close> up to the wait in the barrier, and what the thread does when it has been woken up.\<close>

definition sched_sync :: "(nat \<Rightarrow> nat) \<Rightarrow> (nat \<Rightarrow> nat) \<Rightarrow> nat \<Rightarrow> sched barrier \<Rightarrow> sched barrier option" where
  "sched_sync rs shuf c b = do {
     x \<leftarrow> aget (s_contexts (b_sched b)) c;
     a \<leftarrow> c_cur x;
     t \<leftarrow> s_heap (b_sched b) a;
     assert_that (\<not> th_marked t);
     bar_sync (callback rs) shuf c b }"

definition sync_return :: "(nat \<Rightarrow> nat) \<Rightarrow> (nat \<Rightarrow> nat) \<Rightarrow> nat \<Rightarrow> sched barrier \<Rightarrow> sched barrier option" where
  "sync_return rs shuf a b = do {
     let s = b_sched b;
     t \<leftarrow> s_heap s a;
     case th_handoff t of
       None \<Rightarrow> do { assert_that (th_state t = T_RUNNING); Some b }
     | Some dst \<Rightarrow> do {
         s \<leftarrow> upd_th a (\<lambda>t. t\<lparr>th_handoff := None\<rparr>) s;
         s \<leftarrow> deschedule a (th_cid t) T_QUEUED s;
         s \<leftarrow> schedule dst (th_cid t) s;
         s \<leftarrow> wakeup dst False s;
         let s = bump (\<lambda>n. n\<lparr>n_handoff := n_handoff n + 1\<rparr>) s;
         (r, s) \<leftarrow> schedThread a s;
         case r of
           Some c \<Rightarrow> do { s \<leftarrow> schedule a c s; core_join rs shuf c s b }
         | None \<Rightarrow> do {
             s \<leftarrow> run_push a s;
             s \<leftarrow> waitForContext a s;
             Some (b\<lparr>b_sched := s\<rparr>) } } }"

definition markForSleep :: "nat \<Rightarrow> nat \<Rightarrow> sched \<Rightarrow> sched option" where
  "markForSleep a wakeupPhase s = do {
     t \<leftarrow> s_heap s a;
     assert_that (\<not> th_marked t);
     upd_th a (\<lambda>t. t\<lparr>th_marked := True, th_wakeupPhase := wakeupPhase, th_futexWord := 1\<rparr>) s }"

definition isSleeping :: "nat \<Rightarrow> sched \<Rightarrow> bool option" where
  "isSleeping a s = do { t \<leftarrow> s_heap s a; Some (th_state t = T_SLEEPING) }"

definition notifySleepEnd :: "nat \<Rightarrow> sched \<Rightarrow> sched option" where
  "notifySleepEnd a s = do {
     t \<leftarrow> s_heap s a;
     assert_that (\<not> th_marked t);
     assert_that (th_state t = T_SLEEPING \<or> th_state t = T_BLOCKED);
     if th_state t = T_BLOCKED then Some s
     else do {
       sq \<leftarrow> list_remove a (s_sleepQueue s);
       upd_th a (\<lambda>t. t\<lparr>th_state := T_BLOCKED\<rparr>) (s\<lparr>s_sleepQueue := sq\<rparr>) } }"

definition syscallLeave :: "(nat \<Rightarrow> nat) \<Rightarrow> (nat \<Rightarrow> nat) \<Rightarrow> u32 \<Rightarrow> u32 \<Rightarrow> nat \<Rightarrow> fake_leave \<Rightarrow> sched barrier \<Rightarrow> sched barrier option" where
  "syscallLeave rs shuf pid tid c fl b = do {
     let s = b_sched b;
     x \<leftarrow> aget (s_contexts s) c;
     a \<leftarrow> c_cur x;
     t \<leftarrow> s_heap s a;
     assert_that (th_gid t = getGid pid tid);
     assert_that (th_cid t = c);
     assert_that (th_state t = T_RUNNING);
     bl \<leftarrow> aget (s_blocking s) (unat pid);
     ok \<leftarrow> allows s a c;
     if fl_pc fl \<in> bl \<or> th_marked t \<or> \<not> ok then sched_leave rs shuf (getGid pid tid) c b
     else in_sched (begin_fake_leave a fl) b }"

definition getScheduledPid :: "nat \<Rightarrow> sched \<Rightarrow> u32 option" where
  "getScheduledPid c s = do {
     x \<leftarrow> aget (s_contexts s) c;
     if c_state x = USED then do { a \<leftarrow> c_cur x; t \<leftarrow> s_heap s a; Some (getPid (th_gid t)) } else Some (- 1) }"

definition getMask :: "u32 \<Rightarrow> u32 \<Rightarrow> sched \<Rightarrow> bool list option" where
  "getMask pid tid s = (case s_gidMap s (getGid pid tid) of
     None \<Rightarrow> Some (replicate (s_numCores s) True)
   | Some a \<Rightarrow> do { t \<leftarrow> s_heap s a; Some (th_mask t) })"

definition updateMask :: "u32 \<Rightarrow> u32 \<Rightarrow> bool list \<Rightarrow> sched \<Rightarrow> sched option" where
  "updateMask pid tid cmask s = (case s_gidMap s (getGid pid tid) of
     None \<Rightarrow> Some s
   | Some a \<Rightarrow> do {
       assert_that (length cmask = s_numCores s);
       assert_that (length (filter id cmask) \<noteq> 0);
       upd_th a (\<lambda>t. t\<lparr>th_mask := cmask\<rparr>) s })"

subsection \<open>Threads that end\<close>

text \<open>\<open>finish\<close> gives the lock up around each \<open>leave\<close> it makes; these are its critical sections, and \<open>sched_finish\<close> runs them in
  order.\<close>

definition finish_begin :: "u32 \<Rightarrow> sched \<Rightarrow> (nat \<times> bool \<times> sched) option" where
  "finish_begin gid s = do {
     a \<leftarrow> s_gidMap s gid;
     t \<leftarrow> s_heap s a;
     let s = s\<lparr>s_gidMap := (s_gidMap s)(gid := None)\<rparr>;
     if th_fakeLeave t \<noteq> None then do { s \<leftarrow> finishFakeLeave a s; Some (a, True, s) } else Some (a, False, s) }"

definition finish_end :: "nat \<Rightarrow> sched \<Rightarrow> sched option" where
  "finish_end a s = do {
     t \<leftarrow> s_heap s a;
     assert_that (th_state t = T_STARTED \<or> th_state t = T_OUT \<or> th_state t = T_BLOCKED \<or> th_state t = T_QUEUED);
     s \<leftarrow> (if th_state t = T_QUEUED then do { rq \<leftarrow> list_remove a (s_runQueue s); Some (s\<lparr>s_runQueue := rq\<rparr>) }
           else if owned s a then do {
             oq \<leftarrow> list_remove a (s_outQueue s);
             s \<leftarrow> deschedule a (th_cid t) T_BLOCKED (s\<lparr>s_outQueue := oq\<rparr>);
             free_push (th_cid t) s }
           else Some s);
     Some (bump (\<lambda>n. n\<lparr>n_finished := n_finished n + 1\<rparr>) (s\<lparr>s_heap := (s_heap s)(a := None)\<rparr>)) }"

definition leave_if :: "(nat \<Rightarrow> nat) \<Rightarrow> (nat \<Rightarrow> nat) \<Rightarrow> u32 \<Rightarrow> nat \<Rightarrow> bool \<Rightarrow> sched barrier \<Rightarrow> sched barrier option" where
  "leave_if rs shuf gid a flag b =
     (if flag then do { t \<leftarrow> s_heap (b_sched b) a; sched_leave rs shuf gid (th_cid t) b } else Some b)"

definition sched_finish :: "(nat \<Rightarrow> nat) \<Rightarrow> (nat \<Rightarrow> nat) \<Rightarrow> u32 \<Rightarrow> sched barrier \<Rightarrow> sched barrier option" where
  "sched_finish rs shuf gid b = do {
     (a, fake, s) \<leftarrow> finish_begin gid (b_sched b);
     b \<leftarrow> leave_if rs shuf gid a fake (b\<lparr>b_sched := s\<rparr>);
     t \<leftarrow> s_heap (b_sched b) a;
     b \<leftarrow> leave_if rs shuf gid a (th_state t = T_RUNNING) b;
     in_sched (finish_end a) b }"

end
