(* ===== verification/SchedInv.thy ===== *)
theory SchedInv
  imports Scheduler
begin

text \<open>
  The invariant of the scheduler and the proof that the pieces of its critical sections keep it.

  Inside a critical section a context can be free and not yet on the free list, and a thread can be off the list that its state
  asks for. The invariant \<open>sinv k F R\<close> carries these contexts \<open>F\<close> and threads \<open>R\<close>; \<open>k\<close> is the phase that no sleeper's deadline has
  reached. Between critical sections both sets are empty and \<open>k\<close> is the current phase.

  The views and the parts of the invariant are functions of the fields they read, so that an update of another field leaves
  them alone.
\<close>

section \<open>Views of the heap and the contexts\<close>

type_synonym thread_heap = "nat \<rightharpoonup> thread_info"

definition tst :: "thread_heap \<Rightarrow> nat \<rightharpoonup> thread_state" where
  "tst h a = map_option th_state (h a)"

definition cur :: "context_info list \<Rightarrow> nat \<rightharpoonup> nat" where
  "cur cs c = c_cur (cs ! c)"

definition run_on :: "thread_heap \<Rightarrow> context_info list \<Rightarrow> nat \<Rightarrow> bool" where
  "run_on h cs c \<longleftrightarrow> (\<exists>a. cur cs c = Some a \<and> tst h a = Some T_RUNNING)"

definition hand :: "thread_heap \<Rightarrow> nat \<rightharpoonup> nat" where
  "hand h a = h a \<bind> th_handoff"

definition wake :: "thread_heap \<Rightarrow> nat \<Rightarrow> nat" where
  "wake h a = (case h a of None \<Rightarrow> 0 | Some t \<Rightarrow> th_wakeupPhase t)"

definition may :: "thread_heap \<Rightarrow> nat \<Rightarrow> nat \<Rightarrow> bool" where
  "may h a c \<longleftrightarrow> (case h a of None \<Rightarrow> False | Some t \<Rightarrow> th_mask t ! c)"

definition faked :: "thread_heap \<Rightarrow> nat \<Rightarrow> bool" where
  "faked h a \<longleftrightarrow> (case h a of None \<Rightarrow> False | Some t \<Rightarrow> th_fakeLeave t \<noteq> None)"

lemma heap_views [simp]:
  "tst (h(a \<mapsto> t)) = (tst h)(a \<mapsto> th_state t)" "hand (h(a \<mapsto> t)) = (hand h)(a := th_handoff t)"
  "wake (h(a \<mapsto> t)) = (wake h)(a := th_wakeupPhase t)" "may (h(a \<mapsto> t)) = (may h)(a := (!) (th_mask t))"
  "faked (h(a \<mapsto> t)) = (faked h)(a := th_fakeLeave t \<noteq> None)"
  by (auto simp: fun_eq_iff tst_def hand_def wake_def may_def faked_def)

lemma same_view:
  assumes "h a = Some t"
  shows "(tst h)(a \<mapsto> th_state t) = tst h" "(hand h)(a := th_handoff t) = hand h" "(wake h)(a := th_wakeupPhase t) = wake h"
    "(may h)(a := (!) (th_mask t)) = may h" "(faked h)(a := (\<exists>y. th_fakeLeave t = Some y)) = faked h"
  using assms by (auto simp: fun_eq_iff tst_def hand_def wake_def may_def faked_def)

lemma cur_update [simp]: "c < length cs \<Longrightarrow> cur (cs[c := x]) = (cur cs)(c := c_cur x)"
  by (auto simp: fun_eq_iff cur_def nth_list_update)

section \<open>Invariant\<close>

definition i_ctx :: "nat \<Rightarrow> thread_heap \<Rightarrow> context_info list \<Rightarrow> bool" where
  "i_ctx n h cs \<longleftrightarrow> length cs = n \<and>
     (\<forall>c < n. (c_state (cs ! c) = USED \<longleftrightarrow> cur cs c \<noteq> None) \<and>
       (\<forall>a. cur cs c = Some a \<longrightarrow> (\<exists>t. h a = Some t \<and> th_cid t = c \<and> (th_state t = T_RUNNING \<or> th_state t = T_OUT))))"

definition thr_ok :: "nat \<Rightarrow> bool \<Rightarrow> nat \<Rightarrow> context_info list \<Rightarrow> nat \<Rightarrow> thread_info \<Rightarrow> bool" where
  "thr_ok k fl n cs a t \<longleftrightarrow> th_cid t < n \<and> length (th_mask t) = n \<and> True \<in> set (th_mask t) \<and>
     (th_state t = T_RUNNING \<or> th_state t = T_OUT \<longrightarrow> cur cs (th_cid t) = Some a) \<and>
     (th_state t = T_QUEUED \<longrightarrow> \<not> fl \<longrightarrow> th_futexWord t = 1) \<and>
     (th_state t = T_SLEEPING \<longrightarrow> th_futexWord t = 1 \<and> k < th_wakeupPhase t) \<and>
     (th_marked t \<longrightarrow> th_state t = T_RUNNING \<and> th_futexWord t = 1 \<and> k < th_wakeupPhase t) \<and>
     (th_fakeLeave t \<noteq> None \<longrightarrow> th_state t = T_RUNNING \<and> \<not> th_marked t) \<and>
     (th_handoff t \<noteq> None \<longrightarrow> th_state t = T_RUNNING \<and> \<not> th_marked t \<and> th_fakeLeave t = None)"

definition i_thr :: "nat \<Rightarrow> nat set \<Rightarrow> nat \<Rightarrow> nat \<Rightarrow> thread_heap \<Rightarrow> context_info list \<Rightarrow> bool" where
  "i_thr k R n nx h cs \<longleftrightarrow> (\<forall>a t. h a = Some t \<longrightarrow> a < nx \<and> thr_ok k (a \<in> R) n cs a t)"

definition i_free :: "nat set \<Rightarrow> nat \<Rightarrow> context_info list \<Rightarrow> nat list \<Rightarrow> bool" where
  "i_free F n cs fl \<longleftrightarrow> distinct fl \<and> (\<forall>c. c \<in> set fl \<longleftrightarrow> c < n \<and> cur cs c = None \<and> c \<notin> F) \<and> (\<forall>c \<in> F. c < n \<and> cur cs c = None)"

definition i_out :: "nat set \<Rightarrow> (nat \<rightharpoonup> thread_state) \<Rightarrow> nat list \<Rightarrow> bool" where
  "i_out R T oq \<longleftrightarrow> distinct oq \<and> (\<forall>a. a \<in> set oq \<longleftrightarrow> T a = Some T_OUT \<and> a \<notin> R)"

definition i_sleep :: "nat set \<Rightarrow> (nat \<rightharpoonup> thread_state) \<Rightarrow> (nat \<Rightarrow> nat) \<Rightarrow> nat list \<Rightarrow> bool" where
  "i_sleep R T w sq \<longleftrightarrow> distinct sq \<and> (\<forall>a. a \<in> set sq \<longleftrightarrow> T a = Some T_SLEEPING \<and> a \<notin> R) \<and> sorted (map w sq)"

text \<open>A queued thread is on the run queue, or some thread hands its context to it, or it is in \<open>R\<close>.\<close>

definition i_run :: "nat set \<Rightarrow> (nat \<rightharpoonup> thread_state) \<Rightarrow> (nat \<rightharpoonup> nat) \<Rightarrow> nat list \<Rightarrow> bool" where
  "i_run R T H rq \<longleftrightarrow> distinct rq \<and> (\<forall>a. a \<in> set rq \<longleftrightarrow> T a = Some T_QUEUED \<and> a \<notin> ran H \<and> a \<notin> R) \<and>
     (\<forall>a \<in> ran H. a \<notin> R \<and> T a = Some T_QUEUED) \<and>
     (\<forall>a b d. H a = Some d \<longrightarrow> H b = Some d \<longrightarrow> a = b)"

text \<open>A queued thread may only use contexts whose thread is running: nobody waits for a context that could be had.\<close>

definition i_work :: "nat set \<Rightarrow> nat \<Rightarrow> (nat \<Rightarrow> nat \<Rightarrow> bool) \<Rightarrow> (nat \<Rightarrow> bool) \<Rightarrow> nat list \<Rightarrow> bool" where
  "i_work F n M r rq \<longleftrightarrow> (\<forall>a \<in> set rq. \<forall>c < n. M a c \<longrightarrow> c \<notin> F \<longrightarrow> r c)"

definition i_cnt :: "nat \<Rightarrow> context_info list \<Rightarrow> nat \<Rightarrow> bool" where
  "i_cnt n cs m \<longleftrightarrow> m = card {c. c < n \<and> cur cs c \<noteq> None}"

definition i_fake :: "(nat \<Rightarrow> bool) \<Rightarrow> nat list \<Rightarrow> bool" where
  "i_fake P fls \<longleftrightarrow> distinct fls \<and> (\<forall>a. a \<in> set fls \<longleftrightarrow> P a)"

definition i_gid :: "thread_heap \<Rightarrow> (u32 \<rightharpoonup> nat) \<Rightarrow> bool" where
  "i_gid h gm \<longleftrightarrow> (\<forall>g a. gm g = Some a \<longrightarrow> (\<exists>t. h a = Some t \<and> th_gid t = g))"

definition i_misc :: "sched \<Rightarrow> bool" where
  "i_misc s \<longleftrightarrow> s_curPhase s = s_numPhases s \<and> s_numCores s > 0 \<and> s_schedQuantum s > 0 \<and> length (s_blocking s) = MAX_THREADS \<and>
     length (n_occHist (s_stats s)) = s_numCores s + 1 \<and> length (n_runQueueHist (s_stats s)) > 0"

definition sinv :: "nat \<Rightarrow> nat set \<Rightarrow> nat set \<Rightarrow> sched \<Rightarrow> bool" where
  "sinv k F R s \<longleftrightarrow> i_ctx (s_numCores s) (s_heap s) (s_contexts s) \<and> i_thr k R (s_numCores s) (s_next s) (s_heap s) (s_contexts s) \<and>
     i_free F (s_numCores s) (s_contexts s) (s_freeList s) \<and> i_out R (tst (s_heap s)) (s_outQueue s) \<and>
     i_sleep R (tst (s_heap s)) (wake (s_heap s)) (s_sleepQueue s) \<and> i_run R (tst (s_heap s)) (hand (s_heap s)) (s_runQueue s) \<and>
     i_work F (s_numCores s) (may (s_heap s)) (run_on (s_heap s) (s_contexts s)) (s_runQueue s) \<and>
     i_cnt (s_numCores s) (s_contexts s) (s_scheduled s) \<and> i_fake (faked (s_heap s)) (s_fakeLeaves s) \<and>
     i_gid (s_heap s) (s_gidMap s) \<and> i_misc s"

section \<open>Reading the invariant\<close>

lemma sinv_log [simp]: "sinv k F R (log_call e s) = sinv k F R s"
  by (simp add: sinv_def log_call_def i_misc_def)

lemma sinv_bump:
  assumes "\<And>n. length (n_occHist (f n)) = length (n_occHist n)" "\<And>n. length (n_runQueueHist (f n)) = length (n_runQueueHist n)"
  shows "sinv k F R (bump f s) = sinv k F R s"
  by (simp add: sinv_def bump_def i_misc_def assms)

lemma log_fields [simp]: "s_heap (log_call e s) = s_heap s" "s_contexts (log_call e s) = s_contexts s" "s_numCores (log_call e s) = s_numCores s"
  "s_freeList (log_call e s) = s_freeList s" "s_runQueue (log_call e s) = s_runQueue s" "s_outQueue (log_call e s) = s_outQueue s"
  "s_sleepQueue (log_call e s) = s_sleepQueue s" "s_curPhase (log_call e s) = s_curPhase s" "s_scheduled (log_call e s) = s_scheduled s"
  "s_log (log_call e s) = e # s_log s" "s_next (log_call e s) = s_next s" "s_gidMap (log_call e s) = s_gidMap s" "s_fakeLeaves (log_call e s) = s_fakeLeaves s"
  by (simp_all add: log_call_def)

lemma bump_fields [simp]: "s_heap (bump f s) = s_heap s" "s_contexts (bump f s) = s_contexts s" "s_numCores (bump f s) = s_numCores s"
  "s_freeList (bump f s) = s_freeList s" "s_runQueue (bump f s) = s_runQueue s" "s_outQueue (bump f s) = s_outQueue s"
  "s_sleepQueue (bump f s) = s_sleepQueue s" "s_curPhase (bump f s) = s_curPhase s" "s_scheduled (bump f s) = s_scheduled s"
  "s_log (bump f s) = s_log s" "s_next (bump f s) = s_next s" "s_gidMap (bump f s) = s_gidMap s" "s_fakeLeaves (bump f s) = s_fakeLeaves s"
  by (simp_all add: bump_def)

lemma upd_th_ok [simp]: "s_heap s a = Some t \<Longrightarrow> upd_th a f s = Some (s\<lparr>s_heap := (s_heap s)(a \<mapsto> f t)\<rparr>)"
  by (simp add: upd_th_def)

lemma upd_ctx_ok [simp]: "c < length (s_contexts s) \<Longrightarrow> upd_ctx c x s = Some (s\<lparr>s_contexts := (s_contexts s)[c := x]\<rparr>)"
  by (simp add: upd_ctx_def)

lemma tst_Some: "tst h a = Some x \<longleftrightarrow> (\<exists>t. h a = Some t \<and> th_state t = x)"
  by (auto simp: tst_def)

lemma sinv_thread:
  assumes "sinv k F R s" "s_heap s a = Some t"
  shows "thr_ok k (a \<in> R) (s_numCores s) (s_contexts s) a t" "a < s_next s"
  using assms by (simp_all add: sinv_def i_thr_def)

lemma sinv_context:
  assumes "sinv k F R s" "c < s_numCores s"
  shows "c < length (s_contexts s)" "c_state (s_contexts s ! c) = USED \<longleftrightarrow> cur (s_contexts s) c \<noteq> None"
    "cur (s_contexts s) c = Some a \<Longrightarrow> \<exists>t. s_heap s a = Some t \<and> th_cid t = c \<and> (th_state t = T_RUNNING \<or> th_state t = T_OUT)"
  using assms by (simp_all add: sinv_def i_ctx_def)

lemma sinv_running:
  assumes "sinv k F R s" "s_heap s a = Some t" "th_state t = T_RUNNING \<or> th_state t = T_OUT"
  shows "th_cid t < s_numCores s" "th_cid t < length (s_contexts s)" "c_state (s_contexts s ! th_cid t) = USED" "c_cur (s_contexts s ! th_cid t) = Some a"
    "cur (s_contexts s) (th_cid t) = Some a"
proof -
  show n: "th_cid t < s_numCores s" and c: "cur (s_contexts s) (th_cid t) = Some a" using sinv_thread(1) [OF assms(1,2)] assms(3) by (simp_all add: thr_ok_def)
  show "th_cid t < length (s_contexts s)" "c_state (s_contexts s ! th_cid t) = USED" using sinv_context [OF assms(1) n] c by simp_all
  show "c_cur (s_contexts s ! th_cid t) = Some a" using c by (simp add: cur_def)
qed

text \<open>Two threads never hold one context.\<close>

lemma sinv_holder_unique:
  assumes "sinv k F R s" "s_heap s a = Some t" "th_state t = T_RUNNING \<or> th_state t = T_OUT"
    and "s_heap s b = Some u" "th_state u = T_RUNNING \<or> th_state u = T_OUT" "th_cid u = th_cid t"
  shows "a = b"
  using sinv_running(5) [OF assms(1-3)] sinv_running(5) [OF assms(1,4,5)] assms(6) by simp

section \<open>Changing one thread and one context\<close>

lemma i_ctxD:
  assumes "i_ctx n h cs" "d < n" "cur cs d = Some b"
  shows "\<exists>t. h b = Some t \<and> th_cid t = d \<and> (th_state t = T_RUNNING \<or> th_state t = T_OUT)"
  using assms by (simp add: i_ctx_def)

lemma i_ctx_put:
  assumes "i_ctx n h cs" "c < n" "tst h a \<noteq> Some T_RUNNING" "tst h a \<noteq> Some T_OUT" "th_cid t' = c" "th_state t' = T_RUNNING"
  shows "i_ctx n (h(a \<mapsto> t')) (cs[c := \<lparr>c_state = USED, c_cur = Some a\<rparr>])"
proof -
  have other: "b \<noteq> a" if "d < n" "cur cs d = Some b" for d b using i_ctxD [OF assms(1) that] assms(3,4) by (auto simp: tst_def)
  show ?thesis unfolding i_ctx_def
  proof (intro conjI allI impI)
    fix d b assume d: "d < n" and b: "cur (cs[c := \<lparr>c_state = USED, c_cur = Some a\<rparr>]) d = Some b"
    show "\<exists>t. (h(a \<mapsto> t')) b = Some t \<and> th_cid t = d \<and> (th_state t = T_RUNNING \<or> th_state t = T_OUT)"
      using assms d b other by (cases "d = c") (auto simp: i_ctx_def)
  qed (use assms in \<open>auto simp: i_ctx_def nth_list_update\<close>)
qed

lemma i_ctx_clear:
  assumes "i_ctx n h cs" "c < n" "cur cs c = Some a"
  shows "i_ctx n (h(a \<mapsto> t')) (cs[c := \<lparr>c_state = IDLE, c_cur = None\<rparr>])"
proof -
  have other: "b \<noteq> a" if "d < n" "cur cs d = Some b" "d \<noteq> c" for d b
    using i_ctxD [OF assms(1) that(1,2)] i_ctxD [OF assms] that(3) by auto
  show ?thesis unfolding i_ctx_def
  proof (intro conjI allI impI)
    fix d b assume d: "d < n" and b: "cur (cs[c := \<lparr>c_state = IDLE, c_cur = None\<rparr>]) d = Some b"
    show "\<exists>t. (h(a \<mapsto> t')) b = Some t \<and> th_cid t = d \<and> (th_state t = T_RUNNING \<or> th_state t = T_OUT)"
      using assms d b other by (cases "d = c") (auto simp: i_ctx_def)
  qed (use assms in \<open>auto simp: i_ctx_def nth_list_update\<close>)
qed

lemma i_ctx_same:
  assumes "i_ctx n h cs" "h a = Some t" "th_cid t' = th_cid t"
    and "th_state t = T_RUNNING \<or> th_state t = T_OUT \<Longrightarrow> th_state t' = T_RUNNING \<or> th_state t' = T_OUT"
  shows "i_ctx n (h(a \<mapsto> t')) cs"
proof -
  have "\<exists>u. (h(a \<mapsto> t')) b = Some u \<and> th_cid u = d \<and> (th_state u = T_RUNNING \<or> th_state u = T_OUT)" if "d < n" "cur cs d = Some b" for d b
    using i_ctxD [OF assms(1) that] assms(2-4) by (cases "b = a") auto
  then show ?thesis using assms(1) by (simp add: i_ctx_def)
qed

lemma thr_ok_mono:
  assumes "thr_ok k fl n cs a t" "fl \<Longrightarrow> fl'" "cur cs (th_cid t) = Some a \<Longrightarrow> cur cs' (th_cid t) = Some a"
  shows "thr_ok k fl' n cs' a t"
proof -
  have "th_state t = T_QUEUED \<longrightarrow> \<not> fl' \<longrightarrow> th_futexWord t = 1" "th_state t = T_RUNNING \<or> th_state t = T_OUT \<longrightarrow> cur cs' (th_cid t) = Some a"
    using assms by (auto simp: thr_ok_def)
  then show ?thesis using assms(1) by (simp add: thr_ok_def)
qed

lemma i_thr_update:
  assumes "i_thr k R n nx h cs" "a < nx" "thr_ok k (a \<in> R') n cs' a t'" "R \<subseteq> insert a R'"
    and "\<And>b u. b \<noteq> a \<Longrightarrow> h b = Some u \<Longrightarrow> cur cs (th_cid u) = Some b \<Longrightarrow> cur cs' (th_cid u) = Some b"
  shows "i_thr k R' n nx (h(a \<mapsto> t')) cs'"
proof -
  have "b < nx \<and> thr_ok k (b \<in> R') n cs' b u" if b: "b \<noteq> a" "h b = Some u" for b u
  proof -
    have "b < nx" "thr_ok k (b \<in> R) n cs b u" using assms(1) b by (simp_all add: i_thr_def)
    moreover have "b \<in> R \<Longrightarrow> b \<in> R'" using assms(4) b(1) by auto
    ultimately show ?thesis using assms(5) [OF b] thr_ok_mono by blast
  qed
  then show ?thesis using assms(2,3) by (simp add: i_thr_def)
qed

lemma run_on_put:
  assumes "i_ctx n h cs" "cur cs c = None" "tst h a \<noteq> Some T_RUNNING" "tst h a \<noteq> Some T_OUT" "c < n" "d < n" "th_state t' = T_RUNNING"
  shows "run_on (h(a \<mapsto> t')) (cs[c := \<lparr>c_state = USED, c_cur = Some a\<rparr>]) d \<longleftrightarrow> d = c \<or> run_on h cs d"
proof -
  have "length cs = n" using assms(1) by (simp add: i_ctx_def)
  moreover have "cur cs d \<noteq> Some a" using i_ctxD [OF assms(1,6), of a] assms(3,4) by (auto simp: tst_def)
  moreover have "cur cs d = Some b \<Longrightarrow> b \<noteq> a" for b using calculation(2) by auto
  ultimately show ?thesis using assms(2,5,7) by (cases "d = c") (auto simp: run_on_def)
qed

lemma run_on_clear:
  assumes "i_ctx n h cs" "cur cs c = Some a" "c < n" "d < n"
  shows "run_on (h(a \<mapsto> t')) (cs[c := \<lparr>c_state = IDLE, c_cur = None\<rparr>]) d \<longleftrightarrow> d \<noteq> c \<and> run_on h cs d"
proof -
  have "length cs = n" using assms(1) by (simp add: i_ctx_def)
  moreover have "cur cs d = Some a \<Longrightarrow> d = c" using i_ctxD [OF assms(1,4), of a] i_ctxD [OF assms(1,3,2)] by auto
  then have "d \<noteq> c \<Longrightarrow> cur cs d = Some b \<Longrightarrow> b \<noteq> a" for b by auto
  ultimately show ?thesis using assms(3) by (cases "d = c") (auto simp: run_on_def)
qed

lemma i_cnt_put: "i_cnt n cs m \<Longrightarrow> length cs = n \<Longrightarrow> c < n \<Longrightarrow> cur cs c = None \<Longrightarrow> i_cnt n (cs[c := \<lparr>c_state = USED, c_cur = Some a\<rparr>]) (m + 1)"
proof -
  assume *: "i_cnt n cs m" "length cs = n" "c < n" "cur cs c = None"
  have "{d. d < n \<and> cur (cs[c := \<lparr>c_state = USED, c_cur = Some a\<rparr>]) d \<noteq> None} = insert c {d. d < n \<and> cur cs d \<noteq> None}" using * by auto
  then show ?thesis using * by (simp add: i_cnt_def)
qed

lemma i_cnt_clear: "i_cnt n cs m \<Longrightarrow> length cs = n \<Longrightarrow> c < n \<Longrightarrow> cur cs c \<noteq> None \<Longrightarrow>
    0 < m \<and> i_cnt n (cs[c := \<lparr>c_state = IDLE, c_cur = None\<rparr>]) (m - 1)"
proof -
  assume *: "i_cnt n cs m" "length cs = n" "c < n" "cur cs c \<noteq> None"
  let ?S = "{d. d < n \<and> cur cs d \<noteq> None}"
  have "{d. d < n \<and> cur (cs[c := \<lparr>c_state = IDLE, c_cur = None\<rparr>]) d \<noteq> None} = ?S - {c}" using * by auto
  moreover have "c \<in> ?S" "finite ?S" using * by auto
  ultimately show ?thesis using * by (auto simp: i_cnt_def card_gt_0_iff)
qed

text \<open>The fields that scheduling and descheduling a thread leaves alone.\<close>

definition lists_kept :: "sched \<Rightarrow> sched \<Rightarrow> bool" where
  "lists_kept s s' \<longleftrightarrow> s_numCores s' = s_numCores s \<and> s_freeList s' = s_freeList s \<and> s_runQueue s' = s_runQueue s \<and> s_outQueue s' = s_outQueue s \<and>
     s_sleepQueue s' = s_sleepQueue s \<and> s_curPhase s' = s_curPhase s \<and> s_fakeLeaves s' = s_fakeLeaves s \<and> s_gidMap s' = s_gidMap s \<and> s_next s' = s_next s"

lemma schedule_ok:
  assumes I: "sinv k F R s" and c: "c \<in> F" and t: "s_heap s a = Some t" and st: "th_state t = T_STARTED \<or> th_state t = T_BLOCKED \<or> th_state t = T_QUEUED \<and> a \<in> R"
  shows "\<exists>s'. schedule a c s = Some s' \<and> sinv k (F - {c}) (R - {a}) s' \<and> s_heap s' = (s_heap s)(a \<mapsto> t\<lparr>th_state := T_RUNNING, th_cid := c\<rparr>) \<and>
    s_contexts s' = (s_contexts s)[c := \<lparr>c_state = USED, c_cur = Some a\<rparr>] \<and> s_log s' = CoreSwitch c (th_gid t) # s_log s \<and> lists_kept s s' \<and>
    (\<forall>d < s_numCores s. run_on (s_heap s') (s_contexts s') d \<longleftrightarrow> d = c \<or> run_on (s_heap s) (s_contexts s) d)"
proof -
  let ?n = "s_numCores s" let ?h = "s_heap s" let ?cs = "s_contexts s"
  let ?t = "t\<lparr>th_state := T_RUNNING, th_cid := c\<rparr>" let ?x = "\<lparr>c_state = USED, c_cur = Some a\<rparr>"
  note J = I [unfolded sinv_def]
  have cc: "c < ?n" "cur ?cs c = None" "length ?cs = ?n" using J c by (simp_all add: i_free_def i_ctx_def)
  have idle: "c_state (?cs ! c) = IDLE" using sinv_context(2) [OF I cc(1)] cc(2) by (cases "c_state (?cs ! c)") simp_all
  have ok: "thr_ok k (a \<in> R) ?n ?cs a t" and nx: "a < s_next s" using sinv_thread [OF I t] .
  have st': "th_state t = T_STARTED \<or> th_state t = T_BLOCKED \<or> th_state t = T_QUEUED" using st by auto
  define s' where "s' = s\<lparr>s_heap := ?h(a \<mapsto> ?t), s_contexts := ?cs[c := ?x], s_scheduled := s_scheduled s + 1\<rparr>"
  have nota: "tst ?h a \<noteq> Some T_RUNNING" "tst ?h a \<noteq> Some T_OUT" using st' t by (auto simp: tst_def)
  have run: "run_on (?h(a \<mapsto> ?t)) (?cs[c := ?x]) d \<longleftrightarrow> d = c \<or> run_on ?h ?cs d" if "d < ?n" for d
    using run_on_put [OF _ cc(2) nota cc(1) that] J by simp
  have clean: "th_handoff t = None" "th_fakeLeave t = None" "\<not> th_marked t" using ok st' by (auto simp: thr_ok_def)
  have views: "(hand ?h)(a := None) = hand ?h" "(faked ?h)(a := False) = faked ?h" "(wake ?h)(a := th_wakeupPhase t) = wake ?h" "(may ?h)(a := (!) (th_mask t)) = may ?h"
    using same_view [of ?h a t, OF t] clean by simp_all
  have "sinv k (F - {c}) (R - {a}) s'" unfolding sinv_def s'_def
  proof (simp add: clean views, intro conjI)
    show "i_ctx ?n (?h(a \<mapsto> ?t)) (?cs[c := ?x])" using J cc nota by (intro i_ctx_put) simp_all
    show "i_thr k (R - {a}) ?n (s_next s) (?h(a \<mapsto> ?t)) (?cs[c := ?x])"
    proof (rule i_thr_update [where R = R])
      show "thr_ok k (a \<in> R - {a}) ?n (?cs[c := ?x]) a ?t" using ok clean cc by (simp add: thr_ok_def)
    qed (use J nx cc in auto)
    show "i_free (F - {c}) ?n (?cs[c := ?x]) (s_freeList s)" using J cc c by (auto simp: i_free_def)
    show "i_out (R - {a}) ((tst ?h)(a \<mapsto> T_RUNNING)) (s_outQueue s)" using J nota by (auto simp: i_out_def)
    show "i_sleep (R - {a}) ((tst ?h)(a \<mapsto> T_RUNNING)) (wake ?h) (s_sleepQueue s)" using J st' t by (auto simp: i_sleep_def tst_def)
    show "i_run (R - {a}) ((tst ?h)(a \<mapsto> T_RUNNING)) (hand ?h) (s_runQueue s)"
    proof -
      have "a \<notin> ran (hand ?h)" "a \<notin> set (s_runQueue s)" using J st t by (auto simp: i_run_def tst_def)
      then show ?thesis using J by (auto simp: i_run_def)
    qed
    show "i_work (F - {c}) ?n (may ?h) (run_on (?h(a \<mapsto> ?t)) (?cs[c := ?x])) (s_runQueue s)" using J run by (auto simp: i_work_def)
    show "i_cnt ?n (?cs[c := ?x]) (Suc (s_scheduled s))" using J i_cnt_put [of ?n ?cs "s_scheduled s" c a] cc by simp
    show "i_fake (faked ?h) (s_fakeLeaves s)" using J by simp
    show "i_gid (?h(a \<mapsto> ?t)) (s_gidMap s)" using J t by (fastforce simp: i_gid_def)
  qed (use J in \<open>simp add: i_misc_def\<close>)
  moreover have "schedule a c s = Some (log_call (CoreSwitch c (th_gid t)) ((bump (\<lambda>n. n\<lparr>n_schedule := n_schedule n + 1\<rparr>) s')))"
    using t st' cc idle by (auto simp: schedule_def s'_def bump_def cur_def log_call_def)
  ultimately show ?thesis using run by (auto simp: sinv_bump lists_kept_def s'_def)
qed

lemma deschedule_ok:
  assumes I: "sinv k F R s" and t: "s_heap s a = Some t" and st: "th_state t = T_RUNNING \<or> th_state t = T_OUT \<and> a \<in> R"
    and clean: "th_handoff t = None" "th_fakeLeave t = None" "\<not> th_marked t"
    and X: "X = T_BLOCKED \<or> X = T_QUEUED \<or> X = T_SLEEPING \<and> th_futexWord t = 1 \<and> k < th_wakeupPhase t"
  shows "\<exists>s'. deschedule a (th_cid t) X s = Some s' \<and> sinv k (insert (th_cid t) F) (if X = T_BLOCKED then R - {a} else insert a R) s' \<and>
    s_heap s' = (s_heap s)(a \<mapsto> t\<lparr>th_state := X\<rparr>) \<and> s_contexts s' = (s_contexts s)[th_cid t := \<lparr>c_state = IDLE, c_cur = None\<rparr>] \<and>
    s_log s' = StatsDeschedule (th_cid t) (getPid (th_gid t)) # CoreSwitch (th_cid t) (- 1) # s_log s \<and> lists_kept s s' \<and>
    (\<forall>d < s_numCores s. run_on (s_heap s') (s_contexts s') d \<longleftrightarrow> d \<noteq> th_cid t \<and> run_on (s_heap s) (s_contexts s) d)"
proof -
  let ?n = "s_numCores s" let ?h = "s_heap s" let ?cs = "s_contexts s" let ?c = "th_cid t"
  let ?t = "t\<lparr>th_state := X\<rparr>" let ?x = "\<lparr>c_state = IDLE, c_cur = None\<rparr>" let ?R = "if X = T_BLOCKED then R - {a} else insert a R"
  note J = I [unfolded sinv_def]
  have st0: "th_state t = T_RUNNING \<or> th_state t = T_OUT" using st by auto
  note c = sinv_running [OF I t st0]
  have len: "length ?cs = ?n" using J by (simp add: i_ctx_def)
  have cnt: "0 < s_scheduled s" "i_cnt ?n (?cs[?c := ?x]) (s_scheduled s - 1)" using i_cnt_clear [OF _ len c(1), of "s_scheduled s"] J c(5) by simp_all
  have ok: "thr_ok k (a \<in> R) ?n ?cs a t" and nx: "a < s_next s" using sinv_thread [OF I t] .
  define s' where "s' = s\<lparr>s_heap := ?h(a \<mapsto> ?t), s_contexts := ?cs[?c := ?x], s_scheduled := s_scheduled s - 1\<rparr>"
  have run: "run_on (?h(a \<mapsto> ?t)) (?cs[?c := ?x]) d \<longleftrightarrow> d \<noteq> ?c \<and> run_on ?h ?cs d" if "d < ?n" for d
    using run_on_clear [OF _ c(5,1) that] J by simp
  have views: "(hand ?h)(a := None) = hand ?h" "(faked ?h)(a := False) = faked ?h" "(wake ?h)(a := th_wakeupPhase t) = wake ?h" "(may ?h)(a := (!) (th_mask t)) = may ?h"
    using same_view [of ?h a t, OF t] clean by simp_all
  have ta: "tst ?h a = Some (th_state t)" using t by (simp add: tst_def)
  have nq: "a \<notin> ran (hand ?h)" "a \<notin> set (s_runQueue s)" "a \<notin> set (s_outQueue s)" "a \<notin> set (s_sleepQueue s)"
    using J st ta by (auto simp: i_run_def i_out_def i_sleep_def)
  have "sinv k (insert ?c F) ?R s'" unfolding sinv_def s'_def
  proof (simp add: clean views split del: if_split, intro conjI)
    show "i_ctx ?n (?h(a \<mapsto> ?t)) (?cs[?c := ?x])" using J c by (intro i_ctx_clear) simp_all
    show "i_thr k ?R ?n (s_next s) (?h(a \<mapsto> ?t)) (?cs[?c := ?x])"
    proof (rule i_thr_update [where R = R])
      show "thr_ok k (a \<in> ?R) ?n (?cs[?c := ?x]) a ?t" using ok clean X by (auto simp: thr_ok_def)
      show "cur (?cs[?c := ?x]) (th_cid u) = Some b" if "b \<noteq> a" "?h b = Some u" "cur ?cs (th_cid u) = Some b" for b u using that c by auto
    qed (use J nx in auto)
    show "i_free (insert ?c F) ?n (?cs[?c := ?x]) (s_freeList s)" using J c by (auto simp: i_free_def)
    show "i_out ?R ((tst ?h)(a \<mapsto> X)) (s_outQueue s)" using J nq X by (auto simp: i_out_def)
    show "i_sleep ?R ((tst ?h)(a \<mapsto> X)) (wake ?h) (s_sleepQueue s)" using J nq X by (auto simp: i_sleep_def)
    show "i_run ?R ((tst ?h)(a \<mapsto> X)) (hand ?h) (s_runQueue s)"
      using J nq X unfolding i_run_def by (cases "X = T_BLOCKED") auto
    show "i_work (insert ?c F) ?n (may ?h) (run_on (?h(a \<mapsto> ?t)) (?cs[?c := ?x])) (s_runQueue s)" using J run by (auto simp: i_work_def)
    show "i_cnt ?n (?cs[?c := ?x]) (s_scheduled s - Suc 0)" using cnt by simp
    show "i_fake (faked ?h) (s_fakeLeaves s)" using J by simp
    show "i_gid (?h(a \<mapsto> ?t)) (s_gidMap s)" using J t by (fastforce simp: i_gid_def)
  qed (use J in \<open>simp add: i_misc_def\<close>)
  moreover have "deschedule a ?c X s = Some (log_call (StatsDeschedule ?c (getPid (th_gid t))) (log_call (CoreSwitch ?c (- 1)) s'))"
    using t st0 c X cnt(1) by (auto simp: deschedule_def s'_def)
  ultimately show ?thesis using run by (auto simp: lists_kept_def s'_def)
qed

section \<open>Changing a thread in place\<close>

lemma i_gid_update: "i_gid h gm \<Longrightarrow> h a = Some t \<Longrightarrow> th_gid t' = th_gid t \<Longrightarrow> i_gid (h(a \<mapsto> t')) gm"
  by (fastforce simp: i_gid_def)

lemma run_on_same: "h a = Some t \<Longrightarrow> th_state t' = th_state t \<Longrightarrow> run_on (h(a \<mapsto> t')) cs = run_on h cs"
  by (auto simp: run_on_def tst_def fun_eq_iff)

text \<open>Fields that no list depends on.\<close>

lemma touch_ok:
  assumes I: "sinv k F R s" and t: "s_heap s a = Some t" and ok: "thr_ok k (a \<in> R) (s_numCores s) (s_contexts s) a t'"
    and same: "th_state t' = th_state t" "th_cid t' = th_cid t" "th_handoff t' = th_handoff t" "th_mask t' = th_mask t" "th_fakeLeave t' = th_fakeLeave t"
      "th_gid t' = th_gid t" and w: "th_wakeupPhase t' = th_wakeupPhase t \<or> th_state t \<noteq> T_SLEEPING"
  shows "sinv k F R (s\<lparr>s_heap := (s_heap s)(a \<mapsto> t')\<rparr>)"
proof -
  let ?h = "s_heap s"
  note J = I [unfolded sinv_def]
  have views: "(tst ?h)(a \<mapsto> th_state t) = tst ?h" "(hand ?h)(a := th_handoff t) = hand ?h" "(faked ?h)(a := (\<exists>y. th_fakeLeave t = Some y)) = faked ?h"
    "(may ?h)(a := (!) (th_mask t)) = may ?h" "run_on (?h(a \<mapsto> t')) (s_contexts s) = run_on ?h (s_contexts s)"
    using same_view [of ?h a t, OF t] run_on_same [of ?h a t t', OF t same(1)] by simp_all
  have wk: "map ((wake ?h)(a := th_wakeupPhase t')) (s_sleepQueue s) = map (wake ?h) (s_sleepQueue s)"
  proof (cases "th_state t = T_SLEEPING")
    case True
    then show ?thesis using w t by (auto simp: wake_def)
  next
    case False
    then have "a \<notin> set (s_sleepQueue s)" using J t by (auto simp: i_sleep_def tst_def)
    then show ?thesis by auto
  qed
  have "i_sleep R (tst ?h) ((wake ?h)(a := th_wakeupPhase t')) (s_sleepQueue s)" using J unfolding i_sleep_def wk by simp
  moreover have "i_thr k R (s_numCores s) (s_next s) (?h(a \<mapsto> t')) (s_contexts s)"
    using J sinv_thread(2) [OF I t] ok by (intro i_thr_update [where R = R]) auto
  moreover have "i_ctx (s_numCores s) (?h(a \<mapsto> t')) (s_contexts s)" using J same by (intro i_ctx_same [where t = t]) (simp_all add: t)
  moreover have "i_gid (?h(a \<mapsto> t')) (s_gidMap s)" using J same t by (intro i_gid_update [where t = t]) simp_all
  ultimately show ?thesis using J by (simp add: sinv_def same views i_misc_def)
qed

lemma wakeup_ok:
  assumes I: "sinv k F R s" and t: "s_heap s a = Some t" "th_futexWord t = 1" "\<not> th_marked t" "th_state t \<noteq> T_QUEUED" "th_state t \<noteq> T_SLEEPING"
  shows "\<exists>s'. wakeup a nj s = Some s' \<and> sinv k F R s' \<and> s' = s\<lparr>s_heap := (s_heap s)(a \<mapsto> t\<lparr>th_needsJoin := nj, th_futexWord := 0\<rparr>)\<rparr> \<and>
    run_on (s_heap s') (s_contexts s') = run_on (s_heap s) (s_contexts s)"
proof -
  let ?t = "t\<lparr>th_needsJoin := nj, th_futexWord := 0\<rparr>" let ?s = "s\<lparr>s_heap := (s_heap s)(a \<mapsto> ?t)\<rparr>"
  have "thr_ok k (a \<in> R) (s_numCores s) (s_contexts s) a ?t" using sinv_thread(1) [OF I t(1)] t by (simp add: thr_ok_def)
  then have "sinv k F R ?s" by (rule touch_ok [OF I t(1)]) simp_all
  moreover have "wakeup a nj s = Some ?s" using t by (simp add: wakeup_def)
  ultimately show ?thesis using run_on_same [of "s_heap s" a t ?t "s_contexts s"] t(1) by simp
qed

section \<open>The lists\<close>

text \<open>A thread leaves \<open>R\<close> when its list is right again.\<close>

lemma i_thr_drop:
  assumes "i_thr k R n nx h cs" "tst h a \<noteq> Some T_QUEUED"
  shows "i_thr k (R - {a}) n nx h cs" "i_thr k (insert a R) n nx h cs"
proof -
  have "b < nx \<and> thr_ok k fl n cs b t" if "h b = Some t" "b \<noteq> a \<Longrightarrow> fl = (b \<in> R)" for b t fl
  proof -
    have "b < nx" "thr_ok k (b \<in> R) n cs b t" using assms(1) that(1) by (simp_all add: i_thr_def)
    then show ?thesis using that assms(2) by (cases "b = a") (auto simp: thr_ok_def tst_def)
  qed
  then show "i_thr k (R - {a}) n nx h cs" "i_thr k (insert a R) n nx h cs" unfolding i_thr_def by simp_all
qed

lemma i_out_drop: "i_out R T q \<Longrightarrow> T a \<noteq> Some T_OUT \<Longrightarrow> i_out (R - {a}) T q \<and> i_out (insert a R) T q"
  by (auto simp: i_out_def)

lemma i_sleep_drop: "i_sleep R T w q \<Longrightarrow> T a \<noteq> Some T_SLEEPING \<Longrightarrow> i_sleep (R - {a}) T w q \<and> i_sleep (insert a R) T w q"
  by (auto simp: i_sleep_def)

lemma i_run_drop: "i_run R T H q \<Longrightarrow> T a \<noteq> Some T_QUEUED \<Longrightarrow> i_run (R - {a}) T H q \<and> i_run (insert a R) T H q"
  by (auto simp: i_run_def)

lemma free_push_ok:
  assumes I: "sinv k F R s" and c: "c \<in> F" and w: "\<And>a. a \<in> set (s_runQueue s) \<Longrightarrow> \<not> may (s_heap s) a c"
  shows "free_push c s = Some (s\<lparr>s_freeList := s_freeList s @ [c]\<rparr>) \<and> sinv k (F - {c}) R (s\<lparr>s_freeList := s_freeList s @ [c]\<rparr>)"
proof -
  note J = I [unfolded sinv_def]
  have "c \<notin> set (s_freeList s)" using J c by (auto simp: i_free_def)
  moreover have "i_free (F - {c}) (s_numCores s) (s_contexts s) (s_freeList s @ [c])" using J c by (auto simp: i_free_def)
  moreover have "i_work (F - {c}) (s_numCores s) (may (s_heap s)) (run_on (s_heap s) (s_contexts s)) (s_runQueue s)"
    using J w by (auto simp: i_work_def)
  ultimately show ?thesis using J by (simp add: free_push_def sinv_def i_misc_def)
qed

lemma out_push_ok:
  assumes I: "sinv k F R s" and a: "a \<in> R" "tst (s_heap s) a = Some T_OUT"
  shows "out_push a s = Some (s\<lparr>s_outQueue := s_outQueue s @ [a]\<rparr>) \<and> sinv k F (R - {a}) (s\<lparr>s_outQueue := s_outQueue s @ [a]\<rparr>)"
proof -
  note J = I [unfolded sinv_def]
  have "\<not> owned s a" using J a by (auto simp: owned_def i_out_def i_run_def i_sleep_def)
  moreover have "i_out (R - {a}) (tst (s_heap s)) (s_outQueue s @ [a])" using J a by (auto simp: i_out_def)
  moreover have "i_run (R - {a}) (tst (s_heap s)) (hand (s_heap s)) (s_runQueue s)" using J a i_run_drop by simp
  moreover have "i_sleep (R - {a}) (tst (s_heap s)) (wake (s_heap s)) (s_sleepQueue s)" using J a i_sleep_drop by simp
  ultimately show ?thesis using J i_thr_drop(1) a(2) by (simp add: out_push_def sinv_def i_misc_def)
qed

text \<open>The thread goes to the end of the run queue and waits.\<close>

lemma enqueue_ok:
  assumes I: "sinv k F R s" and t: "s_heap s a = Some t" and a: "a \<in> R" "th_state t = T_QUEUED" "a \<notin> ran (hand (s_heap s))"
    and w: "\<And>c. c < s_numCores s \<Longrightarrow> th_mask t ! c \<Longrightarrow> c \<notin> F \<Longrightarrow> run_on (s_heap s) (s_contexts s) c"
  shows "\<exists>s'. run_push a s \<bind> waitForContext a = Some s' \<and> sinv k F (R - {a}) s' \<and> s_heap s' = (s_heap s)(a \<mapsto> t\<lparr>th_futexWord := 1\<rparr>) \<and>
    s_contexts s' = s_contexts s \<and> s_log s' = s_log s \<and> s_runQueue s' = s_runQueue s @ [a] \<and> s_curPhase s' = s_curPhase s \<and>
    s_numCores s' = s_numCores s"
proof -
  let ?t = "t\<lparr>th_futexWord := 1\<rparr>" let ?h = "(s_heap s)(a \<mapsto> ?t)"
  note J = I [unfolded sinv_def]
  let ?s = "s\<lparr>s_heap := ?h\<rparr>" let ?s' = "?s\<lparr>s_runQueue := s_runQueue s @ [a]\<rparr>"
  have ta: "tst (s_heap s) a = Some T_QUEUED" using t a by (simp add: tst_def)
  have "thr_ok k False (s_numCores s) (s_contexts s) a ?t" using sinv_thread(1) [OF I t] a by (simp add: thr_ok_def)
  moreover from this have "thr_ok k (a \<in> R) (s_numCores s) (s_contexts s) a ?t" using thr_ok_mono by blast
  then have I': "sinv k F R ?s" by (rule touch_ok [OF I t]) simp_all
  note K = I' [unfolded sinv_def, simplified]
  have T: "(tst (s_heap s))(a \<mapsto> T_QUEUED) = tst (s_heap s)" "(hand (s_heap s))(a := th_handoff t) = hand (s_heap s)"
    using same_view [of "s_heap s" a t, OF t] a by simp_all
  have own: "\<not> owned s a" using J a ta by (auto simp: owned_def i_out_def i_run_def i_sleep_def)
  have "i_run (R - {a}) (tst ?h) (hand ?h) (s_runQueue s @ [a])" using K a ta by (auto simp: i_run_def T)
  moreover have "i_out (R - {a}) (tst ?h) (s_outQueue s)" using K a i_out_drop by simp
  moreover have "i_sleep (R - {a}) (tst ?h) (wake ?h) (s_sleepQueue s)" using K a i_sleep_drop by simp
  moreover have "i_thr k (R - {a}) (s_numCores s) (s_next s) ?h (s_contexts s)"
    using J sinv_thread(2) [OF I t] calculation(1) by (intro i_thr_update [where R = R]) auto
  moreover have "i_work F (s_numCores s) (may ?h) (run_on ?h (s_contexts s)) (s_runQueue s @ [a])"
  proof -
    have "run_on ?h (s_contexts s) = run_on (s_heap s) (s_contexts s)" using run_on_same [of "s_heap s" a t ?t] t by simp
    then show ?thesis using K w by (auto simp: i_work_def)
  qed
  ultimately have "sinv k F (R - {a}) ?s'" using K by (simp add: sinv_def i_misc_def)
  moreover have "run_push a s \<bind> waitForContext a = Some (bump (\<lambda>n. n\<lparr>n_wait := n_wait n + 1\<rparr>) ?s')"
    using own t by (simp add: run_push_def waitForContext_def bump_def)
  ultimately show ?thesis by (simp add: sinv_bump)
qed

section \<open>Changing the state of a thread\<close>

text \<open>A thread whose context stays as it is.\<close>

lemma restate_ok:
  assumes I: "sinv k F R s" and t: "s_heap s a = Some t" and X: "th_state t = T_STARTED \<or> th_state t = T_BLOCKED \<or> (th_state t = T_SLEEPING \<or> th_state t = T_QUEUED) \<and> a \<in> R"
    and Y: "Y = T_QUEUED \<or> Y = T_BLOCKED"
  shows "sinv k F (if Y = T_QUEUED then insert a R else R - {a}) (s\<lparr>s_heap := (s_heap s)(a \<mapsto> t\<lparr>th_state := Y\<rparr>)\<rparr>)"
    and "run_on ((s_heap s)(a \<mapsto> t\<lparr>th_state := Y\<rparr>)) (s_contexts s) = run_on (s_heap s) (s_contexts s)"
proof -
  let ?h = "s_heap s" let ?t = "t\<lparr>th_state := Y\<rparr>" let ?R = "if Y = T_QUEUED then insert a R else R - {a}"
  note J = I [unfolded sinv_def]
  have ok: "thr_ok k (a \<in> R) (s_numCores s) (s_contexts s) a t" and nx: "a < s_next s" using sinv_thread [OF I t] .
  have clean: "th_handoff t = None" "th_fakeLeave t = None" "\<not> th_marked t" using ok X by (auto simp: thr_ok_def)
  show run: "run_on (?h(a \<mapsto> ?t)) (s_contexts s) = run_on ?h (s_contexts s)"
    using t X Y by (auto simp: run_on_def tst_def fun_eq_iff)
  have views: "(hand ?h)(a := None) = hand ?h" "(faked ?h)(a := False) = faked ?h" "(wake ?h)(a := th_wakeupPhase t) = wake ?h" "(may ?h)(a := (!) (th_mask t)) = may ?h"
    using same_view [of ?h a t, OF t] clean by simp_all
  have ta: "tst ?h a = Some (th_state t)" using t by (simp add: tst_def)
  have nq: "a \<notin> ran (hand ?h)" "a \<notin> set (s_runQueue s)" "a \<notin> set (s_outQueue s)" "a \<notin> set (s_sleepQueue s)"
    using J X ta by (auto simp: i_run_def i_out_def i_sleep_def)
  have "i_out ?R ((tst ?h)(a \<mapsto> Y)) (s_outQueue s)" using J nq Y by (auto simp: i_out_def)
  moreover have "i_sleep ?R ((tst ?h)(a \<mapsto> Y)) (wake ?h) (s_sleepQueue s)" using J nq Y by (auto simp: i_sleep_def)
  moreover have "i_run ?R ((tst ?h)(a \<mapsto> Y)) (hand ?h) (s_runQueue s)" using J nq Y unfolding i_run_def by (cases "Y = T_BLOCKED") auto
  moreover have "i_thr k ?R (s_numCores s) (s_next s) (?h(a \<mapsto> ?t)) (s_contexts s)"
  proof (rule i_thr_update [where R = R])
    show "thr_ok k (a \<in> ?R) (s_numCores s) (s_contexts s) a ?t" using ok clean Y by (auto simp: thr_ok_def)
  qed (use J nx in auto)
  moreover have "i_ctx (s_numCores s) (?h(a \<mapsto> ?t)) (s_contexts s)" using J X by (intro i_ctx_same [where t = t]) (auto simp: t)
  moreover have "i_gid (?h(a \<mapsto> ?t)) (s_gidMap s)" using J t by (intro i_gid_update [where t = t]) simp_all
  ultimately show "sinv k F ?R (s\<lparr>s_heap := ?h(a \<mapsto> ?t)\<rparr>)" using J unfolding sinv_def by (simp add: clean views run i_misc_def split del: if_split)
qed

text \<open>A thread leaves its core and keeps the context, or comes back to it.\<close>

lemma run_on_restate:
  assumes "i_ctx n h cs" "cur cs (th_cid t) = Some a" "h a = Some t" "th_cid t < n" "d < n"
  shows "run_on (h(a \<mapsto> t\<lparr>th_state := Y\<rparr>)) cs d \<longleftrightarrow> (if d = th_cid t then Y = T_RUNNING else run_on h cs d)"
proof -
  have "cur cs d = Some b \<Longrightarrow> d \<noteq> th_cid t \<Longrightarrow> b \<noteq> a" for b using i_ctxD [OF assms(1,5), of b] assms(3) by auto
  then show ?thesis using assms(2) by (cases "d = th_cid t") (auto simp: run_on_def)
qed

lemma go_out_ok:
  assumes I: "sinv k F R s" and t: "s_heap s a = Some t" and st: "th_state t = T_RUNNING" and clean: "th_handoff t = None" "th_fakeLeave t = None" "\<not> th_marked t"
    and w: "\<And>b. b \<in> set (s_runQueue s) \<Longrightarrow> \<not> may (s_heap s) b (th_cid t)"
  shows "sinv k F (insert a R) (s\<lparr>s_heap := (s_heap s)(a \<mapsto> t\<lparr>th_state := T_OUT\<rparr>)\<rparr>)"
    and "d < s_numCores s \<Longrightarrow> run_on ((s_heap s)(a \<mapsto> t\<lparr>th_state := T_OUT\<rparr>)) (s_contexts s) d \<longleftrightarrow> d \<noteq> th_cid t \<and> run_on (s_heap s) (s_contexts s) d"
proof -
  let ?h = "s_heap s" let ?t = "t\<lparr>th_state := T_OUT\<rparr>"
  note J = I [unfolded sinv_def]
  have ok: "thr_ok k (a \<in> R) (s_numCores s) (s_contexts s) a t" and nx: "a < s_next s" using sinv_thread [OF I t] .
  note c = sinv_running [OF I t disjI1 [OF st]]
  have run: "run_on (?h(a \<mapsto> ?t)) (s_contexts s) d \<longleftrightarrow> d \<noteq> th_cid t \<and> run_on ?h (s_contexts s) d" if "d < s_numCores s" for d
    using run_on_restate [of _ ?h, OF _ c(5) t c(1) that] J by simp
  then show "d < s_numCores s \<Longrightarrow> run_on (?h(a \<mapsto> ?t)) (s_contexts s) d \<longleftrightarrow> d \<noteq> th_cid t \<and> run_on ?h (s_contexts s) d" .
  have views: "(hand ?h)(a := None) = hand ?h" "(faked ?h)(a := False) = faked ?h" "(wake ?h)(a := th_wakeupPhase t) = wake ?h" "(may ?h)(a := (!) (th_mask t)) = may ?h"
    using same_view [of ?h a t, OF t] clean by simp_all
  have ta: "tst ?h a = Some T_RUNNING" using t st by (simp add: tst_def)
  have nq: "a \<notin> ran (hand ?h)" "a \<notin> set (s_runQueue s)" "a \<notin> set (s_outQueue s)" "a \<notin> set (s_sleepQueue s)"
    using J ta by (auto simp: i_run_def i_out_def i_sleep_def)
  have "i_out (insert a R) ((tst ?h)(a \<mapsto> T_OUT)) (s_outQueue s)" using J nq by (auto simp: i_out_def)
  moreover have "i_sleep (insert a R) ((tst ?h)(a \<mapsto> T_OUT)) (wake ?h) (s_sleepQueue s)" using J nq by (auto simp: i_sleep_def)
  moreover have "i_run (insert a R) ((tst ?h)(a \<mapsto> T_OUT)) (hand ?h) (s_runQueue s)" using J nq by (auto simp: i_run_def)
  moreover have "i_thr k (insert a R) (s_numCores s) (s_next s) (?h(a \<mapsto> ?t)) (s_contexts s)"
  proof (rule i_thr_update [where R = R])
    show "thr_ok k (a \<in> insert a R) (s_numCores s) (s_contexts s) a ?t" using ok clean st by (auto simp: thr_ok_def)
  qed (use J nx in auto)
  moreover have "i_ctx (s_numCores s) (?h(a \<mapsto> ?t)) (s_contexts s)" using J by (intro i_ctx_same [where t = t]) (auto simp: t)
  moreover have "i_gid (?h(a \<mapsto> ?t)) (s_gidMap s)" using J t by (intro i_gid_update [where t = t]) simp_all
  moreover have "i_work F (s_numCores s) (may ?h) (run_on (?h(a \<mapsto> ?t)) (s_contexts s)) (s_runQueue s)"
    using J run w by (fastforce simp: i_work_def)
  ultimately show "sinv k F (insert a R) (s\<lparr>s_heap := ?h(a \<mapsto> ?t)\<rparr>)" using J unfolding sinv_def by (simp add: clean views i_misc_def)
qed

lemma detach_out_ok:
  assumes I: "sinv k F R s" and a: "tst (s_heap s) a = Some T_OUT" "a \<notin> R"
  shows "list_remove a (s_outQueue s) = Some (remove1 a (s_outQueue s)) \<and> sinv k F (insert a R) (s\<lparr>s_outQueue := remove1 a (s_outQueue s)\<rparr>)"
proof -
  note J = I [unfolded sinv_def]
  have "a \<in> set (s_outQueue s)" using J a by (simp add: i_out_def)
  moreover have "i_out (insert a R) (tst (s_heap s)) (remove1 a (s_outQueue s))" using J by (auto simp: i_out_def)
  ultimately show ?thesis using J a i_run_drop i_sleep_drop i_thr_drop by (simp add: list_remove_def sinv_def i_misc_def)
qed

lemma come_back_ok:
  assumes I: "sinv k F R s" and t: "s_heap s a = Some t" and a: "th_state t = T_OUT" "a \<notin> R"
  shows "list_remove a (s_outQueue s) = Some (remove1 a (s_outQueue s))"
    and "sinv k F R (s\<lparr>s_heap := (s_heap s)(a \<mapsto> t\<lparr>th_state := T_RUNNING\<rparr>), s_outQueue := remove1 a (s_outQueue s)\<rparr>)"
    and "d < s_numCores s \<Longrightarrow> run_on ((s_heap s)(a \<mapsto> t\<lparr>th_state := T_RUNNING\<rparr>)) (s_contexts s) d \<longleftrightarrow> d = th_cid t \<or> run_on (s_heap s) (s_contexts s) d"
proof -
  let ?h = "s_heap s" let ?t = "t\<lparr>th_state := T_RUNNING\<rparr>"
  note J = I [unfolded sinv_def]
  have ok: "thr_ok k (a \<in> R) (s_numCores s) (s_contexts s) a t" and nx: "a < s_next s" using sinv_thread [OF I t] .
  note c = sinv_running [OF I t disjI2 [OF a(1)]]
  have clean: "th_handoff t = None" "th_fakeLeave t = None" "\<not> th_marked t" using ok a(1) by (auto simp: thr_ok_def)
  have run: "run_on (?h(a \<mapsto> ?t)) (s_contexts s) d \<longleftrightarrow> d = th_cid t \<or> run_on ?h (s_contexts s) d" if "d < s_numCores s" for d
    using run_on_restate [of _ ?h, OF _ c(5) t c(1) that] J by simp
  then show "d < s_numCores s \<Longrightarrow> run_on (?h(a \<mapsto> ?t)) (s_contexts s) d \<longleftrightarrow> d = th_cid t \<or> run_on ?h (s_contexts s) d" .
  have views: "(hand ?h)(a := None) = hand ?h" "(faked ?h)(a := False) = faked ?h" "(wake ?h)(a := th_wakeupPhase t) = wake ?h" "(may ?h)(a := (!) (th_mask t)) = may ?h"
    using same_view [of ?h a t, OF t] clean by simp_all
  have ta: "tst ?h a = Some T_OUT" using t a by (simp add: tst_def)
  show "list_remove a (s_outQueue s) = Some (remove1 a (s_outQueue s))" using J a ta by (simp add: i_out_def list_remove_def)
  have nq: "a \<notin> ran (hand ?h)" "a \<notin> set (s_runQueue s)" "a \<notin> set (s_sleepQueue s)"
    using J ta by (auto simp: i_run_def i_sleep_def)
  have "i_out R ((tst ?h)(a \<mapsto> T_RUNNING)) (remove1 a (s_outQueue s))" using J by (auto simp: i_out_def)
  moreover have "i_sleep R ((tst ?h)(a \<mapsto> T_RUNNING)) (wake ?h) (s_sleepQueue s)" using J nq by (auto simp: i_sleep_def)
  moreover have "i_run R ((tst ?h)(a \<mapsto> T_RUNNING)) (hand ?h) (s_runQueue s)" using J nq by (auto simp: i_run_def)
  moreover have "i_thr k R (s_numCores s) (s_next s) (?h(a \<mapsto> ?t)) (s_contexts s)"
  proof (rule i_thr_update [where R = R])
    show "thr_ok k (a \<in> R) (s_numCores s) (s_contexts s) a ?t" using ok clean a by (auto simp: thr_ok_def)
  qed (use J nx in auto)
  moreover have "i_ctx (s_numCores s) (?h(a \<mapsto> ?t)) (s_contexts s)" using J by (intro i_ctx_same [where t = t]) (auto simp: t)
  moreover have "i_gid (?h(a \<mapsto> ?t)) (s_gidMap s)" using J t by (intro i_gid_update [where t = t]) simp_all
  moreover have "i_work F (s_numCores s) (may ?h) (run_on (?h(a \<mapsto> ?t)) (s_contexts s)) (s_runQueue s)"
    using J run by (auto simp: i_work_def)
  ultimately show "sinv k F R (s\<lparr>s_heap := ?h(a \<mapsto> ?t), s_outQueue := remove1 a (s_outQueue s)\<rparr>)" using J unfolding sinv_def by (simp add: clean views i_misc_def)
qed

lemma detach_sleep_ok:
  assumes I: "sinv k F R s" and a: "tst (s_heap s) a = Some T_SLEEPING" "a \<notin> R"
  shows "list_remove a (s_sleepQueue s) = Some (remove1 a (s_sleepQueue s)) \<and> sinv k F (insert a R) (s\<lparr>s_sleepQueue := remove1 a (s_sleepQueue s)\<rparr>)"
proof -
  note J = I [unfolded sinv_def]
  have "a \<in> set (s_sleepQueue s)" using J a by (simp add: i_sleep_def)
  moreover have "i_sleep (insert a R) (tst (s_heap s)) (wake (s_heap s)) (remove1 a (s_sleepQueue s))"
    using J by (auto simp: i_sleep_def sorted_map_remove1)
  ultimately show ?thesis using J a i_run_drop i_out_drop i_thr_drop by (simp add: list_remove_def sinv_def i_misc_def)
qed

section \<open>Calls into the cores\<close>

text \<open>The cores that have joined, by the log, and a log in which every core joins and leaves in turn.\<close>

fun core_on :: "core_call list \<Rightarrow> nat \<Rightarrow> bool" where
  "core_on [] c = False"
| "core_on (CoreJoin d # l) c = (d = c \<or> core_on l c)"
| "core_on (CoreLeave d # l) c = (d \<noteq> c \<and> core_on l c)"
| "core_on (e # l) c = core_on l c"

fun log_ok :: "core_call list \<Rightarrow> bool" where
  "log_ok [] = True"
| "log_ok (CoreJoin d # l) = (\<not> core_on l d \<and> log_ok l)"
| "log_ok (CoreLeave d # l) = (core_on l d \<and> log_ok l)"
| "log_ok (e # l) = log_ok l"

definition log_same :: "sched \<Rightarrow> sched \<Rightarrow> bool" where
  "log_same s s' \<longleftrightarrow> core_on (s_log s') = core_on (s_log s) \<and> log_ok (s_log s') = log_ok (s_log s)"

lemma core_on_other [simp]: "core_on (CoreSwitch c g # l) = core_on l" "core_on (StatsDeschedule c p # l) = core_on l" "core_on (AtSync # l) = core_on l"
  by (simp_all add: fun_eq_iff)

section \<open>The scheduling policy\<close>

lemma first_with_find: "(\<And>x. x \<in> set xs \<Longrightarrow> p x = Some (P x)) \<Longrightarrow> first_with p xs = Some (find P xs)"
  by (induction xs) auto

lemma allows_may: "s_heap s a = Some t \<Longrightarrow> length (th_mask t) = n \<Longrightarrow> c < n \<Longrightarrow> allows s a c = Some (may (s_heap s) a c)"
  by (simp add: allows_def may_def)

lemma sinv_allows: "sinv k F R s \<Longrightarrow> s_heap s a = Some t \<Longrightarrow> c < s_numCores s \<Longrightarrow> allows s a c = Some (may (s_heap s) a c)"
  using sinv_thread(1) [of k F R s a t] by (simp add: thr_ok_def allows_may)

lemma sinv_queued:
  assumes "sinv k F R s" "a \<in> set (s_runQueue s)"
  shows "\<exists>t. s_heap s a = Some t \<and> th_state t = T_QUEUED \<and> th_futexWord t = 1 \<and> th_handoff t = None \<and> th_fakeLeave t = None \<and> \<not> th_marked t \<and>
    a \<notin> R \<and> a \<notin> ran (hand (s_heap s))"
proof -
  have q: "tst (s_heap s) a = Some T_QUEUED" "a \<notin> R" "a \<notin> ran (hand (s_heap s))" using assms by (auto simp: sinv_def i_run_def)
  then obtain t where t: "s_heap s a = Some t" "th_state t = T_QUEUED" by (auto simp: tst_Some)
  then show ?thesis using sinv_thread(1) [OF assms(1) t(1)] q by (auto simp: thr_ok_def)
qed

lemma unqueue_ok:
  assumes I: "sinv k F R s" and a: "a \<in> set (s_runQueue s)"
  shows "sinv k F (insert a R) (s\<lparr>s_runQueue := remove1 a (s_runQueue s)\<rparr>)"
proof -
  note J = I [unfolded sinv_def]
  have "i_run (insert a R) (tst (s_heap s)) (hand (s_heap s)) (remove1 a (s_runQueue s))" using J a by (auto simp: i_run_def)
  moreover have "i_work F (s_numCores s) (may (s_heap s)) (run_on (s_heap s) (s_contexts s)) (remove1 a (s_runQueue s))"
    using J by (auto simp: i_work_def dest: notin_set_remove1)
  moreover have "tst (s_heap s) a = Some T_QUEUED" using J a by (auto simp: i_run_def)
  moreover have "i_thr k (insert a R) (s_numCores s) (s_next s) (s_heap s) (s_contexts s)"
    using J unfolding i_thr_def by (auto intro: thr_ok_mono)
  ultimately show ?thesis using J i_out_drop i_sleep_drop by (simp add: sinv_def i_misc_def)
qed

lemma schedContext_ok:
  assumes I: "sinv k F R s" and c: "c < s_numCores s"
  shows "\<exists>r s'. schedContext c s = Some (r, s') \<and> r = find (\<lambda>a. may (s_heap s) a c) (s_runQueue s) \<and>
    (case r of None \<Rightarrow> s' = s \<and> (\<forall>a \<in> set (s_runQueue s). \<not> may (s_heap s) a c)
     | Some a \<Rightarrow> a \<in> set (s_runQueue s) \<and> may (s_heap s) a c \<and> s' = s\<lparr>s_runQueue := remove1 a (s_runQueue s)\<rparr> \<and> sinv k F (insert a R) s')"
proof -
  have "allows s a c = Some (may (s_heap s) a c)" if "a \<in> set (s_runQueue s)" for a
    using sinv_queued [OF I that] sinv_allows [OF I] c by auto
  then have fw: "first_with (\<lambda>a. allows s a c) (s_runQueue s) = Some (find (\<lambda>a. may (s_heap s) a c) (s_runQueue s))" by (rule first_with_find)
  show ?thesis
  proof (cases "find (\<lambda>a. may (s_heap s) a c) (s_runQueue s)")
    case None
    then have "\<forall>a \<in> set (s_runQueue s). \<not> may (s_heap s) a c" by (auto simp: find_None_iff)
    then show ?thesis using fw None by (simp add: schedContext_def)
  next
    case (Some a)
    then have a: "a \<in> set (s_runQueue s)" "may (s_heap s) a c" by (auto simp: find_Some_iff)
    have "sinv k F (insert a R) (s\<lparr>s_runQueue := remove1 a (s_runQueue s)\<rparr>)" by (rule unqueue_ok [OF I a(1)])
    then show ?thesis using fw a Some by (auto simp: schedContext_def list_remove_def)
  qed
qed

text \<open>The heap keeps, of every thread, what the barrier must not overtake.\<close>

definition same_pend :: "thread_heap \<Rightarrow> thread_heap \<Rightarrow> bool" where
  "same_pend h h' \<longleftrightarrow> (\<forall>a t'. h' a = Some t' \<longrightarrow> (\<exists>t. h a = Some t \<and> th_cid t' = th_cid t \<and> th_marked t' = th_marked t \<and>
     th_fakeLeave t' = th_fakeLeave t \<and> th_handoff t' = th_handoff t))"

lemma same_pend_refl [simp]: "same_pend h h"
  by (simp add: same_pend_def)

text \<open>What \<open>schedThread\<close> promises: a free context that the thread may use, or nothing to be had.\<close>

definition got_context :: "nat \<Rightarrow> nat set \<Rightarrow> nat \<Rightarrow> sched \<Rightarrow> nat option \<Rightarrow> sched \<Rightarrow> bool" where
  "got_context k R a s r s' \<longleftrightarrow>
     (case r of None \<Rightarrow> s' = s
      | Some c \<Rightarrow> c < s_numCores s \<and> may (s_heap s) a c \<and> \<not> run_on (s_heap s) (s_contexts s) c \<and> sinv k {c} R s' \<and> s_heap s' a = s_heap s a \<and>
          hand (s_heap s') = hand (s_heap s) \<and> s_runQueue s' = s_runQueue s \<and> s_numCores s' = s_numCores s \<and> s_curPhase s' = s_curPhase s \<and>
          same_pend (s_heap s) (s_heap s') \<and> s_gidMap s' = s_gidMap s \<and>
          (\<forall>b t. s_heap s b = Some t \<longrightarrow> th_state t \<noteq> T_OUT \<longrightarrow> s_heap s' b = Some t) \<and>
          log_same s s' \<and> (\<forall>d < s_numCores s. run_on (s_heap s') (s_contexts s') d \<longleftrightarrow> run_on (s_heap s) (s_contexts s) d))"

lemma free_take_ok:
  assumes I: "sinv k {} R s" and c: "c \<in> set (s_freeList s)" "may (s_heap s) a c"
  shows "list_remove c (s_freeList s) = Some (remove1 c (s_freeList s)) \<and> got_context k R a s (Some c) (s\<lparr>s_freeList := remove1 c (s_freeList s)\<rparr>)"
proof -
  note J = I [unfolded sinv_def]
  have cc: "c < s_numCores s" "cur (s_contexts s) c = None" using J c(1) by (auto simp: i_free_def)
  have "i_free {c} (s_numCores s) (s_contexts s) (remove1 c (s_freeList s))" using J cc by (auto simp: i_free_def)
  moreover have "i_work {c} (s_numCores s) (may (s_heap s)) (run_on (s_heap s) (s_contexts s)) (s_runQueue s)" using J by (auto simp: i_work_def)
  ultimately have "sinv k {c} R (s\<lparr>s_freeList := remove1 c (s_freeList s)\<rparr>)" using J by (simp add: sinv_def i_misc_def)
  then show ?thesis using c cc by (simp add: list_remove_def got_context_def log_same_def run_on_def)
qed

lemma steal_out_ok:
  assumes R: "sinv k {} R s" and t: "s_heap s a = Some t" "th_state t \<noteq> T_OUT"
    and Ra: "R = {} \<or> R = {a}"
  shows "\<exists>r s'. steal_out a s = Some (r, s') \<and> got_context k R a s r s' \<and>
    (r = None \<longrightarrow> (\<forall>b u. s_heap s b = Some u \<longrightarrow> th_state u = T_OUT \<longrightarrow> \<not> may (s_heap s) a (th_cid u)))"
proof -
  note J = R [unfolded sinv_def]
  have outq: "\<exists>u. s_heap s b = Some u \<and> th_state u = T_OUT \<and> th_cid u < s_numCores s" if "b \<in> set (s_outQueue s)" for b
  proof -
    have "tst (s_heap s) b = Some T_OUT" using J that by (auto simp: i_out_def)
    then obtain u where "s_heap s b = Some u" "th_state u = T_OUT" by (auto simp: tst_Some)
    then show ?thesis using sinv_thread(1) [OF R] by (auto simp: thr_ok_def)
  qed
  let ?P = "\<lambda>b. may (s_heap s) a (th_cid (the (s_heap s b)))"
  have "(do { u \<leftarrow> s_heap s b; allows s a (th_cid u) }) = Some (?P b)" if "b \<in> set (s_outQueue s)" for b
    using outq [OF that] sinv_allows [OF R t(1)] by auto
  then have fw: "first_with (\<lambda>b. do { u \<leftarrow> s_heap s b; allows s a (th_cid u) }) (s_outQueue s) = Some (find ?P (s_outQueue s))" by (rule first_with_find)
  show ?thesis
  proof (cases "find ?P (s_outQueue s)")
    case None
    have "\<not> may (s_heap s) a (th_cid u)" if u: "s_heap s b = Some u" "th_state u = T_OUT" for b u
    proof -
      have "tst (s_heap s) b = Some T_OUT" "b \<notin> R" using u Ra t by (auto simp: tst_def)
      then have "b \<in> set (s_outQueue s)" using J by (simp add: i_out_def)
      then show ?thesis using None u by (auto simp: find_None_iff)
    qed
    then show ?thesis using fw None by (auto simp: steal_out_def got_context_def)
  next
    case (Some b)
    then have b: "b \<in> set (s_outQueue s)" "?P b" by (auto simp: find_Some_iff)
    obtain u where u: "s_heap s b = Some u" "th_state u = T_OUT" "th_cid u < s_numCores s" using outq [OF b(1)] by blast
    have ba: "b \<noteq> a" "b \<notin> R" using u t Ra by auto
    have tb: "tst (s_heap s) b = Some T_OUT" using u by (simp add: tst_def)
    let ?s = "s\<lparr>s_outQueue := remove1 b (s_outQueue s)\<rparr>"
    have d: "list_remove b (s_outQueue s) = Some (remove1 b (s_outQueue s))" "sinv k {} (insert b R) ?s" using detach_out_ok [OF R tb ba(2)] by auto
    have clean: "th_handoff u = None" "th_fakeLeave u = None" "\<not> th_marked u" using sinv_thread(1) [OF R u(1)] u(2) by (auto simp: thr_ok_def)
    have ub: "s_heap ?s b = Some u" using u by simp
    have st: "th_state u = T_RUNNING \<or> th_state u = T_OUT \<and> b \<in> insert b R" using u by simp
    obtain s' where s': "deschedule b (th_cid u) T_BLOCKED ?s = Some s'" "sinv k {th_cid u} (insert b R - {b}) s'"
        "s_heap s' = (s_heap s)(b \<mapsto> u\<lparr>th_state := T_BLOCKED\<rparr>)"
        "s_log s' = StatsDeschedule (th_cid u) (getPid (th_gid u)) # CoreSwitch (th_cid u) (- 1) # s_log s" "lists_kept ?s s'"
        "\<forall>d < s_numCores s. run_on (s_heap s') (s_contexts s') d \<longleftrightarrow> d \<noteq> th_cid u \<and> run_on (s_heap s) (s_contexts s) d"
      using deschedule_ok [OF d(2) ub st clean, of T_BLOCKED] by auto
    have nr: "\<not> run_on (s_heap s) (s_contexts s) (th_cid u)" using sinv_running(5) [OF R u(1)] u by (auto simp: run_on_def tst_def)
    have R': "insert b R - {b} = R" using ba by auto
    have "got_context k R a s (Some (th_cid u)) s'"
      using s' u b ba nr R' same_view(2) [of "s_heap s" b u] clean by (auto simp: got_context_def lists_kept_def log_same_def same_pend_def)
    then show ?thesis using fw Some u d s'(1) by (auto simp: steal_out_def)
  qed
qed

lemma take_own_ok:
  assumes I: "sinv k {} R s" and t: "s_heap s a = Some t"
  shows "\<exists>r s'. take_own a s = Some (r, s') \<and> got_context k R a s r s'"
proof -
  have c: "th_cid t < s_numCores s" using sinv_thread(1) [OF I t] by (simp add: thr_ok_def)
  note x = sinv_context [OF I c] sinv_allows [OF I t c]
  show ?thesis
  proof (cases "c_state (s_contexts s ! th_cid t) = IDLE \<and> may (s_heap s) a (th_cid t)")
    case True
    then have "th_cid t \<in> set (s_freeList s)" using x(2) c I by (simp add: sinv_def i_free_def)
    then show ?thesis using free_take_ok [OF I _ conjunct2 [OF True]] True t c x by (auto simp: take_own_def)
  next
    case False
    then show ?thesis using t c x by (auto simp: take_own_def got_context_def)
  qed
qed

lemma take_free_ok:
  assumes I: "sinv k {} R s" and t: "s_heap s a = Some t"
  shows "\<exists>r s'. take_free a s = Some (r, s') \<and> got_context k R a s r s' \<and>
    (r = None \<longrightarrow> (\<forall>c < s_numCores s. cur (s_contexts s) c = None \<longrightarrow> \<not> may (s_heap s) a c))"
proof -
  have fl: "c \<in> set (s_freeList s) \<longleftrightarrow> c < s_numCores s \<and> cur (s_contexts s) c = None" for c using I by (simp add: sinv_def i_free_def)
  have "allows s a c = Some (may (s_heap s) a c)" if "c \<in> set (s_freeList s)" for c using sinv_allows [OF I t] fl that by simp
  then have fw: "first_with (allows s a) (s_freeList s) = Some (find (may (s_heap s) a) (s_freeList s))" by (rule first_with_find)
  show ?thesis
  proof (cases "find (may (s_heap s) a) (s_freeList s)")
    case None
    then have "\<forall>c \<in> set (s_freeList s). \<not> may (s_heap s) a c" by (auto simp: find_None_iff)
    then show ?thesis using fw None fl by (auto simp: take_free_def got_context_def)
  next
    case (Some c)
    then have "c \<in> set (s_freeList s)" "may (s_heap s) a c" by (auto simp: find_Some_iff)
    then show ?thesis using free_take_ok [OF I] fw Some by (auto simp: take_free_def)
  qed
qed

lemma schedThread_ok:
  assumes I: "sinv k {} R s" and t: "s_heap s a = Some t" "th_state t \<noteq> T_OUT" and R: "R = {} \<or> R = {a}"
  shows "\<exists>r s'. schedThread a s = Some (r, s') \<and> got_context k R a s r s' \<and>
    (r = None \<longrightarrow> (\<forall>c < s_numCores s. may (s_heap s) a c \<longrightarrow> run_on (s_heap s) (s_contexts s) c))"
proof -
  have fin: "allows s' a c = Some True" if "got_context k R a s (Some c) s'" for c s'
    using that t(1) sinv_allows [of k "{c}" R s' a t c] by (auto simp: got_context_def may_def)
  obtain r1 s1 where 1: "take_own a s = Some (r1, s1)" "got_context k R a s r1 s1" using take_own_ok [OF I t(1)] by blast
  show ?thesis
  proof (cases r1)
    case (Some c)
    then show ?thesis using 1 fin [of c s1] by (simp add: schedThread_def)
  next
    case r1: None
    then have s1: "s1 = s" using 1(2) by (simp add: got_context_def)
    obtain r2 s2 where 2: "take_free a s = Some (r2, s2)" "got_context k R a s r2 s2"
        "r2 = None \<longrightarrow> (\<forall>c < s_numCores s. cur (s_contexts s) c = None \<longrightarrow> \<not> may (s_heap s) a c)" using take_free_ok [OF I t(1)] by blast
    show ?thesis
    proof (cases r2)
      case (Some c)
      then show ?thesis using 1(1) 2 r1 s1 fin [of c s2] by (simp add: schedThread_def)
    next
      case r2: None
      then have s2: "s2 = s" using 2(2) by (simp add: got_context_def)
      obtain r3 s3 where 3: "steal_out a s = Some (r3, s3)" "got_context k R a s r3 s3"
          "r3 = None \<longrightarrow> (\<forall>b u. s_heap s b = Some u \<longrightarrow> th_state u = T_OUT \<longrightarrow> \<not> may (s_heap s) a (th_cid u))" using steal_out_ok [OF I t R] by blast
      have none: "run_on (s_heap s) (s_contexts s) c" if n: "r3 = None" and c: "c < s_numCores s" "may (s_heap s) a c" for c
      proof -
        obtain b where b: "cur (s_contexts s) c = Some b" using 2(3) r2 c by fastforce
        then obtain u where "s_heap s b = Some u" "th_cid u = c" "th_state u = T_RUNNING \<or> th_state u = T_OUT" using sinv_context(3) [OF I c(1)] by blast
        then show ?thesis using 3(3) n c(2) b by (auto simp: run_on_def tst_def)
      qed
      show ?thesis
      proof (cases r3)
        case None
        then have "s3 = s" using 3(2) by (simp add: got_context_def)
        then show ?thesis using None none 1 2 3 r1 r2 s1 s2 by (simp add: schedThread_def)
      next
        case (Some c)
        then show ?thesis using 1(1) 2(1) 3 r1 r2 s1 s2 fin [of c s3] by (simp add: schedThread_def)
      qed
    qed
  qed
qed

section \<open>Sleeping threads\<close>

lemma insert_after_ok:
  assumes "\<forall>y \<in> set q. s_heap s y \<noteq> None" "q \<noteq> []" "wake (s_heap s) (hd q) \<le> w" "sorted (map (wake (s_heap s)) q)" "wake (s_heap s) a = w"
    "distinct q" "a \<notin> set q"
  shows "\<exists>q'. insert_after s w a q = Some q' \<and> set q' = insert a (set q) \<and> distinct q' \<and> sorted (map (wake (s_heap s)) q') \<and> hd q' = hd q"
  using assms
proof (induction s w a q rule: insert_after.induct)
  case (1 s w a x y zs)
  obtain t where t: "s_heap s y = Some t" using "1.prems"(1) by auto
  have wy: "wake (s_heap s) y = th_wakeupPhase t" using t by (simp add: wake_def)
  show ?case
  proof (cases "th_wakeupPhase t \<le> w")
    case True
    obtain r where r: "insert_after s w a (y # zs) = Some r" "set r = insert a (set (y # zs))" "distinct r" "sorted (map (wake (s_heap s)) r)" "hd r = y"
      using "1.IH" [OF t True] "1.prems" True wy by auto
    have "wake (s_heap s) x \<le> wake (s_heap s) z" if "z \<in> set r" for z using that r(2) "1.prems"(3-5) by auto
    then show ?thesis using t True r "1.prems"(6,7) by auto
  next
    case False
    then show ?thesis using t wy "1.prems" by auto
  qed
qed auto

lemma sleep_insert_ok:
  assumes I: "sinv k F R s" and a: "a \<in> R" "tst (s_heap s) a = Some T_SLEEPING"
  shows "\<exists>s'. sleep_insert a s = Some s' \<and> sinv k F (R - {a}) s' \<and> s_heap s' = s_heap s \<and> s_contexts s' = s_contexts s \<and> s_log s' = s_log s \<and>
    s_runQueue s' = s_runQueue s \<and> s_numCores s' = s_numCores s \<and> s_curPhase s' = s_curPhase s \<and> s_gidMap s' = s_gidMap s"
proof -
  note J = I [unfolded sinv_def]
  let ?q = "s_sleepQueue s" let ?w = "wake (s_heap s)"
  obtain t where t: "s_heap s a = Some t" using a(2) by (auto simp: tst_Some)
  have q: "a \<notin> set ?q" "distinct ?q" "sorted (map ?w ?q)" "\<And>b. b \<in> set ?q \<longleftrightarrow> tst (s_heap s) b = Some T_SLEEPING \<and> b \<notin> R" using J a by (auto simp: i_sleep_def)
  have live: "s_heap s b \<noteq> None" if "b \<in> set ?q" for b using that q(4) by (auto simp: tst_Some)
  have wa: "?w a = th_wakeupPhase t" using t by (simp add: wake_def)
  have own: "\<not> owned s a" using J a by (auto simp: owned_def i_out_def i_run_def i_sleep_def)
  have "\<exists>q'. (case ?q of [] \<Rightarrow> Some [a] | x # xs \<Rightarrow> do { tx \<leftarrow> s_heap s x;
      if th_wakeupPhase tx > th_wakeupPhase t then Some (a # x # xs) else insert_after s (th_wakeupPhase t) a (x # xs) }) = Some q' \<and>
    set q' = insert a (set ?q) \<and> distinct q' \<and> sorted (map ?w q')"
  proof (cases ?q)
    case (Cons x xs)
    obtain tx where tx: "s_heap s x = Some tx" using live [of x] Cons by auto
    then have wx: "?w x = th_wakeupPhase tx" by (simp add: wake_def)
    show ?thesis
    proof (cases "th_wakeupPhase tx > th_wakeupPhase t")
      case True
      then show ?thesis using Cons tx wx wa q by auto
    next
      case False
      then show ?thesis using insert_after_ok [of ?q s "th_wakeupPhase t" a] Cons tx wx wa q live by auto
    qed
  qed simp
  then obtain q' where q': "(case ?q of [] \<Rightarrow> Some [a] | x # xs \<Rightarrow> do { tx \<leftarrow> s_heap s x;
      if th_wakeupPhase tx > th_wakeupPhase t then Some (a # x # xs) else insert_after s (th_wakeupPhase t) a (x # xs) }) = Some q'"
    "set q' = insert a (set ?q)" "distinct q'" "sorted (map ?w q')" by blast
  let ?s = "s\<lparr>s_sleepQueue := q'\<rparr>"
  have "i_sleep (R - {a}) (tst (s_heap s)) ?w q'" using q' q(4) a by (auto simp: i_sleep_def)
  then have "sinv k F (R - {a}) ?s" using J a i_run_drop i_out_drop i_thr_drop by (simp add: sinv_def i_misc_def)
  moreover have "sleep_insert a s = Some (bump (\<lambda>n. n\<lparr>n_sleep := n_sleep n + 1\<rparr>) ?s)" using own t q'(1) by (simp add: sleep_insert_def)
  ultimately show ?thesis by (simp add: sinv_bump)
qed

text \<open>One sleeper whose deadline has come.\<close>

lemma wake_one:
  assumes I: "sinv k {} {} s" and q: "s_sleepQueue s = a # q" and t: "s_heap s a = Some t"
  defines "t' \<equiv> t\<lparr>th_state := T_BLOCKED, th_needsJoin := False, th_futexWord := 0\<rparr>"
  shows "(do { s \<leftarrow> upd_th a (\<lambda>t. t\<lparr>th_state := T_BLOCKED\<rparr>) s; s \<leftarrow> wakeup a False s; Some (s\<lparr>s_sleepQueue := tl (s_sleepQueue s)\<rparr>) }) =
      Some (s\<lparr>s_heap := (s_heap s)(a \<mapsto> t'), s_sleepQueue := q\<rparr>)"
    and "sinv k {} {} (s\<lparr>s_heap := (s_heap s)(a \<mapsto> t'), s_sleepQueue := q\<rparr>)"
    and "run_on ((s_heap s)(a \<mapsto> t')) (s_contexts s) = run_on (s_heap s) (s_contexts s)"
    and "th_state t = T_SLEEPING"
proof -
  note J = I [unfolded sinv_def]
  have ta: "tst (s_heap s) a = Some T_SLEEPING" using J q by (auto simp: i_sleep_def)
  then show st: "th_state t = T_SLEEPING" using t by (simp add: tst_def)
  have ok: "th_futexWord t = 1" "\<not> th_marked t" using sinv_thread(1) [OF I t] st by (auto simp: thr_ok_def)
  let ?u = "t\<lparr>th_state := T_BLOCKED\<rparr>"
  have d: "sinv k {} {a} (s\<lparr>s_sleepQueue := q\<rparr>)" using detach_sleep_ok [OF I ta] q by simp
  have d': "s_heap (s\<lparr>s_sleepQueue := q\<rparr>) a = Some t" using t by simp
  have e: "sinv k {} {} (s\<lparr>s_sleepQueue := q, s_heap := (s_heap s)(a \<mapsto> ?u)\<rparr>)"
    "run_on ((s_heap s)(a \<mapsto> ?u)) (s_contexts s) = run_on (s_heap s) (s_contexts s)"
    using restate_ok [OF d d', of T_BLOCKED] st by simp_all
  let ?s = "s\<lparr>s_sleepQueue := q, s_heap := (s_heap s)(a \<mapsto> ?u)\<rparr>"
  have u: "s_heap ?s a = Some ?u" by simp
  obtain s' where s': "sinv k {} {} s'" "s' = ?s\<lparr>s_heap := (s_heap ?s)(a \<mapsto> ?u\<lparr>th_needsJoin := False, th_futexWord := 0\<rparr>)\<rparr>"
    "run_on (s_heap s') (s_contexts s') = run_on (s_heap ?s) (s_contexts ?s)"
    using wakeup_ok [OF e(1) u, of False] ok by auto
  have eq: "s' = s\<lparr>s_heap := (s_heap s)(a \<mapsto> t'), s_sleepQueue := q\<rparr>" using s'(2) by (simp add: t'_def)
  show "sinv k {} {} (s\<lparr>s_heap := (s_heap s)(a \<mapsto> t'), s_sleepQueue := q\<rparr>)" using s'(1) eq by simp
  show "run_on ((s_heap s)(a \<mapsto> t')) (s_contexts s) = run_on (s_heap s) (s_contexts s)" using s'(3) e(2) eq by simp
  show "(do { s \<leftarrow> upd_th a (\<lambda>t. t\<lparr>th_state := T_BLOCKED\<rparr>) s; s \<leftarrow> wakeup a False s; Some (s\<lparr>s_sleepQueue := tl (s_sleepQueue s)\<rparr>) }) =
      Some (s\<lparr>s_heap := (s_heap s)(a \<mapsto> t'), s_sleepQueue := q\<rparr>)"
    using t q ok by (simp add: wakeup_def t'_def)
qed

section \<open>The end of a phase\<close>

text \<open>At the end of a phase no thread is between a mark and its leave, in a fake leave, or about to hand its context on.\<close>

definition quiet :: "thread_heap \<Rightarrow> bool" where
  "quiet h \<longleftrightarrow> (\<forall>a t. h a = Some t \<longrightarrow> \<not> th_marked t \<and> th_fakeLeave t = None \<and> th_handoff t = None)"

lemma quiet_update: "quiet h \<Longrightarrow> \<not> th_marked t \<Longrightarrow> th_fakeLeave t = None \<Longrightarrow> th_handoff t = None \<Longrightarrow> quiet (h(a \<mapsto> t))"
  by (simp add: quiet_def)

lemma sinv_later:
  assumes "sinv k F R s" "quiet (s_heap s)" "\<And>a. tst (s_heap s) a = Some T_SLEEPING \<Longrightarrow> Suc k < wake (s_heap s) a"
  shows "sinv (Suc k) F R s"
proof -
  have "i_thr (Suc k) R (s_numCores s) (s_next s) (s_heap s) (s_contexts s)" unfolding i_thr_def
  proof (intro allI impI)
    fix a t assume t: "s_heap s a = Some t"
    have "th_state t = T_SLEEPING \<Longrightarrow> Suc k < th_wakeupPhase t" using assms(3) [of a] t by (simp add: tst_def wake_def)
    moreover have "\<not> th_marked t" using assms(2) t by (simp add: quiet_def)
    ultimately show "a < s_next s \<and> thr_ok (Suc k) (a \<in> R) (s_numCores s) (s_contexts s) a t"
      using sinv_thread [OF assms(1) t] by (simp add: thr_ok_def)
  qed
  then show ?thesis using assms(1) by (simp add: sinv_def)
qed

definition slept :: "nat \<Rightarrow> sched \<Rightarrow> sched \<Rightarrow> bool" where
  "slept k s s' \<longleftrightarrow> s_contexts s' = s_contexts s \<and> s_runQueue s' = s_runQueue s \<and> s_log s' = s_log s \<and> s_curPhase s' = s_curPhase s \<and>
     s_numCores s' = s_numCores s \<and> s_schedQuantum s' = s_schedQuantum s \<and> s_gidMap s' = s_gidMap s \<and> wake (s_heap s') = wake (s_heap s) \<and>
     run_on (s_heap s') (s_contexts s') = run_on (s_heap s) (s_contexts s) \<and>
     (\<forall>b. tst (s_heap s') b = (if tst (s_heap s) b = Some T_SLEEPING \<and> wake (s_heap s) b = k then Some T_BLOCKED else tst (s_heap s) b))"

lemma wake_sleepers_ok:
  assumes "sinv k {} {} s" "s_sleepQueue s = q" "s_curPhase s = Suc k" "quiet (s_heap s)"
  shows "\<exists>s'. wake_sleepers q s = Some s' \<and> sinv (Suc k) {} {} s' \<and> quiet (s_heap s') \<and> slept (Suc k) s s'"
  using assms
proof (induction q arbitrary: s)
  case Nil
  then have none: "tst (s_heap s) a \<noteq> Some T_SLEEPING" for a by (auto simp: sinv_def i_sleep_def)
  then have "sinv (Suc k) {} {} s" using sinv_later [OF Nil.prems(1,4)] by simp
  then show ?case using Nil.prems none by (simp add: slept_def)
next
  case (Cons a q)
  note J = Cons.prems(1) [unfolded sinv_def]
  have sl: "b \<in> set (a # q) \<longleftrightarrow> tst (s_heap s) b = Some T_SLEEPING" for b using J Cons.prems(2) by (simp add: i_sleep_def)
  then obtain t where t: "s_heap s a = Some t" by (auto simp: tst_Some)
  have wa: "wake (s_heap s) a = th_wakeupPhase t" using t by (simp add: wake_def)
  note w1 = wake_one [OF Cons.prems(1,2) t]
  have late: "Suc k \<le> th_wakeupPhase t" using sinv_thread(1) [OF Cons.prems(1) t] w1(4) by (simp add: thr_ok_def)
  show ?case
  proof (cases "th_wakeupPhase t \<le> Suc k")
    case True
    let ?t = "t\<lparr>th_state := T_BLOCKED, th_needsJoin := False, th_futexWord := 0\<rparr>"
    let ?s = "s\<lparr>s_heap := (s_heap s)(a \<mapsto> ?t), s_sleepQueue := q\<rparr>"
    have qt: "quiet (s_heap ?s)" using Cons.prems(4) t by (auto simp: quiet_def)
    obtain s' where s': "wake_sleepers q ?s = Some s'" "sinv (Suc k) {} {} s'" "quiet (s_heap s')" "slept (Suc k) ?s s'"
      using Cons.IH [OF w1(2) _ _ qt] Cons.prems(3) by auto
    have "wake_sleepers (a # q) s = (do { s \<leftarrow> upd_th a (\<lambda>t. t\<lparr>th_state := T_BLOCKED\<rparr>) s; s \<leftarrow> wakeup a False s;
        Some (s\<lparr>s_sleepQueue := tl (s_sleepQueue s)\<rparr>) }) \<bind> wake_sleepers q"
      using t True late Cons.prems(3) by (auto split: bind_splits)
    then have "wake_sleepers (a # q) s = Some s'" using w1(1) s'(1) by simp
    moreover have "slept (Suc k) s s'"
    proof -
      have "wake (s_heap ?s) = wake (s_heap s)" using same_view(3) [of "s_heap s" a t] t by simp
      moreover have "tst (s_heap s) a = Some T_SLEEPING" using t w1(4) by (simp add: tst_def)
      ultimately show ?thesis using s'(4) True late wa w1(3) by (auto simp: slept_def)
    qed
    ultimately show ?thesis using s'(2,3) by blast
  next
    case False
    have later: "Suc k < wake (s_heap s) b" if "tst (s_heap s) b = Some T_SLEEPING" for b
    proof -
      have "b \<in> set (a # q)" using sl that by simp
      moreover have "sorted (map (wake (s_heap s)) (a # q))" using J Cons.prems(2) by (simp add: i_sleep_def)
      ultimately show ?thesis using False wa by auto
    qed
    then have "sinv (Suc k) {} {} s" using sinv_later [OF Cons.prems(1,4)] by simp
    moreover have "slept (Suc k) s s" using later unfolding slept_def by fastforce
    ultimately have "sinv (Suc k) {} {} s" "slept (Suc k) s s" .
    then show ?thesis using t False Cons.prems(3,4) by auto
  qed
qed

subsection \<open>The time slice\<close>

text \<open>A thread is told to hand its context to \<open>a\<close>.\<close>

lemma hand_over_ok:
  assumes I: "sinv k {} {} s" and a: "a \<in> set (s_runQueue s)" and c: "c < s_numCores s" "may (s_heap s) a c"
    and free: "\<forall>v t. cur (s_contexts s) c = Some v \<longrightarrow> s_heap s v = Some t \<longrightarrow> th_handoff t = None \<and> \<not> th_marked t \<and> th_fakeLeave t = None"
  shows "\<exists>v t. cur (s_contexts s) c = Some v \<and> s_heap s v = Some t \<and> th_cid t = c \<and> v \<noteq> a \<and>
    sinv k {} {} (s\<lparr>s_heap := (s_heap s)(v \<mapsto> t\<lparr>th_handoff := Some a\<rparr>), s_runQueue := remove1 a (s_runQueue s)\<rparr>) \<and>
    run_on ((s_heap s)(v \<mapsto> t\<lparr>th_handoff := Some a\<rparr>)) (s_contexts s) = run_on (s_heap s) (s_contexts s)"
proof -
  note J = I [unfolded sinv_def]
  have "run_on (s_heap s) (s_contexts s) c" using J a c by (auto simp: i_work_def)
  then obtain v t where v: "cur (s_contexts s) c = Some v" "s_heap s v = Some t" "th_state t = T_RUNNING" by (auto simp: run_on_def tst_Some)
  note f = free [rule_format, OF v(1,2)]
  have cid: "th_cid t = c" using sinv_context(3) [OF I c(1) v(1)] v(2) by auto
  obtain ta where ta: "s_heap s a = Some ta" "th_state ta = T_QUEUED" "a \<notin> ran (hand (s_heap s))" using sinv_queued [OF I a] by blast
  have va: "v \<noteq> a" using ta v by auto
  let ?t = "t\<lparr>th_handoff := Some a\<rparr>" let ?h = "(s_heap s)(v \<mapsto> ?t)"
  have run: "run_on ?h (s_contexts s) = run_on (s_heap s) (s_contexts s)" using run_on_same [of "s_heap s" v t ?t] v(2) by simp
  have views: "(tst (s_heap s))(v \<mapsto> th_state t) = tst (s_heap s)" "(wake (s_heap s))(v := th_wakeupPhase t) = wake (s_heap s)"
    "(may (s_heap s))(v := (!) (th_mask t)) = may (s_heap s)" "(faked (s_heap s))(v := False) = faked (s_heap s)"
    using same_view [of "s_heap s" v t, OF v(2)] f by simp_all
  have "i_thr k {} (s_numCores s) (s_next s) ?h (s_contexts s)"
  proof (rule i_thr_update [where R = "{}"])
    show "thr_ok k (v \<in> {}) (s_numCores s) (s_contexts s) v ?t" using sinv_thread(1) [OF I v(2)] v(3) f by (simp add: thr_ok_def)
  qed (use J sinv_thread(2) [OF I v(2)] in auto)
  moreover have "i_ctx (s_numCores s) ?h (s_contexts s)" using J by (intro i_ctx_same [where t = t]) (auto simp: v(2))
  moreover have "i_gid ?h (s_gidMap s)" using J v(2) by (intro i_gid_update [where t = t]) simp_all
  moreover have "i_run {} (tst (s_heap s)) ((hand (s_heap s))(v \<mapsto> a)) (remove1 a (s_runQueue s))"
  proof -
    have hv: "hand (s_heap s) v = None" using v(2) f by (simp add: hand_def)
    then have ran: "ran ((hand (s_heap s))(v \<mapsto> a)) = insert a (ran (hand (s_heap s)))" by simp
    have i: "i_run {} (tst (s_heap s)) (hand (s_heap s)) (s_runQueue s)" using J by simp
    then have "hand (s_heap s) x = Some d \<Longrightarrow> hand (s_heap s) y = Some d \<Longrightarrow> x = y" for x y d by (simp add: i_run_def)
    moreover have "hand (s_heap s) x \<noteq> Some a" for x using ta(3) by (auto simp: ran_def)
    ultimately have "\<forall>x y d. ((hand (s_heap s))(v \<mapsto> a)) x = Some d \<longrightarrow> ((hand (s_heap s))(v \<mapsto> a)) y = Some d \<longrightarrow> x = y"
      by (auto split: if_split)
    moreover have "tst (s_heap s) a = Some T_QUEUED" using ta by (simp add: tst_def)
    moreover have "distinct (remove1 a (s_runQueue s))" "\<forall>b. b \<in> set (remove1 a (s_runQueue s)) \<longleftrightarrow> b \<noteq> a \<and> b \<in> set (s_runQueue s)"
      using i by (auto simp: i_run_def)
    ultimately show ?thesis using i unfolding i_run_def ran by (simp only:) blast
  qed
  moreover have "i_work {} (s_numCores s) (may (s_heap s)) (run_on (s_heap s) (s_contexts s)) (remove1 a (s_runQueue s))"
    using J by (auto simp: i_work_def dest: notin_set_remove1)
  ultimately have "sinv k {} {} (s\<lparr>s_heap := ?h, s_runQueue := remove1 a (s_runQueue s)\<rparr>)" using J f by (simp add: sinv_def views run i_misc_def)
  then show ?thesis using v(1,2) cid va run by blast
qed

text \<open>Handing contexts on changes nothing but \<open>handoffThread\<close>, and gives a context only to a queued thread that may use it.\<close>

definition ticked :: "sched \<Rightarrow> sched \<Rightarrow> bool" where
  "ticked s s' \<longleftrightarrow> s_contexts s' = s_contexts s \<and> s_log s' = s_log s \<and> s_curPhase s' = s_curPhase s \<and> s_numCores s' = s_numCores s \<and>
     s_gidMap s' = s_gidMap s \<and> set (s_runQueue s') \<subseteq> set (s_runQueue s) \<and>
     (\<forall>a. map_option (\<lambda>t. t\<lparr>th_handoff := None\<rparr>) (s_heap s' a) = map_option (\<lambda>t. t\<lparr>th_handoff := None\<rparr>) (s_heap s a)) \<and>
     (\<forall>v d. hand (s_heap s') v = Some d \<longrightarrow> hand (s_heap s) v = Some d \<or>
        d \<in> set (s_runQueue s) \<and> (\<exists>c < s_numCores s. cur (s_contexts s) c = Some v \<and> may (s_heap s) d c))"

lemma ticked_refl [simp]: "ticked s s"
  by (simp add: ticked_def)

lemma same_but_handoff:
  assumes "\<forall>a. map_option (\<lambda>t. t\<lparr>th_handoff := None\<rparr>) (h' a) = map_option (\<lambda>t. t\<lparr>th_handoff := None\<rparr>) (h a)"
  shows "tst h' = tst h" "may h' = may h" "wake h' = wake h" "faked h' = faked h"
    "h' a = Some t \<Longrightarrow> \<exists>u. h a = Some u \<and> th_marked t = th_marked u \<and> th_fakeLeave t = th_fakeLeave u \<and> th_state t = th_state u \<and> th_cid t = th_cid u"
proof -
  have e: "h' b = None \<and> h b = None \<or> (\<exists>t u. h' b = Some t \<and> h b = Some u \<and> th_state t = th_state u \<and> th_mask t = th_mask u \<and>
      th_wakeupPhase t = th_wakeupPhase u \<and> th_fakeLeave t = th_fakeLeave u \<and> th_marked t = th_marked u \<and> th_cid t = th_cid u)" for b
    using assms [rule_format, of b]
    by (cases "h' b"; cases "h b")
       (auto dest: arg_cong [of _ _ th_state] arg_cong [of _ _ th_mask] arg_cong [of _ _ th_wakeupPhase] arg_cong [of _ _ th_fakeLeave]
         arg_cong [of _ _ th_marked] arg_cong [of _ _ th_cid])
  show "tst h' = tst h"
  proof
    show "tst h' b = tst h b" for b using e [of b] by (auto simp: tst_def fun_eq_iff)
  qed
  show "may h' = may h"
  proof
    show "may h' b = may h b" for b using e [of b] by (auto simp: may_def fun_eq_iff)
  qed
  show "wake h' = wake h"
  proof
    show "wake h' b = wake h b" for b using e [of b] by (auto simp: wake_def fun_eq_iff)
  qed
  show "faked h' = faked h"
  proof
    show "faked h' b = faked h b" for b using e [of b] by (auto simp: faked_def fun_eq_iff)
  qed
  show "h' a = Some t \<Longrightarrow> \<exists>u. h a = Some u \<and> th_marked t = th_marked u \<and> th_fakeLeave t = th_fakeLeave u \<and> th_state t = th_state u \<and> th_cid t = th_cid u"
    using e [of a] by auto
qed

lemma ticked_run_on:
  assumes "ticked s s'" shows "run_on (s_heap s') (s_contexts s') = run_on (s_heap s) (s_contexts s)"
proof -
  have "tst (s_heap s') = tst (s_heap s)" using assms by (intro same_but_handoff(1)) (simp add: ticked_def)
  then show ?thesis using assms by (simp add: ticked_def run_on_def fun_eq_iff)
qed

lemma ticked_trans:
  assumes "ticked s u" "ticked u s'"
  shows "ticked s s'"
proof -
  have "may (s_heap u) = may (s_heap s)" using assms(1) by (intro same_but_handoff(2)) (simp add: ticked_def)
  moreover have "\<forall>v d. hand (s_heap s') v = Some d \<longrightarrow> hand (s_heap s) v = Some d \<or>
      d \<in> set (s_runQueue s) \<and> (\<exists>c < s_numCores s. cur (s_contexts s) c = Some v \<and> may (s_heap s) d c)"
    using assms calculation unfolding ticked_def by (metis subsetD)
  moreover have "set (s_runQueue s') \<subseteq> set (s_runQueue s)" using assms unfolding ticked_def by blast
  ultimately show ?thesis using assms unfolding ticked_def by (intro conjI) simp_all
qed

lemma tick_loop_ok:
  assumes "sinv k {} {} s" "set q \<subseteq> set (s_runQueue s)" "distinct q" "distinct avail"
    and "\<forall>c \<in> set avail. c < s_numCores s \<and> (\<forall>v. cur (s_contexts s) c = Some v \<longrightarrow> hand (s_heap s) v = None)"
    and "\<forall>a t. s_heap s a = Some t \<longrightarrow> \<not> th_marked t \<and> th_fakeLeave t = None"
  shows "\<exists>s'. tick_loop q avail s = Some s' \<and> sinv k {} {} s' \<and> ticked s s'"
  using assms
proof (induction q arbitrary: avail s)
  case Nil
  then show ?case by simp
next
  case (Cons a q)
  have a: "a \<in> set (s_runQueue s)" using Cons.prems(2) by simp
  obtain ta where ta: "s_heap s a = Some ta" using sinv_queued [OF Cons.prems(1) a] by blast
  have "allows s a c = Some (may (s_heap s) a c)" if "c \<in> set avail" for c using sinv_allows [OF Cons.prems(1) ta] Cons.prems(5) that by simp
  then have fw: "first_with (allows s a) avail = Some (find (may (s_heap s) a) avail)" by (rule first_with_find)
  show ?case
  proof (cases "avail = [] \<or> find (may (s_heap s) a) avail = None")
    case True
    then show ?thesis using fw Cons.IH [OF Cons.prems(1) _ _ Cons.prems(4-6)] Cons.prems by (cases "avail = []") auto
  next
    case False
    then obtain c where fc: "find (may (s_heap s) a) avail = Some c" by auto
    then have c: "c \<in> set avail" "may (s_heap s) a c" by (auto simp: find_Some_iff)
    have cn: "c < s_numCores s" using Cons.prems(5) c(1) by simp
    have free: "\<forall>v t. cur (s_contexts s) c = Some v \<longrightarrow> s_heap s v = Some t \<longrightarrow> th_handoff t = None \<and> \<not> th_marked t \<and> th_fakeLeave t = None"
      using Cons.prems(5,6) c(1) by (auto simp: hand_def)
    obtain v t where v: "cur (s_contexts s) c = Some v" "s_heap s v = Some t" "th_cid t = c" "v \<noteq> a"
      "sinv k {} {} (s\<lparr>s_heap := (s_heap s)(v \<mapsto> t\<lparr>th_handoff := Some a\<rparr>), s_runQueue := remove1 a (s_runQueue s)\<rparr>)"
      "run_on ((s_heap s)(v \<mapsto> t\<lparr>th_handoff := Some a\<rparr>)) (s_contexts s) = run_on (s_heap s) (s_contexts s)"
      using hand_over_ok [OF Cons.prems(1) a cn c(2) free] by blast
    let ?s = "s\<lparr>s_heap := (s_heap s)(v \<mapsto> t\<lparr>th_handoff := Some a\<rparr>), s_runQueue := remove1 a (s_runQueue s)\<rparr>"
    have sub: "set q \<subseteq> set (s_runQueue ?s)" using Cons.prems(1-3) by (auto simp: sinv_def i_run_def)
    have av: "\<forall>d \<in> set (remove1 c avail). d < s_numCores ?s \<and> (\<forall>w. cur (s_contexts ?s) d = Some w \<longrightarrow> hand (s_heap ?s) w = None)"
    proof (intro ballI conjI allI impI)
      fix d w assume d: "d \<in> set (remove1 c avail)"
      then have dn: "d \<in> set avail" "d \<noteq> c" using Cons.prems(4) by auto
      then show "d < s_numCores ?s" using Cons.prems(5) by simp
      assume w: "cur (s_contexts ?s) d = Some w"
      have "w \<noteq> v"
      proof
        assume "w = v"
        then have "th_cid t = d" using sinv_context(3) [OF Cons.prems(1), of d v] w dn Cons.prems(5) v(2) by auto
        then show False using v(3) dn by simp
      qed
      then show "hand (s_heap ?s) w = None" using Cons.prems(5) dn(1) w by simp
    qed
    have mk: "\<forall>a t. s_heap ?s a = Some t \<longrightarrow> \<not> th_marked t \<and> th_fakeLeave t = None" using Cons.prems(6) v(2) by auto
    have "distinct q" "distinct (remove1 c avail)" using Cons.prems(3,4) by simp_all
    then obtain s' where s': "tick_loop q (remove1 c avail) ?s = Some s'" "sinv k {} {} s'" "ticked ?s s'"
      using Cons.IH [OF v(5) sub _ _ av mk] by blast
    have "ticked s ?s" using v(1,2) a cn c(2) set_remove1_subset [of a "s_runQueue s"] by (auto simp: ticked_def)
    then have "ticked s s'" using s'(3) ticked_trans by blast
    moreover have "tick_loop (a # q) avail s = Some s'"
      using False fw fc v(1,2) s'(1) a sinv_context(1) [OF Cons.prems(1) cn] by (auto simp: list_remove_def cur_def)
    ultimately show ?thesis using s'(2) by blast
  qed
qed

lemma fisher_yates_ok:
  assumes "n < length xs" "\<forall>i. rs i \<le> i"
  shows "\<exists>ys. fisher_yates rs n xs = Some ys \<and> set ys = set xs \<and> (distinct ys \<longleftrightarrow> distinct xs)"
  using assms(1)
proof (induction n arbitrary: xs)
  case 0
  then show ?case by simp
next
  case (Suc i)
  have j: "rs (Suc i) < length xs" using Suc.prems assms(2) by (meson le_less_trans)
  let ?xs = "xs[Suc i := xs ! rs (Suc i), rs (Suc i) := xs ! Suc i]"
  obtain ys where "fisher_yates rs i ?xs = Some ys" "set ys = set ?xs" "distinct ys \<longleftrightarrow> distinct ?xs" using Suc.IH [of ?xs] Suc.prems by auto
  then show ?case using Suc.prems j set_swap [OF Suc.prems j] distinct_swap [OF Suc.prems j] by simp
qed

lemma schedTick_ok:
  assumes I: "sinv k {} {} s" and q: "quiet (s_heap s)" and rs: "\<forall>i. rs i \<le> i"
  shows "\<exists>s'. schedTick rs s = Some s' \<and> sinv k {} {} s' \<and> ticked s s'"
proof -
  have n: "s_numCores s - 1 < length [0..<s_numCores s]" using I by (simp add: sinv_def i_misc_def)
  obtain av where av: "fisher_yates rs (s_numCores s - 1) [0..<s_numCores s] = Some av" "set av = {0..<s_numCores s}" "distinct av"
    using fisher_yates_ok [OF n rs] by auto
  have "hand (s_heap s) v = None" for v using q by (cases "s_heap s v") (auto simp: hand_def quiet_def)
  moreover have "distinct (s_runQueue s)" using I by (simp add: sinv_def i_run_def)
  ultimately obtain s' where "tick_loop (s_runQueue s) av s = Some s'" "sinv k {} {} s'" "ticked s s'"
    using tick_loop_ok [OF I order_refl _ av(3)] av(2) q by (auto simp: quiet_def)
  then show ?thesis using av(1) by (simp add: schedTick_def)
qed

subsection \<open>The callback\<close>

lemma phase_stats_ok:
  assumes "sinv k F R s"
  shows "\<exists>f. phase_stats s = Some (bump f s) \<and> sinv k F R (bump f s)"
proof -
  note J = assms [unfolded sinv_def]
  have "{c. c < s_numCores s \<and> cur (s_contexts s) c \<noteq> None} \<subseteq> {0..<s_numCores s}" by auto
  then have le: "s_scheduled s \<le> s_numCores s" using J card_mono [of "{0..<s_numCores s}"] by (fastforce simp: i_cnt_def)
  let ?n = "s_stats s"
  let ?i = "if length (s_runQueue s) < length (n_runQueueHist ?n) - 1 then length (s_runQueue s) else length (n_runQueueHist ?n) - 1"
  have len: "length (n_occHist ?n) = s_numCores s + 1" "0 < length (n_runQueueHist ?n)" using J by (simp_all add: i_misc_def)
  then have i: "?i < length (n_runQueueHist ?n)" by (auto simp: not_less)
  let ?occ = "(n_occHist ?n)[s_scheduled s := n_occHist ?n ! s_scheduled s + 1]"
  let ?rq = "(n_runQueueHist ?n)[?i := n_runQueueHist ?n ! ?i + 1]"
  let ?f = "\<lambda>n. n\<lparr>n_occHist := ?occ, n_runQueueHist := ?rq\<rparr>"
  have "phase_stats s = Some (bump ?f s)" using le len i by (simp add: phase_stats_def hist_inc_def Let_def)
  moreover have "sinv k F R (bump ?f s)" using J by (simp add: sinv_def bump_def i_misc_def)
  ultimately show ?thesis by blast
qed

text \<open>What the callback leaves: the deadlines of the new phase have been met, and contexts go only to queued threads that may use them.\<close>

definition phase_done :: "sched \<Rightarrow> sched \<Rightarrow> bool" where
  "phase_done s s' \<longleftrightarrow> s_contexts s' = s_contexts s \<and> s_numCores s' = s_numCores s \<and> s_gidMap s' = s_gidMap s \<and> log_same s s' \<and>
     s_curPhase s' = Suc (s_curPhase s) \<and> run_on (s_heap s') (s_contexts s') = run_on (s_heap s) (s_contexts s) \<and> wake (s_heap s') = wake (s_heap s) \<and>
     (\<forall>a. tst (s_heap s') a = (if tst (s_heap s) a = Some T_SLEEPING \<and> wake (s_heap s) a = Suc (s_curPhase s) then Some T_BLOCKED else tst (s_heap s) a)) \<and>
     (\<forall>a t. s_heap s' a = Some t \<longrightarrow> \<not> th_marked t \<and> th_fakeLeave t = None) \<and>
     (\<forall>v d. hand (s_heap s') v = Some d \<longrightarrow> d \<in> set (s_runQueue s) \<and> (\<exists>c < s_numCores s. cur (s_contexts s) c = Some v))"

lemma callback_ok:
  assumes I: "sinv (s_curPhase s) {} {} s" and q: "quiet (s_heap s)" and rs: "\<forall>i. rs i \<le> i"
  shows "\<exists>s'. callback rs s = Some s' \<and> sinv (s_curPhase s') {} {} s' \<and> phase_done s s'"
proof -
  obtain f where f: "phase_stats s = Some (bump f s)" "sinv (s_curPhase s) {} {} (bump f s)" using phase_stats_ok [OF I] by blast
  let ?k = "s_curPhase s"
  define s1 where "s1 = (log_call AtSync (bump f s))\<lparr>s_numPhases := s_numPhases s + 1, s_globPhaseCycles := s_globPhaseCycles s + s_phaseLength s,
    s_curPhase := ?k + 1\<rparr>"
  have s1: "s_heap s1 = s_heap s" "s_contexts s1 = s_contexts s" "s_numCores s1 = s_numCores s" "s_gidMap s1 = s_gidMap s" "s_curPhase s1 = Suc ?k"
    "s_runQueue s1 = s_runQueue s" "s_sleepQueue s1 = s_sleepQueue s" "log_same s s1" "s_numPhases s1 = s_numPhases s + 1"
    by (simp_all add: s1_def log_same_def)
  have "sinv ?k {} {} s1 = sinv ?k {} {} (bump f s)" by (simp add: s1_def sinv_def i_misc_def log_call_def bump_def)
  then have I1: "sinv ?k {} {} s1" using f(2) by simp
  have ph: "s_curPhase s1 = s_numPhases s1" using I s1(5,9) by (simp add: sinv_def i_misc_def)
  obtain s2 where s2: "wake_sleepers (s_sleepQueue s1) s1 = Some s2" "sinv (Suc ?k) {} {} s2" "quiet (s_heap s2)" "slept (Suc ?k) s1 s2"
    using wake_sleepers_ok [OF I1 refl s1(5)] q s1(1) by auto
  have cb: "callback rs s = (if s_runQueue s2 = [] then Some s2 else do { assert_that (s_schedQuantum s2 \<noteq> 0);
      if s_curPhase s2 mod s_schedQuantum s2 = 0 then schedTick rs s2 else Some s2 })"
    using f(1) ph s2(1) unfolding callback_def by (simp add: s1_def Let_def bump_def log_call_def cong: if_cong)
  have done2: "phase_done s s2"
    using s2(3,4) s1 by (auto simp: phase_done_def slept_def log_same_def quiet_def hand_def bind_eq_Some_conv)
  obtain s3 where s3: "schedTick rs s2 = Some s3" "sinv (Suc ?k) {} {} s3" "ticked s2 s3" using schedTick_ok [OF s2(2,3) rs] by blast
  have "hand (s_heap s2) v = None" for v using s2(3) by (cases "s_heap s2 v") (auto simp: hand_def quiet_def)
  moreover have k2: "s_curPhase s2 = Suc ?k" "s_runQueue s2 = s_runQueue s" using s2(4) s1 by (simp_all add: slept_def)
  moreover have h3: "\<forall>a. map_option (\<lambda>t. t\<lparr>th_handoff := None\<rparr>) (s_heap s3 a) = map_option (\<lambda>t. t\<lparr>th_handoff := None\<rparr>) (s_heap s2 a)"
    using s3(3) by (simp add: ticked_def)
  have m3: "\<not> th_marked t \<and> th_fakeLeave t = None" if "s_heap s3 a = Some t" for a t
    using same_but_handoff(5) [OF h3 that] s2(3) by (auto simp: quiet_def)
  moreover have "\<forall>v d. hand (s_heap s3) v = Some d \<longrightarrow> d \<in> set (s_runQueue s) \<and> (\<exists>c < s_numCores s. cur (s_contexts s) c = Some v)"
    using s3(3) done2 calculation(1,3) by (simp add: ticked_def phase_done_def) blast
  ultimately have done3: "phase_done s s3"
    using done2 s3(3) ticked_run_on [OF s3(3)] same_but_handoff(1,3) [OF h3] unfolding phase_done_def ticked_def log_same_def by auto
  have "s_curPhase s3 = Suc ?k" using s3(3) k2 by (simp add: ticked_def)
  moreover have "s_schedQuantum s2 \<noteq> 0" using s2(2) by (simp add: sinv_def i_misc_def)
  ultimately show ?thesis using cb s2(2) s3(1,2) done2 done3 k2(1) by (auto simp: sinv_def i_misc_def split: if_splits)
qed

section \<open>Sleepers that return early, fake leaves, new and finished threads\<close>

lemma early_wake_ok:
  assumes I: "sinv k {} {} s" and t: "s_heap s a = Some t" and st: "th_state t = T_SLEEPING"
  shows "\<exists>s'. (do { sq \<leftarrow> list_remove a (s_sleepQueue s); upd_th a (\<lambda>t. t\<lparr>th_state := T_BLOCKED\<rparr>) (s\<lparr>s_sleepQueue := sq\<rparr>) }) = Some s' \<and>
    sinv k {} {} s' \<and> s_heap s' = (s_heap s)(a \<mapsto> t\<lparr>th_state := T_BLOCKED\<rparr>) \<and> s_contexts s' = s_contexts s \<and> s_log s' = s_log s \<and>
    s_numCores s' = s_numCores s \<and> s_curPhase s' = s_curPhase s \<and> s_gidMap s' = s_gidMap s \<and>
    run_on (s_heap s') (s_contexts s') = run_on (s_heap s) (s_contexts s)"
proof -
  have ta: "tst (s_heap s) a = Some T_SLEEPING" using t st by (simp add: tst_def)
  let ?s = "s\<lparr>s_sleepQueue := remove1 a (s_sleepQueue s)\<rparr>"
  have d: "list_remove a (s_sleepQueue s) = Some (remove1 a (s_sleepQueue s))" "sinv k {} {a} ?s" using detach_sleep_ok [OF I ta] by simp_all
  have t': "s_heap ?s a = Some t" using t by simp
  show ?thesis using d(1) restate_ok [OF d(2) t', of T_BLOCKED] st t by simp
qed

lemma i_fake_off: "i_fake P q \<Longrightarrow> P a \<Longrightarrow> i_fake (P(a := False)) (remove1 a q)"
  by (auto simp: i_fake_def)

lemma i_fake_on: "i_fake P q \<Longrightarrow> \<not> P a \<Longrightarrow> i_fake (P(a := True)) (q @ [a])"
  by (auto simp: i_fake_def)

text \<open>A fake leave starts or ends; \<open>f\<close> is the new value of the pointer and \<open>fls\<close> the new list.\<close>

lemma fake_leave_update:
  assumes I: "sinv k F R s" and t: "s_heap s a = Some t" and st: "th_state t = T_RUNNING" "\<not> th_marked t" "th_handoff t = None"
    and fls: "i_fake ((faked (s_heap s))(a := f \<noteq> None)) fls"
  shows "sinv k F R (s\<lparr>s_fakeLeaves := fls, s_heap := (s_heap s)(a \<mapsto> t\<lparr>th_fakeLeave := f\<rparr>)\<rparr>)"
    and "run_on ((s_heap s)(a \<mapsto> t\<lparr>th_fakeLeave := f\<rparr>)) (s_contexts s) = run_on (s_heap s) (s_contexts s)"
proof -
  let ?h = "s_heap s" let ?t = "t\<lparr>th_fakeLeave := f\<rparr>"
  note J = I [unfolded sinv_def]
  show run: "run_on (?h(a \<mapsto> ?t)) (s_contexts s) = run_on ?h (s_contexts s)" using run_on_same [of ?h a t ?t] t by simp
  have views: "(tst ?h)(a \<mapsto> T_RUNNING) = tst ?h" "(hand ?h)(a := None) = hand ?h" "(wake ?h)(a := th_wakeupPhase t) = wake ?h"
    "(may ?h)(a := (!) (th_mask t)) = may ?h" using same_view [of ?h a t, OF t] st by simp_all
  have "i_thr k R (s_numCores s) (s_next s) (?h(a \<mapsto> ?t)) (s_contexts s)"
  proof (rule i_thr_update [where R = R])
    show "thr_ok k (a \<in> R) (s_numCores s) (s_contexts s) a ?t" using sinv_thread(1) [OF I t] st by (simp add: thr_ok_def)
  qed (use J sinv_thread(2) [OF I t] in auto)
  moreover have "i_ctx (s_numCores s) (?h(a \<mapsto> ?t)) (s_contexts s)" using J by (intro i_ctx_same [where t = t]) (simp_all add: t)
  moreover have "i_gid (?h(a \<mapsto> ?t)) (s_gidMap s)" using J t by (intro i_gid_update [where t = t]) simp_all
  ultimately show "sinv k F R (s\<lparr>s_fakeLeaves := fls, s_heap := ?h(a \<mapsto> ?t)\<rparr>)" using J fls st by (simp add: sinv_def views run i_misc_def)
qed

lemma finishFakeLeave_ok:
  assumes I: "sinv k F R s" and t: "s_heap s a = Some t" "th_fakeLeave t \<noteq> None"
  shows "\<exists>s'. finishFakeLeave a s = Some s' \<and> sinv k F R s' \<and> s_heap s' = (s_heap s)(a \<mapsto> t\<lparr>th_fakeLeave := None\<rparr>) \<and>
    s_contexts s' = s_contexts s \<and> s_log s' = s_log s \<and> s_numCores s' = s_numCores s \<and> s_curPhase s' = s_curPhase s \<and> s_gidMap s' = s_gidMap s \<and>
    run_on (s_heap s') (s_contexts s') = run_on (s_heap s) (s_contexts s)"
proof -
  have ok: "th_state t = T_RUNNING" "\<not> th_marked t" "th_handoff t = None" using sinv_thread(1) [OF I t(1)] t(2) by (auto simp: thr_ok_def)
  have fk: "i_fake (faked (s_heap s)) (s_fakeLeaves s)" "faked (s_heap s) a" using I t by (auto simp: sinv_def faked_def)
  then have a: "a \<in> set (s_fakeLeaves s)" "i_fake ((faked (s_heap s))(a := None \<noteq> None)) (remove1 a (s_fakeLeaves s))"
    using i_fake_off [OF fk] by (auto simp: i_fake_def)
  show ?thesis using fake_leave_update [OF I t(1) ok a(2)] t ok a(1) by (simp add: finishFakeLeave_def list_remove_def)
qed

lemma begin_fake_leave_ok:
  assumes I: "sinv k F R s" and t: "s_heap s a = Some t" "th_state t = T_RUNNING" "\<not> th_marked t" "th_handoff t = None" "th_fakeLeave t = None"
  shows "\<exists>s'. begin_fake_leave a fl s = Some s' \<and> sinv k F R s' \<and> s_heap s' = (s_heap s)(a \<mapsto> t\<lparr>th_fakeLeave := Some fl\<rparr>) \<and>
    s_contexts s' = s_contexts s \<and> s_log s' = s_log s \<and> s_numCores s' = s_numCores s \<and> s_curPhase s' = s_curPhase s \<and> s_gidMap s' = s_gidMap s \<and>
    run_on (s_heap s') (s_contexts s') = run_on (s_heap s) (s_contexts s)"
proof -
  have fk: "i_fake (faked (s_heap s)) (s_fakeLeaves s)" "\<not> faked (s_heap s) a" using I t by (auto simp: sinv_def faked_def)
  have i: "i_fake ((faked (s_heap s))(a := Some fl \<noteq> None)) (s_fakeLeaves s @ [a])" using i_fake_on [OF fk] by simp
  have "a \<notin> set (s_fakeLeaves s)" using fk by (auto simp: i_fake_def)
  then have "begin_fake_leave a fl s = Some (s\<lparr>s_fakeLeaves := s_fakeLeaves s @ [a], s_heap := (s_heap s)(a \<mapsto> t\<lparr>th_fakeLeave := Some fl\<rparr>)\<rparr>)"
    using t by (simp add: begin_fake_leave_def)
  then show ?thesis using fake_leave_update [OF I t(1,2,3,4) i] by simp
qed

text \<open>A thread that nothing refers to comes into the heap or goes.\<close>

lemma new_thread_ok:
  assumes I: "sinv k {} {} s" and gid: "s_gidMap s g = None" and t: "ThreadInfo_new (s_numCores s) g lp lt cmask = Some t"
  shows "sinv k {} {} (s\<lparr>s_heap := (s_heap s)(s_next s \<mapsto> t), s_gidMap := (s_gidMap s)(g \<mapsto> s_next s), s_next := s_next s + 1\<rparr>)"
    and "run_on ((s_heap s)(s_next s \<mapsto> t)) (s_contexts s) d = run_on (s_heap s) (s_contexts s) d \<or> \<not> d < s_numCores s"
proof -
  let ?a = "s_next s" let ?h = "s_heap s"
  note J = I [unfolded sinv_def]
  have fresh: "?h ?a = None" using J by (cases "?h ?a") (auto simp: i_thr_def)
  have tt: "th_state t = T_STARTED" "th_cid t = 0" "th_handoff t = None" "\<not> th_marked t" "th_fakeLeave t = None" "th_gid t = g" "th_mask t = cmask"
      "length cmask = s_numCores s" "True \<in> set cmask" "th_wakeupPhase t = 0"
    using t by (auto simp: ThreadInfo_new_def bind_eq_Some_conv filter_empty_conv)
  have z: "tst ?h ?a = None" "hand ?h ?a = None" "\<not> faked ?h ?a" "wake ?h ?a = 0" using fresh by (simp_all add: tst_def hand_def faked_def wake_def)
  have views: "(hand ?h)(?a := None) = hand ?h" "(faked ?h)(?a := False) = faked ?h" "(wake ?h)(?a := 0) = wake ?h" using z by (auto simp: fun_eq_iff)
  have run: "run_on (?h(?a \<mapsto> t)) (s_contexts s) d = run_on ?h (s_contexts s) d" if "d < s_numCores s" for d
    using sinv_context(3) [OF I that, of ?a] fresh by (auto simp: run_on_def)
  then show "run_on (?h(?a \<mapsto> t)) (s_contexts s) d = run_on ?h (s_contexts s) d \<or> \<not> d < s_numCores s" by blast
  have qs: "?a \<notin> set (s_runQueue s)" "?a \<notin> ran (hand ?h)" using J z by (auto simp: i_run_def)
  have "i_ctx (s_numCores s) (?h(?a \<mapsto> t)) (s_contexts s)"
  proof -
    have "\<exists>u. (?h(?a \<mapsto> t)) b = Some u \<and> th_cid u = d \<and> (th_state u = T_RUNNING \<or> th_state u = T_OUT)" if "d < s_numCores s" "cur (s_contexts s) d = Some b" for d b
      using sinv_context(3) [OF I that] fresh by auto
    then show ?thesis using J by (simp add: i_ctx_def)
  qed
  moreover have "i_thr k {} (s_numCores s) (Suc ?a) (?h(?a \<mapsto> t)) (s_contexts s)"
    using J tt by (auto simp: i_thr_def thr_ok_def i_misc_def less_Suc_eq)
  moreover have "i_out {} ((tst ?h)(?a \<mapsto> T_STARTED)) (s_outQueue s)" using J z by (auto simp: i_out_def)
  moreover have "i_sleep {} ((tst ?h)(?a \<mapsto> T_STARTED)) (wake ?h) (s_sleepQueue s)" using J z by (auto simp: i_sleep_def)
  moreover have "i_run {} ((tst ?h)(?a \<mapsto> T_STARTED)) (hand ?h) (s_runQueue s)" using J qs z by (auto simp: i_run_def)
  moreover have "i_work {} (s_numCores s) ((may ?h)(?a := (!) cmask)) (run_on (?h(?a \<mapsto> t)) (s_contexts s)) (s_runQueue s)"
    using J run qs by (auto simp: i_work_def)
  moreover have "i_gid (?h(?a \<mapsto> t)) ((s_gidMap s)(g \<mapsto> ?a))" using J tt fresh by (fastforce simp: i_gid_def)
  ultimately show "sinv k {} {} (s\<lparr>s_heap := ?h(?a \<mapsto> t), s_gidMap := (s_gidMap s)(g \<mapsto> ?a), s_next := ?a + 1\<rparr>)"
    using J by (simp add: sinv_def tt views i_misc_def)
qed

lemma delete_thread_ok:
  assumes I: "sinv k {} {} s" and t: "s_heap s a = Some t" and st: "th_state t = T_STARTED \<or> th_state t = T_BLOCKED"
    and gid: "a \<notin> ran (s_gidMap s)"
  shows "sinv k {} {} (s\<lparr>s_heap := (s_heap s)(a := None)\<rparr>)"
    and "d < s_numCores s \<Longrightarrow> run_on ((s_heap s)(a := None)) (s_contexts s) d = run_on (s_heap s) (s_contexts s) d"
proof -
  let ?h = "s_heap s"
  note J = I [unfolded sinv_def]
  have clean: "th_handoff t = None" "th_fakeLeave t = None" using sinv_thread(1) [OF I t] st by (auto simp: thr_ok_def)
  have views: "tst (?h(a := None)) = (tst ?h)(a := None)" "hand (?h(a := None)) = hand ?h" "faked (?h(a := None)) = faked ?h"
    "\<And>b. b \<noteq> a \<Longrightarrow> wake (?h(a := None)) b = wake ?h b" "\<And>b. b \<noteq> a \<Longrightarrow> may (?h(a := None)) b = may ?h b"
    using t clean by (auto simp: fun_eq_iff tst_def hand_def faked_def wake_def may_def)
  have ta: "tst ?h a = Some (th_state t)" using t by (simp add: tst_def)
  have run: "run_on (?h(a := None)) (s_contexts s) d = run_on ?h (s_contexts s) d" if "d < s_numCores s" for d
  proof -
    have "cur (s_contexts s) d \<noteq> Some a" using sinv_context(3) [OF I that, of a] t st by auto
    then show ?thesis by (cases "cur (s_contexts s) d") (auto simp: run_on_def views)
  qed
  then show "d < s_numCores s \<Longrightarrow> run_on (?h(a := None)) (s_contexts s) d = run_on ?h (s_contexts s) d" .
  have nq: "a \<notin> ran (hand ?h)" "a \<notin> set (s_runQueue s)" "a \<notin> set (s_outQueue s)" "a \<notin> set (s_sleepQueue s)"
    using J st ta by (auto simp: i_run_def i_out_def i_sleep_def)
  have "i_ctx (s_numCores s) (?h(a := None)) (s_contexts s)"
  proof -
    have "\<exists>u. (?h(a := None)) b = Some u \<and> th_cid u = d \<and> (th_state u = T_RUNNING \<or> th_state u = T_OUT)" if "d < s_numCores s" "cur (s_contexts s) d = Some b" for d b
      using sinv_context(3) [OF I that] t st by (cases "b = a") auto
    then show ?thesis using J by (simp add: i_ctx_def)
  qed
  moreover have "i_thr k {} (s_numCores s) (s_next s) (?h(a := None)) (s_contexts s)" using J by (simp add: i_thr_def)
  moreover have "i_out {} ((tst ?h)(a := None)) (s_outQueue s)" using J nq by (auto simp: i_out_def)
  moreover have "i_sleep {} ((tst ?h)(a := None)) (wake (?h(a := None))) (s_sleepQueue s)"
  proof -
    have e: "map (wake (?h(a := None))) (s_sleepQueue s) = map (wake ?h) (s_sleepQueue s)"
      using nq(4) views(4) by (intro map_cong refl) metis
    show ?thesis using J nq(4) unfolding i_sleep_def e by auto
  qed
  moreover have "i_run {} ((tst ?h)(a := None)) (hand ?h) (s_runQueue s)" using J nq by (auto simp: i_run_def)
  moreover have "i_work {} (s_numCores s) (may (?h(a := None))) (run_on (?h(a := None)) (s_contexts s)) (s_runQueue s)"
  proof -
    have "may (?h(a := None)) b = may ?h b" if "b \<in> set (s_runQueue s)" for b by (rule views(5)) (use that nq(2) in auto)
    then show ?thesis using J run unfolding i_work_def by metis
  qed
  moreover have "i_gid (?h(a := None)) (s_gidMap s)" using J gid by (fastforce simp: i_gid_def ran_def)
  ultimately show "sinv k {} {} (s\<lparr>s_heap := ?h(a := None)\<rparr>)" using J by (simp add: sinv_def views i_misc_def)
qed

text \<open>A new mask; for a thread on the run queue it names only cores whose thread runs.\<close>

lemma new_mask_ok:
  assumes I: "sinv k {} {} s" and t: "s_heap s a = Some t" and m: "length m = s_numCores s" "True \<in> set m"
    and q: "a \<in> set (s_runQueue s) \<Longrightarrow> \<forall>c < s_numCores s. m ! c \<longrightarrow> run_on (s_heap s) (s_contexts s) c"
  shows "sinv k {} {} (s\<lparr>s_heap := (s_heap s)(a \<mapsto> t\<lparr>th_mask := m\<rparr>)\<rparr>)"
    and "run_on ((s_heap s)(a \<mapsto> t\<lparr>th_mask := m\<rparr>)) (s_contexts s) = run_on (s_heap s) (s_contexts s)"
proof -
  let ?h = "s_heap s" let ?t = "t\<lparr>th_mask := m\<rparr>"
  note J = I [unfolded sinv_def]
  show run: "run_on (?h(a \<mapsto> ?t)) (s_contexts s) = run_on ?h (s_contexts s)" using run_on_same [of ?h a t ?t] t by simp
  have views: "(tst ?h)(a \<mapsto> th_state t) = tst ?h" "(hand ?h)(a := th_handoff t) = hand ?h" "(wake ?h)(a := th_wakeupPhase t) = wake ?h"
    "(faked ?h)(a := (\<exists>y. th_fakeLeave t = Some y)) = faked ?h" using same_view [of ?h a t, OF t] by simp_all
  have "i_thr k {} (s_numCores s) (s_next s) (?h(a \<mapsto> ?t)) (s_contexts s)"
  proof (rule i_thr_update [where R = "{}"])
    show "thr_ok k (a \<in> {}) (s_numCores s) (s_contexts s) a ?t" using sinv_thread(1) [OF I t] m by (simp add: thr_ok_def)
  qed (use J sinv_thread(2) [OF I t] in auto)
  moreover have "i_ctx (s_numCores s) (?h(a \<mapsto> ?t)) (s_contexts s)" using J by (intro i_ctx_same [where t = t]) (simp_all add: t)
  moreover have "i_gid (?h(a \<mapsto> ?t)) (s_gidMap s)" using J t by (intro i_gid_update [where t = t]) simp_all
  moreover have "i_work {} (s_numCores s) ((may ?h)(a := (!) m)) (run_on ?h (s_contexts s)) (s_runQueue s)" using J q by (auto simp: i_work_def)
  ultimately show "sinv k {} {} (s\<lparr>s_heap := ?h(a \<mapsto> ?t)\<rparr>)" using J by (simp add: sinv_def views run i_misc_def)
qed

end
