(* ===== verification/SchedSteps.thy ===== *)
theory SchedSteps
  imports SchedInv
begin

text \<open>
  The scheduler and the barrier together: the invariant of the pair and the proof that every operation returns and keeps it.

  \<^item> A context is in the barrier exactly when its thread is running, and its core has joined exactly then.
  \<^item> A thread that is marked for sleep or in a fake leave runs in the barrier, and a thread that is to hand its context on still has its
    turn of the phase. So the callback, which the barrier calls when nobody runs and every turn is over, finds none of them.
\<close>

section \<open>The invariant of the pair\<close>

definition members :: "sched barrier \<Rightarrow> bool" where
  "members b \<longleftrightarrow> (\<forall>c < s_numCores (b_sched b). inb b c \<longleftrightarrow> run_on (s_heap (b_sched b)) (s_contexts (b_sched b)) c)"

definition pend_ok :: "sched barrier \<Rightarrow> thread_info \<Rightarrow> bool" where
  "pend_ok b t \<longleftrightarrow> (th_marked t \<or> th_fakeLeave t \<noteq> None \<longrightarrow> st b (th_cid t) = RUNNING) \<and> (th_handoff t \<noteq> None \<longrightarrow> turn b (th_cid t))"

definition pending :: "sched barrier \<Rightarrow> thread_heap \<Rightarrow> bool" where
  "pending b h \<longleftrightarrow> (\<forall>a t. h a = Some t \<longrightarrow> pend_ok b t)"

definition cores_ok :: "sched \<Rightarrow> bool" where
  "cores_ok s \<longleftrightarrow> log_ok (s_log s) \<and> (\<forall>c < s_numCores s. core_on (s_log s) c \<longleftrightarrow> run_on (s_heap s) (s_contexts s) c)"

definition bar_ok :: "nat \<Rightarrow> sched barrier \<Rightarrow> bool" where
  "bar_ok n b \<longleftrightarrow> b_inv b \<and> 0 < b_parallel b \<and> n \<le> length (b_threads b)"

definition sys_inv :: "sched barrier \<Rightarrow> bool" where
  "sys_inv b \<longleftrightarrow> bar_ok (s_numCores (b_sched b)) b \<and> sinv (s_curPhase (b_sched b)) {} {} (b_sched b) \<and> members b \<and>
     pending b (s_heap (b_sched b)) \<and> cores_ok (b_sched b)"

abbreviation runs :: "sched \<Rightarrow> nat \<Rightarrow> bool" where
  "runs s \<equiv> run_on (s_heap s) (s_contexts s)"

lemma pending_update:
  assumes "pending b h" "\<not> th_marked t" "th_fakeLeave t = None" "th_handoff t = None"
  shows "pending b (h(a \<mapsto> t))"
  using assms by (simp add: pending_def pend_ok_def)

lemma pending_same: "pending b h \<Longrightarrow> same_pend h h' \<Longrightarrow> pending b h'"
  unfolding pending_def same_pend_def pend_ok_def by metis

lemma pending_sched [simp]: "pending (b\<lparr>b_sched := s\<rparr>) h = pending b h"
  by (simp add: pending_def pend_ok_def turn_def)

lemma bar_views [simp]: "inb (b\<lparr>b_sched := s\<rparr>) = inb b" "turn (b\<lparr>b_sched := s\<rparr>) = turn b" "bar_ok n (b\<lparr>b_sched := s\<rparr>) = bar_ok n b"
  "b_inv (b\<lparr>b_sched := s\<rparr>) = b_inv b"
  by (simp_all add: fun_eq_iff inb_def turn_def bar_ok_def b_inv_def b_list_def b_counts_def b_pos_def)

text \<open>A thread with something pending is running on its context.\<close>

lemma pend_running:
  assumes I: "sinv k F R s" and t: "s_heap s a = Some t" and p: "th_marked t \<or> th_fakeLeave t \<noteq> None \<or> th_handoff t \<noteq> None"
  shows "th_state t = T_RUNNING" "th_cid t < s_numCores s" "runs s (th_cid t)"
proof -
  show r: "th_state t = T_RUNNING" using sinv_thread(1) [OF I t] p by (auto simp: thr_ok_def)
  show "th_cid t < s_numCores s" "runs s (th_cid t)" using sinv_running [OF I t disjI1 [OF r]] r t by (auto simp: run_on_def tst_def)
qed

section \<open>The callback inside the barrier\<close>

definition cb_pre :: "(nat \<Rightarrow> nat) \<Rightarrow> sched \<Rightarrow> bool" where
  "cb_pre rs s \<longleftrightarrow> (\<forall>i. rs i \<le> i) \<and> sinv (s_curPhase s) {} {} s \<and> quiet (s_heap s)"

definition cb_post :: "sched \<Rightarrow> bool" where
  "cb_post s \<longleftrightarrow> sinv (s_curPhase s) {} {} s"

lemma callback_pre_post:
  assumes "cb_pre rs s"
  shows "\<exists>s'. callback rs s = Some s' \<and> cb_post s'"
proof -
  have "sinv (s_curPhase s) {} {} s" "quiet (s_heap s)" "\<forall>i. rs i \<le> i" using assms by (simp_all add: cb_pre_def)
  then obtain s' where "callback rs s = Some s'" "sinv (s_curPhase s') {} {} s'" using callback_ok by blast
  then show ?thesis unfolding cb_post_def by blast
qed

interpretation sched_callback: phase_callback "callback rs" "cb_pre rs" cb_post for rs
  by unfold_locales (rule callback_pre_post)

text \<open>When the last running thread is the one that leaves or synchronizes, and nobody waits for a turn, nobody else has one.\<close>

lemma only_turn:
  assumes I: "b_inv b" and run: "b_running b = 1" and nw: "none_waiting b (b_cur b) (b_size b)" and c: "c < length (b_threads b)" "st b c = RUNNING"
    and d: "d < length (b_threads b)" "turn b d"
  shows "d = c"
proof -
  have "card {t. t < length (b_threads b) \<and> st b t = RUNNING} = 1"
    using I run length_filter_conv_card [of "\<lambda>w. ts_state w = RUNNING" "b_threads b"] by (simp add: b_inv_def b_counts_def numb_def st_def)
  then obtain e where e: "{t. t < length (b_threads b) \<and> st b t = RUNNING} = {e}" by (auto simp: card_1_singleton_iff)
  have "st b d = RUNNING" using d(2) nw by (auto simp: turn_def none_waiting_def)
  then have "d \<in> {t. t < length (b_threads b) \<and> st b t = RUNNING}" "c \<in> {t. t < length (b_threads b) \<and> st b t = RUNNING}" using c d(1) by simp_all
  then show ?thesis unfolding e by simp
qed

lemma callback_allowed:
  assumes B: "bar_ok (s_numCores s) b" and I: "sinv (s_curPhase s) {} {} s" and P: "pending b (s_heap s)" and c: "st b c = RUNNING" "c < s_numCores s"
    and free: "\<And>a t. s_heap s a = Some t \<Longrightarrow> th_cid t = c \<Longrightarrow> \<not> th_marked t \<and> th_fakeLeave t = None \<and> th_handoff t = None"
    and rs: "\<forall>i. rs i \<le> i" and bar: "b_running b = 1" "none_waiting b (b_cur b) (b_size b)"
  shows "cb_pre rs s"
proof -
  have "\<not> th_marked t \<and> th_fakeLeave t = None \<and> th_handoff t = None" if t: "s_heap s a = Some t" for a t
  proof (rule ccontr)
    assume p: "\<not> ?thesis"
    then have n: "th_cid t < s_numCores s" using pend_running [OF I t] by blast
    have "turn b (th_cid t)" using P t p by (auto simp: pending_def pend_ok_def turn_def)
    then have "th_cid t = c" using only_turn [of b c "th_cid t"] B bar c n by (auto simp: bar_ok_def)
    then show False using free [OF t] p by simp
  qed
  then show ?thesis using I rs by (auto simp: cb_pre_def quiet_def)
qed

text \<open>After a step of the barrier in which \<open>c\<close> gave up its turn.\<close>

lemma after_barrier_step:
  assumes R: "bar_result (callback rs) cb_post 1 {c} b b'" and s: "b_sched b = s" and B: "bar_ok (s_numCores s) b" and I: "sinv (s_curPhase s) {} {} s"
    and P: "pending b (s_heap s)" and C: "cores_ok s" and c: "c < s_numCores s" "st b c = RUNNING"
    and free: "\<And>a t. s_heap s a = Some t \<Longrightarrow> th_cid t = c \<Longrightarrow> \<not> th_marked t \<and> th_fakeLeave t = None \<and> th_handoff t = None"
    and M: "\<And>d. d < s_numCores s \<Longrightarrow> inb b' d \<longleftrightarrow> runs s d" and rs: "\<forall>i. rs i \<le> i"
  shows "sys_inv b' \<and> (b_sched b' = s \<or> phase_done s (b_sched b'))"
proof (cases "b_sched b' = s \<and> (\<forall>t < length (b_threads b). t \<notin> {c} \<longrightarrow> (turn b t \<longrightarrow> turn b' t) \<and> (st b t = RUNNING \<longrightarrow> st b' t = RUNNING))")
  case True
  have "bar_ok (s_numCores s) b'" using R B by (auto simp: bar_result_def bar_ok_def same_setup_def)
  moreover have "pending b' (s_heap s)" unfolding pending_def
  proof (intro allI impI)
    fix a t assume t: "s_heap s a = Some t"
    show "pend_ok b' t"
    proof (cases "th_marked t \<or> th_fakeLeave t \<noteq> None \<or> th_handoff t \<noteq> None")
      case p: True
      then have "th_cid t \<noteq> c" "th_cid t < length (b_threads b)" using free [OF t] pend_running(2) [OF I t p] B by (auto simp: bar_ok_def)
      then show ?thesis using True P t by (auto simp: pending_def pend_ok_def)
    qed (simp add: pend_ok_def)
  qed
  ultimately show ?thesis using True M I C by (simp add: sys_inv_def members_def)
next
  case False
  then have r: "callback rs s = Some (b_sched b')" "cb_post (b_sched b')" "b_running b = 1" "none_waiting b (b_cur b) (b_size b)"
      "\<forall>t < length (b_threads b'). inb b' t \<longrightarrow> turn b' t"
    using R s unfolding bar_result_def by blast+
  have "cb_pre rs s" by (rule callback_allowed [OF B I P c(2,1) free rs r(3,4)])
  then have d: "phase_done s (b_sched b')" using callback_ok [OF I _ rs] r(1) by (auto simp: cb_pre_def)
  let ?s = "b_sched b'"
  have I': "sinv (s_curPhase ?s) {} {} ?s" using r(2) by (simp add: cb_post_def)
  have "runs ?s = runs s" using d unfolding phase_done_def by blast
  moreover have "s_numCores ?s = s_numCores s" "core_on (s_log ?s) = core_on (s_log s)" "log_ok (s_log ?s) = log_ok (s_log s)"
    using d by (simp_all add: phase_done_def log_same_def)
  ultimately have n: "s_numCores ?s = s_numCores s" "runs ?s = runs s" "core_on (s_log ?s) = core_on (s_log s)" "log_ok (s_log ?s) = log_ok (s_log s)"
    by blast+
  have B': "bar_ok (s_numCores s) b'" using R B by (auto simp: bar_result_def bar_ok_def same_setup_def)
  have "pending b' (s_heap ?s)" unfolding pending_def
  proof (intro allI impI)
    fix a t assume t: "s_heap ?s a = Some t"
    have q: "\<not> th_marked t" "th_fakeLeave t = None" using d t by (auto simp: phase_done_def)
    have "turn b' (th_cid t)" if h: "th_handoff t \<noteq> None"
    proof -
      have "th_cid t < s_numCores s" "runs s (th_cid t)" using pend_running(2,3) [OF I' t] h n by auto
      then show ?thesis using M r(5) B' by (simp add: bar_ok_def)
    qed
    then show "pend_ok b' t" using q by (simp add: pend_ok_def)
  qed
  then show ?thesis using I' B' M n C d by (simp add: sys_inv_def members_def cores_ok_def)
qed

lemma leave_barrier:
  assumes B: "bar_ok (s_numCores s) b" and I: "sinv (s_curPhase s) {} {} s" and P: "pending b (s_heap s)" and C: "cores_ok s"
    and c: "c < s_numCores s" "st b c = RUNNING" and M: "\<And>d. d < s_numCores s \<Longrightarrow> runs s d \<longleftrightarrow> inb b d \<and> d \<noteq> c"
    and rs: "\<forall>i. rs i \<le> i" and shuf: "\<forall>i. shuf i \<le> i"
  shows "\<exists>b'. bar_leave (callback rs) shuf c (b\<lparr>b_sched := s\<rparr>) = Some b' \<and> sys_inv b' \<and> (b_sched b' = s \<or> phase_done s (b_sched b'))"
proof -
  have free: "\<not> th_marked t \<and> th_fakeLeave t = None \<and> th_handoff t = None" if t: "s_heap s a = Some t" "th_cid t = c" for a t
  proof (rule ccontr)
    assume "\<not> ?thesis"
    then have "runs s (th_cid t)" using pend_running(3) [OF I t(1)] by blast
    then show False using M [OF c(1)] t(2) by simp
  qed
  let ?b = "b\<lparr>b_sched := s\<rparr>"
  have len: "c < length (b_threads ?b)" "b_inv ?b" using B c by (auto simp: bar_ok_def)
  have pre: "cb_pre rs (b_sched ?b)" if "b_running ?b = 1" "none_waiting ?b (b_cur ?b) (b_size ?b)"
    using callback_allowed [OF B I P c(2,1) free rs] that by (simp add: none_waiting_def)
  obtain b' where b': "bar_leave (callback rs) shuf c ?b = Some b'" "bar_result (callback rs) cb_post 1 {c} ?b b'"
      "\<forall>t < length (b_threads ?b). inb b' t \<longleftrightarrow> inb ?b t \<and> t \<noteq> c"
    using sched_callback.leave_or_sync_ok(1) [OF len(2) pre shuf len(1)] c(2) by auto
  have "sys_inv b' \<and> (b_sched b' = s \<or> phase_done s (b_sched b'))"
    by (rule after_barrier_step [OF b'(2) _ _ I _ C c(1) _ free _ rs]) (use B P c b'(3) M in \<open>auto simp: bar_ok_def\<close>)
  then show ?thesis using b'(1) by blast
qed

lemma sync_barrier:
  assumes S: "sys_inv b" and s: "s = b_sched b" and c: "c < s_numCores s" "st b c = RUNNING"
    and free: "\<And>a t. s_heap s a = Some t \<Longrightarrow> th_cid t = c \<Longrightarrow> \<not> th_marked t \<and> th_fakeLeave t = None \<and> th_handoff t = None"
    and rs: "\<forall>i. rs i \<le> i" and shuf: "\<forall>i. shuf i \<le> i"
  shows "\<exists>b'. bar_sync (callback rs) shuf c b = Some b' \<and> sys_inv b' \<and> (b_sched b' = s \<or> phase_done s (b_sched b'))"
proof -
  have B: "bar_ok (s_numCores s) b" and I: "sinv (s_curPhase s) {} {} s" and P: "pending b (s_heap s)" and C: "cores_ok s"
    and M: "\<And>d. d < s_numCores s \<Longrightarrow> inb b d \<longleftrightarrow> runs s d"
    using S s by (simp_all add: sys_inv_def members_def)
  have len: "c < length (b_threads b)" "b_inv b" using B c by (auto simp: bar_ok_def)
  have pre: "cb_pre rs (b_sched b)" if "b_running b = 1" "none_waiting b (b_cur b) (b_size b)"
    using callback_allowed [OF B I P c(2,1) free rs that] s by simp
  obtain b' where b': "bar_sync (callback rs) shuf c b = Some b'" "bar_result (callback rs) cb_post 1 {c} b b'"
      "\<forall>t < length (b_threads b). inb b' t \<longleftrightarrow> inb b t"
    using sched_callback.leave_or_sync_ok(2) [OF len(2) pre shuf len(1)] c(2) by auto
  have "sys_inv b' \<and> (b_sched b' = s \<or> phase_done s (b_sched b'))"
    by (rule after_barrier_step [OF b'(2) s [symmetric] B I P C c free _ rs]) (use B b'(3) M in \<open>auto simp: bar_ok_def\<close>)
  then show ?thesis using b'(1) by blast
qed

lemma join_barrier:
  assumes B: "bar_ok (s_numCores s) b" and I: "sinv (s_curPhase s) {} {} s" and P: "pending b (s_heap s)"
    and L: "log_ok (s_log s)" "\<And>d. d < s_numCores s \<Longrightarrow> core_on (s_log s) d \<longleftrightarrow> inb b d"
    and c: "c < s_numCores s" "\<not> inb b c" and M: "\<And>d. d < s_numCores s \<Longrightarrow> runs s d \<longleftrightarrow> inb b d \<or> d = c" and shuf: "\<forall>i. shuf i \<le> i"
  shows "\<exists>b'. core_join rs shuf c s b = Some b' \<and> sys_inv b' \<and> b_sched b' = log_call (CoreJoin c) s"
proof -
  let ?s = "log_call (CoreJoin c) s" let ?b = "b\<lparr>b_sched := ?s\<rparr>"
  have len: "c < length (b_threads ?b)" "b_inv ?b" "0 < b_parallel ?b" using B c by (auto simp: bar_ok_def)
  have off: "st ?b c = OFFLINE \<or> st ?b c = LEFT" using c(2) by (cases "st b c") (auto simp: inb_def)
  obtain b' where b': "bar_join (callback rs) shuf c ?b = Some b'" "joined c ?b b'"
    using sched_callback.join_ok [OF len(2) shuf len(3,1) off] by blast
  have sch: "b_sched b' = ?s" using b'(2) by (simp add: joined_def)
  have "bar_ok (s_numCores s) b'" using b'(2) B by (auto simp: joined_def bar_ok_def same_setup_def)
  moreover have "members b'" using b'(2) M B unfolding members_def sch by (auto simp: joined_def bar_ok_def)
  moreover have "pending b' (s_heap s)" unfolding pending_def
  proof (intro allI impI)
    fix a t assume t: "s_heap s a = Some t"
    have "th_cid t < length (b_threads b)" if "th_marked t \<or> th_fakeLeave t \<noteq> None \<or> th_handoff t \<noteq> None"
      using pend_running(2) [OF I t that] B by (auto simp: bar_ok_def)
    then show "pend_ok b' t" using b'(2) P t by (auto simp: joined_def pending_def pend_ok_def)
  qed
  moreover have "cores_ok ?s" using L c M unfolding cores_ok_def by auto
  ultimately have "sys_inv b'" using I sch by (simp add: sys_inv_def)
  then show ?thesis using b'(1) sch by (simp add: core_join_def)
qed

section \<open>Joining\<close>

text \<open>A critical section that changes neither who runs nor the log.\<close>

lemma sys_keep:
  assumes S: "sys_inv b" and I: "sinv (s_curPhase s') {} {} s'" and P: "pending b (s_heap s')"
    and same: "s_numCores s' = s_numCores (b_sched b)" "s_log s' = s_log (b_sched b)" "\<And>d. d < s_numCores s' \<Longrightarrow> runs s' d = runs (b_sched b) d"
  shows "sys_inv (b\<lparr>b_sched := s'\<rparr>)"
  using S I P same unfolding sys_inv_def members_def cores_ok_def by simp

lemma sys_parts:
  assumes "sys_inv b"
  shows "bar_ok (s_numCores (b_sched b)) b" "sinv (s_curPhase (b_sched b)) {} {} (b_sched b)" "pending b (s_heap (b_sched b))" "cores_ok (b_sched b)"
    "d < s_numCores (b_sched b) \<Longrightarrow> inb b d \<longleftrightarrow> runs (b_sched b) d"
    "d < s_numCores (b_sched b) \<Longrightarrow> core_on (s_log (b_sched b)) d \<longleftrightarrow> inb b d" "log_ok (s_log (b_sched b))"
  using assms by (simp_all add: sys_inv_def members_def cores_ok_def)

text \<open>A thread that has a context is scheduled there and joins; one that has none is put on the run queue.\<close>

lemma schedule_and_join:
  assumes S: "sys_inv b" and k: "k = s_curPhase s" and n: "s_numCores s = s_numCores (b_sched b)" and I: "sinv k {} R s" and t: "s_heap s a = Some t"
    and st: "th_state t = T_STARTED \<or> th_state t = T_BLOCKED \<or> th_state t = T_QUEUED \<and> a \<in> R" and R: "R = {} \<or> R = {a}"
    and P: "pending b (s_heap s)" and L: "log_ok (s_log s)" "core_on (s_log s) = core_on (s_log (b_sched b))"
    and M: "\<And>d. d < s_numCores s \<Longrightarrow> runs s d = runs (b_sched b) d"
    and g: "got_context k R a s (Some c) s1" and shuf: "\<forall>i. shuf i \<le> i"
  shows "\<exists>s2 b'. schedule a c s1 = Some s2 \<and> core_join rs shuf c s2 b = Some b' \<and> sys_inv b' \<and> b_sched b' = log_call (CoreJoin c) s2 \<and>
    s_heap (b_sched b') = (s_heap s1)(a \<mapsto> t\<lparr>th_state := T_RUNNING, th_cid := c\<rparr>) \<and> may (s_heap s) a c \<and> s_gidMap (b_sched b') = s_gidMap s"
proof -
  note G = g [unfolded got_context_def, simplified]
  have c: "c < s_numCores s" "\<not> runs s c" and I1: "sinv k {c} R s1" and t1: "s_heap s1 a = Some t" using G t by simp_all
  obtain s2 where s2: "schedule a c s1 = Some s2" "sinv k ({c} - {c}) (R - {a}) s2" "s_heap s2 = (s_heap s1)(a \<mapsto> t\<lparr>th_state := T_RUNNING, th_cid := c\<rparr>)"
      "s_log s2 = CoreSwitch c (th_gid t) # s_log s1" "lists_kept s1 s2" "\<forall>d < s_numCores s1. runs s2 d \<longleftrightarrow> d = c \<or> runs s1 d"
    using schedule_ok [OF I1 _ t1 st] by blast
  have clean: "\<not> th_marked t" "th_fakeLeave t = None" "th_handoff t = None" using sinv_thread(1) [OF I t] st by (auto simp: thr_ok_def)
  have n2: "s_numCores s2 = s_numCores s" "s_curPhase s2 = k" using s2(5) G k by (simp_all add: lists_kept_def)
  have e: "{c} - {c} = {}" "R - {a} = {}" using R by auto
  have I2: "sinv (s_curPhase s2) {} {} s2" using s2(2) unfolding e n2(2) .
  have "same_pend (s_heap s) (s_heap s1)" using G by blast
  then have P2: "pending b (s_heap s2)" unfolding s2(3) using clean by (intro pending_update pending_same [OF P]) simp_all
  note p = sys_parts [OF S]
  have "\<exists>b'. core_join rs shuf c s2 b = Some b' \<and> sys_inv b' \<and> b_sched b' = log_call (CoreJoin c) s2"
  proof (rule join_barrier [OF _ I2 P2])
    show "log_ok (s_log s2)" using s2(4) G L by (simp add: log_same_def)
    show "core_on (s_log s2) d \<longleftrightarrow> inb b d" if "d < s_numCores s2" for d using s2(4) G L(2) p(6) n n2 that by (simp add: log_same_def)
    show "\<not> inb b c" using p(5) c M n by simp
    show "runs s2 d \<longleftrightarrow> inb b d \<or> d = c" if "d < s_numCores s2" for d using s2(6) G p(5) M n n2 that by auto
  qed (use p(1) n n2 c shuf in simp_all)
  then obtain b' where b': "core_join rs shuf c s2 b = Some b'" "sys_inv b'" "b_sched b' = log_call (CoreJoin c) s2" by blast
  have "s_gidMap s2 = s_gidMap s" using s2(5) G by (simp add: lists_kept_def)
  then show ?thesis using b' s2(1,3) G by simp
qed

lemma enqueue_and_wait:
  assumes S: "sys_inv b" and k: "k = s_curPhase s" and n: "s_numCores s = s_numCores (b_sched b)" and I: "sinv k {} {a} s" and t: "s_heap s a = Some t"
    and st: "th_state t = T_QUEUED" "a \<notin> ran (hand (s_heap s))" and P: "pending b (s_heap s)" and L: "log_ok (s_log s)" "core_on (s_log s) = core_on (s_log (b_sched b))"
    and M: "\<And>d. d < s_numCores s \<Longrightarrow> runs s d = runs (b_sched b) d" and w: "\<And>c. c < s_numCores s \<Longrightarrow> may (s_heap s) a c \<Longrightarrow> runs s c"
  shows "\<exists>s'. run_push a s \<bind> waitForContext a = Some s' \<and> sys_inv (b\<lparr>b_sched := s'\<rparr>) \<and> s_runQueue s' = s_runQueue s @ [a] \<and>
    s_heap s' a = Some (t\<lparr>th_futexWord := 1\<rparr>)"
proof -
  have w': "run_on (s_heap s) (s_contexts s) c" if "c < s_numCores s" "th_mask t ! c" "c \<notin> {}" for c using w [of c] t that by (simp add: may_def)
  obtain s' where s': "run_push a s \<bind> waitForContext a = Some s'" "sinv k {} ({a} - {a}) s'" "s_heap s' = (s_heap s)(a \<mapsto> t\<lparr>th_futexWord := 1\<rparr>)"
      "s_contexts s' = s_contexts s" "s_log s' = s_log s" "s_runQueue s' = s_runQueue s @ [a]" "s_curPhase s' = s_curPhase s" "s_numCores s' = s_numCores s"
    using enqueue_ok [OF I t _ st w'] by auto
  have clean: "\<not> th_marked t" "th_fakeLeave t = None" "th_handoff t = None" using sinv_thread(1) [OF I t] st by (auto simp: thr_ok_def)
  have "runs s' = runs s" using s'(3,4) run_on_same [of "s_heap s" a t "t\<lparr>th_futexWord := 1\<rparr>"] t by simp
  moreover have "pending b (s_heap s')" unfolding s'(3) using clean by (intro pending_update [OF P]) simp_all
  ultimately have "sys_inv (b\<lparr>b_sched := s'\<rparr>)"
    using S s'(2,5,7,8) k n L M unfolding sys_inv_def members_def cores_ok_def by simp
  then show ?thesis using s' by simp
qed

text \<open>The result of \<open>join\<close>, as the thread finds it: it runs on a context that its mask allows or that it never gave up, or it is
  last in the run queue.\<close>

definition join_result :: "nat \<Rightarrow> thread_info \<Rightarrow> sched \<Rightarrow> bool" where
  "join_result a t s \<longleftrightarrow> (\<exists>t'. s_heap s a = Some t' \<and>
     (th_state t' = T_RUNNING \<and> (th_mask t ! th_cid t' \<or> th_state t \<in> {T_RUNNING, T_OUT} \<and> th_cid t' = th_cid t) \<or>
      th_state t' = T_QUEUED \<and> last (s_runQueue s) = a))"

lemma sched_join_ok:
  assumes S: "sys_inv b" and t: "s_heap (b_sched b) a = Some t"
    and ok: "th_fakeLeave t \<noteq> None \<or> th_state t = T_STARTED \<or> th_state t = T_BLOCKED \<or> th_state t = T_OUT \<or> th_state t = T_SLEEPING"
    and shuf: "\<forall>i. shuf i \<le> i"
  shows "\<exists>b'. sched_join rs shuf a b = Some b' \<and> sys_inv b' \<and> join_result a t (b_sched b')"
proof -
  let ?s = "b_sched b"
  note p = sys_parts [OF S]
  show ?thesis
  proof (cases "th_fakeLeave t = None")
    case False
    obtain s' where s': "finishFakeLeave a ?s = Some s'" "sinv (s_curPhase ?s) {} {} s'" "s_heap s' = (s_heap ?s)(a \<mapsto> t\<lparr>th_fakeLeave := None\<rparr>)"
        "s_log s' = s_log ?s" "s_numCores s' = s_numCores ?s" "s_curPhase s' = s_curPhase ?s" "runs s' = runs ?s"
      using finishFakeLeave_ok [OF p(2) t False] by auto
    have fk: "th_state t = T_RUNNING" "\<not> th_marked t" "th_handoff t = None" using sinv_thread(1) [OF p(2) t] False by (auto simp: thr_ok_def)
    have "sys_inv (b\<lparr>b_sched := s'\<rparr>)" using s' fk by (intro sys_keep [OF S]) (simp_all add: pending_update [OF p(3)])
    then show ?thesis using t False s'(1,3) fk(1) by (auto simp: sched_join_def in_sched_def join_result_def)
  next
    case True
    have nm: "\<not> th_marked t" "th_handoff t = None" using sinv_thread(1) [OF p(2) t] ok True by (auto simp: thr_ok_def)
    let ?u = "if th_state t = T_SLEEPING then t\<lparr>th_state := T_BLOCKED\<rparr> else t"
    have "\<exists>s'. early_wake a ?s = Some s' \<and> sinv (s_curPhase ?s) {} {} s' \<and> s_heap s' = (s_heap ?s)(a \<mapsto> ?u) \<and> s_log s' = s_log ?s \<and>
        s_numCores s' = s_numCores ?s \<and> s_curPhase s' = s_curPhase ?s \<and> runs s' = runs ?s"
    proof (cases "th_state t = T_SLEEPING")
      case sl: True
      show ?thesis using early_wake_ok [OF p(2) t sl] t sl by (auto simp: early_wake_def)
    next
      case False
      then show ?thesis using t p(2) by (simp add: early_wake_def fun_upd_idem)
    qed
    then obtain s1 where s1: "early_wake a ?s = Some s1" "sinv (s_curPhase ?s) {} {} s1" "s_heap s1 = (s_heap ?s)(a \<mapsto> ?u)" "s_log s1 = s_log ?s"
        "s_numCores s1 = s_numCores ?s" "s_curPhase s1 = s_curPhase ?s" "runs s1 = runs ?s" by blast
    have u: "s_heap s1 a = Some ?u" "\<not> th_marked ?u" "th_fakeLeave ?u = None" "th_handoff ?u = None" using s1(3) True nm by simp_all
    have P1: "pending b (s_heap s1)" unfolding s1(3) using u by (intro pending_update [OF p(3)])
    have I1: "sinv (s_curPhase s1) {} {} s1" using s1(2,6) by simp
    have L: "log_ok (s_log s1)" "core_on (s_log s1) = core_on (s_log ?s)" using s1(4) p(7) by simp_all
    have M: "runs s1 d = runs ?s d" for d using s1(7) by simp
    show ?thesis
    proof (cases "th_state t = T_OUT")
      case out: True
      then have ut: "?u = t" by simp
      have t1: "s_heap s1 a = Some t" using u(1) ut by simp
      note cb = come_back_ok [OF I1 t1 out]
      let ?s2 = "s1\<lparr>s_heap := (s_heap s1)(a \<mapsto> t\<lparr>th_state := T_RUNNING\<rparr>), s_outQueue := remove1 a (s_outQueue s1)\<rparr>"
      have c: "th_cid t < s_numCores ?s" "cur (s_contexts ?s) (th_cid t) = Some a" using sinv_running [OF p(2) t] out by auto
      have nr: "\<not> runs ?s (th_cid t)" using c(2) t out by (simp add: run_on_def tst_def)
      have "\<exists>b'. core_join rs shuf (th_cid t) ?s2 b = Some b' \<and> sys_inv b' \<and> b_sched b' = log_call (CoreJoin (th_cid t)) ?s2"
      proof (rule join_barrier [OF _ _ _ _ _ _ _ _ shuf])
        show "pending b (s_heap ?s2)" using u ut by (simp add: pending_update [OF P1])
        show "runs ?s2 d \<longleftrightarrow> inb b d \<or> d = th_cid t" if "d < s_numCores ?s2" for d using cb(3) [of d] p(5) M s1(5) that by auto
      qed (use cb(2) p(1,5,6) c nr L s1(5) in auto)
      then show ?thesis using t True nm s1(1) t1 out cb(1) by (auto simp: sched_join_def join_result_def)
    next
      case out: False
      then have st: "th_state ?u = T_STARTED \<or> th_state ?u = T_BLOCKED" using ok True by auto
      then have nout: "th_state ?u \<noteq> T_OUT" by auto
      obtain r s2 where g: "schedThread a s1 = Some (r, s2)" "got_context (s_curPhase s1) {} a s1 r s2"
          "r = None \<longrightarrow> (\<forall>c < s_numCores s1. may (s_heap s1) a c \<longrightarrow> runs s1 c)"
        using schedThread_ok [OF I1 u(1) nout] by blast
      have def: "sched_join rs shuf a b = (case r of Some c \<Rightarrow> do { s \<leftarrow> schedule a c s2; core_join rs shuf c s b }
         | None \<Rightarrow> do { s \<leftarrow> upd_th a (\<lambda>t. t\<lparr>th_state := T_QUEUED\<rparr>) s2; s \<leftarrow> run_push a s; s \<leftarrow> waitForContext a s; Some (b\<lparr>b_sched := s\<rparr>) })"
        using t True nm s1(1) u(1) st g(1) unfolding sched_join_def by (simp split del: if_split split: option.split) auto
      show ?thesis
      proof (cases r)
        case (Some c)
        obtain s3 b' where b': "schedule a c s2 = Some s3" "core_join rs shuf c s3 b = Some b'" "sys_inv b'"
            "s_heap (b_sched b') = (s_heap s2)(a \<mapsto> ?u\<lparr>th_state := T_RUNNING, th_cid := c\<rparr>)" "may (s_heap s1) a c"
          using schedule_and_join [OF S refl s1(5) I1 u(1) _ _ P1 L M _ shuf] st g(2) Some by blast
        have "th_mask t ! c" using b'(5) u(1) by (simp add: may_def split: if_splits)
        then show ?thesis using def Some b' by (auto simp: join_result_def)
      next
        case None
        then have e: "s2 = s1" using g(2) by (simp add: got_context_def)
        let ?v = "?u\<lparr>th_state := T_QUEUED\<rparr>"
        let ?s3 = "s1\<lparr>s_heap := (s_heap s1)(a \<mapsto> ?v)\<rparr>"
        have I3: "sinv (s_curPhase ?s3) {} {a} ?s3" "runs ?s3 = runs s1" using restate_ok [OF I1 u(1), of T_QUEUED] st by auto
        have v: "s_heap ?s3 a = Some ?v" "th_state ?v = T_QUEUED" by simp_all
        have "a \<notin> ran (hand (s_heap s1))" using I1 u(1) st by (auto simp: sinv_def i_run_def tst_def)
        then have nh: "a \<notin> ran (hand (s_heap ?s3))" using u same_view(2) [of "s_heap s1" a ?u] by simp
        have P3: "pending b (s_heap ?s3)" using u by (simp add: pending_update [OF P1])
        have w: "runs ?s3 c" if "c < s_numCores ?s3" "may (s_heap ?s3) a c" for c
        proof -
          have "may (s_heap s1) a c" using that(2) u(1) by (simp add: may_def)
          then show ?thesis using g(3) None that(1) I3(2) by simp
        qed
        have M3: "runs ?s3 d = runs ?s d" for d using I3(2) M by simp
        obtain s4 where s4: "run_push a ?s3 \<bind> waitForContext a = Some s4" "sys_inv (b\<lparr>b_sched := s4\<rparr>)" "s_runQueue s4 = s_runQueue ?s3 @ [a]"
            "s_heap s4 a = Some (?v\<lparr>th_futexWord := 1\<rparr>)"
          using enqueue_and_wait [OF S refl _ I3(1) v nh P3 _ _ M3 w] s1(5) L by auto
        obtain s5 where s5: "run_push a ?s3 = Some s5" "waitForContext a s5 = Some s4" using s4(1) by (auto simp: bind_eq_Some_conv)
        have "sched_join rs shuf a b = Some (b\<lparr>b_sched := s4\<rparr>)" using def None e u(1) s5 by simp
        then show ?thesis using s4 by (auto simp: join_result_def)
      qed
    qed
  qed
qed

section \<open>Leaving\<close>

lemma take_over_ok:
  assumes I: "sinv k {c} {x} s" and u: "s_heap s x = Some u" "th_state u = T_QUEUED" "th_futexWord u = 1"
  shows "\<exists>s'. take_over x c s = Some s' \<and> sinv k {} {} s' \<and>
    s_heap s' = (s_heap s)(x \<mapsto> u\<lparr>th_state := T_RUNNING, th_cid := c, th_needsJoin := False, th_futexWord := 0\<rparr>) \<and>
    s_log s' = CoreJoin c # CoreSwitch c (th_gid u) # s_log s \<and> (\<forall>d < s_numCores s. runs s' d \<longleftrightarrow> d = c \<or> runs s d) \<and>
    s_numCores s' = s_numCores s \<and> s_curPhase s' = s_curPhase s \<and> s_gidMap s' = s_gidMap s"
proof -
  obtain s1 where s1: "schedule x c s = Some s1" "sinv k ({c} - {c}) ({x} - {x}) s1" "s_heap s1 = (s_heap s)(x \<mapsto> u\<lparr>th_state := T_RUNNING, th_cid := c\<rparr>)"
      "s_log s1 = CoreSwitch c (th_gid u) # s_log s" "lists_kept s s1" "\<forall>d < s_numCores s. runs s1 d \<longleftrightarrow> d = c \<or> runs s d"
    using schedule_ok [OF I _ u(1)] u(2) by blast
  let ?s = "log_call (CoreJoin c) s1" let ?u = "u\<lparr>th_state := T_RUNNING, th_cid := c\<rparr>"
  have I1: "sinv k {} {} ?s" using s1(2) by simp
  have nm: "\<not> th_marked u" using sinv_thread(1) [OF I u(1)] u(2) by (auto simp: thr_ok_def)
  have u1: "s_heap ?s x = Some ?u" using s1(3) by simp
  obtain s2 where s2: "wakeup x False ?s = Some s2" "sinv k {} {} s2" "s2 = ?s\<lparr>s_heap := (s_heap ?s)(x \<mapsto> ?u\<lparr>th_needsJoin := False, th_futexWord := 0\<rparr>)\<rparr>"
      "runs s2 = runs ?s"
    using wakeup_ok [OF I1 u1, of False] u nm by auto
  have "take_over x c s = Some s2" using s1(1) s2(1) by (simp add: take_over_def)
  moreover have "s_heap s2 = (s_heap s)(x \<mapsto> u\<lparr>th_state := T_RUNNING, th_cid := c, th_needsJoin := False, th_futexWord := 0\<rparr>)" using s1(3) s2(3) by simp
  moreover have "s_log s2 = CoreJoin c # CoreSwitch c (th_gid u) # s_log s" "s_numCores s2 = s_numCores s" "s_curPhase s2 = s_curPhase s" "s_gidMap s2 = s_gidMap s"
    using s1(4,5) by (simp_all add: s2(3) lists_kept_def)
  moreover have "\<forall>d < s_numCores s. runs s2 d \<longleftrightarrow> d = c \<or> runs s d" using s1(6) s2(4) by simp
  ultimately show ?thesis using s2(2) by blast
qed

text \<open>The context goes to a queued thread: the barrier sees nothing.\<close>

lemma handed_on:
  assumes S: "sys_inv b" and I: "sinv (s_curPhase s') {} {} s'" and P: "pending b (s_heap s')" and n: "s_numCores s' = s_numCores (b_sched b)"
    and c: "c < s_numCores s'" "runs (b_sched b) c" and M: "\<And>d. d < s_numCores s' \<Longrightarrow> runs s' d = runs (b_sched b) d"
    and L: "log_ok (s_log s')" "core_on (s_log s') = core_on (s_log (b_sched b))"
  shows "sys_inv (b\<lparr>b_sched := s'\<rparr>)"
  using S I P n M L unfolding sys_inv_def members_def cores_ok_def by simp

text \<open>What the scheduler's part of \<open>leave\<close> left: the context with nobody running on it, given up or kept by the thread that leaves.\<close>

definition left_core :: "sched barrier \<Rightarrow> nat \<Rightarrow> nat \<Rightarrow> sched \<Rightarrow> bool" where
  "left_core b c k s \<longleftrightarrow> sinv k {} {} s \<and> s_curPhase s = k \<and> s_numCores s = s_numCores (b_sched b) \<and> pending b (s_heap s) \<and> log_ok (s_log s) \<and>
     (\<forall>d < s_numCores s. core_on (s_log s) d \<longleftrightarrow> core_on (s_log (b_sched b)) d \<and> d \<noteq> c) \<and>
     (\<forall>d < s_numCores s. runs s d \<longleftrightarrow> runs (b_sched b) d \<and> d \<noteq> c)"

lemma left_core_leaves:
  assumes S: "sys_inv b" and l: "left_core b c k s" and c: "c < s_numCores s" "st b c = RUNNING" and rs: "\<forall>i. rs i \<le> i" and shuf: "\<forall>i. shuf i \<le> i"
  shows "\<exists>b'. bar_leave (callback rs) shuf c (b\<lparr>b_sched := s\<rparr>) = Some b' \<and> sys_inv b' \<and> (b_sched b' = s \<or> phase_done s (b_sched b'))"
proof -
  note p = sys_parts [OF S]
  note L = l [unfolded left_core_def]
  have "cores_ok s" using L p(5,6) by (simp add: cores_ok_def)
  moreover have "runs s d \<longleftrightarrow> inb b d \<and> d \<noteq> c" if "d < s_numCores s" for d using L p(5) that by simp
  ultimately show ?thesis using L p(1) c rs shuf by (intro leave_barrier) auto
qed

text \<open>After \<open>leave\<close> the thread is off its core: with its context kept, blocked or, if it was marked, asleep.\<close>

definition leave_result :: "nat \<Rightarrow> thread_info \<Rightarrow> nat \<Rightarrow> sched \<Rightarrow> bool" where
  "leave_result a t k s \<longleftrightarrow> (s_curPhase s = k \<or> s_curPhase s = Suc k) \<and>
     (if th_marked t then tst (s_heap s) a = (if s_curPhase s < th_wakeupPhase t then Some T_SLEEPING else Some T_BLOCKED)
      else tst (s_heap s) a = Some T_OUT \<or> tst (s_heap s) a = Some T_BLOCKED)"

lemma leave_result_phase:
  assumes "leave_result a t k s" "s_curPhase s = k" "b_sched b' = s \<or> phase_done s (b_sched b')" "th_marked t \<longrightarrow> wake (s_heap s) a = th_wakeupPhase t \<and> k < th_wakeupPhase t"
  shows "leave_result a t k (b_sched b')"
  using assms unfolding leave_result_def phase_done_def by auto

lemma leave_unmarked:
  assumes S: "sys_inv b" and t: "s_heap (b_sched b) a = Some t" and st: "th_state t = T_RUNNING" "st b (th_cid t) = RUNNING"
    and clean: "th_handoff t = None" "th_fakeLeave t = None" "\<not> th_marked t" and rs: "\<forall>i. rs i \<le> i" and shuf: "\<forall>i. shuf i \<le> i"
  shows "\<exists>b'. sched_leave rs shuf (th_gid t) (th_cid t) b = Some b' \<and> sys_inv b' \<and> leave_result a t (s_curPhase (b_sched b)) (b_sched b') \<and>
    s_gidMap (b_sched b') = s_gidMap (b_sched b)"
proof -
  let ?c = "th_cid t" let ?sb = "b_sched b" let ?k = "s_curPhase ?sb"
  note p = sys_parts [OF S]
  note c = sinv_running [OF p(2) t disjI1 [OF st(1)]]
  let ?s = "log_call (CoreLeave ?c) ?sb"
  have I: "sinv ?k {} {} ?s" using p(2) by simp
  have rc: "runs ?sb ?c" using c(5) t st(1) by (simp add: run_on_def tst_def)
  have on: "core_on (s_log ?sb) ?c" using p(4) c(1) rc by (simp add: cores_ok_def)
  have L: "log_ok (s_log ?s)" "core_on (s_log ?s) d \<longleftrightarrow> core_on (s_log ?sb) d \<and> d \<noteq> ?c" "core_on (s_log ?sb) ?c" for d
    using p(7) on by auto
  obtain r s1 where r: "schedContext ?c ?s = Some (r, s1)" "(case r of None \<Rightarrow> s1 = ?s \<and> (\<forall>a \<in> set (s_runQueue ?s). \<not> may (s_heap ?s) a ?c)
     | Some x \<Rightarrow> x \<in> set (s_runQueue ?s) \<and> may (s_heap ?s) x ?c \<and> s1 = ?s\<lparr>s_runQueue := remove1 x (s_runQueue ?s)\<rparr> \<and> sinv ?k {} (insert x {}) s1)"
    using schedContext_ok [OF I, of ?c] c(1) by auto
  have al: "allows s1 a ?c = Some (th_mask t ! ?c)" if "s_heap s1 = s_heap ?sb" for s1
    using sinv_allows [OF p(2) t c(1)] t that by (simp add: allows_def may_def)
  have pre: "sched_leave rs shuf (th_gid t) ?c b = (case r of
         Some inTh \<Rightarrow> do { s \<leftarrow> deschedule a ?c T_BLOCKED s1; s \<leftarrow> take_over inTh ?c s; Some (b\<lparr>b_sched := s\<rparr>) }
       | None \<Rightarrow> do { ok \<leftarrow> allows s1 a ?c;
           if \<not> ok then do { s \<leftarrow> deschedule a ?c T_BLOCKED s1; s \<leftarrow> free_push ?c s; bar_leave (callback rs) shuf ?c (b\<lparr>b_sched := s\<rparr>) }
           else do { s \<leftarrow> upd_th a (\<lambda>t. t\<lparr>th_state := T_OUT\<rparr>) s1; s \<leftarrow> out_push a s; bar_leave (callback rs) shuf ?c (b\<lparr>b_sched := s\<rparr>) } })"
    using c t st(1) clean(3) r(1) by (simp add: sched_leave_def Let_def)
  show ?thesis
  proof (cases r)
    case (Some x)
    have x: "x \<in> set (s_runQueue ?s)" "s1 = ?s\<lparr>s_runQueue := remove1 x (s_runQueue ?s)\<rparr>" "sinv ?k {} {x} s1" using r(2) Some by auto
    obtain u where u: "s_heap ?s x = Some u" "th_state u = T_QUEUED" "th_futexWord u = 1" "th_handoff u = None" "th_fakeLeave u = None" "\<not> th_marked u"
      using sinv_queued [OF I x(1)] by blast
    have xa: "x \<noteq> a" using u t st(1) by auto
    have t1: "s_heap s1 a = Some t" using x(2) t by simp
    obtain s2 where s2: "deschedule a ?c T_BLOCKED s1 = Some s2" "sinv ?k (insert ?c {}) ({x} - {a}) s2" "s_heap s2 = (s_heap s1)(a \<mapsto> t\<lparr>th_state := T_BLOCKED\<rparr>)"
        "s_log s2 = StatsDeschedule ?c (getPid (th_gid t)) # CoreSwitch ?c (- 1) # s_log s1" "lists_kept s1 s2"
        "\<forall>d < s_numCores s1. runs s2 d \<longleftrightarrow> d \<noteq> ?c \<and> runs s1 d"
      using deschedule_ok [OF x(3) t1 disjI1 [OF st(1)] clean, of T_BLOCKED] by auto
    have I2: "sinv ?k {?c} {x} s2" using s2(2) xa by simp
    have u2: "s_heap s2 x = Some u" using s2(3) x(2) u(1) xa by simp
    obtain s3 where s3: "take_over x ?c s2 = Some s3" "sinv ?k {} {} s3"
        "s_heap s3 = (s_heap s2)(x \<mapsto> u\<lparr>th_state := T_RUNNING, th_cid := ?c, th_needsJoin := False, th_futexWord := 0\<rparr>)"
        "s_log s3 = CoreJoin ?c # CoreSwitch ?c (th_gid u) # s_log s2" "\<forall>d < s_numCores s2. runs s3 d \<longleftrightarrow> d = ?c \<or> runs s2 d"
        "s_numCores s3 = s_numCores s2" "s_curPhase s3 = s_curPhase s2" "s_gidMap s3 = s_gidMap s2"
      using take_over_ok [OF I2 u2 u(2,3)] by blast
    have f: "s_numCores s3 = s_numCores ?sb" "s_curPhase s3 = ?k" "s_gidMap s3 = s_gidMap ?sb" "s_numCores s2 = s_numCores ?sb" "s_numCores s1 = s_numCores ?sb"
      using s3(6-8) s2(5) x(2) by (simp_all add: lists_kept_def)
    have "sys_inv (b\<lparr>b_sched := s3\<rparr>)"
    proof (rule handed_on [OF S _ _ f(1), of ?c])
      show "pending b (s_heap s3)" unfolding s3(3) s2(3) using x(2) u clean p(3) by (intro pending_update) simp_all
      show "runs s3 d = runs ?sb d" if "d < s_numCores s3" for d using s3(5) s2(6) f that rc x(2) by auto
      show "log_ok (s_log s3)" using s3(4) s2(4) x(2) L by simp
      show "core_on (s_log s3) = core_on (s_log ?sb)" using s3(4) s2(4) x(2) L(3) by (auto simp: fun_eq_iff)
    qed (use s3(2) f c(1) rc in simp_all)
    moreover have "leave_result a t ?k s3" using s3(3) s2(3) xa f(2) clean(3) by (simp add: leave_result_def)
    ultimately show ?thesis using pre Some s2(1) s3(1) f(3) by simp
  next
    case None
    then have n: "s1 = ?s" "\<forall>a \<in> set (s_runQueue ?sb). \<not> may (s_heap ?sb) a ?c" using r(2) by auto
    have t1: "s_heap ?s a = Some t" using t by simp
    show ?thesis
    proof (cases "th_mask t ! ?c")
      case False
      obtain s2 where s2: "deschedule a ?c T_BLOCKED ?s = Some s2" "sinv ?k (insert ?c {}) ({} - {a}) s2" "s_heap s2 = (s_heap ?s)(a \<mapsto> t\<lparr>th_state := T_BLOCKED\<rparr>)"
          "s_log s2 = StatsDeschedule ?c (getPid (th_gid t)) # CoreSwitch ?c (- 1) # s_log ?s" "lists_kept ?s s2"
          "\<forall>d < s_numCores ?s. runs s2 d \<longleftrightarrow> d \<noteq> ?c \<and> runs ?s d"
        using deschedule_ok [OF I t1 disjI1 [OF st(1)] clean, of T_BLOCKED] by auto
      let ?s3 = "s2\<lparr>s_freeList := s_freeList s2 @ [?c]\<rparr>"
      have nm: "\<not> may (s_heap s2) x ?c" if "x \<in> set (s_runQueue s2)" for x
        using n(2) that s2(3,5) False by (auto simp: lists_kept_def)
      have I3: "free_push ?c s2 = Some ?s3" "sinv ?k {} {} ?s3" using free_push_ok [OF s2(2) _ nm] by auto
      have f: "s_numCores s2 = s_numCores ?sb" "s_curPhase s2 = ?k" "s_gidMap s2 = s_gidMap ?sb" using s2(5) by (simp_all add: lists_kept_def)
      have lc: "left_core b ?c ?k ?s3"
        using I3(2) f s2(3,4,6) L clean p(3) by (auto simp: left_core_def pending_update)
      obtain b' where b': "bar_leave (callback rs) shuf ?c (b\<lparr>b_sched := ?s3\<rparr>) = Some b'" "sys_inv b'" "b_sched b' = ?s3 \<or> phase_done ?s3 (b_sched b')"
        using left_core_leaves [OF S lc _ st(2) rs shuf] c(1) f(1) by auto
      have "leave_result a t ?k ?s3" using s2(3) f(2) clean(3) by (simp add: leave_result_def)
      then have "leave_result a t ?k (b_sched b')" using leave_result_phase [OF _ _ b'(3)] f(2) clean(3) by simp
      moreover have "s_gidMap (b_sched b') = s_gidMap ?sb" using b'(3) f(3) by (auto simp: phase_done_def)
      ultimately show ?thesis using pre None n(1) al [of ?s] False s2(1) I3(1) b' by simp
    next
      case True
      note go = go_out_ok [OF I t1 st(1) clean]
      let ?s2 = "?s\<lparr>s_heap := (s_heap ?s)(a \<mapsto> t\<lparr>th_state := T_OUT\<rparr>)\<rparr>" let ?s3 = "?s2\<lparr>s_outQueue := s_outQueue ?s2 @ [a]\<rparr>"
      have I2: "sinv ?k {} {a} ?s2" using go(1) n(2) by simp
      have I3: "out_push a ?s2 = Some ?s3" "sinv ?k {} {} ?s3" using out_push_ok [OF I2, of a] by simp_all
      have run: "runs ?s3 d \<longleftrightarrow> runs ?sb d \<and> d \<noteq> ?c" if "d < s_numCores ?sb" for d using go(2) [of d] n(2) that by auto
      have lc: "left_core b ?c ?k ?s3" using I3(2) L clean p(3) run by (auto simp: left_core_def pending_update)
      obtain b' where b': "bar_leave (callback rs) shuf ?c (b\<lparr>b_sched := ?s3\<rparr>) = Some b'" "sys_inv b'" "b_sched b' = ?s3 \<or> phase_done ?s3 (b_sched b')"
        using left_core_leaves [OF S lc _ st(2) rs shuf] c(1) by auto
      have "leave_result a t ?k ?s3" using clean(3) by (simp add: leave_result_def)
      then have "leave_result a t ?k (b_sched b')" using leave_result_phase [OF _ _ b'(3)] clean(3) by simp
      moreover have "s_gidMap (b_sched b') = s_gidMap ?sb" using b'(3) by (auto simp: phase_done_def)
      ultimately show ?thesis using pre None n(1) al [of ?s] True t1 I3(1) b' by simp
    qed
  qed
qed

text \<open>A marked thread gives its context up and goes to sleep.\<close>

lemma leave_marked:
  assumes S: "sys_inv b" and t: "s_heap (b_sched b) a = Some t" and st: "st b (th_cid t) = RUNNING"
    and mk: "th_marked t" and rs: "\<forall>i. rs i \<le> i" and shuf: "\<forall>i. shuf i \<le> i"
  shows "\<exists>b'. sched_leave rs shuf (th_gid t) (th_cid t) b = Some b' \<and> sys_inv b' \<and> leave_result a t (s_curPhase (b_sched b)) (b_sched b') \<and>
    s_gidMap (b_sched b') = s_gidMap (b_sched b)"
proof -
  let ?c = "th_cid t" let ?sb = "b_sched b" let ?k = "s_curPhase ?sb"
  note p = sys_parts [OF S]
  have tk: "th_state t = T_RUNNING" "th_futexWord t = 1" "?k < th_wakeupPhase t" "th_fakeLeave t = None" "th_handoff t = None"
    using sinv_thread(1) [OF p(2) t] mk by (auto simp: thr_ok_def)
  note c = sinv_running [OF p(2) t disjI1 [OF tk(1)]]
  have rc: "runs ?sb ?c" using c(5) t tk(1) by (simp add: run_on_def tst_def)
  have on: "core_on (s_log ?sb) ?c" using p(4) c(1) rc by (simp add: cores_ok_def)
  let ?s = "log_call (CoreLeave ?c) ?sb" let ?u = "t\<lparr>th_marked := False\<rparr>"
  let ?sm = "?s\<lparr>s_heap := (s_heap ?s)(a \<mapsto> ?u)\<rparr>"
  have I: "sinv ?k {} {} ?s" "s_heap ?s a = Some t" using p(2) t by simp_all
  have "thr_ok ?k (a \<in> {}) (s_numCores ?s) (s_contexts ?s) a ?u" using sinv_thread(1) [OF I] by (simp add: thr_ok_def)
  then have Im: "sinv ?k {} {} ?sm" by (rule touch_ok [OF I]) simp_all
  have um: "s_heap ?sm a = Some ?u" "th_state ?u = T_RUNNING" "th_handoff ?u = None" "th_fakeLeave ?u = None" "\<not> th_marked ?u" using tk by simp_all
  have rm: "runs ?sm = runs ?sb" using run_on_same [of "s_heap ?sb" a t ?u] t by simp
  obtain s2 where s2: "deschedule a ?c T_SLEEPING ?sm = Some s2" "sinv ?k (insert ?c {}) (insert a {}) s2"
      "s_heap s2 = (s_heap ?sm)(a \<mapsto> ?u\<lparr>th_state := T_SLEEPING\<rparr>)"
      "s_log s2 = StatsDeschedule ?c (getPid (th_gid t)) # CoreSwitch ?c (- 1) # s_log ?sm" "lists_kept ?sm s2"
      "\<forall>d < s_numCores ?sm. runs s2 d \<longleftrightarrow> d \<noteq> ?c \<and> runs ?sm d"
    using deschedule_ok [OF Im um(1) disjI1 [OF um(2)] um(3-5), of T_SLEEPING] tk by auto
  have "tst (s_heap s2) a = Some T_SLEEPING" using s2(3) by simp
  then obtain s3 where s3: "sleep_insert a s2 = Some s3" "sinv ?k (insert ?c {}) (insert a {} - {a}) s3" "s_heap s3 = s_heap s2" "s_contexts s3 = s_contexts s2"
      "s_log s3 = s_log s2" "s_numCores s3 = s_numCores s2" "s_curPhase s3 = s_curPhase s2" "s_gidMap s3 = s_gidMap s2"
    using sleep_insert_ok [OF s2(2), of a] by auto
  have I3: "sinv ?k {?c} {} s3" using s3(2) by simp
  have f: "s_numCores s3 = s_numCores ?sb" "s_curPhase s3 = ?k" "s_gidMap s3 = s_gidMap ?sb" using s2(5) s3(6-8) by (simp_all add: lists_kept_def)
  have h3: "s_heap s3 = (s_heap ?sb)(a \<mapsto> ?u\<lparr>th_state := T_SLEEPING\<rparr>)" using s2(3) s3(3) by simp
  have run3: "runs s3 d \<longleftrightarrow> runs ?sb d \<and> d \<noteq> ?c" if "d < s_numCores ?sb" for d using s2(6) s3(3,4) rm that by auto
  have L: "log_ok (s_log s3)" "core_on (s_log s3) d \<longleftrightarrow> core_on (s_log ?sb) d \<and> d \<noteq> ?c" for d using s2(4) s3(5) p(7) on by auto
  have P3: "pending b (s_heap s3)" unfolding h3 using tk by (intro pending_update [OF p(3)]) simp_all
  have res: "leave_result a t ?k s'" if "tst (s_heap s') a = Some T_SLEEPING" "s_curPhase s' = ?k" for s'
    using that mk tk(3) by (simp add: leave_result_def)
  obtain r s4 where r: "schedContext ?c s3 = Some (r, s4)" "(case r of None \<Rightarrow> s4 = s3 \<and> (\<forall>a \<in> set (s_runQueue s3). \<not> may (s_heap s3) a ?c)
     | Some x \<Rightarrow> x \<in> set (s_runQueue s3) \<and> may (s_heap s3) x ?c \<and> s4 = s3\<lparr>s_runQueue := remove1 x (s_runQueue s3)\<rparr> \<and> sinv ?k {?c} (insert x {}) s4)"
    using schedContext_ok [OF I3, of ?c] c(1) f(1) by auto
  have pre: "sched_leave rs shuf (th_gid t) ?c b = (case r of
         Some inTh \<Rightarrow> do { s \<leftarrow> take_over inTh ?c s4; Some (b\<lparr>b_sched := s\<rparr>) }
       | None \<Rightarrow> do { s \<leftarrow> free_push ?c s4; bar_leave (callback rs) shuf ?c (b\<lparr>b_sched := s\<rparr>) })"
    using c t tk(1) mk I(2) s2(1) s3(1) r(1) by (simp add: sched_leave_def Let_def)
  show ?thesis
  proof (cases r)
    case (Some x)
    have x: "x \<in> set (s_runQueue s3)" "s4 = s3\<lparr>s_runQueue := remove1 x (s_runQueue s3)\<rparr>" "sinv ?k {?c} {x} s4" using r(2) Some by auto
    obtain u where u: "s_heap s3 x = Some u" "th_state u = T_QUEUED" "th_futexWord u = 1" "th_handoff u = None" "th_fakeLeave u = None" "\<not> th_marked u"
      using sinv_queued [OF I3 x(1)] by blast
    have xa: "x \<noteq> a" using u h3 by auto
    have u4: "s_heap s4 x = Some u" using x(2) u(1) by simp
    obtain s5 where s5: "take_over x ?c s4 = Some s5" "sinv ?k {} {} s5"
        "s_heap s5 = (s_heap s4)(x \<mapsto> u\<lparr>th_state := T_RUNNING, th_cid := ?c, th_needsJoin := False, th_futexWord := 0\<rparr>)"
        "s_log s5 = CoreJoin ?c # CoreSwitch ?c (th_gid u) # s_log s4" "\<forall>d < s_numCores s4. runs s5 d \<longleftrightarrow> d = ?c \<or> runs s4 d"
        "s_numCores s5 = s_numCores s4" "s_curPhase s5 = s_curPhase s4" "s_gidMap s5 = s_gidMap s4"
      using take_over_ok [OF x(3) u4 u(2,3)] by blast
    have g: "s_numCores s5 = s_numCores ?sb" "s_curPhase s5 = ?k" "s_gidMap s5 = s_gidMap ?sb" using s5(6-8) x(2) f by simp_all
    have "sys_inv (b\<lparr>b_sched := s5\<rparr>)"
    proof (rule handed_on [OF S _ _ g(1), of ?c])
      show "pending b (s_heap s5)" unfolding s5(3) using x(2) u P3 by (intro pending_update) simp_all
      show "runs s5 d = runs ?sb d" if "d < s_numCores s5" for d using s5(5) run3 f g that rc x(2) by auto
      show "log_ok (s_log s5)" using s5(4) x(2) L by simp
      show "core_on (s_log s5) = core_on (s_log ?sb)" using s5(4) x(2) L on by (auto simp: fun_eq_iff)
    qed (use s5(2) g c(1) rc in simp_all)
    moreover have "leave_result a t ?k s5" using s5(3) x(2) h3 xa g(2) by (intro res) simp_all
    ultimately show ?thesis using pre Some s5(1) g(3) by simp
  next
    case None
    then have n: "s4 = s3" "\<And>x. x \<in> set (s_runQueue s3) \<Longrightarrow> \<not> may (s_heap s3) x ?c" using r(2) by auto
    let ?sf = "s3\<lparr>s_freeList := s_freeList s3 @ [?c]\<rparr>"
    have fp: "free_push ?c s3 = Some ?sf" "sinv ?k {} {} ?sf" using free_push_ok [OF I3 _ n(2)] by auto
    have lc: "left_core b ?c ?k ?sf" using fp(2) f L P3 run3 by (simp add: left_core_def)
    obtain b' where b': "bar_leave (callback rs) shuf ?c (b\<lparr>b_sched := ?sf\<rparr>) = Some b'" "sys_inv b'" "b_sched b' = ?sf \<or> phase_done ?sf (b_sched b')"
      using left_core_leaves [OF S lc _ st rs shuf] c(1) f(1) by auto
    have "leave_result a t ?k ?sf" using h3 f(2) by (intro res) simp_all
    moreover have "wake (s_heap ?sf) a = th_wakeupPhase t" using h3 by simp
    ultimately have "leave_result a t ?k (b_sched b')" using leave_result_phase [OF _ _ b'(3)] f(2) tk(3) by simp
    moreover have "s_gidMap (b_sched b') = s_gidMap ?sb" using b'(3) f(3) by (auto simp: phase_done_def)
    ultimately show ?thesis using pre None n(1) fp(1) b' by simp
  qed
qed

lemmas sched_leave_ok = leave_unmarked leave_marked

section \<open>Synchronizing\<close>

lemma sched_sync_ok:
  assumes S: "sys_inv b" and t: "s_heap (b_sched b) a = Some t" and st: "th_state t = T_RUNNING" "st b (th_cid t) = RUNNING"
    and clean: "th_handoff t = None" "th_fakeLeave t = None" "\<not> th_marked t" and rs: "\<forall>i. rs i \<le> i" and shuf: "\<forall>i. shuf i \<le> i"
  shows "\<exists>b'. sched_sync rs shuf (th_cid t) b = Some b' \<and> sys_inv b' \<and> (b_sched b' = b_sched b \<or> phase_done (b_sched b) (b_sched b'))"
proof -
  note p = sys_parts [OF S]
  note c = sinv_running [OF p(2) t disjI1 [OF st(1)]]
  have free: "\<not> th_marked u \<and> th_fakeLeave u = None \<and> th_handoff u = None" if u: "s_heap (b_sched b) x = Some u" "th_cid u = th_cid t" for x u
  proof (rule ccontr)
    assume p': "\<not> ?thesis"
    then have "th_state u = T_RUNNING" using pend_running(1) [OF p(2) u(1)] by blast
    then have "x = a" using sinv_holder_unique [OF p(2) t _ u(1)] st(1) u(2) by simp
    then show False using p' u(1) t clean by simp
  qed
  obtain b' where "bar_sync (callback rs) shuf (th_cid t) b = Some b'" "sys_inv b'" "b_sched b' = b_sched b \<or> phase_done (b_sched b) (b_sched b')"
    using sync_barrier [OF S refl c(1) st(2) _ rs shuf] free by blast
  then show ?thesis using c t clean(3) by (auto simp: sched_sync_def)
qed

text \<open>The first half of a handoff: \<open>a\<close> gives its context to \<open>d\<close> and is queued, off the run queue.\<close>

lemma clear_handoff_ok:
  assumes I: "sinv k {} {} s" and t: "s_heap s a = Some t" and h: "th_handoff t = Some d"
  shows "sinv k {} {d} (s\<lparr>s_heap := (s_heap s)(a \<mapsto> t\<lparr>th_handoff := None\<rparr>)\<rparr>)" "d \<noteq> a" "th_state t = T_RUNNING" "\<not> th_marked t" "th_fakeLeave t = None"
    "run_on ((s_heap s)(a \<mapsto> t\<lparr>th_handoff := None\<rparr>)) (s_contexts s) = runs s"
    "\<exists>u. s_heap s d = Some u \<and> th_state u = T_QUEUED \<and> th_futexWord u = 1 \<and> \<not> th_marked u \<and> th_fakeLeave u = None \<and> th_handoff u = None"
    "a \<notin> ran ((hand (s_heap s))(a := None))"
proof -
  let ?h = "s_heap s" let ?u = "t\<lparr>th_handoff := None\<rparr>"
  note J = I [unfolded sinv_def]
  have ok: "thr_ok k (a \<in> {}) (s_numCores s) (s_contexts s) a t" and nx: "a < s_next s" using sinv_thread [OF I t] .
  show tk: "th_state t = T_RUNNING" "\<not> th_marked t" "th_fakeLeave t = None" using ok h by (auto simp: thr_ok_def)
  have ha: "hand ?h a = Some d" using t h by (simp add: hand_def)
  have ir: "i_run {} (tst ?h) (hand ?h) (s_runQueue s)" using J by simp
  have dr: "d \<in> ran (hand ?h)" using ha by (auto simp: ran_def)
  have q: "tst ?h d = Some T_QUEUED" using ir dr by (simp add: i_run_def)
  show da: "d \<noteq> a" using q t tk by (auto simp: tst_def)
  obtain u where u: "?h d = Some u" "th_state u = T_QUEUED" using q by (auto simp: tst_Some)
  then show "\<exists>u. ?h d = Some u \<and> th_state u = T_QUEUED \<and> th_futexWord u = 1 \<and> \<not> th_marked u \<and> th_fakeLeave u = None \<and> th_handoff u = None"
    using sinv_thread(1) [OF I u(1)] by (auto simp: thr_ok_def)
  show run: "run_on (?h(a \<mapsto> ?u)) (s_contexts s) = runs s" using run_on_same [of ?h a t ?u] t by simp
  have views: "(tst ?h)(a \<mapsto> T_RUNNING) = tst ?h" "(wake ?h)(a := th_wakeupPhase t) = wake ?h" "(may ?h)(a := (!) (th_mask t)) = may ?h"
    "(faked ?h)(a := False) = faked ?h" using same_view [of ?h a t, OF t] tk by simp_all
  have inj: "hand ?h x = Some y \<Longrightarrow> hand ?h z = Some y \<Longrightarrow> x = z" for x y z using ir by (simp add: i_run_def)
  have ran: "ran ((hand ?h)(a := None)) = ran (hand ?h) - {d}"
  proof -
    have other: "hand ?h x \<noteq> Some d" if "x \<noteq> a" for x using inj [OF _ ha, of x] that by blast
    have "((hand ?h)(a := None)) x = Some y \<longleftrightarrow> hand ?h x = Some y \<and> y \<noteq> d" for x y
      using ha other [of x] by (cases "x = a") auto
    then show ?thesis by (simp add: ran_def set_eq_iff)
  qed
  have "tst ?h a \<noteq> Some T_QUEUED" using t tk by (simp add: tst_def)
  then show "a \<notin> ran ((hand ?h)(a := None))" using ir unfolding ran i_run_def by blast
  have "i_run {d} (tst ?h) ((hand ?h)(a := None)) (s_runQueue s)" unfolding i_run_def ran
  proof (intro conjI allI ballI)
    show "x \<in> set (s_runQueue s) \<longleftrightarrow> tst ?h x = Some T_QUEUED \<and> x \<notin> ran (hand ?h) - {d} \<and> x \<notin> {d}" for x
      using ir dr by (cases "x = d") (simp_all add: i_run_def)
    show "((hand ?h)(a := None)) x = Some y \<longrightarrow> ((hand ?h)(a := None)) z = Some y \<longrightarrow> x = z" for x y z using inj [of x y z] by simp
  qed (use ir in \<open>simp_all add: i_run_def\<close>)
  moreover have "i_thr k {d} (s_numCores s) (s_next s) (?h(a \<mapsto> ?u)) (s_contexts s)"
  proof (rule i_thr_update [where R = "{}"])
    show "thr_ok k (a \<in> {d}) (s_numCores s) (s_contexts s) a ?u" using ok tk by (simp add: thr_ok_def)
  qed (use J nx in auto)
  moreover have "i_ctx (s_numCores s) (?h(a \<mapsto> ?u)) (s_contexts s)" using J by (intro i_ctx_same [where t = t]) (auto simp: t)
  moreover have "i_gid (?h(a \<mapsto> ?u)) (s_gidMap s)" using J t by (intro i_gid_update [where t = t]) simp_all
  moreover have "i_out {d} (tst ?h) (s_outQueue s)" "i_sleep {d} (tst ?h) (wake ?h) (s_sleepQueue s)"
    using J q i_out_drop [of "{}" "tst ?h" "s_outQueue s" d] i_sleep_drop [of "{}" "tst ?h" "wake ?h" "s_sleepQueue s" d] by simp_all
  ultimately show "sinv k {} {d} (s\<lparr>s_heap := ?h(a \<mapsto> ?u)\<rparr>)" using J tk by (simp add: sinv_def views run i_misc_def)
qed

lemma sync_return_ok:
  assumes S: "sys_inv b" and t: "s_heap (b_sched b) a = Some t" and h: "th_handoff t = Some d" and shuf: "\<forall>i. shuf i \<le> i"
  shows "\<exists>b'. sync_return rs shuf a b = Some b' \<and> sys_inv b' \<and>
    (\<exists>u'. s_heap (b_sched b') d = Some u' \<and> th_state u' = T_RUNNING \<and> th_cid u' = th_cid t) \<and>
    (\<exists>t'. s_heap (b_sched b') a = Some t' \<and> (th_state t' = T_RUNNING \<and> th_mask t ! th_cid t' \<or> th_state t' = T_QUEUED \<and> last (s_runQueue (b_sched b')) = a))"
proof -
  let ?c = "th_cid t" let ?sb = "b_sched b" let ?k = "s_curPhase ?sb"
  note p = sys_parts [OF S]
  note ch = clear_handoff_ok [OF p(2) t h]
  obtain u where u: "s_heap ?sb d = Some u" "th_state u = T_QUEUED" "th_futexWord u = 1" "\<not> th_marked u" "th_fakeLeave u = None" "th_handoff u = None" using ch(7) by blast
  note c = sinv_running [OF p(2) t disjI1 [OF ch(3)]]
  have rc: "runs ?sb ?c" using c(5) t ch(3) by (simp add: run_on_def tst_def)
  let ?v = "t\<lparr>th_handoff := None\<rparr>" let ?s = "?sb\<lparr>s_heap := (s_heap ?sb)(a \<mapsto> ?v)\<rparr>"
  have v: "s_heap ?s a = Some ?v" "th_state ?v = T_RUNNING" "th_handoff ?v = None" "th_fakeLeave ?v = None" "\<not> th_marked ?v" using ch by simp_all
  obtain s2 where s2: "deschedule a ?c T_QUEUED ?s = Some s2" "sinv ?k (insert ?c {}) (insert a {d}) s2" "s_heap s2 = (s_heap ?s)(a \<mapsto> ?v\<lparr>th_state := T_QUEUED\<rparr>)"
      "s_log s2 = StatsDeschedule ?c (getPid (th_gid t)) # CoreSwitch ?c (- 1) # s_log ?s" "lists_kept ?s s2" "\<forall>e < s_numCores ?s. runs s2 e \<longleftrightarrow> e \<noteq> ?c \<and> runs ?s e"
    using deschedule_ok [OF ch(1) v(1) disjI1 [OF v(2)] v(3-5), of T_QUEUED] by auto
  have u2: "s_heap s2 d = Some u" using s2(3) u(1) ch(2) by simp
  obtain s3 where s3: "schedule d ?c s2 = Some s3" "sinv ?k (insert ?c {} - {?c}) (insert a {d} - {d}) s3" "s_heap s3 = (s_heap s2)(d \<mapsto> u\<lparr>th_state := T_RUNNING, th_cid := ?c\<rparr>)"
      "s_log s3 = CoreSwitch ?c (th_gid u) # s_log s2" "lists_kept s2 s3" "\<forall>e < s_numCores s2. runs s3 e \<longleftrightarrow> e = ?c \<or> runs s2 e"
    using schedule_ok [OF s2(2) _ u2] u(2) by blast
  have e3: "insert ?c {} - {?c} = {}" "insert a {d} - {d} = {a}" using ch(2) by auto
  have I3: "sinv ?k {} {a} s3" using s3(2) unfolding e3 .
  have u3: "s_heap s3 d = Some (u\<lparr>th_state := T_RUNNING, th_cid := ?c\<rparr>)" using s3(3) by simp
  obtain s4 where s4: "wakeup d False s3 = Some s4" "sinv ?k {} {a} s4"
      "s4 = s3\<lparr>s_heap := (s_heap s3)(d \<mapsto> (u\<lparr>th_state := T_RUNNING, th_cid := ?c\<rparr>)\<lparr>th_needsJoin := False, th_futexWord := 0\<rparr>)\<rparr>" "runs s4 = runs s3"
    using wakeup_ok [OF I3 u3, of False] u by auto
  let ?f = "\<lambda>n. n\<lparr>n_handoff := n_handoff n + 1\<rparr>" let ?sz = "bump ?f s4"
  have f: "s_numCores ?sz = s_numCores ?sb" "s_curPhase ?sz = ?k" using s2(5) s3(5) by (simp_all add: s4(3) lists_kept_def)
  have I4: "sinv (s_curPhase ?sz) {} {a} ?sz" using s4(2) f(2) by (simp add: sinv_bump)
  let ?w = "?v\<lparr>th_state := T_QUEUED\<rparr>" let ?x = "u\<lparr>th_state := T_RUNNING, th_cid := ?c, th_needsJoin := False, th_futexWord := 0\<rparr>"
  have h4: "s_heap ?sz = (s_heap ?sb)(a \<mapsto> ?w, d \<mapsto> ?x)" using s2(3) s3(3) by (simp add: s4(3))
  have w: "s_heap ?sz a = Some ?w" "th_state ?w = T_QUEUED" using h4 ch(2) by simp_all
  have M: "runs ?sz e = runs ?sb e" if "e < s_numCores ?sz" for e
    using s2(5,6) s3(6) s4(4) ch(6) rc f that by (auto simp: lists_kept_def)
  have L: "log_ok (s_log ?sz)" "core_on (s_log ?sz) = core_on (s_log ?sb)" using s2(4) s3(4) p(7) by (simp_all add: s4(3))
  have P: "pending b (s_heap ?sz)" unfolding h4 using u ch by (intro pending_update p(3)) simp_all
  have nout: "th_state ?w \<noteq> T_OUT" by simp
  obtain r s5 where g: "schedThread a ?sz = Some (r, s5)" "got_context (s_curPhase ?sz) {a} a ?sz r s5"
      "r = None \<longrightarrow> (\<forall>c < s_numCores ?sz. may (s_heap ?sz) a c \<longrightarrow> runs ?sz c)"
    using schedThread_ok [OF I4 w(1) nout] by blast
  have def: "sync_return rs shuf a b = (case r of Some c \<Rightarrow> do { s \<leftarrow> schedule a c s5; core_join rs shuf c s b }
         | None \<Rightarrow> do { s \<leftarrow> run_push a s5; s \<leftarrow> waitForContext a s; Some (b\<lparr>b_sched := s\<rparr>) })"
    using t h s2(1) s3(1) s4(1) g(1) by (simp add: sync_return_def Let_def)
  show ?thesis
  proof (cases r)
    case (Some c2)
    obtain s6 b' where b': "schedule a c2 s5 = Some s6" "core_join rs shuf c2 s6 b = Some b'" "sys_inv b'" "b_sched b' = log_call (CoreJoin c2) s6"
        "s_heap (b_sched b') = (s_heap s5)(a \<mapsto> ?w\<lparr>th_state := T_RUNNING, th_cid := c2\<rparr>)" "may (s_heap ?sz) a c2"
      using schedule_and_join [OF S refl f(1) I4 w(1) _ _ P L M _ shuf] w(2) g(2) Some by blast
    have "s_heap ?sz d = Some ?x" "th_state ?x \<noteq> T_OUT" using h4 by simp_all
    then have "s_heap s5 d = Some ?x" using g(2) Some unfolding got_context_def by simp
    then have "s_heap (b_sched b') d = Some ?x" using b'(5) ch(2) by simp
    moreover have "th_mask t ! c2" using b'(6) w(1) by (simp add: may_def)
    ultimately show ?thesis using def Some b' by auto
  next
    case None
    then have e: "s5 = ?sz" using g(2) by (simp add: got_context_def)
    have nh: "a \<notin> ran (hand (s_heap ?sz))"
    proof -
      have "hand (s_heap ?sb) d = None" using u by (simp add: hand_def)
      then have "hand (s_heap ?sz) = (hand (s_heap ?sb))(a := None)" unfolding h4 using u(6) by (auto simp: fun_eq_iff)
      then show ?thesis using ch(8) by simp
    qed
    have wm: "runs ?sz c" if "c < s_numCores ?sz" "may (s_heap ?sz) a c" for c using g(3) None that by simp
    obtain s6 where s6: "run_push a ?sz \<bind> waitForContext a = Some s6" "sys_inv (b\<lparr>b_sched := s6\<rparr>)" "s_runQueue s6 = s_runQueue ?sz @ [a]"
        "s_heap s6 a = Some (?w\<lparr>th_futexWord := 1\<rparr>)"
      using enqueue_and_wait [OF S refl f(1) I4 w nh P L M wm] by blast
    have "s_heap s6 d = s_heap ?sz d" using s6(1) ch(2) by (auto simp: run_push_def waitForContext_def upd_th_def bind_eq_Some_conv)
    then have "s_heap s6 d = Some ?x" using h4 by simp
    moreover obtain s7 where "run_push a ?sz = Some s7" "waitForContext a s7 = Some s6" using s6(1) by (auto simp: bind_eq_Some_conv)
    ultimately show ?thesis using def None e s6 by auto
  qed
qed

end
