(* ===== verification/SchedSys.thy ===== *)
theory SchedSys
  imports SchedSteps
begin

text \<open>
  The scheduler as the program uses it: the remaining operations keep the invariant, the watchdog thread, the steps that the threads of the
  program make in any order, and the properties of every state they reach.
\<close>

section \<open>The first state\<close>

definition sched_init :: "nat \<Rightarrow> nat \<Rightarrow> nat \<Rightarrow> u64 \<Rightarrow> (nat \<Rightarrow> nat) \<Rightarrow> sched barrier" where
  "sched_init parallel numCores quantum phaseLength junk = Barrier_new parallel junk (Scheduler_new numCores quantum phaseLength)"

lemma sched_init_ok:
  assumes "0 < parallel" "0 < numCores" "numCores \<le> MAX_THREADS" "0 < quantum"
  shows "sys_inv (sched_init parallel numCores quantum phaseLength junk)"
proof -
  let ?s = "Scheduler_new numCores quantum phaseLength" let ?b = "sched_init parallel numCores quantum phaseLength junk"
  have b: "b_sched ?b = ?s" by (simp add: sched_init_def Barrier_new_def)
  have n: "s_numCores ?s = numCores" "s_curPhase ?s = 0" "s_heap ?s = Map.empty" "s_log ?s = []"
      "s_contexts ?s = replicate numCores \<lparr>c_state = IDLE, c_cur = None\<rparr>"
    by (simp_all add: Scheduler_new_def)
  have cur: "cur (s_contexts ?s) c = None" if "c < numCores" for c using that by (simp add: n cur_def)
  have views: "tst Map.empty = Map.empty" "hand Map.empty = Map.empty" "faked Map.empty = (\<lambda>_. False)"
    by (simp_all add: tst_def hand_def faked_def fun_eq_iff)
  have "i_ctx numCores Map.empty (s_contexts ?s)" using cur by (simp add: i_ctx_def n)
  moreover have "i_free {} numCores (s_contexts ?s) [0..<numCores]" using cur by (auto simp: i_free_def)
  moreover have "i_cnt numCores (s_contexts ?s) 0" using cur by (simp add: i_cnt_def)
  moreover have "i_misc ?s" using assms by (simp add: i_misc_def Scheduler_new_def initStats_def)
  moreover have "i_thr 0 {} numCores 0 Map.empty (s_contexts ?s)" by (simp add: i_thr_def)
  moreover have "i_gid Map.empty Map.empty" by (simp add: i_gid_def)
  ultimately have I: "sinv 0 {} {} ?s"
    unfolding sinv_def n by (simp add: Scheduler_new_def views i_out_def i_sleep_def i_run_def i_work_def i_fake_def)
  have run: "\<not> runs ?s c" if "c < numCores" for c using cur that by (simp add: run_on_def)
  have st: "st ?b t = OFFLINE" if "t < MAX_THREADS" for t using that by (simp add: sched_init_def Barrier_new_def st_def)
  have "length (b_threads ?b) = MAX_THREADS" "b_parallel ?b = parallel" by (simp_all add: sched_init_def Barrier_new_def)
  moreover have "b_inv ?b" using Barrier_new_inv(1) by (simp add: sched_init_def)
  ultimately have "bar_ok numCores ?b" using assms by (simp add: bar_ok_def)
  moreover have "members ?b" using run st assms(3) by (simp add: members_def b n inb_def)
  moreover have "cores_ok ?s" using run by (simp add: cores_ok_def n)
  ultimately show ?thesis using I by (simp add: sys_inv_def b n pending_def)
qed

section \<open>Sleeping\<close>

lemma markForSleep_ok:
  assumes S: "sys_inv b" and t: "s_heap (b_sched b) a = Some t" and st: "th_state t = T_RUNNING" "st b (th_cid t) = RUNNING"
    and clean: "th_handoff t = None" "th_fakeLeave t = None" "\<not> th_marked t" and w: "s_curPhase (b_sched b) < w"
  shows "\<exists>b'. in_sched (markForSleep a w) b = Some b' \<and> sys_inv b'"
proof -
  note p = sys_parts [OF S]
  let ?u = "t\<lparr>th_marked := True, th_wakeupPhase := w, th_futexWord := 1\<rparr>" let ?sb = "b_sched b"
  let ?s = "?sb\<lparr>s_heap := (s_heap ?sb)(a \<mapsto> ?u)\<rparr>"
  have "thr_ok (s_curPhase ?sb) (a \<in> {}) (s_numCores ?sb) (s_contexts ?sb) a ?u" using sinv_thread(1) [OF p(2) t] st clean w by (simp add: thr_ok_def)
  then have "sinv (s_curPhase ?sb) {} {} ?s" by (rule touch_ok [OF p(2) t]) (simp_all add: st)
  moreover have "pending b (s_heap ?s)" using p(3) st clean unfolding pending_def by (simp add: pend_ok_def)
  moreover have "runs ?s = runs ?sb" using run_on_same [of "s_heap ?sb" a t ?u] t by simp
  ultimately have "sys_inv (b\<lparr>b_sched := ?s\<rparr>)" by (intro sys_keep [OF S]) simp_all
  then show ?thesis using t clean by (simp add: in_sched_def markForSleep_def)
qed

lemma notifySleepEnd_ok:
  assumes S: "sys_inv b" and t: "s_heap (b_sched b) a = Some t" and st: "th_state t = T_SLEEPING \<or> th_state t = T_BLOCKED"
  shows "\<exists>b'. in_sched (notifySleepEnd a) b = Some b' \<and> sys_inv b' \<and> s_heap (b_sched b') = (s_heap (b_sched b))(a \<mapsto> t\<lparr>th_state := T_BLOCKED\<rparr>) \<and>
    s_gidMap (b_sched b') = s_gidMap (b_sched b)"
proof -
  note p = sys_parts [OF S]
  have clean: "\<not> th_marked t" "th_fakeLeave t = None" "th_handoff t = None" using sinv_thread(1) [OF p(2) t] st by (auto simp: thr_ok_def)
  show ?thesis
  proof (cases "th_state t = T_BLOCKED")
    case True
    then show ?thesis using S t clean by (simp add: in_sched_def notifySleepEnd_def fun_upd_idem)
  next
    case False
    then have sl: "th_state t = T_SLEEPING" using st by simp
    obtain s' where s': "(do { sq \<leftarrow> list_remove a (s_sleepQueue (b_sched b)); upd_th a (\<lambda>t. t\<lparr>th_state := T_BLOCKED\<rparr>) ((b_sched b)\<lparr>s_sleepQueue := sq\<rparr>) }) = Some s'"
        "sinv (s_curPhase (b_sched b)) {} {} s'" "s_heap s' = (s_heap (b_sched b))(a \<mapsto> t\<lparr>th_state := T_BLOCKED\<rparr>)" "s_log s' = s_log (b_sched b)"
        "s_numCores s' = s_numCores (b_sched b)" "s_curPhase s' = s_curPhase (b_sched b)" "s_gidMap s' = s_gidMap (b_sched b)" "runs s' = runs (b_sched b)"
      using early_wake_ok [OF p(2) t sl] by auto
    have "pending b (s_heap s')" unfolding s'(3) using clean by (intro pending_update [OF p(3)]) simp_all
    then have "sys_inv (b\<lparr>b_sched := s'\<rparr>)" using s' by (intro sys_keep [OF S]) simp_all
    then show ?thesis using t clean sl s' by (simp add: in_sched_def notifySleepEnd_def)
  qed
qed

section \<open>Threads that start, and masks\<close>

lemma sched_start_ok:
  assumes S: "sys_inv b" and g: "s_gidMap (b_sched b) (getGid pid tid) = None" and m: "length m = s_numCores (b_sched b)" "True \<in> set m"
  shows "\<exists>b'. in_sched (sched_start pid tid m lp lt) b = Some b' \<and> sys_inv b'"
proof -
  note p = sys_parts [OF S]
  let ?sb = "b_sched b" let ?g = "getGid pid tid"
  have "length (filter id m) \<noteq> 0" using m(2) by (auto simp: filter_empty_conv)
  then obtain t where t: "ThreadInfo_new (s_numCores ?sb) ?g lp lt m = Some t" "\<not> th_marked t" "th_fakeLeave t = None" "th_handoff t = None"
    using m(1) by (auto simp: ThreadInfo_new_def)
  let ?s = "?sb\<lparr>s_heap := (s_heap ?sb)(s_next ?sb \<mapsto> t), s_gidMap := (s_gidMap ?sb)(?g \<mapsto> s_next ?sb), s_next := s_next ?sb + 1\<rparr>"
  let ?f = "\<lambda>n. n\<lparr>n_created := n_created n + 1\<rparr>"
  have I: "sinv (s_curPhase ?sb) {} {} ?s" by (rule new_thread_ok(1) [OF p(2) g t(1)])
  then have "sinv (s_curPhase ?sb) {} {} (bump ?f ?s)" by (simp add: sinv_bump)
  moreover have "pending b (s_heap (bump ?f ?s))" using pending_update [OF p(3)] t by simp
  moreover have "runs (bump ?f ?s) d = runs ?sb d" if "d < s_numCores ?sb" for d
    using new_thread_ok(2) [OF p(2) g t(1), of d] that by simp
  ultimately have "sys_inv (b\<lparr>b_sched := bump ?f ?s\<rparr>)" by (intro sys_keep [OF S]) simp_all
  then show ?thesis using g t(1) by (simp add: in_sched_def sched_start_def Let_def)
qed

lemma updateMask_ok:
  assumes S: "sys_inv b" and m: "length m = s_numCores (b_sched b)" "True \<in> set m"
    and q: "\<And>a. s_gidMap (b_sched b) (getGid pid tid) = Some a \<Longrightarrow> a \<in> set (s_runQueue (b_sched b)) \<Longrightarrow>
      \<forall>c < s_numCores (b_sched b). m ! c \<longrightarrow> runs (b_sched b) c"
  shows "\<exists>b'. in_sched (updateMask pid tid m) b = Some b' \<and> sys_inv b'"
proof (cases "s_gidMap (b_sched b) (getGid pid tid)")
  case None
  then show ?thesis using S by (simp add: in_sched_def updateMask_def)
next
  case (Some a)
  note p = sys_parts [OF S]
  let ?sb = "b_sched b"
  have "i_gid (s_heap ?sb) (s_gidMap ?sb)" using p(2) by (simp add: sinv_def)
  then obtain t where t: "s_heap ?sb a = Some t" using Some by (auto simp: i_gid_def)
  let ?t = "t\<lparr>th_mask := m\<rparr>" let ?s = "?sb\<lparr>s_heap := (s_heap ?sb)(a \<mapsto> ?t)\<rparr>"
  note new = new_mask_ok [OF p(2) t m q [OF Some]]
  have "pending b (s_heap ?s)" using p(3) t unfolding pending_def by (auto simp: pend_ok_def)
  then have "sys_inv (b\<lparr>b_sched := ?s\<rparr>)" using new by (intro sys_keep [OF S]) simp_all
  moreover have "length (filter id m) \<noteq> 0" using m(2) by (auto simp: filter_empty_conv)
  ultimately show ?thesis using Some t m(1) by (simp add: in_sched_def updateMask_def)
qed

section \<open>System calls\<close>

text \<open>The thread runs, in the program and in the barrier, and nothing is left for it to do in the scheduler.\<close>

definition running_ok :: "sched barrier \<Rightarrow> thread_info \<Rightarrow> bool" where
  "running_ok b t \<longleftrightarrow> th_state t = T_RUNNING \<and> st b (th_cid t) = RUNNING \<and> th_handoff t = None \<and> th_fakeLeave t = None"

lemma sched_leave_running:
  assumes "sys_inv b" "s_heap (b_sched b) a = Some t" "running_ok b t" "\<forall>i. rs i \<le> i" "\<forall>i. shuf i \<le> i"
  shows "\<exists>b'. sched_leave rs shuf (th_gid t) (th_cid t) b = Some b' \<and> sys_inv b' \<and> leave_result a t (s_curPhase (b_sched b)) (b_sched b') \<and>
    s_gidMap (b_sched b') = s_gidMap (b_sched b)"
  using sched_leave_ok(1) [OF assms(1,2) _ _ _ _ _ assms(4,5)] sched_leave_ok(2) [OF assms(1,2) _ _ assms(4,5)] assms(3)
  by (cases "th_marked t") (simp_all add: running_ok_def)

lemma syscallLeave_ok:
  assumes S: "sys_inv b" and t: "s_heap (b_sched b) a = Some t" and r: "running_ok b t" and g: "th_gid t = getGid pid tid" "unat pid < MAX_THREADS"
    and rs: "\<forall>i. rs i \<le> i" and shuf: "\<forall>i. shuf i \<le> i"
  shows "\<exists>b'. syscallLeave rs shuf pid tid (th_cid t) fl b = Some b' \<and> sys_inv b' \<and>
    (if fl_pc fl \<in> s_blocking (b_sched b) ! unat pid \<or> th_marked t \<or> \<not> th_mask t ! th_cid t then leave_result a t (s_curPhase (b_sched b)) (b_sched b')
     else s_heap (b_sched b') = (s_heap (b_sched b))(a \<mapsto> t\<lparr>th_fakeLeave := Some fl\<rparr>))"
proof -
  note p = sys_parts [OF S]
  let ?sb = "b_sched b" let ?c = "th_cid t"
  have tk: "th_state t = T_RUNNING" "st b ?c = RUNNING" "th_handoff t = None" "th_fakeLeave t = None" using r by (simp_all add: running_ok_def)
  note c = sinv_running [OF p(2) t disjI1 [OF tk(1)]]
  have al: "allows ?sb a ?c = Some (th_mask t ! ?c)" using sinv_allows [OF p(2) t c(1)] t by (simp add: may_def)
  have len: "length (s_blocking ?sb) = MAX_THREADS" using p(2) by (simp add: sinv_def i_misc_def)
  have pre: "syscallLeave rs shuf pid tid ?c fl b = (if fl_pc fl \<in> s_blocking ?sb ! unat pid \<or> th_marked t \<or> \<not> th_mask t ! ?c
      then sched_leave rs shuf (th_gid t) ?c b else in_sched (begin_fake_leave a fl) b)"
    using c t tk(1) g al len by (simp add: syscallLeave_def Let_def)
  show ?thesis
  proof (cases "fl_pc fl \<in> s_blocking ?sb ! unat pid \<or> th_marked t \<or> \<not> th_mask t ! ?c")
    case True
    then show ?thesis using sched_leave_running [OF S t r rs shuf] pre by auto
  next
    case False
    then have nm: "\<not> th_marked t" by simp
    obtain s' where s': "begin_fake_leave a fl ?sb = Some s'" "sinv (s_curPhase ?sb) {} {} s'" "s_heap s' = (s_heap ?sb)(a \<mapsto> t\<lparr>th_fakeLeave := Some fl\<rparr>)"
        "s_log s' = s_log ?sb" "s_numCores s' = s_numCores ?sb" "s_curPhase s' = s_curPhase ?sb" "runs s' = runs ?sb"
      using begin_fake_leave_ok [OF p(2) t tk(1) nm tk(3,4)] by blast
    have "pending b (s_heap s')" unfolding s'(3) using p(3) tk by (simp add: pending_def pend_ok_def)
    then have "sys_inv (b\<lparr>b_sched := s'\<rparr>)" using s' by (intro sys_keep [OF S]) simp_all
    then show ?thesis using pre False s' by (simp add: in_sched_def)
  qed
qed

section \<open>Threads that end\<close>

lemma finish_fake:
  assumes S: "sys_inv b" and t: "s_heap (b_sched b) a = Some t" "th_fakeLeave t \<noteq> None"
  shows "\<exists>s'. finishFakeLeave a (b_sched b) = Some s' \<and> sys_inv (b\<lparr>b_sched := s'\<rparr>) \<and> s_heap s' = (s_heap (b_sched b))(a \<mapsto> t\<lparr>th_fakeLeave := None\<rparr>) \<and>
    s_gidMap s' = s_gidMap (b_sched b) \<and> running_ok (b\<lparr>b_sched := s'\<rparr>) (t\<lparr>th_fakeLeave := None\<rparr>) \<and> \<not> th_marked t \<and> s_curPhase s' = s_curPhase (b_sched b)"
proof -
  note p = sys_parts [OF S]
  have fk: "th_state t = T_RUNNING" "\<not> th_marked t" "th_handoff t = None" using sinv_thread(1) [OF p(2) t(1)] t(2) by (auto simp: thr_ok_def)
  have bar: "st b (th_cid t) = RUNNING" using p(3) t by (simp add: pending_def pend_ok_def)
  have st: "st (b\<lparr>b_sched := s\<rparr>) = st b" for s by (simp add: fun_eq_iff st_def)
  obtain s' where s': "finishFakeLeave a (b_sched b) = Some s'" "sinv (s_curPhase (b_sched b)) {} {} s'" "s_heap s' = (s_heap (b_sched b))(a \<mapsto> t\<lparr>th_fakeLeave := None\<rparr>)"
      "s_log s' = s_log (b_sched b)" "s_numCores s' = s_numCores (b_sched b)" "s_curPhase s' = s_curPhase (b_sched b)" "s_gidMap s' = s_gidMap (b_sched b)" "runs s' = runs (b_sched b)"
    using finishFakeLeave_ok [OF p(2) t] by auto
  have "pending b (s_heap s')" unfolding s'(3) using fk by (intro pending_update [OF p(3)]) simp_all
  then have "sys_inv (b\<lparr>b_sched := s'\<rparr>)" using s' by (intro sys_keep [OF S]) simp_all
  then show ?thesis using s' fk bar by (simp add: running_ok_def st)
qed

text \<open>The last part of \<open>finish\<close>, for a thread that no identifier refers to any more.\<close>

lemma delete_ok:
  assumes S: "sys_inv b" and I: "sinv (s_curPhase s') {} {} s'" and t: "s_heap s' a = Some t" "th_state t = T_STARTED \<or> th_state t = T_BLOCKED"
    and g: "a \<notin> ran (s_gidMap s')" and P: "pending b (s_heap s')"
    and same: "s_numCores s' = s_numCores (b_sched b)" "log_same (b_sched b) s'" "\<And>d. d < s_numCores s' \<Longrightarrow> runs s' d = runs (b_sched b) d"
  shows "sys_inv (b\<lparr>b_sched := bump (\<lambda>n. n\<lparr>n_finished := n_finished n + 1\<rparr>) (s'\<lparr>s_heap := (s_heap s')(a := None)\<rparr>)\<rparr>)"
proof -
  let ?f = "\<lambda>n. n\<lparr>n_finished := n_finished n + 1\<rparr>" let ?s = "s'\<lparr>s_heap := (s_heap s')(a := None)\<rparr>"
  have "sinv (s_curPhase s') {} {} ?s" by (rule delete_thread_ok(1) [OF I t g])
  then have "sinv (s_curPhase s') {} {} (bump ?f ?s)" by (simp add: sinv_bump)
  moreover have "pending b (s_heap ?s)" using P by (simp add: pending_def)
  moreover have "runs ?s d = runs (b_sched b) d" if "d < s_numCores s'" for d using delete_thread_ok(2) [OF I t g that] same(3) [OF that] by simp
  ultimately show ?thesis using S same(1,2) unfolding sys_inv_def members_def cores_ok_def by (simp add: log_same_def)
qed

lemma finish_end_ok:
  assumes S: "sys_inv b" and t: "s_heap (b_sched b) a = Some t"
    and st: "th_state t = T_STARTED \<or> th_state t = T_OUT \<or> th_state t = T_BLOCKED \<or> th_state t = T_QUEUED \<and> a \<notin> ran (hand (s_heap (b_sched b)))"
    and g: "a \<notin> ran (s_gidMap (b_sched b))"
  shows "\<exists>b'. in_sched (finish_end a) b = Some b' \<and> sys_inv b' \<and> s_heap (b_sched b') a = None"
proof -
  note p = sys_parts [OF S]
  let ?s = "b_sched b" let ?k = "s_curPhase (b_sched b)"
  note J = p(2) [unfolded sinv_def]
  have clean: "th_handoff t = None" "th_fakeLeave t = None" "\<not> th_marked t" using sinv_thread(1) [OF p(2) t] st by (auto simp: thr_ok_def)
  have ta: "tst (s_heap ?s) a = Some (th_state t)" using t by (simp add: tst_def)
  have res: "in_sched (finish_end a) b = Some b' \<and> sys_inv b' \<and> s_heap (b_sched b') a = None"
    if "finish_end a ?s = Some (bump (\<lambda>n. n\<lparr>n_finished := n_finished n + 1\<rparr>) (s'\<lparr>s_heap := (s_heap s')(a := None)\<rparr>))"
      "b' = b\<lparr>b_sched := bump (\<lambda>n. n\<lparr>n_finished := n_finished n + 1\<rparr>) (s'\<lparr>s_heap := (s_heap s')(a := None)\<rparr>)\<rparr>" "sys_inv b'" for s' b'
    using that by (simp add: in_sched_def)
  show ?thesis
  proof (cases "th_state t = T_QUEUED")
    case True
    then have nh: "a \<notin> ran (hand (s_heap ?s))" using st by simp
    have q: "a \<in> set (s_runQueue ?s)" using J ta True nh by (simp add: i_run_def)
    let ?q = "?s\<lparr>s_runQueue := remove1 a (s_runQueue ?s)\<rparr>" let ?u = "t\<lparr>th_state := T_BLOCKED\<rparr>" let ?v = "?q\<lparr>s_heap := (s_heap ?s)(a \<mapsto> ?u)\<rparr>"
    have "sinv ?k {} {a} ?q" by (rule unqueue_ok [OF p(2) q])
    then have "sinv ?k {} {} ?v" "runs ?v = runs ?s" using restate_ok [of ?k "{}" "{a}" ?q a t T_BLOCKED] t True by simp_all
    moreover have "pending b (s_heap ?v)" using clean by (simp add: pending_update [OF p(3)])
    ultimately have "sys_inv (b\<lparr>b_sched := bump (\<lambda>n. n\<lparr>n_finished := n_finished n + 1\<rparr>) (?v\<lparr>s_heap := (s_heap ?v)(a := None)\<rparr>)\<rparr>)"
      using g by (intro delete_ok [OF S, where t = ?u]) (simp_all add: log_same_def)
    then show ?thesis using t True q by (simp add: in_sched_def finish_end_def list_remove_def bump_def)
  next
    case nq: False
    show ?thesis
    proof (cases "th_state t = T_OUT")
      case True
      let ?q = "?s\<lparr>s_outQueue := remove1 a (s_outQueue ?s)\<rparr>" let ?c = "th_cid t"
      note d = detach_out_ok [OF p(2), of a]
      have Iq: "list_remove a (s_outQueue ?s) = Some (remove1 a (s_outQueue ?s))" "sinv ?k {} {a} ?q" "s_heap ?q a = Some t" using d ta True t by simp_all
      have own: "owned ?s a" using J ta True by (simp add: owned_def i_out_def)
      obtain s2 where s2: "deschedule a ?c T_BLOCKED ?q = Some s2" "sinv ?k (insert ?c {}) ({a} - {a}) s2" "s_heap s2 = (s_heap ?q)(a \<mapsto> t\<lparr>th_state := T_BLOCKED\<rparr>)"
          "s_log s2 = StatsDeschedule ?c (getPid (th_gid t)) # CoreSwitch ?c (- 1) # s_log ?q" "lists_kept ?q s2" "\<forall>d < s_numCores ?q. runs s2 d \<longleftrightarrow> d \<noteq> ?c \<and> runs ?q d"
        using deschedule_ok [OF Iq(2,3) _ clean, of T_BLOCKED] True by auto
      have c: "?c < s_numCores ?s" "cur (s_contexts ?s) ?c = Some a" using sinv_running [OF p(2) t] True by auto
      have nr: "\<not> runs ?s ?c" using c(2) ta True by (simp add: run_on_def)
      let ?v = "s2\<lparr>s_freeList := s_freeList s2 @ [?c]\<rparr>"
      have n2: "s_numCores s2 = s_numCores ?s" "s_curPhase s2 = ?k" "s_gidMap s2 = s_gidMap ?s" "s_runQueue s2 = s_runQueue ?s" using s2(5) by (simp_all add: lists_kept_def)
      have "\<not> may (s_heap s2) x ?c" if "x \<in> set (s_runQueue s2)" for x
      proof -
        have x: "x \<in> set (s_runQueue ?s)" using that n2(4) by simp
        then have "x \<noteq> a" using J ta nq by (auto simp: i_run_def)
        moreover have "\<not> may (s_heap ?s) x ?c" using J x c(1) nr by (auto simp: i_work_def)
        ultimately show ?thesis using s2(3) by simp
      qed
      then have fp: "free_push ?c s2 = Some ?v" "sinv ?k {} {} ?v" using free_push_ok [OF s2(2), of ?c] by auto
      have "pending b (s_heap ?v)" using s2(3) clean by (simp add: pending_update [OF p(3)])
      moreover have "runs ?v d = runs ?s d" if "d < s_numCores ?s" for d using s2(6) nr that by auto
      ultimately have "sys_inv (b\<lparr>b_sched := bump (\<lambda>n. n\<lparr>n_finished := n_finished n + 1\<rparr>) (?v\<lparr>s_heap := (s_heap ?v)(a := None)\<rparr>)\<rparr>)"
        using fp(2) n2 s2(3,4) g by (intro delete_ok [OF S, where t = "t\<lparr>th_state := T_BLOCKED\<rparr>"]) (simp_all add: log_same_def)
      moreover have "finish_end a ?s = Some (bump (\<lambda>n. n\<lparr>n_finished := n_finished n + 1\<rparr>) (?v\<lparr>s_heap := (s_heap ?v)(a := None)\<rparr>))"
        using t True own Iq(1) s2(1) fp(1) by (simp add: finish_end_def)
      ultimately show ?thesis using res by blast
    next
      case False
      then have st': "th_state t = T_STARTED \<or> th_state t = T_BLOCKED" using st nq by auto
      have own: "\<not> owned ?s a" using J ta st' by (auto simp: owned_def i_out_def i_run_def i_sleep_def)
      have "sys_inv (b\<lparr>b_sched := bump (\<lambda>n. n\<lparr>n_finished := n_finished n + 1\<rparr>) (?s\<lparr>s_heap := (s_heap ?s)(a := None)\<rparr>)\<rparr>)"
        using p(2,3) t st' g by (intro delete_ok [OF S]) (simp_all add: log_same_def)
      moreover have "finish_end a ?s = Some (bump (\<lambda>n. n\<lparr>n_finished := n_finished n + 1\<rparr>) (?s\<lparr>s_heap := (s_heap ?s)(a := None)\<rparr>))"
        using t st' own by (auto simp: finish_end_def)
      ultimately show ?thesis using res by blast
    qed
  qed
qed

lemma erase_gid_ok:
  assumes S: "sys_inv b"
  shows "sys_inv (b\<lparr>b_sched := (b_sched b)\<lparr>s_gidMap := (s_gidMap (b_sched b))(g := None)\<rparr>\<rparr>)"
proof -
  note p = sys_parts [OF S]
  have "sinv (s_curPhase (b_sched b)) {} {} ((b_sched b)\<lparr>s_gidMap := (s_gidMap (b_sched b))(g := None)\<rparr>)"
  proof -
    have "i_gid (s_heap (b_sched b)) ((s_gidMap (b_sched b))(g := None))" using p(2) by (simp add: sinv_def i_gid_def)
    moreover have "i_misc ((b_sched b)\<lparr>s_gidMap := (s_gidMap (b_sched b))(g := None)\<rparr>) = i_misc (b_sched b)" by (simp add: i_misc_def)
    ultimately show ?thesis using p(2) by (simp add: sinv_def)
  qed
  then show ?thesis using p(3) by (intro sys_keep [OF S]) simp_all
qed

text \<open>A thread that runs leaves first.\<close>

lemma leave_if_ok:
  assumes S: "sys_inv b" and t: "s_heap (b_sched b) a = Some t" and r: "flag \<Longrightarrow> running_ok b t \<and> \<not> th_marked t" and rs: "\<forall>i. rs i \<le> i" and shuf: "\<forall>i. shuf i \<le> i"
  shows "\<exists>b'. leave_if rs shuf (th_gid t) a flag b = Some b' \<and> sys_inv b' \<and> s_gidMap (b_sched b') = s_gidMap (b_sched b) \<and>
    (if flag then tst (s_heap (b_sched b')) a = Some T_OUT \<or> tst (s_heap (b_sched b')) a = Some T_BLOCKED else b' = b)"
proof (cases flag)
  case True
  then show ?thesis using sched_leave_running [OF S t _ rs shuf] r t by (auto simp: leave_if_def leave_result_def)
qed (use S in \<open>simp add: leave_if_def\<close>)

definition may_finish :: "sched barrier \<Rightarrow> nat \<Rightarrow> thread_info \<Rightarrow> bool" where
  "may_finish b a t \<longleftrightarrow> th_state t = T_STARTED \<or> th_state t = T_OUT \<or> th_state t = T_BLOCKED \<or>
     th_state t = T_QUEUED \<and> a \<notin> ran (hand (s_heap (b_sched b))) \<or>
     th_state t = T_RUNNING \<and> st b (th_cid t) = RUNNING \<and> th_handoff t = None \<and> \<not> th_marked t"

lemma sched_finish_ok:
  assumes S: "sys_inv b" and g: "s_gidMap (b_sched b) gid = Some a" and t: "s_heap (b_sched b) a = Some t" and m: "may_finish b a t"
    and rs: "\<forall>i. rs i \<le> i" and shuf: "\<forall>i. shuf i \<le> i"
  shows "\<exists>b'. sched_finish rs shuf gid b = Some b' \<and> sys_inv b' \<and> s_heap (b_sched b') a = None"
proof -
  let ?s0a = "(b_sched b)\<lparr>s_gidMap := (s_gidMap (b_sched b))(gid := None)\<rparr>" let ?b = "b\<lparr>b_sched := ?s0a\<rparr>"
  note p = sys_parts [OF S]
  have ig: "i_gid (s_heap (b_sched b)) (s_gidMap (b_sched b))" using p(2) by (simp add: sinv_def)
  then have gid: "th_gid t = gid" using g t unfolding i_gid_def by fastforce
  have "s_gidMap (b_sched b) g \<noteq> Some a" if "g \<noteq> gid" for g using ig gid t that unfolding i_gid_def by fastforce
  then have na: "a \<notin> ran (s_gidMap ?s0a)" by (auto simp: ran_def split: if_splits)
  have S1: "sys_inv ?b" by (rule erase_gid_ok [OF S])
  have t1: "s_heap (b_sched ?b) a = Some t" using t by simp
  have st: "st (x\<lparr>b_sched := s\<rparr>) = st x" for x :: "sched barrier" and s by (simp add: fun_eq_iff st_def)
  have fin: ?thesis if F: "finish_begin gid (b_sched b) = Some (a, fake, s1)" "leave_if rs shuf gid a fake (b\<lparr>b_sched := s1\<rparr>) = Some b1"
      "sys_inv b1" "s_heap (b_sched b1) a = Some u" "th_gid u = gid" "a \<notin> ran (s_gidMap (b_sched b1))" "may_finish b1 a u" "th_fakeLeave u = None" for fake s1 b1 u
  proof -
    have "th_state u = T_RUNNING \<Longrightarrow> running_ok b1 u \<and> \<not> th_marked u" using F(7,8) by (simp add: may_finish_def running_ok_def)
    then obtain b2 where b2: "leave_if rs shuf gid a (th_state u = T_RUNNING) b1 = Some b2" "sys_inv b2" "s_gidMap (b_sched b2) = s_gidMap (b_sched b1)"
        "if th_state u = T_RUNNING then tst (s_heap (b_sched b2)) a = Some T_OUT \<or> tst (s_heap (b_sched b2)) a = Some T_BLOCKED else b2 = b1"
      using leave_if_ok [OF F(3,4) _ rs shuf, of "th_state u = T_RUNNING"] F(5) by auto
    have "\<exists>v. s_heap (b_sched b2) a = Some v \<and> (th_state v = T_STARTED \<or> th_state v = T_OUT \<or> th_state v = T_BLOCKED \<or>
        th_state v = T_QUEUED \<and> a \<notin> ran (hand (s_heap (b_sched b2))))"
    proof (cases "th_state u = T_RUNNING")
      case True
      then show ?thesis using b2(4) by (auto simp: tst_Some)
    next
      case False
      then show ?thesis using b2(4) F(4,7) by (auto simp: may_finish_def)
    qed
    then obtain b3 where "in_sched (finish_end a) b2 = Some b3" "sys_inv b3" "s_heap (b_sched b3) a = None"
      using finish_end_ok [OF b2(2)] b2(3) F(6) by auto
    then show ?thesis using F(1,2,4) b2(1) by (simp add: sched_finish_def)
  qed
  show ?thesis
  proof (cases "th_fakeLeave t = None")
    case True
    then have "finish_begin gid (b_sched b) = Some (a, False, ?s0a)" using g t by (simp add: finish_begin_def Let_def)
    moreover have "may_finish ?b a t" using m by (simp add: may_finish_def st)
    ultimately show ?thesis using fin [of False ?s0a ?b t] S1 t1 gid na True by (simp add: leave_if_def)
  next
    case False
    obtain s1 where s1: "finishFakeLeave a ?s0a = Some s1" "sys_inv (?b\<lparr>b_sched := s1\<rparr>)" "s_heap s1 = (s_heap ?s0a)(a \<mapsto> t\<lparr>th_fakeLeave := None\<rparr>)"
        "s_gidMap s1 = s_gidMap ?s0a" "running_ok (?b\<lparr>b_sched := s1\<rparr>) (t\<lparr>th_fakeLeave := None\<rparr>)" "\<not> th_marked t"
      using finish_fake [OF S1 t1 False] by auto
    have fb: "finish_begin gid (b_sched b) = Some (a, True, s1)" using g t False s1(1) by (simp add: finish_begin_def Let_def)
    have e: "?b\<lparr>b_sched := s1\<rparr> = b\<lparr>b_sched := s1\<rparr>" by simp
    have u: "s_heap (b_sched (b\<lparr>b_sched := s1\<rparr>)) a = Some (t\<lparr>th_fakeLeave := None\<rparr>)" using s1(3) by simp
    obtain b1 where b1: "leave_if rs shuf gid a True (b\<lparr>b_sched := s1\<rparr>) = Some b1" "sys_inv b1" "s_gidMap (b_sched b1) = s_gidMap s1"
        "tst (s_heap (b_sched b1)) a = Some T_OUT \<or> tst (s_heap (b_sched b1)) a = Some T_BLOCKED"
      using leave_if_ok [OF s1(2)[unfolded e] u _ rs shuf, of True] s1(5,6) e gid by auto
    obtain v where v: "s_heap (b_sched b1) a = Some v" "th_state v = T_OUT \<or> th_state v = T_BLOCKED" using b1(4) by (auto simp: tst_Some)
    have fl: "th_fakeLeave v = None" using sinv_thread(1) [OF sys_parts(2) [OF b1(2)] v(1)] v(2) by (auto simp: thr_ok_def)
    obtain b2 where b2: "in_sched (finish_end a) b1 = Some b2" "sys_inv b2" "s_heap (b_sched b2) a = None"
      using finish_end_ok [OF b1(2) v(1)] v(2) b1(3) s1(4) na by auto
    have "leave_if rs shuf gid a (th_state v = T_RUNNING) b1 = Some b1" using v(2) by (auto simp: leave_if_def)
    then show ?thesis using fb b1(1) v(1) b2 by (simp add: sched_finish_def)
  qed
qed

section \<open>The watchdog thread\<close>

text \<open>When every thread that holds a context is out and some threads sleep, the watchdog ends phases itself until the first sleeper wakes up. It
  stops early when a thread waits for \<open>schedLock\<close> or the run is over; \<open>brk\<close> says whether it is so in the phase that has begun.\<close>

definition all_out :: "sched \<Rightarrow> bool" where
  "all_out s \<longleftrightarrow> s_scheduled s = length (s_outQueue s) \<and> s_sleepQueue s \<noteq> []"

definition idle_phase :: "(nat \<Rightarrow> nat) \<Rightarrow> sched \<Rightarrow> sched option" where
  "idle_phase rs s = callback rs (bump (\<lambda>n. n\<lparr>n_idlePhases := n_idlePhases n + 1\<rparr>) s)"

partial_function (option) drive :: "(nat \<Rightarrow> nat \<Rightarrow> nat) \<Rightarrow> (nat \<Rightarrow> bool) \<Rightarrow> nat \<Rightarrow> sched \<Rightarrow> sched option" where
  "drive rs brk a s = do {
     t \<leftarrow> s_heap s a;
     if th_state t = T_SLEEPING then do {
       s \<leftarrow> idle_phase (rs (s_curPhase s)) s;
       if brk (s_curPhase s) then Some s else drive rs brk a s }
     else Some s }"

definition watchdog_sleepers :: "(nat \<Rightarrow> nat \<Rightarrow> nat) \<Rightarrow> (nat \<Rightarrow> bool) \<Rightarrow> nat \<Rightarrow> sched \<Rightarrow> sched option" where
  "watchdog_sleepers rs brk lastPhase s =
     (if lastPhase = s_curPhase s \<and> all_out s then do {
        s \<leftarrow> drive rs brk (hd (s_sleepQueue s)) s;
        Some (bump (\<lambda>n. n\<lparr>n_idlePeriods := n_idlePeriods n + 1\<rparr>) s) }
      else Some s)"

definition none_run :: "sched \<Rightarrow> bool" where
  "none_run s \<longleftrightarrow> (\<forall>a. tst (s_heap s) a \<noteq> Some T_RUNNING)"

lemma all_out_none_run:
  assumes I: "sinv k {} {} s" and o: "all_out s"
  shows "none_run s"
  unfolding none_run_def
proof (intro allI notI)
  fix a assume a: "tst (s_heap s) a = Some T_RUNNING"
  note J = I [unfolded sinv_def]
  let ?C = "{c. c < s_numCores s \<and> cur (s_contexts s) c \<noteq> None}" let ?f = "\<lambda>c. the (cur (s_contexts s) c)"
  have inj: "inj_on ?f ?C"
  proof (rule inj_onI)
    fix c d assume "c \<in> ?C" "d \<in> ?C" "?f c = ?f d"
    then show "c = d" using sinv_context(3) [OF I, of c] sinv_context(3) [OF I, of d] by force
  qed
  have holds: "b \<in> ?f ` ?C" if "s_heap s b = Some t" "th_state t = T_RUNNING \<or> th_state t = T_OUT" for b t
    using sinv_running [OF I that] by force
  have oq: "set (s_outQueue s) \<subseteq> ?f ` ?C"
  proof
    fix b assume "b \<in> set (s_outQueue s)"
    then obtain t where "s_heap s b = Some t" "th_state t = T_OUT" using J by (auto simp: i_out_def tst_Some)
    then show "b \<in> ?f ` ?C" using holds by blast
  qed
  have "card (set (s_outQueue s)) = length (s_outQueue s)" using J by (simp add: i_out_def distinct_card)
  moreover have "s_scheduled s = card ?C" using J by (simp add: i_cnt_def)
  ultimately have "card (set (s_outQueue s)) = card (?f ` ?C)" using o card_image [OF inj] by (simp add: all_out_def)
  then have "set (s_outQueue s) = ?f ` ?C" using oq by (intro card_subset_eq) simp_all
  moreover have "a \<in> ?f ` ?C" using a holds by (auto simp: tst_Some)
  ultimately show False using J a by (auto simp: i_out_def)
qed

lemma phase_done_bump: "phase_done (bump f s) s' = phase_done s s'"
  unfolding phase_done_def log_same_def bump_fields by (rule refl)

lemma idle_phase_ok:
  assumes S: "sys_inv b" and n: "none_run (b_sched b)" and rs: "\<forall>i. rs i \<le> i"
  shows "\<exists>s'. idle_phase rs (b_sched b) = Some s' \<and> sys_inv (b\<lparr>b_sched := s'\<rparr>) \<and> none_run s' \<and> phase_done (b_sched b) s'"
proof -
  note p = sys_parts [OF S]
  let ?f = "\<lambda>n. n\<lparr>n_idlePhases := n_idlePhases n + 1\<rparr>" let ?s = "bump ?f (b_sched b)"
  have I: "sinv (s_curPhase ?s) {} {} ?s" using p(2) by (simp add: sinv_bump)
  have nr: "th_state t \<noteq> T_RUNNING" if "s_heap (b_sched b) a = Some t" for a t using n that by (auto simp: none_run_def tst_def)
  have "quiet (s_heap ?s)" using sinv_thread(1) [OF p(2)] nr unfolding quiet_def thr_ok_def by fastforce
  then obtain s' where s': "callback rs ?s = Some s'" "sinv (s_curPhase s') {} {} s'" "phase_done ?s s'" using callback_ok [OF I _ rs] by blast
  have d: "phase_done (b_sched b) s'" using s'(3) by (simp only: phase_done_bump)
  have n': "none_run s'" using n d unfolding none_run_def phase_done_def by auto
  have "pending b (s_heap s')" unfolding pending_def
  proof (intro allI impI)
    fix a t assume t: "s_heap s' a = Some t"
    have "th_state t \<noteq> T_RUNNING" using n' t by (auto simp: none_run_def tst_def)
    then show "pend_ok b t" using sinv_thread(1) [OF s'(2) t] by (auto simp: thr_ok_def pend_ok_def)
  qed
  moreover have "runs s' = runs (b_sched b)" using d unfolding phase_done_def by (elim conjE) assumption
  moreover have "s_numCores s' = s_numCores (b_sched b)" "core_on (s_log s') = core_on (s_log (b_sched b))" "log_ok (s_log s') = log_ok (s_log (b_sched b))"
    using d by (simp_all add: phase_done_def log_same_def)
  ultimately have "sys_inv (b\<lparr>b_sched := s'\<rparr>)" using S s'(2) unfolding sys_inv_def members_def cores_ok_def by simp
  then show ?thesis using s'(1) n' d by (simp add: idle_phase_def)
qed

text \<open>The sleeper at the front has the first deadline, so the loop ends there, and no assertion of the phases on the way fails.\<close>

lemma drive_ok:
  assumes "sys_inv (b\<lparr>b_sched := s\<rparr>)" "none_run s" "tst (s_heap s) a = Some T_SLEEPING" and rs: "\<forall>k i. rs k i \<le> i"
  shows "\<exists>s'. drive rs brk a s = Some s' \<and> sys_inv (b\<lparr>b_sched := s'\<rparr>) \<and> none_run s' \<and> s_curPhase s < s_curPhase s' \<and> s_curPhase s' \<le> wake (s_heap s) a \<and>
    (s_curPhase s' = wake (s_heap s) a \<and> tst (s_heap s') a = Some T_BLOCKED \<or> brk (s_curPhase s') \<and> tst (s_heap s') a = Some T_SLEEPING \<and> wake (s_heap s') a = wake (s_heap s) a)"
  using assms(1-3)
proof (induction "wake (s_heap s) a - s_curPhase s" arbitrary: s rule: less_induct)
  case less
  let ?w = "wake (s_heap s) a" let ?k = "s_curPhase s"
  obtain t where t: "s_heap s a = Some t" "th_state t = T_SLEEPING" using less.prems(3) by (auto simp: tst_Some)
  have "sinv ?k {} {} s" using sys_parts(2) [OF less.prems(1)] by simp
  then have kw: "?k < ?w" using sinv_thread(1) t by (fastforce simp: thr_ok_def wake_def)
  have ri: "\<forall>i. rs ?k i \<le> i" using rs by blast
  obtain s1 where s1: "idle_phase (rs ?k) s = Some s1" "sys_inv (b\<lparr>b_sched := s1\<rparr>)" "none_run s1" "phase_done s s1"
    using idle_phase_ok [OF less.prems(1) _ ri] less.prems(2) by auto
  have n: "s_curPhase s1 = Suc ?k" "wake (s_heap s1) = wake (s_heap s)" "tst (s_heap s1) a = (if ?w = Suc ?k then Some T_BLOCKED else Some T_SLEEPING)"
    using s1(4) less.prems(3) by (simp_all add: phase_done_def)
  have st: "drive rs brk a s = (if brk (Suc ?k) then Some s1 else drive rs brk a s1)"
    using t s1(1) n(1) by (subst drive.simps) simp
  show ?case
  proof (cases "brk (Suc ?k)")
    case True
    then show ?thesis using st s1 n kw by auto
  next
    case nb: False
    show ?thesis
    proof (cases "?w = Suc ?k")
      case True
      then have "tst (s_heap s1) a = Some T_BLOCKED" using n(3) by simp
      then obtain t1 where "s_heap s1 a = Some t1" "th_state t1 = T_BLOCKED" by (auto simp: tst_Some)
      then have "drive rs brk a s1 = Some s1" by (subst drive.simps) simp
      then show ?thesis using st nb s1 n True by auto
    next
      case False
      then have sl: "tst (s_heap s1) a = Some T_SLEEPING" using n(3) by simp
      have lt: "wake (s_heap s1) a - s_curPhase s1 < ?w - ?k" using n kw by simp
      obtain s' where "drive rs brk a s1 = Some s'" "sys_inv (b\<lparr>b_sched := s'\<rparr>)" "none_run s'" "s_curPhase s1 < s_curPhase s'" "s_curPhase s' \<le> wake (s_heap s1) a"
          "s_curPhase s' = wake (s_heap s1) a \<and> tst (s_heap s') a = Some T_BLOCKED \<or> brk (s_curPhase s') \<and> tst (s_heap s') a = Some T_SLEEPING \<and> wake (s_heap s') a = wake (s_heap s1) a"
        using less.hyps [OF lt s1(2,3) sl] by blast
      then show ?thesis using st nb n by auto
    qed
  qed
qed

lemma watchdog_sleepers_ok:
  assumes S: "sys_inv b" and rs: "\<forall>k i. rs k i \<le> i"
  shows "\<exists>b'. in_sched (watchdog_sleepers rs brk lastPhase) b = Some b' \<and> sys_inv b'"
proof (cases "lastPhase = s_curPhase (b_sched b) \<and> all_out (b_sched b)")
  case True
  let ?s = "b_sched b" let ?a = "hd (s_sleepQueue (b_sched b))"
  note p = sys_parts [OF S]
  have "?a \<in> set (s_sleepQueue ?s)" using True by (simp add: all_out_def)
  then have a: "tst (s_heap ?s) ?a = Some T_SLEEPING" using p(2) by (simp add: sinv_def i_sleep_def)
  have nr: "none_run ?s" using all_out_none_run [OF p(2)] True by blast
  have "b\<lparr>b_sched := ?s\<rparr> = b" by simp
  then obtain s' where s': "drive rs brk ?a ?s = Some s'" "sys_inv (b\<lparr>b_sched := s'\<rparr>)" using drive_ok [OF _ nr a rs, of b] S by auto
  let ?f = "\<lambda>n. n\<lparr>n_idlePeriods := n_idlePeriods n + 1\<rparr>"
  have "sys_inv ((b\<lparr>b_sched := s'\<rparr>)\<lparr>b_sched := bump ?f s'\<rparr>)"
    using sys_parts(2,3) [OF s'(2)] by (intro sys_keep [OF s'(2)]) (simp_all add: sinv_bump)
  then show ?thesis using True s'(1) by (simp add: in_sched_def watchdog_sleepers_def)
next
  case False
  then have "watchdog_sleepers rs brk lastPhase (b_sched b) = Some (b_sched b)" unfolding watchdog_sleepers_def by (rule if_not_P)
  then show ?thesis using S by (simp add: in_sched_def)
qed

text \<open>
  When threads are in fake leaves and the phase has not changed, the watchdog ends the fake leave of the first one, if it has seen enough stalls and the system call
  matches the process's blacklist regular expression (\<open>ok\<close> is both), and if the thread is not about to join after a futex wake. If it is the only one its program counter is
  blacklisted. Then the watchdog gives the lock up, calls \<open>leave\<close> for the thread, and goes on with the next fake leave at the same program counter while more than 8
  are left. The test of the process there compares the process of the thread that has just left, and never fails, so it is not part of the model.
\<close>

definition blacklist :: "nat \<Rightarrow> u64 \<Rightarrow> sched \<Rightarrow> sched option" where
  "blacklist pid pc s = do {
     pcs \<leftarrow> aget (s_blocking s) pid;
     bl \<leftarrow> aset (s_blocking s) pid (insert pc pcs);
     Some (s\<lparr>s_blocking := bl\<rparr>) }"

definition evict_first :: "bool \<Rightarrow> nat \<Rightarrow> sched \<Rightarrow> sched option" where
  "evict_first ok lastPhase s = (case s_fakeLeaves s of [] \<Rightarrow> Some s
     | a # fls \<Rightarrow> do {
         t \<leftarrow> s_heap s a;
         if lastPhase = s_curPhase s \<and> fj_action (th_futexJoin t) \<noteq> FJA_WAKE \<and> ok then do {
           fl \<leftarrow> th_fakeLeave t;
           s \<leftarrow> (if length (s_fakeLeaves s) = 1 then blacklist (unat (getPid (th_gid t))) (fl_pc fl) s else Some s);
           finishFakeLeave a s }
         else Some s })"

definition evict_next :: "u64 \<Rightarrow> sched \<Rightarrow> sched option" where
  "evict_next pc s = (case s_fakeLeaves s of [] \<Rightarrow> Some s
     | a # fls \<Rightarrow> do {
         t \<leftarrow> s_heap s a;
         fl \<leftarrow> th_fakeLeave t;
         if fl_pc fl = pc \<and> length (s_fakeLeaves s) > 8 then finishFakeLeave a s else Some s })"

lemma first_fake:
  assumes "sys_inv b" "s_fakeLeaves (b_sched b) = a # fls"
  obtains t fl where "s_heap (b_sched b) a = Some t" "th_fakeLeave t = Some fl"
proof -
  have "i_fake (faked (s_heap (b_sched b))) (s_fakeLeaves (b_sched b))" using sys_parts(2) [OF assms(1)] by (simp add: sinv_def)
  then have "faked (s_heap (b_sched b)) a" unfolding assms(2) i_fake_def by auto
  then show ?thesis using that by (auto simp: faked_def split: option.splits)
qed

lemma blacklist_ok:
  assumes S: "sys_inv b" and p: "pid < MAX_THREADS"
  shows "\<exists>s'. blacklist pid pc (b_sched b) = Some s' \<and> sys_inv (b\<lparr>b_sched := s'\<rparr>) \<and> s_heap s' = s_heap (b_sched b) \<and> s_fakeLeaves s' = s_fakeLeaves (b_sched b)"
proof -
  note I = sys_parts [OF S]
  let ?s = "(b_sched b)\<lparr>s_blocking := (s_blocking (b_sched b))[pid := insert pc (s_blocking (b_sched b) ! pid)]\<rparr>"
  have "length (s_blocking (b_sched b)) = MAX_THREADS" using I(2) by (simp add: sinv_def i_misc_def)
  then have "blacklist pid pc (b_sched b) = Some ?s" using p by (simp add: blacklist_def)
  moreover have "i_misc ?s = i_misc (b_sched b)" by (simp add: i_misc_def)
  then have "sinv (s_curPhase (b_sched b)) {} {} ?s" using I(2) by (simp add: sinv_def)
  then have "sys_inv (b\<lparr>b_sched := ?s\<rparr>)" using I(3) by (intro sys_keep [OF S]) simp_all
  ultimately show ?thesis by (intro exI [of _ ?s]) simp
qed

lemma evict_first_ok:
  assumes S: "sys_inv b" and p: "\<forall>a \<in> set (s_fakeLeaves (b_sched b)). \<forall>t. s_heap (b_sched b) a = Some t \<longrightarrow> unat (getPid (th_gid t)) < MAX_THREADS"
  shows "\<exists>b'. in_sched (evict_first ok k) b = Some b' \<and> sys_inv b'"
proof (cases "s_fakeLeaves (b_sched b)")
  case Nil
  then show ?thesis using S by (simp add: in_sched_def evict_first_def)
next
  case (Cons a fls)
  obtain t fl where t: "s_heap (b_sched b) a = Some t" "th_fakeLeave t = Some fl" by (rule first_fake [OF S Cons])
  show ?thesis
  proof (cases "k = s_curPhase (b_sched b) \<and> fj_action (th_futexJoin t) \<noteq> FJA_WAKE \<and> ok")
    case True
    let ?bl = "\<lambda>s. if length (s_fakeLeaves s) = 1 then blacklist (unat (getPid (th_gid t))) (fl_pc fl) s else Some s"
    have "unat (getPid (th_gid t)) < MAX_THREADS" using p Cons t(1) by simp
    from blacklist_ok [OF S this, of "fl_pc fl"] obtain s1 where
      s1: "?bl (b_sched b) = Some s1" "sys_inv (b\<lparr>b_sched := s1\<rparr>)" "s_heap s1 = s_heap (b_sched b)"
      using S by (cases "length (s_fakeLeaves (b_sched b)) = 1") auto
    have "s_heap (b_sched (b\<lparr>b_sched := s1\<rparr>)) a = Some t" using s1(3) t(1) by simp
    from finish_fake [OF s1(2) this] t(2) obtain s2 where "finishFakeLeave a s1 = Some s2" "sys_inv (b\<lparr>b_sched := s2\<rparr>)" by auto
    moreover have "evict_first ok k (b_sched b) = ?bl (b_sched b) \<bind> finishFakeLeave a" using True Cons t by (simp add: evict_first_def)
    ultimately show ?thesis using s1(1) by (simp add: in_sched_def)
  next
    case False
    then have "evict_first ok k (b_sched b) = Some (b_sched b)" using Cons t by (auto simp: evict_first_def)
    then show ?thesis using S by (simp add: in_sched_def)
  qed
qed

lemma evict_next_ok:
  assumes S: "sys_inv b"
  shows "\<exists>b'. in_sched (evict_next pc) b = Some b' \<and> sys_inv b'"
proof (cases "s_fakeLeaves (b_sched b)")
  case Nil
  then show ?thesis using S by (simp add: in_sched_def evict_next_def)
next
  case (Cons a fls)
  obtain t fl where t: "s_heap (b_sched b) a = Some t" "th_fakeLeave t = Some fl" by (rule first_fake [OF S Cons])
  then obtain s2 where "finishFakeLeave a (b_sched b) = Some s2" "sys_inv (b\<lparr>b_sched := s2\<rparr>)" using finish_fake [OF S t(1)] by auto
  then show ?thesis using Cons t S by (simp add: in_sched_def evict_next_def)
qed

section \<open>Runs of the scheduler\<close>

datatype sched_op = OpStart u32 u32 "bool list" u32 u32 | OpJoin u32 u32 | OpLeave u32 u32 nat | OpSyscall u32 u32 nat fake_leave | OpSync nat |
  OpSyncReturn nat | OpMark u32 u32 nat | OpSleepEnd u32 u32 | OpMask u32 u32 "bool list" | OpFinish u32 u32 | OpWatchdog "nat \<Rightarrow> bool" nat |
  OpEvict bool nat | OpEvictNext u64

definition thread_of :: "u32 \<Rightarrow> u32 \<Rightarrow> sched barrier \<Rightarrow> nat option" where
  "thread_of pid tid b = s_gidMap (b_sched b) (getGid pid tid)"

fun sched_do :: "(nat \<Rightarrow> nat) \<Rightarrow> (nat \<Rightarrow> nat) \<Rightarrow> sched_op \<Rightarrow> sched barrier \<Rightarrow> sched barrier option" where
  "sched_do rs shuf (OpStart pid tid m lp lt) b = in_sched (sched_start pid tid m lp lt) b"
| "sched_do rs shuf (OpJoin pid tid) b = do { a \<leftarrow> thread_of pid tid b; sched_join rs shuf a b }"
| "sched_do rs shuf (OpLeave pid tid c) b = sched_leave rs shuf (getGid pid tid) c b"
| "sched_do rs shuf (OpSyscall pid tid c fl) b = syscallLeave rs shuf pid tid c fl b"
| "sched_do rs shuf (OpSync c) b = sched_sync rs shuf c b"
| "sched_do rs shuf (OpSyncReturn a) b = sync_return rs shuf a b"
| "sched_do rs shuf (OpMark pid tid w) b = do { a \<leftarrow> thread_of pid tid b; in_sched (markForSleep a w) b }"
| "sched_do rs shuf (OpSleepEnd pid tid) b = do { a \<leftarrow> thread_of pid tid b; in_sched (notifySleepEnd a) b }"
| "sched_do rs shuf (OpMask pid tid m) b = in_sched (updateMask pid tid m) b"
| "sched_do rs shuf (OpFinish pid tid) b = sched_finish rs shuf (getGid pid tid) b"
| "sched_do rs shuf (OpWatchdog brk k) b = in_sched (watchdog_sleepers (\<lambda>_. rs) brk k) b"
| "sched_do rs shuf (OpEvict ok k) b = in_sched (evict_first ok k) b"
| "sched_do rs shuf (OpEvictNext pc) b = in_sched (evict_next pc) b"

text \<open>
  When a call may come, by what the thread is doing. Most conditions say that the thread is where it makes the call: a thread joins when it is
  not running or in a fake leave, and leaves, synchronizes, sleeps or makes a system call when it runs and has nothing to hand over. Three exclude calls
  that the code does not prevent and that fail:

  \<^item> a mask for a thread on the run queue that names a core whose thread does not run;
  \<^item> \<open>finish\<close> of a thread that has been picked to take a core over, that waits in the barrier, that sleeps or is marked for sleep, or that is to hand its core over;
  \<^item> \<open>join\<close> of a thread whose fake leave the watchdog has ended but that has not left yet.

  The cleanup of a process is a sequence of \<open>notifySleepEnd\<close> and \<open>finish\<close>. The processes of fake leaves have an entry in \<open>blockingSyscalls\<close>.
\<close>

definition owner_ok :: "sched barrier \<Rightarrow> u32 \<Rightarrow> u32 \<Rightarrow> (nat \<Rightarrow> thread_info \<Rightarrow> bool) \<Rightarrow> bool" where
  "owner_ok b pid tid P \<longleftrightarrow> (case thread_of pid tid b of None \<Rightarrow> False | Some a \<Rightarrow> (case s_heap (b_sched b) a of None \<Rightarrow> False | Some t \<Rightarrow> P a t))"

fun sched_allowed :: "sched barrier \<Rightarrow> sched_op \<Rightarrow> bool" where
  "sched_allowed b (OpStart pid tid m lp lt) \<longleftrightarrow> thread_of pid tid b = None \<and> length m = s_numCores (b_sched b) \<and> True \<in> set m"
| "sched_allowed b (OpJoin pid tid) \<longleftrightarrow> owner_ok b pid tid (\<lambda>a t. th_fakeLeave t \<noteq> None \<or> th_state t \<in> {T_STARTED, T_BLOCKED, T_OUT, T_SLEEPING})"
| "sched_allowed b (OpLeave pid tid c) \<longleftrightarrow> owner_ok b pid tid (\<lambda>a t. running_ok b t \<and> th_cid t = c)"
| "sched_allowed b (OpSyscall pid tid c fl) \<longleftrightarrow> unat pid < MAX_THREADS \<and> owner_ok b pid tid (\<lambda>a t. running_ok b t \<and> th_cid t = c)"
| "sched_allowed b (OpSync c) \<longleftrightarrow> c < s_numCores (b_sched b) \<and> (case c_cur (s_contexts (b_sched b) ! c) of None \<Rightarrow> False
     | Some a \<Rightarrow> (case s_heap (b_sched b) a of None \<Rightarrow> False | Some t \<Rightarrow> running_ok b t \<and> \<not> th_marked t))"
| "sched_allowed b (OpSyncReturn a) \<longleftrightarrow> (case s_heap (b_sched b) a of None \<Rightarrow> False | Some t \<Rightarrow> th_state t = T_RUNNING \<and> st b (th_cid t) = RUNNING)"
| "sched_allowed b (OpMark pid tid w) \<longleftrightarrow> s_curPhase (b_sched b) < w \<and> owner_ok b pid tid (\<lambda>a t. running_ok b t \<and> \<not> th_marked t)"
| "sched_allowed b (OpSleepEnd pid tid) \<longleftrightarrow> owner_ok b pid tid (\<lambda>a t. th_state t = T_SLEEPING \<or> th_state t = T_BLOCKED)"
| "sched_allowed b (OpMask pid tid m) \<longleftrightarrow> length m = s_numCores (b_sched b) \<and> True \<in> set m \<and>
     (case thread_of pid tid b of None \<Rightarrow> True
      | Some a \<Rightarrow> a \<in> set (s_runQueue (b_sched b)) \<longrightarrow> (\<forall>c < s_numCores (b_sched b). m ! c \<longrightarrow> runs (b_sched b) c))"
| "sched_allowed b (OpFinish pid tid) \<longleftrightarrow> owner_ok b pid tid (may_finish b)"
| "sched_allowed b (OpWatchdog brk k) \<longleftrightarrow> True"
| "sched_allowed b (OpEvict ok k) \<longleftrightarrow>
     (\<forall>a \<in> set (s_fakeLeaves (b_sched b)). case s_heap (b_sched b) a of None \<Rightarrow> True | Some t \<Rightarrow> unat (getPid (th_gid t)) < MAX_THREADS)"
| "sched_allowed b (OpEvictNext pc) \<longleftrightarrow> True"

inductive sched_reach :: "sched barrier \<Rightarrow> sched barrier \<Rightarrow> bool" for b0 where
  sched_first: "sched_reach b0 b0"
| sched_next: "sched_reach b0 b \<Longrightarrow> sched_allowed b op \<Longrightarrow> \<forall>i. rs i \<le> i \<Longrightarrow> \<forall>i. shuf i \<le> i \<Longrightarrow> sched_do rs shuf op b = Some b' \<Longrightarrow> sched_reach b0 b'"

lemma owner_okD:
  assumes "sys_inv b" "owner_ok b pid tid P"
  obtains a t where "thread_of pid tid b = Some a" "s_heap (b_sched b) a = Some t" "P a t" "th_gid t = getGid pid tid"
proof -
  obtain a t where at: "thread_of pid tid b = Some a" "s_heap (b_sched b) a = Some t" "P a t"
    using assms(2) unfolding owner_ok_def by (auto split: option.splits)
  have "i_gid (s_heap (b_sched b)) (s_gidMap (b_sched b))" using sys_parts(2) [OF assms(1)] by (simp add: sinv_def)
  then have "th_gid t = getGid pid tid" using at(1,2) unfolding i_gid_def thread_of_def by fastforce
  then show ?thesis using that at by blast
qed

lemma sched_do_ok:
  assumes S: "sys_inv b" and al: "sched_allowed b op" and rs: "\<forall>i. rs i \<le> i" and shuf: "\<forall>i. shuf i \<le> i"
  shows "\<exists>b'. sched_do rs shuf op b = Some b' \<and> sys_inv b'"
proof (cases op)
  case (OpStart pid tid m lp lt)
  then show ?thesis using sched_start_ok [OF S] al by (simp add: thread_of_def)
next
  case (OpJoin pid tid)
  then have ow: "owner_ok b pid tid (\<lambda>a t. th_fakeLeave t \<noteq> None \<or> th_state t \<in> {T_STARTED, T_BLOCKED, T_OUT, T_SLEEPING})" using al by simp
  obtain a t where "thread_of pid tid b = Some a" "s_heap (b_sched b) a = Some t" "th_fakeLeave t \<noteq> None \<or> th_state t \<in> {T_STARTED, T_BLOCKED, T_OUT, T_SLEEPING}" "th_gid t = getGid pid tid"
    by (rule owner_okD [OF S ow])
  then show ?thesis using sched_join_ok [OF S _ _ shuf, of a t rs] OpJoin by auto
next
  case (OpLeave pid tid c)
  then have ow: "owner_ok b pid tid (\<lambda>a t. running_ok b t \<and> th_cid t = c)" using al by simp
  obtain a t where "thread_of pid tid b = Some a" "s_heap (b_sched b) a = Some t" "running_ok b t \<and> th_cid t = c" "th_gid t = getGid pid tid"
    by (rule owner_okD [OF S ow])
  then show ?thesis using sched_leave_running [OF S _ _ rs shuf, of a t] OpLeave by auto
next
  case (OpSyscall pid tid c fl)
  then have ow: "owner_ok b pid tid (\<lambda>a t. running_ok b t \<and> th_cid t = c)" using al by simp
  obtain a t where "thread_of pid tid b = Some a" "s_heap (b_sched b) a = Some t" "running_ok b t \<and> th_cid t = c" "th_gid t = getGid pid tid"
    by (rule owner_okD [OF S ow])
  then show ?thesis using syscallLeave_ok [OF S _ _ _ _ rs shuf, of a t pid tid fl] OpSyscall al by auto
next
  case (OpSync c)
  then obtain a t where a: "c < s_numCores (b_sched b)" "c_cur (s_contexts (b_sched b) ! c) = Some a" "s_heap (b_sched b) a = Some t" "running_ok b t" "\<not> th_marked t"
    using al by (auto split: option.splits)
  have "th_cid t = c" using sinv_context(3) [OF sys_parts(2) [OF S] a(1), of a] a(2,3) by (auto simp: cur_def)
  then show ?thesis using sched_sync_ok [OF S a(3) _ _ _ _ a(5) rs shuf] a(4) OpSync by (auto simp: running_ok_def)
next
  case (OpSyncReturn a)
  then obtain t where t: "s_heap (b_sched b) a = Some t" "th_state t = T_RUNNING" using al by (auto split: option.splits)
  show ?thesis
  proof (cases "th_handoff t")
    case None
    then show ?thesis using t S OpSyncReturn by (simp add: sync_return_def)
  next
    case (Some d)
    then show ?thesis using sync_return_ok [OF S t(1) Some shuf, of rs] OpSyncReturn by auto
  qed
next
  case (OpMark pid tid w)
  then have ow: "owner_ok b pid tid (\<lambda>a t. running_ok b t \<and> \<not> th_marked t)" using al by simp
  obtain a t where "thread_of pid tid b = Some a" "s_heap (b_sched b) a = Some t" "running_ok b t \<and> \<not> th_marked t" "th_gid t = getGid pid tid"
    by (rule owner_okD [OF S ow])
  then show ?thesis using markForSleep_ok [OF S, of a t w] OpMark al by (auto simp: running_ok_def)
next
  case (OpSleepEnd pid tid)
  then have ow: "owner_ok b pid tid (\<lambda>a t. th_state t = T_SLEEPING \<or> th_state t = T_BLOCKED)" using al by simp
  obtain a t where "thread_of pid tid b = Some a" "s_heap (b_sched b) a = Some t" "th_state t = T_SLEEPING \<or> th_state t = T_BLOCKED" "th_gid t = getGid pid tid"
    by (rule owner_okD [OF S ow])
  then show ?thesis using notifySleepEnd_ok [OF S, of a t] OpSleepEnd by auto
next
  case (OpMask pid tid m)
  then show ?thesis using updateMask_ok [OF S, of m pid tid] al by (auto simp: thread_of_def split: option.splits)
next
  case (OpFinish pid tid)
  then have ow: "owner_ok b pid tid (may_finish b)" using al by simp
  obtain a t where "thread_of pid tid b = Some a" "s_heap (b_sched b) a = Some t" "may_finish b a t" "th_gid t = getGid pid tid"
    by (rule owner_okD [OF S ow])
  then show ?thesis using sched_finish_ok [OF S _ _ _ rs shuf, of "getGid pid tid" a t] OpFinish by (auto simp: thread_of_def)
next
  case (OpWatchdog brk k)
  then show ?thesis using watchdog_sleepers_ok [OF S, of "\<lambda>_. rs" brk k] rs by simp
next
  case (OpEvict ok k)
  then show ?thesis using evict_first_ok [OF S, of ok k] al by (auto split: option.splits)
next
  case (OpEvictNext pc)
  then show ?thesis using evict_next_ok [OF S, of pc] by simp
qed

lemma sched_reach_inv:
  "sched_reach (sched_init par n q pl junk) b \<Longrightarrow> 0 < par \<Longrightarrow> 0 < n \<Longrightarrow> n \<le> MAX_THREADS \<Longrightarrow> 0 < q \<Longrightarrow> sys_inv b"
proof (induction rule: sched_reach.induct)
  case sched_first
  then show ?case by (rule sched_init_ok)
next
  case (sched_next b op rs shuf b')
  then show ?case using sched_do_ok [of b op rs shuf] by auto
qed

end
