(* ===== verification/SchedProps.thy ===== *)
theory SchedProps
  imports SchedSys
begin

text \<open>
  What the scheduler promises, for every state that the program can reach, and what goes wrong where the code asserts too much or checks too
  little.
\<close>

section \<open>A small run\<close>

text \<open>Two cores, and one thread that runs on the core that it may use.\<close>

definition ran_alone :: "sched barrier \<Rightarrow> thread_info \<Rightarrow> bool" where
  "ran_alone b t \<longleftrightarrow> b_parallel b = 1 \<and> b_size b = 1 \<and> b_cur b = 1 \<and> b_running b = 1 \<and> b_left b = 0 \<and> b_phaseCount b = 0 \<and>
     b_threads b = (replicate MAX_THREADS \<lparr>ts_state = OFFLINE, ts_futexWord = 0, ts_lastIdx = 0\<rparr>)[0 := \<lparr>ts_state = RUNNING, ts_futexWord = 0, ts_lastIdx = 0\<rparr>] \<and>
     b_runList b = replicate MAX_THREADS 0 \<and> s_heap (b_sched b) = [0 \<mapsto> t] \<and> s_next (b_sched b) = 1 \<and> s_gidMap (b_sched b) = [0 \<mapsto> 0] \<and>
     s_contexts (b_sched b) = [\<lparr>c_state = USED, c_cur = Some 0\<rparr>, \<lparr>c_state = IDLE, c_cur = None\<rparr>] \<and> s_freeList (b_sched b) = [1] \<and> s_runQueue (b_sched b) = [] \<and> s_outQueue (b_sched b) = [] \<and>
     s_sleepQueue (b_sched b) = [] \<and> s_numCores (b_sched b) = 2 \<and> s_schedQuantum (b_sched b) = 1 \<and> s_curPhase (b_sched b) = 0 \<and> s_numPhases (b_sched b) = 0 \<and>
     s_scheduled (b_sched b) = 1 \<and> n_occHist (s_stats (b_sched b)) = [0, 0, 0] \<and> n_runQueueHist (s_stats (b_sched b)) = replicate 17 0 \<and>
     s_blocking (b_sched b) = replicate MAX_THREADS {} \<and> s_fakeLeaves (b_sched b) = [] \<and> th_gid t = 0 \<and> th_state t = T_RUNNING \<and> th_cid t = 0 \<and> th_handoff t = None \<and> \<not> th_marked t \<and> th_mask t = [True, False] \<and> th_fakeLeave t = None"

lemma getGid_small: "getGid 0 0 = 0" "getGid 0 1 = 1"
  by (simp_all add: getGid_def)

lemma one_thread_runs: "\<exists>b t. sched_reach (sched_init 1 2 1 0 (\<lambda>_. 0)) b \<and> ran_alone b t"
proof -
  let ?b0 = "sched_init 1 2 1 0 (\<lambda>_. 0)"
  let ?t = "\<lparr>th_gid = 0, th_linuxPid = 0, th_linuxTid = 0, th_state = T_STARTED, th_cid = 0, th_handoff = None, th_futexWord = 0, th_needsJoin = False, th_marked = False,
    th_wakeupPhase = 0, th_mask = [True, False], th_fakeLeave = None, th_futexJoin = \<lparr>fj_action = FJA_NONE, fj_maxWakes = 0, fj_wokenUp = 0\<rparr>\<rparr>"
  define s0 where "s0 = Scheduler_new 2 1 0"
  define s1 where "s1 = bump (\<lambda>n. n\<lparr>n_created := n_created n + 1\<rparr>) (s0\<lparr>s_heap := [0 \<mapsto> ?t], s_gidMap := [0 \<mapsto> 0], s_next := 1\<rparr>)"
  define b1 where "b1 = ?b0\<lparr>b_sched := s1\<rparr>"
  have sh: "\<forall>i. id i \<le> (i :: nat)" by simp
  have i: "b_sched ?b0 = s0" by (simp add: sched_init_def Barrier_new_def s0_def)
  have z: "s_heap s0 = Map.empty" "s_gidMap s0 = Map.empty" "s_next s0 = 0" "s_numCores s0 = 2" by (simp_all add: s0_def Scheduler_new_def)
  have al1: "sched_allowed ?b0 (OpStart 0 0 [True, False] 0 0)" unfolding sched_allowed.simps thread_of_def i z by simp
  have "sched_start 0 0 [True, False] 0 0 s0 = Some s1" by (simp add: sched_start_def z getGid_small ThreadInfo_new_def s1_def)
  then have "sched_do id id (OpStart 0 0 [True, False] 0 0) ?b0 = Some b1" unfolding sched_do.simps in_sched_def i b1_def by simp
  then have r1: "sched_reach ?b0 b1" by (rule sched_next [OF sched_first al1 sh sh])
  have f: "b_sched b1 = s1" "s_heap s1 = [0 \<mapsto> ?t]" "s_gidMap s1 = [0 \<mapsto> 0]" "s_contexts s1 = [\<lparr>c_state = IDLE, c_cur = None\<rparr>, \<lparr>c_state = IDLE, c_cur = None\<rparr>]" "s_freeList s1 = [0, 1]" "s_runQueue s1 = []"
    "s_outQueue s1 = []" "s_sleepQueue s1 = []" "s_numCores s1 = 2" "s_schedQuantum s1 = 1" "s_curPhase s1 = 0" "s_numPhases s1 = 0" "s_scheduled s1 = 0" "s_next s1 = 1"
    "n_occHist (s_stats s1) = [0, 0, 0]" "n_runQueueHist (s_stats s1) = replicate 17 0"
    "s_blocking s1 = replicate MAX_THREADS {}" "s_fakeLeaves s1 = []"
    by (simp_all add: b1_def s1_def s0_def Scheduler_new_def bump_def initStats_def numeral_eq_Suc)
  have M: "0 < MAX_THREADS" by (simp add: MAX_THREADS_def)
  have g: "b_parallel b1 = 1" "b_threads b1 = replicate MAX_THREADS \<lparr>ts_state = OFFLINE, ts_futexWord = 0, ts_lastIdx = 0\<rparr>" "b_runList b1 = replicate MAX_THREADS 0"
    "b_size b1 = 0" "b_cur b1 = 0" "b_running b1 = 0" "b_left b1 = 0" "b_phaseCount b1 = 0"
    by (simp_all add: b1_def sched_init_def Barrier_new_def map_replicate_const)
  have al2: "sched_allowed b1 (OpJoin 0 0)" using f by (simp add: owner_ok_def thread_of_def getGid_small)
  have "\<exists>b. sched_do id id (OpJoin 0 0) b1 = Some b \<and> ran_alone b (the (s_heap (b_sched b) 0))"
    using f g M by (simp add: thread_of_def getGid_small sched_join_def early_wake_def schedThread_def take_own_def allows_def list_remove_def schedule_def core_join_def
      bar_join_def tryWakeNext_def checkRunList_def checkEndPhase_def wake_next_def st_def list_update_same_conv Let_def ran_alone_def) (simp add: bump_def log_call_def)
  then show ?thesis using sched_next [OF r1 al2 sh sh] by blast
qed

text \<open>A second thread comes and finds no core.\<close>

lemma two_threads_queue:
  "\<exists>b t u. sched_reach (sched_init 1 2 1 0 (\<lambda>_. 0)) b \<and> s_heap (b_sched b) = [0 \<mapsto> t, 1 \<mapsto> u] \<and> th_state u = T_QUEUED \<and> th_mask u = [True, False] \<and>
     s_runQueue (b_sched b) = [1] \<and> s_numCores (b_sched b) = 2 \<and> c_cur (s_contexts (b_sched b) ! 1) = None \<and> thread_of 0 1 b = Some 1 \<and>
     (\<exists>b'. sched_reach (sched_init 1 2 1 0 (\<lambda>_. 0)) b' \<and> thread_of 0 1 b' = Some 1 \<and> (\<exists>t'. s_heap (b_sched b') 0 = Some t' \<and> th_handoff t' = Some 1 \<and> th_cid t' = 0))"
proof -
  obtain b t where b: "sched_reach (sched_init 1 2 1 0 (\<lambda>_. 0)) b" "ran_alone b t" using one_thread_runs by blast
  have sh: "\<forall>i. id i \<le> (i :: nat)" by simp
  note f = b(2) [unfolded ran_alone_def]
  let ?u = "\<lparr>th_gid = 1, th_linuxPid = 0, th_linuxTid = 0, th_state = T_STARTED, th_cid = 0, th_handoff = None, th_futexWord = 0, th_needsJoin = False, th_marked = False,
    th_wakeupPhase = 0, th_mask = [True, False], th_fakeLeave = None, th_futexJoin = \<lparr>fj_action = FJA_NONE, fj_maxWakes = 0, fj_wokenUp = 0\<rparr>\<rparr>"
  define s1 where "s1 = bump (\<lambda>n. n\<lparr>n_created := n_created n + 1\<rparr>) ((b_sched b)\<lparr>s_heap := [0 \<mapsto> t, 1 \<mapsto> ?u], s_gidMap := [0 \<mapsto> 0, 1 \<mapsto> 1], s_next := 2\<rparr>)"
  have al1: "sched_allowed b (OpStart 0 1 [True, False] 0 0)" using f by (simp add: thread_of_def getGid_small)
  have "sched_do id id (OpStart 0 1 [True, False] 0 0) b = Some (b\<lparr>b_sched := s1\<rparr>)"
    using f by (simp add: in_sched_def sched_start_def getGid_small ThreadInfo_new_def s1_def numeral_eq_Suc)
  then have r1: "sched_reach (sched_init 1 2 1 0 (\<lambda>_. 0)) (b\<lparr>b_sched := s1\<rparr>)" by (rule sched_next [OF b(1) al1 sh sh])
  have g: "s_heap s1 = [0 \<mapsto> t, 1 \<mapsto> ?u]" "s_gidMap s1 = [0 \<mapsto> 0, 1 \<mapsto> 1]" "s_contexts s1 = [\<lparr>c_state = USED, c_cur = Some 0\<rparr>, \<lparr>c_state = IDLE, c_cur = None\<rparr>]" "s_freeList s1 = [1]" "s_runQueue s1 = []"
    "s_outQueue s1 = []" "s_sleepQueue s1 = []" "s_numCores s1 = 2" "s_schedQuantum s1 = 1" "s_curPhase s1 = 0" "s_numPhases s1 = 0" "s_scheduled s1 = 1"
    "n_occHist (s_stats s1) = [0, 0, 0]" "n_runQueueHist (s_stats s1) = replicate 17 0"
    using f by (simp_all add: s1_def bump_def)
  define s2 where "s2 = bump (\<lambda>n. n\<lparr>n_wait := n_wait n + 1\<rparr>) (s1\<lparr>s_runQueue := [1], s_heap := [0 \<mapsto> t, 1 \<mapsto> ?u\<lparr>th_state := T_QUEUED, th_futexWord := 1\<rparr>]\<rparr>)"
  have al2: "sched_allowed (b\<lparr>b_sched := s1\<rparr>) (OpJoin 0 1)" using g by (simp add: owner_ok_def thread_of_def getGid_small)
  have "sched_do id id (OpJoin 0 1) (b\<lparr>b_sched := s1\<rparr>) = Some (b\<lparr>b_sched := s2\<rparr>)"
    using g by (simp add: thread_of_def getGid_small sched_join_def early_wake_def schedThread_def take_own_def take_free_def steal_out_def allows_def run_push_def owned_def waitForContext_def s2_def)
  then have r2: "sched_reach (sched_init 1 2 1 0 (\<lambda>_. 0)) (b\<lparr>b_sched := s2\<rparr>)" by (rule sched_next [OF r1 al2 sh sh])
  have h: "s_heap s2 = [0 \<mapsto> t, 1 \<mapsto> ?u\<lparr>th_state := T_QUEUED, th_futexWord := 1\<rparr>]" "s_contexts s2 = [\<lparr>c_state = USED, c_cur = Some 0\<rparr>, \<lparr>c_state = IDLE, c_cur = None\<rparr>]" "s_runQueue s2 = [1]"
    "s_outQueue s2 = []" "s_sleepQueue s2 = []" "s_numCores s2 = 2" "s_schedQuantum s2 = 1" "s_curPhase s2 = 0" "s_numPhases s2 = 0" "s_scheduled s2 = 1"
    "n_occHist (s_stats s2) = [0, 0, 0]" "n_runQueueHist (s_stats s2) = replicate 17 0"
    using g by (simp_all add: s2_def bump_def)
  have M: "0 < MAX_THREADS" by (simp add: MAX_THREADS_def)
  have al3: "sched_allowed (b\<lparr>b_sched := s2\<rparr>) (OpSync 0)" using f h M by (simp add: running_ok_def st_def)
  have "\<exists>b'. sched_do id id (OpSync 0) (b\<lparr>b_sched := s2\<rparr>) = Some b' \<and> s_gidMap (b_sched b') = s_gidMap s2 \<and>
      (\<exists>t'. s_heap (b_sched b') 0 = Some t' \<and> th_handoff t' = Some 1 \<and> th_cid t' = 0)"
    using f h M by (simp add: sched_sync_def bar_sync_def tryWakeNext_def checkRunList_def checkEndPhase_def cleanup_def wake_next_def st_def
      callback_def phase_stats_def hist_inc_def schedTick_def numeral_2_eq_2 allows_def list_remove_def bump_def log_call_def Let_def)
  then obtain b' where b': "sched_do id id (OpSync 0) (b\<lparr>b_sched := s2\<rparr>) = Some b'" "s_gidMap (b_sched b') = s_gidMap s2"
      "\<exists>t'. s_heap (b_sched b') 0 = Some t' \<and> th_handoff t' = Some 1 \<and> th_cid t' = 0" by blast
  have r3: "sched_reach (sched_init 1 2 1 0 (\<lambda>_. 0)) b'" by (rule sched_next [OF r2 al3 sh sh b'(1)])
  have m: "s_gidMap s2 = [0 \<mapsto> 0, 1 \<mapsto> 1]" using g by (simp add: s2_def bump_def)
  then have th: "thread_of 0 1 b' = Some 1" "thread_of 0 1 (b\<lparr>b_sched := s2\<rparr>) = Some 1" using b'(2) by (simp_all add: thread_of_def getGid_small)
  have "s_heap (b_sched (b\<lparr>b_sched := s2\<rparr>)) = [0 \<mapsto> t, 1 \<mapsto> ?u\<lparr>th_state := T_QUEUED, th_futexWord := 1\<rparr>]"
      "s_runQueue (b_sched (b\<lparr>b_sched := s2\<rparr>)) = [1]" "s_numCores (b_sched (b\<lparr>b_sched := s2\<rparr>)) = 2"
      "c_cur (s_contexts (b_sched (b\<lparr>b_sched := s2\<rparr>)) ! 1) = None" using h by simp_all
  moreover have "th_state (?u\<lparr>th_state := T_QUEUED, th_futexWord := 1\<rparr>) = T_QUEUED" "th_mask (?u\<lparr>th_state := T_QUEUED, th_futexWord := 1\<rparr>) = [True, False]" by simp_all
  ultimately show ?thesis using r2 r3 th b'(3) by blast
qed

text \<open>A thread that goes to sleep leaves its core free.\<close>

lemma one_thread_sleeps:
  "\<exists>b t. sched_reach (sched_init 1 2 1 0 (\<lambda>_. 0)) b \<and> s_heap (b_sched b) 0 = Some t \<and> th_wakeupPhase t = 3 \<and> s_sleepQueue (b_sched b) = [0] \<and>
     s_scheduled (b_sched b) = 0 \<and> s_outQueue (b_sched b) = []"
proof -
  obtain b t where b: "sched_reach (sched_init 1 2 1 0 (\<lambda>_. 0)) b" "ran_alone b t" using one_thread_runs by blast
  have sh: "\<forall>i. id i \<le> (i :: nat)" by simp
  have M: "0 < MAX_THREADS" by (simp add: MAX_THREADS_def)
  note f = b(2) [unfolded ran_alone_def]
  define s1 where "s1 = (b_sched b)\<lparr>s_heap := [0 \<mapsto> t\<lparr>th_marked := True, th_wakeupPhase := 3, th_futexWord := 1\<rparr>]\<rparr>"
  have al1: "sched_allowed b (OpMark 0 0 3)" using f M by (simp add: thread_of_def getGid_small owner_ok_def running_ok_def st_def)
  have "sched_do id id (OpMark 0 0 3) b = Some (b\<lparr>b_sched := s1\<rparr>)"
    using f by (simp add: in_sched_def thread_of_def getGid_small markForSleep_def s1_def)
  then have r1: "sched_reach (sched_init 1 2 1 0 (\<lambda>_. 0)) (b\<lparr>b_sched := s1\<rparr>)" by (rule sched_next [OF b(1) al1 sh sh])
  have al2: "sched_allowed (b\<lparr>b_sched := s1\<rparr>) (OpLeave 0 0 0)" using f M by (simp add: s1_def thread_of_def getGid_small owner_ok_def running_ok_def st_def)
  have "\<exists>b'. sched_do id id (OpLeave 0 0 0) (b\<lparr>b_sched := s1\<rparr>) = Some b' \<and> (\<exists>t. s_heap (b_sched b') 0 = Some t \<and> th_wakeupPhase t = 3) \<and>
      s_sleepQueue (b_sched b') = [0] \<and> s_scheduled (b_sched b') = 0 \<and> s_outQueue (b_sched b') = []"
    using f M by (simp add: s1_def getGid_small sched_leave_def deschedule_def sleep_insert_def owned_def schedContext_def free_push_def bar_leave_def
      tryWakeNext_def checkRunList_def checkEndPhase_def wake_next_def st_def bump_def log_call_def Let_def)
  then show ?thesis using sched_next [OF r1 al2 sh sh] by blast
qed

section \<open>Properties\<close>



text \<open>
  C9. No core idles while a thread waits for it, as long as masks are not changed under a queued thread. In every state reached by the calls that \<open>sched_allowed\<close> admits, where in
  particular a mask given to a thread on the run queue names only cores whose thread runs, every core that a thread on the run queue may use has a thread that is
  running and is in the barrier: none is free or kept by a thread that is out. (\<open>updateMask\<close> itself does not check this.)
\<close>

theorem scheduler_work_conserving:
  assumes "0 < par" "0 < n" "n \<le> MAX_THREADS" "0 < q" "sched_reach (sched_init par n q pl junk) b"
    and "a \<in> set (s_runQueue (b_sched b))" "s_heap (b_sched b) a = Some t" "c < s_numCores (b_sched b)" "th_mask t ! c"
  shows "\<exists>x u. c_cur (s_contexts (b_sched b) ! c) = Some x \<and> s_heap (b_sched b) x = Some u \<and> th_state u = T_RUNNING \<and> th_cid u = c \<and>
    (st b c = RUNNING \<or> st b c = WAITING)"
proof -
  have S: "sys_inv b" by (rule sched_reach_inv [OF assms(5,1-4)])
  note p = sys_parts [OF S]
  have "may (s_heap (b_sched b)) a c" using assms(7,9) by (simp add: may_def)
  then have r: "runs (b_sched b) c" using p(2) assms(6,8) by (simp add: sinv_def i_work_def)
  then obtain x where x: "cur (s_contexts (b_sched b)) c = Some x" "tst (s_heap (b_sched b)) x = Some T_RUNNING" by (auto simp: run_on_def)
  then obtain u where u: "s_heap (b_sched b) x = Some u" "th_state u = T_RUNNING" by (auto simp: tst_Some)
  have "th_cid u = c" using sinv_context(3) [OF p(2) assms(8) x(1)] u(1) by auto
  moreover have "inb b c" using p(5) assms(8) r by blast
  ultimately show ?thesis using x(1) u by (auto simp: cur_def inb_def)
qed

theorem scheduler_work_conserving_witness:
  "\<exists>b x. sched_reach (sched_init 1 2 1 0 (\<lambda>_. 0)) b \<and> s_runQueue (b_sched b) = [1] \<and> c_cur (s_contexts (b_sched b) ! 0) = Some x"
proof -
  obtain b t u where b: "sched_reach (sched_init 1 2 1 0 (\<lambda>_. 0)) b" "s_heap (b_sched b) = [0 \<mapsto> t, 1 \<mapsto> u]" "th_mask u = [True, False]"
      "s_runQueue (b_sched b) = [1]" "s_numCores (b_sched b) = 2" using two_threads_queue by blast
  have q: "1 \<in> set (s_runQueue (b_sched b))" "s_heap (b_sched b) 1 = Some u" "0 < s_numCores (b_sched b)" "th_mask u ! 0" using b(2-5) by simp_all
  show ?thesis using scheduler_work_conserving [OF _ _ _ _ b(1) q] b(1,4) by (auto simp: MAX_THREADS_def)
qed

text \<open>
  C10. Cores are told to join and to leave in turn. In the calls that the scheduler has made into the cores so far, no core joins that has joined or leaves
  that has not, and the cores that have joined are those whose thread runs, and those that are in the barrier.
\<close>

theorem scheduler_cores_join_and_leave_in_turn:
  assumes "0 < par" "0 < n" "n \<le> MAX_THREADS" "0 < q" "sched_reach (sched_init par n q pl junk) b"
  shows "log_ok (s_log (b_sched b)) \<and> (\<forall>c < s_numCores (b_sched b).
    (core_on (s_log (b_sched b)) c \<longleftrightarrow> st b c = RUNNING \<or> st b c = WAITING) \<and>
    (core_on (s_log (b_sched b)) c \<longleftrightarrow> (\<exists>a t. s_heap (b_sched b) a = Some t \<and> th_state t = T_RUNNING \<and> th_cid t = c)))"
proof -
  have S: "sys_inv b" by (rule sched_reach_inv [OF assms(5,1-4)])
  note p = sys_parts [OF S]
  have "runs (b_sched b) c \<longleftrightarrow> (\<exists>a t. s_heap (b_sched b) a = Some t \<and> th_state t = T_RUNNING \<and> th_cid t = c)" if c: "c < s_numCores (b_sched b)" for c
  proof
    assume "runs (b_sched b) c"
    then obtain x u where "cur (s_contexts (b_sched b)) c = Some x" "s_heap (b_sched b) x = Some u" "th_state u = T_RUNNING" by (auto simp: run_on_def tst_Some)
    then show "\<exists>a t. s_heap (b_sched b) a = Some t \<and> th_state t = T_RUNNING \<and> th_cid t = c" using sinv_context(3) [OF p(2) c, of x] by auto
  next
    assume "\<exists>a t. s_heap (b_sched b) a = Some t \<and> th_state t = T_RUNNING \<and> th_cid t = c"
    then obtain a t where t: "s_heap (b_sched b) a = Some t" "th_state t = T_RUNNING" "th_cid t = c" by blast
    then show "runs (b_sched b) c" using sinv_running(5) [OF p(2) t(1)] by (simp add: run_on_def tst_def)
  qed
  moreover have "core_on (s_log (b_sched b)) c \<longleftrightarrow> inb b c" "inb b c \<longleftrightarrow> runs (b_sched b) c" if "c < s_numCores (b_sched b)" for c
    using p(5,6) [OF that] by blast+
  ultimately show ?thesis using p(7) by (simp add: inb_def disj_commute)
qed

theorem scheduler_cores_join_and_leave_in_turn_witness:
  "\<exists>b. sched_reach (sched_init 1 2 1 0 (\<lambda>_. 0)) b \<and> log_ok (s_log (b_sched b)) \<and> core_on (s_log (b_sched b)) 0"
proof -
  obtain b t where b: "sched_reach (sched_init 1 2 1 0 (\<lambda>_. 0)) b" "ran_alone b t" using one_thread_runs by blast
  have "\<exists>a t. s_heap (b_sched b) a = Some t \<and> th_state t = T_RUNNING \<and> th_cid t = 0" "0 < s_numCores (b_sched b)" using b(2) by (auto simp: ran_alone_def)
  then show ?thesis using scheduler_cores_join_and_leave_in_turn [OF _ _ _ _ b(1)] b(1) by (auto simp: MAX_THREADS_def)
qed

text \<open>
  C11. The watchdog and sleeping threads. When all threads that hold a core are out and some sleep, the loop that drives the phases forward returns. It ends at least one phase and none
  after the one that the first sleeper asked for. It has then reached that phase and woken the sleeper up, or it has stopped before it, in a phase in which a
  thread waited for the lock or the run was over (\<open>brk\<close>), and the thread still sleeps. So when that happens in no earlier phase, the sleeper wakes in exactly its phase.
\<close>

theorem watchdog_wakes_first_sleeper:
  assumes "0 < par" "0 < n" "n \<le> MAX_THREADS" "0 < q" "sched_reach (sched_init par n q pl junk) b" "\<forall>k i. rs k i \<le> i"
    and "s_scheduled (b_sched b) = length (s_outQueue (b_sched b))" "s_sleepQueue (b_sched b) = a # sq" "s_heap (b_sched b) a = Some t"
  shows "\<exists>s' t'. watchdog_sleepers rs brk (s_curPhase (b_sched b)) (b_sched b) = Some s' \<and> s_heap s' a = Some t' \<and>
    s_curPhase (b_sched b) < s_curPhase s' \<and> s_curPhase s' \<le> th_wakeupPhase t \<and>
    (s_curPhase s' = th_wakeupPhase t \<and> th_state t' = T_BLOCKED \<or>
     s_curPhase s' < th_wakeupPhase t \<and> brk (s_curPhase s') \<and> th_state t' = T_SLEEPING) \<and>
    ((\<forall>k. s_curPhase (b_sched b) < k \<and> k < th_wakeupPhase t \<longrightarrow> \<not> brk k) \<longrightarrow> s_curPhase s' = th_wakeupPhase t \<and> th_state t' = T_BLOCKED)"
proof -
  have S: "sys_inv b" by (rule sched_reach_inv [OF assms(5,1-4)])
  note p = sys_parts [OF S]
  have o: "all_out (b_sched b)" using assms(7,8) by (simp add: all_out_def)
  have "a \<in> set (s_sleepQueue (b_sched b))" using assms(8) by simp
  then have a: "tst (s_heap (b_sched b)) a = Some T_SLEEPING" using p(2) unfolding sinv_def i_sleep_def by blast
  have w: "wake (s_heap (b_sched b)) a = th_wakeupPhase t" using assms(9) by (simp add: wake_def)
  have "sys_inv (b\<lparr>b_sched := b_sched b\<rparr>)" using S by simp
  from drive_ok [OF this all_out_none_run [OF p(2) o] a assms(6), of brk] obtain s' where
    s': "drive rs brk a (b_sched b) = Some s'" "sys_inv (b\<lparr>b_sched := s'\<rparr>)" "s_curPhase (b_sched b) < s_curPhase s'" "s_curPhase s' \<le> th_wakeupPhase t"
      "s_curPhase s' = th_wakeupPhase t \<and> tst (s_heap s') a = Some T_BLOCKED \<or> brk (s_curPhase s') \<and> tst (s_heap s') a = Some T_SLEEPING \<and> wake (s_heap s') a = th_wakeupPhase t"
    unfolding w by blast
  obtain t' where t': "s_heap s' a = Some t'" using s'(5) by (auto simp: tst_Some)
  have sl: "s_curPhase s' < th_wakeupPhase t" if "th_state t' = T_SLEEPING" "wake (s_heap s') a = th_wakeupPhase t"
    using sinv_thread(1) [OF sys_parts(2) [OF s'(2)], of a t'] t' that by (simp add: thr_ok_def wake_def)
  let ?s = "bump (\<lambda>n. n\<lparr>n_idlePeriods := n_idlePeriods n + 1\<rparr>) s'"
  have e: "watchdog_sleepers rs brk (s_curPhase (b_sched b)) (b_sched b) = Some ?s" using o s'(1) assms(8) by (simp add: watchdog_sleepers_def)
  have d: "s_curPhase s' = th_wakeupPhase t \<and> th_state t' = T_BLOCKED \<or> s_curPhase s' < th_wakeupPhase t \<and> brk (s_curPhase s') \<and> th_state t' = T_SLEEPING"
    using s'(5) t' sl by (auto simp: tst_Some)
  then show ?thesis using e s'(3,4) t' by (intro exI [of _ ?s] exI [of _ t'] conjI) auto
qed

theorem watchdog_wakes_first_sleeper_witness:
  "\<exists>b s' s''. sched_reach (sched_init 1 2 1 0 (\<lambda>_. 0)) b \<and> watchdog_sleepers (\<lambda>_. id) (\<lambda>k. k = 7) (s_curPhase (b_sched b)) (b_sched b) = Some s' \<and> s_curPhase s' = 3 \<and>
     watchdog_sleepers (\<lambda>_. id) (\<lambda>_. True) (s_curPhase (b_sched b)) (b_sched b) = Some s'' \<and> s_curPhase s'' \<le> 3"
proof -
  obtain b t where b: "sched_reach (sched_init 1 2 1 0 (\<lambda>_. 0)) b" "s_heap (b_sched b) 0 = Some t" "th_wakeupPhase t = 3" "s_sleepQueue (b_sched b) = [0]"
      "s_scheduled (b_sched b) = 0" "s_outQueue (b_sched b) = []" using one_thread_sleeps by blast
  have o: "s_scheduled (b_sched b) = length (s_outQueue (b_sched b))" using b(5,6) by simp
  have pre: "(0 :: nat) < 1" "(0 :: nat) < 2" "2 \<le> MAX_THREADS" "\<forall>k i. (\<lambda>_. id) k i \<le> (i :: nat)" by (simp_all add: MAX_THREADS_def)
  note W = watchdog_wakes_first_sleeper [where rs = "\<lambda>_. id", OF pre(1-3,1) b(1) pre(4) o b(4,2)]
  have "\<forall>k. s_curPhase (b_sched b) < k \<and> k < th_wakeupPhase t \<longrightarrow> \<not> k = 7" using b(3) by simp
  then obtain s' where "watchdog_sleepers (\<lambda>_. id) (\<lambda>k. k = 7) (s_curPhase (b_sched b)) (b_sched b) = Some s'" "s_curPhase s' = 3"
    using W [of "\<lambda>k. k = 7"] b(3) by auto
  moreover obtain s'' where "watchdog_sleepers (\<lambda>_. id) (\<lambda>_. True) (s_curPhase (b_sched b)) (b_sched b) = Some s''" "s_curPhase s'' \<le> 3"
    using W [of "\<lambda>_. True"] b(3) by auto
  ultimately show ?thesis using b(1) by blast
qed

text \<open>
  C12. The end of a time slice. A thread that was told to hand its core on gives it to the thread that was picked and wakes it up. It goes on at once
  on another core that its mask allows, or it is last in the run queue.
\<close>

theorem handoff_gives_core_to_picked:
  assumes "0 < par" "0 < n" "n \<le> MAX_THREADS" "0 < q" "sched_reach (sched_init par n q pl junk) b" "\<forall>i. shuf i \<le> i"
    and "s_heap (b_sched b) a = Some t" "th_handoff t = Some d"
  shows "\<exists>b'. sync_return rs shuf a b = Some b' \<and> (\<exists>u'. s_heap (b_sched b') d = Some u' \<and> th_state u' = T_RUNNING \<and> th_cid u' = th_cid t) \<and>
    (\<exists>t'. s_heap (b_sched b') a = Some t' \<and> (th_state t' = T_RUNNING \<and> th_mask t ! th_cid t' \<or> th_state t' = T_QUEUED \<and> last (s_runQueue (b_sched b')) = a))"
  using sync_return_ok [OF sched_reach_inv [OF assms(5,1-4)] assms(7,8,6), of rs] by blast

theorem handoff_gives_core_to_picked_witness:
  "\<exists>b b'. sched_reach (sched_init 1 2 1 0 (\<lambda>_. 0)) b \<and> sync_return id id 0 b = Some b' \<and>
     (\<exists>u'. s_heap (b_sched b') 1 = Some u' \<and> th_state u' = T_RUNNING \<and> th_cid u' = 0)"
proof -
  obtain b t where b: "sched_reach (sched_init 1 2 1 0 (\<lambda>_. 0)) b" "s_heap (b_sched b) 0 = Some t" "th_handoff t = Some 1" "th_cid t = 0"
    using two_threads_queue by blast
  show ?thesis using handoff_gives_core_to_picked [OF _ _ _ _ b(1) _ b(2,3), of id id] b(1,4) by (auto simp: MAX_THREADS_def)
qed

text \<open>
  Threads and their identifiers. The identifier of a thread gives its process and thread number back when both have 16 bits, and every identifier
  is that of its parts.
\<close>

theorem gid_roundtrip:
  fixes pid tid :: "16 word"
  shows "getPid (getGid (ucast pid) (ucast tid)) = ucast pid \<and> getTid (getGid (ucast pid) (ucast tid)) = ucast tid \<and> getGid (getPid gid) (getTid gid) = gid"
proof -
  have tid: "getTid g = take_bit 16 g" for g by (simp add: getTid_def take_bit_eq_mask mask_eq_exp_minus_1)
  have "getPid (getGid (ucast pid) (ucast tid)) = ucast pid" "getTid (getGid (ucast pid) (ucast tid)) = ucast tid"
    by (rule bit_word_eqI, auto simp: getPid_def tid getGid_def bit_simps dest: bit_imp_le_length)+
  moreover have "getGid (getPid gid) (getTid gid) = gid"
    by (rule bit_word_eqI) (auto simp: getPid_def tid getGid_def bit_simps dest: bit_imp_le_length)
  ultimately show ?thesis by blast
qed

text \<open>
  C38. The watchdog turns a fake leave into a real one in two critical sections: it ends the fake leave, gives the lock up, and calls \<open>leave\<close>. When the
  system call returns in between, \<open>join\<close> of the thread finds it running without a fake leave, and its assertion on the state fails.
\<close>

theorem evicted_thread_join_asserts:
  assumes "0 < par" "0 < n" "n \<le> MAX_THREADS" "0 < q" "sched_reach (sched_init par n q pl junk) b"
    and "s_heap (b_sched b) a = Some t" "th_fakeLeave t = Some fl"
  shows "\<exists>s'. finishFakeLeave a (b_sched b) = Some s' \<and> sched_join rs shuf a (b\<lparr>b_sched := s'\<rparr>) = None"
proof -
  have S: "sys_inv b" by (rule sched_reach_inv [OF assms(5,1-4)])
  have "th_fakeLeave t \<noteq> None" using assms(7) by simp
  then obtain s' where s': "finishFakeLeave a (b_sched b) = Some s'" "s_heap s' a = Some (t\<lparr>th_fakeLeave := None\<rparr>)" "th_state t = T_RUNNING" "\<not> th_marked t"
    using finish_fake [OF S assms(6)] by (auto simp: running_ok_def)
  then show ?thesis by (simp add: sched_join_def early_wake_def)
qed

theorem evicted_thread_join_asserts_witness:
  "\<exists>b s'. sched_reach (sched_init 1 2 1 0 (\<lambda>_. 0)) b \<and> finishFakeLeave 0 (b_sched b) = Some s' \<and> sched_join id id 0 (b\<lparr>b_sched := s'\<rparr>) = None"
proof -
  obtain b t where b: "sched_reach (sched_init 1 2 1 0 (\<lambda>_. 0)) b" "ran_alone b t" using one_thread_runs by blast
  have M: "0 < MAX_THREADS" by (simp add: MAX_THREADS_def)
  have sh: "\<forall>i. id i \<le> (i :: nat)" by simp
  let ?fl = "\<lparr>fl_pc = 64, fl_syscall = 0, fl_arg0 = 0, fl_arg1 = 0\<rparr>"
  have al: "sched_allowed b (OpSyscall 0 0 0 ?fl)" using b(2) M by (simp add: ran_alone_def owner_ok_def thread_of_def getGid_small running_ok_def st_def)
  have "\<exists>b1. sched_do id id (OpSyscall 0 0 0 ?fl) b = Some b1 \<and> s_heap (b_sched b1) 0 = Some (t\<lparr>th_fakeLeave := Some ?fl\<rparr>)"
    using b(2) M by (auto simp: ran_alone_def syscallLeave_def getGid_small allows_def in_sched_def begin_fake_leave_def Let_def)
  then obtain b1 where b1: "sched_do id id (OpSyscall 0 0 0 ?fl) b = Some b1" "s_heap (b_sched b1) 0 = Some (t\<lparr>th_fakeLeave := Some ?fl\<rparr>)" by blast
  have r: "sched_reach (sched_init 1 2 1 0 (\<lambda>_. 0)) b1" by (rule sched_next [OF b(1) al sh sh b1(1)])
  show ?thesis using evicted_thread_join_asserts [OF _ _ _ _ r b1(2), of ?fl id id] r by (auto simp: MAX_THREADS_def)
qed

text \<open>
  C39. A thread that has been picked at the end of a time slice is off the run queue while it waits for the core. When its process is cleaned up then,
  \<open>finish\<close> fails its assertion that a queued thread is on the run queue.
\<close>

theorem finish_of_picked_thread_asserts:
  assumes "0 < par" "0 < n" "n \<le> MAX_THREADS" "0 < q" "sched_reach (sched_init par n q pl junk) b"
    and "thread_of pid tid b = Some a" "s_heap (b_sched b) v = Some t" "th_handoff t = Some a"
  shows "sched_finish rs shuf (getGid pid tid) b = None"
proof -
  have S: "sys_inv b" by (rule sched_reach_inv [OF assms(5,1-4)])
  note p = sys_parts [OF S]
  have ir: "i_run {} (tst (s_heap (b_sched b))) (hand (s_heap (b_sched b))) (s_runQueue (b_sched b))" using p(2) by (simp add: sinv_def)
  have "hand (s_heap (b_sched b)) v = Some a" using assms(7,8) by (simp add: hand_def)
  then have ra: "a \<in> ran (hand (s_heap (b_sched b)))" by (auto simp: ran_def)
  then obtain u where u: "s_heap (b_sched b) a = Some u" "th_state u = T_QUEUED" "a \<notin> set (s_runQueue (b_sched b))"
    using ir by (auto simp: i_run_def tst_Some)
  have "th_fakeLeave u = None" using sinv_thread(1) [OF p(2) u(1)] u(2) by (auto simp: thr_ok_def)
  then show ?thesis using assms(6) u by (simp add: sched_finish_def finish_begin_def thread_of_def Let_def leave_if_def in_sched_def finish_end_def list_remove_def)
qed

theorem finish_of_picked_thread_asserts_witness:
  "\<exists>b. sched_reach (sched_init 1 2 1 0 (\<lambda>_. 0)) b \<and> sched_finish id id (getGid 0 1) b = None"
proof -
  obtain b t where b: "sched_reach (sched_init 1 2 1 0 (\<lambda>_. 0)) b" "thread_of 0 1 b = Some 1" "s_heap (b_sched b) 0 = Some t" "th_handoff t = Some 1"
    using two_threads_queue by blast
  show ?thesis using finish_of_picked_thread_asserts [OF _ _ _ _ b(1-4), of id id] b(1) by (auto simp: MAX_THREADS_def)
qed

section \<open>Masks of queued threads\<close>

lemma tick_loop_stuck:
  assumes "\<forall>x \<in> set q. \<exists>u. s_heap s x = Some u \<and> length (th_mask u) = n" "set avail \<subseteq> {..<n}" "c \<in> set avail" "c < length (s_contexts s)" "c_cur (s_contexts s ! c) = None"
    and "a \<in> set q" "\<And>u. s_heap s a = Some u \<Longrightarrow> \<forall>d < n. th_mask u ! d \<longleftrightarrow> d = c"
  shows "tick_loop q avail s = None"
  using assms
proof (induction q avail s rule: tick_loop.induct)
  case (2 x q avail s)
  obtain u where u: "s_heap s x = Some u" "length (th_mask u) = n" using "2.prems"(1) by auto
  have fw: "first_with (allows s x) avail = Some (find (may (s_heap s) x) avail)"
    by (rule first_with_find) (rule allows_may [OF u], use "2.prems"(2) in auto)
  have ne: "avail \<noteq> []" using "2.prems"(3) by auto
  show ?case
  proof (cases "find (may (s_heap s) x) avail")
    case None
    have "x \<noteq> a"
    proof
      assume "x = a"
      then have "may (s_heap s) x c" using "2.prems"(2,3,7) u by (auto simp: may_def)
      then show False using None "2.prems"(3) by (auto simp: find_None_iff)
    qed
    then have "a \<in> set q" using "2.prems"(6) by simp
    then show ?thesis using "2.IH"(1) [OF ne fw [unfolded None] refl] fw None ne "2.prems" by simp
  next
    case (Some d)
    then have d: "d \<in> set avail" "may (s_heap s) x d" by (auto simp: find_Some_iff)
    show ?thesis
    proof (cases "d = c")
      case True
      then show ?thesis using fw Some ne "2.prems"(4,5) by simp
    next
      case False
      have "x \<noteq> a"
      proof
        assume "x = a"
        then show False using d False "2.prems"(2,7) u by (auto simp: may_def)
      qed
      then have aq: "a \<in> set q" using "2.prems"(6) by simp
      show ?thesis
      proof (rule ccontr)
        assume "tick_loop (x # q) avail s \<noteq> None"
        then obtain y v s1 rq where w: "aget (s_contexts s) d = Some y" "c_cur y = Some v" "upd_th v (\<lambda>t. t\<lparr>th_handoff := Some x\<rparr>) s = Some s1"
            "list_remove x (s_runQueue s1) = Some rq" "tick_loop q (remove1 d avail) (s1\<lparr>s_runQueue := rq\<rparr>) \<noteq> None"
          using fw Some ne by (auto simp: bind_eq_Some_conv)
        obtain tv where tv: "s_heap s v = Some tv" "s1 = s\<lparr>s_heap := (s_heap s)(v \<mapsto> tv\<lparr>th_handoff := Some x\<rparr>)\<rparr>"
          using w(3) by (auto simp: upd_th_def bind_eq_Some_conv)
        have "tick_loop q (remove1 d avail) (s1\<lparr>s_runQueue := rq\<rparr>) = None"
        proof (rule "2.IH"(2) [OF ne fw [unfolded Some] refl w(1-4)])
          show "\<forall>z \<in> set q. \<exists>u. s_heap (s1\<lparr>s_runQueue := rq\<rparr>) z = Some u \<and> length (th_mask u) = n" using "2.prems"(1) tv by auto
          show "set (remove1 d avail) \<subseteq> {..<n}" using "2.prems"(2) set_remove1_subset [of d avail] by blast
          show "c \<in> set (remove1 d avail)" using "2.prems"(3) False by (simp add: in_set_remove1)
        qed (use "2.prems" tv aq in \<open>auto split: if_splits\<close>)
        then show False using w(5) by blast
      qed
    qed
  qed
qed simp

text \<open>
  C37. A queued thread must not get another mask. \<open>updateMask\<close> accepts any thread, and \<open>sched_setaffinity\<close> of another thread calls it. When the new mask
  of a queued thread allows only a core that is free, every end of a time slice fails the assertion that the core has a thread; the note in
  \<open>schedTick\<close> claims that nothing on the free list can be matched.
\<close>

theorem mask_of_queued_thread_breaks_tick:
  assumes "0 < par" "0 < n" "n \<le> MAX_THREADS" "0 < q" "sched_reach (sched_init par n q pl junk) b" "\<forall>i. rs i \<le> i"
    and "a \<in> set (s_runQueue (b_sched b))" "thread_of pid tid b = Some a"
    and "c < s_numCores (b_sched b)" "c_cur (s_contexts (b_sched b) ! c) = None" "length m = s_numCores (b_sched b)" "\<forall>d < s_numCores (b_sched b). m ! d \<longleftrightarrow> d = c"
  shows "\<exists>s'. updateMask pid tid m (b_sched b) = Some s' \<and> schedTick rs s' = None"
proof -
  have S: "sys_inv b" by (rule sched_reach_inv [OF assms(5,1-4)])
  note p = sys_parts [OF S]
  let ?s = "b_sched b" let ?n = "s_numCores (b_sched b)"
  obtain t where t: "s_heap ?s a = Some t" using sinv_queued [OF p(2) assms(7)] by blast
  let ?s' = "?s\<lparr>s_heap := (s_heap ?s)(a \<mapsto> t\<lparr>th_mask := m\<rparr>)\<rparr>"
  have "m ! c" using assms(9,12) by simp
  then have "True \<in> set m" using assms(9,11) nth_mem [of c m] by simp
  then have "\<exists>x \<in> set m. x" by blast
  then have u: "updateMask pid tid m ?s = Some ?s'" using assms(8,11) t by (auto simp: updateMask_def thread_of_def filter_empty_conv)
  obtain xs where xs: "fisher_yates rs (?n - 1) [0..<?n] = Some xs" "set xs = {..<?n}"
    using fisher_yates_ok [of "?n - 1" "[0..<?n]" rs] assms(6,9) by (auto simp: lessThan_atLeast0)
  have "tick_loop (s_runQueue ?s') xs ?s' = None"
  proof (rule tick_loop_stuck [where n = ?n and a = a and c = c])
    show "\<forall>x \<in> set (s_runQueue ?s'). \<exists>u. s_heap ?s' x = Some u \<and> length (th_mask u) = ?n"
    proof
      fix x assume "x \<in> set (s_runQueue ?s')"
      then obtain u where u: "s_heap ?s x = Some u" using sinv_queued [OF p(2), of x] by auto
      then show "\<exists>u. s_heap ?s' x = Some u \<and> length (th_mask u) = ?n" using sinv_thread(1) [OF p(2) u] assms(11) by (auto simp: thr_ok_def)
    qed
  qed (use xs assms(7,9,10,12) sinv_context(1) [OF p(2) assms(9)] in auto)
  then show ?thesis using u xs(1) by (simp add: schedTick_def)
qed

theorem mask_of_queued_thread_breaks_tick_witness:
  "\<exists>b s'. sched_reach (sched_init 1 2 1 0 (\<lambda>_. 0)) b \<and> updateMask 0 1 [False, True] (b_sched b) = Some s' \<and> schedTick id s' = None"
proof -
  obtain b where b: "sched_reach (sched_init 1 2 1 0 (\<lambda>_. 0)) b" "s_runQueue (b_sched b) = [1]" "thread_of 0 1 b = Some 1" "s_numCores (b_sched b) = 2"
      "c_cur (s_contexts (b_sched b) ! 1) = None" using two_threads_queue by blast
  have h: "1 \<in> set (s_runQueue (b_sched b))" "1 < s_numCores (b_sched b)" "length [False, True] = s_numCores (b_sched b)"
      "\<forall>d < s_numCores (b_sched b). [False, True] ! d \<longleftrightarrow> d = 1" using b(2,4) by (simp_all add: numeral_2_eq_2 less_Suc_eq_0_disj)
  show ?thesis using mask_of_queued_thread_breaks_tick [OF _ _ _ _ b(1) _ h(1) b(3) h(2) b(5) h(3,4), of id] b(1) by (auto simp: MAX_THREADS_def)
qed

end
