(* ===== verification/Spec2Isabelle.thy ===== *)
theory Spec2Isabelle
  imports BitHacks MemHier MTRandom HashFam ReplPolicies Compressor CacheArrays ZCacheArray Coherence PrioQueue TimingEvents MemCtrls
    Cache Hierarchy HierParent HierCore HierSystem InList Locks Barrier SlabAlloc EventGraph PartRepl UMonitor Lookahead EventQueue OOOStructs OOOCore Scheduler SchedInv SchedSteps SchedSys SchedProps
begin

text \<open>
  A verification development for the cache simulator under \<^verbatim>\<open>src/\<close>: a fork of the zsim multicore simulator whose set-associative arrays also
  account for the compression of the lines they hold.

  \<^bold>\<open>The program\<close>

  The simulator runs the threads of a program in phases. In the bound part of a phase every core simulates its instructions; a load or a store goes
  through the filter of the core (\<^verbatim>\<open>filter_cache.h\<close>) to its first-level cache and, on a miss, through the memory hierarchy: a cache (\<^verbatim>\<open>cache.cpp\<close>) looks its
  array up (\<^verbatim>\<open>cache_arrays.cpp\<close>), which asks its replacement policy (\<^verbatim>\<open>repl_policies.h\<close>, \<^verbatim>\<open>part_repl_policies.h\<close>) for victims, and its coherence controller
  (\<^verbatim>\<open>coherence_ctrls.cpp\<close>) keeps the MESI state of the lines, the directory of the children, and calls parents and children. The bottom of
  the hierarchy is a memory controller (\<^verbatim>\<open>mem_ctrls.cpp\<close>). The arrays of the level called \<open>l2-0\<close> pass the bytes of their lines to the line
  compressor (\<^verbatim>\<open>compressor.cpp\<close>, \<^verbatim>\<open>compressor_xor.cpp\<close>). Accesses leave timing records, graphs of events (\<^verbatim>\<open>timing_event.h\<close>) allocated in slabs
  (\<^verbatim>\<open>slab_alloc.h\<close>), which the weave part of the phase replays in order of cycles from calendar queues (\<^verbatim>\<open>prio_queue.h\<close>). The threads of the
  host run the cores under a barrier (\<^verbatim>\<open>barrier.h\<close>) that lets a bounded number of them run at a time; the shared structures are protected by the locks
  of \<^verbatim>\<open>locks.h\<close>. Partitioned caches measure the utility of space with monitors (\<^verbatim>\<open>utility_monitor.cpp\<close>, \<^verbatim>\<open>monitor.cpp\<close>) and are resized by the
  lookahead partitioner (\<^verbatim>\<open>lookahead.cpp\<close>).

  \<^bold>\<open>Conventions\<close>

  Theory \<open>Prelude\<close> holds them. Machine integers are words of their width where wrap-around matters and natural numbers where they are sizes or
  indices. An \<open>assert\<close>, a \<open>panic\<close>, an access outside an array and a null pointer end the simulator; operations that can reach one are options and
  \<open>None\<close> is that outcome, so a theorem that an operation returns \<open>Some\<close> shows that none of these happens. A second acquisition of a lock
  by its holder is a failure too. Arrays are lists, structs are records with the names of the source behind a prefix, pointers into a heap are
  numbers. What a virtual call does is a record of functions or a function argument. Statistics counters are modelled where
  the code reads them. Statistics registration, printing and host I/O are not.

  \<^bold>\<open>Theories\<close>

  \<^item> \<open>BitHacks\<close> (\<^verbatim>\<open>bithacks.h\<close>), \<open>MemHier\<close> (\<^verbatim>\<open>memory_hierarchy.h\<close>, \<^verbatim>\<open>memory_hierarchy.cpp\<close>): integer logarithms and powers of two, and the types of
    requests, with their lemmas.
  \<^item> \<open>MTRandom\<close> (\<^verbatim>\<open>mtrand.h\<close>): the Mersenne twister, seeding, saving and loading. A saved state can be loaded back, and draws never leave the state array.
  \<^item> \<open>HashFam\<close> (\<^verbatim>\<open>hash.h\<close>, \<^verbatim>\<open>hash.cpp\<close>): H3, SHA-1 and identity families. H3 is total and linear; the memo of the SHA-1 family is transparent except for 0.
  \<^item> \<open>ReplPolicies\<close> (\<^verbatim>\<open>repl_policies.h\<close>): LRU, tree LRU, NRU, random, LFU and the violation profiler. The locale \<open>repl_policy\<close> is what
    arrays rely on; every policy but LFU interprets it. LRU evicts the least recently used candidate as long as the 32-bit score does not wrap, NRU one with the least reference value.
  \<^item> \<open>Compressor\<close> (\<^verbatim>\<open>compressor.cpp\<close>, \<^verbatim>\<open>compressor_xor.cpp\<close>, \<^verbatim>\<open>visualize.cpp\<close>): line sizes, base-delta compression, pairing of lines by exclusive or.
    A pair can be undone, and compression never grows a line.
  \<^item> \<open>CacheArrays\<close>, \<open>ZCacheArray\<close> (\<^verbatim>\<open>cache_arrays.h\<close>, \<^verbatim>\<open>cache_arrays.cpp\<close>): set-associative and zcache arrays, over any policy
    (\<open>sa_over_policy\<close>, \<open>za_over_policy\<close> extend \<open>repl_policy\<close>); the locale \<open>cache_array\<close> is the contract of an array: lookups and insertions are those of a finite map.
  \<^item> \<open>Coherence\<close> (\<^verbatim>\<open>coherence_ctrls.h\<close>, \<^verbatim>\<open>coherence_ctrls.cpp\<close>), \<open>MemCtrls\<close> (\<^verbatim>\<open>mem_ctrls.cpp\<close>), \<open>Cache\<close> (\<^verbatim>\<open>cache.cpp\<close>, \<^verbatim>\<open>filter_cache.h\<close>): the
    controllers on one store of all states, the memories, the caches and filters. Calls between objects go through \<open>obj_access\<close> and \<open>obj_inval\<close> with
    fuel, the depth of the hierarchy still allowed.
  \<^item> \<open>Hierarchy\<close>, \<open>HierParent\<close>, \<open>HierCore\<close>, \<open>HierSystem\<close>: coherence of a two-level hierarchy with any number of cores. The locale
    \<open>two_level\<close> fixes the arrays (\<open>line_store\<close>) and the shape, and proves that every operation of a core ends, keeps the invariant and releases its locks;
    \<open>HierSystem\<close> interprets it with set-associative LRU arrays and states the theorems over runs of the cores from the constructed
    system. The fuel is 2, the number of levels, and is shown to be enough because the runs return.
  \<^item> \<open>PrioQueue\<close> (\<^verbatim>\<open>prio_queue.h\<close>): the calendar queue. It hands events out in the order of their cycles; the locale \<open>event_queue\<close> is its contract.
  \<^item> \<open>TimingEvents\<close>, \<open>EventGraph\<close> (\<^verbatim>\<open>timing_event.h\<close>, \<^verbatim>\<open>timing_event.cpp\<close>, \<^verbatim>\<open>event_recorder.h\<close>): event graphs and recorders. Visits see
    every child, and \<open>done\<close> fires each child once, enqueues exactly the events that became ready, touches no freed event and ends. Its fuel is bounded by a topological depth of the graph.
  \<^item> \<open>SlabAlloc\<close> (\<^verbatim>\<open>slab_alloc.h\<close>): live objects of the slab allocator never overlap.
  \<^item> \<open>InList\<close> (\<^verbatim>\<open>intrusive_list.h\<close>): the linked list on a heap refines sequences.
  \<^item> \<open>Locks\<close> (\<^verbatim>\<open>locks.h\<close>): step relations of the futex and ticket locks under any interleaving, mutual exclusion and that a waiter is woken.
  \<^item> \<open>Barrier\<close> (\<^verbatim>\<open>barrier.h\<close>): the phase barrier, for any order of joins, syncs and leaves in which a thread that leaves while it waits has its position recorded; the locale \<open>phase_callback\<close> is the scheduler's callback.
  \<^item> \<open>Scheduler\<close>, \<open>SchedInv\<close>, \<open>SchedSteps\<close>, \<open>SchedSys\<close>, \<open>SchedProps\<close> (\<^verbatim>\<open>scheduler.h\<close>, \<^verbatim>\<open>scheduler.cpp\<close>): the scheduler of simulated threads over the barrier, which
    calls back into it at the end of a phase (\<open>SchedSteps\<close> interprets \<open>phase_callback\<close> with it). \<open>Scheduler\<close> has the operations, one function per critical section;
    \<open>SchedInv\<close> the invariant of the scheduler and its pieces; \<open>SchedSteps\<close> and \<open>SchedSys\<close> the invariant of scheduler and barrier together, kept by every
    operation; \<open>SchedProps\<close> the properties of all runs. A run is any sequence of the calls that \<open>sched_allowed\<close> admits; it names the few calls that the code does not prevent
    and that fail. The loop that drives sleeping threads forward may not end by its form and is shown to. The matching of futex wakes is not modelled.
  \<^item> \<open>PartRepl\<close> (\<^verbatim>\<open>part_repl_policies.h\<close>, \<^verbatim>\<open>partition_mapper.cpp\<close>): way partitioning isolates partitions; Vantage keeps its accounting exact and takes no partition
    below its target; resizing completes.
  \<^item> \<open>UMonitor\<close> (\<^verbatim>\<open>utility_monitor.cpp\<close>, \<^verbatim>\<open>monitor.cpp\<close>): the monitor counts the misses of LRU caches of every number of ways at once.
  \<^item> \<open>Lookahead\<close> (\<^verbatim>\<open>lookahead.cpp\<close>): the greedy allocation ends, allocates everything and is greedy in every round; composed with way partitioning it
    hands out more ways than there are.
  \<^item> \<open>EventQueue\<close> (\<^verbatim>\<open>event_queue.h\<close>): a tick per phase calls every due event once and never panics; adaptive events fire on the first phase past their target.
  \<^item> \<open>OOOStructs\<close> (\<^verbatim>\<open>ooo_core.h\<close>): the instruction window is a table of cycles in which every operation takes the first free slot, and its extra slots the next ones; reorder buffer, cycle queue and
    branch predictor.

  \<^item> \<open>OOOCore\<close> (\<^verbatim>\<open>ooo_core.cpp\<close>): the out-of-order core over these structures; its filter caches and recorder are a record of functions (\<open>core_env\<close>). If they
    answer within a bounded latency, a block as the decoder makes it completes (\<open>block_completes\<close>). The invariant \<open>ooo_ok X\<close> says that nothing in the core
    lies beyond cycle \<open>X\<close>; the window needs that horizon to stay less than 2^32 cycles ahead.

  \<^bold>\<open>Not modelled\<close>

  \<^item> Instrumentation and process control (\<^verbatim>\<open>zsim.cpp\<close>, \<^verbatim>\<open>zsim_harness.cpp\<close>, \<^verbatim>\<open>decoder.cpp\<close>, \<^verbatim>\<open>virt/\<close>, \<^verbatim>\<open>debug_zsim.cpp\<close>, \<^verbatim>\<open>pin_cmd.cpp\<close>, \<^verbatim>\<open>cpuid.h\<close>):
    they are glue to the binary instrumentation tool and to the host system, whose behaviour is outside this repository.
  \<^item> \<^verbatim>\<open>init.cpp\<close>, \<^verbatim>\<open>config.cpp\<close>: construction of the objects from a configuration file read by a library. The systems the theorems are about are built by the
    constructors of the model instead.
  \<^item> \<^verbatim>\<open>g_heap/dlmalloc.h.c\<close>, \<^verbatim>\<open>galloc.cpp\<close>: third-party allocator over shared memory. Allocation is the creation of a record.
  \<^item> Statistics (\<^verbatim>\<open>stats.h\<close>, \<^verbatim>\<open>text_stats.cpp\<close>, \<^verbatim>\<open>hdf5_stats.cpp\<close>, \<^verbatim>\<open>profile_stats.h\<close>): reporting only.
  \<^item> The simpler core models (\<^verbatim>\<open>simple_core.cpp\<close>, \<^verbatim>\<open>timing_core.cpp\<close>), the weave phase (\<^verbatim>\<open>contention_sim.cpp\<close>, \<^verbatim>\<open>core_recorder.cpp\<close>), detailed
    memories (\<^verbatim>\<open>ddr_mem.cpp\<close>, \<^verbatim>\<open>detailed_mem.cpp\<close>), the network and the prefetcher are not modelled yet.
\<close>

end
